(* ===== verification/Prelude.thy ===== *)
theory Prelude
  imports
    Main
    "HOL-Library.Word"
    "HOL-Library.AList"
    "HOL-Library.Multiset"
    "HOL-Library.Product_Lexorder"
begin

unbundle bit_operations_syntax

text \<open>
  Shared vocabulary of the Zeolite development.

  A JavaScript string is modelled by HOL's \<open>string\<close>; one \<open>char\<close> is one UTF-16 code unit below
  256, so the model covers the Latin-1 strings (every URL the engine handles is ASCII after
  parsing). A JavaScript \<open>Map\<close> is an association list in insertion order: \<open>get\<close> is \<open>map_of\<close>,
  \<open>set\<close> is \<open>AList.update\<close> (an existing key keeps its position) and \<open>delete\<close> is \<open>AList.delete\<close>.
  JavaScript numbers that count or that hold epoch milliseconds are \<open>nat\<close> or \<open>int\<close>; where the
  source relies on 32 or 64 bit arithmetic the model uses words.
  The URL parser of the platform is not part of the repository: it is a parameter of type
  \<open>url_parser\<close> of every definition that calls \<open>new URL\<close>.

  The theory also holds the two interfaces several components share: choosing the best rule in
  a list by a rank (\<open>selection\<close>) and a bounded registry that forgets its oldest key
  (\<open>bounded_registry\<close>).
\<close>

section \<open>Lemma collections\<close>

named_theorems text_simps \<open>facts on the string functions of the source\<close>
named_theorems omap_simps \<open>facts on insertion-ordered maps\<close>

section \<open>Strings\<close>

type_synonym byte = "8 word"

definition starts_with :: "'a list \<Rightarrow> 'a list \<Rightarrow> bool" where
  "starts_with s p \<longleftrightarrow> take (length p) s = p"

definition ends_with :: "'a list \<Rightarrow> 'a list \<Rightarrow> bool" where
  "ends_with s x \<longleftrightarrow> length x \<le> length s \<and> drop (length s - length x) s = x"

fun index_of :: "'a list \<Rightarrow> 'a \<Rightarrow> nat option" where
  "index_of [] c = None"
| "index_of (x # xs) c = (if x = c then Some 0 else map_option Suc (index_of xs c))"

fun split_on :: "'a \<Rightarrow> 'a list \<Rightarrow> 'a list list" where
  "split_on c [] = [[]]"
| "split_on c (x # xs) =
     (if x = c then [] # split_on c xs
      else case split_on c xs of [] \<Rightarrow> [[x]] | w # ws \<Rightarrow> (x # w) # ws)"

fun join_with :: "'a list \<Rightarrow> 'a list list \<Rightarrow> 'a list" where
  "join_with sep [] = []"
| "join_with sep [w] = w"
| "join_with sep (w # ws) = w @ sep @ join_with sep ws"

abbreviation char_code :: "char \<Rightarrow> nat" where
  "char_code c \<equiv> of_char c"

text \<open>\<open>String.prototype.trim\<close>: the white space and line terminators below code 256.\<close>

definition is_js_space :: "char \<Rightarrow> bool" where
  "is_js_space c \<longleftrightarrow> (9 \<le> char_code c \<and> char_code c \<le> 13) \<or> char_code c = 32 \<or> char_code c = 160"

definition js_trim :: "string \<Rightarrow> string" where
  "js_trim s = rev (dropWhile is_js_space (rev (dropWhile is_js_space s)))"

text \<open>\<open>String.prototype.toLowerCase\<close> on code units below 256.\<close>

definition lower_char :: "char \<Rightarrow> char" where
  "lower_char c =
     (if (65 \<le> char_code c \<and> char_code c \<le> 90)
       \<or> (192 \<le> char_code c \<and> char_code c \<le> 222 \<and> char_code c \<noteq> 215)
      then char_of (char_code c + 32) else c)"

definition js_lower :: "string \<Rightarrow> string" where
  "js_lower = map lower_char"

definition is_digit :: "char \<Rightarrow> bool" where
  "is_digit c \<longleftrightarrow> 48 \<le> char_code c \<and> char_code c \<le> 57"

definition is_alnum :: "char \<Rightarrow> bool" where
  "is_alnum c \<longleftrightarrow> is_digit c \<or> (65 \<le> char_code c \<and> char_code c \<le> 90) \<or> (97 \<le> char_code c \<and> char_code c \<le> 122)"

definition hex_val :: "char \<Rightarrow> nat option" where
  "hex_val c =
     (if is_digit c then Some (char_code c - 48)
      else if 65 \<le> char_code c \<and> char_code c \<le> 70 then Some (char_code c - 55)
      else if 97 \<le> char_code c \<and> char_code c \<le> 102 then Some (char_code c - 87)
      else None)"

definition is_ctl :: "char \<Rightarrow> bool" where
  "is_ctl c \<longleftrightarrow> char_code c < 32 \<or> char_code c = 127"

definition digit_val :: "char \<Rightarrow> nat" where
  "digit_val c = char_code c - 48"

definition digits_val :: "string \<Rightarrow> nat" where
  "digits_val = foldl (\<lambda>n c. 10 * n + digit_val c) 0"

text \<open>\<open>s.includes(p)\<close>\<close>

fun str_includes :: "'a list \<Rightarrow> 'a list \<Rightarrow> bool" where
  "str_includes [] p \<longleftrightarrow> p = []"
| "str_includes (c # s) p \<longleftrightarrow> starts_with (c # s) p \<or> str_includes s p"

lemma starts_with_append [simp, text_simps]: "starts_with (p @ s) p"
  by (simp add: starts_with_def)

lemma starts_with_iff: "starts_with s p \<longleftrightarrow> (\<exists>r. s = p @ r)"
  by (metis append_eq_conv_conj starts_with_def)

lemma starts_with_Nil [simp]: "starts_with s []"
  by (simp add: starts_with_def)

lemma starts_with_Nil_left [simp]: "starts_with [] p \<longleftrightarrow> p = []"
  by (auto simp: starts_with_def)

lemma starts_with_Cons [simp]: "starts_with (x # s) (y # p) \<longleftrightarrow> x = y \<and> starts_with s p"
  by (auto simp: starts_with_def)

lemma starts_with_drop: "starts_with s p \<Longrightarrow> p @ drop (length p) s = s"
  by (metis append_take_drop_id starts_with_def)

lemma ends_with_append [simp, text_simps]: "ends_with (s @ x) x"
  by (simp add: ends_with_def)

lemma ends_with_iff: "ends_with s x \<longleftrightarrow> (\<exists>p. s = p @ x)"
proof
  assume "ends_with s x"
  then have "s = take (length s - length x) s @ x"
    by (metis append_take_drop_id ends_with_def)
  then show "\<exists>p. s = p @ x" by blast
qed auto

lemma str_includes_iff: "str_includes s p \<longleftrightarrow> (\<exists>a b. s = a @ p @ b)"
proof (induction s)
  case (Cons c s)
  have "(\<exists>a b. c # s = a @ p @ b) \<longleftrightarrow> (\<exists>b. c # s = p @ b) \<or> (\<exists>a b. s = a @ p @ b)"
    by (metis append_Cons append_Nil list.inject neq_Nil_conv)
  then show ?case using Cons.IH by (simp add: starts_with_iff)
qed simp

lemma ends_with_trans: "ends_with a b \<Longrightarrow> ends_with b c \<Longrightarrow> ends_with a c"
  by (metis append.assoc ends_with_iff)

lemma index_of_Some: "index_of xs c = Some i \<Longrightarrow> i < length xs \<and> xs ! i = c"
  by (induction xs arbitrary: i) (auto split: if_splits)

lemma index_of_None: "index_of xs c = None \<longleftrightarrow> c \<notin> set xs"
  by (induction xs) auto

lemma index_of_nth: "distinct xs \<Longrightarrow> i < length xs \<Longrightarrow> index_of xs (xs ! i) = Some i"
proof (induction xs arbitrary: i)
  case (Cons x xs)
  then show ?case by (cases i) auto
qed simp

lemma split_on_nonempty [simp]: "split_on c s \<noteq> []"
  by (cases s) (auto split: list.splits)

lemma split_on_join: "join_with [c] (split_on c s) = s"
proof (induction s)
  case (Cons x xs)
  obtain w ws where w: "split_on c xs = w # ws"
    by (meson neq_Nil_conv split_on_nonempty)
  with Cons show ?case by (cases ws) auto
qed simp

lemma split_on_no_sep: "w \<in> set (split_on c s) \<Longrightarrow> c \<notin> set w"
  by (induction s arbitrary: w) (auto split: if_splits list.splits)

lemma split_on_sub: "w \<in> set (split_on c s) \<Longrightarrow> set w \<subseteq> set s"
  by (induction s arbitrary: w) (fastforce split: if_splits list.splits)+

lemma split_on_id: "c \<notin> set s \<Longrightarrow> split_on c s = [s]"
  by (induction s) auto

lemma split_on_append: "c \<notin> set a \<Longrightarrow> split_on c (a @ c # b) = a # split_on c b"
  by (induction a) auto

lemma split_on_join_with:
  "ws \<noteq> [] \<Longrightarrow> \<forall>w \<in> set ws. c \<notin> set w \<Longrightarrow> split_on c (join_with [c] ws) = ws"
proof (induction ws)
  case (Cons w ws)
  then show ?case by (cases ws) (auto simp: split_on_id split_on_append)
qed simp

lemma join_with_snoc:
  "join_with sep (ws @ [w]) = (if ws = [] then w else join_with sep ws @ sep @ w)"
  by (induction sep ws rule: join_with.induct) auto

lemma index_of_append: "c \<notin> set a \<Longrightarrow> index_of (a @ c # b) c = Some (length a)"
  by (induction a) auto

lemma set_js_trim: "set (js_trim s) \<subseteq> set s"
  by (auto simp: js_trim_def dest!: set_dropWhileD)

text \<open>\<open>String(n)\<close> for integers, and \<open>Number(s)\<close> on decimal integers.\<close>

fun nat_digits :: "nat \<Rightarrow> string" where
  "nat_digits n = (if n < 10 then [char_of (48 + n)] else nat_digits (n div 10) @ [char_of (48 + n mod 10)])"

declare nat_digits.simps [simp del]

definition int_string :: "int \<Rightarrow> string" where
  "int_string n = (if n < 0 then ''-'' @ nat_digits (nat (- n)) else nat_digits (nat n))"

definition parse_int :: "string \<Rightarrow> int option" where
  "parse_int v =
     (let neg = starts_with v ''-''; ds = (if neg then drop 1 v else v)
      in if ds = [] \<or> \<not> list_all is_digit ds then None
         else Some (if neg then - int (digits_val ds) else int (digits_val ds)))"

lemma digits_val_snoc: "digits_val (s @ [c]) = 10 * digits_val s + digit_val c"
  by (simp add: digits_val_def)

lemma digit_char: "n < 10 \<Longrightarrow> is_digit (char_of (48 + n)) \<and> digit_val (char_of (48 + n)) = (n :: nat)"
  by (simp add: is_digit_def digit_val_def)

lemma nat_digits_all: "nat_digits n \<noteq> [] \<and> list_all is_digit (nat_digits n)"
proof (induction n rule: nat_digits.induct)
  case (1 n)
  then show ?case
    using digit_char [of n] digit_char [of "n mod 10"] by (subst (1 2) nat_digits.simps) simp
qed

lemma digits_val_nat_digits [simp]: "digits_val (nat_digits n) = n"
proof (induction n rule: nat_digits.induct)
  case (1 n)
  then show ?case
    using digit_char [of n] digit_char [of "n mod 10"]
    by (subst nat_digits.simps) (simp add: digits_val_snoc, simp add: digits_val_def)
qed

lemma nat_digits_char: "c \<in> set (nat_digits n) \<Longrightarrow> is_digit c"
  using nat_digits_all [of n] by (auto simp: list_all_iff)

lemma parse_int_string [simp]: "parse_int (int_string n) = Some n"
proof -
  have minus: "\<not> is_digit (CHR ''-'')" by (simp add: is_digit_def)
  have "\<not> starts_with (nat_digits m) ''-''" for m
    using nat_digits_char [of "CHR ''-''" m] minus by (cases "nat_digits m") auto
  then show ?thesis
    using nat_digits_all by (auto simp: parse_int_def int_string_def Let_def)
qed

section \<open>Hosts\<close>

text \<open>A domain scopes itself and every host below it, at a label boundary.\<close>

definition dot_suffix :: "string \<Rightarrow> string \<Rightarrow> bool" where
  "dot_suffix host d \<longleftrightarrow> host = d \<or> ends_with host (''.'' @ d)"

text \<open>Drop one trailing dot (\<open>undotHost\<close>).\<close>

definition undot :: "string \<Rightarrow> string" where
  "undot h = (if ends_with h ''.'' then butlast h else h)"

lemma dot_suffix_refl [simp]: "dot_suffix h h"
  by (simp add: dot_suffix_def)

lemma dot_suffix_trans: "dot_suffix a b \<Longrightarrow> dot_suffix b c \<Longrightarrow> dot_suffix a c"
  by (auto simp: dot_suffix_def ends_with_iff)

lemma undot_dotted [simp]: "undot (h @ ''.'') = h"
  by (simp add: undot_def)

section \<open>URLs\<close>

text \<open>The fields of a parsed \<open>URL\<close> object that the source reads.\<close>

record url =
  url_href :: string
  url_protocol :: string
  url_origin :: string
  url_host :: string
  url_hostname :: string
  url_pathname :: string
  url_search :: string
  url_hash :: string

text \<open>\<open>new URL(s)\<close>: \<open>None\<close> is the TypeError of an unparseable input.\<close>

type_synonym url_parser = "string \<Rightarrow> url option"

text \<open>
  What the code takes from outside the repository: the URL parser (\<open>new URL(s)\<close>, \<open>new URL(s, base)\<close>,
  assignment to \<open>pathname\<close>) and the two public suffix lookups of \<open>tldts\<close>.
\<close>

record platform =
  new_url :: url_parser
  new_url_base :: "string \<Rightarrow> string \<Rightarrow> url option"
  with_pathname :: "url \<Rightarrow> string \<Rightarrow> url"
  psl_domain :: "string \<Rightarrow> string option"
  psl_suffix :: "string \<Rightarrow> string option"

definition is_http_url :: "url \<Rightarrow> bool" where
  "is_http_url u \<longleftrightarrow> url_protocol u = ''https:'' \<or> url_protocol u = ''http:''"

section \<open>JSON values\<close>

datatype json =
  JNull | JBool bool | JNum int | JStr string | JArr "json list" | JObj "(string \<times> json) list"

text \<open>\<open>j.k\<close>; \<open>None\<close> is \<open>undefined\<close>.\<close>

definition jget :: "json \<Rightarrow> string \<Rightarrow> json option" where
  "jget j k = (case j of JObj fs \<Rightarrow> map_of fs k | _ \<Rightarrow> None)"

definition jtruthy :: "json option \<Rightarrow> bool" where
  "jtruthy j = (case j of None \<Rightarrow> False | Some v \<Rightarrow>
     (case v of JNull \<Rightarrow> False | JBool b \<Rightarrow> b | JNum n \<Rightarrow> n \<noteq> 0 | JStr s \<Rightarrow> s \<noteq> [] | _ \<Rightarrow> True))"

text \<open>\<open>String(x)\<close> and \<open>String(x ?? "")\<close> on JSON values.\<close>

fun js_string :: "json \<Rightarrow> string" where
  "js_string JNull = ''null''"
| "js_string (JBool b) = (if b then ''true'' else ''false'')"
| "js_string (JNum n) = int_string n"
| "js_string (JStr s) = s"
| "js_string (JArr xs) = join_with '','' (map (\<lambda>x. if x = JNull then [] else js_string x) xs)"
| "js_string (JObj fs) = ''[object Object]''"

definition js_string_or_empty :: "json option \<Rightarrow> string" where
  "js_string_or_empty j = (case j of None \<Rightarrow> [] | Some v \<Rightarrow> if v = JNull then [] else js_string v)"

text \<open>A missing and an empty string are both falsy.\<close>

definition truthy :: "string option \<Rightarrow> string option" where
  "truthy s = (case s of Some x \<Rightarrow> if x = [] then None else Some x | None \<Rightarrow> None)"

section \<open>Results\<close>

text \<open>Sequencing of computations that may throw: \<open>Inl\<close> is the exception.\<close>

definition try_then :: "'e + 'a \<Rightarrow> ('a \<Rightarrow> 'e + 'b) \<Rightarrow> 'e + 'b" where
  "try_then r k = (case r of Inl e \<Rightarrow> Inl e | Inr x \<Rightarrow> k x)"

lemma try_then_simps [simp]: "try_then (Inl e) k = Inl e" "try_then (Inr x) k = k x"
  by (simp_all add: try_then_def)

lemma try_then_Inr: "try_then r k = Inr y \<longleftrightarrow> (\<exists>x. r = Inr x \<and> k x = Inr y)"
  by (cases r) auto

section \<open>Insertion-ordered maps\<close>

type_synonym ('k, 'v) omap = "('k \<times> 'v) list"

definition omap_wf :: "('k, 'v) omap \<Rightarrow> bool" where
  "omap_wf m \<longleftrightarrow> distinct (map fst m)"

definition omap_has :: "('k, 'v) omap \<Rightarrow> 'k \<Rightarrow> bool" where
  "omap_has m k \<longleftrightarrow> map_of m k \<noteq> None"

text \<open>\<open>m.delete(m.keys().next().value)\<close>\<close>

definition omap_drop_oldest :: "('k, 'v) omap \<Rightarrow> ('k, 'v) omap" where
  "omap_drop_oldest m = (case m of [] \<Rightarrow> [] | (k, _) # _ \<Rightarrow> AList.delete k m)"

text \<open>\<open>while (m.size > cap) m.delete(oldest)\<close>\<close>

definition omap_trim :: "nat \<Rightarrow> ('k, 'v) omap \<Rightarrow> ('k, 'v) omap" where
  "omap_trim cap m = drop (length m - cap) m"

text \<open>The idiom of every capped registry: a new key at the cap first evicts the oldest one.\<close>

definition omap_put_capped :: "nat \<Rightarrow> 'k \<Rightarrow> 'v \<Rightarrow> ('k, 'v) omap \<Rightarrow> ('k, 'v) omap" where
  "omap_put_capped cap k v m =
     AList.update k v (if omap_has m k \<or> length m < cap then m else omap_drop_oldest m)"

lemma omap_wf_Nil [simp]: "omap_wf []"
  by (simp add: omap_wf_def)

lemma omap_has_iff [omap_simps]: "omap_has m k \<longleftrightarrow> k \<in> fst ` set m"
  by (auto simp: omap_has_def map_of_eq_None_iff)

lemma omap_wf_update [simp]: "omap_wf m \<Longrightarrow> omap_wf (AList.update k v m)"
  by (simp add: omap_wf_def distinct_update)

lemma omap_wf_delete [simp]: "omap_wf m \<Longrightarrow> omap_wf (AList.delete k m)"
  by (simp add: omap_wf_def distinct_delete)

lemma omap_wf_filter [simp]: "omap_wf m \<Longrightarrow> omap_wf (filter P m)"
  by (simp add: omap_wf_def distinct_map_filter)

lemma map_of_update [simp, omap_simps]:
  "map_of (AList.update k v m) = (map_of m)(k \<mapsto> v)"
  by (rule update_conv')

lemma map_of_delete [simp, omap_simps]:
  "map_of (AList.delete k m) = (map_of m)(k := None)"
  by (rule delete_conv')

lemma length_update_new [omap_simps]:
  "\<not> omap_has m k \<Longrightarrow> length (AList.update k v m) = Suc (length m)"
  by (induction m) (auto simp: omap_has_def split: if_splits)

lemma length_update_old [omap_simps]:
  "omap_has m k \<Longrightarrow> length (AList.update k v m) = length m"
  by (induction m) (auto simp: omap_has_def split: if_splits)

lemma set_update_subset: "set (AList.update k v m) \<subseteq> insert (k, v) (set m)"
  by (induction m) auto

lemma set_delete_subset: "set (AList.delete k m) \<subseteq> set m"
  by (auto simp: AList.delete_eq)

lemma update_new_append: "\<not> omap_has m k \<Longrightarrow> AList.update k v m = m @ [(k, v)]"
  by (induction m) (auto simp: omap_has_def split: if_splits)

lemma omap_drop_oldest_tl: "omap_wf m \<Longrightarrow> omap_drop_oldest m = tl m"
proof (cases m)
  case (Cons p m')
  moreover assume "omap_wf m"
  ultimately show ?thesis
    by (cases p) (force simp: omap_drop_oldest_def omap_wf_def AList.delete_eq
        intro!: filter_True)
qed (simp add: omap_drop_oldest_def)

lemma omap_wf_drop_oldest [simp]: "omap_wf m \<Longrightarrow> omap_wf (omap_drop_oldest m)"
  by (cases m) (auto simp: omap_drop_oldest_tl omap_wf_def)

lemma set_drop_oldest: "set (omap_drop_oldest m) \<subseteq> set m"
  by (auto simp: omap_drop_oldest_def AList.delete_eq split: list.splits)

lemma omap_wf_put [simp]: "omap_wf m \<Longrightarrow> omap_wf (omap_put_capped cap k v m)"
  by (simp add: omap_put_capped_def)

lemma map_of_put [simp]: "map_of (omap_put_capped cap k v m) k = Some v"
  by (simp add: omap_put_capped_def)

lemma length_put_capped:
  assumes "omap_wf m" "length m \<le> cap" "0 < cap"
  shows "length (omap_put_capped cap k v m) \<le> cap"
proof (cases "omap_has m k")
  case True
  then show ?thesis using assms by (simp add: omap_put_capped_def length_update_old)
next
  case False
  show ?thesis
  proof (cases "length m < cap")
    case True
    then show ?thesis using False by (simp add: omap_put_capped_def length_update_new)
  next
    case nlt: False
    have "\<not> omap_has (tl m) k"
      using False by (cases m) (auto simp: omap_has_iff)
    then show ?thesis
      using False nlt assms
      by (simp add: omap_put_capped_def omap_drop_oldest_tl length_update_new)
  qed
qed

lemma set_put_capped: "set (omap_put_capped cap k v m) \<subseteq> insert (k, v) (set m)"
proof -
  have "set (omap_put_capped cap k v m) \<subseteq>
      insert (k, v) (set (if omap_has m k \<or> length m < cap then m else omap_drop_oldest m))"
    unfolding omap_put_capped_def by (rule set_update_subset)
  also have "\<dots> \<subseteq> insert (k, v) (set m)"
    using set_drop_oldest [of m] by auto
  finally show ?thesis .
qed

section \<open>Grouping\<close>

text \<open>The idiom \<open>let a = m.get(k); if (!a) m.set(k, (a = [])); a.push(x)\<close> over a list.\<close>

definition group_add :: "('a \<Rightarrow> 'k) \<Rightarrow> 'a \<Rightarrow> ('k, 'a list) omap \<Rightarrow> ('k, 'a list) omap" where
  "group_add f x m =
     AList.update (f x) ((case map_of m (f x) of Some a \<Rightarrow> a | None \<Rightarrow> []) @ [x]) m"

definition group_by :: "('a \<Rightarrow> 'k) \<Rightarrow> 'a list \<Rightarrow> ('k, 'a list) omap" where
  "group_by f xs = fold (group_add f) xs []"

lemma group_by_snoc: "group_by f (xs @ [x]) = group_add f x (group_by f xs)"
  by (simp add: group_by_def)

lemma omap_wf_group_by [simp]: "omap_wf (group_by f xs)"
  by (induction xs rule: rev_induct) (simp_all add: group_by_snoc group_add_def, simp add: group_by_def)

lemma map_of_group_by:
  "map_of (group_by f xs) k =
     (if filter (\<lambda>x. f x = k) xs = [] then None else Some (filter (\<lambda>x. f x = k) xs))"
proof (induction xs rule: rev_induct)
  case Nil
  then show ?case by (simp add: group_by_def)
next
  case (snoc x xs)
  then show ?case by (auto simp: group_by_snoc group_add_def)
qed

lemma group_by_entries: "(k, l) \<in> set (group_by f xs) \<Longrightarrow> l = filter (\<lambda>x. f x = k) xs \<and> l \<noteq> []"
proof -
  assume "(k, l) \<in> set (group_by f xs)"
  then have "map_of (group_by f xs) k = Some l"
    using omap_wf_group_by [of f xs] by (simp add: omap_wf_def map_of_is_SomeI)
  then show ?thesis by (auto simp: map_of_group_by split: if_splits)
qed

lemma group_by_keys: "fst ` set (group_by f xs) = f ` set xs"
proof -
  have "k \<in> fst ` set (group_by f xs) \<longleftrightarrow> map_of (group_by f xs) k \<noteq> None" for k
    by (auto simp: map_of_eq_None_iff)
  then have "k \<in> fst ` set (group_by f xs) \<longleftrightarrow> k \<in> f ` set xs" for k
    by (auto simp: map_of_group_by filter_empty_conv)
  then show ?thesis by blast
qed

lemma mset_group_add:
  "omap_wf m \<Longrightarrow> mset (concat (map snd (group_add f x m))) = add_mset x (mset (concat (map snd m)))"
proof (induction m)
  case (Cons e m)
  obtain k l where e: "e = (k, l)" by (cases e)
  have wf: "omap_wf m" using Cons.prems by (simp add: omap_wf_def)
  have fresh: "f x = k \<Longrightarrow> map_of m (f x) = None"
    using Cons.prems by (auto simp: omap_wf_def e map_of_eq_None_iff)
  show ?case
  proof (cases "f x = k")
    case True
    then show ?thesis by (simp add: group_add_def e)
  next
    case False
    then show ?thesis using Cons.IH [OF wf] by (simp add: group_add_def e)
  qed
qed (simp add: group_add_def)

lemma mset_group_by: "mset (concat (map snd (group_by f xs))) = mset xs"
proof (induction xs rule: rev_induct)
  case (snoc x xs)
  then show ?case
    using mset_group_add [OF omap_wf_group_by, of f x f xs] by (simp add: group_by_snoc)
qed (simp add: group_by_def)

section \<open>Choosing the best entry of a list\<close>

text \<open>
  The loop \<open>for (const r of list) if (best === null || better(r, best)) best = r\<close>, which the
  policy engine, the site overrides and the import maps share.
\<close>

fun pick_from :: "('a \<Rightarrow> 'a \<Rightarrow> bool) \<Rightarrow> 'a option \<Rightarrow> 'a list \<Rightarrow> 'a option" where
  "pick_from better best [] = best"
| "pick_from better best (x # xs) =
     pick_from better
       (case best of None \<Rightarrow> Some x | Some b \<Rightarrow> if better x b then Some x else Some b) xs"

definition pick :: "('a \<Rightarrow> 'a \<Rightarrow> bool) \<Rightarrow> 'a list \<Rightarrow> 'a option" where
  "pick better xs = pick_from better None xs"

text \<open>The contract: the comparison agrees with a rank, ties either way.\<close>

locale selection =
  fixes better :: "'a \<Rightarrow> 'a \<Rightarrow> bool"
    and rank :: "'a \<Rightarrow> 'r::linorder"
  assumes better_rank: "better x y \<Longrightarrow> rank y \<le> rank x"
    and not_better_rank: "\<not> better x y \<Longrightarrow> rank x \<le> rank y"
begin

lemma pick_from_Some:
  "\<exists>r. pick_from better (Some b) xs = Some r \<and> r \<in> insert b (set xs)
     \<and> (\<forall>x \<in> insert b (set xs). rank x \<le> rank r)"
proof (induction xs arbitrary: b)
  case (Cons x xs)
  show ?case
  proof (cases "better x b")
    case True
    obtain r where r: "pick_from better (Some x) xs = Some r" "r \<in> insert x (set xs)"
      "\<forall>y \<in> insert x (set xs). rank y \<le> rank r"
      using Cons.IH by blast
    then have "rank b \<le> rank r"
      using better_rank [OF True] by (meson insertI1 order_trans)
    with r True show ?thesis by auto
  next
    case False
    obtain r where r: "pick_from better (Some b) xs = Some r" "r \<in> insert b (set xs)"
      "\<forall>y \<in> insert b (set xs). rank y \<le> rank r"
      using Cons.IH by blast
    then have "rank x \<le> rank r"
      using not_better_rank [OF False] by (meson insertI1 order_trans)
    with r False show ?thesis by auto
  qed
qed auto

lemma pick_None_iff: "pick better xs = None \<longleftrightarrow> xs = []"
proof (cases xs)
  case (Cons x xs')
  then show ?thesis using pick_from_Some [of x xs'] by (auto simp: pick_def)
qed (simp add: pick_def)

lemma pick_mem: "pick better xs = Some r \<Longrightarrow> r \<in> set xs"
proof (cases xs)
  case (Cons x xs')
  then show "pick better xs = Some r \<Longrightarrow> r \<in> set xs"
    using pick_from_Some [of x xs'] by (auto simp: pick_def)
qed (simp add: pick_def)

lemma pick_max: "pick better xs = Some r \<Longrightarrow> x \<in> set xs \<Longrightarrow> rank x \<le> rank r"
proof (cases xs)
  case (Cons y xs')
  then show "pick better xs = Some r \<Longrightarrow> x \<in> set xs \<Longrightarrow> rank x \<le> rank r"
    using pick_from_Some [of y xs'] by (auto simp: pick_def)
qed simp

end

text \<open>A strict comparison keeps the first of several entries of the best rank.\<close>

locale first_selection = selection +
  assumes better_strict: "better x y \<Longrightarrow> rank y < rank x"
begin

lemma pick_from_keeps:
  "\<forall>x \<in> set xs. rank x \<le> rank b \<Longrightarrow> pick_from better (Some b) xs = Some b"
  by (induction xs) (use better_strict in force)+

lemma pick_from_first:
  assumes "rank b < rank r" "\<forall>x \<in> set xs. rank x < rank r" "\<forall>x \<in> set ys. rank x \<le> rank r"
  shows "pick_from better (Some b) (xs @ r # ys) = Some r"
  using assms
proof (induction xs arbitrary: b)
  case Nil
  then have "better r b" using not_better_rank leD by blast
  with Nil show ?case by (simp add: pick_from_keeps)
next
  case (Cons x xs)
  then show ?case by simp
qed

lemma pick_first:
  assumes "\<forall>x \<in> set xs. rank x < rank r" "\<forall>x \<in> set ys. rank x \<le> rank r"
  shows "pick better (xs @ r # ys) = Some r"
proof (cases xs)
  case Nil
  then show ?thesis using assms by (simp add: pick_def pick_from_keeps)
next
  case (Cons x xs')
  then show ?thesis using assms by (simp add: pick_def pick_from_first)
qed

end

text \<open>A non-strict comparison keeps the last one.\<close>

locale last_selection = selection +
  assumes tie_better: "rank x = rank y \<Longrightarrow> better x y"
begin

lemma pick_from_keeps:
  "\<forall>x \<in> set xs. rank x < rank b \<Longrightarrow> pick_from better (Some b) xs = Some b"
  by (induction xs) (use better_rank leD in force)+

lemma pick_from_last:
  assumes "rank b \<le> rank r" "\<forall>x \<in> set xs. rank x \<le> rank r" "\<forall>x \<in> set ys. rank x < rank r"
  shows "pick_from better (Some b) (xs @ r # ys) = Some r"
  using assms
proof (induction xs arbitrary: b)
  case Nil
  then have "better r b"
    using not_better_rank tie_better by (meson order_antisym)
  with Nil show ?case by (simp add: pick_from_keeps)
next
  case (Cons x xs)
  then show ?case by simp
qed

lemma pick_last:
  assumes "\<forall>x \<in> set xs. rank x \<le> rank r" "\<forall>x \<in> set ys. rank x < rank r"
  shows "pick better (xs @ r # ys) = Some r"
proof (cases xs)
  case Nil
  then show ?thesis using assms by (simp add: pick_def pick_from_keeps)
next
  case (Cons x xs')
  then show ?thesis using assms by (simp add: pick_def pick_from_last)
qed

end

section \<open>Bounded registries\<close>

text \<open>
  The contract of a capped registry: the stored keys stay distinct and at most \<open>cap\<close> of them are
  kept. Inside the locale this is lifted from one operation to every sequence of operations.
\<close>

locale bounded_registry =
  fixes step :: "'op \<Rightarrow> 's \<Rightarrow> 's"
    and entries :: "'s \<Rightarrow> ('k, 'v) omap"
    and cap :: nat
  assumes step_wf: "omap_wf (entries s) \<Longrightarrow> omap_wf (entries (step x s))"
    and step_cap: "omap_wf (entries s) \<Longrightarrow> length (entries s) \<le> cap \<Longrightarrow>
      length (entries (step x s)) \<le> cap"
begin

lemma steps_bounded:
  "omap_wf (entries s) \<Longrightarrow> length (entries s) \<le> cap \<Longrightarrow>
   omap_wf (entries (fold step xs s)) \<and> length (entries (fold step xs s)) \<le> cap"
  by (induction xs arbitrary: s) (auto simp: step_wf step_cap)

end

end
