(* ===== verification/Codec.thy ===== *)
theory Codec
  imports Prelude
begin

text \<open>
  The route codec (\<open>src/app/src/codec.ts\<close>): how an upstream destination is packed into an
  engine path and recovered from it.

  The state is the three module bindings \<open>prefix\<close>, \<open>routeKey\<close> and \<open>routeKeys\<close>. Bytes are
  \<open>8 word\<close>, the 32 bit integers of the base64url loops are \<open>32 word\<close>, and the \<open>BigInt\<close> values
  the source masks with \<open>M64\<close> are \<open>64 word\<close>. UTF-8 is written out for code units below 256.
  The contract of a token scheme (what opens is exactly what was minted) is the locale
  \<open>token_scheme\<close>; the keyed tokens of the code are an interpretation of it, and the search
  through the key history is proved correct once from the contract.
\<close>

definition hex_lower :: "byte \<Rightarrow> string" where
  "hex_lower b = [''0123456789abcdef'' ! (unat b div 16), ''0123456789abcdef'' ! (unat b mod 16)]"

section \<open>UTF-8\<close>

text \<open>\<open>TextEncoder.encode\<close>, and the strict \<open>TextDecoder.decode\<close>, which drops one byte order mark in front,
  on code units below 256.\<close>

fun utf8_encode :: "string \<Rightarrow> byte list" where
  "utf8_encode [] = []"
| "utf8_encode (c # cs) =
     (if char_code c < 128 then [of_nat (char_code c)]
      else [of_nat (192 + char_code c div 64), of_nat (128 + char_code c mod 64)])
     @ utf8_encode cs"

fun utf8_chars :: "byte list \<Rightarrow> string option" where
  "utf8_chars [] = Some []"
| "utf8_chars (b # bs) =
     (if unat b < 128 then map_option (Cons (char_of (unat b))) (utf8_chars bs)
      else if unat b = 194 \<or> unat b = 195 then
        (case bs of
          [] \<Rightarrow> None
        | b' # bs' \<Rightarrow>
            if 128 \<le> unat b' \<and> unat b' < 192
            then map_option (Cons (char_of ((unat b - 192) * 64 + (unat b' - 128)))) (utf8_chars bs')
            else None)
      else None)"

definition BOM :: "byte list" where
  "BOM = [0xEF, 0xBB, 0xBF]"

definition utf8_decode :: "byte list \<Rightarrow> string option" where
  "utf8_decode bs = utf8_chars (if take 3 bs = BOM then drop 3 bs else bs)"

lemma utf8_two_bytes:
  fixes n :: nat
  assumes "\<not> n < 128" "n < 256"
  shows "192 + n div 64 = 194 \<or> 192 + n div 64 = 195"
    and "128 \<le> 128 + n mod 64" and "128 + n mod 64 < 192"
    and "(192 + n div 64 - 192) * 64 + (128 + n mod 64 - 128) = n"
proof -
  have "n div 64 < 4" using assms by (simp add: less_mult_imp_div_less)
  moreover have "2 \<le> n div 64" using assms by linarith
  ultimately show "192 + n div 64 = 194 \<or> 192 + n div 64 = 195" by linarith
  show "128 \<le> 128 + n mod 64" by simp
  show "128 + n mod 64 < 192" by simp
  show "(192 + n div 64 - 192) * 64 + (128 + n mod 64 - 128) = n"
    using div_mult_mod_eq [of n 64] by simp
qed

lemma utf8_one_char:
  fixes n :: nat
  assumes "n = 194 \<or> n = 195" "128 \<le> m" "m < 192"
  shows "(n - 192) * 64 + (m - 128) < 256" and "\<not> (n - 192) * 64 + (m - 128) < 128"
    and "192 + ((n - 192) * 64 + (m - 128)) div 64 = n"
    and "128 + ((n - 192) * 64 + (m - 128)) mod 64 = m"
proof -
  have m: "m - 128 < 64" using assms by simp
  obtain k where k: "m = 128 + k" using assms le_Suc_ex by blast
  have "(128 + k) mod 64 = k mod 64" using mod_mult_self2 [of k 64 2] by (simp add: add.commute)
  then have mod: "m mod 64 = m - 128" using m k by simp
  show "(n - 192) * 64 + (m - 128) < 256" "\<not> (n - 192) * 64 + (m - 128) < 128"
    using assms by auto
  show "192 + ((n - 192) * 64 + (m - 128)) div 64 = n"
    using assms m by (auto simp: div_add1_eq)
  show "128 + ((n - 192) * 64 + (m - 128)) mod 64 = m"
    using assms m mod by auto
qed

lemma utf8_chars_encode [simp]: "utf8_chars (utf8_encode s) = Some s"
proof (induction s)
  case (Cons c s)
  have less: "char_code c < 256" by (rule nat_of_char_less_256)
  show ?case
  proof (cases "char_code c < 128")
    case True
    then have "unat (of_nat (char_code c) :: byte) = char_code c"
      using less by (simp add: unat_of_nat)
    with True Cons show ?thesis by simp
  next
    case False
    let ?h = "192 + char_code c div 64" and ?l = "128 + char_code c mod 64"
    have "char_code c div 64 < 4" "char_code c mod 64 < 64"
      using less by (simp_all add: less_mult_imp_div_less)
    then have h: "unat (of_nat ?h :: byte) = ?h" and l: "unat (of_nat ?l :: byte) = ?l"
      by (simp_all only: unat_of_nat) simp_all
    note two = utf8_two_bytes [OF False less]
    have c: "char_of ((?h - 192) * 64 + (?l - 128)) = c"
      unfolding two(4) by (rule char_of_char)
    have "utf8_encode (c # s) = of_nat ?h # of_nat ?l # utf8_encode s"
      using False by simp
    moreover have "utf8_chars (of_nat ?h # of_nat ?l # utf8_encode s) = Some (c # s)"
      using Cons two(1-3) unfolding utf8_chars.simps h l list.case c by auto
    ultimately show ?thesis by simp
  qed
qed simp

lemma utf8_encode_chars: "utf8_chars bs = Some s \<Longrightarrow> utf8_encode s = bs"
proof (induction bs arbitrary: s rule: utf8_chars.induct)
  case (2 b bs)
  show ?case
  proof (cases "unat b < 128")
    case True
    with 2 show ?thesis by auto
  next
    case False
    with 2(3) have two: "unat b = 194 \<or> unat b = 195" by (auto split: if_splits)
    with False 2(3) obtain b' bs' t where bs: "bs = b' # bs'"
      and r: "128 \<le> unat b'" "unat b' < 192" and t: "utf8_chars bs' = Some t"
      and s: "s = char_of ((unat b - 192) * 64 + (unat b' - 128)) # t"
      by (auto split: if_splits list.splits)
    have IH: "utf8_encode t = bs'"
      using 2(2) [OF False two bs] r t by simp
    let ?n = "(unat b - 192) * 64 + (unat b' - 128)"
    note n = utf8_one_char [OF two r]
    have cc: "char_code (char_of ?n :: char) = ?n" using n(1) by simp
    show ?thesis
      unfolding s bs utf8_encode.simps cc n(3) n(4) using n(2) IH by simp
  qed
qed simp

lemma unat_bom: "unat (0xEF :: byte) = 239"
  by simp

lemma utf8_encode_no_bom: "take 3 (utf8_encode s) \<noteq> BOM"
proof (cases s)
  case (Cons c r)
  have "char_code c < 256" by (rule nat_of_char_less_256)
  then have "char_code c div 64 < 4" by (simp add: less_mult_imp_div_less)
  then have n: "(if char_code c < 128 then char_code c else 192 + char_code c div 64) < 239" by auto
  have "hd (utf8_encode s) = of_nat (if char_code c < 128 then char_code c else 192 + char_code c div 64)"
    by (simp add: Cons)
  then have "unat (hd (utf8_encode s)) < 239"
    using n by (simp only: unat_of_nat) simp
  moreover have "hd (take 3 (utf8_encode s)) = hd (utf8_encode s)" by (simp add: Cons)
  ultimately have "unat (hd (take 3 (utf8_encode s))) < 239" by simp
  then show ?thesis by (metis BOM_def list.sel(1) less_irrefl unat_bom)
qed (simp add: BOM_def)

lemma utf8_decode_encode [simp]: "utf8_decode (utf8_encode s) = Some s"
  by (simp add: utf8_decode_def utf8_encode_no_bom)

lemma utf8_decode_bom: "utf8_decode (BOM @ utf8_encode s) = Some s"
  by (simp add: utf8_decode_def BOM_def)

text \<open>What decodes to a text is its encoding, with or without the mark.\<close>

lemma utf8_decode_iff: "utf8_decode bs = Some s \<longleftrightarrow> bs = utf8_encode s \<or> bs = BOM @ utf8_encode s"
proof
  assume d: "utf8_decode bs = Some s"
  show "bs = utf8_encode s \<or> bs = BOM @ utf8_encode s"
  proof (cases "take 3 bs = BOM")
    case True
    then have "utf8_encode s = drop 3 bs" using d by (simp add: utf8_decode_def utf8_encode_chars)
    with True show ?thesis by (metis append_take_drop_id)
  next
    case False
    then show ?thesis using d by (simp add: utf8_decode_def utf8_encode_chars)
  qed
qed (auto simp: utf8_decode_bom)

lemma utf8_encode_inject: "utf8_encode s = utf8_encode t \<longleftrightarrow> s = t"
  by (metis option.inject utf8_decode_encode)

section \<open>base64url\<close>

definition B64URL :: string where
  "B64URL = ''ABCDEFGHIJKLMNOPQRSTUVWXYZabcdefghijklmnopqrstuvwxyz0123456789-_''"

text \<open>The group value \<open>(b0 << 16) | (b1 << 8) | b2\<close> and one of its four 6 bit digits.\<close>

definition b64_group :: "byte \<Rightarrow> byte \<Rightarrow> byte \<Rightarrow> 32 word" where
  "b64_group b0 b1 b2 = push_bit 16 (ucast b0) OR push_bit 8 (ucast b1) OR ucast b2"

definition b64_digit :: "32 word \<Rightarrow> nat \<Rightarrow> 32 word" where
  "b64_digit n k = drop_bit k n AND 63"

definition b64_char :: "32 word \<Rightarrow> char" where
  "b64_char v = B64URL ! unat v"

fun b64u_encode :: "byte list \<Rightarrow> string" where
  "b64u_encode [] = []"
| "b64u_encode [b0] =
     (let n = b64_group b0 0 0 in [b64_char (b64_digit n 18), b64_char (b64_digit n 12)])"
| "b64u_encode [b0, b1] =
     (let n = b64_group b0 b1 0
      in [b64_char (b64_digit n 18), b64_char (b64_digit n 12), b64_char (b64_digit n 6)])"
| "b64u_encode (b0 # b1 # b2 # bs) =
     (let n = b64_group b0 b1 b2
      in [b64_char (b64_digit n 18), b64_char (b64_digit n 12),
          b64_char (b64_digit n 6), b64_char (b64_digit n 0)] @ b64u_encode bs)"

text \<open>The shared decode loop: bit buffer, number of pending bits, output so far.\<close>

fun b64_loop :: "string \<Rightarrow> 32 word \<Rightarrow> nat \<Rightarrow> byte list \<Rightarrow> (32 word \<times> nat \<times> byte list) option" where
  "b64_loop [] buf bits out = Some (buf, bits, out)"
| "b64_loop (c # cs) buf bits out =
     (case index_of B64URL c of
       None \<Rightarrow> None
     | Some v \<Rightarrow>
         (let buf' = push_bit 6 buf OR of_nat v in
          if 8 \<le> bits + 6
          then b64_loop cs buf' (bits - 2)
                 (out @ [ucast (signed_drop_bit (bits - 2) buf' AND 255)])
          else b64_loop cs buf' (bits + 6) out))"

definition b64u_decode :: "string \<Rightarrow> byte list option" where
  "b64u_decode s =
     (if length s mod 4 = 1 then None
      else case b64_loop s 0 0 [] of
        None \<Rightarrow> None
      | Some (buf, bits, out) \<Rightarrow>
          if 0 < bits \<and> buf AND (push_bit bits 1 - 1) \<noteq> 0 then None else Some out)"

definition b64u_decode_lenient :: "string \<Rightarrow> byte list option" where
  "b64u_decode_lenient s = map_option (\<lambda>(buf, bits, out). out) (b64_loop s 0 0 [])"

text \<open>Digits are below 64 and read back from their character.\<close>

lemma length_B64URL: "length B64URL = 64" and distinct_B64URL: "distinct B64URL"
  by (simp_all add: B64URL_def)

lemma index_of_B64URL: "unat v < 64 \<Longrightarrow> index_of B64URL (b64_char v) = Some (unat v)"
  by (simp add: b64_char_def index_of_nth distinct_B64URL length_B64URL)

lemma index_of_B64URL_Some:
  assumes "index_of B64URL c = Some v"
  shows "v < 64" and "B64URL ! v = c"
  using index_of_Some [OF assms] by (simp_all add: length_B64URL)

lemma w63: "(63 :: 32 word) = mask 6" and w255: "(255 :: 32 word) = mask 8"
  by (simp_all add: mask_eq_exp_minus_1)

lemma digit_less: "v AND 63 = (v :: 32 word) \<Longrightarrow> unat v < 64"
proof -
  assume v: "v AND 63 = v"
  have "unat (v AND 63) \<le> unat (63 :: 32 word)"
    by (rule word_and_le1 [THEN word_le_nat_alt [THEN iffD1]])
  with v show ?thesis by simp
qed

lemma of_nat_digit: "v < 64 \<Longrightarrow> (of_nat v :: 32 word) AND 63 = of_nat v"
proof -
  assume "v < 64"
  then have "take_bit 6 v = v" by (simp add: take_bit_nat_eq_self)
  then have "take_bit 6 (of_nat v :: 32 word) = of_nat v" by (metis of_nat_take_bit)
  then show ?thesis by (simp add: take_bit_eq_mask w63)
qed

lemma digit_high_bits: "v AND 63 = (v :: 32 word) \<Longrightarrow> 6 \<le> i \<Longrightarrow> \<not> bit v i"
proof -
  assume v: "v AND 63 = v" and "6 \<le> i"
  have "bit (v AND 63) i = (bit v i \<and> i < 6)" unfolding w63 by (auto simp: bit_simps)
  with v \<open>6 \<le> i\<close> show ?thesis by simp
qed

lemma b64_digit_digit [simp]: "b64_digit n k AND 63 = b64_digit n k"
  by (simp add: b64_digit_def and.assoc)

text \<open>The bytes a full group of four digits decodes to, whatever was in the buffer before.\<close>

definition out0 :: "32 word \<Rightarrow> 32 word \<Rightarrow> byte" where
  "out0 v0 v1 = ucast (push_bit 2 v0 OR drop_bit 4 v1)"

definition out1 :: "32 word \<Rightarrow> 32 word \<Rightarrow> byte" where
  "out1 v1 v2 = ucast (push_bit 4 v1 OR drop_bit 2 v2)"

definition out2 :: "32 word \<Rightarrow> 32 word \<Rightarrow> byte" where
  "out2 v2 v3 = ucast (push_bit 6 v2 OR v3)"

lemma buf_out0:
  "v1 AND 63 = v1 \<Longrightarrow>
   ucast (signed_drop_bit 4 (push_bit 6 (push_bit 6 buf OR v0) OR v1 :: 32 word) AND 255) = out0 v0 v1"
  unfolding w255 by (rule bit_word_eqI) (auto simp: out0_def bit_simps digit_high_bits)

lemma buf_out1:
  "v2 AND 63 = v2 \<Longrightarrow>
   ucast (signed_drop_bit 2 (push_bit 6 (push_bit 6 buf OR v1) OR v2 :: 32 word) AND 255) = out1 v1 v2"
  unfolding w255 by (rule bit_word_eqI) (auto simp: out1_def bit_simps digit_high_bits)

lemma buf_out2:
  "v3 AND 63 = v3 \<Longrightarrow>
   ucast (signed_drop_bit 0 (push_bit 6 (push_bit 6 buf OR v2) OR v3 :: 32 word) AND 255) = out2 v2 v3"
  unfolding w255 by (rule bit_word_eqI) (auto simp: out2_def bit_simps digit_high_bits)

lemma index_of_b64_char: "v AND 63 = v \<Longrightarrow> index_of B64URL (b64_char v) = Some (unat v)"
  by (simp add: index_of_B64URL digit_less)

lemma b64_char_exists:
  assumes "index_of B64URL c = Some v"
  obtains w where "w AND 63 = w" "c = b64_char w" "v = unat w"
proof
  have v: "v < 64" "B64URL ! v = c" using index_of_B64URL_Some [OF assms] by auto
  then have "unat (of_nat v :: 32 word) = v" by (simp add: unat_of_nat)
  with v show "(of_nat v :: 32 word) AND 63 = of_nat v" "c = b64_char (of_nat v)"
    "v = unat (of_nat v :: 32 word)"
    by (simp_all add: of_nat_digit b64_char_def)
qed

lemma b64_loop_char:
  assumes "v AND 63 = v"
  shows "b64_loop (b64_char v # cs) buf bits out =
    (if 8 \<le> bits + 6
     then b64_loop cs (push_bit 6 buf OR v) (bits - 2)
            (out @ [ucast (signed_drop_bit (bits - 2) (push_bit 6 buf OR v) AND 255)])
     else b64_loop cs (push_bit 6 buf OR v) (bits + 6) out)"
  using index_of_b64_char [OF assms] by (simp add: Let_def)

lemma b64_loop_two:
  assumes "v0 AND 63 = v0" "v1 AND 63 = v1"
  shows "b64_loop (b64_char v0 # b64_char v1 # cs) buf 0 out =
    b64_loop cs (push_bit 6 (push_bit 6 buf OR v0) OR v1) 4 (out @ [out0 v0 v1])"
  unfolding b64_loop_char [OF assms(1)] b64_loop_char [OF assms(2)]
  by (simp add: buf_out0 [OF assms(2)] del: push_bit_push_bit push_bit_or)

lemma b64_loop_three:
  assumes "v0 AND 63 = v0" "v1 AND 63 = v1" "v2 AND 63 = v2"
  shows "b64_loop (b64_char v0 # b64_char v1 # b64_char v2 # cs) buf 0 out =
    b64_loop cs (push_bit 6 (push_bit 6 (push_bit 6 buf OR v0) OR v1) OR v2) 2
      (out @ [out0 v0 v1, out1 v1 v2])"
  unfolding b64_loop_two [OF assms(1,2)] b64_loop_char [OF assms(3)]
  by (simp add: buf_out1 [OF assms(3)] del: push_bit_push_bit push_bit_or)

lemma b64_loop_four:
  assumes "v0 AND 63 = v0" "v1 AND 63 = v1" "v2 AND 63 = v2" "v3 AND 63 = v3"
  shows "b64_loop (b64_char v0 # b64_char v1 # b64_char v2 # b64_char v3 # cs) buf 0 out =
    b64_loop cs (push_bit 6 (push_bit 6 (push_bit 6 (push_bit 6 buf OR v0) OR v1) OR v2) OR v3) 0
      (out @ [out0 v0 v1, out1 v1 v2, out2 v2 v3])"
  unfolding b64_loop_three [OF assms(1-3)] b64_loop_char [OF assms(4)]
  using buf_out2 [OF assms(4)] by (simp del: push_bit_push_bit push_bit_or)

text \<open>A group and its four digits determine each other.\<close>

lemma bit_byte_high: "8 \<le> n \<Longrightarrow> \<not> bit (b :: byte) n"
  by (auto dest: bit_imp_le_length)

lemma bit_group:
  "bit (b64_group b0 b1 b2) n \<longleftrightarrow>
     (16 \<le> n \<and> bit b0 (n - 16)) \<or> (8 \<le> n \<and> bit b1 (n - 8)) \<or> bit b2 n"
  by (auto simp: b64_group_def bit_simps dest: bit_imp_le_length)

lemma bit_group_0: "n < 8 \<Longrightarrow> bit (b64_group b0 b1 b2) (16 + n) \<longleftrightarrow> bit b0 n"
  and bit_group_1: "n < 8 \<Longrightarrow> bit (b64_group b0 b1 b2) (8 + n) \<longleftrightarrow> bit b1 n"
  and bit_group_2: "n < 8 \<Longrightarrow> bit (b64_group b0 b1 b2) n \<longleftrightarrow> bit b2 n"
  by (auto simp: bit_group bit_byte_high)

lemma bit_digit: "bit (b64_digit w k) n \<longleftrightarrow> n < 6 \<and> bit w (k + n)"
  by (auto simp: b64_digit_def w63 bit_simps dest: bit_imp_le_length)

lemma bit_out0: "bit (out0 v0 v1) n \<longleftrightarrow> n < 8 \<and> (2 \<le> n \<and> bit v0 (n - 2) \<or> bit v1 (4 + n))"
  by (auto simp: out0_def bit_simps)

lemma bit_out1: "bit (out1 v1 v2) n \<longleftrightarrow> n < 8 \<and> (4 \<le> n \<and> bit v1 (n - 4) \<or> bit v2 (2 + n))"
  by (auto simp: out1_def bit_simps)

lemma bit_out2: "bit (out2 v2 v3) n \<longleftrightarrow> n < 8 \<and> (6 \<le> n \<and> bit v2 (n - 6) \<or> bit v3 n)"
  by (auto simp: out2_def bit_simps)

lemma out0_digits: "out0 (b64_digit (b64_group b0 b1 b2) 18) (b64_digit (b64_group b0 b1 b2) 12) = b0"
proof (rule bit_word_eqI)
  fix n
  assume "n < LENGTH(8)"
  then have n: "n < 8" by simp
  have "18 + (n - 2) = 16 + n" if "2 \<le> n" using that by simp
  moreover have "12 + (4 + n) = 16 + n" by simp
  ultimately show "bit (out0 (b64_digit (b64_group b0 b1 b2) 18) (b64_digit (b64_group b0 b1 b2) 12)) n
    = bit b0 n"
    unfolding bit_out0 bit_digit using n by (cases "2 \<le> n") (simp_all add: bit_group_0 less_diff_conv2)
qed

lemma out1_digits: "out1 (b64_digit (b64_group b0 b1 b2) 12) (b64_digit (b64_group b0 b1 b2) 6) = b1"
proof (rule bit_word_eqI)
  fix n
  assume "n < LENGTH(8)"
  then have n: "n < 8" by simp
  have "12 + (n - 4) = 8 + n" if "4 \<le> n" using that by simp
  moreover have "6 + (2 + n) = 8 + n" by simp
  ultimately show "bit (out1 (b64_digit (b64_group b0 b1 b2) 12) (b64_digit (b64_group b0 b1 b2) 6)) n
    = bit b1 n"
    unfolding bit_out1 bit_digit using n by (cases "4 \<le> n") (simp_all add: bit_group_1 less_diff_conv2)
qed

lemma out2_digits: "out2 (b64_digit (b64_group b0 b1 b2) 6) (b64_digit (b64_group b0 b1 b2) 0) = b2"
proof (rule bit_word_eqI)
  fix n
  assume "n < LENGTH(8)"
  then have n: "n < 8" by simp
  have "6 + (n - 6) = n" if "6 \<le> n" using that by simp
  then show "bit (out2 (b64_digit (b64_group b0 b1 b2) 6) (b64_digit (b64_group b0 b1 b2) 0)) n
    = bit b2 n"
    unfolding bit_out2 bit_digit using n by (cases "6 \<le> n") (simp_all add: bit_group_2 less_diff_conv2)
qed

lemma digit_eqI:
  assumes "v AND 63 = v" and "\<And>n. n < 6 \<Longrightarrow> bit w (k + n) = bit v n"
  shows "b64_digit w k = v"
proof (rule bit_word_eqI)
  fix n
  show "bit (b64_digit w k) n = bit v n"
    using assms(2) [of n] digit_high_bits [OF assms(1), of n]
    by (cases "n < 6") (auto simp: bit_digit)
qed

lemma digit0_out:
  assumes "v0 AND 63 = v0" "v1 AND 63 = v1"
  shows "b64_digit (b64_group (out0 v0 v1) y z) 18 = v0"
proof (rule digit_eqI)
  fix n :: nat
  assume "n < 6"
  moreover have "18 + n = 16 + (2 + n)" by (simp del: add_2_eq_Suc)
  ultimately show "bit (b64_group (out0 v0 v1) y z) (18 + n) = bit v0 n"
    using digit_high_bits [OF assms(2), of "4 + (2 + n)"]
    by (simp only: bit_group_0 bit_out0) simp
qed (rule assms(1))

lemma digit1_out:
  assumes "v1 AND 63 = v1" "v2 AND 63 = v2"
  shows "b64_digit (b64_group (out0 v0 v1) (out1 v1 v2) z) 12 = v1"
proof (rule digit_eqI)
  fix n :: nat
  assume n: "n < 6"
  show "bit (b64_group (out0 v0 v1) (out1 v1 v2) z) (12 + n) = bit v1 n"
  proof (cases "n < 4")
    case True
    moreover have "12 + n = 8 + (4 + n)" by simp
    ultimately show ?thesis
      using digit_high_bits [OF assms(2), of "2 + (4 + n)"]
      by (simp only: bit_group_1 bit_out1) simp
  next
    case False
    then obtain m where m: "n = 4 + m" using le_Suc_ex not_less by blast
    moreover have "12 + (4 + m) = 16 + m" by simp
    ultimately show ?thesis using n
      by (simp only: bit_group_0 bit_out0) simp
  qed
qed (rule assms(1))

lemma digit2_out:
  assumes "v2 AND 63 = v2" "v3 AND 63 = v3"
  shows "b64_digit (b64_group x (out1 v1 v2) (out2 v2 v3)) 6 = v2"
proof (rule digit_eqI)
  fix n :: nat
  assume n: "n < 6"
  show "bit (b64_group x (out1 v1 v2) (out2 v2 v3)) (6 + n) = bit v2 n"
  proof (cases "n < 2")
    case True
    then show ?thesis
      using digit_high_bits [OF assms(2), of "6 + n"]
      by (simp add: bit_group_2 bit_out2)
  next
    case False
    then obtain m where m: "n = 2 + m" using le_Suc_ex not_less by blast
    moreover have "6 + (2 + m) = 8 + m" by (simp del: add_2_eq_Suc)
    ultimately show ?thesis using n
      by (simp only: bit_group_1 bit_out1) simp
  qed
qed (rule assms(1))

lemma digit3_out:
  assumes "v3 AND 63 = v3"
  shows "b64_digit (b64_group x y (out2 v2 v3)) 0 = v3"
  by (rule digit_eqI) (simp_all add: assms bit_group_2 bit_out2)

text \<open>The leftover test \<open>buf & ((1 << bits) - 1)\<close> reads the low bits of the last digit.\<close>

definition low_zero :: "nat \<Rightarrow> 32 word \<Rightarrow> bool" where
  "low_zero k w \<longleftrightarrow> w AND (push_bit k 1 - 1) = 0"

lemma low_zero_take: "low_zero k w \<longleftrightarrow> take_bit k w = 0"
  by (simp add: low_zero_def take_bit_eq_mask mask_eq_exp_minus_1)

lemma low_zero_bits:
  assumes "k \<le> 32"
  shows "low_zero k w \<longleftrightarrow> (\<forall>n < k. \<not> bit w n)"
  using assms by (auto simp: low_zero_take bit_eq_iff bit_take_bit_iff)

lemma low_zero_last: "k \<le> 6 \<Longrightarrow> low_zero k (push_bit 6 buf OR v) \<longleftrightarrow> low_zero k v"
  by (auto simp: low_zero_bits bit_simps)

lemma low_zero_digit1: "low_zero 4 (b64_digit (b64_group b0 0 0) 12)"
  and low_zero_digit2: "low_zero 2 (b64_digit (b64_group b0 b1 0) 6)"
  by (auto simp: low_zero_bits bit_digit bit_group bit_byte_high)

lemma out1_zero:
  assumes "low_zero 4 v1"
  shows "out1 v1 0 = 0"
proof (rule bit_word_eqI)
  fix n
  assume "n < LENGTH(8)"
  then have "n - 4 < 4" by simp
  with assms show "bit (out1 v1 0) n = bit (0 :: byte) n" by (auto simp: bit_out1 low_zero_bits)
qed

lemma out2_zero:
  assumes "low_zero 2 v2"
  shows "out2 v2 0 = 0"
proof (rule bit_word_eqI)
  fix n
  assume "n < LENGTH(8)"
  then have "n - 6 < 2" by simp
  with assms show "bit (out2 v2 0) n = bit (0 :: byte) n" by (auto simp: bit_out2 low_zero_bits)
qed

lemma b64_loop_encode:
  "\<exists>buf' bits'. b64_loop (b64u_encode bs) buf 0 out = Some (buf', bits', out @ bs)
     \<and> (0 < bits' \<longrightarrow> low_zero bits' buf')"
proof (induction bs arbitrary: buf out rule: b64u_encode.induct)
  case (2 b0)
  show ?case
    using low_zero_digit1 [of b0]
    by (simp add: Let_def b64_loop_two out0_digits [of b0 0 0] low_zero_last
        del: push_bit_push_bit push_bit_or b64_loop.simps(2))
next
  case (3 b0 b1)
  show ?case
    using low_zero_digit2 [of b0 b1]
    by (simp add: Let_def b64_loop_three out0_digits [of b0 b1 0] out1_digits [of b0 b1 0]
        low_zero_last del: push_bit_push_bit push_bit_or b64_loop.simps(2))
next
  case (4 b0 b1 b2 bs)
  obtain buf' bits' where "b64_loop (b64u_encode bs)
      (push_bit 6 (push_bit 6 (push_bit 6 (push_bit 6 buf OR b64_digit (b64_group b0 b1 b2) 18)
        OR b64_digit (b64_group b0 b1 b2) 12) OR b64_digit (b64_group b0 b1 b2) 6)
        OR b64_digit (b64_group b0 b1 b2) 0) 0 (out @ [b0, b1, b2])
      = Some (buf', bits', (out @ [b0, b1, b2]) @ bs)" "0 < bits' \<longrightarrow> low_zero bits' buf'"
    using 4 by blast
  then show ?case
    by (simp add: Let_def b64_loop_four out0_digits out1_digits out2_digits
        del: push_bit_push_bit push_bit_or b64_loop.simps(2))
qed simp

lemma length_b64u_encode: "length (b64u_encode bs) mod 4 \<noteq> 1"
  by (induction bs rule: b64u_encode.induct) (simp_all add: Let_def)

lemma b64u_decode_encode [simp]: "b64u_decode (b64u_encode bs) = Some bs"
  using b64_loop_encode [of bs 0 "[]"] length_b64u_encode [of bs]
  by (auto simp: b64u_decode_def low_zero_def)

lemma b64_loop_canonical:
  assumes "b64_loop s buf 0 out = Some (buf', bits', out')" "length s mod 4 \<noteq> 1"
    "0 < bits' \<longrightarrow> low_zero bits' buf'"
  shows "\<exists>bs. out' = out @ bs \<and> b64u_encode bs = s"
  using assms
proof (induction s arbitrary: buf out rule: length_induct)
  case (1 s)
  have digit: "\<exists>v. v AND 63 = v \<and> c = b64_char v"
    if "b64_loop (xs @ c # ys) b k o' = Some r" for xs c ys b k o' r
    using that
  proof (induction xs arbitrary: b k o')
    case Nil
    then show ?case by (auto split: option.splits elim!: b64_char_exists)
  qed (auto simp: Let_def split: option.splits if_splits)
  consider "s = []" | c where "s = [c]" | c0 c1 where "s = [c0, c1]"
    | c0 c1 c2 where "s = [c0, c1, c2]" | c0 c1 c2 c3 cs where "s = c0 # c1 # c2 # c3 # cs"
    by (metis list.exhaust)
  then show ?case
  proof cases
    case 1
    with "1.prems" show ?thesis by (intro exI [of _ "[]"]) simp
  next
    case 2
    with "1.prems" show ?thesis by simp
  next
    case 3
    obtain v0 v1 where v: "v0 AND 63 = v0" "c0 = b64_char v0" "v1 AND 63 = v1" "c1 = b64_char v1"
      using digit [of "[]" c0 "[c1]"] digit [of "[c0]" c1 "[]"] "1.prems"(1) 3 by fastforce
    with 3 "1.prems" have out: "out' = out @ [out0 v0 v1]" and "low_zero 4 v1"
      by (auto simp: b64_loop_two low_zero_last simp del: b64_loop.simps(2) push_bit_push_bit push_bit_or)
    then have z: "out1 v1 0 = 0" by (simp add: out1_zero)
    have "b64_digit (b64_group (out0 v0 v1) 0 0) 12 = v1"
      using digit1_out [OF v(3), of 0 v0 0] by (simp add: z)
    then show ?thesis using v out 3
      by (intro exI [of _ "[out0 v0 v1]"]) (simp add: Let_def digit0_out)
  next
    case 4
    obtain v0 v1 v2 where v: "v0 AND 63 = v0" "c0 = b64_char v0" "v1 AND 63 = v1" "c1 = b64_char v1"
        "v2 AND 63 = v2" "c2 = b64_char v2"
      using digit [of "[]" c0 "[c1,c2]"] digit [of "[c0]" c1 "[c2]"] digit [of "[c0,c1]" c2 "[]"]
        "1.prems"(1) 4 by fastforce
    with 4 "1.prems" have out: "out' = out @ [out0 v0 v1, out1 v1 v2]" and "low_zero 2 v2"
      by (auto simp: b64_loop_three low_zero_last simp del: b64_loop.simps(2) push_bit_push_bit push_bit_or)
    then have z: "out2 v2 0 = 0" by (simp add: out2_zero)
    have "b64_digit (b64_group (out0 v0 v1) (out1 v1 v2) 0) 6 = v2"
      using digit2_out [OF v(5), of 0 "out0 v0 v1" v1] by (simp add: z)
    then show ?thesis using v out 4
      by (intro exI [of _ "[out0 v0 v1, out1 v1 v2]"]) (simp add: Let_def digit0_out digit1_out)
  next
    case 5
    obtain v0 v1 v2 v3 where v: "v0 AND 63 = v0" "c0 = b64_char v0" "v1 AND 63 = v1" "c1 = b64_char v1"
        "v2 AND 63 = v2" "c2 = b64_char v2" "v3 AND 63 = v3" "c3 = b64_char v3"
      using digit [of "[]" c0 "c1#c2#c3#cs"] digit [of "[c0]" c1 "c2#c3#cs"]
        digit [of "[c0,c1]" c2 "c3#cs"] digit [of "[c0,c1,c2]" c3 cs]
        "1.prems"(1) 5 by fastforce
    let ?o = "[out0 v0 v1, out1 v1 v2, out2 v2 v3]"
    have "b64_loop cs (push_bit 6 (push_bit 6 (push_bit 6 (push_bit 6 buf OR v0) OR v1) OR v2) OR v3)
        0 (out @ ?o) = Some (buf', bits', out')"
      using "1.prems"(1) v unfolding 5 by (simp only: b64_loop_four)
    moreover have "length cs < length s" "length cs mod 4 \<noteq> 1" using 5 "1.prems"(2) by simp_all
    ultimately have "\<exists>bs. out' = (out @ ?o) @ bs \<and> b64u_encode bs = cs"
      using "1.IH" "1.prems"(3) by blast
    then obtain bs where "out' = out @ (?o @ bs)" "b64u_encode bs = cs" by auto
    then show ?thesis using v 5
      by (intro exI [of _ "?o @ bs"]) (simp add: Let_def digit0_out digit1_out digit2_out digit3_out)
  qed
qed

lemma b64u_encode_decode: "b64u_decode s = Some bs \<Longrightarrow> b64u_encode bs = s"
  unfolding b64u_decode_def
  using b64_loop_canonical [of s 0 "[]"]
  by (auto simp: low_zero_def split: if_splits option.splits)

lemma b64u_decode_iff: "b64u_decode s = Some bs \<longleftrightarrow> s = b64u_encode bs"
  using b64u_encode_decode b64u_decode_encode by blast

end
