(* ===== verification/Routes.thy ===== *)
theory Routes
  imports Codec
begin

text \<open>
  The rest of the route codec (\<open>src/app/src/codec.ts\<close>): SipHash-2-4, the keyed opaque tokens,
  the engine prefix, the decode history of keys, and the recovery of routes.

  The module's bindings \<open>prefix\<close>, \<open>routeKey\<close>, \<open>routeKeys\<close> are the record \<open>codec\<close>. The
  masked \<open>BigInt\<close> arithmetic is arithmetic on \<open>64 word\<close>. The locale \<open>token_scheme\<close> is the
  contract the decode history relies on (a token opens under a key exactly when it was minted
  under it); the keyed tokens of the code are proved to satisfy it.
\<close>

section \<open>SipHash-2-4\<close>

type_synonym sip = "64 word \<times> 64 word \<times> 64 word \<times> 64 word"

definition rotl64 :: "64 word \<Rightarrow> nat \<Rightarrow> 64 word" where
  "rotl64 v n = push_bit n v OR drop_bit (64 - n) v"

definition le64 :: "byte list \<Rightarrow> nat \<Rightarrow> 64 word" where
  "le64 b i = foldr (\<lambda>x v. push_bit 8 v OR ucast x) (take 8 (drop i b)) 0"

definition u64le :: "64 word \<Rightarrow> byte list" where
  "u64le v = map (\<lambda>j. ucast (drop_bit (8 * j) v AND 255)) [0..<8]"

definition u32le :: "nat \<Rightarrow> byte list" where
  "u32le n = map (\<lambda>j. ucast (drop_bit (8 * j) (of_nat n :: 32 word) AND 255)) [0..<4]"

definition sipround :: "sip \<Rightarrow> sip" where
  "sipround v =
     (let (v0, v1, v2, v3) = v;
          v0 = v0 + v1;
          v1 = rotl64 v1 13;
          v1 = v1 XOR v0;
          v0 = rotl64 v0 32;
          v2 = v2 + v3;
          v3 = rotl64 v3 16;
          v3 = v3 XOR v2;
          v0 = v0 + v3;
          v3 = rotl64 v3 21;
          v3 = v3 XOR v0;
          v2 = v2 + v1;
          v1 = rotl64 v1 17;
          v1 = v1 XOR v2;
          v2 = rotl64 v2 32
      in (v0, v1, v2, v3))"

definition sip_compress :: "64 word \<Rightarrow> sip \<Rightarrow> sip" where
  "sip_compress m v =
     (let (v0, v1, v2, v3) = v;
          (v0, v1, v2, v3) = sipround (sipround (v0, v1, v2, v3 XOR m))
      in (v0 XOR m, v1, v2, v3))"

text \<open>The block loop: the state after every full block, and the bytes left over.\<close>

fun sip_blocks :: "byte list \<Rightarrow> sip \<Rightarrow> sip \<times> byte list" where
  "sip_blocks msg v =
     (if length msg < 8 then (v, msg)
      else sip_blocks (drop 8 msg) (sip_compress (le64 msg 0) v))"

declare sip_blocks.simps [simp del]

definition siphash24 :: "byte list \<Rightarrow> byte list \<Rightarrow> 64 word" where
  "siphash24 key msg =
     (let k0 = le64 key 0;
          k1 = le64 key 8;
          v = (k0 XOR 0x736f6d6570736575, k1 XOR 0x646f72616e646f6d,
               k0 XOR 0x6c7967656e657261, k1 XOR 0x7465646279746573);
          (v, rest) = sip_blocks msg v;
          last = foldl (\<lambda>w j. w OR push_bit (8 * j) (ucast (rest ! j)))
                   (push_bit 56 (of_nat (length msg mod 256))) [0..<length rest];
          (v0, v1, v2, v3) = sip_compress last v;
          (v0, v1, v2, v3) = sipround (sipround (sipround (sipround (v0, v1, v2 XOR 0xff, v3))))
      in v0 XOR v1 XOR v2 XOR v3)"

definition keystream_block :: "byte list \<Rightarrow> byte list \<Rightarrow> nat \<Rightarrow> byte list" where
  "keystream_block key iv j = u64le (siphash24 key (iv @ u32le j @ [3]))"

definition dest_mac :: "byte list \<Rightarrow> byte list \<Rightarrow> byte \<Rightarrow> byte list" where
  "dest_mac key dest d = u64le (siphash24 key (dest @ [d]))"

lemma length_u64le [simp]: "length (u64le v) = 8"
  by (simp add: u64le_def)

lemma length_dest_mac [simp]: "length (dest_mac key dest d) = 8"
  by (simp add: dest_mac_def)

section \<open>Keyed tokens\<close>

definition keyed_iv :: "byte list \<Rightarrow> byte list \<Rightarrow> byte list" where
  "keyed_iv key d = dest_mac key d 1 @ dest_mac key d 2"

text \<open>\<open>macEquals\<close> folds all sixteen bytes into one difference.\<close>

definition mac_equals :: "byte list \<Rightarrow> byte list \<Rightarrow> byte list \<Rightarrow> bool" where
  "mac_equals key data iv \<longleftrightarrow>
     foldl (\<lambda>diff i. diff OR (keyed_iv key data ! i XOR iv ! i)) (0 :: byte) [0..<16] = 0"

definition xor_stream :: "byte list \<Rightarrow> byte list \<Rightarrow> byte list \<Rightarrow> byte list" where
  "xor_stream key iv d =
     map (\<lambda>i. d ! i XOR keystream_block key iv (i div 8) ! (i mod 8)) [0..<length d]"

definition keyed_bytes :: "byte list \<Rightarrow> byte list \<Rightarrow> byte list" where
  "keyed_bytes key d = (let iv = keyed_iv key d in [1] @ iv @ xor_stream key iv d)"

definition keyed_token :: "byte list \<Rightarrow> string \<Rightarrow> byte list" where
  "keyed_token key dest = keyed_bytes key (utf8_encode dest)"

text \<open>The decrypting loop of the decoder, with its cache of keystream blocks.\<close>

fun decrypt_loop :: "byte list \<Rightarrow> byte list \<Rightarrow> byte list \<Rightarrow> nat \<Rightarrow> (nat \<rightharpoonup> byte list) \<Rightarrow> byte list" where
  "decrypt_loop key iv [] i blocks = []"
| "decrypt_loop key iv (c # ct) i blocks =
     (case blocks (i div 8) of
        Some ks \<Rightarrow> (c XOR ks ! (i mod 8)) # decrypt_loop key iv ct (Suc i) blocks
      | None \<Rightarrow>
          let ks = keystream_block key iv (i div 8) in
          (c XOR ks ! (i mod 8)) # decrypt_loop key iv ct (Suc i) (blocks(i div 8 \<mapsto> ks)))"

definition keyed_payload :: "byte list option \<Rightarrow> byte list \<Rightarrow> string option" where
  "keyed_payload key bytes =
     (case key of
        None \<Rightarrow> None
      | Some k \<Rightarrow>
          if length bytes < 17 \<or> bytes ! 0 \<noteq> 1 then None
          else
            let iv = take 16 (drop 1 bytes);
                ct = drop 17 bytes;
                d = decrypt_loop k iv ct 0 Map.empty
            in case utf8_decode d of
                 None \<Rightarrow> None
               | Some payload \<Rightarrow> if mac_equals k d iv then Some payload else None)"

definition http_shaped :: "string \<Rightarrow> bool" where
  "http_shaped s \<longleftrightarrow> starts_with s ''http://'' \<or> starts_with s ''https://''"

definition keyed_decode :: "byte list option \<Rightarrow> byte list \<Rightarrow> string option" where
  "keyed_decode key bytes =
     (case keyed_payload key bytes of
        None \<Rightarrow> None
      | Some payload \<Rightarrow> if http_shaped payload then Some payload else None)"

lemma length_keyed_iv [simp]: "length (keyed_iv key d) = 16"
  by (simp add: keyed_iv_def)

lemma length_xor_stream [simp]: "length (xor_stream key iv d) = length d"
  by (simp add: xor_stream_def)

lemma xor_stream_twice [simp]: "xor_stream key iv (xor_stream key iv d) = d"
  by (rule nth_equalityI) (simp_all add: xor_stream_def xor.assoc)

lemma decrypt_loop_stream:
  assumes "\<forall>j ks. blocks j = Some ks \<longrightarrow> ks = keystream_block key iv j"
  shows "decrypt_loop key iv ct i blocks =
    map (\<lambda>j. ct ! j XOR keystream_block key iv ((i + j) div 8) ! ((i + j) mod 8)) [0..<length ct]"
  using assms
proof (induction ct arbitrary: i blocks)
  case (Cons c ct)
  have upt: "[0..<length (c # ct)] = 0 # map Suc [0..<length ct]"
    by (simp add: upt_conv_Cons map_Suc_upt del: upt_Suc)
  let ?b = "blocks(i div 8 \<mapsto> keystream_block key iv (i div 8))"
  have b: "\<forall>j ks. ?b j = Some ks \<longrightarrow> ks = keystream_block key iv j"
    using Cons.prems by (auto split: if_splits)
  have "decrypt_loop key iv (c # ct) i blocks
      = (c XOR keystream_block key iv (i div 8) ! (i mod 8)) #
        map (\<lambda>j. ct ! j XOR keystream_block key iv ((Suc i + j) div 8) ! ((Suc i + j) mod 8))
          [0..<length ct]"
    using Cons.IH [OF Cons.prems, of "Suc i"] Cons.IH [OF b, of "Suc i"] Cons.prems
    by (auto simp: Let_def simp del: fun_upd_apply split: option.splits)
  then show ?case unfolding upt by (simp add: comp_def del: upt_Suc)
qed simp

lemma decrypt_loop_eq: "decrypt_loop key iv ct 0 Map.empty = xor_stream key iv ct"
  using decrypt_loop_stream [of Map.empty key iv ct 0] by (simp add: xor_stream_def)

lemma xor_zero_iff: "x XOR y = (0 :: byte) \<longleftrightarrow> x = y"
  by (auto simp: bit_eq_iff bit_xor_iff)

lemma foldl_or_zero:
  "foldl (\<lambda>d i. d OR f i) (a :: byte) is = 0 \<longleftrightarrow> a = 0 \<and> (\<forall>i \<in> set is. f i = 0)"
  by (induction "is" arbitrary: a) (auto simp: or_eq_0_iff)

lemma mac_equals_iff:
  assumes "length iv = 16"
  shows "mac_equals key data iv \<longleftrightarrow> iv = keyed_iv key data"
proof -
  have "mac_equals key data iv \<longleftrightarrow> (\<forall>i < 16. keyed_iv key data ! i = iv ! i)"
    unfolding mac_equals_def foldl_or_zero by (auto simp: xor_zero_iff)
  then show ?thesis using assms by (auto simp: list_eq_iff_nth_eq)
qed

lemma keyed_payload_bytes: "keyed_payload (Some k) (keyed_bytes k d) = utf8_decode d"
  by (simp add: keyed_payload_def keyed_bytes_def Let_def decrypt_loop_eq mac_equals_iff split: option.split)

lemma keyed_payload_mint: "keyed_payload (Some k) (keyed_token k s) = Some s"
  by (simp add: keyed_token_def keyed_payload_bytes)

text \<open>A token opens only when it was made, under the key, of bytes that spell its payload.\<close>

lemma keyed_payload_minted:
  assumes "keyed_payload (Some k) bytes = Some s"
  shows "\<exists>d. bytes = keyed_bytes k d \<and> utf8_decode d = Some s"
proof -
  let ?iv = "take 16 (drop 1 bytes)" and ?ct = "drop 17 bytes"
  let ?d = "xor_stream k ?iv ?ct"
  from assms have b: "17 \<le> length bytes" "bytes ! 0 = 1"
    and s: "utf8_decode ?d = Some s" and mac: "mac_equals k ?d ?iv"
    by (auto simp: keyed_payload_def Let_def decrypt_loop_eq split: if_splits option.splits)
  have iv: "?iv = keyed_iv k ?d"
    using mac b(1) by (simp add: mac_equals_iff)
  have "keyed_bytes k ?d = 1 # ?iv @ xor_stream k ?iv ?d"
    unfolding keyed_bytes_def Let_def iv [symmetric] by simp
  also have "\<dots> = 1 # ?iv @ ?ct" by simp
  also have "\<dots> = bytes"
    using b by (cases bytes) (simp_all add: append_take_drop_id [of 16, simplified])
  finally show ?thesis using s by metis
qed

lemma keyed_bytes_inject: "keyed_bytes k d = keyed_bytes k e \<Longrightarrow> d = e"
  by (auto simp: keyed_bytes_def Let_def) (metis length_keyed_iv append_eq_append_conv xor_stream_twice)

text \<open>The contract of a token scheme, and the search through the keys that hold it.\<close>

fun find_open :: "('k \<Rightarrow> 't \<Rightarrow> 'd option) \<Rightarrow> 'k list \<Rightarrow> 't \<Rightarrow> 'd option" where
  "find_open open_with [] t = None"
| "find_open open_with (k # ks) t =
     (case open_with k t of Some d \<Rightarrow> Some d | None \<Rightarrow> find_open open_with ks t)"

locale token_scheme =
  fixes mint :: "'k \<Rightarrow> 'p \<Rightarrow> 't"
    and spells :: "'p \<Rightarrow> 'd option"
    and open_with :: "'k \<Rightarrow> 't \<Rightarrow> 'd option"
    and admissible :: "'d \<Rightarrow> bool"
  assumes open_mint: "spells p = Some d \<Longrightarrow> admissible d \<Longrightarrow> open_with k (mint k p) = Some d"
    and mint_open: "open_with k t = Some d \<Longrightarrow> \<exists>p. t = mint k p \<and> spells p = Some d \<and> admissible d"
begin

lemma find_open_sound:
  "find_open open_with ks t = Some d \<Longrightarrow> \<exists>k \<in> set ks. \<exists>p. t = mint k p \<and> spells p = Some d \<and> admissible d"
  by (induction ks) (auto dest!: mint_open split: option.splits)

lemma find_open_head: "spells p = Some d \<Longrightarrow> admissible d \<Longrightarrow> find_open open_with (k # ks) (mint k p) = Some d"
  by (simp add: open_mint)

lemma find_open_rotated:
  assumes "spells p = Some d" "admissible d" "k \<in> set ks"
  shows "find_open open_with ks (mint k p) \<noteq> None"
  using assms(3) by (induction ks) (auto simp: open_mint assms(1,2) split: option.splits)

lemma find_open_foreign:
  assumes "\<forall>k \<in> set ks. \<forall>p. t \<noteq> mint k p"
  shows "find_open open_with ks t = None"
  using find_open_sound assms by (metis not_None_eq)

end

lemma keyed_decode_minted:
  "keyed_decode (Some k) bytes = Some s \<Longrightarrow> \<exists>d. bytes = keyed_bytes k d \<and> utf8_decode d = Some s \<and> http_shaped s"
  by (auto simp: keyed_decode_def dest: keyed_payload_minted split: option.splits if_splits)

lemma keyed_decode_bytes:
  "utf8_decode d = Some s \<Longrightarrow> http_shaped s \<Longrightarrow> keyed_decode (Some k) (keyed_bytes k d) = Some s"
  by (simp add: keyed_decode_def keyed_payload_bytes)

interpretation keyed: token_scheme keyed_bytes utf8_decode "\<lambda>k. keyed_decode (Some k)" http_shaped
  by unfold_locales (simp_all add: keyed_decode_bytes keyed_decode_minted)

section \<open>The codec state\<close>

record codec =
  prefix :: string
  route_key :: "byte list option"
  route_keys :: "byte list list"

definition initial_codec :: codec where
  "initial_codec = \<lparr>prefix = ''/j/'', route_key = None, route_keys = []\<rparr>"

definition RESERVED_SCHEME_SEGMENTS :: "string list" where
  "RESERVED_SCHEME_SEGMENTS = [''__zl_nav__'', ''__zl_navh__'', ''zl-ext'', ''zl-cs'', ''zlsw-register'']"

definition is_segment_char :: "char \<Rightarrow> bool" where
  "is_segment_char c \<longleftrightarrow> c \<in> set B64URL"

text \<open>\<open>/^\/[A-Za-z0-9_-]{1,32}\/$/\<close> and the reserved names.\<close>

definition valid_scheme_prefix :: "string \<Rightarrow> bool" where
  "valid_scheme_prefix p \<longleftrightarrow>
     (3 \<le> length p \<and> length p \<le> 34 \<and> hd p = CHR ''/'' \<and> last p = CHR ''/'' \<and>
      (let seg = butlast (tl p) in
       list_all is_segment_char seg \<and>
       \<not> (starts_with seg ''__zl'' \<or> seg \<in> set RESERVED_SCHEME_SEGMENTS)))"

definition set_scheme :: "codec \<Rightarrow> string \<Rightarrow> bool \<times> codec" where
  "set_scheme st p = (if valid_scheme_prefix p then (True, st\<lparr>prefix := p\<rparr>) else (False, st))"

definition is_engine_path :: "codec \<Rightarrow> string \<Rightarrow> bool" where
  "is_engine_path st path \<longleftrightarrow> path = prefix st \<or> starts_with path (prefix st)"

definition set_route_key :: "codec \<Rightarrow> string option \<Rightarrow> codec" where
  "set_route_key st b64 =
     (let bytes = (case b64 of None \<Rightarrow> None | Some s \<Rightarrow> b64u_decode s);
          key = (case bytes of Some b \<Rightarrow> if length b = 16 then Some b else None | None \<Rightarrow> None)
      in st\<lparr>route_key := key, route_keys := (case key of Some k \<Rightarrow> [k] | None \<Rightarrow> [])\<rparr>)"

definition set_route_keys :: "codec \<Rightarrow> string list \<Rightarrow> codec" where
  "set_route_keys st b64s =
     (let keys = filter (\<lambda>k. length k = 16) (List.map_filter b64u_decode b64s)
      in st\<lparr>route_keys := keys, route_key := (case keys of [] \<Rightarrow> None | k # _ \<Rightarrow> Some k)\<rparr>)"

definition encode_dest_legacy :: "codec \<Rightarrow> string \<Rightarrow> string" where
  "encode_dest_legacy st dest = prefix st @ b64u_encode (utf8_encode dest)"

definition encode_dest :: "codec \<Rightarrow> string \<Rightarrow> string" where
  "encode_dest st dest =
     (case route_key st of
        Some k \<Rightarrow> prefix st @ b64u_encode (keyed_token k dest)
      | None \<Rightarrow> encode_dest_legacy st dest)"

definition mintable_dest :: "url_parser \<Rightarrow> string \<Rightarrow> bool" where
  "mintable_dest parse dest \<longleftrightarrow>
     (case parse dest of
        None \<Rightarrow> False
      | Some u \<Rightarrow> url_protocol u = ''http:'' \<or> url_protocol u = ''https:'')"

text \<open>\<open>s.split(/[?#]/)[0]\<close>\<close>

definition path_only :: "string \<Rightarrow> string" where
  "path_only s = takeWhile (\<lambda>c. c \<noteq> CHR ''?'' \<and> c \<noteq> CHR ''#'') s"

definition tail_bytes :: "codec \<Rightarrow> string \<Rightarrow> byte list option" where
  "tail_bytes st path =
     (if \<not> starts_with path (prefix st) then None
      else b64u_decode (path_only (drop (length (prefix st)) path)))"

definition looks_keyed :: "byte list \<Rightarrow> bool" where
  "looks_keyed bytes \<longleftrightarrow> 17 \<le> length bytes \<and> bytes ! 0 = 1"

definition looks_keyed_token :: "codec \<Rightarrow> string \<Rightarrow> bool" where
  "looks_keyed_token st path =
     (case tail_bytes st path of None \<Rightarrow> False | Some bytes \<Rightarrow> looks_keyed bytes)"

text \<open>\<open>for (const key of routeKeys) { const dest = keyedDecode(key, bytes); if (dest) return dest; }\<close>\<close>

fun decode_with_keys :: "byte list list \<Rightarrow> byte list \<Rightarrow> string option" where
  "decode_with_keys [] bytes = None"
| "decode_with_keys (key # keys) bytes =
     (case keyed_decode (Some key) bytes of
        Some dest \<Rightarrow> if dest \<noteq> [] then Some dest else decode_with_keys keys bytes
      | None \<Rightarrow> decode_with_keys keys bytes)"

definition decode_bytes :: "codec \<Rightarrow> byte list \<Rightarrow> string option" where
  "decode_bytes st bytes =
     (if looks_keyed bytes then decode_with_keys (route_keys st) bytes
      else case utf8_decode bytes of
        None \<Rightarrow> None
      | Some dest \<Rightarrow> if http_shaped dest then Some dest else None)"

definition decode_path :: "codec \<Rightarrow> string \<Rightarrow> string option" where
  "decode_path st path =
     (case tail_bytes st path of None \<Rightarrow> None | Some bytes \<Rightarrow> decode_bytes st bytes)"

text \<open>\<open>/^\/([^/]+)\/([A-Za-z0-9_-]+)$/\<close>: two segments, the second a base64url word.\<close>

definition two_segments :: "string \<Rightarrow> (string \<times> string) option" where
  "two_segments path =
     (case split_on (CHR ''/'') path of
        [e, seg, tail] \<Rightarrow>
          if e = [] \<and> seg \<noteq> [] \<and> tail \<noteq> [] \<and> list_all is_segment_char tail then Some (seg, tail)
          else None
      | _ \<Rightarrow> None)"

definition decode_legacy_route :: "codec \<Rightarrow> string \<Rightarrow> string option" where
  "decode_legacy_route st path =
     (case two_segments path of
        None \<Rightarrow> None
      | Some (seg, tail) \<Rightarrow>
          if prefix st \<noteq> ''/'' @ seg @ ''/'' \<and> seg \<noteq> ''zl'' then None
          else case b64u_decode tail of None \<Rightarrow> None | Some bytes \<Rightarrow> decode_bytes st bytes)"

definition legacy_route_shaped :: "codec \<Rightarrow> string \<Rightarrow> bool" where
  "legacy_route_shaped st path =
     (case two_segments path of
        None \<Rightarrow> False
      | Some (seg, tail) \<Rightarrow> prefix st = ''/'' @ seg @ ''/'' \<or> seg = ''zl'')"

definition is_engine_asset :: "string \<Rightarrow> bool" where
  "is_engine_asset path \<longleftrightarrow>
     path \<in> {''/sw.js'', ''/bootstrap.js'', ''/prelude.js'', ''/worker-prelude.js'',
              ''/devtools.html'', ''/devtools.js'', ''/index.html'', ''/rewriter_wasm.js'',
              ''/rewriter_wasm_bg.wasm''}"

text \<open>\<open>unwrapDest\<close>: at most \<open>hops\<close> nested engine routes are peeled.\<close>

fun unwrap_hops :: "url_parser \<Rightarrow> codec \<Rightarrow> nat \<Rightarrow> string \<Rightarrow> string" where
  "unwrap_hops parse st 0 cur = cur"
| "unwrap_hops parse st (Suc n) cur =
     (if \<not> http_shaped cur then cur
      else case parse cur of
        None \<Rightarrow> cur
      | Some u \<Rightarrow>
          if \<not> is_engine_path st (url_pathname u) then cur
          else case decode_path st (url_pathname u) of
            None \<Rightarrow> cur
          | Some inner \<Rightarrow> if inner = [] \<or> inner = cur then cur else unwrap_hops parse st n inner)"

definition unwrap_dest :: "url_parser \<Rightarrow> codec \<Rightarrow> string \<Rightarrow> string" where
  "unwrap_dest parse st dest = unwrap_hops parse st 8 dest"

section \<open>Recovering a concatenated tail\<close>

text \<open>\<open>String.prototype.indexOf\<close>\<close>

fun find_sub :: "string \<Rightarrow> string \<Rightarrow> nat option" where
  "find_sub [] p = (if p = [] then Some 0 else None)"
| "find_sub (c # s) p = (if starts_with (c # s) p then Some 0 else map_option Suc (find_sub s p))"

definition recover_gate :: "byte list \<Rightarrow> byte list \<Rightarrow> byte list \<Rightarrow> bool" where
  "recover_gate key iv ct =
     (let ks0 = keystream_block key iv 0;
          gate = map (\<lambda>b. char_of (unat ((if b < length ct then ct ! b else 0) XOR ks0 ! b)) :: char) [0..<8]
      in http_shaped gate)"

text \<open>The scan over the candidate lengths \<open>L\<close>.\<close>

fun recover_scan :: "byte list \<Rightarrow> byte list \<Rightarrow> byte list \<Rightarrow> string \<Rightarrow> nat list \<Rightarrow> string option" where
  "recover_scan key iv d tail [] = None"
| "recover_scan key iv d tail (L # Ls) =
     (if L mod 4 = 1 then recover_scan key iv d tail Ls
      else
        let cand = take (3 * L div 4 - 17) d in
        if \<not> mac_equals key cand iv then recover_scan key iv d tail Ls
        else case utf8_decode cand of
          None \<Rightarrow> recover_scan key iv d tail Ls
        | Some dest \<Rightarrow>
            if \<not> http_shaped dest then recover_scan key iv d tail Ls
            else Some (dest @ drop L tail))"

fun recover_keys :: "byte list list \<Rightarrow> byte list \<Rightarrow> byte list \<Rightarrow> string \<Rightarrow> nat \<Rightarrow> string option" where
  "recover_keys [] iv ct tail maxL = None"
| "recover_keys (key # keys) iv ct tail maxL =
     (if \<not> recover_gate key iv ct then recover_keys keys iv ct tail maxL
      else
        let d = decrypt_loop key iv ct 0 Map.empty in
        case recover_scan key iv d tail [23..<Suc maxL] of
          Some r \<Rightarrow> Some r
        | None \<Rightarrow> recover_keys keys iv ct tail maxL)"

definition recover_path :: "codec \<Rightarrow> string \<Rightarrow> string option" where
  "recover_path st path =
     (case find_sub path (prefix st) of
        None \<Rightarrow> None
      | Some i \<Rightarrow>
          let tail = path_only (drop (i + length (prefix st)) path) in
          if length tail < 23 \<or> 2048 < length tail then None
          else
            let maxL = length (takeWhile (\<lambda>c. index_of B64URL c \<noteq> None) tail) in
            if maxL < 23 then None
            else case b64u_decode_lenient (take maxL tail) of
              None \<Rightarrow> None
            | Some bytes \<Rightarrow>
                if length bytes < 24 \<or> bytes ! 0 \<noteq> 1 then None
                else recover_keys (route_keys st) (take 16 (drop 1 bytes)) (drop 17 bytes) tail maxL)"

section \<open>Resolving an escaped request by its referrer\<close>

definition referrer_dest :: "url_parser \<Rightarrow> (string \<Rightarrow> url \<Rightarrow> string option) \<Rightarrow> codec \<Rightarrow> string \<Rightarrow> string \<Rightarrow> string option" where
  "referrer_dest parse resolve st referrer path =
     (case parse referrer of
        None \<Rightarrow> None
      | Some ref \<Rightarrow>
          if \<not> is_engine_path st (url_pathname ref) then None
          else case decode_path st (url_pathname ref) of
            None \<Rightarrow> None
          | Some page_dest \<Rightarrow>
              if page_dest = [] then None
              else case parse page_dest of
                None \<Rightarrow> None
              | Some home \<Rightarrow>
                  if url_protocol home \<noteq> ''http:'' \<and> url_protocol home \<noteq> ''https:'' then None
                  else resolve path home)"

text \<open>The state invariant: the minting key is the newest key of the history.\<close>

definition codec_wf :: "codec \<Rightarrow> bool" where
  "codec_wf st \<longleftrightarrow>
     valid_scheme_prefix (prefix st) \<and>
     route_key st = (case route_keys st of [] \<Rightarrow> None | k # _ \<Rightarrow> Some k) \<and>
     (\<forall>k \<in> set (route_keys st). length k = 16)"

lemma codec_wf_initial: "codec_wf initial_codec"
  by (simp add: codec_wf_def initial_codec_def valid_scheme_prefix_def is_segment_char_def B64URL_def
      RESERVED_SCHEME_SEGMENTS_def)

lemma codec_wf_set_scheme: "codec_wf st \<Longrightarrow> codec_wf (snd (set_scheme st p))"
  by (simp add: set_scheme_def codec_wf_def)

lemma codec_wf_set_route_key: "codec_wf st \<Longrightarrow> codec_wf (set_route_key st b)"
  by (auto simp: set_route_key_def codec_wf_def Let_def split: option.splits)

lemma codec_wf_set_route_keys: "codec_wf st \<Longrightarrow> codec_wf (set_route_keys st bs)"
proof -
  have "length k = 16" if "k \<in> set (filter (\<lambda>k. length k = 16) xs)" for k :: "byte list" and xs
    using that by simp
  moreover assume "codec_wf st"
  ultimately show ?thesis
    by (auto simp: set_route_keys_def codec_wf_def Let_def split: list.splits)
qed

lemma http_shaped_nonempty: "http_shaped d \<Longrightarrow> d \<noteq> []"
  by (auto simp: http_shaped_def)

lemma decode_with_keys_find:
  "decode_with_keys keys bytes = find_open (\<lambda>k. keyed_decode (Some k)) keys bytes"
  by (induction keys)
    (auto split: option.splits dest!: keyed_decode_minted dest: http_shaped_nonempty)

lemma b64u_encode_chars: "set (b64u_encode bs) \<subseteq> set B64URL"
proof -
  have "b64_char (b64_digit n k) \<in> set B64URL" for n k
    using digit_less [OF b64_digit_digit] length_B64URL by (simp add: b64_char_def)
  then show ?thesis
    by (induction bs rule: b64u_encode.induct) (auto simp: Let_def)
qed

lemma path_only_encode:
  assumes "rest = [] \<or> hd rest = CHR ''?'' \<or> hd rest = CHR ''#''"
  shows "path_only (b64u_encode bs @ rest) = b64u_encode bs"
proof -
  have "CHR ''?'' \<notin> set B64URL" "CHR ''#'' \<notin> set B64URL" by (simp_all add: B64URL_def)
  then have "\<forall>c \<in> set (b64u_encode bs). c \<noteq> CHR ''?'' \<and> c \<noteq> CHR ''#''"
    using b64u_encode_chars [of bs] by blast
  moreover have "takeWhile (\<lambda>c. c \<noteq> CHR ''?'' \<and> c \<noteq> CHR ''#'') rest = []"
    using assms by (cases rest) auto
  ultimately show ?thesis
    by (simp add: path_only_def)
qed

lemma tail_bytes_encode:
  "rest = [] \<or> hd rest = CHR ''?'' \<or> hd rest = CHR ''#'' \<Longrightarrow>
   tail_bytes st (prefix st @ b64u_encode bs @ rest) = Some bs"
  by (simp add: tail_bytes_def path_only_encode)

lemma looks_keyed_bytes: "looks_keyed (keyed_bytes k d)"
  by (simp add: looks_keyed_def keyed_bytes_def Let_def)

lemma looks_keyed_token_bytes: "looks_keyed (keyed_token k d)"
  by (simp add: keyed_token_def looks_keyed_bytes)

lemma legacy_not_keyed:
  assumes "utf8_decode bytes = Some d" "http_shaped d"
  shows "\<not> looks_keyed bytes"
proof -
  obtain r where "d = CHR ''h'' # r" using assms(2) by (auto simp: http_shaped_def starts_with_iff)
  then show ?thesis using assms(1) by (auto simp: utf8_decode_iff looks_keyed_def BOM_def)
qed

lemma decode_bytes_iff:
  "decode_bytes st bytes = Some d \<longleftrightarrow>
     (looks_keyed bytes \<and> find_open (\<lambda>k. keyed_decode (Some k)) (route_keys st) bytes = Some d) \<or>
     (utf8_decode bytes = Some d \<and> http_shaped d)"
  using legacy_not_keyed [of bytes d]
  by (auto simp: decode_bytes_def decode_with_keys_find split: option.splits)

lemma valid_prefix_cases:
  assumes "valid_scheme_prefix p"
  obtains seg where "p = ''/'' @ seg @ ''/''" "seg \<noteq> []" "list_all is_segment_char seg"
    "\<not> starts_with seg ''__zl''" "seg \<notin> set RESERVED_SCHEME_SEGMENTS"
proof -
  have len: "3 \<le> length p" and "hd p = CHR ''/''" "last p = CHR ''/''"
    using assms by (auto simp: valid_scheme_prefix_def)
  then obtain q where p: "p = CHR ''/'' # q" and q: "2 \<le> length q" "last q = CHR ''/''"
    by (cases p) (auto split: if_splits)
  then have "q = butlast q @ ''/''" by (metis append_butlast_last_id list.size(3) not_numeral_le_zero)
  moreover have "butlast q \<noteq> []" using q(1) by (cases q rule: rev_cases) auto
  ultimately show ?thesis
    using that [of "butlast q"] assms p by (auto simp: valid_scheme_prefix_def Let_def)
qed

lemma segment_unique:
  assumes "a @ c # r = b @ c # s" "c \<notin> set a" "c \<notin> set b"
  shows "a = b"
proof -
  have "takeWhile (\<lambda>x. x \<noteq> c) (a @ c # r) = a" "takeWhile (\<lambda>x. x \<noteq> c) (b @ c # s) = b"
    using assms(2,3) by (auto simp: takeWhile_append)
  with assms(1) show ?thesis by simp
qed

lemma codec_history: "codec_wf st \<Longrightarrow> route_key st = Some k \<Longrightarrow> \<exists>ks. route_keys st = k # ks"
  by (auto simp: codec_wf_def split: list.splits)

text \<open>The gate lets no text through that starts with the mark.\<close>

lemma bom_not_h: "(char_of (239 :: nat) :: char) \<noteq> CHR ''h''"
  by code_simp

lemma recover_gate_no_bom:
  assumes "recover_gate key iv ct" "take n (xor_stream key iv ct) = BOM @ e"
  shows False
proof -
  let ?g = "\<lambda>i. (if i < length ct then ct ! i else 0) XOR keystream_block key iv 0 ! i"
  have "0 < length (take n (xor_stream key iv ct))" using assms(2) by (simp add: BOM_def)
  then have ct: "0 < length ct" "0 < n" by simp_all
  have "take n (xor_stream key iv ct) ! 0 = 0xEF" using assms(2) by (simp add: BOM_def)
  then have "?g 0 = 0xEF" using ct by (simp add: xor_stream_def)
  then have "hd (map (\<lambda>i. char_of (unat (?g i)) :: char) [0..<8]) = char_of (239 :: nat)"
    by (simp add: upt_conv_Cons)
  moreover have "hd (map (\<lambda>i. char_of (unat (?g i)) :: char) [0..<8]) = CHR ''h''"
    using assms(1) unfolding recover_gate_def Let_def http_shaped_def starts_with_iff by auto
  ultimately show False using bom_not_h by metis
qed

lemma recover_scan_sound:
  assumes "recover_scan key iv d tail Ls = Some r" "length iv = 16" "\<forall>n e. take n d \<noteq> BOM @ e"
  shows "\<exists>L dest. L \<in> set Ls \<and> iv = keyed_iv key (utf8_encode dest)
     \<and> take (3 * L div 4 - 17) d = utf8_encode dest \<and> http_shaped dest \<and> r = dest @ drop L tail"
  using assms
proof (induction Ls)
  case (Cons L Ls)
  let ?cand = "take (3 * L div 4 - 17) d"
  show ?case
  proof (cases "L mod 4 \<noteq> 1 \<and> mac_equals key ?cand iv \<and> (\<exists>dest. utf8_decode ?cand = Some dest \<and> http_shaped dest)")
    case True
    then obtain dest where d: "utf8_decode ?cand = Some dest" "http_shaped dest" by blast
    with True Cons.prems have "r = dest @ drop L tail" by (simp add: Let_def)
    moreover have "utf8_encode dest = ?cand" using d(1) Cons.prems(3) by (metis utf8_decode_iff)
    ultimately show ?thesis
      using True Cons.prems(2) d(2) by (auto simp: mac_equals_iff)
  next
    case False
    then have "recover_scan key iv d tail Ls = Some r"
      using Cons.prems(1) by (auto simp: Let_def split: if_splits option.splits)
    then show ?thesis using Cons.IH Cons.prems(2,3) by auto
  qed
qed simp

lemma recover_keys_sound:
  assumes "recover_keys keys iv ct tail maxL = Some r" "length iv = 16"
  shows "\<exists>key \<in> set keys. \<exists>L dest. 23 \<le> L \<and> L \<le> maxL \<and> http_shaped dest \<and> r = dest @ drop L tail
    \<and> keyed_token key dest = [1] @ iv @ take (3 * L div 4 - 17) ct"
  using assms
proof (induction keys)
  case (Cons key keys)
  show ?case
  proof (cases "recover_keys keys iv ct tail maxL = Some r")
    case True
    then show ?thesis using Cons.IH Cons.prems(2) by auto
  next
    case False
    then have "recover_gate key iv ct" and scan: "recover_scan key iv (xor_stream key iv ct) tail [23..<Suc maxL] = Some r"
      using Cons.prems(1)
      by (auto simp: Let_def decrypt_loop_eq simp del: upt_Suc split: if_splits option.splits)
    from recover_gate_no_bom [OF this(1)] have "\<forall>n e. take n (xor_stream key iv ct) \<noteq> BOM @ e" by blast
    from recover_scan_sound [OF scan Cons.prems(2) this] obtain L dest
      where L: "23 \<le> L" "L \<le> maxL" and iv: "iv = keyed_iv key (utf8_encode dest)"
        and d: "take (3 * L div 4 - 17) (xor_stream key iv ct) = utf8_encode dest"
        and r: "http_shaped dest" "r = dest @ drop L tail" by auto
    have "xor_stream key iv (take n (xor_stream key iv ct)) = take n ct" for n
      by (rule nth_equalityI) (auto simp: xor_stream_def xor.assoc)
    then have "xor_stream key iv (utf8_encode dest) = take (3 * L div 4 - 17) ct"
      using d by metis
    then have "keyed_token key dest = [1] @ iv @ take (3 * L div 4 - 17) ct"
      using iv by (simp add: keyed_token_def keyed_bytes_def Let_def)
    with L r show ?thesis by auto
  qed
qed simp

text \<open>A token that was minted under a held key is found again, whatever is appended to it.\<close>

lemma utf8_encode_append: "utf8_encode (s @ t) = utf8_encode s @ utf8_encode t"
  by (induction s) simp_all

lemma recover_gate_minted:
  assumes "http_shaped d"
  shows "recover_gate k iv (xor_stream k iv (utf8_encode d))"
proof -
  let ?b = "utf8_encode d" and ?ct = "xor_stream k iv (utf8_encode d)"
  let ?g = "\<lambda>i. (if i < length ?ct then ?ct ! i else 0) XOR keystream_block k iv 0 ! i"
  have g: "?g i = ?b ! i" if "i < length ?b" "i < 8" for i
    using that by (simp add: xor_stream_def xor.assoc)
  have shaped: "starts_with (map (\<lambda>i. char_of (unat (?g i)) :: char) [0..<8]) p"
    if "d = p @ r" "length p \<le> 8" "\<forall>c \<in> set p. char_code c < 128" for p r
  proof -
    have plain: "utf8_encode p = map (\<lambda>c. of_nat (char_code c)) p"
      using that(3) by (induction p) auto
    have b: "?b = map (\<lambda>c. of_nat (char_code c)) p @ utf8_encode r"
      by (simp add: that(1) utf8_encode_append plain)
    have "take (length p) (map (\<lambda>i. char_of (unat (?g i)) :: char) [0..<8]) = p"
    proof (rule nth_equalityI)
      fix i
      assume "i < length (take (length p) (map (\<lambda>i. char_of (unat (?g i)) :: char) [0..<8]))"
      then have i: "i < length p" "i < 8" by simp_all
      then have "?g i = of_nat (char_code (p ! i))" using g [of i] b by (simp add: nth_append)
      moreover have "char_code (p ! i) < 256" by (rule nat_of_char_less_256)
      ultimately have "char_of (unat (?g i)) = p ! i" by (simp add: unat_of_nat)
      with i show "take (length p) (map (\<lambda>i. char_of (unat (?g i)) :: char) [0..<8]) ! i = p ! i"
        by (simp del: upt_Suc split del: if_split cong: if_cong)
    qed (use that(2) in simp)
    then show ?thesis by (simp add: starts_with_def)
  qed
  from assms obtain p r where "d = p @ r" "p = ''http://'' \<or> p = ''https://''"
    unfolding http_shaped_def starts_with_iff by blast
  with shaped [of p r] show ?thesis
    unfolding recover_gate_def Let_def http_shaped_def by auto
qed

lemma recover_scan_finds:
  assumes "L \<in> set Ls" "L mod 4 \<noteq> 1" "take (3 * L div 4 - 17) d = utf8_encode dest"
    "iv = keyed_iv key (utf8_encode dest)" "http_shaped dest"
  shows "recover_scan key iv d tail Ls \<noteq> None"
  using assms(1)
proof (induction Ls)
  case (Cons L' Ls)
  then show ?case
  proof (cases "L' = L")
    case True
    then show ?thesis using assms by (simp add: Let_def mac_equals_iff)
  next
    case False
    with Cons show ?thesis by (auto simp: Let_def split: option.splits)
  qed
qed simp

lemma recover_keys_finds:
  assumes "key \<in> set keys" "23 \<le> L" "L \<le> maxL" "L mod 4 \<noteq> 1" "http_shaped dest"
    "keyed_token key dest = 1 # iv @ ct" "length iv = 16" "3 * L div 4 = 17 + length ct"
  shows "recover_keys keys iv ct tail maxL \<noteq> None"
proof -
  have iv: "iv = keyed_iv key (utf8_encode dest)" and ct: "ct = xor_stream key iv (utf8_encode dest)"
    using assms(6,7) by (auto simp: keyed_token_def keyed_bytes_def Let_def)
  have "recover_scan key iv (xor_stream key iv ct) tail [23..<Suc maxL] \<noteq> None"
    by (rule recover_scan_finds [of L _ _ dest]) (use assms iv in \<open>auto simp: ct\<close>)
  moreover have "recover_gate key iv ct" unfolding ct by (rule recover_gate_minted [OF assms(5)])
  ultimately show ?thesis using assms(1)
    by (induction keys) (auto simp: Let_def decrypt_loop_eq simp del: upt_Suc split: option.splits)
qed

lemma length_b64u_bytes: "3 * length (b64u_encode bs) div 4 = length bs"
  by (induction bs rule: b64u_encode.induct) (simp_all add: Let_def)

lemma takeWhile_b64:
  assumes "rest = [] \<or> hd rest \<notin> set B64URL"
  shows "takeWhile (\<lambda>c. index_of B64URL c \<noteq> None) (b64u_encode bs @ rest) = b64u_encode bs"
  using b64u_encode_chars [of bs] assms
  by (cases rest) (auto simp: takeWhile_append index_of_None)

lemma recover_path_finds:
  assumes "key \<in> set (route_keys st)" "http_shaped d" "rest = [] \<or> hd rest \<notin> set B64URL"
    "length (path_only (b64u_encode (keyed_token key d) @ rest)) \<le> 2048"
  shows "recover_path st (prefix st @ b64u_encode (keyed_token key d) @ rest) \<noteq> None"
proof -
  let ?t = "keyed_token key d" and ?tail = "path_only (b64u_encode (keyed_token key d) @ rest)"
  have find: "find_sub (prefix st @ x) (prefix st) = Some 0" for x
    by (cases "prefix st @ x") (use starts_with_append [of "prefix st" x] in auto)
  have "7 \<le> length (utf8_encode d)"
    using assms(2) by (auto simp: http_shaped_def starts_with_iff utf8_encode_append)
  then have t: "24 \<le> length ?t" "?t ! 0 = 1" by (simp_all add: keyed_token_def keyed_bytes_def Let_def)
  then have L: "23 \<le> length (b64u_encode ?t)" using length_b64u_bytes [of ?t] by linarith
  have tail: "?tail = b64u_encode ?t @ path_only rest"
    using b64u_encode_chars [of ?t]
    by (force simp: path_only_def takeWhile_append B64URL_def)
  have "path_only rest = [] \<or> hd (path_only rest) \<notin> set B64URL"
    using assms(3) by (cases rest) (auto simp: path_only_def)
  then have w: "takeWhile (\<lambda>c. index_of B64URL c \<noteq> None) ?tail = b64u_encode ?t"
    unfolding tail by (rule takeWhile_b64)
  have lenient: "b64u_decode_lenient (b64u_encode ?t) = Some ?t"
    using b64_loop_encode [of ?t 0 "[]"] by (auto simp: b64u_decode_lenient_def)
  have split: "?t = 1 # take 16 (drop 1 ?t) @ drop 17 ?t"
    using t by (cases ?t) (simp_all add: append_take_drop_id [of 16, simplified])
  have "recover_keys (route_keys st) (take 16 (drop 1 ?t)) (drop 17 ?t) ?tail (length (b64u_encode ?t)) \<noteq> None"
    using t(1) by (intro recover_keys_finds [OF assms(1) L order_refl length_b64u_encode assms(2) split])
      (simp_all add: length_b64u_bytes)
  then show ?thesis
    using assms(4) L t lenient unfolding recover_path_def find
    by (simp add: Let_def w del: not_None_eq) (simp add: tail)
qed

text \<open>A state with one key and a route literal completed by concatenation, for the next witness.\<close>

definition st_recover :: codec where
  "st_recover = initial_codec\<lparr>route_keys := [replicate 16 7]\<rparr>"

definition path_recover :: string where
  "path_recover = prefix st_recover @ b64u_encode (keyed_token (replicate 16 7) ''http://ab'') @ ''.c/d.gif''"

lemma length_b64u_le: "length (b64u_encode bs) \<le> 2 * length bs"
  by (induction bs rule: b64u_encode.induct) (simp_all add: Let_def)

lemma length_path_only: "length (path_only s) \<le> length s"
  by (simp add: path_only_def length_takeWhile_le)

lemma path_recover_short:
  "length (path_only (b64u_encode (keyed_token (replicate 16 7) ''http://ab'') @ ''.c/d.gif'')) \<le> 2048"
  using length_path_only [of "b64u_encode (keyed_token (replicate 16 7) ''http://ab'') @ ''.c/d.gif''"]
    length_b64u_le [of "keyed_token (replicate 16 7) ''http://ab''"]
  by (simp add: keyed_token_def keyed_bytes_def Let_def)

lemma path_recover_some: "recover_path st_recover path_recover \<noteq> None"
  unfolding path_recover_def
  by (rule recover_path_finds)
    (simp_all add: st_recover_def http_shaped_def B64URL_def path_recover_short)

section \<open>Properties\<close>

text \<open>base64url is canonical: a string decodes to the bytes of which it is the encoding and to
  nothing else, so no two strings name the same bytes and every byte string has its text.\<close>

theorem b64url_canonical: "b64u_decode s = Some bs \<longleftrightarrow> s = b64u_encode bs"
  by (rule b64u_decode_iff)

text \<open>C15. Authenticity of keyed tokens: the decoder, which decrypts with a block cache and compares the
  MAC in constant time, opens a byte string under a key exactly when that byte string is the token
  minted under the same key for the payload, or for the payload after one byte order mark, which the
  text decoder drops. Without a key nothing opens.\<close>

theorem keyed_payload_authentic:
  "(keyed_payload (Some key) bytes = Some payload \<longleftrightarrow>
      bytes = keyed_token key payload \<or> bytes = keyed_bytes key (BOM @ utf8_encode payload)) \<and>
   keyed_payload None bytes = None"
proof -
  have "keyed_payload (Some key) bytes = Some payload \<longleftrightarrow> (\<exists>d. bytes = keyed_bytes key d \<and> utf8_decode d = Some payload)"
    using keyed_payload_minted keyed_payload_bytes by metis
  then show ?thesis by (auto simp: utf8_decode_iff keyed_token_def keyed_payload_def)
qed

text \<open>C22. A route decodes to the destination it was made for, with the current key or without one, and
  whatever query or fragment follows it.\<close>

theorem route_roundtrip:
  assumes "codec_wf st" "http_shaped d" "rest = [] \<or> hd rest = CHR ''?'' \<or> hd rest = CHR ''#''"
  shows "decode_path st (encode_dest st d @ rest) = Some d"
proof (cases "route_key st")
  case None
  then show ?thesis
    using assms tail_bytes_encode [OF assms(3), of st "utf8_encode d"]
    by (simp add: decode_path_def encode_dest_def encode_dest_legacy_def decode_bytes_iff)
next
  case (Some k)
  then obtain ks where "route_keys st = k # ks" using codec_history assms(1) by blast
  then show ?thesis
    using Some tail_bytes_encode [OF assms(3), of st "keyed_token k d"] keyed.find_open_head [OF utf8_decode_encode assms(2), of k ks]
    by (simp add: decode_path_def encode_dest_def decode_bytes_iff looks_keyed_bytes keyed_token_def)
qed

theorem route_roundtrip_witness:
  "decode_path (set_route_key initial_codec (Some ''AAAAAAAAAAAAAAAAAAAAAA''))
     (encode_dest (set_route_key initial_codec (Some ''AAAAAAAAAAAAAAAAAAAAAA'')) ''https://a.example/x'' @ ''?q'')
   = Some ''https://a.example/x''"
  by (rule route_roundtrip) (simp_all add: codec_wf_set_route_key codec_wf_initial http_shaped_def)

text \<open>C20. Route decoding is sound: whatever path decodes is an engine path, the destination is http(s), and
  the path's tail is the token of the destination under a key of the history, or its plain encoding, in
  both cases with at most one byte order mark in front of the destination, which decoding drops. So a
  path minted under a foreign key never decodes.\<close>

theorem decode_path_sound:
  assumes "decode_path st path = Some d"
  shows "is_engine_path st path \<and> http_shaped d \<and>
    (\<exists>text \<in> {utf8_encode d, BOM @ utf8_encode d}.
       path_only (drop (length (prefix st)) path) = b64u_encode text \<or>
       (\<exists>k \<in> set (route_keys st). path_only (drop (length (prefix st)) path) = b64u_encode (keyed_bytes k text)))"
proof -
  obtain bytes where tail: "tail_bytes st path = Some bytes" and d: "decode_bytes st bytes = Some d"
    using assms by (auto simp: decode_path_def split: option.splits)
  then have b: "starts_with path (prefix st)"
      "path_only (drop (length (prefix st)) path) = b64u_encode bytes"
    by (simp_all add: tail_bytes_def b64u_decode_iff split: if_splits)
  have "http_shaped d \<and> (\<exists>text. utf8_decode text = Some d \<and> (bytes = text \<or> (\<exists>k \<in> set (route_keys st). bytes = keyed_bytes k text)))"
    using d keyed.find_open_sound unfolding decode_bytes_iff by metis
  then show ?thesis unfolding b is_engine_path_def utf8_decode_iff using b(1) by blast
qed

theorem decode_path_sound_witness:
  "is_engine_path initial_codec ''/j/aHR0cDovL2E'' \<and> http_shaped ''http://a'' \<and>
   (\<exists>text \<in> {utf8_encode ''http://a'', BOM @ utf8_encode ''http://a''}.
      path_only (drop (length (prefix initial_codec)) ''/j/aHR0cDovL2E'') = b64u_encode text \<or>
      (\<exists>k \<in> set (route_keys initial_codec).
         path_only (drop (length (prefix initial_codec)) ''/j/aHR0cDovL2E'') = b64u_encode (keyed_bytes k text)))"
proof (rule decode_path_sound)
  have "encode_dest initial_codec ''http://a'' = ''/j/aHR0cDovL2E''" by code_simp
  moreover have "decode_path initial_codec (prefix initial_codec @ b64u_encode (utf8_encode ''http://a'') @ []) = Some ''http://a''"
    using tail_bytes_encode [of "[]" initial_codec "utf8_encode ''http://a''"]
    by (simp add: decode_path_def decode_bytes_iff http_shaped_def del: utf8_encode.simps)
  ultimately show "decode_path initial_codec ''/j/aHR0cDovL2E'' = Some ''http://a''"
    by (simp add: encode_dest_def encode_dest_legacy_def initial_codec_def)
qed

text \<open>Key rotation strands no route: a route minted under a key that is still in the history decodes
  after any change of the minting key, and it decodes to its destination unless the very same token
  is also the mint of another destination under another held key.\<close>

theorem rotation_keeps_routes:
  assumes "http_shaped d" "k \<in> set (route_keys st)"
  shows "\<exists>d'. decode_path st (prefix st @ b64u_encode (keyed_token k d)) = Some d' \<and>
    (d' = d \<or> (\<exists>k' \<in> set (route_keys st). \<exists>p. k' \<noteq> k \<and> keyed_bytes k' p = keyed_token k d \<and> utf8_decode p = Some d'))"
proof -
  obtain d' where d': "find_open (\<lambda>k. keyed_decode (Some k)) (route_keys st) (keyed_token k d) = Some d'"
    using keyed.find_open_rotated [OF utf8_decode_encode assms] by (auto simp: keyed_token_def)
  then obtain k' p where k': "k' \<in> set (route_keys st)" "keyed_token k d = keyed_bytes k' p" "utf8_decode p = Some d'"
    using keyed.find_open_sound by blast
  have "d' = d" if "k' = k"
    using k'(2,3) that by (auto simp: keyed_token_def dest!: keyed_bytes_inject)
  then have minted: "d' = d \<or> (\<exists>k' \<in> set (route_keys st). \<exists>p. k' \<noteq> k \<and> keyed_bytes k' p = keyed_token k d \<and> utf8_decode p = Some d')"
    using k' by metis
  have "decode_bytes st (keyed_token k d) = Some d'"
    unfolding decode_bytes_iff using d' looks_keyed_token_bytes by blast
  then have "decode_path st (prefix st @ b64u_encode (keyed_token k d)) = Some d'"
    using tail_bytes_encode [of "[]" st "keyed_token k d"] by (simp add: decode_path_def)
  with minted show ?thesis by blast
qed

theorem rotation_keeps_routes_witness:
  "\<exists>d'. decode_path (initial_codec\<lparr>route_keys := [replicate 16 7, replicate 16 9]\<rparr>)
      (prefix (initial_codec\<lparr>route_keys := [replicate 16 7, replicate 16 9]\<rparr>)
        @ b64u_encode (keyed_token (replicate 16 9) ''http://a'')) = Some d' \<and>
    (d' = ''http://a'' \<or> (\<exists>k' \<in> set (route_keys (initial_codec\<lparr>route_keys := [replicate 16 7, replicate 16 9]\<rparr>)).
       \<exists>p. k' \<noteq> replicate 16 9 \<and> keyed_bytes k' p = keyed_token (replicate 16 9) ''http://a'' \<and> utf8_decode p = Some d'))"
  by (rule rotation_keeps_routes) (simp_all add: http_shaped_def)

text \<open>The prefix knob cannot capture the engine: a prefix that is accepted leaves every engine asset
  and the reserved roots outside the routes, and a refused prefix changes nothing.\<close>

theorem scheme_never_captures_assets:
  assumes "set_scheme st p = (ok, st')"
  shows "if ok
    then prefix st' = p \<and> (\<forall>a. is_engine_path st' a \<longrightarrow> \<not> is_engine_asset a) \<and>
      (\<forall>root rest. is_engine_path st' (''/'' @ root @ ''/'' @ rest) \<and> CHR ''/'' \<notin> set root
         \<longrightarrow> root \<notin> set RESERVED_SCHEME_SEGMENTS \<and> \<not> starts_with root ''__zl'')
    else st' = st"
proof (cases "valid_scheme_prefix p")
  case True
  then obtain seg where p: "p = ''/'' @ seg @ ''/''" and seg: "list_all is_segment_char seg"
      "\<not> starts_with seg ''__zl''" "seg \<notin> set RESERVED_SCHEME_SEGMENTS"
    by (rule valid_prefix_cases)
  have st': "ok" "prefix st' = p" using True assms by (auto simp: set_scheme_def)
  then have path: "\<exists>r. a = CHR ''/'' # seg @ CHR ''/'' # r" if "is_engine_path st' a" for a
    using that by (auto simp: is_engine_path_def starts_with_iff p)
  have "CHR ''/'' \<notin> set B64URL" by (simp add: B64URL_def)
  then have noslash: "CHR ''/'' \<notin> set seg" using seg(1) by (auto simp: list_all_iff is_segment_char_def)
  have "\<not> is_engine_asset a" if "is_engine_path st' a" for a
  proof
    assume "is_engine_asset a"
    then have "count_list a (CHR ''/'') = 1" by (auto simp: is_engine_asset_def)
    with path [OF that] show False by auto
  qed
  moreover have "root = seg" if "is_engine_path st' (''/'' @ root @ ''/'' @ rest)" "CHR ''/'' \<notin> set root" for root rest
    using path [OF that(1)] segment_unique [OF _ that(2) noslash] by auto
  ultimately show ?thesis using st' seg by (metis (full_types))
qed (use assms in \<open>simp add: set_scheme_def\<close>)

theorem scheme_never_captures_assets_witness:
  "fst (set_scheme initial_codec ''/go/'') \<and> is_engine_path (snd (set_scheme initial_codec ''/go/'')) ''/go/x''
   \<and> \<not> is_engine_path (snd (set_scheme initial_codec ''/go/'')) ''/sw.js''"
proof -
  have ok: "set_scheme initial_codec ''/go/'' = (True, initial_codec\<lparr>prefix := ''/go/''\<rparr>)"
    by (simp add: set_scheme_def valid_scheme_prefix_def is_segment_char_def B64URL_def RESERVED_SCHEME_SEGMENTS_def)
  have "is_engine_asset ''/sw.js''" by (simp add: is_engine_asset_def)
  then show ?thesis using scheme_never_captures_assets [OF ok] by (auto simp: ok is_engine_path_def)
qed

text \<open>Recovery of a concatenated tail is authenticated: what is recovered is an http(s) destination
  followed by the rest of the tail, and the bytes before the cut are exactly the token minted for that
  destination under a key of the history.\<close>

theorem recover_path_authentic:
  assumes "recover_path st path = Some r"
  shows "\<exists>key \<in> set (route_keys st). \<exists>i L dest bytes. find_sub path (prefix st) = Some i \<and>
    http_shaped dest \<and> 23 \<le> L \<and> L \<le> length (path_only (drop (i + length (prefix st)) path)) \<and>
    r = dest @ drop L (path_only (drop (i + length (prefix st)) path)) \<and>
    b64u_decode_lenient (takeWhile (\<lambda>c. index_of B64URL c \<noteq> None)
      (path_only (drop (i + length (prefix st)) path))) = Some bytes \<and>
    take (17 + (3 * L div 4 - 17)) bytes = keyed_token key dest"
proof -
  obtain i where i: "find_sub path (prefix st) = Some i"
    using assms by (auto simp: recover_path_def split: option.splits)
  let ?tail = "path_only (drop (i + length (prefix st)) path)"
  let ?w = "takeWhile (\<lambda>c. index_of B64URL c \<noteq> None) ?tail"
  have w: "take (length ?w) ?tail = ?w" by (rule takeWhile_eq_take [symmetric])
  obtain bytes where bytes: "b64u_decode_lenient ?w = Some bytes" "24 \<le> length bytes" "bytes ! 0 = 1"
    and r: "recover_keys (route_keys st) (take 16 (drop 1 bytes)) (drop 17 bytes) ?tail (length ?w) = Some r"
    using assms w by (auto simp: recover_path_def i Let_def split: option.splits if_splits)
  have iv: "length (take 16 (drop 1 bytes)) = 16" using bytes(2) by simp
  have split: "take (17 + n) bytes = [1] @ take 16 (drop 1 bytes) @ take n (drop 17 bytes)" for n
    using bytes(2,3) by (cases bytes) (simp_all add: take_add)
  have le: "length ?w \<le> length ?tail" by (rule length_takeWhile_le)
  from recover_keys_sound [OF r iv] obtain key L dest where key: "key \<in> set (route_keys st)"
    and L: "23 \<le> L" "L \<le> length ?w" and dest: "http_shaped dest" "r = dest @ drop L ?tail"
    and tok: "keyed_token key dest = take (17 + (3 * L div 4 - 17)) bytes"
    unfolding split by blast
  from L(2) le have "L \<le> length ?tail" by (rule order_trans)
  with key L(1) dest tok i bytes(1) show ?thesis by metis
qed

text \<open>Recovery is complete for the deployment's own literals: a token minted under a held key for an
  http(s) destination, with text appended that starts outside the base64url alphabet, always recovers.\<close>

theorem recover_path_complete:
  assumes "key \<in> set (route_keys st)" "http_shaped d" "rest = [] \<or> hd rest \<notin> set B64URL"
    "length (path_only (b64u_encode (keyed_token key d) @ rest)) \<le> 2048"
  shows "recover_path st (prefix st @ b64u_encode (keyed_token key d) @ rest) \<noteq> None"
  by (rule recover_path_finds [OF assms])

theorem recover_path_complete_witness:
  "recover_path st_recover (prefix st_recover @ b64u_encode (keyed_token (replicate 16 7) ''http://ab'') @ ''.c/d.gif'') \<noteq> None"
  by (rule recover_path_complete) (simp_all add: st_recover_def http_shaped_def B64URL_def path_recover_short)

theorem recover_path_authentic_witness:
  "\<exists>r. \<exists>key \<in> set (route_keys st_recover). \<exists>i L dest bytes. find_sub path_recover (prefix st_recover) = Some i \<and>
    http_shaped dest \<and> 23 \<le> L \<and> L \<le> length (path_only (drop (i + length (prefix st_recover)) path_recover)) \<and>
    r = dest @ drop L (path_only (drop (i + length (prefix st_recover)) path_recover)) \<and>
    b64u_decode_lenient (takeWhile (\<lambda>c. index_of B64URL c \<noteq> None)
      (path_only (drop (i + length (prefix st_recover)) path_recover))) = Some bytes \<and>
    take (17 + (3 * L div 4 - 17)) bytes = keyed_token key dest"
  using recover_path_authentic [of st_recover path_recover] path_recover_some by blast

end
