(* ===== verification/NavHandles.thy ===== *)
theory NavHandles
  imports Routes
begin

text \<open>
  Opaque navigation handles (\<open>src/app/src/codec.ts\<close>, from \<open>encodeNavHandle\<close> to
  \<open>buildQueryHandleUrl\<close>): keyed tokens whose payload is a tag, an expiry, an origin, a nonce and
  an optional host binding, carried either in the path (\<open>/__zl_navh__/<token>/path\<close>) or in a query
  parameter (\<open>zlNavh=<token>\<close>).

  The clock reading and the nonce of a mint are arguments. \<open>Number\<close> is modelled on decimal
  integers, the only form a minted payload has.
\<close>

section \<open>Percent encoding\<close>

definition hex_digit :: "nat \<Rightarrow> char" where
  "hex_digit n = ''0123456789ABCDEF'' ! n"

definition is_uri_unreserved :: "char \<Rightarrow> bool" where
  "is_uri_unreserved c \<longleftrightarrow>
     is_digit c \<or> (65 \<le> char_code c \<and> char_code c \<le> 90) \<or> (97 \<le> char_code c \<and> char_code c \<le> 122)
     \<or> c \<in> set ''-_.!~*()'' \<or> char_code c = 39"

definition percent_byte :: "byte \<Rightarrow> string" where
  "percent_byte b = [CHR ''%'', hex_digit (unat b div 16), hex_digit (unat b mod 16)]"

text \<open>\<open>encodeURIComponent\<close>\<close>

definition encode_uri_component :: "string \<Rightarrow> string" where
  "encode_uri_component s =
     concat (map (\<lambda>c. if is_uri_unreserved c then [c] else concat (map percent_byte (utf8_encode [c]))) s)"

text \<open>\<open>decodeURIComponent\<close>: a malformed escape is the \<open>URIError\<close>.\<close>

fun percent_bytes :: "string \<Rightarrow> byte list option" where
  "percent_bytes [] = Some []"
| "percent_bytes (c # s) =
     (if c = CHR ''%'' then
        (case s of
           h # l # s' \<Rightarrow>
             (case (hex_val h, hex_val l) of
                (Some x, Some y) \<Rightarrow> map_option (Cons (of_nat (16 * x + y))) (percent_bytes s')
              | _ \<Rightarrow> None)
         | _ \<Rightarrow> None)
      else map_option (\<lambda>bs. utf8_encode [c] @ bs) (percent_bytes s))"

definition decode_uri_component :: "string \<Rightarrow> string option" where
  "decode_uri_component s = (case percent_bytes s of None \<Rightarrow> None | Some bs \<Rightarrow> utf8_chars bs)"

section \<open>Minting a handle\<close>

definition NAVH :: string where "NAVH = ''/__zl_navh__''"
definition NAVP :: string where "NAVP = ''/__zl_prel__''"
definition NAVH_TAG :: string where "NAVH_TAG = ''zl:navh:''"

definition newline :: char where "newline = CHR 0x0A"

definition valid_root_id :: "string \<Rightarrow> bool" where
  "valid_root_id r \<longleftrightarrow> 0 < length r \<and> length r \<le> 256 \<and> list_all (\<lambda>c. \<not> is_ctl c) r"

definition nav_binding :: "string option \<Rightarrow> string" where
  "nav_binding root =
     (case root of
        Some r \<Rightarrow> if valid_root_id r then newline # ''root:'' @ b64u_encode (utf8_encode r) else []
      | None \<Rightarrow> [])"

definition nav_payload :: "int \<Rightarrow> string \<Rightarrow> string \<Rightarrow> string option \<Rightarrow> string" where
  "nav_payload expires origin nonce root =
     NAVH_TAG @ int_string expires @ '':'' @ origin @ newline # ''nonce:'' @ nonce @ nav_binding root"

definition encode_nav_handle ::
  "platform \<Rightarrow> codec \<Rightarrow> int \<Rightarrow> string \<Rightarrow> string \<Rightarrow> int \<Rightarrow> string option \<Rightarrow> string option" where
  "encode_nav_handle pf st now nonce dest ttl root =
     (case route_key st of
        None \<Rightarrow> None
      | Some key \<Rightarrow>
          if \<not> mintable_dest (new_url pf) dest then None
          else case new_url pf dest of
            None \<Rightarrow> None
          | Some u \<Rightarrow> Some (b64u_encode (keyed_token key (nav_payload (now + ttl) (url_origin u) nonce root))))"

section \<open>Opening a handle\<close>

record nav_handle_info =
  nh_destination :: string
  nh_root :: "string option"
  nh_expires :: int

datatype 'a loop_step = Continue | Return 'a

text \<open>\<open>fields.find((field) => field.startsWith("root:"))\<close> and the binding it carries;
  \<open>Continue\<close> is the \<open>continue\<close> of the key loop.\<close>

definition nav_root_field :: "string list \<Rightarrow> string option loop_step" where
  "nav_root_field parts =
     (case find (\<lambda>f. starts_with f ''root:'') parts of
        None \<Rightarrow> Return None
      | Some f \<Rightarrow>
          (case b64u_decode (drop 5 f) of
             None \<Rightarrow> Continue
           | Some bs \<Rightarrow>
               (case utf8_decode bs of
                  None \<Rightarrow> Continue
                | Some cand \<Rightarrow> Return (if valid_root_id cand then Some cand else None))))"

text \<open>One key of the loop in \<open>decodeNavHandlePayload\<close>.\<close>

definition nav_open_payload :: "platform \<Rightarrow> string \<Rightarrow> nav_handle_info option loop_step" where
  "nav_open_payload pf rest =
     (case index_of rest (CHR '':'') of
        None \<Rightarrow> Continue
      | Some colon \<Rightarrow>
          (case parse_int (take colon rest) of
             None \<Rightarrow> Return None
           | Some exp \<Rightarrow>
               let parts = split_on newline (drop (Suc colon) rest); dest = hd parts in
               (case nav_root_field parts of
                  Continue \<Rightarrow> Continue
                | Return root \<Rightarrow>
                    if mintable_dest (new_url pf) dest
                    then Return (Some \<lparr>nh_destination = dest, nh_root = root, nh_expires = exp\<rparr>)
                    else Continue)))"

definition nav_open_key :: "platform \<Rightarrow> byte list \<Rightarrow> byte list \<Rightarrow> nav_handle_info option loop_step" where
  "nav_open_key pf key bytes =
     (case keyed_payload (Some key) bytes of
        None \<Rightarrow> Continue
      | Some payload \<Rightarrow>
          if \<not> starts_with payload NAVH_TAG then Continue
          else nav_open_payload pf (drop (length NAVH_TAG) payload))"

fun nav_open_keys :: "platform \<Rightarrow> byte list list \<Rightarrow> byte list \<Rightarrow> nav_handle_info option" where
  "nav_open_keys pf [] bytes = None"
| "nav_open_keys pf (k # ks) bytes =
     (case nav_open_key pf k bytes of Continue \<Rightarrow> nav_open_keys pf ks bytes | Return r \<Rightarrow> r)"

definition decode_nav_handle_payload :: "platform \<Rightarrow> codec \<Rightarrow> string \<Rightarrow> nav_handle_info option" where
  "decode_nav_handle_payload pf st token =
     (case b64u_decode token of None \<Rightarrow> None | Some bytes \<Rightarrow> nav_open_keys pf (route_keys st) bytes)"

definition decode_nav_handle_info ::
  "platform \<Rightarrow> codec \<Rightarrow> int \<Rightarrow> string \<Rightarrow> bool \<Rightarrow> nav_handle_info option" where
  "decode_nav_handle_info pf st now token allow_expired =
     (case decode_nav_handle_payload pf st token of
        None \<Rightarrow> None
      | Some info \<Rightarrow>
          if now \<le> nh_expires info then Some info else if allow_expired then Some info else None)"

definition decode_nav_handle :: "platform \<Rightarrow> codec \<Rightarrow> int \<Rightarrow> string \<Rightarrow> bool \<Rightarrow> string option" where
  "decode_nav_handle pf st now token expired =
     map_option nh_destination (decode_nav_handle_info pf st now token expired)"

definition decode_expired_nav_handle ::
  "platform \<Rightarrow> codec \<Rightarrow> int \<Rightarrow> string \<Rightarrow> (string \<times> string option) option" where
  "decode_expired_nav_handle pf st now token =
     (case decode_nav_handle_payload pf st token of
        Some info \<Rightarrow> if nh_expires info < now then Some (nh_destination info, nh_root info) else None
      | None \<Rightarrow> None)"

definition decode_nav_handle_root :: "platform \<Rightarrow> codec \<Rightarrow> string \<Rightarrow> string option" where
  "decode_nav_handle_root pf st token =
     (case decode_nav_handle_payload pf st token of Some info \<Rightarrow> nh_root info | None \<Rightarrow> None)"

section \<open>The path shape\<close>

text \<open>\<open>path.replace(/^(\\/)(\\/+)/, ...)\<close> and its inverse.\<close>

definition escape_leading_slashes :: "string \<Rightarrow> string" where
  "escape_leading_slashes path =
     (let n = length (takeWhile (\<lambda>c. c = CHR ''/'') path)
      in if n < 2 then path else ''/'' @ concat (replicate (n - 1) ''%2F'') @ drop n path)"

function strip_run :: "string \<Rightarrow> string \<Rightarrow> nat \<times> string" where
  "strip_run p s =
     (if p \<noteq> [] \<and> starts_with s p then (let (n, r) = strip_run p (drop (length p) s) in (Suc n, r)) else (0, s))"
  by pat_completeness auto
termination
  by (relation "measure (length \<circ> snd)") (auto simp: starts_with_iff)

declare strip_run.simps [simp del]

definition restore_leading_slashes :: "string \<Rightarrow> string" where
  "restore_leading_slashes path =
     (if starts_with path ''/'' then
        (let (n, r) = strip_run ''%2F'' (drop 1 path) in if n = 0 then path else ''/'' @ replicate n (CHR ''/'') @ r)
      else path)"

definition nav_marker_tail_dest :: "string \<Rightarrow> string option" where
  "nav_marker_tail_dest path =
     (case find_sub path ''__zl_nav__/'' of
        None \<Rightarrow> None
      | Some i \<Rightarrow>
          if 1 < i then None
          else
            let token = takeWhile is_segment_char (drop (i + 11) path) in
            if token = [] then None
            else case b64u_decode token of
              None \<Rightarrow> None
            | Some bytes \<Rightarrow>
                (case utf8_decode bytes of
                   None \<Rightarrow> None
                 | Some dest \<Rightarrow> if http_shaped dest then Some dest else None))"

text \<open>Peeling at most \<open>n\<close> re-anchor markers; \<open>None\<close> is a malformed escape.\<close>

fun peel_prel :: "nat \<Rightarrow> string \<Rightarrow> string option" where
  "peel_prel 0 cur = Some cur"
| "peel_prel (Suc n) cur =
     (case find_sub cur NAVP of
        None \<Rightarrow> Some cur
      | Some i \<Rightarrow>
          let seg = drop (i + length NAVP) cur;
              seg = (if starts_with seg ''/'' then drop 1 seg else seg)
          in case decode_uri_component (takeWhile (\<lambda>c. c \<noteq> CHR ''#'') seg) of
               None \<Rightarrow> None
             | Some cur' \<Rightarrow> peel_prel n cur')"

definition decode_nav_handle_path :: "platform \<Rightarrow> codec \<Rightarrow> int \<Rightarrow> string \<Rightarrow> bool \<Rightarrow> string option" where
  "decode_nav_handle_path pf st now tail expired =
     (let (token, rest) = (case index_of tail (CHR ''/'') of
            None \<Rightarrow> (tail, []) | Some i \<Rightarrow> (take i tail, drop (Suc i) tail))
      in case decode_nav_handle pf st now token expired of
        None \<Rightarrow> None
      | Some dest \<Rightarrow>
          if rest = [] then Some dest
          else if starts_with rest ''/'' \<or> hd rest = CHR 0x5C then None
          else if find_sub rest NAVP \<noteq> None then
            (case peel_prel 4 rest of
               None \<Rightarrow> None
             | Some cur \<Rightarrow>
                 if \<not> starts_with cur ''/'' \<or> find_sub cur NAVP \<noteq> None then None
                 else case nav_marker_tail_dest cur of
                   Some d \<Rightarrow> Some d
                 | None \<Rightarrow>
                     (case new_url pf dest of
                        None \<Rightarrow> None
                      | Some base \<Rightarrow>
                          (case new_url_base pf cur (url_origin base @ ''/'') of
                             None \<Rightarrow> None
                           | Some u \<Rightarrow> if url_origin u \<noteq> url_origin base then None else Some (url_href u))))
          else case nav_marker_tail_dest rest of
            Some d \<Rightarrow> Some d
          | None \<Rightarrow>
              (case new_url_base pf rest (if ends_with dest ''/'' then dest else dest @ ''/'') of
                 None \<Rightarrow> None
               | Some u \<Rightarrow>
                   (case new_url pf dest of
                      None \<Rightarrow> None
                    | Some d \<Rightarrow>
                        if url_origin u \<noteq> url_origin d then None
                        else Some (url_href (with_pathname pf u (restore_leading_slashes (url_pathname u)))))))"

definition build_nav_handle_url ::
  "platform \<Rightarrow> codec \<Rightarrow> int \<Rightarrow> string \<Rightarrow> string \<Rightarrow> int \<Rightarrow> string option \<Rightarrow> string option" where
  "build_nav_handle_url pf st now nonce dest ttl root =
     (case encode_nav_handle pf st now nonce dest ttl root of
        None \<Rightarrow> None
      | Some token \<Rightarrow>
          (case new_url pf dest of
             None \<Rightarrow> None
           | Some u \<Rightarrow>
               let path = (if url_pathname u = ''/'' then [] else escape_leading_slashes (url_pathname u))
               in Some (NAVH @ ''/'' @ token @ path @ url_search u @ url_hash u)))"

section \<open>The query shape\<close>

definition NAVQ_PARAM :: string where "NAVQ_PARAM = ''zlNavh''"

definition query_handle_token :: "string \<Rightarrow> string option" where
  "query_handle_token search =
     (let raw = (if starts_with search ''?'' then drop 1 search else search)
      in if raw = [] then None
         else map_option (drop (length NAVQ_PARAM + 1))
                (find (\<lambda>p. starts_with p (NAVQ_PARAM @ ''='')) (split_on (CHR ''&'') raw)))"

definition query_handle_path_shaped :: "codec \<Rightarrow> string \<Rightarrow> bool" where
  "query_handle_path_shaped st path \<longleftrightarrow>
     is_engine_asset path \<or> is_engine_path st path \<or> starts_with path NAVH \<or> starts_with path NAVP
     \<or> starts_with path ''/__zl_nav__'' \<or> starts_with path ''/zl-ext/'' \<or> starts_with path ''/zl-cs/''
     \<or> starts_with path ''/wisp/''"

definition is_own_origin :: "platform \<Rightarrow> string \<Rightarrow> bool" where
  "is_own_origin pf o' \<longleftrightarrow> (case new_url pf o' of None \<Rightarrow> False | Some u \<Rightarrow> url_origin u = o')"

definition navq_engine_origin :: "platform \<Rightarrow> codec \<Rightarrow> int \<Rightarrow> string \<Rightarrow> string option" where
  "navq_engine_origin pf st now token =
     (let o' = (case decode_nav_handle pf st now token False of
                  Some d \<Rightarrow> Some d
                | None \<Rightarrow> map_option fst (decode_expired_nav_handle pf st now token))
      in case o' of None \<Rightarrow> None | Some d \<Rightarrow> if is_own_origin pf d then Some d else None)"

text \<open>The loop over the query components: the kept ones, and the first live origin with its root.\<close>

type_synonym query_scan = "string list \<times> (string \<times> string option) option"

definition query_scan_part ::
  "platform \<Rightarrow> codec \<Rightarrow> int \<Rightarrow> string \<Rightarrow> query_scan \<Rightarrow> query_scan" where
  "query_scan_part pf st now part acc =
     (let (keep, orig) = acc; head = NAVQ_PARAM @ ''='' in
      if \<not> starts_with part head then (keep @ [part], orig)
      else
        let token = drop (length head) part in
        case decode_nav_handle pf st now token False of
          Some o' \<Rightarrow>
            if is_own_origin pf o'
            then (keep, case orig of None \<Rightarrow> Some (o', decode_nav_handle_root pf st token) | Some x \<Rightarrow> Some x)
            else ((if navq_engine_origin pf st now token = None then keep @ [part] else keep), orig)
        | None \<Rightarrow> ((if navq_engine_origin pf st now token = None then keep @ [part] else keep), orig))"

definition raw_search :: "string \<Rightarrow> string" where
  "raw_search s = (if starts_with s ''?'' then drop 1 s else s)"

definition decode_query_handle ::
  "platform \<Rightarrow> codec \<Rightarrow> int \<Rightarrow> url \<Rightarrow> (string \<times> string option) option" where
  "decode_query_handle pf st now u =
     (if query_handle_path_shaped st (url_pathname u) then None
      else if raw_search (url_search u) = [] then None
      else case fold (query_scan_part pf st now) (split_on (CHR ''&'') (raw_search (url_search u))) ([], None) of
        (keep, None) \<Rightarrow> None
      | (keep, Some (orig, root)) \<Rightarrow>
          Some (orig @ restore_leading_slashes (url_pathname u)
                @ (if keep \<noteq> [] then ''?'' @ join_with ''&'' keep else []), root))"

definition handle_route_shaped :: "platform \<Rightarrow> codec \<Rightarrow> int \<Rightarrow> url \<Rightarrow> bool" where
  "handle_route_shaped pf st now u \<longleftrightarrow>
     starts_with (url_pathname u) (NAVH @ ''/'') \<or> decode_query_handle pf st now u \<noteq> None"

definition query_kept :: "platform \<Rightarrow> codec \<Rightarrow> int \<Rightarrow> string \<Rightarrow> string list" where
  "query_kept pf st now search =
     (if search = [] then []
      else filter (\<lambda>part. \<not> starts_with part (NAVQ_PARAM @ ''='')
              \<or> navq_engine_origin pf st now (drop (length NAVQ_PARAM + 1) part) = None)
            (split_on (CHR ''&'') (raw_search search)))"

definition build_query_handle_url ::
  "platform \<Rightarrow> codec \<Rightarrow> int \<Rightarrow> string \<Rightarrow> string \<Rightarrow> int \<Rightarrow> string option \<Rightarrow> string option" where
  "build_query_handle_url pf st now nonce dest ttl root =
     (case encode_nav_handle pf st now nonce dest ttl root of
        None \<Rightarrow> None
      | Some token \<Rightarrow>
          (case new_url pf dest of
             None \<Rightarrow> None
           | Some u \<Rightarrow>
               if query_handle_path_shaped st (url_pathname u) then None
               else
                 let kept = query_kept pf st now (url_search u);
                     search = (if kept = [] then ''?'' @ NAVQ_PARAM @ ''='' @ token
                               else ''?'' @ join_with ''&'' kept @ ''&'' @ NAVQ_PARAM @ ''='' @ token)
                 in Some (escape_leading_slashes (url_pathname u) @ search @ url_hash u)))"

text \<open>Every derivation of a destination from a client URL.\<close>

definition decode_client_url_no_hash :: "platform \<Rightarrow> codec \<Rightarrow> int \<Rightarrow> url \<Rightarrow> string option" where
  "decode_client_url_no_hash pf st now u =
     (if starts_with (url_pathname u) ''/__zl_nav__/'' then
        (case b64u_decode (drop 12 (url_pathname u)) of
           None \<Rightarrow> None
         | Some bytes \<Rightarrow>
             (case utf8_decode bytes of
                None \<Rightarrow> None
              | Some dest \<Rightarrow> if http_shaped dest then Some (dest @ url_search u) else None))
      else case decode_query_handle pf st now u of
        Some (dest, _) \<Rightarrow> Some dest
      | None \<Rightarrow>
          if starts_with (url_pathname u) (NAVH @ ''/'') then
            map_option (\<lambda>d. d @ url_search u)
              (decode_nav_handle_path pf st now (drop (length NAVH + 1) (url_pathname u)) False)
          else case decode_path st (url_pathname u) of
            Some d \<Rightarrow> Some (d @ url_search u)
          | None \<Rightarrow> map_option (\<lambda>d. d @ url_search u) (decode_legacy_route st (url_pathname u)))"

definition decode_client_url :: "platform \<Rightarrow> codec \<Rightarrow> int \<Rightarrow> url \<Rightarrow> string option" where
  "decode_client_url pf st now u =
     (case decode_client_url_no_hash pf st now u of
        None \<Rightarrow> None
      | Some d \<Rightarrow> Some (if url_hash u \<noteq> [] then takeWhile (\<lambda>c. c \<noteq> CHR ''#'') d @ url_hash u else d))"

text \<open>\<open>keyedSiteToken\<close>\<close>

definition keyed_site_token :: "codec \<Rightarrow> string \<Rightarrow> string option" where
  "keyed_site_token st orig =
     map_option (\<lambda>k. b64u_encode (dest_mac k (utf8_encode orig) 4)) (route_key st)"

section \<open>Lemmas\<close>

lemma int_string_no: "\<not> is_digit c \<Longrightarrow> c \<noteq> CHR ''-'' \<Longrightarrow> c \<notin> set (int_string n)"
  using nat_digits_char by (auto simp: int_string_def)

lemma b64u_no: "c \<notin> set B64URL \<Longrightarrow> c \<notin> set (b64u_encode bs)"
  using b64u_encode_chars by blast

lemma nav_chars [simp]:
  "newline \<notin> set B64URL" "CHR ''&'' \<notin> set B64URL" "\<not> is_digit newline" "\<not> is_digit (CHR '':'')"
  "newline \<noteq> CHR ''-''" "newline \<noteq> CHR ''n''" "newline \<noteq> CHR ''r''" "newline \<noteq> CHR '':''"
  by (simp_all add: B64URL_def newline_def is_digit_def)

text \<open>The fields of a minted payload.\<close>

lemma nav_root_field_minted:
  assumes "http_shaped orig" "newline \<notin> set nonce"
  shows "nav_root_field (orig # split_on newline (''nonce:'' @ nonce @ nav_binding root))
    = Return (case root of Some r \<Rightarrow> if valid_root_id r then Some r else None | None \<Rightarrow> None)"
proof -
  have o': "\<not> starts_with orig ''root:''" using assms(1) by (auto simp: http_shaped_def starts_with_iff)
  have nonce: "newline \<notin> set (''nonce:'' @ nonce)" using assms(2) by (simp add: newline_def)
  show ?thesis
  proof (cases "nav_binding root = []")
    case True
    then show ?thesis
      using o' split_on_id [OF nonce]
      by (auto simp: nav_root_field_def nav_binding_def split: option.splits if_splits)
  next
    case False
    then obtain r where r: "root = Some r" "valid_root_id r"
      by (auto simp: nav_binding_def split: option.splits if_splits)
    let ?b = "''root:'' @ b64u_encode (utf8_encode r)"
    have "newline \<notin> set (b64u_encode (utf8_encode r))" by (simp add: b64u_no)
    then have "newline \<notin> set ?b" by (simp add: newline_def)
    then have "split_on newline (''nonce:'' @ nonce @ nav_binding root) = [''nonce:'' @ nonce, ?b]"
      using split_on_append [OF nonce, of ?b] r split_on_id [of newline ?b] by (simp add: nav_binding_def)
    then show ?thesis using o' r by (simp add: nav_root_field_def)
  qed
qed

lemma nav_open_minted:
  assumes "http_shaped orig" "newline \<notin> set nonce" "newline \<notin> set orig" "mintable_dest (new_url pf) orig"
  shows "nav_open_key pf k (keyed_token k (nav_payload e orig nonce root))
    = Return (Some \<lparr>nh_destination = orig,
        nh_root = (case root of Some r \<Rightarrow> if valid_root_id r then Some r else None | None \<Rightarrow> None),
        nh_expires = e\<rparr>)"
proof -
  let ?r = "orig @ newline # ''nonce:'' @ nonce @ nav_binding root"
  have "index_of (int_string e @ CHR '':'' # ?r) (CHR '':'') = Some (length (int_string e))"
    by (rule index_of_append) (simp add: int_string_no)
  moreover have "split_on newline ?r = orig # split_on newline (''nonce:'' @ nonce @ nav_binding root)"
    by (rule split_on_append [OF assms(3)])
  ultimately show ?thesis
    using assms nav_root_field_minted [OF assms(1,2), of root]
    unfolding nav_open_key_def nav_open_payload_def keyed_payload_mint nav_payload_def by (simp add: Let_def)
qed

lemma nav_open_keys_sound:
  "nav_open_keys pf ks bytes = Some info \<Longrightarrow>
   \<exists>k \<in> set ks. \<exists>d payload. bytes = keyed_bytes k d \<and> utf8_decode d = Some payload \<and> starts_with payload NAVH_TAG
     \<and> mintable_dest (new_url pf) (nh_destination info)"
proof (induction ks)
  case (Cons k ks)
  show ?case
  proof (cases "nav_open_key pf k bytes")
    case Continue
    with Cons show ?thesis by auto
  next
    case (Return r)
    with Cons.prems have "nav_open_key pf k bytes = Return (Some info)" by simp
    then show ?thesis
      by (auto simp: nav_open_key_def nav_open_payload_def Let_def split: option.splits if_splits loop_step.splits
          dest!: keyed_payload_minted)
  qed
qed simp

lemma navq_engine_origin_alt:
  "navq_engine_origin pf st now token =
     (case decode_nav_handle_payload pf st token of
        None \<Rightarrow> None
      | Some info \<Rightarrow> if is_own_origin pf (nh_destination info) then Some (nh_destination info) else None)"
  by (auto simp: navq_engine_origin_def decode_nav_handle_def decode_nav_handle_info_def
      decode_expired_nav_handle_def Let_def split: option.splits)

lemma navq_live:
  assumes "decode_nav_handle pf st now token False = Some d" "is_own_origin pf d"
  shows "navq_engine_origin pf st now' token = Some d"
  using assms
  by (auto simp: navq_engine_origin_alt decode_nav_handle_def decode_nav_handle_info_def
      split: option.splits if_splits)

definition query_part_kept :: "platform \<Rightarrow> codec \<Rightarrow> string \<Rightarrow> bool" where
  "query_part_kept pf st part \<longleftrightarrow>
     \<not> starts_with part (NAVQ_PARAM @ ''='') \<or>
     navq_engine_origin pf st 0 (drop (length NAVQ_PARAM + 1) part) = None"

definition query_part_live :: "platform \<Rightarrow> codec \<Rightarrow> int \<Rightarrow> string \<Rightarrow> (string \<times> string option) option" where
  "query_part_live pf st now part =
     (if starts_with part (NAVQ_PARAM @ ''='') then
        (case decode_nav_handle pf st now (drop (length NAVQ_PARAM + 1) part) False of
           Some o' \<Rightarrow>
             if is_own_origin pf o'
             then Some (o', decode_nav_handle_root pf st (drop (length NAVQ_PARAM + 1) part)) else None
         | None \<Rightarrow> None)
      else None)"

lemma query_scan_part_alt:
  "query_scan_part pf st now part (keep, orig) =
     (keep @ (if query_part_kept pf st part then [part] else []),
      case orig of Some x \<Rightarrow> Some x | None \<Rightarrow> query_part_live pf st now part)"
  using navq_live [of pf st now "drop (length NAVQ_PARAM + 1) part" _ 0]
    navq_engine_origin_alt [of pf st now "drop (length NAVQ_PARAM + 1) part"]
    navq_engine_origin_alt [of pf st 0 "drop (length NAVQ_PARAM + 1) part"]
  by (cases "decode_nav_handle pf st now (drop (length NAVQ_PARAM + 1) part) False")
    (auto simp: query_scan_part_def query_part_kept_def query_part_live_def Let_def split: option.splits)

lemma query_scan_fold:
  "fold (query_scan_part pf st now) parts (keep, orig) =
     (keep @ filter (query_part_kept pf st) parts,
      case orig of Some x \<Rightarrow> Some x
      | None \<Rightarrow> (case List.map_filter (query_part_live pf st now) parts of [] \<Rightarrow> None | x # _ \<Rightarrow> Some x))"
  by (induction parts arbitrary: keep orig)
    (auto simp: query_scan_part_alt List.map_filter_simps split: option.splits list.splits)

lemma query_kept_alt:
  "query_kept pf st now search =
     (if search = [] then [] else filter (query_part_kept pf st) (split_on (CHR ''&'') (raw_search search)))"
  using navq_engine_origin_alt
  by (auto simp: query_kept_def query_part_kept_def intro!: filter_cong)

lemma strip_run_replicate:
  "\<not> starts_with r ''%2F'' \<Longrightarrow> strip_run ''%2F'' (concat (replicate n ''%2F'') @ r) = (n, r)"
  by (induction n) (simp_all add: strip_run.simps starts_with_def)

lemma slash_run:
  "path = replicate (length (takeWhile (\<lambda>c. c = CHR ''/'') path)) (CHR ''/'') @ dropWhile (\<lambda>c. c = CHR ''/'') path"
  by (induction path) auto

lemma drop_slash_run:
  "drop (length (takeWhile (\<lambda>c. c = CHR ''/'') path)) path = dropWhile (\<lambda>c. c = CHR ''/'') path"
  by (induction path) auto

lemma escape_restore:
  assumes "\<not> starts_with (dropWhile (\<lambda>c. c = CHR ''/'') path) ''%2F''"
  shows "restore_leading_slashes (escape_leading_slashes path) = path"
proof -
  let ?n = "length (takeWhile (\<lambda>c. c = CHR ''/'') path)" and ?r = "dropWhile (\<lambda>c. c = CHR ''/'') path"
  have path: "path = replicate ?n (CHR ''/'') @ ?r" by (rule slash_run)
  consider "?n = 0" | "?n = 1" | m where "?n = Suc (Suc m)" by (metis One_nat_def old.nat.exhaust)
  then show ?thesis
  proof cases
    case 1
    then have "\<not> starts_with path ''/''" by (cases path) (auto split: if_splits)
    with 1 show ?thesis by (simp add: escape_leading_slashes_def restore_leading_slashes_def)
  next
    case 2
    then have "path = CHR ''/'' # ?r" using path by simp
    then have "starts_with path ''/''" "drop 1 path = ?r" by (metis starts_with_Cons starts_with_Nil, metis drop0 drop_Suc_Cons One_nat_def)
    moreover have "strip_run ''%2F'' ?r = (0, ?r)" using strip_run_replicate [OF assms, of 0] by simp
    ultimately show ?thesis using 2
      by (simp add: escape_leading_slashes_def restore_leading_slashes_def)
  next
    case 3
    have "escape_leading_slashes path = CHR ''/'' # concat (replicate (Suc m) ''%2F'') @ ?r"
      by (simp add: escape_leading_slashes_def 3 drop_slash_run [of path, unfolded 3])
    moreover have "path = CHR ''/'' # replicate (Suc m) (CHR ''/'') @ ?r" using path 3 by simp
    ultimately show ?thesis
      using strip_run_replicate [OF assms, of "Suc m"]
      by (simp add: restore_leading_slashes_def del: replicate.simps)
  qed
qed

lemma escape_not_shaped:
  assumes "codec_wf st" "\<not> query_handle_path_shaped st path"
  shows "\<not> query_handle_path_shaped st (escape_leading_slashes path)"
proof (cases "length (takeWhile (\<lambda>c. c = CHR ''/'') path) < 2")
  case True
  then show ?thesis using assms by (simp add: escape_leading_slashes_def Let_def)
next
  case False
  then obtain m where m: "length (takeWhile (\<lambda>c. c = CHR ''/'') path) - 1 = Suc m"
    by (metis Suc_diff_Suc Suc_1 not_less_eq not_less diff_is_0_eq' not0_implies_Suc not_less_less_Suc_eq One_nat_def)
  obtain r where esc: "escape_leading_slashes path = ''/%2F'' @ r"
    using False m by (auto simp: escape_leading_slashes_def Let_def)
  obtain seg where seg: "prefix st = CHR ''/'' # seg @ ''/''" "seg \<noteq> []" "list_all is_segment_char seg"
    using assms(1) unfolding codec_wf_def by (auto elim!: valid_prefix_cases)
  have "\<not> is_segment_char (CHR ''%'')" by (simp add: is_segment_char_def B64URL_def)
  then have "\<not> is_engine_path st (''/%2F'' @ r)"
    using seg by (cases seg) (auto simp: is_engine_path_def)
  then show ?thesis
    unfolding esc by (simp add: query_handle_path_shaped_def NAVH_def NAVP_def is_engine_asset_def)
qed

lemma nav_handle_mint_opens:
  assumes "codec_wf st" "encode_nav_handle pf st now nonce dest ttl root = Some token"
    "new_url pf dest = Some u" "http_shaped (url_origin u)" "newline \<notin> set (url_origin u)"
    "mintable_dest (new_url pf) (url_origin u)" "newline \<notin> set nonce"
  shows "decode_nav_handle pf st t token allow = (if t \<le> now + ttl \<or> allow then Some (url_origin u) else None)
    \<and> decode_nav_handle_root pf st token
        = (case root of Some r \<Rightarrow> if valid_root_id r then Some r else None | None \<Rightarrow> None)"
proof -
  obtain k where k: "route_key st = Some k"
    and token: "token = b64u_encode (keyed_token k (nav_payload (now + ttl) (url_origin u) nonce root))"
    using assms(2,3) by (auto simp: encode_nav_handle_def split: option.splits if_splits)
  obtain ks where ks: "route_keys st = k # ks" using codec_history [OF assms(1) k] by blast
  show ?thesis
    using nav_open_minted [OF assms(4,7,5,6)]
    by (simp add: decode_nav_handle_def decode_nav_handle_info_def decode_nav_handle_root_def
        decode_nav_handle_payload_def token ks)
qed

lemma query_handle_mint_decodes:
  assumes "codec_wf st" "build_query_handle_url pf st now nonce dest ttl root = Some committed"
    "new_url pf dest = Some u" "http_shaped (url_origin u)" "newline \<notin> set (url_origin u)"
    "mintable_dest (new_url pf) (url_origin u)" "is_own_origin pf (url_origin u)" "newline \<notin> set nonce"
    "\<not> starts_with (dropWhile (\<lambda>c. c = CHR ''/'') (url_pathname u)) ''%2F''" "t \<le> now + ttl"
  shows "\<exists>search. committed = escape_leading_slashes (url_pathname u) @ search @ url_hash u \<and>
    (\<forall>u'. url_pathname u' = escape_leading_slashes (url_pathname u) \<and> url_search u' = search \<longrightarrow>
      decode_query_handle pf st t u' =
        Some (url_origin u @ url_pathname u
              @ (if query_kept pf st now (url_search u) \<noteq> [] then ''?'' @ join_with ''&'' (query_kept pf st now (url_search u)) else []),
              case root of Some r \<Rightarrow> if valid_root_id r then Some r else None | None \<Rightarrow> None))"
proof -
  let ?kept = "query_kept pf st now (url_search u)"
  obtain token where enc: "encode_nav_handle pf st now nonce dest ttl root = Some token"
    and path: "\<not> query_handle_path_shaped st (url_pathname u)"
    and committed: "committed = escape_leading_slashes (url_pathname u)
      @ (''?'' @ join_with ''&'' (?kept @ [NAVQ_PARAM @ ''='' @ token])) @ url_hash u"
    using assms(2,3) by (auto simp: build_query_handle_url_def Let_def join_with_snoc split: option.splits if_splits)
  let ?part = "NAVQ_PARAM @ ''='' @ token" and ?search = "''?'' @ join_with ''&'' (?kept @ [NAVQ_PARAM @ ''='' @ token])"
  note open' = nav_handle_mint_opens [OF assms(1) enc assms(3-6) assms(8)]
  have live: "decode_nav_handle pf st t token False = Some (url_origin u)"
    using open' [of t False] assms(10) by simp
  have live_part: "query_part_live pf st t ?part
      = Some (url_origin u, case root of Some r \<Rightarrow> if valid_root_id r then Some r else None | None \<Rightarrow> None)"
    using live open' [of t False] assms(7) by (simp add: query_part_live_def starts_with_def)
  have not_kept: "\<not> query_part_kept pf st ?part"
    using navq_live [OF live assms(7), of 0] by (simp add: query_part_kept_def starts_with_def)
  have no_live: "query_part_live pf st t p = None" if "query_part_kept pf st p" for p
    using that navq_live [of pf st t "drop (length NAVQ_PARAM + 1) p" _ 0]
    by (auto simp: query_part_live_def query_part_kept_def split: option.splits)
  have kept: "\<forall>p \<in> set ?kept. query_part_kept pf st p \<and> CHR ''&'' \<notin> set p"
    by (auto simp: query_kept_alt dest: split_on_no_sep)
  have "CHR ''&'' \<notin> set token"
    using enc b64u_no [of "CHR ''&''"] by (auto simp: encode_nav_handle_def split: option.splits if_splits)
  then have split: "split_on (CHR ''&'') (join_with ''&'' (?kept @ [?part])) = ?kept @ [?part]"
    by (intro split_on_join_with) (use kept in \<open>auto simp: NAVQ_PARAM_def\<close>)
  have nonempty: "join_with ''&'' (?kept @ [?part]) \<noteq> []"
    by (simp add: join_with_snoc NAVQ_PARAM_def)
  have raw: "raw_search ?search = join_with ''&'' (?kept @ [?part])" by (simp add: raw_search_def)
  have "List.map_filter (query_part_live pf st t) ?kept = []"
    using kept no_live by (auto simp: List.map_filter_def filter_empty_conv)
  then have first: "List.map_filter (query_part_live pf st t) (?kept @ [?part])
      = [(url_origin u, case root of Some r \<Rightarrow> if valid_root_id r then Some r else None | None \<Rightarrow> None)]"
    using live_part by (simp add: List.map_filter_def)
  have again: "filter (query_part_kept pf st) (?kept @ [?part]) = ?kept"
    using kept not_kept by (simp add: filter_id_conv)
  have "decode_query_handle pf st t u' =
      Some (url_origin u @ url_pathname u @ (if ?kept \<noteq> [] then ''?'' @ join_with ''&'' ?kept else []),
        case root of Some r \<Rightarrow> if valid_root_id r then Some r else None | None \<Rightarrow> None)"
    if "url_pathname u' = escape_leading_slashes (url_pathname u)" "url_search u' = ?search" for u'
    using that escape_not_shaped [OF assms(1) path] nonempty escape_restore [OF assms(9)]
    unfolding decode_query_handle_def that raw split query_scan_fold append_Nil first again by simp
  with committed show ?thesis by blast
qed

text \<open>A platform for the witnesses: a parser that knows three URLs.\<close>

definition demo_url :: "string \<Rightarrow> string \<Rightarrow> string \<Rightarrow> url" where
  "demo_url path search hash = \<lparr>url_href = ''http://a.b'' @ path @ search @ hash, url_protocol = ''http:'',
     url_origin = ''http://a.b'', url_host = ''a.b'', url_hostname = ''a.b'', url_pathname = path,
     url_search = search, url_hash = hash\<rparr>"

definition demo_platform :: platform where
  "demo_platform = \<lparr>
     new_url = (\<lambda>s. if s = ''http://a.b'' then Some (demo_url ''/'' [] [])
                   else if s = ''http://a.b/x'' then Some (demo_url ''/x'' [] [])
                   else if s = ''http://a.b//y?q=1#f'' then Some (demo_url ''//y'' ''?q=1'' ''#f'') else None),
     new_url_base = (\<lambda>s b. None), with_pathname = (\<lambda>u p. u), psl_domain = (\<lambda>h. None), psl_suffix = (\<lambda>h. None)\<rparr>"

definition demo_codec :: codec where
  "demo_codec = set_route_key initial_codec (Some ''AAAAAAAAAAAAAAAAAAAAAA'')"

lemma demo_codec_wf: "codec_wf demo_codec"
  by (simp add: demo_codec_def codec_wf_set_route_key codec_wf_initial)

lemma demo_key: "\<exists>k. route_key demo_codec = Some k"
proof -
  have "b64u_encode (replicate 16 0) = ''AAAAAAAAAAAAAAAAAAAAAA''" by code_simp
  then have "b64u_decode ''AAAAAAAAAAAAAAAAAAAAAA'' = Some (replicate 16 0)" by (metis b64u_decode_encode)
  then show ?thesis by (simp add: demo_codec_def set_route_key_def)
qed

lemma demo_query:
  "\<exists>token. build_query_handle_url demo_platform demo_codec 5 ''n'' ''http://a.b//y?q=1#f'' 100 (Some ''c1'')
     = Some (''/%2Fy?q=1&zlNavh='' @ token @ ''#f'')"
proof -
  obtain k where "route_key demo_codec = Some k" using demo_key by blast
  then obtain token where
      "encode_nav_handle demo_platform demo_codec 5 ''n'' ''http://a.b//y?q=1#f'' 100 (Some ''c1'') = Some token"
    by (simp add: encode_nav_handle_def mintable_dest_def demo_platform_def demo_url_def)
  moreover have "prefix demo_codec = ''/j/''"
    by (simp add: demo_codec_def set_route_key_def Let_def initial_codec_def)
  ultimately show ?thesis
    by (simp add: build_query_handle_url_def query_handle_path_shaped_def is_engine_asset_def is_engine_path_def
        query_kept_def raw_search_def NAVQ_PARAM_def NAVH_def NAVP_def escape_leading_slashes_def
        demo_platform_def demo_url_def)
qed

lemma demo_origin:
  "new_url demo_platform ''http://a.b//y?q=1#f'' = Some (demo_url ''//y'' ''?q=1'' ''#f'')"
  "http_shaped (url_origin (demo_url p s h))" "newline \<notin> set (url_origin (demo_url p s h))"
  "mintable_dest (new_url demo_platform) (url_origin (demo_url p s h))"
  "is_own_origin demo_platform (url_origin (demo_url p s h))"
  by (simp_all add: demo_platform_def demo_url_def http_shaped_def newline_def mintable_dest_def is_own_origin_def)

lemma demo_query_kept: "query_kept demo_platform st now ''?q=1'' = [''q=1'']"
  by (simp add: query_kept_def raw_search_def NAVQ_PARAM_def)

section \<open>Properties\<close>

text \<open>A handle opens, under any later key history that still leads with its key, to the origin and the
  host binding it was minted for, until it expires; after that only the callers that accept an expired
  handle read it.\<close>

theorem nav_handle_roundtrip:
  assumes "codec_wf st" "encode_nav_handle pf st now nonce dest ttl root = Some token"
    "new_url pf dest = Some u" "http_shaped (url_origin u)" "newline \<notin> set (url_origin u)"
    "mintable_dest (new_url pf) (url_origin u)" "newline \<notin> set nonce"
  shows "decode_nav_handle pf st t token allow = (if t \<le> now + ttl \<or> allow then Some (url_origin u) else None)
    \<and> decode_nav_handle_root pf st token
        = (case root of Some r \<Rightarrow> if valid_root_id r then Some r else None | None \<Rightarrow> None)"
  by (rule nav_handle_mint_opens [OF assms])

theorem nav_handle_roundtrip_witness:
  "\<exists>token. encode_nav_handle demo_platform demo_codec 5 ''n'' ''http://a.b/x'' 100 (Some ''c1'') = Some token \<and>
     decode_nav_handle demo_platform demo_codec 60 token False = Some ''http://a.b'' \<and>
     decode_nav_handle demo_platform demo_codec 106 token False = None \<and>
     decode_nav_handle_root demo_platform demo_codec token = Some ''c1''"
proof -
  obtain k where "route_key demo_codec = Some k" using demo_key by blast
  then obtain token where token:
      "encode_nav_handle demo_platform demo_codec 5 ''n'' ''http://a.b/x'' 100 (Some ''c1'') = Some token"
    by (simp add: encode_nav_handle_def mintable_dest_def demo_platform_def demo_url_def)
  note r = nav_handle_roundtrip [OF demo_codec_wf token, of "demo_url ''/x'' [] []"]
  show ?thesis
    using r [of 60 False] r [of 106 False] token
    by (simp add: demo_platform_def demo_url_def http_shaped_def newline_def mintable_dest_def valid_root_id_def
        is_ctl_def)
qed

text \<open>A handle is authentic: whatever string opens is the base64url text of a token made under a held
  key of bytes that spell a tagged payload, which is not the payload of any route token, and its destination is a
  mintable http(s) URL.\<close>

theorem nav_handle_authentic:
  assumes "decode_nav_handle_payload pf st token = Some info"
  shows "\<exists>k \<in> set (route_keys st). \<exists>d payload. token = b64u_encode (keyed_bytes k d) \<and> utf8_decode d = Some payload
    \<and> starts_with payload NAVH_TAG \<and> \<not> http_shaped payload \<and> mintable_dest (new_url pf) (nh_destination info)"
proof -
  obtain bytes where b: "token = b64u_encode bytes" "nav_open_keys pf (route_keys st) bytes = Some info"
    using assms by (auto simp: decode_nav_handle_payload_def b64u_decode_iff split: option.splits)
  have "\<not> http_shaped p" if "starts_with p NAVH_TAG" for p
    using that by (auto simp: http_shaped_def NAVH_TAG_def starts_with_iff)
  with nav_open_keys_sound [OF b(2)] b(1) show ?thesis by blast
qed

theorem nav_handle_authentic_witness:
  "\<exists>info token. decode_nav_handle_payload demo_platform demo_codec token = Some info \<and>
    (\<exists>k \<in> set (route_keys demo_codec). \<exists>d payload. token = b64u_encode (keyed_bytes k d) \<and> utf8_decode d = Some payload
    \<and> starts_with payload NAVH_TAG \<and> \<not> http_shaped payload \<and> mintable_dest (new_url demo_platform) (nh_destination info))"
proof -
  obtain k where k: "route_key demo_codec = Some k" using demo_key by blast
  then obtain ks where ks: "route_keys demo_codec = k # ks" using codec_history [OF demo_codec_wf] by blast
  let ?token = "b64u_encode (keyed_token k (nav_payload 9 ''http://a.b'' ''n'' None))"
  have "nav_open_key demo_platform k (keyed_token k (nav_payload 9 ''http://a.b'' ''n'' None))
      = Return (Some \<lparr>nh_destination = ''http://a.b'', nh_root = None, nh_expires = 9\<rparr>)"
    by (subst nav_open_minted)
      (simp_all add: http_shaped_def newline_def mintable_dest_def demo_platform_def demo_url_def)
  then have "decode_nav_handle_payload demo_platform demo_codec ?token
      = Some \<lparr>nh_destination = ''http://a.b'', nh_root = None, nh_expires = 9\<rparr>"
    by (simp add: decode_nav_handle_payload_def ks)
  with nav_handle_authentic [OF this] show ?thesis by blast
qed

text \<open>A committed query route is decoded without leaking engine vocabulary: the destination is the origin
  of a live token of the search, the restored path, and the components of the search that are not
  engine tokens, live or expired, in their order.\<close>

theorem query_handle_clean:
  assumes "decode_query_handle pf st now u = Some (dest, root)"
  shows "\<exists>orig keep parts token. parts = split_on (CHR ''&'') (raw_search (url_search u)) \<and>
    dest = orig @ restore_leading_slashes (url_pathname u) @ (if keep \<noteq> [] then ''?'' @ join_with ''&'' keep else []) \<and>
    keep = filter (query_part_kept pf st) parts \<and> (NAVQ_PARAM @ ''='' @ token) \<in> set parts \<and>
    decode_nav_handle pf st now token False = Some orig \<and> is_own_origin pf orig \<and>
    \<not> query_part_kept pf st (NAVQ_PARAM @ ''='' @ token)"
proof -
  let ?parts = "split_on (CHR ''&'') (raw_search (url_search u))"
  let ?live = "query_part_live pf st now"
  obtain orig rest where live: "List.map_filter ?live ?parts = (orig, root) # rest"
    and dest: "dest = orig @ restore_leading_slashes (url_pathname u)
      @ (if filter (query_part_kept pf st) ?parts \<noteq> [] then ''?'' @ join_with ''&'' (filter (query_part_kept pf st) ?parts) else [])"
    using assms by (auto simp: decode_query_handle_def query_scan_fold split: if_splits option.splits list.splits prod.splits)
  have "(orig, root) \<in> set (List.map_filter ?live ?parts)" unfolding live by simp
  then obtain part where part: "part \<in> set ?parts" "?live part = Some (orig, root)"
    by (auto simp: List.map_filter_def)
  then obtain token where token: "part = NAVQ_PARAM @ ''='' @ token"
    by (auto simp: query_part_live_def starts_with_iff split: if_splits)
  have open': "decode_nav_handle pf st now token False = Some orig" "is_own_origin pf orig"
    using part(2) unfolding token
    by (auto simp: query_part_live_def starts_with_def split: if_splits option.splits)
  then have "\<not> query_part_kept pf st part"
    using navq_live [of pf st now token orig 0] by (simp add: query_part_kept_def token starts_with_def)
  with dest part(1) open' show ?thesis unfolding token by blast
qed

text \<open>The query shape round-trips: while the token lives, the committed URL that the mint builds decodes
  to the origin, the real path and the destination's own query, free of engine tokens, with the host
  binding of the mint.\<close>

theorem query_handle_roundtrip:
  assumes "codec_wf st" "build_query_handle_url pf st now nonce dest ttl root = Some committed"
    "new_url pf dest = Some u" "http_shaped (url_origin u)" "newline \<notin> set (url_origin u)"
    "mintable_dest (new_url pf) (url_origin u)" "is_own_origin pf (url_origin u)" "newline \<notin> set nonce"
    "\<not> starts_with (dropWhile (\<lambda>c. c = CHR ''/'') (url_pathname u)) ''%2F''" "t \<le> now + ttl"
  shows "\<exists>search. committed = escape_leading_slashes (url_pathname u) @ search @ url_hash u \<and>
    (\<forall>u'. url_pathname u' = escape_leading_slashes (url_pathname u) \<and> url_search u' = search \<longrightarrow>
      decode_query_handle pf st t u' =
        Some (url_origin u @ url_pathname u
              @ (if query_kept pf st now (url_search u) \<noteq> [] then ''?'' @ join_with ''&'' (query_kept pf st now (url_search u)) else []),
              case root of Some r \<Rightarrow> if valid_root_id r then Some r else None | None \<Rightarrow> None))"
  by (rule query_handle_mint_decodes [OF assms])

theorem query_handle_roundtrip_witness:
  "\<exists>committed search. build_query_handle_url demo_platform demo_codec 5 ''n'' ''http://a.b//y?q=1#f'' 100 (Some ''c1'') = Some committed \<and>
    committed = escape_leading_slashes ''//y'' @ search @ ''#f'' \<and>
    (\<forall>u'. url_pathname u' = escape_leading_slashes ''//y'' \<and> url_search u' = search \<longrightarrow>
      decode_query_handle demo_platform demo_codec 60 u' = Some (''http://a.b//y?q=1'', Some ''c1''))"
proof -
  obtain committed where c: "build_query_handle_url demo_platform demo_codec 5 ''n'' ''http://a.b//y?q=1#f'' 100 (Some ''c1'') = Some committed"
    using demo_query by blast
  show ?thesis
    using query_handle_roundtrip [OF demo_codec_wf c demo_origin(1,2,3,4,5), of 60] c demo_query_kept
    by (simp add: newline_def demo_url_def valid_root_id_def is_ctl_def)
qed

theorem query_handle_clean_witness:
  "\<exists>u dest root orig keep parts token. decode_query_handle demo_platform demo_codec 60 u = Some (dest, root) \<and>
    parts = split_on (CHR ''&'') (raw_search (url_search u)) \<and>
    dest = orig @ restore_leading_slashes (url_pathname u) @ (if keep \<noteq> [] then ''?'' @ join_with ''&'' keep else []) \<and>
    keep = filter (query_part_kept demo_platform demo_codec) parts \<and> (NAVQ_PARAM @ ''='' @ token) \<in> set parts \<and>
    decode_nav_handle demo_platform demo_codec 60 token False = Some orig \<and> is_own_origin demo_platform orig"
proof -
  obtain committed where c: "build_query_handle_url demo_platform demo_codec 5 ''n'' ''http://a.b//y?q=1#f'' 100 (Some ''c1'') = Some committed"
    using demo_query by blast
  obtain search where s: "\<forall>u'. url_pathname u' = escape_leading_slashes ''//y'' \<and> url_search u' = search \<longrightarrow>
      decode_query_handle demo_platform demo_codec 60 u' = Some (''http://a.b//y?q=1'', Some ''c1'')"
    using query_handle_mint_decodes [OF demo_codec_wf c demo_origin(1,2,3,4,5), of 60] demo_query_kept
    by (auto simp: newline_def demo_url_def valid_root_id_def is_ctl_def)
  have "decode_query_handle demo_platform demo_codec 60 (demo_url (escape_leading_slashes ''//y'') search [])
      = Some (''http://a.b//y?q=1'', Some ''c1'')"
    using s by (simp add: demo_url_def)
  from this query_handle_clean [OF this] show ?thesis by blast
qed

end
