(* ===== verification/Cookies.thy ===== *)
theory Cookies
  imports Routes
begin

text \<open>
  The cookie jar's pure core (\<open>src/app/src/cookies.ts\<close>): the grammar gates of RFC 6265, the
  cookie-date parser, host, path and site matching, and the parsing of a \<open>Set-Cookie\<close> header.

  What the code takes from outside (URL parser, public suffix list) is the record \<open>platform\<close>. Epoch milliseconds are \<open>int\<close>.
\<close>

section \<open>Grammar gates\<close>

definition is_token_char :: "char \<Rightarrow> bool" where
  "is_token_char c \<longleftrightarrow> is_alnum c \<or> c \<in> set ''!#$%&*+-.^_`|~'' \<or> char_code c = 39"

definition is_cookie_octet :: "char \<Rightarrow> bool" where
  "is_cookie_octet c \<longleftrightarrow>
     char_code c = 0x21 \<or> (0x23 \<le> char_code c \<and> char_code c \<le> 0x2B) \<or>
     (0x2D \<le> char_code c \<and> char_code c \<le> 0x3A) \<or> (0x3C \<le> char_code c \<and> char_code c \<le> 0x5B) \<or>
     (0x5D \<le> char_code c \<and> char_code c \<le> 0x7E)"

definition is_valid_cookie_name :: "string \<Rightarrow> bool" where
  "is_valid_cookie_name s \<longleftrightarrow> s \<noteq> [] \<and> list_all is_token_char s"

definition is_valid_cookie_value :: "string \<Rightarrow> bool" where
  "is_valid_cookie_value s \<longleftrightarrow> list_all is_cookie_octet s"

definition is_valid_facade_path :: "string \<Rightarrow> bool" where
  "is_valid_facade_path p \<longleftrightarrow> list_all (\<lambda>c. \<not> is_ctl c \<and> c \<noteq> CHR '';'') p"

section \<open>Cookie dates\<close>

definition is_date_delim :: "char \<Rightarrow> bool" where
  "is_date_delim c \<longleftrightarrow>
     char_code c = 0x09 \<or> (0x20 \<le> char_code c \<and> char_code c \<le> 0x2F) \<or>
     (0x3B \<le> char_code c \<and> char_code c \<le> 0x40) \<or> (0x5B \<le> char_code c \<and> char_code c \<le> 0x60) \<or>
     (0x7B \<le> char_code c \<and> char_code c \<le> 0x7E)"

text \<open>\<open>s.split(/[delimiters]+/)\<close> with the empty tokens skipped.\<close>

fun date_tokens_acc :: "string \<Rightarrow> string \<Rightarrow> string list" where
  "date_tokens_acc acc [] = (if acc = [] then [] else [acc])"
| "date_tokens_acc acc (c # s) =
     (if is_date_delim c then (if acc = [] then [] else [acc]) @ date_tokens_acc [] s
      else date_tokens_acc (acc @ [c]) s)"

definition date_tokens :: "string \<Rightarrow> string list" where
  "date_tokens s = date_tokens_acc [] s"

text \<open>\<open>\\d{1,2}\<close> taken greedily, and the length of the leading run of digits.\<close>

definition two_digits :: "string \<Rightarrow> (nat \<times> string) option" where
  "two_digits s =
     (let d = takeWhile is_digit (take 2 s)
      in if d = [] then None else Some (digits_val d, drop (length d) s))"

definition match_time :: "string \<Rightarrow> (nat \<times> nat \<times> nat) option" where
  "match_time tok =
     (case two_digits tok of
        Some (h, c # r1) \<Rightarrow>
          if c \<noteq> CHR '':'' then None
          else (case two_digits r1 of
            None \<Rightarrow> None
          | Some (mi, r2) \<Rightarrow>
              (case r2 of
                 c2 # r3 \<Rightarrow>
                   if c2 = CHR '':'' then
                     (case two_digits r3 of Some (sec, _) \<Rightarrow> Some (h, mi, sec) | None \<Rightarrow> Some (h, mi, 0))
                   else Some (h, mi, 0)
               | [] \<Rightarrow> Some (h, mi, 0)))
      | _ \<Rightarrow> None)"

definition digit_run :: "string \<Rightarrow> string" where
  "digit_run tok = takeWhile is_digit tok"

definition COOKIE_MONTHS :: "(string \<times> nat) list" where
  "COOKIE_MONTHS = [(''jan'', 0), (''feb'', 1), (''mar'', 2), (''apr'', 3), (''may'', 4), (''jun'', 5),
     (''jul'', 6), (''aug'', 7), (''sep'', 8), (''oct'', 9), (''nov'', 10), (''dec'', 11)]"

record date_scan =
  ds_time :: "(nat \<times> nat \<times> nat) option"
  ds_day :: "nat option"
  ds_overflow :: nat
  ds_month :: "nat option"
  ds_year :: "nat option"

definition scan_day :: "string \<Rightarrow> date_scan \<Rightarrow> date_scan option" where
  "scan_day tok ds =
     (let run = digit_run tok; d = digits_val run in
      if ds_day ds \<noteq> None \<or> run = [] \<or> 2 < length run then None
      else if 1 \<le> d \<and> d \<le> 31 then Some (ds\<lparr>ds_day := Some d\<rparr>)
      else if ds_overflow ds = 0 \<and> 60 \<le> d \<and> d \<le> 99 then Some (ds\<lparr>ds_overflow := d\<rparr>)
      else None)"

definition scan_year :: "string \<Rightarrow> date_scan \<Rightarrow> date_scan option" where
  "scan_year tok ds =
     (let run = digit_run tok; y = digits_val run in
      if ds_year ds \<noteq> None \<or> length run < 2 \<or> 4 < length run then None
      else Some (ds\<lparr>ds_year := Some (if length run = 2 then (if 70 \<le> y then 1900 + y else 2000 + y) else y)\<rparr>))"

text \<open>One token: the first field it fits consumes it.\<close>

definition scan_token :: "string \<Rightarrow> date_scan \<Rightarrow> date_scan" where
  "scan_token tok ds =
     (case (if ds_time ds = None then match_time tok else None) of
        Some t \<Rightarrow> ds\<lparr>ds_time := Some t\<rparr>
      | None \<Rightarrow>
          (case scan_day tok ds of
             Some ds' \<Rightarrow> ds'
           | None \<Rightarrow>
               (case (if ds_month ds = None then map_of COOKIE_MONTHS (js_lower (take 3 tok)) else None) of
                  Some m \<Rightarrow> ds\<lparr>ds_month := Some m\<rparr>
                | None \<Rightarrow> (case scan_year tok ds of Some ds' \<Rightarrow> ds' | None \<Rightarrow> ds))))"

text \<open>\<open>Date.UTC\<close> of the proleptic Gregorian calendar, in milliseconds.\<close>

definition is_leap :: "int \<Rightarrow> bool" where
  "is_leap y \<longleftrightarrow> (y mod 4 = 0 \<and> y mod 100 \<noteq> 0) \<or> y mod 400 = 0"

definition days_to_year :: "int \<Rightarrow> int" where
  "days_to_year y = 365 * (y - 1970) + (y - 1969) div 4 - (y - 1901) div 100 + (y - 1601) div 400"

definition days_to_month :: "int \<Rightarrow> nat \<Rightarrow> int" where
  "days_to_month y m =
     [0, 31, 59, 90, 120, 151, 181, 212, 243, 273, 304, 334] ! m + (if 2 \<le> m \<and> is_leap y then 1 else 0)"

definition date_utc :: "nat \<Rightarrow> nat \<Rightarrow> nat \<Rightarrow> nat \<Rightarrow> nat \<Rightarrow> nat \<Rightarrow> int" where
  "date_utc y mo d h mi s =
     (days_to_year (int y) + days_to_month (int y) mo + int d - 1) * 86400000
     + int h * 3600000 + int mi * 60000 + int s * 1000"

definition parse_cookie_date :: "string \<Rightarrow> int option" where
  "parse_cookie_date str =
     (let ds = fold scan_token (date_tokens str)
                 \<lparr>ds_time = None, ds_day = None, ds_overflow = 0, ds_month = None, ds_year = None\<rparr>;
          day = (if ds_overflow ds \<noteq> 0 \<and> ds_day ds = None
                 then (let d = ds_overflow ds - 1 in if 1 \<le> d \<and> d \<le> 31 then Some d else None)
                 else ds_day ds)
      in case (ds_time ds, day, ds_month ds, ds_year ds) of
           (Some (h, mi, sec), Some d, Some mo, Some y) \<Rightarrow>
             if y < 1601 \<or> 23 < h \<or> 59 < mi \<or> 59 < sec then None
             else Some (date_utc y mo d h mi sec)
         | _ \<Rightarrow> None)"

section \<open>Hosts, sites and paths\<close>

record parsed_url =
  pu_origin :: string
  pu_host :: string
  pu_path :: string
  pu_secure :: bool

definition parse_url :: "platform \<Rightarrow> string \<Rightarrow> parsed_url option" where
  "parse_url pf u =
     (case new_url pf u of
        None \<Rightarrow> None
      | Some p \<Rightarrow>
          if url_protocol p \<noteq> ''https:'' \<and> url_protocol p \<noteq> ''http:'' then None
          else Some \<lparr>pu_origin = url_origin p, pu_host = js_lower (url_hostname p),
                     pu_path = (if url_pathname p = [] then ''/'' else url_pathname p),
                     pu_secure = (url_protocol p = ''https:'')\<rparr>)"

text \<open>\<open>/^\\d+\\.\\d+\\.\\d+\\.\\d+$/\<close>, and the loopback form \<open>/^127\\.\\d+\\.\\d+\\.\\d+$/\<close>.\<close>

definition looks_like_ip :: "string \<Rightarrow> bool" where
  "looks_like_ip host \<longleftrightarrow>
     length (split_on (CHR ''.'') host) = 4 \<and>
     list_all (\<lambda>w. w \<noteq> [] \<and> list_all is_digit w) (split_on (CHR ''.'') host)"

definition is_loopback_host :: "string \<Rightarrow> bool" where
  "is_loopback_host host \<longleftrightarrow>
     host = ''localhost'' \<or> ends_with host ''.localhost'' \<or>
     (looks_like_ip host \<and> hd (split_on (CHR ''.'') host) = ''127'') \<or> host = ''[::1]''"

definition is_secure_origin :: "parsed_url \<Rightarrow> bool" where
  "is_secure_origin u \<longleftrightarrow> pu_secure u \<or> is_loopback_host (pu_host u)"

definition domain_match :: "string \<Rightarrow> string \<Rightarrow> bool" where
  "domain_match host domain \<longleftrightarrow>
     host = domain \<or> (ends_with host (''.'' @ domain) \<and> \<not> looks_like_ip host)"

definition is_public_suffix :: "platform \<Rightarrow> string \<Rightarrow> bool" where
  "is_public_suffix pf domain \<longleftrightarrow> CHR ''.'' \<in> set domain \<and> psl_suffix pf domain = Some domain"

definition site_of_host :: "platform \<Rightarrow> string \<Rightarrow> string" where
  "site_of_host pf host =
     (if looks_like_ip host \<or> CHR ''.'' \<notin> set host then host
      else case psl_domain pf host of Some d \<Rightarrow> d | None \<Rightarrow> host)"

text \<open>\<open>lastIndexOf("/")\<close> as the length of what precedes it.\<close>

definition before_last_slash :: "string \<Rightarrow> string" where
  "before_last_slash s = rev (drop 1 (dropWhile (\<lambda>c. c \<noteq> CHR ''/'') (rev s)))"

definition default_path :: "string \<Rightarrow> string" where
  "default_path p =
     (if \<not> starts_with p ''/'' then ''/''
      else if before_last_slash p = [] then ''/'' else before_last_slash p)"

definition path_match :: "string \<Rightarrow> string \<Rightarrow> bool" where
  "path_match req cp \<longleftrightarrow>
     cp = ''/'' \<or> req = cp \<or>
     (starts_with req cp \<and>
      (ends_with cp ''/'' \<or> (length cp < length req \<and> req ! length cp = CHR ''/'')))"

section \<open>Cookies\<close>

text \<open>\<open>SSOther\<close> is a value that reached the jar through an import, whose \<open>sameSite\<close> field is not checked.\<close>

datatype same_site = Strict | Lax | SSNone | SSOther json

datatype same_site_policy = PolicyOff | PolicyApprox

text \<open>The JavaScript object of a cookie. \<open>ck_ref\<close> is its identity as an object, which the code
  compares with \<open>===\<close> and \<open>Set.has\<close>; it is not a field of the record.\<close>

record cookie =
  ck_name :: string
  ck_value :: string
  ck_domain :: string
  ck_host_only :: bool
  ck_path :: string
  ck_secure :: bool
  ck_http_only :: bool
  ck_same_site :: "same_site option"
  ck_expires :: int
  ck_created :: int
  ck_ref :: nat

definition cookie_live :: "int \<Rightarrow> cookie \<Rightarrow> bool" where
  "cookie_live now c \<longleftrightarrow> ck_expires c = 0 \<or> now < ck_expires c"

text \<open>The identity of a cookie in the jar: name, domain, host-only flag and path.\<close>

definition cookie_id :: "cookie \<Rightarrow> string \<times> string \<times> bool \<times> string" where
  "cookie_id c = (ck_name c, ck_domain c, ck_host_only c, ck_path c)"

record request_context =
  rc_initiator :: "string option"
  rc_navigation :: bool
  rc_client :: "string option"

definition site_key :: "platform \<Rightarrow> parsed_url \<Rightarrow> bool \<times> string" where
  "site_key pf u = (pu_secure u, site_of_host pf (pu_host u))"

definition same_site_allows ::
  "platform \<Rightarrow> same_site_policy \<Rightarrow> cookie \<Rightarrow> parsed_url \<Rightarrow> request_context option \<Rightarrow> bool" where
  "same_site_allows pf policy c u ctx \<longleftrightarrow>
     (if policy \<noteq> PolicyApprox then True
      else
        let eff = (case ck_same_site c of Some s \<Rightarrow> s | None \<Rightarrow> Lax) in
        if eff = SSNone then True
        else
          case (case ctx of
                  Some x \<Rightarrow> (case rc_initiator x of Some i \<Rightarrow> if i = [] then None else parse_url pf i | None \<Rightarrow> None)
                | None \<Rightarrow> None) of
            None \<Rightarrow> True
          | Some init \<Rightarrow>
              site_key pf u = site_key pf init \<or>
              (eff = Lax \<and> (case ctx of Some x \<Rightarrow> rc_navigation x | None \<Rightarrow> False)))"

definition cookie_byte_size :: "string \<Rightarrow> string \<Rightarrow> nat" where
  "cookie_byte_size n v = length (utf8_encode n) + length (utf8_encode v)"

section \<open>Parsing a \<open>Set-Cookie\<close> header\<close>

record cookie_attrs =
  at_domain :: string
  at_host_only :: bool
  at_path :: string
  at_secure :: bool
  at_http_only :: bool
  at_same_site :: "same_site option"
  at_expires :: int
  at_has_expires :: bool
  at_max_age :: "int option"

definition no_attrs :: cookie_attrs where
  "no_attrs = \<lparr>at_domain = [], at_host_only = True, at_path = [], at_secure = False,
     at_http_only = False, at_same_site = None, at_expires = 0, at_has_expires = False,
     at_max_age = None\<rparr>"

text \<open>Text before and after the first occurrence of a separator.\<close>

definition cut_at :: "char \<Rightarrow> string \<Rightarrow> string \<times> string option" where
  "cut_at c s =
     (case index_of s c of None \<Rightarrow> (s, None) | Some i \<Rightarrow> (take i s, Some (drop (Suc i) s)))"

text \<open>\<open>/^-?\\d+$/\<close> and its \<open>Number\<close>.\<close>

definition parse_max_age :: "string \<Rightarrow> int option" where
  "parse_max_age v = parse_int v"

definition parse_same_site :: "string \<Rightarrow> same_site option" where
  "parse_same_site v =
     (let sv = js_lower v
      in if sv = ''strict'' then Some Strict else if sv = ''lax'' then Some Lax
         else if sv = ''none'' then Some SSNone else None)"

definition apply_attr :: "string \<Rightarrow> cookie_attrs \<Rightarrow> cookie_attrs" where
  "apply_attr part a =
     (let p = js_trim part in
      if p = [] then a
      else
        let (k, rest) = cut_at (CHR ''='') p;
            key = js_lower (js_trim k);
            val = (case rest of None \<Rightarrow> [] | Some r \<Rightarrow> js_trim r)
        in if key = ''domain'' then
             (if val \<noteq> [] then
                a\<lparr>at_domain := js_lower (if starts_with val ''.'' then drop 1 val else val), at_host_only := False\<rparr>
              else a)
           else if key = ''path'' then (if starts_with val ''/'' then a\<lparr>at_path := val\<rparr> else a)
           else if key = ''secure'' then a\<lparr>at_secure := True\<rparr>
           else if key = ''httponly'' then a\<lparr>at_http_only := True\<rparr>
           else if key = ''samesite'' then a\<lparr>at_same_site := parse_same_site val\<rparr>
           else if key = ''max-age'' then
             (case parse_max_age val of Some n \<Rightarrow> a\<lparr>at_max_age := Some n\<rparr> | None \<Rightarrow> a)
           else if key = ''expires'' then
             (case parse_cookie_date val of
                Some t \<Rightarrow> a\<lparr>at_expires := t, at_has_expires := True\<rparr> | None \<Rightarrow> a)
           else a)"

definition parse_attrs :: "string \<Rightarrow> cookie_attrs" where
  "parse_attrs rest = fold apply_attr (split_on (CHR '';'') rest) no_attrs"

text \<open>The name-value pair: \<open>None\<close> when there is no non-empty name.\<close>

definition parse_pair :: "string \<Rightarrow> (string \<times> string) option" where
  "parse_pair pair_text =
     (let pair = js_trim pair_text in
      case index_of pair (CHR ''='') of
        None \<Rightarrow> None
      | Some eq \<Rightarrow>
          let name = (if 0 < eq then js_trim (take eq pair) else []) in
          if name = [] then None else Some (name, js_trim (drop (Suc eq) pair)))"

text \<open>\<open>cookie.replace(/;\\s*httponly\\b/gi, "")\<close>\<close>

definition is_word_char :: "char \<Rightarrow> bool" where
  "is_word_char c \<longleftrightarrow> is_alnum c \<or> c = CHR ''_''"

definition match_httponly :: "string \<Rightarrow> string option" where
  "match_httponly s =
     (let r = dropWhile is_js_space s in
      if js_lower (take 8 r) = ''httponly'' \<and> (length r = 8 \<or> \<not> is_word_char (r ! 8))
      then Some (drop 8 r) else None)"

lemma match_httponly_shorter: "match_httponly s = Some r \<Longrightarrow> length r \<le> length s"
  using length_dropWhile_le [of is_js_space s]
  by (auto simp: match_httponly_def Let_def split: if_splits)

function strip_httponly :: "string \<Rightarrow> string" where
  "strip_httponly [] = []"
| "strip_httponly (c # s) =
     (if c = CHR '';'' then
        (case match_httponly s of Some r \<Rightarrow> strip_httponly r | None \<Rightarrow> c # strip_httponly s)
      else c # strip_httponly s)"
  by pat_completeness auto
termination
  by (relation "measure length") (auto dest: match_httponly_shorter)

end
