(* ===== verification/CookieProfiles.thy ===== *)
theory CookieProfiles
  imports Cookies NavHandles
begin

text \<open>
  The jar's state and its profiles (\<open>src/app/src/cookies.ts\<close>, the module bindings and the functions
  from \<open>registerOrigin\<close> to \<open>jarClientHasRoot\<close>).

  The jar is one map from bucket keys to lists of cookies. A bucket key is an origin id, for the
  durable default profile, or a namespace, the separator NUL and an origin id. A namespace names a
  host root client and a profile label. A client is resolved to its namespace through the maps of
  roots and root profiles; a client that cannot be attributed while a session profile exists has the
  unbound namespace, which holds no cookies. Diagnostics and traces are not part of the model;
  listener notifications are the log \<open>js_log\<close>.
\<close>

section \<open>State\<close>

record virtual_origin =
  vo_origin :: string
  vo_id :: string
  vo_path_base :: string

record set_cookie_result =
  sr_name :: string
  sr_stored :: bool
  sr_deleted :: bool
  sr_rejected :: "string option"
  sr_cookie :: "cookie option"
  sr_replaced :: "bool option"
  sr_namespace :: "string option"

record jar_change =
  jc_result :: set_cookie_result
  jc_url :: string
  jc_from_script :: bool

record jar_state =
  js_policy :: same_site_policy
  js_registry :: "(string, virtual_origin) omap"
  js_origin_by_id :: "(string, string) omap"
  js_jars :: "(string, cookie list) omap"
  js_profile :: string
  js_client_roots :: "(string, string) omap"
  js_root_profiles :: "(string, string) omap"
  js_unbound :: "string list"
  js_nav_roots :: "(string, string \<times> int) omap"
  js_restore_failed :: bool
  js_global_assigned :: bool
  js_assigned_roots :: "string list"
  js_save_timer :: bool
  js_next_ref :: nat
  js_log :: "jar_change list"

definition PROFILE_DEFAULT :: string where "PROFILE_DEFAULT = ''default''"
definition SEP :: char where "SEP = CHR 0x00"
definition PROFILE_UNBOUND :: string where "PROFILE_UNBOUND = SEP # ''unbound''"

definition initial_jar :: jar_state where
  "initial_jar = \<lparr>js_policy = PolicyOff, js_registry = [], js_origin_by_id = [], js_jars = [],
     js_profile = PROFILE_DEFAULT, js_client_roots = [], js_root_profiles = [], js_unbound = [],
     js_nav_roots = [], js_restore_failed = False, js_global_assigned = False, js_assigned_roots = [],
     js_save_timer = False, js_next_ref = 0, js_log = []\<rparr>"

definition set_same_site_policy :: "jar_state \<Rightarrow> string option \<Rightarrow> jar_state" where
  "set_same_site_policy st p =
     st\<lparr>js_policy := (if p = Some ''approx'' then PolicyApprox else PolicyOff)\<rparr>"

definition schedule_persist :: "jar_state \<Rightarrow> jar_state" where
  "schedule_persist st = st\<lparr>js_save_timer := True\<rparr>"

definition note_jar_change :: "set_cookie_result \<Rightarrow> string \<Rightarrow> bool \<Rightarrow> jar_state \<Rightarrow> jar_state" where
  "note_jar_change result url from_script st =
     (if sr_cookie result = None then st
      else st\<lparr>js_log := js_log st @ [\<lparr>jc_result = result, jc_url = url, jc_from_script = from_script\<rparr>]\<rparr>)"

section \<open>Origins\<close>

text \<open>The id of a canonical origin; \<open>None\<close> when the URL parser throws.\<close>

definition origin_jar_id :: "platform \<Rightarrow> string \<Rightarrow> string option" where
  "origin_jar_id pf orig =
     map_option (\<lambda>u. CHR ''o'' # concat (map hex_lower (utf8_encode (url_origin u)))) (new_url pf orig)"

definition register_origin ::
  "platform \<Rightarrow> codec \<Rightarrow> string \<Rightarrow> jar_state \<Rightarrow> (virtual_origin \<times> jar_state) option" where
  "register_origin pf cd orig st =
     (case new_url pf orig of
        None \<Rightarrow> None
      | Some u \<Rightarrow>
          (case map_of (js_registry st) (url_origin u) of
             Some e \<Rightarrow> Some (e, st)
           | None \<Rightarrow>
               (case origin_jar_id pf (url_origin u) of
                  None \<Rightarrow> None
                | Some i \<Rightarrow>
                    let e = \<lparr>vo_origin = url_origin u, vo_id = i, vo_path_base = encode_dest cd (url_origin u)\<rparr>
                    in Some (e, st\<lparr>js_registry := AList.update (url_origin u) e (js_registry st),
                                   js_origin_by_id := AList.update i (url_origin u) (js_origin_by_id st)\<rparr>))))"

section \<open>Roots, profiles and namespaces\<close>

definition root_of :: "jar_state \<Rightarrow> string option \<Rightarrow> string option" where
  "root_of st cid =
     (case truthy cid of
        None \<Rightarrow> None
      | Some c \<Rightarrow>
          (case map_of (js_client_roots st) c of
             Some r \<Rightarrow> Some r
           | None \<Rightarrow> if omap_has (js_root_profiles st) c then Some c else None))"

definition any_session_profile_active :: "jar_state \<Rightarrow> bool" where
  "any_session_profile_active st \<longleftrightarrow>
     js_profile st \<noteq> PROFILE_DEFAULT \<or> list_ex (\<lambda>(_, pid). pid \<noteq> PROFILE_DEFAULT) (js_root_profiles st)"

definition active_profile :: "jar_state \<Rightarrow> string option \<Rightarrow> string" where
  "active_profile st cid =
     (case truthy (root_of st cid) of
        Some root \<Rightarrow>
          (case map_of (js_root_profiles st) root of
             Some p \<Rightarrow> p
           | None \<Rightarrow>
               if js_restore_failed st \<or> any_session_profile_active st then PROFILE_UNBOUND else PROFILE_DEFAULT)
      | None \<Rightarrow>
          if (case truthy cid of Some c \<Rightarrow> c \<in> set (js_unbound st) | None \<Rightarrow> False) then PROFILE_UNBOUND
          else if js_restore_failed st \<and> \<not> js_global_assigned st then PROFILE_UNBOUND
          else js_profile st)"

definition namespace_for_profile :: "string \<Rightarrow> string option \<Rightarrow> string" where
  "namespace_for_profile pid root =
     (if pid = PROFILE_DEFAULT then PROFILE_DEFAULT
      else case truthy root of
        Some r \<Rightarrow> ''client:'' @ encode_uri_component r @ '':'' @ encode_uri_component pid
      | None \<Rightarrow> ''legacy:'' @ encode_uri_component pid)"

definition namespace_for_client :: "jar_state \<Rightarrow> string option \<Rightarrow> string" where
  "namespace_for_client st cid = namespace_for_profile (active_profile st cid) (root_of st cid)"

definition UNBOUND_GLOBAL_NAMESPACE :: string where
  "UNBOUND_GLOBAL_NAMESPACE = namespace_for_profile PROFILE_UNBOUND None"

text \<open>\<open>profileNameForNamespace\<close>\<close>

definition after_last :: "char \<Rightarrow> string \<Rightarrow> string" where
  "after_last c s = rev (takeWhile (\<lambda>x. x \<noteq> c) (rev s))"

definition profile_name_for_namespace :: "string \<Rightarrow> string" where
  "profile_name_for_namespace ns =
     (if ns = PROFILE_DEFAULT then PROFILE_DEFAULT
      else
        let client = starts_with ns ''client:'';
            rest = (if client then drop 7 ns else ns);
            value = (if client then after_last (CHR '':'') rest
                     else if starts_with rest ''legacy:'' then drop 7 rest else rest)
        in case decode_uri_component value of Some v \<Rightarrow> v | None \<Rightarrow> value)"

definition jar_key :: "string \<Rightarrow> string \<Rightarrow> string" where
  "jar_key origin_id ns = (if ns = PROFILE_DEFAULT then origin_id else ns @ SEP # origin_id)"

definition in_profile :: "string \<Rightarrow> string \<Rightarrow> bool" where
  "in_profile key ns \<longleftrightarrow>
     (if ns = PROFILE_DEFAULT then SEP \<notin> set key else starts_with key (ns @ [SEP]))"

definition clear_namespace :: "string \<Rightarrow> jar_state \<Rightarrow> jar_state" where
  "clear_namespace ns st =
     st\<lparr>js_jars := filter (\<lambda>(k, _). \<not> starts_with k (ns @ [SEP])) (js_jars st)\<rparr>"

section \<open>Restoring and changing profiles\<close>

definition valid_profile_name :: "string \<Rightarrow> bool" where
  "valid_profile_name v \<longleftrightarrow> 0 < length v \<and> length v \<le> 64 \<and> SEP \<notin> set v"

definition json_profile_name :: "json option \<Rightarrow> string option" where
  "json_profile_name j =
     (case j of Some (JStr v) \<Rightarrow> if valid_profile_name v then Some v else None | _ \<Rightarrow> None)"

text \<open>A valid snapshot: its global profile, its root profiles and its uncertain flag.\<close>

definition parse_snapshot :: "json \<Rightarrow> (string \<times> (string \<times> string) list \<times> bool) option" where
  "parse_snapshot j =
     (if \<not> jtruthy (Some j) \<or> \<not> (jget j ''v'' = None \<or> jget j ''v'' = Some (JNum 1)) then None
      else
        case (case jget j ''uncertain'' of None \<Rightarrow> Some False | Some (JBool b) \<Rightarrow> Some b | _ \<Rightarrow> None) of
          None \<Rightarrow> None
        | Some uncertain \<Rightarrow>
            (case (json_profile_name (jget j ''profile''), jget j ''roots'') of
               (Some p, Some (JObj roots)) \<Rightarrow>
                 if list_ex (\<lambda>(root, pid). root = [] \<or> json_profile_name (Some pid) = None) roots then None
                 else Some (p, map (\<lambda>(root, pid). (root, the (json_profile_name (Some pid)))) roots, uncertain)
             | _ \<Rightarrow> None))"

text \<open>What the profile store answers: an error, no record, or a record.\<close>

datatype stored_snapshot = StoreError | NoRecord | Record json

definition restore_jar_profiles :: "stored_snapshot \<Rightarrow> jar_state \<Rightarrow> jar_state" where
  "restore_jar_profiles r st =
     (case r of
        NoRecord \<Rightarrow> st
      | StoreError \<Rightarrow> st\<lparr>js_restore_failed := True\<rparr>
      | Record j \<Rightarrow>
          (case parse_snapshot j of
             None \<Rightarrow> st\<lparr>js_restore_failed := True\<rparr>
           | Some (p, roots, uncertain) \<Rightarrow>
               st\<lparr>js_restore_failed := js_restore_failed st \<or> uncertain,
                  js_profile := (if js_global_assigned st then js_profile st else p),
                  js_root_profiles :=
                    fold (\<lambda>(root, pid) m. if root \<in> set (js_assigned_roots st) then m else AList.update root pid m)
                      roots (js_root_profiles st)\<rparr>))"

definition nav_handle_token :: "platform \<Rightarrow> string option \<Rightarrow> string option" where
  "nav_handle_token pf route =
     (case truthy route of
        None \<Rightarrow> None
      | Some r \<Rightarrow>
          (case (if starts_with r ''/'' then Some (path_only r) else map_option url_pathname (new_url pf r)) of
             None \<Rightarrow> None
           | Some path \<Rightarrow>
               if starts_with path (NAVH @ ''/'') \<and> takeWhile (\<lambda>c. c \<noteq> CHR ''/'') (drop (length NAVH + 1) path) \<noteq> []
               then Some (takeWhile (\<lambda>c. c \<noteq> CHR ''/'') (drop (length NAVH + 1) path)) else None))"

definition register_jar_nav_handle ::
  "platform \<Rightarrow> int \<Rightarrow> string \<Rightarrow> string option \<Rightarrow> jar_state \<Rightarrow> jar_state" where
  "register_jar_nav_handle pf now route cid st =
     (case (truthy (case root_of st cid of Some r \<Rightarrow> Some r | None \<Rightarrow> cid), nav_handle_token pf (Some route)) of
        (Some root, Some token) \<Rightarrow>
          if \<not> omap_has (js_root_profiles st) root then st
          else st\<lparr>js_nav_roots :=
                    omap_trim 256 (AList.update token (root, now + 120000)
                      (filter (\<lambda>(_, _, exp). now < exp) (js_nav_roots st)))\<rparr>
      | _ \<Rightarrow> st)"

definition bind_client :: "string \<Rightarrow> string \<Rightarrow> jar_state \<Rightarrow> jar_state" where
  "bind_client cid root st =
     st\<lparr>js_client_roots := AList.update cid root (js_client_roots st), js_unbound := removeAll cid (js_unbound st)\<rparr>"

definition unbind_client :: "string \<Rightarrow> jar_state \<Rightarrow> jar_state" where
  "unbind_client cid st =
     st\<lparr>js_client_roots := AList.delete cid (js_client_roots st), js_unbound := removeAll cid (js_unbound st)\<rparr>"

definition inherit_jar_client ::
  "platform \<Rightarrow> codec \<Rightarrow> int \<Rightarrow> string option \<Rightarrow> string option \<Rightarrow> string option \<Rightarrow> jar_state
   \<Rightarrow> string option \<times> jar_state" where
  "inherit_jar_client pf cd now source resulting route st =
     (let token = nav_handle_token pf route;
          pending = (case token of Some t \<Rightarrow> map_of (js_nav_roots st) t | None \<Rightarrow> None);
          st1 = (case (token, pending) of
                   (Some t, Some _) \<Rightarrow> st\<lparr>js_nav_roots := AList.delete t (js_nav_roots st)\<rparr> | _ \<Rightarrow> st);
          root = (case root_of st1 source of
                    Some r \<Rightarrow> Some r
                  | None \<Rightarrow>
                      (case (case pending of
                               Some (r, exp) \<Rightarrow> if now < exp \<and> omap_has (js_root_profiles st1) r then Some r else None
                             | None \<Rightarrow> None) of
                         Some r \<Rightarrow> Some r
                       | None \<Rightarrow> (case token of Some t \<Rightarrow> decode_nav_handle_root pf cd t | None \<Rightarrow> None)));
          st2 = (case (truthy source, truthy root) of (Some s, Some r) \<Rightarrow> bind_client s r st1 | _ \<Rightarrow> st1);
          st3 = (case truthy resulting of
                   None \<Rightarrow> st2
                 | Some c \<Rightarrow> (case truthy root of Some r \<Rightarrow> bind_client c r st2 | None \<Rightarrow> unbind_client c st2))
      in (case root of Some r \<Rightarrow> Some r | None \<Rightarrow> source, st3))"

definition mark_jar_client_unbound :: "string option \<Rightarrow> jar_state \<Rightarrow> jar_state" where
  "mark_jar_client_unbound cid st =
     (case truthy cid of
        None \<Rightarrow> st
      | Some c \<Rightarrow>
          if truthy (root_of st cid) = None \<and> any_session_profile_active st
          then st\<lparr>js_unbound := List.insert c (js_unbound st)\<rparr> else st)"

text \<open>One entry of the loop over \<open>rootProfiles\<close>, and of the loop over \<open>clientRoots\<close>.\<close>

definition prune_root :: "string list \<Rightarrow> string list \<Rightarrow> string \<times> string \<Rightarrow> jar_state \<Rightarrow> jar_state" where
  "prune_root active live_roots entry st =
     (case entry of (root, pid) \<Rightarrow>
        if root \<notin> set active \<and> root \<notin> set live_roots then
          (let st' = st\<lparr>js_assigned_roots := List.insert root (js_assigned_roots st),
                        js_root_profiles := AList.delete root (js_root_profiles st)\<rparr>
           in if pid \<noteq> PROFILE_DEFAULT then clear_namespace (namespace_for_profile pid (Some root)) st' else st')
        else st)"

definition prune_client :: "string list \<Rightarrow> string \<times> string \<Rightarrow> jar_state \<Rightarrow> jar_state" where
  "prune_client active entry st =
     (case entry of (cid, root) \<Rightarrow>
        if cid \<notin> set active then st\<lparr>js_client_roots := AList.delete cid (js_client_roots st)\<rparr>
        else if \<not> omap_has (js_root_profiles st) root \<and> any_session_profile_active st then
          st\<lparr>js_client_roots := AList.delete cid (js_client_roots st), js_unbound := List.insert cid (js_unbound st)\<rparr>
        else st)"

definition prune_jar_clients :: "int \<Rightarrow> string list \<Rightarrow> jar_state \<Rightarrow> jar_state" where
  "prune_jar_clients now active st =
     (let live_roots = map snd (filter (\<lambda>(cid, _). cid \<in> set active) (js_client_roots st));
          st1 = fold (prune_root active live_roots) (js_root_profiles st) st;
          st2 = fold (prune_client active) (js_client_roots st1) st1;
          st3 = st2\<lparr>js_unbound := filter (\<lambda>cid. cid \<in> set active) (js_unbound st2)\<rparr>
      in st3\<lparr>js_nav_roots :=
           filter (\<lambda>(_, root, exp). now < exp \<and> omap_has (js_root_profiles st3) root) (js_nav_roots st3)\<rparr>)"

text \<open>\<open>zl:jarProfile\<close>: an invalid name means the default profile. The profile in force is returned.\<close>

definition set_jar_profile :: "string option \<Rightarrow> string option \<Rightarrow> jar_state \<Rightarrow> string \<times> jar_state" where
  "set_jar_profile p cid st =
     (let next = (case p of Some v \<Rightarrow> if valid_profile_name v then v else PROFILE_DEFAULT | None \<Rightarrow> PROFILE_DEFAULT)
      in case truthy cid of
           Some c \<Rightarrow>
             let root = (case root_of st cid of Some r \<Rightarrow> r | None \<Rightarrow> c);
                 prev = (case map_of (js_root_profiles st) root of Some q \<Rightarrow> q | None \<Rightarrow> PROFILE_DEFAULT);
                 st1 = st\<lparr>js_assigned_roots := List.insert root (js_assigned_roots st),
                          js_root_profiles := AList.update root next (js_root_profiles st),
                          js_client_roots := AList.update c root (js_client_roots st)\<rparr>
             in (next, if prev \<noteq> PROFILE_DEFAULT \<and> prev \<noteq> next
                       then clear_namespace (namespace_for_profile prev (Some root)) st1 else st1)
         | None \<Rightarrow>
             let prev = js_profile st;
                 st1 = st\<lparr>js_global_assigned := True\<rparr>;
                 st2 = (if prev \<noteq> PROFILE_DEFAULT \<and> prev \<noteq> next
                        then clear_namespace (namespace_for_profile prev None) st1 else st1)
             in (next, st2\<lparr>js_profile := next\<rparr>))"

definition jar_profile_state :: "string option \<Rightarrow> jar_state \<Rightarrow> string" where
  "jar_profile_state cid st = active_profile st cid"

definition jar_client_has_root :: "string option \<Rightarrow> jar_state \<Rightarrow> bool" where
  "jar_client_has_root cid st \<longleftrightarrow> truthy (root_of st cid) \<noteq> None"

end
