(* ===== verification/CookieJar.thy ===== *)
theory CookieJar
  imports CookieProfiles
begin

text \<open>
  Storage limits and admission of the jar (\<open>src/app/src/cookies.ts\<close>: \<open>sweepJarLimits\<close>,
  \<open>noteEvictions\<close>, \<open>admitCookie\<close>).

  A \<open>for\<close> loop over the jar that replaces or deletes the visited bucket is the list function
  \<open>filter_buckets\<close>. One operation reads the clock once. \<open>None\<close> as the result of an admission is the
  TypeError of \<open>registerOrigin\<close> on an origin the URL parser refuses.
\<close>

section \<open>The storage limits\<close>

definition COOKIE_MAX_BYTES :: nat where "COOKIE_MAX_BYTES = 4096"
definition COOKIE_MAX_PER_DOMAIN :: nat where "COOKIE_MAX_PER_DOMAIN = 50"
definition COOKIE_MAX_TOTAL :: nat where "COOKIE_MAX_TOTAL = 3000"

type_synonym jars = "(string, cookie list) omap"

definition eviction_key :: "cookie \<Rightarrow> int \<times> int" where
  "eviction_key c = (if ck_expires c = 0 then 9007199254740991 else ck_expires c, ck_created c)"

definition drop_from :: "string \<Rightarrow> cookie list \<Rightarrow> jars \<Rightarrow> jars" where
  "drop_from bucket doomed js =
     (if doomed = [] then js
      else
        let keep = filter (\<lambda>c. ck_ref c \<notin> set (map ck_ref doomed))
                     (case map_of js bucket of Some l \<Rightarrow> l | None \<Rightarrow> [])
        in if keep \<noteq> [] then AList.update bucket keep js else AList.delete bucket js)"

text \<open>Pass 1: drop what has expired.\<close>

definition expire_bucket ::
  "int \<Rightarrow> string \<Rightarrow> string \<times> cookie list \<Rightarrow> cookie list \<times> jars \<Rightarrow> cookie list \<times> jars" where
  "expire_bucket now ns bucket acc =
     (let (k, l) = bucket; (removed, js) = acc in
      if \<not> in_profile k ns then acc
      else
        let dead = filter (\<lambda>c. \<not> cookie_live now c) l in
        if dead = [] then acc else (removed @ dead, drop_from k dead js))"

definition sweep_expired :: "int \<Rightarrow> string \<Rightarrow> jars \<Rightarrow> cookie list \<times> jars" where
  "sweep_expired now ns js = fold (expire_bucket now ns) js ([], js)"

text \<open>The live cookies of a profile with their buckets, in iteration order, and grouped by domain.\<close>

definition profile_entries :: "string \<Rightarrow> jars \<Rightarrow> (string \<times> cookie) list" where
  "profile_entries ns js = concat (map (\<lambda>(k, l). if in_profile k ns then map (Pair k) l else []) js)"

definition collect_live :: "int \<Rightarrow> string \<Rightarrow> jars \<Rightarrow> (string, (string \<times> cookie) list) omap" where
  "collect_live now ns js =
     group_by (\<lambda>(_, c). ck_domain c) (filter (\<lambda>(_, c). cookie_live now c) (profile_entries ns js))"

definition evict ::
  "(cookie \<Rightarrow> bool) \<Rightarrow> (string \<times> cookie) list \<Rightarrow> nat \<Rightarrow> cookie list \<times> jars \<Rightarrow> cookie list \<times> jars" where
  "evict protect entries excess acc =
     (let candidates = sort_key (\<lambda>(_, c). eviction_key c) (filter (\<lambda>(_, c). \<not> protect c) entries);
          doomed = take excess candidates;
          per_bucket = group_by fst doomed
      in (fst acc @ map snd doomed, fold (\<lambda>(k, l). drop_from k (map snd l)) per_bucket (snd acc)))"

text \<open>Pass 2 on one domain: overflow evicts inside that domain only.\<close>

definition cap_domain ::
  "(cookie \<Rightarrow> bool) \<Rightarrow> string \<times> (string \<times> cookie) list \<Rightarrow> cookie list \<times> jars \<Rightarrow> cookie list \<times> jars" where
  "cap_domain protect grp acc =
     (if COOKIE_MAX_PER_DOMAIN < length (snd grp)
      then evict protect (snd grp) (length (snd grp) - COOKIE_MAX_PER_DOMAIN) acc else acc)"

definition sweep_jar_limits :: "int \<Rightarrow> string \<Rightarrow> (cookie \<Rightarrow> bool) \<Rightarrow> jars \<Rightarrow> cookie list \<times> jars" where
  "sweep_jar_limits now ns protect js =
     (let acc1 = sweep_expired now ns js;
          acc2 = fold (cap_domain protect) (collect_live now ns (snd acc1)) acc1;
          all = concat (map snd (collect_live now ns (snd acc2)))
      in if COOKIE_MAX_TOTAL < length all then evict protect all (length all - COOKIE_MAX_TOTAL) acc2 else acc2)"

definition note_evictions :: "cookie list \<Rightarrow> string \<Rightarrow> jar_state \<Rightarrow> jar_state" where
  "note_evictions removed ns st =
     fold (\<lambda>c. note_jar_change \<lparr>sr_name = ck_name c, sr_stored = False, sr_deleted = True, sr_rejected = None,
            sr_cookie = Some c, sr_replaced = Some True, sr_namespace = Some ns\<rparr> [] False) removed st"

section \<open>Admission\<close>

definition plain_result :: "string \<Rightarrow> string option \<Rightarrow> set_cookie_result" where
  "plain_result name rejected = \<lparr>sr_name = name, sr_stored = False, sr_deleted = False,
     sr_rejected = rejected, sr_cookie = None, sr_replaced = None, sr_namespace = None\<rparr>"

definition has_ctl :: "string \<Rightarrow> bool" where
  "has_ctl s \<longleftrightarrow> list_ex is_ctl s"

text \<open>The refusals between parsing and the clock, in the order of the code.\<close>

definition admission_refusal :: "platform \<Rightarrow> parsed_url \<Rightarrow> string \<Rightarrow> cookie_attrs \<Rightarrow> string option" where
  "admission_refusal pf u name a =
     (let domain = (if at_domain a = [] then pu_host u else at_domain a);
          path = (if at_path a = [] then default_path (pu_path u) else at_path a)
      in if at_same_site a = Some SSNone \<and> \<not> at_secure a then Some ''samesite none without secure''
         else if at_secure a \<and> \<not> is_secure_origin u then Some ''secure from insecure origin''
         else if \<not> at_host_only a \<and>
              (is_public_suffix pf domain \<or> \<not> domain_match (pu_host u) domain
               \<or> (CHR ''.'' \<notin> set domain \<and> domain \<noteq> pu_host u)) then Some ''domain''
         else if (starts_with name ''__Secure-'' \<or> starts_with name ''__Host-'') \<and> \<not> at_secure a
         then Some ''prefix requires secure''
         else if starts_with name ''__Host-'' \<and> (\<not> at_host_only a \<or> path \<noteq> ''/'')
         then Some ''__Host- requires host-only and path /''
         else None)"

text \<open>Filtering every bucket of a profile, empty buckets deleted.\<close>

definition filter_buckets :: "(string \<Rightarrow> bool) \<Rightarrow> (cookie \<Rightarrow> bool) \<Rightarrow> jars \<Rightarrow> jars" where
  "filter_buckets sel P js =
     concat (map (\<lambda>(k, l).
        if \<not> sel k then [(k, l)]
        else
          let kept = filter P l in
          if length kept = length l then [(k, l)] else if kept = [] then [] else [(k, kept)]) js)"

definition older :: "cookie \<Rightarrow> cookie \<Rightarrow> bool" where
  "older x y \<longleftrightarrow> ck_created x < ck_created y"

text \<open>Every occurrence of an identity in a profile: bucket, index and cookie.\<close>

definition occurrences :: "string \<Rightarrow> string \<times> string \<times> bool \<times> string \<Rightarrow> jars \<Rightarrow> (string \<times> nat \<times> cookie) list" where
  "occurrences ns i js =
     concat (map (\<lambda>(k, l). if in_profile k ns
        then map (\<lambda>(n, c). (k, n, c)) (filter (\<lambda>(n, c). cookie_id c = i) (enumerate 0 l)) else []) js)"

definition delete_identity ::
  "string \<Rightarrow> string \<Rightarrow> bool \<Rightarrow> string \<Rightarrow> string \<times> string \<times> bool \<times> string \<Rightarrow> jar_state \<Rightarrow> set_cookie_result \<times> jar_state" where
  "delete_identity url name from_script ns i st =
     (let goes = (\<lambda>c. cookie_id c = i \<and> \<not> (from_script \<and> ck_http_only c));
          removed = filter goes (map snd (profile_entries ns (js_jars st)));
          st1 = st\<lparr>js_jars := filter_buckets (\<lambda>k. in_profile k ns) (\<lambda>c. \<not> goes c) (js_jars st)\<rparr>
      in if removed = [] then (plain_result name None, st1)
         else
           let result = \<lparr>sr_name = name, sr_stored = False, sr_deleted = True, sr_rejected = None,
                         sr_cookie = pick older removed, sr_replaced = Some True, sr_namespace = Some ns\<rparr>
           in (result, note_jar_change result url from_script (schedule_persist st1)))"

text \<open>Where a stored cookie goes: over the copy found, after collapsing the copies in other buckets, or at
  the end of the bucket of the response origin.\<close>

definition place_cookie :: "string \<Rightarrow> string \<Rightarrow> (string \<times> nat) option \<Rightarrow> cookie \<Rightarrow> jars \<Rightarrow> jars" where
  "place_cookie ns key target fresh js =
     (case target of
        Some (k, n) \<Rightarrow>
          let js' = filter_buckets (\<lambda>k'. in_profile k' ns \<and> k' \<noteq> k) (\<lambda>c. cookie_id c \<noteq> cookie_id fresh) js
          in AList.update k ((case map_of js' k of Some l \<Rightarrow> l | None \<Rightarrow> [])[n := fresh]) js'
      | None \<Rightarrow> AList.update key ((case map_of js key of Some l \<Rightarrow> l | None \<Rightarrow> []) @ [fresh]) js)"

text \<open>Storing a cookie: replace the earliest copy of its identity in the profile, or append.\<close>

definition store_cookie ::
  "int \<Rightarrow> string \<Rightarrow> bool \<Rightarrow> string \<Rightarrow> string \<Rightarrow> cookie \<Rightarrow> jar_state \<Rightarrow> set_cookie_result \<times> jar_state" where
  "store_cookie now url from_script ns key proto st =
     (let i = cookie_id proto;
          existing = pick (\<lambda>(_, _, x) (_, _, y). older x y) (occurrences ns i (js_jars st))
      in if from_script \<and> (case existing of Some (_, _, c) \<Rightarrow> ck_http_only c | None \<Rightarrow> False)
         then (plain_result (ck_name proto) (Some ''httponly''), st)
         else
           let fresh = proto\<lparr>ck_created := (case existing of Some (_, _, c) \<Rightarrow> ck_created c | None \<Rightarrow> now),
                             ck_ref := js_next_ref st\<rparr>;
               stored = place_cookie ns key (map_option (\<lambda>(k, n, _). (k, n)) existing) fresh (js_jars st);
               (removed, swept) = sweep_jar_limits now ns (\<lambda>c. ck_ref c = ck_ref fresh) stored;
               st1 = schedule_persist (note_evictions removed ns (st\<lparr>js_jars := swept, js_next_ref := Suc (js_next_ref st)\<rparr>));
               result = \<lparr>sr_name = ck_name proto, sr_stored = True, sr_deleted = False, sr_rejected = None,
                         sr_cookie = Some fresh, sr_replaced = Some (existing \<noteq> None), sr_namespace = Some ns\<rparr>
           in (result, note_jar_change result url from_script st1))"

definition admit_cookie ::
  "platform \<Rightarrow> codec \<Rightarrow> int \<Rightarrow> string \<Rightarrow> string \<Rightarrow> bool \<Rightarrow> string \<Rightarrow> jar_state
   \<Rightarrow> (set_cookie_result \<times> jar_state) option" where
  "admit_cookie pf cd now url header from_script ns st =
     (let (pair, rest) = cut_at (CHR '';'') header in
      case (parse_pair pair, parse_url pf url) of
        (Some (name, val), Some u) \<Rightarrow>
          if has_ctl name \<or> has_ctl val then Some (plain_result [] (Some ''control character''), st)
          else
            let a = parse_attrs (case rest of Some r \<Rightarrow> r | None \<Rightarrow> []);
                domain = (if at_domain a = [] then pu_host u else at_domain a);
                path = (if at_path a = [] then default_path (pu_path u) else at_path a)
            in (case admission_refusal pf u name a of
                  Some reason \<Rightarrow> Some (plain_result name (Some reason), st)
                | None \<Rightarrow>
                    let deletion = (case at_max_age a of Some m \<Rightarrow> m \<le> 0 | None \<Rightarrow> at_has_expires a \<and> at_expires a \<le> now);
                        expiry = (case at_max_age a of Some m \<Rightarrow> now + m * 1000 | None \<Rightarrow> at_expires a)
                    in if \<not> deletion \<and> COOKIE_MAX_BYTES < cookie_byte_size name val
                       then Some (plain_result name (Some ''size''), st)
                       else
                         (case register_origin pf cd (pu_origin u) st of
                            None \<Rightarrow> None
                          | Some (vo, st1) \<Rightarrow>
                              if deletion
                              then Some (delete_identity url name from_script ns (name, domain, at_host_only a, path) st1)
                              else Some (store_cookie now url from_script ns (jar_key (vo_id vo) ns)
                                     \<lparr>ck_name = name, ck_value = val, ck_domain = domain, ck_host_only = at_host_only a,
                                      ck_path = path, ck_secure = at_secure a, ck_http_only = at_http_only a,
                                      ck_same_site = at_same_site a, ck_expires = expiry, ck_created = now, ck_ref = 0\<rparr>
                                     st1)))
      | _ \<Rightarrow> Some (plain_result [] (Some ''malformed''), st))"

section \<open>Lemmas on buckets\<close>

lemma profile_entries_Nil [simp]: "profile_entries ns [] = []"
  by (simp add: profile_entries_def)

lemma profile_entries_Cons [simp]:
  "profile_entries ns ((k, l) # js) = (if in_profile k ns then map (Pair k) l else []) @ profile_entries ns js"
  by (simp add: profile_entries_def)

lemma profile_entries_append [simp]:
  "profile_entries ns (js @ js') = profile_entries ns js @ profile_entries ns js'"
  by (simp add: profile_entries_def)

lemma profile_entries_in: "(k, c) \<in> set (profile_entries ns js) \<longleftrightarrow> in_profile k ns \<and> (\<exists>l. (k, l) \<in> set js \<and> c \<in> set l)"
  by (induction js) auto

lemma profile_entries_key: "(k, c) \<in> set (profile_entries ns js) \<Longrightarrow> k \<in> fst ` set js"
  by (auto simp: profile_entries_in intro: rev_image_eqI)

lemma profile_entries_delete:
  "profile_entries ns (AList.delete k js) = filter (\<lambda>(k', _). k' \<noteq> k) (profile_entries ns js)"
  by (induction js) (auto simp: AList.delete_eq filter_map comp_def filter_empty_conv)

lemma profile_entries_update:
  assumes "omap_wf js" "map_of js k = Some l"
  shows "profile_entries ns (AList.update k (filter P l) js)
    = filter (\<lambda>(k', c). k' \<noteq> k \<or> P c) (profile_entries ns js)"
  using assms
proof (induction js)
  case (Cons e js)
  obtain k' l' where e: "e = (k', l')" by (cases e)
  have other: "filter (\<lambda>(k', c). k' \<noteq> k \<or> P c) (profile_entries ns js) = profile_entries ns js"
    if "k \<notin> fst ` set js"
  proof -
    have "k' \<noteq> k" if "(k', c) \<in> set (profile_entries ns js)" for k' c
      using profile_entries_key [OF that] \<open>k \<notin> fst ` set js\<close> by blast
    then show ?thesis by (auto simp: filter_id_conv)
  qed
  show ?case
  proof (cases "k' = k")
    case True
    with Cons e have "k \<notin> fst ` set js" "l' = l" by (auto simp: omap_wf_def)
    with True e other show ?thesis by (simp add: filter_map comp_def)
  next
    case False
    with Cons e show ?thesis by (auto simp: omap_wf_def filter_map comp_def)
  qed
qed simp

lemma omap_wf_drop_from [simp]: "omap_wf js \<Longrightarrow> omap_wf (drop_from k d js)"
  by (simp add: drop_from_def Let_def)

lemma profile_entries_drop_from:
  assumes "omap_wf js"
  shows "profile_entries ns (drop_from k d js)
    = filter (\<lambda>(k', c). \<not> (k' = k \<and> ck_ref c \<in> ck_ref ` set d)) (profile_entries ns js)"
proof -
  let ?P = "\<lambda>c. ck_ref c \<notin> set (map ck_ref d)"
  show ?thesis
  proof (cases "map_of js k")
    case None
    then have "k' \<noteq> k" if "(k', c) \<in> set (profile_entries ns js)" for k' c
      using profile_entries_key [OF that] None by (auto simp: map_of_eq_None_iff)
    then have "filter (\<lambda>(k', c). \<not> (k' = k \<and> ck_ref c \<in> ck_ref ` set d)) (profile_entries ns js) = profile_entries ns js"
      "filter (\<lambda>(k', _). k' \<noteq> k) (profile_entries ns js) = profile_entries ns js"
      by (auto simp: filter_id_conv)
    with None show ?thesis by (simp add: drop_from_def profile_entries_delete)
  next
    case (Some l)
    show ?thesis
    proof (cases "d = [] \<or> filter ?P l \<noteq> []")
      case True
      then show ?thesis
        using profile_entries_update [OF assms Some, of ns ?P] Some
        by (auto simp: drop_from_def Let_def filter_id_conv intro!: filter_cong)
    next
      case False
      then have gone: "drop_from k d js = AList.delete k js" by (simp add: drop_from_def Some)
      have "ck_ref c \<in> ck_ref ` set d" if "(k, c) \<in> set (profile_entries ns js)" for c
      proof -
        from that obtain l' where "(k, l') \<in> set js" "c \<in> set l'" by (auto simp: profile_entries_in)
        moreover from this(1) have "l' = l" using Some assms by (simp add: omap_wf_def map_of_is_SomeI)
        ultimately show ?thesis using False by (auto simp: filter_empty_conv)
      qed
      then show ?thesis unfolding gone profile_entries_delete by (intro filter_cong) auto
    qed
  qed
qed

lemma drop_from_other: "k' \<noteq> k \<Longrightarrow> map_of (drop_from k d js) k' = map_of js k'"
  by (simp add: drop_from_def Let_def)

section \<open>The sweep keeps the limits\<close>

text \<open>No two cookies of a profile are one object.\<close>

definition refs_distinct :: "(string \<times> cookie) list \<Rightarrow> bool" where
  "refs_distinct es \<longleftrightarrow> distinct (map (ck_ref \<circ> snd) es)"

lemma refs_distinct_filter: "refs_distinct es \<Longrightarrow> refs_distinct (filter P es)"
  by (simp add: refs_distinct_def distinct_map_filter)

lemma refs_distinct_eq:
  "refs_distinct es \<Longrightarrow> x \<in> set es \<Longrightarrow> y \<in> set es \<Longrightarrow> ck_ref (snd x) = ck_ref (snd y) \<Longrightarrow> x = y"
  by (auto simp: refs_distinct_def distinct_map dest!: inj_onD [of "ck_ref \<circ> snd" "set es" x y])

text \<open>The buckets of the other profiles.\<close>

definition others :: "string \<Rightarrow> jars \<Rightarrow> jars" where
  "others ns js = filter (\<lambda>e. \<not> in_profile (fst e) ns) js"

lemma others_update [simp]: "in_profile k ns \<Longrightarrow> others ns (AList.update k l js) = others ns js"
  by (induction js) (auto simp: others_def)

lemma others_delete [simp]: "in_profile k ns \<Longrightarrow> others ns (AList.delete k js) = others ns js"
  by (auto simp: others_def AList.delete_eq filter_filter intro!: filter_cong)

lemma others_drop_from [simp]: "in_profile k ns \<Longrightarrow> others ns (drop_from k d js) = others ns js"
  by (simp add: drop_from_def Let_def)

lemma profile_entries_others:
  "(\<And>k. in_profile k ns' \<Longrightarrow> \<not> in_profile k ns) \<Longrightarrow>
   others ns js' = others ns js \<Longrightarrow> profile_entries ns' js' = profile_entries ns' js"
proof -
  assume disj: "\<And>k. in_profile k ns' \<Longrightarrow> \<not> in_profile k ns"
  have "profile_entries ns' x = profile_entries ns' (others ns x)" for x
    by (induction x) (auto simp: others_def dest: disj)
  then show "others ns js' = others ns js \<Longrightarrow> profile_entries ns' js' = profile_entries ns' js" by metis
qed

text \<open>What one step of the sweep does to a profile: it removes the listed cookies and nothing else.\<close>

definition sweeps :: "string \<Rightarrow> cookie list \<times> jars \<Rightarrow> cookie list \<times> jars \<Rightarrow> bool" where
  "sweeps ns a b \<longleftrightarrow>
     omap_wf (snd b) \<and> others ns (snd b) = others ns (snd a) \<and>
     (\<exists>gone. fst b = fst a @ gone \<and> set gone \<subseteq> snd ` set (profile_entries ns (snd a)) \<and>
       profile_entries ns (snd b) =
         filter (\<lambda>(_, c). ck_ref c \<notin> ck_ref ` set gone) (profile_entries ns (snd a)))"

lemma sweeps_refl: "omap_wf (snd a) \<Longrightarrow> sweeps ns a a"
  by (auto simp: sweeps_def filter_id_conv intro!: exI [of _ "[]"])

lemma sweeps_trans:
  assumes "sweeps ns a b" "sweeps ns b c"
  shows "sweeps ns a c"
proof -
  from assms obtain g h where g: "fst b = fst a @ g" "set g \<subseteq> snd ` set (profile_entries ns (snd a))"
      "profile_entries ns (snd b) = filter (\<lambda>(_, c). ck_ref c \<notin> ck_ref ` set g) (profile_entries ns (snd a))"
    and h: "fst c = fst b @ h" "set h \<subseteq> snd ` set (profile_entries ns (snd b))"
      "profile_entries ns (snd c) = filter (\<lambda>(_, c). ck_ref c \<notin> ck_ref ` set h) (profile_entries ns (snd b))"
    by (auto simp: sweeps_def)
  have "set h \<subseteq> snd ` set (profile_entries ns (snd a))" using h(2) unfolding g(3) by auto
  moreover have "profile_entries ns (snd c)
      = filter (\<lambda>(_, c). ck_ref c \<notin> ck_ref ` set (g @ h)) (profile_entries ns (snd a))"
    unfolding h(3) g(3) filter_filter by (rule filter_cong) auto
  ultimately show ?thesis
    using assms g(1,2) h(1) by (auto simp: sweeps_def intro!: exI [of _ "g @ h"])
qed

lemma sweeps_refs: "sweeps ns a b \<Longrightarrow> refs_distinct (profile_entries ns (snd a)) \<Longrightarrow> refs_distinct (profile_entries ns (snd b))"
  by (auto simp: sweeps_def refs_distinct_filter)

lemma fold_drop_from:
  assumes "omap_wf js"
  shows "omap_wf (fold (\<lambda>(k, l). drop_from k (map snd l)) gs js) \<and>
    ((\<forall>k \<in> fst ` set gs. in_profile k ns) \<longrightarrow>
      others ns (fold (\<lambda>(k, l). drop_from k (map snd l)) gs js) = others ns js) \<and>
    profile_entries ns (fold (\<lambda>(k, l). drop_from k (map snd l)) gs js) =
      filter (\<lambda>(k, c). \<not> (\<exists>l. (k, l) \<in> set gs \<and> ck_ref c \<in> ck_ref ` snd ` set l)) (profile_entries ns js)"
  using assms
proof (induction gs arbitrary: js)
  case (Cons g gs)
  obtain k l where g: "g = (k, l)" by (cases g)
  have wf: "omap_wf (drop_from k (map snd l) js)" using Cons.prems by simp
  show ?case
    using Cons.IH [OF wf] profile_entries_drop_from [OF Cons.prems, of ns k "map snd l"]
    by (auto simp: g intro!: filter_cong)
qed simp

text \<open>The cookies an eviction picks: the first \<open>n\<close> of the unprotected ones in eviction order.\<close>

definition victims :: "(cookie \<Rightarrow> bool) \<Rightarrow> (string \<times> cookie) list \<Rightarrow> nat \<Rightarrow> (string \<times> cookie) list" where
  "victims protect entries n =
     take n (sort_key (\<lambda>(_, c). eviction_key c) (filter (\<lambda>(_, c). \<not> protect c) entries))"

lemma victims_subset: "set (victims protect entries n) \<subseteq> {e \<in> set entries. \<not> protect (snd e)}"
  by (auto simp: victims_def dest!: in_set_takeD)

lemma distinct_victims: "distinct entries \<Longrightarrow> distinct (victims protect entries n)"
  by (simp add: victims_def)

lemma length_victims:
  "length (victims protect entries n) = min n (length (filter (\<lambda>e. \<not> protect (snd e)) entries))"
  by (simp add: victims_def min.commute case_prod_unfold)

lemma evict_entries:
  assumes "omap_wf (snd acc)" "refs_distinct (profile_entries ns (snd acc))"
    "set entries \<subseteq> set (profile_entries ns (snd acc))"
  shows "sweeps ns acc (evict protect entries n acc)"
    and "profile_entries ns (snd (evict protect entries n acc))
      = filter (\<lambda>e. e \<notin> set (victims protect entries n)) (profile_entries ns (snd acc))"
proof -
  let ?v = "victims protect entries n" and ?js = "snd acc"
  have v: "set ?v \<subseteq> set (profile_entries ns ?js)" using victims_subset assms(3) by blast
  have ev: "evict protect entries n acc
      = (fst acc @ map snd ?v, fold (\<lambda>(k, l). drop_from k (map snd l)) (group_by fst ?v) ?js)"
    by (simp add: evict_def victims_def Let_def)
  note f = fold_drop_from [OF assms(1), of "group_by fst ?v" ns]
  have hit: "(\<exists>l. (k, l) \<in> set (group_by fst ?v) \<and> ck_ref c \<in> ck_ref ` snd ` set l) \<longleftrightarrow> (k, c) \<in> set ?v"
    if kc: "(k, c) \<in> set (profile_entries ns ?js)" for k c
  proof
    assume "\<exists>l. (k, l) \<in> set (group_by fst ?v) \<and> ck_ref c \<in> ck_ref ` snd ` set l"
    then obtain l e where "(k, l) \<in> set (group_by fst ?v)" "e \<in> set l" "ck_ref (snd e) = ck_ref c" by auto
    then have e: "e \<in> set ?v" "ck_ref (snd e) = ck_ref (snd (k, c))"
      using group_by_entries [of k l fst ?v] by auto
    then have "e = (k, c)" using refs_distinct_eq [OF assms(2)] v kc by blast
    with e show "(k, c) \<in> set ?v" by simp
  next
    assume vk: "(k, c) \<in> set ?v"
    then have "map_of (group_by fst ?v) k = Some (filter (\<lambda>x. fst x = k) ?v)"
      by (force simp: map_of_group_by filter_empty_conv)
    then have "(k, filter (\<lambda>x. fst x = k) ?v) \<in> set (group_by fst ?v)" by (rule map_of_SomeD)
    with vk show "\<exists>l. (k, l) \<in> set (group_by fst ?v) \<and> ck_ref c \<in> ck_ref ` snd ` set l" by force
  qed
  have entries: "profile_entries ns (snd (evict protect entries n acc))
      = filter (\<lambda>e. e \<notin> set ?v) (profile_entries ns ?js)"
  proof -
    have "profile_entries ns (snd (evict protect entries n acc))
        = filter (\<lambda>(k, c). \<not> (\<exists>l. (k, l) \<in> set (group_by fst ?v) \<and> ck_ref c \<in> ck_ref ` snd ` set l))
            (profile_entries ns ?js)"
      using f by (simp add: ev)
    also have "\<dots> = filter (\<lambda>e. e \<notin> set ?v) (profile_entries ns ?js)"
    proof (rule filter_cong [OF refl])
      fix e
      assume "e \<in> set (profile_entries ns ?js)"
      then have "(\<exists>l. (fst e, l) \<in> set (group_by fst ?v) \<and> ck_ref (snd e) \<in> ck_ref ` snd ` set l) \<longleftrightarrow> e \<in> set ?v"
        using hit [of "fst e" "snd e"] by simp
      then show "(case e of (k, c) \<Rightarrow> \<not> (\<exists>l. (k, l) \<in> set (group_by fst ?v) \<and> ck_ref c \<in> ck_ref ` snd ` set l))
          \<longleftrightarrow> e \<notin> set ?v"
        unfolding case_prod_unfold by blast
    qed
    finally show ?thesis .
  qed
  then show "profile_entries ns (snd (evict protect entries n acc))
      = filter (\<lambda>e. e \<notin> set ?v) (profile_entries ns ?js)" .
  have "e \<in> set ?v \<longleftrightarrow> ck_ref (snd e) \<in> ck_ref ` set (map snd ?v)" if "e \<in> set (profile_entries ns ?js)" for e
    using refs_distinct_eq [OF assms(2) that] v by (auto simp: image_iff)
  then have "profile_entries ns (snd (evict protect entries n acc))
      = filter (\<lambda>(_, c). ck_ref c \<notin> ck_ref ` set (map snd ?v)) (profile_entries ns ?js)"
    unfolding entries by (intro filter_cong) (auto split: prod.splits)
  moreover have "others ns (snd (evict protect entries n acc)) = others ns ?js"
  proof -
    have "\<forall>k \<in> fst ` set (group_by fst ?v). in_profile k ns"
      using v by (auto simp: group_by_keys profile_entries_in)
    then show ?thesis using f by (simp add: ev)
  qed
  ultimately show "sweeps ns acc (evict protect entries n acc)"
    using f v by (auto simp: sweeps_def ev intro!: exI [of _ "map snd ?v"])
qed

text \<open>Counting what is left of a class of cookies after an eviction inside it.\<close>

lemma count_after_evict:
  assumes "distinct es" "length (filter (\<lambda>e. protect (snd e)) es) \<le> cap"
  shows "length (filter (\<lambda>e. e \<notin> set (victims protect es (length es - cap))) es) \<le> cap"
proof -
  let ?v = "victims protect es (length es - cap)"
  have "length (filter (\<lambda>e. e \<in> set ?v) es) = card (set ?v)"
    using assms(1) victims_subset [of protect es "length es - cap"]
    by (subst distinct_card [symmetric]) (auto intro!: arg_cong [where f = card])
  also have "\<dots> = length ?v" using distinct_victims [OF assms(1)] by (simp add: distinct_card)
  also have "\<dots> = min (length es - cap) (length (filter (\<lambda>e. \<not> protect (snd e)) es))"
    by (rule length_victims)
  finally show ?thesis
    using sum_length_filter_compl [of "\<lambda>e. e \<in> set ?v" es]
      sum_length_filter_compl [of "\<lambda>e. protect (snd e)" es] assms(2) by linarith
qed

lemma profile_entries_bucket:
  "map_of js k = Some l \<Longrightarrow> omap_wf js \<Longrightarrow> in_profile k ns \<Longrightarrow>
   (k, c) \<in> set (profile_entries ns js) \<longleftrightarrow> c \<in> set l"
proof -
  assume a: "map_of js k = Some l" "omap_wf js" "in_profile k ns"
  have "l' = l" if "(k, l') \<in> set js" for l'
    using that a by (simp add: omap_wf_def map_of_is_SomeI)
  with a show "(k, c) \<in> set (profile_entries ns js) \<longleftrightarrow> c \<in> set l"
    by (auto simp: profile_entries_in dest: map_of_SomeD)
qed

lemma drop_from_sweeps:
  assumes "omap_wf js" "refs_distinct (profile_entries ns js)" "in_profile k ns" "map_of js k = Some l"
  shows "sweeps ns (r, js) (r @ filter Q l, drop_from k (filter Q l) js)"
    and "profile_entries ns (drop_from k (filter Q l) js)
      = filter (\<lambda>(k', c). \<not> (k' = k \<and> Q c)) (profile_entries ns js)"
proof -
  let ?d = "filter Q l"
  have mem: "(k, c) \<in> set (profile_entries ns js) \<longleftrightarrow> c \<in> set l" for c
    using assms by (simp add: profile_entries_bucket)
  have hit: "ck_ref c \<in> ck_ref ` set ?d \<longleftrightarrow> k' = k \<and> Q c" if "(k', c) \<in> set (profile_entries ns js)" for k' c
  proof
    assume "ck_ref c \<in> ck_ref ` set ?d"
    then obtain c' where c': "c' \<in> set l" "Q c'" "ck_ref c' = ck_ref c" by auto
    then have "(k, c') = (k', c)"
      using refs_distinct_eq [OF assms(2), of "(k, c')" "(k', c)"] that mem by simp
    with c' show "k' = k \<and> Q c" by simp
  qed (use that mem in auto)
  have "profile_entries ns (drop_from k ?d js)
      = filter (\<lambda>(k', c). \<not> (k' = k \<and> ck_ref c \<in> ck_ref ` set ?d)) (profile_entries ns js)"
    by (rule profile_entries_drop_from [OF assms(1)])
  also have "\<dots> = filter (\<lambda>(k', c). \<not> (k' = k \<and> Q c)) (profile_entries ns js)"
    by (rule filter_cong) (use hit in auto)
  finally show entries: "profile_entries ns (drop_from k ?d js)
      = filter (\<lambda>(k', c). \<not> (k' = k \<and> Q c)) (profile_entries ns js)" .
  also have "\<dots> = filter (\<lambda>(_, c). ck_ref c \<notin> ck_ref ` set ?d) (profile_entries ns js)"
    by (rule filter_cong) (use hit in auto)
  finally show "sweeps ns (r, js) (r @ ?d, drop_from k ?d js)"
  proof -
    assume e: "profile_entries ns (drop_from k ?d js)
      = filter (\<lambda>(_, c). ck_ref c \<notin> ck_ref ` set ?d) (profile_entries ns js)"
    have "set ?d \<subseteq> snd ` set (profile_entries ns js)"
    proof
      fix c
      assume "c \<in> set ?d"
      then have "(k, c) \<in> set (profile_entries ns js)" using mem by simp
      then show "c \<in> snd ` set (profile_entries ns js)" by (rule rev_image_eqI) simp
    qed
    then show ?thesis using assms(1,3) e unfolding sweeps_def by auto
  qed
qed

lemma sweep_expired_loop:
  assumes "omap_wf (snd acc)" "refs_distinct (profile_entries ns (snd acc))"
    "\<forall>(k, l) \<in> set es. map_of (snd acc) k = Some l" "distinct (map fst es)"
  shows "sweeps ns acc (fold (expire_bucket now ns) es acc) \<and>
    profile_entries ns (snd (fold (expire_bucket now ns) es acc))
      = filter (\<lambda>(k, c). k \<in> fst ` set es \<longrightarrow> cookie_live now c) (profile_entries ns (snd acc))"
  using assms
proof (induction es arbitrary: acc)
  case Nil
  then show ?case by (simp add: sweeps_refl case_prod_unfold)
next
  case (Cons e es)
  obtain k l where e: "e = (k, l)" by (cases e)
  obtain r js where acc: "acc = (r, js)" by (cases acc)
  have l: "map_of js k = Some l" using Cons.prems(3) by (simp add: e acc)
  let ?dead = "filter (\<lambda>c. \<not> cookie_live now c) l" and ?acc' = "expire_bucket now ns e acc"
  have step: "sweeps ns acc ?acc' \<and> (\<forall>k'. k' \<noteq> k \<longrightarrow> map_of (snd ?acc') k' = map_of js k')
      \<and> profile_entries ns (snd ?acc') = filter (\<lambda>(k', c). k' = k \<longrightarrow> cookie_live now c) (profile_entries ns js)"
  proof (cases "in_profile k ns")
    case False
    then have "k' \<noteq> k" if "(k', c) \<in> set (profile_entries ns js)" for k' c
      using that by (auto simp: profile_entries_in)
    then have "filter (\<lambda>(k', c). k' = k \<longrightarrow> cookie_live now c) (profile_entries ns js) = profile_entries ns js"
      by (auto simp: filter_id_conv)
    with False Cons.prems(1) show ?thesis by (simp add: expire_bucket_def e acc sweeps_refl)
  next
    case True
    have st: "?acc' = (r @ ?dead, drop_from k ?dead js)"
      using True by (auto simp: expire_bucket_def e acc Let_def drop_from_def)
    show ?thesis
      using drop_from_sweeps(1) [OF _ _ True l, of r "\<lambda>c. \<not> cookie_live now c"]
        drop_from_sweeps(2) [OF _ _ True l, of "\<lambda>c. \<not> cookie_live now c"] Cons.prems(1,2)
      unfolding st [unfolded acc] acc by (auto simp: drop_from_other)
  qed
  have pre: "omap_wf (snd ?acc')" "refs_distinct (profile_entries ns (snd ?acc'))"
    using step sweeps_refs [OF conjunct1 [OF step] Cons.prems(2)] by (simp_all add: sweeps_def)
  have "map_of (snd ?acc') k' = Some l'" if "(k', l') \<in> set es" for k' l'
  proof -
    from that have "k' \<in> fst ` set es" by (rule rev_image_eqI) simp
    then have "k' \<noteq> k" using Cons.prems(4) by (auto simp: e)
    with step have "map_of (snd ?acc') k' = map_of js k'" by blast
    with that Cons.prems(3) show ?thesis by (auto simp: acc)
  qed
  then have IH: "sweeps ns ?acc' (fold (expire_bucket now ns) es ?acc') \<and>
      profile_entries ns (snd (fold (expire_bucket now ns) es ?acc'))
        = filter (\<lambda>(k, c). k \<in> fst ` set es \<longrightarrow> cookie_live now c) (profile_entries ns (snd ?acc'))"
    using Cons.IH [OF pre] Cons.prems(4) by (auto simp: e)
  have "filter (\<lambda>(k, c). k \<in> fst ` set es \<longrightarrow> cookie_live now c)
        (filter (\<lambda>(k', c). k' = k \<longrightarrow> cookie_live now c) (profile_entries ns js))
      = filter (\<lambda>(k', c). k' \<in> fst ` set (e # es) \<longrightarrow> cookie_live now c) (profile_entries ns js)"
    unfolding filter_filter by (rule filter_cong) (auto simp: e)
  moreover have "sweeps ns acc (fold (expire_bucket now ns) es ?acc')"
    using sweeps_trans [OF conjunct1 [OF step]] IH by blast
  ultimately show ?case using IH step by (simp add: acc)
qed

lemma sweep_expired_sweeps:
  assumes "omap_wf js" "refs_distinct (profile_entries ns js)"
  shows "sweeps ns ([], js) (sweep_expired now ns js)"
    and "profile_entries ns (snd (sweep_expired now ns js))
      = filter (\<lambda>(_, c). cookie_live now c) (profile_entries ns js)"
proof -
  have buckets: "\<forall>(k, l) \<in> set js. map_of (snd ([] :: cookie list, js)) k = Some l" "distinct (map fst js)"
    using assms(1) by (auto simp: omap_wf_def map_of_is_SomeI)
  note loop = sweep_expired_loop [where acc = "([], js)" and es = js and ns = ns and now = now, OF _ _ buckets]
  show "sweeps ns ([], js) (sweep_expired now ns js)"
    using loop assms by (simp add: sweep_expired_def)
  have "filter (\<lambda>(k, c). k \<in> fst ` set js \<longrightarrow> cookie_live now c) (profile_entries ns js)
      = filter (\<lambda>(_, c). cookie_live now c) (profile_entries ns js)"
    by (rule filter_cong) (auto dest: profile_entries_key)
  then show "profile_entries ns (snd (sweep_expired now ns js))
      = filter (\<lambda>(_, c). cookie_live now c) (profile_entries ns js)"
    using loop assms by (simp add: sweep_expired_def)
qed

text \<open>Pass 2: the groups are visited in turn; each ends within its cap and disturbs no other.\<close>

definition of_domain :: "string \<Rightarrow> (string \<times> cookie) list \<Rightarrow> (string \<times> cookie) list" where
  "of_domain d es = filter (\<lambda>e. ck_domain (snd e) = d) es"

lemma length_filter_conj: "length (filter (\<lambda>x. P x \<and> Q x) xs) \<le> length (filter Q xs)"
  by (induction xs) auto

lemma of_domain_filter: "of_domain d (filter P es) = filter P (of_domain d es)"
  by (auto simp: of_domain_def intro: filter_cong)

definition protected_kept :: "(cookie \<Rightarrow> bool) \<Rightarrow> (string \<times> cookie) list \<Rightarrow> (string \<times> cookie) list \<Rightarrow> bool" where
  "protected_kept protect es es' \<longleftrightarrow> filter (\<lambda>e. protect (snd e)) es' = filter (\<lambda>e. protect (snd e)) es"

lemma evict_protects:
  assumes "omap_wf (snd acc)" "refs_distinct (profile_entries ns (snd acc))"
    "set entries \<subseteq> set (profile_entries ns (snd acc))"
  shows "protected_kept protect (profile_entries ns (snd acc)) (profile_entries ns (snd (evict protect entries n acc)))"
proof -
  have "filter (\<lambda>e. protect (snd e)) (filter (\<lambda>e. e \<notin> set (victims protect entries n)) es)
      = filter (\<lambda>e. protect (snd e)) es" for es
    unfolding filter_filter by (rule filter_cong) (use victims_subset in auto)
  then show ?thesis unfolding protected_kept_def evict_entries(2) [OF assms] .
qed

lemma refs_distinct_distinct: "refs_distinct es \<Longrightarrow> distinct es"
  by (auto simp: refs_distinct_def distinct_map)

lemma cap_domain_step:
  assumes wf: "omap_wf (snd acc)" and refs: "refs_distinct (profile_entries ns (snd acc))"
    and es: "es = of_domain d (profile_entries ns (snd acc))"
    and prot: "length (filter (\<lambda>e. protect (snd e)) (profile_entries ns (snd acc))) \<le> COOKIE_MAX_PER_DOMAIN"
  shows "sweeps ns acc (cap_domain protect (d, es) acc)"
    and "protected_kept protect (profile_entries ns (snd acc)) (profile_entries ns (snd (cap_domain protect (d, es) acc)))"
    and "length (of_domain d (profile_entries ns (snd (cap_domain protect (d, es) acc)))) \<le> COOKIE_MAX_PER_DOMAIN"
    and "d' \<noteq> d \<Longrightarrow> of_domain d' (profile_entries ns (snd (cap_domain protect (d, es) acc)))
      = of_domain d' (profile_entries ns (snd acc))"
proof -
  let ?E = "profile_entries ns (snd acc)"
  have sub: "set es \<subseteq> set ?E" by (auto simp: es of_domain_def)
  have dist: "distinct es" using refs_distinct_distinct [OF refs] by (simp add: es of_domain_def)
  have "length (filter (\<lambda>e. protect (snd e)) es) \<le> length (filter (\<lambda>e. protect (snd e)) ?E)"
    unfolding es of_domain_def filter_filter by (rule length_filter_conj)
  with prot have prot': "length (filter (\<lambda>e. protect (snd e)) es) \<le> COOKIE_MAX_PER_DOMAIN" by linarith
  note ev = evict_entries [OF wf refs sub, of protect "length es - COOKIE_MAX_PER_DOMAIN"]
  show "sweeps ns acc (cap_domain protect (d, es) acc)"
    using ev(1) sweeps_refl [OF wf] by (simp add: cap_domain_def)
  show "protected_kept protect ?E (profile_entries ns (snd (cap_domain protect (d, es) acc)))"
    using evict_protects [OF wf refs sub] by (simp add: cap_domain_def protected_kept_def)
  show "length (of_domain d (profile_entries ns (snd (cap_domain protect (d, es) acc)))) \<le> COOKIE_MAX_PER_DOMAIN"
    using count_after_evict [OF dist prot']
    by (simp add: cap_domain_def ev(2) of_domain_filter es [symmetric])
  assume "d' \<noteq> d"
  then have "e \<notin> set (victims protect es n)" if "e \<in> set (of_domain d' ?E)" for e n
    using that victims_subset [of protect es n] by (auto simp: es of_domain_def)
  then show "of_domain d' (profile_entries ns (snd (cap_domain protect (d, es) acc))) = of_domain d' ?E"
    by (simp add: cap_domain_def ev(2) of_domain_filter filter_id_conv)
qed

lemma cap_domains:
  assumes "omap_wf (snd acc)" "refs_distinct (profile_entries ns (snd acc))" "distinct (map fst gs)"
    "\<forall>(d, es) \<in> set gs. es = of_domain d (profile_entries ns (snd acc))"
    "length (filter (\<lambda>e. protect (snd e)) (profile_entries ns (snd acc))) \<le> COOKIE_MAX_PER_DOMAIN"
  shows "sweeps ns acc (fold (cap_domain protect) gs acc) \<and>
    protected_kept protect (profile_entries ns (snd acc)) (profile_entries ns (snd (fold (cap_domain protect) gs acc))) \<and>
    (\<forall>d \<in> fst ` set gs. length (of_domain d (profile_entries ns (snd (fold (cap_domain protect) gs acc)))) \<le> COOKIE_MAX_PER_DOMAIN) \<and>
    (\<forall>d. d \<notin> fst ` set gs \<longrightarrow> of_domain d (profile_entries ns (snd (fold (cap_domain protect) gs acc)))
       = of_domain d (profile_entries ns (snd acc)))"
  using assms
proof (induction gs arbitrary: acc)
  case Nil
  then show ?case by (simp add: sweeps_refl protected_kept_def)
next
  case (Cons g gs)
  obtain d es where g: "g = (d, es)" by (cases g)
  let ?a = "cap_domain protect g acc"
  have es: "es = of_domain d (profile_entries ns (snd acc))" using Cons.prems(4) by (simp add: g)
  note step = cap_domain_step [OF Cons.prems(1,2) es Cons.prems(5), folded g]
  have pre: "omap_wf (snd ?a)" "refs_distinct (profile_entries ns (snd ?a))"
    using step(1) sweeps_refs [OF step(1) Cons.prems(2)] by (simp_all add: sweeps_def)
  have groups: "\<forall>(d', es') \<in> set gs. es' = of_domain d' (profile_entries ns (snd ?a))"
  proof clarify
    fix d' es'
    assume m: "(d', es') \<in> set gs"
    then have "d' \<in> fst ` set gs" by (rule rev_image_eqI) simp
    with Cons.prems(3) have "d' \<noteq> d" by (auto simp: g)
    with m step(4) Cons.prems(4) show "es' = of_domain d' (profile_entries ns (snd ?a))" by auto
  qed
  have prot: "length (filter (\<lambda>e. protect (snd e)) (profile_entries ns (snd ?a))) \<le> COOKIE_MAX_PER_DOMAIN"
    using step(2) Cons.prems(5) by (simp add: protected_kept_def)
  have dist: "distinct (map fst gs)" "d \<notin> fst ` set gs" using Cons.prems(3) by (simp_all add: g)
  note IH = Cons.IH [OF pre dist(1) groups prot]
  have "sweeps ns acc (fold (cap_domain protect) gs ?a)" using sweeps_trans [OF step(1)] IH by blast
  moreover have "length (of_domain d (profile_entries ns (snd (fold (cap_domain protect) gs ?a)))) \<le> COOKIE_MAX_PER_DOMAIN"
    using IH dist(2) step(3) by simp
  ultimately show ?case using IH step(2,4) by (auto simp: g protected_kept_def)
qed

lemma collect_all_live:
  assumes "\<forall>e \<in> set (profile_entries ns js). cookie_live now (snd e)"
  shows "collect_live now ns js = group_by (\<lambda>e. ck_domain (snd e)) (profile_entries ns js)"
proof -
  have "filter (\<lambda>(_, c). cookie_live now c) (profile_entries ns js) = profile_entries ns js"
    using assms by (auto simp: filter_id_conv)
  then show ?thesis by (simp add: collect_live_def case_prod_unfold)
qed

lemma sweep_limits:
  assumes wf: "omap_wf js" and refs: "refs_distinct (profile_entries ns js)"
    and one: "length (filter (\<lambda>e. protect (snd e)) (profile_entries ns js)) \<le> 1"
    and sweep: "sweep_jar_limits now ns protect js = (removed, js')"
  shows "sweeps ns ([], js) (removed, js')"
    and "\<forall>e \<in> set (profile_entries ns js'). cookie_live now (snd e)"
    and "\<forall>d. length (of_domain d (profile_entries ns js')) \<le> COOKIE_MAX_PER_DOMAIN"
    and "length (profile_entries ns js') \<le> COOKIE_MAX_TOTAL"
    and "filter (\<lambda>e. protect (snd e)) (profile_entries ns js')
      = filter (\<lambda>e. protect (snd e) \<and> cookie_live now (snd e)) (profile_entries ns js)"
proof -
  let ?E = "profile_entries ns"
  let ?a1 = "sweep_expired now ns js"
  let ?gs = "collect_live now ns (snd ?a1)"
  let ?a2 = "fold (cap_domain protect) ?gs ?a1"
  let ?all = "concat (map snd (collect_live now ns (snd ?a2)))"
  let ?a3 = "if COOKIE_MAX_TOTAL < length ?all then evict protect ?all (length ?all - COOKIE_MAX_TOTAL) ?a2 else ?a2"
  have res: "(removed, js') = ?a3" using sweep by (simp add: sweep_jar_limits_def Let_def)
  note exp = sweep_expired_sweeps [OF wf refs, of now]
  have live1: "\<forall>e \<in> set (?E (snd ?a1)). cookie_live now (snd e)" by (auto simp: exp(2))
  have pre1: "omap_wf (snd ?a1)" "refs_distinct (?E (snd ?a1))"
    using exp(1) refs by (auto simp: sweeps_def exp(2) refs_distinct_filter)
  note gs = collect_all_live [OF live1]
  have prot1: "length (filter (\<lambda>e. protect (snd e)) (?E (snd ?a1))) \<le> 1"
    using one length_filter_conj [of "\<lambda>e. cookie_live now (snd e)" "\<lambda>e. protect (snd e)" "?E js"]
    by (simp add: exp(2) case_prod_unfold conj_commute)
  have groups: "\<forall>(d, es) \<in> set ?gs. es = of_domain d (?E (snd ?a1))"
    unfolding gs of_domain_def using group_by_entries by fastforce
  have dist: "distinct (map fst ?gs)" unfolding gs using omap_wf_group_by by (simp add: omap_wf_def)
  have prot50: "length (filter (\<lambda>e. protect (snd e)) (?E (snd ?a1))) \<le> COOKIE_MAX_PER_DOMAIN"
    using prot1 by (simp add: COOKIE_MAX_PER_DOMAIN_def)
  note caps = cap_domains [OF pre1 dist groups prot50]
  have pre2: "omap_wf (snd ?a2)" "refs_distinct (?E (snd ?a2))"
    using caps sweeps_refs [OF conjunct1 [OF caps] pre1(2)] by (simp_all add: sweeps_def)
  have live2: "\<forall>e \<in> set (?E (snd ?a2)). cookie_live now (snd e)"
    using caps live1 by (auto simp: sweeps_def)
  have prot2: "filter (\<lambda>e. protect (snd e)) (?E (snd ?a2)) = filter (\<lambda>e. protect (snd e)) (?E (snd ?a1))"
    using caps by (simp add: protected_kept_def)
  have cap2: "length (of_domain d (?E (snd ?a2))) \<le> COOKIE_MAX_PER_DOMAIN" for d
  proof (cases "d \<in> fst ` set ?gs")
    case False
    then have "of_domain d (?E (snd ?a1)) = []"
      unfolding gs group_by_keys by (auto simp: of_domain_def filter_empty_conv)
    with False caps show ?thesis by auto
  qed (use caps in blast)
  have all: "mset ?all = mset (?E (snd ?a2))"
    unfolding collect_all_live [OF live2] by (rule mset_group_by)
  then have sub: "set ?all \<subseteq> set (?E (snd ?a2))" and len: "length ?all = length (?E (snd ?a2))"
    using mset_eq_setD [OF all] mset_eq_length [OF all] by simp_all
  have dist_all: "distinct ?all"
    using mset_eq_imp_distinct_iff [OF all] refs_distinct_distinct [OF pre2(2)] by blast
  note ev = evict_entries [OF pre2 sub, of protect "length ?all - COOKIE_MAX_TOTAL"]
    evict_protects [OF pre2 sub, of protect "length ?all - COOKIE_MAX_TOTAL"]
  have s3: "sweeps ns ?a2 ?a3" using ev(1) sweeps_refl [OF pre2(1)] by simp
  have E3: "\<exists>Q. ?E (snd ?a3) = filter Q (?E (snd ?a2))"
    using ev(2) by (auto intro: exI [of _ "\<lambda>_. True"])
  have prot3: "filter (\<lambda>e. protect (snd e)) (?E (snd ?a3)) = filter (\<lambda>e. protect (snd e)) (?E (snd ?a2))"
    using ev(3) by (simp add: protected_kept_def)
  have total: "length (?E (snd ?a3)) \<le> COOKIE_MAX_TOTAL"
  proof (cases "COOKIE_MAX_TOTAL < length ?all")
    case True
    have prot: "length (filter (\<lambda>e. protect (snd e)) ?all) \<le> COOKIE_MAX_TOTAL"
    proof -
      have "mset (filter (\<lambda>e. protect (snd e)) ?all) = mset (filter (\<lambda>e. protect (snd e)) (?E (snd ?a2)))"
        using all by simp
      from mset_eq_length [OF this] show ?thesis using prot1 prot2 by (simp add: COOKIE_MAX_TOTAL_def)
    qed
    let ?v = "victims protect ?all (length ?all - COOKIE_MAX_TOTAL)"
    have "mset (filter (\<lambda>e. e \<notin> set ?v) ?all) = mset (filter (\<lambda>e. e \<notin> set ?v) (?E (snd ?a2)))"
      using all by simp
    from mset_eq_length [OF this] count_after_evict [where protect = protect, OF dist_all prot]
    show ?thesis using True ev(2) by simp
  qed (simp add: len)
  have js': "js' = snd ?a3" "removed = fst ?a3" by (simp_all only: res [symmetric] snd_conv fst_conv)
  show "sweeps ns ([], js) (removed, js')"
    unfolding js' prod.collapse by (rule sweeps_trans [OF sweeps_trans [OF exp(1) conjunct1 [OF caps]] s3])
  show "\<forall>e \<in> set (?E js'). cookie_live now (snd e)" using E3 live2 unfolding js' by auto
  show "\<forall>d. length (of_domain d (?E js')) \<le> COOKIE_MAX_PER_DOMAIN"
  proof
    fix d
    obtain Q where "?E (snd ?a3) = filter Q (?E (snd ?a2))" using E3 by blast
    then have "length (of_domain d (?E js')) \<le> length (of_domain d (?E (snd ?a2)))"
      unfolding js' by (simp add: of_domain_filter)
    with cap2 [of d] show "length (of_domain d (?E js')) \<le> COOKIE_MAX_PER_DOMAIN" by linarith
  qed
  show "length (?E js') \<le> COOKIE_MAX_TOTAL" using total unfolding js' .
  show "filter (\<lambda>e. protect (snd e)) (?E js')
      = filter (\<lambda>e. protect (snd e) \<and> cookie_live now (snd e)) (?E js)"
    unfolding js' prot3 prot2 exp(2) by (simp add: case_prod_unfold conj_commute)
qed

end
