(* ===== verification/CookieAdmit.thy ===== *)
theory CookieAdmit
  imports CookieJar
begin

text \<open>
  What admission guarantees (\<open>admitCookie\<close> in \<open>src/app/src/cookies.ts\<close>): the invariant \<open>jar_ok\<close> of the
  jar (one cookie per identity and profile, cookies are distinct objects, origin ids carry no
  separator), its preservation, the storage limits, the admission gate, and the isolation of profiles.
\<close>

section \<open>Namespaces\<close>

lemma in_profile_unique:
  assumes "SEP \<notin> set ns" "SEP \<notin> set ns'" "in_profile k ns" "in_profile k ns'"
  shows "ns = ns'"
proof (cases "ns = PROFILE_DEFAULT \<or> ns' = PROFILE_DEFAULT")
  case True
  then show ?thesis using assms by (auto simp: in_profile_def starts_with_iff split: if_splits)
next
  case False
  obtain r where "k = ns @ SEP # r" using False assms(3) by (auto simp: in_profile_def starts_with_iff)
  moreover obtain r' where "k = ns' @ SEP # r'" using False assms(4) by (auto simp: in_profile_def starts_with_iff)
  ultimately show ?thesis using segment_unique [of ns SEP r ns' r'] assms(1,2) by simp
qed

lemma in_profile_jar_key: "SEP \<notin> set ns \<Longrightarrow> SEP \<notin> set i \<Longrightarrow> in_profile (jar_key i ns) ns"
  by (auto simp: in_profile_def jar_key_def starts_with_iff)

lemma profile_entries_elsewhere:
  assumes "SEP \<notin> set ns" "SEP \<notin> set ns'" "ns' \<noteq> ns" "others ns js' = others ns js"
  shows "profile_entries ns' js' = profile_entries ns' js"
  by (rule profile_entries_others [OF _ assms(4)]) (use in_profile_unique assms in blast)

text \<open>Percent encoding never yields a separator or a colon, and it can be undone.\<close>

lemma hex_digit_chars: "n < 16 \<Longrightarrow> hex_digit n \<in> set ''0123456789ABCDEF''"
  unfolding hex_digit_def by (rule nth_mem) simp

lemma hex_val_digit: "n < 16 \<Longrightarrow> hex_val (hex_digit n) = Some n"
proof -
  have "list_all (\<lambda>n. hex_val (hex_digit n) = Some n) [0..<16]" by code_simp
  then show "n < 16 \<Longrightarrow> hex_val (hex_digit n) = Some n" by (simp add: list_all_iff del: upt_Suc)
qed

lemma byte_halves: "unat (b :: byte) div 16 < 16" "unat b mod 16 < 16"
  "of_nat (16 * (unat b div 16) + unat b mod 16) = b"
proof -
  have "unat b < 2 ^ LENGTH(8)" by (rule unsigned_less)
  then have "unat b < 256" by simp
  then show "unat b div 16 < 16" by (simp add: less_mult_imp_div_less)
  show "unat b mod 16 < 16" by simp
  show "of_nat (16 * (unat b div 16) + unat b mod 16) = b"
    by (simp only: mult_div_mod_eq) simp
qed

lemma percent_bytes_byte: "percent_bytes (percent_byte b @ r) = map_option (Cons b) (percent_bytes r)"
  using byte_halves [of b] by (simp add: percent_byte_def hex_val_digit)

lemma percent_bytes_bytes:
  "percent_bytes (concat (map percent_byte bs) @ r) = map_option (\<lambda>x. bs @ x) (percent_bytes r)"
  by (induction bs) (simp_all add: percent_bytes_byte option.map_comp comp_def option.map_ident)

lemma decode_encode_uri [simp]: "decode_uri_component (encode_uri_component s) = Some s"
proof -
  have "percent_bytes (encode_uri_component s) = Some (utf8_encode s)"
  proof (induction s)
    case (Cons c s)
    have "\<not> is_uri_unreserved (CHR ''%'')" by (simp add: is_uri_unreserved_def is_digit_def)
    then have plain: "c \<noteq> CHR ''%''" if "is_uri_unreserved c" using that by blast
    have enc: "utf8_encode (c # s) = utf8_encode [c] @ utf8_encode s" by simp
    show ?case
      using Cons plain unfolding enc
      by (auto simp: encode_uri_component_def percent_bytes_bytes simp del: utf8_encode.simps)
  qed (simp add: encode_uri_component_def)
  then show ?thesis by (simp add: decode_uri_component_def)
qed

lemma encode_uri_inject: "encode_uri_component s = encode_uri_component t \<longleftrightarrow> s = t"
  by (metis decode_encode_uri option.inject)

lemma encode_uri_chars:
  assumes "c \<in> set (encode_uri_component s)"
  shows "c \<noteq> SEP \<and> c \<noteq> CHR '':''"
proof -
  have u: "\<not> is_uri_unreserved SEP" "\<not> is_uri_unreserved (CHR '':'')"
    by (simp_all add: is_uri_unreserved_def is_digit_def SEP_def)
  have h: "hex_digit n \<noteq> SEP \<and> hex_digit n \<noteq> CHR '':''" if "n < 16" for n
    using hex_digit_chars [OF that] by (auto simp: SEP_def)
  have "c \<noteq> SEP \<and> c \<noteq> CHR '':''" if "c \<in> set (percent_byte b)" for b
    using that h byte_halves [of b] by (auto simp: percent_byte_def SEP_def)
  then show ?thesis
    using assms u by (auto simp: encode_uri_component_def split: if_splits)
qed

lemma namespace_no_sep: "SEP \<notin> set (namespace_for_profile p r)"
  using encode_uri_chars
  by (auto simp: namespace_for_profile_def PROFILE_DEFAULT_def SEP_def split: option.splits)

lemma namespace_default: "namespace_for_profile p r = PROFILE_DEFAULT \<longleftrightarrow> p = PROFILE_DEFAULT"
  by (cases "truthy r") (simp_all add: namespace_for_profile_def PROFILE_DEFAULT_def)

lemma namespace_inject:
  assumes "namespace_for_profile p r = namespace_for_profile q r'"
  shows "p = q \<and> (p = PROFILE_DEFAULT \<or> truthy r = truthy r')"
proof (cases "p = PROFILE_DEFAULT \<or> q = PROFILE_DEFAULT")
  case True
  then show ?thesis using assms namespace_default [of p r] namespace_default [of q r'] by metis
next
  case False
  show ?thesis
  proof (cases "truthy r")
    case None
    with False assms show ?thesis
      by (auto simp: namespace_for_profile_def encode_uri_inject split: option.splits)
  next
    case (Some x)
    with False assms obtain y where y: "truthy r' = Some y"
      by (cases "truthy r'") (auto simp: namespace_for_profile_def)
    have "encode_uri_component x @ CHR '':'' # encode_uri_component p
        = encode_uri_component y @ CHR '':'' # encode_uri_component q"
      using False assms Some y by (simp add: namespace_for_profile_def)
    moreover from segment_unique [OF this] have "encode_uri_component x = encode_uri_component y"
      using encode_uri_chars by blast
    ultimately show ?thesis using Some y by (simp add: encode_uri_inject)
  qed
qed

section \<open>Buckets under replacement, deletion and storing\<close>

lemma omap_wf_filter_buckets [simp]:
  assumes "omap_wf js"
  shows "omap_wf (filter_buckets sel P js)"
proof -
  have one: "filter_buckets sel P [e] = [] \<or> (\<exists>l. filter_buckets sel P [e] = [(fst e, l)])" for e
    by (cases e) (simp add: filter_buckets_def Let_def)
  have cons: "filter_buckets sel P (e # js) = filter_buckets sel P [e] @ filter_buckets sel P js" for e js
    by (simp add: filter_buckets_def)
  have keys: "fst ` set (filter_buckets sel P js) \<subseteq> fst ` set js" for js
  proof (induction js)
    case (Cons e js)
    then show ?case unfolding cons [of e js] using one [of e] by auto
  qed (simp add: filter_buckets_def)
  from assms show ?thesis
  proof (induction js)
    case (Cons e js)
    have "omap_wf (filter_buckets sel P js)" "fst e \<notin> fst ` set (filter_buckets sel P js)"
      using Cons keys [of js] by (auto simp: omap_wf_def)
    then show ?case unfolding cons [of e js] omap_wf_def using one [of e] by (auto simp del: set_map simp: set_map [symmetric])
  qed (simp add: filter_buckets_def)
qed

lemma profile_entries_filter_buckets:
  "profile_entries ns (filter_buckets sel P js) = filter (\<lambda>(k, c). sel k \<longrightarrow> P c) (profile_entries ns js)"
proof (induction js)
  case (Cons e js)
  obtain k l where e: "e = (k, l)" by (cases e)
  have cons: "filter_buckets sel P (e # js) = filter_buckets sel P [e] @ filter_buckets sel P js"
    by (simp add: filter_buckets_def)
  have "profile_entries ns (filter_buckets sel P [(k, l)]) = filter (\<lambda>(k, c). sel k \<longrightarrow> P c) (profile_entries ns [(k, l)])"
  proof (cases "sel k \<and> length (filter P l) \<noteq> length l")
    case True
    then show ?thesis by (simp add: filter_buckets_def Let_def filter_map comp_def)
  next
    case False
    then have "sel k \<Longrightarrow> filter P l = l" by (metis filter_id_conv length_filter_less linorder_neq_iff)
    with False show ?thesis by (auto simp: filter_buckets_def Let_def filter_map comp_def)
  qed
  with Cons show ?case unfolding cons by (simp add: e)
qed (simp add: filter_buckets_def)

lemma others_filter_buckets:
  "(\<And>k. sel k \<Longrightarrow> in_profile k ns) \<Longrightarrow> others ns (filter_buckets sel P js) = others ns js"
  by (induction js) (auto simp: others_def filter_buckets_def Let_def)

lemma filter_buckets_lookup:
  "\<not> sel k \<Longrightarrow> map_of (filter_buckets sel P js) k = map_of js k"
  by (induction js) (auto simp: filter_buckets_def Let_def)

lemma bucket_split:
  assumes "omap_wf js" "map_of js k = Some l" "in_profile k ns"
  shows "\<exists>pre post. profile_entries ns js = pre @ map (Pair k) l @ post
    \<and> (\<forall>l'. profile_entries ns (AList.update k l' js) = pre @ map (Pair k) l' @ post)"
proof -
  from assms(2) obtain xs ys where js: "js = xs @ (k, l) # ys"
    by (meson map_of_SomeD split_list)
  with assms(1) have k: "k \<notin> fst ` set xs" by (auto simp: omap_wf_def)
  have "AList.update k l' (xs @ (k, l) # ys) = xs @ (k, l') # ys" for l'
    using k by (induction xs) auto
  then show ?thesis using assms(3) by (auto simp: js)
qed

section \<open>The invariant\<close>

definition profile_ok :: "nat \<Rightarrow> (string \<times> cookie) list \<Rightarrow> bool" where
  "profile_ok n es \<longleftrightarrow>
     refs_distinct es \<and> distinct (map (cookie_id \<circ> snd) es) \<and> (\<forall>e \<in> set es. ck_ref (snd e) < n)"

definition jar_ok :: "jar_state \<Rightarrow> bool" where
  "jar_ok st \<longleftrightarrow>
     omap_wf (js_jars st) \<and>
     (\<forall>ns. SEP \<notin> set ns \<longrightarrow> profile_ok (js_next_ref st) (profile_entries ns (js_jars st))) \<and>
     (\<forall>e \<in> set (js_registry st). SEP \<notin> set (vo_id (snd e)))"

lemma jar_ok_initial: "jar_ok initial_jar"
  by (simp add: jar_ok_def initial_jar_def profile_ok_def refs_distinct_def)

lemma profile_ok_filter: "profile_ok n es \<Longrightarrow> n \<le> m \<Longrightarrow> profile_ok m (filter P es)"
  by (auto simp: profile_ok_def refs_distinct_filter distinct_map_filter)

lemma profile_ok_fresh: "profile_ok n es \<Longrightarrow> n \<notin> (\<lambda>e. ck_ref (snd e)) ` set es"
proof
  assume ok: "profile_ok n es" and "n \<in> (\<lambda>e. ck_ref (snd e)) ` set es"
  then obtain e where "e \<in> set es" "ck_ref (snd e) = n" by auto
  moreover have "ck_ref (snd e) < n" using ok \<open>e \<in> set es\<close> by (simp add: profile_ok_def)
  ultimately show False by simp
qed

lemma profile_ok_replace:
  assumes "profile_ok n (pre @ e # post)" "cookie_id (snd e') = cookie_id (snd e)" "ck_ref (snd e') = n"
  shows "profile_ok (Suc n) (pre @ e' # post)"
  using assms profile_ok_fresh [OF assms(1)]
  by (simp add: profile_ok_def refs_distinct_def comp_def less_Suc_eq ball_Un image_Un)

lemma profile_ok_insert:
  assumes "profile_ok n (pre @ post)" "cookie_id (snd e) \<notin> (cookie_id \<circ> snd) ` set (pre @ post)" "ck_ref (snd e) = n"
  shows "profile_ok (Suc n) (pre @ e # post)"
  using assms profile_ok_fresh [OF assms(1)]
  by (simp add: profile_ok_def refs_distinct_def comp_def less_Suc_eq ball_Un image_Un)

interpretation older_entry: selection "\<lambda>(_, _, x) (_, _, y). older x y" "\<lambda>(k, n, c). - ck_created c"
  by unfold_locales (auto simp: older_def)

lemma occurrences_mem:
  "(k, n, c) \<in> set (occurrences ns i js) \<longleftrightarrow>
     in_profile k ns \<and> (\<exists>l. (k, l) \<in> set js \<and> n < length l \<and> l ! n = c \<and> cookie_id c = i)"
  by (induction js) (auto simp: occurrences_def in_set_enumerate_eq image_iff)

text \<open>The jar right after a cookie is placed.\<close>

lemma place_cookie_entries:
  assumes wf: "omap_wf js" and ok: "profile_ok n (profile_entries ns js)"
    and key: "in_profile key ns" and ref: "ck_ref fresh = n"
    and existing: "existing = pick (\<lambda>(_, _, x) (_, _, y). older x y) (occurrences ns (cookie_id fresh) js)"
    and stored: "stored = place_cookie ns key (map_option (\<lambda>(k, m, _). (k, m)) existing) fresh js"
  shows "omap_wf stored" and "others ns stored = others ns js"
    and "profile_ok (Suc n) (profile_entries ns stored)"
    and "\<exists>k. (k, fresh) \<in> set (profile_entries ns stored)"
    and "\<forall>e \<in> set (profile_entries ns stored). snd e = fresh \<or>
      (e \<in> set (profile_entries ns js) \<and> cookie_id (snd e) \<noteq> cookie_id fresh)"
    and "\<forall>e \<in> set (profile_entries ns js). e \<in> set (profile_entries ns stored) \<or> cookie_id (snd e) = cookie_id fresh"
proof -
  let ?E = "profile_entries ns" and ?i = "cookie_id fresh"
  have "omap_wf stored \<and> others ns stored = others ns js \<and>
    (\<exists>pre post k. ?E stored = pre @ (k, fresh) # post \<and> profile_ok (Suc n) (pre @ (k, fresh) # post) \<and>
       ((\<exists>e. ?E js = pre @ e # post \<and> cookie_id (snd e) = ?i) \<or> (?E js = pre @ post \<and> (\<forall>e \<in> set (?E js). cookie_id (snd e) \<noteq> ?i))))"
  proof (cases existing)
    case None
    then have occ: "occurrences ns ?i js = []" using existing older_entry.pick_None_iff by metis
    have none: "cookie_id (snd e) \<noteq> ?i" if "e \<in> set (?E js)" for e
    proof
      assume same: "cookie_id (snd e) = ?i"
      obtain k c where e: "e = (k, c)" by (cases e)
      from that obtain l where "in_profile k ns" "(k, l) \<in> set js" "c \<in> set l" by (auto simp: e profile_entries_in)
      then obtain m where "m < length l" "l ! m = c" by (auto simp: in_set_conv_nth)
      then have "(k, m, c) \<in> set (occurrences ns ?i js)"
        using \<open>in_profile k ns\<close> \<open>(k, l) \<in> set js\<close> same by (auto simp: occurrences_mem e)
      with occ show False by simp
    qed
    have st: "stored = AList.update key ((case map_of js key of Some l \<Rightarrow> l | None \<Rightarrow> []) @ [fresh]) js"
      by (simp add: stored None place_cookie_def)
    obtain pre post where pp: "?E js = pre @ post" "?E stored = pre @ (key, fresh) # post"
    proof (cases "map_of js key")
      case None
      then have "stored = js @ [(key, [fresh])]" by (simp add: st update_new_append omap_has_def)
      then show ?thesis using that [of "?E js" "[]"] key by simp
    next
      case (Some l)
      then obtain pre post where "?E js = pre @ map (Pair key) l @ post"
          "\<forall>l'. ?E (AList.update key l' js) = pre @ map (Pair key) l' @ post"
        using bucket_split [OF wf _ key] by blast
      then show ?thesis using that [of "pre @ map (Pair key) l" post] Some by (simp add: st)
    qed
    have "profile_ok (Suc n) (pre @ (key, fresh) # post)"
    proof (rule profile_ok_insert)
      show "profile_ok n (pre @ post)" using ok pp(1) by simp
      show "cookie_id (snd (key, fresh)) \<notin> (cookie_id \<circ> snd) ` set (pre @ post)"
        using none unfolding pp(1) by fastforce
    qed (simp add: ref)
    then show ?thesis using pp none wf key by (auto simp: st)
  next
    case (Some x)
    obtain k m c where x: "x = (k, m, c)" by (cases x)
    have "(k, m, c) \<in> set (occurrences ns ?i js)"
      using older_entry.pick_mem existing Some x by metis
    then obtain l where l: "in_profile k ns" "(k, l) \<in> set js" "m < length l" "l ! m = c" "cookie_id c = ?i"
      by (auto simp: occurrences_mem)
    have kl: "map_of js k = Some l" using l(2) wf by (simp add: omap_wf_def map_of_is_SomeI)
    let ?js = "filter_buckets (\<lambda>k'. in_profile k' ns \<and> k' \<noteq> k) (\<lambda>c. cookie_id c \<noteq> ?i) js"
    have kc: "(k, c) \<in> set (?E js)" using l by (auto simp: profile_entries_in)
    have only: "e = (k, c)" if "e \<in> set (?E js)" "cookie_id (snd e) = ?i" for e
    proof -
      have "inj_on (cookie_id \<circ> snd) (set (?E js))" using ok by (simp add: profile_ok_def distinct_map)
      from inj_onD [OF this _ that(1) kc] show ?thesis using that(2) l(5) by simp
    qed
    have same: "?E ?js = ?E js"
      unfolding profile_entries_filter_buckets
      by (auto simp: filter_id_conv dest: only)
    have kl': "map_of ?js k = Some l" using kl by (simp add: filter_buckets_lookup)
    have st: "stored = AList.update k (l[m := fresh]) ?js"
      by (simp add: stored Some x place_cookie_def kl')
    obtain pre post where pp: "?E js = pre @ map (Pair k) l @ post"
        "\<forall>l'. ?E (AList.update k l' ?js) = pre @ map (Pair k) l' @ post"
      using bucket_split [OF omap_wf_filter_buckets [OF wf] kl' l(1)] unfolding same by blast
    have split: "l = take m l @ c # drop (Suc m) l" using id_take_nth_drop [OF l(3)] l(4) by simp
    let ?pre = "pre @ map (Pair k) (take m l)" and ?post = "map (Pair k) (drop (Suc m) l) @ post"
    have js: "?E js = ?pre @ (k, c) # ?post" by (subst pp(1), subst split) simp
    have new: "?E stored = ?pre @ (k, fresh) # ?post"
      using l(3) by (simp add: st pp(2) upd_conv_take_nth_drop)
    have "profile_ok (Suc n) (?pre @ (k, fresh) # ?post)"
      by (rule profile_ok_replace [of n ?pre "(k, c)"]) (use ok ref l(5) js in simp_all)
    moreover have "others ns stored = others ns js"
      using l(1) others_filter_buckets [of "\<lambda>k'. in_profile k' ns \<and> k' \<noteq> k" ns] by (simp add: st)
    ultimately show ?thesis using js new l(5) wf by (fastforce simp: st)
  qed
  then obtain pre post k where wf': "omap_wf stored" "others ns stored = others ns js"
    and new: "?E stored = pre @ (k, fresh) # post" and ok': "profile_ok (Suc n) (?E stored)"
    and old: "(\<exists>e. ?E js = pre @ e # post \<and> cookie_id (snd e) = ?i)
      \<or> (?E js = pre @ post \<and> (\<forall>e \<in> set (?E js). cookie_id (snd e) \<noteq> ?i))" by auto
  show "omap_wf stored" "others ns stored = others ns js" "profile_ok (Suc n) (?E stored)" by fact+
  show "\<exists>k. (k, fresh) \<in> set (?E stored)" unfolding new by auto
  have uniq: "cookie_id (snd e) \<noteq> ?i" if "e \<in> set pre \<union> set post" for e
    using ok' that unfolding new by (auto simp: profile_ok_def image_iff)
  show "\<forall>e \<in> set (?E stored). snd e = fresh \<or> (e \<in> set (?E js) \<and> cookie_id (snd e) \<noteq> ?i)"
    unfolding new using old uniq by auto
  show "\<forall>e \<in> set (?E js). e \<in> set (?E stored) \<or> cookie_id (snd e) = ?i"
    unfolding new using old by auto
qed

section \<open>Storing and deleting\<close>

lemma note_jar_change_other [simp]:
  "js_jars (note_jar_change r u s st) = js_jars st" "js_next_ref (note_jar_change r u s st) = js_next_ref st"
  "js_registry (note_jar_change r u s st) = js_registry st"
  by (simp_all add: note_jar_change_def)

lemma note_evictions_other [simp]:
  "js_jars (note_evictions removed ns st) = js_jars st"
  "js_next_ref (note_evictions removed ns st) = js_next_ref st"
  "js_registry (note_evictions removed ns st) = js_registry st"
  unfolding note_evictions_def by (induction removed arbitrary: st) simp_all

lemma schedule_persist_other [simp]:
  "js_jars (schedule_persist st) = js_jars st" "js_next_ref (schedule_persist st) = js_next_ref st"
  "js_registry (schedule_persist st) = js_registry st"
  by (simp_all add: schedule_persist_def)

definition within_limits :: "int \<Rightarrow> string \<Rightarrow> jars \<Rightarrow> bool" where
  "within_limits now ns js \<longleftrightarrow>
     (\<forall>e \<in> set (profile_entries ns js). cookie_live now (snd e)) \<and>
     (\<forall>d. length (of_domain d (profile_entries ns js)) \<le> COOKIE_MAX_PER_DOMAIN) \<and>
     length (profile_entries ns js) \<le> COOKIE_MAX_TOTAL"

lemma jar_ok_profile:
  assumes "jar_ok st" "SEP \<notin> set ns" "omap_wf (js_jars st')" "js_registry st' = js_registry st"
    "js_next_ref st \<le> js_next_ref st'" "others ns (js_jars st') = others ns (js_jars st)"
    "profile_ok (js_next_ref st') (profile_entries ns (js_jars st'))"
  shows "jar_ok st'"
proof -
  have "profile_ok (js_next_ref st') (profile_entries ns' (js_jars st'))" if "SEP \<notin> set ns'" for ns'
  proof (cases "ns' = ns")
    case False
    then have "profile_entries ns' (js_jars st') = profile_entries ns' (js_jars st)"
      using profile_entries_elsewhere [OF assms(2) that _ assms(6)] by simp
    moreover have "profile_ok (js_next_ref st) (profile_entries ns' (js_jars st))"
      using assms(1) that by (simp add: jar_ok_def)
    ultimately show ?thesis
      using profile_ok_filter [OF _ assms(5), of "profile_entries ns' (js_jars st)" "\<lambda>_. True"] by simp
  qed (use assms(7) in simp)
  then show ?thesis using assms(1,3,4) by (simp add: jar_ok_def)
qed

lemma singleton_list: "distinct xs \<Longrightarrow> set xs = {x} \<Longrightarrow> xs = [x]"
  by (cases xs; cases "tl xs") auto

lemma unique_ref:
  assumes "refs_distinct es" "x \<in> set es"
  shows "filter (\<lambda>e. ck_ref (snd e) = ck_ref (snd x)) es = [x]"
proof (rule singleton_list)
  show "distinct (filter (\<lambda>e. ck_ref (snd e) = ck_ref (snd x)) es)"
    using refs_distinct_distinct [OF assms(1)] by simp
  have "e = x" if "e \<in> set es" "ck_ref (snd e) = ck_ref (snd x)" for e
    by (rule refs_distinct_eq [OF assms(1) that(1) assms(2) that(2)])
  then show "set (filter (\<lambda>e. ck_ref (snd e) = ck_ref (snd x)) es) = {x}" using assms(2) by auto
qed

lemma store_cookie_ok:
  assumes ok: "jar_ok st" and ns: "SEP \<notin> set ns" and key: "in_profile key ns"
    and live: "ck_expires proto = 0 \<or> now < ck_expires proto"
    and store: "store_cookie now url from_script ns key proto st = (r, st')"
  shows "(\<not> sr_stored r \<and> \<not> sr_deleted r \<and> st' = st) \<or>
    (sr_stored r \<and> jar_ok st' \<and> within_limits now ns (js_jars st') \<and> others ns (js_jars st') = others ns (js_jars st) \<and>
     (\<exists>k c. sr_cookie r = Some c \<and> (k, c) \<in> set (profile_entries ns (js_jars st')) \<and>
        c = proto\<lparr>ck_created := ck_created c, ck_ref := js_next_ref st\<rparr> \<and>
        (\<forall>e \<in> set (profile_entries ns (js_jars st')). snd e = c \<or> e \<in> set (profile_entries ns (js_jars st)))))"
proof -
  let ?E = "profile_entries ns" and ?n = "js_next_ref st"
  let ?ex = "pick (\<lambda>(_, _, x) (_, _, y). older x y) (occurrences ns (cookie_id proto) (js_jars st))"
  obtain fresh where fresh: "fresh = proto\<lparr>ck_created := (case ?ex of Some (_, _, c) \<Rightarrow> ck_created c | None \<Rightarrow> now), ck_ref := ?n\<rparr>"
    by blast
  obtain stored where stored: "stored = place_cookie ns key (map_option (\<lambda>(k, n, _). (k, n)) ?ex) fresh (js_jars st)"
    by blast
  let ?p = "\<lambda>c. ck_ref c = ck_ref fresh"
  obtain removed swept where sweep: "sweep_jar_limits now ns ?p stored = (removed, swept)"
    by (cases "sweep_jar_limits now ns ?p stored")
  have id: "cookie_id fresh = cookie_id proto" by (simp add: cookie_id_def fresh)
  have wf: "omap_wf (js_jars st)" and prof: "profile_ok ?n (?E (js_jars st))"
    using ok ns by (simp_all add: jar_ok_def)
  have ref: "ck_ref fresh = ?n" by (simp add: fresh)
  have ex: "?ex = pick (\<lambda>(_, _, x) (_, _, y). older x y) (occurrences ns (cookie_id fresh) (js_jars st))"
    by (simp add: id)
  note place = place_cookie_entries [OF wf prof key ref ex stored]
  obtain k where k: "(k, fresh) \<in> set (?E stored)" using place(4) by blast
  have refs: "refs_distinct (?E stored)" using place(3) by (simp add: profile_ok_def)
  have only: "filter (\<lambda>e. ?p (snd e)) (?E stored) = [(k, fresh)]"
    using unique_ref [OF refs k] by simp
  have fresh_live: "cookie_live now fresh" using live by (simp add: cookie_live_def fresh)
  have one: "length (filter (\<lambda>e. ?p (snd e)) (?E stored)) \<le> 1" unfolding only by simp
  note lim = sweep_limits [OF place(1) refs one sweep]
  have "filter (\<lambda>e. ?p (snd e)) (?E swept)
      = filter (\<lambda>e. cookie_live now (snd e)) (filter (\<lambda>e. ?p (snd e)) (?E stored))"
    unfolding lim(5) filter_filter by (rule filter_cong) auto
  then have "(k, fresh) \<in> set (filter (\<lambda>e. ?p (snd e)) (?E swept))" unfolding only using fresh_live by simp
  then have kept: "(k, fresh) \<in> set (?E swept)" by simp
  have sub: "\<exists>Q. ?E swept = filter Q (?E stored)" using lim(1) by (auto simp: sweeps_def)
  show ?thesis
  proof (cases "from_script \<and> (case ?ex of Some (_, _, c) \<Rightarrow> ck_http_only c | None \<Rightarrow> False)")
    case True
    then have "r = plain_result (ck_name proto) (Some ''httponly'') \<and> st' = st"
      using store by (simp add: store_cookie_def Let_def)
    then show ?thesis by (simp add: plain_result_def)
  next
    case False
    have r: "sr_stored r" "sr_cookie r = Some fresh" "js_jars st' = swept" "js_next_ref st' = Suc ?n"
        "js_registry st' = js_registry st"
      using store False sweep unfolding store_cookie_def Let_def fresh [symmetric] stored [symmetric] by auto
    have others: "others ns (js_jars st') = others ns (js_jars st)"
      using lim(1) place(2) r(3) by (simp add: sweeps_def)
    have "omap_wf (js_jars st')" using lim(1) r(3) by (simp add: sweeps_def)
    moreover have "profile_ok (js_next_ref st') (?E (js_jars st'))"
      using sub profile_ok_filter [OF place(3)] r(3,4) by auto
    ultimately have "jar_ok st'"
      by (intro jar_ok_profile [OF ok ns _ r(5) _ others]) (simp_all add: r(4))
    moreover have "within_limits now ns (js_jars st')" using lim(2-4) r(3) by (simp add: within_limits_def)
    moreover have "\<forall>e \<in> set (?E (js_jars st')). snd e = fresh \<or> e \<in> set (?E (js_jars st))"
      using sub place(5) r(3) by auto
    moreover have "fresh = proto\<lparr>ck_created := ck_created fresh, ck_ref := ?n\<rparr>" by (simp add: fresh)
    ultimately show ?thesis using r(1,2) others kept r(3) by metis
  qed
qed

text \<open>What leaves the jar when a cookie is stored: the old copy of its identity, and announced evictions.\<close>

lemma note_evictions_log:
  "\<exists>new. js_log (note_evictions removed ns st) = js_log st @ new \<and>
     (\<forall>c \<in> set removed. \<exists>ch \<in> set new. sr_deleted (jc_result ch) \<and> sr_cookie (jc_result ch) = Some c)"
  unfolding note_evictions_def
proof (induction removed arbitrary: st)
  case (Cons c cs)
  let ?r = "\<lparr>sr_name = ck_name c, sr_stored = False, sr_deleted = True, sr_rejected = None,
            sr_cookie = Some c, sr_replaced = Some True, sr_namespace = Some ns\<rparr>"
  have one: "js_log (note_jar_change ?r [] False st) = js_log st @ [\<lparr>jc_result = ?r, jc_url = [], jc_from_script = False\<rparr>]"
    by (simp add: note_jar_change_def)
  from Cons [of "note_jar_change ?r [] False st"] show ?case unfolding one by fastforce
qed simp

definition announced :: "jar_state \<Rightarrow> jar_state \<Rightarrow> cookie \<Rightarrow> bool" where
  "announced st st' c \<longleftrightarrow>
     (\<exists>new. js_log st' = js_log st @ new \<and>
        (\<exists>ch \<in> set new. sr_deleted (jc_result ch) \<and> sr_cookie (jc_result ch) = Some c))"

lemma pick_occurrence:
  assumes "e \<in> set (profile_entries ns js)" "cookie_id (snd e) = i"
  obtains k m c where "pick (\<lambda>(_, _, x) (_, _, y). older x y) (occurrences ns i js) = Some (k, m, c)"
    "(k, c) \<in> set (profile_entries ns js)" "cookie_id c = i"
proof -
  obtain k c where e: "e = (k, c)" by (cases e)
  obtain l where l: "in_profile k ns" "(k, l) \<in> set js" "c \<in> set l"
    using assms(1) by (auto simp: e profile_entries_in)
  then obtain m where "m < length l" "l ! m = c" by (auto simp: in_set_conv_nth)
  with l assms(2) have "(k, m, c) \<in> set (occurrences ns i js)" by (auto simp: occurrences_mem e)
  then have "occurrences ns i js \<noteq> []" by auto
  then obtain x where x: "pick (\<lambda>(_, _, x) (_, _, y). older x y) (occurrences ns i js) = Some x"
    using older_entry.pick_None_iff by blast
  then have "x \<in> set (occurrences ns i js)" by (rule older_entry.pick_mem)
  moreover obtain k' m' c' where k': "x = (k', m', c')" by (cases x)
  ultimately have "(k', m', c') \<in> set (occurrences ns i js)" by simp
  then have "(k', c') \<in> set (profile_entries ns js)" "cookie_id c' = i"
    unfolding occurrences_mem profile_entries_in by (blast dest: nth_mem, blast)
  with x that [of k' m' c'] k' show ?thesis by simp
qed

lemma store_cookie_keeps:
  assumes ok: "jar_ok st" and ns: "SEP \<notin> set ns" and key: "in_profile key ns"
    and store: "store_cookie now url from_script ns key proto st = (r, st')"
    and e: "e \<in> set (profile_entries ns (js_jars st))"
    and gone: "e \<notin> set (profile_entries ns (js_jars st'))"
  shows "announced st st' (snd e) \<or> (cookie_id (snd e) = cookie_id proto \<and> \<not> (from_script \<and> ck_http_only (snd e)))"
proof -
  let ?E = "profile_entries ns" and ?n = "js_next_ref st"
  let ?ex = "pick (\<lambda>(_, _, x) (_, _, y). older x y) (occurrences ns (cookie_id proto) (js_jars st))"
  obtain fresh where fresh: "fresh = proto\<lparr>ck_created := (case ?ex of Some (_, _, c) \<Rightarrow> ck_created c | None \<Rightarrow> now), ck_ref := ?n\<rparr>"
    by blast
  obtain stored where stored: "stored = place_cookie ns key (map_option (\<lambda>(k, n, _). (k, n)) ?ex) fresh (js_jars st)"
    by blast
  obtain removed swept where sweep: "sweep_jar_limits now ns (\<lambda>c. ck_ref c = ck_ref fresh) stored = (removed, swept)"
    by (cases "sweep_jar_limits now ns (\<lambda>c. ck_ref c = ck_ref fresh) stored")
  have wf: "omap_wf (js_jars st)" and prof: "profile_ok ?n (?E (js_jars st))"
    using ok ns by (simp_all add: jar_ok_def)
  have id: "cookie_id fresh = cookie_id proto" and ref: "ck_ref fresh = ?n" by (simp_all add: cookie_id_def fresh)
  have ex: "?ex = pick (\<lambda>(_, _, x) (_, _, y). older x y) (occurrences ns (cookie_id fresh) (js_jars st))"
    by (simp add: id)
  note place = place_cookie_entries [OF wf prof key ref ex stored]
  have refs: "refs_distinct (?E stored)" using place(3) by (simp add: profile_ok_def)
  obtain k where k: "(k, fresh) \<in> set (?E stored)" using place(4) by blast
  have one: "length (filter (\<lambda>e. ck_ref (snd e) = ck_ref fresh) (?E stored)) \<le> 1"
    using unique_ref [OF refs k] by simp
  note lim = sweep_limits(1) [OF place(1) refs one sweep]
  show ?thesis
  proof (cases "from_script \<and> (case ?ex of Some (_, _, c) \<Rightarrow> ck_http_only c | None \<Rightarrow> False)")
    case True
    then have "st' = st" using store by (simp add: store_cookie_def Let_def)
    with e gone show ?thesis by simp
  next
    case not_script: False
    have st': "js_jars st' = swept" "\<exists>new. js_log st' = js_log st @ new \<and> (\<forall>c \<in> set removed. \<exists>ch \<in> set new.
        sr_deleted (jc_result ch) \<and> sr_cookie (jc_result ch) = Some c)"
      using store not_script sweep note_evictions_log [of removed ns "st\<lparr>js_jars := swept, js_next_ref := Suc ?n\<rparr>"]
      unfolding store_cookie_def Let_def fresh [symmetric] stored [symmetric]
      by (auto simp: note_jar_change_def schedule_persist_def)
    show ?thesis
    proof (cases "e \<in> set (?E stored)")
      case True
      from lim obtain g where g: "set removed \<subseteq> snd ` set (?E stored)"
          "?E swept = filter (\<lambda>(_, c). ck_ref c \<notin> ck_ref ` set removed) (?E stored)"
        by (auto simp: sweeps_def)
      have "e \<notin> set (filter (\<lambda>(_, c). ck_ref c \<notin> ck_ref ` set removed) (?E stored))"
        using gone unfolding st'(1) g(2) .
      with True have "ck_ref (snd e) \<in> ck_ref ` set removed" unfolding set_filter case_prod_unfold by blast
      then obtain c where c: "c \<in> set removed" "ck_ref (snd e) = ck_ref c" by auto
      then obtain e' where "e' \<in> set (?E stored)" "snd e' = c" using g(1) by auto
      then have "e' = e" using refs_distinct_eq [OF refs _ True] c(2) by auto
      with \<open>snd e' = c\<close> c(1) st'(2) show ?thesis unfolding announced_def by blast
    next
      case False
      with place(6) e have same: "cookie_id (snd e) = cookie_id proto" using id by auto
      have "\<not> (from_script \<and> ck_http_only (snd e))"
      proof
        assume http: "from_script \<and> ck_http_only (snd e)"
        obtain k' m' c' where p: "?ex = Some (k', m', c')"
            and m: "(k', c') \<in> set (?E (js_jars st))" "cookie_id c' = cookie_id proto"
          by (rule pick_occurrence [OF e same])
        have "inj_on (cookie_id \<circ> snd) (set (?E (js_jars st)))" using prof by (simp add: profile_ok_def distinct_map)
        from inj_onD [OF this _ m(1) e] have "(k', c') = e" using m(2) same by simp
        then have "ck_http_only c'" using http by auto
        with not_script http p show False by simp
      qed
      with same show ?thesis by blast
    qed
  qed
qed

lemma delete_identity_ok:
  assumes ok: "jar_ok st" and ns: "SEP \<notin> set ns"
    and del: "delete_identity url name from_script ns i st = (r, st')"
  shows "jar_ok st' \<and> \<not> sr_stored r \<and> others ns (js_jars st') = others ns (js_jars st) \<and>
    profile_entries ns (js_jars st') =
      filter (\<lambda>(_, c). \<not> (cookie_id c = i \<and> \<not> (from_script \<and> ck_http_only c))) (profile_entries ns (js_jars st)) \<and>
    (sr_deleted r \<longleftrightarrow> profile_entries ns (js_jars st') \<noteq> profile_entries ns (js_jars st))"
proof -
  let ?E = "profile_entries ns" and ?goes = "\<lambda>c. cookie_id c = i \<and> \<not> (from_script \<and> ck_http_only c)"
  let ?js = "filter_buckets (\<lambda>k. in_profile k ns) (\<lambda>c. \<not> ?goes c) (js_jars st)"
  have st': "js_jars st' = ?js" "js_next_ref st' = js_next_ref st" "js_registry st' = js_registry st" "\<not> sr_stored r"
    "sr_deleted r \<longleftrightarrow> filter ?goes (map snd (?E (js_jars st))) \<noteq> []"
    using del by (auto simp: delete_identity_def Let_def plain_result_def split: if_splits)
  have ent: "?E ?js = filter (\<lambda>(_, c). \<not> ?goes c) (?E (js_jars st))"
    unfolding profile_entries_filter_buckets by (rule filter_cong) (auto simp: profile_entries_in)
  have others: "others ns ?js = others ns (js_jars st)" by (simp add: others_filter_buckets)
  have "profile_ok (js_next_ref st) (?E (js_jars st))" using ok ns by (simp add: jar_ok_def)
  then have "profile_ok (js_next_ref st') (?E (js_jars st'))"
    using profile_ok_filter st' ent by simp
  then have "jar_ok st'"
    using ok others st' by (intro jar_ok_profile [OF ok ns]) (simp_all add: jar_ok_def)
  moreover have "?E ?js \<noteq> ?E (js_jars st) \<longleftrightarrow> filter ?goes (map snd (?E (js_jars st))) \<noteq> []"
    unfolding ent filter_id_conv by (fastforce simp: filter_empty_conv)
  ultimately show ?thesis using st' ent others by simp
qed

section \<open>Parsing facts\<close>

lemma apply_attr_inv:
  "(at_has_expires a \<or> at_expires a = 0) \<and> (at_host_only a \<longrightarrow> at_domain a = []) \<Longrightarrow>
   (at_has_expires (apply_attr p a) \<or> at_expires (apply_attr p a) = 0)
     \<and> (at_host_only (apply_attr p a) \<longrightarrow> at_domain (apply_attr p a) = [])"
  by (auto simp: apply_attr_def Let_def split: prod.splits option.splits if_splits)

lemma parse_attrs_inv:
  "(at_has_expires (parse_attrs s) \<or> at_expires (parse_attrs s) = 0)
     \<and> (at_host_only (parse_attrs s) \<longrightarrow> at_domain (parse_attrs s) = [])"
proof -
  have "(at_has_expires (fold apply_attr ps a) \<or> at_expires (fold apply_attr ps a) = 0)
      \<and> (at_host_only (fold apply_attr ps a) \<longrightarrow> at_domain (fold apply_attr ps a) = [])"
    if "(at_has_expires a \<or> at_expires a = 0) \<and> (at_host_only a \<longrightarrow> at_domain a = [])" for ps a
    using that by (induction ps arbitrary: a) (simp, metis apply_attr_inv fold_simps(2))
  from this [of no_attrs] show ?thesis by (simp add: parse_attrs_def no_attrs_def)
qed

lemma hex_lower_chars: "c \<in> set (hex_lower b) \<Longrightarrow> c \<noteq> SEP"
proof -
  have "''0123456789abcdef'' ! n \<in> set ''0123456789abcdef''" if "n < 16" for n using that by (intro nth_mem) simp
  then have "\<And>n. n < 16 \<Longrightarrow> ''0123456789abcdef'' ! n \<noteq> SEP" by (fastforce simp: SEP_def)
  then have "''0123456789abcdef'' ! (unat b div 16) \<noteq> SEP" "''0123456789abcdef'' ! (unat b mod 16) \<noteq> SEP"
    using byte_halves [of b] by blast+
  moreover assume "c \<in> set (hex_lower b)"
  then have "c = ''0123456789abcdef'' ! (unat b div 16) \<or> c = ''0123456789abcdef'' ! (unat b mod 16)"
    unfolding hex_lower_def by (simp only: set_simps insert_iff empty_iff simp_thms)
  ultimately show "c \<noteq> SEP" by metis
qed

lemma register_origin_other:
  assumes "register_origin pf cd orig st = Some (vo, st1)" "jar_ok st"
  shows "js_jars st1 = js_jars st" "js_next_ref st1 = js_next_ref st" "js_log st1 = js_log st" "jar_ok st1"
    "SEP \<notin> set (vo_id vo)"
proof -
  have id: "SEP \<notin> set i" if "origin_jar_id pf x = Some i" for x i
  proof -
    have "SEP \<noteq> CHR ''o''" by (simp add: SEP_def)
    with that show ?thesis by (auto simp: origin_jar_id_def dest: hex_lower_chars)
  qed
  obtain u where u: "new_url pf orig = Some u"
    using assms(1) by (auto simp: register_origin_def split: option.splits)
  show "js_jars st1 = js_jars st" "js_next_ref st1 = js_next_ref st" "js_log st1 = js_log st"
    using assms(1) by (auto simp: register_origin_def Let_def split: option.splits)
  show "SEP \<notin> set (vo_id vo)"
  proof (cases "map_of (js_registry st) (url_origin u)")
    case None
    with assms(1) u id show ?thesis by (auto simp: register_origin_def Let_def split: option.splits)
  next
    case (Some e)
    then have "(url_origin u, e) \<in> set (js_registry st)" by (rule map_of_SomeD)
    moreover have "vo = e" using assms(1) u Some by (simp add: register_origin_def)
    ultimately show ?thesis using assms(2) by (auto simp: jar_ok_def)
  qed
  then show "jar_ok st1"
    using assms u set_update_subset [of "url_origin u" vo "js_registry st"]
    by (auto simp: register_origin_def jar_ok_def Let_def split: option.splits)
qed

section \<open>Admission, case by case\<close>

text \<open>The cookie a header describes, before its creation time and its identity as an object.\<close>

definition described :: "parsed_url \<Rightarrow> string \<Rightarrow> string \<Rightarrow> cookie_attrs \<Rightarrow> int \<Rightarrow> cookie" where
  "described u name val a now =
     \<lparr>ck_name = name, ck_value = val, ck_domain = (if at_domain a = [] then pu_host u else at_domain a),
      ck_host_only = at_host_only a, ck_path = (if at_path a = [] then default_path (pu_path u) else at_path a),
      ck_secure = at_secure a, ck_http_only = at_http_only a, ck_same_site = at_same_site a,
      ck_expires = (case at_max_age a of Some m \<Rightarrow> now + m * 1000 | None \<Rightarrow> at_expires a),
      ck_created = now, ck_ref = 0\<rparr>"

lemma admit_cases:
  assumes "admit_cookie pf cd now url header from_script ns st = Some (r, st')"
  obtains (noop) "st' = st" "\<not> sr_stored r" "\<not> sr_deleted r"
  | (delete) vo st1 i orig where "register_origin pf cd orig st = Some (vo, st1)"
      "delete_identity url (sr_name r) from_script ns i st1 = (r, st')"
  | (store) pair rest name val u a vo st1 where
      "cut_at (CHR '';'') header = (pair, rest)" "parse_pair pair = Some (name, val)" "parse_url pf url = Some u"
      "\<not> has_ctl name" "\<not> has_ctl val" "a = parse_attrs (case rest of Some r \<Rightarrow> r | None \<Rightarrow> [])"
      "admission_refusal pf u name a = None" "cookie_byte_size name val \<le> COOKIE_MAX_BYTES"
      "ck_expires (described u name val a now) = 0 \<or> now < ck_expires (described u name val a now)"
      "register_origin pf cd (pu_origin u) st = Some (vo, st1)"
      "store_cookie now url from_script ns (jar_key (vo_id vo) ns) (described u name val a now) st1 = (r, st')"
proof -
  obtain pair rest where cut: "cut_at (CHR '';'') header = (pair, rest)" by (cases "cut_at (CHR '';'') header")
  show ?thesis
  proof (cases "parse_pair pair")
    case None
    with assms cut have "st' = st \<and> r = plain_result [] (Some ''malformed'')" by (simp add: admit_cookie_def)
    then show ?thesis using noop by (simp add: plain_result_def)
  next
    case (Some nv)
    obtain name val where nv: "nv = (name, val)" by (cases nv)
    show ?thesis
    proof (cases "parse_url pf url")
      case None
      with assms cut Some nv have "st' = st \<and> r = plain_result [] (Some ''malformed'')" by (simp add: admit_cookie_def)
      then show ?thesis using noop by (simp add: plain_result_def)
    next
      case u: (Some u)
      obtain a where a: "a = parse_attrs (case rest of Some r \<Rightarrow> r | None \<Rightarrow> [])" by blast
      obtain deletion where deletion: "deletion = (case at_max_age a of Some m \<Rightarrow> m \<le> 0 | None \<Rightarrow> at_has_expires a \<and> at_expires a \<le> now)"
        by blast
      let ?d = "described u name val a now"
      have adm: "(if has_ctl name \<or> has_ctl val then Some (plain_result [] (Some ''control character''), st)
          else case admission_refusal pf u name a of
            Some reason \<Rightarrow> Some (plain_result name (Some reason), st)
          | None \<Rightarrow>
              if \<not> deletion \<and> COOKIE_MAX_BYTES < cookie_byte_size name val then Some (plain_result name (Some ''size''), st)
              else case register_origin pf cd (pu_origin u) st of
                None \<Rightarrow> None
              | Some (vo, st1) \<Rightarrow>
                  if deletion then Some (delete_identity url name from_script ns (cookie_id ?d) st1)
                  else Some (store_cookie now url from_script ns (jar_key (vo_id vo) ns) ?d st1)) = Some (r, st')"
        using assms unfolding admit_cookie_def cut Let_def prod.case Some nv u option.case a [symmetric] deletion [symmetric]
        unfolding described_def cookie_id_def by (simp only: cookie.select_convs)
      consider "has_ctl name \<or> has_ctl val" | reason where "\<not> (has_ctl name \<or> has_ctl val)" "admission_refusal pf u name a = Some reason"
        | "\<not> (has_ctl name \<or> has_ctl val)" "admission_refusal pf u name a = None" "\<not> deletion" "COOKIE_MAX_BYTES < cookie_byte_size name val"
        | "\<not> (has_ctl name \<or> has_ctl val)" "admission_refusal pf u name a = None" "deletion \<or> cookie_byte_size name val \<le> COOKIE_MAX_BYTES"
        by (metis not_le option.exhaust)
      then show ?thesis
      proof cases
        case 4
        then obtain vo st1 where reg: "register_origin pf cd (pu_origin u) st = Some (vo, st1)"
          and act: "(if deletion then delete_identity url name from_script ns (cookie_id ?d) st1
            else store_cookie now url from_script ns (jar_key (vo_id vo) ns) ?d st1) = (r, st')"
          using adm by (auto split: option.splits if_splits)
        show ?thesis
        proof (cases deletion)
          case True
          then have del: "delete_identity url name from_script ns (cookie_id ?d) st1 = (r, st')" using act by simp
          then have "sr_name r = name" by (auto simp: delete_identity_def Let_def plain_result_def split: if_splits)
          with del reg show ?thesis using delete by blast
        next
          case False
          have "ck_expires ?d = 0 \<or> now < ck_expires ?d"
            using False parse_attrs_inv [of "case rest of Some r \<Rightarrow> r | None \<Rightarrow> []"]
            unfolding deletion by (auto simp: described_def a split: option.splits)
          moreover have "store_cookie now url from_script ns (jar_key (vo_id vo) ns) ?d st1 = (r, st')" using act False by simp
          ultimately show ?thesis using store [OF cut _ u _ _ a 4(2) _ _ reg] Some nv 4 False by blast
        qed
      qed (use adm noop in \<open>auto simp: plain_result_def\<close>)
    qed
  qed
qed

lemma admit_profile:
  assumes ok: "jar_ok st" and ns: "SEP \<notin> set ns"
    and admit: "admit_cookie pf cd now url header from_script ns st = Some (r, st')"
  shows "jar_ok st'" and "others ns (js_jars st') = others ns (js_jars st)"
proof -
  from admit have "jar_ok st' \<and> others ns (js_jars st') = others ns (js_jars st)"
  proof (cases rule: admit_cases)
    case noop
    then show ?thesis using ok by simp
  next
    case (delete vo st1 i orig)
    note reg = register_origin_other [OF delete(1) ok]
    show ?thesis using delete_identity_ok [OF reg(4) ns delete(2)] reg(1) by simp
  next
    case (store pair rest name val u a vo st1)
    note reg = register_origin_other [OF store(10) ok]
    have key: "in_profile (jar_key (vo_id vo) ns) ns" by (rule in_profile_jar_key [OF ns reg(5)])
    show ?thesis using store_cookie_ok [OF reg(4) ns key store(9) store(11)] reg by auto
  qed
  then show "jar_ok st'" "others ns (js_jars st') = others ns (js_jars st)" by simp_all
qed

text \<open>A jar with one admitted cookie, for the witnesses.\<close>

definition demo_admit :: "(set_cookie_result \<times> jar_state) option" where
  "demo_admit = admit_cookie demo_platform initial_codec 5 ''http://a.b/x'' ''k=v; Path=/'' False PROFILE_DEFAULT initial_jar"

lemma demo_admitted: "\<exists>r st. demo_admit = Some (r, st) \<and> sr_stored r"
proof -
  have "case demo_admit of Some (r, st) \<Rightarrow> sr_stored r | None \<Rightarrow> False" by code_simp
  then show ?thesis by (auto split: option.splits)
qed

lemma default_no_sep: "SEP \<notin> set PROFILE_DEFAULT"
  by (simp add: SEP_def PROFILE_DEFAULT_def)

section \<open>Properties\<close>

text \<open>C2. Admission keeps the jar sound and the profiles apart: a well-formed jar (one cookie per name, domain,
  host-only flag and path in each profile) stays well-formed whatever header arrives, and no other
  profile changes.\<close>

theorem admission_keeps_jar:
  assumes "jar_ok st" "SEP \<notin> set ns" "admit_cookie pf cd now url header from_script ns st = Some (r, st')"
  shows "jar_ok st' \<and> (\<forall>ns'. SEP \<notin> set ns' \<and> ns' \<noteq> ns \<longrightarrow>
    profile_entries ns' (js_jars st') = profile_entries ns' (js_jars st))"
  using admit_profile [OF assms] profile_entries_elsewhere [OF assms(2)] by blast

theorem admission_keeps_jar_witness:
  "\<exists>r st. demo_admit = Some (r, st) \<and> jar_ok st \<and> (\<forall>ns'. SEP \<notin> set ns' \<and> ns' \<noteq> PROFILE_DEFAULT \<longrightarrow>
     profile_entries ns' (js_jars st) = profile_entries ns' (js_jars initial_jar))"
proof -
  obtain r st where "demo_admit = Some (r, st)" using demo_admitted by blast
  then show ?thesis
    using admission_keeps_jar [OF jar_ok_initial default_no_sep] unfolding demo_admit_def by blast
qed

text \<open>C4. The storage limits hold after every stored cookie: at most 50 cookies per domain and 3000 in the
  profile, all of them live, and the cookie just stored is among them.\<close>

theorem admission_within_limits:
  assumes "jar_ok st" "SEP \<notin> set ns" "admit_cookie pf cd now url header from_script ns st = Some (r, st')" "sr_stored r"
  shows "(\<forall>d. length (of_domain d (profile_entries ns (js_jars st'))) \<le> 50) \<and>
    length (profile_entries ns (js_jars st')) \<le> 3000 \<and>
    (\<forall>e \<in> set (profile_entries ns (js_jars st')). cookie_live now (snd e)) \<and>
    (\<exists>k c. sr_cookie r = Some c \<and> (k, c) \<in> set (profile_entries ns (js_jars st')))"
  using assms(3)
proof (cases rule: admit_cases)
  case (delete vo st1 i orig)
  note reg = register_origin_other [OF delete(1) assms(1)]
  show ?thesis using delete_identity_ok [OF reg(4) assms(2) delete(2)] assms(4) by simp
next
  case (store pair rest name val u a vo st1)
  note reg = register_origin_other [OF store(10) assms(1)]
  have key: "in_profile (jar_key (vo_id vo) ns) ns" by (rule in_profile_jar_key [OF assms(2) reg(5)])
  show ?thesis
    using store_cookie_ok [OF reg(4) assms(2) key store(9) store(11)] assms(4)
    by (auto simp: within_limits_def COOKIE_MAX_PER_DOMAIN_def COOKIE_MAX_TOTAL_def)
qed (use assms(4) in simp)

theorem admission_within_limits_witness:
  "\<exists>r st. demo_admit = Some (r, st) \<and> (\<forall>d. length (of_domain d (profile_entries PROFILE_DEFAULT (js_jars st))) \<le> 50) \<and>
     (\<exists>k c. sr_cookie r = Some c \<and> (k, c) \<in> set (profile_entries PROFILE_DEFAULT (js_jars st)))"
proof -
  obtain r st where d: "demo_admit = Some (r, st)" "sr_stored r" using demo_admitted by blast
  from admission_within_limits [OF jar_ok_initial default_no_sep d(1) [unfolded demo_admit_def] d(2)] d(1)
  show ?thesis by blast
qed

text \<open>C5. The admission gate: a stored cookie scopes the response host and, unless it is host-only, no public
  suffix; it is Secure only from a secure origin, SameSite=None only when Secure; the \<open>__Secure-\<close> and
  \<open>__Host-\<close> prefixes hold; its name and value carry no control character and at most 4096 bytes.\<close>

theorem admission_gate:
  assumes "jar_ok st" "SEP \<notin> set ns" "admit_cookie pf cd now url header from_script ns st = Some (r, st')"
    "sr_stored r" "sr_cookie r = Some c"
  shows "\<exists>u. parse_url pf url = Some u \<and> domain_match (pu_host u) (ck_domain c) \<and>
    (ck_host_only c \<longrightarrow> ck_domain c = pu_host u) \<and> (\<not> ck_host_only c \<longrightarrow> \<not> is_public_suffix pf (ck_domain c)) \<and>
    (ck_secure c \<longrightarrow> is_secure_origin u) \<and> (ck_same_site c = Some SSNone \<longrightarrow> ck_secure c) \<and>
    (starts_with (ck_name c) ''__Secure-'' \<longrightarrow> ck_secure c) \<and>
    (starts_with (ck_name c) ''__Host-'' \<longrightarrow> ck_secure c \<and> ck_host_only c \<and> ck_path c = ''/'') \<and>
    \<not> has_ctl (ck_name c) \<and> \<not> has_ctl (ck_value c) \<and> cookie_byte_size (ck_name c) (ck_value c) \<le> 4096"
  using assms(3)
proof (cases rule: admit_cases)
  case (delete vo st1 i orig)
  note reg = register_origin_other [OF delete(1) assms(1)]
  show ?thesis using delete_identity_ok [OF reg(4) assms(2) delete(2)] assms(4) by simp
next
  case (store pair rest name val u a vo st1)
  note reg = register_origin_other [OF store(10) assms(1)]
  have key: "in_profile (jar_key (vo_id vo) ns) ns" by (rule in_profile_jar_key [OF assms(2) reg(5)])
  have c: "c = (described u name val a now)\<lparr>ck_created := ck_created c, ck_ref := js_next_ref st1\<rparr>"
    using store_cookie_ok [OF reg(4) assms(2) key store(9) store(11)] assms(4,5) by auto
  have c': "ck_name c = name" "ck_value c = val" "ck_domain c = (if at_domain a = [] then pu_host u else at_domain a)"
    "ck_host_only c = at_host_only a" "ck_path c = (if at_path a = [] then default_path (pu_path u) else at_path a)"
    "ck_secure c = at_secure a" "ck_same_site c = at_same_site a"
    by (subst c, simp add: described_def)+
  have host: "at_host_only a \<Longrightarrow> at_domain a = []" using parse_attrs_inv store(6) by blast
  have "domain_match (pu_host u) (ck_domain c)"
    using store(7) host by (auto simp: c' admission_refusal_def Let_def domain_match_def split: if_splits)
  moreover have "cookie_byte_size (ck_name c) (ck_value c) \<le> 4096"
    using store(8) by (simp add: c' COOKIE_MAX_BYTES_def)
  ultimately show ?thesis
    using store(3,4,5,7) host
    by (auto simp: c' admission_refusal_def Let_def split: if_splits)
qed (use assms(4) in simp)

theorem admission_gate_witness:
  "\<exists>r st c u. demo_admit = Some (r, st) \<and> sr_cookie r = Some c \<and>
     parse_url demo_platform ''http://a.b/x'' = Some u \<and> domain_match (pu_host u) (ck_domain c)"
proof -
  obtain r st where d: "demo_admit = Some (r, st)" "sr_stored r" using demo_admitted by blast
  have "case demo_admit of Some (r, st) \<Rightarrow> sr_cookie r \<noteq> None | None \<Rightarrow> False" by code_simp
  then obtain c where c: "sr_cookie r = Some c" unfolding d(1) by auto
  show ?thesis
    using admission_gate [OF jar_ok_initial default_no_sep d(1) [unfolded demo_admit_def] d(2) c] d c by blast
qed

text \<open>A script write never takes an HttpOnly cookie: every HttpOnly cookie of the profile is still in the jar
  after any \<open>document.cookie\<close> write, deletions included, unless the storage limits evicted it, and then
  the eviction was announced to the listeners.\<close>

theorem script_spares_http_only:
  assumes "jar_ok st" "SEP \<notin> set ns" "admit_cookie pf cd now url header True ns st = Some (r, st')"
    "(k, c) \<in> set (profile_entries ns (js_jars st))" "ck_http_only c"
  shows "(k, c) \<in> set (profile_entries ns (js_jars st')) \<or> announced st st' c"
  using assms(3)
proof (cases rule: admit_cases)
  case noop
  then show ?thesis using assms(4) by simp
next
  case (delete vo st1 i orig)
  note reg = register_origin_other [OF delete(1) assms(1)]
  show ?thesis using delete_identity_ok [OF reg(4) assms(2) delete(2)] assms(4,5) reg(1) by auto
next
  case (store pair rest name val u a vo st1)
  note reg = register_origin_other [OF store(10) assms(1)]
  have key: "in_profile (jar_key (vo_id vo) ns) ns" by (rule in_profile_jar_key [OF assms(2) reg(5)])
  have e: "(k, c) \<in> set (profile_entries ns (js_jars st1))" using assms(4) reg(1) by simp
  show ?thesis
    using store_cookie_keeps [OF reg(4) assms(2) key store(11) e] assms(5) reg(3) by (auto simp: announced_def)
qed

text \<open>A jar with an HttpOnly cookie, and a script write over it.\<close>

definition demo_http_only :: "(set_cookie_result \<times> jar_state) option" where
  "demo_http_only = admit_cookie demo_platform initial_codec 5 ''http://a.b/x'' ''k=v; HttpOnly'' False PROFILE_DEFAULT initial_jar"

definition demo_script_write :: "(set_cookie_result \<times> jar_state) option" where
  "demo_script_write = (case demo_http_only of None \<Rightarrow> None
     | Some (r, st) \<Rightarrow> admit_cookie demo_platform initial_codec 6 ''http://a.b/x'' ''k=w'' True PROFILE_DEFAULT st)"

theorem script_spares_http_only_witness:
  "\<exists>r st r' st' k c. demo_http_only = Some (r, st) \<and> demo_script_write = Some (r', st') \<and> ck_http_only c \<and>
     (k, c) \<in> set (profile_entries PROFILE_DEFAULT (js_jars st)) \<and>
     ((k, c) \<in> set (profile_entries PROFILE_DEFAULT (js_jars st')) \<or> announced st st' c)"
proof -
  have "case demo_http_only of None \<Rightarrow> False | Some (r, st) \<Rightarrow>
      list_ex (\<lambda>(k, c). ck_http_only c) (profile_entries PROFILE_DEFAULT (js_jars st))"
    "case demo_script_write of None \<Rightarrow> False | Some (r, st) \<Rightarrow> True" by code_simp+
  then obtain r st k c r' st' where d: "demo_http_only = Some (r, st)" "ck_http_only c"
      "(k, c) \<in> set (profile_entries PROFILE_DEFAULT (js_jars st))" "demo_script_write = Some (r', st')"
    by (auto simp: list_ex_iff split: option.splits)
  have ok: "jar_ok st" using admit_profile(1) [OF jar_ok_initial default_no_sep d(1) [unfolded demo_http_only_def]] .
  have "admit_cookie demo_platform initial_codec 6 ''http://a.b/x'' ''k=w'' True PROFILE_DEFAULT st = Some (r', st')"
    using d(4) unfolding demo_script_write_def d(1) by simp
  from script_spares_http_only [OF ok default_no_sep this d(3,2)] d show ?thesis by blast
qed

end
