(* ===== verification/CookieReads.thy ===== *)
theory CookieReads
  imports CookieAdmit
begin

text \<open>
  The seams of the jar (\<open>src/app/src/cookies.ts\<close>, from \<open>applySetCookie\<close> to \<open>jarClearScope\<close>): the capture
  of response headers, the \<open>Cookie\<close> header, \<open>document.cookie\<close>, the \<open>cookieStore\<close> facade, removal,
  snapshot, enumeration and scoped clearing.

  An enumeration is sorted with \<open>localeCompare\<close> in the code; the model keeps the order of the map.
\<close>

section \<open>Responses and requests\<close>

text \<open>\<open>applySetCookie\<close>: the headers of one response, in order. \<open>None\<close> is an exception of the admission.\<close>

fun admit_all ::
  "platform \<Rightarrow> codec \<Rightarrow> int \<Rightarrow> string \<Rightarrow> string list \<Rightarrow> string option \<Rightarrow> jar_state
   \<Rightarrow> (set_cookie_result list \<times> jar_state) option" where
  "admit_all pf cd now url [] cid st = Some ([], st)"
| "admit_all pf cd now url (h # hs) cid st =
     (case admit_cookie pf cd now url h False (namespace_for_client st cid) st of
        None \<Rightarrow> None
      | Some (r, st1) \<Rightarrow>
          (case admit_all pf cd now url hs cid st1 of
             None \<Rightarrow> None
           | Some (rs, st2) \<Rightarrow> Some (r # rs, st2)))"

definition apply_set_cookie ::
  "platform \<Rightarrow> codec \<Rightarrow> int \<Rightarrow> string \<Rightarrow> string list \<Rightarrow> string option \<Rightarrow> jar_state
   \<Rightarrow> (set_cookie_result list \<times> jar_state) option" where
  "apply_set_cookie pf cd now url headers cid st =
     (if namespace_for_client st cid = UNBOUND_GLOBAL_NAMESPACE then Some ([], st)
      else admit_all pf cd now url headers cid st)"

definition send_order :: "cookie \<Rightarrow> int \<times> int" where
  "send_order c = (- int (length (ck_path c)), ck_created c)"

definition cookie_pair :: "cookie \<Rightarrow> string" where
  "cookie_pair c = ck_name c @ ''='' @ ck_value c"

definition in_scope :: "parsed_url \<Rightarrow> cookie \<Rightarrow> bool" where
  "in_scope u c \<longleftrightarrow>
     (if ck_host_only c then pu_host u = ck_domain c else domain_match (pu_host u) (ck_domain c)) \<and>
     (\<not> ck_secure c \<or> pu_secure u) \<and> path_match (pu_path u) (ck_path c)"

definition purge_expired :: "int \<Rightarrow> jar_state \<Rightarrow> jar_state" where
  "purge_expired now st =
     (let js' = filter_buckets (\<lambda>_. True) (cookie_live now) (js_jars st);
          purged = list_ex (\<lambda>(_, l). \<not> list_all (cookie_live now) l) (js_jars st);
          st' = st\<lparr>js_jars := js'\<rparr>
      in if purged then schedule_persist st' else st')"

definition request_cookies ::
  "platform \<Rightarrow> parsed_url \<Rightarrow> request_context option \<Rightarrow> jar_state \<Rightarrow> cookie list" where
  "request_cookies pf u ctx st =
     sort_key send_order
       (filter (\<lambda>c. in_scope u c \<and> same_site_allows pf (js_policy st) c u ctx)
         (map snd (profile_entries
            (namespace_for_client st (case ctx of Some x \<Rightarrow> rc_client x | None \<Rightarrow> None)) (js_jars st))))"

definition cookie_header_for ::
  "platform \<Rightarrow> int \<Rightarrow> string \<Rightarrow> request_context option \<Rightarrow> jar_state \<Rightarrow> string option \<times> jar_state" where
  "cookie_header_for pf now url ctx st =
     (case parse_url pf url of
        None \<Rightarrow> (None, st)
      | Some u \<Rightarrow>
          let st' = purge_expired now st;
              cid = (case ctx of Some x \<Rightarrow> rc_client x | None \<Rightarrow> None)
          in if namespace_for_client st' cid = UNBOUND_GLOBAL_NAMESPACE then (None, st')
             else
               let matched = request_cookies pf u ctx st'
               in (if matched \<noteq> [] then Some (join_with ''; '' (map cookie_pair matched)) else None, st'))"

section \<open>The document\<close>

definition match_document_cookies ::
  "platform \<Rightarrow> int \<Rightarrow> string \<Rightarrow> string option \<Rightarrow> jar_state \<Rightarrow> cookie list" where
  "match_document_cookies pf now url cid st =
     (case parse_url pf url of
        None \<Rightarrow> []
      | Some u \<Rightarrow>
          let ns = namespace_for_client st cid in
          if ns = UNBOUND_GLOBAL_NAMESPACE then []
          else sort_key send_order
            (filter (\<lambda>c. \<not> (ck_http_only c \<or> (ck_expires c \<noteq> 0 \<and> ck_expires c \<le> now)) \<and> in_scope u c)
              (map snd (profile_entries ns (js_jars st)))))"

definition document_cookie_read ::
  "platform \<Rightarrow> int \<Rightarrow> string \<Rightarrow> string option \<Rightarrow> jar_state \<Rightarrow> string" where
  "document_cookie_read pf now url cid st =
     join_with ''; '' (map cookie_pair (match_document_cookies pf now url cid st))"

record facade_cookie =
  fc_name :: string
  fc_value :: string
  fc_path :: string
  fc_secure :: bool
  fc_same_site :: "same_site option"
  fc_expires :: int

definition document_cookie_items ::
  "platform \<Rightarrow> int \<Rightarrow> string \<Rightarrow> string option \<Rightarrow> jar_state \<Rightarrow> facade_cookie list" where
  "document_cookie_items pf now url cid st =
     map (\<lambda>c. \<lparr>fc_name = ck_name c, fc_value = ck_value c, fc_path = ck_path c, fc_secure = ck_secure c,
               fc_same_site = ck_same_site c, fc_expires = ck_expires c\<rparr>)
       (match_document_cookies pf now url cid st)"

definition document_cookie_write ::
  "platform \<Rightarrow> codec \<Rightarrow> int \<Rightarrow> string \<Rightarrow> string \<Rightarrow> string option \<Rightarrow> jar_state
   \<Rightarrow> (set_cookie_result \<times> jar_state) option" where
  "document_cookie_write pf cd now url text cid st =
     (let stripped = strip_httponly text in
      if namespace_for_client st cid = UNBOUND_GLOBAL_NAMESPACE then
        (let pair = js_trim (fst (cut_at (CHR '';'') stripped));
             name = (case index_of pair (CHR ''='') of
                       Some (Suc n) \<Rightarrow> js_trim (take (Suc n) pair) | _ \<Rightarrow> pair)
         in Some (plain_result name (Some ''unbound-client''), st))
      else admit_cookie pf cd now url stripped True (namespace_for_client st cid) st)"

section \<open>The cookieStore facade\<close>

text \<open>\<open>new Date(t).toUTCString()\<close> for integral times: the civil date of a day number.\<close>

definition civil_of_days :: "int \<Rightarrow> int \<times> nat \<times> nat" where
  "civil_of_days days =
     (let z = days + 719468;
          era = z div 146097;
          doe = z mod 146097;
          yoe = (doe - doe div 1460 + doe div 36524 - doe div 146096) div 365;
          doy = doe - (365 * yoe + yoe div 4 - yoe div 100);
          mp = (5 * doy + 2) div 153;
          d = doy - (153 * mp + 2) div 5 + 1;
          m = (if mp < 10 then mp + 3 else mp - 9)
      in (yoe + era * 400 + (if m \<le> 2 then 1 else 0), nat m, nat d))"

definition pad_digits :: "nat \<Rightarrow> nat \<Rightarrow> string" where
  "pad_digits w n = (let s = nat_digits n in replicate (w - length s) (CHR ''0'') @ s)"

definition WEEKDAYS :: "string list" where
  "WEEKDAYS = [''Sun'', ''Mon'', ''Tue'', ''Wed'', ''Thu'', ''Fri'', ''Sat'']"

definition MONTHS :: "string list" where
  "MONTHS = [''Jan'', ''Feb'', ''Mar'', ''Apr'', ''May'', ''Jun'', ''Jul'', ''Aug'', ''Sep'', ''Oct'', ''Nov'', ''Dec'']"

definition to_utc_string :: "int \<Rightarrow> string" where
  "to_utc_string t =
     (if 8640000000000000 < t \<or> t < - 8640000000000000 then ''Invalid Date''
      else
        let days = t div 86400000; ms = nat (t mod 86400000); (y, m, d) = civil_of_days days
        in WEEKDAYS ! nat ((days + 4) mod 7) @ '', '' @ pad_digits 2 d @ '' '' @ MONTHS ! (m - 1) @ '' ''
           @ (if y < 0 then ''-'' else []) @ pad_digits (if y < 0 then 6 else 4) (nat \<bar>y\<bar>) @ '' ''
           @ pad_digits 2 (ms div 3600000) @ '':'' @ pad_digits 2 (ms div 60000 mod 60) @ '':''
           @ pad_digits 2 (ms div 1000 mod 60) @ '' GMT'')"

definition init_path :: "json \<Rightarrow> string option" where
  "init_path init = (case jget init ''path'' of Some (JStr p) \<Rightarrow> if starts_with p ''/'' then Some p else None | _ \<Rightarrow> None)"

datatype facade_error = FacadeTypeError string | UrlTypeError

definition facade_header :: "string \<Rightarrow> json \<Rightarrow> facade_error + string" where
  "facade_header opn init =
     (let name = js_string_or_empty (jget init ''name''); val = js_string_or_empty (jget init ''value'');
          path = init_path init
      in if \<not> is_valid_cookie_name name then Inl (FacadeTypeError (''cookieStore.'' @ opn @ '': invalid cookie name''))
         else if opn = ''set'' \<and> \<not> is_valid_cookie_value val
         then Inl (FacadeTypeError ''cookieStore.set: invalid cookie value'')
         else if (case path of Some p \<Rightarrow> \<not> is_valid_facade_path p | None \<Rightarrow> False)
         then Inl (FacadeTypeError (''cookieStore.'' @ opn @ '': invalid cookie path''))
         else
           let path_part = (case path of Some p \<Rightarrow> [''Path='' @ p] | None \<Rightarrow> []) in
           if opn = ''set'' then
             Inr (join_with ''; ''
               ([name @ ''='' @ val] @ path_part
                @ (case jget init ''expires'' of Some (JNum t) \<Rightarrow> if 0 < t then [''Expires='' @ to_utc_string t] else [] | _ \<Rightarrow> [])
                @ (case jget init ''sameSite'' of
                     Some (JStr s) \<Rightarrow> if s \<in> {''strict'', ''lax'', ''none''} then [''SameSite='' @ s] else [] | _ \<Rightarrow> [])
                @ (if jget init ''secure'' = Some (JBool True) then [''Secure''] else [])))
           else Inr (join_with ''; '' ([name @ ''=''] @ path_part @ [''Max-Age=0''])))"

definition cookie_store_op ::
  "platform \<Rightarrow> codec \<Rightarrow> int \<Rightarrow> string option \<Rightarrow> json option \<Rightarrow> string \<Rightarrow> string option \<Rightarrow> jar_state
   \<Rightarrow> facade_error + (facade_cookie list \<times> string \<times> jar_state)" where
  "cookie_store_op pf cd now opn init url cid st =
     (let reply = (\<lambda>st'. Inr (document_cookie_items pf now url cid st', document_cookie_read pf now url cid st', st'))
      in case (init, opn) of
           (Some i, Some n) \<Rightarrow>
             if n = ''set'' \<or> n = ''delete'' then
               (case facade_header n i of
                  Inl e \<Rightarrow> Inl e
                | Inr h \<Rightarrow>
                    (case document_cookie_write pf cd now url h cid st of
                       None \<Rightarrow> Inl UrlTypeError
                     | Some (_, st') \<Rightarrow> reply st'))
             else reply st
         | _ \<Rightarrow> reply st)"

section \<open>Removal, snapshot, enumeration, clearing\<close>

definition jar_remove_identities ::
  "(string \<times> string \<times> bool \<times> string) list \<Rightarrow> string option \<Rightarrow> jar_state \<Rightarrow> nat \<times> jar_state" where
  "jar_remove_identities ids cid st =
     (let ns = (case truthy cid of Some _ \<Rightarrow> namespace_for_client st cid | None \<Rightarrow> PROFILE_DEFAULT);
          removed = length (filter (\<lambda>(_, c). cookie_id c \<in> set ids) (profile_entries ns (js_jars st)));
          st' = st\<lparr>js_jars := filter_buckets (\<lambda>k. in_profile k ns) (\<lambda>c. cookie_id c \<notin> set ids) (js_jars st)\<rparr>
      in (removed, if 0 < removed then schedule_persist st' else st'))"

definition bare_id :: "string \<Rightarrow> string" where
  "bare_id k = (case index_of k SEP of Some i \<Rightarrow> drop (Suc i) k | None \<Rightarrow> k)"

definition jar_snapshot :: "string option \<Rightarrow> jar_state \<Rightarrow> (string, cookie list) omap" where
  "jar_snapshot cid st =
     fold (\<lambda>(k, l) m. if in_profile k (namespace_for_client st cid) then AList.update (bare_id k) l m else m)
       (js_jars st) []"

definition origin_id_of :: "platform \<Rightarrow> codec \<Rightarrow> json option \<Rightarrow> jar_state \<Rightarrow> (string option \<times> jar_state) option" where
  "origin_id_of pf cd orig st =
     (case orig of
        Some (JStr s) \<Rightarrow>
          if s = [] then Some (None, st)
          else (case parse_url pf s of
            Some u \<Rightarrow> (case register_origin pf cd (pu_origin u) st of
                None \<Rightarrow> None | Some (vo, st') \<Rightarrow> Some (Some (vo_id vo), st'))
          | None \<Rightarrow>
              Some (if list_all (\<lambda>c. is_digit c \<or> (97 \<le> char_code c \<and> char_code c \<le> 122)) s then Some s else None, st))
      | _ \<Rightarrow> Some (None, st))"

record jar_origin_view =
  ov_origin :: "string option"
  ov_id :: string
  ov_cookies :: "cookie list"

record jar_profile_view =
  pv_profile :: string
  pv_active :: bool
  pv_cookies :: nat
  pv_origins :: "jar_origin_view list"

definition namespace_of_key :: "string \<Rightarrow> string" where
  "namespace_of_key k = (case index_of k SEP of Some i \<Rightarrow> take i k | None \<Rightarrow> PROFILE_DEFAULT)"

definition origin_views :: "jar_state \<Rightarrow> (string, cookie list) omap \<Rightarrow> jar_origin_view list" where
  "origin_views st m = map (\<lambda>(i, l). \<lparr>ov_origin = map_of (js_origin_by_id st) i, ov_id = i, ov_cookies = l\<rparr>) m"

definition jar_enumeration :: "string option \<Rightarrow> jar_state \<Rightarrow> jar_profile_view list" where
  "jar_enumeration cid st =
     (let by_profile = fold (\<lambda>(k, l) m.
            let ns = namespace_of_key k; pid = profile_name_for_namespace ns in
            if truthy cid \<noteq> None \<and> ns \<noteq> namespace_for_client st cid then m
            else AList.update pid (AList.update (bare_id k) l (case map_of m pid of Some o' \<Rightarrow> o' | None \<Rightarrow> [])) m)
          (js_jars st) [];
          active = active_profile st cid;
          all = (if omap_has by_profile active then by_profile else AList.update active [] by_profile)
      in map (\<lambda>(pid, m). \<lparr>pv_profile = pid, pv_active = (pid = active),
             pv_cookies = sum_list (map (length \<circ> snd) m), pv_origins = origin_views st m\<rparr>) all)"

definition jar_default_enumeration :: "jar_state \<Rightarrow> jar_profile_view list" where
  "jar_default_enumeration st =
     (let m = filter (\<lambda>(k, _). in_profile k PROFILE_DEFAULT) (js_jars st)
      in [\<lparr>pv_profile = PROFILE_DEFAULT, pv_active = True, pv_cookies = sum_list (map (length \<circ> snd) m),
           pv_origins = origin_views st m\<rparr>])"

record clear_reply =
  cl_ok :: bool
  cl_error :: "string option"
  cl_jars :: nat
  cl_cookies :: nat

definition clear_refused :: "string \<Rightarrow> clear_reply" where
  "clear_refused e = \<lparr>cl_ok = False, cl_error = Some e, cl_jars = 0, cl_cookies = 0\<rparr>"

text \<open>\<open>zl:clearJar\<close>; the outer \<open>None\<close> is an exception of \<open>registerOrigin\<close>.\<close>

definition jar_clear_scope ::
  "platform \<Rightarrow> codec \<Rightarrow> json option \<Rightarrow> json option \<Rightarrow> string option \<Rightarrow> jar_state \<Rightarrow> (clear_reply \<times> jar_state) option" where
  "jar_clear_scope pf cd profile_id orig cid st =
     (case (case profile_id of
              None \<Rightarrow> Some (active_profile st cid)
            | Some j \<Rightarrow> if j = JNull then Some (active_profile st cid) else json_profile_name (Some j)) of
        None \<Rightarrow> Some (clear_refused ''invalid profile'', st)
      | Some pid \<Rightarrow>
          (case (case orig of None \<Rightarrow> Some (Some None, st)
                 | Some _ \<Rightarrow> (case origin_id_of pf cd orig st of
                       None \<Rightarrow> None
                     | Some (None, st') \<Rightarrow> Some (None, st')
                     | Some (Some i, st') \<Rightarrow> Some (Some (Some i), st'))) of
             None \<Rightarrow> None
           | Some (None, st1) \<Rightarrow> Some (clear_refused ''invalid origin'', st1)
           | Some (Some target, st1) \<Rightarrow>
               let ns = namespace_for_profile pid (root_of st1 cid);
                   doomed = (case target of
                       None \<Rightarrow> filter (\<lambda>(k, _). in_profile k ns) (js_jars st1)
                     | Some i \<Rightarrow> filter (\<lambda>(k, _). k = jar_key i ns) (js_jars st1));
                   st2 = st1\<lparr>js_jars := filter (\<lambda>(k, _). k \<notin> fst ` set doomed) (js_jars st1)\<rparr>;
                   n = length doomed
               in Some (\<lparr>cl_ok = True, cl_error = None, cl_jars = n, cl_cookies = sum_list (map (length \<circ> snd) doomed)\<rparr>,
                        if 0 < n \<and> pid = PROFILE_DEFAULT then schedule_persist st2 else st2)))"

end
