(* ===== verification/CookieIsolation.thy ===== *)
theory CookieIsolation
  imports CookieReads
begin

text \<open>
  What the seams of the jar guarantee: the \<open>Cookie\<close> header and \<open>document.cookie\<close> are exactly the
  matching live cookies of the client's namespace, no other namespace influences them, a client that
  cannot be attributed has no cookies on any seam, and a session profile that ends leaves nothing.
\<close>

lemma some_pairE:
  "(case x of None \<Rightarrow> False | Some (a, b) \<Rightarrow> P a b) \<Longrightarrow> \<exists>a b. x = Some (a, b) \<and> P a b"
  by (auto split: option.splits)

section \<open>Purging\<close>

lemma purge_expired_fields [simp]:
  "js_jars (purge_expired now st) = filter_buckets (\<lambda>_. True) (cookie_live now) (js_jars st)"
  "js_policy (purge_expired now st) = js_policy st"
  by (simp_all add: purge_expired_def Let_def schedule_persist_def)

text \<open>The fields a client's namespace depends on.\<close>

definition same_attribution :: "jar_state \<Rightarrow> jar_state \<Rightarrow> bool" where
  "same_attribution st st' \<longleftrightarrow>
     js_policy st' = js_policy st \<and> js_profile st' = js_profile st \<and> js_client_roots st' = js_client_roots st \<and>
     js_root_profiles st' = js_root_profiles st \<and> js_unbound st' = js_unbound st \<and>
     js_restore_failed st' = js_restore_failed st \<and> js_global_assigned st' = js_global_assigned st"

lemma same_attribution_refl [simp]: "same_attribution st st"
  by (simp add: same_attribution_def)

lemma same_attribution_trans: "same_attribution a b \<Longrightarrow> same_attribution b c \<Longrightarrow> same_attribution a c"
  by (simp add: same_attribution_def)

lemma same_attribution_namespace:
  assumes "same_attribution st st'"
  shows "namespace_for_client st' cid = namespace_for_client st cid"
proof -
  note eqs = assms [unfolded same_attribution_def, THEN conjunct2]
  have e: "js_profile st' = js_profile st" "js_client_roots st' = js_client_roots st"
     "js_root_profiles st' = js_root_profiles st" "js_unbound st' = js_unbound st"
     "js_restore_failed st' = js_restore_failed st" "js_global_assigned st' = js_global_assigned st"
    using eqs by blast+
  show ?thesis
    unfolding namespace_for_client_def active_profile_def any_session_profile_active_def root_of_def e ..
qed

lemma same_attribution_steps [simp]:
  "same_attribution st (purge_expired now st)"
  "same_attribution st (schedule_persist st)"
  "same_attribution st (note_jar_change r u s st)"
  "same_attribution st (st\<lparr>js_jars := js\<rparr>)"
  "same_attribution st (st\<lparr>js_jars := js, js_next_ref := n\<rparr>)"
  by (simp_all add: same_attribution_def purge_expired_def Let_def schedule_persist_def note_jar_change_def)

lemma same_attribution_evictions [simp]: "same_attribution st (note_evictions removed ns st)"
  unfolding note_evictions_def
proof (induction removed arbitrary: st)
  case (Cons c cs)
  show ?case unfolding fold_Cons comp_apply by (rule same_attribution_trans [OF same_attribution_steps(3) Cons.IH])
qed simp

lemma register_origin_attribution: "register_origin pf cd orig st = Some (vo, st1) \<Longrightarrow> same_attribution st st1"
  by (auto simp: register_origin_def same_attribution_def Let_def split: option.splits)

lemma delete_identity_attribution: "delete_identity url name s ns i st = (r, st') \<Longrightarrow> same_attribution st st'"
proof -
  have "same_attribution st (note_jar_change res url s (schedule_persist (st\<lparr>js_jars := js\<rparr>)))" for res js
    by (rule same_attribution_trans [OF same_attribution_trans]) (rule same_attribution_steps)+
  then show "delete_identity url name s ns i st = (r, st') \<Longrightarrow> same_attribution st st'"
    unfolding delete_identity_def Let_def by (auto split: if_splits)
qed

lemma store_cookie_attribution: "store_cookie now url s ns key proto st = (r, st') \<Longrightarrow> same_attribution st st'"
proof -
  have "same_attribution st (note_jar_change res url s
      (schedule_persist (note_evictions rem ns (st\<lparr>js_jars := js, js_next_ref := n\<rparr>))))" for res rem js n
    by (rule same_attribution_trans [OF same_attribution_trans [OF same_attribution_trans]])
      (rule same_attribution_steps same_attribution_evictions)+
  note kept = this
  assume "store_cookie now url s ns key proto st = (r, st')"
  then obtain res rem js n where
      "st' = st \<or> st' = note_jar_change res url s (schedule_persist (note_evictions rem ns (st\<lparr>js_jars := js, js_next_ref := n\<rparr>)))"
    unfolding store_cookie_def Let_def case_prod_unfold by (auto split: if_splits)
  then show "same_attribution st st'" using kept same_attribution_refl by metis
qed

lemma admission_attribution:
  assumes "admit_cookie pf cd now url header s ns st = Some (r, st')"
  shows "same_attribution st st'"
  using assms
proof (cases rule: admit_cases)
  case (delete vo st1 i orig)
  show ?thesis
    by (rule same_attribution_trans [OF register_origin_attribution [OF delete(1)] delete_identity_attribution [OF delete(2)]])
next
  case (store pair rest name val u a vo st1)
  show ?thesis
    by (rule same_attribution_trans [OF register_origin_attribution [OF store(10)] store_cookie_attribution [OF store(11)]])
qed simp

lemma namespace_for_client_no_sep [simp]: "SEP \<notin> set (namespace_for_client st cid)"
  by (simp add: namespace_for_client_def namespace_no_sep)

definition client_of :: "request_context option \<Rightarrow> string option" where
  "client_of ctx = (case ctx of Some x \<Rightarrow> rc_client x | None \<Rightarrow> None)"

lemma purged_entries:
  "profile_entries ns (js_jars (purge_expired now st)) = filter (\<lambda>e. cookie_live now (snd e)) (profile_entries ns (js_jars st))"
  by (simp add: profile_entries_filter_buckets case_prod_unfold)

text \<open>The cookies of a namespace a request may carry, in the order of the jar.\<close>

definition sendable :: "platform \<Rightarrow> int \<Rightarrow> parsed_url \<Rightarrow> request_context option \<Rightarrow> jar_state \<Rightarrow> cookie list" where
  "sendable pf now u ctx st =
     filter (\<lambda>c. cookie_live now c \<and> in_scope u c \<and> same_site_allows pf (js_policy st) c u ctx)
       (map snd (profile_entries (namespace_for_client st (client_of ctx)) (js_jars st)))"

lemma request_cookies_purged:
  "request_cookies pf u ctx (purge_expired now st) = sort_key send_order (sendable pf now u ctx st)"
proof -
  have "namespace_for_client (purge_expired now st) cid = namespace_for_client st cid" for cid
    by (rule same_attribution_namespace) simp
  then show ?thesis
    unfolding request_cookies_def sendable_def client_of_def purged_entries
    by (simp add: filter_map comp_def filter_filter conj_commute conj_left_commute)
qed

lemma cookie_header_eq:
  assumes "parse_url pf url = Some u"
  shows "cookie_header_for pf now url ctx st =
    ((if namespace_for_client st (client_of ctx) = UNBOUND_GLOBAL_NAMESPACE \<or> sendable pf now u ctx st = [] then None
      else Some (join_with ''; '' (map cookie_pair (sort_key send_order (sendable pf now u ctx st))))),
     purge_expired now st)"
proof -
  have "namespace_for_client (purge_expired now st) cid = namespace_for_client st cid" for cid
    by (rule same_attribution_namespace) simp
  moreover have "sort_key send_order xs = [] \<longleftrightarrow> xs = []" for xs
    by (metis length_0_conv length_sort)
  ultimately show ?thesis
    by (simp add: cookie_header_for_def assms Let_def request_cookies_purged client_of_def)
qed

lemma documents_eq:
  assumes "parse_url pf url = Some u" "namespace_for_client st cid \<noteq> UNBOUND_GLOBAL_NAMESPACE"
  shows "match_document_cookies pf now url cid st =
    sort_key send_order (filter (\<lambda>c. \<not> ck_http_only c \<and> cookie_live now c \<and> in_scope u c)
      (map snd (profile_entries (namespace_for_client st cid) (js_jars st))))"
proof -
  have "(\<not> (ck_http_only c \<or> (ck_expires c \<noteq> 0 \<and> ck_expires c \<le> now)) \<and> in_scope u c)
      = (\<not> ck_http_only c \<and> cookie_live now c \<and> in_scope u c)" for c
    by (auto simp: cookie_live_def)
  then show ?thesis using assms by (simp add: match_document_cookies_def)
qed

lemma admission_noninterference:
  assumes "jar_ok st" "SEP \<notin> set ns" "ns \<noteq> namespace_for_client st (client_of ctx)"
    "admit_cookie pf cd t page header s ns st = Some (r, st')"
  shows "fst (cookie_header_for pf now url ctx st') = fst (cookie_header_for pf now url ctx st) \<and>
    document_cookie_read pf now url (client_of ctx) st' = document_cookie_read pf now url (client_of ctx) st"
proof -
  let ?ns = "namespace_for_client st (client_of ctx)"
  note attr = admission_attribution [OF assms(4)]
  have ns: "namespace_for_client st' (client_of ctx) = ?ns" by (rule same_attribution_namespace [OF attr])
  have entries: "profile_entries ?ns (js_jars st') = profile_entries ?ns (js_jars st)"
    using profile_entries_elsewhere [OF assms(2) _ _ admit_profile(2) [OF assms(1,2,4)]] assms(3) by simp
  have pol: "js_policy st' = js_policy st" using attr by (simp add: same_attribution_def)
  show ?thesis
  proof (cases "parse_url pf url")
    case None
    then show ?thesis by (simp add: cookie_header_for_def document_cookie_read_def match_document_cookies_def)
  next
    case (Some u)
    then show ?thesis
      by (simp only: cookie_header_eq [OF Some] sendable_def ns entries pol document_cookie_read_def match_document_cookies_def
          option.case Let_def fst_conv simp_thms)
  qed
qed

text \<open>The headers of one response: the jar stays well-formed and no other namespace is touched.\<close>

lemma admit_all_noninterference:
  assumes "jar_ok st" "ns = namespace_for_client st cid" "ns \<noteq> namespace_for_client st (client_of ctx)"
    "admit_all pf cd t page headers cid st = Some (rs, st')"
  shows "jar_ok st' \<and> same_attribution st st' \<and>
    fst (cookie_header_for pf now url ctx st') = fst (cookie_header_for pf now url ctx st) \<and>
    document_cookie_read pf now url (client_of ctx) st' = document_cookie_read pf now url (client_of ctx) st"
  using assms
proof (induction headers arbitrary: st rs)
  case (Cons h hs)
  from Cons.prems(4) obtain r st1 rs' where one: "admit_cookie pf cd t page h False ns st = Some (r, st1)"
      and rest: "admit_all pf cd t page hs cid st1 = Some (rs', st')"
    by (auto simp: Cons.prems(2) split: option.splits)
  note attr = admission_attribution [OF one]
  have sep: "SEP \<notin> set ns" unfolding Cons.prems(2) by simp
  note first = admission_noninterference [OF Cons.prems(1) sep Cons.prems(3) one]
  have "jar_ok st1" using admit_profile(1) [OF Cons.prems(1) sep one] .
  note IH = Cons.IH [OF this _ _ rest]
  have "ns = namespace_for_client st1 cid" "ns \<noteq> namespace_for_client st1 (client_of ctx)"
    unfolding same_attribution_namespace [OF attr] using Cons.prems(2,3) by simp_all
  note IH = IH [OF this]
  show ?case using IH first [of now url] same_attribution_trans [OF attr] by auto
qed simp

lemma session_namespaces_differ:
  assumes "active_profile st a \<noteq> PROFILE_DEFAULT" "truthy (root_of st a) \<noteq> truthy (root_of st b)"
  shows "namespace_for_client st a \<noteq> namespace_for_client st b"
  using namespace_inject [of "active_profile st a" "root_of st a" "active_profile st b" "root_of st b"] assms
  unfolding namespace_for_client_def by blast

text \<open>Clients of the unbound namespace.\<close>

lemma unbound_cookie_free:
  assumes "namespace_for_client st cid = UNBOUND_GLOBAL_NAMESPACE" "client_of ctx = cid"
  shows "fst (cookie_header_for pf now url ctx st) = None"
    "document_cookie_read pf now url cid st = []" "document_cookie_items pf now url cid st = []"
    "apply_set_cookie pf cd now url headers cid st = Some ([], st)"
    "\<exists>name. document_cookie_write pf cd now url text cid st = Some (plain_result name (Some ''unbound-client''), st)"
proof -
  show "fst (cookie_header_for pf now url ctx st) = None"
  proof (cases "parse_url pf url")
    case None
    then show ?thesis by (simp add: cookie_header_for_def)
  next
    case (Some u)
    show ?thesis unfolding cookie_header_eq [OF Some] by (simp add: assms)
  qed
  have "match_document_cookies pf now url cid st = []"
    by (simp add: match_document_cookies_def assms(1) split: option.split)
  then show "document_cookie_read pf now url cid st = []" "document_cookie_items pf now url cid st = []"
    by (simp_all add: document_cookie_read_def document_cookie_items_def)
  show "apply_set_cookie pf cd now url headers cid st = Some ([], st)"
    by (simp add: apply_set_cookie_def assms(1))
  show "\<exists>name. document_cookie_write pf cd now url text cid st = Some (plain_result name (Some ''unbound-client''), st)"
    unfolding document_cookie_write_def Let_def if_P [OF assms(1)] by blast
qed

lemma failed_restore_unbound:
  assumes "js_restore_failed st" "\<not> js_global_assigned st" "truthy (root_of st cid) = None"
  shows "namespace_for_client st cid = UNBOUND_GLOBAL_NAMESPACE"
  unfolding namespace_for_client_def active_profile_def UNBOUND_GLOBAL_NAMESPACE_def namespace_for_profile_def assms(3)
  using assms by (simp add: truthy_def)

text \<open>Clearing a namespace.\<close>

lemma clear_namespace_entries:
  assumes "SEP \<notin> set ns" "ns \<noteq> PROFILE_DEFAULT"
  shows "profile_entries ns (js_jars (clear_namespace ns st)) = []"
    "SEP \<notin> set ns' \<Longrightarrow> ns' \<noteq> ns \<Longrightarrow> profile_entries ns' (js_jars (clear_namespace ns st)) = profile_entries ns' (js_jars st)"
proof -
  let ?f = "\<lambda>js. filter (\<lambda>(k, _). \<not> starts_with k (ns @ [SEP])) js"
  have in_ns: "in_profile k ns \<longleftrightarrow> starts_with k (ns @ [SEP])" for k using assms(2) by (simp add: in_profile_def)
  have "profile_entries ns (?f js) = []" for js by (induction js) (auto simp: in_ns)
  then show "profile_entries ns (js_jars (clear_namespace ns st)) = []" by (simp add: clear_namespace_def)
  assume "SEP \<notin> set ns'" "ns' \<noteq> ns"
  then have "in_profile k ns' \<Longrightarrow> \<not> in_profile k ns" for k
    using in_profile_unique [OF assms(1)] by blast
  then have "profile_entries ns' (?f js) = profile_entries ns' js" for js
    by (induction js) (auto simp: in_ns [symmetric] split: if_splits)
  then show "profile_entries ns' (js_jars (clear_namespace ns st)) = profile_entries ns' (js_jars st)"
    by (simp add: clear_namespace_def)
qed

text \<open>A client in a session profile that has stored one cookie, for the witnesses.\<close>

definition demo_profiled :: jar_state where
  "demo_profiled = snd (set_jar_profile (Some ''alt'') (Some ''w'') initial_jar)"

definition demo_session :: "(set_cookie_result list \<times> jar_state) option" where
  "demo_session = apply_set_cookie demo_platform initial_codec 5 ''http://a.b/x'' [''k=v; Path=/''] (Some ''w'') demo_profiled"

definition demo_ctx :: "string \<Rightarrow> request_context option" where
  "demo_ctx cid = Some \<lparr>rc_initiator = None, rc_navigation = False, rc_client = Some cid\<rparr>"

lemma demo_session_facts:
  "\<exists>rs st. demo_session = Some (rs, st) \<and>
     namespace_for_client st (Some ''w'') \<noteq> UNBOUND_GLOBAL_NAMESPACE \<and> js_policy st = PolicyOff \<and>
     fst (cookie_header_for demo_platform 6 ''http://a.b/x'' (demo_ctx ''w'') st) = Some ''k=v''"
proof -
  have "case demo_session of None \<Rightarrow> False | Some (rs, st) \<Rightarrow>
     namespace_for_client st (Some ''w'') \<noteq> UNBOUND_GLOBAL_NAMESPACE \<and> js_policy st = PolicyOff \<and>
     fst (cookie_header_for demo_platform 6 ''http://a.b/x'' (demo_ctx ''w'') st) = Some ''k=v''" by code_simp
  then show ?thesis by (rule some_pairE)
qed

lemma demo_profiled_ok: "jar_ok demo_profiled"
proof -
  have "js_jars demo_profiled = [] \<and> js_registry demo_profiled = []" by code_simp
  then show ?thesis by (simp add: jar_ok_def profile_ok_def refs_distinct_def)
qed

lemma demo_parse: "\<exists>u. parse_url demo_platform ''http://a.b/x'' = Some u"
proof -
  have "parse_url demo_platform ''http://a.b/x'' \<noteq> None" by code_simp
  then show ?thesis by auto
qed

section \<open>Properties\<close>

lemma secure_over_http_withheld: "ck_secure c \<Longrightarrow> \<not> pu_secure u \<Longrightarrow> \<not> in_scope u c"
  by (simp add: in_scope_def)

text \<open>C6. The \<open>Cookie\<close> header of a request is exactly the live cookies of the client's namespace whose domain,
  path, Secure and SameSite rules admit it, longest path first and then oldest first; reading it drops the
  expired cookies of every profile and nothing else. A Secure cookie is admitted to https only
  (\<open>secure_over_http_withheld\<close>), loopback included; \<open>docs/cookies.md\<close> says loopback requests carry it too.\<close>

theorem cookie_header_exact:
  assumes "parse_url pf url = Some u" "namespace_for_client st (client_of ctx) \<noteq> UNBOUND_GLOBAL_NAMESPACE"
    "cookie_header_for pf now url ctx st = (h, st')"
  shows "\<exists>sent. h = (if sent = [] then None else Some (join_with ''; '' (map cookie_pair sent))) \<and>
    sorted (map send_order sent) \<and>
    mset sent = mset (filter (\<lambda>c. cookie_live now c \<and> in_scope u c \<and> same_site_allows pf (js_policy st) c u ctx)
      (map snd (profile_entries (namespace_for_client st (client_of ctx)) (js_jars st)))) \<and>
    (\<forall>ns. profile_entries ns (js_jars st') = filter (\<lambda>e. cookie_live now (snd e)) (profile_entries ns (js_jars st)))"
proof -
  have "sort_key send_order xs = [] \<longleftrightarrow> xs = []" for xs
    by (metis length_0_conv length_sort)
  then have h: "h = (if sort_key send_order (sendable pf now u ctx st) = [] then None
      else Some (join_with ''; '' (map cookie_pair (sort_key send_order (sendable pf now u ctx st)))))"
    and st': "st' = purge_expired now st"
    using assms(2,3) unfolding cookie_header_eq [OF assms(1)] by auto
  show ?thesis
    by (intro exI conjI, rule h) (simp_all only: st' purged_entries sendable_def sorted_sort_key mset_sort simp_thms)
qed

theorem cookie_header_exact_witness:
  "\<exists>rs st sent. demo_session = Some (rs, st) \<and> sent \<noteq> [] \<and>
     Some ''k=v'' = Some (join_with ''; '' (map cookie_pair sent)) \<and> sorted (map send_order sent)"
proof -
  obtain rs st where d: "demo_session = Some (rs, st)"
      "namespace_for_client st (client_of (demo_ctx ''w'')) \<noteq> UNBOUND_GLOBAL_NAMESPACE"
      "fst (cookie_header_for demo_platform 6 ''http://a.b/x'' (demo_ctx ''w'') st) = Some ''k=v''"
    using demo_session_facts by (auto simp: client_of_def demo_ctx_def)
  obtain u where u: "parse_url demo_platform ''http://a.b/x'' = Some u" using demo_parse by blast
  from cookie_header_exact [OF u d(2) surjective_pairing, of 6]
  obtain sent where "Some ''k=v'' = (if sent = [] then None else Some (join_with ''; '' (map cookie_pair sent)))"
      "sorted (map send_order sent)" unfolding d(3) by blast
  then show ?thesis using d(1) by (intro exI [of _ rs] exI [of _ st] exI [of _ sent]) (simp split: if_splits)
qed

text \<open>Without the SameSite approximation a document reads what its requests send, less the HttpOnly cookies:
  the same cookies in the same order.\<close>

theorem document_reads_header_cookies:
  assumes "parse_url pf url = Some u" "js_policy st = PolicyOff" "cid = client_of ctx"
    "namespace_for_client st cid \<noteq> UNBOUND_GLOBAL_NAMESPACE"
  shows "match_document_cookies pf now url cid st =
    filter (\<lambda>c. \<not> ck_http_only c) (request_cookies pf u ctx (purge_expired now st))"
  unfolding documents_eq [OF assms(1,4)] request_cookies_purged sendable_def filter_sort filter_filter
  by (rule arg_cong [where f = "sort_key send_order"])
    (use assms(2,3) in \<open>auto simp: same_site_allows_def intro: filter_cong\<close>)

theorem document_reads_header_cookies_witness:
  "\<exists>rs st u. demo_session = Some (rs, st) \<and> parse_url demo_platform ''http://a.b/x'' = Some u \<and>
     match_document_cookies demo_platform 6 ''http://a.b/x'' (Some ''w'') st =
       filter (\<lambda>c. \<not> ck_http_only c) (request_cookies demo_platform u (demo_ctx ''w'') (purge_expired 6 st))"
proof -
  obtain rs st where d: "demo_session = Some (rs, st)" "js_policy st = PolicyOff"
      "namespace_for_client st (Some ''w'') \<noteq> UNBOUND_GLOBAL_NAMESPACE"
    using demo_session_facts by blast
  obtain u where u: "parse_url demo_platform ''http://a.b/x'' = Some u" using demo_parse by blast
  have "Some ''w'' = client_of (demo_ctx ''w'')" by (simp add: client_of_def demo_ctx_def)
  from document_reads_header_cookies [OF u d(2) this d(3)] d(1) u show ?thesis by blast
qed

text \<open>C1. Session profiles do not interfere: whatever a response sets for a client in a session profile changes
  neither the \<open>Cookie\<close> header nor the document's cookies of a client under another root.\<close>

theorem session_isolation:
  assumes "jar_ok st" "active_profile st cid \<noteq> PROFILE_DEFAULT" "truthy (root_of st cid) \<noteq> truthy (root_of st (client_of ctx))"
    "apply_set_cookie pf cd t page headers cid st = Some (rs, st')"
  shows "fst (cookie_header_for pf now url ctx st') = fst (cookie_header_for pf now url ctx st) \<and>
    document_cookie_read pf now url (client_of ctx) st' = document_cookie_read pf now url (client_of ctx) st"
  using admit_all_noninterference [OF assms(1) refl session_namespaces_differ [OF assms(2,3)]] assms(4)
  unfolding apply_set_cookie_def by (auto split: if_splits)

theorem session_isolation_witness:
  "\<exists>rs st. demo_session = Some (rs, st) \<and>
     fst (cookie_header_for demo_platform 6 ''http://a.b/x'' (demo_ctx ''z'') st)
       = fst (cookie_header_for demo_platform 6 ''http://a.b/x'' (demo_ctx ''z'') demo_profiled)"
proof -
  obtain rs st where d: "demo_session = Some (rs, st)" using demo_session_facts by blast
  have a: "active_profile demo_profiled (Some ''w'') \<noteq> PROFILE_DEFAULT"
    "truthy (root_of demo_profiled (Some ''w'')) \<noteq> truthy (root_of demo_profiled (client_of (demo_ctx ''z'')))"
    by code_simp+
  from session_isolation [OF demo_profiled_ok a d [unfolded demo_session_def]] d show ?thesis by blast
qed

text \<open>C7. A failed or refused restore of the profile store leaves no client without a root attributed to a profile:
  until the host assigns one, such a client sends, reads, stores and writes no cookie.\<close>

theorem failed_restore_cookie_free:
  assumes "r = StoreError \<or> (\<exists>j. r = Record j \<and> parse_snapshot j = None)" "st = restore_jar_profiles r st0"
    "\<not> js_global_assigned st0" "truthy (root_of st (client_of ctx)) = None"
  shows "fst (cookie_header_for pf now url ctx st) = None \<and>
    document_cookie_read pf now url (client_of ctx) st = [] \<and>
    apply_set_cookie pf cd now url headers (client_of ctx) st = Some ([], st) \<and>
    (\<exists>name. document_cookie_write pf cd now url text (client_of ctx) st
       = Some (plain_result name (Some ''unbound-client''), st))"
proof -
  have "js_restore_failed st" "\<not> js_global_assigned st"
    using assms(1-3) by (auto simp: restore_jar_profiles_def)
  note ns = failed_restore_unbound [OF this assms(4)]
  show ?thesis using unbound_cookie_free [OF ns refl] by blast
qed

theorem failed_restore_cookie_free_witness:
  "fst (cookie_header_for demo_platform 6 ''http://a.b/x'' (demo_ctx ''w'') (restore_jar_profiles StoreError initial_jar)) = None"
proof -
  have "\<not> js_global_assigned initial_jar"
    "truthy (root_of (restore_jar_profiles StoreError initial_jar) (client_of (demo_ctx ''w''))) = None" by code_simp+
  from failed_restore_cookie_free [OF _ refl this] show ?thesis by blast
qed

text \<open>Leaving a session profile wipes it: when a client's root changes profile, the jar keeps no cookie of the
  namespace the client was in, every other namespace keeps all of its cookies, and the client is in the
  new profile under another namespace.\<close>

theorem profile_change_wipes_session:
  assumes "truthy cid = Some c" "root_of st cid = Some root" "root \<noteq> []"
    "map_of (js_root_profiles st) root = Some prev" "prev \<noteq> PROFILE_DEFAULT"
    "set_jar_profile p cid st = (nxt, st')" "nxt \<noteq> prev"
  shows "profile_entries (namespace_for_client st cid) (js_jars st') = [] \<and>
    (\<forall>ns. SEP \<notin> set ns \<and> ns \<noteq> namespace_for_client st cid \<longrightarrow>
       profile_entries ns (js_jars st') = profile_entries ns (js_jars st)) \<and>
    active_profile st' cid = nxt \<and> namespace_for_client st' cid \<noteq> namespace_for_client st cid"
proof -
  let ?ns = "namespace_for_profile prev (Some root)"
  let ?st1 = "st\<lparr>js_assigned_roots := List.insert root (js_assigned_roots st),
    js_root_profiles := AList.update root nxt (js_root_profiles st),
    js_client_roots := AList.update c root (js_client_roots st)\<rparr>"
  have root: "truthy (Some root) = Some root" using assms(3) by (simp add: truthy_def)
  have before: "active_profile st cid = prev" using assms(2,4) root by (simp add: active_profile_def)
  then have ns: "namespace_for_client st cid = ?ns" by (simp add: namespace_for_client_def assms(2))
  have st': "st' = clear_namespace ?ns ?st1" using assms by (auto simp: set_jar_profile_def Let_def split: if_splits)
  then have "root_of st' cid = Some root" "js_root_profiles st' = AList.update root nxt (js_root_profiles st)"
    using assms(1) by (simp_all add: root_of_def clear_namespace_def update_conv)
  then have after: "active_profile st' cid = nxt" "root_of st' cid = Some root"
    using root by (simp_all add: active_profile_def update_conv)
  have "?ns \<noteq> PROFILE_DEFAULT" using namespace_default assms(5) by blast
  have "namespace_for_client st' cid \<noteq> ?ns"
    using namespace_inject [of nxt "Some root" prev "Some root"] assms(7)
    unfolding namespace_for_client_def after by blast
  then show ?thesis using clear_namespace_entries [OF namespace_no_sep \<open>?ns \<noteq> PROFILE_DEFAULT\<close>] after(1)
    unfolding ns st' by simp
qed

theorem profile_change_wipes_session_witness:
  "\<exists>rs st st'. demo_session = Some (rs, st) \<and> set_jar_profile None (Some ''w'') st = (PROFILE_DEFAULT, st') \<and>
     profile_entries (namespace_for_client st (Some ''w'')) (js_jars st) \<noteq> [] \<and>
     profile_entries (namespace_for_client st (Some ''w'')) (js_jars st') = []"
proof -
  have "case demo_session of None \<Rightarrow> False | Some (rs, st) \<Rightarrow>
      root_of st (Some ''w'') = Some ''w'' \<and> map_of (js_root_profiles st) ''w'' = Some ''alt'' \<and>
      fst (set_jar_profile None (Some ''w'') st) = PROFILE_DEFAULT \<and>
      profile_entries (namespace_for_client st (Some ''w'')) (js_jars st) \<noteq> []" by code_simp
  from some_pairE [OF this] obtain rs st where d: "demo_session = Some (rs, st)" "root_of st (Some ''w'') = Some ''w''"
      "map_of (js_root_profiles st) ''w'' = Some ''alt''" "fst (set_jar_profile None (Some ''w'') st) = PROFILE_DEFAULT"
      "profile_entries (namespace_for_client st (Some ''w'')) (js_jars st) \<noteq> []" by blast
  then obtain st' where d': "set_jar_profile None (Some ''w'') st = (PROFILE_DEFAULT, st')" by (metis prod.collapse)
  have "truthy (Some ''w'') = Some ''w''" "''w'' \<noteq> []" "''alt'' \<noteq> PROFILE_DEFAULT" "PROFILE_DEFAULT \<noteq> ''alt''"
    by (simp_all add: truthy_def PROFILE_DEFAULT_def)
  from profile_change_wipes_session [OF this(1) d(2) this(2) d(3) this(3) d' this(4)] d d' show ?thesis by blast
qed

section \<open>A hole in the script boundary\<close>

text \<open>
  \<open>documentCookieWrite\<close> strips \<open>; httponly\<close> from the text of the script and then parses attributes. Two
  separators in a row hide one occurrence from the expression, and removing the other one moves it up:
  a script stores an HttpOnly cookie, which later script writes can neither replace nor delete.
\<close>

definition demo_forged :: "(set_cookie_result \<times> jar_state) option" where
  "demo_forged = document_cookie_write demo_platform initial_codec 5 ''http://a.b/x'' ''a=b;;httponly httponly'' None initial_jar"

lemma script_can_mint_http_only:
  "\<exists>r st c. demo_forged = Some (r, st) \<and> sr_stored r \<and> sr_cookie r = Some c \<and> ck_http_only c"
proof -
  have "case demo_forged of None \<Rightarrow> False | Some (r, st) \<Rightarrow>
     sr_stored r \<and> (case sr_cookie r of Some c \<Rightarrow> ck_http_only c | None \<Rightarrow> False)" by code_simp
  from some_pairE [OF this] obtain r st where "demo_forged = Some (r, st)" "sr_stored r"
      "case sr_cookie r of Some c \<Rightarrow> ck_http_only c | None \<Rightarrow> False" by blast
  then show ?thesis by (cases "sr_cookie r") auto
qed

end
