(* ===== verification/CookiePersist.thy ===== *)
theory CookiePersist
  imports CookieIsolation
begin

text \<open>
  The durable jar (\<open>src/app/src/cookies.ts\<close>, from \<open>jarPersist\<close> to \<open>cookiesResetForTests\<close>): what is
  written to the store, the restore with its checks and its migration of old keys, and the import of a
  session in replace and merge mode. A record of the store is a JSON value. The debounce timer is
  \<open>js_save_timer\<close>; the write itself, which the code queues on a promise chain, is the step \<open>jar_persist\<close>.
\<close>

section \<open>Cookies as stored records\<close>

definition get_str :: "json \<Rightarrow> string \<Rightarrow> string option" where
  "get_str j k = (case jget j k of Some (JStr s) \<Rightarrow> Some s | _ \<Rightarrow> None)"

definition get_bool :: "json \<Rightarrow> string \<Rightarrow> bool option" where
  "get_bool j k = (case jget j k of Some (JBool b) \<Rightarrow> Some b | _ \<Rightarrow> None)"

definition get_num :: "json \<Rightarrow> string \<Rightarrow> int option" where
  "get_num j k = (case jget j k of Some (JNum n) \<Rightarrow> Some n | _ \<Rightarrow> None)"

definition is_stored_cookie :: "json \<Rightarrow> bool" where
  "is_stored_cookie c \<longleftrightarrow>
     get_str c ''name'' \<noteq> None \<and> get_str c ''value'' \<noteq> None \<and> get_str c ''domain'' \<noteq> None \<and>
     get_bool c ''hostOnly'' \<noteq> None \<and> get_str c ''path'' \<noteq> None \<and> get_bool c ''secure'' \<noteq> None \<and>
     get_bool c ''httpOnly'' \<noteq> None \<and> get_num c ''expires'' \<noteq> None \<and> get_num c ''created'' \<noteq> None"

definition same_site_of_json :: "json option \<Rightarrow> same_site option" where
  "same_site_of_json j =
     (case j of
        None \<Rightarrow> None
      | Some v \<Rightarrow>
          if v = JNull then None else if v = JStr ''strict'' then Some Strict
          else if v = JStr ''lax'' then Some Lax else if v = JStr ''none'' then Some SSNone
          else Some (SSOther v))"

definition cookie_of_json :: "nat \<Rightarrow> json \<Rightarrow> cookie" where
  "cookie_of_json ref c =
     \<lparr>ck_name = the (get_str c ''name''), ck_value = the (get_str c ''value''), ck_domain = the (get_str c ''domain''),
      ck_host_only = the (get_bool c ''hostOnly''), ck_path = the (get_str c ''path''),
      ck_secure = the (get_bool c ''secure''), ck_http_only = the (get_bool c ''httpOnly''),
      ck_same_site = same_site_of_json (jget c ''sameSite''), ck_expires = the (get_num c ''expires''),
      ck_created = the (get_num c ''created''), ck_ref = ref\<rparr>"

definition same_site_json :: "same_site option \<Rightarrow> (string \<times> json) list" where
  "same_site_json s =
     (case s of
        None \<Rightarrow> []
      | Some v \<Rightarrow> [(''sameSite'', case v of Strict \<Rightarrow> JStr ''strict'' | Lax \<Rightarrow> JStr ''lax'' | SSNone \<Rightarrow> JStr ''none''
                                   | SSOther j \<Rightarrow> j)])"

text \<open>A cookie object as the store keeps it.\<close>

definition cookie_json :: "cookie \<Rightarrow> json" where
  "cookie_json c =
     JObj ([(''name'', JStr (ck_name c)), (''value'', JStr (ck_value c)), (''domain'', JStr (ck_domain c)),
            (''hostOnly'', JBool (ck_host_only c)), (''path'', JStr (ck_path c)), (''secure'', JBool (ck_secure c)),
            (''httpOnly'', JBool (ck_http_only c)), (''expires'', JNum (ck_expires c)), (''created'', JNum (ck_created c))]
           @ same_site_json (ck_same_site c))"

text \<open>\<open>list.filter(isStoredCookie)\<close>: every record that passes is an object of its own.\<close>

fun stored_cookies :: "nat \<Rightarrow> json list \<Rightarrow> cookie list" where
  "stored_cookies n [] = []"
| "stored_cookies n (c # cs) =
     (if is_stored_cookie c then cookie_of_json n c # stored_cookies (Suc n) cs else stored_cookies n cs)"

section \<open>Writing\<close>

text \<open>\<open>jarPersist\<close>: the jar record, the origins record and the swept state.\<close>

definition jar_persist :: "int \<Rightarrow> jar_state \<Rightarrow> (jars \<times> (string \<times> string) list) \<times> jar_state" where
  "jar_persist now st =
     (let (removed, js) = sweep_jar_limits now PROFILE_DEFAULT (\<lambda>_. False) (js_jars st);
          st1 = note_evictions removed PROFILE_DEFAULT (st\<lparr>js_jars := js\<rparr>);
          entries = filter (\<lambda>(k, _). SEP \<notin> set k) (js_jars st1);
          durable = map fst entries
      in ((entries, filter (\<lambda>(i, _). i \<in> set durable) (js_origin_by_id st1)), st1))"

definition flush_jar_persist :: "int \<Rightarrow> jar_state \<Rightarrow> (jars \<times> (string \<times> string) list) \<times> jar_state" where
  "flush_jar_persist now st = jar_persist now (st\<lparr>js_save_timer := False\<rparr>)"

definition jar_record :: "jars \<Rightarrow> json" where
  "jar_record js = JArr (map (\<lambda>(k, l). JArr [JStr k, JArr (map cookie_json l)]) js)"

definition origins_record :: "(string \<times> string) list \<Rightarrow> json" where
  "origins_record ids = JArr (map (\<lambda>(i, o'). JArr [JStr i, JStr o']) ids)"

section \<open>Restoring\<close>

definition read_origins :: "json option \<Rightarrow> (string, string) omap" where
  "read_origins ids =
     (case ids of
        Some (JArr rows) \<Rightarrow>
          fold (\<lambda>row m. case row of JArr (JStr i # JStr o' # _) \<Rightarrow> AList.update i o' m | _ \<Rightarrow> m) rows []
      | _ \<Rightarrow> [])"

definition migrate_origins :: "platform \<Rightarrow> (string, string) omap \<Rightarrow> (string, string) omap" where
  "migrate_origins pf old =
     fold (\<lambda>(i, o') m. case (origin_jar_id pf o', new_url pf o') of
         (Some i', Some u) \<Rightarrow> AList.update i' (url_origin u) m | _ \<Rightarrow> m) old []"

text \<open>The key a stored key loads under.\<close>

definition load_key :: "platform \<Rightarrow> (string, string) omap \<Rightarrow> string \<Rightarrow> string" where
  "load_key pf old k =
     (let (pid, i) = (case index_of k SEP of None \<Rightarrow> ([], k) | Some n \<Rightarrow> (take n k, drop (Suc n) k));
          new_id = (case truthy (map_of old i) of
                      Some orig \<Rightarrow> (case origin_jar_id pf orig of Some i' \<Rightarrow> i' | None \<Rightarrow> i)
                    | None \<Rightarrow> i)
      in if pid = [] then new_id
         else if starts_with pid ''client:'' \<or> starts_with pid ''legacy:'' then pid @ SEP # new_id
         else namespace_for_profile pid None @ SEP # new_id)"

definition load_entry :: "platform \<Rightarrow> (string, string) omap \<Rightarrow> json \<Rightarrow> nat \<times> jars \<Rightarrow> nat \<times> jars" where
  "load_entry pf old entry acc =
     (case entry of
        JArr (JStr k # JArr cs # _) \<Rightarrow>
          let l = stored_cookies (fst acc) cs
          in if l = [] then acc else (fst acc + length l, AList.update (load_key pf old k) l (snd acc))
      | _ \<Rightarrow> acc)"

text \<open>\<open>jarLoad\<close>: \<open>None\<close> is a store that cannot be read, and leaves the jar as it is.\<close>

definition jar_load :: "platform \<Rightarrow> (json option \<times> json option) option \<Rightarrow> jar_state \<Rightarrow> jar_state" where
  "jar_load pf store st =
     (case store of
        None \<Rightarrow> st
      | Some (rec, ids) \<Rightarrow>
          let old = read_origins ids;
              (n, js) = (case rec of Some (JArr es) \<Rightarrow> fold (load_entry pf old) es (js_next_ref st, []) | _ \<Rightarrow> (js_next_ref st, []))
          in st\<lparr>js_origin_by_id := migrate_origins pf old, js_jars := js, js_next_ref := n\<rparr>)"

section \<open>Importing a session\<close>

definition valid_import_key :: "json \<Rightarrow> string option" where
  "valid_import_key k = (case k of JStr s \<Rightarrow> if s \<noteq> [] \<and> SEP \<notin> set s then Some s else None | _ \<Rightarrow> None)"

definition import_entry :: "json \<Rightarrow> (string \<times> json list) option" where
  "import_entry e =
     (case e of
        JArr (k # JArr cs # _) \<Rightarrow> (case valid_import_key k of Some s \<Rightarrow> Some (s, cs) | None \<Rightarrow> None)
      | _ \<Rightarrow> None)"

definition replace_entry :: "string \<Rightarrow> json \<Rightarrow> nat \<times> jars \<Rightarrow> nat \<times> jars" where
  "replace_entry ns e acc =
     (case import_entry e of
        None \<Rightarrow> acc
      | Some (k, cs) \<Rightarrow>
          let l = stored_cookies (fst acc) cs
          in if l = [] then acc else (fst acc + length l, AList.update (jar_key k ns) l (snd acc)))"

definition jar_replace :: "json list \<Rightarrow> string option \<Rightarrow> jar_state \<Rightarrow> jar_state" where
  "jar_replace entries cid st =
     (let ns = namespace_for_client st cid;
          (n, js) = fold (replace_entry ns) entries
                      (js_next_ref st, filter (\<lambda>(k, _). \<not> in_profile k ns) (js_jars st))
      in st\<lparr>js_jars := js, js_next_ref := n\<rparr>)"

datatype conflict_rule = ImportWins | KeepExisting | KeepNewest

record merge_counts =
  mc_jars :: nat
  mc_cookies :: nat
  mc_conflicts :: nat

definition find_identity :: "string \<times> string \<times> bool \<times> string \<Rightarrow> cookie list \<Rightarrow> nat option" where
  "find_identity i l = (case filter (\<lambda>(_, c). cookie_id c = i) (enumerate 0 l) of (n, _) # _ \<Rightarrow> Some n | [] \<Rightarrow> None)"

text \<open>One imported cookie against the bucket: the bucket, and the counts of cookies and conflicts.\<close>

definition merge_cookie :: "conflict_rule \<Rightarrow> cookie \<Rightarrow> cookie list \<times> nat \<times> nat \<Rightarrow> cookie list \<times> nat \<times> nat" where
  "merge_cookie rule c acc =
     (case acc of (l, cookies, conflicts) \<Rightarrow>
        (case find_identity (cookie_id c) l of
           None \<Rightarrow> (l @ [c], Suc cookies, conflicts)
         | Some n \<Rightarrow>
             ((case rule of
                 ImportWins \<Rightarrow> l[n := c]
               | KeepNewest \<Rightarrow> if ck_created (l ! n) < ck_created c then l[n := c] else l
               | KeepExisting \<Rightarrow> l), cookies, Suc conflicts)))"

definition merge_entry ::
  "conflict_rule \<Rightarrow> string \<Rightarrow> json \<Rightarrow> (nat \<times> jars) \<times> merge_counts \<Rightarrow> (nat \<times> jars) \<times> merge_counts" where
  "merge_entry rule ns e acc =
     (case acc of ((n, js), cnt) \<Rightarrow>
        (case import_entry e of
           None \<Rightarrow> acc
         | Some (k, cs) \<Rightarrow>
             let new = stored_cookies n cs;
                 (l, cookies, conflicts) = fold (merge_cookie rule) new
                   (case map_of js (jar_key k ns) of Some l \<Rightarrow> l | None \<Rightarrow> [], mc_cookies cnt, mc_conflicts cnt)
             in if new = [] then acc
                else ((n + length new, AList.update (jar_key k ns) l js),
                      \<lparr>mc_jars = Suc (mc_jars cnt), mc_cookies = cookies, mc_conflicts = conflicts\<rparr>)))"

definition jar_merge :: "json list \<Rightarrow> conflict_rule \<Rightarrow> string option \<Rightarrow> jar_state \<Rightarrow> merge_counts \<times> jar_state" where
  "jar_merge entries rule cid st =
     (let ns = namespace_for_client st cid;
          ((n, js), cnt) = fold (merge_entry rule ns) entries
             ((js_next_ref st, js_jars st), \<lparr>mc_jars = 0, mc_cookies = 0, mc_conflicts = 0\<rparr>)
      in (cnt, st\<lparr>js_jars := js, js_next_ref := n\<rparr>))"

section \<open>Clearing\<close>

definition jar_clear :: "jar_state \<Rightarrow> jar_state" where
  "jar_clear st = st\<lparr>js_jars := [], js_registry := [], js_origin_by_id := [], js_client_roots := [],
     js_root_profiles := [], js_nav_roots := [], js_unbound := [], js_profile := PROFILE_DEFAULT\<rparr>"

definition cookies_reset :: "jar_state \<Rightarrow> jar_state" where
  "cookies_reset st = (jar_clear st)\<lparr>js_save_timer := False, js_policy := PolicyOff, js_restore_failed := False,
     js_global_assigned := False, js_assigned_roots := []\<rparr>"

section \<open>Objects of the jar\<close>

text \<open>
  An import may bring two cookies of one identity into different buckets, so identities are not unique
  after it; that the cookies of a profile are distinct objects is kept by every operation.
\<close>

definition jar_objects :: "nat \<Rightarrow> jars \<Rightarrow> bool" where
  "jar_objects n js \<longleftrightarrow>
     omap_wf js \<and>
     (\<forall>ns. SEP \<notin> set ns \<longrightarrow> refs_distinct (profile_entries ns js) \<and> (\<forall>e \<in> set (profile_entries ns js). ck_ref (snd e) < n))"

lemma jar_ok_objects: "jar_ok st \<Longrightarrow> jar_objects (js_next_ref st) (js_jars st)"
  by (auto simp: jar_ok_def jar_objects_def profile_ok_def)

lemma jar_objects_Nil [simp]: "jar_objects n []"
  by (simp add: jar_objects_def refs_distinct_def)

lemma jar_objects_filter: "jar_objects n js \<Longrightarrow> jar_objects n (filter (\<lambda>(k, _). P k) js)"
proof -
  have "profile_entries ns (filter (\<lambda>(k, _). P k) js) = filter (\<lambda>(k, _). P k) (profile_entries ns js)" for ns
    by (induction js) (auto simp: filter_empty_conv filter_id_conv)
  then show "jar_objects n js \<Longrightarrow> jar_objects n (filter (\<lambda>(k, _). P k) js)"
    by (auto simp: jar_objects_def refs_distinct_filter)
qed

text \<open>Setting one bucket.\<close>

lemma profile_entries_set_bucket:
  assumes "omap_wf js"
  shows "\<exists>pre post. profile_entries ns js =
      pre @ (if in_profile k ns then map (Pair k) (case map_of js k of Some l0 \<Rightarrow> l0 | None \<Rightarrow> []) else []) @ post \<and>
    (\<forall>l. profile_entries ns (AList.update k l js) = pre @ (if in_profile k ns then map (Pair k) l else []) @ post)"
proof (cases "in_profile k ns")
  case True
  show ?thesis
  proof (cases "map_of js k")
    case None
    then have "AList.update k l js = js @ [(k, l)]" for l by (simp add: update_new_append omap_has_def)
    then show ?thesis using True None by (intro exI [of _ "profile_entries ns js"] exI [of _ "[]"]) simp
  next
    case (Some l0)
    then show ?thesis using bucket_split [OF assms Some True] True by auto
  qed
next
  case False
  have "profile_entries ns (AList.update k l js) = profile_entries ns js" for l
    using False by (induction js) auto
  then show ?thesis using False by (intro exI [of _ "profile_entries ns js"] exI [of _ "[]"]) simp
qed

lemma jar_objects_set_bucket:
  assumes "jar_objects n js" "n \<le> m" "distinct (map ck_ref l)"
    "\<forall>c \<in> set l. (c \<in> set (case map_of js k of Some l0 \<Rightarrow> l0 | None \<Rightarrow> [])) \<or> (n \<le> ck_ref c \<and> ck_ref c < m)"
  shows "jar_objects m (AList.update k l js)"
  unfolding jar_objects_def
proof (intro conjI allI impI)
  obtain l0 where l0: "(case map_of js k of Some l0 \<Rightarrow> l0 | None \<Rightarrow> []) = l0" by blast
  show "omap_wf (AList.update k l js)" using assms(1) by (simp add: jar_objects_def)
  fix ns :: string
  assume "SEP \<notin> set ns"
  then have old: "refs_distinct (profile_entries ns js)" "\<forall>e \<in> set (profile_entries ns js). ck_ref (snd e) < n"
    using assms(1) by (auto simp: jar_objects_def)
  obtain pre post where pp: "profile_entries ns js = pre @ (if in_profile k ns then map (Pair k) l0 else []) @ post"
      "\<forall>l. profile_entries ns (AList.update k l js) = pre @ (if in_profile k ns then map (Pair k) l else []) @ post"
    using profile_entries_set_bucket [of js ns k] assms(1) unfolding l0 jar_objects_def by blast
  have new: "ck_ref c \<notin> (\<lambda>e. ck_ref (snd e)) ` (set pre \<union> set post)" if "c \<in> set l" "in_profile k ns" for c
  proof
    assume "ck_ref c \<in> (\<lambda>e. ck_ref (snd e)) ` (set pre \<union> set post)"
    then obtain e where e: "e \<in> set pre \<union> set post" "ck_ref (snd e) = ck_ref c" by (metis (no_types, lifting) imageE)
    then have "ck_ref c < n" using old(2) pp(1) by (metis Un_iff set_append)
    with assms(4) that(1) have "c \<in> set l0" unfolding l0 by auto
    then show False using old(1) e that(2) unfolding pp(1) by (auto simp: refs_distinct_def)
  qed
  show "refs_distinct (profile_entries ns (AList.update k l js))"
  proof (cases "in_profile k ns")
    case True
    have "ck_ref ` set l \<inter> (\<lambda>e. ck_ref (snd e)) ` set pre = {}" "ck_ref ` set l \<inter> (\<lambda>e. ck_ref (snd e)) ` set post = {}"
      using new True by blast+
    then show ?thesis
      using old(1) True assms(3) unfolding pp(1) pp(2) [rule_format]
      by (simp add: refs_distinct_def comp_def image_image Int_commute Int_Un_distrib)
  qed (use old(1) in \<open>simp add: pp\<close>)
  show "\<forall>e \<in> set (profile_entries ns (AList.update k l js)). ck_ref (snd e) < m"
  proof
    fix e
    assume "e \<in> set (profile_entries ns (AList.update k l js))"
    then consider "e \<in> set pre \<union> set post" | c where "e = (k, c)" "c \<in> set l" "in_profile k ns"
      unfolding pp(2) [rule_format] by (auto split: if_splits)
    then show "ck_ref (snd e) < m"
    proof cases
      case 1
      then have "ck_ref (snd e) < n" using old(2) pp(1) by (metis Un_iff set_append)
      then show ?thesis using assms(2) by simp
    next
      case 2
      have "ck_ref c < n" if "c \<in> set l0" using old(2) [rule_format, of "(k, c)"] 2(3) that unfolding pp(1) by simp
      then show ?thesis using assms(2,4) 2 unfolding l0 by fastforce
    qed
  qed
qed

lemma stored_cookies_refs: "map ck_ref (stored_cookies n cs) = [n..<n + length (stored_cookies n cs)]"
  by (induction n cs rule: stored_cookies.induct) (simp_all add: cookie_of_json_def upt_conv_Cons del: upt_Suc)

lemma stored_cookies_fresh:
  "distinct (map ck_ref (stored_cookies n cs))"
  "c \<in> set (stored_cookies n cs) \<Longrightarrow> n \<le> ck_ref c \<and> ck_ref c < n + length (stored_cookies n cs)"
proof -
  show "distinct (map ck_ref (stored_cookies n cs))" by (simp add: stored_cookies_refs)
  assume "c \<in> set (stored_cookies n cs)"
  then have "ck_ref c \<in> set (map ck_ref (stored_cookies n cs))" by simp
  then show "n \<le> ck_ref c \<and> ck_ref c < n + length (stored_cookies n cs)" unfolding stored_cookies_refs by simp
qed

lemma jar_objects_fold:
  assumes "\<And>x n js n' js'. jar_objects n js \<Longrightarrow> f x (n, js) = (n', js') \<Longrightarrow> jar_objects n' js'"
  shows "jar_objects n js \<Longrightarrow> fold f xs (n, js) = (n', js') \<Longrightarrow> jar_objects n' js'"
proof (induction xs arbitrary: n js)
  case (Cons x xs)
  obtain n1 js1 where one: "f x (n, js) = (n1, js1)" by (cases "f x (n, js)")
  show ?case by (rule Cons.IH [OF assms [OF Cons.prems(1) one]]) (use Cons.prems(2) one in simp)
qed simp

lemma jar_load_objects: "jar_objects (js_next_ref st) (js_jars st) \<Longrightarrow>
  jar_objects (js_next_ref (jar_load pf store st)) (js_jars (jar_load pf store st))"
proof -
  have step: "jar_objects n' js'" if "jar_objects n js" "load_entry pf old e (n, js) = (n', js')" for old e n js n' js'
    using that stored_cookies_fresh jar_objects_set_bucket [OF that(1)]
    by (auto simp: load_entry_def Let_def split: json.splits list.splits if_splits)
  have "jar_objects n' js'" if "fold (load_entry pf old) es (n, []) = (n', js')" for old es n n' js'
    by (rule jar_objects_fold [OF step jar_objects_Nil that])
  then show "jar_objects (js_next_ref st) (js_jars st) \<Longrightarrow>
      jar_objects (js_next_ref (jar_load pf store st)) (js_jars (jar_load pf store st))"
    by (auto simp: jar_load_def Let_def split: option.splits prod.splits json.splits)
qed

lemma jar_replace_objects: "jar_objects (js_next_ref st) (js_jars st) \<Longrightarrow>
  jar_objects (js_next_ref (jar_replace es cid st)) (js_jars (jar_replace es cid st))"
proof -
  have step: "jar_objects n' js'" if "jar_objects n js" "replace_entry ns e (n, js) = (n', js')" for ns e n js n' js'
    using that stored_cookies_fresh jar_objects_set_bucket [OF that(1)]
    by (auto simp: replace_entry_def Let_def split: option.splits if_splits)
  let ?ns = "namespace_for_client st cid"
  assume "jar_objects (js_next_ref st) (js_jars st)"
  then have start: "jar_objects (js_next_ref st) (filter (\<lambda>(k, _). \<not> in_profile k ?ns) (js_jars st))"
    by (rule jar_objects_filter)
  obtain n js where res: "fold (replace_entry ?ns) es (js_next_ref st, filter (\<lambda>(k, _). \<not> in_profile k ?ns) (js_jars st)) = (n, js)"
    by (cases "fold (replace_entry ?ns) es (js_next_ref st, filter (\<lambda>(k, _). \<not> in_profile k ?ns) (js_jars st))")
  have "jar_objects n js" by (rule jar_objects_fold [OF step start res])
  then show "jar_objects (js_next_ref (jar_replace es cid st)) (js_jars (jar_replace es cid st))"
    by (simp add: jar_replace_def res)
qed

text \<open>The merge.\<close>

lemma find_identity_Some: "find_identity i l = Some n \<Longrightarrow> n < length l \<and> cookie_id (l ! n) = i"
proof -
  assume "find_identity i l = Some n"
  then obtain c r where "filter (\<lambda>(_, c). cookie_id c = i) (enumerate 0 l) = (n, c) # r"
    by (auto simp: find_identity_def split: list.splits)
  then have "(n, c) \<in> set (filter (\<lambda>(_, c). cookie_id c = i) (enumerate 0 l))" by simp
  then show "n < length l \<and> cookie_id (l ! n) = i" by (auto simp: in_set_enumerate_eq)
qed

text \<open>What becomes of a cookie of the bucket under a rule.\<close>

definition merge_kept :: "conflict_rule \<Rightarrow> cookie \<Rightarrow> cookie \<Rightarrow> bool" where
  "merge_kept rule d d' \<longleftrightarrow>
     cookie_id d' = cookie_id d \<and> (rule = KeepExisting \<longrightarrow> d' = d) \<and>
     (rule = KeepNewest \<longrightarrow> ck_created d \<le> ck_created d')"

lemma merge_kept_refl [simp]: "merge_kept rule d d"
  by (simp add: merge_kept_def)

lemma merge_kept_trans: "merge_kept rule a b \<Longrightarrow> merge_kept rule b c \<Longrightarrow> merge_kept rule a c"
  by (auto simp: merge_kept_def)

text \<open>What one imported cookie does to a bucket.\<close>

lemma merge_cookie_step:
  assumes "merge_cookie rule c (l, m, x) = (l', m', x')"
  shows "set l' \<subseteq> insert c (set l)" "length l' + m = length l + m'"
    "distinct (map ck_ref (l @ c # new)) \<Longrightarrow> distinct (map ck_ref (l' @ new))"
    "\<forall>d \<in> set l. \<exists>d' \<in> set l'. merge_kept rule d d'"
proof -
  consider (app) "l' = l @ [c]" "m' = Suc m" | (keep) "l' = l" "m' = m"
    | (upd) n where "n < length l" "cookie_id (l ! n) = cookie_id c" "l' = l[n := c]" "m' = m" "rule \<noteq> KeepExisting"
        "rule = KeepNewest \<longrightarrow> ck_created (l ! n) < ck_created c"
  proof (cases "find_identity (cookie_id c) l")
    case None
    then show ?thesis using assms app by (simp add: merge_cookie_def)
  next
    case (Some n)
    note found = find_identity_Some [OF Some]
    have l': "l' = (case rule of ImportWins \<Rightarrow> l[n := c]
        | KeepNewest \<Rightarrow> if ck_created (l ! n) < ck_created c then l[n := c] else l | KeepExisting \<Rightarrow> l)" "m' = m"
      using assms Some by (simp_all add: merge_cookie_def)
    show ?thesis
    proof (cases rule)
      case ImportWins
      then show ?thesis using upd [of n, OF _ _ _ l'(2)] found l'(1) by simp
    next
      case KeepExisting
      then show ?thesis using keep [OF _ l'(2)] l'(1) by simp
    next
      case KeepNewest
      then show ?thesis using upd [of n, OF _ _ _ l'(2)] keep [OF _ l'(2)] found l'(1) by (cases "ck_created (l ! n) < ck_created c") simp_all
    qed
  qed
  note cases = this
  show "set l' \<subseteq> insert c (set l)" using cases by cases (use set_update_subset_insert [of l _ c] in auto)
  show "length l' + m = length l + m'" using cases by cases simp_all
  show "distinct (map ck_ref (l' @ new))" if "distinct (map ck_ref (l @ c # new))"
    using cases
  proof cases
    case (upd n)
    have "distinct (map ck_ref (l[n := c]))"
      using that upd(1) by (simp add: map_update distinct_list_update)
    moreover have "ck_ref ` set (l[n := c]) \<inter> ck_ref ` set new = {}"
    proof -
      have "insert (ck_ref c) (ck_ref ` set l) \<inter> ck_ref ` set new = {}" using that by auto
      then show ?thesis using set_update_subset_insert [of l n c] by blast
    qed
    moreover have "distinct (map ck_ref new)" using that by simp
    ultimately show ?thesis unfolding upd(3) by simp
  qed (use that in auto)
  show "\<forall>d \<in> set l. \<exists>d' \<in> set l'. merge_kept rule d d'"
    using cases
  proof cases
    case (upd n)
    show ?thesis
    proof
      fix d
      assume "d \<in> set l"
      then obtain k where k: "k < length l" "l ! k = d" by (auto simp: in_set_conv_nth)
      show "\<exists>d' \<in> set l'. merge_kept rule d d'"
      proof (cases "k = n")
        case True
        then show ?thesis using upd k by (intro bexI [of _ c]) (auto simp: set_update_memI merge_kept_def)
      next
        case False
        then have "l' ! k = d" using upd(3) k by simp
        then show ?thesis using k upd(3) by (intro bexI [of _ d]) (auto simp: in_set_conv_nth intro!: exI [of _ k])
      qed
    qed
  qed (auto, (blast intro: merge_kept_refl)+)
qed

lemma merge_cookies:
  assumes "fold (merge_cookie rule) new (l, m, x) = (l', m', x')" "distinct (map ck_ref (l @ new))"
  shows "set l' \<subseteq> set l \<union> set new \<and> length l' + m = length l + m' \<and> distinct (map ck_ref l') \<and>
    (\<forall>d \<in> set l. \<exists>d' \<in> set l'. merge_kept rule d d')"
  using assms
proof (induction new arbitrary: l m x)
  case (Cons c new)
  obtain l1 m1 x1 where one: "merge_cookie rule c (l, m, x) = (l1, m1, x1)" by (metis prod.exhaust)
  note step = merge_cookie_step [OF one]
  have IH: "set l' \<subseteq> set l1 \<union> set new \<and> length l' + m1 = length l1 + m' \<and> distinct (map ck_ref l') \<and>
    (\<forall>d \<in> set l1. \<exists>d' \<in> set l'. merge_kept rule d d')"
    using Cons.IH Cons.prems(1) one step(3) [OF Cons.prems(2)] by simp
  have "\<exists>d' \<in> set l'. merge_kept rule d d'" if "d \<in> set l" for d
    using step(4) IH that merge_kept_trans by meson
  moreover have "set l' \<subseteq> set l \<union> set (c # new)" using IH step(1) by auto
  moreover have "length l' + m = length l + m'" using IH step(2) by simp
  ultimately show ?case using IH by blast
qed (auto, (blast intro: merge_kept_refl)+)

text \<open>One record of the import, on the whole jar.\<close>

lemma merge_entry_step:
  assumes ok: "jar_objects n js" and ns: "SEP \<notin> set ns"
    and step: "merge_entry rule ns e ((n, js), cnt) = ((n', js'), cnt')"
  shows "jar_objects n' js' \<and> others ns js' = others ns js \<and>
    length (profile_entries ns js') + mc_cookies cnt = length (profile_entries ns js) + mc_cookies cnt' \<and>
    (\<forall>(k, d) \<in> set (profile_entries ns js). \<exists>d'. (k, d') \<in> set (profile_entries ns js') \<and> merge_kept rule d d')"
proof (cases "import_entry e")
  case None
  with step ok show ?thesis by (auto simp: merge_entry_def)
next
  case (Some p)
  obtain key cs where p: "p = (key, cs)" by (cases p)
  let ?k = "jar_key key ns" and ?new = "stored_cookies n cs"
  obtain l0 where l0: "(case map_of js ?k of Some l \<Rightarrow> l | None \<Rightarrow> []) = l0" by blast
  obtain l m x where mrg: "fold (merge_cookie rule) ?new (l0, mc_cookies cnt, mc_conflicts cnt) = (l, m, x)"
    by (metis prod.exhaust)
  have "SEP \<notin> set key"
    using Some unfolding p by (auto simp: import_entry_def valid_import_key_def split: json.splits list.splits option.splits if_splits)
  then have key: "in_profile ?k ns" using in_profile_jar_key [OF ns] by blast
  show ?thesis
  proof (cases "?new = []")
    case True
    with step ok Some p show ?thesis by (auto simp: merge_entry_def)
  next
    case False
    then have res: "n' = n + length ?new" "js' = AList.update ?k l js" "mc_cookies cnt' = m"
      using step by (auto simp: merge_entry_def Some p l0 mrg Let_def)
    have wf: "omap_wf js" using ok by (simp add: jar_objects_def)
    obtain pre post where pp: "profile_entries ns js = pre @ map (Pair ?k) l0 @ post"
        "profile_entries ns js' = pre @ map (Pair ?k) l @ post"
      using profile_entries_set_bucket [OF wf, of ns ?k] unfolding l0 res(2) by (auto simp: key)
    have old: "refs_distinct (profile_entries ns js)" "\<forall>e \<in> set (profile_entries ns js). ck_ref (snd e) < n"
      using ok ns by (simp_all add: jar_objects_def)
    have below: "ck_ref c < n" if "c \<in> set l0" for c
      using old(2) [rule_format, of "(?k, c)"] that unfolding pp(1) by simp
    have "distinct (map ck_ref l0)" using old(1) unfolding pp(1) by (simp add: refs_distinct_def comp_def)
    moreover have "ck_ref ` set l0 \<inter> ck_ref ` set ?new = {}"
      using below stored_cookies_fresh(2) by fastforce
    ultimately have "distinct (map ck_ref (l0 @ ?new))" using stored_cookies_fresh(1) by simp
    note m = merge_cookies [OF mrg this]
    have "jar_objects n' js'"
      unfolding res(1,2)
    proof (rule jar_objects_set_bucket [OF ok])
      show "distinct (map ck_ref l)" using m by blast
      show "\<forall>c \<in> set l. c \<in> set (case map_of js ?k of Some l0 \<Rightarrow> l0 | None \<Rightarrow> []) \<or> n \<le> ck_ref c \<and> ck_ref c < n + length ?new"
        unfolding l0 using m stored_cookies_fresh(2) by blast
    qed simp
    moreover have "others ns js' = others ns js" unfolding res(2) by (rule others_update [OF key])
    moreover have "length (profile_entries ns js') + mc_cookies cnt = length (profile_entries ns js) + mc_cookies cnt'"
      unfolding pp res(3) using m by simp
    moreover have "\<exists>d'. (k, d') \<in> set (profile_entries ns js') \<and> merge_kept rule d d'"
      if kd: "(k, d) \<in> set (profile_entries ns js)" for k d
    proof (cases "(k, d) \<in> set pre \<union> set post")
      case True
      then show ?thesis unfolding pp(2) by (intro exI [of _ d]) auto
    next
      case False
      with kd have "k = ?k" "d \<in> set l0" unfolding pp(1) by auto
      moreover from this(2) obtain d' where "d' \<in> set l" "merge_kept rule d d'" using m by blast
      ultimately show ?thesis unfolding pp(2) by (intro exI [of _ d']) auto
    qed
    ultimately show ?thesis by blast
  qed
qed

lemma last_conj: "a \<and> b \<and> c \<and> d \<Longrightarrow> d"
  by blast

lemma merge_entries:
  assumes "jar_objects n js" "SEP \<notin> set ns" "fold (merge_entry rule ns) es ((n, js), cnt) = ((n', js'), cnt')"
  shows "jar_objects n' js' \<and> others ns js' = others ns js \<and>
    length (profile_entries ns js') + mc_cookies cnt = length (profile_entries ns js) + mc_cookies cnt' \<and>
    (\<forall>(k, d) \<in> set (profile_entries ns js). \<exists>d'. (k, d') \<in> set (profile_entries ns js') \<and> merge_kept rule d d')"
  using assms(1,3)
proof (induction es arbitrary: n js cnt)
  case (Cons e es)
  obtain n1 js1 cnt1 where one: "merge_entry rule ns e ((n, js), cnt) = ((n1, js1), cnt1)" by (metis prod.exhaust)
  note step = merge_entry_step [OF Cons.prems(1) assms(2) one]
  note IH = Cons.IH [OF conjunct1 [OF step], of cnt1]
  have rest: "fold (merge_entry rule ns) es ((n1, js1), cnt1) = ((n', js'), cnt')" using Cons.prems(2) one by simp
  note IH = IH [OF rest]
  have "\<exists>d'. (k, d') \<in> set (profile_entries ns js') \<and> merge_kept rule d d'"
    if kd: "(k, d) \<in> set (profile_entries ns js)" for k d
  proof -
    obtain d1 where d1: "(k, d1) \<in> set (profile_entries ns js1)" "merge_kept rule d d1" using bspec [OF last_conj [OF step] kd] by auto
    obtain d2 where "(k, d2) \<in> set (profile_entries ns js')" "merge_kept rule d1 d2" using bspec [OF last_conj [OF IH] d1(1)] by auto
    with d1 merge_kept_trans show ?thesis by blast
  qed
  moreover have "others ns js' = others ns js" using IH step by simp
  moreover have "length (profile_entries ns js') + mc_cookies cnt = length (profile_entries ns js) + mc_cookies cnt'"
    using IH step by linarith
  ultimately show ?case using IH by blast
qed auto

lemma jar_merge_step:
  assumes "jar_objects (js_next_ref st) (js_jars st)" "jar_merge es rule cid st = (cnt, st')"
  shows "jar_objects (js_next_ref st') (js_jars st') \<and>
    others (namespace_for_client st cid) (js_jars st') = others (namespace_for_client st cid) (js_jars st) \<and>
    length (profile_entries (namespace_for_client st cid) (js_jars st')) =
      length (profile_entries (namespace_for_client st cid) (js_jars st)) + mc_cookies cnt \<and>
    (\<forall>(k, d) \<in> set (profile_entries (namespace_for_client st cid) (js_jars st)).
       \<exists>d'. (k, d') \<in> set (profile_entries (namespace_for_client st cid) (js_jars st')) \<and> merge_kept rule d d')"
proof -
  let ?ns = "namespace_for_client st cid" and ?z = "\<lparr>mc_jars = 0, mc_cookies = 0, mc_conflicts = 0\<rparr>"
  obtain n js cnt1 where f: "fold (merge_entry rule ?ns) es ((js_next_ref st, js_jars st), ?z) = ((n, js), cnt1)"
    by (metis prod.exhaust)
  then have st': "cnt = cnt1" "js_jars st' = js" "js_next_ref st' = n" using assms(2) by (auto simp: jar_merge_def Let_def)
  show ?thesis using merge_entries [OF assms(1) namespace_for_client_no_sep f] unfolding st' by simp
qed

text \<open>The write.\<close>

lemma jar_persist_entries:
  assumes "jar_objects (js_next_ref st) (js_jars st)" "jar_persist now st = ((es, ids), st')"
  shows "es = filter (\<lambda>(k, _). SEP \<notin> set k) (js_jars st')" "omap_wf (js_jars st')"
    "ids = filter (\<lambda>(i, _). i \<in> fst ` set es) (js_origin_by_id st)"
    "within_limits now PROFILE_DEFAULT (js_jars st')" "others PROFILE_DEFAULT (js_jars st') = others PROFILE_DEFAULT (js_jars st)"
    "profile_entries PROFILE_DEFAULT es = profile_entries PROFILE_DEFAULT (js_jars st')"
proof -
  obtain removed js where sweep: "sweep_jar_limits now PROFILE_DEFAULT (\<lambda>_. False) (js_jars st) = (removed, js)"
    by (metis prod.exhaust)
  have origins: "js_origin_by_id (note_evictions r ns x) = js_origin_by_id x" for r ns x
    unfolding note_evictions_def by (induction r arbitrary: x) (simp_all add: note_jar_change_def)
  have res: "es = filter (\<lambda>(k, _). SEP \<notin> set k) js" "js_jars st' = js"
      "ids = filter (\<lambda>(i, _). i \<in> fst ` set es) (js_origin_by_id st)"
    using assms(2) by (auto simp: jar_persist_def sweep Let_def origins)
  then show "es = filter (\<lambda>(k, _). SEP \<notin> set k) (js_jars st')" "ids = filter (\<lambda>(i, _). i \<in> fst ` set es) (js_origin_by_id st)"
    by simp_all
  have pre: "omap_wf (js_jars st)" "refs_distinct (profile_entries PROFILE_DEFAULT (js_jars st))"
    using assms(1) default_no_sep by (simp_all add: jar_objects_def)
  note lim = sweep_limits [OF pre _ sweep]
  show "omap_wf (js_jars st')" "others PROFILE_DEFAULT (js_jars st') = others PROFILE_DEFAULT (js_jars st)"
    using lim(1) res(2) by (simp_all add: sweeps_def)
  show "within_limits now PROFILE_DEFAULT (js_jars st')" using lim(2-4) res(2) by (simp add: within_limits_def)
  have "profile_entries PROFILE_DEFAULT (filter (\<lambda>(k, _). SEP \<notin> set k) x) = profile_entries PROFILE_DEFAULT x" for x :: jars
    by (induction x) (auto simp: in_profile_def)
  then show "profile_entries PROFILE_DEFAULT es = profile_entries PROFILE_DEFAULT (js_jars st')"
    unfolding res(1,2) .
qed

section \<open>Writing and reading back\<close>

definition forget_ref :: "cookie \<Rightarrow> cookie" where
  "forget_ref c = c\<lparr>ck_ref := 0\<rparr>"

definition forget_refs :: "jars \<Rightarrow> jars" where
  "forget_refs js = map (\<lambda>(k, l). (k, map forget_ref l)) js"

lemma read_origins_record: "omap_wf ids \<Longrightarrow> read_origins (Some (origins_record ids)) = ids"
proof -
  let ?f = "\<lambda>row m. case row of JArr (JStr i # JStr o' # _) \<Rightarrow> AList.update i o' m | _ \<Rightarrow> m"
  have "omap_wf (acc @ ids) \<Longrightarrow> fold ?f (map (\<lambda>(i, o'). JArr [JStr i, JStr o']) ids) acc = acc @ ids" for acc
  proof (induction ids arbitrary: acc)
    case (Cons e ids)
    then have "AList.update (fst e) (snd e) acc = acc @ [e]"
      by (subst update_new_append) (auto simp: omap_wf_def omap_has_iff)
    with Cons.IH [of "acc @ [e]"] Cons.prems show ?case by (simp add: case_prod_unfold)
  qed simp
  from this [of "[]"] show "omap_wf ids \<Longrightarrow> read_origins (Some (origins_record ids)) = ids"
    by (simp add: read_origins_def origins_record_def)
qed

text \<open>An origin map as registration fills it: every id is the id of its origin, which is canonical.\<close>

definition origins_registered :: "platform \<Rightarrow> (string, string) omap \<Rightarrow> bool" where
  "origins_registered pf m \<longleftrightarrow>
     omap_wf m \<and> (\<forall>(i, o') \<in> set m. origin_jar_id pf o' = Some i \<and> map_option url_origin (new_url pf o') = Some o')"

lemma migrate_registered: "origins_registered pf m \<Longrightarrow> migrate_origins pf m = m"
proof -
  let ?f = "\<lambda>(i, o') m. case (origin_jar_id pf o', new_url pf o') of
         (Some i', Some u) \<Rightarrow> AList.update i' (url_origin u) m | _ \<Rightarrow> m"
  have "omap_wf (acc @ m) \<Longrightarrow> (\<forall>(i, o') \<in> set m. origin_jar_id pf o' = Some i \<and> map_option url_origin (new_url pf o') = Some o')
      \<Longrightarrow> fold ?f m acc = acc @ m" for acc
  proof (induction m arbitrary: acc)
    case (Cons e m)
    then have "AList.update (fst e) (snd e) acc = acc @ [e]"
      by (subst update_new_append) (auto simp: omap_wf_def omap_has_iff)
    moreover have "?f e acc = AList.update (fst e) (snd e) acc" using Cons.prems(2) by auto
    ultimately show ?case using Cons.IH [of "acc @ [e]"] Cons.prems by simp
  qed simp
  from this [of "[]"] show "origins_registered pf m \<Longrightarrow> migrate_origins pf m = m"
    by (simp add: migrate_origins_def origins_registered_def)
qed

lemma load_key_registered:
  assumes "origins_registered pf ids" "SEP \<notin> set k"
  shows "load_key pf ids k = k"
proof (cases "truthy (map_of ids k)")
  case (Some orig)
  then have "map_of ids k = Some orig" by (auto simp: truthy_def split: option.splits if_splits)
  then have "origin_jar_id pf orig = Some k" using assms(1) by (auto simp: origins_registered_def dest: map_of_SomeD)
  then show ?thesis using assms(2) Some by (simp add: load_key_def index_of_None [THEN iffD2])
qed (use assms(2) in \<open>simp add: load_key_def index_of_None [THEN iffD2]\<close>)

definition same_site_known :: "cookie \<Rightarrow> bool" where
  "same_site_known c \<longleftrightarrow> (\<forall>j. ck_same_site c \<noteq> Some (SSOther j))"

lemma cookie_json_back:
  assumes "same_site_known c"
  shows "is_stored_cookie (cookie_json c)" "forget_ref (cookie_of_json n (cookie_json c)) = forget_ref c"
proof -
  show "is_stored_cookie (cookie_json c)"
    by (simp add: is_stored_cookie_def cookie_json_def get_str_def get_bool_def get_num_def jget_def)
  have "same_site_of_json (jget (cookie_json c) ''sameSite'') = ck_same_site c"
    using assms by (auto simp: same_site_of_json_def cookie_json_def jget_def same_site_json_def same_site_known_def
        split: option.splits same_site.splits)
  then show "forget_ref (cookie_of_json n (cookie_json c)) = forget_ref c"
    by (simp add: cookie_of_json_def cookie_json_def get_str_def get_bool_def get_num_def jget_def forget_ref_def)
qed

lemma stored_cookies_json:
  "\<forall>c \<in> set l. same_site_known c \<Longrightarrow> map forget_ref (stored_cookies n (map cookie_json l)) = map forget_ref l"
  by (induction l arbitrary: n) (simp_all add: cookie_json_back)

lemma load_entries:
  assumes "origins_registered pf ids" "omap_wf (acc @ es)" "\<forall>(k, l) \<in> set es. SEP \<notin> set k \<and> (\<forall>c \<in> set l. same_site_known c)"
  shows "forget_refs (snd (fold (load_entry pf ids) (map (\<lambda>(k, l). JArr [JStr k, JArr (map cookie_json l)]) es) (n, acc)))
    = forget_refs (acc @ filter (\<lambda>(_, l). l \<noteq> []) es)"
  using assms(2,3)
proof (induction es arbitrary: n acc)
  case (Cons e es)
  obtain k l where e: "e = (k, l)" by (cases e)
  let ?l = "stored_cookies n (map cookie_json l)"
  have same: "map forget_ref ?l = map forget_ref l" using stored_cookies_json Cons.prems(2) by (simp add: e)
  then have len: "?l = [] \<longleftrightarrow> l = []" by (metis Nil_is_map_conv)
  have key: "load_key pf ids k = k" using load_key_registered [OF assms(1)] Cons.prems(2) by (simp add: e)
  show ?case
  proof (cases "l = []")
    case True
    have "omap_wf (acc @ es)" using Cons.prems(1) by (auto simp: omap_wf_def)
    with Cons.IH Cons.prems(2) True show ?thesis by (simp add: e load_entry_def)
  next
    case False
    have upd: "AList.update k ?l acc = acc @ [(k, ?l)]"
      using Cons.prems(1) by (intro update_new_append) (auto simp: e omap_wf_def omap_has_iff)
    have "omap_wf ((acc @ [(k, ?l)]) @ es)" using Cons.prems(1) by (simp add: e omap_wf_def)
    from Cons.IH [OF this, of "n + length ?l"] Cons.prems(2) False len key upd same show ?thesis
      by (simp add: e load_entry_def Let_def forget_refs_def)
  qed
qed simp

section \<open>Properties\<close>

text \<open>C12. The durable record is private and bounded whatever was restored or imported before: every written key is
  a bare origin id and every written origin has cookies in the record, the cookies are those of the default
  profile, at most 3000 and 50 per domain and all live, and session profiles keep theirs in memory.\<close>

theorem durable_record_private:
  assumes "jar_ok st0"
    "st = st0 \<or> st = jar_load pf store st0 \<or> st = jar_replace imported cid st0 \<or> st = snd (jar_merge imported rule cid st0)"
    "jar_persist now st = ((es, ids), st')"
  shows "(\<forall>e \<in> set es. SEP \<notin> set (fst e)) \<and> fst ` set ids \<subseteq> fst ` set es \<and>
    profile_entries PROFILE_DEFAULT es = profile_entries PROFILE_DEFAULT (js_jars st') \<and>
    within_limits now PROFILE_DEFAULT es \<and>
    (\<forall>ns. SEP \<notin> set ns \<and> ns \<noteq> PROFILE_DEFAULT \<longrightarrow> profile_entries ns (js_jars st') = profile_entries ns (js_jars st))"
proof -
  have "jar_objects (js_next_ref st0) (js_jars st0)" by (rule jar_ok_objects [OF assms(1)])
  then have objs: "jar_objects (js_next_ref st) (js_jars st)"
    using assms(2) jar_load_objects jar_replace_objects jar_merge_step [OF _ surjective_pairing] by blast
  note w = jar_persist_entries [OF objs assms(3)]
  have "within_limits now PROFILE_DEFAULT es" using w(4) unfolding within_limits_def w(6) .
  moreover have "profile_entries ns (js_jars st') = profile_entries ns (js_jars st)" if "SEP \<notin> set ns" "ns \<noteq> PROFILE_DEFAULT" for ns
    by (rule profile_entries_elsewhere [OF default_no_sep that w(5)])
  moreover have "fst ` set ids \<subseteq> fst ` set es" unfolding w(3) by (auto intro: rev_image_eqI)
  moreover have "\<forall>e \<in> set es. SEP \<notin> set (fst e)" unfolding w(1) by auto
  ultimately show ?thesis using w(6) by simp
qed

text \<open>A jar with a session cookie and a default cookie, for the witnesses.\<close>

definition demo_two :: "(set_cookie_result \<times> jar_state) option" where
  "demo_two = (case demo_session of None \<Rightarrow> None
     | Some (_, st) \<Rightarrow> admit_cookie demo_platform initial_codec 5 ''http://a.b/x'' ''d=1'' False PROFILE_DEFAULT st)"

lemma demo_two_facts: "\<exists>r st. demo_two = Some (r, st) \<and> jar_ok st \<and> sr_stored r"
proof -
  have "case demo_two of None \<Rightarrow> False | Some (r, st) \<Rightarrow> sr_stored r" by code_simp
  from some_pairE [OF this] obtain r st where d: "demo_two = Some (r, st)" "sr_stored r" by blast
  obtain rs st1 where s: "demo_session = Some (rs, st1)" using demo_session_facts by blast
  have apart: "namespace_for_client demo_profiled (Some ''w'') \<noteq> namespace_for_client demo_profiled (client_of (demo_ctx ''z''))"
    "namespace_for_client demo_profiled (Some ''w'') \<noteq> UNBOUND_GLOBAL_NAMESPACE"
    by code_simp+
  then have "admit_all demo_platform initial_codec 5 ''http://a.b/x'' [''k=v; Path=/''] (Some ''w'') demo_profiled = Some (rs, st1)"
    using s unfolding demo_session_def apply_set_cookie_def by simp
  from admit_all_noninterference [OF demo_profiled_ok refl apart(1) this] have "jar_ok st1" by blast
  moreover have "admit_cookie demo_platform initial_codec 5 ''http://a.b/x'' ''d=1'' False PROFILE_DEFAULT st1 = Some (r, st)"
    using d(1) unfolding demo_two_def s option.case prod.case .
  ultimately have "jar_ok st" by (rule admit_profile(1) [OF _ default_no_sep])
  with d show ?thesis by blast
qed

theorem durable_record_private_witness:
  "\<exists>r st es ids st'. demo_two = Some (r, st) \<and> jar_persist 6 st = ((es, ids), st') \<and> (\<forall>e \<in> set es. SEP \<notin> set (fst e)) \<and>
     fst ` set ids \<subseteq> fst ` set es"
proof -
  obtain r st where d: "demo_two = Some (r, st)" "jar_ok st" using demo_two_facts by blast
  obtain es ids st' where w: "jar_persist 6 st = ((es, ids), st')" by (metis prod.exhaust)
  from durable_record_private [OF d(2) disjI1 [OF refl] w] d(1) w show ?thesis by blast
qed

text \<open>C16. Persist and restore are inverse on the default profile: reading back the record just written restores
  every bucket with every cookie and attribute, in order, and the origins of its keys.\<close>

theorem persist_load_roundtrip:
  assumes "jar_ok st" "jar_persist now st = ((es, ids), st')" "origins_registered pf (js_origin_by_id st)"
    "\<forall>e \<in> set (profile_entries PROFILE_DEFAULT (js_jars st')). same_site_known (snd e)"
  shows "forget_refs (js_jars (jar_load pf (Some (Some (jar_record es), Some (origins_record ids))) st1)) =
      forget_refs (filter (\<lambda>(_, l). l \<noteq> []) es) \<and>
    js_origin_by_id (jar_load pf (Some (Some (jar_record es), Some (origins_record ids))) st1) = ids"
proof -
  note w = jar_persist_entries [OF jar_ok_objects [OF assms(1)] assms(2)]
  have wf: "omap_wf es" unfolding w(1) by (rule omap_wf_filter [OF w(2)])
  have reg: "origins_registered pf ids"
    using assms(3) unfolding w(3) by (auto simp: origins_registered_def)
  then have ids: "omap_wf ids" by (simp add: origins_registered_def)
  have known: "SEP \<notin> set k \<and> (\<forall>c \<in> set l. same_site_known c)" if "(k, l) \<in> set es" for k l
  proof -
    have "SEP \<notin> set k" "(k, l) \<in> set (js_jars st')" using that unfolding w(1) by simp_all
    then have "(k, c) \<in> set (profile_entries PROFILE_DEFAULT (js_jars st'))" if "c \<in> set l" for c
      using that by (auto simp: profile_entries_in in_profile_def)
    then show ?thesis using assms(4) \<open>SEP \<notin> set k\<close> by fastforce
  qed
  obtain n js where f: "fold (load_entry pf ids) (map (\<lambda>(k, l). JArr [JStr k, JArr (map cookie_json l)]) es) (js_next_ref st1, []) = (n, js)"
    by (metis prod.exhaust)
  have "forget_refs js = forget_refs (filter (\<lambda>(_, l). l \<noteq> []) es)"
    using load_entries [OF reg, of "[]" es "js_next_ref st1"] wf known unfolding f by fastforce
  then show ?thesis
    by (simp add: jar_load_def jar_record_def read_origins_record [OF ids] migrate_registered [OF reg] f)
qed

theorem persist_load_roundtrip_witness:
  "\<exists>r st es ids st'. demo_two = Some (r, st) \<and> jar_persist 6 st = ((es, ids), st') \<and> es \<noteq> [] \<and>
     forget_refs (js_jars (jar_load demo_platform (Some (Some (jar_record es), Some (origins_record ids))) initial_jar)) =
       forget_refs (filter (\<lambda>(_, l). l \<noteq> []) es)"
proof -
  obtain r st where d: "demo_two = Some (r, st)" "jar_ok st" using demo_two_facts by blast
  obtain es ids st' where w: "jar_persist 6 st = ((es, ids), st')" by (metis prod.exhaust)
  have "case demo_two of None \<Rightarrow> False | Some (r, st) \<Rightarrow> case jar_persist 6 st of ((es, ids), st') \<Rightarrow>
      es \<noteq> [] \<and> distinct (map fst (js_origin_by_id st)) \<and>
      list_all (\<lambda>(i, o'). origin_jar_id demo_platform o' = Some i \<and> map_option url_origin (new_url demo_platform o') = Some o')
        (js_origin_by_id st) \<and>
      list_all (\<lambda>(_, c). ck_same_site c = None) (profile_entries PROFILE_DEFAULT (js_jars st'))"
    by code_simp
  then have "es \<noteq> []" "origins_registered demo_platform (js_origin_by_id st)"
    "\<forall>e \<in> set (profile_entries PROFILE_DEFAULT (js_jars st')). same_site_known (snd e)"
    unfolding d(1) option.case prod.case w
    by (auto simp: origins_registered_def omap_wf_def list_all_iff same_site_known_def)
  with persist_load_roundtrip [OF d(2) w this(2,3)] d(1) w show ?thesis by blast
qed

text \<open>A merge imports honestly: it adds exactly the number of cookies it reports, leaves every other namespace
  alone and loses no identity of the client's namespace; under keep-existing every stored cookie stays, and
  under keep-newest none is replaced by an older one.\<close>

theorem merge_counts_honest:
  assumes "jar_ok st" "jar_merge es rule cid st = (cnt, st')"
  shows "length (profile_entries (namespace_for_client st cid) (js_jars st')) =
      length (profile_entries (namespace_for_client st cid) (js_jars st)) + mc_cookies cnt \<and>
    (\<forall>ns. SEP \<notin> set ns \<and> ns \<noteq> namespace_for_client st cid \<longrightarrow>
       profile_entries ns (js_jars st') = profile_entries ns (js_jars st)) \<and>
    (\<forall>(k, d) \<in> set (profile_entries (namespace_for_client st cid) (js_jars st)).
       \<exists>d'. (k, d') \<in> set (profile_entries (namespace_for_client st cid) (js_jars st')) \<and> cookie_id d' = cookie_id d \<and>
         (rule = KeepExisting \<longrightarrow> d' = d) \<and> (rule = KeepNewest \<longrightarrow> ck_created d \<le> ck_created d'))"
  using jar_merge_step [OF jar_ok_objects [OF assms(1)] assms(2)]
    profile_entries_elsewhere [OF namespace_for_client_no_sep, of _ st cid "js_jars st'" "js_jars st"]
  unfolding merge_kept_def by blast

theorem merge_counts_honest_witness:
  "\<exists>r st cnt st'. demo_two = Some (r, st) \<and> mc_cookies cnt = 1 \<and>
     jar_merge [JArr [JStr ''x'', JArr [JObj [(''name'', JStr ''a''), (''value'', JStr []), (''domain'', JStr ''c.d''),
        (''hostOnly'', JBool True), (''path'', JStr ''/''), (''secure'', JBool False), (''httpOnly'', JBool False),
        (''expires'', JNum 0), (''created'', JNum 1)]]]] KeepNewest None st = (cnt, st') \<and>
     length (profile_entries (namespace_for_client st None) (js_jars st')) =
       length (profile_entries (namespace_for_client st None) (js_jars st)) + 1"
proof -
  let ?es = "[JArr [JStr ''x'', JArr [JObj [(''name'', JStr ''a''), (''value'', JStr []), (''domain'', JStr ''c.d''),
        (''hostOnly'', JBool True), (''path'', JStr ''/''), (''secure'', JBool False), (''httpOnly'', JBool False),
        (''expires'', JNum 0), (''created'', JNum 1)]]]]"
  obtain r st where d: "demo_two = Some (r, st)" "jar_ok st" using demo_two_facts by blast
  obtain cnt st' where m: "jar_merge ?es KeepNewest None st = (cnt, st')" by (metis prod.exhaust)
  have "case demo_two of None \<Rightarrow> False | Some (r, st) \<Rightarrow> mc_cookies (fst (jar_merge ?es KeepNewest None st)) = 1" by code_simp
  then have one: "mc_cookies cnt = 1" unfolding d(1) option.case prod.case m by simp
  note len = merge_counts_honest [OF d(2) m, THEN conjunct1, unfolded one]
  show ?thesis by (intro exI conjI) (rule d(1), rule one, rule m, rule len)
qed

end
