(* ===== verification/Kdl.thy ===== *)
theory Kdl
  imports Complex_Main Prelude
begin

text \<open>
  The parser of the engine's data files (\<open>src/app/src/kdl.ts\<close>). A cursor is the rest of the source and
  the line number; an error carries the line the code puts in its message and the kind of message.
  A number is the rational its decimal literal denotes (rounding to a double is not modelled). The loops
  over nodes take fuel; \<open>parse_kdl\<close> gives them more than they can use, which \<open>kdl_total\<close> proves.
\<close>

section \<open>Values, nodes, errors\<close>

datatype kdl_value = KStr string | KNum rat | KBool bool | KNull

datatype kdl_node =
  KdlNode (kn_name: string) (kn_args: "kdl_value list") (kn_props: "(string, kdl_value) omap") (kn_children: "kdl_node list")

datatype kdl_fault =
  UnclosedComment | ExpectedName "char option" | UnclosedString | UnknownEscape char | MalformedNumber
| MalformedKeyword string | UnsupportedHash | ExpectedValue "char option" | UnexpectedCharacter "char option"
| UnclosedBrace | UnexpectedBrace | OutOfFuel

type_synonym cursor = "string \<times> nat"
type_synonym kdl_error = "nat \<times> kdl_fault"

definition NL :: char where "NL = CHR 0x0A"

definition fault :: "cursor \<Rightarrow> kdl_fault \<Rightarrow> kdl_error + 'a" where
  "fault c f = Inl (snd c, f)"

definition peek :: "cursor \<Rightarrow> char option" where
  "peek c = (case fst c of [] \<Rightarrow> None | x # _ \<Rightarrow> Some x)"

definition is_lower_az :: "char \<Rightarrow> bool" where
  "is_lower_az c \<longleftrightarrow> 97 \<le> char_code c \<and> char_code c \<le> 122"

definition is_ident_start :: "char \<Rightarrow> bool" where
  "is_ident_start c \<longleftrightarrow>
     is_lower_az c \<or> (65 \<le> char_code c \<and> char_code c \<le> 90) \<or> c = CHR ''_'' \<or> c = CHR ''-''"

definition is_ident_char :: "char \<Rightarrow> bool" where
  "is_ident_char c \<longleftrightarrow> is_ident_start c \<or> is_digit c"

section \<open>Space and comments\<close>

definition is_inline :: "char \<Rightarrow> bool" where
  "is_inline c \<longleftrightarrow> c = CHR '' '' \<or> c = CHR 0x09 \<or> c = CHR 0x0D"

definition skip_inline :: "cursor \<Rightarrow> cursor" where
  "skip_inline c = (dropWhile is_inline (fst c), snd c)"

text \<open>\<open>skipBlockComment\<close> after the opening: the depth, the rest, the line.\<close>

fun skip_block :: "nat \<Rightarrow> string \<Rightarrow> nat \<Rightarrow> kdl_error + cursor" where
  "skip_block 0 s l = Inr (s, l)"
| "skip_block (Suc d) [] l = Inl (l, UnclosedComment)"
| "skip_block (Suc d) [x] l = skip_block (Suc d) [] (if x = NL then Suc l else l)"
| "skip_block (Suc d) (x # y # s) l =
     (if x = CHR ''/'' \<and> y = CHR ''*'' then skip_block (Suc (Suc d)) s l
      else if x = CHR ''*'' \<and> y = CHR ''/'' then skip_block d s l
      else skip_block (Suc d) (y # s) (if x = NL then Suc l else l))"

lemma skip_block_shorter: "skip_block d s l = Inr (s', l') \<Longrightarrow> length s' \<le> length s"
  by (induction d s l rule: skip_block.induct) (auto split: if_splits)

function skip_gap :: "cursor \<Rightarrow> kdl_error + cursor" where
  "skip_gap c =
     (if starts_with (fst (skip_inline c)) ''/*'' then
        (case skip_block 1 (drop 2 (fst (skip_inline c))) (snd (skip_inline c)) of
           Inl e \<Rightarrow> Inl e | Inr c' \<Rightarrow> skip_gap c')
      else Inr (skip_inline c))"
  by pat_completeness auto
termination
proof (relation "measure (length \<circ> fst)", simp)
  fix c :: cursor and c'
  let ?c = "skip_inline c"
  assume "starts_with (fst ?c) ''/*''" "skip_block 1 (drop 2 (fst ?c)) (snd ?c) = Inr c'"
  then have "2 \<le> length (fst ?c)" "length (fst c') \<le> length (fst ?c) - 2"
    using skip_block_shorter [of 1 "drop 2 (fst ?c)" "snd ?c" "fst c'" "snd c'"] by (auto simp: starts_with_iff)
  then show "(c', c) \<in> measure (length \<circ> fst)"
    using length_dropWhile_le [of is_inline "fst c"] by (simp add: skip_inline_def)
qed

declare skip_gap.simps [simp del]

text \<open>A line comment ends before its newline.\<close>

definition skip_line :: "cursor \<Rightarrow> cursor" where
  "skip_line c = (dropWhile (\<lambda>x. x \<noteq> NL) (fst c), snd c)"

lemma skip_gap_shorter: "skip_gap c = Inr c' \<Longrightarrow> length (fst c') \<le> length (fst c)"
proof (induction c rule: skip_gap.induct)
  case (1 c)
  let ?c = "skip_inline c"
  have le: "length (fst ?c) \<le> length (fst c)" by (simp add: skip_inline_def length_dropWhile_le)
  show ?case
  proof (cases "starts_with (fst ?c) ''/*''")
    case False
    then show ?thesis using 1(2) le by (simp add: skip_gap.simps [of c])
  next
    case True
    then obtain c1 where c1: "skip_block 1 (drop 2 (fst ?c)) (snd ?c) = Inr c1" "skip_gap c1 = Inr c'"
      using 1(2) by (auto simp: skip_gap.simps [of c] split: sum.splits)
    have "length (fst c1) \<le> length (fst ?c) - 2"
      using skip_block_shorter [of 1 "drop 2 (fst ?c)" "snd ?c" "fst c1" "snd c1"] c1(1) by simp
    with 1(1) [OF True c1(1) c1(2)] le show ?thesis by linarith
  qed
qed

function skip_space :: "cursor \<Rightarrow> kdl_error + cursor" where
  "skip_space c =
     (case skip_gap c of
        Inl e \<Rightarrow> Inl e
      | Inr c1 \<Rightarrow>
          if peek c1 = Some NL then skip_space (tl (fst c1), Suc (snd c1))
          else if starts_with (fst c1) ''//'' then skip_space (skip_line c1)
          else Inr c1)"
  by pat_completeness auto
termination
proof (relation "measure (length \<circ> fst)", simp)
  fix c c1 :: cursor
  assume g: "skip_gap c = Inr c1" and "peek c1 = Some NL"
  then have "fst c1 \<noteq> []" by (auto simp: peek_def)
  then show "((tl (fst c1), Suc (snd c1)), c) \<in> measure (length \<circ> fst)"
    using skip_gap_shorter [OF g] by (cases "fst c1") auto
next
  fix c c1 :: cursor
  assume g: "skip_gap c = Inr c1" and "starts_with (fst c1) ''//''"
  then obtain r where r: "fst c1 = ''//'' @ r" by (auto simp: starts_with_iff)
  then have "length (fst (skip_line c1)) < length (fst c1)"
    using length_dropWhile_le [of "\<lambda>x. x \<noteq> NL" r] by (simp add: skip_line_def NL_def)
  then show "(skip_line c1, c) \<in> measure (length \<circ> fst)"
    using skip_gap_shorter [OF g] by simp
qed

declare skip_space.simps [simp del]

section \<open>Tokens\<close>

definition parse_ident :: "cursor \<Rightarrow> kdl_error + string \<times> cursor" where
  "parse_ident c =
     (case fst c of
        x # r \<Rightarrow>
          if is_ident_start x then Inr (x # takeWhile is_ident_char r, (dropWhile is_ident_char r, snd c))
          else fault c (ExpectedName (Some x))
      | [] \<Rightarrow> fault c (ExpectedName None))"

definition escape_char :: "char \<Rightarrow> char option" where
  "escape_char e =
     (if e = CHR 0x22 then Some (CHR 0x22) else if e = CHR 0x5C then Some (CHR 0x5C)
      else if e = CHR ''/'' then Some (CHR ''/'') else if e = CHR ''n'' then Some (CHR 0x0A)
      else if e = CHR ''t'' then Some (CHR 0x09) else if e = CHR ''r'' then Some (CHR 0x0D)
      else if e = CHR ''b'' then Some (CHR 0x08) else if e = CHR ''f'' then Some (CHR 0x0C) else None)"

text \<open>The body of a string, after its opening quote.\<close>

fun string_body :: "string \<Rightarrow> cursor \<Rightarrow> kdl_error + string \<times> cursor" where
  "string_body out ([], l) = Inl (l, UnclosedString)"
| "string_body out ([x], l) = (if x = CHR 0x22 then Inr (out, ([], l)) else Inl (l, UnclosedString))"
| "string_body out (x # y # s, l) =
     (if x = NL then Inl (l, UnclosedString)
      else if x = CHR 0x22 then Inr (out, (y # s, l))
      else if x = CHR 0x5C then
        (if y = NL then Inl (l, UnclosedString)
         else case escape_char y of None \<Rightarrow> Inl (l, UnknownEscape y) | Some e \<Rightarrow> string_body (out @ [e]) (s, l))
      else string_body (out @ [x]) (y # s, l))"

definition parse_string :: "cursor \<Rightarrow> kdl_error + string \<times> cursor" where
  "parse_string c = string_body [] (tl (fst c), snd c)"

definition pow10 :: "int \<Rightarrow> rat" where
  "pow10 e = (if 0 \<le> e then 10 ^ nat e else 1 / 10 ^ nat (- e))"

text \<open>The characters that may follow a number or a keyword.\<close>

definition ends_token :: "cursor \<Rightarrow> bool" where
  "ends_token c \<longleftrightarrow>
     (case peek c of None \<Rightarrow> True
      | Some x \<Rightarrow> is_inline x \<or> x = NL \<or> x \<in> {CHR '';'', CHR ''{'', CHR ''}'', CHR ''/'', CHR ''=''})"

definition take_digits :: "string \<Rightarrow> string \<times> string" where
  "take_digits s = (takeWhile is_digit s, dropWhile is_digit s)"

definition sign_part :: "string \<Rightarrow> bool \<times> string" where
  "sign_part s = (if starts_with s ''-'' then (True, tl s) else (False, s))"

text \<open>The fraction: \<open>None\<close> is a point without digits after it.\<close>

definition fraction_part :: "string \<Rightarrow> (string \<times> string) option" where
  "fraction_part s =
     (if starts_with s ''.'' then (let (ds, r) = take_digits (tl s) in if ds = [] then None else Some (ds, r))
      else Some ([], s))"

definition exponent_part :: "string \<Rightarrow> int \<times> string" where
  "exponent_part s =
     (if starts_with s ''e'' \<or> starts_with s ''E'' then
        (let neg = starts_with (tl s) ''-'';
             s1 = (if neg \<or> starts_with (tl s) ''+'' then tl (tl s) else tl s);
             (ds, r) = take_digits s1
         in if ds = [] then (0, s) else ((if neg then - int (digits_val ds) else int (digits_val ds)), r))
      else (0, s))"

definition parse_number :: "cursor \<Rightarrow> kdl_error + rat \<times> cursor" where
  "parse_number c =
     (let (neg, s1) = sign_part (fst c);
          (ds, s2) = take_digits s1
      in case fraction_part s2 of
           None \<Rightarrow> fault c MalformedNumber
         | Some (fs, s3) \<Rightarrow>
             let (e, s4) = exponent_part s3;
                 m = rat_of_nat (digits_val (ds @ fs)) * pow10 (e - int (length fs))
             in if ends_token (s4, snd c) then Inr (if neg then - m else m, (s4, snd c))
                else fault c MalformedNumber)"

definition parse_keyword :: "string \<Rightarrow> kdl_value \<Rightarrow> cursor \<Rightarrow> (kdl_error + kdl_value \<times> cursor) option" where
  "parse_keyword w v c =
     (if \<not> starts_with (fst c) w then None
      else if ends_token (drop (length w) (fst c), snd c) then Some (Inr (v, (drop (length w) (fst c), snd c)))
      else Some (fault c (MalformedKeyword w)))"

definition parse_hash :: "cursor \<Rightarrow> kdl_error + kdl_value \<times> cursor" where
  "parse_hash c =
     (case parse_keyword ''#true'' (KBool True) c of
        Some r \<Rightarrow> r
      | None \<Rightarrow> (case parse_keyword ''#false'' (KBool False) c of
          Some r \<Rightarrow> r
        | None \<Rightarrow> (case parse_keyword ''#null'' KNull c of Some r \<Rightarrow> r | None \<Rightarrow> fault c UnsupportedHash)))"

text \<open>\<open>isDigit(ch) || (ch === "-" && isDigit(src[pos + 1]))\<close>\<close>

definition starts_number :: "string \<Rightarrow> bool" where
  "starts_number s =
     (case s of x # r \<Rightarrow> is_digit x \<or> (x = CHR ''-'' \<and> (case r of y # _ \<Rightarrow> is_digit y | [] \<Rightarrow> False)) | [] \<Rightarrow> False)"

definition map_parsed :: "('a \<Rightarrow> 'b) \<Rightarrow> kdl_error + 'a \<times> cursor \<Rightarrow> kdl_error + 'b \<times> cursor" where
  "map_parsed f r = (case r of Inl e \<Rightarrow> Inl e | Inr (x, c) \<Rightarrow> Inr (f x, c))"

definition parse_value :: "cursor \<Rightarrow> kdl_error + kdl_value \<times> cursor" where
  "parse_value c =
     (if peek c = Some (CHR 0x22) then map_parsed KStr (parse_string c)
      else if peek c = Some (CHR ''#'') then parse_hash c
      else if starts_number (fst c) then map_parsed KNum (parse_number c)
      else if (case peek c of Some x \<Rightarrow> is_ident_start x | None \<Rightarrow> False) then map_parsed KStr (parse_ident c)
      else fault c (ExpectedValue (peek c)))"

section \<open>Nodes\<close>

text \<open>An entry is an argument or a property; assigning a primitive to \<open>__proto__\<close> has no effect.\<close>

datatype kdl_entry = KArg kdl_value | KProp string kdl_value

definition parse_entry :: "cursor \<Rightarrow> kdl_error + kdl_entry \<times> cursor" where
  "parse_entry c =
     (if peek c = Some (CHR 0x22) then map_parsed (KArg \<circ> KStr) (parse_string c)
      else if peek c = Some (CHR ''#'') then map_parsed KArg (parse_value c)
      else if starts_number (fst c) then map_parsed (KArg \<circ> KNum) (parse_number c)
      else if \<not> (case peek c of Some x \<Rightarrow> is_ident_start x | None \<Rightarrow> False) then fault c (UnexpectedCharacter (peek c))
      else
        (case parse_ident c of
           Inl e \<Rightarrow> Inl e
         | Inr (word, c1) \<Rightarrow>
             let c2 = skip_inline c1 in
             if peek c2 = Some (CHR ''='')
             then map_parsed (KProp word) (parse_value (skip_inline (tl (fst c2), snd c2)))
             else Inr (KArg (KStr word), c2)))"

definition add_entry :: "kdl_entry \<Rightarrow> kdl_node \<Rightarrow> kdl_node" where
  "add_entry e n =
     (case e of
        KArg v \<Rightarrow> KdlNode (kn_name n) (kn_args n @ [v]) (kn_props n) (kn_children n)
      | KProp k v \<Rightarrow>
          if k = ''__proto__'' then n
          else KdlNode (kn_name n) (kn_args n) (AList.update k v (kn_props n)) (kn_children n))"

definition set_children :: "kdl_node list \<Rightarrow> kdl_node \<Rightarrow> kdl_node" where
  "set_children ns n = KdlNode (kn_name n) (kn_args n) (kn_props n) ns"

fun node_loop :: "nat \<Rightarrow> kdl_node \<Rightarrow> cursor \<Rightarrow> kdl_error + kdl_node \<times> cursor"
  and parse_children :: "nat \<Rightarrow> kdl_node list \<Rightarrow> cursor \<Rightarrow> kdl_error + kdl_node list \<times> cursor" where
  "node_loop 0 n c = fault c OutOfFuel"
| "node_loop (Suc k) n c =
     (case skip_gap c of
        Inl e \<Rightarrow> Inl e
      | Inr c1 \<Rightarrow>
          if peek c1 = None \<or> peek c1 = Some NL then Inr (n, c1)
          else if peek c1 = Some (CHR '';'') then Inr (n, (tl (fst c1), snd c1))
          else if starts_with (fst c1) ''//'' \<or> peek c1 = Some (CHR ''}'') then Inr (n, c1)
          else if peek c1 = Some (CHR ''{'') then
            (case parse_children k [] (tl (fst c1), snd c1) of
               Inl e \<Rightarrow> Inl e
             | Inr (ns, c2) \<Rightarrow>
                 if peek c2 \<noteq> Some (CHR ''}'') then fault c2 UnclosedBrace
                 else node_loop k (set_children ns n) (tl (fst c2), snd c2))
          else
            (case parse_entry c1 of
               Inl e \<Rightarrow> Inl e
             | Inr (e, c2) \<Rightarrow> node_loop k (add_entry e n) c2))"
| "parse_children 0 ns c = fault c OutOfFuel"
| "parse_children (Suc k) ns c =
     (case skip_space c of
        Inl e \<Rightarrow> Inl e
      | Inr c1 \<Rightarrow>
          if peek c1 = None \<or> peek c1 = Some (CHR ''}'') then Inr (ns, c1)
          else
            (case parse_ident c1 of
               Inl e \<Rightarrow> Inl e
             | Inr (name, c2) \<Rightarrow>
                 (case node_loop k (KdlNode name [] [] []) c2 of
                    Inl e \<Rightarrow> Inl e
                  | Inr (n, c3) \<Rightarrow> parse_children k (ns @ [n]) c3)))"

fun parse_nodes :: "nat \<Rightarrow> kdl_node list \<Rightarrow> cursor \<Rightarrow> kdl_error + kdl_node list" where
  "parse_nodes 0 ns c = fault c OutOfFuel"
| "parse_nodes (Suc k) ns c =
     (case skip_space c of
        Inl e \<Rightarrow> Inl e
      | Inr c1 \<Rightarrow>
          if peek c1 = None then Inr ns
          else if peek c1 = Some (CHR ''}'') then fault c1 UnexpectedBrace
          else
            (case parse_ident c1 of
               Inl e \<Rightarrow> Inl e
             | Inr (name, c2) \<Rightarrow>
                 (case node_loop k (KdlNode name [] [] []) c2 of
                    Inl e \<Rightarrow> Inl e
                  | Inr (n, c3) \<Rightarrow> parse_nodes k (ns @ [n]) c3)))"

definition parse_kdl :: "string \<Rightarrow> kdl_error + kdl_node list" where
  "parse_kdl source = parse_nodes (Suc (length source)) [] (source, 1)"

section \<open>Where a parser stops\<close>

text \<open>
  Every parser reads a prefix of the source and counts its newlines; an error carries the line of a
  position it has reached.
\<close>

definition newlines :: "string \<Rightarrow> nat" where
  "newlines s = length (filter (\<lambda>x. x = NL) s)"

lemma newlines_simps [simp]:
  "newlines [] = 0" "newlines (x # s) = (if x = NL then Suc (newlines s) else newlines s)"
  "newlines (s @ t) = newlines s + newlines t"
  by (simp_all add: newlines_def)

lemma newlines_none: "NL \<notin> set s \<Longrightarrow> newlines s = 0"
  by (auto simp: newlines_def filter_empty_conv)

definition reads :: "cursor \<Rightarrow> cursor \<Rightarrow> bool" where
  "reads c c' \<longleftrightarrow> (\<exists>pre. fst c = pre @ fst c' \<and> snd c' = snd c + newlines pre)"

definition fails_in :: "cursor \<Rightarrow> kdl_error \<Rightarrow> bool" where
  "fails_in c e \<longleftrightarrow> (\<exists>c'. reads c c' \<and> fst e = snd c') \<and> snd e \<noteq> OutOfFuel"

definition skips :: "cursor \<Rightarrow> kdl_error + cursor \<Rightarrow> bool" where
  "skips c r \<longleftrightarrow> (case r of Inl e \<Rightarrow> fails_in c e | Inr c' \<Rightarrow> reads c c')"

text \<open>A parser that consumes at least one character.\<close>

definition parses :: "cursor \<Rightarrow> kdl_error + 'a \<times> cursor \<Rightarrow> bool" where
  "parses c r \<longleftrightarrow>
     (case r of Inl e \<Rightarrow> fails_in c e | Inr (_, c') \<Rightarrow> reads c c' \<and> length (fst c') < length (fst c))"

lemma reads_refl [simp, intro]: "reads c c"
  by (simp add: reads_def)

lemma reads_trans: "reads a b \<Longrightarrow> reads b c \<Longrightarrow> reads a c"
proof -
  assume "reads a b" "reads b c"
  then obtain p q where "fst a = p @ fst b" "snd b = snd a + newlines p" "fst b = q @ fst c" "snd c = snd b + newlines q"
    by (auto simp: reads_def)
  then show "reads a c" unfolding reads_def by (intro exI [of _ "p @ q"]) simp
qed

lemma reads_length: "reads c c' \<Longrightarrow> length (fst c') \<le> length (fst c)"
  by (auto simp: reads_def)

lemma reads_char: "reads (x # s, l) (s, if x = NL then Suc l else l)"
  by (auto simp: reads_def intro!: exI [of _ "[x]"])

lemma reads_plain: "NL \<notin> set pre \<Longrightarrow> reads (pre @ s, l) (s, l)"
  by (auto simp: reads_def newlines_none)

lemma fails_in_fault [simp]: "f \<noteq> OutOfFuel \<Longrightarrow> fails_in c (snd c, f)"
  unfolding fails_in_def using reads_refl by fastforce

lemma fails_in_reads: "reads c c' \<Longrightarrow> fails_in c' e \<Longrightarrow> fails_in c e"
  unfolding fails_in_def using reads_trans by blast

lemma reads_dropWhile: "\<not> P NL \<Longrightarrow> reads (s, l) (dropWhile P s, l)"
  using reads_plain [of "takeWhile P s" "dropWhile P s"] by (auto dest: set_takeWhileD)

lemma reads_skip_inline [simp, intro]: "reads c (skip_inline c)"
  using reads_dropWhile [of is_inline "fst c" "snd c"] by (simp add: skip_inline_def is_inline_def NL_def)

lemma skip_block_reads: "skips (s, l) (skip_block d s l)"
proof (induction d s l rule: skip_block.induct)
  case (2 d l)
  show ?case by (simp add: skips_def fails_in_def) (use reads_refl in fastforce)
next
  case (3 d x l)
  have "reads ([x], l) ([], if x = NL then Suc l else l)" using reads_char [of x "[]"] by simp
  with 3 show ?case unfolding skips_def
    by (auto split: sum.splits intro: reads_trans fails_in_reads)
next
  case (4 d x y s l)
  have two: "reads (x # y # s, l) (s, l)" if "x \<noteq> NL" "y \<noteq> NL"
    using reads_plain [of "[x, y]"] that by simp
  have one: "reads (x # y # s, l) (y # s, if x = NL then Suc l else l)" by (rule reads_char)
  consider "x = CHR ''/''" "y = CHR ''*''" | "x = CHR ''*''" "y = CHR ''/''"
    | "\<not> (x = CHR ''/'' \<and> y = CHR ''*'')" "\<not> (x = CHR ''*'' \<and> y = CHR ''/'')" by blast
  then show ?case
  proof cases
    case 1
    then have "reads (x # y # s, l) (s, l)" by (intro two) (auto simp: NL_def)
    with 4(1) 1 show ?thesis unfolding skips_def by (auto split: sum.splits intro: reads_trans fails_in_reads)
  next
    case 2
    then have "reads (x # y # s, l) (s, l)" by (intro two) (auto simp: NL_def)
    with 4(2) 2 show ?thesis unfolding skips_def by (auto split: sum.splits intro: reads_trans fails_in_reads)
  next
    case 3
    then have "skips (y # s, if x = NL then Suc l else l) (skip_block (Suc d) (y # s) (if x = NL then Suc l else l))"
      using 4(3) by blast
    moreover have "skip_block (Suc d) (x # y # s) l = skip_block (Suc d) (y # s) (if x = NL then Suc l else l)"
      unfolding skip_block.simps(4) if_not_P [OF 3(1)] if_not_P [OF 3(2)] ..
    ultimately show ?thesis using one unfolding skips_def by (auto split: sum.splits intro: reads_trans fails_in_reads)
  qed
qed (simp add: skips_def)

lemma skips_reads: "reads c c' \<Longrightarrow> skips c' r \<Longrightarrow> skips c r"
  unfolding skips_def by (auto split: sum.splits intro: reads_trans fails_in_reads)

lemma skip_gap_reads: "skips c (skip_gap c)"
proof (induction c rule: skip_gap.induct)
  case (1 c)
  let ?c = "skip_inline c"
  show ?case
  proof (cases "starts_with (fst ?c) ''/*''")
    case False
    then show ?thesis by (simp add: skip_gap.simps [of c] skips_def)
  next
    case True
    then obtain r where r: "fst ?c = ''/*'' @ r" by (auto simp: starts_with_iff)
    then have step: "reads ?c (r, snd ?c)" using reads_plain [of "''/*''" r "snd ?c"] by (cases ?c) (simp add: NL_def)
    have "reads c (r, snd ?c)" by (rule reads_trans [OF reads_skip_inline step])
    note block = skips_reads [OF this skip_block_reads [of r "snd ?c" 1]]
    show ?thesis
    proof (cases "skip_block 1 r (snd ?c)")
      case (Inl e)
      then show ?thesis using block True r by (simp add: skip_gap.simps [of c])
    next
      case (Inr c')
      then have "reads c c'" using block by (simp add: skips_def)
      moreover have "skips c' (skip_gap c')" using 1 [OF True] Inr r by simp
      ultimately have "skips c (skip_gap c')" by (rule skips_reads)
      then show ?thesis using True r Inr by (simp add: skip_gap.simps [of c])
    qed
  qed
qed

lemma peek_Some: "peek c = Some x \<longleftrightarrow> fst c = x # tl (fst c)"
  by (cases "fst c") (auto simp: peek_def)

lemma reads_tl: "peek c = Some x \<Longrightarrow> x \<noteq> NL \<Longrightarrow> reads c (tl (fst c), snd c)"
  using reads_char [of x "tl (fst c)" "snd c"] by (cases c) (auto simp: peek_Some)

lemma skip_space_reads: "skips c (skip_space c)"
proof (induction c rule: skip_space.induct)
  case (1 c)
  show ?case
  proof (cases "skip_gap c")
    case (Inl e)
    then show ?thesis using skip_gap_reads [of c] by (simp add: skip_space.simps [of c])
  next
    case (Inr c1)
    then have c1: "reads c c1" using skip_gap_reads [of c] by (simp add: skips_def)
    consider "peek c1 = Some NL" | "peek c1 \<noteq> Some NL" "starts_with (fst c1) ''//''"
      | "peek c1 \<noteq> Some NL" "\<not> starts_with (fst c1) ''//''" by blast
    then show ?thesis
    proof cases
      case 1
      then have "reads c1 (tl (fst c1), Suc (snd c1))"
        using reads_char [of NL "tl (fst c1)" "snd c1"] by (cases c1) (auto simp: peek_Some)
      with c1 have "reads c (tl (fst c1), Suc (snd c1))" by (rule reads_trans)
      from skips_reads [OF this "1.IH"(1) [OF Inr 1]] show ?thesis using Inr 1 by (simp add: skip_space.simps [of c])
    next
      case 2
      have "reads c1 (skip_line c1)"
        using reads_dropWhile [of "\<lambda>x. x \<noteq> NL" "fst c1" "snd c1"] by (simp add: skip_line_def)
      with c1 have "reads c (skip_line c1)" by (rule reads_trans)
      from skips_reads [OF this "1.IH"(2) [OF Inr 2]] show ?thesis using Inr 2 by (simp add: skip_space.simps [of c])
    next
      case 3
      then show ?thesis using Inr c1 by (simp add: skip_space.simps [of c] skips_def)
    qed
  qed
qed

section \<open>Tokens consume\<close>

lemma parses_fault [simp]: "f \<noteq> OutOfFuel \<Longrightarrow> parses c (fault c f)"
  by (simp add: parses_def fault_def)

lemma parses_map [simp]: "parses c (map_parsed f r) \<longleftrightarrow> parses c r"
  by (auto simp: parses_def map_parsed_def split: sum.splits)

lemma parses_prefix: "NL \<notin> set pre \<Longrightarrow> pre \<noteq> [] \<Longrightarrow> fst c = pre @ s \<Longrightarrow> parses c (Inr (x, (s, snd c)))"
  using reads_plain [of pre s "snd c"] by (cases c) (auto simp: parses_def)

lemma parses_after:
  assumes "reads c c'" "parses c' r"
  shows "parses c r"
proof (cases r)
  case (Inl e)
  then show ?thesis using assms fails_in_reads by (auto simp: parses_def)
next
  case (Inr x)
  then have "reads c' (snd x)" "length (fst (snd x)) < length (fst c')"
    using assms(2) by (auto simp: parses_def split: prod.splits)
  then show ?thesis using Inr reads_trans [OF assms(1)] reads_length [OF assms(1)]
    by (auto simp: parses_def split: prod.splits)
qed

lemma ident_no_newline: "is_ident_char x \<Longrightarrow> x \<noteq> NL" "is_ident_start x \<Longrightarrow> x \<noteq> NL" "is_digit x \<Longrightarrow> x \<noteq> NL"
  by (auto simp: is_ident_char_def is_ident_start_def is_lower_az_def is_digit_def NL_def)

lemma parse_ident_parses: "parses c (parse_ident c)"
proof (cases "fst c")
  case Nil
  then show ?thesis by (simp add: parse_ident_def)
next
  case (Cons x r)
  let ?pre = "x # takeWhile is_ident_char r"
  have pre: "NL \<notin> set ?pre" if "is_ident_start x" using that ident_no_newline by (auto dest: set_takeWhileD)
  have "fst c = ?pre @ dropWhile is_ident_char r" using Cons by simp
  from parses_prefix [OF pre _ this] have "parses c (Inr (?pre, (dropWhile is_ident_char r, snd c)))" if "is_ident_start x"
    using that by simp
  then show ?thesis using Cons by (simp add: parse_ident_def)
qed

lemma fails_in_line: "fails_in (s, l) (l, f) \<longleftrightarrow> f \<noteq> OutOfFuel"
  using fails_in_fault [of f "(s, l)"] by (auto simp: fails_in_def)

lemma string_body_reads: "case string_body out c of Inl e \<Rightarrow> fails_in c e | Inr (_, c') \<Rightarrow> reads c c'"
proof (induction out c rule: string_body.induct)
  case (2 out x l)
  show ?case using reads_plain [of "[x]" "[]" l] by (auto simp: fails_in_line NL_def)
next
  case (3 out x y s l)
  have one: "reads (x # y # s, l) (y # s, l)" if "x \<noteq> NL" using reads_plain [of "[x]"] that by simp
  have two: "reads (x # y # s, l) (s, l)" if "x \<noteq> NL" "y \<noteq> NL" using reads_plain [of "[x, y]"] that by simp
  have quote: "CHR 0x22 \<noteq> NL" "CHR 0x5C \<noteq> NL" by (simp_all add: NL_def)
  consider "x = NL" | "x = CHR 0x22" | "x = CHR 0x5C" "y = NL \<or> escape_char y = None"
    | e where "x = CHR 0x5C" "y \<noteq> NL" "escape_char y = Some e"
    | "x \<noteq> NL" "x \<noteq> CHR 0x22" "x \<noteq> CHR 0x5C" by (cases "escape_char y") auto
  then show ?case
  proof cases
    case 2
    then show ?thesis using one quote by simp
  next
    case (4 e)
    have "case string_body (out @ [e]) (s, l) of Inl e \<Rightarrow> fails_in (s, l) e | Inr (_, c') \<Rightarrow> reads (s, l) c'"
      using 3(1) 4 quote by simp
    then show ?thesis using 4 quote two
      by (auto split: sum.splits intro: reads_trans fails_in_reads)
  next
    case 5
    have "case string_body (out @ [x]) (y # s, l) of Inl e \<Rightarrow> fails_in (y # s, l) e | Inr (_, c') \<Rightarrow> reads (y # s, l) c'"
      using 3(2) 5 by simp
    then show ?thesis using 5 one by (auto split: sum.splits intro: reads_trans fails_in_reads)
  qed (auto simp: fails_in_line split: option.splits)
qed (auto simp: fails_in_line)

lemma parse_string_parses: "peek c = Some (CHR 0x22) \<Longrightarrow> parses c (parse_string c)"
proof -
  assume q: "peek c = Some (CHR 0x22)"
  then have c: "reads c (tl (fst c), snd c)" by (rule reads_tl) (simp add: NL_def)
  have shorter: "length (tl (fst c)) < length (fst c)" using q by (cases "fst c") (auto simp: peek_def)
  have body: "case parse_string c of Inl e \<Rightarrow> fails_in (tl (fst c), snd c) e | Inr (_, c') \<Rightarrow> reads (tl (fst c), snd c) c'"
    using string_body_reads [where out = "[]" and c = "(tl (fst c), snd c)"] by (simp add: parse_string_def)
  show ?thesis
  proof (cases "parse_string c")
    case (Inl e)
    then show ?thesis using body fails_in_reads [OF c] by (simp add: parses_def)
  next
    case (Inr x)
    then have r: "reads (tl (fst c), snd c) (snd x)" using body by (simp split: prod.splits)
    have "length (fst (snd x)) < length (fst c)" using reads_length [OF r] shorter by simp
    with Inr reads_trans [OF c r] show ?thesis by (cases x) (simp add: parses_def)
  qed
qed

text \<open>The parts of a number, as a split of the text.\<close>

lemma take_digits_split: "take_digits s = (ds, r) \<Longrightarrow> s = ds @ r \<and> NL \<notin> set ds"
  using ident_no_newline(3) by (auto simp: take_digits_def dest: set_takeWhileD)

lemma sign_split: "sign_part s = (n, r) \<Longrightarrow> \<exists>p. s = p @ r \<and> NL \<notin> set p"
  by (auto simp: sign_part_def starts_with_iff NL_def split: if_splits)

lemma fraction_split: "fraction_part s = Some (fs, r) \<Longrightarrow> \<exists>p. s = p @ r \<and> NL \<notin> set p"
proof -
  assume f: "fraction_part s = Some (fs, r)"
  show ?thesis
  proof (cases "starts_with s ''.''")
    case True
    then have "s = CHR ''.'' # tl s" by (auto simp: starts_with_iff)
    moreover have "tl s = fs @ r \<and> NL \<notin> set fs"
      using f True take_digits_split [of "tl s"] by (auto simp: fraction_part_def split: prod.splits if_splits)
    ultimately show ?thesis by (intro exI [of _ "CHR ''.'' # fs"]) (auto simp: NL_def)
  next
    case False
    then show ?thesis using f by (auto simp: fraction_part_def intro: exI [of _ "[]"])
  qed
qed

lemma exponent_split: "exponent_part s = (e, r) \<Longrightarrow> \<exists>p. s = p @ r \<and> NL \<notin> set p"
proof -
  assume x: "exponent_part s = (e, r)"
  let ?neg = "starts_with (tl s) ''-''"
  let ?s1 = "if ?neg \<or> starts_with (tl s) ''+'' then tl (tl s) else tl s"
  obtain ds r' where d: "take_digits ?s1 = (ds, r')" by (cases "take_digits ?s1")
  show ?thesis
  proof (cases "(starts_with s ''e'' \<or> starts_with s ''E'') \<and> ds \<noteq> []")
    case True
    then have r: "r = r'" using x d by (auto simp: exponent_part_def Let_def split: if_splits)
    have "s \<noteq> []" "hd s \<noteq> NL" using True by (cases s; auto simp: NL_def)+
    then obtain c where c: "s = c # tl s" "c \<noteq> NL" by (cases s) auto
    obtain p where p: "tl s = p @ ?s1" "NL \<notin> set p"
    proof (cases "?neg \<or> starts_with (tl s) ''+''")
      case True
      then have "tl s \<noteq> []" "hd (tl s) \<noteq> NL" by (cases "tl s"; auto simp: NL_def)+
      then obtain z where "tl s = z # tl (tl s)" "z \<noteq> NL" by (cases "tl s") auto
      then show ?thesis using that [of "[z]"] True by auto
    next
      case False
      then show ?thesis using that [of "[]"] by simp
    qed
    have ds: "NL \<notin> set ds" and "?s1 = ds @ r'" using take_digits_split [OF d] by blast+
    moreover have "s = c # p @ ?s1" by (subst c(1), subst p(1)) (rule refl)
    ultimately have "s = (c # p @ ds) @ r" unfolding r by simp
    then show ?thesis using c(2) p(2) ds by (intro exI [of _ "c # p @ ds"]) auto
  next
    case False
    then have "r = s" using x d by (auto simp: exponent_part_def Let_def split: if_splits)
    then show ?thesis by (intro exI [of _ "[]"]) simp
  qed
qed

lemma parse_number_parses:
  assumes "starts_number (fst c)"
  shows "parses c (parse_number c)"
proof -
  obtain neg s1 where a: "sign_part (fst c) = (neg, s1)" by (cases "sign_part (fst c)")
  obtain ds s2 where b: "take_digits s1 = (ds, s2)" by (cases "take_digits s1")
  show ?thesis
  proof (cases "fraction_part s2")
    case None
    then show ?thesis by (simp add: parse_number_def a b)
  next
    case (Some p)
    obtain fs s3 where f: "p = (fs, s3)" by (cases p)
    obtain e s4 where x: "exponent_part s3 = (e, s4)" by (cases "exponent_part s3")
    obtain p1 where p1: "fst c = p1 @ s1" "NL \<notin> set p1" using sign_split [OF a] by blast
    have p2: "s1 = ds @ s2" "NL \<notin> set ds" using take_digits_split [OF b] by blast+
    obtain p3 where p3: "s2 = p3 @ s3" "NL \<notin> set p3" using fraction_split Some f by blast
    obtain p4 where p4: "s3 = p4 @ s4" "NL \<notin> set p4" using exponent_split [OF x] by blast
    have "ds \<noteq> []"
    proof (cases "fst c")
      case Nil
      then show ?thesis using assms by (simp add: starts_number_def)
    next
      case (Cons x r)
      have "\<not> is_digit (CHR ''-'')" by (simp add: is_digit_def)
      then show ?thesis using assms a b unfolding Cons
        by (cases r) (auto simp: starts_number_def sign_part_def take_digits_def split: if_splits)
    qed
    then have "parses c (Inr (v, (s4, snd c)))" for v :: rat
      using p1 p2 p3 p4 by (intro parses_prefix [of "p1 @ ds @ p3 @ p4"]) auto
    then show ?thesis by (simp add: parse_number_def a b Some f x Let_def)
  qed
qed

lemma parse_keyword_parses: "parse_keyword w v c = Some r \<Longrightarrow> NL \<notin> set w \<Longrightarrow> w \<noteq> [] \<Longrightarrow> parses c r"
  using parses_prefix [of w c "drop (length w) (fst c)"]
  by (auto simp: parse_keyword_def starts_with_drop split: if_splits)

lemma parse_hash_parses: "parses c (parse_hash c)"
proof -
  have "parses c r" if "parse_keyword w v c = Some r" "w \<in> {''#true'', ''#false'', ''#null''}" for w v r
    using that by (intro parse_keyword_parses [OF that(1)]) (auto simp: NL_def)
  then show ?thesis unfolding parse_hash_def by (simp split: option.split)
qed

lemma parse_value_parses: "parses c (parse_value c)"
  by (simp add: parse_value_def parse_string_parses parse_hash_parses parse_number_parses parse_ident_parses)

lemma parse_entry_parses: "parses c (parse_entry c)"
proof -
  have "parses c (parse_entry c)" if "parse_ident c = Inr (word, c1)"
    "\<not> (peek c = Some (CHR 0x22))" "peek c \<noteq> Some (CHR ''#'')" "\<not> starts_number (fst c)"
    "case peek c of Some x \<Rightarrow> is_ident_start x | None \<Rightarrow> False" for word c1
  proof -
    let ?c2 = "skip_inline c1"
    have ident: "reads c c1" "length (fst c1) < length (fst c)"
      using parse_ident_parses [of c] that(1) by (simp_all add: parses_def)
    have c2: "reads c ?c2" "length (fst ?c2) < length (fst c)"
      using reads_trans [OF ident(1) reads_skip_inline] reads_length [OF reads_skip_inline, of c1] ident(2) by auto
    have after: "reads c (skip_inline (tl (fst ?c2), snd ?c2))" if "peek ?c2 = Some (CHR ''='')"
      by (rule reads_trans [OF c2(1) reads_trans [OF reads_tl [OF that] reads_skip_inline]]) (simp add: NL_def)
    show ?thesis
      using that c2 parses_after [OF after parse_value_parses]
      by (auto simp: parse_entry_def Let_def, auto simp: parses_def)
  qed
  then show ?thesis
    using parse_ident_parses [of c]
    by (cases "parse_ident c")
      (auto simp: parse_entry_def parse_string_parses parse_value_parses parse_number_parses split: option.split prod.split,
       auto simp: parses_def)
qed

section \<open>The whole parser\<close>

text \<open>Fuel above the length of the rest is never used up, and every result is a position of the rest.\<close>

lemma node_loop_sound:
  "length (fst c) < k \<Longrightarrow> (case node_loop k n c of Inl e \<Rightarrow> fails_in c e | Inr (_, c') \<Rightarrow> reads c c')"
  "length (fst c) < k \<Longrightarrow> (case parse_children k ns c of Inl e \<Rightarrow> fails_in c e | Inr (_, c') \<Rightarrow> reads c c')"
proof (induction k n c and k ns c rule: node_loop_parse_children.induct)
  case (2 k n c)
  show ?case
  proof (cases "skip_gap c")
    case (Inl e)
    then show ?thesis using skip_gap_reads [of c] by (simp add: skips_def)
  next
    case c1: (Inr c1)
    then have r1: "reads c c1" using skip_gap_reads [of c] by (simp add: skips_def)
    note le = reads_length [OF r1]
    consider "peek c1 = None \<or> peek c1 = Some NL"
      | "\<not> (peek c1 = None \<or> peek c1 = Some NL)" "peek c1 = Some (CHR '';'')"
      | "\<not> (peek c1 = None \<or> peek c1 = Some NL)" "peek c1 \<noteq> Some (CHR '';'')"
        "starts_with (fst c1) ''//'' \<or> peek c1 = Some (CHR ''}'')"
      | "\<not> (peek c1 = None \<or> peek c1 = Some NL)" "peek c1 \<noteq> Some (CHR '';'')"
        "\<not> (starts_with (fst c1) ''//'' \<or> peek c1 = Some (CHR ''}''))" "peek c1 = Some (CHR ''{'')"
      | "\<not> (peek c1 = None \<or> peek c1 = Some NL)" "peek c1 \<noteq> Some (CHR '';'')"
        "\<not> (starts_with (fst c1) ''//'' \<or> peek c1 = Some (CHR ''}''))" "peek c1 \<noteq> Some (CHR ''{'')" by blast
    then show ?thesis
    proof cases
      case 2
      have "reads c (tl (fst c1), snd c1)" by (rule reads_trans [OF r1 reads_tl [OF 2(2)]]) (simp add: NL_def)
      with c1 2 show ?thesis by (simp add: NL_def)
    next
      case 4
      let ?in = "(tl (fst c1), snd c1)"
      have r2: "reads c ?in" by (rule reads_trans [OF r1 reads_tl [OF 4(4)]]) (simp add: NL_def)
      have less: "length (fst ?in) < k" using 4(4) le "2.prems" by (cases "fst c1") (auto simp: peek_def)
      note kids = "2.IH"(1) [OF c1 4 less]
      show ?thesis
      proof (cases "parse_children k [] ?in")
        case (Inl e)
        then show ?thesis using kids fails_in_reads [OF r2] c1 4 by (simp add: NL_def)
      next
        case (Inr p)
        obtain ns c2 where p: "p = (ns, c2)" by (cases p)
        have r3: "reads c c2" using kids Inr p reads_trans [OF r2] by simp
        show ?thesis
        proof (cases "peek c2 = Some (CHR ''}'')")
          case True
          let ?out = "(tl (fst c2), snd c2)"
          have r4: "reads c ?out" by (rule reads_trans [OF r3 reads_tl [OF True]]) (simp add: NL_def)
          have "length (fst c2) \<le> length (fst ?in)" using kids Inr p reads_length [of ?in c2] by simp
          then have "length (fst ?out) < k" using less by simp
          moreover have "\<not> peek c2 \<noteq> Some (CHR ''}'')" using True by simp
          ultimately have rest: "case node_loop k (set_children ns n) ?out of Inl e \<Rightarrow> fails_in ?out e | Inr (_, c') \<Rightarrow> reads ?out c'"
            by (intro "2.IH"(2) [OF c1 4 Inr p [symmetric]])
          have "node_loop (Suc k) n c = node_loop k (set_children ns n) ?out"
            using c1 4 Inr p True by (simp add: NL_def)
          then show ?thesis using rest reads_trans [OF r4] fails_in_reads [OF r4] by (auto split: sum.splits)
        next
          case False
          then show ?thesis using c1 4 Inr p fails_in_reads [OF r3 fails_in_fault, of UnclosedBrace]
            by (simp add: fault_def NL_def)
        qed
      qed
    next
      case 5
      note entry = parses_after [OF r1 parse_entry_parses]
      show ?thesis
      proof (cases "parse_entry c1")
        case (Inl e)
        then show ?thesis using entry c1 5 by (auto simp: parses_def)
      next
        case (Inr p)
        obtain e c2 where p: "p = (e, c2)" by (cases p)
        have r2: "reads c c2" "length (fst c2) < length (fst c)" using entry Inr p by (simp_all add: parses_def)
        then have less: "length (fst c2) < k" using "2.prems" by simp
        from "2.IH"(3) [OF c1 5 Inr p [symmetric] less]
        have rest: "case node_loop k (add_entry e n) c2 of Inl e \<Rightarrow> fails_in c2 e | Inr (_, c') \<Rightarrow> reads c2 c'" .
        have "node_loop (Suc k) n c = node_loop k (add_entry e n) c2" using c1 5 Inr p by auto
        then show ?thesis using rest reads_trans [OF r2(1)] fails_in_reads [OF r2(1)] by (auto split: sum.splits)
      qed
    qed (use c1 r1 in auto)
  qed
next
  case (4 k ns c)
  show ?case
  proof (cases "skip_space c")
    case (Inl e)
    then show ?thesis using skip_space_reads [of c] by (simp add: skips_def)
  next
    case c1: (Inr c1)
    then have r1: "reads c c1" using skip_space_reads [of c] by (simp add: skips_def)
    show ?thesis
    proof (cases "peek c1 = None \<or> peek c1 = Some (CHR ''}'')")
      case True
      then show ?thesis using c1 r1 by auto
    next
      case False
      note ident = parses_after [OF r1 parse_ident_parses]
      show ?thesis
      proof (cases "parse_ident c1")
        case (Inl e)
        then show ?thesis using ident c1 False by (auto simp: parses_def)
      next
        case (Inr p)
        obtain name c2 where p: "p = (name, c2)" by (cases p)
        have r2: "reads c c2" "length (fst c2) < length (fst c)" using ident Inr p by (simp_all add: parses_def)
        then have less: "length (fst c2) < k" using "4.prems" by simp
        note node = "4.IH"(1) [OF c1 False Inr p [symmetric] less]
        show ?thesis
        proof (cases "node_loop k (KdlNode name [] [] []) c2")
          case (Inl e)
          then show ?thesis using node fails_in_reads [OF r2(1)] c1 False Inr \<open>parse_ident c1 = Inr p\<close> p by auto
        next
          case q: (Inr q)
          obtain n c3 where q': "q = (n, c3)" by (cases q)
          have r3: "reads c c3" "length (fst c3) < k"
            using node q q' reads_trans [OF r2(1)] reads_length [of c2 c3] less by simp_all
          from "4.IH"(2) [OF c1 False Inr p [symmetric] q q' [symmetric] r3(2)]
          have rest: "case parse_children k (ns @ [n]) c3 of Inl e \<Rightarrow> fails_in c3 e | Inr (_, c') \<Rightarrow> reads c3 c'" .
          have "parse_children (Suc k) ns c = parse_children k (ns @ [n]) c3" using c1 False Inr p q q' by auto
          then show ?thesis using rest reads_trans [OF r3(1)] fails_in_reads [OF r3(1)] by (auto split: sum.splits)
        qed
      qed
    qed
  qed
qed simp_all

lemma parse_nodes_sound:
  "length (fst c) < k \<Longrightarrow> (case parse_nodes k ns c of Inl e \<Rightarrow> fails_in c e | Inr _ \<Rightarrow> True)"
proof (induction k ns c rule: parse_nodes.induct)
  case (2 k ns c)
  show ?case
  proof (cases "skip_space c")
    case (Inl e)
    then show ?thesis using skip_space_reads [of c] by (simp add: skips_def)
  next
    case c1: (Inr c1)
    then have r1: "reads c c1" using skip_space_reads [of c] by (simp add: skips_def)
    consider "peek c1 = None" | "peek c1 \<noteq> None" "peek c1 = Some (CHR ''}'')" | "peek c1 \<noteq> None" "peek c1 \<noteq> Some (CHR ''}'')" by blast
    then show ?thesis
    proof cases
      case 2
      then show ?thesis using c1 fails_in_reads [OF r1 fails_in_fault, of UnexpectedBrace] by (simp add: fault_def)
    next
      case 3
      note ident = parses_after [OF r1 parse_ident_parses]
      show ?thesis
      proof (cases "parse_ident c1")
        case (Inl e)
        then show ?thesis using ident c1 3 by (auto simp: parses_def)
      next
        case (Inr p)
        obtain name c2 where p: "p = (name, c2)" by (cases p)
        have r2: "reads c c2" "length (fst c2) < length (fst c)" using ident Inr p by (simp_all add: parses_def)
        then have less: "length (fst c2) < k" using "2.prems" by simp
        note node = node_loop_sound(1) [OF less, of "KdlNode name [] [] []"]
        show ?thesis
        proof (cases "node_loop k (KdlNode name [] [] []) c2")
          case (Inl e)
          then show ?thesis using node fails_in_reads [OF r2(1)] c1 3 \<open>parse_ident c1 = Inr p\<close> p by auto
        next
          case q: (Inr q)
          obtain n c3 where q': "q = (n, c3)" by (cases q)
          have r3: "reads c c3" "length (fst c3) < k"
            using node q q' reads_trans [OF r2(1)] reads_length [of c2 c3] less by simp_all
          have rest: "case parse_nodes k (ns @ [n]) c3 of Inl e \<Rightarrow> fails_in c3 e | Inr _ \<Rightarrow> True"
            using "2.IH" [OF c1 3(1,2) Inr p [symmetric] q q' [symmetric] r3(2)] .
          have "parse_nodes (Suc k) ns c = parse_nodes k (ns @ [n]) c3" using c1 3 Inr p q q' by auto
          then show ?thesis using rest fails_in_reads [OF r3(1)] by (auto split: sum.splits)
        qed
      qed
    qed (use c1 in simp)
  qed
qed simp

section \<open>Properties\<close>

text \<open>C24. The parser of the data files is total and its errors point into the file: for every source it
  returns nodes or an error, never running out of the recursion bound, and the reported line is the
  line of a position of the source (one more than the newlines before it).\<close>

theorem kdl_total:
  "(\<exists>nodes. parse_kdl source = Inr nodes) \<or>
   (\<exists>line what pre post. parse_kdl source = Inl (line, what) \<and> what \<noteq> OutOfFuel \<and>
      source = pre @ post \<and> line = Suc (newlines pre))"
proof (cases "parse_kdl source")
  case (Inl e)
  have "fails_in (source, 1) e"
    using parse_nodes_sound [of "(source, 1)" "Suc (length source)" "[]"] Inl by (simp add: parse_kdl_def)
  then obtain c' where c': "reads (source, 1) c'" "fst e = snd c'" "snd e \<noteq> OutOfFuel" by (auto simp: fails_in_def)
  then obtain pre where "source = pre @ fst c'" "snd c' = Suc (newlines pre)" by (auto simp: reads_def)
  with c' Inl show ?thesis by (cases e) auto
qed blast

end
