(* ===== verification/Policies.thy ===== *)
theory Policies
  imports Kdl
begin

text \<open>
  The operator's data files: the compatibility policy (\<open>src/app/src/policy.ts\<close>), the interception rules with
  their runtime overrides (\<open>src/app/src/rules.ts\<close>) and the site configuration
  (\<open>src/app/src/siteconfig.ts\<close>). A file is parsed by \<open>parse_kdl\<close>; the WebAssembly parser the loaders may use
  instead, the Ghostery filter engine and the fingerprint resolver are outside the model. A loader is a
  step of its memo: the outcome of the fetch is an argument.
\<close>

definition KNOWN_TYPES :: "string list" where
  "KNOWN_TYPES = [''document'', ''script'', ''style'', ''image'', ''font'', ''media'', ''websocket'', ''worker'',
     ''manifest'', ''eventsource'', ''wasm'', ''fetch'', ''other'']"

section \<open>The compatibility policy\<close>

record policy_rule =
  po_id :: string
  po_priority :: rat
  po_host :: "string option"
  po_path :: "string option"
  po_types :: "string list option"
  po_reason :: "string option"
  po_route :: string

datatype policy_error =
  PolicySyntax kdl_error | UnexpectedNode string | NeedsId | DuplicateId string | PriorityNotNumber string
| UnexpectedProperty string string | MatchProperties string | MatchNotString string string
| UnexpectedChild string string | UnknownType string kdl_value | BadRoute string | BadReason string

definition child_named :: "kdl_node \<Rightarrow> string \<Rightarrow> kdl_node option" where
  "child_named n name = find (\<lambda>c. kn_name c = name) (kn_children n)"

definition first_arg :: "kdl_node \<Rightarrow> kdl_value option" where
  "first_arg n = (case kn_args n of [] \<Rightarrow> None | v # _ \<Rightarrow> Some v)"

definition match_prop :: "string \<Rightarrow> string \<Rightarrow> kdl_value option \<Rightarrow> policy_error + string option" where
  "match_prop i key v =
     (case v of
        None \<Rightarrow> Inr None
      | Some (KStr s) \<Rightarrow> if s = [] then Inl (MatchNotString i key) else Inr (Some s)
      | Some _ \<Rightarrow> Inl (MatchNotString i key))"

fun policy_types :: "string \<Rightarrow> kdl_value list \<Rightarrow> policy_error + string list" where
  "policy_types i [] = Inr []"
| "policy_types i (v # vs) =
     (case v of
        KStr t \<Rightarrow> if t \<in> set KNOWN_TYPES then map_sum id (Cons t) (policy_types i vs) else Inl (UnknownType i v)
      | _ \<Rightarrow> Inl (UnknownType i v))"

definition policy_priority :: "string \<Rightarrow> kdl_node \<Rightarrow> policy_error + rat" where
  "policy_priority i n =
     (case map_of (kn_props n) ''priority'' of
        None \<Rightarrow> Inr 0 | Some (KNum p) \<Rightarrow> Inr p | Some _ \<Rightarrow> Inl (PriorityNotNumber i))"

definition policy_only_priority :: "string \<Rightarrow> kdl_node \<Rightarrow> policy_error + unit" where
  "policy_only_priority i n =
     (case find (\<lambda>(k, _). k \<noteq> ''priority'') (kn_props n) of
        Some (k, _) \<Rightarrow> Inl (UnexpectedProperty i k) | None \<Rightarrow> Inr ())"

definition policy_match_props :: "string \<Rightarrow> kdl_node \<Rightarrow> policy_error + string option \<times> string option" where
  "policy_match_props i n =
     (case child_named n ''match'' of
        None \<Rightarrow> Inr (None, None)
      | Some m \<Rightarrow>
          if list_ex (\<lambda>(k, _). k \<noteq> ''host'' \<and> k \<noteq> ''path'') (kn_props m) then Inl (MatchProperties i)
          else try_then (match_prop i ''host'' (map_of (kn_props m) ''host'')) (\<lambda>host.
               try_then (match_prop i ''path'' (map_of (kn_props m) ''path'')) (\<lambda>path. Inr (host, path))))"

definition policy_children_known :: "string \<Rightarrow> kdl_node \<Rightarrow> policy_error + unit" where
  "policy_children_known i n =
     (case find (\<lambda>c. kn_name c \<notin> {''match'', ''types'', ''route'', ''reason''}) (kn_children n) of
        Some c \<Rightarrow> Inl (UnexpectedChild i (kn_name c)) | None \<Rightarrow> Inr ())"

definition policy_type_filter :: "string \<Rightarrow> kdl_node \<Rightarrow> policy_error + string list option" where
  "policy_type_filter i n =
     (case child_named n ''types'' of
        None \<Rightarrow> Inr None
      | Some t \<Rightarrow> try_then (policy_types i (kn_args t)) (\<lambda>ts. Inr (if ts = [] then None else Some ts)))"

definition policy_route :: "string \<Rightarrow> kdl_node \<Rightarrow> policy_error + string" where
  "policy_route i n =
     (case Option.bind (child_named n ''route'') first_arg of
        Some (KStr s) \<Rightarrow> if s \<in> {''rewrite'', ''native'', ''relay'', ''wisp''} then Inr s else Inl (BadRoute i)
      | _ \<Rightarrow> Inl (BadRoute i))"

definition policy_reason :: "string \<Rightarrow> kdl_node \<Rightarrow> policy_error + string option" where
  "policy_reason i n =
     (case child_named n ''reason'' of
        None \<Rightarrow> Inr None
      | Some r \<Rightarrow>
          (case first_arg r of
             Some (KStr s) \<Rightarrow> if s = [] then Inl (BadReason i) else Inr (Some s)
           | _ \<Rightarrow> Inl (BadReason i)))"

text \<open>One rule after its id, the checks in the order of the code.\<close>

definition policy_rule_of :: "string \<Rightarrow> kdl_node \<Rightarrow> policy_error + policy_rule" where
  "policy_rule_of i n =
     try_then (policy_priority i n) (\<lambda>priority.
     try_then (policy_only_priority i n) (\<lambda>_.
     try_then (policy_match_props i n) (\<lambda>(host, path).
     try_then (policy_children_known i n) (\<lambda>_.
     try_then (policy_type_filter i n) (\<lambda>types.
     try_then (policy_route i n) (\<lambda>route.
     try_then (policy_reason i n) (\<lambda>reason.
       Inr \<lparr>po_id = i, po_priority = priority, po_host = map_option js_lower host, po_path = path,
            po_types = types, po_reason = reason, po_route = route\<rparr>)))))))"

fun policy_rules :: "string list \<Rightarrow> kdl_node list \<Rightarrow> policy_error + policy_rule list" where
  "policy_rules seen [] = Inr []"
| "policy_rules seen (n # ns) =
     (if kn_name n \<noteq> ''rule'' then Inl (UnexpectedNode (kn_name n))
      else case first_arg n of
        Some (KStr i) \<Rightarrow>
          if i = [] then Inl NeedsId
          else if i \<in> set seen then Inl (DuplicateId i)
          else try_then (policy_rule_of i n) (\<lambda>r. try_then (policy_rules (i # seen) ns) (\<lambda>rs. Inr (r # rs)))
      | _ \<Rightarrow> Inl NeedsId)"

definition compile_policy :: "string \<Rightarrow> policy_error + policy_rule list" where
  "compile_policy source =
     (case parse_kdl source of Inl e \<Rightarrow> Inl (PolicySyntax e) | Inr doc \<Rightarrow> policy_rules [] doc)"

definition host_covers :: "string \<Rightarrow> string \<Rightarrow> bool" where
  "host_covers entry host \<longleftrightarrow> dot_suffix (undot host) (undot entry)"

definition policy_applies :: "url \<Rightarrow> string \<Rightarrow> policy_rule \<Rightarrow> bool" where
  "policy_applies u rtype r \<longleftrightarrow>
     (case po_host r of Some h \<Rightarrow> host_covers h (js_lower (url_hostname u)) | None \<Rightarrow> True) \<and>
     (case po_path r of Some p \<Rightarrow> starts_with (url_pathname u) p | None \<Rightarrow> True) \<and>
     (case po_types r of Some ts \<Rightarrow> rtype \<in> set ts | None \<Rightarrow> True)"

definition policy_match :: "platform \<Rightarrow> policy_rule list \<Rightarrow> string \<Rightarrow> string \<Rightarrow> policy_rule option" where
  "policy_match pf rules u rtype =
     (case new_url pf u of
        None \<Rightarrow> None
      | Some x \<Rightarrow> pick (\<lambda>r best. po_priority best \<le> po_priority r) (filter (policy_applies x rtype) rules))"

definition behavior_match :: "platform \<Rightarrow> policy_rule list \<Rightarrow> string \<Rightarrow> string \<Rightarrow> policy_rule option" where
  "behavior_match pf rules u rtype =
     (let bs = filter (\<lambda>r. po_route r = ''native'' \<or> po_route r = ''rewrite'') rules
      in if bs = [] then None else policy_match pf bs u rtype)"

definition transport_match :: "platform \<Rightarrow> policy_rule list \<Rightarrow> string \<Rightarrow> string \<Rightarrow> policy_rule option" where
  "transport_match pf rules u rtype =
     (let ts = filter (\<lambda>r. po_route r = ''relay'' \<or> po_route r = ''wisp'') rules
      in if ts = [] then None else policy_match pf ts u rtype)"

section \<open>The loaders\<close>

text \<open>What \<open>fetch\<close> and \<open>text()\<close> did: a rejection, or a status with a body (\<open>None\<close> if reading it failed).\<close>

datatype fetched = FetchRejected | Fetched int "string option"

datatype doctor_state = NotLoaded | Loaded | Missing | Invalid | Unavailable

record 'a loader =
  ld_cached :: "'a option"
  ld_doctor :: doctor_state

text \<open>
  One run of a loader with nothing memoized: \<open>retry\<close> is whether the \<open>catch\<close> block forgets the memo
  (it does in the rules and the policy loader, not in the site configuration's).
\<close>

definition load_file :: "bool \<Rightarrow> 'a \<Rightarrow> (string \<Rightarrow> 'a option) \<Rightarrow> fetched \<Rightarrow> 'a loader" where
  "load_file retry fallback parse r =
     (case r of
        FetchRejected \<Rightarrow> \<lparr>ld_cached = (if retry then None else Some fallback), ld_doctor = Unavailable\<rparr>
      | Fetched status body \<Rightarrow>
          if \<not> (200 \<le> status \<and> status \<le> 299) then
            \<lparr>ld_cached = (if 500 \<le> status then None else Some fallback),
             ld_doctor = (if status = 404 then Missing else Unavailable)\<rparr>
          else
            (case body of
               None \<Rightarrow> \<lparr>ld_cached = (if retry then None else Some fallback), ld_doctor = Unavailable\<rparr>
             | Some s \<Rightarrow>
                 (case parse s of
                    None \<Rightarrow> \<lparr>ld_cached = (if retry then None else Some fallback), ld_doctor = Invalid\<rparr>
                  | Some x \<Rightarrow> \<lparr>ld_cached = Some x, ld_doctor = Loaded\<rparr>)))"

definition run_loader :: "bool \<Rightarrow> 'a \<Rightarrow> (string \<Rightarrow> 'a option) \<Rightarrow> fetched \<Rightarrow> 'a loader \<Rightarrow> 'a \<times> 'a loader" where
  "run_loader retry fallback parse r st =
     (case ld_cached st of
        Some x \<Rightarrow> (x, st)
      | None \<Rightarrow>
          let st' = load_file retry fallback parse r;
              x = (case r of
                     Fetched status (Some s) \<Rightarrow>
                       if 200 \<le> status \<and> status \<le> 299 then (case parse s of Some y \<Rightarrow> y | None \<Rightarrow> fallback) else fallback
                   | _ \<Rightarrow> fallback)
          in (x, st'))"

definition load_policy :: "fetched \<Rightarrow> policy_rule list loader \<Rightarrow> policy_rule list \<times> policy_rule list loader" where
  "load_policy =
     run_loader True [] (\<lambda>s. case compile_policy s of Inr rs \<Rightarrow> Some rs | Inl _ \<Rightarrow> None)"

section \<open>Interception rules\<close>

record host_entry =
  he_host :: string
  he_types :: "string list option"

record rewrite_entry =
  re_from :: string
  re_to :: string
  re_types :: "string list option"

record modify_entry =
  me_host :: string
  me_headers :: "(string, string) omap"
  me_types :: "string list option"

record rules_data =
  rd_block :: "host_entry list"
  rd_allow :: "host_entry list"
  rd_rewrite :: "rewrite_entry list"
  rd_modify :: "modify_entry list"

record compiled_rewrite =
  rw_from :: string
  rw_to :: string
  rw_types :: "string list option"
  rw_from_url :: "url option"

record compiled_rules =
  cr_block :: "host_entry list"
  cr_allow :: "host_entry list"
  cr_rewrite :: "compiled_rewrite list"
  cr_modify :: "modify_entry list"

text \<open>\<open>e.types?.length ? new Set(e.types) : null\<close>, and \<open>replace(/^\\*\\./, "")\<close>.\<close>

definition types_or_null :: "string list option \<Rightarrow> string list option" where
  "types_or_null ts = (if ts = Some [] then None else ts)"

definition strip_wildcard :: "string \<Rightarrow> string" where
  "strip_wildcard h = (if starts_with h ''*.'' then drop 2 h else h)"

definition compile_hosts :: "host_entry list \<Rightarrow> host_entry list" where
  "compile_hosts l =
     map (\<lambda>e. \<lparr>he_host = strip_wildcard (js_lower (he_host e)), he_types = types_or_null (he_types e)\<rparr>)
       (filter (\<lambda>e. he_host e \<noteq> []) l)"

definition compile_rules :: "platform \<Rightarrow> rules_data \<Rightarrow> compiled_rules" where
  "compile_rules pf d =
     \<lparr>cr_block = compile_hosts (rd_block d), cr_allow = compile_hosts (rd_allow d),
      cr_rewrite = map (\<lambda>r. \<lparr>rw_from = re_from r, rw_to = re_to r, rw_types = types_or_null (re_types r),
                              rw_from_url = new_url pf (re_from r)\<rparr>)
                     (filter (\<lambda>r. re_from r \<noteq> [] \<and> re_to r \<noteq> []) (rd_rewrite d)),
      cr_modify = map (\<lambda>m. \<lparr>me_host = js_lower (me_host m), me_headers = me_headers m, me_types = types_or_null (me_types m)\<rparr>)
                    (filter (\<lambda>m. me_host m \<noteq> []) (rd_modify d))\<rparr>"

definition host_of_url :: "platform \<Rightarrow> string \<Rightarrow> string option" where
  "host_of_url pf u = map_option (\<lambda>x. js_lower (url_hostname x)) (new_url pf u)"

definition type_ok :: "string list option \<Rightarrow> string \<Rightarrow> bool" where
  "type_ok ts rtype = (case ts of None \<Rightarrow> True | Some l \<Rightarrow> rtype \<in> set l)"

definition entry_applies :: "string \<Rightarrow> string \<Rightarrow> host_entry \<Rightarrow> bool" where
  "entry_applies host rtype e \<longleftrightarrow> host_covers (he_host e) host \<and> type_ok (he_types e) rtype"

definition allowlisted_host_for :: "platform \<Rightarrow> compiled_rules \<Rightarrow> string \<Rightarrow> string \<Rightarrow> string option" where
  "allowlisted_host_for pf r u rtype =
     (case truthy (host_of_url pf u) of
        None \<Rightarrow> None
      | Some host \<Rightarrow> map_option he_host (find (entry_applies host rtype) (cr_allow r)))"

text \<open>Runtime overrides.\<close>

record site_override =
  so_host :: string
  so_adblock :: "bool option"
  so_ua :: "string option"

record rules_state =
  rs_enabled :: bool
  rs_overrides :: "site_override list"
  rs_default_ua :: "string option"

definition initial_rules :: rules_state where
  "initial_rules = \<lparr>rs_enabled = True, rs_overrides = [], rs_default_ua = None\<rparr>"

definition set_rules_enabled :: "bool \<Rightarrow> rules_state \<Rightarrow> rules_state" where
  "set_rules_enabled b st = st\<lparr>rs_enabled := b\<rparr>"

definition override_of_json :: "json \<Rightarrow> site_override option" where
  "override_of_json e =
     (case jget e ''host'' of
        Some (JStr h) \<Rightarrow>
          if h = [] then None
          else Some \<lparr>so_host = strip_wildcard (js_lower h),
                     so_adblock = (case jget e ''adblock'' of Some (JBool b) \<Rightarrow> Some b | _ \<Rightarrow> None),
                     so_ua = (case jget e ''ua'' of Some (JStr s) \<Rightarrow> truthy (Some s) | _ \<Rightarrow> None)\<rparr>
      | _ \<Rightarrow> None)"

definition set_site_overrides :: "json option \<Rightarrow> json option \<Rightarrow> rules_state \<Rightarrow> nat \<times> rules_state" where
  "set_site_overrides l ua st =
     (let os = List.map_filter override_of_json (case l of Some (JArr es) \<Rightarrow> es | _ \<Rightarrow> [])
      in (length os, st\<lparr>rs_overrides := os, rs_default_ua := (case ua of Some (JStr s) \<Rightarrow> truthy (Some s) | _ \<Rightarrow> None)\<rparr>))"

definition site_override_for :: "platform \<Rightarrow> rules_state \<Rightarrow> string \<Rightarrow> site_override option" where
  "site_override_for pf st u =
     (case host_of_url pf u of
        None \<Rightarrow> None
      | Some host \<Rightarrow>
          pick (\<lambda>x best. length (so_host best) < length (so_host x))
            (filter (\<lambda>x. host_covers (so_host x) host) (rs_overrides st)))"

definition site_ua_for :: "platform \<Rightarrow> rules_state \<Rightarrow> string \<Rightarrow> string option" where
  "site_ua_for pf st u =
     (case Option.bind (site_override_for pf st u) so_ua of Some s \<Rightarrow> Some s | None \<Rightarrow> rs_default_ua st)"

datatype rule_action = Block | Allow | Pass

record rule_decision =
  dc_action :: rule_action
  dc_url :: "string option"
  dc_headers :: "(string, string) omap option"
  dc_matched :: "string option"
  dc_redirect :: "string option"

text \<open>\<open>ghostery\<close> is the answer of the filter engine: the matched filter's host and a redirect.\<close>

definition rule_verdict ::
  "platform \<Rightarrow> rules_state \<Rightarrow> compiled_rules \<Rightarrow> string \<Rightarrow> string \<Rightarrow> string
   \<Rightarrow> (string \<times> string option) option \<Rightarrow> rule_action \<times> string option \<times> string option" where
  "rule_verdict pf st r u host rtype ghostery =
     (case find (entry_applies host rtype) (cr_allow r) of
        Some e \<Rightarrow> (Allow, Some (he_host e), None)
      | None \<Rightarrow>
          if (case site_override_for pf st u of Some x \<Rightarrow> so_adblock x = Some False | None \<Rightarrow> False) then (Pass, None, None)
          else
            (case find (entry_applies host rtype) (cr_block r) of
               Some e \<Rightarrow> (Block, Some (he_host e), None)
             | None \<Rightarrow>
                 (case ghostery of
                    Some (h, redirect) \<Rightarrow> (Block, Some (''Ghostery: '' @ h), redirect)
                  | None \<Rightarrow> (Pass, None, None))))"

text \<open>One rewrite rule: the current URL and whether any rule has fired.\<close>

definition rewrite_step :: "platform \<Rightarrow> string \<Rightarrow> compiled_rewrite \<Rightarrow> string \<times> bool \<Rightarrow> string \<times> bool" where
  "rewrite_step pf rtype e acc =
     (if \<not> starts_with (fst acc) (rw_from e) then acc
      else if (case rw_from_url e of Some x \<Rightarrow> host_of_url pf (fst acc) \<noteq> Some (url_hostname x) | None \<Rightarrow> False) then acc
      else if type_ok (rw_types e) rtype then (rw_to e @ drop (length (rw_from e)) (fst acc), True)
      else acc)"

definition merge_headers :: "(string, string) omap \<Rightarrow> (string, string) omap option \<Rightarrow> (string, string) omap option" where
  "merge_headers hs acc = Some (fold (\<lambda>(k, v). AList.update k v) hs (case acc of Some m \<Rightarrow> m | None \<Rightarrow> []))"

definition apply_rules ::
  "platform \<Rightarrow> rules_state \<Rightarrow> compiled_rules \<Rightarrow> string \<Rightarrow> string \<Rightarrow> (string \<times> string option) option \<Rightarrow> rule_decision" where
  "apply_rules pf st r u rtype ghostery =
     (let pass = \<lparr>dc_action = Pass, dc_url = None, dc_headers = None, dc_matched = None, dc_redirect = None\<rparr> in
      if \<not> rs_enabled st then pass
      else case truthy (host_of_url pf u) of
        None \<Rightarrow> pass
      | Some host \<Rightarrow>
          let (action, matched, redirect) = rule_verdict pf st r u host rtype ghostery;
              (u', fired) = fold (rewrite_step pf rtype) (cr_rewrite r) (u, False);
              headers = fold (\<lambda>m. merge_headers (me_headers m))
                (filter (\<lambda>m. host_covers (me_host m) host \<and> type_ok (me_types m) rtype) (cr_modify r)) None
          in \<lparr>dc_action = action, dc_url = (if fired then Some u' else None), dc_headers = headers,
              dc_matched = matched, dc_redirect = redirect\<rparr>)"

text \<open>The rules file.\<close>

definition str_args :: "kdl_node \<Rightarrow> string list" where
  "str_args n = List.map_filter (\<lambda>v. case v of KStr s \<Rightarrow> Some s | _ \<Rightarrow> None) (kn_args n)"

definition types_of :: "kdl_node \<Rightarrow> string list option" where
  "types_of n = map_option str_args (child_named n ''types'')"

definition first_str :: "kdl_node \<Rightarrow> string option" where
  "first_str n = (case first_arg n of Some (KStr s) \<Rightarrow> truthy (Some s) | _ \<Rightarrow> None)"

definition node_headers :: "kdl_node \<Rightarrow> (string, string) omap" where
  "node_headers n =
     fold (\<lambda>c m. if kn_name c \<noteq> ''header'' then m
             else case kn_args c of
               KStr k # KStr v # _ \<Rightarrow> if k = ''__proto__'' then m else AList.update k v m | _ \<Rightarrow> m) (kn_children n) []"

definition add_rule_node :: "kdl_node \<Rightarrow> rules_data \<Rightarrow> rules_data" where
  "add_rule_node n d =
     (if kn_name n = ''block'' \<or> kn_name n = ''allow'' then
        (case first_str n of
           None \<Rightarrow> d
         | Some h \<Rightarrow>
             let e = \<lparr>he_host = h, he_types = types_of n\<rparr>
             in if kn_name n = ''block'' then d\<lparr>rd_block := rd_block d @ [e]\<rparr> else d\<lparr>rd_allow := rd_allow d @ [e]\<rparr>)
      else if kn_name n = ''rewrite'' then
        (case (first_str n, kn_args n) of
           (Some h, _ # KStr to # _) \<Rightarrow>
             if to = [] then d
             else d\<lparr>rd_rewrite := rd_rewrite d @ [\<lparr>re_from = h, re_to = to, re_types = types_of n\<rparr>]\<rparr>
         | _ \<Rightarrow> d)
      else if kn_name n = ''modify'' then
        (case first_str n of
           None \<Rightarrow> d
         | Some h \<Rightarrow> d\<lparr>rd_modify := rd_modify d @ [\<lparr>me_host = h, me_headers = node_headers n, me_types = types_of n\<rparr>]\<rparr>)
      else d)"

definition parse_rules_kdl :: "kdl_node list \<Rightarrow> rules_data" where
  "parse_rules_kdl doc = fold add_rule_node doc \<lparr>rd_block = [], rd_allow = [], rd_rewrite = [], rd_modify = []\<rparr>"

definition load_rules :: "platform \<Rightarrow> fetched \<Rightarrow> compiled_rules loader \<Rightarrow> compiled_rules \<times> compiled_rules loader" where
  "load_rules pf =
     run_loader True (compile_rules pf \<lparr>rd_block = [], rd_allow = [], rd_rewrite = [], rd_modify = []\<rparr>)
       (\<lambda>s. case parse_kdl s of Inr doc \<Rightarrow> Some (compile_rules pf (parse_rules_kdl doc)) | Inl _ \<Rightarrow> None)"

section \<open>Site configuration\<close>

text \<open>The data of a \<open>fingerprint\<close> node.\<close>

datatype kdl_data = DValue kdl_value | DList "kdl_value list" | DObject "(string \<times> kdl_data) list"

fun kdl_node_value :: "kdl_node \<Rightarrow> kdl_data" where
  "kdl_node_value (KdlNode name args props children) =
     (if children \<noteq> [] \<or> props \<noteq> []
      then DObject (fold (\<lambda>(k, v). AList.update k v) (map (\<lambda>c. (kn_name c, kdl_node_value c)) children)
             (map (\<lambda>(k, v). (k, DValue v)) props))
      else case args of [] \<Rightarrow> DValue KNull | [v] \<Rightarrow> DValue v | _ \<Rightarrow> DList args)"

record location_policy =
  lp_mode :: string
  lp_max_bytes :: rat

record site_rule =
  sr_location :: "location_policy option"
  sr_inject :: "string list option"
  sr_block :: "string list option"
  sr_plugins :: "string list option"
  sr_fingerprint :: "kdl_data option"

definition no_site_rule :: site_rule where
  "no_site_rule = \<lparr>sr_location = None, sr_inject = None, sr_block = None, sr_plugins = None, sr_fingerprint = None\<rparr>"

definition location_policy_of :: "site_rule \<Rightarrow> location_policy" where
  "location_policy_of r =
     (case sr_location r of Some p \<Rightarrow> p | None \<Rightarrow> \<lparr>lp_mode = ''legacy'', lp_max_bytes = 2097152\<rparr>)"

text \<open>\<open>/^[a-z0-9](?:[a-z0-9.-]*[a-z0-9])?$/\<close>\<close>

definition is_host_char :: "char \<Rightarrow> bool" where
  "is_host_char c \<longleftrightarrow> is_lower_az c \<or> is_digit c"

definition is_host_key :: "string \<Rightarrow> bool" where
  "is_host_key k \<longleftrightarrow>
     k \<noteq> [] \<and> is_host_char (hd k) \<and> is_host_char (last k) \<and>
     list_all (\<lambda>c. is_host_char c \<or> c = CHR ''.'' \<or> c = CHR ''-'') k"

definition location_child :: "kdl_node \<Rightarrow> location_policy option" where
  "location_child c =
     (case first_arg c of
        Some (KStr mode) \<Rightarrow>
          if mode \<notin> {''legacy'', ''hybrid'', ''off''} then None
          else
            (case (case map_of (kn_props c) ''max-bytes'' of
                     Some KNull \<Rightarrow> KNum (if mode = ''hybrid'' then 524288 else 2097152)
                   | Some v \<Rightarrow> v | None \<Rightarrow> KNum (if mode = ''hybrid'' then 524288 else 2097152)) of
               KNum n \<Rightarrow> if of_int \<lfloor>n\<rfloor> = n \<and> 0 < n \<and> n \<le> 2097152 then Some \<lparr>lp_mode = mode, lp_max_bytes = n\<rparr> else None
             | _ \<Rightarrow> None)
      | _ \<Rightarrow> None)"

definition site_child :: "kdl_node \<Rightarrow> site_rule \<Rightarrow> site_rule" where
  "site_child c r =
     (if kn_name c = ''location-rewrite'' then
        (case location_child c of Some p \<Rightarrow> r\<lparr>sr_location := Some p\<rparr> | None \<Rightarrow> r)
      else if kn_name c = ''inject'' then r\<lparr>sr_inject := Some (str_args c)\<rparr>
      else if kn_name c = ''block'' then r\<lparr>sr_block := Some (str_args c)\<rparr>
      else if kn_name c = ''plugins'' then r\<lparr>sr_plugins := Some (str_args c)\<rparr>
      else if kn_name c = ''fingerprint'' then
        (let v = kdl_node_value c in if v = DValue KNull then r else r\<lparr>sr_fingerprint := Some v\<rparr>)
      else r)"

definition add_site_node :: "kdl_node \<Rightarrow> (string, site_rule) omap \<Rightarrow> (string, site_rule) omap" where
  "add_site_node n m =
     (if kn_name n \<noteq> ''site'' then m
      else case first_str n of
        None \<Rightarrow> m
      | Some h \<Rightarrow>
          if \<not> is_host_key (js_lower h) then m
          else AList.update (js_lower h) (fold site_child (kn_children n) no_site_rule) m)"

definition rules_from_nodes :: "kdl_node list \<Rightarrow> (string, site_rule) omap" where
  "rules_from_nodes nodes = fold add_site_node nodes []"

text \<open>\<open>ruleFor\<close>: \<open>None\<close> is \<open>undefined\<close>, the lookup of a key that is not in the map.\<close>

definition rule_for :: "platform \<Rightarrow> (string, site_rule) omap \<Rightarrow> string \<Rightarrow> site_rule option" where
  "rule_for pf rules target =
     (case truthy (host_of_url pf target) of
        None \<Rightarrow> Some no_site_rule
      | Some host \<Rightarrow>
          (case truthy (pick (\<lambda>k best. length best < length k)
                  (filter (\<lambda>k. dot_suffix (undot host) k) (map (\<lambda>(key, _). undot (js_lower key)) rules))) of
             None \<Rightarrow> Some no_site_rule
           | Some best \<Rightarrow> map_of rules best))"

definition load_siteconfig ::
  "fetched \<Rightarrow> (string, site_rule) omap loader \<Rightarrow> (string, site_rule) omap \<times> (string, site_rule) omap loader" where
  "load_siteconfig =
     run_loader False [] (\<lambda>s. case parse_kdl s of Inr doc \<Rightarrow> Some (rules_from_nodes doc) | Inl _ \<Rightarrow> None)"

section \<open>Which rule wins\<close>

interpretation by_priority: last_selection "\<lambda>r best. po_priority best \<le> po_priority r" po_priority
  by unfold_locales auto

interpretation by_length: first_selection "\<lambda>x best. length (so_host best) < length (so_host x)" "\<lambda>x. length (so_host x)"
  by unfold_locales auto

interpretation by_key: first_selection "\<lambda>k best. length best < length (k :: string)" length
  by unfold_locales auto

lemma filter_split:
  "filter P xs = a @ r # b \<Longrightarrow> \<exists>pre post. xs = pre @ r # post \<and> P r \<and> filter P pre = a \<and> filter P post = b"
proof (induction xs arbitrary: a)
  case (Cons x xs)
  show ?case
  proof (cases "P x")
    case False
    then obtain pre post where "xs = pre @ r # post" "P r" "filter P pre = a" "filter P post = b"
      using Cons by auto
    with False show ?thesis by (intro exI [of _ "x # pre"] exI [of _ post]) simp
  next
    case True
    show ?thesis
    proof (cases a)
      case Nil
      with True Cons.prems show ?thesis by (intro exI [of _ "[]"] exI [of _ xs]) simp
    next
      case (Cons y a')
      with True Cons.prems have "filter P xs = a' @ r # b" "y = x" by auto
      with Cons.IH obtain pre post where "xs = pre @ r # post" "P r" "filter P pre = a'" "filter P post = b" by blast
      with True Cons \<open>y = x\<close> show ?thesis by (intro exI [of _ "x # pre"] exI [of _ post]) simp
    qed
  qed
qed simp

lemma last_max_split:
  fixes f :: "'a \<Rightarrow> 'b :: linorder"
  shows "xs \<noteq> [] \<Longrightarrow> \<exists>pre r post. xs = pre @ r # post \<and> (\<forall>x \<in> set pre. f x \<le> f r) \<and> (\<forall>x \<in> set post. f x < f r)"
proof (induction xs)
  case (Cons x xs)
  show ?case
  proof (cases "xs = []")
    case True
    then show ?thesis by (intro exI [of _ "[]"] exI [of _ x] exI [of _ "[]"]) simp
  next
    case False
    then obtain pre r post where s: "xs = pre @ r # post" "\<forall>y \<in> set pre. f y \<le> f r" "\<forall>y \<in> set post. f y < f r"
      using Cons.IH by blast
    show ?thesis
    proof (cases "f x \<le> f r")
      case True
      with s show ?thesis by (intro exI [of _ "x # pre"] exI [of _ r] exI [of _ post]) simp
    next
      case False
      with s have "\<forall>y \<in> set xs. f y < f x" by (auto intro: le_less_trans less_trans)
      then show ?thesis by (intro exI [of _ "[]"] exI [of _ x] exI [of _ xs]) simp
    qed
  qed
qed simp

lemma undot_dot_covers: "undot h = undot h' \<Longrightarrow> host_covers e h = host_covers e h'"
  by (simp add: host_covers_def)

lemma rule_verdict_cases:
  assumes "rule_verdict pf st r u host rtype ghostery = (a, m, red)"
  shows "(a = Allow \<longleftrightarrow> (\<exists>e \<in> set (cr_allow r). entry_applies host rtype e)) \<and>
    (a = Block \<longrightarrow> (\<forall>e \<in> set (cr_allow r). \<not> entry_applies host rtype e) \<and>
       (\<forall>x. site_override_for pf st u = Some x \<longrightarrow> so_adblock x \<noteq> Some False) \<and>
       (ghostery \<noteq> None \<or> (\<exists>e \<in> set (cr_block r). entry_applies host rtype e)))"
proof (cases "find (entry_applies host rtype) (cr_allow r)")
  case (Some e)
  have "a = Allow" using assms Some by (simp add: rule_verdict_def)
  moreover have "e \<in> set (cr_allow r)" "entry_applies host rtype e" using Some by (auto simp: find_Some_iff)
  ultimately show ?thesis by blast
next
  case None
  then have none: "\<forall>e \<in> set (cr_allow r). \<not> entry_applies host rtype e" by (auto simp: find_None_iff)
  moreover have "a \<noteq> Allow"
    using assms None by (auto simp: rule_verdict_def split: option.splits if_splits)
  moreover have "(\<forall>x. site_override_for pf st u = Some x \<longrightarrow> so_adblock x \<noteq> Some False) \<and>
       (ghostery \<noteq> None \<or> (\<exists>e \<in> set (cr_block r). entry_applies host rtype e))" if "a = Block"
    using assms None that by (auto simp: rule_verdict_def find_Some_iff split: option.splits if_splits intro: nth_mem)
  ultimately show ?thesis by blast
qed

text \<open>The keys of a parsed site configuration are lower case and end in no dot.\<close>

lemma host_key_plain:
  assumes "is_host_key k"
  shows "js_lower k = k" "undot k = k"
proof -
  have "lower_char c = c" if "is_host_char c \<or> c = CHR ''.'' \<or> c = CHR ''-''" for c
    using that by (auto simp: is_host_char_def is_lower_az_def is_digit_def lower_char_def)
  then show "js_lower k = k"
    using assms by (simp add: is_host_key_def js_lower_def list_all_iff map_idI)
  have "last k \<noteq> CHR ''.''" using assms by (auto simp: is_host_key_def is_host_char_def is_lower_az_def is_digit_def)
  then show "undot k = k" by (auto simp: undot_def ends_with_iff)
qed

lemma update_keys: "\<forall>e \<in> set m. P (fst e) \<Longrightarrow> P k \<Longrightarrow> \<forall>e \<in> set (AList.update k v m). P (fst e)"
  using set_update_subset [of k v m] by fastforce

lemma add_site_node_keys: "\<forall>e \<in> set m. is_host_key (fst e) \<Longrightarrow> \<forall>e \<in> set (add_site_node n m). is_host_key (fst e)"
  by (cases "first_str n") (simp_all add: add_site_node_def update_keys)

lemma rules_from_nodes_keys: "(k, r) \<in> set (rules_from_nodes nodes) \<Longrightarrow> is_host_key k"
proof -
  have step: "\<forall>e \<in> set m. is_host_key (fst e) \<Longrightarrow> \<forall>e \<in> set (fold add_site_node nodes m). is_host_key (fst e)" for m
  proof (induction nodes arbitrary: m)
    case (Cons n nodes)
    show ?case unfolding fold_Cons comp_apply by (rule Cons.IH [OF add_site_node_keys [OF Cons.prems]])
  qed simp
  have "\<forall>e \<in> set (rules_from_nodes nodes). is_host_key (fst e)"
    unfolding rules_from_nodes_def by (rule step) simp
  then show "(k, r) \<in> set (rules_from_nodes nodes) \<Longrightarrow> is_host_key k" by fastforce
qed

text \<open>A small network for the witnesses: hosts and paths of \<open>http\<close> URLs.\<close>

definition demo_net_url :: "string \<Rightarrow> url" where
  "demo_net_url s = \<lparr>url_href = s, url_protocol = ''http:'', url_origin = ''http://'' @ takeWhile (\<lambda>c. c \<noteq> CHR ''/'') (drop 7 s),
     url_host = takeWhile (\<lambda>c. c \<noteq> CHR ''/'') (drop 7 s), url_hostname = takeWhile (\<lambda>c. c \<noteq> CHR ''/'') (drop 7 s),
     url_pathname = dropWhile (\<lambda>c. c \<noteq> CHR ''/'') (drop 7 s), url_search = [], url_hash = []\<rparr>"

definition demo_net :: platform where
  "demo_net = \<lparr>new_url = (\<lambda>s. if starts_with s ''http://'' then Some (demo_net_url s) else None),
     new_url_base = (\<lambda>s b. None), with_pathname = (\<lambda>u p. u), psl_domain = (\<lambda>h. None), psl_suffix = (\<lambda>h. None)\<rparr>"

definition demo_rules :: compiled_rules where
  "demo_rules = compile_rules demo_net
     \<lparr>rd_block = [\<lparr>he_host = ''*.ads.example'', he_types = None\<rparr>], rd_allow = [\<lparr>he_host = ''ok.ads.example'', he_types = None\<rparr>],
      rd_rewrite = [], rd_modify = []\<rparr>"

definition demo_policy :: "policy_rule list" where
  "demo_policy =
     (case compile_policy ''rule a { route native }; rule b { match host=\"cdn.example\"; route \"relay\" }'' of
        Inr rs \<Rightarrow> rs | Inl _ \<Rightarrow> [])"

section \<open>Properties\<close>

text \<open>C28. Policy precedence: the rule a request matches is one that applies to it, with the highest priority, and
  the last of the file among those of that priority; there is none only when no rule applies.\<close>

theorem policy_precedence:
  assumes "new_url pf u = Some x"
  shows "(policy_match pf rules u rtype = None \<longleftrightarrow> (\<forall>r \<in> set rules. \<not> policy_applies x rtype r)) \<and>
    (\<forall>r. policy_match pf rules u rtype = Some r \<longleftrightarrow>
       (\<exists>pre post. rules = pre @ r # post \<and> policy_applies x rtype r \<and>
          (\<forall>y \<in> set pre. policy_applies x rtype y \<longrightarrow> po_priority y \<le> po_priority r) \<and>
          (\<forall>y \<in> set post. policy_applies x rtype y \<longrightarrow> po_priority y < po_priority r)))"
proof -
  let ?P = "policy_applies x rtype" and ?m = "policy_match pf rules u rtype"
  have m: "?m = pick (\<lambda>r best. po_priority best \<le> po_priority r) (filter ?P rules)" by (simp add: policy_match_def assms)
  have none: "?m = None \<longleftrightarrow> (\<forall>r \<in> set rules. \<not> ?P r)"
    unfolding m by_priority.pick_None_iff by (simp add: filter_empty_conv)
  have wins: "?m = Some r"
    if "rules = pre @ r # post" "?P r" "\<forall>y \<in> set pre. ?P y \<longrightarrow> po_priority y \<le> po_priority r"
      "\<forall>y \<in> set post. ?P y \<longrightarrow> po_priority y < po_priority r" for r pre post
  proof -
    have "filter ?P rules = filter ?P pre @ r # filter ?P post" using that(1,2) by simp
    then show ?thesis unfolding m using that(3,4) by (simp add: by_priority.pick_last)
  qed
  have "\<exists>pre post. rules = pre @ r # post \<and> ?P r \<and> (\<forall>y \<in> set pre. ?P y \<longrightarrow> po_priority y \<le> po_priority r) \<and>
      (\<forall>y \<in> set post. ?P y \<longrightarrow> po_priority y < po_priority r)" if r: "?m = Some r" for r
  proof -
    have "filter ?P rules \<noteq> []"
    proof
      assume "filter ?P rules = []"
      then have "?m = None" unfolding m by (simp add: pick_def)
      with r show False by simp
    qed
    then obtain a q b where q: "filter ?P rules = a @ q # b" "\<forall>y \<in> set a. po_priority y \<le> po_priority q"
        "\<forall>y \<in> set b. po_priority y < po_priority q" using last_max_split [of _ po_priority] by blast
    then have "?m = Some q" unfolding m q(1) using by_priority.pick_last [OF q(2,3)] by simp
    with r have "q = r" by simp
    obtain pre post where split: "rules = pre @ q # post" "?P q" "filter ?P pre = a" "filter ?P post = b"
      using filter_split [OF q(1)] by blast
    have "\<forall>y \<in> set pre. ?P y \<longrightarrow> po_priority y \<le> po_priority q" using q(2) unfolding split(3) [symmetric] by simp
    moreover have "\<forall>y \<in> set post. ?P y \<longrightarrow> po_priority y < po_priority q" using q(3) unfolding split(4) [symmetric] by simp
    ultimately show ?thesis using split(1,2) \<open>q = r\<close> by blast
  qed
  with none wins show ?thesis by blast
qed

theorem policy_precedence_witness:
  "length demo_policy = 2 \<and> (policy_match demo_net demo_policy ''http://x.cdn.example/y'' ''script'' = Some (demo_policy ! 1)) \<and>
   policy_match demo_net demo_policy ''http://x.cdn.example/y'' ''script'' \<noteq> None"
proof -
  have parsed: "length demo_policy = 2 \<and> list_all (\<lambda>r. po_priority r = 0) demo_policy \<and>
      list_all (policy_applies (demo_net_url ''http://x.cdn.example/y'') ''script'') demo_policy" by code_simp
  then obtain a b where d: "demo_policy = [a, b]" by (auto simp: length_Suc_conv numeral_2_eq_2)
  have u: "new_url demo_net ''http://x.cdn.example/y'' = Some (demo_net_url ''http://x.cdn.example/y'')"
    by (simp add: demo_net_def)
  have "policy_match demo_net demo_policy ''http://x.cdn.example/y'' ''script'' = Some b"
    by (rule policy_precedence [OF u, THEN conjunct2, rule_format, THEN iffD2])
      (rule exI [of _ "[a]"], rule exI [of _ "[]"], use parsed in \<open>simp add: d\<close>)
  then show ?thesis by (simp add: d)
qed

text \<open>Allow beats block: with the engine enabled a request is allowed exactly when an entry of the allow list
  covers it, it is blocked only when none does and its site override does not spare it, and with the
  engine disabled every request passes unchanged.\<close>

theorem allow_beats_block:
  assumes "host_of_url pf u = Some host" "host \<noteq> []"
  shows "(rs_enabled st \<longrightarrow>
      (dc_action (apply_rules pf st r u rtype ghostery) = Allow \<longleftrightarrow> (\<exists>e \<in> set (cr_allow r). entry_applies host rtype e))) \<and>
    (dc_action (apply_rules pf st r u rtype ghostery) = Block \<longrightarrow>
      rs_enabled st \<and> (\<forall>e \<in> set (cr_allow r). \<not> entry_applies host rtype e) \<and>
      (\<forall>x. site_override_for pf st u = Some x \<longrightarrow> so_adblock x \<noteq> Some False) \<and>
      (ghostery \<noteq> None \<or> (\<exists>e \<in> set (cr_block r). entry_applies host rtype e))) \<and>
    (\<not> rs_enabled st \<longrightarrow> apply_rules pf st r u rtype ghostery =
      \<lparr>dc_action = Pass, dc_url = None, dc_headers = None, dc_matched = None, dc_redirect = None\<rparr>)"
proof (cases "rs_enabled st")
  case True
  obtain a m red where v: "rule_verdict pf st r u host rtype ghostery = (a, m, red)" by (metis prod.exhaust)
  have "dc_action (apply_rules pf st r u rtype ghostery) = a"
    using True assms v by (simp add: apply_rules_def truthy_def case_prod_unfold Let_def)
  with rule_verdict_cases [OF v] True show ?thesis by simp
qed (simp add: apply_rules_def)

theorem allow_beats_block_witness:
  "dc_action (apply_rules demo_net initial_rules demo_rules ''http://ok.ads.example/x'' ''script'' None) = Allow"
proof -
  have h: "host_of_url demo_net ''http://ok.ads.example/x'' = Some ''ok.ads.example''" by code_simp
  have "rs_enabled initial_rules" "list_ex (entry_applies ''ok.ads.example'' ''script'') (cr_allow demo_rules)" by code_simp+
  then show ?thesis using allow_beats_block [OF h] by (auto simp: list_ex_iff)
qed

text \<open>A trailing dot changes nothing: two URLs whose hosts differ by a trailing dot and whose paths agree get
  the same policy rule, the same site override and the same verdict of the interception rules.\<close>

theorem dotted_host_same_decision:
  assumes "new_url pf u = Some x" "new_url pf v = Some y" "url_pathname x = url_pathname y"
    "undot (js_lower (url_hostname x)) = undot (js_lower (url_hostname y))"
  shows "policy_match pf rules u rtype = policy_match pf rules v rtype \<and>
    site_override_for pf st u = site_override_for pf st v \<and>
    rule_verdict pf st r u (js_lower (url_hostname x)) rtype ghostery =
      rule_verdict pf st r v (js_lower (url_hostname y)) rtype ghostery"
proof -
  let ?a = "js_lower (url_hostname x)" and ?b = "js_lower (url_hostname y)"
  have covers: "host_covers e ?a = host_covers e ?b" for e by (rule undot_dot_covers [OF assms(4)])
  have "policy_applies x rtype = policy_applies y rtype"
    by (rule ext) (simp add: policy_applies_def assms(3) covers cong: option.case_cong)
  then have pol: "policy_match pf rules u rtype = policy_match pf rules v rtype"
    by (simp add: policy_match_def assms(1,2))
  have over: "site_override_for pf st u = site_override_for pf st v"
    by (simp add: site_override_for_def host_of_url_def assms(1,2) covers)
  have "entry_applies ?a rtype = entry_applies ?b rtype"
    by (rule ext) (simp add: entry_applies_def covers)
  then have "rule_verdict pf st r u ?a rtype ghostery = rule_verdict pf st r v ?b rtype ghostery"
    unfolding rule_verdict_def over by (simp only:)
  with pol over show ?thesis by blast
qed

theorem dotted_host_same_decision_witness:
  "policy_match demo_net demo_policy ''http://x.cdn.example./y'' ''script'' =
     policy_match demo_net demo_policy ''http://x.cdn.example/y'' ''script''"
proof -
  let ?u = "''http://x.cdn.example./y''" and ?v = "''http://x.cdn.example/y''"
  have u: "new_url demo_net ?u = Some (demo_net_url ?u)" "new_url demo_net ?v = Some (demo_net_url ?v)"
    by (simp_all add: demo_net_def)
  have "url_pathname (demo_net_url ?u) = url_pathname (demo_net_url ?v)"
    "undot (js_lower (url_hostname (demo_net_url ?u))) = undot (js_lower (url_hostname (demo_net_url ?v)))" by code_simp+
  from dotted_host_same_decision [OF u this] show ?thesis by blast
qed

text \<open>The site configuration always answers, with the longest key: for a parsed file the lookup never reads a
  missing entry; it returns the rule of a key that covers the host such that no longer key does, and the
  empty rule only when no key covers the host.\<close>

theorem site_rule_longest:
  assumes "host_of_url pf target = Some host" "host \<noteq> []"
  shows "\<exists>rule. rule_for pf (rules_from_nodes nodes) target = Some rule \<and>
    ((\<forall>k \<in> fst ` set (rules_from_nodes nodes). \<not> dot_suffix (undot host) k) \<and> rule = no_site_rule \<or>
     (\<exists>key. map_of (rules_from_nodes nodes) key = Some rule \<and> dot_suffix (undot host) key \<and>
        (\<forall>k \<in> fst ` set (rules_from_nodes nodes). dot_suffix (undot host) k \<longrightarrow> length k \<le> length key)))"
proof -
  let ?rules = "rules_from_nodes nodes"
  let ?keys = "filter (\<lambda>k. dot_suffix (undot host) k) (map fst ?rules)"
  have eq: "map (\<lambda>(key, _). undot (js_lower key)) ?rules = map fst ?rules"
    by (rule map_cong [OF refl]) (auto dest!: rules_from_nodes_keys simp: host_key_plain)
  then have rf: "rule_for pf ?rules target =
      (case truthy (pick (\<lambda>k best. length best < length k) ?keys) of None \<Rightarrow> Some no_site_rule | Some best \<Rightarrow> map_of ?rules best)"
    using assms(2) unfolding rule_for_def assms(1) eq by (simp add: truthy_def)
  show ?thesis
  proof (cases "pick (\<lambda>k best. length best < length k) ?keys")
    case None
    then have "?keys = []" by (simp add: by_key.pick_None_iff)
    then have "\<forall>k \<in> fst ` set ?rules. \<not> dot_suffix (undot host) k" by (auto simp: filter_empty_conv)
    with None show ?thesis unfolding rf by (simp add: truthy_def)
  next
    case (Some best)
    have best: "best \<in> set ?keys" by (rule by_key.pick_mem [OF Some])
    then obtain rule where rule: "map_of ?rules best = Some rule" by (auto dest: weak_map_of_SomeI)
    have "is_host_key best" using rules_from_nodes_keys [OF map_of_SomeD [OF rule]] .
    then have "truthy (Some best) = Some best" by (simp add: truthy_def is_host_key_def)
    moreover have "length k \<le> length best" if "k \<in> fst ` set ?rules" "dot_suffix (undot host) k" for k
      using by_key.pick_max [OF Some, of k] that by auto
    ultimately show ?thesis using Some best rule unfolding rf by auto
  qed
qed

theorem site_rule_longest_witness:
  "\<exists>rule. rule_for demo_net (rules_from_nodes [KdlNode ''site'' [KStr ''b.example''] [] [KdlNode ''block'' [KStr ''x''] [] []]])
     ''http://a.b.example/'' = Some rule"
proof -
  have "host_of_url demo_net ''http://a.b.example/'' = Some ''a.b.example''" by code_simp
  from site_rule_longest [OF this] show ?thesis by blast
qed

end
