(* ===== verification/ContextMenus.thy ===== *)
theory ContextMenus
  imports Prelude
begin

text \<open>
  The context menu registry of the extension subsystem (\<open>src/app/src/extensions/contextmenus.ts\<close>):
  creation, update, removal and clicks. The properties objects of \<open>create\<close> and \<open>update\<close> are JSON
  values. Items are mutated in place by the source, so an update that throws keeps the fields it
  assigned before the throw; \<open>menus_update\<close> returns the mutated registry beside the error. The
  walk to the root of \<open>update\<close> has no bound in the source: it is a partial function whose value
  \<open>None\<close> is a walk that never ends.
\<close>

section \<open>The registry\<close>

datatype menu_kind = Normal | Checkbox | Radio | Separator

record menu_item =
  mi_ext :: string
  mi_id :: string
  mi_title :: string
  mi_contexts :: "string list"
  mi_enabled :: bool
  mi_parent :: "string option"
  mi_kind :: menu_kind
  mi_checked :: bool

datatype menu_error =
  MenuPermission | MenuParentNotFound | MenuDuplicate string | MenuTooMany
  | MenuNoItem string | MenuContexts | MenuUnknownType string | MenuCheckedKind
  | MenuOwnParent | MenuDescendant

datatype menu_ref = RefStr string | RefNum nat

record menus =
  ms_items :: "(string, menu_item list) omap"
  ms_seq :: nat

definition MAX_ITEMS :: nat where
  "MAX_ITEMS = 64"

definition no_menus :: menus where
  "no_menus = \<lparr>ms_items = [], ms_seq = 0\<rparr>"

definition items_for :: "string \<Rightarrow> menus \<Rightarrow> menu_item list" where
  "items_for ext s = (case map_of (ms_items s) ext of Some l \<Rightarrow> l | None \<Rightarrow> [])"

definition set_items :: "string \<Rightarrow> menu_item list \<Rightarrow> menus \<Rightarrow> menus" where
  "set_items ext l s = s\<lparr>ms_items := AList.update ext l (ms_items s)\<rparr>"

abbreviation has_id :: "string \<Rightarrow> menu_item \<Rightarrow> bool" where
  "has_id i \<equiv> (\<lambda>x. mi_id x = i)"

section \<open>Creation\<close>

fun ref_string :: "menu_ref \<Rightarrow> string" where
  "ref_string (RefStr s) = s"
| "ref_string (RefNum n) = nat_digits n"

definition kind_of_string :: "string \<Rightarrow> menu_kind option" where
  "kind_of_string s =
     (if s = ''normal'' then Some Normal else if s = ''checkbox'' then Some Checkbox
      else if s = ''radio'' then Some Radio else if s = ''separator'' then Some Separator else None)"

definition kind_of_json :: "json option \<Rightarrow> menu_kind option" where
  "kind_of_json j = (case j of Some (JStr s) \<Rightarrow> kind_of_string s | _ \<Rightarrow> None)"

definition checkable :: "menu_kind \<Rightarrow> bool" where
  "checkable k \<longleftrightarrow> k = Checkbox \<or> k = Radio"

text \<open>\<open>props.parentId == null ? null : String(props.parentId)\<close>\<close>

definition parent_prop :: "json option \<Rightarrow> string option" where
  "parent_prop j = (case j of None \<Rightarrow> None | Some JNull \<Rightarrow> None | Some v \<Rightarrow> Some (js_string v))"

definition contexts_prop :: "json option \<Rightarrow> string list option" where
  "contexts_prop j = (case j of Some (JArr xs) \<Rightarrow> Some (map js_string xs) | _ \<Rightarrow> None)"

definition new_item :: "string \<Rightarrow> menu_ref \<Rightarrow> json \<Rightarrow> menu_item" where
  "new_item ext ref props =
     (let k = (case kind_of_json (jget props ''type'') of Some k \<Rightarrow> k | None \<Rightarrow> Normal)
      in \<lparr>mi_ext = ext, mi_id = ref_string ref,
          mi_title = js_string_or_empty (jget props ''title''),
          mi_contexts = (case contexts_prop (jget props ''contexts'') of Some cs \<Rightarrow> cs | None \<Rightarrow> [''page'']),
          mi_enabled = True, mi_parent = parent_prop (jget props ''parentId''), mi_kind = k,
          mi_checked = (if checkable k then jget props ''checked'' = Some (JBool True) else False)\<rparr>)"

definition menus_create ::
  "string \<Rightarrow> string list \<Rightarrow> json \<Rightarrow> menus \<Rightarrow> (menu_error + menu_ref) \<times> menus" where
  "menus_create ext permissions props s =
     (if ''contextMenus'' \<notin> set permissions \<and> ''menus'' \<notin> set permissions then (Inl MenuPermission, s)
      else
        let (ref, s) = (case jget props ''id'' of
              Some (JStr i) \<Rightarrow> (RefStr i, s)
            | _ \<Rightarrow> (RefNum (Suc (ms_seq s)), s\<lparr>ms_seq := Suc (ms_seq s)\<rparr>));
            l = items_for ext s; s = set_items ext l s; x = new_item ext ref props
        in case mi_parent x of
             Some p \<Rightarrow>
               if \<not> list_ex (has_id p) l then (Inl MenuParentNotFound, s)
               else if list_ex (has_id (mi_id x)) l then (Inl (MenuDuplicate (mi_id x)), s)
               else if MAX_ITEMS \<le> length l then (Inl MenuTooMany, s)
               else (Inr ref, set_items ext (l @ [x]) s)
           | None \<Rightarrow>
               if list_ex (has_id (mi_id x)) l then (Inl (MenuDuplicate (mi_id x)), s)
               else if MAX_ITEMS \<le> length l then (Inl MenuTooMany, s)
               else (Inr ref, set_items ext (l @ [x]) s))"

section \<open>Update\<close>

text \<open>
  The walk \<open>while (cursor !== null) \<dots>\<close>: \<open>Some True\<close> when it meets \<open>i\<close>, \<open>Some False\<close> at a root,
  \<open>None\<close> when it goes on for ever.
\<close>

definition parent_of :: "menu_item list \<Rightarrow> string \<Rightarrow> string option" where
  "parent_of l c = (case find (has_id c) l of Some x \<Rightarrow> mi_parent x | None \<Rightarrow> None)"

partial_function (option) meets :: "menu_item list \<Rightarrow> string \<Rightarrow> string option \<Rightarrow> bool option" where
  "meets l i cursor =
     (case cursor of
        None \<Rightarrow> Some False
      | Some c \<Rightarrow> if c = i then Some True else meets l i (parent_of l c))"

declare meets.simps [code]

definition update_contexts :: "json \<Rightarrow> menu_item \<Rightarrow> menu_item \<times> menu_error option" where
  "update_contexts props x =
     (case jget props ''contexts'' of
        None \<Rightarrow> (x, None)
      | j \<Rightarrow> (case contexts_prop j of
                Some cs \<Rightarrow> (x\<lparr>mi_contexts := cs\<rparr>, None) | None \<Rightarrow> (x, Some MenuContexts)))"

definition update_kind :: "json \<Rightarrow> menu_item \<Rightarrow> menu_item \<times> menu_error option" where
  "update_kind props x =
     (case jget props ''type'' of
        None \<Rightarrow> (x, None)
      | Some v \<Rightarrow> (case kind_of_json (Some v) of
          None \<Rightarrow> (x, Some (MenuUnknownType (js_string v)))
        | Some k \<Rightarrow> (if checkable k then x\<lparr>mi_kind := k\<rparr> else x\<lparr>mi_kind := k, mi_checked := False\<rparr>, None)))"

definition update_checked :: "json \<Rightarrow> menu_item \<Rightarrow> menu_item \<times> menu_error option" where
  "update_checked props x =
     (case jget props ''checked'' of
        None \<Rightarrow> (x, None)
      | Some v \<Rightarrow> if checkable (mi_kind x) then (x\<lparr>mi_checked := (v = JBool True)\<rparr>, None)
                  else (x, Some MenuCheckedKind))"

definition update_parent ::
  "menu_item list \<Rightarrow> string \<Rightarrow> json \<Rightarrow> menu_item \<Rightarrow> (menu_item \<times> menu_error option) option" where
  "update_parent l i props x =
     (case jget props ''parentId'' of
        None \<Rightarrow> Some (x, None)
      | j \<Rightarrow>
        (case parent_prop j of
           None \<Rightarrow> Some (x\<lparr>mi_parent := None\<rparr>, None)
         | Some p \<Rightarrow>
           if p = i then Some (x, Some MenuOwnParent)
           else (case find (has_id p) l of
               None \<Rightarrow> Some (x, Some MenuParentNotFound)
             | Some parent \<Rightarrow>
               map_option (\<lambda>found. if found then (x, Some MenuDescendant) else (x\<lparr>mi_parent := Some p\<rparr>, None))
                 (meets l i (mi_parent parent)))))"

definition and_then_field ::
  "menu_item \<times> menu_error option \<Rightarrow> (menu_item \<Rightarrow> menu_item \<times> menu_error option) \<Rightarrow>
   menu_item \<times> menu_error option" where
  "and_then_field r f = (case r of (x, None) \<Rightarrow> f x | (x, Some e) \<Rightarrow> (x, Some e))"

definition update_fields :: "json \<Rightarrow> menu_item \<Rightarrow> menu_item \<times> menu_error option" where
  "update_fields props x =
     (let x = (case jget props ''title'' of None \<Rightarrow> x | Some v \<Rightarrow> x\<lparr>mi_title := js_string v\<rparr>);
          r = update_contexts props x;
          r = and_then_field r (\<lambda>x. (case jget props ''enabled'' of
                None \<Rightarrow> x | Some v \<Rightarrow> x\<lparr>mi_enabled := (v = JBool True)\<rparr>, None));
          r = and_then_field r (update_kind props)
      in and_then_field r (update_checked props))"

definition update_item ::
  "menu_item list \<Rightarrow> string \<Rightarrow> json \<Rightarrow> menu_item \<Rightarrow> (menu_item \<times> menu_error option) option" where
  "update_item l i props x =
     (case update_fields props x of
        (x, Some e) \<Rightarrow> Some (x, Some e)
      | (x, None) \<Rightarrow> update_parent l i props x)"

definition replace_item :: "menu_item \<Rightarrow> menu_item list \<Rightarrow> menu_item list" where
  "replace_item x l = map (\<lambda>y. if mi_id y = mi_id x then x else y) l"

text \<open>\<open>None\<close>: the call does not return; \<open>Some (s, Some e)\<close>: it throws \<open>e\<close> and leaves \<open>s\<close>.\<close>

definition menus_update :: "string \<Rightarrow> string \<Rightarrow> json \<Rightarrow> menus \<Rightarrow> (menus \<times> menu_error option) option" where
  "menus_update ext i props s =
     (case find (has_id i) (items_for ext s) of
        None \<Rightarrow> Some (s, Some (MenuNoItem i))
      | Some x \<Rightarrow>
          map_option (\<lambda>(x, e). (set_items ext (replace_item x (items_for ext s)) s, e))
            (update_item (items_for ext s) i props x))"

section \<open>Removal\<close>

text \<open>One pass of the inner loop and the outer \<open>while (grew)\<close>.\<close>

definition doom_one :: "menu_item \<Rightarrow> string list \<Rightarrow> string list" where
  "doom_one x doomed =
     (case mi_parent x of
        Some p \<Rightarrow> if p \<in> set doomed \<and> mi_id x \<notin> set doomed then doomed @ [mi_id x] else doomed
      | None \<Rightarrow> doomed)"

lemma doom_one_prefix: "\<exists>ys. doom_one x doomed = doomed @ ys \<and> set ys \<subseteq> {mi_id x} - set doomed"
  by (auto simp: doom_one_def split: option.splits)

lemma doom_pass_prefix:
  "\<exists>ys. fold doom_one l doomed = doomed @ ys \<and> set ys \<subseteq> mi_id ` set l - set doomed"
proof (induction l arbitrary: doomed)
  case (Cons x l)
  obtain ys where ys: "doom_one x doomed = doomed @ ys" "set ys \<subseteq> {mi_id x} - set doomed"
    using doom_one_prefix by blast
  obtain zs where zs: "fold doom_one l (doomed @ ys) = (doomed @ ys) @ zs"
    "set zs \<subseteq> mi_id ` set l - set (doomed @ ys)"
    using Cons.IH by blast
  show ?case
    by (rule exI [of _ "ys @ zs"]) (use ys zs in auto)
qed simp

function doom :: "menu_item list \<Rightarrow> string list \<Rightarrow> string list" where
  "doom l doomed =
     (let next = fold doom_one l doomed
      in if length next = length doomed then next else doom l next)"
  by pat_completeness auto
termination
proof (relation "measure (\<lambda>(l, doomed). card (mi_id ` set l - set doomed))", simp)
  fix l :: "menu_item list" and doomed nxt :: "string list"
  assume nxt: "nxt = fold doom_one l doomed" and grew: "length nxt \<noteq> length doomed"
  obtain ys where ys: "nxt = doomed @ ys" "set ys \<subseteq> mi_id ` set l - set doomed"
    using doom_pass_prefix nxt by metis
  with grew obtain y where y: "y \<in> set ys" by (cases ys) auto
  have "mi_id ` set l - set nxt \<subset> mi_id ` set l - set doomed"
    by (rule psubsetI) (use ys y in auto)
  then show "((l, nxt), (l, doomed)) \<in> measure (\<lambda>(l, doomed). card (mi_id ` set l - set doomed))"
    by (simp add: psubset_card_mono)
qed

declare doom.simps [simp del]

definition menus_remove :: "string \<Rightarrow> string \<Rightarrow> menus \<Rightarrow> menu_error + menus" where
  "menus_remove ext i s =
     (let l = items_for ext s
      in if \<not> list_ex (has_id i) l then Inl (MenuNoItem i)
         else Inr (set_items ext (filter (\<lambda>x. mi_id x \<notin> set (doom l [i])) l) s))"

definition menus_remove_all :: "string \<Rightarrow> menus \<Rightarrow> menus" where
  "menus_remove_all ext s = s\<lparr>ms_items := AList.delete ext (ms_items s)\<rparr>"

section \<open>Clicks\<close>

definition MENU_MODIFIERS :: "string list" where
  "MENU_MODIFIERS = [''Command'', ''Ctrl'', ''Shift'', ''Alt'', ''MacCtrl'']"

definition MENU_STRING_FIELDS :: "string list" where
  "MENU_STRING_FIELDS =
     [''selectionText'', ''linkUrl'', ''srcUrl'', ''mediaType'', ''frameUrl'', ''documentUrl'']"

text \<open>The item's state after a click, among its siblings.\<close>

definition click_item :: "menu_item \<Rightarrow> menu_item list \<Rightarrow> menu_item list" where
  "click_item x l =
     (if mi_kind x = Checkbox then replace_item (x\<lparr>mi_checked := \<not> mi_checked x\<rparr>) l
      else if mi_kind x = Radio then
        map (\<lambda>y. if mi_id y = mi_id x then x\<lparr>mi_checked := True\<rparr>
                 else if mi_kind y = Radio \<and> mi_parent y = mi_parent x then y\<lparr>mi_checked := False\<rparr> else y) l
      else l)"

definition click_state :: "menu_item \<Rightarrow> (string \<times> json) list" where
  "click_state x =
     (case mi_parent x of Some p \<Rightarrow> [(''parentId'', JStr p)] | None \<Rightarrow> [])
     @ (if checkable (mi_kind x)
        then [(''checked'', JBool (if mi_kind x = Radio then True else \<not> mi_checked x)),
              (''wasChecked'', JBool (mi_checked x))] else [])"

definition known_modifier :: "json \<Rightarrow> bool" where
  "known_modifier m = (case m of JStr s \<Rightarrow> s \<in> set MENU_MODIFIERS | _ \<Rightarrow> False)"

definition host_fields :: "json \<Rightarrow> (string \<times> json) list" where
  "host_fields info =
     (case jget info ''modifiers'' of
        Some (JArr ms) \<Rightarrow> (let mods = filter known_modifier ms in if mods \<noteq> [] then [(''modifiers'', JArr mods)] else [])
      | _ \<Rightarrow> [])
     @ concat (map (\<lambda>f. case jget info f of Some (JStr v) \<Rightarrow> [(f, JStr v)] | _ \<Rightarrow> []) MENU_STRING_FIELDS)
     @ (case jget info ''frameId'' of Some (JNum n) \<Rightarrow> if 0 \<le> n then [(''frameId'', JNum n)] else [] | _ \<Rightarrow> [])
     @ (case jget info ''editable'' of Some (JBool b) \<Rightarrow> [(''editable'', JBool b)] | _ \<Rightarrow> [])"

text \<open>The new registry and the object every click listener of the extension receives.\<close>

definition menus_click :: "string \<Rightarrow> string \<Rightarrow> string \<Rightarrow> json \<Rightarrow> menus \<Rightarrow> menus \<times> json" where
  "menus_click ext i page_url info s =
     (let out = [(''menuItemId'', JStr i), (''pageUrl'', JStr page_url)]
      in case find (has_id i) (items_for ext s) of
           None \<Rightarrow> (s, JObj (out @ host_fields info))
         | Some x \<Rightarrow> (set_items ext (click_item x (items_for ext s)) s,
                      JObj (out @ click_state x @ host_fields info)))"

section \<open>The parent relation\<close>

definition menu_edges :: "menu_item list \<Rightarrow> (string \<times> string) set" where
  "menu_edges l = {(p, mi_id x) | p x. x \<in> set l \<and> mi_parent x = Some p}"

definition menu_forest :: "menu_item list \<Rightarrow> bool" where
  "menu_forest l \<longleftrightarrow> distinct (map mi_id l) \<and> (\<forall>x \<in> set l. \<forall>p. mi_parent x = Some p \<longrightarrow> p \<in> mi_id ` set l)
     \<and> acyclic (menu_edges l)"

lemma finite_menu_edges: "finite (menu_edges l)"
proof (rule finite_subset)
  show "menu_edges l \<subseteq> (\<lambda>x. (the (mi_parent x), mi_id x)) ` set l"
    by (force simp: menu_edges_def)
qed simp

lemma find_has_id: "find (has_id c) l = Some x \<Longrightarrow> x \<in> set l \<and> mi_id x = c"
  by (auto simp: find_Some_iff)

lemma find_has_id_distinct:
  "distinct (map mi_id l) \<Longrightarrow> x \<in> set l \<Longrightarrow> find (has_id (mi_id x)) l = Some x"
  by (induction l) force+

lemma parent_of_edge:
  assumes "distinct (map mi_id l)"
  shows "parent_of l c = Some p \<longleftrightarrow> (p, c) \<in> menu_edges l"
proof
  show "parent_of l c = Some p \<Longrightarrow> (p, c) \<in> menu_edges l"
    by (auto simp: parent_of_def menu_edges_def split: option.splits dest!: find_has_id)
  show "(p, c) \<in> menu_edges l \<Longrightarrow> parent_of l c = Some p"
    using find_has_id_distinct [OF assms] by (auto simp: parent_of_def menu_edges_def)
qed

lemma meets_iff:
  assumes dist: "distinct (map mi_id l)" and walk: "meets l i cursor = Some b"
  shows "b \<longleftrightarrow> (\<exists>c. cursor = Some c \<and> (i, c) \<in> (menu_edges l)\<^sup>*)"
proof -
  have "distinct (map mi_id l) \<longrightarrow> b \<longleftrightarrow> (\<exists>c. cursor = Some c \<and> (i, c) \<in> (menu_edges l)\<^sup>*)"
  proof (rule meets.raw_induct [where P = "\<lambda>l i cursor b. distinct (map mi_id l) \<longrightarrow> b \<longleftrightarrow>
      (\<exists>c. cursor = Some c \<and> (i, c) \<in> (menu_edges l)\<^sup>*)", OF _ walk], intro impI)
    fix rec l i cursor b
    assume IH: "\<And>l i cursor y. rec l i cursor = Some y \<Longrightarrow> distinct (map mi_id l) \<longrightarrow>
          y \<longleftrightarrow> (\<exists>c. cursor = Some c \<and> (i, c) \<in> (menu_edges l)\<^sup>*)"
      and dist: "distinct (map mi_id l)"
      and step: "(case cursor of None \<Rightarrow> Some False
        | Some c \<Rightarrow> if c = i then Some True else rec l i (parent_of l c)) = Some b"
    show "b \<longleftrightarrow> (\<exists>c. cursor = Some c \<and> (i, c) \<in> (menu_edges l)\<^sup>*)"
    proof (cases cursor)
      case None
      with step show ?thesis by simp
    next
      case (Some c)
      show ?thesis
      proof (cases "c = i")
        case True
        with step Some show ?thesis by auto
      next
        case False
        with step Some IH dist have "b \<longleftrightarrow> (\<exists>p. parent_of l c = Some p \<and> (i, p) \<in> (menu_edges l)\<^sup>*)" by auto
        also have "\<dots> \<longleftrightarrow> (i, c) \<in> (menu_edges l)\<^sup>*"
          using False parent_of_edge [OF dist] by (metis rtrancl.rtrancl_into_rtrancl rtranclE)
        finally show ?thesis using Some by simp
      qed
    qed
  qed
  with dist show ?thesis by simp
qed

lemma meets_returns:
  assumes "menu_forest l"
  shows "\<exists>b. meets l i cursor = Some b"
proof (cases cursor)
  case None
  then have "meets l i cursor = Some False" by (simp add: meets.simps)
  then show ?thesis ..
next
  case (Some c)
  have here: "meets l i (Some i) = Some True"
    by (simp add: meets.simps)
  have "wf (menu_edges l)"
    using assms finite_menu_edges finite_acyclic_wf by (auto simp: menu_forest_def)
  then have "\<exists>b. meets l i (Some c) = Some b"
  proof (induction c rule: wf_induct_rule)
    case (less c)
    have "parent_of l c = Some p \<Longrightarrow> \<exists>b. meets l i (Some p) = Some b" for p
      using less parent_of_edge assms by (simp add: menu_forest_def)
    then show ?case
      using here by (cases "parent_of l c"; cases "c = i")
        (auto simp: meets.simps [of _ _ "Some c"] meets.simps [of _ _ None] intro: exI [of _ False])
  qed
  with Some show ?thesis by simp
qed

section \<open>The doomed set is the subtree\<close>

lemma doom_one_sound:
  assumes "set doomed \<subseteq> (menu_edges l)\<^sup>* `` A" "x \<in> set l"
  shows "set (doom_one x doomed) \<subseteq> (menu_edges l)\<^sup>* `` A"
proof -
  have "p \<in> set doomed \<Longrightarrow> mi_parent x = Some p \<Longrightarrow> mi_id x \<in> (menu_edges l)\<^sup>* `` A" for p
  proof -
    assume p: "p \<in> set doomed" "mi_parent x = Some p"
    then have "(p, mi_id x) \<in> menu_edges l" using assms(2) by (auto simp: menu_edges_def)
    moreover obtain a where "a \<in> A" "(a, p) \<in> (menu_edges l)\<^sup>*" using assms(1) p by auto
    ultimately show ?thesis by (meson ImageI rtrancl_into_rtrancl)
  qed
  then show ?thesis using assms(1) by (auto simp: doom_one_def split: option.splits)
qed

lemma doom_pass_sound:
  assumes "set doomed \<subseteq> (menu_edges l)\<^sup>* `` A" "set xs \<subseteq> set l"
  shows "set (fold doom_one xs doomed) \<subseteq> (menu_edges l)\<^sup>* `` A"
  using assms
proof (induction xs arbitrary: doomed)
  case (Cons x xs)
  then show ?case using doom_one_sound [of doomed l A x] by simp
qed simp

lemma doom_pass_closed:
  assumes "length (fold doom_one xs doomed) = length doomed" "x \<in> set xs"
  shows "doom_one x doomed = doomed"
  using assms
proof (induction xs)
  case (Cons y xs)
  obtain ys where ys: "doom_one y doomed = doomed @ ys" using doom_one_prefix by blast
  obtain zs where zs: "fold doom_one xs (doomed @ ys) = (doomed @ ys) @ zs"
    using doom_pass_prefix by blast
  have "ys = []" using Cons.prems(1) ys zs by simp
  with ys Cons show ?case by auto
qed simp

lemma doom_set: "set (doom l doomed) = (menu_edges l)\<^sup>* `` set doomed"
proof (induction l doomed rule: doom.induct)
  case (1 l doomed)
  let ?n = "fold doom_one l doomed"
  obtain ys where ys: "?n = doomed @ ys" using doom_pass_prefix by blast
  have sound: "set ?n \<subseteq> (menu_edges l)\<^sup>* `` set doomed"
    by (rule doom_pass_sound) auto
  show ?case
  proof (cases "length ?n = length doomed")
    case True
    have closed: "b \<in> set doomed" if "(a, b) \<in> menu_edges l" "a \<in> set doomed" for a b
    proof -
      obtain x where x: "x \<in> set l" "mi_parent x = Some a" "mi_id x = b"
        using \<open>(a, b) \<in> menu_edges l\<close> by (auto simp: menu_edges_def)
      have "doom_one x doomed = doomed" by (rule doom_pass_closed [OF True x(1)])
      then show ?thesis using x that(2) by (auto simp: doom_one_def split: if_splits)
    qed
    have "b \<in> set doomed" if "(a, b) \<in> (menu_edges l)\<^sup>*" "a \<in> set doomed" for a b
      using that by (induction rule: rtrancl_induct) (auto intro: closed)
    moreover have "doom l doomed = doomed" using True ys by (simp add: doom.simps [of l doomed])
    ultimately show ?thesis by auto
  next
    case False
    then have "set (doom l doomed) = (menu_edges l)\<^sup>* `` set ?n"
      using 1 by (simp add: doom.simps [of l doomed])
    moreover have "(menu_edges l)\<^sup>* `` set ?n \<subseteq> (menu_edges l)\<^sup>* `` set doomed"
      using sound by (auto dest!: subsetD intro: rtrancl_trans)
    ultimately show ?thesis using ys by auto
  qed
qed

section \<open>The registry invariant\<close>

definition menu_list_ok :: "string \<Rightarrow> menu_item list \<Rightarrow> bool" where
  "menu_list_ok ext l \<longleftrightarrow> menu_forest l \<and> length l \<le> MAX_ITEMS
     \<and> (\<forall>x \<in> set l. mi_ext x = ext \<and> (mi_checked x \<longrightarrow> checkable (mi_kind x)))"

definition menus_ok :: "menus \<Rightarrow> bool" where
  "menus_ok s \<longleftrightarrow> (\<forall>ext. menu_list_ok ext (items_for ext s))"

named_theorems menu_simps \<open>reads of the menu registry\<close>

lemma items_for_set [simp, menu_simps]:
  "items_for e (set_items ext l s) = (if e = ext then l else items_for e s)"
  by (simp add: items_for_def set_items_def)

lemma items_for_seq [simp, menu_simps]: "items_for e (s\<lparr>ms_seq := n\<rparr>) = items_for e s"
  by (simp add: items_for_def)

lemma items_for_remove_all [simp, menu_simps]:
  "items_for e (menus_remove_all ext s) = (if e = ext then [] else items_for e s)"
  by (simp add: items_for_def menus_remove_all_def)

lemma menu_list_ok_Nil [simp]: "menu_list_ok ext []"
  by (simp add: menu_list_ok_def menu_forest_def menu_edges_def acyclic_def)

lemma menus_ok_init: "menus_ok no_menus"
  by (simp add: menus_ok_def no_menus_def items_for_def)

lemma menus_ok_set_items: "menus_ok s \<Longrightarrow> menu_list_ok ext l \<Longrightarrow> menus_ok (set_items ext l s)"
  by (simp add: menus_ok_def)

lemma menu_edges_snoc:
  "menu_edges (l @ [x]) = (case mi_parent x of Some p \<Rightarrow> insert (p, mi_id x) (menu_edges l) | None \<Rightarrow> menu_edges l)"
  by (auto simp: menu_edges_def split: option.splits)

lemma menu_list_ok_snoc:
  assumes ok: "menu_list_ok ext l" and room: "length l < MAX_ITEMS" and fresh: "mi_id x \<notin> mi_id ` set l"
    and parent: "\<And>p. mi_parent x = Some p \<Longrightarrow> p \<in> mi_id ` set l"
    and x: "mi_ext x = ext" "mi_checked x \<Longrightarrow> checkable (mi_kind x)"
  shows "menu_list_ok ext (l @ [x])"
proof -
  have forest: "menu_forest l" using ok by (simp add: menu_list_ok_def)
  have no_child: "(mi_id x, b) \<notin> menu_edges l" for b
    using forest fresh by (auto simp: menu_forest_def menu_edges_def)
  have "(mi_id x, p) \<notin> (menu_edges l)\<^sup>*" if "mi_parent x = Some p" for p
  proof
    assume "(mi_id x, p) \<in> (menu_edges l)\<^sup>*"
    then show False
      by (rule converse_rtranclE) (use no_child parent [OF that] fresh in auto)
  qed
  then have "acyclic (menu_edges (l @ [x]))"
    using forest by (auto simp: menu_edges_snoc menu_forest_def acyclic_insert split: option.splits)
  then have "menu_forest (l @ [x])"
    using forest fresh parent by (fastforce simp: menu_forest_def)
  then show ?thesis using ok room x by (auto simp: menu_list_ok_def)
qed

text \<open>Replacing items without touching identities or parents.\<close>

lemma menu_edges_iff: "(p, c) \<in> menu_edges l \<longleftrightarrow> (\<exists>x \<in> set l. mi_id x = c \<and> mi_parent x = Some p)"
  by (auto simp: menu_edges_def)

lemma menu_edges_map:
  "(\<And>x. x \<in> set l \<Longrightarrow> mi_id (f x) = mi_id x \<and> mi_parent (f x) = mi_parent x) \<Longrightarrow>
   menu_edges (map f l) = menu_edges l"
  by (simp add: set_eq_iff split_paired_all menu_edges_iff cong: bex_cong)

lemma menu_list_ok_map:
  assumes ok: "menu_list_ok ext l"
    and f: "\<And>x. x \<in> set l \<Longrightarrow> mi_id (f x) = mi_id x \<and> mi_parent (f x) = mi_parent x
      \<and> mi_ext (f x) = mi_ext x \<and> (mi_checked (f x) \<longrightarrow> checkable (mi_kind (f x)))"
  shows "menu_list_ok ext (map f l)"
proof -
  have forest: "menu_forest l" using ok by (simp add: menu_list_ok_def)
  have ids: "map mi_id (map f l) = map mi_id l" using f by simp
  have "distinct (map mi_id (map f l))"
    unfolding ids using forest by (simp add: menu_forest_def)
  moreover have "mi_id ` set (map f l) = mi_id ` set l" using ids by (metis list.set_map)
  moreover have "menu_edges (map f l) = menu_edges l" using f by (simp add: menu_edges_map)
  moreover have "\<forall>x \<in> set (map f l). \<forall>p. mi_parent x = Some p \<longrightarrow> p \<in> mi_id ` set l"
    using forest f by (auto simp: menu_forest_def)
  ultimately have "menu_forest (map f l)"
    using forest by (simp add: menu_forest_def)
  then show ?thesis using ok f by (auto simp: menu_list_ok_def)
qed

lemma menu_list_ok_filter:
  assumes ok: "menu_list_ok ext l"
    and closed: "\<And>a b. (a, b) \<in> menu_edges l \<Longrightarrow> a \<in> D \<Longrightarrow> b \<in> D"
  shows "menu_list_ok ext (filter (\<lambda>x. mi_id x \<notin> D) l)"
proof -
  let ?l = "filter (\<lambda>x. mi_id x \<notin> D) l"
  have forest: "menu_forest l" using ok by (simp add: menu_list_ok_def)
  have "menu_edges ?l \<subseteq> menu_edges l" by (auto simp: menu_edges_def)
  then have "acyclic (menu_edges ?l)"
    using forest acyclic_subset by (auto simp: menu_forest_def)
  moreover have "p \<in> mi_id ` set ?l" if "x \<in> set ?l" "mi_parent x = Some p" for x p
  proof -
    have "(p, mi_id x) \<in> menu_edges l" using that by (auto simp: menu_edges_def)
    then have "p \<notin> D" using closed that(1) by auto
    moreover have "p \<in> mi_id ` set l" using forest that by (auto simp: menu_forest_def)
    ultimately show ?thesis by auto
  qed
  ultimately have "menu_forest ?l"
    using forest by (auto simp: menu_forest_def distinct_map_filter)
  then show ?thesis
    using ok le_trans [OF length_filter_le] by (auto simp: menu_list_ok_def)
qed

lemma mi_id_new_item [simp]: "mi_id (new_item ext ref props) = ref_string ref"
  by (simp add: new_item_def Let_def)

lemma menus_ok_create: "menus_ok s \<Longrightarrow> menus_create ext perms props s = (r, s') \<Longrightarrow> menus_ok s'"
proof -
  assume ok: "menus_ok s" and run: "menus_create ext perms props s = (r, s')"
  obtain ref s1 where ref: "(case jget props ''id'' of Some (JStr i) \<Rightarrow> (RefStr i, s)
      | _ \<Rightarrow> (RefNum (Suc (ms_seq s)), s\<lparr>ms_seq := Suc (ms_seq s)\<rparr>)) = (ref, s1)"
    by (metis surj_pair)
  have same: "items_for e s1 = items_for e s" for e
    using ref by (auto split: option.splits json.splits)
  let ?l = "items_for ext s" and ?x = "new_item ext ref props"
  have kept: "menus_ok s1" "menus_ok (set_items ext ?l s1)"
    using ok same by (simp_all add: menus_ok_def)
  have "menus_ok (set_items ext (?l @ [?x]) (set_items ext ?l s1))"
    if "\<not> list_ex (has_id (ref_string ref)) ?l" "length ?l < MAX_ITEMS"
      "\<And>p. mi_parent ?x = Some p \<Longrightarrow> list_ex (has_id p) ?l"
  proof (rule menus_ok_set_items [OF kept(2) menu_list_ok_snoc])
    show "menu_list_ok ext ?l" using ok by (simp add: menus_ok_def)
    show "mi_ext ?x = ext" "mi_checked ?x \<Longrightarrow> checkable (mi_kind ?x)"
      by (auto simp: new_item_def Let_def split: if_splits)
  qed (use that in \<open>auto simp: list_ex_iff\<close>)
  then show ?thesis
    using run ok kept unfolding menus_create_def ref Let_def
    by (auto simp: same split: if_splits option.splits)
qed

lemma update_fields_keeps:
  "update_fields props x = (x', e) \<Longrightarrow> mi_id x' = mi_id x \<and> mi_parent x' = mi_parent x \<and> mi_ext x' = mi_ext x
     \<and> ((mi_checked x \<longrightarrow> checkable (mi_kind x)) \<longrightarrow> mi_checked x' \<longrightarrow> checkable (mi_kind x'))"
  unfolding update_fields_def update_contexts_def update_kind_def update_checked_def and_then_field_def Let_def
  by (auto split: option.splits if_splits prod.splits)

lemma update_parent_cases:
  assumes "update_parent l i props x = Some (x', e)"
  shows "x' = x \<or> x' = x\<lparr>mi_parent := None\<rparr> \<or>
    (\<exists>p parent. x' = x\<lparr>mi_parent := Some p\<rparr> \<and> p \<noteq> i \<and> find (has_id p) l = Some parent
       \<and> meets l i (mi_parent parent) = Some False)"
  using assms by (auto simp: update_parent_def split: option.splits if_splits)

lemma replace_item_edges:
  "distinct (map mi_id l) \<Longrightarrow> y \<in> set l \<Longrightarrow> mi_id x = mi_id y \<Longrightarrow>
   menu_edges (replace_item x l) \<subseteq>
     (case mi_parent x of Some p \<Rightarrow> insert (p, mi_id x) (menu_edges l) | None \<Rightarrow> menu_edges l)"
  by (auto simp: menu_edges_def replace_item_def split: option.splits if_splits)

lemma replace_item_ids [simp]: "map mi_id (replace_item x l) = map mi_id l"
  by (auto simp: replace_item_def)

lemma replace_item_id_set: "mi_id ` set (replace_item x l) = mi_id ` set l"
  by (metis replace_item_ids list.set_map)

lemma replace_item_forest:
  assumes forest: "menu_forest l" and y: "y \<in> set l" and same: "mi_id x = mi_id y"
    and parent: "\<And>p. mi_parent x = Some p \<Longrightarrow>
      mi_parent y = Some p \<or> p \<in> mi_id ` set l \<and> (mi_id y, p) \<notin> (menu_edges l)\<^sup>*"
  shows "menu_forest (replace_item x l)"
proof -
  have dist: "distinct (map mi_id l)" using forest by (simp add: menu_forest_def)
  have "acyclic (case mi_parent x of Some p \<Rightarrow> insert (p, mi_id x) (menu_edges l) | None \<Rightarrow> menu_edges l)"
  proof (cases "mi_parent x")
    case (Some p)
    show ?thesis
    proof (cases "mi_parent y = Some p")
      case True
      then have "(p, mi_id x) \<in> menu_edges l" using y same by (auto simp: menu_edges_def)
      then show ?thesis using Some forest by (simp add: menu_forest_def insert_absorb)
    next
      case False
      then show ?thesis using Some parent forest same by (auto simp: menu_forest_def acyclic_insert)
    qed
  qed (use forest in \<open>simp add: menu_forest_def\<close>)
  then have "acyclic (menu_edges (replace_item x l))"
    using replace_item_edges [OF dist y same] acyclic_subset by blast
  moreover have "p \<in> mi_id ` set l" if "z \<in> set (replace_item x l)" "mi_parent z = Some p" for z p
    using that parent [of p] y forest by (fastforce simp: replace_item_def menu_forest_def split: if_splits)
  ultimately show ?thesis
    using dist by (simp add: menu_forest_def replace_item_id_set)
qed

lemma update_item_forest:
  assumes forest: "menu_forest l" and y: "y \<in> set l" "mi_id y = i"
    and run: "update_item l i props y = Some (x, e)"
  shows "menu_forest (replace_item x l)" "mi_id x = i" "mi_ext x = mi_ext y"
    "mi_checked y \<longrightarrow> checkable (mi_kind y) \<Longrightarrow> mi_checked x \<longrightarrow> checkable (mi_kind x)"
proof -
  have dist: "distinct (map mi_id l)" using forest by (simp add: menu_forest_def)
  obtain z f where z: "update_fields props y = (z, f)" by fastforce
  note kept = update_fields_keeps [OF z]
  consider "x = z" | "x = z\<lparr>mi_parent := None\<rparr>" |
    p parent where "x = z\<lparr>mi_parent := Some p\<rparr>" "p \<noteq> i" "find (has_id p) l = Some parent"
      "meets l i (mi_parent parent) = Some False"
    using run z by (auto simp: update_item_def split: option.splits dest: update_parent_cases)
  note cases = this
  show ids: "mi_id x = i" "mi_ext x = mi_ext y"
    by (cases rule: cases; use kept y in simp)+
  show "mi_checked x \<longrightarrow> checkable (mi_kind x)" if "mi_checked y \<longrightarrow> checkable (mi_kind y)"
    by (cases rule: cases; use kept that in simp)
  show "menu_forest (replace_item x l)"
  proof (rule replace_item_forest [OF forest y(1)])
    show "mi_id x = mi_id y" using ids y by simp
    fix p assume p: "mi_parent x = Some p"
    from cases show "mi_parent y = Some p \<or> p \<in> mi_id ` set l \<and> (mi_id y, p) \<notin> (menu_edges l)\<^sup>*"
    proof cases
      case (3 q parent)
      have here: "parent \<in> set l" "mi_id parent = q" using find_has_id [OF 3(3)] by auto
      have "\<nexists>c. mi_parent parent = Some c \<and> (i, c) \<in> (menu_edges l)\<^sup>*"
        using meets_iff [OF dist 3(4)] by simp
      moreover have "(c, q) \<in> menu_edges l \<Longrightarrow> mi_parent parent = Some c" for c
        using parent_of_edge [OF dist, of q c] 3(3) by (simp add: parent_of_def)
      ultimately have "(i, q) \<notin> (menu_edges l)\<^sup>*"
        using 3(2) by (metis rtranclE)
      then show ?thesis using 3(1) p here y by auto
    qed (use p kept in auto)
  qed
qed

lemma menus_ok_list: "menus_ok s \<Longrightarrow> menu_list_ok ext (items_for ext s)"
  by (simp add: menus_ok_def)

lemma menus_ok_update: "menus_ok s \<Longrightarrow> menus_update ext i props s = Some (s', e) \<Longrightarrow> menus_ok s'"
proof -
  assume ok: "menus_ok s" and run: "menus_update ext i props s = Some (s', e)"
  let ?l = "items_for ext s"
  show ?thesis
  proof (cases "find (has_id i) ?l")
    case None
    with run ok show ?thesis by (simp add: menus_update_def)
  next
    case (Some y)
    then obtain x where x: "update_item ?l i props y = Some (x, e)" "s' = set_items ext (replace_item x ?l) s"
      using run by (auto simp: menus_update_def)
    have l: "menu_list_ok ext ?l" "menu_forest ?l"
      using menus_ok_list [OF ok] by (simp_all add: menu_list_ok_def)
    have y: "y \<in> set ?l" "mi_id y = i" using find_has_id [OF Some] by auto
    note facts = update_item_forest [OF l(2) y x(1)]
    have "menu_list_ok ext (replace_item x ?l)"
      using facts l(1) y by (auto simp: menu_list_ok_def replace_item_def)
    then show ?thesis unfolding x(2) by (rule menus_ok_set_items [OF ok])
  qed
qed

lemma update_parent_returns: "menu_forest l \<Longrightarrow> \<exists>r. update_parent l i props x = Some r"
proof -
  assume "menu_forest l"
  then have "meets l i c \<noteq> None" for c using meets_returns [of l i c] by auto
  then have "update_parent l i props x = None \<Longrightarrow> False"
    unfolding update_parent_def by (auto simp del: not_None_eq split: option.splits if_splits)
  then show ?thesis by blast
qed

lemma update_item_returns: "menu_forest l \<Longrightarrow> \<exists>r. update_item l i props x = Some r"
  using update_parent_returns [of l i props]
  by (cases "update_fields props x"; cases "snd (update_fields props x)") (auto simp: update_item_def)

lemma doom_closed: "(a, b) \<in> menu_edges l \<Longrightarrow> a \<in> set (doom l d) \<Longrightarrow> b \<in> set (doom l d)"
  by (auto simp: doom_set intro: rtrancl_into_rtrancl)

lemma menus_ok_remove: "menus_ok s \<Longrightarrow> menus_remove ext i s = Inr s' \<Longrightarrow> menus_ok s'"
  by (auto simp: menus_remove_def Let_def menus_ok_list intro!: menus_ok_set_items menu_list_ok_filter
      dest: doom_closed split: if_splits)

lemma menus_ok_click: "menus_ok s \<Longrightarrow> menus_ok (fst (menus_click ext i page_url info s))"
proof -
  assume ok: "menus_ok s"
  have "menu_list_ok ext (click_item x (items_for ext s))" if "find (has_id i) (items_for ext s) = Some x" for x
  proof -
    have l: "menu_list_ok ext (items_for ext s)" using ok by (rule menus_ok_list)
    then have dist: "distinct (map mi_id (items_for ext s))"
      by (simp add: menu_list_ok_def menu_forest_def)
    have x: "x \<in> set (items_for ext s)" using find_has_id [OF that] by simp
    have same: "y = x" if "y \<in> set (items_for ext s)" "mi_id y = mi_id x" for y
      using find_has_id_distinct [OF dist] x that by (metis option.inject)
    have checks: "mi_checked y \<longrightarrow> checkable (mi_kind y)" if "y \<in> set (items_for ext s)" for y
      using l that by (simp add: menu_list_ok_def)
    have click: "menu_list_ok ext (map (\<lambda>y. if mi_id y = mi_id x then x\<lparr>mi_checked := b\<rparr> else f y) (items_for ext s))"
      if "checkable (mi_kind x)"
        and f: "\<And>y. mi_id (f y) = mi_id y \<and> mi_parent (f y) = mi_parent y \<and> mi_ext (f y) = mi_ext y
          \<and> mi_kind (f y) = mi_kind y \<and> (mi_checked (f y) \<longrightarrow> mi_checked y)" for b f
    proof (rule menu_list_ok_map [OF l])
      fix y assume "y \<in> set (items_for ext s)"
      then show "mi_id (if mi_id y = mi_id x then x\<lparr>mi_checked := b\<rparr> else f y) = mi_id y \<and>
          mi_parent (if mi_id y = mi_id x then x\<lparr>mi_checked := b\<rparr> else f y) = mi_parent y \<and>
          mi_ext (if mi_id y = mi_id x then x\<lparr>mi_checked := b\<rparr> else f y) = mi_ext y \<and>
          (mi_checked (if mi_id y = mi_id x then x\<lparr>mi_checked := b\<rparr> else f y) \<longrightarrow>
           checkable (mi_kind (if mi_id y = mi_id x then x\<lparr>mi_checked := b\<rparr> else f y)))"
        using f [of y] same [of y] checks [of y] that(1) by (cases "mi_id y = mi_id x") auto
    qed
    show ?thesis
      using l click [of "\<lambda>y. y" "\<not> mi_checked x"]
        click [of "\<lambda>y. if mi_kind y = Radio \<and> mi_parent y = mi_parent x then y\<lparr>mi_checked := False\<rparr> else y" True]
      by (simp add: click_item_def replace_item_def checkable_def)
  qed
  then show ?thesis
    using ok by (auto simp: menus_click_def Let_def intro!: menus_ok_set_items split: option.splits)
qed

inductive menus_reach :: "menus \<Rightarrow> bool" where
  reach_init: "menus_reach no_menus"
| reach_create: "menus_reach s \<Longrightarrow> menus_reach (snd (menus_create ext perms props s))"
| reach_update: "menus_reach s \<Longrightarrow> menus_update ext i props s = Some (s', e) \<Longrightarrow> menus_reach s'"
| reach_remove: "menus_reach s \<Longrightarrow> menus_remove ext i s = Inr s' \<Longrightarrow> menus_reach s'"
| reach_remove_all: "menus_reach s \<Longrightarrow> menus_reach (menus_remove_all ext s)"
| reach_click: "menus_reach s \<Longrightarrow> menus_reach (fst (menus_click ext i page_url info s))"

lemma reach_menus_ok: "menus_reach s \<Longrightarrow> menus_ok s"
proof (induction rule: menus_reach.induct)
  case (reach_create s ext perms props)
  then show ?case using menus_ok_create by (metis surj_pair snd_conv)
next
  case (reach_remove_all s ext)
  then show ?case by (simp add: menus_ok_def)
qed (auto intro: menus_ok_init menus_ok_update menus_ok_remove menus_ok_click)

section \<open>Properties\<close>

text \<open>
  The registry holds after any sequence of calls: in every extension's list the ids are distinct,
  every parent is an item of the same extension, the parent relation has no cycle, at most 64
  items are stored and only check boxes and radio items are checked; hence every update returns.
\<close>

definition demo_menus :: menus where
  "demo_menus =
     (let add = \<lambda>fs s. snd (menus_create ''e'' [''menus''] (JObj fs) s)
      in add [(''id'', JStr ''c''), (''parentId'', JStr ''b''), (''type'', JStr ''radio'')]
           (add [(''id'', JStr ''b''), (''parentId'', JStr ''a'')] (add [(''id'', JStr ''a'')] no_menus)))"

lemma demo_menus_reach: "menus_reach demo_menus"
  unfolding demo_menus_def Let_def by (intro reach_create reach_init)

text \<open>C37. In every reachable registry the items of an extension form a forest of distinct ids.\<close>

theorem menus_stay_forest:
  assumes "menus_reach s"
  shows "menu_list_ok ext (items_for ext s) \<and> (\<exists>s' e. menus_update ext i props s = Some (s', e) \<and> menu_list_ok ext (items_for ext s'))"
proof -
  have ok: "menus_ok s" using assms by (rule reach_menus_ok)
  then have l: "menu_list_ok ext (items_for ext s)" by (rule menus_ok_list)
  have "\<exists>s' e. menus_update ext i props s = Some (s', e)"
  proof (cases "find (has_id i) (items_for ext s)")
    case (Some x)
    then show ?thesis
      using update_item_returns [of "items_for ext s" i props x] l
      by (auto simp: menus_update_def menu_list_ok_def)
  qed (simp add: menus_update_def)
  then show ?thesis using l menus_ok_update [OF ok] menus_ok_list by blast
qed

theorem menus_stay_forest_witness:
  "menus_reach demo_menus \<and> length (items_for ''e'' demo_menus) = 3
   \<and> menu_list_ok ''e'' (items_for ''e'' demo_menus)
   \<and> map_option snd (menus_update ''e'' ''a'' (JObj [(''parentId'', JStr ''c'')]) demo_menus) = Some (Some MenuDescendant)"
proof (intro conjI)
  show "menu_list_ok ''e'' (items_for ''e'' demo_menus)"
    using menus_stay_forest [OF demo_menus_reach, of "''e''"] by blast
  show "length (items_for ''e'' demo_menus) = 3" by code_simp
  show "map_option snd (menus_update ''e'' ''a'' (JObj [(''parentId'', JStr ''c'')]) demo_menus) = Some (Some MenuDescendant)"
    by code_simp
qed (rule demo_menus_reach)

text \<open>Removing an item removes exactly its subtree, and nothing of another extension.\<close>

theorem remove_exact_subtree:
  assumes "menus_remove ext i s = Inr s'"
  shows "items_for ext s' = filter (\<lambda>x. (i, mi_id x) \<notin> (menu_edges (items_for ext s))\<^sup>*) (items_for ext s)
     \<and> (\<forall>e. e \<noteq> ext \<longrightarrow> items_for e s' = items_for e s)"
  using assms by (auto simp: menus_remove_def Let_def doom_set split: if_splits)

theorem remove_exact_subtree_witness:
  "\<exists>s'. menus_remove ''e'' ''b'' demo_menus = Inr s' \<and> map mi_id (items_for ''e'' s') = [''a'']
     \<and> items_for ''e'' s' = filter (\<lambda>x. (''b'', mi_id x) \<notin> (menu_edges (items_for ''e'' demo_menus))\<^sup>*) (items_for ''e'' demo_menus)"
proof -
  obtain s' where s': "s' = (case menus_remove ''e'' ''b'' demo_menus of Inr s \<Rightarrow> s)" by blast
  have run: "menus_remove ''e'' ''b'' demo_menus = Inr s'" unfolding s' by code_simp
  moreover have "map mi_id (items_for ''e'' s') = [''a'']" unfolding s' by code_simp
  ultimately show ?thesis
    by (intro exI [of _ s'] conjI) (assumption, assumption, rule remove_exact_subtree [OF run, THEN conjunct1])
qed

text \<open>A click on a radio item leaves it the only checked one among its radio siblings.\<close>

lemma click_radio_exclusive:
  assumes "menus_ok s" "find (has_id i) (items_for ext s) = Some x" "mi_kind x = Radio"
    and y: "y \<in> set (items_for ext (fst (menus_click ext i page_url info s)))"
      "mi_kind y = Radio" "mi_parent y = mi_parent x"
  shows "mi_checked y \<longleftrightarrow> mi_id y = i"
  using assms find_has_id [OF assms(2)]
  by (auto simp: menus_click_def Let_def click_item_def split: if_splits)

lemma update_not_atomic:
  "\<exists>s'. menus_update ''e'' ''c'' (JObj [(''title'', JStr ''new''), (''type'', JStr ''x'')]) demo_menus
      = Some (s', Some (MenuUnknownType ''x''))
    \<and> map mi_title (items_for ''e'' s') = [[], [], ''new'']"
proof -
  obtain s' where s': "s' = fst (the (menus_update ''e'' ''c'' (JObj [(''title'', JStr ''new''), (''type'', JStr ''x'')]) demo_menus))"
    by blast
  show ?thesis by (rule exI [of _ s'], unfold s', intro conjI; code_simp)
qed

end
