(* ===== verification/BodySpool.thy ===== *)
theory BodySpool
  imports Prelude
begin

text \<open>
  The replay spool for large request bodies (\<open>src/app/src/bodyspool.ts\<close>): the module counters, the
  spools of concurrent requests and the files of the spool directory. A call of \<open>spoolBody\<close> is cut
  at its \<open>await\<close>s into events, and the events of several calls interleave freely; the code between
  two awaits is one step. The counters are integers, so that a rollback of too much would show as
  a negative count. The storage is the map from names to contents and modification times; whether
  an operation on it succeeds is part of the event.
\<close>

section \<open>State\<close>

definition REPLAY_SPOOL_CAP :: int where
  "REPLAY_SPOOL_CAP = 268435456"

definition TOTAL_SPOOL_BUDGET :: int where
  "TOTAL_SPOOL_BUDGET = 536870912"

definition SPOOL_SWEEP_AGE_MS :: int where
  "SPOOL_SWEEP_AGE_MS = 600000"

definition SPOOL_SWEEP_MAX :: nat where
  "SPOOL_SWEEP_MAX = 64"

datatype spool_error = SpoolCap nat int | SpoolBudget nat | IoFailure

text \<open>Where a call of \<open>spoolBody\<close>, and then its handle, stands.\<close>

datatype spool_phase =
  AwaitRead | AwaitWrite "byte list" | AwaitClose | AwaitFile
  | Cleaning spool_error | Failed spool_error | Ready | Releasing | Released

record spool =
  sp_cap :: int
  sp_budget :: int
  sp_name :: string
  sp_total :: nat
  sp_reserved :: nat
  sp_written :: "byte list"
  sp_phase :: spool_phase

record spools =
  live_bytes :: int
  in_flight :: int
  spool_seq :: nat
  spool_runs :: "spool list"
  spool_files :: "(string, byte list \<times> int) omap"

definition no_spools :: spools where
  "no_spools = \<lparr>live_bytes = 0, in_flight = 0, spool_seq = 0, spool_runs = [], spool_files = []\<rparr>"

section \<open>The orphan sweep\<close>

text \<open>An entry whose \<open>getFile\<close> fails has no time.\<close>

fun sweep_victims :: "int \<Rightarrow> (string \<times> int option) list \<Rightarrow> string list \<Rightarrow> string list" where
  "sweep_victims now [] victims = victims"
| "sweep_victims now ((name, modified) # es) victims =
     (let victims = (case modified of
            Some t \<Rightarrow> if SPOOL_SWEEP_AGE_MS < now - t then victims @ [name] else victims
          | None \<Rightarrow> victims)
      in if SPOOL_SWEEP_MAX \<le> length victims then victims else sweep_victims now es victims)"

text \<open>\<open>readable\<close> and \<open>removable\<close> tell for which names \<open>getFile\<close> and \<open>removeEntry\<close> succeed.\<close>

definition sweep_orphans ::
  "int \<Rightarrow> (string \<Rightarrow> bool) \<Rightarrow> (string \<Rightarrow> bool) \<Rightarrow> (string, byte list \<times> int) omap \<Rightarrow> (string, byte list \<times> int) omap" where
  "sweep_orphans now readable removable files =
     (let victims = sweep_victims now (map (\<lambda>(n, (_, t)). (n, if readable n then Some t else None)) files) []
      in filter (\<lambda>(n, _). \<not> (n \<in> set victims \<and> removable n)) files)"

section \<open>Steps\<close>

definition spool_name :: "int \<Rightarrow> nat \<Rightarrow> string" where
  "spool_name now n = ''zl-'' @ int_string now @ ''-'' @ nat_digits n @ ''.body''"

definition set_run :: "nat \<Rightarrow> spool \<Rightarrow> spools \<Rightarrow> spools" where
  "set_run i r s = s\<lparr>spool_runs := (spool_runs s)[i := r]\<rparr>"

text \<open>How the storage answers before the first byte is read.\<close>

datatype open_outcome = NoRoot | NoDirectory | NoFile | Opened

definition spool_open ::
  "int option \<Rightarrow> int option \<Rightarrow> int \<Rightarrow> open_outcome \<Rightarrow> (string \<Rightarrow> bool) \<Rightarrow> (string \<Rightarrow> bool) \<Rightarrow> spools \<Rightarrow> spools" where
  "spool_open cap budget now outcome readable removable s =
     (if outcome = NoRoot \<or> outcome = NoDirectory then s
      else
        let files = sweep_orphans now readable removable (spool_files s);
            name = spool_name now (spool_seq s);
            s = s\<lparr>spool_seq := Suc (spool_seq s), spool_files := files\<rparr>
        in if outcome = NoFile then s
           else s\<lparr>spool_files := AList.update name ([], now) files,
                  spool_runs := spool_runs s @
                    [\<lparr>sp_cap = (case cap of Some c \<Rightarrow> c | None \<Rightarrow> REPLAY_SPOOL_CAP),
                      sp_budget = (case budget of Some b \<Rightarrow> b | None \<Rightarrow> TOTAL_SPOOL_BUDGET),
                      sp_name = name, sp_total = 0, sp_reserved = 0, sp_written = [], sp_phase = AwaitRead\<rparr>]\<rparr>)"

text \<open>The synchronous part of \<open>cleanup\<close>, up to its first await.\<close>

definition spool_cleanup :: "nat \<Rightarrow> spool_error \<Rightarrow> spool \<Rightarrow> spools \<Rightarrow> spools" where
  "spool_cleanup i e r s =
     set_run i (r\<lparr>sp_reserved := 0, sp_phase := Cleaning e\<rparr>) (s\<lparr>in_flight := in_flight s - int (sp_reserved r)\<rparr>)"

definition spool_chunk :: "nat \<Rightarrow> byte list \<Rightarrow> spool \<Rightarrow> spools \<Rightarrow> spools" where
  "spool_chunk i chunk r s =
     (let r = r\<lparr>sp_total := sp_total r + length chunk\<rparr>
      in if sp_cap r < int (sp_total r) then spool_cleanup i (SpoolCap (sp_total r) (sp_cap r)) r s
         else
           let r = r\<lparr>sp_reserved := sp_reserved r + length chunk\<rparr>;
               s = s\<lparr>in_flight := in_flight s + int (length chunk)\<rparr>
           in if sp_budget r < live_bytes s + in_flight s
              then spool_cleanup i (SpoolBudget (sp_total r)) r s
              else set_run i (r\<lparr>sp_phase := AwaitWrite chunk\<rparr>) s)"

text \<open>\<open>getFile\<close> resolved: the bytes move from the in-flight pool to the live pool.\<close>

definition spool_ready :: "nat \<Rightarrow> spool \<Rightarrow> spools \<Rightarrow> spools" where
  "spool_ready i r s =
     set_run i (r\<lparr>sp_reserved := 0, sp_phase := Ready\<rparr>)
       (s\<lparr>in_flight := in_flight s - int (sp_total r), live_bytes := live_bytes s + int (sp_total r)\<rparr>)"

text \<open>\<open>release()\<close>: a second call returns at once.\<close>

definition spool_release :: "nat \<Rightarrow> spool \<Rightarrow> spools \<Rightarrow> spools" where
  "spool_release i r s =
     set_run i (r\<lparr>sp_phase := Releasing\<rparr>) (s\<lparr>live_bytes := live_bytes s - int (sp_total r)\<rparr>)"

definition spool_unlink :: "bool \<Rightarrow> spool \<Rightarrow> spools \<Rightarrow> spools" where
  "spool_unlink removed r s =
     (if removed then s\<lparr>spool_files := AList.delete (sp_name r) (spool_files s)\<rparr> else s)"

datatype spool_event =
  Open "int option" "int option" int open_outcome "string \<Rightarrow> bool" "string \<Rightarrow> bool"
  | Chunk nat "byte list"
  | Wrote nat
  | EndOfStream nat
  | Closed nat int
  | GotFile nat
  | Failure nat
  | Removed nat bool
  | Release nat

text \<open>The run an event is addressed to, and what the event does to a run in that phase.\<close>

definition run_step :: "spool_event \<Rightarrow> nat \<Rightarrow> spool \<Rightarrow> spools \<Rightarrow> spools option" where
  "run_step ev i r s =
     (case (ev, sp_phase r) of
        (Chunk _ chunk, AwaitRead) \<Rightarrow> Some (spool_chunk i chunk r s)
      | (Wrote _, AwaitWrite chunk) \<Rightarrow>
          Some (set_run i (r\<lparr>sp_written := sp_written r @ chunk, sp_phase := AwaitRead\<rparr>) s)
      | (EndOfStream _, AwaitRead) \<Rightarrow> Some (set_run i (r\<lparr>sp_phase := AwaitClose\<rparr>) s)
      | (Closed _ now, AwaitClose) \<Rightarrow>
          Some (set_run i (r\<lparr>sp_phase := AwaitFile\<rparr>)
            (s\<lparr>spool_files := AList.update (sp_name r) (sp_written r, now) (spool_files s)\<rparr>))
      | (GotFile _, AwaitFile) \<Rightarrow> Some (spool_ready i r s)
      | (Failure _, AwaitRead) \<Rightarrow> Some (spool_cleanup i IoFailure r s)
      | (Failure _, AwaitWrite _) \<Rightarrow> Some (spool_cleanup i IoFailure r s)
      | (Failure _, AwaitClose) \<Rightarrow> Some (spool_cleanup i IoFailure r s)
      | (Failure _, AwaitFile) \<Rightarrow> Some (spool_cleanup i IoFailure r s)
      | (Removed _ ok, Cleaning e) \<Rightarrow> Some (set_run i (r\<lparr>sp_phase := Failed e\<rparr>) (spool_unlink ok r s))
      | (Removed _ ok, Releasing) \<Rightarrow> Some (set_run i (r\<lparr>sp_phase := Released\<rparr>) (spool_unlink ok r s))
      | (Release _, Ready) \<Rightarrow> Some (spool_release i r s)
      | (Release _, Releasing) \<Rightarrow> Some s
      | (Release _, Released) \<Rightarrow> Some s
      | _ \<Rightarrow> None)"

fun event_run :: "spool_event \<Rightarrow> nat option" where
  "event_run (Open _ _ _ _ _ _) = None"
| "event_run (Chunk i _) = Some i"
| "event_run (Wrote i) = Some i"
| "event_run (EndOfStream i) = Some i"
| "event_run (Closed i _) = Some i"
| "event_run (GotFile i) = Some i"
| "event_run (Failure i) = Some i"
| "event_run (Removed i _) = Some i"
| "event_run (Release i) = Some i"

definition spool_event :: "spool_event \<Rightarrow> spools \<Rightarrow> spools option" where
  "spool_event ev s =
     (case ev of
        Open cap budget now outcome readable removable \<Rightarrow>
          Some (spool_open cap budget now outcome readable removable s)
      | _ \<Rightarrow> (case event_run ev of
          Some i \<Rightarrow> if i < length (spool_runs s) then run_step ev i (spool_runs s ! i) s else None
        | None \<Rightarrow> None))"

text \<open>Interleavings in which every budget option is at most \<open>b\<close> (in the program the budget is always
  the constant), with their events.\<close>

definition event_budget :: "int \<Rightarrow> spool_event \<Rightarrow> bool" where
  "event_budget b ev \<longleftrightarrow>
     (case ev of
        Open _ budget _ _ _ _ \<Rightarrow> (case budget of Some x \<Rightarrow> x | None \<Rightarrow> TOTAL_SPOOL_BUDGET) \<le> b
      | _ \<Rightarrow> True)"

inductive spool_reach :: "int \<Rightarrow> spool_event list \<Rightarrow> spools \<Rightarrow> bool" for b where
  reach_start: "0 \<le> b \<Longrightarrow> spool_reach b [] no_spools"
| reach_event: "spool_reach b evs s \<Longrightarrow> event_budget b ev \<Longrightarrow> spool_event ev s = Some s' \<Longrightarrow>
    spool_reach b (evs @ [ev]) s'"

text \<open>The bytes the stream of run \<open>i\<close> has delivered.\<close>

fun stream_bytes :: "nat \<Rightarrow> spool_event list \<Rightarrow> byte list" where
  "stream_bytes i [] = []"
| "stream_bytes i (Chunk j bs # evs) = (if i = j then bs @ stream_bytes i evs else stream_bytes i evs)"
| "stream_bytes i (_ # evs) = stream_bytes i evs"

lemma stream_bytes_append [simp]: "stream_bytes i (xs @ ys) = stream_bytes i xs @ stream_bytes i ys"
  by (induction i xs rule: stream_bytes.induct) auto

section \<open>The contribution of one run\<close>

definition flight :: "spool \<Rightarrow> int" where
  "flight r = int (sp_reserved r)"

definition held :: "spool \<Rightarrow> int" where
  "held r = (if sp_phase r = Ready then int (sp_total r) else 0)"

definition pending :: "spool \<Rightarrow> byte list" where
  "pending r = (case sp_phase r of AwaitWrite c \<Rightarrow> c | _ \<Rightarrow> [])"

definition writing :: "spool \<Rightarrow> bool" where
  "writing r \<longleftrightarrow> (case sp_phase r of
     AwaitRead \<Rightarrow> True | AwaitWrite _ \<Rightarrow> True | AwaitClose \<Rightarrow> True | AwaitFile \<Rightarrow> True | _ \<Rightarrow> False)"

definition failing :: "spool \<Rightarrow> bool" where
  "failing r \<longleftrightarrow> (case sp_phase r of Cleaning _ \<Rightarrow> True | Failed _ \<Rightarrow> True | _ \<Rightarrow> False)"

definition run_ok :: "spool \<Rightarrow> bool" where
  "run_ok r \<longleftrightarrow> sp_reserved r = (if writing r then sp_total r else 0)
     \<and> (failing r \<or> sp_total r = length (sp_written r) + length (pending r) \<and> int (sp_total r) \<le> max 0 (sp_cap r))"

lemmas run_defs = flight_def held_def pending_def writing_def failing_def run_ok_def

lemmas step_defs = run_step_def spool_chunk_def spool_cleanup_def spool_ready_def spool_release_def
  spool_unlink_def set_run_def Let_def

text \<open>One case analysis for the accounting: a step replaces the run and moves the counters by the
  difference of the contributions.\<close>

lemma run_step_effect:
  assumes "run_step ev i r s = Some s'" "run_ok r" "i < length (spool_runs s)" "spool_runs s ! i = r"
  shows "\<exists>r'. spool_runs s' = (spool_runs s)[i := r'] \<and> run_ok r' \<and> sp_budget r' = sp_budget r
    \<and> in_flight s' = in_flight s + flight r' - flight r \<and> live_bytes s' = live_bytes s + held r' - held r
    \<and> (live_bytes s' + in_flight s' \<le> live_bytes s + in_flight s
       \<or> live_bytes s' + in_flight s' \<le> sp_budget r)"
  using assms
  by (cases ev; cases "sp_phase r")
    (auto simp: step_defs run_defs list_update_same_conv split: if_splits
      intro!: exI [of _ "spool_runs s' ! i"])

section \<open>Accounting\<close>

lemma sum_list_update_int:
  fixes f :: "'a \<Rightarrow> int"
  shows "i < length xs \<Longrightarrow> (\<Sum>x\<leftarrow>xs[i := y]. f x) = (\<Sum>x\<leftarrow>xs. f x) - f (xs ! i) + f y"
proof (induction xs arbitrary: i)
  case (Cons x xs)
  then show ?case by (cases i) auto
qed simp

definition spools_ok :: "int \<Rightarrow> spools \<Rightarrow> bool" where
  "spools_ok b s \<longleftrightarrow> (\<forall>r \<in> set (spool_runs s). run_ok r \<and> sp_budget r \<le> b)
     \<and> in_flight s = (\<Sum>r\<leftarrow>spool_runs s. flight r) \<and> live_bytes s = (\<Sum>r\<leftarrow>spool_runs s. held r)
     \<and> live_bytes s + in_flight s \<le> b"

lemma spools_ok_open:
  "spools_ok b s \<Longrightarrow> (case budget of Some x \<Rightarrow> x | None \<Rightarrow> TOTAL_SPOOL_BUDGET) \<le> b \<Longrightarrow>
   spools_ok b (spool_open cap budget now outcome readable removable s)"
  by (simp add: spool_open_def Let_def spools_ok_def run_defs)

lemma spools_ok_run:
  assumes ok: "spools_ok b s" and i: "i < length (spool_runs s)"
    and step: "run_step ev i (spool_runs s ! i) s = Some s'"
  shows "spools_ok b s'"
proof -
  let ?r = "spool_runs s ! i"
  have r: "run_ok ?r" "sp_budget ?r \<le> b" using ok i by (auto simp: spools_ok_def)
  obtain r' where r': "spool_runs s' = (spool_runs s)[i := r']" "run_ok r'" "sp_budget r' = sp_budget ?r"
    "in_flight s' = in_flight s + flight r' - flight ?r" "live_bytes s' = live_bytes s + held r' - held ?r"
    "live_bytes s' + in_flight s' \<le> live_bytes s + in_flight s \<or> live_bytes s' + in_flight s' \<le> sp_budget ?r"
    using run_step_effect [OF step r(1) i refl] by blast
  have "\<forall>q \<in> set (spool_runs s'). run_ok q \<and> sp_budget q \<le> b"
    using ok r r' by (auto simp: spools_ok_def dest!: set_update_subset_insert [THEN subsetD])
  moreover have "live_bytes s' + in_flight s' \<le> b"
    using ok r(2) r'(6) by (auto simp: spools_ok_def)
  moreover have "in_flight s' = (\<Sum>q\<leftarrow>spool_runs s'. flight q)" "live_bytes s' = (\<Sum>q\<leftarrow>spool_runs s'. held q)"
    using ok r'(4,5) unfolding spools_ok_def r'(1) sum_list_update_int [OF i] by simp_all
  ultimately show ?thesis by (simp add: spools_ok_def)
qed

lemma spool_event_cases:
  assumes "spool_event ev s = Some s'"
  obtains (Opening) cap budget now outcome readable removable where
      "ev = Open cap budget now outcome readable removable"
      "s' = spool_open cap budget now outcome readable removable s"
  | (Running) i where "event_run ev = Some i" "i < length (spool_runs s)"
      "run_step ev i (spool_runs s ! i) s = Some s'"
  using assms by (cases ev) (auto simp: spool_event_def split: if_splits)

lemma reach_spools_ok: "spool_reach b evs s \<Longrightarrow> spools_ok b s"
proof (induction rule: spool_reach.induct)
  case reach_start
  then show ?case by (simp add: spools_ok_def no_spools_def)
next
  case (reach_event evs s ev s')
  from reach_event(3) show ?case
  proof (cases rule: spool_event_cases)
    case Opening
    then show ?thesis using reach_event by (simp add: event_budget_def spools_ok_open)
  next
    case Running
    then show ?thesis using reach_event spools_ok_run by blast
  qed
qed

section \<open>Names and files\<close>

lemma nat_digits_inj: "nat_digits m = nat_digits n \<Longrightarrow> m = n"
  by (metis digits_val_nat_digits)

lemma last_split_on: "c \<notin> set b \<Longrightarrow> last (split_on c (a @ c # b)) = b"
proof (induction a)
  case (Cons x a)
  have "split_on c (a @ c # b) \<noteq> [w]" for w
    using split_on_join [of c "a @ c # b"] split_on_no_sep [of w c "a @ c # b"] by auto
  with Cons show ?case by (auto simp: split_on_id split: list.splits)
qed (simp add: split_on_id)

lemma spool_name_inj: "spool_name t n = spool_name t' n' \<Longrightarrow> n = n'"
proof -
  assume eq: "spool_name t n = spool_name t' n'"
  have "last (split_on (CHR ''-'') (spool_name t n)) = nat_digits n @ ''.body''" for t n
    using last_split_on [of "CHR ''-''" "nat_digits n @ ''.body''" "''zl-'' @ int_string t"]
      nat_digits_char [of "CHR ''-''" n] by (auto simp: spool_name_def is_digit_def)
  then show ?thesis
    using arg_cong [OF eq, of "\<lambda>s. last (split_on (CHR ''-'') s)"] by (auto dest: nat_digits_inj)
qed

text \<open>The file of a spool whose writer is closed holds what was written, unless a sweep took it.\<close>

definition file_ok :: "spools \<Rightarrow> spool \<Rightarrow> bool" where
  "file_ok s r \<longleftrightarrow> (sp_phase r = AwaitFile \<or> sp_phase r = Ready \<longrightarrow>
     (case map_of (spool_files s) (sp_name r) of None \<Rightarrow> True | Some (bs, _) \<Rightarrow> bs = sp_written r))"

definition names_ok :: "spools \<Rightarrow> bool" where
  "names_ok s \<longleftrightarrow> distinct (map sp_name (spool_runs s))
     \<and> (\<forall>r \<in> set (spool_runs s). \<exists>t n. sp_name r = spool_name t n \<and> n < spool_seq s)"

definition files_ok :: "spool_event list \<Rightarrow> spools \<Rightarrow> bool" where
  "files_ok evs s \<longleftrightarrow> omap_wf (spool_files s) \<and> (\<forall>r \<in> set (spool_runs s). file_ok s r)
     \<and> (\<forall>i < length (spool_runs s). failing (spool_runs s ! i) \<or>
          stream_bytes i evs = sp_written (spool_runs s ! i) @ pending (spool_runs s ! i))
     \<and> (\<forall>i. length (spool_runs s) \<le> i \<longrightarrow> stream_bytes i evs = [])"

lemma run_step_run:
  assumes "run_step ev i r s = Some s'" "i < length (spool_runs s)" "spool_runs s ! i = r" "event_run ev = Some i"
  shows "\<exists>r'. spool_runs s' = (spool_runs s)[i := r'] \<and> sp_name r' = sp_name r \<and> spool_seq s' = spool_seq s
    \<and> (failing r' \<or> \<not> failing r \<and> sp_written r' @ pending r' = sp_written r @ pending r @ stream_bytes i [ev])
    \<and> (spool_files s' = spool_files s \<and> (sp_phase r' = AwaitFile \<or> sp_phase r' = Ready \<longrightarrow>
           (sp_phase r = AwaitFile \<or> sp_phase r = Ready) \<and> sp_written r' = sp_written r)
       \<or> (\<exists>now. spool_files s' = AList.update (sp_name r) (sp_written r', now) (spool_files s))
       \<or> spool_files s' = AList.delete (sp_name r) (spool_files s) \<and> sp_phase r' \<noteq> AwaitFile \<and> sp_phase r' \<noteq> Ready)"
  using assms
  by (cases ev; cases "sp_phase r")
    (auto simp: step_defs pending_def failing_def list_update_same_conv split: if_splits
      intro!: exI [of _ "spool_runs s' ! i"])

lemma stream_bytes_other: "event_run ev = Some i \<Longrightarrow> j \<noteq> i \<Longrightarrow> stream_bytes j [ev] = []"
  by (cases ev) auto

lemma names_ok_event: "names_ok s \<Longrightarrow> spool_event ev s = Some s' \<Longrightarrow> names_ok s'"
proof -
  assume ok: "names_ok s" and ev: "spool_event ev s = Some s'"
  from ev show ?thesis
  proof (cases rule: spool_event_cases)
    case (Opening cap budget now outcome readable removable)
    have "spool_name now (spool_seq s) \<notin> sp_name ` set (spool_runs s)"
      using ok spool_name_inj by (fastforce simp: names_ok_def)
    moreover have "\<exists>t n. sp_name r = spool_name t n \<and> n < Suc (spool_seq s)" if "r \<in> set (spool_runs s)" for r
      using ok that less_SucI by (fastforce simp: names_ok_def)
    ultimately show ?thesis
      using ok unfolding Opening(2) names_ok_def spool_open_def Let_def by auto
  next
    case (Running i)
    have r: "spool_runs s ! i \<in> set (spool_runs s)" using Running(2) by simp
    obtain r' where r': "spool_runs s' = (spool_runs s)[i := r']" "sp_name r' = sp_name (spool_runs s ! i)"
      "spool_seq s' = spool_seq s"
      using run_step_run [OF Running(3,2) refl Running(1)] by blast
    then have "map sp_name (spool_runs s') = map sp_name (spool_runs s)"
      by (metis Running(2) list_update_id map_update)
    moreover have "\<forall>q \<in> set (spool_runs s'). \<exists>t n. sp_name q = spool_name t n \<and> n < spool_seq s"
      using ok r r' by (auto simp: names_ok_def dest!: set_update_subset_insert [THEN subsetD])
    ultimately show ?thesis using ok r'(3) by (simp add: names_ok_def)
  qed
qed

lemma map_of_sweep:
  assumes "omap_wf files"
  shows "omap_wf (sweep_orphans now readable removable files)"
    "map_of (sweep_orphans now readable removable files) n = None
     \<or> map_of (sweep_orphans now readable removable files) n = map_of files n"
proof -
  have *: "map_of (filter (\<lambda>(n, _). P n) files) n = (if P n then map_of files n else None)" for P n
    by (induction files) auto
  show "omap_wf (sweep_orphans now readable removable files)"
    using assms by (simp add: sweep_orphans_def Let_def)
  show "map_of (sweep_orphans now readable removable files) n = None
     \<or> map_of (sweep_orphans now readable removable files) n = map_of files n"
    unfolding sweep_orphans_def Let_def * by simp
qed

lemma files_ok_open:
  assumes ok: "files_ok evs s" "names_ok s"
  shows "files_ok (evs @ [Open cap budget now outcome readable removable])
    (spool_open cap budget now outcome readable removable s)"
proof -
  let ?f = "sweep_orphans now readable removable (spool_files s)"
  have wf: "omap_wf (spool_files s)" using ok by (simp add: files_ok_def)
  have fresh: "sp_name r \<noteq> spool_name now (spool_seq s)" if "r \<in> set (spool_runs s)" for r
    using ok(2) spool_name_inj that by (fastforce simp: names_ok_def)
  have swept: "file_ok (s\<lparr>spool_files := ?f\<rparr>) r" if "file_ok s r" for r
    using that map_of_sweep(2) [OF wf, of now readable removable "sp_name r"]
    by (auto simp: file_ok_def split: option.splits)
  have kept: "file_ok (s\<lparr>spool_seq := n, spool_files := AList.update (spool_name now (spool_seq s)) v ?f, spool_runs := q\<rparr>) r"
    if "r \<in> set (spool_runs s)" "file_ok s r" for r n v q
    using swept [OF that(2)] fresh [OF that(1)] by (simp add: file_ok_def)
  show ?thesis
    using ok kept swept map_of_sweep(1) [OF wf, of now readable removable]
    unfolding files_ok_def spool_open_def Let_def
    by (auto simp: nth_append less_Suc_eq file_ok_def pending_def)
qed

lemma files_ok_run:
  assumes ok: "files_ok evs s" "names_ok s" and ev: "event_run ev = Some i" and i: "i < length (spool_runs s)"
    and step: "run_step ev i (spool_runs s ! i) s = Some s'"
  shows "files_ok (evs @ [ev]) s'"
proof -
  let ?r = "spool_runs s ! i"
  obtain r' where r': "spool_runs s' = (spool_runs s)[i := r']" "sp_name r' = sp_name ?r"
    "failing r' \<or> \<not> failing ?r \<and> sp_written r' @ pending r' = sp_written ?r @ pending ?r @ stream_bytes i [ev]"
    and files: "spool_files s' = spool_files s \<and> (sp_phase r' = AwaitFile \<or> sp_phase r' = Ready \<longrightarrow>
           (sp_phase ?r = AwaitFile \<or> sp_phase ?r = Ready) \<and> sp_written r' = sp_written ?r)
       \<or> (\<exists>now. spool_files s' = AList.update (sp_name ?r) (sp_written r', now) (spool_files s))
       \<or> spool_files s' = AList.delete (sp_name ?r) (spool_files s) \<and> sp_phase r' \<noteq> AwaitFile \<and> sp_phase r' \<noteq> Ready"
    using run_step_run [OF step i refl ev] by blast
  have mine: "file_ok s ?r" using ok(1) i by (auto simp: files_ok_def)
  have "file_ok s' r'"
    using files mine r'(2) by (elim disjE exE conjE) (auto simp: file_ok_def split: option.splits)
  moreover have "file_ok s' q" if q: "file_ok s q" "sp_name q \<noteq> sp_name ?r" for q
    using files q by (elim disjE exE conjE) (auto simp: file_ok_def)
  moreover have "sp_name (spool_runs s ! j) \<noteq> sp_name ?r" if "j < length (spool_runs s)" "j \<noteq> i" for j
    using ok(2) i that nth_eq_iff_index_eq [of "map sp_name (spool_runs s)" j i] by (simp add: names_ok_def)
  ultimately have "\<forall>j < length (spool_runs s'). file_ok s' (spool_runs s' ! j)"
    using ok(1) i by (auto simp: r'(1) files_ok_def nth_list_update)
  then have "\<forall>q \<in> set (spool_runs s'). file_ok s' q" by (auto simp: in_set_conv_nth)
  moreover have "omap_wf (spool_files s')"
    using files ok(1) by (elim disjE exE conjE) (auto simp: files_ok_def)
  moreover have "failing (spool_runs s' ! j) \<or>
      stream_bytes j (evs @ [ev]) = sp_written (spool_runs s' ! j) @ pending (spool_runs s' ! j)"
    if "j < length (spool_runs s')" for j
    using ok(1) r' i that stream_bytes_other [OF ev, of j] by (cases "j = i") (auto simp: files_ok_def)
  ultimately show ?thesis
    using ok(1) i r'(1) stream_bytes_other [OF ev] by (auto simp: files_ok_def)
qed

lemma reach_files_ok: "spool_reach b evs s \<Longrightarrow> files_ok evs s \<and> names_ok s"
proof (induction rule: spool_reach.induct)
  case reach_start
  then show ?case by (simp add: files_ok_def names_ok_def no_spools_def)
next
  case (reach_event evs s ev s')
  have "files_ok (evs @ [ev]) s'"
    using reach_event(3)
  proof (cases rule: spool_event_cases)
    case Opening
    then show ?thesis using reach_event files_ok_open by simp
  next
    case Running
    then show ?thesis using reach_event files_ok_run by blast
  qed
  then show ?case using reach_event names_ok_event by blast
qed

section \<open>Properties\<close>

fun spool_trace :: "spool_event list \<Rightarrow> spools \<Rightarrow> spools option" where
  "spool_trace [] s = Some s"
| "spool_trace (ev # evs) s = (case spool_event ev s of None \<Rightarrow> None | Some s' \<Rightarrow> spool_trace evs s')"

lemma trace_reach_from:
  "spool_reach b pre s \<Longrightarrow> list_all (event_budget b) evs \<Longrightarrow> spool_trace evs s = Some s' \<Longrightarrow>
   spool_reach b (pre @ evs) s'"
proof (induction evs arbitrary: pre s)
  case (Cons ev evs)
  obtain s1 where s1: "spool_event ev s = Some s1" "spool_trace evs s1 = Some s'"
    using Cons.prems(3) by (auto split: option.splits)
  have "spool_reach b (pre @ [ev]) s1"
    using Cons.prems s1 by (auto intro: reach_event)
  then show ?case using Cons.IH [of "pre @ [ev]" s1] Cons.prems s1 by simp
qed simp

lemma trace_reach:
  "0 \<le> b \<Longrightarrow> list_all (event_budget b) evs \<Longrightarrow> spool_trace evs no_spools = Some s \<Longrightarrow> spool_reach b evs s"
  using trace_reach_from [OF reach_start] by fastforce

text \<open>C23. In every interleaving the in-flight counter is exactly what the running spools have reserved,
  the live counter is exactly the size of the finished and unreleased ones, and together they stay
  within the budget.
\<close>

theorem spool_budget_kept:
  assumes "spool_reach b evs s"
  shows "in_flight s = (\<Sum>r\<leftarrow>spool_runs s. int (sp_reserved r))
     \<and> live_bytes s = (\<Sum>r\<leftarrow>filter (\<lambda>r. sp_phase r = Ready) (spool_runs s). int (sp_total r))
     \<and> 0 \<le> in_flight s \<and> 0 \<le> live_bytes s \<and> live_bytes s + in_flight s \<le> b"
proof -
  have "(\<Sum>r\<leftarrow>rs. held r) = (\<Sum>r\<leftarrow>filter (\<lambda>r. sp_phase r = Ready) rs. int (sp_total r))" for rs
    by (induction rs) (auto simp: held_def)
  moreover have "0 \<le> (\<Sum>r\<leftarrow>rs. held r)" "0 \<le> (\<Sum>r\<leftarrow>rs. flight r)" for rs
    by (rule sum_list_nonneg, auto simp: held_def flight_def)+
  ultimately show ?thesis
    using reach_spools_ok [OF assms] by (simp add: spools_ok_def flight_def)
qed

definition no_name :: "string \<Rightarrow> bool" where
  "no_name n = False"

text \<open>Two spools at once: the second overflows the budget and fails, the first completes.\<close>

definition demo_events :: "spool_event list" where
  "demo_events =
     [Open None (Some 5) 1 Opened no_name no_name, Chunk 0 [1, 2], Open None (Some 5) 2 Opened no_name no_name,
      Wrote 0, Chunk 1 [7, 8], Chunk 0 [3], Wrote 1, Chunk 1 [9], Removed 1 True, Wrote 0, EndOfStream 0,
      Closed 0 9, GotFile 0]"

theorem spool_budget_kept_witness:
  "\<exists>s. spool_reach 5 demo_events s \<and> in_flight s = 0 \<and> live_bytes s = 3
     \<and> map sp_phase (spool_runs s) = [Ready, Failed (SpoolBudget 3)] \<and> live_bytes s + in_flight s \<le> 5"
proof -
  obtain s where s: "s = the (spool_trace demo_events no_spools)" by blast
  have "spool_trace demo_events no_spools = Some s" unfolding s by code_simp
  moreover have "list_all (event_budget 5) demo_events" by code_simp
  ultimately have r: "spool_reach 5 demo_events s" by (intro trace_reach) simp_all
  have "in_flight s = 0" "live_bytes s = 3" "map sp_phase (spool_runs s) = [Ready, Failed (SpoolBudget 3)]"
    unfolding s by code_simp+
  moreover have "live_bytes s + in_flight s \<le> 5" using spool_budget_kept [OF r] by simp
  ultimately show ?thesis using r by (intro exI [of _ s] conjI)
qed

text \<open>A completed spool replays the whole body: its file holds exactly the bytes its stream
  delivered, whatever the other requests did in between, unless an orphan sweep removed it.
\<close>

theorem spool_replays_stream:
  assumes "spool_reach b evs s" "i < length (spool_runs s)" "sp_phase (spool_runs s ! i) = Ready"
  shows "length (stream_bytes i evs) = sp_total (spool_runs s ! i) \<and> int (sp_total (spool_runs s ! i)) \<le> max 0 (sp_cap (spool_runs s ! i))
     \<and> (case map_of (spool_files s) (sp_name (spool_runs s ! i)) of
          None \<Rightarrow> True | Some (bs, _) \<Rightarrow> bs = stream_bytes i evs)"
proof -
  let ?r = "spool_runs s ! i"
  have r: "?r \<in> set (spool_runs s)" using assms(2) by simp
  have "run_ok ?r" using reach_spools_ok [OF assms(1)] r by (simp add: spools_ok_def)
  moreover have "file_ok s ?r" "failing ?r \<or> stream_bytes i evs = sp_written ?r @ pending ?r"
    using reach_files_ok [OF assms(1)] r assms(2) by (auto simp: files_ok_def)
  ultimately show ?thesis
    using assms(3) by (auto simp: run_ok_def failing_def pending_def file_ok_def split: option.splits)
qed

theorem spool_replays_stream_witness:
  "\<exists>s. spool_reach 5 demo_events s \<and> stream_bytes 0 demo_events = [1, 2, 3]
     \<and> map_of (spool_files s) ''zl-1-0.body'' = Some ([1, 2, 3], 9) \<and> sp_total (spool_runs s ! 0) = 3"
proof -
  obtain s where s: "s = the (spool_trace demo_events no_spools)" by blast
  have "spool_trace demo_events no_spools = Some s" unfolding s by code_simp
  moreover have "list_all (event_budget 5) demo_events" by code_simp
  ultimately have r: "spool_reach 5 demo_events s" by (intro trace_reach) simp_all
  have i: "0 < length (spool_runs s)" "sp_phase (spool_runs s ! 0) = Ready"
    "map_of (spool_files s) ''zl-1-0.body'' = Some ([1, 2, 3], 9)"
    unfolding s by code_simp+
  have "stream_bytes 0 demo_events = [1, 2, 3]" by code_simp
  moreover have "sp_total (spool_runs s ! 0) = 3"
    using spool_replays_stream [OF r i(1,2), THEN conjunct1] calculation by simp
  ultimately show ?thesis using r i(3) by (intro exI [of _ s] conjI)
qed

text \<open>
  The sweep does not look at the running spools: whatever state its handle is in, a file older than
  ten minutes is removed by the next request that opens a spool.
\<close>

lemma sweep_victims_all:
  "length victims + length es \<le> SPOOL_SWEEP_MAX \<Longrightarrow>
   sweep_victims now es victims =
     victims @ map fst (filter (\<lambda>(_, m). case m of Some t \<Rightarrow> SPOOL_SWEEP_AGE_MS < now - t | None \<Rightarrow> False) es)"
proof (induction es arbitrary: victims)
  case (Cons e es)
  obtain n m where e: "e = (n, m)" by (cases e)
  have "es = []" if "SPOOL_SWEEP_MAX \<le> Suc (length victims)"
    using that Cons.prems by (cases es) simp_all
  moreover have "\<not> SPOOL_SWEEP_MAX \<le> length victims" using Cons.prems by simp
  ultimately show ?case
    using Cons.prems Cons.IH [of victims] Cons.IH [of "victims @ [n]"] unfolding e
    by (cases m) (auto simp: Let_def)
qed simp

lemma sweep_takes_any_old_file:
  assumes "(n, bs, t) \<in> set (spool_files s)" "length (spool_files s) \<le> SPOOL_SWEEP_MAX"
    and "SPOOL_SWEEP_AGE_MS < now - t" "readable n" "removable n" "n \<noteq> spool_name now (spool_seq s)"
  shows "map_of (spool_files (spool_open cap budget now Opened readable removable s)) n = None"
proof -
  have "n \<in> set (sweep_victims now (map (\<lambda>(n, (_, t)). (n, if readable n then Some t else None)) (spool_files s)) [])"
    using assms by (force simp: sweep_victims_all)
  then show ?thesis
    using assms by (auto simp: spool_open_def sweep_orphans_def Let_def map_of_eq_None_iff)
qed

end
