(* ===== verification/HttpHeaders.thy ===== *)
theory HttpHeaders
  imports Routes
begin

text \<open>
  Header surgery on proxied responses (\<open>src/app/src/headers.ts\<close>, \<open>cors.ts\<close>). A \<open>Headers\<close> object is an
  insertion-ordered map from lower-case names to values: \<open>get\<close>, \<open>set\<close> and \<open>delete\<close> lower the name
  they are given. A regular expression is a matcher on the suffixes of the text, tried from left to
  right; the greedy stars of the source never need to give back what they took, except in the
  \<open>meta\<close> prescan, which is written out.
\<close>

section \<open>Header lists\<close>

type_synonym headers = "(string, string) omap"

definition hget :: "headers \<Rightarrow> string \<Rightarrow> string option" where
  "hget h k = map_of h (js_lower k)"

definition hset :: "string \<Rightarrow> string \<Rightarrow> headers \<Rightarrow> headers" where
  "hset k v h = AList.update (js_lower k) v h"

definition hdel :: "string \<Rightarrow> headers \<Rightarrow> headers" where
  "hdel k h = AList.delete (js_lower k) h"

definition headers_wf :: "headers \<Rightarrow> bool" where
  "headers_wf h \<longleftrightarrow> omap_wf h \<and> (\<forall>(k, _) \<in> set h. js_lower k = k)"

named_theorems header_simps \<open>reads of updated header lists\<close>

lemma lower_char_idem [simp]: "lower_char (lower_char c) = lower_char c"
proof -
  have "char_code (char_of (char_code c + 32)) = char_code c + 32"
    if "char_code c \<le> 222"
    using that by (simp add: of_char_of)
  then show ?thesis by (auto simp: lower_char_def)
qed

lemma js_lower_idem [simp]: "js_lower (js_lower s) = js_lower s"
  by (simp add: js_lower_def)

lemma hget_hset [simp, header_simps]:
  "hget (hset k v h) j = (if js_lower j = js_lower k then Some v else hget h j)"
  by (simp add: hget_def hset_def)

lemma hget_hdel [simp, header_simps]:
  "hget (hdel k h) j = (if js_lower j = js_lower k then None else hget h j)"
  by (simp add: hget_def hdel_def)

lemma headers_wf_Nil [simp]: "headers_wf []"
  by (simp add: headers_wf_def)

lemma headers_wf_hset [simp]: "headers_wf h \<Longrightarrow> headers_wf (hset k v h)"
  using set_update_subset [of "js_lower k" v h] by (fastforce simp: headers_wf_def hset_def)

lemma headers_wf_hdel [simp]: "headers_wf h \<Longrightarrow> headers_wf (hdel k h)"
  using set_delete_subset [of "js_lower k" h] by (auto simp: headers_wf_def hdel_def)

section \<open>Stripping\<close>

definition HOSTILE :: "string list" where
  "HOSTILE =
     [''content-security-policy'', ''content-security-policy-report-only'', ''x-frame-options'',
      ''strict-transport-security'', ''cross-origin-opener-policy'', ''cross-origin-embedder-policy'',
      ''cross-origin-resource-policy'', ''permissions-policy'', ''set-cookie'', ''set-cookie2'',
      ''content-encoding'', ''content-length'', ''link'', ''content-location'', ''x-original-url'',
      ''clear-site-data'', ''report-to'', ''nel'', ''reporting-endpoints'', ''timing-allow-origin'']"

fun strip_into :: "headers \<Rightarrow> headers \<Rightarrow> headers" where
  "strip_into [] out = out"
| "strip_into ((k, v) # h) out =
     strip_into h (if js_lower k \<notin> set HOSTILE then hset k v out else out)"

definition strip_hostile :: "headers \<Rightarrow> headers" where
  "strip_hostile h = strip_into h []"

definition CORS_RESPONSE_HEADERS :: "string list" where
  "CORS_RESPONSE_HEADERS =
     [''access-control-allow-origin'', ''access-control-allow-credentials'',
      ''access-control-allow-methods'', ''access-control-allow-headers'',
      ''access-control-expose-headers'', ''access-control-max-age'']"

definition engine_cors_values :: "string \<Rightarrow> string \<Rightarrow> (string \<times> string) list" where
  "engine_cors_values engine_origin credentials =
     (if credentials = ''omit'' then [(''access-control-allow-origin'', ''*'')]
      else [(''access-control-allow-origin'', engine_origin), (''access-control-allow-credentials'', ''true'')])"

definition apply_engine_cors :: "string \<Rightarrow> string \<Rightarrow> headers \<Rightarrow> headers" where
  "apply_engine_cors engine_origin credentials h =
     fold (\<lambda>(k, v). hset k v) (engine_cors_values engine_origin credentials)
       (fold hdel CORS_RESPONSE_HEADERS h)"

section \<open>Matching\<close>

fun find_match :: "(string \<Rightarrow> 'a option) \<Rightarrow> string \<Rightarrow> (nat \<times> 'a) option" where
  "find_match m [] = map_option (Pair 0) (m [])"
| "find_match m (c # s) =
     (case m (c # s) of
        Some r \<Rightarrow> Some (0, r)
      | None \<Rightarrow> map_option (\<lambda>(i, r). (Suc i, r)) (find_match m s))"

text \<open>A keyword in any case; the rest of the text.\<close>

definition word_ci :: "string \<Rightarrow> string \<Rightarrow> string option" where
  "word_ci w s = (if length w \<le> length s \<and> js_lower (take (length w) s) = w then Some (drop (length w) s) else None)"

definition skip_ws :: "string \<Rightarrow> string" where
  "skip_ws = dropWhile is_js_space"

text \<open>\<open>w\s*=\s*\<close>\<close>

definition key_eq :: "string \<Rightarrow> string \<Rightarrow> string option" where
  "key_eq w s =
     (case word_ci w s of
        None \<Rightarrow> None
      | Some r \<Rightarrow> (case skip_ws r of c # r' \<Rightarrow> if c = CHR ''='' then Some (skip_ws r') else None | [] \<Rightarrow> None))"

section \<open>Refresh and Location\<close>

definition QUOTE :: char where
  "QUOTE = CHR 0x22"

definition refresh_value :: "string \<Rightarrow> string" where
  "refresh_value rest =
     (let v = js_trim rest
      in case v of
           c # w \<Rightarrow> if c = QUOTE then takeWhile (\<lambda>d. d \<noteq> QUOTE) w
                    else if CHR '';'' \<in> set v then js_trim (takeWhile (\<lambda>d. d \<noteq> CHR '';'') v) else v
         | [] \<Rightarrow> v)"

text \<open>\<open>full.hash = ""; full.href\<close>: in a serialised URL the first number sign starts the fragment.\<close>

definition href_no_hash :: "url \<Rightarrow> string" where
  "href_no_hash u = takeWhile (\<lambda>c. c \<noteq> CHR ''#'') (url_href u)"

definition map_refresh_header :: "platform \<Rightarrow> codec \<Rightarrow> string \<Rightarrow> headers \<Rightarrow> headers" where
  "map_refresh_header pf c dest h =
     (case truthy (hget h ''refresh'') of
        None \<Rightarrow> h
      | Some refresh \<Rightarrow>
        (case find_match (key_eq ''url'') refresh of
           None \<Rightarrow> h
         | Some (i, rest) \<Rightarrow>
           (case new_url_base pf (refresh_value rest) dest of
              None \<Rightarrow> hdel ''refresh'' h
            | Some full \<Rightarrow>
                hset ''refresh'' (take i refresh @ ''url='' @ encode_dest c (href_no_hash full) @ url_hash full) h)))"

definition map_location_header :: "platform \<Rightarrow> codec \<Rightarrow> string \<Rightarrow> headers \<Rightarrow> headers" where
  "map_location_header pf c base h =
     (case truthy (hget h ''location'') of
        None \<Rightarrow> h
      | Some loc \<Rightarrow>
        (case new_url_base pf loc base of
           None \<Rightarrow> h
         | Some full \<Rightarrow> hset ''location'' (encode_dest c (href_no_hash full) @ url_hash full) h))"

section \<open>Charsets\<close>

definition is_charset_char :: "char \<Rightarrow> bool" where
  "is_charset_char c \<longleftrightarrow> (65 \<le> char_code c \<and> char_code c \<le> 90) \<or> (97 \<le> char_code c \<and> char_code c \<le> 122)
     \<or> is_digit c \<or> c \<in> {CHR '':'', CHR ''_'', CHR ''-''}"

definition charset_name :: "string \<Rightarrow> string option" where
  "charset_name s = (let n = takeWhile is_charset_char s in if n = [] then None else Some n)"

definition charset_param :: "string \<Rightarrow> string option" where
  "charset_param s =
     (case key_eq ''charset'' s of
        None \<Rightarrow> None
      | Some r \<Rightarrow> charset_name (case r of c # r' \<Rightarrow> if c = QUOTE then r' else r | [] \<Rightarrow> r))"

definition charset_from_header :: "string \<Rightarrow> string option" where
  "charset_from_header ct = map_option snd (find_match charset_param ct)"

definition BOMS :: "(byte list \<times> string) list" where
  "BOMS = [([0xEF, 0xBB, 0xBF], ''utf-8''), ([0xFE, 0xFF], ''utf-16be''), ([0xFF, 0xFE], ''utf-16le'')]"

definition latin1 :: "byte list \<Rightarrow> nat \<Rightarrow> string" where
  "latin1 head n = map (\<lambda>b. char_of (unat b)) (take n head)"

text \<open>\<open>charset\s*=\s*["']?\s*([A-Za-z0-9:_-]+)\<close>\<close>

definition meta_charset :: "string \<Rightarrow> string option" where
  "meta_charset s =
     (case key_eq ''charset'' s of
        None \<Rightarrow> None
      | Some r \<Rightarrow> charset_name (skip_ws (case r of c # r' \<Rightarrow> if c = QUOTE \<or> c = CHR 0x27 then r' else r | [] \<Rightarrow> r)))"

text \<open>\<open>[^>]*\<close> is greedy: the last position inside the tag from which the rest matches.\<close>

fun last_match :: "(string \<Rightarrow> 'a option) \<Rightarrow> nat \<Rightarrow> string \<Rightarrow> 'a option" where
  "last_match m 0 s = m s"
| "last_match m (Suc n) s = (case m (drop (Suc n) s) of Some r \<Rightarrow> Some r | None \<Rightarrow> last_match m n s)"

definition meta_tag :: "string \<Rightarrow> string option" where
  "meta_tag s =
     (case word_ci ''<meta'' s of
        None \<Rightarrow> None
      | Some r \<Rightarrow> last_match meta_charset (length (takeWhile (\<lambda>c. c \<noteq> CHR ''>'') r)) r)"

definition css_charset :: "string \<Rightarrow> string option" where
  "css_charset s =
     (case word_ci ''@charset'' (skip_ws s) of
        None \<Rightarrow> None
      | Some r \<Rightarrow>
        (if r = [] \<or> \<not> is_js_space (hd r) then None
         else case skip_ws r of
             [] \<Rightarrow> None
           | c # r' \<Rightarrow>
             (let n = takeWhile (\<lambda>d. d \<noteq> QUOTE) r'
              in if c = QUOTE \<and> n \<noteq> [] \<and> length n < length r' then Some n else None)))"

definition bom_label :: "byte list \<Rightarrow> string option" where
  "bom_label head =
     (if 2 \<le> length head then map_option snd (find (\<lambda>(bom, _). take (length bom) head = bom) BOMS) else None)"

definition resolve_charset :: "string \<Rightarrow> byte list option \<Rightarrow> bool \<Rightarrow> string" where
  "resolve_charset ct head html =
     (let from_header = charset_from_header ct; bom = (case head of Some h \<Rightarrow> bom_label h | None \<Rightarrow> None);
          scan = (case head of
              None \<Rightarrow> None
            | Some h \<Rightarrow> if html then map_option snd (find_match meta_tag (latin1 h 1024)) else css_charset (latin1 h 1024))
      in case (from_header, bom, scan) of
           (Some l, None, _) \<Rightarrow> l
         | (Some l, Some b, _) \<Rightarrow> if html then b else l
         | (None, Some b, _) \<Rightarrow> b
         | (None, None, Some l) \<Rightarrow> l
         | (None, None, None) \<Rightarrow> if html then ''windows-1252'' else ''utf-8'')"

definition utf8_content_type :: "string \<Rightarrow> string" where
  "utf8_content_type content_type =
     (let ct = js_trim content_type
      in if ct = [] then ''text/html; charset=utf-8''
         else case find_match (key_eq ''charset'') ct of
             None \<Rightarrow> ct @ ''; charset=utf-8''
           | Some (i, rest) \<Rightarrow> take i ct @ ''charset=utf-8'' @ dropWhile (\<lambda>c. c \<noteq> CHR '';'') rest)"

section \<open>What the page sees\<close>

lemma find_match_Some:
  "find_match m s = Some (i, r) \<Longrightarrow> i \<le> length s \<and> m (drop i s) = Some r \<and> (\<forall>j < i. m (drop j s) = None)"
proof (induction s arbitrary: i)
  case (Cons c s)
  show ?case
  proof (cases "m (c # s)")
    case None
    then obtain i' where i': "i = Suc i'" "find_match m s = Some (i', r)"
      using Cons.prems by auto
    then have "\<forall>j < i. m (drop j (c # s)) = None"
      using None Cons.IH by (auto simp: drop_Cons split: nat.splits)
    then show ?thesis using i' Cons.IH by simp
  qed (use Cons in auto)
qed auto

lemma find_match_None: "find_match m s = None \<longleftrightarrow> (\<forall>j \<le> length s. m (drop j s) = None)"
proof (induction s)
  case (Cons c s)
  have "(\<forall>j \<le> length (c # s). m (drop j (c # s)) = None) \<longleftrightarrow>
      m (c # s) = None \<and> (\<forall>j \<le> length s. m (drop j s) = None)"
    unfolding less_Suc_eq_le [symmetric] by (simp add: All_less_Suc2)
  then show ?case using Cons by (auto split: option.splits)
qed simp

lemma last_match_sound: "last_match m n s = Some r \<Longrightarrow> \<exists>i \<le> n. m (drop i s) = Some r"
  by (induction n) (auto split: option.splits intro: exI [of _ 0] le_SucI)

lemma hget_strip_into:
  "headers_wf h \<Longrightarrow> hget (strip_into h out) k =
     (if js_lower k \<notin> set HOSTILE \<and> omap_has h (js_lower k) then hget h k else hget out k)"
proof (induction h arbitrary: out)
  case (Cons e h)
  obtain n v where e: "e = (n, v)" by (cases e)
  have wf: "headers_wf h" "js_lower n = n" "\<not> omap_has h n"
    using Cons.prems by (auto simp: headers_wf_def omap_wf_def e omap_has_iff)
  show ?case
    unfolding e strip_into.simps Cons.IH [OF wf(1)] using wf(2,3)
    by (auto simp: hget_def hset_def omap_has_def)
qed (simp add: omap_has_def)

lemma hget_strip_hostile:
  "headers_wf h \<Longrightarrow> hget (strip_hostile h) k = (if js_lower k \<in> set HOSTILE then None else hget h k)"
  by (simp add: strip_hostile_def hget_strip_into) (simp add: hget_def omap_has_def)

lemma headers_wf_strip_into [simp]: "headers_wf out \<Longrightarrow> headers_wf (strip_into h out)"
  by (induction h out rule: strip_into.induct) auto

lemma headers_wf_strip [simp]: "headers_wf (strip_hostile h)"
  by (simp add: strip_hostile_def)

lemma hget_fold_hdel: "hget (fold hdel ks h) k = (if js_lower k \<in> js_lower ` set ks then None else hget h k)"
  by (induction ks arbitrary: h) auto

lemma hget_engine_cors:
  "hget (apply_engine_cors eo cr h) k =
     (case map_of (engine_cors_values eo cr) (js_lower k) of
        Some v \<Rightarrow> Some v
      | None \<Rightarrow> if js_lower k \<in> set CORS_RESPONSE_HEADERS then None else hget h k)"
proof -
  have "map js_lower CORS_RESPONSE_HEADERS = CORS_RESPONSE_HEADERS" by code_simp
  then have "js_lower ` set CORS_RESPONSE_HEADERS = set CORS_RESPONSE_HEADERS" by (metis list.set_map)
  moreover have "js_lower ''access-control-allow-origin'' = ''access-control-allow-origin''"
    "js_lower ''access-control-allow-credentials'' = ''access-control-allow-credentials''" by code_simp+
  ultimately show ?thesis
    by (simp add: apply_engine_cors_def engine_cors_values_def hget_fold_hdel)
qed

text \<open>The refresh header of a mapped response.\<close>

lemma hget_map_refresh_other:
  "js_lower k \<noteq> ''refresh'' \<Longrightarrow> hget (map_refresh_header pf c dest h) k = hget h k"
proof -
  have "js_lower ''refresh'' = ''refresh''" by code_simp
  then show "js_lower k \<noteq> ''refresh'' \<Longrightarrow> hget (map_refresh_header pf c dest h) k = hget h k"
    by (auto simp: map_refresh_header_def split: option.splits prod.splits)
qed

lemma hget_map_refresh:
  assumes "hget (map_refresh_header pf c dest h) ''refresh'' = Some v"
  shows "find_match (key_eq ''url'') v = None \<or>
     (\<exists>old i rest full. find_match (key_eq ''url'') old = Some (i, rest) \<and> new_url_base pf (refresh_value rest) dest = Some full
        \<and> v = take i old @ ''url='' @ encode_dest c (href_no_hash full) @ url_hash full)"
proof -
  have "find_match (key_eq ''url'') [] = None" by code_simp
  then show ?thesis
    using assms by (auto simp: map_refresh_header_def truthy_def split: option.splits if_splits prod.splits)
qed

section \<open>Properties\<close>

definition page_view :: "platform \<Rightarrow> codec \<Rightarrow> string \<Rightarrow> string \<Rightarrow> string \<Rightarrow> headers \<Rightarrow> headers" where
  "page_view pf c engine_origin credentials dest h =
     map_refresh_header pf c dest (apply_engine_cors engine_origin credentials (strip_hostile h))"

text \<open>The headers a page sees of a proxied response carry nothing hostile and no CORS fact of the target.\<close>

theorem page_headers_clean:
  assumes "headers_wf h"
  shows "(\<forall>k \<in> set HOSTILE. hget (page_view pf c eo cr dest h) k = None)
    \<and> (\<forall>k \<in> set CORS_RESPONSE_HEADERS. hget (page_view pf c eo cr dest h) k = map_of (engine_cors_values eo cr) k)
    \<and> (case hget (page_view pf c eo cr dest h) ''refresh'' of
         None \<Rightarrow> True
       | Some v \<Rightarrow> find_match (key_eq ''url'') v = None \<or>
           (\<exists>old i rest full. find_match (key_eq ''url'') old = Some (i, rest)
              \<and> v = take i old @ ''url='' @ encode_dest c (href_no_hash full) @ url_hash full))"
proof -
  let ?h = "apply_engine_cors eo cr (strip_hostile h)"
  have lists: "map js_lower HOSTILE = HOSTILE" "map js_lower CORS_RESPONSE_HEADERS = CORS_RESPONSE_HEADERS"
    "''refresh'' \<notin> set (HOSTILE @ CORS_RESPONSE_HEADERS)"
    "list_all (\<lambda>k. k \<notin> set CORS_RESPONSE_HEADERS) HOSTILE"
    by code_simp+
  have low: "js_lower k = k" if "k \<in> set HOSTILE \<or> k \<in> set CORS_RESPONSE_HEADERS" for k
    using that lists(1,2) by (metis in_set_conv_nth length_map nth_map)
  have keys: "map_of (engine_cors_values eo cr) k = None" if "k \<notin> set CORS_RESPONSE_HEADERS" for k
    using that by (auto simp: engine_cors_values_def CORS_RESPONSE_HEADERS_def)
  have pass: "hget (page_view pf c eo cr dest h) k = hget ?h k"
    if "k \<in> set HOSTILE \<or> k \<in> set CORS_RESPONSE_HEADERS" for k
    unfolding page_view_def using that lists(3) low by (intro hget_map_refresh_other) auto
  have "hget ?h k = None" if "k \<in> set HOSTILE" for k
    using that lists(4) keys low assms by (auto simp: hget_engine_cors hget_strip_hostile list_all_iff)
  moreover have "hget ?h k = map_of (engine_cors_values eo cr) k" if "k \<in> set CORS_RESPONSE_HEADERS" for k
    using that low by (auto simp: hget_engine_cors split: option.splits)
  ultimately show ?thesis
    using pass hget_map_refresh [of pf c dest ?h] unfolding page_view_def [symmetric]
    by (auto split: option.splits) metis
qed

definition header_platform :: platform where
  "header_platform =
     \<lparr>new_url = (\<lambda>s. None),
      new_url_base = (\<lambda>s b. Some \<lparr>url_href = s, url_protocol = ''http:'', url_origin = b, url_host = [], url_hostname = [],
        url_pathname = [], url_search = [], url_hash = dropWhile (\<lambda>c. c \<noteq> CHR ''#'') s\<rparr>),
      with_pathname = (\<lambda>u p. u), psl_domain = (\<lambda>h. None), psl_suffix = (\<lambda>h. None)\<rparr>"

definition upstream_headers :: headers where
  "upstream_headers =
     [(''set-cookie'', ''a=b''), (''refresh'', ''0;URL = http://a.b/#f''), (''access-control-allow-origin'', ''http://a.b'')]"

theorem page_headers_clean_witness:
  "headers_wf upstream_headers
   \<and> hget (page_view header_platform initial_codec ''http://e'' ''include'' ''http://a.b/'' upstream_headers) ''set-cookie'' = None
   \<and> hget (page_view header_platform initial_codec ''http://e'' ''include'' ''http://a.b/'' upstream_headers) ''access-control-allow-origin''
       = Some ''http://e''
   \<and> hget (page_view header_platform initial_codec ''http://e'' ''include'' ''http://a.b/'' upstream_headers) ''refresh''
       = Some (''0;url='' @ encode_dest initial_codec ''http://a.b/'' @ ''#f'')"
proof -
  have wf: "headers_wf upstream_headers" by code_simp
  note clean = page_headers_clean [OF wf, of header_platform initial_codec "''http://e''" "''include''" "''http://a.b/''"]
  have "''set-cookie'' \<in> set HOSTILE" "''access-control-allow-origin'' \<in> set CORS_RESPONSE_HEADERS"
    "map_of (engine_cors_values ''http://e'' ''include'') ''access-control-allow-origin'' = Some ''http://e''" by code_simp+
  moreover have "hget (page_view header_platform initial_codec ''http://e'' ''include'' ''http://a.b/'' upstream_headers) ''refresh''
       = Some (''0;url='' @ encode_dest initial_codec ''http://a.b/'' @ ''#f'')" by code_simp
  ultimately show ?thesis using wf clean by simp
qed

end
