(* ===== verification/Transit.thy ===== *)
theory Transit
  imports HttpHeaders
begin

text \<open>
  Transport classification (\<open>src/app/src/transit.ts\<close>, \<open>isHtml\<close>, \<open>isCss\<close> and \<open>isJs\<close> of \<open>transform.ts\<close>):
  the decision for a request before and after its response is known, the plan shared by fresh and
  cached responses, the counters with their ring of fallbacks, and the outcome of a script pass.
\<close>

section \<open>Decisions\<close>

datatype fallback_reason =
  DOCUMENT_REWRITE_REQUIRED | CSS_URL_REWRITE_REQUIRED | JS_LITERAL_REWRITE_REQUIRED
  | XML_DOCUMENT_REWRITE_REQUIRED | UNSUPPORTED_PROTOCOL | POLICY_REWRITE

datatype native_reason = NON_DOCUMENT_RESOURCE | POLICY_NATIVE | CDN_CGI_NATIVE | CF_CHALLENGE_VERBATIM

datatype block_reason = BLOCKED_RULES | BLOCKED_INTERCEPT | BLOCKED_WEBREQUEST | BLOCKED_CSP

datatype transit_decision =
  NativeTransit native_reason "string option"
  | RewriteFallback fallback_reason "string option"
  | Blocked block_reason

datatype transit_reason = NativeReason native_reason | FallbackReason fallback_reason | BlockReason block_reason

definition reason_of :: "transit_decision \<Rightarrow> transit_reason option" where
  "reason_of dec =
     (case dec of
        NativeTransit r _ \<Rightarrow> if r = NON_DOCUMENT_RESOURCE then None else Some (NativeReason r)
      | RewriteFallback r _ \<Rightarrow> Some (FallbackReason r)
      | Blocked r \<Rightarrow> Some (BlockReason r))"

record origin_context =
  oc_scheme :: string
  oc_host :: string
  oc_port :: "nat option"

definition origin_of :: "url_parser \<Rightarrow> string \<Rightarrow> origin_context option" where
  "origin_of parse s =
     map_option (\<lambda>u.
       let port = drop (Suc (length (url_hostname u))) (url_host u)
       in \<lparr>oc_scheme = remove1 (CHR '':'') (url_protocol u), oc_host = url_hostname u,
           oc_port = (if port = [] then None else Some (digits_val port))\<rparr>) (parse s)"

definition DOC_DESTS :: "string list" where
  "DOC_DESTS = [''document'', ''iframe'', ''object'', ''frame'', ''embed'', ''fencedframe'', ''xslt'']"

definition JS_TRANSFORM_DESTS :: "string list" where
  "JS_TRANSFORM_DESTS = [''script'', [], ''worker'', ''sharedworker'']"

definition is_doc_dest :: "string \<Rightarrow> bool" where
  "is_doc_dest dest \<longleftrightarrow> js_lower dest \<in> set DOC_DESTS"

datatype doc_kind = HtmlDoc | CssDoc | NoDoc

definition doc_kind_of :: "string \<Rightarrow> doc_kind" where
  "doc_kind_of content_type =
     (let ct = js_lower content_type
      in if str_includes ct ''text/html'' \<or> str_includes ct ''application/xhtml+xml'' then HtmlDoc
         else if str_includes ct ''text/css'' then CssDoc else NoDoc)"

definition js_body :: "string \<Rightarrow> bool" where
  "js_body content_type \<longleftrightarrow>
     (let ct = js_lower content_type in str_includes ct ''javascript'' \<or> str_includes ct ''ecmascript'')"

definition content_type_of :: "headers \<Rightarrow> string" where
  "content_type_of h = (case hget h ''content-type'' of Some v \<Rightarrow> v | None \<Rightarrow> [])"

definition is_html :: "headers \<Rightarrow> bool" where
  "is_html h \<longleftrightarrow> doc_kind_of (content_type_of h) = HtmlDoc"

definition is_css :: "headers \<Rightarrow> bool" where
  "is_css h \<longleftrightarrow> doc_kind_of (content_type_of h) = CssDoc"

definition is_js :: "headers \<Rightarrow> bool" where
  "is_js h \<longleftrightarrow> js_body (content_type_of h)"

section \<open>Sniffing\<close>

definition is_word_char :: "char \<Rightarrow> bool" where
  "is_word_char c \<longleftrightarrow> (65 \<le> char_code c \<and> char_code c \<le> 90) \<or> (97 \<le> char_code c \<and> char_code c \<le> 122)
     \<or> is_digit c \<or> c = CHR ''_''"

definition HTML_TAGS :: "string list" where
  "HTML_TAGS = [''html'', ''head'', ''body'', ''script'', ''iframe'', ''table'', ''h1'', ''h2'', ''h3'', ''h4'', ''h5'', ''h6'',
     ''title'', ''meta'']"

definition tag_at :: "string \<Rightarrow> string \<Rightarrow> bool" where
  "tag_at s tag \<longleftrightarrow> (case word_ci tag s of Some r \<Rightarrow> r = [] \<or> \<not> is_word_char (hd r) | None \<Rightarrow> False)"

definition html_at :: "string \<Rightarrow> unit option" where
  "html_at s =
     (if (case word_ci ''<!doctype'' s of
            Some r \<Rightarrow> r \<noteq> [] \<and> is_js_space (hd r) \<and> word_ci ''html'' (skip_ws r) \<noteq> None | None \<Rightarrow> False)
       \<or> starts_with s ''<!--''
       \<or> (case s of
            c # r \<Rightarrow> c = CHR ''<'' \<and> list_ex (tag_at (if starts_with r ''/'' then drop 1 r else r)) HTML_TAGS
          | [] \<Rightarrow> False)
      then Some () else None)"

definition sniffs_as_html :: "byte list \<Rightarrow> bool" where
  "sniffs_as_html head \<longleftrightarrow> find_match html_at (latin1 head 512) \<noteq> None"

section \<open>Classification\<close>

definition is_cdn_cgi_url :: "url_parser \<Rightarrow> string \<Rightarrow> bool" where
  "is_cdn_cgi_url parse target \<longleftrightarrow>
     (case parse target of
        None \<Rightarrow> False
      | Some u \<Rightarrow> is_http_url u \<and> starts_with (url_pathname u) ''/cdn-cgi/'')"

definition is_challenge_mitigated :: "headers \<Rightarrow> bool" where
  "is_challenge_mitigated h \<longleftrightarrow>
     js_lower (js_trim (case hget h ''cf-mitigated'' of Some v \<Rightarrow> v | None \<Rightarrow> [])) = ''challenge''"

definition decide_transport :: "url_parser \<Rightarrow> string \<Rightarrow> string \<Rightarrow> transit_decision" where
  "decide_transport parse target dest =
     (case origin_of parse target of
        None \<Rightarrow> RewriteFallback UNSUPPORTED_PROTOCOL None
      | Some oc \<Rightarrow>
          if oc_scheme oc \<noteq> ''http'' \<and> oc_scheme oc \<noteq> ''https'' then RewriteFallback UNSUPPORTED_PROTOCOL None
          else if is_doc_dest dest then RewriteFallback DOCUMENT_REWRITE_REQUIRED None
          else NativeTransit NON_DOCUMENT_RESOURCE None)"

definition refine_with_content :: "transit_decision \<Rightarrow> string \<Rightarrow> string \<Rightarrow> transit_decision" where
  "refine_with_content dec content_type dest =
     (case dec of
        NativeTransit _ _ \<Rightarrow>
          (let kind = doc_kind_of content_type; ct = js_lower content_type
           in if kind = HtmlDoc \<and> is_doc_dest dest then RewriteFallback DOCUMENT_REWRITE_REQUIRED None
              else if kind = CssDoc then RewriteFallback CSS_URL_REWRITE_REQUIRED None
              else if js_body content_type \<and> js_lower dest \<in> set JS_TRANSFORM_DESTS
              then RewriteFallback JS_LITERAL_REWRITE_REQUIRED None
              else if is_doc_dest dest \<and> str_includes ct ''xml'' then RewriteFallback XML_DOCUMENT_REWRITE_REQUIRED None
              else if is_doc_dest dest \<and> ct = [] then RewriteFallback DOCUMENT_REWRITE_REQUIRED None
              else dec)
      | _ \<Rightarrow> dec)"

datatype rewrite_strategy = StrategyNative | StrategyLight | StrategyFull | StrategyRequired | StrategyBlocked

datatype adaptive_evidence =
  EvDefault | EvRequestDestination | EvResponseContentType | EvManualPolicy | EvChallengeNamespace

record transit_plan =
  tp_decision :: transit_decision
  tp_strategy :: rewrite_strategy
  tp_evidence :: adaptive_evidence

record behavior_override =
  bo_id :: string
  bo_route :: string

definition plan_evidence :: "transit_decision \<Rightarrow> transit_decision \<Rightarrow> string \<Rightarrow> adaptive_evidence" where
  "plan_evidence initial decision dest =
     (if (case initial of RewriteFallback r _ \<Rightarrow> r = POLICY_REWRITE | _ \<Rightarrow> False) then EvManualPolicy
      else if is_doc_dest dest then EvRequestDestination
      else case decision of RewriteFallback _ _ \<Rightarrow> EvResponseContentType | _ \<Rightarrow> EvDefault)"

definition policy_demotes :: "transit_decision \<Rightarrow> string \<Rightarrow> behavior_override option \<Rightarrow> bool" where
  "policy_demotes decision dest ovr \<longleftrightarrow>
     (case decision of RewriteFallback r _ \<Rightarrow> r = JS_LITERAL_REWRITE_REQUIRED | _ \<Rightarrow> False)
     \<and> (case ovr of Some ov \<Rightarrow> bo_route ov = ''native'' | None \<Rightarrow> False)
     \<and> (dest = ''script'' \<or> dest = [])"

definition strategy_of :: "transit_decision \<Rightarrow> rewrite_strategy" where
  "strategy_of decision =
     (case decision of
        Blocked _ \<Rightarrow> StrategyBlocked
      | NativeTransit _ _ \<Rightarrow> StrategyNative
      | RewriteFallback r _ \<Rightarrow>
          if r = JS_LITERAL_REWRITE_REQUIRED \<or> r = POLICY_REWRITE then StrategyFull else StrategyRequired)"

definition plan_response_transit ::
  "url_parser \<Rightarrow> transit_decision \<Rightarrow> string \<Rightarrow> string \<Rightarrow> string \<Rightarrow> behavior_override option \<Rightarrow> transit_plan" where
  "plan_response_transit parse initial content_type dest target ovr =
     (let decision = refine_with_content initial content_type dest;
          evidence = plan_evidence initial decision dest;
          demoted = policy_demotes decision dest ovr;
          decision = (if demoted then NativeTransit POLICY_NATIVE (map_option bo_id ovr) else decision);
          evidence = (if demoted then EvManualPolicy else evidence);
          challenge = (case decision of RewriteFallback _ _ \<Rightarrow> is_cdn_cgi_url parse target | _ \<Rightarrow> False);
          decision = (if challenge then NativeTransit CDN_CGI_NATIVE None else decision);
          evidence = (if challenge then EvChallengeNamespace else evidence)
      in \<lparr>tp_decision = decision, tp_strategy = strategy_of decision, tp_evidence = evidence\<rparr>)"

section \<open>Telemetry\<close>

record fallback_event =
  fe_ts :: int
  fe_url :: string
  fe_reason :: fallback_reason
  fe_rule :: "string option"
  fe_trace :: string

record transit_stats =
  native_count :: nat
  fallback_count :: nat
  relay_count :: nat
  wisp_count :: nat
  fallback_ring :: "fallback_event list"

definition no_transit :: transit_stats where
  "no_transit = \<lparr>native_count = 0, fallback_count = 0, relay_count = 0, wisp_count = 0, fallback_ring = []\<rparr>"

definition FALLBACK_LIMIT :: nat where
  "FALLBACK_LIMIT = 64"

definition transit_record :: "int \<Rightarrow> string \<Rightarrow> string \<Rightarrow> transit_decision \<Rightarrow> transit_stats \<Rightarrow> transit_stats" where
  "transit_record now trace_id url dec s =
     (case dec of
        NativeTransit _ _ \<Rightarrow> s\<lparr>native_count := Suc (native_count s)\<rparr>
      | Blocked _ \<Rightarrow> s
      | RewriteFallback r rule_id \<Rightarrow>
          (let ring = fallback_ring s @ [\<lparr>fe_ts = now, fe_url = url, fe_reason = r, fe_rule = rule_id, fe_trace = trace_id\<rparr>]
           in s\<lparr>fallback_count := Suc (fallback_count s),
                fallback_ring := (if FALLBACK_LIMIT < length ring then tl ring else ring)\<rparr>))"

definition relay_record :: "transit_stats \<Rightarrow> transit_stats" where
  "relay_record s = s\<lparr>relay_count := Suc (relay_count s)\<rparr>"

definition wisp_record :: "transit_stats \<Rightarrow> transit_stats" where
  "wisp_record s = s\<lparr>wisp_count := Suc (wisp_count s)\<rparr>"

record js_serve_outcome =
  specifier_changed :: bool
  literal_changed :: bool
  literal_skipped :: bool
  proven_unchanged :: bool

definition plan_js_serve_outcome :: "string \<Rightarrow> string \<Rightarrow> string option \<Rightarrow> js_serve_outcome" where
  "plan_js_serve_outcome raw after_specifiers after_literals =
     (let spec = (after_specifiers \<noteq> raw); skipped = (after_literals = None);
          lit = (\<not> skipped \<and> after_literals \<noteq> Some after_specifiers)
      in \<lparr>specifier_changed = spec, literal_changed = lit, literal_skipped = skipped,
          proven_unchanged = (\<not> spec \<and> \<not> lit \<and> \<not> skipped)\<rparr>)"

section \<open>Properties\<close>

text \<open>What a response body needs, by its type and the destination that asked for it.\<close>

definition needs_rewrite :: "string \<Rightarrow> string \<Rightarrow> bool" where
  "needs_rewrite content_type dest \<longleftrightarrow>
     is_doc_dest dest \<and> (doc_kind_of content_type = HtmlDoc \<or> js_lower content_type = [])
     \<or> doc_kind_of content_type = CssDoc
     \<or> js_body content_type \<and> js_lower dest \<in> set JS_TRANSFORM_DESTS"

lemma refine_needs_rewrite:
  "needs_rewrite content_type dest \<Longrightarrow> \<exists>r. refine_with_content (NativeTransit n j) content_type dest = RewriteFallback r None"
  by (auto simp: refine_with_content_def needs_rewrite_def Let_def)

lemma decide_transport_cases:
  "(\<exists>r. decide_transport parse target dest = RewriteFallback r None \<and> r \<noteq> JS_LITERAL_REWRITE_REQUIRED)
   \<or> decide_transport parse target dest = NativeTransit NON_DOCUMENT_RESOURCE None \<and> \<not> is_doc_dest dest"
  by (auto simp: decide_transport_def split: option.splits)

lemma refine_other [simp]:
  "refine_with_content (RewriteFallback r i) content_type dest = RewriteFallback r i"
  "refine_with_content (Blocked b) content_type dest = Blocked b"
  by (simp_all add: refine_with_content_def)

lemma doc_dest_not_script: "is_doc_dest dest \<Longrightarrow> dest \<noteq> ''script'' \<and> dest \<noteq> []"
proof -
  have "\<not> is_doc_dest ''script''" "\<not> is_doc_dest []" by code_simp+
  then show "is_doc_dest dest \<Longrightarrow> dest \<noteq> ''script'' \<and> dest \<noteq> []" by blast
qed

lemmas plan_defs = plan_response_transit_def plan_evidence_def policy_demotes_def strategy_of_def Let_def

text \<open>A body that needs rewriting is served untouched only in the challenge namespace or by a script rule of the operator.\<close>

theorem native_only_when_safe:
  assumes "tp_strategy (plan_response_transit parse (decide_transport parse target dest) content_type dest target ovr) = StrategyNative"
    and "needs_rewrite content_type dest"
  shows "is_cdn_cgi_url parse target
     \<or> \<not> is_doc_dest dest \<and> js_body content_type \<and> (dest = ''script'' \<or> dest = []) \<and> (\<exists>ov. ovr = Some ov \<and> bo_route ov = ''native'')"
proof (rule ccontr)
  assume not_safe: "\<not> ?thesis"
  let ?d = "refine_with_content (decide_transport parse target dest) content_type dest"
  obtain r where d: "?d = RewriteFallback r None"
    using decide_transport_cases [of parse target dest] refine_needs_rewrite [OF assms(2)] by fastforce
  have js: "js_body content_type" if "r = JS_LITERAL_REWRITE_REQUIRED"
    using decide_transport_cases [of parse target dest] d that
    by (auto simp: refine_with_content_def Let_def split: if_splits)
  have "\<not> policy_demotes ?d dest ovr"
  proof
    assume "policy_demotes ?d dest ovr"
    then have "r = JS_LITERAL_REWRITE_REQUIRED" "dest = ''script'' \<or> dest = []"
      "\<exists>ov. ovr = Some ov \<and> bo_route ov = ''native''"
      unfolding d policy_demotes_def by (auto split: option.splits)
    then show False using not_safe js doc_dest_not_script by blast
  qed
  then show False
    using assms(1) not_safe d by (simp add: plan_response_transit_def strategy_of_def Let_def split: if_splits)
qed

text \<open>A blocked request stays blocked whatever its answer says.\<close>

lemma plan_keeps_block:
  "tp_decision (plan_response_transit parse (Blocked b) content_type dest target ovr) = Blocked b"
  by (simp add: plan_response_transit_def policy_demotes_def Let_def)

lemma ring_bounded:
  "length (fallback_ring s) \<le> FALLBACK_LIMIT \<Longrightarrow> length (fallback_ring (transit_record now t u d s)) \<le> FALLBACK_LIMIT"
  by (auto simp: transit_record_def Let_def split: transit_decision.splits)

text \<open>A pass whose output equals its input is proven unchanged, and only then.\<close>

lemma proven_unchanged_iff: "proven_unchanged (plan_js_serve_outcome raw spec lit) \<longleftrightarrow> spec = raw \<and> lit = Some raw"
  by (auto simp: plan_js_serve_outcome_def Let_def)

theorem native_only_when_safe_witness:
  "tp_strategy (plan_response_transit (\<lambda>s. Some (the (new_url_base header_platform s ''b''))) (decide_transport
       (\<lambda>s. Some (the (new_url_base header_platform s ''b''))) ''http://a.b/x.js'' ''script'') ''text/javascript'' ''script''
       ''http://a.b/x.js'' (Some \<lparr>bo_id = ''r'', bo_route = ''native''\<rparr>)) = StrategyNative
   \<and> needs_rewrite ''text/javascript'' ''script'' \<and> js_body ''text/javascript''"
proof -
  have run: "tp_strategy (plan_response_transit (\<lambda>s. Some (the (new_url_base header_platform s ''b''))) (decide_transport
       (\<lambda>s. Some (the (new_url_base header_platform s ''b''))) ''http://a.b/x.js'' ''script'') ''text/javascript'' ''script''
       ''http://a.b/x.js'' (Some \<lparr>bo_id = ''r'', bo_route = ''native''\<rparr>)) = StrategyNative"
    and need: "needs_rewrite ''text/javascript'' ''script''"
    and cdn: "\<not> is_cdn_cgi_url (\<lambda>s. Some (the (new_url_base header_platform s ''b''))) ''http://a.b/x.js''"
    by code_simp+
  show ?thesis using native_only_when_safe [OF run need] run need cdn by simp
qed

end
