(* ===== verification/CachePolicy.thy ===== *)
theory CachePolicy
  imports Transit CookieReads
begin

text \<open>
  The pure part of the page cache of \<open>src/app/src/request.ts\<close> and \<open>range.ts\<close>: freshness, storability,
  the Vary snapshot of a stored entry, range slices, the merge of a route's query with its
  destination's, and the decision a stored entry leads to. Names and values of a
  \<open>URLSearchParams\<close> are kept as their bytes (the platform would replace ill-formed sequences).
\<close>

section \<open>Requests and responses\<close>

record creq =
  cq_url :: string
  cq_headers :: headers
  cq_destination :: string
  cq_credentials :: string

record cresp =
  cp_status :: nat
  cp_headers :: headers
  cp_body :: "byte list"

definition ZL_CACHED_AT :: string where "ZL_CACHED_AT = ''x-zl-cached-at''"
definition ZL_PAGE_BYTES :: string where "ZL_PAGE_BYTES = ''x-zl-page-bytes''"
definition ZL_FINAL_URL :: string where "ZL_FINAL_URL = ''x-zl-final-url''"
definition ZL_VARY :: string where "ZL_VARY = ''x-zl-vary''"
definition ZL_VARY_VALUES :: string where "ZL_VARY_VALUES = ''x-zl-vary-values''"

definition strip_internal_headers :: "headers \<Rightarrow> headers" where
  "strip_internal_headers h =
     hdel ZL_VARY_VALUES (hdel ZL_VARY (hdel ZL_FINAL_URL (hdel ZL_PAGE_BYTES (hdel ZL_CACHED_AT h))))"

definition ZL_DEFAULT_TTL :: int where "ZL_DEFAULT_TTL = 600000"
definition ZL_PAGE_LIMIT :: nat where "ZL_PAGE_LIMIT = 60"
definition ZL_PAGE_TOTAL_MAX :: int where "ZL_PAGE_TOTAL_MAX = 33554432"
definition ZL_PAGE_STORE_MAX :: int where "ZL_PAGE_STORE_MAX = 4194304"

definition or_empty :: "string option \<Rightarrow> string" where
  "or_empty s = (case s of Some x \<Rightarrow> x | None \<Rightarrow> [])"

section \<open>Freshness\<close>

text \<open>\<open>\bword\b\<close>, at every position with the character before it.\<close>

fun has_word_after :: "string \<Rightarrow> char option \<Rightarrow> string \<Rightarrow> bool" where
  "has_word_after w prev [] = False"
| "has_word_after w prev (c # s) =
     ((\<not> (case prev of Some p \<Rightarrow> is_word_char p | None \<Rightarrow> False) \<and> starts_with (c # s) w
        \<and> (case drop (length w) (c # s) of [] \<Rightarrow> True | d # _ \<Rightarrow> \<not> is_word_char d))
      \<or> has_word_after w (Some c) s)"

definition has_word :: "string \<Rightarrow> string \<Rightarrow> bool" where
  "has_word s w \<longleftrightarrow> has_word_after w None s"

text \<open>\<open>/(?:^|[,\s])max-age=(\d+)/\<close>\<close>

definition max_age_at :: "string \<Rightarrow> nat option" where
  "max_age_at s =
     (if starts_with s ''max-age=''
      then (let ds = takeWhile is_digit (drop 8 s) in if ds = [] then None else Some (digits_val ds)) else None)"

definition max_age :: "string \<Rightarrow> nat option" where
  "max_age cc =
     (case max_age_at cc of
        Some n \<Rightarrow> Some n
      | None \<Rightarrow> map_option snd (find_match (\<lambda>s. case s of
            c # r \<Rightarrow> if c = CHR '','' \<or> is_js_space c then max_age_at r else None | [] \<Rightarrow> None) cc))"

definition cache_control :: "headers \<Rightarrow> string" where
  "cache_control h = js_lower (or_empty (hget h ''cache-control''))"

definition cache_ttl :: "headers \<Rightarrow> int" where
  "cache_ttl h =
     (let cc = cache_control h
      in if has_word cc ''no-store'' \<or> has_word cc ''no-cache'' then 0
         else case max_age cc of
             Some n \<Rightarrow> min (int n * 1000) (24 * 60 * 60 * 1000)
           | None \<Rightarrow> ZL_DEFAULT_TTL)"

section \<open>Vary\<close>

definition field_list :: "string \<Rightarrow> string list" where
  "field_list s = filter (\<lambda>f. f \<noteq> []) (map (\<lambda>f. js_lower (js_trim f)) (split_on (CHR '','') s))"

definition vary_fields :: "headers \<Rightarrow> string list" where
  "vary_fields h = field_list (or_empty (hget h ''vary''))"

definition stored_vary_fields :: "headers \<Rightarrow> string list" where
  "stored_vary_fields h = field_list (or_empty (hget h ZL_VARY))"

text \<open>\<open>JSON.stringify\<close> on strings.\<close>

definition json_escape :: "char \<Rightarrow> string" where
  "json_escape c =
     (if c = QUOTE \<or> c = CHR 0x5C then [CHR 0x5C, c]
      else if c = CHR 0x08 then [CHR 0x5C, CHR ''b''] else if c = CHR 0x09 then [CHR 0x5C, CHR ''t'']
      else if c = CHR 0x0A then [CHR 0x5C, CHR ''n''] else if c = CHR 0x0C then [CHR 0x5C, CHR ''f'']
      else if c = CHR 0x0D then [CHR 0x5C, CHR ''r'']
      else if char_code c < 32 then [CHR 0x5C, CHR ''u'', CHR ''0'', CHR ''0''] @ hex_lower (of_nat (char_code c))
      else [c])"

definition json_value_text :: "string option \<Rightarrow> string" where
  "json_value_text v = (case v of None \<Rightarrow> ''null'' | Some s \<Rightarrow> QUOTE # concat (map json_escape s) @ [QUOTE])"

definition json_values_text :: "string option list \<Rightarrow> string" where
  "json_values_text vs = ''['' @ join_with '','' (map json_value_text vs) @ '']''"

text \<open>
  \<open>JSON.parse\<close>, as far as the code relies on it: \<open>Some vs\<close> for an array of strings (of code units
  below 256) and nulls. Every other text makes the comparison below fail in the source too, as an
  exception, as a value that is no array, or as an element that equals no header value.
\<close>

definition json_ws :: "string \<Rightarrow> string" where
  "json_ws = dropWhile (\<lambda>c. c \<in> {CHR '' '', CHR 0x09, CHR 0x0A, CHR 0x0D})"

definition json_unescape :: "char \<Rightarrow> char option" where
  "json_unescape e =
     (if e = QUOTE \<or> e = CHR 0x5C \<or> e = CHR ''/'' then Some e
      else if e = CHR ''b'' then Some (CHR 0x08) else if e = CHR ''t'' then Some (CHR 0x09)
      else if e = CHR ''n'' then Some (CHR 0x0A) else if e = CHR ''f'' then Some (CHR 0x0C)
      else if e = CHR ''r'' then Some (CHR 0x0D) else None)"

fun json_chars :: "string \<Rightarrow> (string \<times> string) option" where
  "json_chars [] = None"
| "json_chars (c # s) =
     (if c = QUOTE then Some ([], s)
      else if c = CHR 0x5C then
        (case s of
           [] \<Rightarrow> None
         | e # r \<Rightarrow>
             if e = CHR ''u'' then
               (case r of
                  a # b # h # l # r' \<Rightarrow>
                    (case (hex_val a, hex_val b, hex_val h, hex_val l) of
                       (Some 0, Some 0, Some x, Some y) \<Rightarrow>
                         map_option (\<lambda>(t, z). (char_of (16 * x + y) # t, z)) (json_chars r')
                     | _ \<Rightarrow> None)
                | _ \<Rightarrow> None)
             else (case json_unescape e of
                 None \<Rightarrow> None
               | Some d \<Rightarrow> map_option (\<lambda>(t, z). (d # t, z)) (json_chars r)))
      else if char_code c < 32 then None
      else map_option (\<lambda>(t, z). (c # t, z)) (json_chars s))"

definition json_element :: "string \<Rightarrow> (string option \<times> string) option" where
  "json_element s =
     (case json_ws s of
        [] \<Rightarrow> None
      | c # r \<Rightarrow>
          if c = QUOTE then map_option (\<lambda>(t, z). (Some t, z)) (json_chars r)
          else if starts_with (c # r) ''null'' then Some (None, drop 4 (c # r)) else None)"

fun json_elements :: "nat \<Rightarrow> string \<Rightarrow> (string option list \<times> string) option" where
  "json_elements 0 s = None"
| "json_elements (Suc n) s =
     (case json_element s of
        None \<Rightarrow> None
      | Some (v, r) \<Rightarrow>
        (case json_ws r of
           [] \<Rightarrow> None
         | c # r' \<Rightarrow>
             if c = CHR '']'' then Some ([v], r')
             else if c = CHR '','' then map_option (\<lambda>(vs, z). (v # vs, z)) (json_elements n r')
             else None))"

definition parse_json_values :: "string \<Rightarrow> string option list option" where
  "parse_json_values s =
     (case json_ws s of
        [] \<Rightarrow> None
      | c # r \<Rightarrow>
          if c \<noteq> CHR ''['' then None
          else if starts_with (json_ws r) '']'' then (if json_ws (drop 1 (json_ws r)) = [] then Some [] else None)
          else (case json_elements (length r) r of
              Some (vs, z) \<Rightarrow> if json_ws z = [] then Some vs else None
            | None \<Rightarrow> None))"

definition store_vary_meta :: "string list \<Rightarrow> headers \<Rightarrow> headers \<Rightarrow> headers" where
  "store_vary_meta fs req_headers h =
     (if fs = [] then h
      else hset ZL_VARY_VALUES (json_values_text (map (hget req_headers) fs))
        (hset ZL_VARY (join_with '','' fs) h))"

definition vary_matches :: "headers \<Rightarrow> headers \<Rightarrow> bool" where
  "vary_matches hit req_headers \<longleftrightarrow>
     (case truthy (hget hit ZL_VARY) of
        None \<Rightarrow> True
      | Some raw \<Rightarrow>
          let fs = field_list raw
          in (case parse_json_values (or_empty (hget hit ZL_VARY_VALUES)) of
                None \<Rightarrow> False
              | Some vs \<Rightarrow> length vs = length fs \<and> list_all2 (\<lambda>f v. hget req_headers f = v) fs vs))"

definition cache_storable :: "headers \<Rightarrow> bool" where
  "cache_storable h \<longleftrightarrow>
     (let cc = cache_control h
      in \<not> has_word cc ''no-store'' \<and> \<not> has_word cc ''private'' \<and> ''*'' \<notin> set (vary_fields h))"

section \<open>Ranges\<close>

definition ZL_RANGE_MAX :: int where "ZL_RANGE_MAX = 67108864"

datatype range_plan = Slice nat nat | Unsatisfiable | RangeBypass

text \<open>\<open>/^bytes=(\d*)-(\d*)$/\<close>\<close>

definition range_parts :: "string \<Rightarrow> (string \<times> string) option" where
  "range_parts s =
     (if starts_with s ''bytes='' then
        (let r = drop 6 s; first = takeWhile is_digit r; r' = drop (length first) r
         in if starts_with r' ''-'' \<and> list_all is_digit (drop 1 r') then Some (first, drop 1 r') else None)
      else None)"

definition plan_range :: "string \<Rightarrow> nat \<Rightarrow> range_plan" where
  "plan_range range_header len =
     (if CHR '','' \<in> set range_header then RangeBypass
      else case range_parts (js_trim range_header) of
          None \<Rightarrow> RangeBypass
        | Some (first, last_pos) \<Rightarrow>
            if first = [] \<and> last_pos = [] then RangeBypass
            else if first = [] \<and> digits_val last_pos = 0 then Unsatisfiable
            else
              let start = (if first = [] then int (len - digits_val last_pos) else int (digits_val first));
                  stop = (if first = [] \<or> last_pos = [] then int len - 1
                          else min (int (digits_val last_pos)) (int len - 1))
              in if int len \<le> start then Unsatisfiable
                 else if stop < start then RangeBypass
                 else Slice (nat start) (nat stop))"

definition if_range_accepts :: "string \<Rightarrow> string option \<Rightarrow> string option \<Rightarrow> bool" where
  "if_range_accepts if_range etag lm \<longleftrightarrow>
     (case truthy etag of
        Some e \<Rightarrow> \<not> starts_with if_range ''W/'' \<and> \<not> starts_with e ''W/'' \<and> if_range = e
      | None \<Rightarrow> False)
     \<or> (case truthy lm of Some l \<Rightarrow> if_range = l | None \<Rightarrow> False)"

definition announced_too_big :: "headers \<Rightarrow> bool" where
  "announced_too_big h \<longleftrightarrow>
     (case hget h ''content-length'' of
        None \<Rightarrow> False
      | Some v \<Rightarrow> (case parse_int v of Some n \<Rightarrow> ZL_RANGE_MAX < n | None \<Rightarrow> False))"

definition range_from_entry :: "cresp \<Rightarrow> string \<Rightarrow> cresp option" where
  "range_from_entry hit range_header =
     (let len = length (cp_body hit); h = strip_internal_headers (cp_headers hit)
      in if truthy (hget (cp_headers hit) ''content-encoding'') \<noteq> None then None
         else if announced_too_big (cp_headers hit) then None
         else if ZL_RANGE_MAX < int len then None
         else case plan_range range_header len of
             RangeBypass \<Rightarrow> None
           | Unsatisfiable \<Rightarrow>
               Some \<lparr>cp_status = 416,
                 cp_headers = hdel ''content-length'' (hset ''content-range'' (''bytes */'' @ nat_digits len) h), cp_body = []\<rparr>
           | Slice start stop \<Rightarrow>
               (let body = take (Suc stop - start) (drop start (cp_body hit))
                in Some \<lparr>cp_status = 206,
                  cp_headers = hset ''accept-ranges'' ''bytes'' (hset ''content-length'' (nat_digits (length body))
                    (hset ''content-range'' (''bytes '' @ nat_digits start @ ''-'' @ nat_digits stop @ ''/'' @ nat_digits len) h)),
                  cp_body = body\<rparr>))"

section \<open>Route queries\<close>

text \<open>\<open>new URLSearchParams(s)\<close>, its \<open>set\<close> and \<open>toString\<close>, on bytes.\<close>

fun form_bytes :: "string \<Rightarrow> byte list" where
  "form_bytes [] = []"
| "form_bytes (c # s) =
     (if c = CHR ''+'' then 32 # form_bytes s
      else if c = CHR ''%'' then
        (case s of
           h # l # s' \<Rightarrow>
             (case (hex_val h, hex_val l) of
                (Some x, Some y) \<Rightarrow> of_nat (16 * x + y) # form_bytes s'
              | _ \<Rightarrow> utf8_encode [c] @ form_bytes s)
         | _ \<Rightarrow> utf8_encode [c] @ form_bytes s)
      else utf8_encode [c] @ form_bytes s)"

type_synonym form = "(byte list \<times> byte list) list"

definition form_pair :: "string \<Rightarrow> byte list \<times> byte list" where
  "form_pair part =
     (let n = takeWhile (\<lambda>c. c \<noteq> CHR ''='') part
      in (form_bytes n, form_bytes (drop (Suc (length n)) part)))"

definition form_parse :: "string \<Rightarrow> form" where
  "form_parse s =
     map form_pair (filter (\<lambda>p. p \<noteq> []) (split_on (CHR ''&'') (if starts_with s ''?'' then drop 1 s else s)))"

definition form_set :: "byte list \<Rightarrow> byte list \<Rightarrow> form \<Rightarrow> form" where
  "form_set k v f =
     (if list_ex (\<lambda>(n, _). n = k) f
      then (let i = length (takeWhile (\<lambda>(n, _). n \<noteq> k) f)
            in take i f @ (k, v) # filter (\<lambda>(n, _). n \<noteq> k) (drop (Suc i) f))
      else f @ [(k, v)])"

definition form_byte_text :: "byte \<Rightarrow> string" where
  "form_byte_text b =
     (if b = 32 then ''+''
      else if is_word_char (char_of (unat b)) \<or> b \<in> {42, 45, 46} then [char_of (unat b)]
      else percent_byte b)"

definition form_text :: "form \<Rightarrow> string" where
  "form_text f =
     join_with ''&'' (map (\<lambda>(n, v). concat (map form_byte_text n) @ ''='' @ concat (map form_byte_text v)) f)"

definition merge_route_search :: "string \<Rightarrow> string \<Rightarrow> string" where
  "merge_route_search dest srch =
     (if srch = [] then dest
      else
        let search = (if starts_with srch ''?'' then srch else CHR ''?'' # srch)
        in case index_of dest (CHR ''?'') of
             None \<Rightarrow> dest @ search
           | Some qi \<Rightarrow>
               let inner = drop (Suc qi) dest
               in if inner = [] then take qi dest @ search
                  else
                    let inner_p = form_parse inner; outer = form_parse search
                    in if \<not> list_ex (\<lambda>(k, _). list_ex (\<lambda>(n, _). n = k) inner_p) outer
                       then dest @ ''&'' @ drop 1 search
                       else take qi dest @ ''?'' @ form_text (fold (\<lambda>(k, v). form_set k v) outer inner_p))"

section \<open>The decision on a stored entry\<close>

definition is_worker_destination :: "string \<Rightarrow> bool" where
  "is_worker_destination d \<longleftrightarrow> d = ''worker'' \<or> d = ''sharedworker''"

definition cache_refresh_skips_entry :: "creq \<Rightarrow> cresp \<Rightarrow> bool" where
  "cache_refresh_skips_entry req hit \<longleftrightarrow>
     is_worker_destination (cq_destination req)
     \<or> cq_destination req \<in> set JS_TRANSFORM_DESTS \<and> is_js (cp_headers hit)"

text \<open>A conditional fetch of a stored entry: its validators and the URL it goes to, if recorded.\<close>

record refresh_request =
  rr_etag :: "string option"
  rr_last_modified :: "string option"
  rr_dest :: "string option"

definition refresh_of :: "cresp \<Rightarrow> refresh_request" where
  "refresh_of hit =
     \<lparr>rr_etag = hget (cp_headers hit) ''etag'', rr_last_modified = hget (cp_headers hit) ''last-modified'',
      rr_dest = hget (cp_headers hit) ZL_FINAL_URL\<rparr>"

datatype background = NoRefresh | DropEntry | RefreshEntry refresh_request

datatype answer =
  Bypass
  | DropThenBypass
  | RevalidateFirst refresh_request
  | Serve cresp

definition stored_at :: "headers \<Rightarrow> int" where
  "stored_at h = (case hget h ZL_CACHED_AT of Some v \<Rightarrow> (case parse_int v of Some n \<Rightarrow> n | None \<Rightarrow> 0) | None \<Rightarrow> 0)"

definition range_answer :: "creq \<Rightarrow> cresp \<Rightarrow> string \<Rightarrow> answer" where
  "range_answer req hit range_header =
     (let h = cp_headers hit
      in if is_html h \<or> is_css h \<or> is_js h then Bypass
         else if (case truthy (hget (cq_headers req) ''if-range'') of
             Some ir \<Rightarrow> \<not> if_range_accepts ir (hget h ''etag'') (hget h ''last-modified'') | None \<Rightarrow> False)
         then Bypass
         else case range_from_entry hit range_header of Some r \<Rightarrow> Serve r | None \<Rightarrow> Bypass)"

definition page_cache_decision :: "int \<Rightarrow> creq \<Rightarrow> cresp \<Rightarrow> background \<times> answer" where
  "page_cache_decision now req hit =
     (let h = cp_headers hit; cc = cache_control h; range = truthy (hget (cq_headers req) ''range'')
      in if \<not> vary_matches h (cq_headers req) then (NoRefresh, Bypass)
         else if has_word cc ''no-store'' then (NoRefresh, Bypass)
         else if has_word cc ''no-cache'' then
           (if range \<noteq> None then (NoRefresh, Bypass)
            else if cache_refresh_skips_entry req hit then (NoRefresh, DropThenBypass)
            else (NoRefresh, RevalidateFirst (refresh_of hit)))
         else if cache_ttl h = 0 then (NoRefresh, Bypass)
         else
           (if cache_ttl h \<le> now - stored_at h
            then (if cache_refresh_skips_entry req hit then DropEntry else RefreshEntry (refresh_of hit)) else NoRefresh,
            case range of Some r \<Rightarrow> range_answer req hit r | None \<Rightarrow> Serve hit))"

text \<open>Whether the request would carry the credentials of a profile: then the shared cache is left alone.\<close>

definition request_has_credentials ::
  "platform \<Rightarrow> int \<Rightarrow> headers \<Rightarrow> string \<Rightarrow> string option \<Rightarrow> jar_state \<Rightarrow> bool" where
  "request_has_credentials pf now req_headers dest client jar \<longleftrightarrow>
     truthy client \<noteq> None \<and> jar_profile_state client jar \<noteq> ''default''
     \<or> hget req_headers ''authorization'' \<noteq> None
     \<or> truthy (fst (cookie_header_for pf now dest (Some \<lparr>rc_initiator = None, rc_navigation = False, rc_client = client\<rparr>) jar)) \<noteq> None"

text \<open>The destination a stored request stands for.\<close>

definition cached_destination :: "codec \<Rightarrow> url \<Rightarrow> string" where
  "cached_destination c u =
     (case (case decode_path c (url_pathname u) of Some r \<Rightarrow> Some r | None \<Rightarrow> recover_path c (url_pathname u)) of
        Some route \<Rightarrow> merge_route_search route (url_search u)
      | None \<Rightarrow> url_href u)"

definition surface_not_modified :: "headers \<Rightarrow> cresp" where
  "surface_not_modified h =
     \<lparr>cp_status = 200, cp_headers = hset ''x-zl-not-modified'' ''1'' (strip_internal_headers h), cp_body = []\<rparr>"

definition cache_rewrite_base :: "cresp \<Rightarrow> string \<Rightarrow> string" where
  "cache_rewrite_base hit target = (case hget (cp_headers hit) ZL_FINAL_URL of Some u \<Rightarrow> u | None \<Rightarrow> target)"

section \<open>The Vary snapshot\<close>

lemma is_js_space_lower [simp]: "is_js_space (lower_char c) = is_js_space c"
proof -
  have "char_code (char_of (char_code c + 32)) = char_code c + 32" if "char_code c \<le> 222"
    using that by (simp add: of_char_of)
  then show ?thesis by (auto simp: lower_char_def is_js_space_def)
qed

lemma lower_char_code:
  "char_code (lower_char c) =
     (if (65 \<le> char_code c \<and> char_code c \<le> 90) \<or> (192 \<le> char_code c \<and> char_code c \<le> 222 \<and> char_code c \<noteq> 215)
      then char_code c + 32 else char_code c)"
  by (auto simp: lower_char_def of_char_of)

lemma js_trim_lower: "js_trim (js_lower s) = js_lower (js_trim s)"
  by (simp add: js_trim_def js_lower_def rev_map dropWhile_map comp_def)

lemma js_trim_idem [simp]: "js_trim (js_trim s) = js_trim s"
proof -
  have idem: "dropWhile P (rev (dropWhile P (rev (dropWhile P xs)))) = rev (dropWhile P (rev (dropWhile P xs)))"
    for P :: "char \<Rightarrow> bool" and xs
  proof (cases "dropWhile P xs")
    case Nil
    show ?thesis unfolding Nil by simp
  next
    case (Cons y ys)
    then have "\<not> P y" by (metis hd_dropWhile list.sel(1) list.distinct(1))
    moreover obtain zs where "dropWhile P (rev (y # ys)) = zs @ [y]"
      using \<open>\<not> P y\<close> by (cases "Ball (set ys) P") (simp_all add: dropWhile_append)
    ultimately have "rev (dropWhile P (rev (y # ys))) = y # rev zs" by simp
    with Cons \<open>\<not> P y\<close> show ?thesis by simp
  qed
  show ?thesis by (simp add: js_trim_def idem)
qed

lemma field_list_clean:
  "f \<in> set (field_list s) \<Longrightarrow> f \<noteq> [] \<and> js_lower f = f \<and> js_trim f = f \<and> CHR '','' \<notin> set f"
proof -
  assume "f \<in> set (field_list s)"
  then obtain w where w: "w \<in> set (split_on (CHR '','') s)" "f = js_lower (js_trim w)" "f \<noteq> []"
    by (auto simp: field_list_def)
  have "CHR '','' \<notin> set (js_trim w)" using split_on_no_sep [OF w(1)] set_js_trim by blast
  moreover have "lower_char c = CHR '','' \<Longrightarrow> c = CHR '',''" for c
    using lower_char_code [of c] by (auto simp: lower_char_def split: if_splits)
  ultimately have "CHR '','' \<notin> set f" unfolding w(2) js_lower_def by (metis (no_types) image_iff list.set_map)
  then show ?thesis using w by (simp add: js_trim_lower)
qed

lemma field_list_join:
  assumes "\<forall>f \<in> set fs. f \<noteq> [] \<and> js_lower f = f \<and> js_trim f = f \<and> CHR '','' \<notin> set f" "fs \<noteq> []"
  shows "field_list (join_with '','' fs) = fs"
proof -
  have "split_on (CHR '','') (join_with '','' fs) = fs"
    using assms by (intro split_on_join_with) auto
  moreover have "map (\<lambda>f. js_lower (js_trim f)) fs = fs" using assms(1) by (simp add: map_idI)
  moreover have "filter (\<lambda>f. f \<noteq> []) fs = fs" using assms(1) by simp
  ultimately show ?thesis by (simp add: field_list_def)
qed

section \<open>The values of the snapshot\<close>

lemma hex_val_lower: "n < 16 \<Longrightarrow> hex_val (''0123456789abcdef'' ! n) = Some n"
proof -
  have "list_all (\<lambda>n. hex_val (''0123456789abcdef'' ! n) = Some n) [0..<16]" by code_simp
  then show "n < 16 \<Longrightarrow> hex_val (''0123456789abcdef'' ! n) = Some n" by (simp add: list_all_iff del: upt_Suc)
qed

lemma hex_lower_val:
  assumes "n < 256"
  shows "\<exists>h l x y. hex_lower (of_nat n) = [h, l] \<and> hex_val h = Some x \<and> hex_val l = Some y \<and> 16 * x + y = n"
proof -
  have n: "unat (of_nat n :: byte) = n" using assms by (simp add: unat_of_nat)
  show ?thesis
    unfolding hex_lower_def n using assms hex_val_lower [of "n div 16"] hex_val_lower [of "n mod 16"] by auto
qed

lemma json_chars_escape: "json_chars (json_escape c @ r) = map_option (\<lambda>(t, z). (c # t, z)) (json_chars r)"
proof -
  let ?named = "{QUOTE, CHR 0x5C, CHR 0x08, CHR 0x09, CHR 0x0A, CHR 0x0C, CHR 0x0D}"
  show ?thesis
  proof (cases "c \<in> ?named")
    case True
    then show ?thesis by (auto simp: json_escape_def json_unescape_def QUOTE_def)
  next
    case plain: False
    show ?thesis
    proof (cases "char_code c < 32")
      case True
      then have esc: "json_escape c = [CHR 0x5C, CHR ''u'', CHR ''0'', CHR ''0''] @ hex_lower (of_nat (char_code c))"
        using plain by (simp add: json_escape_def)
      obtain h l x y where hl: "hex_lower (of_nat (char_code c)) = [h, l]" "hex_val h = Some x" "hex_val l = Some y"
        "16 * x + y = char_code c"
        using hex_lower_val [of "char_code c"] True by auto
      have "hex_val (CHR ''0'') = Some 0" by code_simp
      moreover have "char_of (16 * x + y) = c" unfolding hl(4) by simp
      ultimately show ?thesis using hl by (simp add: esc QUOTE_def)
    next
      case False
      then have "json_escape c = [c]" using plain by (simp add: json_escape_def)
      then show ?thesis using plain False by simp
    qed
  qed
qed

lemma json_chars_quoted: "json_chars (concat (map json_escape s) @ QUOTE # r) = Some (s, r)"
  by (induction s) (simp_all add: json_chars_escape)

lemma json_element_text: "json_element (json_value_text v @ r) = Some (v, r)"
proof (cases v)
  case None
  have "json_ws (''null'' @ r) = ''null'' @ r" by (simp add: json_ws_def)
  then show ?thesis using None by (simp add: json_element_def json_value_text_def QUOTE_def)
next
  case (Some s)
  have "json_ws (QUOTE # x) = QUOTE # x" for x by (simp add: json_ws_def QUOTE_def)
  then show ?thesis
    using Some json_chars_quoted [of s r] by (simp add: json_element_def json_value_text_def)
qed

lemma json_elements_text:
  "vs \<noteq> [] \<Longrightarrow> length vs \<le> n \<Longrightarrow>
   json_elements n (join_with '','' (map json_value_text vs) @ '']'' @ r) = Some (vs, r)"
proof (induction vs arbitrary: n)
  case (Cons v vs)
  then obtain m where n: "n = Suc m" by (cases n) auto
  have ws: "json_ws (CHR '']'' # x) = CHR '']'' # x" "json_ws (CHR '','' # x) = CHR '','' # x" for x
    by (simp_all add: json_ws_def)
  show ?case
  proof (cases vs)
    case Nil
    then show ?thesis by (simp add: n json_element_text ws)
  next
    case (Cons w ws')
    then have "json_elements m (join_with '','' (map json_value_text vs) @ '']'' @ r) = Some (vs, r)"
      using Cons.IH [of m] Cons.prems n by simp
    then show ?thesis using Cons by (simp add: n json_element_text ws)
  qed
qed simp

lemma json_value_text_length: "1 \<le> length (json_value_text v)"
  by (simp add: json_value_text_def split: option.splits)

lemma length_join_values: "length vs \<le> length (join_with '','' (map json_value_text vs))"
proof (induction vs)
  case (Cons v vs)
  then show ?case using json_value_text_length [of v] by (cases vs) auto
qed simp

lemma parse_json_values_text [simp]: "parse_json_values (json_values_text vs) = Some vs"
proof (cases vs)
  case Nil
  show ?thesis unfolding Nil by code_simp
next
  case (Cons v ws)
  have start: "json_ws (json_value_text v @ x) = json_value_text v @ x \<and> \<not> starts_with (json_value_text v @ x) '']''" for x
    by (simp add: json_value_text_def json_ws_def QUOTE_def split: option.splits)
  obtain x where x: "join_with '','' (map json_value_text vs) = json_value_text v @ x"
    unfolding Cons by (cases ws) auto
  have "json_elements (length (join_with '','' (map json_value_text vs) @ '']''))
      (join_with '','' (map json_value_text vs) @ '']'' @ []) = Some (vs, [])"
    using length_join_values [of vs] Cons by (intro json_elements_text) auto
  then show ?thesis
    using start [of "x @ '']''"] by (simp add: parse_json_values_def json_values_text_def x json_ws_def)
qed

section \<open>Properties\<close>

lemma internal_names: "js_lower ZL_VARY = ZL_VARY" "js_lower ZL_VARY_VALUES = ZL_VARY_VALUES" "ZL_VARY \<noteq> ZL_VARY_VALUES"
  by code_simp+

lemma vary_fields_clean:
  "\<forall>f \<in> set (vary_fields h). f \<noteq> [] \<and> js_lower f = f \<and> js_trim f = f \<and> CHR '','' \<notin> set f"
  using field_list_clean by (auto simp: vary_fields_def)

text \<open>A stored variant answers exactly the requests with the header values it was selected with.\<close>

theorem vary_snapshot_exact:
  assumes "vary_fields resp_headers \<noteq> []"
  shows "vary_matches (store_vary_meta (vary_fields resp_headers) req h) req' \<longleftrightarrow>
    (\<forall>f \<in> set (vary_fields resp_headers). hget req' f = hget req f)"
proof -
  let ?fs = "vary_fields resp_headers"
  obtain f fs where fs: "?fs = f # fs" using assms by (cases ?fs) auto
  have "f \<noteq> []" using vary_fields_clean [of resp_headers] fs by simp
  then have raw: "join_with '','' ?fs \<noteq> []" using fs by (cases fs) auto
  have fields: "field_list (join_with '','' ?fs) = ?fs"
    using vary_fields_clean assms by (rule field_list_join)
  have "list_all2 (\<lambda>f v. hget req' f = v) ?fs (map (hget req) ?fs) \<longleftrightarrow> (\<forall>f \<in> set ?fs. hget req' f = hget req f)"
    by (simp add: list_all2_map2 list_all2_same)
  then show ?thesis
    using assms raw internal_names
    by (simp add: vary_matches_def store_vary_meta_def truthy_def or_empty_def fields)
qed

theorem vary_snapshot_exact_witness:
  "vary_fields [(''vary'', '' Accept , X-A'')] = [''accept'', ''x-a'']
   \<and> vary_matches (store_vary_meta (vary_fields [(''vary'', '' Accept , X-A'')]) [(''accept'', [CHR 0x22, CHR 0x5C])] [])
        [(''accept'', [CHR 0x22, CHR 0x5C])]
   \<and> \<not> vary_matches (store_vary_meta (vary_fields [(''vary'', '' Accept , X-A'')]) [(''accept'', [CHR 0x22, CHR 0x5C])] [])
        [(''accept'', [CHR 0x22, CHR 0x5C]), (''x-a'', [])]"
proof -
  have fields: "vary_fields [(''vary'', '' Accept , X-A'')] = [''accept'', ''x-a'']" by code_simp
  then have ne: "vary_fields [(''vary'', '' Accept , X-A'')] \<noteq> []" by simp
  have same: "\<forall>f \<in> set (vary_fields [(''vary'', '' Accept , X-A'')]).
      hget [(''accept'', [CHR 0x22, CHR 0x5C])] f = hget [(''accept'', [CHR 0x22, CHR 0x5C])] f" by simp
  have other: "\<not> (\<forall>f \<in> set (vary_fields [(''vary'', '' Accept , X-A'')]).
      hget [(''accept'', [CHR 0x22, CHR 0x5C]), (''x-a'', [])] f = hget [(''accept'', [CHR 0x22, CHR 0x5C])] f)" by code_simp
  show ?thesis
    by (intro conjI fields, unfold vary_snapshot_exact [OF ne]) (rule same, rule other)
qed

lemma plan_range_Slice: "plan_range r len = Slice a b \<Longrightarrow> a \<le> b \<and> b < len"
  by (auto simp: plan_range_def Let_def min_def split: if_splits option.splits)

lemma take_drop_slice: "b < length xs \<Longrightarrow> a \<le> b \<Longrightarrow> take (Suc b - a) (drop a xs) = map ((!) xs) [a..<Suc b]"
  by (rule nth_equalityI) (auto simp del: upt_Suc)

text \<open>A partial response from the cache is the requested slice of the stored body.\<close>

theorem range_slice_exact:
  assumes "range_from_entry hit r = Some p"
  shows "(case plan_range r (length (cp_body hit)) of
      Slice a b \<Rightarrow> a \<le> b \<and> b < length (cp_body hit) \<and> cp_status p = 206
        \<and> cp_body p = map ((!) (cp_body hit)) [a..<Suc b]
        \<and> hget (cp_headers p) ''content-length'' = Some (nat_digits (Suc b - a))
    | Unsatisfiable \<Rightarrow> cp_status p = 416 \<and> cp_body p = []
    | RangeBypass \<Rightarrow> False)
    \<and> hget (cp_headers p) ZL_FINAL_URL = None \<and> hget (cp_headers p) ZL_VARY_VALUES = None"
proof -
  have names: "js_lower ''accept-ranges'' = ''accept-ranges''" "js_lower ''content-length'' = ''content-length''"
    "js_lower ''content-range'' = ''content-range''" "js_lower ZL_FINAL_URL = ZL_FINAL_URL" "js_lower ZL_PAGE_BYTES = ZL_PAGE_BYTES"
    "js_lower ZL_CACHED_AT = ZL_CACHED_AT" by code_simp+
  have apart: "ZL_FINAL_URL \<notin> {''accept-ranges'', ''content-length'', ''content-range''}"
    "ZL_VARY_VALUES \<notin> {''accept-ranges'', ''content-length'', ''content-range''}" by code_simp+
  show ?thesis
  proof (cases "plan_range r (length (cp_body hit))")
    case (Slice a b)
    then have ab: "a \<le> b" "b < length (cp_body hit)" using plan_range_Slice by blast+
    then have "length (take (Suc b - a) (drop a (cp_body hit))) = Suc b - a" by simp
    with Slice ab show ?thesis
      using assms apart internal_names names
      by (auto simp: range_from_entry_def Let_def strip_internal_headers_def take_drop_slice simp del: upt_Suc length_take split: if_splits)
  next
    case Unsatisfiable
    then show ?thesis
      using assms apart internal_names names
      by (auto simp: range_from_entry_def Let_def strip_internal_headers_def split: if_splits)
  qed (use assms in \<open>auto simp: range_from_entry_def Let_def split: if_splits\<close>)
qed

definition stored_page :: cresp where
  "stored_page = \<lparr>cp_status = 200, cp_headers = [(ZL_FINAL_URL, ''http://b/'')], cp_body = [10, 11, 12, 13]\<rparr>"

theorem range_slice_exact_witness:
  "\<exists>p. range_from_entry stored_page ''bytes=1-2'' = Some p \<and> cp_status p = 206 \<and> cp_body p = [11, 12]
     \<and> hget (cp_headers p) ZL_FINAL_URL = None"
proof -
  obtain p where p: "p = the (range_from_entry stored_page ''bytes=1-2'')" by blast
  have run: "range_from_entry stored_page ''bytes=1-2'' = Some p" unfolding p by code_simp
  have "cp_status p = 206" "cp_body p = [11, 12]" unfolding p by code_simp+
  moreover have "hget (cp_headers p) ZL_FINAL_URL = None" using range_slice_exact [OF run] by simp
  ultimately show ?thesis using run by (intro exI [of _ p] conjI)
qed

text \<open>What is served from the cache matches the request's variant and is allowed to be served.\<close>

lemma range_answer_Serve: "range_answer req hit r = Serve p \<Longrightarrow> range_from_entry hit r = Some p"
  unfolding range_answer_def Let_def by (auto split: if_splits option.splits)

lemma served_is_allowed:
  assumes served: "page_cache_decision now req hit = (bg, Serve p)"
  shows "vary_matches (cp_headers hit) (cq_headers req)"
    "\<not> has_word (cache_control (cp_headers hit)) ''no-store''" "\<not> has_word (cache_control (cp_headers hit)) ''no-cache''"
    "bg = NoRefresh \<longleftrightarrow> now - stored_at (cp_headers hit) < cache_ttl (cp_headers hit)"
    "p = hit \<or> (\<exists>r. range_from_entry hit r = Some p)"
proof -
  note unfolded = served [unfolded page_cache_decision_def Let_def]
  show vary: "vary_matches (cp_headers hit) (cq_headers req)"
    by (rule ccontr) (use unfolded in simp)
  show store: "\<not> has_word (cache_control (cp_headers hit)) ''no-store''"
    using unfolded vary by (simp split: if_splits)
  show cached: "\<not> has_word (cache_control (cp_headers hit)) ''no-cache''"
    using unfolded vary store by (simp split: if_splits)
  have "cache_ttl (cp_headers hit) \<noteq> 0"
    using unfolded vary store cached by (simp split: if_splits)
  then have answer: "(if cache_ttl (cp_headers hit) \<le> now - stored_at (cp_headers hit)
        then (if cache_refresh_skips_entry req hit then DropEntry else RefreshEntry (refresh_of hit)) else NoRefresh) = bg"
    "(case truthy (hget (cq_headers req) ''range'') of Some r \<Rightarrow> range_answer req hit r | None \<Rightarrow> Serve hit) = Serve p"
    using unfolded vary store cached by simp_all
  show "bg = NoRefresh \<longleftrightarrow> now - stored_at (cp_headers hit) < cache_ttl (cp_headers hit)"
    using answer(1) by (auto split: if_splits)
  show "p = hit \<or> (\<exists>r. range_from_entry hit r = Some p)"
    using answer(2) by (auto dest: range_answer_Serve split: option.splits)
qed

end
