(* ===== verification/PageCache.thy ===== *)
theory PageCache
  imports CachePolicy
begin

text \<open>
  The page cache of \<open>src/app/src/request.ts\<close>: the stored entries, their usage records, the byte
  reservations of running stores and the eviction loop. The platform's \<open>Cache\<close> is a list of
  request and response pairs in insertion order; an operation on a request concerns the entries of
  the same URL whose Vary fields have the same values. The key of the usage map is the triple that
  the source turns into a JSON string. The operations are cut at their awaits into steps that interleave: a
  store into its checks, the steps of its reservation, the write of the entry with the memory record that
  follows its resolution, and the release; touches, deletions and clears, which share the lock of the
  reservations, into theirs; a revalidation into its match and its put. Which storage operations fail
  is an argument.
\<close>

section \<open>State\<close>

type_synonym cache_identity = "string \<times> string list \<times> string option list"
type_synonym cache_entry = "creq \<times> cresp"

record cache_usage =
  us_bytes :: int
  us_last :: int

text \<open>A store between its reservation and its release; \<open>ps_done\<close> once its entry is written.\<close>

record pending_store =
  ps_req :: creq
  ps_headers :: headers
  ps_fields :: "string list"
  ps_reserve :: int
  ps_done :: bool

record page_cache =
  pc_entries :: "cache_entry list"
  pc_index :: "(creq \<times> string list \<times> json) list option"
  pc_usage :: "(cache_identity, cache_usage) omap"
  pc_reserved :: int
  pc_disabled :: bool
  pc_trim_warned :: bool
  pc_store_warned :: bool
  pc_pending :: "pending_store list"

text \<open>Which storage operations succeed.\<close>

record storage_io =
  io_delete :: "creq \<Rightarrow> bool"
  io_put :: bool
  io_index :: bool

definition empty_cache :: "bool \<Rightarrow> page_cache" where
  "empty_cache has_index =
     \<lparr>pc_entries = [], pc_index = (if has_index then Some [] else None), pc_usage = [], pc_reserved = 0,
      pc_disabled = False, pc_trim_warned = False, pc_store_warned = False, pc_pending = []\<rparr>"

section \<open>The platform's cache\<close>

definition request_matches :: "creq \<Rightarrow> creq \<Rightarrow> string list \<Rightarrow> bool" where
  "request_matches req stored fs \<longleftrightarrow>
     cq_url req = cq_url stored \<and> list_all (\<lambda>f. hget (cq_headers req) f = hget (cq_headers stored) f) fs"

definition entry_matches :: "creq \<Rightarrow> cache_entry \<Rightarrow> bool" where
  "entry_matches req e \<longleftrightarrow> request_matches req (fst e) (vary_fields (cp_headers (snd e)))"

definition cache_match :: "creq \<Rightarrow> cache_entry list \<Rightarrow> cresp option" where
  "cache_match req es = map_option snd (find (entry_matches req) es)"

definition cache_put :: "creq \<Rightarrow> cresp \<Rightarrow> cache_entry list \<Rightarrow> cache_entry list" where
  "cache_put req resp es = filter (\<lambda>e. \<not> entry_matches req e) es @ [(req, resp)]"

section \<open>Usage records\<close>

definition page_cache_identity :: "creq \<Rightarrow> string list \<Rightarrow> cache_identity" where
  "page_cache_identity req fs = (cq_url req, fs, map (hget (cq_headers req)) fs)"

definition usage_json :: "cache_usage \<Rightarrow> json" where
  "usage_json u = JObj [(''bytes'', JNum (us_bytes u)), (''lastUsed'', JNum (us_last u))]"

definition valid_page_cache_usage :: "json \<Rightarrow> cache_usage option" where
  "valid_page_cache_usage j =
     (case (jget j ''bytes'', jget j ''lastUsed'') of
        (Some (JNum b), Some (JNum t)) \<Rightarrow>
          if 0 \<le> b \<and> b \<le> ZL_PAGE_STORE_MAX \<and> 0 \<le> t then Some \<lparr>us_bytes = b, us_last = t\<rparr> else None
      | _ \<Rightarrow> None)"

definition index_put :: "storage_io \<Rightarrow> creq \<Rightarrow> string list \<Rightarrow> cache_usage \<Rightarrow> page_cache \<Rightarrow> page_cache" where
  "index_put io req fs u st =
     (case pc_index st of
        Some ix \<Rightarrow>
          if io_index io
          then st\<lparr>pc_index := Some (filter (\<lambda>(q, gs, _). \<not> request_matches req q gs) ix @ [(req, fs, usage_json u)])\<rparr>
          else st
      | None \<Rightarrow> st)"

definition write_page_cache_usage :: "storage_io \<Rightarrow> creq \<Rightarrow> string list \<Rightarrow> cache_usage \<Rightarrow> page_cache \<Rightarrow> page_cache" where
  "write_page_cache_usage io req fs u st =
     index_put io req fs u (st\<lparr>pc_usage := AList.update (page_cache_identity req fs) u (pc_usage st)\<rparr>)"

definition index_usage :: "storage_io \<Rightarrow> creq \<Rightarrow> page_cache \<Rightarrow> cache_usage option" where
  "index_usage io req st =
     (case pc_index st of
        Some ix \<Rightarrow>
          if io_index io
          then (case find (\<lambda>(q, gs, _). request_matches req q gs) ix of
                  Some (_, _, j) \<Rightarrow> valid_page_cache_usage j | None \<Rightarrow> None)
          else None
      | None \<Rightarrow> None)"

definition declared_bytes :: "string \<Rightarrow> int option" where
  "declared_bytes v = (if v \<noteq> [] \<and> list_all is_digit v then Some (int (digits_val v)) else None)"

definition estimated_usage :: "headers \<Rightarrow> cache_usage" where
  "estimated_usage h =
     (let raw = (case hget h ZL_PAGE_BYTES of Some v \<Rightarrow> Some v | None \<Rightarrow> hget h ''content-length'');
          declared = (case raw of Some v \<Rightarrow> declared_bytes v | None \<Rightarrow> None); at = stored_at h
      in \<lparr>us_bytes = (case declared of Some n \<Rightarrow> if n \<le> ZL_PAGE_STORE_MAX then n else ZL_PAGE_STORE_MAX
            | None \<Rightarrow> ZL_PAGE_STORE_MAX),
          us_last = (if 0 < at then at else 0)\<rparr>)"

definition page_cache_usage_for ::
  "storage_io \<Rightarrow> creq \<Rightarrow> cresp option \<Rightarrow> page_cache \<Rightarrow> (cache_identity \<times> string list \<times> cache_usage) \<times> page_cache" where
  "page_cache_usage_for io req known st =
     (let h = (case known of
            Some p \<Rightarrow> cp_headers p
          | None \<Rightarrow> (case cache_match req (pc_entries st) of Some p \<Rightarrow> cp_headers p | None \<Rightarrow> []));
          fs = stored_vary_fields h; ident = page_cache_identity req fs
      in case map_of (pc_usage st) ident of
           Some u \<Rightarrow> ((ident, fs, u), st)
         | None \<Rightarrow>
           (case index_usage io req st of
              Some u \<Rightarrow> ((ident, fs, u), st\<lparr>pc_usage := AList.update ident u (pc_usage st)\<rparr>)
            | None \<Rightarrow> ((ident, fs, estimated_usage h), write_page_cache_usage io req fs (estimated_usage h) st)))"

section \<open>Deletion and eviction\<close>

definition disable_after_eviction_failure :: "page_cache \<Rightarrow> page_cache" where
  "disable_after_eviction_failure st = st\<lparr>pc_disabled := True, pc_trim_warned := True\<rparr>"

text \<open>Deleting an entry: first the entry, then its metadata and its usage record; a step that fails disables the cache.\<close>

definition drop_entry :: "storage_io \<Rightarrow> creq \<Rightarrow> page_cache \<Rightarrow> bool \<times> page_cache" where
  "drop_entry io req st =
     (if \<not> io_delete io req \<or> \<not> list_ex (entry_matches req) (pc_entries st)
      then (False, disable_after_eviction_failure st)
      else (True, st\<lparr>pc_entries := filter (\<lambda>e. \<not> entry_matches req e) (pc_entries st)\<rparr>))"

definition forget_entry :: "storage_io \<Rightarrow> creq \<Rightarrow> cache_identity \<Rightarrow> page_cache \<Rightarrow> bool \<times> page_cache" where
  "forget_entry io req ident st =
     (case pc_index st of
        Some ix \<Rightarrow>
          if \<not> io_index io then (False, disable_after_eviction_failure st)
          else (True, st\<lparr>pc_index := Some (filter (\<lambda>(q, gs, _). \<not> request_matches req q gs) ix),
                    pc_usage := AList.delete ident (pc_usage st)\<rparr>)
      | None \<Rightarrow> (True, st\<lparr>pc_usage := AList.delete ident (pc_usage st)\<rparr>))"

record cache_row =
  row_key :: creq
  row_identity :: cache_identity
  row_usage :: cache_usage

text \<open>\<open>rows.sort(...)\<close>: the oldest use first, ties by the locale order of the URLs (an argument).\<close>

definition row_before :: "(string \<Rightarrow> string \<Rightarrow> bool) \<Rightarrow> cache_row \<Rightarrow> cache_row \<Rightarrow> bool" where
  "row_before loc a b \<longleftrightarrow>
     us_last (row_usage a) < us_last (row_usage b)
     \<or> us_last (row_usage a) = us_last (row_usage b) \<and> loc (cq_url (row_key a)) (cq_url (row_key b))"

fun insert_row :: "(string \<Rightarrow> string \<Rightarrow> bool) \<Rightarrow> cache_row \<Rightarrow> cache_row list \<Rightarrow> cache_row list" where
  "insert_row loc r [] = [r]"
| "insert_row loc r (x # xs) = (if row_before loc r x then r # x # xs else x # insert_row loc r xs)"

definition sort_rows :: "(string \<Rightarrow> string \<Rightarrow> bool) \<Rightarrow> cache_row list \<Rightarrow> cache_row list" where
  "sort_rows loc rows = fold (insert_row loc) rows []"

section \<open>Storing\<close>

text \<open>What a store takes from the rest of the engine.\<close>

record store_env =
  se_platform :: platform
  se_codec :: codec
  se_origin :: string
  se_client :: "string option"
  se_jar :: jar_state

definition declared_length :: "headers \<Rightarrow> int option" where
  "declared_length h = (case hget h ''content-length'' of Some v \<Rightarrow> declared_bytes v | None \<Rightarrow> None)"

definition stored_headers :: "store_env \<Rightarrow> creq \<Rightarrow> url \<Rightarrow> headers \<Rightarrow> headers" where
  "stored_headers env req u h =
     store_vary_meta (vary_fields h) (cq_headers req)
       (page_view (se_platform env) (se_codec env) (se_origin env) (cq_credentials req)
         (case decode_path (se_codec env) (url_pathname u) of
            Some r \<Rightarrow> merge_route_search r (url_search u) | None \<Rightarrow> url_href u) h)"

text \<open>A store that asks for its bytes; \<open>rv_keys\<close> are the keys whose usage it still has to read.\<close>

record reservation =
  rv_req :: creq
  rv_headers :: headers
  rv_fields :: "string list"
  rv_bytes :: int
  rv_keys :: "creq list"
  rv_rows :: "cache_row list"

definition store_open :: "store_env \<Rightarrow> int \<Rightarrow> creq \<Rightarrow> nat \<Rightarrow> headers \<Rightarrow> page_cache \<Rightarrow> reservation option" where
  "store_open env now req status h st =
     (if pc_disabled st \<or> \<not> cache_storable h \<or> status \<noteq> 200 then None
      else case new_url (se_platform env) (cq_url req) of
          None \<Rightarrow> None
        | Some u \<Rightarrow>
          if request_has_credentials (se_platform env) now (cq_headers req) (cached_destination (se_codec env) u)
               (se_client env) (se_jar env) then None
          else
            let declared = declared_length h
            in if (case declared of Some n \<Rightarrow> ZL_PAGE_STORE_MAX < n | None \<Rightarrow> False) then None
               else Some \<lparr>rv_req = req, rv_headers = stored_headers env req u h, rv_fields = vary_fields h,
                       rv_bytes = (case declared of Some n \<Rightarrow> n | None \<Rightarrow> ZL_PAGE_STORE_MAX),
                       rv_keys = [], rv_rows = []\<rparr>)"

text \<open>The \<open>finally\<close> of a store.\<close>

definition release_store :: "nat \<Rightarrow> page_cache \<Rightarrow> page_cache" where
  "release_store i st =
     st\<lparr>pc_reserved := max 0 (pc_reserved st - ps_reserve (pc_pending st ! i)),
        pc_pending := take i (pc_pending st) @ drop (Suc i) (pc_pending st)\<rparr>"

definition stored_response :: "int \<Rightarrow> string option \<Rightarrow> pending_store \<Rightarrow> byte list \<Rightarrow> cresp" where
  "stored_response now final_url p body =
     (let h = hset ZL_PAGE_BYTES (nat_digits (nat (ps_reserve p))) (hset ZL_CACHED_AT (int_string now) (ps_headers p))
      in \<lparr>cp_status = 200,
          cp_headers = (case truthy final_url of Some u \<Rightarrow> hset ZL_FINAL_URL u h | None \<Rightarrow> h), cp_body = body\<rparr>)"

text \<open>The metered write: a body over its budget or a failing storage releases the reservation at once.\<close>

definition store_put :: "storage_io \<Rightarrow> int \<Rightarrow> string option \<Rightarrow> byte list \<Rightarrow> nat \<Rightarrow> page_cache \<Rightarrow> page_cache" where
  "store_put io now final_url body i st =
     (let p = pc_pending st ! i
      in if ZL_PAGE_STORE_MAX < int (length body) \<or> ps_reserve p < int (length body) then release_store i st
         else if \<not> io_put io then release_store i (st\<lparr>pc_store_warned := True\<rparr>)
         else
           write_page_cache_usage io (ps_req p) (ps_fields p) \<lparr>us_bytes = int (length body), us_last = now\<rparr>
             (st\<lparr>pc_entries := cache_put (ps_req p) (stored_response now final_url p body) (pc_entries st),
                 pc_pending := (pc_pending st)[i := p\<lparr>ps_done := True\<rparr>]\<rparr>))"

text \<open>A 304 keeps the body, takes over new validators and moves the time stamp.\<close>

definition bumped_response :: "int \<Rightarrow> headers \<Rightarrow> cresp \<Rightarrow> cresp" where
  "bumped_response now h304 cur =
     (let h = cp_headers cur;
          h = (case truthy (hget h304 ''etag'') of Some v \<Rightarrow> hset ''etag'' v h | None \<Rightarrow> h);
          h = (case truthy (hget h304 ''last-modified'') of Some v \<Rightarrow> hset ''last-modified'' v h | None \<Rightarrow> h);
          h = hset ZL_CACHED_AT (int_string now) h
      in \<lparr>cp_status = 200, cp_headers = h, cp_body = cp_body cur\<rparr>)"

section \<open>The mutations and their awaits\<close>

text \<open>
  Reservations, touches, deletions and clears run one after another, behind \<open>withPageCacheMutation\<close>; the
  writes and releases of stores and the revalidations run beside them. What holds the lock is a value, one
  constructor for each await at which it may stand: a reservation that reads the usage of the listed
  keys, that has rows to evict (with the count and the bytes of its loop), that has deleted the entry of a
  row and not its records; a touch between its read and its write; a deletion between the entry and its
  records; a clear with keys to delete. A revalidation keeps the response it has matched.
\<close>

datatype mutation =
    Listing reservation
  | Evicting reservation "cache_row list" nat int
  | Forgetting reservation cache_row "cache_row list" nat int
  | Touching creq "string list" cache_usage
  | Deleting creq cache_identity
  | Clearing "creq list"

record cache_run =
  cr_cache :: page_cache
  cr_lock :: "mutation option"
  cr_bumps :: "(creq \<times> cresp \<times> headers) list"

definition reserve_list :: "reservation \<Rightarrow> cache_run \<Rightarrow> cache_run" where
  "reserve_list r run =
     (if pc_disabled (cr_cache run) then run
      else run\<lparr>cr_lock := Some (Listing (r\<lparr>rv_keys := map fst (pc_entries (cr_cache run)), rv_rows := []\<rparr>))\<rparr>)"

definition reserve_read :: "storage_io \<Rightarrow> cache_run \<Rightarrow> cache_run" where
  "reserve_read io run =
     (case cr_lock run of
        Some (Listing r) \<Rightarrow>
          (case rv_keys r of
             [] \<Rightarrow> run
           | k # ks \<Rightarrow>
               (case page_cache_usage_for io k None (cr_cache run) of
                  ((ident, _, u), st) \<Rightarrow>
                    run\<lparr>cr_cache := st,
                        cr_lock := Some (Listing (r\<lparr>rv_keys := ks,
                          rv_rows := rv_rows r @ [\<lparr>row_key = k, row_identity = ident, row_usage = u\<rparr>]\<rparr>))\<rparr>))
      | _ \<Rightarrow> run)"

text \<open>A listing that fails rejects the reservation; the store warns and gives up.\<close>

definition reserve_abort :: "cache_run \<Rightarrow> cache_run" where
  "reserve_abort run =
     (case cr_lock run of
        Some (Listing _) \<Rightarrow> run\<lparr>cr_cache := (cr_cache run)\<lparr>pc_store_warned := True\<rparr>, cr_lock := None\<rparr>
      | _ \<Rightarrow> run)"

definition rv_identity :: "reservation \<Rightarrow> cache_identity" where
  "rv_identity r = page_cache_identity (rv_req r) (rv_fields r)"

definition reserve_count :: "(string \<Rightarrow> string \<Rightarrow> bool) \<Rightarrow> cache_run \<Rightarrow> cache_run" where
  "reserve_count loc run =
     (case cr_lock run of
        Some (Listing r) \<Rightarrow>
          if rv_keys r = [] then
            let candidates = sort_rows loc (filter (\<lambda>x. row_identity x \<noteq> rv_identity r) (rv_rows r))
            in run\<lparr>cr_lock := Some (Evicting r candidates (length candidates)
                 (pc_reserved (cr_cache run) + rv_bytes r + (\<Sum>x\<leftarrow>candidates. us_bytes (row_usage x))))\<rparr>
          else run
      | _ \<Rightarrow> run)"

text \<open>One turn of \<open>while (count + 1 > ZL_PAGE_LIMIT || totalBytes > ZL_PAGE_TOTAL_MAX)\<close>, or its end.\<close>

definition reserve_take :: "reservation \<Rightarrow> page_cache \<Rightarrow> page_cache" where
  "reserve_take r st =
     st\<lparr>pc_reserved := pc_reserved st + rv_bytes r,
        pc_pending := pc_pending st @
          [\<lparr>ps_req = rv_req r, ps_headers = rv_headers r, ps_fields = rv_fields r, ps_reserve = rv_bytes r, ps_done = False\<rparr>]\<rparr>"

definition reserve_evict :: "storage_io \<Rightarrow> cache_run \<Rightarrow> cache_run" where
  "reserve_evict io run =
     (case cr_lock run of
        Some (Evicting r rows n used) \<Rightarrow>
          if ZL_PAGE_LIMIT < Suc n \<or> ZL_PAGE_TOTAL_MAX < used then
            (case rows of
               [] \<Rightarrow> run\<lparr>cr_lock := None\<rparr>
             | v # vs \<Rightarrow>
                 (case drop_entry io (row_key v) (cr_cache run) of
                    (ok, st) \<Rightarrow> run\<lparr>cr_cache := st, cr_lock := if ok then Some (Forgetting r v vs n used) else None\<rparr>))
          else run\<lparr>cr_cache := reserve_take r (cr_cache run), cr_lock := None\<rparr>
      | _ \<Rightarrow> run)"

definition reserve_forget :: "storage_io \<Rightarrow> cache_run \<Rightarrow> cache_run" where
  "reserve_forget io run =
     (case cr_lock run of
        Some (Forgetting r v vs n used) \<Rightarrow>
          (case forget_entry io (row_key v) (row_identity v) (cr_cache run) of
             (ok, st) \<Rightarrow>
               run\<lparr>cr_cache := st,
                   cr_lock := if ok then Some (Evicting r vs (n - 1) (used - us_bytes (row_usage v))) else None\<rparr>)
      | _ \<Rightarrow> run)"

definition touch_read :: "storage_io \<Rightarrow> creq \<Rightarrow> cresp \<Rightarrow> cache_run \<Rightarrow> cache_run" where
  "touch_read io req hit run =
     (case page_cache_usage_for io req (Some hit) (cr_cache run) of
        ((_, fs, u), st) \<Rightarrow> run\<lparr>cr_cache := st, cr_lock := Some (Touching req fs u)\<rparr>)"

definition touch_write :: "storage_io \<Rightarrow> int \<Rightarrow> cache_run \<Rightarrow> cache_run" where
  "touch_write io now run =
     (case cr_lock run of
        Some (Touching req fs u) \<Rightarrow>
          run\<lparr>cr_cache := write_page_cache_usage io req fs (u\<lparr>us_last := now\<rparr>) (cr_cache run), cr_lock := None\<rparr>
      | _ \<Rightarrow> run)"

definition delete_drop :: "storage_io \<Rightarrow> creq \<Rightarrow> cache_identity \<Rightarrow> cache_run \<Rightarrow> cache_run" where
  "delete_drop io req ident run =
     (case drop_entry io req (cr_cache run) of
        (ok, st) \<Rightarrow> run\<lparr>cr_cache := st, cr_lock := if ok then Some (Deleting req ident) else None\<rparr>)"

definition delete_forget :: "storage_io \<Rightarrow> cache_run \<Rightarrow> cache_run" where
  "delete_forget io run =
     (case cr_lock run of
        Some (Deleting req ident) \<Rightarrow> run\<lparr>cr_cache := snd (forget_entry io req ident (cr_cache run)), cr_lock := None\<rparr>
      | _ \<Rightarrow> run)"

definition clear_list :: "cache_run \<Rightarrow> cache_run" where
  "clear_list run = run\<lparr>cr_lock := Some (Clearing (map fst (pc_entries (cr_cache run))))\<rparr>"

definition clear_next :: "storage_io \<Rightarrow> cache_run \<Rightarrow> cache_run" where
  "clear_next io run =
     (let st = cr_cache run
      in case cr_lock run of
           Some (Clearing (k # ks)) \<Rightarrow>
             if io_delete io k
             then run\<lparr>cr_cache := st\<lparr>pc_entries := filter (\<lambda>e. \<not> entry_matches k e) (pc_entries st)\<rparr>, cr_lock := Some (Clearing ks)\<rparr>
             else run\<lparr>cr_lock := None\<rparr>
         | Some (Clearing []) \<Rightarrow>
             if pc_index st \<noteq> None \<and> \<not> io_index io then run\<lparr>cr_lock := None\<rparr>
             else run\<lparr>cr_cache := st\<lparr>pc_index := map_option (\<lambda>_. []) (pc_index st), pc_usage := []\<rparr>, cr_lock := None\<rparr>
         | _ \<Rightarrow> run)"

definition bump_read :: "creq \<Rightarrow> headers \<Rightarrow> cache_run \<Rightarrow> cache_run" where
  "bump_read req h304 run =
     (case cache_match req (pc_entries (cr_cache run)) of
        None \<Rightarrow> run
      | Some cur \<Rightarrow> run\<lparr>cr_bumps := cr_bumps run @ [(req, cur, h304)]\<rparr>)"

definition bump_write :: "storage_io \<Rightarrow> int \<Rightarrow> nat \<Rightarrow> cache_run \<Rightarrow> cache_run" where
  "bump_write io now i run =
     (case cr_bumps run ! i of
        (req, cur, h304) \<Rightarrow>
          (let st = cr_cache run
           in run\<lparr>cr_cache := (if io_put io then st\<lparr>pc_entries := cache_put req (bumped_response now h304 cur) (pc_entries st)\<rparr> else st),
                  cr_bumps := take i (cr_bumps run) @ drop (Suc i) (cr_bumps run)\<rparr>))"

section \<open>Identities\<close>

declare split_paired_All [simp del] split_paired_Ex [simp del]

definition eid :: "cache_entry \<Rightarrow> cache_identity" where
  "eid e = page_cache_identity (fst e) (stored_vary_fields (cp_headers (snd e)))"

text \<open>The snapshot of a stored entry lists the fields its response varies on, and no stored request
  selects an entry stored before it.\<close>

definition entries_ok :: "cache_entry list \<Rightarrow> bool" where
  "entries_ok es \<longleftrightarrow>
     (\<forall>e \<in> set es. stored_vary_fields (cp_headers (snd e)) = vary_fields (cp_headers (snd e)))
     \<and> sorted_wrt (\<lambda>a b. \<not> entry_matches (fst b) a) es"

lemma request_matches_identity:
  "request_matches req q fs \<longleftrightarrow> page_cache_identity req fs = page_cache_identity q fs"
  by (auto simp: request_matches_def page_cache_identity_def list_all_iff)

lemma entry_matches_self [simp]: "entry_matches (fst e) e"
  by (simp add: entry_matches_def request_matches_identity)

lemma entry_matches_identity:
  "entries_ok es \<Longrightarrow> e \<in> set es \<Longrightarrow> page_cache_identity req fs = eid e \<Longrightarrow> entry_matches req e"
  by (auto simp: entries_ok_def eid_def entry_matches_def request_matches_identity) (auto simp: page_cache_identity_def)

lemma entries_ok_filter: "entries_ok es \<Longrightarrow> entries_ok (filter P es)"
  by (auto simp: entries_ok_def sorted_wrt_filter)

lemma find_self:
  "sorted_wrt (\<lambda>a b. \<not> entry_matches (fst b) a) es \<Longrightarrow> e \<in> set es \<Longrightarrow> find (entry_matches (fst e)) es = Some e"
proof (induction es)
  case (Cons a es)
  then show ?case by (cases "e = a") auto
qed simp

lemma cache_match_self: "entries_ok es \<Longrightarrow> e \<in> set es \<Longrightarrow> cache_match (fst e) es = Some (snd e)"
  by (simp add: entries_ok_def cache_match_def find_self)

section \<open>Sizes\<close>

definition body_size :: "cache_entry \<Rightarrow> int" where
  "body_size e = int (length (cp_body (snd e)))"

definition size_except :: "cache_identity \<Rightarrow> cache_entry list \<Rightarrow> int" where
  "size_except k es = (\<Sum>e\<leftarrow>filter (\<lambda>e. eid e \<noteq> k) es. body_size e)"

definition size_all :: "cache_entry list \<Rightarrow> int" where
  "size_all es = (\<Sum>e\<leftarrow>es. body_size e)"

definition pending_bytes :: "pending_store list \<Rightarrow> int" where
  "pending_bytes ps = (\<Sum>p\<leftarrow>filter (\<lambda>p. \<not> ps_done p) ps. ps_reserve p)"

definition pid :: "pending_store \<Rightarrow> cache_identity" where
  "pid p = page_cache_identity (ps_req p) (ps_fields p)"

lemma body_size_nonneg [simp]: "0 \<le> body_size e"
  by (simp add: body_size_def)

lemma sum_filter_le:
  fixes f :: "'a \<Rightarrow> int"
  shows "(\<And>x. x \<in> set xs \<Longrightarrow> 0 \<le> f x) \<Longrightarrow> (\<Sum>x\<leftarrow>filter P xs. f x) \<le> (\<Sum>x\<leftarrow>xs. f x)"
  by (induction xs) (auto simp: add_increasing)

lemma sum_filter_mono:
  fixes f :: "'a \<Rightarrow> int"
  shows "(\<And>x. x \<in> set xs \<Longrightarrow> 0 \<le> f x) \<Longrightarrow> (\<And>x. x \<in> set xs \<Longrightarrow> P x \<Longrightarrow> Q x) \<Longrightarrow>
    (\<Sum>x\<leftarrow>filter P xs. f x) \<le> (\<Sum>x\<leftarrow>filter Q xs. f x)"
  by (induction xs) (auto simp: add_increasing)

lemma size_except_filter: "size_except k (filter P es) \<le> size_except k es"
  unfolding size_except_def filter_filter by (rule sum_filter_mono) auto

lemma size_except_le: "size_except k es \<le> size_all es"
  unfolding size_except_def size_all_def by (rule sum_filter_le) simp

lemma size_all_filter: "size_all (filter P es) \<le> size_all es"
  unfolding size_all_def by (rule sum_filter_le) simp

lemma size_append [simp]:
  "size_all (xs @ ys) = size_all xs + size_all ys" "size_except k (xs @ ys) = size_except k xs + size_except k ys"
  "size_all [e] = body_size e" "size_except k [e] = (if eid e = k then 0 else body_size e)"
  by (simp_all add: size_all_def size_except_def)

lemma pending_bytes_append [simp]: "pending_bytes (xs @ ys) = pending_bytes xs + pending_bytes ys"
  by (simp add: pending_bytes_def)

section \<open>The invariant\<close>

text \<open>
  Every store that still has to write fits beside what is stored under other identities and what
  the stores reserved before it still have to write.
\<close>

definition budget_ok :: "cache_entry list \<Rightarrow> pending_store list \<Rightarrow> bool" where
  "budget_ok es ps \<longleftrightarrow>
     (\<forall>xs p ys. ps = xs @ p # ys \<longrightarrow> \<not> ps_done p \<longrightarrow>
        size_except (pid p) es + pending_bytes (xs @ [p]) \<le> ZL_PAGE_TOTAL_MAX)"

definition usage_ok :: "page_cache \<Rightarrow> cache_entry \<Rightarrow> bool" where
  "usage_ok st e \<longleftrightarrow> (\<exists>u. map_of (pc_usage st) (eid e) = Some u \<and> body_size e \<le> us_bytes u)"

definition cache_inv :: "page_cache \<Rightarrow> bool" where
  "cache_inv st \<longleftrightarrow> entries_ok (pc_entries st) \<and> (\<forall>e \<in> set (pc_entries st). usage_ok st e)
     \<and> pc_reserved st = (\<Sum>p\<leftarrow>pc_pending st. ps_reserve p)
     \<and> (\<forall>p \<in> set (pc_pending st). 0 \<le> ps_reserve p
          \<and> stored_vary_fields (ps_headers p) = ps_fields p \<and> vary_fields (ps_headers p) = ps_fields p)
     \<and> size_all (pc_entries st) \<le> ZL_PAGE_TOTAL_MAX \<and> budget_ok (pc_entries st) (pc_pending st)"

text \<open>Operations that only remove entries keep the invariant.\<close>

definition shrinks :: "page_cache \<Rightarrow> page_cache \<Rightarrow> bool" where
  "shrinks st st' \<longleftrightarrow> (\<exists>P. pc_entries st' = filter P (pc_entries st))
     \<and> (\<forall>e \<in> set (pc_entries st'). map_of (pc_usage st') (eid e) = map_of (pc_usage st) (eid e))
     \<and> pc_reserved st' = pc_reserved st \<and> pc_pending st' = pc_pending st"

lemma shrinks_refl [simp]: "shrinks st st"
  by (auto simp: shrinks_def intro: exI [of _ "\<lambda>_. True"])

lemma shrinks_keep: "pc_entries st' = pc_entries st \<Longrightarrow> pc_usage st' = pc_usage st \<Longrightarrow> pc_reserved st' = pc_reserved st \<Longrightarrow>
    pc_pending st' = pc_pending st \<Longrightarrow> shrinks st st'"
  by (auto simp: shrinks_def intro: exI [of _ "\<lambda>_. True"])

lemma shrinks_trans: "shrinks a b \<Longrightarrow> shrinks b c \<Longrightarrow> shrinks a c"
proof -
  assume ab: "shrinks a b" and bc: "shrinks b c"
  obtain P Q where "pc_entries b = filter P (pc_entries a)" "pc_entries c = filter Q (pc_entries b)"
    using ab bc by (auto simp: shrinks_def)
  then have sub: "pc_entries c = filter (\<lambda>e. P e \<and> Q e) (pc_entries a)" "set (pc_entries c) \<subseteq> set (pc_entries b)"
    by auto
  have "map_of (pc_usage c) (eid e) = map_of (pc_usage a) (eid e)" if "e \<in> set (pc_entries c)" for e
    using ab bc sub(2) that unfolding shrinks_def by (metis subsetD)
  moreover have "pc_reserved c = pc_reserved a" "pc_pending c = pc_pending a"
    using ab bc by (simp_all add: shrinks_def)
  ultimately show ?thesis using sub(1) unfolding shrinks_def by blast
qed

lemma budget_ok_mono:
  "budget_ok es ps \<Longrightarrow> (\<And>k. size_except k es' \<le> size_except k es) \<Longrightarrow> budget_ok es' ps"
proof -
  assume ok: "budget_ok es ps" and le: "\<And>k. size_except k es' \<le> size_except k es"
  show ?thesis
    unfolding budget_ok_def
  proof (intro allI impI)
    fix xs p ys assume "ps = xs @ p # ys" "\<not> ps_done p"
    then have "size_except (pid p) es + pending_bytes (xs @ [p]) \<le> ZL_PAGE_TOTAL_MAX"
      using ok unfolding budget_ok_def by blast
    then show "size_except (pid p) es' + pending_bytes (xs @ [p]) \<le> ZL_PAGE_TOTAL_MAX"
      using le [of "pid p"] by linarith
  qed
qed

lemma cache_inv_shrinks: "cache_inv st \<Longrightarrow> shrinks st st' \<Longrightarrow> cache_inv st'"
proof -
  assume inv: "cache_inv st" and sh: "shrinks st st'"
  obtain P where P: "pc_entries st' = filter P (pc_entries st)" using sh by (auto simp: shrinks_def)
  have "usage_ok st' e" if "e \<in> set (pc_entries st')" for e
  proof -
    have "e \<in> set (pc_entries st)" using that P by simp
    then have "usage_ok st e" using inv by (simp add: cache_inv_def)
    moreover have "map_of (pc_usage st') (eid e) = map_of (pc_usage st) (eid e)"
      using sh that unfolding shrinks_def by blast
    ultimately show ?thesis by (simp add: usage_ok_def)
  qed
  moreover have "budget_ok (pc_entries st') (pc_pending st)"
    using inv unfolding P cache_inv_def by (blast intro: budget_ok_mono size_except_filter)
  moreover have "size_all (pc_entries st') \<le> ZL_PAGE_TOTAL_MAX"
    using inv size_all_filter [of P "pc_entries st"] unfolding P cache_inv_def by linarith
  ultimately show ?thesis
    using inv sh by (simp add: cache_inv_def shrinks_def P entries_ok_filter)
qed

section \<open>Removing\<close>

lemma filter_usage_delete:
  "k \<notin> eid ` set es \<Longrightarrow> e \<in> set es \<Longrightarrow> map_of (AList.delete k us) (eid e) = map_of us (eid e)"
  by auto

lemma drop_entry_shrinks:
  assumes "drop_entry io req st = (ok, st')"
  shows "shrinks st st'" "pc_usage st' = pc_usage st" "set (pc_entries st') \<subseteq> set (pc_entries st)"
    "ok \<Longrightarrow> \<forall>e \<in> set (pc_entries st'). \<not> entry_matches req e"
proof -
  have "\<exists>P. filter (\<lambda>e. \<not> entry_matches req e) (pc_entries st) = filter P (pc_entries st)" by blast
  then show "shrinks st st'"
    using assms by (auto simp: drop_entry_def disable_after_eviction_failure_def shrinks_def intro: exI [of _ "\<lambda>_. True"] split: if_splits)
qed (use assms in \<open>auto simp: drop_entry_def disable_after_eviction_failure_def split: if_splits\<close>)

lemma forget_entry_shrinks:
  assumes ok: "entries_ok (pc_entries st)" and gone: "\<forall>e \<in> set (pc_entries st). \<not> entry_matches req e"
    and run: "forget_entry io req (page_cache_identity req fs) st = (r, st')"
  shows "shrinks st st'" "pc_entries st' = pc_entries st"
proof -
  have "page_cache_identity req fs \<notin> eid ` set (pc_entries st)"
    using entry_matches_identity [OF ok, of _ req fs] gone by fastforce
  then have keeps: "map_of (AList.delete (page_cache_identity req fs) (pc_usage st)) (eid e) = map_of (pc_usage st) (eid e)"
    if "e \<in> set (pc_entries st)" for e using that by (intro filter_usage_delete)
  have all: "\<exists>P. pc_entries st = filter P (pc_entries st)" by (rule exI [of _ "\<lambda>_. True"]) simp
  show "shrinks st st'"
    using run keeps all unfolding shrinks_def
    by (auto simp: forget_entry_def disable_after_eviction_failure_def simp del: map_of_delete split: option.splits if_splits)
  show "pc_entries st' = pc_entries st"
    using run by (auto simp: forget_entry_def disable_after_eviction_failure_def split: option.splits if_splits)
qed

lemma entries_ok_shrinks: "entries_ok (pc_entries st) \<Longrightarrow> shrinks st st' \<Longrightarrow> entries_ok (pc_entries st')"
  by (auto simp: shrinks_def entries_ok_filter)

text \<open>A row that describes an entry of the cache.\<close>

definition row_of :: "page_cache \<Rightarrow> cache_entry \<Rightarrow> cache_row" where
  "row_of st e = \<lparr>row_key = fst e, row_identity = eid e, row_usage = the (map_of (pc_usage st) (eid e))\<rparr>"

lemma usage_for_known:
  "entries_ok (pc_entries st) \<Longrightarrow> e \<in> set (pc_entries st) \<Longrightarrow> usage_ok st e \<Longrightarrow>
   page_cache_usage_for io (fst e) None st =
     ((eid e, stored_vary_fields (cp_headers (snd e)), the (map_of (pc_usage st) (eid e))), st)"
  by (auto simp: page_cache_usage_for_def Let_def cache_match_self usage_ok_def eid_def)

lemma mset_insert_row: "mset (insert_row loc r rows) = add_mset r (mset rows)"
  by (induction rows) auto

lemma mset_sort_rows: "mset (sort_rows loc rows) = mset rows"
proof -
  have "mset (fold (insert_row loc) rows acc) = mset rows + mset acc" for acc
    by (induction rows arbitrary: acc) (simp_all add: mset_insert_row)
  then show ?thesis by (simp add: sort_rows_def)
qed

lemma distinct_eids: "entries_ok es \<Longrightarrow> distinct (map eid es)"
proof (induction es)
  case (Cons a es)
  have "entries_ok es" using Cons.prems by (simp add: entries_ok_def)
  moreover have "eid b \<noteq> eid a" if "b \<in> set es" for b
  proof
    assume "eid b = eid a"
    then have "entry_matches (fst b) a"
      using entry_matches_identity [OF Cons.prems, of a "fst b"] by (simp add: eid_def)
    then show False using Cons.prems that by (simp add: entries_ok_def)
  qed
  then have "eid a \<notin> eid ` set es" by (metis (no_types) imageE)
  ultimately show ?case using Cons.IH by simp
qed simp

lemma sum_covered:
  fixes f :: "'a \<Rightarrow> int" and g :: "'b \<Rightarrow> int"
  assumes "distinct xs" "distinct ys" "inj_on h (set xs)" "h ` set xs \<subseteq> set ys"
    and "\<And>x. x \<in> set xs \<Longrightarrow> f x \<le> g (h x)" "\<And>y. y \<in> set ys \<Longrightarrow> 0 \<le> g y"
  shows "(\<Sum>x\<leftarrow>xs. f x) \<le> (\<Sum>y\<leftarrow>ys. g y)" "length xs \<le> length ys"
proof -
  have "(\<Sum>x\<leftarrow>xs. f x) \<le> (\<Sum>x\<in>set xs. g (h x))"
    using assms(1,5) by (simp add: sum_list_distinct_conv_sum_set sum_mono)
  also have "\<dots> = (\<Sum>y\<in>h ` set xs. g y)"
    using assms(3) by (simp add: sum.reindex)
  also have "\<dots> \<le> (\<Sum>y\<in>set ys. g y)"
    using assms(4,6) by (intro sum_mono2) auto
  finally show "(\<Sum>x\<leftarrow>xs. f x) \<le> (\<Sum>y\<leftarrow>ys. g y)"
    using assms(2) by (simp add: sum_list_distinct_conv_sum_set)
  have "card (h ` set xs) \<le> card (set ys)" using assms(4) by (intro card_mono) auto
  then show "length xs \<le> length ys"
    using assms(1-3) by (simp add: card_image distinct_card)
qed

section \<open>Every operation keeps the invariant\<close>

lemma hget_page_view_other:
  assumes "headers_wf h" "js_lower k = k" "k \<notin> set HOSTILE" "k \<notin> set CORS_RESPONSE_HEADERS" "k \<noteq> ''refresh''"
  shows "hget (page_view pf c eo cr dest h) k = hget h k"
proof -
  have "map_of (engine_cors_values eo cr) k = None"
    using assms(4) by (auto simp: engine_cors_values_def CORS_RESPONSE_HEADERS_def)
  then show ?thesis
    using assms by (simp add: page_view_def hget_map_refresh_other hget_engine_cors hget_strip_hostile)
qed

lemma internal_names_other:
  "js_lower ''vary'' = ''vary''" "js_lower ZL_FINAL_URL = ZL_FINAL_URL" "js_lower ZL_CACHED_AT = ZL_CACHED_AT"
  "js_lower ZL_PAGE_BYTES = ZL_PAGE_BYTES" "js_lower ''etag'' = ''etag''" "js_lower ''last-modified'' = ''last-modified''"
  "''vary'' \<notin> {ZL_VARY, ZL_VARY_VALUES, ZL_FINAL_URL, ZL_CACHED_AT, ZL_PAGE_BYTES, ''etag'', ''last-modified''}"
  "ZL_VARY \<notin> {ZL_FINAL_URL, ZL_CACHED_AT, ZL_PAGE_BYTES, ''etag'', ''last-modified''}"
  "ZL_FINAL_URL \<notin> {ZL_VARY, ZL_VARY_VALUES, ZL_CACHED_AT, ZL_PAGE_BYTES}"
  "list_all (\<lambda>k. k \<notin> set HOSTILE \<and> k \<notin> set CORS_RESPONSE_HEADERS \<and> k \<noteq> ''refresh'') [''vary'', ZL_VARY, ZL_FINAL_URL]"
  by code_simp+

lemma stored_headers_fields:
  assumes "headers_wf h" "hget h ZL_VARY = None"
  shows "stored_vary_fields (stored_headers env req u h) = vary_fields h"
    "vary_fields (stored_headers env req u h) = vary_fields h"
proof -
  note names = internal_names internal_names_other
  let ?v = "\<lambda>d. page_view (se_platform env) (se_codec env) (se_origin env) (cq_credentials req) d h"
  have view: "hget (?v d) ''vary'' = hget h ''vary''" "hget (?v d) ZL_VARY = None" for d
    using assms names by (simp_all add: hget_page_view_other)
  have "field_list (join_with '','' (vary_fields h)) = vary_fields h" if "vary_fields h \<noteq> []"
    using vary_fields_clean that by (rule field_list_join)
  moreover have "field_list [] = []" by code_simp
  ultimately show "stored_vary_fields (stored_headers env req u h) = vary_fields h"
    using view names by (simp add: stored_headers_def store_vary_meta_def stored_vary_fields_def or_empty_def)
  show "vary_fields (stored_headers env req u h) = vary_fields h"
    using view names by (auto simp: stored_headers_def store_vary_meta_def vary_fields_def [of "store_vary_meta _ _ _"]
        vary_fields_def [of "page_view _ _ _ _ _ _"] vary_fields_def [of h] vary_fields_def [of "hset _ _ _"])
qed

lemma budget_ok_snoc:
  "budget_ok es ps \<Longrightarrow> (\<not> ps_done p \<Longrightarrow> size_except (pid p) es + pending_bytes (ps @ [p]) \<le> ZL_PAGE_TOTAL_MAX) \<Longrightarrow>
   budget_ok es (ps @ [p])"
  unfolding budget_ok_def
proof (intro allI impI)
  fix xs q ys
  assume all: "\<forall>xs p ys. ps = xs @ p # ys \<longrightarrow> \<not> ps_done p \<longrightarrow> size_except (pid p) es + pending_bytes (xs @ [p]) \<le> ZL_PAGE_TOTAL_MAX"
    and new: "\<not> ps_done p \<Longrightarrow> size_except (pid p) es + pending_bytes (ps @ [p]) \<le> ZL_PAGE_TOTAL_MAX"
    and at: "ps @ [p] = xs @ q # ys" and q: "\<not> ps_done q"
  show "size_except (pid q) es + pending_bytes (xs @ [q]) \<le> ZL_PAGE_TOTAL_MAX"
  proof (cases ys rule: rev_cases)
    case Nil
    then show ?thesis using at new q by simp
  next
    case (snoc zs z)
    then have "ps = xs @ q # zs" using at by simp
    then show ?thesis using all q by blast
  qed
qed

lemma pending_bytes_le:
  "\<forall>p \<in> set ps. 0 \<le> ps_reserve p \<Longrightarrow> pending_bytes ps \<le> (\<Sum>p\<leftarrow>ps. ps_reserve p)"
  unfolding pending_bytes_def by (rule sum_filter_le) simp

lemma index_put_keeps [simp]:
  "pc_entries (index_put io req fs u st) = pc_entries st" "pc_usage (index_put io req fs u st) = pc_usage st"
  "pc_reserved (index_put io req fs u st) = pc_reserved st" "pc_pending (index_put io req fs u st) = pc_pending st"
  by (simp_all add: index_put_def split: option.splits)

text \<open>Changing usage records without shrinking the bytes of a stored entry is harmless.\<close>

lemma cache_inv_usage:
  "cache_inv st \<Longrightarrow> pc_entries st' = pc_entries st \<Longrightarrow> pc_reserved st' = pc_reserved st \<Longrightarrow> pc_pending st' = pc_pending st \<Longrightarrow>
   (\<And>e. e \<in> set (pc_entries st) \<Longrightarrow> usage_ok st e \<Longrightarrow> usage_ok st' e) \<Longrightarrow> cache_inv st'"
  by (simp add: cache_inv_def)

lemma split_pending:
  assumes "i < length ps"
  obtains xs p ys where "ps = xs @ p # ys" "p = ps ! i" "take i ps = xs" "drop (Suc i) ps = ys" "length xs = i"
  using assms id_take_nth_drop [OF assms] by simp

lemma budget_ok_remove:
  assumes ok: "budget_ok es (xs @ p # ys)" and nonneg: "0 \<le> ps_reserve p"
  shows "budget_ok es (xs @ ys)"
  unfolding budget_ok_def
proof (intro allI impI)
  fix as q bs assume at: "xs @ ys = as @ q # bs" and q: "\<not> ps_done q"
  from at have "(\<exists>us. xs = as @ us \<and> us @ ys = q # bs) \<or> (\<exists>us. xs @ us = as \<and> ys = us @ q # bs)"
    by (simp add: append_eq_append_conv2 ex_disj_distrib)
  then show "size_except (pid q) es + pending_bytes (as @ [q]) \<le> ZL_PAGE_TOTAL_MAX"
  proof (elim disjE exE conjE)
    fix us assume us: "xs = as @ us" "us @ ys = q # bs"
    show ?thesis
    proof (cases us)
      case Nil
      then have "xs @ p # ys = (as @ [p]) @ q # bs" using us by simp
      then have "size_except (pid q) es + pending_bytes ((as @ [p]) @ [q]) \<le> ZL_PAGE_TOTAL_MAX"
        using ok q unfolding budget_ok_def by blast
      then show ?thesis using nonneg by (cases "ps_done p") (simp_all add: pending_bytes_def)
    next
      case (Cons u cs)
      then have "xs @ p # ys = as @ q # (cs @ p # ys)" using us by simp
      then show ?thesis using ok q unfolding budget_ok_def by blast
    qed
  next
    fix cs assume cs: "xs @ cs = as" "ys = cs @ q # bs"
    then have "xs @ p # ys = (xs @ p # cs) @ q # bs" by simp
    then have "size_except (pid q) es + pending_bytes ((xs @ p # cs) @ [q]) \<le> ZL_PAGE_TOTAL_MAX"
      using ok q unfolding budget_ok_def by blast
    then show ?thesis using nonneg cs(1) by (cases "ps_done p") (auto simp: pending_bytes_def)
  qed
qed

lemma cache_inv_release:
  assumes inv: "cache_inv st" and i: "i < length (pc_pending st)"
  shows "cache_inv (release_store i st)"
proof -
  obtain xs p ys where split: "pc_pending st = xs @ p # ys" "p = pc_pending st ! i"
      "take i (pc_pending st) = xs" "drop (Suc i) (pc_pending st) = ys"
    using split_pending [OF i] by metis
  have res: "release_store i st = st\<lparr>pc_reserved := max 0 (pc_reserved st - ps_reserve p), pc_pending := xs @ ys\<rparr>"
    using split(2-4) by (simp add: release_store_def)
  have nonneg: "\<forall>q \<in> set (xs @ p # ys). 0 \<le> ps_reserve q" using inv split(1) by (simp add: cache_inv_def)
  then have "budget_ok (pc_entries st) (xs @ ys)"
    using inv split(1) by (intro budget_ok_remove [of _ xs p ys]) (simp_all add: cache_inv_def)
  moreover have "0 \<le> (\<Sum>q\<leftarrow>xs @ ys. ps_reserve q)"
    using nonneg by (intro sum_list_nonneg) auto
  moreover have "pc_reserved st = (\<Sum>q\<leftarrow>xs @ ys. ps_reserve q) + ps_reserve p"
    using inv by (simp add: cache_inv_def split(1))
  ultimately show ?thesis
    using inv unfolding cache_inv_def res usage_ok_def by (simp add: split(1))
qed


lemma eid_put:
  assumes "stored_vary_fields (cp_headers resp) = fs"
  shows "eid (req, resp) = page_cache_identity req fs"
  using assms by (simp add: eid_def)

lemma entries_ok_put:
  "entries_ok es \<Longrightarrow> stored_vary_fields (cp_headers resp) = vary_fields (cp_headers resp) \<Longrightarrow>
   entries_ok (cache_put req resp es)"
  by (auto simp: entries_ok_def cache_put_def sorted_wrt_append intro: sorted_wrt_filter)

lemma put_others:
  assumes "entries_ok es" "page_cache_identity req fs = k"
  shows "size_all (filter (\<lambda>e. \<not> entry_matches req e) es) \<le> size_except k es"
    "\<And>e. e \<in> set (filter (\<lambda>e. \<not> entry_matches req e) es) \<Longrightarrow> eid e \<noteq> k"
proof -
  show other: "\<And>e. e \<in> set (filter (\<lambda>e. \<not> entry_matches req e) es) \<Longrightarrow> eid e \<noteq> k"
    using entry_matches_identity [OF assms(1), of _ req fs] assms(2) by fastforce
  then have "filter (\<lambda>e. \<not> entry_matches req e) es = filter (\<lambda>e. \<not> entry_matches req e \<and> eid e \<noteq> k) es"
    by (intro filter_cong) auto
  then show "size_all (filter (\<lambda>e. \<not> entry_matches req e) es) \<le> size_except k es"
    unfolding size_all_def size_except_def by (metis (no_types, lifting) sum_filter_mono body_size_nonneg)
qed

lemma cache_inv_write:
  assumes inv: "cache_inv st" and at: "pc_pending st = xs @ p # ys" and live: "\<not> ps_done p"
    and resp: "stored_vary_fields (cp_headers resp) = ps_fields p" "vary_fields (cp_headers resp) = ps_fields p"
    and fits: "int (length (cp_body resp)) \<le> ps_reserve p"
    and st': "pc_entries st' = cache_put (ps_req p) resp (pc_entries st)"
      "pc_pending st' = xs @ p\<lparr>ps_done := True\<rparr> # ys" "pc_reserved st' = pc_reserved st"
      "pc_usage st' = AList.update (pid p) \<lparr>us_bytes = int (length (cp_body resp)), us_last = now\<rparr> (pc_usage st)"
  shows "cache_inv st'"
proof -
  let ?es = "pc_entries st" and ?e = "(ps_req p, resp)" and ?new = "pc_entries st'"
  let ?keep = "filter (\<lambda>e. \<not> entry_matches (ps_req p) e) (pc_entries st)"
  have ok: "entries_ok ?es" and budget: "budget_ok ?es (xs @ p # ys)"
    using inv at by (simp_all add: cache_inv_def)
  have nonneg: "\<forall>q \<in> set (xs @ p # ys). 0 \<le> ps_reserve q" using inv at by (simp add: cache_inv_def)
  have pos: "0 \<le> pending_bytes qs" if "set qs \<subseteq> set (xs @ p # ys)" for qs
    unfolding pending_bytes_def using nonneg that by (intro sum_list_nonneg) auto
  have xs_sub: "set xs \<subseteq> set (xs @ p # ys)" by auto
  have eid: "eid ?e = pid p" using resp(1) by (simp add: eid_put pid_def)
  have new: "?new = ?keep @ [?e]" using st'(1) by (simp add: cache_put_def)
  have own: "size_except (pid p) ?es + pending_bytes xs + ps_reserve p \<le> ZL_PAGE_TOTAL_MAX"
    using budget live unfolding budget_ok_def by (fastforce simp: pending_bytes_def)
  have body: "body_size ?e \<le> ps_reserve p" using fits by (simp add: body_size_def)
  note others = put_others [OF ok, of "ps_req p" "ps_fields p" "pid p", folded pid_def, OF refl]
  have total: "size_all ?new \<le> size_except (pid p) ?es + ps_reserve p"
    using others(1) body by (simp add: new)
  have "size_all ?new \<le> ZL_PAGE_TOTAL_MAX" using total own pos [OF xs_sub] by linarith
  moreover have "budget_ok ?new (xs @ p\<lparr>ps_done := True\<rparr> # ys)"
    unfolding budget_ok_def
  proof (intro allI impI)
    fix as q bs assume split: "xs @ p\<lparr>ps_done := True\<rparr> # ys = as @ q # bs" and q: "\<not> ps_done q"
    from split have "(\<exists>us. xs = as @ us \<and> us @ p\<lparr>ps_done := True\<rparr> # ys = q # bs)
        \<or> (\<exists>us. xs @ us = as \<and> p\<lparr>ps_done := True\<rparr> # ys = us @ q # bs)"
      by (simp add: append_eq_append_conv2 ex_disj_distrib)
    then show "size_except (pid q) ?new + pending_bytes (as @ [q]) \<le> ZL_PAGE_TOTAL_MAX"
    proof (elim disjE exE conjE)
      fix us assume us: "xs = as @ us" "us @ p\<lparr>ps_done := True\<rparr> # ys = q # bs"
      then obtain cs where "us = q # cs" using q by (cases us) auto
      then have "pending_bytes xs = pending_bytes (as @ [q]) + pending_bytes cs" "0 \<le> pending_bytes cs"
        using us(1) pos [of cs] by (auto simp: pending_bytes_def)
      moreover have "size_except (pid q) ?new \<le> size_all ?new" by (rule size_except_le)
      ultimately show ?thesis using total own by linarith
    next
      fix us assume us: "xs @ us = as" "p\<lparr>ps_done := True\<rparr> # ys = us @ q # bs"
      then obtain cs where cs: "us = p\<lparr>ps_done := True\<rparr> # cs" "ys = cs @ q # bs" using q by (cases us) auto
      have "xs @ p # ys = (xs @ p # cs) @ q # bs" using cs by simp
      then have "size_except (pid q) ?es + pending_bytes ((xs @ p # cs) @ [q]) \<le> ZL_PAGE_TOTAL_MAX"
        using budget q unfolding budget_ok_def by blast
      moreover have "pending_bytes ((xs @ p # cs) @ [q]) = pending_bytes (as @ [q]) + ps_reserve p"
        unfolding us(1) [symmetric] cs(1) using live by (simp add: pending_bytes_def)
      moreover have "size_except (pid q) ?new \<le> size_except (pid q) ?es + ps_reserve p"
        using size_except_filter [of "pid q" "\<lambda>e. \<not> entry_matches (ps_req p) e" ?es] body nonneg by (simp add: new)
      ultimately show ?thesis by linarith
    qed
  qed
  moreover have "usage_ok st' e" if "e \<in> set ?new" for e
  proof (cases "e = ?e")
    case True
    then show ?thesis using eid by (simp add: usage_ok_def st'(4) body_size_def)
  next
    case False
    then have "e \<in> set ?keep" using that by (simp add: new)
    then have "eid e \<noteq> pid p" "usage_ok st e" using others(2) inv by (simp_all add: cache_inv_def)
    then show ?thesis by (simp add: usage_ok_def st'(4))
  qed
  moreover have "entries_ok ?new" using ok resp by (simp add: st'(1) entries_ok_put)
  ultimately show ?thesis
    using inv by (simp add: cache_inv_def at st'(2,3))
qed


lemma cache_inv_put:
  assumes inv: "cache_inv st" and i: "i < length (pc_pending st)" "\<not> ps_done (pc_pending st ! i)"
  shows "cache_inv (store_put io now fin body i st)"
proof -
  obtain xs p ys where split: "pc_pending st = xs @ p # ys" "p = pc_pending st ! i" "length xs = i"
    using split_pending [OF i(1)] by metis
  let ?resp = "stored_response now fin p body"
  have live: "\<not> ps_done p" using i(2) split(2) by simp
  have fields: "stored_vary_fields (ps_headers p) = ps_fields p" "vary_fields (ps_headers p) = ps_fields p"
    using inv by (simp_all add: cache_inv_def split(1))
  then have resp: "stored_vary_fields (cp_headers ?resp) = ps_fields p" "vary_fields (cp_headers ?resp) = ps_fields p"
    using internal_names internal_names_other
    by (auto simp: stored_response_def Let_def stored_vary_fields_def vary_fields_def split: option.splits)
  consider "store_put io now fin body i st = release_store i st"
    | "store_put io now fin body i st = release_store i (st\<lparr>pc_store_warned := True\<rparr>)"
    | "int (length body) \<le> ps_reserve p"
      "store_put io now fin body i st = write_page_cache_usage io (ps_req p) (ps_fields p)
         \<lparr>us_bytes = int (length body), us_last = now\<rparr>
         (st\<lparr>pc_entries := cache_put (ps_req p) ?resp (pc_entries st), pc_pending := (pc_pending st)[i := p\<lparr>ps_done := True\<rparr>]\<rparr>)"
    unfolding store_put_def Let_def split(2) [symmetric]
    by (metis linorder_not_less)
  then show ?thesis
  proof cases
    case 1
    then show ?thesis using cache_inv_release [OF inv i(1)] by simp
  next
    case 2
    have "cache_inv (st\<lparr>pc_store_warned := True\<rparr>)" using inv by (intro cache_inv_usage [OF inv]) (simp_all add: usage_ok_def)
    then show ?thesis using 2 i(1) cache_inv_release by simp
  next
    case 3
    have len: "int (length (cp_body ?resp)) \<le> ps_reserve p" using 3(1) by (simp add: stored_response_def Let_def)
    have upd: "(pc_pending st)[i := p\<lparr>ps_done := True\<rparr>] = xs @ p\<lparr>ps_done := True\<rparr> # ys"
      using split(1,3) by (auto simp: list_update_append)
    show ?thesis
      by (rule cache_inv_write [OF inv split(1) live resp len, where now = now])
        (simp_all add: 3(2) write_page_cache_usage_def pid_def upd stored_response_def Let_def)
  qed
qed

lemma replaced_size:
  assumes "e \<in> set es" "\<not> P e" "eid e' = eid e" "body_size e' = body_size e"
  shows "size_except k (filter P es @ [e']) \<le> size_except k es" "size_all (filter P es @ [e']) \<le> size_all es"
proof -
  obtain xs ys where es: "es = xs @ e # ys" using split_list [OF assms(1)] by blast
  have drop: "filter P es = filter P xs @ filter P ys" using assms(2) by (simp add: es)
  have cons: "size_except k (e # ys) = size_except k [e] + size_except k ys" "size_all (e # ys) = body_size e + size_all ys"
    by (simp_all add: size_except_def size_all_def)
  show "size_except k (filter P es @ [e']) \<le> size_except k es" "size_all (filter P es @ [e']) \<le> size_all es"
    using size_except_filter [of k P xs] size_except_filter [of k P ys] size_all_filter [of P xs] size_all_filter [of P ys]
      assms(2-4) by (auto simp: es cons)
qed

lemma bump_headers_fields:
  "vary_fields (hset ''etag'' v h) = vary_fields h" "stored_vary_fields (hset ''etag'' v h) = stored_vary_fields h"
  "vary_fields (hset ''last-modified'' v h) = vary_fields h" "stored_vary_fields (hset ''last-modified'' v h) = stored_vary_fields h"
  "vary_fields (hset ZL_CACHED_AT v h) = vary_fields h" "stored_vary_fields (hset ZL_CACHED_AT v h) = stored_vary_fields h"
  using internal_names internal_names_other by (simp_all add: vary_fields_def stored_vary_fields_def)

lemma bumped_response_same:
  "vary_fields (cp_headers (bumped_response now h304 cur)) = vary_fields (cp_headers cur)"
  "stored_vary_fields (cp_headers (bumped_response now h304 cur)) = stored_vary_fields (cp_headers cur)"
  "cp_body (bumped_response now h304 cur) = cp_body cur" "cp_status (bumped_response now h304 cur) = 200"
  by (simp_all add: bumped_response_def Let_def bump_headers_fields split: option.splits)

lemma cache_inv_bump:
  assumes inv: "cache_inv st" and now: "cache_match req (pc_entries st) = Some resp"
  shows "cache_inv (st\<lparr>pc_entries := cache_put req (bumped_response now h304 resp) (pc_entries st)\<rparr>)"
proof -
  let ?es = "pc_entries st" and ?P = "\<lambda>e. \<not> entry_matches req e"
  obtain cur where Some: "find (entry_matches req) ?es = Some cur" and resp: "resp = snd cur" using now by (auto simp: cache_match_def)
  have cur: "cur \<in> set ?es" "entry_matches req cur" using Some by (auto simp: find_Some_iff)
  obtain h where h: "bumped_response now h304 resp = \<lparr>cp_status = 200, cp_headers = h, cp_body = cp_body (snd cur)\<rparr>"
    "vary_fields h = vary_fields (cp_headers (snd cur))" "stored_vary_fields h = stored_vary_fields (cp_headers (snd cur))"
    using bumped_response_same [of now h304 resp] resp by (cases "bumped_response now h304 resp") auto
  let ?e = "(req, \<lparr>cp_status = 200, cp_headers = h, cp_body = cp_body (snd cur)\<rparr>)"
  have ok: "entries_ok ?es" using inv by (simp add: cache_inv_def)
  then have same: "stored_vary_fields (cp_headers (snd cur)) = vary_fields (cp_headers (snd cur))"
    using cur(1) by (simp add: entries_ok_def)
  have eid: "eid ?e = eid cur"
    using cur(2) by (simp add: eid_def h(3) entry_matches_def request_matches_identity same)
  have size: "body_size ?e = body_size cur" by (simp add: body_size_def)
  note sizes = replaced_size [of cur ?es ?P, OF cur(1) _ eid size]
  have "budget_ok (filter ?P ?es @ [?e]) (pc_pending st)"
    using inv cur(2) unfolding cache_inv_def by (blast intro: budget_ok_mono sizes(1))
  moreover have "size_all (filter ?P ?es @ [?e]) \<le> ZL_PAGE_TOTAL_MAX"
    using inv cur(2) sizes(2) by (fastforce simp: cache_inv_def)
  moreover have "entries_ok (filter ?P ?es @ [?e])"
    using entries_ok_put [OF ok, of "snd ?e" req] same h(2,3) by (simp add: cache_put_def)
  moreover have "usage_ok (st\<lparr>pc_entries := filter ?P ?es @ [?e]\<rparr>) e" if "e \<in> set (filter ?P ?es @ [?e])" for e
  proof -
    have "usage_ok st ?e" using inv cur(1) eid size by (simp add: cache_inv_def usage_ok_def)
    then show ?thesis using inv that by (auto simp: cache_inv_def usage_ok_def)
  qed
  ultimately show ?thesis
    using inv by (simp add: cache_inv_def h(1) cache_put_def)
qed

lemma cache_inv_empty: "cache_inv (empty_cache has_index)"
  by (simp add: cache_inv_def empty_cache_def entries_ok_def budget_ok_def size_all_def ZL_PAGE_TOTAL_MAX_def)

section \<open>Undisturbed mutations\<close>

text \<open>
  The rows a reservation still counts cover every stored entry of another identity, each with at least the
  bytes of its body.
\<close>

definition covers :: "page_cache \<Rightarrow> reservation \<Rightarrow> cache_row list \<Rightarrow> bool" where
  "covers st r rows \<longleftrightarrow> distinct rows
     \<and> (\<forall>x \<in> set rows. 0 \<le> us_bytes (row_usage x) \<and> (\<exists>fs. row_identity x = page_cache_identity (row_key x) fs))
     \<and> row_of st ` {e \<in> set (pc_entries st). eid e \<noteq> rv_identity r} \<subseteq> set rows"

definition rv_fits :: "reservation \<Rightarrow> bool" where
  "rv_fits r \<longleftrightarrow> 0 \<le> rv_bytes r \<and> stored_vary_fields (rv_headers r) = rv_fields r \<and> vary_fields (rv_headers r) = rv_fields r"

definition lock_inv :: "page_cache \<Rightarrow> mutation option \<Rightarrow> bool" where
  "lock_inv st l =
     (case l of
        None \<Rightarrow> True
      | Some (Listing r) \<Rightarrow> rv_fits r
          \<and> (\<exists>es rest. pc_entries st = es @ rest \<and> rv_rows r = map (row_of st) es \<and> rv_keys r = map fst rest)
      | Some (Evicting r rows n used) \<Rightarrow> rv_fits r \<and> covers st r rows
          \<and> pc_reserved st + rv_bytes r + (\<Sum>x\<leftarrow>rows. us_bytes (row_usage x)) \<le> used
      | Some (Forgetting r v rows n used) \<Rightarrow> rv_fits r \<and> covers st r rows
          \<and> (\<exists>fs. row_identity v = page_cache_identity (row_key v) fs) \<and> (\<forall>e \<in> set (pc_entries st). \<not> entry_matches (row_key v) e)
          \<and> pc_reserved st + rv_bytes r + us_bytes (row_usage v) + (\<Sum>x\<leftarrow>rows. us_bytes (row_usage x)) \<le> used
      | Some (Touching req fs u) \<Rightarrow>
          \<forall>e \<in> set (pc_entries st). eid e = page_cache_identity req fs \<longrightarrow> body_size e \<le> us_bytes u
      | Some (Deleting req ident) \<Rightarrow>
          (\<exists>fs. ident = page_cache_identity req fs) \<and> (\<forall>e \<in> set (pc_entries st). \<not> entry_matches req e)
      | Some (Clearing ks) \<Rightarrow> \<forall>e \<in> set (pc_entries st). \<exists>k \<in> set ks. entry_matches k e)"

definition calm_inv :: "cache_run \<Rightarrow> bool" where
  "calm_inv run \<longleftrightarrow> cache_inv (cr_cache run) \<and> lock_inv (cr_cache run) (cr_lock run)"

lemma cache_inv_ok: "cache_inv st \<Longrightarrow> entries_ok (pc_entries st)" "cache_inv st \<Longrightarrow> e \<in> set (pc_entries st) \<Longrightarrow> usage_ok st e"
  by (simp_all add: cache_inv_def)

lemma row_of_cong: "map_of (pc_usage st') (eid e) = map_of (pc_usage st) (eid e) \<Longrightarrow> row_of st' e = row_of st e"
  by (simp add: row_of_def)

lemma covers_shrinks:
  assumes "covers st r rows" "shrinks st st'"
  shows "covers st' r rows"
proof -
  have sub: "set (pc_entries st') \<subseteq> set (pc_entries st)" using assms(2) by (auto simp: shrinks_def)
  moreover have "row_of st' e = row_of st e" if "e \<in> set (pc_entries st')" for e
    using assms(2) that by (intro row_of_cong) (simp add: shrinks_def)
  ultimately show ?thesis using assms(1) unfolding covers_def by fastforce
qed

lemma covers_tail:
  assumes "covers st r (v # vs)" "\<forall>e \<in> set (pc_entries st). \<not> entry_matches (row_key v) e"
  shows "covers st r vs"
proof -
  have "row_of st e \<noteq> v" if "e \<in> set (pc_entries st)" for e
    using assms(2) that by (auto simp: row_of_def)
  then show ?thesis using assms(1) unfolding covers_def by fastforce
qed

lemma covers_size:
  assumes inv: "cache_inv st" and c: "covers st r rows"
  shows "size_except (rv_identity r) (pc_entries st) \<le> (\<Sum>x\<leftarrow>rows. us_bytes (row_usage x))"
proof -
  let ?E = "filter (\<lambda>e. eid e \<noteq> rv_identity r) (pc_entries st)"
  have d: "distinct (map eid ?E)" using distinct_eids [OF cache_inv_ok(1) [OF inv]] by (simp add: distinct_map_filter)
  then have "distinct ?E" by (simp add: distinct_map)
  moreover have "distinct rows" using c by (simp add: covers_def)
  moreover have "inj_on (row_of st) (set ?E)" using d by (auto simp: distinct_map row_of_def inj_on_def)
  moreover have "row_of st ` set ?E \<subseteq> set rows" using c by (auto simp: covers_def)
  moreover have "body_size e \<le> us_bytes (row_usage (row_of st e))" if "e \<in> set ?E" for e
    using cache_inv_ok(2) [OF inv] that by (fastforce simp: usage_ok_def row_of_def)
  ultimately show ?thesis unfolding size_except_def
    using c by (intro sum_covered(1) [where h = "row_of st"]) (auto simp: covers_def)
qed

lemma calm_shrinks:
  "cache_inv st \<Longrightarrow> shrinks st st' \<Longrightarrow> lock_inv st' l \<Longrightarrow> calm_inv (run\<lparr>cr_cache := st', cr_lock := l\<rparr>)"
  using cache_inv_shrinks by (simp add: calm_inv_def)

lemma calm_list: "calm_inv run \<Longrightarrow> rv_fits r \<Longrightarrow> cr_lock run = None \<Longrightarrow> calm_inv (reserve_list r run)"
  by (auto simp: calm_inv_def reserve_list_def lock_inv_def rv_fits_def)

lemma lock_Listing:
  "rv_fits r \<Longrightarrow> pc_entries st = es @ rest \<Longrightarrow> rv_rows r = map (row_of st) es \<Longrightarrow> rv_keys r = map fst rest \<Longrightarrow>
    lock_inv st (Some (Listing r))"
  unfolding lock_inv_def by auto

lemma calm_read:
  assumes calm: "calm_inv run"
  shows "calm_inv (reserve_read io run)"
proof (cases "\<exists>r k ks. cr_lock run = Some (Listing r) \<and> rv_keys r = k # ks")
  case True
  then obtain r k ks where r: "cr_lock run = Some (Listing r)" "rv_keys r = k # ks" by blast
  let ?st = "cr_cache run"
  have inv: "cache_inv ?st" using calm by (simp add: calm_inv_def)
  obtain es rest where es: "rv_fits r" "pc_entries ?st = es @ rest" "rv_rows r = map (row_of ?st) es" "rv_keys r = map fst rest"
    using calm r(1) by (auto simp: calm_inv_def lock_inv_def)
  then obtain e rest' where e: "rest = e # rest'" "k = fst e" "ks = map fst rest'" using r(2) by auto
  then have "e \<in> set (pc_entries ?st)" using es(2) by simp
  note known = usage_for_known [OF cache_inv_ok(1) [OF inv] this cache_inv_ok(2) [OF inv this], of io]
  have "reserve_read io run = run\<lparr>cr_lock := Some (Listing (r\<lparr>rv_keys := ks, rv_rows := rv_rows r @ [row_of ?st e]\<rparr>))\<rparr>"
    using r known e(2) by (simp add: reserve_read_def row_of_def)
  moreover have "pc_entries ?st = (es @ [e]) @ rest'" using es(2) e(1) by simp
  moreover have "rv_rows r @ [row_of ?st e] = map (row_of ?st) (es @ [e])" using es(3) by simp
  ultimately have "lock_inv ?st (Some (Listing (r\<lparr>rv_keys := ks, rv_rows := rv_rows r @ [row_of ?st e]\<rparr>)))"
    using es(1) e(3) by (intro lock_Listing [of _ _ "es @ [e]" rest']) (simp_all add: rv_fits_def)
  then show ?thesis using inv \<open>reserve_read io run = _\<close> by (simp add: calm_inv_def)
qed (use calm in \<open>auto simp: reserve_read_def split: option.splits mutation.splits list.splits\<close>)

lemma calm_abort: "calm_inv run \<Longrightarrow> calm_inv (reserve_abort run)"
  using cache_inv_shrinks [OF _ shrinks_keep, of "cr_cache run" "(cr_cache run)\<lparr>pc_store_warned := True\<rparr>"]
  by (auto simp: reserve_abort_def calm_inv_def lock_inv_def split: option.splits mutation.splits)

lemma calm_count:
  assumes calm: "calm_inv run"
  shows "calm_inv (reserve_count loc run)"
proof (cases "\<exists>r. cr_lock run = Some (Listing r) \<and> rv_keys r = []")
  case True
  then obtain r where r: "cr_lock run = Some (Listing r)" "rv_keys r = []" by blast
  let ?st = "cr_cache run"
  let ?rows = "map (row_of ?st) (pc_entries ?st)"
  let ?kept = "filter (\<lambda>x. row_identity x \<noteq> rv_identity r) ?rows"
  have inv: "cache_inv ?st" using calm by (simp add: calm_inv_def)
  have es: "rv_fits r" "rv_rows r = ?rows" using calm r by (auto simp: calm_inv_def lock_inv_def)
  have "map row_identity ?kept = filter (\<lambda>i. i \<noteq> rv_identity r) (map eid (pc_entries ?st))"
    by (simp add: filter_map comp_def row_of_def)
  then have "distinct (map row_identity ?kept)" using distinct_eids [OF cache_inv_ok(1) [OF inv]] by simp
  then have "distinct (sort_rows loc ?kept)" using mset_sort_rows [of loc] by (metis distinct_map mset_eq_imp_distinct_iff)
  moreover have "set (sort_rows loc ?kept) = set ?kept" using mset_sort_rows [of loc, THEN mset_eq_setD] .
  moreover have "0 \<le> us_bytes (row_usage (row_of ?st e))" if "e \<in> set (pc_entries ?st)" for e
    using cache_inv_ok(2) [OF inv that] order_trans [OF body_size_nonneg [of e]] by (auto simp: usage_ok_def row_of_def)
  ultimately have "covers ?st r (sort_rows loc ?kept)" unfolding covers_def by (auto simp: row_of_def) (auto simp: eid_def)
  then show ?thesis using inv r es by (simp add: reserve_count_def calm_inv_def lock_inv_def Let_def)
qed (use calm in \<open>auto simp: reserve_count_def split: option.splits mutation.splits\<close>)

text \<open>A successful reservation keeps the budget for the store that takes it.\<close>

lemma cache_inv_take:
  assumes inv: "cache_inv st" and r: "rv_fits r"
    and room: "size_except (rv_identity r) (pc_entries st) + pc_reserved st + rv_bytes r \<le> ZL_PAGE_TOTAL_MAX"
  shows "cache_inv (reserve_take r st)"
proof -
  let ?p = "\<lparr>ps_req = rv_req r, ps_headers = rv_headers r, ps_fields = rv_fields r, ps_reserve = rv_bytes r, ps_done = False\<rparr>"
  have "pending_bytes (pc_pending st) \<le> pc_reserved st" using inv pending_bytes_le by (simp add: cache_inv_def)
  then have "size_except (pid ?p) (pc_entries st) + pending_bytes (pc_pending st @ [?p]) \<le> ZL_PAGE_TOTAL_MAX"
    using room by (simp add: pid_def rv_identity_def pending_bytes_def)
  then have "budget_ok (pc_entries st) (pc_pending st @ [?p])"
    using inv by (intro budget_ok_snoc) (auto simp: cache_inv_def)
  then show ?thesis using inv r by (auto simp: cache_inv_def reserve_take_def rv_fits_def usage_ok_def)
qed

lemma calm_evict:
  assumes calm: "calm_inv run"
  shows "calm_inv (reserve_evict io run)"
proof (cases "\<exists>r rows n used. cr_lock run = Some (Evicting r rows n used)")
  case True
  then obtain r rows n used where r: "cr_lock run = Some (Evicting r rows n used)" by blast
  let ?st = "cr_cache run"
  have inv: "cache_inv ?st" and fits: "rv_fits r" and cov: "covers ?st r rows"
    and sum: "pc_reserved ?st + rv_bytes r + (\<Sum>x\<leftarrow>rows. us_bytes (row_usage x)) \<le> used"
    using calm r by (simp_all add: calm_inv_def lock_inv_def)
  show ?thesis
  proof (cases "ZL_PAGE_LIMIT < Suc n \<or> ZL_PAGE_TOTAL_MAX < used")
    case False
    then have "cache_inv (reserve_take r ?st)"
      using covers_size [OF inv cov] sum by (intro cache_inv_take [OF inv fits]) linarith
    then show ?thesis using r False by (simp add: reserve_evict_def calm_inv_def lock_inv_def)
  next
    case over: True
    show ?thesis
    proof (cases rows)
      case Nil
      then show ?thesis using inv r over by (simp add: reserve_evict_def calm_inv_def lock_inv_def)
    next
      case (Cons v vs)
      obtain ok st' where d: "drop_entry io (row_key v) ?st = (ok, st')" by fastforce
      note s = drop_entry_shrinks [OF d]
      have step: "reserve_evict io run = run\<lparr>cr_cache := st', cr_lock := if ok then Some (Forgetting r v vs n used) else None\<rparr>"
        using r over Cons d by (simp add: reserve_evict_def)
      have cov': "covers st' r (v # vs)" using covers_shrinks [OF cov s(1)] Cons by simp
      have "lock_inv st' (if ok then Some (Forgetting r v vs n used) else None)"
      proof (cases ok)
        case True
        then have "covers st' r vs" "pc_reserved st' = pc_reserved ?st" "\<exists>fs. row_identity v = page_cache_identity (row_key v) fs"
          using covers_tail [OF cov' s(4)] s(1) cov' by (simp_all add: shrinks_def covers_def)
        then show ?thesis using True fits s(4) sum Cons by (simp add: lock_inv_def)
      qed (simp add: lock_inv_def)
      then show ?thesis unfolding step by (rule calm_shrinks [OF inv s(1)])
    qed
  qed
qed (use calm in \<open>auto simp: reserve_evict_def split: option.splits mutation.splits\<close>)

lemma calm_forget:
  assumes calm: "calm_inv run"
  shows "calm_inv (reserve_forget io run)"
proof (cases "\<exists>r v vs n used. cr_lock run = Some (Forgetting r v vs n used)")
  case True
  then obtain r v vs n used where r: "cr_lock run = Some (Forgetting r v vs n used)" by blast
  let ?st = "cr_cache run"
  obtain fs where inv: "cache_inv ?st" and fits: "rv_fits r" and cov: "covers ?st r vs"
    and v: "row_identity v = page_cache_identity (row_key v) fs" "\<forall>e \<in> set (pc_entries ?st). \<not> entry_matches (row_key v) e"
    and sum: "pc_reserved ?st + rv_bytes r + us_bytes (row_usage v) + (\<Sum>x\<leftarrow>vs. us_bytes (row_usage x)) \<le> used"
    using calm r by (auto simp: calm_inv_def lock_inv_def)
  obtain ok st' where f: "forget_entry io (row_key v) (page_cache_identity (row_key v) fs) ?st = (ok, st')" by fastforce
  note s = forget_entry_shrinks [OF cache_inv_ok(1) [OF inv] v(2) f]
  have step: "reserve_forget io run
      = run\<lparr>cr_cache := st', cr_lock := if ok then Some (Evicting r vs (n - 1) (used - us_bytes (row_usage v))) else None\<rparr>"
    using r f v(1) by (simp add: reserve_forget_def)
  have "lock_inv st' (if ok then Some (Evicting r vs (n - 1) (used - us_bytes (row_usage v))) else None)"
    using fits sum covers_shrinks [OF cov s(1)] s(1) by (simp add: lock_inv_def shrinks_def)
  then show ?thesis unfolding step by (rule calm_shrinks [OF inv s(1)])
qed (use calm in \<open>auto simp: reserve_forget_def split: option.splits mutation.splits\<close>)

text \<open>Touches, deletions, clears and revalidations that nothing disturbs.\<close>

lemma usage_for_touch:
  assumes inv: "cache_inv st" and run: "page_cache_usage_for io req (Some hit) st = ((i, fs, u), st')"
  shows "cache_inv st'" "\<forall>e \<in> set (pc_entries st'). eid e = page_cache_identity req fs \<longrightarrow> body_size e \<le> us_bytes u"
proof -
  let ?fs = "stored_vary_fields (cp_headers hit)"
  let ?id = "page_cache_identity req ?fs"
  have s: "fs = ?fs" "pc_entries st' = pc_entries st" "pc_reserved st' = pc_reserved st" "pc_pending st' = pc_pending st"
    "\<forall>k. k \<noteq> ?id \<longrightarrow> map_of (pc_usage st') k = map_of (pc_usage st) k"
    "\<forall>v. map_of (pc_usage st) ?id = Some v \<longrightarrow> u = v \<and> map_of (pc_usage st') ?id = Some v"
    using run by (auto simp: page_cache_usage_for_def write_page_cache_usage_def Let_def split: option.splits)
  show "cache_inv st'"
  proof (rule cache_inv_usage [OF inv s(2-4)])
    fix e assume "e \<in> set (pc_entries st)" "usage_ok st e"
    then show "usage_ok st' e" using s(5,6) by (cases "eid e = ?id") (auto simp: usage_ok_def)
  qed
  show "\<forall>e \<in> set (pc_entries st'). eid e = page_cache_identity req fs \<longrightarrow> body_size e \<le> us_bytes u"
    using cache_inv_ok(2) [OF inv] s(1,2,6) by (fastforce simp: usage_ok_def)
qed

lemma calm_touch_read: "calm_inv run \<Longrightarrow> calm_inv (touch_read io req hit run)"
  using usage_for_touch [of "cr_cache run" io req hit]
  by (auto simp: touch_read_def calm_inv_def lock_inv_def split: prod.split)

lemma calm_touch_write: 
  assumes calm: "calm_inv run"
  shows "calm_inv (touch_write io now run)"
proof (cases "\<exists>req fs u. cr_lock run = Some (Touching req fs u)")
  case True
  then obtain req fs u where r: "cr_lock run = Some (Touching req fs u)" by blast
  let ?st = "cr_cache run"
  let ?st' = "write_page_cache_usage io req fs (u\<lparr>us_last := now\<rparr>) ?st"
  have inv: "cache_inv ?st" and u: "\<forall>e \<in> set (pc_entries ?st). eid e = page_cache_identity req fs \<longrightarrow> body_size e \<le> us_bytes u"
    using calm r by (simp_all add: calm_inv_def lock_inv_def)
  have "cache_inv ?st'"
    by (rule cache_inv_usage [OF inv]) (use u in \<open>auto simp: write_page_cache_usage_def usage_ok_def\<close>)
  then show ?thesis using r by (simp add: touch_write_def calm_inv_def lock_inv_def)
qed (use calm in \<open>auto simp: touch_write_def split: option.splits mutation.splits\<close>)

lemma calm_delete_drop:
  assumes calm: "calm_inv run"
  shows "calm_inv (delete_drop io req (page_cache_identity req fs) run)"
proof -
  obtain ok st' where d: "drop_entry io req (cr_cache run) = (ok, st')" by fastforce
  have "lock_inv st' (if ok then Some (Deleting req (page_cache_identity req fs)) else None)"
    using drop_entry_shrinks(4) [OF d] by (auto simp: lock_inv_def)
  then show ?thesis using calm_shrinks [OF _ drop_entry_shrinks(1) [OF d]] calm
    by (simp add: delete_drop_def d calm_inv_def)
qed

lemma calm_delete_forget:
  assumes calm: "calm_inv run"
  shows "calm_inv (delete_forget io run)"
proof (cases "\<exists>req ident. cr_lock run = Some (Deleting req ident)")
  case True
  then obtain req fs where r: "cr_lock run = Some (Deleting req (page_cache_identity req fs))"
    "cache_inv (cr_cache run)" "\<forall>e \<in> set (pc_entries (cr_cache run)). \<not> entry_matches req e"
    using calm by (auto simp: calm_inv_def lock_inv_def)
  have "shrinks (cr_cache run) (snd (forget_entry io req (page_cache_identity req fs) (cr_cache run)))"
    using forget_entry_shrinks(1) [OF cache_inv_ok(1) [OF r(2)] r(3)] by (metis surjective_pairing)
  then show ?thesis using calm_shrinks [OF r(2), of _ None] r(1) by (simp add: delete_forget_def lock_inv_def)
qed (use calm in \<open>auto simp: delete_forget_def split: option.splits mutation.splits\<close>)

lemma calm_clear_list: "calm_inv run \<Longrightarrow> calm_inv (clear_list run)"
  by (auto simp: clear_list_def calm_inv_def lock_inv_def intro: entry_matches_self)

lemma calm_clear_next:
  assumes calm: "calm_inv run"
  shows "calm_inv (clear_next io run)"
proof (cases "\<exists>ks. cr_lock run = Some (Clearing ks)")
  case True
  then obtain ks where r: "cr_lock run = Some (Clearing ks)" by blast
  let ?st = "cr_cache run"
  have inv: "cache_inv ?st" and ks: "\<forall>e \<in> set (pc_entries ?st). \<exists>k \<in> set ks. entry_matches k e"
    using calm r by (simp_all add: calm_inv_def lock_inv_def)
  show ?thesis
  proof (cases ks)
    case Nil
    then have "pc_entries ?st = []" using ks by (cases "pc_entries ?st") auto
    then have "cache_inv (?st\<lparr>pc_index := ix, pc_usage := []\<rparr>)" for ix
      using inv by (intro cache_inv_shrinks [OF inv]) (auto simp: shrinks_def)
    then show ?thesis using r Nil inv by (simp add: clear_next_def calm_inv_def lock_inv_def Let_def)
  next
    case (Cons k ks')
    let ?st' = "?st\<lparr>pc_entries := filter (\<lambda>e. \<not> entry_matches k e) (pc_entries ?st)\<rparr>"
    have "shrinks ?st ?st'" by (auto simp: shrinks_def)
    then have "cache_inv ?st'" by (rule cache_inv_shrinks [OF inv])
    moreover have "lock_inv ?st' (Some (Clearing ks'))" using ks Cons by (auto simp: lock_inv_def)
    ultimately show ?thesis using r Cons inv by (simp add: clear_next_def calm_inv_def Let_def) (simp add: lock_inv_def)
  qed
qed (use calm in \<open>auto simp: clear_next_def Let_def split: option.splits mutation.splits\<close>)

text \<open>A release beside a running mutation only frees bytes.\<close>

lemma calm_release:
  assumes calm: "calm_inv run" and i: "i < length (pc_pending (cr_cache run))"
  shows "calm_inv (run\<lparr>cr_cache := release_store i (cr_cache run)\<rparr>)"
proof -
  let ?st = "cr_cache run"
  have inv: "cache_inv ?st" using calm by (simp add: calm_inv_def)
  obtain p where p: "p = pc_pending ?st ! i" "0 \<le> ps_reserve p" using inv i nth_mem [OF i] by (simp add: cache_inv_def)
  have nonneg: "0 \<le> (\<Sum>q\<leftarrow>pc_pending ?st. ps_reserve q)" using inv by (intro sum_list_nonneg) (auto simp: cache_inv_def)
  have e: "pc_entries (release_store i ?st) = pc_entries ?st" "pc_usage (release_store i ?st) = pc_usage ?st"
    "pc_reserved (release_store i ?st) \<le> pc_reserved ?st"
    using p nonneg inv by (auto simp: release_store_def cache_inv_def)
  have rows: "row_of (release_store i ?st) = row_of ?st" by (rule ext) (simp add: row_of_def e(2))
  have "covers (release_store i ?st) r rows = covers ?st r rows" for r rows by (simp add: covers_def e(1) rows)
  then have "lock_inv (release_store i ?st) l" if "lock_inv ?st l" for l
    using that e(3) rows by (auto simp: lock_inv_def e(1) split: option.splits mutation.splits)
  then show ?thesis using cache_inv_release [OF inv i] calm by (simp add: calm_inv_def)
qed

section \<open>What holds in every interleaving\<close>

text \<open>
  The header of a stored response names at least the size of its body, so that an entry whose usage
  record is lost is counted again for no less.
\<close>

definition recountable :: "cresp \<Rightarrow> bool" where
  "recountable p \<longleftrightarrow>
     (\<exists>n. hget (cp_headers p) ZL_PAGE_BYTES = Some (nat_digits n) \<and> length (cp_body p) \<le> n \<and> int n \<le> ZL_PAGE_STORE_MAX)"

definition safe_store :: "page_cache \<Rightarrow> bool" where
  "safe_store st \<longleftrightarrow> pc_reserved st = (\<Sum>p\<leftarrow>pc_pending st. ps_reserve p) \<and> pc_reserved st \<le> ZL_PAGE_TOTAL_MAX
     \<and> (\<forall>p \<in> set (pc_pending st). 0 \<le> ps_reserve p \<and> ps_reserve p \<le> ZL_PAGE_STORE_MAX)
     \<and> (\<forall>e \<in> set (pc_entries st). recountable (snd e))
     \<and> (\<forall>k u. map_of (pc_usage st) k = Some u \<longrightarrow> 0 \<le> us_bytes u)"

definition row_ok :: "cache_row \<Rightarrow> bool" where
  "row_ok x \<longleftrightarrow> 0 \<le> us_bytes (row_usage x)"

definition safe_lock :: "page_cache \<Rightarrow> mutation option \<Rightarrow> bool" where
  "safe_lock st l =
     (case l of
        Some (Listing r) \<Rightarrow> 0 \<le> rv_bytes r \<and> rv_bytes r \<le> ZL_PAGE_STORE_MAX \<and> list_all row_ok (rv_rows r)
      | Some (Evicting r rows n used) \<Rightarrow> 0 \<le> rv_bytes r \<and> rv_bytes r \<le> ZL_PAGE_STORE_MAX \<and> list_all row_ok rows
          \<and> pc_reserved st + rv_bytes r + (\<Sum>x\<leftarrow>rows. us_bytes (row_usage x)) \<le> used
      | Some (Forgetting r v rows n used) \<Rightarrow> 0 \<le> rv_bytes r \<and> rv_bytes r \<le> ZL_PAGE_STORE_MAX \<and> list_all row_ok (v # rows)
          \<and> pc_reserved st + rv_bytes r + (\<Sum>x\<leftarrow>v # rows. us_bytes (row_usage x)) \<le> used
      | Some (Touching req fs u) \<Rightarrow> 0 \<le> us_bytes u
      | _ \<Rightarrow> True)"

definition safe_inv :: "cache_run \<Rightarrow> bool" where
  "safe_inv run \<longleftrightarrow> safe_store (cr_cache run) \<and> safe_lock (cr_cache run) (cr_lock run)
     \<and> (\<forall>(req, cur, h) \<in> set (cr_bumps run). recountable cur)"

lemma page_bytes_name: "ZL_PAGE_BYTES \<notin> {ZL_CACHED_AT, ZL_FINAL_URL, ''etag'', ''last-modified''}"
  by code_simp

lemma declared_bytes_digits [simp]: "declared_bytes (nat_digits n) = Some (int n)"
  using nat_digits_all [of n] digits_val_nat_digits [of n] by (cases "nat_digits n") (simp_all add: declared_bytes_def)

lemma recountable_size:
  "recountable p \<Longrightarrow> int (length (cp_body p)) \<le> us_bytes (estimated_usage (cp_headers p)) \<and> int (length (cp_body p)) \<le> ZL_PAGE_STORE_MAX"
  by (auto simp: recountable_def estimated_usage_def Let_def)

lemma usage_nonneg:
  "0 \<le> us_bytes (estimated_usage h)" "valid_page_cache_usage j = Some u \<Longrightarrow> 0 \<le> us_bytes u"
  by (auto simp: estimated_usage_def declared_bytes_def ZL_PAGE_STORE_MAX_def Let_def valid_page_cache_usage_def
      split: option.splits if_splits json.splits)

lemma safe_store_cong:
  "safe_store st \<Longrightarrow> pc_reserved st' = pc_reserved st \<Longrightarrow> pc_pending st' = pc_pending st \<Longrightarrow>
   set (pc_entries st') \<subseteq> set (pc_entries st) \<Longrightarrow>
   (\<And>k u. map_of (pc_usage st') k = Some u \<Longrightarrow> 0 \<le> us_bytes u) \<Longrightarrow> safe_store st'"
  by (auto simp: safe_store_def)

lemma safe_lock_cong: "pc_reserved st' \<le> pc_reserved st \<Longrightarrow> safe_lock st l \<Longrightarrow> safe_lock st' l"
  by (auto simp: safe_lock_def split: option.splits mutation.splits)

lemma usage_for_safe:
  assumes "safe_store st" "page_cache_usage_for io req known st = ((i, fs, u), st')"
  shows "safe_store st'" "0 \<le> us_bytes u"
proof -
  have s: "pc_entries st' = pc_entries st" "pc_reserved st' = pc_reserved st" "pc_pending st' = pc_pending st"
    using assms(2) by (auto simp: page_cache_usage_for_def write_page_cache_usage_def Let_def split: option.splits)
  have "0 \<le> us_bytes v" if "index_usage io req st = Some v" for v
    using that usage_nonneg(2) by (auto simp: index_usage_def split: option.splits if_splits)
  then have u: "0 \<le> us_bytes u \<and> (\<forall>k v. map_of (pc_usage st') k = Some v \<longrightarrow> 0 \<le> us_bytes v)"
    using assms usage_nonneg(1)
    by (auto simp: page_cache_usage_for_def write_page_cache_usage_def safe_store_def Let_def split: option.splits if_splits)
  then show "0 \<le> us_bytes u" by simp
  show "safe_store st'" by (rule safe_store_cong [OF assms(1)]) (use s u in auto)
qed

lemma drop_safe:
  assumes "safe_store st" "drop_entry io req st = (ok, st')"
  shows "safe_store st'" "pc_reserved st' = pc_reserved st"
proof -
  note s = drop_entry_shrinks [OF assms(2)]
  show r: "pc_reserved st' = pc_reserved st" using s(1) by (simp add: shrinks_def)
  show "safe_store st'"
    by (rule safe_store_cong [OF assms(1) r]) (use s(1-3) assms(1) in \<open>auto simp: shrinks_def safe_store_def\<close>)
qed

lemma forget_safe:
  assumes "safe_store st" "forget_entry io req ident st = (ok, st')"
  shows "safe_store st'" "pc_reserved st' = pc_reserved st"
proof -
  have u: "0 \<le> us_bytes u" if "map_of (AList.delete ident (pc_usage st)) k = Some u" for k u
    using that assms(1) by (auto simp: safe_store_def restrict_map_def split: if_splits)
  show r: "pc_reserved st' = pc_reserved st"
    using assms(2) by (auto simp: forget_entry_def disable_after_eviction_failure_def split: option.splits if_splits)
  show "safe_store st'"
    by (rule safe_store_cong [OF assms(1) r])
      (use assms u in \<open>auto simp: forget_entry_def disable_after_eviction_failure_def safe_store_def simp del: map_of_delete split: option.splits if_splits\<close>)
qed

lemma release_safe:
  assumes "safe_store st" "i < length (pc_pending st)"
  shows "safe_store (release_store i st)" "pc_reserved (release_store i st) \<le> pc_reserved st"
proof -
  obtain xs p ys where split: "pc_pending st = xs @ p # ys" "p = pc_pending st ! i"
      "take i (pc_pending st) = xs" "drop (Suc i) (pc_pending st) = ys"
    using split_pending [OF assms(2)] by metis
  have res: "release_store i st = st\<lparr>pc_reserved := max 0 (pc_reserved st - ps_reserve p), pc_pending := xs @ ys\<rparr>"
    using split(2-4) by (simp add: release_store_def)
  have nonneg: "\<forall>q \<in> set (xs @ p # ys). 0 \<le> ps_reserve q" using assms(1) split(1) by (simp add: safe_store_def)
  then have "0 \<le> (\<Sum>q\<leftarrow>xs @ ys. ps_reserve q)" by (intro sum_list_nonneg) auto
  moreover have "pc_reserved st = (\<Sum>q\<leftarrow>xs @ ys. ps_reserve q) + ps_reserve p" using assms(1) by (simp add: safe_store_def split(1))
  ultimately show "safe_store (release_store i st)" "pc_reserved (release_store i st) \<le> pc_reserved st"
    using assms(1) nonneg unfolding safe_store_def res by (auto simp: split(1))
qed

lemma mark_done: "map ps_reserve (ps[i := (ps ! i)\<lparr>ps_done := True\<rparr>]) = map ps_reserve ps"
proof (cases "i < length ps")
  case True
  then have "(map ps_reserve ps)[i := ps_reserve (ps ! i)] = map ps_reserve ps" by (metis list_update_id nth_map)
  then show ?thesis by (simp add: map_update)
qed (simp add: list_update_beyond)

lemma mark_done_all:
  "(\<forall>p \<in> set (ps[i := (ps ! i)\<lparr>ps_done := True\<rparr>]). P (ps_reserve p)) \<longleftrightarrow> (\<forall>p \<in> set ps. P (ps_reserve p))"
proof -
  have "(\<forall>x \<in> set (map ps_reserve qs). P x) = (\<forall>p \<in> set qs. P (ps_reserve p))" for qs by simp
  from this [of "ps[i := (ps ! i)\<lparr>ps_done := True\<rparr>]"] this [of ps] show ?thesis by (simp only: mark_done)
qed

lemma put_safe:
  assumes safe: "safe_store st" and i: "i < length (pc_pending st)"
  shows "safe_store (store_put io now fin body i st)" "pc_reserved (store_put io now fin body i st) \<le> pc_reserved st"
proof -
  let ?p = "pc_pending st ! i" and ?resp = "stored_response now fin (pc_pending st ! i) body"
  consider "store_put io now fin body i st = release_store i st"
    | "store_put io now fin body i st = release_store i (st\<lparr>pc_store_warned := True\<rparr>)"
    | "int (length body) \<le> ps_reserve ?p"
      "store_put io now fin body i st = write_page_cache_usage io (ps_req ?p) (ps_fields ?p)
         \<lparr>us_bytes = int (length body), us_last = now\<rparr>
         (st\<lparr>pc_entries := cache_put (ps_req ?p) ?resp (pc_entries st), pc_pending := (pc_pending st)[i := ?p\<lparr>ps_done := True\<rparr>]\<rparr>)"
    unfolding store_put_def Let_def by (metis linorder_not_less)
  then have "safe_store (store_put io now fin body i st) \<and> pc_reserved (store_put io now fin body i st) \<le> pc_reserved st"
  proof cases
    case 1
    then show ?thesis using release_safe [OF safe i] by simp
  next
    case 2
    have "safe_store (st\<lparr>pc_store_warned := True\<rparr>)" using safe by (simp add: safe_store_def)
    then show ?thesis using release_safe [of "st\<lparr>pc_store_warned := True\<rparr>" i] 2 i by simp
  next
    case 3
    have p: "0 \<le> ps_reserve ?p" "ps_reserve ?p \<le> ZL_PAGE_STORE_MAX" using safe nth_mem [OF i] by (auto simp: safe_store_def)
    have "hget (cp_headers ?resp) ZL_PAGE_BYTES = Some (nat_digits (nat (ps_reserve ?p)))"
      using internal_names internal_names_other page_bytes_name by (auto simp: stored_response_def Let_def split: option.splits)
    then have "recountable ?resp" using 3(1) p by (auto simp: recountable_def stored_response_def Let_def)
    moreover have "\<forall>p \<in> set ((pc_pending st)[i := ?p\<lparr>ps_done := True\<rparr>]). 0 \<le> ps_reserve p \<and> ps_reserve p \<le> ZL_PAGE_STORE_MAX"
      using safe mark_done_all [of "pc_pending st" i "\<lambda>n. 0 \<le> n \<and> n \<le> ZL_PAGE_STORE_MAX"] by (simp add: safe_store_def)
    ultimately show ?thesis using safe unfolding 3(2) safe_store_def
      by (auto simp: write_page_cache_usage_def cache_put_def mark_done split: if_splits)
  qed
  then show "safe_store (store_put io now fin body i st)" "pc_reserved (store_put io now fin body i st) \<le> pc_reserved st" by simp_all
qed

lemma bumped_recountable:
  "recountable cur \<Longrightarrow> recountable (bumped_response now h304 cur)"
proof -
  have "hget (cp_headers (bumped_response now h304 cur)) ZL_PAGE_BYTES = hget (cp_headers cur) ZL_PAGE_BYTES"
    using internal_names_other(3-6) page_bytes_name by (simp add: bumped_response_def Let_def split: option.split)
  then show "recountable cur \<Longrightarrow> ?thesis" by (simp add: recountable_def bumped_response_same)
qed

lemma safe_cong:
  "safe_inv run \<Longrightarrow> safe_store st \<Longrightarrow> safe_lock st l \<Longrightarrow> safe_inv (run\<lparr>cr_cache := st, cr_lock := l\<rparr>)"
  by (simp add: safe_inv_def)

lemma safe_unlock: "safe_inv run \<Longrightarrow> safe_store st \<Longrightarrow> safe_inv (run\<lparr>cr_cache := st, cr_lock := None\<rparr>)"
  by (rule safe_cong) (simp_all add: safe_lock_def)

lemma safe_list:
  "safe_inv run \<Longrightarrow> 0 \<le> rv_bytes r \<Longrightarrow> rv_bytes r \<le> ZL_PAGE_STORE_MAX \<Longrightarrow> safe_inv (reserve_list r run)"
  by (simp add: reserve_list_def safe_inv_def safe_lock_def)

lemma safe_read:
  assumes safe: "safe_inv run"
  shows "safe_inv (reserve_read io run)"
proof (cases "\<exists>r k ks. cr_lock run = Some (Listing r) \<and> rv_keys r = k # ks")
  case True
  then obtain r k ks where r: "cr_lock run = Some (Listing r)" "rv_keys r = k # ks" by blast
  obtain i fs u st where u: "page_cache_usage_for io k None (cr_cache run) = ((i, fs, u), st)" by (metis surj_pair)
  have "safe_store (cr_cache run)" "safe_lock (cr_cache run) (Some (Listing r))" using safe r(1) by (simp_all add: safe_inv_def)
  note s = usage_for_safe [OF this(1) u] this(2)
  have "safe_lock st (Some (Listing (r\<lparr>rv_keys := ks, rv_rows := rv_rows r @ [\<lparr>row_key = k, row_identity = i, row_usage = u\<rparr>]\<rparr>)))"
    using s(2,3) by (simp add: safe_lock_def row_ok_def)
  then show ?thesis using safe_cong [OF safe s(1)] r u by (simp add: reserve_read_def)
qed (use safe in \<open>auto simp: reserve_read_def split: option.splits mutation.splits list.splits\<close>)

lemma safe_abort: "safe_inv run \<Longrightarrow> safe_inv (reserve_abort run)"
  using safe_unlock [of run "(cr_cache run)\<lparr>pc_store_warned := True\<rparr>"]
  by (auto simp: reserve_abort_def safe_inv_def safe_store_def split: option.splits mutation.splits)

lemma safe_count:
  assumes safe: "safe_inv run"
  shows "safe_inv (reserve_count loc run)"
proof (cases "\<exists>r. cr_lock run = Some (Listing r) \<and> rv_keys r = []")
  case True
  then obtain r where r: "cr_lock run = Some (Listing r)" "rv_keys r = []" by blast
  have "set (sort_rows loc (filter (\<lambda>x. row_identity x \<noteq> rv_identity r) (rv_rows r))) \<subseteq> set (rv_rows r)"
    using mset_sort_rows [of loc, THEN mset_eq_setD] by auto
  then have "list_all row_ok (sort_rows loc (filter (\<lambda>x. row_identity x \<noteq> rv_identity r) (rv_rows r)))"
    using safe r(1) by (auto simp: safe_inv_def safe_lock_def list_all_iff)
  then show ?thesis using safe r by (simp add: reserve_count_def safe_inv_def safe_lock_def Let_def)
qed (use safe in \<open>auto simp: reserve_count_def split: option.splits mutation.splits\<close>)

lemma sum_rows_nonneg: "list_all row_ok rows \<Longrightarrow> 0 \<le> (\<Sum>x\<leftarrow>rows. us_bytes (row_usage x))"
  by (induction rows) (auto simp: row_ok_def)

lemma safe_evict:
  assumes safe: "safe_inv run"
  shows "safe_inv (reserve_evict io run)"
proof (cases "\<exists>r rows n used. cr_lock run = Some (Evicting r rows n used)")
  case True
  then obtain r rows n used where r: "cr_lock run = Some (Evicting r rows n used)" by blast
  let ?st = "cr_cache run"
  have st: "safe_store ?st" and lock: "safe_lock ?st (Some (Evicting r rows n used))" using safe r by (simp_all add: safe_inv_def)
  show ?thesis
  proof (cases "ZL_PAGE_LIMIT < Suc n \<or> ZL_PAGE_TOTAL_MAX < used")
    case False
    then have "pc_reserved ?st + rv_bytes r \<le> ZL_PAGE_TOTAL_MAX" "0 \<le> rv_bytes r" "rv_bytes r \<le> ZL_PAGE_STORE_MAX"
      using lock sum_rows_nonneg [of rows] by (simp_all add: safe_lock_def)
    then have "safe_store (reserve_take r ?st)" using st by (auto simp: safe_store_def reserve_take_def)
    then show ?thesis using safe_unlock [OF safe] r False by (simp add: reserve_evict_def)
  next
    case over: True
    show ?thesis
    proof (cases rows)
      case Nil
      then show ?thesis using safe_unlock [OF safe st] r over by (simp add: reserve_evict_def)
    next
      case (Cons v vs)
      obtain ok st' where d: "drop_entry io (row_key v) ?st = (ok, st')" by fastforce
      note s = drop_safe [OF st d]
      have "safe_lock st' (Some (Forgetting r v vs n used))" using lock Cons s(2) by (simp add: safe_lock_def)
      then show ?thesis using safe_cong [OF safe s(1)] safe_unlock [OF safe s(1)] r over Cons d
        by (cases ok) (simp_all add: reserve_evict_def)
    qed
  qed
qed (use safe in \<open>auto simp: reserve_evict_def split: option.splits mutation.splits\<close>)

lemma safe_forget:
  assumes safe: "safe_inv run"
  shows "safe_inv (reserve_forget io run)"
proof (cases "\<exists>r v vs n used. cr_lock run = Some (Forgetting r v vs n used)")
  case True
  then obtain r v vs n used where r: "cr_lock run = Some (Forgetting r v vs n used)" by blast
  let ?st = "cr_cache run"
  obtain ok st' where f: "forget_entry io (row_key v) (row_identity v) ?st = (ok, st')" by fastforce
  have "safe_store ?st" and lock: "safe_lock ?st (Some (Forgetting r v vs n used))" using safe r by (simp_all add: safe_inv_def)
  note s = forget_safe [OF this(1) f]
  have "safe_lock st' (Some (Evicting r vs (n - 1) (used - us_bytes (row_usage v))))" using lock s(2) by (simp add: safe_lock_def)
  then show ?thesis using safe_cong [OF safe s(1)] safe_unlock [OF safe s(1)] r f by (cases ok) (simp_all add: reserve_forget_def)
qed (use safe in \<open>auto simp: reserve_forget_def split: option.splits mutation.splits\<close>)

lemma safe_touch_read:
  assumes safe: "safe_inv run"
  shows "safe_inv (touch_read io req hit run)"
proof -
  obtain i fs u st where u: "page_cache_usage_for io req (Some hit) (cr_cache run) = ((i, fs, u), st)" by (metis surj_pair)
  have "safe_store (cr_cache run)" using safe by (simp add: safe_inv_def)
  note s = usage_for_safe [OF this u]
  then show ?thesis using safe_cong [OF safe s(1)] u by (simp add: touch_read_def safe_lock_def)
qed

lemma safe_touch_write: "safe_inv run \<Longrightarrow> safe_inv (touch_write io now run)"
  by (auto simp: touch_write_def safe_inv_def safe_lock_def safe_store_def write_page_cache_usage_def split: option.splits mutation.splits)

lemma safe_delete_drop:
  assumes safe: "safe_inv run"
  shows "safe_inv (delete_drop io req ident run)"
proof -
  obtain ok st' where d: "drop_entry io req (cr_cache run) = (ok, st')" by fastforce
  have "safe_store st'" using drop_safe(1) [OF _ d] safe by (simp add: safe_inv_def)
  then show ?thesis using safe_cong [OF safe] d by (simp add: delete_drop_def safe_lock_def)
qed

lemma safe_delete_forget:
  assumes safe: "safe_inv run"
  shows "safe_inv (delete_forget io run)"
proof -
  have "safe_store (snd (forget_entry io req ident (cr_cache run)))" for req ident
    using forget_safe(1) safe by (metis safe_inv_def surjective_pairing)
  then show ?thesis using safe_unlock [OF safe] safe by (auto simp: delete_forget_def split: option.splits mutation.splits)
qed

lemma safe_clear:
  assumes safe: "safe_inv run"
  shows "safe_inv (clear_list run)" "safe_inv (clear_next io run)"
proof -
  have "safe_store (cr_cache run)" using safe by (simp add: safe_inv_def)
  then have "safe_store ((cr_cache run)\<lparr>pc_entries := filter P (pc_entries (cr_cache run))\<rparr>)"
    "safe_store ((cr_cache run)\<lparr>pc_index := ix, pc_usage := []\<rparr>)" for P ix
    by (auto simp: safe_store_def)
  then show "safe_inv (clear_list run)" "safe_inv (clear_next io run)"
    using safe by (auto simp: clear_list_def clear_next_def safe_inv_def safe_lock_def Let_def split: option.splits mutation.splits list.splits)
qed

lemma safe_released: "safe_inv run \<Longrightarrow> i < length (pc_pending (cr_cache run)) \<Longrightarrow> safe_inv (run\<lparr>cr_cache := release_store i (cr_cache run)\<rparr>)"
  using release_safe [of "cr_cache run" i] safe_lock_cong by (auto simp: safe_inv_def)

lemma safe_put:
  "safe_inv run \<Longrightarrow> i < length (pc_pending (cr_cache run)) \<Longrightarrow> safe_inv (run\<lparr>cr_cache := store_put io now fin body i (cr_cache run)\<rparr>)"
  using put_safe [of "cr_cache run" i io now fin body]
    safe_lock_cong [of "store_put io now fin body i (cr_cache run)" "cr_cache run" "cr_lock run"] by (simp add: safe_inv_def)

lemma safe_bump_read: "safe_inv run \<Longrightarrow> safe_inv (bump_read req h304 run)"
  by (auto simp: bump_read_def safe_inv_def safe_store_def cache_match_def find_Some_iff split: option.splits)

lemma safe_bump_write:
  assumes safe: "safe_inv run" and i: "i < length (cr_bumps run)"
  shows "safe_inv (bump_write io now i run)"
proof -
  obtain req cur h where b: "cr_bumps run ! i = (req, cur, h)" by (metis surj_pair)
  then have "recountable (bumped_response now h cur)" using safe nth_mem [OF i] bumped_recountable by (fastforce simp: safe_inv_def)
  then have "safe_store ((cr_cache run)\<lparr>pc_entries := cache_put req (bumped_response now h cur) (pc_entries (cr_cache run))\<rparr>)"
    using safe by (auto simp: safe_inv_def safe_store_def cache_put_def)
  moreover have "safe_lock (st\<lparr>pc_entries := es\<rparr>) l = safe_lock st l" for st es l
    by (simp add: safe_lock_def split: option.split mutation.split)
  ultimately show ?thesis using safe unfolding safe_inv_def
    by (auto simp: bump_write_def b Let_def dest: in_set_takeD in_set_dropD)
qed

section \<open>Every interleaving\<close>

text \<open>
  The steps of the page cache in any order, with any number of stores and revalidations in flight; a mutation
  starts when no other holds the lock. A store may have made its checks in any earlier state. Upstream
  responses carry no vary record of the engine. The flag stays set while nothing
  disturbs: no store writes while a mutation holds the lock, and a revalidation puts back the response it has
  matched while that is still the stored one and no mutation is under way.
\<close>

definition bump_current :: "nat \<Rightarrow> cache_run \<Rightarrow> bool" where
  "bump_current i run \<longleftrightarrow>
     (case cr_bumps run ! i of (req, cur, _) \<Rightarrow> cache_match req (pc_entries (cr_cache run)) = Some cur)"

inductive page_runs :: "bool \<Rightarrow> cache_run \<Rightarrow> bool" where
  page_start: "page_runs True \<lparr>cr_cache = empty_cache has_index, cr_lock = None, cr_bumps = []\<rparr>"
| page_list: "page_runs calm run \<Longrightarrow> cr_lock run = None \<Longrightarrow> headers_wf h \<Longrightarrow> hget h ZL_VARY = None \<Longrightarrow>
    store_open env now req status h st = Some r \<Longrightarrow> page_runs calm (reserve_list r run)"
| page_read: "page_runs calm run \<Longrightarrow> page_runs calm (reserve_read io run)"
| page_abort: "page_runs calm run \<Longrightarrow> page_runs calm (reserve_abort run)"
| page_count: "page_runs calm run \<Longrightarrow> page_runs calm (reserve_count loc run)"
| page_evict: "page_runs calm run \<Longrightarrow> page_runs calm (reserve_evict io run)"
| page_forget: "page_runs calm run \<Longrightarrow> page_runs calm (reserve_forget io run)"
| page_put: "page_runs calm run \<Longrightarrow> i < length (pc_pending (cr_cache run)) \<Longrightarrow> \<not> ps_done (pc_pending (cr_cache run) ! i) \<Longrightarrow>
    page_runs (calm \<and> cr_lock run = None) (run\<lparr>cr_cache := store_put io now fin body i (cr_cache run)\<rparr>)"
| page_release: "page_runs calm run \<Longrightarrow> i < length (pc_pending (cr_cache run)) \<Longrightarrow> ps_done (pc_pending (cr_cache run) ! i) \<Longrightarrow>
    page_runs calm (run\<lparr>cr_cache := release_store i (cr_cache run)\<rparr>)"
| page_touch_read: "page_runs calm run \<Longrightarrow> cr_lock run = None \<Longrightarrow> page_runs calm (touch_read io req hit run)"
| page_touch_write: "page_runs calm run \<Longrightarrow> page_runs calm (touch_write io now run)"
| page_delete: "page_runs calm run \<Longrightarrow> cr_lock run = None \<Longrightarrow>
    page_runs calm (delete_drop io req (page_cache_identity req (stored_vary_fields h)) run)"
| page_delete_forget: "page_runs calm run \<Longrightarrow> page_runs calm (delete_forget io run)"
| page_clear: "page_runs calm run \<Longrightarrow> cr_lock run = None \<Longrightarrow> page_runs calm (clear_list run)"
| page_clear_next: "page_runs calm run \<Longrightarrow> page_runs calm (clear_next io run)"
| page_bump_read: "page_runs calm run \<Longrightarrow> page_runs calm (bump_read req h304 run)"
| page_bump_write: "page_runs calm run \<Longrightarrow> i < length (cr_bumps run) \<Longrightarrow>
    page_runs (calm \<and> cr_lock run = None \<and> bump_current i run) (bump_write io now i run)"

lemma store_open_fits:
  assumes "headers_wf h" "hget h ZL_VARY = None" "store_open env now req status h st = Some r"
  shows "rv_fits r" "rv_bytes r \<le> ZL_PAGE_STORE_MAX"
proof -
  obtain u where r: "rv_headers r = stored_headers env req u h" "rv_fields r = vary_fields h"
    "rv_bytes r = (case declared_length h of Some n \<Rightarrow> n | None \<Rightarrow> ZL_PAGE_STORE_MAX)"
    "\<not> (case declared_length h of Some n \<Rightarrow> ZL_PAGE_STORE_MAX < n | None \<Rightarrow> False)"
    using assms(3) by (auto simp: store_open_def Let_def split: option.splits if_splits)
  have "0 \<le> n" if "declared_length h = Some n" for n
    using that by (auto simp: declared_length_def declared_bytes_def split: option.splits if_splits)
  then show "rv_fits r" "rv_bytes r \<le> ZL_PAGE_STORE_MAX"
    using r stored_headers_fields [OF assms(1,2)] by (auto simp: rv_fits_def ZL_PAGE_STORE_MAX_def split: option.splits)
qed

lemma runs_safe: "page_runs calm run \<Longrightarrow> safe_inv run"
proof (induction rule: page_runs.induct)
  case (page_start has_index)
  then show ?case by (simp add: safe_inv_def safe_lock_def safe_store_def empty_cache_def ZL_PAGE_TOTAL_MAX_def)
next
  case page_list
  then show ?case using store_open_fits safe_list by (auto simp: rv_fits_def)
qed (auto intro: safe_read safe_abort safe_count safe_evict safe_forget safe_put safe_released safe_touch_read safe_touch_write
      safe_delete_drop safe_delete_forget safe_clear safe_bump_read safe_bump_write)

lemma calm_bump_write:
  assumes calm: "calm_inv run" and b: "cr_lock run = None" "bump_current i run"
  shows "calm_inv (bump_write io now i run)"
proof -
  obtain req cur h where "cr_bumps run ! i = (req, cur, h)" by (metis surj_pair)
  then show ?thesis using calm b cache_inv_bump [of "cr_cache run" req cur now h]
    by (simp add: bump_write_def bump_current_def calm_inv_def lock_inv_def Let_def)
qed

lemma runs_calm: "page_runs calm run \<Longrightarrow> calm \<Longrightarrow> calm_inv run"
proof (induction rule: page_runs.induct)
  case (page_start has_index)
  then show ?case by (simp add: calm_inv_def lock_inv_def cache_inv_empty)
next
  case page_list
  then show ?case using store_open_fits calm_list by blast
next
  case (page_put calm run i io now fin body)
  then show ?case using cache_inv_put by (simp add: calm_inv_def lock_inv_def)
next
  case (page_bump_read calm run req h304)
  then show ?case by (auto simp: bump_read_def calm_inv_def split: option.split)
qed (auto intro: calm_read calm_abort calm_count calm_evict calm_forget calm_release calm_touch_read calm_touch_write
      calm_delete_drop calm_delete_forget calm_clear_list calm_clear_next calm_bump_write)

section \<open>Properties\<close>

text \<open>C21. In every interleaving of the steps of stores, hits, revalidations, deletions and clears, whichever storage operations fail, the reserved bytes are those of the stores in flight and never exceed 32 MiB, no stored body exceeds 4 MiB, and the header of every stored entry names at least the size of its body, so an entry without a usage record is counted again for no less. While no store writes and no revalidation puts back during a mutation (a reservation, touch, deletion or clear between two of its awaits), and each revalidation puts back what is still the stored response, the stored bodies also stay within 32 MiB together and each is accounted for by its usage record.\<close>

theorem page_cache_byte_budget:
  assumes "page_runs calm run" "st = cr_cache run"
  shows "pc_reserved st = (\<Sum>p\<leftarrow>pc_pending st. ps_reserve p) \<and> pc_reserved st \<le> 32 * 1024 * 1024
    \<and> (\<forall>e \<in> set (pc_entries st). int (length (cp_body (snd e))) \<le> 4 * 1024 * 1024
         \<and> int (length (cp_body (snd e))) \<le> us_bytes (estimated_usage (cp_headers (snd e))))
    \<and> (calm \<longrightarrow> (\<Sum>e\<leftarrow>pc_entries st. int (length (cp_body (snd e)))) \<le> 32 * 1024 * 1024
         \<and> (\<forall>e \<in> set (pc_entries st). \<exists>u.
              map_of (pc_usage st) (page_cache_identity (fst e) (stored_vary_fields (cp_headers (snd e)))) = Some u
              \<and> int (length (cp_body (snd e))) \<le> us_bytes u))"
proof -
  have safe: "safe_store st" using runs_safe [OF assms(1)] assms(2) by (simp add: safe_inv_def)
  have "cache_inv st" if calm using runs_calm [OF assms(1) that] assms(2) by (simp add: calm_inv_def)
  then have "calm \<longrightarrow> (\<Sum>e\<leftarrow>pc_entries st. int (length (cp_body (snd e)))) \<le> 32 * 1024 * 1024
         \<and> (\<forall>e \<in> set (pc_entries st). \<exists>u.
              map_of (pc_usage st) (page_cache_identity (fst e) (stored_vary_fields (cp_headers (snd e)))) = Some u
              \<and> int (length (cp_body (snd e))) \<le> us_bytes u)"
    unfolding cache_inv_def size_all_def body_size_def usage_ok_def eid_def ZL_PAGE_TOTAL_MAX_def by simp
  moreover have "pc_reserved st = (\<Sum>p\<leftarrow>pc_pending st. ps_reserve p) \<and> pc_reserved st \<le> 32 * 1024 * 1024"
    using safe by (simp add: safe_store_def ZL_PAGE_TOTAL_MAX_def)
  ultimately show ?thesis using safe recountable_size by (simp add: safe_store_def ZL_PAGE_STORE_MAX_def)
qed

text \<open>
  A reservation counts the entries it has listed, with the bytes reserved at the end of the reading. Stores
  that write and release in between are in neither: with the listing empty it succeeds, whatever is
  stored by then.
\<close>

lemma late_writes_uncounted:
  assumes "cr_lock run = Some (Listing r)" "rv_keys r = []" "rv_rows r = []"
    "pc_reserved (cr_cache run) + rv_bytes r \<le> ZL_PAGE_TOTAL_MAX"
  shows "cr_cache (reserve_evict io (reserve_count loc run)) = reserve_take r (cr_cache run)"
  using assms by (simp add: reserve_count_def reserve_evict_def sort_rows_def ZL_PAGE_LIMIT_def)

definition demo_env :: store_env where
  "demo_env = \<lparr>se_platform = demo_platform, se_codec = initial_codec, se_origin = ''http://a.b'', se_client = None, se_jar = initial_jar\<rparr>"

definition demo_io :: storage_io where
  "demo_io = \<lparr>io_delete = (\<lambda>r. True), io_put = True, io_index = True\<rparr>"

definition demo_get :: creq where
  "demo_get = \<lparr>cq_url = ''http://a.b/x'', cq_headers = [], cq_destination = ''image'', cq_credentials = ''omit''\<rparr>"

definition demo_reservation :: reservation where
  "demo_reservation = the (store_open demo_env 5 demo_get 200 [(''content-length'', ''3'')] (empty_cache True))"

definition demo_reserved :: cache_run where
  "demo_reserved = reserve_evict demo_io (reserve_count (\<lambda>a b. True)
     (reserve_list demo_reservation \<lparr>cr_cache = empty_cache True, cr_lock = None, cr_bumps = []\<rparr>))"

definition demo_stored :: cache_run where
  "demo_stored = demo_reserved\<lparr>cr_cache := store_put demo_io 7 None [1, 2, 3] 0 (cr_cache demo_reserved)\<rparr>"

lemma demo_stored_eval:
  "map (cp_body \<circ> snd) (pc_entries (cr_cache demo_stored)) = [[1, 2, 3]]" "pc_reserved (cr_cache demo_stored) = 3"
  by code_simp+

lemma demo_stored_runs: "page_runs True demo_stored"
proof -
  have "store_open demo_env 5 demo_get 200 [(''content-length'', ''3'')] (empty_cache True) \<noteq> None" by code_simp
  then have "store_open demo_env 5 demo_get 200 [(''content-length'', ''3'')] (empty_cache True) = Some demo_reservation"
    by (simp add: demo_reservation_def)
  moreover have "headers_wf [(''content-length'', ''3'')]" "hget [(''content-length'', ''3'')] ZL_VARY = None" by code_simp+
  ultimately have r: "page_runs True demo_reserved" unfolding demo_reserved_def
    by (intro page_evict page_count page_list [OF page_start]) simp_all
  have "map ps_done (pc_pending (cr_cache demo_reserved)) = [False]" by code_simp
  then have p: "0 < length (pc_pending (cr_cache demo_reserved))" "\<not> ps_done (pc_pending (cr_cache demo_reserved) ! 0)"
    by (cases "pc_pending (cr_cache demo_reserved)"; simp)+
  have "cr_lock demo_reserved = None" by code_simp
  then show ?thesis using page_put [OF r p, of demo_io 7 None "[1, 2, 3]"] by (simp add: demo_stored_def)
qed

theorem page_cache_byte_budget_witness:
  "page_runs True demo_stored \<and> pc_reserved (cr_cache demo_stored) = 3
    \<and> (\<Sum>e\<leftarrow>pc_entries (cr_cache demo_stored). int (length (cp_body (snd e)))) \<le> 32 * 1024 * 1024"
  using page_cache_byte_budget [OF demo_stored_runs refl] demo_stored_runs demo_stored_eval(2) by simp

text \<open>Nothing removes an \<open>x-zl-final-url\<close> that the upstream response itself carries: an entry stored
  without a final URL of its own is rewritten and refreshed against the value its server chose.\<close>

lemma upstream_final_url_trusted:
  assumes "headers_wf h" "hget h ZL_FINAL_URL = Some u" "ps_headers p = stored_headers env req w h"
  shows "cache_rewrite_base (stored_response now None p body) target = u"
proof -
  note names = internal_names internal_names_other
  have "hget (ps_headers p) ZL_FINAL_URL = Some u"
    using assms names by (auto simp: stored_headers_def store_vary_meta_def hget_page_view_other)
  then show ?thesis
    using names by (simp add: cache_rewrite_base_def stored_response_def Let_def truthy_def)
qed

text \<open>Deleting an entry twice, as two stale hits of one script do, disables storing for the worker's life.\<close>

lemma second_delete_disables:
  assumes "list_ex (entry_matches req) (pc_entries (cr_cache run))" "io_delete io req"
  shows "pc_disabled (cr_cache (delete_drop io req k (delete_forget io (delete_drop io req k run))))"
  using assms
  by (auto simp: delete_drop_def delete_forget_def drop_entry_def forget_entry_def disable_after_eviction_failure_def list_ex_iff
      split: option.splits)

end
