(* ===== verification/Delivery.thy ===== *)
theory Delivery
  imports Transit
begin

text \<open>
  Delivery evidence of the transport boundary (\<open>src/app/src/delivery.ts\<close>), the error classes the
  boundary distinguishes (\<open>isConnectClassError\<close> of \<open>libcurl-transport-vendored.ts\<close>, \<open>WispStallError\<close>
  of \<open>transport.ts\<close>), the lifecycle machine (\<open>transport-lifecycle.ts\<close>) and the count of requests in
  flight (\<open>loadstate.ts\<close>). A thrown value is a \<open>failure\<close>; the provenance map of the source, which
  remembers the state each \<open>TransportDeliveryError\<close> was made with, is the state the constructor
  carries.
\<close>

section \<open>Thrown values\<close>

datatype delivery_transport = ViaWisp | ViaWispRoute | ViaRelay

datatype delivery_state = NotDelivered | DeliveredResponse | DeliveryUnknown

datatype failure =
    ErrorObj string string
  | Value string
  | StallError string
  | DeliveryError delivery_state delivery_transport failure
  | RelayUnknownError string

fun failure_message :: "failure \<Rightarrow> string" where
  "failure_message (ErrorObj n m) = m"
| "failure_message (Value s) = s"
| "failure_message (StallError m) = m"
| "failure_message (DeliveryError st t c) = failure_message c"
| "failure_message (RelayUnknownError r) = r"

fun failure_name :: "failure \<Rightarrow> string" where
  "failure_name (ErrorObj n m) = n"
| "failure_name (Value s) = []"
| "failure_name (StallError m) = ''Error''"
| "failure_name (DeliveryError st t c) = ''TransportDeliveryError''"
| "failure_name (RelayUnknownError r) = ''RelayDeliveryUnknownError''"

text \<open>\<open>String(err)\<close>\<close>

definition failure_text :: "failure \<Rightarrow> string" where
  "failure_text e =
     (if failure_name e = [] then failure_message e
      else if failure_message e = [] then failure_name e
      else failure_name e @ '': '' @ failure_message e)"

text \<open>\<open>err instanceof Error && err.name === "AbortError"\<close>\<close>

fun is_abort :: "failure \<Rightarrow> bool" where
  "is_abort (ErrorObj n m) = (n = ''AbortError'')"
| "is_abort e = False"

section \<open>Evidence\<close>

definition delivery_state_of :: "failure \<Rightarrow> delivery_state" where
  "delivery_state_of e = (case e of DeliveryError st t c \<Rightarrow> st | _ \<Rightarrow> DeliveryUnknown)"

definition after_dispatch_error :: "delivery_transport \<Rightarrow> failure \<Rightarrow> failure" where
  "after_dispatch_error t e =
     (let fresh = DeliveryError DeliveryUnknown t e
      in case e of
           DeliveryError st t' c \<Rightarrow> if st = DeliveryUnknown \<and> t' = t then e else fresh
         | RelayUnknownError r \<Rightarrow> if t = ViaRelay then e else fresh
         | _ \<Rightarrow> fresh)"

definition before_dispatch_failure :: "delivery_transport \<Rightarrow> failure \<Rightarrow> failure" where
  "before_dispatch_failure t e = DeliveryError NotDelivered t e"

definition delivery_allows_replay :: "delivery_state \<Rightarrow> bool \<Rightarrow> bool" where
  "delivery_allows_replay st idempotent =
     (if st = DeliveredResponse then False else st = NotDelivered \<or> idempotent)"

datatype 'r delivery_result = Failed delivery_state delivery_transport failure | Delivered delivery_transport 'r

definition delivery_failure :: "delivery_transport \<Rightarrow> failure \<Rightarrow> delivery_state \<Rightarrow> 'r delivery_result" where
  "delivery_failure t e st =
     Failed st t (if is_abort e then e
       else if st = DeliveryUnknown then after_dispatch_error t e else before_dispatch_failure t e)"

definition attempt_delivery :: "delivery_transport \<Rightarrow> failure + 'r \<Rightarrow> 'r delivery_result" where
  "attempt_delivery t sent =
     (case sent of Inr r \<Rightarrow> Delivered t r | Inl e \<Rightarrow> delivery_failure t e DeliveryUnknown)"

definition delivery_response :: "'r delivery_result \<Rightarrow> failure + 'r" where
  "delivery_response d = (case d of Delivered t r \<Rightarrow> Inr r | Failed st t e \<Rightarrow> Inl e)"

definition prepare_delivery :: "delivery_transport \<Rightarrow> failure option \<Rightarrow> failure option" where
  "prepare_delivery t ready =
     (case ready of None \<Rightarrow> None
      | Some e \<Rightarrow> (case (delivery_failure t e NotDelivered :: unit delivery_result) of Failed st t' c \<Rightarrow> Some c | Delivered t' r \<Rightarrow> None))"

text \<open>Nothing that happens after the call of an adapter disproves delivery, whatever the adapter throws.\<close>

lemma after_dispatch_unknown: "delivery_state_of (after_dispatch_error t e) = DeliveryUnknown"
  by (cases e) (simp_all add: after_dispatch_error_def delivery_state_of_def Let_def)

lemma attempt_unknown:
  "delivery_response (attempt_delivery t sent) = Inl e \<Longrightarrow> delivery_state_of e = DeliveryUnknown"
  by (auto simp: delivery_response_def attempt_delivery_def delivery_failure_def after_dispatch_unknown
      split: sum.splits if_splits elim: is_abort.elims) (auto simp: delivery_state_of_def elim: is_abort.elims)

lemma attempt_sent: "delivery_response (attempt_delivery t sent) = Inr r \<longleftrightarrow> sent = Inr r"
  by (auto simp: delivery_response_def attempt_delivery_def delivery_failure_def split: sum.splits)

section \<open>Error classes\<close>

text \<open>The unwrapping loop of \<open>deliveryCause\<close>: at most eight layers.\<close>

fun unwrap_cause :: "nat \<Rightarrow> failure \<Rightarrow> failure" where
  "unwrap_cause (Suc n) (DeliveryError st t c) = unwrap_cause n c"
| "unwrap_cause (Suc n) (RelayUnknownError r) = Value r"
| "unwrap_cause n e = e"

definition delivery_cause :: "failure \<Rightarrow> failure" where
  "delivery_cause = unwrap_cause 8"

text \<open>\<open>error code (?:7|35|52|55|56)\b\<close>\<close>

definition error_code_at :: "string \<Rightarrow> unit option" where
  "error_code_at s =
     (if list_ex (\<lambda>n. starts_with s (''error code '' @ n)
           \<and> (case drop (length (''error code '' @ n)) s of [] \<Rightarrow> True | c # _ \<Rightarrow> \<not> is_word_char c))
           [''7'', ''35'', ''52'', ''55'', ''56'']
      then Some () else None)"

definition CONNECT_PHRASES :: "string list" where
  "CONNECT_PHRASES =
     [''websocket did not open'', ''failed sending data'', ''failure when receiving data'', ''server returned nothing'',
      ''muxtaskended'', ''multiplexor task ended'', ''wisp transport already closed'',
      ''failed to send multiplexor message'', ''failed to receive multiplexor message'',
      ''websocket implementation error: websocket closed'']"

definition is_connect_class :: "failure \<Rightarrow> bool" where
  "is_connect_class e \<longleftrightarrow>
     (let s = js_lower (failure_text e)
      in list_ex (str_includes s) CONNECT_PHRASES \<or> find_match error_code_at s \<noteq> None)"

definition is_stall :: "failure \<Rightarrow> bool" where
  "is_stall e = (case e of StallError m \<Rightarrow> True | _ \<Rightarrow> False)"

section \<open>Lifecycle\<close>

datatype transport_state = TIdle | TConnecting | TConnected | TDead

text \<open>The listeners are the pending waits, in subscription order; the answers are a log.\<close>

record lifecycle =
  tl_state :: transport_state
  tl_waits :: "(nat \<times> transport_state) list"
  tl_next :: nat
  tl_answers :: "(nat \<times> bool) list"

definition initial_lifecycle :: lifecycle where
  "initial_lifecycle = \<lparr>tl_state = TIdle, tl_waits = [], tl_next = 0, tl_answers = []\<rparr>"

definition set_transport_state :: "transport_state \<Rightarrow> lifecycle \<Rightarrow> lifecycle" where
  "set_transport_state next l =
     (if next = tl_state l then l
      else l\<lparr>tl_state := next, tl_waits := filter (\<lambda>(i, t). t \<noteq> next) (tl_waits l),
             tl_answers := tl_answers l @ map (\<lambda>(i, t). (i, True)) (filter (\<lambda>(i, t). t = next) (tl_waits l))\<rparr>)"

definition wait_for_transport_state :: "transport_state \<Rightarrow> lifecycle \<Rightarrow> lifecycle" where
  "wait_for_transport_state target l =
     (if tl_state l = target
      then l\<lparr>tl_next := Suc (tl_next l), tl_answers := tl_answers l @ [(tl_next l, True)]\<rparr>
      else l\<lparr>tl_next := Suc (tl_next l), tl_waits := tl_waits l @ [(tl_next l, target)]\<rparr>)"

definition wait_timeout :: "nat \<Rightarrow> lifecycle \<Rightarrow> lifecycle" where
  "wait_timeout i l =
     (if i \<in> fst ` set (tl_waits l)
      then l\<lparr>tl_waits := filter (\<lambda>(j, t). j \<noteq> i) (tl_waits l), tl_answers := tl_answers l @ [(i, False)]\<rparr>
      else l)"

datatype lifecycle_event = Transition transport_state | Wait transport_state | Timeout nat

fun lifecycle_step :: "lifecycle_event \<Rightarrow> lifecycle \<Rightarrow> lifecycle" where
  "lifecycle_step (Transition s) = set_transport_state s"
| "lifecycle_step (Wait s) = wait_for_transport_state s"
| "lifecycle_step (Timeout i) = wait_timeout i"

text \<open>Every wait is pending or answered, never both and never twice, and no pending wait asks for the
  state the machine is in.\<close>

definition lifecycle_ok :: "lifecycle \<Rightarrow> bool" where
  "lifecycle_ok l \<longleftrightarrow>
     mset (map fst (tl_waits l) @ map fst (tl_answers l)) = mset [0..<tl_next l]
     \<and> (\<forall>w \<in> set (tl_waits l). snd w \<noteq> tl_state l)"

lemma mset_partition_map:
  "mset (map f (filter (\<lambda>x. \<not> P x) xs)) + (mset (map f (filter P xs)) + M) = mset (map f xs) + M"
  by (induction xs) auto

lemma filter_distinct_key:
  "distinct (map fst ws) \<Longrightarrow> i \<in> fst ` set ws \<Longrightarrow> mset (map fst (filter (\<lambda>w. fst w = i) ws)) = {#i#}"
  by (induction ws) (auto simp: filter_empty_conv image_iff)

lemma lifecycle_ok_step: "lifecycle_ok l \<Longrightarrow> lifecycle_ok (lifecycle_step e l)"
proof (cases e)
  case (Transition s)
  assume ok: "lifecycle_ok l"
  show ?thesis
    using ok mset_partition_map [of fst "\<lambda>w. snd w = s" "tl_waits l" "mset (map fst (tl_answers l))"]
    by (simp add: Transition lifecycle_ok_def set_transport_state_def case_prod_unfold
        image_mset.compositionality comp_def union_ac)
next
  case (Wait s)
  assume ok: "lifecycle_ok l"
  then show ?thesis by (auto simp: Wait lifecycle_ok_def wait_for_transport_state_def atLeast0_lessThan_Suc)
next
  case (Timeout i)
  assume ok: "lifecycle_ok l"
  show ?thesis
  proof (cases "i \<in> fst ` set (tl_waits l)")
    case True
    have "distinct (map fst (tl_waits l) @ map fst (tl_answers l))"
      using ok by (metis distinct_upt lifecycle_ok_def mset_eq_imp_distinct_iff)
    then have "mset (map fst (filter (\<lambda>w. fst w = i) (tl_waits l))) = {#i#}"
      using True by (intro filter_distinct_key) simp_all
    then show ?thesis
      using ok True mset_partition_map [of fst "\<lambda>w. fst w = i" "tl_waits l" "mset (map fst (tl_answers l))"]
      by (simp add: Timeout lifecycle_ok_def wait_timeout_def case_prod_beta)
  qed (use ok in \<open>simp add: Timeout wait_timeout_def\<close>)
qed

lemma lifecycle_ok_run: "lifecycle_ok (fold lifecycle_step es initial_lifecycle)"
proof -
  have "lifecycle_ok l \<Longrightarrow> lifecycle_ok (fold lifecycle_step es l)" for l
    by (induction es arbitrary: l) (simp_all add: lifecycle_ok_step)
  then show ?thesis by (simp add: lifecycle_ok_def initial_lifecycle_def)
qed

section \<open>Requests in flight\<close>

type_synonym load_counts = "(string, nat) omap"

definition load_host :: "platform \<Rightarrow> string \<Rightarrow> string" where
  "load_host pf dest = (case new_url pf dest of Some u \<Rightarrow> url_host u | None \<Rightarrow> [])"

definition load_enter :: "platform \<Rightarrow> string \<Rightarrow> load_counts \<Rightarrow> load_counts" where
  "load_enter pf dest m =
     (let h = load_host pf dest
      in if h = [] then m else AList.update h ((case map_of m h of Some n \<Rightarrow> n | None \<Rightarrow> 0) + 1) m)"

definition load_leave :: "platform \<Rightarrow> string \<Rightarrow> load_counts \<Rightarrow> load_counts" where
  "load_leave pf dest m =
     (let h = load_host pf dest
      in if h = [] then m
         else let left = (case map_of m h of Some n \<Rightarrow> n | None \<Rightarrow> 1) - 1
              in if 0 < left then AList.update h left m else AList.delete h m)"

definition load_inflight :: "string option \<Rightarrow> load_counts \<Rightarrow> nat" where
  "load_inflight host m =
     (case truthy host of Some h \<Rightarrow> (case map_of m h of Some n \<Rightarrow> n | None \<Rightarrow> 0)
      | None \<Rightarrow> (\<Sum>(h, n)\<leftarrow>m. n))"

lemma load_count:
  "h \<noteq> [] \<Longrightarrow> load_inflight (Some h) (load_enter pf dest m)
     = load_inflight (Some h) m + (if load_host pf dest = h then 1 else 0)"
  "h \<noteq> [] \<Longrightarrow> load_inflight (Some h) (load_leave pf dest m)
     = load_inflight (Some h) m - (if load_host pf dest = h then 1 else 0)"
  by (auto simp: load_inflight_def truthy_def load_enter_def load_leave_def Let_def split: option.splits)

text \<open>A request that leaves takes exactly its own contribution away, whatever entered or left between.\<close>

lemma load_balanced:
  "h \<noteq> [] \<Longrightarrow> load_inflight (Some h) (load_leave pf dest (load_enter pf dest m)) = load_inflight (Some h) m"
  by (simp add: load_count)

end
