(* ===== verification/Relay.thy ===== *)
theory Relay
  imports Delivery
begin

text \<open>
  The embedder relay of \<open>src/app/src/relayfetch.ts\<close>. One relayed fetch is a state machine: the frames
  the waiter receives from the port, the consumer's reads (the race for the head, then the pulls of
  the response stream), the header deadline, the stale-channel probe, the caller's abort and the
  cancellation of the stream are its events, in any order. \<open>rf_taking\<close> says that a read is parked on
  \<open>wake\<close>. The port keeps a log of the frames posted on it; posting on a dead port throws.
  The registration of the port and the bounded wait for a new registration are a second machine.
\<close>

section \<open>Frames\<close>

datatype relay_msg =
    RelayHead nat "(string \<times> string) list" "string list"
  | RelayChunk "byte list option"
  | RelayEnd
  | RelayError string bool
  | RelayOther string

datatype relay_out = OutFetch string string | OutCredit int | OutCancel

definition RELAY_CREDIT_BYTES :: int where "RELAY_CREDIT_BYTES = 2097152"

definition chunk_bytes :: "relay_msg \<Rightarrow> int" where
  "chunk_bytes m = (case m of RelayChunk (Some bs) \<Rightarrow> int (length bs) | _ \<Rightarrow> 0)"

definition may_fall_back :: "string \<Rightarrow> bool" where
  "may_fall_back m \<longleftrightarrow>
     js_lower m \<in> set [''get'', ''head'', ''options'', ''put'', ''delete'', ''trace'']"

section \<open>Header deadline\<close>

text \<open>A request body: strings and buffers can ride the port; blobs, views and parameter lists can only be
  replayed; a stream can be read once.\<close>

datatype relay_body = NoBody | TextBody string | BufferBody "byte list" | ObjectBody "byte list" | StreamBody

definition multipart_form :: "string \<Rightarrow> bool" where
  "multipart_form ct \<longleftrightarrow>
     starts_with (js_lower ct) ''multipart/form-data''
     \<and> (case drop (length ''multipart/form-data'') ct of [] \<Rightarrow> True | c # _ \<Rightarrow> \<not> is_word_char c)"

definition body_measure :: "relay_body \<Rightarrow> int" where
  "body_measure b = (case b of TextBody s \<Rightarrow> int (length s) | BufferBody bs \<Rightarrow> int (length bs) | _ \<Rightarrow> 0)"

definition relay_header_deadline_ms :: "headers \<Rightarrow> relay_body \<Rightarrow> int" where
  "relay_header_deadline_ms h b =
     (if b \<noteq> NoBody \<and> (524288 < body_measure b
           \<or> multipart_form (case hget h ''content-type'' of Some v \<Rightarrow> v | None \<Rightarrow> []))
      then 600000 else 60000)"

section \<open>One relayed fetch\<close>

text \<open>How \<open>relayFetchRaw\<close> ends: the value of \<open>dispatched\<close> beside null, and beside what it throws.\<close>

datatype relay_answer =
    AnsNull bool
  | AnsThrow failure bool
  | AnsResponse nat "(string \<times> string) list" "string list" bool

text \<open>Racing for the head; streaming the body; the outcome of the stream.\<close>

datatype relay_phase = Heading | Streaming | StreamClosed | StreamFailed failure | StreamCancelled | NoStream

record relay_fetch =
  rf_queue :: "relay_msg list"
  rf_bytes :: int
  rf_terminal :: bool
  rf_aborted :: bool
  rf_listening :: bool
  rf_taking :: bool
  rf_posted :: "relay_out list"
  rf_port_ok :: bool
  rf_crediting :: bool
  rf_method :: string
  rf_phase :: relay_phase
  rf_answer :: "relay_answer option"
  rf_page :: "byte list"

definition abort_error :: failure where
  "abort_error = ErrorObj ''AbortError'' ''The operation was aborted.''"

text \<open>\<open>cancelUpstream\<close>: a dead port is ignored.\<close>

definition cancel_upstream :: "relay_fetch \<Rightarrow> relay_fetch" where
  "cancel_upstream s = (if rf_port_ok s then s\<lparr>rf_posted := rf_posted s @ [OutCancel]\<rparr> else s)"

definition relay_cleanup :: "relay_fetch \<Rightarrow> relay_fetch" where
  "relay_cleanup s = s\<lparr>rf_queue := [], rf_bytes := 0, rf_listening := False\<rparr>"

definition failed_after_dispatch :: "string \<Rightarrow> string \<Rightarrow> relay_answer" where
  "failed_after_dispatch meth reason =
     (if may_fall_back meth then AnsNull True
      else AnsThrow (RelayUnknownError (''relay delivery outcome unknown; request not retried: '' @ reason)) True)"

definition relay_answered :: "relay_answer \<Rightarrow> relay_phase \<Rightarrow> relay_fetch \<Rightarrow> relay_fetch" where
  "relay_answered a p s = s\<lparr>rf_answer := Some a, rf_phase := p\<rparr>"

text \<open>What the code does with the first frame. A status the \<open>Response\<close> constructor refuses throws.\<close>

definition null_body :: "string \<Rightarrow> nat \<Rightarrow> bool" where
  "null_body meth status \<longleftrightarrow> js_lower meth = ''head'' \<or> status \<in> {204, 205, 304}"

definition relay_first :: "relay_msg \<Rightarrow> relay_fetch \<Rightarrow> relay_fetch" where
  "relay_first m s =
     (case m of
        RelayError e undelivered \<Rightarrow>
          relay_answered (if undelivered then AnsNull False else failed_after_dispatch (rf_method s) e) NoStream (relay_cleanup s)
      | RelayHead status hs cs \<Rightarrow>
          if status < 200 \<or> 599 < status
          then relay_answered (AnsThrow (ErrorObj ''RangeError'' []) True) NoStream
            (cancel_upstream (relay_cleanup
              (if null_body (rf_method s) status then cancel_upstream (relay_cleanup s) else s)))
          else if null_body (rf_method s) status
          then relay_answered (AnsResponse status hs cs False) NoStream (cancel_upstream (relay_cleanup s))
          else relay_answered (AnsResponse status hs cs True) Streaming s
      | _ \<Rightarrow> relay_answered (failed_after_dispatch (rf_method s) ''invalid relay response'') NoStream
               (cancel_upstream (relay_cleanup s)))"

text \<open>What a pull does with a frame.\<close>

definition relay_pulled :: "relay_msg \<Rightarrow> relay_fetch \<Rightarrow> relay_fetch" where
  "relay_pulled m s =
     (case m of
        RelayChunk b \<Rightarrow>
          let bs = (case b of Some bs \<Rightarrow> bs | None \<Rightarrow> []); s = s\<lparr>rf_page := rf_page s @ bs\<rparr>
          in if \<not> rf_crediting s then s
             else if rf_port_ok s then s\<lparr>rf_posted := rf_posted s @ [OutCredit (int (length bs))]\<rparr>
             else (cancel_upstream (relay_cleanup s))\<lparr>rf_phase := StreamFailed (ErrorObj ''InvalidStateError'' [])\<rparr>
      | RelayEnd \<Rightarrow> (relay_cleanup s)\<lparr>rf_phase := StreamClosed\<rparr>
      | RelayError e _ \<Rightarrow> (relay_cleanup s)\<lparr>rf_phase := StreamFailed (ErrorObj ''Error'' e)\<rparr>
      | _ \<Rightarrow> (relay_cleanup s)\<lparr>rf_phase := StreamFailed (ErrorObj ''Error'' ''relay protocol fault'')\<rparr>)"

definition relay_consume :: "relay_msg \<Rightarrow> relay_fetch \<Rightarrow> relay_fetch" where
  "relay_consume m s = (case rf_phase s of Heading \<Rightarrow> relay_first m s | Streaming \<Rightarrow> relay_pulled m s | _ \<Rightarrow> s)"

text \<open>\<open>take\<close>: an aborted fetch rejects, a queued frame is taken, otherwise the read parks.\<close>

definition relay_rejected :: "relay_fetch \<Rightarrow> relay_fetch" where
  "relay_rejected s =
     (case rf_phase s of
        Heading \<Rightarrow> relay_answered (AnsThrow abort_error True) NoStream (relay_cleanup s)
      | Streaming \<Rightarrow> (relay_cleanup s)\<lparr>rf_phase := StreamFailed abort_error\<rparr>
      | _ \<Rightarrow> s)"

definition relay_take :: "relay_fetch \<Rightarrow> relay_fetch" where
  "relay_take s =
     (if rf_aborted s then relay_rejected s
      else case rf_queue s of
          [] \<Rightarrow> s\<lparr>rf_taking := True\<rparr>
        | m # q \<Rightarrow> relay_consume m (s\<lparr>rf_queue := q, rf_bytes := rf_bytes s - chunk_bytes m\<rparr>))"

definition relay_wake :: "relay_fetch \<Rightarrow> relay_fetch" where
  "relay_wake s = (if rf_taking s then relay_take (s\<lparr>rf_taking := False\<rparr>) else s)"

text \<open>The waiter: an invalid chunk, four mebibytes or 4096 frames end the fetch.\<close>

definition relay_frame :: "relay_msg \<Rightarrow> relay_fetch \<Rightarrow> relay_fetch" where
  "relay_frame m s =
     (if \<not> rf_listening s \<or> rf_terminal s then s
      else if m = RelayChunk None \<or> RELAY_CREDIT_BYTES * 2 < rf_bytes s + chunk_bytes m \<or> 4096 \<le> length (rf_queue s)
      then relay_wake (cancel_upstream (s\<lparr>rf_terminal := True, rf_listening := False, rf_bytes := 0,
             rf_queue := [RelayError (if m = RelayChunk None then ''invalid relay chunk''
                                      else ''relay response queue limit exceeded'') False]\<rparr>))
      else relay_wake (s\<lparr>rf_bytes := rf_bytes s + chunk_bytes m, rf_queue := rf_queue s @ [m]\<rparr>))"

definition relay_abort :: "relay_fetch \<Rightarrow> relay_fetch" where
  "relay_abort s =
     (if rf_aborted s then s
      else relay_wake ((cancel_upstream (s\<lparr>rf_aborted := True, rf_queue := [], rf_bytes := 0\<rparr>))\<lparr>rf_listening := False\<rparr>))"

text \<open>The deadline settles the race before it aborts, so its rejection is not seen.\<close>

definition relay_deadline :: "relay_fetch \<Rightarrow> relay_fetch" where
  "relay_deadline s =
     (if rf_phase s \<noteq> Heading then s
      else relay_answered (failed_after_dispatch (rf_method s) ''header deadline exceeded'') NoStream
             (relay_cleanup (cancel_upstream (s\<lparr>rf_aborted := True, rf_taking := False\<rparr>))))"

definition relay_stale :: "relay_fetch \<Rightarrow> relay_fetch" where
  "relay_stale s =
     (if rf_phase s \<noteq> Heading then s
      else relay_answered (failed_after_dispatch (rf_method s) ''header deadline exceeded'') NoStream
             (relay_cleanup (s\<lparr>rf_taking := False\<rparr>)))"

text \<open>The page cancels the stream: the source drops its queue and its reads.\<close>

definition relay_stream_cancel :: "relay_fetch \<Rightarrow> relay_fetch" where
  "relay_stream_cancel s =
     (if rf_phase s \<noteq> Streaming then s
      else (relay_cleanup (relay_abort (s\<lparr>rf_taking := False\<rparr>)))\<lparr>rf_phase := StreamCancelled\<rparr>)"

datatype relay_event = Frame relay_msg | Pull | CallerAbort | HeaderDeadline | StaleProbe | StreamCancel | PortDies

text \<open>A pull comes only while the body streams and no earlier pull is pending.\<close>

fun relay_event_step :: "relay_event \<Rightarrow> relay_fetch \<Rightarrow> relay_fetch" where
  "relay_event_step (Frame m) s = relay_frame m s"
| "relay_event_step Pull s = (if rf_phase s = Streaming \<and> \<not> rf_taking s then relay_take s else s)"
| "relay_event_step CallerAbort s = (if rf_phase s \<in> {Heading, Streaming} then relay_abort s else s)"
| "relay_event_step HeaderDeadline s = relay_deadline s"
| "relay_event_step StaleProbe s = relay_stale s"
| "relay_event_step StreamCancel s = relay_stream_cancel s"
| "relay_event_step PortDies s = s\<lparr>rf_port_ok := False\<rparr>"

definition relay_run :: "relay_event list \<Rightarrow> relay_fetch \<Rightarrow> relay_fetch" where
  "relay_run = fold relay_event_step"

text \<open>The start: what cannot ride the port answers null before anything is sent, an aborted caller
  throws, and the first post is the dispatch.\<close>

definition dispatched_fetch :: "string \<Rightarrow> string \<Rightarrow> bool \<Rightarrow> bool \<Rightarrow> relay_fetch" where
  "dispatched_fetch meth dest port_ok crediting =
     \<lparr>rf_queue = [], rf_bytes = 0, rf_terminal = False, rf_aborted = False, rf_listening = True, rf_taking = True,
      rf_posted = OutFetch meth dest # (if crediting then [OutCredit RELAY_CREDIT_BYTES] else []), rf_port_ok = port_ok,
      rf_crediting = crediting, rf_method = meth, rf_phase = Heading, rf_answer = None, rf_page = []\<rparr>"

definition port_can_carry :: "relay_body \<Rightarrow> bool" where
  "port_can_carry b = (case b of ObjectBody bs \<Rightarrow> False | StreamBody \<Rightarrow> False | _ \<Rightarrow> True)"

definition relay_start ::
  "bool \<Rightarrow> bool \<Rightarrow> bool \<Rightarrow> bool \<Rightarrow> string \<Rightarrow> relay_body \<Rightarrow> string \<Rightarrow> relay_answer + relay_fetch" where
  "relay_start has_port port_ok crediting aborted meth body dest =
     (if \<not> has_port \<or> \<not> port_can_carry body then Inl (AnsNull False)
      else if aborted then Inl (AnsThrow abort_error False)
      else if \<not> port_ok then Inl (AnsThrow (ErrorObj ''InvalidStateError'' []) True)
      else Inr (dispatched_fetch meth dest port_ok crediting))"

text \<open>The typed result and the facade over it.\<close>

definition relay_fetch_result :: "relay_answer \<Rightarrow> relay_answer delivery_result" where
  "relay_fetch_result a =
     (case a of
        AnsResponse st hs cs b \<Rightarrow> Delivered ViaRelay a
      | AnsNull dispatched \<Rightarrow>
          delivery_failure ViaRelay (ErrorObj ''Error'' (if dispatched then ''relay response unavailable after dispatch''
              else ''relay cannot carry request''))
            (if dispatched then DeliveryUnknown else NotDelivered)
      | AnsThrow e dispatched \<Rightarrow> delivery_failure ViaRelay e (if dispatched then DeliveryUnknown else NotDelivered))"

text \<open>\<open>relayFetch\<close>: a response, null (\<open>Inr None\<close>) or a thrown error. \<open>before\<close> is the caller's abort
  reason when it is aborted already, \<open>after\<close> says whether it is aborted when the result is read.\<close>

definition relay_fetch_facade :: "failure option \<Rightarrow> bool \<Rightarrow> string \<Rightarrow> relay_answer \<Rightarrow> failure + relay_answer option" where
  "relay_fetch_facade before after meth a =
     (case before of Some reason \<Rightarrow> Inl reason
      | None \<Rightarrow>
        (case relay_fetch_result a of
           Delivered t r \<Rightarrow> Inr (Some r)
         | Failed st t e \<Rightarrow>
             if after \<or> is_abort e then Inl e
             else if st = NotDelivered \<or> may_fall_back meth then Inr None
             else (case e of RelayUnknownError r \<Rightarrow> Inl e
                   | _ \<Rightarrow> Inl (RelayUnknownError ''relay delivery outcome unknown; request not retried''))))"


section \<open>Registration\<close>

text \<open>The port is known by the count of its registration; the answers are a log.\<close>

record relay_registry =
  rr_port :: "nat option"
  rr_credits :: bool
  rr_waiters :: "nat list"
  rr_backoff :: int
  rr_next :: nat
  rr_answers :: "(nat \<times> bool) list"

definition relay_register :: "nat \<Rightarrow> bool \<Rightarrow> relay_registry \<Rightarrow> relay_registry" where
  "relay_register port credits g =
     g\<lparr>rr_port := Some port, rr_credits := credits, rr_waiters := [],
       rr_answers := rr_answers g @ map (\<lambda>w. (w, True)) (rr_waiters g)\<rparr>"

definition request_re_register :: "int \<Rightarrow> relay_registry \<Rightarrow> relay_registry" where
  "request_re_register now g =
     (let i = rr_next g; g = g\<lparr>rr_next := Suc i\<rparr>
      in if rr_port g \<noteq> None then g\<lparr>rr_answers := rr_answers g @ [(i, True)]\<rparr>
         else if now < rr_backoff g then g\<lparr>rr_answers := rr_answers g @ [(i, False)]\<rparr>
         else g\<lparr>rr_waiters := rr_waiters g @ [i]\<rparr>)"

definition re_register_expires :: "int \<Rightarrow> nat \<Rightarrow> relay_registry \<Rightarrow> relay_registry" where
  "re_register_expires now i g =
     (if i \<notin> set (rr_waiters g) then g
      else let got = rr_port g \<noteq> None
           in g\<lparr>rr_waiters := remove1 i (rr_waiters g), rr_answers := rr_answers g @ [(i, got)],
                rr_backoff := (if got then rr_backoff g else now + 30000)\<rparr>)"

definition relay_drop_port :: "nat \<Rightarrow> relay_registry \<Rightarrow> relay_registry" where
  "relay_drop_port port g = (if rr_port g = Some port then g\<lparr>rr_port := None\<rparr> else g)"

text \<open>Nobody waits while a port is registered, so a wait that expires answers false.\<close>

definition registry_ok :: "relay_registry \<Rightarrow> bool" where
  "registry_ok g \<longleftrightarrow> rr_waiters g = [] \<or> rr_port g = None"

lemma registry_ok_steps:
  "registry_ok g \<Longrightarrow> registry_ok (relay_register port c g)" "registry_ok g \<Longrightarrow> registry_ok (request_re_register now g)"
  "registry_ok g \<Longrightarrow> registry_ok (re_register_expires now i g)" "registry_ok g \<Longrightarrow> registry_ok (relay_drop_port port g)"
  by (auto simp: registry_ok_def relay_register_def request_re_register_def re_register_expires_def relay_drop_port_def Let_def)

section \<open>The state of a fetch\<close>

definition relay_inv :: "relay_fetch \<Rightarrow> bool" where
  "relay_inv s \<longleftrightarrow>
     rf_bytes s = (\<Sum>m\<leftarrow>rf_queue s. chunk_bytes m) \<and> rf_bytes s \<le> RELAY_CREDIT_BYTES * 2 \<and> length (rf_queue s) \<le> 4096
     \<and> RelayChunk None \<notin> set (rf_queue s)
     \<and> (rf_taking s \<longrightarrow> rf_queue s = [] \<and> \<not> rf_aborted s \<and> \<not> rf_terminal s)
     \<and> (rf_aborted s \<or> rf_phase s \<notin> {Heading, Streaming} \<longrightarrow> rf_queue s = [] \<and> \<not> rf_listening s)
     \<and> (rf_terminal s \<longrightarrow> \<not> rf_listening s)
     \<and> (rf_terminal s \<and> rf_phase s \<in> {Heading, Streaming} \<and> \<not> rf_aborted s \<longrightarrow> (\<exists>e. rf_queue s = [RelayError e False]))
     \<and> (rf_phase s \<in> {Heading, Streaming} \<and> \<not> rf_aborted s \<and> \<not> rf_terminal s \<longrightarrow> rf_listening s)
     \<and> (rf_phase s \<notin> {Heading, Streaming} \<longrightarrow> \<not> rf_taking s)
     \<and> (rf_phase s = Heading \<longleftrightarrow> rf_answer s = None) \<and> (rf_phase s = Heading \<longrightarrow> rf_taking s \<and> rf_page s = [])"

lemma chunk_bytes_nonneg [simp]: "0 \<le> chunk_bytes m"
  by (simp add: chunk_bytes_def split: relay_msg.splits option.splits)

lemma relay_fields [simp]:
  "rf_queue (cancel_upstream s) = rf_queue s" "rf_bytes (cancel_upstream s) = rf_bytes s"
  "rf_terminal (cancel_upstream s) = rf_terminal s" "rf_aborted (cancel_upstream s) = rf_aborted s"
  "rf_listening (cancel_upstream s) = rf_listening s" "rf_taking (cancel_upstream s) = rf_taking s"
  "rf_phase (cancel_upstream s) = rf_phase s" "rf_answer (cancel_upstream s) = rf_answer s"
  "rf_page (cancel_upstream s) = rf_page s" "rf_port_ok (cancel_upstream s) = rf_port_ok s"
  "rf_crediting (cancel_upstream s) = rf_crediting s" "rf_method (cancel_upstream s) = rf_method s"
  by (simp_all add: cancel_upstream_def)

lemmas relay_end_defs = relay_answered_def relay_cleanup_def relay_rejected_def

definition overflows :: "relay_msg \<Rightarrow> relay_fetch \<Rightarrow> bool" where
  "overflows m s \<longleftrightarrow>
     m = RelayChunk None \<or> RELAY_CREDIT_BYTES * 2 < rf_bytes s + chunk_bytes m \<or> 4096 \<le> length (rf_queue s)"

definition broken_frame :: "relay_msg \<Rightarrow> relay_msg" where
  "broken_frame m = RelayError (if m = RelayChunk None then ''invalid relay chunk''
     else ''relay response queue limit exceeded'') False"

definition overflowed :: "relay_fetch \<Rightarrow> relay_fetch" where
  "overflowed s = cancel_upstream (s\<lparr>rf_terminal := True, rf_listening := False, rf_bytes := 0, rf_taking := False,
     rf_queue := []\<rparr>)"

text \<open>The waiter with the parked read it may wake, case by case.\<close>

lemma relay_frame_eq:
  assumes inv: "relay_inv s" and live: "rf_listening s"
  shows "relay_frame m s =
    (if overflows m s
     then if rf_taking s then relay_consume (broken_frame m) (overflowed s)
          else (overflowed s)\<lparr>rf_queue := [broken_frame m]\<rparr>
     else if rf_taking s then relay_consume m (s\<lparr>rf_taking := False\<rparr>)
          else s\<lparr>rf_bytes := rf_bytes s + chunk_bytes m, rf_queue := rf_queue s @ [m]\<rparr>)"
proof (cases "rf_taking s")
  case True
  then have "rf_queue s = []" "rf_bytes s = 0" "\<not> rf_aborted s" "\<not> rf_terminal s"
    using inv by (auto simp: relay_inv_def)
  then show ?thesis
    using True live
    by (cases s) (simp add: relay_frame_def overflows_def broken_frame_def overflowed_def relay_wake_def relay_take_def
        cancel_upstream_def chunk_bytes_def)
next
  case False
  moreover have "\<not> rf_terminal s" using inv live by (auto simp: relay_inv_def)
  ultimately show ?thesis
    using live
    by (cases s) (simp add: relay_frame_def overflows_def broken_frame_def overflowed_def relay_wake_def cancel_upstream_def)
qed

lemma relay_frame_deaf: "\<not> rf_listening s \<Longrightarrow> relay_frame m s = s"
  by (simp add: relay_frame_def)

text \<open>Taking a frame from an invariant queue.\<close>

lemma relay_inv_pulled:
  assumes inv: "relay_inv s" and s: "rf_phase s = Streaming" "\<not> rf_aborted s" "rf_queue s = m # q"
  shows "relay_inv (relay_pulled m (s\<lparr>rf_queue := q, rf_bytes := rf_bytes s - chunk_bytes m\<rparr>))"
proof -
  have "rf_bytes s = chunk_bytes m + (\<Sum>m\<leftarrow>q. chunk_bytes m)" "rf_bytes s \<le> RELAY_CREDIT_BYTES * 2"
    using inv s by (auto simp: relay_inv_def)
  then have "(\<Sum>m\<leftarrow>q. chunk_bytes m) \<le> 4194304"
    using chunk_bytes_nonneg [of m] unfolding RELAY_CREDIT_BYTES_def by linarith
  then show ?thesis
    using inv s
    by (cases m) (auto simp: relay_inv_def relay_pulled_def relay_end_defs Let_def RELAY_CREDIT_BYTES_def split: option.splits)
qed

lemma relay_inv_pulled_now:
  assumes inv: "relay_inv s" and s: "rf_phase s = Streaming" "rf_taking s" and m: "m \<noteq> RelayChunk None"
  shows "relay_inv (relay_pulled m (s\<lparr>rf_taking := False\<rparr>))"
  using inv s m
  by (cases m) (auto simp: relay_inv_def relay_pulled_def relay_end_defs Let_def RELAY_CREDIT_BYTES_def split: option.splits)

lemma relay_inv_first:
  assumes inv: "relay_inv s" and s: "rf_phase s = Heading"
  shows "relay_inv (relay_first m (s\<lparr>rf_taking := False\<rparr>))"
  using inv s
  by (cases m) (auto simp: relay_inv_def relay_first_def relay_end_defs RELAY_CREDIT_BYTES_def)

lemma overflowed_fields [simp]:
  "rf_queue (overflowed s) = []" "rf_bytes (overflowed s) = 0" "rf_terminal (overflowed s)" "\<not> rf_listening (overflowed s)"
  "\<not> rf_taking (overflowed s)" "rf_aborted (overflowed s) = rf_aborted s" "rf_phase (overflowed s) = rf_phase s"
  "rf_answer (overflowed s) = rf_answer s" "rf_page (overflowed s) = rf_page s" "rf_method (overflowed s) = rf_method s"
  by (simp_all add: overflowed_def)

text \<open>A fetch that is over.\<close>

lemma relay_inv_over:
  "rf_phase s \<notin> {Heading, Streaming} \<Longrightarrow> rf_queue s = [] \<Longrightarrow> rf_bytes s = 0 \<Longrightarrow> \<not> rf_listening s \<Longrightarrow> \<not> rf_taking s \<Longrightarrow>
   rf_answer s \<noteq> None \<Longrightarrow> relay_inv s"
  by (simp add: relay_inv_def RELAY_CREDIT_BYTES_def)

lemma relay_inv_overflowed:
  assumes inv: "relay_inv s" and s: "rf_phase s = Heading \<or> rf_phase s = Streaming"
  shows "relay_inv (relay_consume (broken_frame m) (overflowed s))"
proof (cases "rf_phase s = Heading")
  case True
  then show ?thesis
    by (intro relay_inv_over) (simp_all add: relay_consume_def relay_first_def broken_frame_def relay_end_defs)
next
  case False
  then have "rf_phase s = Streaming" "rf_answer s \<noteq> None" using inv s by (auto simp: relay_inv_def)
  then show ?thesis
    by (intro relay_inv_over) (simp_all add: relay_consume_def relay_pulled_def broken_frame_def relay_end_defs)
qed

lemma relay_inv_unread:
  "relay_inv s \<Longrightarrow> rf_listening s \<Longrightarrow> \<not> rf_taking s \<Longrightarrow>
   rf_phase s = Streaming \<and> \<not> rf_aborted s \<and> \<not> rf_terminal s \<and> rf_answer s \<noteq> None"
  unfolding relay_inv_def by blast

lemma relay_inv_frame:
  assumes inv: "relay_inv s"
  shows "relay_inv (relay_frame m s)"
proof (cases "rf_listening s")
  case False
  then show ?thesis using inv by (simp add: relay_frame_deaf)
next
  case live: True
  have phase: "rf_phase s = Heading \<or> rf_phase s = Streaming" using inv live by (simp add: relay_inv_def) blast
  consider "overflows m s" "rf_taking s" | "overflows m s" "\<not> rf_taking s" | "\<not> overflows m s" "rf_taking s"
    | "\<not> overflows m s" "\<not> rf_taking s" by blast
  then show ?thesis
  proof cases
    case 1
    then show ?thesis using relay_inv_overflowed [OF inv phase] by (simp add: relay_frame_eq [OF inv live])
  next
    case 2
    then show ?thesis
      using relay_inv_unread [OF inv live] by (simp add: relay_frame_eq [OF inv live]) (simp add: relay_inv_def broken_frame_def chunk_bytes_def RELAY_CREDIT_BYTES_def)
  next
    case 3
    then have "m \<noteq> RelayChunk None" by (simp add: overflows_def)
    then have "relay_inv (relay_consume m (s\<lparr>rf_taking := False\<rparr>))"
      using phase 3(2) relay_inv_first [OF inv] relay_inv_pulled_now [OF inv] by (auto simp: relay_consume_def)
    then show ?thesis using 3 by (simp add: relay_frame_eq [OF inv live])
  next
    case 4
    then show ?thesis
      using relay_inv_unread [OF inv live] inv live by (simp add: relay_frame_eq [OF inv live]) (auto simp: relay_inv_def overflows_def not_less)
  qed
qed

text \<open>The other events.\<close>

lemma relay_inv_rejected:
  "rf_phase s = Heading \<or> rf_phase s = Streaming \<and> rf_answer s \<noteq> None \<Longrightarrow> \<not> rf_taking s \<Longrightarrow> relay_inv (relay_rejected s)"
  by (rule relay_inv_over) (auto simp: relay_end_defs)

lemma relay_inv_take:
  assumes inv: "relay_inv s" and s: "rf_phase s = Streaming" "\<not> rf_taking s"
  shows "relay_inv (relay_take s)"
proof (cases "rf_aborted s")
  case True
  moreover have "rf_answer s \<noteq> None" using inv s by (simp add: relay_inv_def)
  ultimately show ?thesis using s relay_inv_rejected [of s] by (simp add: relay_take_def)
next
  case live: False
  show ?thesis
  proof (cases "rf_queue s")
    case Nil
    then show ?thesis using inv s live by (simp add: relay_take_def relay_inv_def)
  next
    case (Cons m q)
    then show ?thesis
      using live s relay_inv_pulled [OF inv s(1) live Cons] by (simp add: relay_take_def relay_consume_def)
  qed
qed


lemma relay_abort_eq:
  assumes inv: "relay_inv s"
  shows "relay_abort s =
    (if rf_aborted s then s
     else if rf_taking s
     then relay_rejected ((cancel_upstream (s\<lparr>rf_aborted := True, rf_queue := [], rf_bytes := 0\<rparr>))\<lparr>rf_listening := False, rf_taking := False\<rparr>)
     else (cancel_upstream (s\<lparr>rf_aborted := True, rf_queue := [], rf_bytes := 0\<rparr>))\<lparr>rf_listening := False\<rparr>)"
  by (simp add: relay_abort_def relay_wake_def relay_take_def)

lemma relay_inv_abort:
  assumes inv: "relay_inv s" and s: "rf_phase s \<in> {Heading, Streaming}"
  shows "relay_inv (relay_abort s)"
proof -
  consider "rf_aborted s" | "\<not> rf_aborted s" "rf_taking s" | "\<not> rf_aborted s" "\<not> rf_taking s" by blast
  then show ?thesis
  proof cases
    case 2
    have "rf_phase s = Heading \<or> rf_phase s = Streaming \<and> rf_answer s \<noteq> None" using inv s by (auto simp: relay_inv_def)
    then show ?thesis using 2 by (simp add: relay_abort_eq [OF inv] relay_inv_rejected)
  next
    case 3
    then have "rf_phase s = Streaming" "rf_answer s \<noteq> None" using inv s by (auto simp: relay_inv_def)
    then show ?thesis using 3 by (simp add: relay_abort_eq [OF inv]) (simp add: relay_inv_def RELAY_CREDIT_BYTES_def)
  qed (use inv in \<open>simp add: relay_abort_def\<close>)
qed

lemma relay_inv_step: "relay_inv s \<Longrightarrow> relay_inv (relay_event_step e s)"
proof (cases e)
  case (Frame m)
  assume "relay_inv s"
  then show ?thesis by (simp add: Frame relay_inv_frame)
next
  case Pull
  assume "relay_inv s"
  then show ?thesis by (simp add: Pull relay_inv_take)
next
  case CallerAbort
  assume "relay_inv s"
  then show ?thesis by (simp add: CallerAbort relay_inv_abort)
next
  case HeaderDeadline
  assume inv: "relay_inv s"
  show ?thesis
  proof (cases "rf_phase s = Heading")
    case True
    then show ?thesis unfolding HeaderDeadline by (simp add: relay_deadline_def, intro relay_inv_over) (simp_all add: relay_end_defs)
  qed (use inv in \<open>simp add: HeaderDeadline relay_deadline_def\<close>)
next
  case StaleProbe
  assume inv: "relay_inv s"
  show ?thesis
  proof (cases "rf_phase s = Heading")
    case True
    then show ?thesis unfolding StaleProbe by (simp add: relay_stale_def, intro relay_inv_over) (simp_all add: relay_end_defs)
  qed (use inv in \<open>simp add: StaleProbe relay_stale_def\<close>)
next
  case StreamCancel
  assume inv: "relay_inv s"
  show ?thesis
  proof (cases "rf_phase s = Streaming")
    case True
    then have "rf_answer s \<noteq> None" using inv by (simp add: relay_inv_def)
    then show ?thesis
      unfolding StreamCancel
      by (simp add: relay_stream_cancel_def True, intro relay_inv_over)
        (simp_all add: relay_end_defs relay_abort_def relay_wake_def)
  qed (use inv in \<open>simp add: StreamCancel relay_stream_cancel_def\<close>)
next
  case PortDies
  assume "relay_inv s"
  then show ?thesis by (simp add: PortDies relay_inv_def)
qed

lemma relay_inv_run: "relay_inv (relay_run es (dispatched_fetch meth dest port_ok crediting))"
proof -
  have "relay_inv s \<Longrightarrow> relay_inv (fold relay_event_step es s)" for s
    by (induction es arbitrary: s) (simp_all add: relay_inv_step)
  moreover have "relay_inv (dispatched_fetch meth dest port_ok crediting)"
    by (simp add: relay_inv_def dispatched_fetch_def RELAY_CREDIT_BYTES_def)
  ultimately show ?thesis by (simp add: relay_run_def)
qed

text \<open>Null after a dispatch is only answered for a method that may fall back, and what a running fetch
  throws is thrown after its dispatch.\<close>

definition answer_safe :: "string \<Rightarrow> relay_fetch \<Rightarrow> bool" where
  "answer_safe meth s \<longleftrightarrow> rf_method s = meth \<and> (rf_answer s = Some (AnsNull True) \<longrightarrow> may_fall_back meth)
     \<and> (\<forall>e. rf_answer s \<noteq> Some (AnsThrow e False))"

lemma answer_safe_upd [simp]:
  "answer_safe meth (s\<lparr>rf_queue := a\<rparr>) = answer_safe meth s" "answer_safe meth (s\<lparr>rf_bytes := b\<rparr>) = answer_safe meth s"
  "answer_safe meth (s\<lparr>rf_terminal := c\<rparr>) = answer_safe meth s" "answer_safe meth (s\<lparr>rf_aborted := c\<rparr>) = answer_safe meth s"
  "answer_safe meth (s\<lparr>rf_listening := c\<rparr>) = answer_safe meth s" "answer_safe meth (s\<lparr>rf_taking := c\<rparr>) = answer_safe meth s"
  "answer_safe meth (s\<lparr>rf_phase := p\<rparr>) = answer_safe meth s" "answer_safe meth (s\<lparr>rf_page := d\<rparr>) = answer_safe meth s"
  "answer_safe meth (s\<lparr>rf_posted := o'\<rparr>) = answer_safe meth s" "answer_safe meth (s\<lparr>rf_port_ok := c\<rparr>) = answer_safe meth s"
  by (simp_all add: answer_safe_def)

lemma answer_safe_cancel [simp]: "answer_safe meth (cancel_upstream s) = answer_safe meth s"
  by (simp add: cancel_upstream_def)

lemma answer_safe_answered:
  "answer_safe meth (s\<lparr>rf_answer := Some a\<rparr>) \<longleftrightarrow> rf_method s = meth
     \<and> (a = AnsNull True \<longrightarrow> may_fall_back meth) \<and> (\<forall>e. a \<noteq> AnsThrow e False)"
  by (auto simp: answer_safe_def)

lemma failed_null [simp]: "failed_after_dispatch meth r = AnsNull True \<longleftrightarrow> may_fall_back meth"
  "failed_after_dispatch meth r \<noteq> AnsThrow e False" "failed_after_dispatch meth r \<noteq> AnsNull False"
  by (simp_all add: failed_after_dispatch_def)

lemma answer_safe_method: "answer_safe meth s \<Longrightarrow> rf_method s = meth"
  by (simp add: answer_safe_def)

lemma answer_safe_consume: "answer_safe meth s \<Longrightarrow> answer_safe meth (relay_consume m s)"
proof -
  assume ok: "answer_safe meth s"
  have "answer_safe meth (relay_first m s)"
    using ok by (cases m) (simp_all add: relay_first_def relay_end_defs answer_safe_answered answer_safe_method)
  moreover have "answer_safe meth (relay_pulled m s)"
    using ok by (cases m) (simp_all add: relay_pulled_def relay_end_defs Let_def)
  ultimately show ?thesis using ok by (simp add: relay_consume_def split: relay_phase.split)
qed

lemma answer_safe_take: "answer_safe meth s \<Longrightarrow> answer_safe meth (relay_take s)"
  by (simp add: relay_take_def answer_safe_consume relay_end_defs answer_safe_answered answer_safe_method split: list.split relay_phase.split)

lemma answer_safe_wake: "answer_safe meth s \<Longrightarrow> answer_safe meth (relay_wake s)"
  by (simp add: relay_wake_def answer_safe_take)

lemma answer_safe_step: "answer_safe meth s \<Longrightarrow> answer_safe meth (relay_event_step e s)"
  by (cases e) (simp_all add: relay_frame_def answer_safe_wake answer_safe_take relay_abort_def relay_deadline_def
      relay_stale_def relay_stream_cancel_def relay_end_defs answer_safe_answered answer_safe_method)

lemma answer_safe_run: "answer_safe meth (relay_run es (dispatched_fetch meth dest port_ok crediting))"
proof -
  have "answer_safe meth s \<Longrightarrow> answer_safe meth (fold relay_event_step es s)" for s
    by (induction es arbitrary: s) (simp_all add: answer_safe_step)
  moreover have "answer_safe meth (dispatched_fetch meth dest port_ok crediting)"
    by (simp add: answer_safe_def dispatched_fetch_def)
  ultimately show ?thesis by (simp add: relay_run_def)
qed

section \<open>The channel a fetch implements\<close>

text \<open>
  The abstract channel: before the head nothing is readable; then frames queue up in order, a chunk
  is read by appending its bytes, the end frame closes the channel once everything before it is
  read, and the channel may break at any time before its end.
\<close>

datatype channel = ChanIdle | ChanOpen "relay_msg list" "byte list" | ChanEof "byte list" | ChanBroken "byte list"

fun chan_out :: "channel \<Rightarrow> byte list" where
  "chan_out ChanIdle = []"
| "chan_out (ChanOpen q out) = out"
| "chan_out (ChanEof out) = out"
| "chan_out (ChanBroken out) = out"

definition chan_over :: "channel \<Rightarrow> bool" where
  "chan_over c = (case c of ChanEof out \<Rightarrow> True | ChanBroken out \<Rightarrow> True | _ \<Rightarrow> False)"

inductive chan_steps :: "channel \<Rightarrow> relay_msg list \<Rightarrow> channel \<Rightarrow> bool" for c where
  chan_refl: "chan_steps c [] c"
| chan_head: "chan_steps c fs ChanIdle \<Longrightarrow> chan_steps c (fs @ [RelayHead status hs cs]) (ChanOpen [] [])"
| chan_put: "chan_steps c fs (ChanOpen q out) \<Longrightarrow> chan_steps c (fs @ [m]) (ChanOpen (q @ [m]) out)"
| chan_get: "chan_steps c fs (ChanOpen (RelayChunk (Some bs) # q) out) \<Longrightarrow> chan_steps c fs (ChanOpen q (out @ bs))"
| chan_eof: "chan_steps c fs (ChanOpen (RelayEnd # q) out) \<Longrightarrow> chan_steps c fs (ChanEof out)"
| chan_break: "chan_steps c fs c' \<Longrightarrow> \<not> chan_over c' \<Longrightarrow> chan_steps c fs (ChanBroken (chan_out c'))"
| chan_skip: "chan_steps c fs c' \<Longrightarrow> chan_over c' \<Longrightarrow> chan_steps c (fs @ [m]) c'"

inductive_cases chan_eofE: "chan_steps c fs (ChanEof out)"

text \<open>What a fetch looks like from outside.\<close>

definition abs_channel :: "relay_fetch \<Rightarrow> channel" where
  "abs_channel s =
     (case rf_phase s of
        Heading \<Rightarrow> ChanIdle
      | Streaming \<Rightarrow> if rf_aborted s \<or> rf_terminal s then ChanBroken (rf_page s) else ChanOpen (rf_queue s) (rf_page s)
      | StreamClosed \<Rightarrow> ChanEof (rf_page s)
      | _ \<Rightarrow> ChanBroken (rf_page s))"

fun frames_of :: "relay_event \<Rightarrow> relay_msg list" where
  "frames_of (Frame m) = [m]"
| "frames_of e = []"

lemma chan_pulled:
  assumes opened: "chan_steps c fs (ChanOpen (m # q) (rf_page s))" and s: "rf_phase s = Streaming" "rf_queue s = q"
    "\<not> rf_aborted s" "\<not> rf_terminal s" and m: "m \<noteq> RelayChunk None"
  shows "chan_steps c fs (abs_channel (relay_pulled m s))"
proof -
  have broken: "chan_steps c fs (ChanBroken (rf_page s))"
    using chan_break [OF opened] by (simp add: chan_over_def)
  consider bs where "m = RelayChunk (Some bs)" | "m = RelayEnd" | "\<forall>b. m \<noteq> RelayChunk b" "m \<noteq> RelayEnd"
    using m by (cases m) auto
  then show ?thesis
  proof cases
    case 1
    then have got: "chan_steps c fs (ChanOpen q (rf_page s @ bs))" using chan_get opened by simp
    then have "chan_steps c fs (ChanBroken (rf_page s @ bs))" using chan_break by (fastforce simp: chan_over_def)
    then show ?thesis using got s 1 by (simp add: relay_pulled_def abs_channel_def relay_end_defs Let_def)
  next
    case 2
    then show ?thesis using chan_eof opened by (simp add: relay_pulled_def abs_channel_def relay_end_defs Let_def)
  next
    case 3
    then show ?thesis using broken by (cases m) (simp_all add: relay_pulled_def abs_channel_def relay_end_defs Let_def)
  qed
qed

lemma chan_first:
  assumes idle: "chan_steps c fs ChanIdle" and s: "rf_page s = []" "rf_queue s = []" "\<not> rf_aborted s" "\<not> rf_terminal s"
  shows "chan_steps c (fs @ [m]) (abs_channel (relay_first m s))"
proof -
  have broken: "chan_steps c (fs @ [m]) (ChanBroken [])"
    using chan_skip [OF chan_break [OF idle]] by (simp add: chan_over_def)
  moreover have "\<exists>status hs cs. m = RelayHead status hs cs \<and> abs_channel (relay_first m s) = ChanOpen [] []
      \<or> abs_channel (relay_first m s) = ChanBroken []"
    using s by (cases m) (simp_all add: relay_first_def abs_channel_def relay_end_defs)
  ultimately show ?thesis using chan_head [OF idle] by auto
qed

lemma chan_frame:
  assumes inv: "relay_inv s" and run: "chan_steps c fs (abs_channel s)"
  shows "chan_steps c (fs @ [m]) (abs_channel (relay_frame m s))"
proof (cases "rf_listening s")
  case False
  then have "chan_over (abs_channel s)"
    using inv by (auto simp: relay_inv_def abs_channel_def chan_over_def split: relay_phase.splits)
  then show ?thesis using False run chan_skip by (simp add: relay_frame_deaf)
next
  case live: True
  have st: "\<not> rf_aborted s" "\<not> rf_terminal s" using inv live by (auto simp: relay_inv_def)
  have phase: "rf_phase s = Heading \<or> rf_phase s = Streaming" using inv live unfolding relay_inv_def by blast
  have lost: "chan_steps c (fs @ [m]) (ChanBroken (rf_page s))"
  proof -
    have "\<not> chan_over (abs_channel s)" "chan_out (abs_channel s) = rf_page s"
      using phase st inv by (auto simp: abs_channel_def chan_over_def relay_inv_def)
    then show ?thesis using chan_skip [OF chan_break [OF run]] by (simp add: chan_over_def)
  qed
  consider "overflows m s" "rf_taking s" | "overflows m s" "\<not> rf_taking s"
    | "\<not> overflows m s" "rf_taking s" "rf_phase s = Heading" | "\<not> overflows m s" "rf_taking s" "rf_phase s = Streaming"
    | "\<not> overflows m s" "\<not> rf_taking s" using phase by blast
  then show ?thesis
  proof cases
    case 1
    then have "abs_channel (relay_frame m s) = ChanBroken (rf_page s)"
      using phase
      by (auto simp: relay_frame_eq [OF inv live] relay_consume_def relay_first_def relay_pulled_def broken_frame_def
          relay_end_defs abs_channel_def)
    then show ?thesis using lost by simp
  next
    case 2
    then have "abs_channel (relay_frame m s) = ChanBroken (rf_page s)"
      using relay_inv_unread [OF inv live] by (simp add: relay_frame_eq [OF inv live] abs_channel_def)
    then show ?thesis using lost by simp
  next
    case 3
    then have "rf_page s = []" "rf_queue s = []" "abs_channel s = ChanIdle" using inv by (simp_all add: relay_inv_def abs_channel_def)
    then show ?thesis
      using 3 run st chan_first [of c fs "s\<lparr>rf_taking := False\<rparr>" m] by (simp add: relay_frame_eq [OF inv live] relay_consume_def)
  next
    case 4
    then have q: "rf_queue s = []" using inv by (simp add: relay_inv_def)
    have "chan_steps c (fs @ [m]) (ChanOpen [m] (rf_page s))"
      using chan_put [of c fs "[]"] run 4 st q by (simp add: abs_channel_def)
    moreover have "m \<noteq> RelayChunk None" using 4 by (simp add: overflows_def)
    ultimately show ?thesis
      using 4 st q chan_pulled [of c "fs @ [m]" m "[]" "s\<lparr>rf_taking := False\<rparr>"]
      by (simp add: relay_frame_eq [OF inv live] relay_consume_def)
  next
    case 5
    then show ?thesis
      using relay_inv_unread [OF inv live] run chan_put [of c fs]
      by (simp add: relay_frame_eq [OF inv live] abs_channel_def)
  qed
qed

lemma chan_out_abs: "relay_inv s \<Longrightarrow> chan_out (abs_channel s) = rf_page s"
  by (auto simp: abs_channel_def relay_inv_def split: relay_phase.splits)

lemma chan_event:
  assumes inv: "relay_inv s" and run: "chan_steps c fs (abs_channel s)"
  shows "chan_steps c (fs @ frames_of e) (abs_channel (relay_event_step e s))"
proof -
  have broken: "chan_steps c fs (ChanBroken (rf_page s))" if "rf_phase s = Heading \<or> rf_phase s = Streaming"
  proof (cases "chan_over (abs_channel s)")
    case True
    then have "abs_channel s = ChanBroken (rf_page s)"
      using that by (auto simp: abs_channel_def chan_over_def)
    then show ?thesis using run by simp
  next
    case False
    then show ?thesis using chan_break [OF run] by (simp add: chan_out_abs [OF inv])
  qed
  have fails: "chan_steps c fs (abs_channel s')"
    if "abs_channel s' = ChanBroken (rf_page s)" "rf_phase s = Heading \<or> rf_phase s = Streaming" for s'
    using broken that by simp
  show ?thesis
  proof (cases e)
    case (Frame m)
    then show ?thesis using chan_frame [OF inv run] by simp
  next
    case Pull
    show ?thesis
    proof (cases "rf_phase s = Streaming \<and> \<not> rf_taking s")
      case s: True
      show ?thesis
      proof (cases "rf_aborted s \<or> rf_terminal s")
        case True
        then have "abs_channel (relay_take s) = ChanBroken (rf_page s)"
          using s inv
          by (auto simp: relay_take_def relay_end_defs abs_channel_def relay_inv_def relay_consume_def relay_pulled_def Let_def split: list.splits)
        then show ?thesis using s fails Pull by simp
      next
        case False
        show ?thesis
        proof (cases "rf_queue s")
          case Nil
          then show ?thesis using s False run by (simp add: Pull relay_take_def abs_channel_def)
        next
          case (Cons m q)
          then have "m \<noteq> RelayChunk None" using inv by (auto simp: relay_inv_def)
          then show ?thesis
            using s False Cons run
              chan_pulled [of c fs m q "s\<lparr>rf_queue := q, rf_bytes := rf_bytes s - chunk_bytes m\<rparr>"]
            by (simp add: Pull relay_take_def relay_consume_def abs_channel_def [of s])
        qed
      qed
    qed (use run Pull in auto)
  next
    case CallerAbort
    show ?thesis
    proof (cases "rf_phase s \<in> {Heading, Streaming}")
      case True
      then have "relay_abort s = s \<or> abs_channel (relay_abort s) = ChanBroken (rf_page s)"
      proof (cases "rf_aborted s \<or> rf_taking s")
        case False
        then have "rf_phase s = Streaming" using inv True unfolding relay_inv_def by blast
        then show ?thesis using False by (simp add: relay_abort_eq [OF inv] abs_channel_def)
      qed (use True in \<open>auto simp: relay_abort_eq [OF inv] relay_end_defs abs_channel_def\<close>)
      then show ?thesis using True run fails CallerAbort by auto
    qed (use run CallerAbort in auto)
  next
    case HeaderDeadline
    show ?thesis
    proof (cases "rf_phase s = Heading")
      case True
      then show ?thesis using broken by (simp add: HeaderDeadline relay_deadline_def relay_end_defs abs_channel_def [of "_\<lparr>rf_phase := _\<rparr>"])
    qed (use run in \<open>simp add: HeaderDeadline relay_deadline_def\<close>)
  next
    case StaleProbe
    show ?thesis
    proof (cases "rf_phase s = Heading")
      case True
      then show ?thesis using broken by (simp add: StaleProbe relay_stale_def relay_end_defs abs_channel_def [of "_\<lparr>rf_phase := _\<rparr>"])
    qed (use run in \<open>simp add: StaleProbe relay_stale_def\<close>)
  next
    case StreamCancel
    show ?thesis
    proof (cases "rf_phase s = Streaming")
      case True
      then have "abs_channel (relay_stream_cancel s) = ChanBroken (rf_page s)"
        by (simp add: relay_stream_cancel_def relay_end_defs abs_channel_def relay_abort_def relay_wake_def)
      then show ?thesis using fails True StreamCancel by simp
    qed (use run in \<open>simp add: StreamCancel relay_stream_cancel_def\<close>)
  next
    case PortDies
    moreover have "abs_channel (s\<lparr>rf_port_ok := False\<rparr>) = abs_channel s"
      by (simp add: abs_channel_def split: relay_phase.split)
    ultimately show ?thesis using run by simp
  qed
qed

lemma chan_run:
  "chan_steps ChanIdle (concat (map frames_of es)) (abs_channel (relay_run es (dispatched_fetch meth dest port_ok crediting)))"
proof (induction es rule: rev_induct)
  case Nil
  show ?case using chan_refl [of ChanIdle] by (simp add: relay_run_def dispatched_fetch_def abs_channel_def)
next
  case (snoc e es)
  then show ?case using chan_event [OF relay_inv_run snoc.IH, of e] by (simp add: relay_run_def)
qed

text \<open>What the abstract channel guarantees.\<close>

definition chunk_frames :: "byte list list \<Rightarrow> relay_msg list" where
  "chunk_frames = map (\<lambda>bs. RelayChunk (Some bs))"

definition chan_sound :: "relay_msg list \<Rightarrow> channel \<Rightarrow> bool" where
  "chan_sound fs c =
     (case c of
        ChanIdle \<Rightarrow> fs = []
      | ChanOpen q out \<Rightarrow> \<exists>st hs cs bss. fs = RelayHead st hs cs # chunk_frames bss @ q \<and> out = concat bss
      | ChanEof out \<Rightarrow> \<exists>st hs cs bss rest. fs = RelayHead st hs cs # chunk_frames bss @ RelayEnd # rest \<and> out = concat bss
      | ChanBroken out \<Rightarrow> out = [] \<or> (\<exists>st hs cs bss rest. fs = RelayHead st hs cs # chunk_frames bss @ rest \<and> out = concat bss))"

lemma chan_steps_sound: "chan_steps ChanIdle fs c \<Longrightarrow> chan_sound fs c"
proof (induction rule: chan_steps.induct)
  case chan_refl
  show ?case by (simp add: chan_sound_def)
next
  case (chan_head fs status hs cs)
  then show ?case by (simp add: chan_sound_def chunk_frames_def)
next
  case (chan_put fs q out m)
  then show ?case by (auto simp: chan_sound_def)
next
  case (chan_get fs bs q out)
  then obtain st hs cs bss where "fs = RelayHead st hs cs # chunk_frames bss @ RelayChunk (Some bs) # q" "out = concat bss"
    by (auto simp: chan_sound_def)
  then have "fs = RelayHead st hs cs # chunk_frames (bss @ [bs]) @ q" "out @ bs = concat (bss @ [bs])"
    by (simp_all add: chunk_frames_def)
  then show ?case unfolding chan_sound_def by (simp only: channel.case) blast
next
  case (chan_eof fs q out)
  then obtain st hs cs bss where "fs = RelayHead st hs cs # chunk_frames bss @ RelayEnd # q" "out = concat bss"
    by (auto simp: chan_sound_def)
  then show ?case unfolding chan_sound_def by (simp only: channel.case) blast
next
  case (chan_break fs c')
  show ?case
  proof (cases c')
    case (ChanOpen q out)
    then show ?thesis using chan_break.IH unfolding chan_sound_def by (simp only: channel.case chan_out.simps) blast
  qed (use chan_break in \<open>simp_all add: chan_sound_def chan_over_def\<close>)
next
  case (chan_skip fs c' m)
  then show ?case by (cases c') (fastforce simp: chan_sound_def chan_over_def)+
qed

section \<open>Credits\<close>

definition granted :: "relay_out list \<Rightarrow> int" where
  "granted outs = (\<Sum>x\<leftarrow>outs. case x of OutCredit n \<Rightarrow> n | _ \<Rightarrow> 0)"

text \<open>As long as the port lives the embedder holds credit for exactly the window beyond what the page
  has read: a peer that stays within its credit never has more than the window in the queue.\<close>

definition credit_ok :: "relay_fetch \<Rightarrow> bool" where
  "credit_ok s \<longleftrightarrow> rf_crediting s \<and> (rf_port_ok s \<longrightarrow> granted (rf_posted s) = RELAY_CREDIT_BYTES + int (length (rf_page s)))"

lemma granted_append [simp]: "granted (xs @ ys) = granted xs + granted ys"
  by (simp add: granted_def)

lemma granted_simps [simp]: "granted [] = 0" "granted (OutCancel # xs) = granted xs" "granted (OutCredit n # xs) = n + granted xs"
  "granted (OutFetch a b # xs) = granted xs"
  by (simp_all add: granted_def)

lemma credit_ok_cancel [simp]: "credit_ok (cancel_upstream s) = credit_ok s"
  by (auto simp: credit_ok_def cancel_upstream_def)

lemma credit_ok_fields:
  "rf_crediting s' = rf_crediting s \<Longrightarrow> rf_port_ok s' = rf_port_ok s \<Longrightarrow> rf_posted s' = rf_posted s \<Longrightarrow> rf_page s' = rf_page s \<Longrightarrow>
   credit_ok s' = credit_ok s"
  by (simp add: credit_ok_def)

lemma credit_ok_upd [simp]:
  "credit_ok (s\<lparr>rf_queue := a\<rparr>) = credit_ok s" "credit_ok (s\<lparr>rf_bytes := b\<rparr>) = credit_ok s"
  "credit_ok (s\<lparr>rf_terminal := c\<rparr>) = credit_ok s" "credit_ok (s\<lparr>rf_aborted := c\<rparr>) = credit_ok s"
  "credit_ok (s\<lparr>rf_listening := c\<rparr>) = credit_ok s" "credit_ok (s\<lparr>rf_taking := c\<rparr>) = credit_ok s"
  "credit_ok (s\<lparr>rf_phase := p\<rparr>) = credit_ok s" "credit_ok (s\<lparr>rf_answer := d\<rparr>) = credit_ok s"
  by (simp_all add: credit_ok_def)

lemma credit_ok_consume: "credit_ok s \<Longrightarrow> credit_ok (relay_consume m s)"
proof -
  assume ok: "credit_ok s"
  have "credit_ok (relay_first m s)" using ok by (cases m) (simp_all add: relay_first_def relay_end_defs)
  moreover have "credit_ok (relay_pulled m s)"
  proof (cases m)
    case (RelayChunk b)
    then show ?thesis
      using ok
      by (cases "rf_port_ok s") (auto simp: relay_pulled_def Let_def relay_end_defs credit_ok_def split: option.splits)
  qed (use ok in \<open>simp_all add: relay_pulled_def relay_end_defs\<close>)
  ultimately show ?thesis using ok by (simp add: relay_consume_def split: relay_phase.split)
qed

lemma credit_ok_rejected: "credit_ok s \<Longrightarrow> credit_ok (relay_rejected s)"
  by (simp add: relay_end_defs split: relay_phase.split)

lemma credit_ok_take: "credit_ok s \<Longrightarrow> credit_ok (relay_take s)"
  by (simp add: relay_take_def credit_ok_rejected credit_ok_consume split: list.split)

lemma credit_ok_wake: "credit_ok s \<Longrightarrow> credit_ok (relay_wake s)"
  by (simp add: relay_wake_def credit_ok_take)

lemma credit_ok_step: "credit_ok s \<Longrightarrow> credit_ok (relay_event_step e s)"
  by (cases e) (simp_all add: relay_frame_def credit_ok_wake credit_ok_take relay_abort_def relay_deadline_def relay_stale_def
      relay_stream_cancel_def relay_end_defs, simp add: credit_ok_def)

lemma credit_ok_run: "credit_ok (relay_run es (dispatched_fetch meth dest port_ok True))"
proof -
  have "credit_ok s \<Longrightarrow> credit_ok (fold relay_event_step es s)" for s
    by (induction es arbitrary: s) (simp_all add: credit_ok_step)
  moreover have "credit_ok (dispatched_fetch meth dest port_ok True)" by (simp add: credit_ok_def dispatched_fetch_def)
  ultimately show ?thesis by (simp add: relay_run_def)
qed

section \<open>Properties\<close>

text \<open>C8. The relay machine implements an ordered channel: whatever the order of frames, reads, aborts,
  deadlines, probes and port failures, every state of a fetch is a state the abstract channel reaches
  on the frames the embedder sent so far.\<close>

theorem relay_refines_channel:
  "chan_steps ChanIdle (concat (map frames_of es)) (abs_channel (relay_run es (dispatched_fetch meth dest port_ok crediting)))"
  by (rule chan_run)

text \<open>C25. A relayed body is never silently truncated or reordered: when the page's stream closes, the
  embedder sent a head, chunks and an end in this order and the page holds exactly the bytes of the
  chunks; at every moment what the page holds is the bytes of the first chunks sent.\<close>

theorem relay_body_exact:
  assumes "s = relay_run es (dispatched_fetch meth dest port_ok crediting)" "rf_page s \<noteq> [] \<or> rf_phase s = StreamClosed"
  shows "\<exists>st hs cs bss rest. concat (map frames_of es) = RelayHead st hs cs # map (\<lambda>bs. RelayChunk (Some bs)) bss @ rest
    \<and> rf_page s = concat bss \<and> (rf_phase s = StreamClosed \<longrightarrow> take 1 rest = [RelayEnd])"
proof -
  have sound: "chan_sound (concat (map frames_of es)) (abs_channel s)"
    using chan_steps_sound [OF chan_run] assms(1) by simp
  have inv: "relay_inv s" using relay_inv_run assms(1) by simp
  have page: "\<exists>st hs cs bss rest. concat (map frames_of es) = RelayHead st hs cs # map (\<lambda>bs. RelayChunk (Some bs)) bss @ rest
      \<and> rf_page s = concat bss" if "rf_page s \<noteq> []"
  proof (cases "abs_channel s")
    case (ChanOpen q out)
    then show ?thesis using sound chan_out_abs [OF inv] unfolding chan_sound_def chunk_frames_def by (simp only: channel.case chan_out.simps) blast
  next
    case (ChanEof out)
    then show ?thesis using sound chan_out_abs [OF inv] unfolding chan_sound_def chunk_frames_def by (simp only: channel.case chan_out.simps) blast
  next
    case (ChanBroken out)
    then have "out = rf_page s" using chan_out_abs [OF inv] by simp
    then show ?thesis using ChanBroken that sound unfolding chan_sound_def chunk_frames_def by (simp only: channel.case) blast
  qed (use that chan_out_abs [OF inv] in simp)
  show ?thesis
  proof (cases "rf_phase s = StreamClosed")
    case True
    then show ?thesis using sound unfolding chan_sound_def abs_channel_def chunk_frames_def by fastforce
  next
    case False
    then show ?thesis using page assms(2) by blast
  qed
qed

definition demo_frames :: "relay_event list" where
  "demo_frames = [Frame (RelayHead 200 [] []), Pull, Frame (RelayChunk (Some [1, 2])), Frame (RelayChunk (Some [3])), Pull, Frame RelayEnd, Pull]"

theorem relay_body_exact_witness:
  "\<exists>st hs cs bss rest. concat (map frames_of demo_frames) = RelayHead st hs cs # map (\<lambda>bs. RelayChunk (Some bs)) bss @ rest
    \<and> [1, 2, 3] = concat bss \<and> take 1 rest = [RelayEnd]"
proof -
  let ?s = "relay_run demo_frames (dispatched_fetch ''GET'' ''d'' True True)"
  have s: "rf_page ?s = [1, 2, 3]" "rf_phase ?s = StreamClosed" by code_simp+
  show ?thesis using relay_body_exact [of ?s demo_frames "''GET''" "''d''" True True] s by simp
qed

text \<open>A relayed fetch holds at most four mebibytes in at most 4096 frames whatever the embedder
  sends, a crediting embedder always holds credit for two mebibytes beyond what the page has read,
  and a fetch that is over holds nothing and no longer listens.\<close>

theorem relay_queue_bounded:
  assumes "s = relay_run es (dispatched_fetch meth dest port_ok crediting)"
  shows "(\<Sum>m\<leftarrow>rf_queue s. chunk_bytes m) \<le> 4 * 1024 * 1024 \<and> length (rf_queue s) \<le> 4096
    \<and> (rf_phase s \<notin> {Heading, Streaming} \<longrightarrow> rf_queue s = [] \<and> \<not> rf_listening s)
    \<and> (crediting \<and> rf_port_ok s \<longrightarrow> granted (rf_posted s) = 2 * 1024 * 1024 + int (length (rf_page s)))"
  using relay_inv_run [of es meth dest port_ok crediting] credit_ok_run [of es meth dest port_ok] assms
  unfolding relay_inv_def credit_ok_def RELAY_CREDIT_BYTES_def by (cases crediting) simp_all

theorem relay_queue_bounded_witness:
  "granted (rf_posted (relay_run demo_frames (dispatched_fetch ''GET'' ''d'' True True))) = 2 * 1024 * 1024 + 3
    \<and> rf_queue (relay_run demo_frames (dispatched_fetch ''GET'' ''d'' True True)) = []"
proof -
  let ?s = "relay_run demo_frames (dispatched_fetch ''GET'' ''d'' True True)"
  have s: "rf_page ?s = [1, 2, 3]" "rf_phase ?s = StreamClosed" "rf_port_ok ?s" by code_simp+
  show ?thesis using relay_queue_bounded [of ?s demo_frames "''GET''" "''d''" True True] s by simp
qed

end
