(* ===== verification/Transport.thy ===== *)
theory Transport
  imports Relay Policies
begin

text \<open>
  The transport choke point: \<open>src/app/src/transport.ts\<close> (stall storm, shared and deferred resets,
  \<open>wispFetch\<close>, \<open>altWispFetch\<close>) and \<open>upstreamFetch\<close> with \<open>replayableInit\<close> of \<open>request.ts\<close>. The control
  flow of one request is a function of a \<open>world\<close>: what every awaited step of this request answers,
  the relay attempts being runs of the relay machine on the frames that arrive. A run yields the
  dispatches it made, each with the evidence against its delivery, the operations it performed on the
  shared recovery state, and its result, which is missing while a relay attempt has no answer. The
  shared recovery state is a machine of its own on which the operations of all requests interleave.
\<close>

section \<open>The recovery state\<close>

record recovery =
  rs_stalls :: "int list"
  rs_cooldown :: int
  rs_gen :: nat
  rs_resetting :: bool
  rs_deferred :: "nat option"
  rs_resets :: nat
  rs_alt_gen :: nat
  rs_alt_deferred :: "nat option"
  rs_alt_resets :: nat
  rs_load :: load_counts

definition initial_recovery :: recovery where
  "initial_recovery = \<lparr>rs_stalls = [], rs_cooldown = 0, rs_gen = 0, rs_resetting = False, rs_deferred = None, rs_resets = 0,
     rs_alt_gen = 0, rs_alt_deferred = None, rs_alt_resets = 0, rs_load = []\<rparr>"

definition STALL_WINDOW_MS :: int where "STALL_WINDOW_MS = 60000"
definition STALL_THRESHOLD :: nat where "STALL_THRESHOLD = 3"
definition COOLDOWN_MS :: int where "COOLDOWN_MS = 60000"

definition transport_cooling :: "int \<Rightarrow> recovery \<Rightarrow> bool" where
  "transport_cooling now s \<longleftrightarrow> now < rs_cooldown s"

definition record_stall :: "int \<Rightarrow> recovery \<Rightarrow> recovery" where
  "record_stall now s =
     (let ts = dropWhile (\<lambda>t. STALL_WINDOW_MS < now - t) (rs_stalls s @ [now])
      in s\<lparr>rs_stalls := ts,
           rs_cooldown := (if STALL_THRESHOLD \<le> length ts \<and> rs_cooldown s \<le> now then now + COOLDOWN_MS else rs_cooldown s)\<rparr>)"

definition stall_clear :: "recovery \<Rightarrow> recovery" where
  "stall_clear s = s\<lparr>rs_stalls := [], rs_cooldown := 0\<rparr>"

text \<open>\<open>sharedCurlReset\<close> up to its await; \<open>reset_done\<close> is its \<open>finally\<close>.\<close>

definition shared_reset :: "nat \<Rightarrow> recovery \<Rightarrow> recovery" where
  "shared_reset gen s =
     (if gen \<noteq> rs_gen s \<or> rs_resetting s then s
      else s\<lparr>rs_gen := Suc (rs_gen s), rs_resets := Suc (rs_resets s), rs_resetting := True\<rparr>)"

definition reset_done :: "recovery \<Rightarrow> recovery" where
  "reset_done s = s\<lparr>rs_resetting := False\<rparr>"

definition schedule_reset :: "nat \<Rightarrow> recovery \<Rightarrow> recovery" where
  "schedule_reset gen s =
     (if load_inflight None (rs_load s) = 0 then shared_reset gen (s\<lparr>rs_deferred := None\<rparr>) else s\<lparr>rs_deferred := Some gen\<rparr>)"

definition run_deferred_reset :: "recovery \<Rightarrow> recovery" where
  "run_deferred_reset s =
     (case rs_deferred s of
        Some gen \<Rightarrow> if 0 < load_inflight None (rs_load s) then s else shared_reset gen (s\<lparr>rs_deferred := None\<rparr>)
      | None \<Rightarrow> s)"

definition shared_alt_reset :: "nat \<Rightarrow> recovery \<Rightarrow> recovery" where
  "shared_alt_reset gen s =
     (if gen \<noteq> rs_alt_gen s then s else s\<lparr>rs_alt_gen := Suc (rs_alt_gen s), rs_alt_resets := Suc (rs_alt_resets s)\<rparr>)"

definition schedule_alt_reset :: "nat \<Rightarrow> recovery \<Rightarrow> recovery" where
  "schedule_alt_reset gen s =
     (if load_inflight None (rs_load s) = 0 then shared_alt_reset gen (s\<lparr>rs_alt_deferred := None\<rparr>)
      else s\<lparr>rs_alt_deferred := Some gen\<rparr>)"

definition run_deferred_alt_reset :: "recovery \<Rightarrow> recovery" where
  "run_deferred_alt_reset s =
     (case rs_alt_deferred s of
        Some gen \<Rightarrow> if 0 < load_inflight None (rs_load s) then s else shared_alt_reset gen (s\<lparr>rs_alt_deferred := None\<rparr>)
      | None \<Rightarrow> s)"

section \<open>Replay gates\<close>

definition IDEMPOTENT_METHODS :: "string list" where
  "IDEMPOTENT_METHODS = [''get'', ''head'', ''options'', ''put'', ''delete'', ''trace'']"

text \<open>The methods compare case-insensitively.\<close>

definition idempotent :: "string \<Rightarrow> bool" where
  "idempotent m \<longleftrightarrow> js_lower m \<in> set IDEMPOTENT_METHODS"

definition body_replayable :: "relay_body \<Rightarrow> bool" where
  "body_replayable b \<longleftrightarrow> b \<noteq> StreamBody"

record fetch_init =
  fi_method :: string
  fi_headers :: headers
  fi_body :: relay_body

definition retryable :: "bool \<Rightarrow> fetch_init \<Rightarrow> failure \<Rightarrow> bool" where
  "retryable aborted ini e =
     (if aborted \<or> is_abort e \<or> \<not> body_replayable (fi_body ini) then False
      else if delivery_state_of e = NotDelivered then True
      else idempotent (fi_method ini))"

text \<open>\<open>parseTtfbDeadline\<close>: the first parameter \<open>ttfb\<close> of three to five digits, if it is in range.\<close>

definition ttfb_at :: "string \<Rightarrow> int option" where
  "ttfb_at s =
     (let ds = takeWhile is_digit (drop 5 s); rest = drop (5 + length ds) s
      in if starts_with s ''ttfb='' \<and> 3 \<le> length ds \<and> length ds \<le> 5 \<and> (rest = [] \<or> hd rest = CHR ''&'')
         then Some (int (digits_val ds)) else None)"

fun ttfb_scan :: "bool \<Rightarrow> string \<Rightarrow> int option" where
  "ttfb_scan b [] = None"
| "ttfb_scan b (c # cs) =
     (case (if b then ttfb_at (c # cs) else None) of
        Some n \<Rightarrow> Some n | None \<Rightarrow> ttfb_scan (c = CHR ''?'' \<or> c = CHR ''&'') cs)"

definition parse_ttfb_deadline :: "string \<Rightarrow> int option" where
  "parse_ttfb_deadline s =
     (case ttfb_scan True (if starts_with s ''?'' then drop 1 s else s) of
        Some n \<Rightarrow> if 1000 \<le> n \<and> n \<le> 30000 then Some n else None
      | None \<Rightarrow> None)"

section \<open>The world of one request\<close>

datatype stage = Entry | RelayRoute | AltFirst | AltRetry | CoolRelay | WispFirst | WispRetry

text \<open>A relay attempt: the registered port with its state and credit flag, and what happens then.\<close>

record relay_try =
  rt_port :: "(bool \<times> bool) option"
  rt_events :: "relay_event list"

datatype response = ByRelay relay_answer | ByWisp nat

record world =
  w_aborted :: "stage \<Rightarrow> bool"
  w_reason :: failure
  w_aborted_after :: "stage \<Rightarrow> bool"
  w_relay :: "stage \<Rightarrow> relay_try"
  w_timed_out :: bool
  w_cooling :: bool
  w_ready :: "failure option"
  w_reset :: "failure option"
  w_sent :: "stage \<Rightarrow> failure + nat"
  w_now :: "stage \<Rightarrow> int"
  w_gen :: nat
  w_alt_gen :: nat

text \<open>
  What a request does, in order: a dispatch (with the proof, if the peer gave one, that it never reached
  the upstream), the moment the adapter's promise settles, and the operations on the recovery state.
\<close>

datatype transport_op =
    OpSend delivery_transport bool
  | is_OpSettle: OpSettle delivery_transport
  | OpEnter string
  | OpLeave string
  | OpStall int
  | OpClear
  | OpReset nat
  | OpSchedule nat
  | OpRunDeferred
  | OpAltReset nat
  | OpAltSchedule nat
  | OpAltRunDeferred

fun transport_op_step :: "platform \<Rightarrow> transport_op \<Rightarrow> recovery \<Rightarrow> recovery" where
  "transport_op_step pf (OpSend t b) s = s"
| "transport_op_step pf (OpSettle t) s = s"
| "transport_op_step pf (OpEnter dest) s = s\<lparr>rs_load := load_enter pf dest (rs_load s)\<rparr>"
| "transport_op_step pf (OpLeave dest) s = s\<lparr>rs_load := load_leave pf dest (rs_load s)\<rparr>"
| "transport_op_step pf (OpStall now) s = record_stall now s"
| "transport_op_step pf OpClear s = stall_clear s"
| "transport_op_step pf (OpReset gen) s = shared_reset gen s"
| "transport_op_step pf (OpSchedule gen) s = schedule_reset gen s"
| "transport_op_step pf OpRunDeferred s = run_deferred_reset s"
| "transport_op_step pf (OpAltReset gen) s = shared_alt_reset gen s"
| "transport_op_step pf (OpAltSchedule gen) s = schedule_alt_reset gen s"
| "transport_op_step pf OpAltRunDeferred s = run_deferred_alt_reset s"

record attempt =
  at_ops :: "transport_op list"
  at_result :: "(failure + response option) option"

definition ended :: "failure + response option \<Rightarrow> attempt" where
  "ended r = \<lparr>at_ops = [], at_result = Some r\<rparr>"

definition after_ops :: "transport_op list \<Rightarrow> attempt \<Rightarrow> attempt" where
  "after_ops ops a = a\<lparr>at_ops := ops @ at_ops a\<rparr>"

text \<open>Sequencing: go on with what the first part ended with. \<open>finally\<close>: operations after any end.\<close>

definition and_then :: "attempt \<Rightarrow> (failure + response option \<Rightarrow> attempt) \<Rightarrow> attempt" where
  "and_then a k =
     (case at_result a of
        None \<Rightarrow> a
      | Some r \<Rightarrow> let b = k r in \<lparr>at_ops = at_ops a @ at_ops b, at_result = at_result b\<rparr>)"

definition and_finally :: "transport_op list \<Rightarrow> attempt \<Rightarrow> attempt" where
  "and_finally ops a = and_then a (\<lambda>r. \<lparr>at_ops = ops, at_result = Some r\<rparr>)"

section \<open>Attempts\<close>

text \<open>\<open>relayFetch\<close> on the frames of the world.\<close>

definition relay_raw :: "relay_try \<Rightarrow> bool \<Rightarrow> fetch_init \<Rightarrow> string \<Rightarrow> bool \<times> relay_answer option" where
  "relay_raw t aborted ini dest =
     (case rt_port t of
        None \<Rightarrow> (False, Some (AnsNull False))
      | Some (ok, crediting) \<Rightarrow>
          (case relay_start True ok crediting aborted (fi_method ini) (fi_body ini) dest of
             Inl a \<Rightarrow> (case a of AnsThrow e d \<Rightarrow> d | _ \<Rightarrow> False, Some a)
           | Inr s \<Rightarrow> (True, rf_answer (relay_run (rt_events t) s))))"

definition try_relay :: "world \<Rightarrow> stage \<Rightarrow> bool \<Rightarrow> failure \<Rightarrow> bool \<Rightarrow> fetch_init \<Rightarrow> string \<Rightarrow> attempt" where
  "try_relay w st before reason after ini dest =
     (if before then ended (Inl reason)
      else let (sent, ans) = relay_raw (w_relay w st) False ini dest;
               proof_of_absence = (ans = Some (AnsNull False))
           in \<lparr>at_ops = (if sent then [OpSend ViaRelay proof_of_absence] else []),
               at_result = (case ans of None \<Rightarrow> None
                 | Some a \<Rightarrow> Some (case relay_fetch_facade None after (fi_method ini) a of
                     Inl e \<Rightarrow> Inl e | Inr r \<Rightarrow> Inr (map_option ByRelay r)))\<rparr>)"

text \<open>\<open>fetchWithDeadline\<close>; a stall is one of the failures the world may answer.\<close>

definition try_wisp :: "world \<Rightarrow> stage \<Rightarrow> delivery_transport \<Rightarrow> attempt" where
  "try_wisp w st tr =
     (if w_aborted w st
      then ended (map_sum id (\<lambda>r. Some (ByWisp r)) (delivery_response (delivery_failure tr (w_reason w) NotDelivered)))
      else \<lparr>at_ops = [OpSend tr False, OpSettle tr],
            at_result = Some (map_sum id (\<lambda>r. Some (ByWisp r)) (delivery_response (attempt_delivery tr (w_sent w st))))\<rparr>)"

section \<open>\<open>wispFetch\<close>\<close>

definition transport_class :: "failure \<Rightarrow> bool" where
  "transport_class e \<longleftrightarrow> is_connect_class (delivery_cause e) \<or> is_stall (delivery_cause e)"

definition stall_ops :: "world \<Rightarrow> stage \<Rightarrow> failure \<Rightarrow> transport_op list" where
  "stall_ops w st e = (if is_stall (delivery_cause e) then [OpStall (w_now w st)] else [])"

text \<open>The cooldown's relay attempt; null falls through.\<close>

definition cooldown_relay :: "world \<Rightarrow> fetch_init \<Rightarrow> string \<Rightarrow> attempt" where
  "cooldown_relay w ini dest =
     and_then (try_relay w CoolRelay (w_aborted w CoolRelay) (ErrorObj ''AbortError'' [])
         (w_aborted_after w CoolRelay \<or> w_timed_out w) ini dest)
       (\<lambda>r. case r of
          Inr x \<Rightarrow> ended (Inr x)
        | Inl e \<Rightarrow>
            if w_aborted_after w CoolRelay \<or> (case e of RelayUnknownError m \<Rightarrow> True | _ \<Rightarrow> False) then ended (Inl e)
            else after_ops [OpStall (w_now w CoolRelay)] (ended (Inl
              (if \<not> idempotent (fi_method ini)
               then RelayUnknownError ''relay delivery outcome unknown; request not retried: header deadline exceeded''
               else StallError ''relay transport stall: no first byte''))))"

definition wisp_retry :: "world \<Rightarrow> attempt" where
  "wisp_retry w =
     (case w_reset w of
        Some e \<Rightarrow> ended (Inl e)
      | None \<Rightarrow>
        and_then (try_wisp w WispRetry ViaWisp)
          (\<lambda>r. case r of Inr x \<Rightarrow> ended (Inr x) | Inl e \<Rightarrow> after_ops (stall_ops w WispRetry e) (ended (Inl e))))"

definition wisp_primary :: "world \<Rightarrow> bool \<Rightarrow> fetch_init \<Rightarrow> attempt" where
  "wisp_primary w isolated ini =
     (case prepare_delivery ViaWisp (w_ready w) of
        Some e \<Rightarrow> ended (Inl e)
      | None \<Rightarrow>
        and_then (try_wisp w WispFirst ViaWisp)
          (\<lambda>r. case r of
             Inr x \<Rightarrow> after_ops [OpClear] (ended (Inr x))
           | Inl e \<Rightarrow>
               if \<not> transport_class e then ended (Inl e)
               else if isolated then after_ops [OpSchedule (w_gen w)] (ended (Inl e))
               else if \<not> retryable (w_aborted_after w WispFirst) ini e
               then after_ops (stall_ops w WispFirst e @ [OpSchedule (w_gen w)]) (ended (Inl e))
               else after_ops (stall_ops w WispFirst e @ [OpReset (w_gen w)]) (wisp_retry w)))"

definition wisp_fetch :: "world \<Rightarrow> bool \<Rightarrow> fetch_init \<Rightarrow> string \<Rightarrow> attempt" where
  "wisp_fetch w isolated ini dest =
     after_ops [OpEnter dest] (and_finally [OpLeave dest, OpRunDeferred]
       (if w_cooling w \<and> rt_port (w_relay w CoolRelay) \<noteq> None
        then and_then (cooldown_relay w ini dest)
               (\<lambda>r. case r of Inr None \<Rightarrow> wisp_primary w isolated ini | _ \<Rightarrow> ended r)
        else wisp_primary w isolated ini))"

section \<open>\<open>altWispFetch\<close>\<close>

text \<open>The retry is returned without an await, so the \<open>finally\<close> runs before it settles.\<close>

definition unawaited :: "transport_op list \<Rightarrow> attempt \<Rightarrow> attempt" where
  "unawaited ops a =
     a\<lparr>at_ops := filter (\<lambda>x. \<not> is_OpSettle x) (at_ops a) @ ops @ filter is_OpSettle (at_ops a)\<rparr>"

definition alt_wisp_fetch :: "world \<Rightarrow> fetch_init \<Rightarrow> string \<Rightarrow> attempt" where
  "alt_wisp_fetch w ini dest =
     after_ops [OpEnter dest] (and_then (try_wisp w AltFirst ViaWispRoute)
       (\<lambda>r. let leave = [OpLeave dest, OpAltRunDeferred]
            in case r of
          Inr x \<Rightarrow> after_ops leave (ended (Inr x))
        | Inl e \<Rightarrow>
            if \<not> transport_class e then after_ops leave (ended (Inl e))
            else if \<not> retryable (w_aborted_after w AltFirst) ini e
            then after_ops (OpAltSchedule (w_alt_gen w) # leave) (ended (Inl e))
            else after_ops [OpAltReset (w_alt_gen w)] (unawaited leave (try_wisp w AltRetry ViaWispRoute))))"

section \<open>\<open>replayableInit\<close>\<close>

text \<open>What the page's stream yields, and what the spool did with it.\<close>

datatype spool_outcome = SpoolRefused | SpoolBroke failure | Spooled "byte list"

record stream_source =
  ss_chunks :: "byte list list"
  ss_error :: "failure option"
  ss_spool :: spool_outcome

fun buffer_stream :: "int \<Rightarrow> int \<Rightarrow> byte list list \<Rightarrow> byte list option" where
  "buffer_stream cap n [] = Some []"
| "buffer_stream cap n (c # cs) =
     (if cap < n + int (length c) then None
      else map_option (\<lambda>bs. c @ bs) (buffer_stream cap (n + int (length c)) cs))"

definition replay_cap_error :: failure where
  "replay_cap_error = ErrorObj ''Error'' ''zeolite: request body exceeds the replay buffer cap''"

definition read_stream :: "int \<Rightarrow> stream_source \<Rightarrow> fetch_init \<Rightarrow> failure + fetch_init" where
  "read_stream cap src ini =
     (case buffer_stream cap 0 (ss_chunks src) of
        None \<Rightarrow> Inl replay_cap_error
      | Some bs \<Rightarrow> (case ss_error src of Some e \<Rightarrow> Inl e | None \<Rightarrow> Inr (ini\<lparr>fi_body := BufferBody bs\<rparr>)))"

definition replayable_init ::
  "int \<Rightarrow> stream_source \<Rightarrow> bool \<Rightarrow> bool \<Rightarrow> bool \<Rightarrow> fetch_init \<Rightarrow> failure + fetch_init" where
  "replayable_init cap src relay_possible hop_replay authorized ini =
     (if fi_body ini \<noteq> StreamBody then Inr ini
      else
        let eligible = hop_replay \<and> authorized;
            cl = (case hget (fi_headers ini) ''content-length'' of Some v \<Rightarrow> v | None \<Rightarrow> [])
        in if cl \<noteq> [] \<and> list_all is_digit cl then
             if cap < int (digits_val cl) then
               (case if eligible then ss_spool src else SpoolRefused of
                  SpoolBroke e \<Rightarrow> Inl e
                | Spooled bs \<Rightarrow> Inr (ini\<lparr>fi_headers := hset ''content-length'' (nat_digits (length bs)) (fi_headers ini),
                                        fi_body := ObjectBody bs\<rparr>)
                | SpoolRefused \<Rightarrow> Inr ini)
             else read_stream cap src ini
           else if \<not> relay_possible \<and> \<not> hop_replay then Inr ini
           else (case if eligible then ss_spool src else SpoolRefused of
                   SpoolBroke e \<Rightarrow> Inl e
                 | Spooled bs \<Rightarrow> Inr (ini\<lparr>fi_body := ObjectBody bs\<rparr>)
                 | SpoolRefused \<Rightarrow> read_stream cap src ini))"

definition TRANSPORT_BODY_BOUND :: int where "TRANSPORT_BODY_BOUND = 8388608"

definition spool_transport_copy :: "byte list \<Rightarrow> failure + byte list" where
  "spool_transport_copy bs =
     (if TRANSPORT_BODY_BOUND < int (length bs)
      then Inl (ErrorObj ''Error'' ''zeolite: spooled body exceeds the transport body bound; streaming uploads need transport streaming support'')
      else Inr bs)"

section \<open>\<open>upstreamFetch\<close>\<close>

text \<open>The transports in turn, once the body is replayable where it can be.\<close>

definition carry_fetch :: "world \<Rightarrow> string option \<Rightarrow> bool \<Rightarrow> bool \<Rightarrow> fetch_init \<Rightarrow> string \<Rightarrow> attempt" where
  "carry_fetch w route wisp_possible isolated ini dest =
     (if route = Some ''relay'' then
        and_then (try_relay w RelayRoute (w_aborted w RelayRoute) (w_reason w) (w_aborted_after w RelayRoute) ini dest)
          (\<lambda>r. case r of Inr None \<Rightarrow> wisp_fetch w isolated ini dest | _ \<Rightarrow> ended r)
      else if wisp_possible then
        and_then (alt_wisp_fetch w ini dest)
          (\<lambda>r. case r of
             Inl e \<Rightarrow> if \<not> retryable (w_aborted_after w AltRetry) ini e then ended (Inl e)
                      else wisp_fetch w isolated ini dest
           | _ \<Rightarrow> ended r)
      else wisp_fetch w isolated ini dest)"

definition upstream_fetch ::
  "world \<Rightarrow> string option \<Rightarrow> bool \<Rightarrow> int \<Rightarrow> stream_source \<Rightarrow> bool \<Rightarrow> fetch_init \<Rightarrow> string \<Rightarrow> attempt" where
  "upstream_fetch w route alt_configured cap src isolated ini dest =
     (if w_aborted w Entry then ended (Inl (w_reason w))
      else
        let relay_possible = (route = Some ''relay'' \<and> rt_port (w_relay w RelayRoute) \<noteq> None);
            wisp_possible = (route = Some ''wisp'' \<and> alt_configured)
        in case replayable_init cap src (relay_possible \<or> wisp_possible) False False ini of
             Inl e \<Rightarrow> ended (Inl e)
           | Inr ini \<Rightarrow> carry_fetch w route wisp_possible isolated ini dest)"

text \<open>The route is the operator's transport rule for the destination.\<close>

definition upstream_route :: "platform \<Rightarrow> policy_rule list \<Rightarrow> string \<Rightarrow> string \<Rightarrow> string option" where
  "upstream_route pf rules dest rtype = map_option po_route (transport_match pf rules dest rtype)"

section \<open>Counting dispatches\<close>

fun is_send :: "transport_op \<Rightarrow> bool" where
  "is_send (OpSend t disproved) = True"
| "is_send x = False"

fun live :: "transport_op \<Rightarrow> bool" where
  "live (OpSend t disproved) = (\<not> disproved)"
| "live x = False"

definition live_sends :: "attempt \<Rightarrow> nat" where
  "live_sends a = length (filter live (at_ops a))"

definition all_sends :: "attempt \<Rightarrow> nat" where
  "all_sends a = length (filter is_send (at_ops a))"

definition quiet :: "transport_op list \<Rightarrow> bool" where
  "quiet ops \<longleftrightarrow> list_all (\<lambda>x. \<not> is_send x) ops"

lemma quiet_simps [simp]:
  "quiet []" "quiet (x # ops) \<longleftrightarrow> \<not> is_send x \<and> quiet ops" "quiet (a @ b) \<longleftrightarrow> quiet a \<and> quiet b" "quiet (stall_ops w st e)"
  by (simp_all add: quiet_def stall_ops_def)

lemma live_send: "live x \<Longrightarrow> is_send x"
  by (cases x) auto

lemma quiet_count: "quiet ops \<Longrightarrow> filter live ops = [] \<and> filter is_send ops = []"
  using live_send by (induction ops) (auto simp: quiet_def)

lemma ended_simps [simp]:
  "at_result (ended r) = Some r" "live_sends (ended r) = 0" "all_sends (ended r) = 0" "at_result (after_ops ops a) = at_result a"
  "at_result (unawaited ops a) = at_result a"
  by (simp_all add: ended_def after_ops_def live_sends_def all_sends_def unawaited_def)

lemma quiet_sends [simp]:
  "quiet ops \<Longrightarrow> live_sends (after_ops ops a) = live_sends a" "quiet ops \<Longrightarrow> all_sends (after_ops ops a) = all_sends a"
  "quiet ops \<Longrightarrow> live_sends \<lparr>at_ops = ops, at_result = r\<rparr> = 0" "quiet ops \<Longrightarrow> all_sends \<lparr>at_ops = ops, at_result = r\<rparr> = 0"
  by (simp_all add: after_ops_def live_sends_def all_sends_def quiet_count)

lemma unawaited_sends [simp]:
  "quiet ops \<Longrightarrow> live_sends (unawaited ops a) = live_sends a" "quiet ops \<Longrightarrow> all_sends (unawaited ops a) = all_sends a"
proof -
  have "filter live (filter (\<lambda>x. \<not> is_OpSettle x) xs) = filter live xs" "filter live (filter is_OpSettle xs) = []"
    "filter is_send (filter (\<lambda>x. \<not> is_OpSettle x) xs) = filter is_send xs" "filter is_send (filter is_OpSettle xs) = []" for xs
    by (induction xs) (auto simp: is_OpSettle_def)
  then show "quiet ops \<Longrightarrow> live_sends (unawaited ops a) = live_sends a" "quiet ops \<Longrightarrow> all_sends (unawaited ops a) = all_sends a"
    by (simp_all add: unawaited_def live_sends_def all_sends_def quiet_count)
qed

lemma and_then_result:
  "at_result (and_then a k) = (case at_result a of None \<Rightarrow> None | Some r \<Rightarrow> at_result (k r))"
  by (simp add: and_then_def Let_def split: option.split)

lemma and_then_sends:
  "live_sends (and_then a k) = live_sends a + (case at_result a of None \<Rightarrow> 0 | Some r \<Rightarrow> live_sends (k r))"
  "all_sends (and_then a k) = all_sends a + (case at_result a of None \<Rightarrow> 0 | Some r \<Rightarrow> all_sends (k r))"
  by (simp_all add: and_then_def live_sends_def all_sends_def Let_def split: option.split)

lemma finally_simps [simp]:
  "quiet ops \<Longrightarrow> live_sends (and_finally ops a) = live_sends a" "quiet ops \<Longrightarrow> all_sends (and_finally ops a) = all_sends a"
  "at_result (and_finally ops a) = at_result a"
  by (simp_all add: and_finally_def and_then_sends and_then_result split: option.split)

lemma idempotent_iff: "idempotent m \<longleftrightarrow> may_fall_back m"
  by (simp add: idempotent_def may_fall_back_def IDEMPOTENT_METHODS_def)

text \<open>A relay attempt that answers null for a method that must not be repeated was disproved.\<close>

lemma relay_raw_answer:
  assumes "relay_raw t False ini dest = (sent, Some a)"
  shows "a = AnsNull True \<Longrightarrow> may_fall_back (fi_method ini)" "a = AnsThrow e False \<Longrightarrow> \<not> sent"
proof -
  have "(a = AnsNull True \<longrightarrow> may_fall_back (fi_method ini)) \<and> (a = AnsThrow e False \<longrightarrow> \<not> sent)"
  proof (cases "rt_port t")
    case None
    then show ?thesis using assms by (auto simp: relay_raw_def)
  next
    case (Some pc)
    obtain ok crediting where pc: "pc = (ok, crediting)" by (cases pc)
    show ?thesis
    proof (cases "relay_start True ok crediting False (fi_method ini) (fi_body ini) dest")
      case (Inl b)
      then show ?thesis
        using assms Some pc by (auto simp: relay_raw_def relay_start_def split: if_splits)
    next
      case (Inr s)
      then have "s = dispatched_fetch (fi_method ini) dest ok crediting" by (auto simp: relay_start_def split: if_splits)
      then have "answer_safe (fi_method ini) (relay_run (rt_events t) s)" using answer_safe_run by simp
      then show ?thesis using assms Some pc Inr by (auto simp: relay_raw_def answer_safe_def)
    qed
  qed
  then show "a = AnsNull True \<Longrightarrow> may_fall_back (fi_method ini)" "a = AnsThrow e False \<Longrightarrow> \<not> sent" by simp_all
qed

lemma facade_null:
  assumes "relay_fetch_facade None after meth a = Inr None" "\<not> may_fall_back meth"
  shows "a = AnsNull False \<or> (\<exists>e. a = AnsThrow e False)"
  using assms
  by (auto simp: relay_fetch_facade_def relay_fetch_result_def delivery_failure_def split: relay_answer.splits if_splits failure.splits)

text \<open>A relay attempt that answers null made no dispatch the peer has not disproved.\<close>

lemma relay_sends:
  "live_sends (try_relay w st before reason after ini dest) \<le> 1" "all_sends (try_relay w st before reason after ini dest) \<le> 1"
  by (auto simp: try_relay_def Let_def live_sends_def all_sends_def ended_def split: prod.split)

lemma relay_null_live:
  assumes no_repeat: "\<not> idempotent (fi_method ini)"
    and null: "at_result (try_relay w st before reason after ini dest) = Some (Inr None)"
  shows "live_sends (try_relay w st before reason after ini dest) = 0"
proof (cases before)
  case False
  obtain sent ans where raw: "relay_raw (w_relay w st) False ini dest = (sent, ans)" by fastforce
  obtain a where a: "ans = Some a" "relay_fetch_facade None after (fi_method ini) a = Inr None"
    using null False raw by (auto simp: try_relay_def Let_def split: option.splits sum.splits)
  then have "a = AnsNull False \<or> (\<exists>e. a = AnsThrow e False)"
    using facade_null no_repeat by (simp add: idempotent_iff)
  then show ?thesis
    using False raw a(1) relay_raw_answer(2) [of "w_relay w st" ini dest sent a]
    by (auto simp: try_relay_def live_sends_def Let_def)
qed (simp add: try_relay_def)

lemma relay_stream_unsent:
  "fi_body ini = StreamBody \<Longrightarrow> all_sends (try_relay w st before reason after ini dest) = 0"
  by (auto simp: try_relay_def Let_def relay_raw_def relay_start_def port_can_carry_def all_sends_def ended_def split: option.split)

text \<open>What a wisp attempt throws after its dispatch never disproves delivery.\<close>

lemma wisp_sends: "live_sends (try_wisp w st tr) \<le> 1" "all_sends (try_wisp w st tr) \<le> 1"
  by (simp_all add: try_wisp_def live_sends_def all_sends_def ended_def)

lemma wisp_disproved:
  assumes "at_result (try_wisp w st tr) = Some (Inl e)" "delivery_state_of e = NotDelivered"
  shows "live_sends (try_wisp w st tr) = 0" "all_sends (try_wisp w st tr) = 0"
proof -
  have "w_aborted w st"
    using assms attempt_unknown [of tr "w_sent w st"]
    by (cases "delivery_response (attempt_delivery tr (w_sent w st))") (auto simp: try_wisp_def split: if_splits)
  then show "live_sends (try_wisp w st tr) = 0" "all_sends (try_wisp w st tr) = 0" by (simp_all add: try_wisp_def)
qed

section \<open>Replay guards\<close>

text \<open>
  What keeps a request from being sent twice: a class of requests and a way to count dispatches, such
  that every attempt counts at most one, an attempt the flow leaves by the null of the relay or by a
  disproved failure counts none, and the replay gate only passes disproved failures. The flow then
  counts at most one dispatch whatever the world answers.
\<close>

locale replay_guard =
  fixes count :: "attempt \<Rightarrow> nat" and guarded :: "fetch_init \<Rightarrow> bool"
  assumes count_ended: "count (ended r) = 0"
    and count_quiet: "quiet ops \<Longrightarrow> count (after_ops ops a) = count a" "quiet ops \<Longrightarrow> count (and_finally ops a) = count a"
      "quiet ops \<Longrightarrow> count (unawaited ops a) = count a"
    and count_and_then: "count (and_then a k) = count a + (case at_result a of None \<Rightarrow> 0 | Some r \<Rightarrow> count (k r))"
    and count_wisp: "count (try_wisp w st tr) \<le> 1"
    and wisp_unsent: "at_result (try_wisp w st tr) = Some (Inl e) \<Longrightarrow> delivery_state_of e = NotDelivered \<Longrightarrow>
      count (try_wisp w st tr) = 0"
    and count_relay: "guarded ini \<Longrightarrow> count (try_relay w st b reason af ini dest) \<le> 1"
    and relay_unsent: "guarded ini \<Longrightarrow> at_result (try_relay w st b reason af ini dest) = Some (Inr None) \<Longrightarrow>
      count (try_relay w st b reason af ini dest) = 0"
    and gate: "guarded ini \<Longrightarrow> retryable ab ini e \<Longrightarrow> delivery_state_of e = NotDelivered"
begin

definition once_unless :: "(failure + response option \<Rightarrow> bool) \<Rightarrow> attempt \<Rightarrow> bool" where
  "once_unless P a \<longleftrightarrow> count a \<le> 1 \<and> (\<forall>r. at_result a = Some r \<longrightarrow> P r \<longrightarrow> count a = 0)"

lemma once_ended [simp]: "once_unless P (ended r)"
  by (simp add: once_unless_def count_ended)

lemma once_quiet [simp]:
  "quiet ops \<Longrightarrow> once_unless P (after_ops ops a) = once_unless P a" "quiet ops \<Longrightarrow> once_unless P (and_finally ops a) = once_unless P a"
  "quiet ops \<Longrightarrow> once_unless P (unawaited ops a) = once_unless P a"
  by (simp_all add: once_unless_def count_quiet)

lemma once_and_then:
  assumes "once_unless P a" "\<And>r. at_result a = Some r \<Longrightarrow> once_unless Q (k r)"
    and "\<And>r. at_result a = Some r \<Longrightarrow> \<not> P r \<Longrightarrow> count (k r) = 0"
    and "\<And>r r'. at_result a = Some r \<Longrightarrow> at_result (k r) = Some r' \<Longrightarrow> Q r' \<Longrightarrow> P r"
  shows "once_unless Q (and_then a k)"
proof (cases "at_result a")
  case None
  then show ?thesis using assms(1) by (simp add: once_unless_def count_and_then and_then_result)
next
  case (Some r)
  then show ?thesis
    using assms(1) assms(2-4) [OF Some] by (cases "P r") (auto simp: once_unless_def count_and_then and_then_result)
qed

lemma once_wisp: "once_unless (\<lambda>r. \<exists>e. r = Inl e \<and> delivery_state_of e = NotDelivered) (try_wisp w st tr)"
  using count_wisp wisp_unsent by (auto simp: once_unless_def)

lemma once_relay: "guarded ini \<Longrightarrow> once_unless (\<lambda>r. r = Inr None) (try_relay w st b reason af ini dest)"
  using count_relay relay_unsent by (simp add: once_unless_def)

lemma once_primary: "guarded ini \<Longrightarrow> once_unless (\<lambda>r. False) (wisp_primary w isolated ini)"
proof (cases "prepare_delivery ViaWisp (w_ready w)")
  case None
  assume g: "guarded ini"
  have retry: "once_unless (\<lambda>r. False) (wisp_retry w)"
    by (cases "w_reset w") (auto simp: wisp_retry_def intro!: once_and_then [OF once_wisp] split: sum.splits simp: count_quiet count_ended)
  show ?thesis
    unfolding wisp_primary_def None option.case
    by (rule once_and_then [OF once_wisp])
      (auto split: sum.splits if_splits simp: retry count_quiet count_ended dest: gate [OF g])
qed (simp add: wisp_primary_def)

lemma once_cooldown: "guarded ini \<Longrightarrow> once_unless (\<lambda>r. r = Inr None) (cooldown_relay w ini dest)"
  unfolding cooldown_relay_def
  by (rule once_and_then [OF once_relay]) (auto split: sum.splits if_splits simp: count_quiet count_ended)

lemma once_wisp_fetch: "guarded ini \<Longrightarrow> once_unless (\<lambda>r. False) (wisp_fetch w isolated ini dest)"
  unfolding wisp_fetch_def using once_primary [of ini]
  by (auto intro!: once_and_then [OF once_cooldown] split: sum.splits option.splits simp: count_ended)

lemma once_alt:
  "guarded ini \<Longrightarrow> once_unless (\<lambda>r. \<exists>e. r = Inl e \<and> delivery_state_of e = NotDelivered) (alt_wisp_fetch w ini dest)"
  unfolding alt_wisp_fetch_def Let_def
  by (simp, rule once_and_then [OF once_wisp])
    (auto split: sum.splits if_splits simp: once_wisp count_quiet count_ended dest: gate)

lemma once_carry: "guarded ini \<Longrightarrow> count (carry_fetch w route possible isolated ini dest) \<le> 1"
proof -
  assume g: "guarded ini"
  note next_try = once_wisp_fetch [OF g, of w isolated dest]
  have relay: "once_unless (\<lambda>r. False)
      (and_then (try_relay w RelayRoute (w_aborted w RelayRoute) (w_reason w) (w_aborted_after w RelayRoute) ini dest)
        (\<lambda>r. case r of Inr None \<Rightarrow> wisp_fetch w isolated ini dest | _ \<Rightarrow> ended r))"
    by (rule once_and_then [OF once_relay [OF g]]) (auto split: sum.splits option.splits simp: next_try count_ended)
  have alt: "once_unless (\<lambda>r. False) (and_then (alt_wisp_fetch w ini dest)
        (\<lambda>r. case r of
             Inl e \<Rightarrow> if \<not> retryable (w_aborted_after w AltRetry) ini e then ended (Inl e)
                      else wisp_fetch w isolated ini dest
           | _ \<Rightarrow> ended r))"
    by (rule once_and_then [OF once_alt [OF g]]) (auto split: sum.splits if_splits simp: next_try count_ended dest: gate [OF g])
  have "once_unless (\<lambda>r. False) (carry_fetch w route possible isolated ini dest)"
    unfolding carry_fetch_def using relay alt next_try by simp
  then show ?thesis by (simp add: once_unless_def)
qed

end

lemma retryable_disproved:
  "\<not> idempotent (fi_method ini) \<Longrightarrow> retryable ab ini e \<Longrightarrow> delivery_state_of e = NotDelivered"
  by (auto simp: retryable_def split: if_splits)

text \<open>A method that must not be repeated is guarded as to the dispatches nobody disproved; a body that can
  be read once is guarded as to all dispatches.\<close>

interpretation unrepeatable: replay_guard live_sends "\<lambda>ini. \<not> idempotent (fi_method ini)"
  by unfold_locales (auto simp: and_then_sends wisp_sends [simplified] wisp_disproved relay_sends [simplified] relay_null_live retryable_disproved)

interpretation one_shot: replay_guard all_sends "\<lambda>ini. fi_body ini = StreamBody"
  by unfold_locales (auto simp: and_then_sends wisp_sends [simplified] wisp_disproved relay_sends relay_stream_unsent retryable_def body_replayable_def)

lemma replayable_keeps_method: "replayable_init cap src rp hop auth ini = Inr ini' \<Longrightarrow> fi_method ini' = fi_method ini"
  by (auto simp: replayable_init_def read_stream_def Let_def split: if_splits option.splits spool_outcome.splits)

section \<open>The number of attempts\<close>

lemma sends_bounds:
  "all_sends (wisp_primary w isolated ini) \<le> 2" "all_sends (cooldown_relay w ini dest) \<le> 1"
  "all_sends (wisp_fetch w isolated ini dest) \<le> 3" "all_sends (alt_wisp_fetch w ini dest) \<le> 2"
  "all_sends (carry_fetch w route possible isolated ini dest) \<le> 5"
proof -
  note one = wisp_sends(2) relay_sends(2)
  have retry: "all_sends (wisp_retry w) \<le> 1"
    using one(1) [of w WispRetry ViaWisp] by (auto simp: wisp_retry_def and_then_sends split: option.splits sum.splits)
  show primary: "all_sends (wisp_primary w isolated ini) \<le> 2"
    using one(1) [of w WispFirst ViaWisp] retry
    by (auto simp: wisp_primary_def and_then_sends split: option.splits sum.splits)
  show cool: "all_sends (cooldown_relay w ini dest) \<le> 1"
    using one(2) [of w CoolRelay] by (auto simp: cooldown_relay_def and_then_sends split: option.splits sum.splits)
  show wisp: "all_sends (wisp_fetch w isolated ini dest) \<le> 3"
    using primary cool by (auto simp: wisp_fetch_def and_then_sends split: option.splits sum.splits)
  show alt: "all_sends (alt_wisp_fetch w ini dest) \<le> 2"
    using one(1) [of w AltFirst ViaWispRoute] one(1) [of w AltRetry ViaWispRoute]
    by (auto simp: alt_wisp_fetch_def and_then_sends Let_def split: option.splits sum.splits)
  show "all_sends (carry_fetch w route possible isolated ini dest) \<le> 5"
    using one(2) [of w RelayRoute "w_aborted w RelayRoute" "w_reason w" "w_aborted_after w RelayRoute" ini dest] wisp alt
    by (auto simp: carry_fetch_def and_then_sends split: option.splits sum.splits)
qed

section \<open>Recovery\<close>

text \<open>The stalls since the last first-byte success.\<close>

fun since_clear :: "transport_op \<Rightarrow> int list \<Rightarrow> int list" where
  "since_clear (OpStall t) ts = ts @ [t]"
| "since_clear OpClear ts = []"
| "since_clear x ts = ts"

text \<open>A storm: three stalls, the first at most a minute before the last, which started the cooldown.\<close>

definition storm_ended :: "int list \<Rightarrow> int \<Rightarrow> bool" where
  "storm_ended ts end_at \<longleftrightarrow>
     (\<exists>pre t1 t2 mid t3 post. ts = pre @ t1 # t2 # mid @ t3 # post \<and> t3 - t1 \<le> STALL_WINDOW_MS \<and> end_at = t3 + COOLDOWN_MS)"

definition storm_inv :: "int list \<Rightarrow> recovery \<Rightarrow> bool" where
  "storm_inv ts s \<longleftrightarrow> (\<exists>old. ts = old @ rs_stalls s) \<and> (rs_cooldown s = 0 \<or> storm_ended ts (rs_cooldown s))"

lemma storm_ended_snoc: "storm_ended ts c \<Longrightarrow> storm_ended (ts @ [t]) c"
proof -
  assume "storm_ended ts c"
  then obtain pre t1 t2 mid t3 post where
    "ts @ [t] = pre @ t1 # t2 # mid @ t3 # (post @ [t]) \<and> t3 - t1 \<le> STALL_WINDOW_MS \<and> c = t3 + COOLDOWN_MS"
    by (auto simp: storm_ended_def)
  then show ?thesis unfolding storm_ended_def by blast
qed

lemma storm_inv_stall: "storm_inv ts s \<Longrightarrow> storm_inv (ts @ [now]) (record_stall now s)"
proof -
  assume inv: "storm_inv ts s"
  let ?ts = "dropWhile (\<lambda>t. STALL_WINDOW_MS < now - t) (rs_stalls s @ [now])"
  obtain old where old: "ts = old @ rs_stalls s" using inv by (auto simp: storm_inv_def)
  obtain cut where cut: "rs_stalls s @ [now] = cut @ ?ts" by (metis takeWhile_dropWhile_id)
  then have all: "ts @ [now] = (old @ cut) @ ?ts" using old by simp
  have "storm_ended (ts @ [now]) (now + COOLDOWN_MS)" if "STALL_THRESHOLD \<le> length ?ts"
  proof -
    have "3 \<le> length ?ts" using that by (simp add: STALL_THRESHOLD_def)
    then obtain t1 t2 t3 rest where split: "?ts = t1 # t2 # t3 # rest"
      by (metis Suc_le_length_iff numeral_3_eq_3)
    have last: "last ?ts = now" using cut by (metis last_appendR last_snoc list.distinct(1) split)
    obtain mid where mid: "t3 # rest = mid @ [now]"
      using last split by (metis append_butlast_last_id last.simps list.distinct(1))
    have "now - t1 \<le> STALL_WINDOW_MS" using hd_dropWhile [of "\<lambda>t. STALL_WINDOW_MS < now - t" "rs_stalls s @ [now]"] split by simp
    moreover have "ts @ [now] = (old @ cut) @ t1 # t2 # mid @ now # []" using all split mid by simp
    ultimately show ?thesis unfolding storm_ended_def by blast
  qed
  moreover have "rs_cooldown s = 0 \<or> storm_ended (ts @ [now]) (rs_cooldown s)"
    using inv storm_ended_snoc unfolding storm_inv_def by blast
  moreover have "\<exists>pre. ts @ [now] = pre @ ?ts" using all by blast
  ultimately show ?thesis by (simp add: storm_inv_def record_stall_def Let_def)
qed

lemma shared_reset_stalls [simp]:
  "rs_stalls (shared_reset g s) = rs_stalls s" "rs_cooldown (shared_reset g s) = rs_cooldown s"
  "rs_stalls (shared_alt_reset g s) = rs_stalls s" "rs_cooldown (shared_alt_reset g s) = rs_cooldown s"
  by (simp_all add: shared_reset_def shared_alt_reset_def)

lemma storm_inv_step: "storm_inv ts s \<Longrightarrow> storm_inv (since_clear x ts) (transport_op_step pf x s)"
proof (cases x)
  case (OpStall t)
  assume "storm_inv ts s"
  then show ?thesis by (simp add: OpStall storm_inv_stall)
next
  case OpClear
  then show ?thesis by (simp add: storm_inv_def stall_clear_def)
qed (simp_all add: storm_inv_def schedule_reset_def run_deferred_reset_def schedule_alt_reset_def run_deferred_alt_reset_def
    split: option.split)

text \<open>The relay-first cooldown is never entered without a storm, and a first byte ends it.\<close>

lemma cooldown_needs_storm:
  "transport_cooling now (fold (transport_op_step pf) ops initial_recovery) \<Longrightarrow> 0 \<le> now \<Longrightarrow>
   \<exists>end_at. storm_ended (fold since_clear ops []) end_at \<and> now < end_at"
proof -
  assume cooling: "transport_cooling now (fold (transport_op_step pf) ops initial_recovery)" and now: "0 \<le> now"
  have "storm_inv ts s \<Longrightarrow> storm_inv (fold since_clear ops ts) (fold (transport_op_step pf) ops s)" for ts s
    by (induction ops arbitrary: ts s) (simp_all add: storm_inv_step)
  then have "storm_inv (fold since_clear ops []) (fold (transport_op_step pf) ops initial_recovery)"
    by (simp add: storm_inv_def initial_recovery_def)
  then show ?thesis using cooling now unfolding storm_inv_def transport_cooling_def by auto
qed

text \<open>Every generation of the client is dropped by exactly one reset, however many requests fail on it.\<close>

lemma one_reset_per_generation:
  "rs_resets (fold (transport_op_step pf) ops initial_recovery) = rs_gen (fold (transport_op_step pf) ops initial_recovery)"
proof -
  have "rs_resets s = rs_gen s \<Longrightarrow> rs_resets (transport_op_step pf x s) = rs_gen (transport_op_step pf x s)" for x s
    by (cases x) (simp_all add: record_stall_def Let_def stall_clear_def shared_reset_def schedule_reset_def run_deferred_reset_def
        shared_alt_reset_def schedule_alt_reset_def run_deferred_alt_reset_def split: option.split)
  then have "rs_resets s = rs_gen s \<Longrightarrow> rs_resets (fold (transport_op_step pf) ops s) = rs_gen (fold (transport_op_step pf) ops s)" for s
    by (induction ops arbitrary: s) simp_all
  then show ?thesis by (simp add: initial_recovery_def)
qed

text \<open>A deferred reset is lost when a request of an older generation fails after it was scheduled: the
  older generation overwrites the newer one, and at the idle moment the stale generation resets nothing.\<close>

lemma deferred_reset_lost:
  assumes "old \<noteq> rs_gen s" "0 < load_inflight None (rs_load s)" "load_inflight None load = 0"
  shows "run_deferred_reset ((schedule_reset old (schedule_reset (rs_gen s) s))\<lparr>rs_load := load\<rparr>)
    = s\<lparr>rs_deferred := None, rs_load := load\<rparr>"
  using assms by (simp add: schedule_reset_def run_deferred_reset_def shared_reset_def)

text \<open>The retry of the policy route leaves the count of requests in flight before it has settled, so a
  deferred reset may drop the client it rides on.\<close>

lemma alt_retry_uncounted:
  assumes "\<not> w_aborted w AltFirst" "\<not> w_aborted w AltRetry" "w_sent w AltFirst = Inl e" "idempotent (fi_method ini)"
    "fi_body ini \<noteq> StreamBody" "\<not> w_aborted_after w AltFirst" "transport_class (DeliveryError DeliveryUnknown ViaWispRoute e)"
    "\<not> is_abort e" "after_dispatch_error ViaWispRoute e = DeliveryError DeliveryUnknown ViaWispRoute e"
  shows "at_ops (alt_wisp_fetch w ini dest) =
    [OpEnter dest, OpSend ViaWispRoute False, OpSettle ViaWispRoute, OpAltReset (w_alt_gen w), OpSend ViaWispRoute False,
     OpLeave dest, OpAltRunDeferred, OpSettle ViaWispRoute]"
  using assms
  by (simp add: alt_wisp_fetch_def after_ops_def and_then_def try_wisp_def attempt_delivery_def delivery_failure_def
      delivery_response_def retryable_def body_replayable_def delivery_state_of_def unawaited_def is_OpSettle_def Let_def)

section \<open>Properties\<close>

text \<open>C3. No request is sent twice behind the page's back: whatever the transports, the embedder and the
  policy do, a request whose method is not idempotent makes at most one dispatch that the peer has not
  disproved, a body that can be read only once is dispatched at most once, and no request is
  dispatched more than five times.\<close>

theorem upstream_never_repeats:
  "(\<not> idempotent (fi_method ini) \<longrightarrow> live_sends (upstream_fetch w route alt cap src isolated ini dest) \<le> 1)
   \<and> ((\<forall>possible ini'. replayable_init cap src possible False False ini = Inr ini' \<longrightarrow> fi_body ini' = StreamBody) \<longrightarrow>
        all_sends (upstream_fetch w route alt cap src isolated ini dest) \<le> 1)
   \<and> all_sends (upstream_fetch w route alt cap src isolated ini dest) \<le> 5"
proof -
  let ?rp = "(route = Some ''relay'' \<and> rt_port (w_relay w RelayRoute) \<noteq> None) \<or> route = Some ''wisp'' \<and> alt"
  have eq: "upstream_fetch w route alt cap src isolated ini dest =
      (if w_aborted w Entry then ended (Inl (w_reason w))
       else case replayable_init cap src ?rp False False ini of Inl e \<Rightarrow> ended (Inl e)
         | Inr ini' \<Rightarrow> carry_fetch w route (route = Some ''wisp'' \<and> alt) isolated ini' dest)"
    by (simp add: upstream_fetch_def Let_def)
  show ?thesis
  proof (cases "replayable_init cap src ?rp False False ini")
    case (Inl e)
    then show ?thesis by (simp add: eq)
  next
    case (Inr ini')
    have "fi_method ini' = fi_method ini" using Inr by (rule replayable_keeps_method)
    then show ?thesis
      using Inr unrepeatable.once_carry [of ini'] one_shot.once_carry [of ini'] sends_bounds(5)
      unfolding eq by (auto simp del: One_nat_def)
  qed
qed

definition demo_world :: world where
  "demo_world = \<lparr>w_aborted = (\<lambda>st. False), w_reason = abort_error, w_aborted_after = (\<lambda>st. False),
     w_relay = (\<lambda>st. \<lparr>rt_port = (if st = RelayRoute then Some (True, True) else None),
       rt_events = [Frame (RelayError ''refused'' True)]\<rparr>),
     w_timed_out = False, w_cooling = False, w_ready = None, w_reset = None,
     w_sent = (\<lambda>st. Inl (ErrorObj ''Error'' ''websocket did not open'')), w_now = (\<lambda>st. 0), w_gen = 0, w_alt_gen = 0\<rparr>"

definition demo_post :: fetch_init where
  "demo_post = \<lparr>fi_method = ''POST'', fi_headers = [], fi_body = TextBody ''x''\<rparr>"

definition demo_source :: stream_source where
  "demo_source = \<lparr>ss_chunks = [], ss_error = None, ss_spool = SpoolRefused\<rparr>"

theorem upstream_never_repeats_witness:
  "\<not> idempotent ''POST''
   \<and> all_sends (upstream_fetch demo_world (Some ''relay'') False 100 demo_source False demo_post ''d'') = 2
   \<and> live_sends (upstream_fetch demo_world (Some ''relay'') False 100 demo_source False demo_post ''d'') \<le> 1"
proof -
  have "all_sends (upstream_fetch demo_world (Some ''relay'') False 100 demo_source False demo_post ''d'') = 2" by code_simp
  moreover have "\<not> idempotent ''POST''" by code_simp
  ultimately show ?thesis
    using upstream_never_repeats [of demo_post demo_world "Some ''relay''" False 100 demo_source False "''d''"]
    by (simp add: demo_post_def)
qed

end
