(* ===== verification/ExtPackage.thy ===== *)
theory ExtPackage
  imports Prelude
begin

text \<open>
  Package loading of the extension subsystem (\<open>src/app/src/extensions/package.ts\<close>): the reader of the
  central directory of a ZIP archive, with its limits and path checks, and \<open>locateManifest\<close>. Archive
  fields are read through 32 bit words, offsets and sizes are exact JavaScript numbers (\<open>nat\<close>). The
  platform's UTF-8 decoder and its \<open>DecompressionStream\<close> are arguments; the latter is the chunks it
  delivers and the error it ends with, if any.
\<close>

section \<open>The reader\<close>

record zip_limits =
  max_entries :: nat
  max_file_bytes :: nat
  max_total_bytes :: nat

definition DEFAULT_ZIP_LIMITS :: zip_limits where
  "DEFAULT_ZIP_LIMITS = \<lparr>max_entries = 2000, max_file_bytes = 50 * 1024 * 1024, max_total_bytes = 100 * 1024 * 1024\<rparr>"

definition CD_SIGNATURE :: nat where "CD_SIGNATURE = 0x02014b50"

definition EOCD_SIGNATURE :: nat where "EOCD_SIGNATURE = 0x06054b50"

definition LFH_SIGNATURE :: nat where "LFH_SIGNATURE = 0x04034b50"

text \<open>\<open>b[o]\<close> in a bit operation: reading past the end gives \<open>undefined\<close>, which counts as 0.\<close>

definition byte_at :: "byte list \<Rightarrow> nat \<Rightarrow> 32 word" where
  "byte_at b i = (if i < length b then ucast (b ! i) else 0)"

definition u16 :: "byte list \<Rightarrow> nat \<Rightarrow> nat" where
  "u16 b i = unat (byte_at b i OR push_bit 8 (byte_at b (i + 1)))"

definition u32 :: "byte list \<Rightarrow> nat \<Rightarrow> nat" where
  "u32 b i = unat (byte_at b i OR push_bit 8 (byte_at b (i + 1)) OR push_bit 16 (byte_at b (i + 2))
     OR push_bit 24 (byte_at b (i + 3)))"

datatype zip_error =
  ZipTooSmall | NoEocd | TooManyEntries nat | CorruptDirectory nat | UnsafePath string | SymlinkEntry
| BadMethod nat string | FileTooLarge string | ArchiveTooLarge | CorruptLocalHeader string
| InflateLimit | InflateFailed string | SizeMismatch string | NoFiles

type_synonym inflater = "byte list \<Rightarrow> byte list list \<times> string option"

fun read_chunks :: "nat \<Rightarrow> byte list list \<Rightarrow> string option \<Rightarrow> byte list \<Rightarrow> zip_error + byte list" where
  "read_chunks cap [] err acc = (case err of Some e \<Rightarrow> Inl (InflateFailed e) | None \<Rightarrow> Inr acc)"
| "read_chunks cap (c # cs) err acc =
     (if length acc + length c > cap then Inl InflateLimit else read_chunks cap cs err (acc @ c))"

definition inflate_raw :: "inflater \<Rightarrow> byte list \<Rightarrow> nat \<Rightarrow> zip_error + byte list" where
  "inflate_raw inflate packed cap = (case inflate packed of (cs, err) \<Rightarrow> read_chunks cap cs err [])"

fun find_eocd :: "byte list \<Rightarrow> nat list \<Rightarrow> nat option" where
  "find_eocd b [] = None"
| "find_eocd b (i # rest) = (if u32 b i = EOCD_SIGNATURE then Some i else find_eocd b rest)"

definition eocd_offset :: "byte list \<Rightarrow> nat option" where
  "eocd_offset b = find_eocd b (rev [length b - 22 - 65536..<length b - 21])"

definition drive_letter :: "string \<Rightarrow> bool" where
  "drive_letter s \<longleftrightarrow> (case s of a # b # _ \<Rightarrow> is_alnum a \<and> \<not> is_digit a \<and> b = CHR '':'' | _ \<Rightarrow> False)"

definition unsafe_path :: "string \<Rightarrow> bool" where
  "unsafe_path name \<longleftrightarrow> CHR 0x00 \<in> set name \<or> CHR 0x5C \<in> set name \<or> starts_with name ''/''
     \<or> drive_letter name \<or> ''..'' \<in> set (split_on (CHR ''/'') name)"

type_synonym files = "(string, byte list) omap"

record zip_env =
  text_decode :: "byte list \<Rightarrow> string"
  inflate :: inflater

text \<open>The body of the loop for one file entry: the checks of the directory record, then the data.\<close>

definition read_entry ::
  "zip_env \<Rightarrow> zip_limits \<Rightarrow> byte list \<Rightarrow> nat \<Rightarrow> string \<Rightarrow> nat \<Rightarrow> zip_error + byte list" where
  "read_entry env lim b off name tot =
     (let meth = u16 b (off + 10);
          comp_size = u32 b (off + 20);
          size = u32 b (off + 24);
          attrs = u32 b (off + 38);
          lhdr = u32 b (off + 42)
      in if unsafe_path name then Inl (UnsafePath name)
         else if drop_bit 16 attrs AND 0xf000 = 0xa000 then Inl SymlinkEntry
         else if meth \<noteq> 0 \<and> meth \<noteq> 8 then Inl (BadMethod meth name)
         else if size > max_file_bytes lim then Inl (FileTooLarge name)
         else if tot + size > max_total_bytes lim then Inl ArchiveTooLarge
         else if lhdr + 30 > length b \<or> u32 b lhdr \<noteq> LFH_SIGNATURE then Inl (CorruptLocalHeader name)
         else let start = lhdr + 30 + u16 b (lhdr + 26) + u16 b (lhdr + 28);
                  packed = take comp_size (drop start b)
              in try_then (if meth = 0 then Inr packed else inflate_raw (inflate env) packed (max_file_bytes lim))
                   (\<lambda>data. if length data \<noteq> size then Inl (SizeMismatch name) else Inr data))"

text \<open>The loop over the entries that are left; \<open>n\<close> is the number of the next one.\<close>

fun read_entries ::
  "zip_env \<Rightarrow> zip_limits \<Rightarrow> byte list \<Rightarrow> nat \<Rightarrow> nat \<Rightarrow> nat \<Rightarrow> nat \<Rightarrow> files \<Rightarrow> zip_error + files" where
  "read_entries env lim b 0 n off tot out = Inr out"
| "read_entries env lim b (Suc left) n off tot out =
     (if off + 46 > length b \<or> u32 b off \<noteq> CD_SIGNATURE then Inl (CorruptDirectory n)
      else let name_len = u16 b (off + 28);
               name = text_decode env (take name_len (drop (off + 46) b));
               next_off = off + 46 + name_len + u16 b (off + 30) + u16 b (off + 32)
           in if ends_with name ''/'' then read_entries env lim b left (Suc n) next_off tot out
              else try_then (read_entry env lim b off name tot)
                     (\<lambda>data. read_entries env lim b left (Suc n) next_off (tot + length data)
                        (AList.update name data out)))"

definition read_zip :: "zip_env \<Rightarrow> zip_limits \<Rightarrow> byte list \<Rightarrow> zip_error + files" where
  "read_zip env lim b =
     (if length b < 22 then Inl ZipTooSmall
      else case eocd_offset b of None \<Rightarrow> Inl NoEocd
        | Some eocd \<Rightarrow>
          (let count = u16 b (eocd + 10)
           in if count > max_entries lim then Inl (TooManyEntries count)
              else try_then (read_entries env lim b count 0 (u32 b (eocd + 16)) 0 [])
                     (\<lambda>out. if out = [] then Inl NoFiles else Inr out)))"

definition wrapper_dirs :: "files \<Rightarrow> string list" where
  "wrapper_dirs fs = remdups (List.map_filter
     (\<lambda>k. case index_of k (CHR ''/'') of Some i \<Rightarrow> if 0 < i then Some (take i k) else None | None \<Rightarrow> None)
     (map fst fs))"

text \<open>The path of the manifest and the root of the package.\<close>

definition locate_manifest :: "files \<Rightarrow> (string \<times> string) option" where
  "locate_manifest fs =
     (if omap_has fs ''manifest.json'' then Some (''manifest.json'', [])
      else case wrapper_dirs fs of
          [d] \<Rightarrow> if omap_has fs (d @ ''/manifest.json'') then Some (d @ ''/manifest.json'', d @ ''/'') else None
        | _ \<Rightarrow> None)"

section \<open>Extraction is safe\<close>

definition files_total :: "files \<Rightarrow> nat" where
  "files_total fs = sum_list (map (\<lambda>(_, d). length d) fs)"

definition safe_file :: "zip_limits \<Rightarrow> string \<times> byte list \<Rightarrow> bool" where
  "safe_file lim e \<longleftrightarrow> \<not> unsafe_path (fst e) \<and> \<not> ends_with (fst e) ''/'' \<and> length (snd e) \<le> max_file_bytes lim"

lemma read_entry_ok:
  assumes "read_entry env lim b off name tot = Inr d"
  shows "\<not> unsafe_path name \<and> length d \<le> max_file_bytes lim \<and> tot + length d \<le> max_total_bytes lim"
  using assms by (auto simp: read_entry_def Let_def try_then_Inr split: if_splits)

lemma files_total_update: "files_total (AList.update k d fs) \<le> files_total fs + length d"
  by (induction fs) (auto simp: files_total_def)

lemma length_update_le: "length (AList.update k d fs) \<le> Suc (length fs)"
  by (induction fs) auto

lemma read_entries_safe:
  assumes "read_entries env lim b left n off tot out = Inr fs"
    "omap_wf out" "list_all (safe_file lim) out" "files_total out \<le> tot" "tot \<le> max_total_bytes lim"
  shows "omap_wf fs \<and> list_all (safe_file lim) fs \<and> files_total fs \<le> max_total_bytes lim
    \<and> length fs \<le> length out + left"
  using assms
proof (induction env lim b left n off tot out rule: read_entries.induct)
  case (2 env lim b left n off tot out)
  let ?nl = "u16 b (off + 28)"
  let ?name = "text_decode env (take ?nl (drop (off + 46) b))"
  let ?next = "off + 46 + ?nl + u16 b (off + 30) + u16 b (off + 32)"
  have hd: "\<not> (off + 46 > length b \<or> u32 b off \<noteq> CD_SIGNATURE)"
    using "2.prems"(1) by (auto split: if_splits)
  show ?case
  proof (cases "ends_with ?name ''/''")
    case True
    then show ?thesis
      using "2.IH"(1) [OF hd refl refl refl True] "2.prems" hd by (simp add: Let_def)
  next
    case False
    then obtain d where d: "read_entry env lim b off ?name tot = Inr d"
      and r: "read_entries env lim b left (Suc n) ?next (tot + length d) (AList.update ?name d out) = Inr fs"
      using "2.prems"(1) hd by (auto simp: Let_def try_then_Inr)
    note ok = read_entry_ok [OF d]
    have "list_all (safe_file lim) (AList.update ?name d out)"
      using set_update_subset [of ?name d out] "2.prems"(3) ok False
      by (auto simp: list_all_iff safe_file_def)
    then show ?thesis
      using "2.IH"(2) [OF hd refl refl refl False r] "2.prems"(2,4) ok
        files_total_update [of ?name d out] length_update_le [of ?name d out]
      by auto
  qed
qed auto

text \<open>C34. Whatever bytes an archive holds, a package that \<open>readZip\<close> returns is nonempty, has at most the
  allowed number of files with distinct relative paths that cannot leave the package, and every file
  and their sum are within the limits.
\<close>

theorem zip_extraction_safe:
  assumes "read_zip env lim b = Inr fs"
  shows "fs \<noteq> [] \<and> omap_wf fs \<and> length fs \<le> max_entries lim \<and> files_total fs \<le> max_total_bytes lim
    \<and> (\<forall>(name, d) \<in> set fs. length d \<le> max_file_bytes lim \<and> \<not> starts_with name ''/''
        \<and> ''..'' \<notin> set (split_on (CHR ''/'') name) \<and> CHR 0x5C \<notin> set name \<and> CHR 0x00 \<notin> set name)"
proof -
  obtain count off where r: "read_entries env lim b count 0 off 0 [] = Inr fs"
    and c: "count \<le> max_entries lim" and ne: "fs \<noteq> []"
    using assms by (auto simp: read_zip_def Let_def try_then_Inr split: if_splits option.splits)
  show ?thesis
    using read_entries_safe [OF r] c ne
    by (auto simp: files_total_def list_all_iff safe_file_def unsafe_path_def)
qed

section \<open>Reading back a stored archive\<close>

text \<open>A reference writer: every file stored without compression, the directory, the end record.\<close>

definition le16 :: "nat \<Rightarrow> byte list" where
  "le16 n = (let w = of_nat n :: 32 word in [ucast w, ucast (drop_bit 8 w)])"

definition le32 :: "nat \<Rightarrow> byte list" where
  "le32 n = (let w = of_nat n :: 32 word
             in [ucast w, ucast (drop_bit 8 w), ucast (drop_bit 16 w), ucast (drop_bit 24 w)])"

definition local_record :: "byte list \<times> byte list \<Rightarrow> byte list" where
  "local_record e = le32 LFH_SIGNATURE @ replicate 22 0 @ le16 (length (fst e)) @ le16 0 @ fst e @ snd e"

definition directory_record :: "nat \<Rightarrow> byte list \<times> byte list \<Rightarrow> byte list" where
  "directory_record at e = le32 CD_SIGNATURE @ replicate 16 0 @ le32 (length (snd e)) @ le32 (length (snd e))
     @ le16 (length (fst e)) @ le16 0 @ le16 0 @ replicate 4 0 @ le32 0 @ le32 at @ fst e"

fun directory :: "nat \<Rightarrow> (byte list \<times> byte list) list \<Rightarrow> byte list" where
  "directory at [] = []"
| "directory at (e # es) = directory_record at e @ directory (at + length (local_record e)) es"

definition end_record :: "nat \<Rightarrow> nat \<Rightarrow> byte list" where
  "end_record n at = le32 EOCD_SIGNATURE @ replicate 6 0 @ le16 n @ replicate 4 0 @ le32 at @ le16 0"

definition stored_archive :: "(byte list \<times> byte list) list \<Rightarrow> byte list" where
  "stored_archive es = concat (map local_record es) @ directory 0 es
     @ end_record (length es) (length (concat (map local_record es)))"

lemma le_lengths [simp]: "length (le16 n) = 2" "length (le32 n) = 4"
  by (simp_all add: le16_def le32_def Let_def)

lemma record_lengths [simp]:
  "length (local_record e) = 30 + length (fst e) + length (snd e)"
  "length (directory_record at e) = 46 + length (fst e)"
  "length (end_record n at) = 22"
  by (simp_all add: local_record_def directory_record_def end_record_def)

lemma word_of_bytes:
  fixes w :: "32 word"
  shows "ucast (ucast w :: byte) OR push_bit 8 (ucast (ucast (drop_bit 8 w) :: byte))
    OR push_bit 16 (ucast (ucast (drop_bit 16 w) :: byte)) OR push_bit 24 (ucast (ucast (drop_bit 24 w) :: byte)) = w"
proof (rule bit_word_eqI)
  fix n assume "n < LENGTH(32)"
  then show "bit (ucast (ucast w :: byte) OR push_bit 8 (ucast (ucast (drop_bit 8 w) :: byte))
    OR push_bit 16 (ucast (ucast (drop_bit 16 w) :: byte)) OR push_bit 24 (ucast (ucast (drop_bit 24 w) :: byte)) :: 32 word) n
    = bit w n"
    by (cases "n < 16"; cases "n < 24"; auto simp: bit_simps)
qed

lemma half_of_bytes:
  fixes w :: "32 word"
  assumes "w < 2 ^ 16"
  shows "ucast (ucast w :: byte) OR push_bit 8 (ucast (ucast (drop_bit 8 w) :: byte)) = w"
proof -
  have "unat w < 2 ^ 16" using assms by (simp add: word_less_nat_alt)
  then have "take_bit 16 w = w"
    by (simp add: word_unat_eq_iff unsigned_take_bit_eq take_bit_nat_eq_self_iff)
  then have hi: "bit w n \<Longrightarrow> n < 16" for n by (metis bit_take_bit_iff)
  show ?thesis
    by (rule bit_word_eqI) (auto simp: bit_simps dest: hi)
qed

lemma byte_at_append [simp]:
  "byte_at (a @ x # c) (length a) = ucast x"
  by (simp add: byte_at_def)

lemma byte_at_shift:
  "byte_at (a @ b) (length a + i) = byte_at b i"
  by (simp add: byte_at_def nth_append)

lemma u_shift:
  "u16 (a @ b) (length a + i) = u16 b i" "u32 (a @ b) (length a + i) = u32 b i"
  by (simp_all only: u16_def u32_def byte_at_shift add.assoc)

lemma u32_le: "n < 2 ^ 32 \<Longrightarrow> u32 (le32 n @ c) 0 = n"
proof -
  assume n: "n < 2 ^ 32"
  have "u32 (le32 n @ c) 0 = unat (of_nat n :: 32 word)"
    using word_of_bytes [of "of_nat n"] by (simp add: u32_def byte_at_def le32_def Let_def numeral_2_eq_2 numeral_3_eq_3)
  with n show ?thesis by (simp add: unat_of_nat take_bit_nat_eq_self)
qed

lemma u16_le: "n < 2 ^ 16 \<Longrightarrow> u16 (le16 n @ c) 0 = n"
proof -
  assume n: "n < 2 ^ 16"
  then have "(of_nat n :: 32 word) < 2 ^ 16"
    by (simp add: word_less_nat_alt unat_of_nat take_bit_nat_eq_self)
  then have "u16 (le16 n @ c) 0 = unat (of_nat n :: 32 word)"
    using half_of_bytes [of "of_nat n"] by (simp add: u16_def byte_at_def le16_def Let_def)
  with n show ?thesis by (simp add: unat_of_nat take_bit_nat_eq_self)
qed

lemma u32_at: "length a = i \<Longrightarrow> n < 2 ^ 32 \<Longrightarrow> u32 (a @ le32 n @ c) i = n"
  using u_shift(2) [of a "le32 n @ c" 0] u32_le by simp

lemma u16_at: "length a = i \<Longrightarrow> n < 2 ^ 16 \<Longrightarrow> u16 (a @ le16 n @ c) i = n"
  using u_shift(1) [of a "le16 n @ c" 0] u16_le by simp

text \<open>The fields of a directory record and of a local record, wherever they stand in the archive.\<close>

lemma u32_in: "b = p @ r @ q \<Longrightarrow> r = x @ le32 n @ y \<Longrightarrow> k = length p + length x \<Longrightarrow> n < 2 ^ 32 \<Longrightarrow> u32 b k = n"
  using u32_at [of "p @ x" k n "y @ q"] by simp

lemma u16_in: "b = p @ r @ q \<Longrightarrow> r = x @ le16 n @ y \<Longrightarrow> k = length p + length x \<Longrightarrow> n < 2 ^ 16 \<Longrightarrow> u16 b k = n"
  using u16_at [of "p @ x" k n "y @ q"] by simp

lemma replicate_split: "replicate 16 (0::byte) = replicate 6 0 @ le16 0 @ replicate 8 0"
  "replicate 22 (0::byte) = replicate 22 0"
  by (simp_all add: le16_def Let_def numeral_nat)

lemma directory_fields:
  assumes b: "b = p @ directory_record at e @ q"
    and small: "length (fst e) < 2 ^ 16" "length (snd e) < 2 ^ 32" "at < 2 ^ 32"
  shows "u32 b (length p) = CD_SIGNATURE" "u16 b (length p + 10) = 0" "u32 b (length p + 20) = length (snd e)"
    "u32 b (length p + 24) = length (snd e)" "u16 b (length p + 28) = length (fst e)"
    "u16 b (length p + 30) = 0" "u16 b (length p + 32) = 0" "u32 b (length p + 38) = 0"
    "u32 b (length p + 42) = at" "take (length (fst e)) (drop (length p + 46) b) = fst e"
    "length p + 46 \<le> length b"
proof -
  note d = directory_record_def
  show "u32 b (length p) = CD_SIGNATURE"
    by (rule u32_in [OF b, of "[]"]) (simp_all add: d CD_SIGNATURE_def)
  show "u16 b (length p + 10) = 0"
    by (rule u16_in [OF b, of "le32 CD_SIGNATURE @ replicate 6 0"]) (simp_all add: d replicate_split)
  show "u32 b (length p + 20) = length (snd e)"
    by (rule u32_in [OF b, of "le32 CD_SIGNATURE @ replicate 16 0"]) (use small in \<open>simp_all add: d\<close>)
  show "u32 b (length p + 24) = length (snd e)"
    by (rule u32_in [OF b, of "le32 CD_SIGNATURE @ replicate 16 0 @ le32 (length (snd e))"])
      (use small in \<open>simp_all add: d\<close>)
  show "u16 b (length p + 28) = length (fst e)"
    by (rule u16_in [OF b, of "le32 CD_SIGNATURE @ replicate 16 0 @ le32 (length (snd e)) @ le32 (length (snd e))"])
      (use small in \<open>simp_all add: d\<close>)
  show "u16 b (length p + 30) = 0"
    by (rule u16_in [OF b, of "le32 CD_SIGNATURE @ replicate 16 0 @ le32 (length (snd e)) @ le32 (length (snd e))
          @ le16 (length (fst e))"]) (simp_all add: d)
  show "u16 b (length p + 32) = 0"
    by (rule u16_in [OF b, of "le32 CD_SIGNATURE @ replicate 16 0 @ le32 (length (snd e)) @ le32 (length (snd e))
          @ le16 (length (fst e)) @ le16 0"]) (simp_all add: d)
  show "u32 b (length p + 38) = 0"
    by (rule u32_in [OF b, of "le32 CD_SIGNATURE @ replicate 16 0 @ le32 (length (snd e)) @ le32 (length (snd e))
          @ le16 (length (fst e)) @ le16 0 @ le16 0 @ replicate 4 0"]) (simp_all add: d)
  show "u32 b (length p + 42) = at"
    by (rule u32_in [OF b, of "le32 CD_SIGNATURE @ replicate 16 0 @ le32 (length (snd e)) @ le32 (length (snd e))
          @ le16 (length (fst e)) @ le16 0 @ le16 0 @ replicate 4 0 @ le32 0"]) (use small in \<open>simp_all add: d\<close>)
  show "take (length (fst e)) (drop (length p + 46) b) = fst e" "length p + 46 \<le> length b"
    by (simp_all add: b d)
qed

lemma local_fields:
  assumes b: "b = p @ local_record e @ q" and small: "length (fst e) < 2 ^ 16"
  shows "u32 b (length p) = LFH_SIGNATURE" "u16 b (length p + 26) = length (fst e)" "u16 b (length p + 28) = 0"
    "take (length (snd e)) (drop (length p + 30 + length (fst e)) b) = snd e" "length p + 30 \<le> length b"
proof -
  note d = local_record_def
  show "u32 b (length p) = LFH_SIGNATURE"
    by (rule u32_in [OF b, of "[]"]) (simp_all add: d LFH_SIGNATURE_def)
  show "u16 b (length p + 26) = length (fst e)"
    by (rule u16_in [OF b, of "le32 LFH_SIGNATURE @ replicate 22 0"]) (use small in \<open>simp_all add: d\<close>)
  show "u16 b (length p + 28) = 0"
    by (rule u16_in [OF b, of "le32 LFH_SIGNATURE @ replicate 22 0 @ le16 (length (fst e))"]) (simp_all add: d)
  show "take (length (snd e)) (drop (length p + 30 + length (fst e)) b) = snd e" "length p + 30 \<le> length b"
    by (simp_all add: b d)
qed

definition storable :: "zip_env \<Rightarrow> zip_limits \<Rightarrow> byte list \<times> byte list \<Rightarrow> bool" where
  "storable env lim e \<longleftrightarrow> length (fst e) < 2 ^ 16 \<and> length (snd e) \<le> max_file_bytes lim
     \<and> \<not> unsafe_path (text_decode env (fst e)) \<and> \<not> ends_with (text_decode env (fst e)) ''/''"

definition stored_files :: "zip_env \<Rightarrow> (byte list \<times> byte list) list \<Rightarrow> files" where
  "stored_files env = map (\<lambda>e. (text_decode env (fst e), snd e))"

lemma read_entry_stored:
  assumes b: "b = A @ local_record e @ B" "b = C @ directory_record (length A) e @ D"
    and e: "storable env lim e" "length b < 2 ^ 32" "tot + length (snd e) \<le> max_total_bytes lim"
  shows "read_entry env lim b (length C) (text_decode env (fst e)) tot = Inr (snd e)"
proof -
  have small: "length (fst e) < 2 ^ 16" "length (snd e) < 2 ^ 32" "length A < 2 ^ 32"
    using e(1,2) b(1) by (auto simp: storable_def)
  note f = directory_fields [OF b(2) small] local_fields [OF b(1) small(1)]
  have "length A + (30 + length (fst e)) + length (snd e) \<le> length b"
    using b(1) by simp
  then show ?thesis
    using e(1,3) f(16)
    by (simp add: read_entry_def Let_def f(1-10,12-14) f(15) [unfolded add.assoc] storable_def add.assoc)
qed

lemma read_entries_stored:
  assumes "b = A @ concat (map local_record es) @ B" "b = C @ directory (length A) es @ D"
    "list_all (storable env lim) es" "length b < 2 ^ 32"
    "tot + sum_list (map (length \<circ> snd) es) \<le> max_total_bytes lim"
    "distinct (map fst (out @ stored_files env es))"
  shows "read_entries env lim b (length es) n (length C) tot out = Inr (out @ stored_files env es)"
  using assms
proof (induction es arbitrary: A C n tot out)
  case (Cons e es)
  let ?name = "text_decode env (fst e)"
  have b: "b = A @ local_record e @ (concat (map local_record es) @ B)"
    "b = C @ directory_record (length A) e @ (directory (length A + length (local_record e)) es @ D)"
    using Cons.prems(1,2) by simp_all
  have st: "storable env lim e" using Cons.prems(3) by simp
  have small: "length (fst e) < 2 ^ 16" "length (snd e) < 2 ^ 32" "length A < 2 ^ 32"
    using st Cons.prems(4) b(1) by (auto simp: storable_def)
  note f = directory_fields [OF b(2) small]
  have r: "read_entry env lim b (length C) ?name tot = Inr (snd e)"
    by (rule read_entry_stored [OF b st Cons.prems(4)]) (use Cons.prems(5) in simp)
  have new: "\<not> omap_has out ?name"
    using Cons.prems(6) by (auto simp: omap_has_iff stored_files_def)
  have "read_entries env lim b (length es) (Suc n) (length (C @ directory_record (length A) e))
      (tot + length (snd e)) (out @ [(?name, snd e)]) = Inr ((out @ [(?name, snd e)]) @ stored_files env es)"
  proof (rule Cons.IH [of "A @ local_record e"])
    show "b = (A @ local_record e) @ concat (map local_record es) @ B" using b(1) by simp
    show "b = (C @ directory_record (length A) e) @ directory (length (A @ local_record e)) es @ D"
      using b(2) by simp
  qed (use Cons.prems(3-6) in \<open>simp_all add: stored_files_def\<close>)
  then show ?case
    using f(11) st by (simp add: f(1-10) r Let_def update_new_append [OF new] storable_def stored_files_def add.assoc)
qed (simp add: stored_files_def)

text \<open>
  The reader inverts the reference writer: a stored archive of files with distinct safe names, within
  the limits, reads back as exactly these files in their order.
\<close>

lemma read_stored_archive:
  assumes "es \<noteq> []" "list_all (storable env lim) es" "distinct (map fst (stored_files env es))"
    "length es \<le> max_entries lim" "length es < 2 ^ 16" "length (stored_archive es) < 2 ^ 32"
    "sum_list (map (length \<circ> snd) es) \<le> max_total_bytes lim"
  shows "read_zip env lim (stored_archive es) = Inr (stored_files env es)"
proof -
  let ?L = "concat (map local_record es)" and ?b = "stored_archive es"
  have b: "?b = (?L @ directory 0 es) @ end_record (length es) (length ?L)"
    by (simp add: stored_archive_def)
  have len: "length ?b = length (?L @ directory 0 es) + 22"
    by (simp add: b)
  have rng: "rev [length ?b - 22 - 65536..<length ?b - 21]
      = length (?L @ directory 0 es) # rev [length ?b - 22 - 65536..<length (?L @ directory 0 es)]"
    by (simp add: len)
  have b': "?b = (?L @ directory 0 es) @ end_record (length es) (length ?L) @ []" by (simp add: b)
  have "u32 ?b (length (?L @ directory 0 es)) = EOCD_SIGNATURE"
    by (rule u32_in [OF b', of "[]"]) (simp_all add: end_record_def EOCD_SIGNATURE_def)
  then have eocd: "eocd_offset ?b = Some (length (?L @ directory 0 es))"
    by (simp only: eocd_offset_def rng find_eocd.simps simp_thms if_True)
  have cnt: "u16 ?b (length (?L @ directory 0 es) + 10) = length es"
    by (rule u16_in [OF b', of "le32 EOCD_SIGNATURE @ replicate 6 0"]) (use assms(5) in \<open>simp_all add: end_record_def\<close>)
  have off: "u32 ?b (length (?L @ directory 0 es) + 16) = length ?L"
    by (rule u32_in [OF b', of "le32 EOCD_SIGNATURE @ replicate 6 0 @ le16 (length es) @ replicate 4 0"])
      (use assms(6) in \<open>simp_all add: end_record_def len\<close>)
  have "read_entries env lim ?b (length es) 0 (length ?L) 0 [] = Inr ([] @ stored_files env es)"
    by (rule read_entries_stored [of _ "[]" _ "directory 0 es @ end_record (length es) (length ?L)" _ "end_record (length es) (length ?L)"])
      (use assms in \<open>simp_all add: stored_archive_def\<close>)
  moreover have "stored_files env es \<noteq> []" using assms(1) by (simp add: stored_files_def)
  ultimately show ?thesis
    using assms(4)
    by (simp add: read_zip_def eocd [simplified] cnt [simplified] off [simplified] len [simplified] Let_def)
qed

text \<open>
  A stored package of files with distinct safe names, within the limits, loads: the reader gives
  back exactly the files that were written, in their order, and the manifest at the root is found.
\<close>

theorem zip_stored_roundtrip:
  assumes "list_all (storable env lim) es" "distinct (map fst (stored_files env es))"
    "length es \<le> max_entries lim" "length es < 2 ^ 16" "length (stored_archive es) < 2 ^ 32"
    "sum_list (map (length \<circ> snd) es) \<le> max_total_bytes lim"
    "''manifest.json'' \<in> fst ` set (stored_files env es)"
  shows "\<exists>fs. read_zip env lim (stored_archive es) = Inr fs \<and> fs = stored_files env es
    \<and> locate_manifest fs = Some (''manifest.json'', [])"
proof -
  have "es \<noteq> []" using assms(7) by (auto simp: stored_files_def)
  then show ?thesis
    using read_stored_archive assms by (simp add: locate_manifest_def omap_has_iff)
qed

definition demo_zip_env :: zip_env where
  "demo_zip_env = \<lparr>text_decode = map (\<lambda>b. char_of (unat b)), inflate = (\<lambda>_. ([], Some ''bad''))\<rparr>"

definition demo_entries :: "(byte list \<times> byte list) list" where
  "demo_entries = [([97, 47, 98], [1, 2]), (map (\<lambda>c. of_nat (of_char c)) ''manifest.json'', [123, 125])]"

lemma demo_files: "stored_files demo_zip_env demo_entries = [(''a/b'', [1, 2]), (''manifest.json'', [123, 125])]"
  by code_simp

lemma demo_storable: "list_all (storable demo_zip_env DEFAULT_ZIP_LIMITS) demo_entries"
proof -
  have "map (text_decode demo_zip_env \<circ> fst) demo_entries = [''a/b'', ''manifest.json'']"
    "map (length \<circ> fst) demo_entries = [3, 13]" "map (length \<circ> snd) demo_entries = [2, 2]" by code_simp+
  then have "\<forall>e \<in> set demo_entries. text_decode demo_zip_env (fst e) \<in> {''a/b'', ''manifest.json''}
      \<and> length (fst e) \<le> 13 \<and> length (snd e) = 2"
    by (auto simp: demo_entries_def)
  moreover have "\<not> unsafe_path ''a/b''" "\<not> unsafe_path ''manifest.json''"
    "\<not> ends_with ''a/b'' ''/''" "\<not> ends_with ''manifest.json'' ''/''" by code_simp+
  ultimately show ?thesis
    by (fastforce simp: list_all_iff storable_def DEFAULT_ZIP_LIMITS_def)
qed

lemma demo_sizes:
  "distinct (map fst (stored_files demo_zip_env demo_entries))" "demo_entries \<noteq> []"
  "length demo_entries = 2" "length (stored_archive demo_entries) = 210"
  "sum_list (map (length \<circ> snd) demo_entries) = 4"
  unfolding demo_files by (simp_all add: demo_entries_def stored_archive_def)

theorem zip_stored_roundtrip_witness:
  "\<exists>fs. read_zip demo_zip_env DEFAULT_ZIP_LIMITS (stored_archive demo_entries) = Inr fs
     \<and> map fst fs = [''a/b'', ''manifest.json'']"
  using zip_stored_roundtrip [OF demo_storable demo_sizes(1)]
  by (simp add: demo_sizes demo_files DEFAULT_ZIP_LIMITS_def)

theorem zip_extraction_safe_witness:
  "\<exists>fs. read_zip demo_zip_env DEFAULT_ZIP_LIMITS (stored_archive demo_entries) = Inr fs
     \<and> files_total fs \<le> 100 * 1024 * 1024"
proof -
  have "read_zip demo_zip_env DEFAULT_ZIP_LIMITS (stored_archive demo_entries) = Inr (stored_files demo_zip_env demo_entries)"
    by (rule read_stored_archive [OF _ demo_storable demo_sizes(1)])
      (simp_all add: demo_sizes DEFAULT_ZIP_LIMITS_def)
  from zip_extraction_safe [OF this] this show ?thesis by (simp add: DEFAULT_ZIP_LIMITS_def)
qed


end
