(* ===== verification/ExtManifest.thy ===== *)
theory ExtManifest
  imports Prelude
begin

text \<open>
  The manifest of a web extension (\<open>src/app/src/extensions/manifest.ts\<close>, with the record types of
  \<open>types.ts\<close>): \<open>parseManifest\<close> and the message substitution \<open>resolveManifestI18n\<close>. The manifest is a
  JSON value whose objects have distinct keys, in the order of \<open>Object.entries\<close>. A diagnostic is a
  constructor of \<open>manifest_error\<close> or \<open>manifest_warning\<close> that keeps the values its text shows. The
  bytes-to-JSON step of a messages file (\<open>TextDecoder\<close> and \<open>JSON.parse\<close>) is an argument; a messages
  file with a key \<open>__proto__\<close> is outside the model.
\<close>

section \<open>Reading JSON fields\<close>

type_synonym jobj = "(string \<times> json) list"

definition is_obj :: "json option \<Rightarrow> jobj option" where
  "is_obj v = (case v of Some (JObj fs) \<Rightarrow> Some fs | _ \<Rightarrow> None)"

definition str_field :: "json option \<Rightarrow> string option" where
  "str_field v = (case v of Some (JStr s) \<Rightarrow> Some s | _ \<Rightarrow> None)"

definition str_arr :: "json option \<Rightarrow> string list" where
  "str_arr v = (case v of Some (JArr xs) \<Rightarrow> List.map_filter (\<lambda>x. str_field (Some x)) xs | _ \<Rightarrow> [])"

definition obj_arr :: "json option \<Rightarrow> jobj list" where
  "obj_arr v = (case v of Some (JArr xs) \<Rightarrow> List.map_filter (\<lambda>x. is_obj (Some x)) xs | _ \<Rightarrow> [])"

text \<open>Assigning a string to the key \<open>__proto__\<close> of an object has no effect.\<close>

definition icon_map :: "json option \<Rightarrow> (string, string) omap" where
  "icon_map v = (case is_obj v of None \<Rightarrow> []
     | Some fs \<Rightarrow> List.map_filter
         (\<lambda>(k, x). if k = ''__proto__'' then None else map_option (Pair k) (str_field (Some x))) fs)"

definition looks_like_host_pattern :: "string \<Rightarrow> bool" where
  "looks_like_host_pattern p \<longleftrightarrow> p = ''<all_urls>'' \<or> str_includes p ''://'' \<or> starts_with p ''*.''"

definition KNOWN_FIELDS :: "string list" where
  "KNOWN_FIELDS =
    [''manifest_version'', ''name'', ''version'', ''description'', ''icons'',
     ''permissions'', ''host_permissions'', ''optional_permissions'',
     ''content_scripts'', ''background'', ''browser_action'', ''page_action'',
     ''action'', ''options_ui'', ''options_page'', ''web_accessible_resources'',
     ''commands'', ''content_security_policy'', ''browser_specific_settings'',
     ''externally_connectable'', ''sidebar_action'', ''author'', ''homepage_url'',
     ''default_locale'', ''locale'', ''applications'', ''minimum_chrome_version'',
     ''browser_style'', ''short_name'', ''update_url'', ''devtools_page'',
     ''chrome_settings_overrides'', ''chrome_url_overrides'', ''omnibox'',
     ''file_browser_handlers'', ''protocol_handlers'', ''web_request'',
     ''incognito'', ''offline_enabled'', ''optional_host_permissions'',
     ''granted_host_permissions'', ''hidden'', ''user_scripts'', ''export'',
     ''default_icon'', ''theme'', ''dictionaries'', ''developer'', ''lwt_background'', ''lwt_alpha'']"

definition is_hex :: "char \<Rightarrow> bool" where
  "is_hex c \<longleftrightarrow> hex_val c \<noteq> None"

definition is_guid :: "string \<Rightarrow> bool" where
  "is_guid s \<longleftrightarrow> 2 \<le> length s \<and> hd s = CHR ''{'' \<and> last s = CHR ''}''
     \<and> (let ps = split_on (CHR ''-'') (butlast (tl s))
        in map length ps = [8, 4, 4, 4, 12] \<and> list_all (list_all is_hex) ps)"

definition gecko_id_char :: "char \<Rightarrow> bool" where
  "gecko_id_char c \<longleftrightarrow> is_alnum c \<or> c \<in> set ''-._''"

definition valid_gecko_id :: "string \<Rightarrow> bool" where
  "valid_gecko_id s \<longleftrightarrow> is_guid s
     \<or> (let ps = split_on (CHR ''@'') s
        in length ps = 2 \<and> list_all (\<lambda>p. p \<noteq> [] \<and> list_all gecko_id_char p) ps)"

definition dotted_version :: "json option \<Rightarrow> string option" where
  "dotted_version v = (case str_field v of None \<Rightarrow> None
     | Some s \<Rightarrow> if s \<noteq> [] \<and> list_all (\<lambda>p. p \<noteq> [] \<and> list_all is_digit p) (split_on (CHR ''.'') s)
         then Some s else None)"

section \<open>The parsed surface\<close>

datatype manifest_error =
  RootNotObject | BadManifestVersion "json option" | NameRequired | VersionRequired
| BadGeckoId string | I18nNoLocale string

datatype manifest_warning =
  VersionShape string | GeckoKey string | EngineKey string | MinVersion json | MaxVersion json
| NoDictionaries | OptionsPageMissing | WarNoResources | WarNoMatches | WarDynamicUrl
| ScriptNoMatches | ServiceWorkerRecorded | I18nUnresolved string string

record diags =
  dg_errors :: "manifest_error list"
  dg_warnings :: "manifest_warning list"
  dg_unsupported :: "string list"

datatype run_at = DocumentStart | DocumentEnd | DocumentIdle

record content_script =
  cs_matches :: "string list"
  cs_exclude_matches :: "string list"
  cs_include_globs :: "string list"
  cs_exclude_globs :: "string list"
  cs_js :: "string list"
  cs_css :: "string list"
  cs_run_at :: run_at
  cs_all_frames :: bool
  cs_match_about_blank :: bool

record background_spec =
  bg_scripts :: "string list"
  bg_page :: "string option"
  bg_service_worker :: "string option"
  bg_persistent :: bool

datatype action_kind = PlainAction | BrowserAction | PageAction

record action_spec =
  ac_kind :: action_kind
  ac_popup :: "string option"
  ac_title :: "string option"
  ac_icon :: "(string, string) omap"
  ac_badge_text :: "string option"
  ac_badge_color :: "string option"
  ac_enabled :: bool

record options_spec =
  op_page :: string
  op_in_tab :: bool

record connectable =
  ec_ids :: "string list"
  ec_matches :: "string list"

record sidebar_spec =
  sb_panel :: "string option"
  sb_title :: "string option"
  sb_icon :: "(string, string) omap"

record theme_spec =
  th_colors :: jobj
  th_images :: jobj

text \<open>An absent \<open>extensionIds\<close> is the empty list, an absent \<open>useDynamicUrl\<close> is false.\<close>

record war_entry =
  we_resources :: "string list"
  we_matches :: "string list"
  we_ext_ids :: "string list"
  we_dynamic :: bool

record parsed_ext =
  pe_name :: string
  pe_version :: string
  pe_mv :: nat
  pe_manifest :: jobj
  pe_gecko_id :: "string option"
  pe_gecko_min :: "string option"
  pe_gecko_max :: "string option"
  pe_theme :: "theme_spec option"
  pe_dictionaries :: "(string, string) omap option"
  pe_permissions :: "string list"
  pe_hosts :: "string list"
  pe_optional :: "string list"
  pe_scripts :: "content_script list"
  pe_background :: "background_spec option"
  pe_action :: "action_spec option"
  pe_options :: "options_spec option"
  pe_icons :: "(string, string) omap"
  pe_war :: "string list"
  pe_war_scoped :: "war_entry list"
  pe_connectable :: "connectable option"
  pe_commands :: jobj
  pe_csp :: "string option"
  pe_sidebar :: "sidebar_spec option"
  pe_unsupported :: "string list"
  pe_warnings :: "manifest_warning list"

section \<open>The parser\<close>

definition is_true :: "json option \<Rightarrow> bool" where
  "is_true v \<longleftrightarrow> v = Some (JBool True)"

definition parse_run_at :: "json option \<Rightarrow> run_at" where
  "parse_run_at v = (case str_field v of
     Some s \<Rightarrow> if s = ''document_start'' then DocumentStart
               else if s = ''document_end'' then DocumentEnd else DocumentIdle
   | None \<Rightarrow> DocumentIdle)"

definition parse_content_script :: "jobj \<Rightarrow> content_script" where
  "parse_content_script cs = \<lparr>
     cs_matches = str_arr (map_of cs ''matches''),
     cs_exclude_matches = str_arr (map_of cs ''exclude_matches''),
     cs_include_globs = str_arr (map_of cs ''include_globs''),
     cs_exclude_globs = str_arr (map_of cs ''exclude_globs''),
     cs_js = str_arr (map_of cs ''js''),
     cs_css = str_arr (map_of cs ''css''),
     cs_run_at = parse_run_at (map_of cs ''run_at''),
     cs_all_frames = is_true (map_of cs ''all_frames''),
     cs_match_about_blank = is_true (map_of cs ''match_about_blank'')\<rparr>"

fun parse_content_scripts :: "jobj list \<Rightarrow> content_script list \<times> manifest_warning list" where
  "parse_content_scripts [] = ([], [])"
| "parse_content_scripts (cs # rest) =
     (let (out, w) = parse_content_scripts rest
      in if str_arr (map_of cs ''matches'') = [] then (out, ScriptNoMatches # w)
         else (parse_content_script cs # out, w))"

definition parse_background :: "json option \<Rightarrow> nat \<Rightarrow> background_spec option \<times> manifest_warning list" where
  "parse_background v mv = (case is_obj v of None \<Rightarrow> (None, [])
   | Some b \<Rightarrow>
     (let scripts = str_arr (map_of b ''scripts'');
          page = str_field (map_of b ''page'');
          sw = str_field (map_of b ''service_worker'');
          w = (if mv = 3 \<and> truthy sw \<noteq> None \<and> scripts = [] then [ServiceWorkerRecorded] else [])
      in if scripts = [] \<and> truthy page = None \<and> truthy sw = None then (None, w)
         else (Some \<lparr>bg_scripts = scripts, bg_page = page, bg_service_worker = sw,
                 bg_persistent = (map_of b ''persistent'' \<noteq> Some (JBool False))\<rparr>, w)))"

fun action_key :: "action_kind \<Rightarrow> string" where
  "action_key PlainAction = ''action''"
| "action_key BrowserAction = ''browser_action''"
| "action_key PageAction = ''page_action''"

definition pick_action :: "json option \<Rightarrow> action_kind \<Rightarrow> action_spec option" where
  "pick_action v kind = (case is_obj v of None \<Rightarrow> None
   | Some a \<Rightarrow> Some \<lparr>ac_kind = kind, ac_popup = str_field (map_of a ''default_popup''),
       ac_title = str_field (map_of a ''default_title''), ac_icon = icon_map (map_of a ''default_icon''),
       ac_badge_text = None, ac_badge_color = None, ac_enabled = True\<rparr>)"

fun first_action :: "jobj \<Rightarrow> action_kind list \<Rightarrow> action_spec option" where
  "first_action m [] = None"
| "first_action m (k # ks) =
     (case pick_action (map_of m (action_key k)) k of Some s \<Rightarrow> Some s | None \<Rightarrow> first_action m ks)"

definition parse_action :: "jobj \<Rightarrow> nat \<Rightarrow> action_spec option" where
  "parse_action m mv = first_action m
     (if mv = 3 then [PlainAction, BrowserAction, PageAction] else [BrowserAction, PlainAction, PageAction])"

fun parse_war_entries :: "jobj list \<Rightarrow> string list \<times> war_entry list \<times> manifest_warning list" where
  "parse_war_entries [] = ([], [], [])"
| "parse_war_entries (e # rest) =
     (let res = str_arr (map_of e ''resources'');
          ms = str_arr (map_of e ''matches'');
          ids = str_arr (map_of e ''extension_ids'');
          dyn = is_true (map_of e ''use_dynamic_url'');
          (globs, scoped, w) = parse_war_entries rest
      in if res = [] then (globs, scoped, WarNoResources # w)
         else if ms = [] \<and> ids = [] then (res @ globs, scoped, WarNoMatches # w)
         else (globs, \<lparr>we_resources = res, we_matches = ms, we_ext_ids = ids, we_dynamic = dyn\<rparr> # scoped,
               (if dyn then [WarDynamicUrl] else []) @ w))"

definition parse_web_accessible ::
  "json option \<Rightarrow> nat \<Rightarrow> string list \<times> war_entry list \<times> manifest_warning list" where
  "parse_web_accessible v mv = (case v of
     Some (JArr _) \<Rightarrow> if mv = 2 then (str_arr v, [], []) else parse_war_entries (obj_arr v)
   | _ \<Rightarrow> ([], [], []))"

definition settings_of :: "jobj \<Rightarrow> jobj option" where
  "settings_of raw = (case is_obj (map_of raw ''browser_specific_settings'') of
     Some s \<Rightarrow> Some s | None \<Rightarrow> is_obj (map_of raw ''applications''))"

definition gecko_of :: "jobj \<Rightarrow> jobj option" where
  "gecko_of raw = (case settings_of raw of None \<Rightarrow> None | Some s \<Rightarrow> is_obj (map_of s ''gecko''))"

definition gecko_field :: "jobj \<Rightarrow> string \<Rightarrow> json option" where
  "gecko_field raw k = (case gecko_of raw of None \<Rightarrow> None | Some g \<Rightarrow> map_of g k)"

definition bound_warning :: "(json \<Rightarrow> manifest_warning) \<Rightarrow> json option \<Rightarrow> manifest_warning list" where
  "bound_warning mk v = (case v of None \<Rightarrow> []
     | Some j \<Rightarrow> if dotted_version v = None then [mk j] else [])"

definition gecko_warnings :: "jobj \<Rightarrow> manifest_warning list" where
  "gecko_warnings raw =
     (case gecko_of raw of None \<Rightarrow> [] | Some g \<Rightarrow> map GeckoKey (filter
        (\<lambda>k. k \<notin> {''id'', ''strict_min_version'', ''strict_max_version'', ''update_url''}) (map fst g)))
     @ (case settings_of raw of None \<Rightarrow> [] | Some s \<Rightarrow> map EngineKey (filter
        (\<lambda>k. k \<notin> {''gecko'', ''gecko_android''}) (map fst s)))
     @ bound_warning MinVersion (gecko_field raw ''strict_min_version'')
     @ bound_warning MaxVersion (gecko_field raw ''strict_max_version'')"

definition obj_or_empty :: "json option \<Rightarrow> jobj" where
  "obj_or_empty v = (case is_obj v of Some fs \<Rightarrow> fs | None \<Rightarrow> [])"

definition parse_theme :: "json option \<Rightarrow> theme_spec option" where
  "parse_theme v = (case is_obj v of None \<Rightarrow> None
   | Some t \<Rightarrow> Some \<lparr>th_colors = obj_or_empty (map_of t ''colors''), th_images = obj_or_empty (map_of t ''images'')\<rparr>)"

definition parse_dictionaries :: "json option \<Rightarrow> (string, string) omap option" where
  "parse_dictionaries v = (case is_obj v of None \<Rightarrow> None
   | Some fs \<Rightarrow> Some (List.map_filter (\<lambda>(k, x). map_option (Pair k) (str_field (Some x))) fs))"

definition parse_options :: "jobj \<Rightarrow> options_spec option" where
  "parse_options raw = (case is_obj (map_of raw ''options_ui'') of
     Some ui \<Rightarrow> Some \<lparr>op_page = (case str_field (map_of ui ''page'') of Some p \<Rightarrow> p | None \<Rightarrow> []),
                  op_in_tab = is_true (map_of ui ''open_in_tab'')\<rparr>
   | None \<Rightarrow> (case str_field (map_of raw ''options_page'') of
       Some p \<Rightarrow> Some \<lparr>op_page = p, op_in_tab = True\<rparr> | None \<Rightarrow> None))"

definition parse_connectable :: "json option \<Rightarrow> connectable option" where
  "parse_connectable v = (case is_obj v of None \<Rightarrow> None
   | Some e \<Rightarrow> Some \<lparr>ec_ids = str_arr (map_of e ''ids''), ec_matches = str_arr (map_of e ''matches'')\<rparr>)"

definition parse_csp :: "json option \<Rightarrow> string option" where
  "parse_csp v = (case str_field v of Some s \<Rightarrow> Some s
   | None \<Rightarrow> (case is_obj v of None \<Rightarrow> None | Some c \<Rightarrow> str_field (map_of c ''extension_pages'')))"

definition parse_sidebar :: "json option \<Rightarrow> sidebar_spec option" where
  "parse_sidebar v = (case is_obj v of None \<Rightarrow> None
   | Some s \<Rightarrow> Some \<lparr>sb_panel = str_field (map_of s ''default_panel''),
       sb_title = str_field (map_of s ''default_title''), sb_icon = icon_map (map_of s ''default_icon'')\<rparr>)"

definition manifest_errors :: "jobj \<Rightarrow> manifest_error list" where
  "manifest_errors raw =
     (if truthy (str_field (map_of raw ''name'')) = None then [NameRequired] else [])
     @ (if truthy (str_field (map_of raw ''version'')) = None then [VersionRequired] else [])
     @ (case str_field (gecko_field raw ''id'') of None \<Rightarrow> []
        | Some g \<Rightarrow> if valid_gecko_id g then [] else [BadGeckoId g])"

definition or_blank :: "string option \<Rightarrow> string" where
  "or_blank s = (case s of Some x \<Rightarrow> x | None \<Rightarrow> [])"

definition manifest_warnings :: "jobj \<Rightarrow> nat \<Rightarrow> manifest_warning list" where
  "manifest_warnings raw mv =
     (let version = or_blank (str_field (map_of raw ''version''))
      in if version \<noteq> [] \<and> is_digit (hd version) then [] else [VersionShape version])
     @ gecko_warnings raw
     @ (if parse_dictionaries (map_of raw ''dictionaries'') = Some [] then [NoDictionaries] else [])
     @ (case parse_options raw of Some oo \<Rightarrow> if op_page oo = [] then [OptionsPageMissing] else [] | None \<Rightarrow> [])
     @ snd (snd (parse_web_accessible (map_of raw ''web_accessible_resources'') mv))
     @ snd (parse_content_scripts (obj_arr (map_of raw ''content_scripts'')))
     @ snd (parse_background (map_of raw ''background'') mv)"

definition parse_fields :: "jobj \<Rightarrow> nat \<Rightarrow> parsed_ext" where
  "parse_fields raw mv =
     (let permissions_all = str_arr (map_of raw ''permissions'');
          war = parse_web_accessible (map_of raw ''web_accessible_resources'') mv
      in \<lparr>pe_name = or_blank (str_field (map_of raw ''name'')),
          pe_version = or_blank (str_field (map_of raw ''version'')),
          pe_mv = mv,
          pe_manifest = raw,
          pe_gecko_id = str_field (gecko_field raw ''id''),
          pe_gecko_min = truthy (str_field (gecko_field raw ''strict_min_version'')),
          pe_gecko_max = truthy (str_field (gecko_field raw ''strict_max_version'')),
          pe_theme = parse_theme (map_of raw ''theme''),
          pe_dictionaries = parse_dictionaries (map_of raw ''dictionaries''),
          pe_permissions = filter (\<lambda>p. \<not> looks_like_host_pattern p) permissions_all,
          pe_hosts = str_arr (map_of raw ''host_permissions'') @ filter looks_like_host_pattern permissions_all,
          pe_optional = str_arr (map_of raw ''optional_permissions''),
          pe_scripts = fst (parse_content_scripts (obj_arr (map_of raw ''content_scripts''))),
          pe_background = fst (parse_background (map_of raw ''background'') mv),
          pe_action = parse_action raw mv,
          pe_options = parse_options raw,
          pe_icons = icon_map (map_of raw ''icons''),
          pe_war = fst war,
          pe_war_scoped = fst (snd war),
          pe_connectable = parse_connectable (map_of raw ''externally_connectable''),
          pe_commands = obj_or_empty (map_of raw ''commands''),
          pe_csp = parse_csp (map_of raw ''content_security_policy''),
          pe_sidebar = parse_sidebar (map_of raw ''sidebar_action''),
          pe_unsupported = filter (\<lambda>k. k \<notin> set KNOWN_FIELDS) (map fst raw),
          pe_warnings = manifest_warnings raw mv\<rparr>)"

definition no_parse :: "manifest_error \<Rightarrow> bool \<times> parsed_ext option \<times> diags" where
  "no_parse e = (False, None, \<lparr>dg_errors = [e], dg_warnings = [], dg_unsupported = []\<rparr>)"

definition parse_manifest :: "json \<Rightarrow> bool \<times> parsed_ext option \<times> diags" where
  "parse_manifest j = (case is_obj (Some j) of
     None \<Rightarrow> no_parse RootNotObject
   | Some raw \<Rightarrow>
     (let mv_raw = map_of raw ''manifest_version''
      in if mv_raw \<noteq> Some (JNum 2) \<and> mv_raw \<noteq> Some (JNum 3) then no_parse (BadManifestVersion mv_raw)
         else let mv = (if mv_raw = Some (JNum 2) then 2 else 3);
                  p = parse_fields raw mv;
                  errors = manifest_errors raw
              in (errors = [], Some p,
                  \<lparr>dg_errors = errors, dg_warnings = pe_warnings p, dg_unsupported = pe_unsupported p\<rparr>)))"

section \<open>Message substitution\<close>

definition key_char :: "char \<Rightarrow> bool" where
  "key_char c \<longleftrightarrow> is_alnum c \<or> c = CHR ''_'' \<or> c = CHR ''@''"

text \<open>
  The greedy group of \<open>/__MSG_([A-Za-z0-9_@]+)__/\<close> right after the prefix: the longest nonempty run
  of key characters that two underscores follow.
\<close>

definition msg_key :: "string \<Rightarrow> string option" where
  "msg_key s =
     (let run = takeWhile key_char s
      in case filter (\<lambda>n. take 2 (drop n run) = ''__'') (rev [1..<length run - 1]) of
           [] \<Rightarrow> None | n # _ \<Rightarrow> Some (take n run))"

text \<open>The text with every placeholder replaced, and whether one of them was unresolved.\<close>

function replace_msgs :: "(string \<Rightarrow> string option) \<Rightarrow> string \<Rightarrow> string \<times> bool" where
  "replace_msgs f [] = ([], False)"
| "replace_msgs f (c # s) =
     (case (if starts_with (c # s) ''__MSG_'' then msg_key (drop 6 (c # s)) else None) of
        None \<Rightarrow> (let (t, u) = replace_msgs f s in (c # t, u))
      | Some k \<Rightarrow>
        (let (t, u) = replace_msgs f (drop (length k + 8) (c # s))
         in case f k of Some m \<Rightarrow> (m @ t, u) | None \<Rightarrow> (''__MSG_'' @ k @ ''__'' @ t, True)))"
  by pat_completeness auto
termination
  by (relation "measure (\<lambda>(f, s). length s)") auto

definition entry_message :: "json option \<Rightarrow> string option" where
  "entry_message v = (case is_obj v of
     Some e \<Rightarrow> str_field (map_of e ''message'') | None \<Rightarrow> str_field v)"

definition fold_messages :: "jobj \<Rightarrow> jobj" where
  "fold_messages es = fold (\<lambda>(k, v). AList.update (js_lower k) v) es []"

type_synonym file_reader = "string \<Rightarrow> byte list option"

definition load_messages :: "(byte list \<Rightarrow> json option) \<Rightarrow> file_reader \<Rightarrow> string \<Rightarrow> jobj option" where
  "load_messages json_of read_file locale =
     (let p = ''_locales/'' @ locale @ ''/messages.json'';
          bytes = (case read_file p of Some b \<Rightarrow> Some b | None \<Rightarrow> read_file (''/'' @ p))
      in if locale = [] then None
         else case bytes of None \<Rightarrow> None
           | Some b \<Rightarrow> map_option fold_messages (is_obj (json_of b)))"

definition msg_subst :: "jobj option \<Rightarrow> string \<Rightarrow> string \<times> bool" where
  "msg_subst messages value =
     (if \<not> str_includes value ''__MSG_'' then (value, False)
      else case messages of None \<Rightarrow> (value, True)
        | Some m \<Rightarrow> replace_msgs (\<lambda>k. entry_message (map_of m (js_lower k))) value)"

text \<open>What one \<open>apply\<close> does: the replacement text to assign, if any, and the diagnostics.\<close>

definition i18n_apply ::
  "jobj option \<Rightarrow> string \<Rightarrow> string \<Rightarrow> string \<Rightarrow> diags \<Rightarrow> string option \<times> diags" where
  "i18n_apply messages locale label value d =
     (if \<not> str_includes value ''__MSG_'' then (None, d)
      else if locale = [] then (None, d\<lparr>dg_errors := dg_errors d @ [I18nNoLocale label]\<rparr>)
      else let (t, unresolved) = msg_subst messages value
           in if unresolved
              then (None, d\<lparr>dg_warnings := dg_warnings d @ [I18nUnresolved label locale]\<rparr>)
              else (Some t, d))"

record i18n_state =
  is_raw :: jobj
  is_parsed :: parsed_ext
  is_diags :: diags

type_synonym i18n_fun = "string \<Rightarrow> string \<Rightarrow> diags \<Rightarrow> string option \<times> diags"

definition i18n_name :: "i18n_fun \<Rightarrow> i18n_state \<Rightarrow> i18n_state" where
  "i18n_name ap s =
     (let (t, d) = ap ''name'' (pe_name (is_parsed s)) (is_diags s)
      in s\<lparr>is_diags := d,
           is_parsed := (case t of Some x \<Rightarrow> (is_parsed s)\<lparr>pe_name := x\<rparr> | None \<Rightarrow> is_parsed s)\<rparr>)"

text \<open>A string field of an object, substituted in place.\<close>

definition i18n_field :: "i18n_fun \<Rightarrow> string \<Rightarrow> string \<Rightarrow> jobj \<times> diags \<Rightarrow> jobj \<times> diags" where
  "i18n_field ap label key od = (case od of (fs, d) \<Rightarrow>
     (case str_field (map_of fs key) of None \<Rightarrow> (fs, d)
      | Some v \<Rightarrow> (let (t, d') = ap label v d
                   in (case t of Some x \<Rightarrow> AList.update key (JStr x) fs | None \<Rightarrow> fs, d'))))"

definition i18n_raw :: "i18n_fun \<Rightarrow> string \<Rightarrow> i18n_state \<Rightarrow> i18n_state" where
  "i18n_raw ap key s =
     (let (fs, d) = i18n_field ap key key (is_raw s, is_diags s) in s\<lparr>is_raw := fs, is_diags := d\<rparr>)"

definition i18n_block :: "i18n_fun \<Rightarrow> string \<Rightarrow> i18n_state \<Rightarrow> i18n_state" where
  "i18n_block ap key s = (case is_obj (map_of (is_raw s) key) of None \<Rightarrow> s
   | Some blk \<Rightarrow>
     (let (fs, d) = i18n_field ap (key @ ''.default_title'') ''default_title'' (blk, is_diags s)
      in s\<lparr>is_raw := AList.update key (JObj fs) (is_raw s), is_diags := d\<rparr>))"

definition i18n_title ::
  "i18n_fun \<Rightarrow> string \<Rightarrow> string option \<Rightarrow> (string \<Rightarrow> parsed_ext \<Rightarrow> parsed_ext) \<Rightarrow> i18n_state \<Rightarrow> i18n_state" where
  "i18n_title ap label title put s = (case truthy title of None \<Rightarrow> s
   | Some v \<Rightarrow>
     (let (t, d) = ap label v (is_diags s)
      in s\<lparr>is_diags := d, is_parsed := (case t of Some x \<Rightarrow> put x (is_parsed s) | None \<Rightarrow> is_parsed s)\<rparr>))"

definition put_action_title :: "string \<Rightarrow> parsed_ext \<Rightarrow> parsed_ext" where
  "put_action_title t p = p\<lparr>pe_action := map_option (\<lambda>a. a\<lparr>ac_title := Some t\<rparr>) (pe_action p)\<rparr>"

definition put_sidebar_title :: "string \<Rightarrow> parsed_ext \<Rightarrow> parsed_ext" where
  "put_sidebar_title t p = p\<lparr>pe_sidebar := map_option (\<lambda>a. a\<lparr>sb_title := Some t\<rparr>) (pe_sidebar p)\<rparr>"

fun i18n_commands :: "i18n_fun \<Rightarrow> jobj \<times> diags \<Rightarrow> jobj \<times> diags" where
  "i18n_commands ap ([], d) = ([], d)"
| "i18n_commands ap ((name, c) # rest, d) =
     (let (c', d1) = (case is_obj (Some c) of None \<Rightarrow> (c, d)
            | Some fs \<Rightarrow> (let (fs', d') = i18n_field ap (''commands.'' @ name @ ''.description'') ''description'' (fs, d)
                         in (JObj fs', d')));
          (rest', d2) = i18n_commands ap (rest, d1)
      in ((name, c') # rest', d2))"

text \<open>
  The commands object and the manifest of the parsed record are the raw objects themselves, and its
  warnings are the list of the diagnostics: the record shows what the pass did to them.
\<close>

definition i18n_finish :: "i18n_fun \<Rightarrow> i18n_state \<Rightarrow> i18n_state" where
  "i18n_finish ap s =
     (let (raw, d) = (case is_obj (map_of (is_raw s) ''commands'') of None \<Rightarrow> (is_raw s, is_diags s)
            | Some cs \<Rightarrow> (let (cs', d') = i18n_commands ap (cs, is_diags s)
                         in (AList.update ''commands'' (JObj cs') (is_raw s), d')))
      in s\<lparr>is_raw := raw, is_diags := d,
           is_parsed := (is_parsed s)\<lparr>pe_manifest := raw, pe_warnings := dg_warnings d,
             pe_commands := obj_or_empty (map_of raw ''commands'')\<rparr>\<rparr>)"

definition resolve_manifest_i18n ::
  "(byte list \<Rightarrow> json option) \<Rightarrow> jobj \<Rightarrow> parsed_ext \<Rightarrow> file_reader \<Rightarrow> diags \<Rightarrow> i18n_state" where
  "resolve_manifest_i18n json_of raw parsed read_file d =
     (let locale = or_blank (str_field (map_of raw ''default_locale''));
          ap = i18n_apply (load_messages json_of read_file locale) locale;
          s1 = i18n_raw ap ''short_name'' (i18n_raw ap ''description''
                 (i18n_name ap \<lparr>is_raw = raw, is_parsed = parsed, is_diags = d\<rparr>));
          s2 = fold (i18n_block ap) [''action'', ''browser_action'', ''page_action''] s1;
          s3 = i18n_title ap ''action.default_title''
                 (case pe_action (is_parsed s2) of Some a \<Rightarrow> ac_title a | None \<Rightarrow> None) put_action_title s2;
          s4 = i18n_block ap ''sidebar_action'' s3;
          s5 = i18n_title ap ''sidebar_action.default_title''
                 (case pe_sidebar (is_parsed s4) of Some a \<Rightarrow> sb_title a | None \<Rightarrow> None) put_sidebar_title s4
      in i18n_finish ap s5)"

section \<open>What a parsed manifest satisfies\<close>

definition well_formed_script :: "content_script \<Rightarrow> bool" where
  "well_formed_script c \<longleftrightarrow> cs_matches c \<noteq> []"

definition well_formed_war :: "war_entry \<Rightarrow> bool" where
  "well_formed_war e \<longleftrightarrow> we_resources e \<noteq> [] \<and> (we_matches e \<noteq> [] \<or> we_ext_ids e \<noteq> [])"

definition well_formed_background :: "background_spec \<Rightarrow> bool" where
  "well_formed_background b \<longleftrightarrow>
     bg_scripts b \<noteq> [] \<or> truthy (bg_page b) \<noteq> None \<or> truthy (bg_service_worker b) \<noteq> None"

definition well_typed_ext :: "parsed_ext \<Rightarrow> bool" where
  "well_typed_ext p \<longleftrightarrow>
     pe_mv p \<in> {2, 3}
     \<and> list_all (\<lambda>x. \<not> looks_like_host_pattern x) (pe_permissions p)
     \<and> list_all well_formed_script (pe_scripts p)
     \<and> list_all well_formed_war (pe_war_scoped p)
     \<and> (pe_mv p = 2 \<longrightarrow> pe_war_scoped p = [])
     \<and> pred_option well_formed_background (pe_background p)
     \<and> pred_option (\<lambda>g. valid_gecko_id g) (pe_gecko_id p)
     \<and> pred_option (\<lambda>v. v \<noteq> []) (pe_gecko_min p) \<and> pred_option (\<lambda>v. v \<noteq> []) (pe_gecko_max p)"

lemma scripts_well_formed: "list_all well_formed_script (fst (parse_content_scripts cs))"
  by (induction cs rule: parse_content_scripts.induct)
    (auto simp: well_formed_script_def parse_content_script_def Let_def split: prod.splits)

lemma war_well_formed: "list_all well_formed_war (fst (snd (parse_war_entries es)))"
  by (induction es rule: parse_war_entries.induct)
    (auto simp: well_formed_war_def Let_def split: prod.splits)

lemma accessible_well_formed: "list_all well_formed_war (fst (snd (parse_web_accessible v mv)))"
  by (auto simp: parse_web_accessible_def war_well_formed split: option.splits json.splits)

lemma accessible_mv2: "fst (snd (parse_web_accessible v 2)) = []"
  by (auto simp: parse_web_accessible_def split: option.splits json.splits)

lemma background_well_formed: "pred_option well_formed_background (fst (parse_background v mv))"
  by (auto simp: parse_background_def well_formed_background_def Let_def split: option.splits if_splits)

lemma truthy_nonempty: "truthy s = Some x \<Longrightarrow> x \<noteq> []"
  by (auto simp: truthy_def split: option.splits if_splits)

lemma truthy_blank: "truthy s \<noteq> None \<longleftrightarrow> or_blank s \<noteq> []"
  by (auto simp: truthy_def or_blank_def split: option.splits)

lemma errors_gecko:
  "manifest_errors raw = [] \<Longrightarrow> pred_option (\<lambda>g. valid_gecko_id g) (str_field (gecko_field raw ''id''))"
  by (auto simp: manifest_errors_def split: option.splits if_splits)

lemma errors_required:
  assumes "manifest_errors raw = []"
  shows "truthy (str_field (map_of raw ''name'')) \<noteq> None" "truthy (str_field (map_of raw ''version'')) \<noteq> None"
proof -
  have "(if truthy (str_field (map_of raw ''name'')) = None then [NameRequired] else []) = []"
    "(if truthy (str_field (map_of raw ''version'')) = None then [VersionRequired] else []) = []"
    using assms unfolding manifest_errors_def append_is_Nil_conv by blast+
  then show "truthy (str_field (map_of raw ''name'')) \<noteq> None" "truthy (str_field (map_of raw ''version'')) \<noteq> None"
    by (metis list.discI)+
qed

lemma fields_well_typed:
  assumes "mv \<in> {2, 3}" "manifest_errors raw = []"
  shows "well_typed_ext (parse_fields raw mv)"
  using assms accessible_mv2 errors_gecko [OF assms(2)] background_well_formed [of "map_of raw ''background''" mv]
  by (auto simp: well_typed_ext_def parse_fields_def Let_def scripts_well_formed accessible_well_formed
      background_well_formed list_all_iff [where P = "\<lambda>x. \<not> looks_like_host_pattern x"]
      pred_option_def elim: option.set_cases dest: truthy_nonempty)

lemma parse_manifest_cases:
  obtains e where "parse_manifest j = no_parse e"
  | raw mv where "j = JObj raw" "mv \<in> {2, 3}" "map_of raw ''manifest_version'' = Some (JNum (int mv))"
      "parse_manifest j = (manifest_errors raw = [], Some (parse_fields raw mv),
         \<lparr>dg_errors = manifest_errors raw, dg_warnings = pe_warnings (parse_fields raw mv),
          dg_unsupported = pe_unsupported (parse_fields raw mv)\<rparr>)"
proof (cases "is_obj (Some j)")
  case None
  then show ?thesis using that(1) [of RootNotObject] by (simp add: parse_manifest_def)
next
  case (Some raw)
  then have j: "j = JObj raw" by (simp add: is_obj_def split: json.splits)
  consider "map_of raw ''manifest_version'' = Some (JNum 2)" | "map_of raw ''manifest_version'' = Some (JNum 3)"
    | "map_of raw ''manifest_version'' \<noteq> Some (JNum 2)" "map_of raw ''manifest_version'' \<noteq> Some (JNum 3)"
    by blast
  then show ?thesis
  proof cases
    case 1
    then show ?thesis using that(2) [of raw 2] j Some by (simp add: parse_manifest_def Let_def)
  next
    case 2
    then show ?thesis using that(2) [of raw 3] j Some by (simp add: parse_manifest_def Let_def)
  next
    case 3
    then show ?thesis
      using that(1) [of "BadManifestVersion (map_of raw ''manifest_version'')"] Some
      by (simp add: parse_manifest_def Let_def)
  qed
qed

lemma parse_manifest_ok:
  assumes "parse_manifest (JObj raw) = (True, Some p, d)"
  obtains mv where "mv \<in> {2, 3}" "manifest_errors raw = []" "p = parse_fields raw mv" "dg_errors d = []"
    "map_of raw ''manifest_version'' = Some (JNum (int mv))"
proof (cases rule: parse_manifest_cases [of "JObj raw"])
  case (1 e)
  then show ?thesis using assms by (simp add: no_parse_def)
next
  case (2 raw' mv)
  then have [simp]: "raw' = raw" by simp
  have "(manifest_errors raw = [], Some (parse_fields raw mv),
         \<lparr>dg_errors = manifest_errors raw, dg_warnings = pe_warnings (parse_fields raw mv),
          dg_unsupported = pe_unsupported (parse_fields raw mv)\<rparr>) = (True, Some p, d)"
    using 2(4) assms by (metis \<open>raw' = raw\<close>)
  then show ?thesis
    using 2(2,3) by (intro that [of mv]) (simp_all only: prod.inject option.inject \<open>raw' = raw\<close>, auto)
qed

text \<open>C31. A manifest that \<open>parseManifest\<close> accepts gives a well-typed record: a name, a version, manifest
  version 2 or 3, no host pattern among the named permissions, a match pattern in every content
  script, resources and a gate in every scoped resource entry, a background that has something to
  run, a valid Gecko id; and the permissions and hosts of the record are exactly those the manifest
  lists.
\<close>

theorem manifest_well_typed:
  assumes "parse_manifest (JObj raw) = (True, Some p, d)"
  shows "well_typed_ext p \<and> pe_name p \<noteq> [] \<and> pe_version p \<noteq> [] \<and> dg_errors d = []
    \<and> set (pe_permissions p) \<union> set (pe_hosts p)
        = set (str_arr (map_of raw ''permissions'')) \<union> set (str_arr (map_of raw ''host_permissions''))"
proof -
  obtain mv where mv: "mv \<in> {2, 3}" and e: "manifest_errors raw = []"
    and p: "p = parse_fields raw mv" and d: "dg_errors d = []"
    by (rule parse_manifest_ok [OF assms])
  have "pe_name p \<noteq> []" "pe_version p \<noteq> []"
    using errors_required [OF e] unfolding truthy_blank by (simp_all add: p parse_fields_def Let_def)
  moreover have "set (pe_permissions p) \<union> set (pe_hosts p)
        = set (str_arr (map_of raw ''permissions'')) \<union> set (str_arr (map_of raw ''host_permissions''))"
    by (auto simp: p parse_fields_def Let_def)
  ultimately show ?thesis using fields_well_typed [OF mv e] d p by simp
qed

definition demo_manifest :: jobj where
  "demo_manifest =
    [(''manifest_version'', JNum 3), (''name'', JStr ''__MSG_n__''), (''version'', JStr ''1.0''),
     (''default_locale'', JStr ''en''),
     (''permissions'', JArr [JStr ''tabs'', JStr ''*://a.b/*'']),
     (''content_scripts'', JArr [JObj [(''matches'', JArr [JStr ''<all_urls>''])], JObj []]),
     (''web_accessible_resources'', JArr [JObj [(''resources'', JArr [JStr ''i.png'']), (''extension_ids'', JArr [JStr ''*''])]]),
     (''applications'', JObj [(''gecko'', JObj [(''id'', JStr ''a@b.c'')])])]"

theorem manifest_well_typed_witness:
  "well_typed_ext (parse_fields demo_manifest 3)
   \<and> pe_permissions (parse_fields demo_manifest 3) = [''tabs''] \<and> pe_hosts (parse_fields demo_manifest 3) = [''*://a.b/*'']"
proof -
  have mv: "map_of demo_manifest ''manifest_version'' = Some (JNum 3)"
    and ok: "fst (parse_manifest (JObj demo_manifest))" by code_simp+
  then have ok: "parse_manifest (JObj demo_manifest) = (True, Some (parse_fields demo_manifest 3),
      snd (snd (parse_manifest (JObj demo_manifest))))"
    by (simp add: parse_manifest_def is_obj_def Let_def)
  have "pe_permissions (parse_fields demo_manifest 3) = [''tabs''] \<and> pe_hosts (parse_fields demo_manifest 3) = [''*://a.b/*'']"
    by code_simp
  with manifest_well_typed [OF ok] show ?thesis by blast
qed

section \<open>What the substitution may change\<close>

text \<open>
  Only the texts a user sees: two records agree on everything the engine acts on when they differ in
  the name, the titles, the commands and the copies of the raw manifest and warnings.
\<close>

definition same_powers :: "parsed_ext \<Rightarrow> parsed_ext \<Rightarrow> bool" where
  "same_powers p q \<longleftrightarrow> q = p\<lparr>pe_name := pe_name q, pe_manifest := pe_manifest q, pe_action := pe_action q,
     pe_sidebar := pe_sidebar q, pe_commands := pe_commands q, pe_warnings := pe_warnings q\<rparr>"

lemma same_powers_refl [simp]: "same_powers p p"
  by (simp add: same_powers_def)

lemma same_powers_update [simp]:
  "same_powers p (q\<lparr>pe_name := n\<rparr>) \<longleftrightarrow> same_powers p q"
  "same_powers p (q\<lparr>pe_action := a\<rparr>) \<longleftrightarrow> same_powers p q"
  "same_powers p (q\<lparr>pe_sidebar := sb\<rparr>) \<longleftrightarrow> same_powers p q"
  "same_powers p (q\<lparr>pe_manifest := m, pe_warnings := w, pe_commands := c\<rparr>) \<longleftrightarrow> same_powers p q"
  by (cases p; cases q; simp add: same_powers_def)+

lemma i18n_name_powers [simp]: "same_powers p (is_parsed (i18n_name ap s)) \<longleftrightarrow> same_powers p (is_parsed s)"
  by (simp add: i18n_name_def split: prod.splits option.splits)

lemma i18n_raw_powers [simp]: "is_parsed (i18n_raw ap k s) = is_parsed s"
  by (simp add: i18n_raw_def split: prod.splits)

lemma i18n_block_powers [simp]: "is_parsed (i18n_block ap k s) = is_parsed s"
  by (simp add: i18n_block_def split: prod.splits option.splits)

lemma i18n_title_powers:
  "(\<And>x q. same_powers p (put x q) \<longleftrightarrow> same_powers p q) \<Longrightarrow>
   same_powers p (is_parsed (i18n_title ap l t put s)) \<longleftrightarrow> same_powers p (is_parsed s)"
  by (simp add: i18n_title_def split: prod.splits option.splits)

lemma i18n_finish_powers [simp]: "same_powers p (is_parsed (i18n_finish ap s)) \<longleftrightarrow> same_powers p (is_parsed s)"
  by (simp add: i18n_finish_def Let_def split: prod.splits)

lemma i18n_same_powers: "same_powers p (is_parsed (resolve_manifest_i18n json_of raw p rd d))"
  by (simp add: resolve_manifest_i18n_def Let_def i18n_title_powers put_action_title_def put_sidebar_title_def)

text \<open>The validated name may become empty: the message it names may be the empty string.\<close>

lemma i18n_may_blank_name:
  "let s = resolve_manifest_i18n (\<lambda>_. Some (JObj [(''N'', JStr [])])) demo_manifest
       (parse_fields demo_manifest 3) (\<lambda>_. Some []) (snd (snd (parse_manifest (JObj demo_manifest))))
   in fst (parse_manifest (JObj demo_manifest)) \<and> pe_name (is_parsed s) = [] \<and> dg_errors (is_diags s) = []"
  by code_simp

end
