(* ===== verification/ExtPermissions.thy ===== *)
theory ExtPermissions
  imports ExtManifest
begin

text \<open>
  What an extension may touch: match patterns and the permission gate
  (\<open>src/app/src/extensions/permissions.ts\<close>), globs and content script matching
  (\<open>content-scripts.ts\<close>) and the paths and addresses of extension resources (\<open>origin.ts\<close>). The
  regular expressions the source compiles from patterns are the matcher \<open>wild_match\<close>.
\<close>

section \<open>Wildcards\<close>

text \<open>
  Anchored matching where a star stands for any run of the characters \<open>any\<close> admits: \<open>[\s\S]*\<close> for
  the path of a match pattern, \<open>.*\<close> (no line terminator) for a glob.
\<close>

fun wild_match :: "(char \<Rightarrow> bool) \<Rightarrow> string \<Rightarrow> string \<Rightarrow> bool" where
  "wild_match any [] s \<longleftrightarrow> s = []"
| "wild_match any (p # ps) [] \<longleftrightarrow> p = CHR ''*'' \<and> wild_match any ps []"
| "wild_match any (p # ps) (c # s) \<longleftrightarrow>
     (if p = CHR ''*'' then wild_match any ps (c # s) \<or> (any c \<and> wild_match any (p # ps) s)
      else p = c \<and> wild_match any ps s)"

definition not_line_end :: "char \<Rightarrow> bool" where
  "not_line_end c \<longleftrightarrow> char_code c \<noteq> 10 \<and> char_code c \<noteq> 13"

text \<open>\<open>globToRegExp(glob).test(s)\<close>\<close>

definition glob_test :: "string \<Rightarrow> string \<Rightarrow> bool" where
  "glob_test glob s \<longleftrightarrow> wild_match not_line_end glob s"

definition path_matcher :: "string \<Rightarrow> string \<Rightarrow> bool" where
  "path_matcher pat s \<longleftrightarrow> pat = ''*'' \<or> pat = ''/*'' \<or> wild_match (\<lambda>_. True) pat s"

section \<open>Match patterns\<close>

definition KNOWN_PERMISSIONS :: "string list" where
  "KNOWN_PERMISSIONS =
    [''storage'', ''tabs'', ''scripting'', ''cookies'', ''webRequest'',
     ''webRequestBlocking'', ''webRequestFilterResponse'', ''activeTab'',
     ''notifications'', ''contextMenus'', ''menus'', ''downloads'',
     ''downloads.open'', ''downloads.ui'', ''history'', ''bookmarks'',
     ''management'', ''unlimitedStorage'', ''alarms'', ''idle'', ''privacy'',
     ''nativeMessaging'', ''geolocation'', ''clipboardRead'', ''clipboardWrite'',
     ''find'', ''browserSettings'', ''browsingData'', ''identity'', ''themes'',
     ''topSites'', ''webNavigation'', ''devtools'', ''dns'', ''pkcs11'', ''proxy'',
     ''sessions'', ''sidebarAction'', ''tabHide'', ''userScripts'']"

definition is_known_permission :: "string \<Rightarrow> bool" where
  "is_known_permission p \<longleftrightarrow> p \<in> set KNOWN_PERMISSIONS"

record host_pattern =
  hp_scheme :: string
  hp_host :: string
  hp_path :: string
  hp_all :: bool

definition PATTERN_SCHEMES :: "string list" where
  "PATTERN_SCHEMES = [''*'', ''http'', ''https'', ''ws'', ''wss'', ''ftp'', ''file'', ''moz-extension'', ''extension'']"

text \<open>
  The expression \<open>^(scheme)://([^/]*)(/.*)?$\<close>: scheme, host and the path, if there is one.
\<close>

definition pattern_parts :: "string \<Rightarrow> (string \<times> string \<times> string option) option" where
  "pattern_parts p =
     (let scheme = takeWhile (\<lambda>c. c \<noteq> CHR '':'') p;
          tail = drop (length scheme) p;
          host = takeWhile (\<lambda>c. c \<noteq> CHR ''/'') (drop 3 tail);
          path = dropWhile (\<lambda>c. c \<noteq> CHR ''/'') (drop 3 tail)
      in if scheme \<in> set PATTERN_SCHEMES \<and> starts_with tail ''://'' \<and> list_all not_line_end path
         then Some (scheme, host, if path = [] then None else Some path) else None)"

definition parse_host_pattern :: "string \<Rightarrow> host_pattern option" where
  "parse_host_pattern p =
     (if p = ''<all_urls>'' then Some \<lparr>hp_scheme = ''*'', hp_host = ''*'', hp_path = ''*'', hp_all = True\<rparr>
      else case pattern_parts p of None \<Rightarrow> None
      | Some (scheme, h, m) \<Rightarrow>
        (let host = js_lower h; path = (case m of Some x \<Rightarrow> x | None \<Rightarrow> ''/*'')
         in if host = [] \<and> scheme \<noteq> ''file'' then None
            else if scheme \<notin> {''*'', ''http'', ''https'', ''ws'', ''wss'', ''ftp'', ''file''} then None
            else Some \<lparr>hp_scheme = scheme, hp_host = host, hp_path = path, hp_all = False\<rparr>))"

definition ALL_URLS_SCHEMES :: "string list" where
  "ALL_URLS_SCHEMES = [''http:'', ''https:'', ''ws:'', ''wss:'', ''ftp:'', ''file:'']"

definition WILDCARD_SCHEMES :: "string list" where
  "WILDCARD_SCHEMES = [''http:'', ''https:'', ''ws:'', ''wss:'']"

definition host_ok :: "string \<Rightarrow> string \<Rightarrow> bool" where
  "host_ok pat host \<longleftrightarrow> pat = ''*'' \<or> host = pat
     \<or> (starts_with pat ''*.'' \<and> (host = drop 2 pat \<or> ends_with host (drop 1 pat)))"

definition host_pattern_matches :: "url_parser \<Rightarrow> host_pattern \<Rightarrow> string \<Rightarrow> bool" where
  "host_pattern_matches pu pat s = (case pu s of None \<Rightarrow> False
   | Some u \<Rightarrow>
     if hp_all pat then url_protocol u \<in> set ALL_URLS_SCHEMES
     else if hp_scheme pat = ''*'' \<and> url_protocol u \<notin> set WILDCARD_SCHEMES then False
     else if hp_scheme pat \<noteq> ''*'' \<and> hp_scheme pat @ '':'' \<noteq> url_protocol u then False
     else if hp_scheme pat \<noteq> ''file'' \<and> \<not> host_ok (hp_host pat) (url_hostname u) then False
     else path_matcher (hp_path pat) (url_pathname u @ url_search u))"

definition host_patterns_match :: "url_parser \<Rightarrow> string list \<Rightarrow> string \<Rightarrow> bool" where
  "host_patterns_match pu patterns s \<longleftrightarrow> list_ex (\<lambda>p. case parse_host_pattern p of
     Some pat \<Rightarrow> host_pattern_matches pu pat s | None \<Rightarrow> False) patterns"

section \<open>The permission gate\<close>

record permission_gate =
  pg_perms :: "string list"
  pg_hosts :: "string list"

datatype gate_error = PermissionMissing string | HostMissing string

definition gate_has :: "permission_gate \<Rightarrow> string \<Rightarrow> bool" where
  "gate_has g p \<longleftrightarrow> p \<in> set (pg_perms g)"

definition gate_has_host :: "url_parser \<Rightarrow> permission_gate \<Rightarrow> string \<Rightarrow> bool" where
  "gate_has_host pu g s \<longleftrightarrow> host_patterns_match pu (pg_hosts g) s"

definition gate_require :: "permission_gate \<Rightarrow> string \<Rightarrow> gate_error + unit" where
  "gate_require g p = (if gate_has g p then Inr () else Inl (PermissionMissing p))"

definition gate_require_host :: "url_parser \<Rightarrow> permission_gate \<Rightarrow> string \<Rightarrow> gate_error + unit" where
  "gate_require_host pu g s = (if gate_has_host pu g s then Inr () else Inl (HostMissing s))"

text \<open>The permissions \<open>validate\<close> warns about.\<close>

definition gate_validate :: "string list \<Rightarrow> string list" where
  "gate_validate requested =
     filter (\<lambda>p. \<not> looks_like_host_pattern p \<and> \<not> is_known_permission p) requested"

section \<open>Content scripts\<close>

definition content_script_matches :: "url_parser \<Rightarrow> content_script \<Rightarrow> string \<Rightarrow> bool \<Rightarrow> bool" where
  "content_script_matches pu spec s is_subframe =
     (if \<not> cs_all_frames spec \<and> is_subframe then False
      else if \<not> host_patterns_match pu (cs_matches spec) s then False
      else if cs_exclude_matches spec \<noteq> [] \<and> host_patterns_match pu (cs_exclude_matches spec) s then False
      else if cs_include_globs spec \<noteq> [] \<and> \<not> list_ex (\<lambda>g. glob_test g s) (cs_include_globs spec) then False
      else \<not> list_ex (\<lambda>g. glob_test g s) (cs_exclude_globs spec))"

section \<open>Paths and addresses\<close>

fun normal_segments :: "string list \<Rightarrow> string list option" where
  "normal_segments [] = Some []"
| "normal_segments (seg # rest) =
     (if seg = [] \<or> seg = ''.'' then normal_segments rest
      else if seg = ''..'' then None
      else map_option (Cons seg) (normal_segments rest))"

definition normalize_extension_path :: "string \<Rightarrow> string option" where
  "normalize_extension_path p =
     (if CHR 0x00 \<in> set p \<or> CHR 0x5C \<in> set p \<or> \<not> starts_with p ''/'' then None
      else map_option (\<lambda>parts. ''/'' @ join_with ''/'' parts) (normal_segments (split_on (CHR ''/'') p)))"

definition EXT_SCHEME :: string where
  "EXT_SCHEME = ''extension://''"

definition is_ext_id :: "string \<Rightarrow> bool" where
  "is_ext_id s \<longleftrightarrow> length s = 32 \<and> list_all (\<lambda>c. is_digit c \<or> c \<in> set ''abcdef'') s"

definition parse_extension_url :: "string \<Rightarrow> (string \<times> string) option" where
  "parse_extension_url u =
     (if \<not> starts_with u EXT_SCHEME then None
      else let rest = drop (length EXT_SCHEME) u;
               slash = index_of rest (CHR ''/'');
               eid = (case slash of None \<Rightarrow> rest | Some i \<Rightarrow> take i rest);
               raw = (case slash of None \<Rightarrow> ''/'' | Some i \<Rightarrow> drop i rest)
           in if \<not> is_ext_id eid then None else map_option (Pair eid) (normalize_extension_path raw))"

definition rooted_path :: "string \<Rightarrow> string" where
  "rooted_path p = (if starts_with p ''/'' then p else ''/'' @ p)"

text \<open>\<open>None\<close> is the error thrown for an unsafe path.\<close>

definition extension_url :: "string \<Rightarrow> string \<Rightarrow> string option" where
  "extension_url eid path = map_option (\<lambda>norm. EXT_SCHEME @ eid @ norm) (normalize_extension_path (rooted_path path))"

section \<open>Lemmas\<close>

lemma normal_segments_safe:
  "normal_segments segs = Some parts \<Longrightarrow>
   set parts \<subseteq> set segs \<and> (\<forall>x \<in> set parts. x \<noteq> [] \<and> x \<noteq> ''.'' \<and> x \<noteq> ''..'')"
  by (induction segs arbitrary: parts) (auto split: if_splits)

lemma normal_segments_id:
  "\<forall>x \<in> set parts. x \<noteq> [] \<and> x \<noteq> ''.'' \<and> x \<noteq> ''..'' \<Longrightarrow> normal_segments parts = Some parts"
  by (induction parts) auto

lemma join_with_set: "set (join_with sep ws) \<subseteq> set sep \<union> (\<Union>w \<in> set ws. set w)"
  by (induction sep ws rule: join_with.induct) auto

text \<open>Normalised paths are rooted, have no dot segment, no NUL and no backslash, and stay as they are.\<close>

lemma normalized_parts:
  assumes "normalize_extension_path p = Some q"
  obtains parts where "q = ''/'' @ join_with ''/'' parts"
    "\<forall>x \<in> set parts. x \<noteq> [] \<and> x \<noteq> ''.'' \<and> x \<noteq> ''..'' \<and> CHR ''/'' \<notin> set x \<and> CHR 0x00 \<notin> set x \<and> CHR 0x5C \<notin> set x"
proof -
  from assms obtain parts where n: "normal_segments (split_on (CHR ''/'') p) = Some parts"
    and q: "q = ''/'' @ join_with ''/'' parts" and c: "CHR 0x00 \<notin> set p" "CHR 0x5C \<notin> set p"
    by (auto simp: normalize_extension_path_def split: if_splits)
  have "CHR ''/'' \<notin> set x \<and> CHR 0x00 \<notin> set x \<and> CHR 0x5C \<notin> set x" if "x \<in> set parts" for x
    using normal_segments_safe [OF n] that split_on_no_sep [of x "CHR ''/''" p] split_on_sub [of x "CHR ''/''" p] c
    by blast
  with normal_segments_safe [OF n] q that show ?thesis by blast
qed

lemma normalize_idem: "normalize_extension_path p = Some q \<Longrightarrow> normalize_extension_path q = Some q"
proof (erule normalized_parts)
  fix parts
  assume q: "q = ''/'' @ join_with ''/'' parts"
    and ok: "\<forall>x \<in> set parts. x \<noteq> [] \<and> x \<noteq> ''.'' \<and> x \<noteq> ''..'' \<and> CHR ''/'' \<notin> set x \<and> CHR 0x00 \<notin> set x \<and> CHR 0x5C \<notin> set x"
  have sp: "split_on (CHR ''/'') q = [] # (if parts = [] then [[]] else parts)"
    using split_on_join_with [of parts "CHR ''/''"] ok by (auto simp: q)
  have ns: "normal_segments parts = Some parts" by (rule normal_segments_id) (use ok in blast)
  have "CHR 0x00 \<notin> set q" "CHR 0x5C \<notin> set q"
    using join_with_set [of "''/''" parts] ok by (auto simp: q)
  then show ?thesis
    by (auto simp: normalize_extension_path_def sp ns) (auto simp: q)
qed

text \<open>An address that \<open>extensionUrl\<close> mints for a valid id parses back to the id and the normal path.\<close>

lemma extension_url_roundtrip:
  assumes "is_ext_id eid" "extension_url eid path = Some u"
  shows "\<exists>q. normalize_extension_path (rooted_path path) = Some q \<and> parse_extension_url u = Some (eid, q)"
proof -
  obtain q where q: "normalize_extension_path (rooted_path path) = Some q" and u: "u = EXT_SCHEME @ eid @ q"
    using assms(2) by (auto simp: extension_url_def)
  obtain r where r: "q = CHR ''/'' # r"
    using normalized_parts [OF q] by (metis append_Cons append_Nil)
  have "CHR ''/'' \<notin> set eid"
    using assms(1) by (auto simp: is_ext_id_def list_all_iff is_digit_def)
  then have "index_of (eid @ q) (CHR ''/'') = Some (length eid)"
    by (simp add: r index_of_append)
  then show ?thesis
    using q normalize_idem [OF q] assms(1) by (simp add: parse_extension_url_def u Let_def)
qed

text \<open>A match pattern that names a host only matches URLs of that host, at a label boundary.\<close>

lemma host_ok_scope: "host_ok pat host \<Longrightarrow> pat \<noteq> ''*'' \<Longrightarrow> host = pat \<or> dot_suffix host (drop 2 pat)"
proof -
  assume h: "host_ok pat host" "pat \<noteq> ''*''"
  show ?thesis
  proof (cases "host = pat")
    case False
    then obtain r where "pat = ''*.'' @ r"
      using h by (auto simp: host_ok_def starts_with_iff)
    then show ?thesis using h False by (simp add: host_ok_def dot_suffix_def)
  qed simp
qed

lemma pattern_never_other_scheme:
  "host_pattern_matches pu pat s \<Longrightarrow> pu s = Some u \<Longrightarrow> parse_host_pattern p = Some pat \<Longrightarrow>
   url_protocol u \<in> set ALL_URLS_SCHEMES"
  by (auto simp: host_pattern_matches_def parse_host_pattern_def ALL_URLS_SCHEMES_def WILDCARD_SCHEMES_def Let_def
      split: if_splits option.splits prod.splits)

end
