(* ===== verification/ExtManager.thy ===== *)
theory ExtManager
  imports ExtPackage ExtPermissions Codec "HOL-Library.Char_ord" "HOL-Library.List_Lexorder"
begin

text \<open>
  The extension manager (\<open>src/app/src/extensions/manager.ts\<close>) with its two IndexedDB stores, and the
  registry behind \<open>browser.permissions\<close> (\<open>advanced-permissions.ts\<close>, with the backend \<open>sw.ts\<close> gives it).
  An operation is one step; the outcome of the database is an argument of the step: \<open>None\<close> when all
  its requests succeed, \<open>Some n\<close> when the first \<open>n\<close> of them do and the next fails, the opening
  counted first. \<open>JSON.parse\<close> and SHA-256 are fields of \<open>ext_env\<close>. Records are values: the source
  mutates the record of its map in place, and the store holds a copy from the time of the put.
\<close>

section \<open>State\<close>

datatype ext_state =
  Installing | Installed | Starting | Running | Stopping | Disabled | Uninstalled | ErrorState

datatype ext_failure = InstallFailed | ReloadFailed "manifest_error list" | RuntimeFailure string

record ext_record =
  er_id :: string
  er_info :: parsed_ext
  er_state :: ext_state
  er_enabled :: bool
  er_install_time :: int
  er_error :: "ext_failure option"

text \<open>
  \<open>mg_exts\<close> is the map in memory, \<open>mg_meta\<close> and \<open>mg_files\<close> are the stores, \<open>mg_events\<close> the records the
  lifecycle listeners were called with and \<open>mg_dropped\<close> the ids whose alarms, toolbar action and
  session access were dropped.
\<close>

record manager =
  mg_exts :: "(string, ext_record) omap"
  mg_started :: bool
  mg_meta :: "(string, ext_record) omap"
  mg_files :: "(string, byte list) omap"
  mg_events :: "ext_record list"
  mg_dropped :: "string list"

definition new_manager :: manager where
  "new_manager = \<lparr>mg_exts = [], mg_started = False, mg_meta = [], mg_files = [], mg_events = [], mg_dropped = []\<rparr>"

record ext_env =
  ev_zip :: zip_env
  ev_json :: "byte list \<Rightarrow> json option"
  ev_sha256 :: "byte list \<Rightarrow> byte list"
  ev_url :: url_parser

datatype manager_error =
  NoManifest | ManifestNotJson | ManifestInvalid "manifest_error list" | AlreadyInstalled string
| DbFailed | NoSuchExtension string | LostManifest | BadPackage zip_error

section \<open>Identity\<close>

text \<open>\<open>DataView.setUint32\<close> writes the most significant byte first.\<close>

definition be32 :: "nat \<Rightarrow> byte list" where
  "be32 n = (let w = of_nat n :: 32 word
             in [ucast (drop_bit 24 w), ucast (drop_bit 16 w), ucast (drop_bit 8 w), ucast w])"

definition identity_parts :: "files \<Rightarrow> (string \<Rightarrow> string) \<Rightarrow> (string \<times> byte list) list" where
  "identity_parts fs rel = sort_key fst (map (\<lambda>(p, d). (rel p, d)) fs)"

definition identity_payload :: "(string \<times> byte list) list \<Rightarrow> byte list" where
  "identity_payload parts = concat (map (\<lambda>(p, d). utf8_encode p @ be32 (length d) @ d) parts)"

definition derive_id :: "ext_env \<Rightarrow> files \<Rightarrow> (string \<Rightarrow> string) \<Rightarrow> string" where
  "derive_id env fs rel = take 32 (concat (map hex_lower (ev_sha256 env (identity_payload (identity_parts fs rel)))))"

section \<open>Operations\<close>

definition mg_changed :: "string \<Rightarrow> manager \<Rightarrow> manager" where
  "mg_changed i mg = (case map_of (mg_exts mg) i of None \<Rightarrow> mg
     | Some r \<Rightarrow> mg\<lparr>mg_events := mg_events mg @ [r]\<rparr>)"

definition put_ext :: "string \<Rightarrow> ext_record \<Rightarrow> manager \<Rightarrow> manager" where
  "put_ext i r mg = mg\<lparr>mg_exts := AList.update i r (mg_exts mg)\<rparr>"

definition put_meta :: "string \<Rightarrow> ext_record \<Rightarrow> manager \<Rightarrow> manager" where
  "put_meta i r mg = mg\<lparr>mg_meta := AList.update i r (mg_meta mg)\<rparr>"

definition file_key :: "string \<Rightarrow> string \<Rightarrow> string" where
  "file_key i p = i @ '':'' @ p"

text \<open>Loading the stored records; the flag tells whether the database answers.\<close>

definition mg_startup :: "bool \<Rightarrow> manager \<Rightarrow> manager" where
  "mg_startup db_ok mg =
     (if mg_started mg then mg
      else if db_ok then mg\<lparr>mg_started := True,
          mg_exts := fold (\<lambda>(_, r). AList.update (er_id r) r) (mg_meta mg) (mg_exts mg)\<rparr>
      else mg\<lparr>mg_started := True, mg_exts := []\<rparr>)"

definition rel_of :: "string \<Rightarrow> string \<Rightarrow> string" where
  "rel_of root p = (if root \<noteq> [] \<and> starts_with p root then drop (length root) p else p)"

fun first_file :: "files \<Rightarrow> string list \<Rightarrow> byte list option" where
  "first_file fs [] = None"
| "first_file fs (c # cs) = (case map_of fs c of Some b \<Rightarrow> Some b | None \<Rightarrow> first_file fs cs)"

definition read_pkg :: "files \<Rightarrow> string \<Rightarrow> file_reader" where
  "read_pkg fs root p =
     first_file fs (if root \<noteq> [] then [p, ''/'' @ p, root @ p, root @ ''/'' @ p] else [p, ''/'' @ p])"

text \<open>Parsing and message substitution, which installing and reloading share.\<close>

definition load_manifest :: "ext_env \<Rightarrow> file_reader \<Rightarrow> json \<Rightarrow> manifest_error list + parsed_ext \<times> diags" where
  "load_manifest env rd j = (case parse_manifest j of
     (True, Some p, d) \<Rightarrow>
       (let s = resolve_manifest_i18n (ev_json env) (pe_manifest p) p rd d
        in if dg_errors (is_diags s) \<noteq> [] then Inl (dg_errors (is_diags s)) else Inr (is_parsed s, is_diags s))
   | (_, _, d) \<Rightarrow> Inl (dg_errors d))"

record install_result =
  in_id :: string
  in_warnings :: "manifest_warning list"
  in_unsupported :: "string list"

text \<open>The puts of an installation: the record first, then every file; \<open>n\<close> of them are done.\<close>

definition put_files :: "string \<Rightarrow> string \<Rightarrow> files \<Rightarrow> manager \<Rightarrow> manager" where
  "put_files i root fs mg =
     mg\<lparr>mg_files := fold (\<lambda>(p, d). AList.update (file_key i (rel_of root p)) d) fs (mg_files mg)\<rparr>"

definition install_puts :: "string \<Rightarrow> ext_record \<Rightarrow> string \<Rightarrow> files \<Rightarrow> nat \<Rightarrow> manager \<Rightarrow> manager" where
  "install_puts i r root fs n mg =
     (case n of 0 \<Rightarrow> mg | Suc k \<Rightarrow> put_files i root (take k fs) (put_meta i r mg))"

definition mg_install ::
  "ext_env \<Rightarrow> files \<Rightarrow> int \<Rightarrow> nat option \<Rightarrow> manager \<Rightarrow> (manager_error + install_result) \<times> manager" where
  "mg_install env fs now fault mg = (case locate_manifest fs of
     None \<Rightarrow> (Inl NoManifest, mg)
   | Some (path, root) \<Rightarrow> (case map_of fs path of None \<Rightarrow> (Inl NoManifest, mg)
     | Some mbytes \<Rightarrow> (case ev_json env mbytes of None \<Rightarrow> (Inl ManifestNotJson, mg)
       | Some j \<Rightarrow> (case load_manifest env (read_pkg fs root) j of
           Inl es \<Rightarrow> (Inl (ManifestInvalid es), mg)
         | Inr (p, d) \<Rightarrow>
           (let i = derive_id env fs (rel_of root);
                r = \<lparr>er_id = i, er_info = p, er_state = Installed, er_enabled = True,
                     er_install_time = now, er_error = None\<rparr>
            in if omap_has (mg_exts mg) i then (Inl (AlreadyInstalled (pe_name p)), mg)
               else case fault of
                 Some 0 \<Rightarrow> (Inl DbFailed, mg)
               | Some (Suc n) \<Rightarrow> if n \<le> length fs then (Inl DbFailed, install_puts i r root fs n mg)
                                 else (Inr \<lparr>in_id = i, in_warnings = dg_warnings d, in_unsupported = dg_unsupported d\<rparr>,
                                       mg_changed i (put_ext i r (install_puts i r root fs (Suc (length fs)) mg)))
               | None \<Rightarrow> (Inr \<lparr>in_id = i, in_warnings = dg_warnings d, in_unsupported = dg_unsupported d\<rparr>,
                          mg_changed i (put_ext i r (install_puts i r root fs (Suc (length fs)) mg))))))))"

definition install_from_zip ::
  "ext_env \<Rightarrow> byte list \<Rightarrow> int \<Rightarrow> nat option \<Rightarrow> manager \<Rightarrow> (manager_error + install_result) \<times> manager" where
  "install_from_zip env b now fault mg = (case read_zip (ev_zip env) DEFAULT_ZIP_LIMITS b of
     Inl e \<Rightarrow> (Inl (BadPackage e), mg)
   | Inr fs \<Rightarrow> mg_install env fs now fault mg)"

text \<open>The files of the package of \<open>i\<close>, by their paths.\<close>

definition stored_package :: "string \<Rightarrow> manager \<Rightarrow> files" where
  "stored_package i mg = fold (\<lambda>(k, d). AList.update (drop (length (i @ '':'')) k) d)
     (filter (\<lambda>(k, _). starts_with k (i @ '':'')) (mg_files mg)) []"

definition drop_files :: "string list \<Rightarrow> manager \<Rightarrow> manager" where
  "drop_files ks mg = mg\<lparr>mg_files := fold AList.delete ks (mg_files mg)\<rparr>"

definition package_keys :: "string \<Rightarrow> manager \<Rightarrow> string list" where
  "package_keys i mg = filter (\<lambda>k. starts_with k (i @ '':'')) (map fst (mg_files mg))"

text \<open>The end of \<open>uninstall\<close>, after the stores are cleared.\<close>

definition forget_ext :: "string \<Rightarrow> ext_record \<Rightarrow> manager \<Rightarrow> manager" where
  "forget_ext i r mg =
     (let mg' = mg_changed i (put_ext i (r\<lparr>er_state := Uninstalled, er_enabled := False\<rparr>) mg)
      in mg'\<lparr>mg_exts := AList.delete i (mg_exts mg'), mg_dropped := mg_dropped mg' @ [i]\<rparr>)"

definition mg_uninstall :: "string \<Rightarrow> nat option \<Rightarrow> manager \<Rightarrow> (manager_error + unit) \<times> manager" where
  "mg_uninstall i fault mg = (case map_of (mg_exts mg) i of
     None \<Rightarrow> (Inl (NoSuchExtension i), mg)
   | Some r \<Rightarrow>
     (let cleared = mg\<lparr>mg_meta := AList.delete i (mg_meta mg)\<rparr>;
          ks = package_keys i mg
      in case fault of
          None \<Rightarrow> (Inr (), forget_ext i r (drop_files ks cleared))
        | Some n \<Rightarrow> if n < 2 then (Inl DbFailed, mg)
                   else if n < 3 + length ks then (Inl DbFailed, drop_files (take (n - 3) ks) cleared)
                   else (Inr (), forget_ext i r (drop_files ks cleared))))"

definition mg_set_enabled :: "string \<Rightarrow> bool \<Rightarrow> bool \<Rightarrow> manager \<Rightarrow> (manager_error + unit) \<times> manager" where
  "mg_set_enabled i enabled db_ok mg = (case map_of (mg_exts mg) i of
     None \<Rightarrow> (Inl (NoSuchExtension i), mg)
   | Some r \<Rightarrow>
     if er_enabled r = enabled then (Inr (), mg)
     else let r' = r\<lparr>er_enabled := enabled, er_state := (if enabled then Installed else Disabled)\<rparr>;
              mg' = put_ext i r' mg
          in if db_ok then (Inr (), mg_changed i (put_meta i r' mg')) else (Inl DbFailed, mg'))"

definition fail_reload :: "string \<Rightarrow> ext_record \<Rightarrow> manifest_error list \<Rightarrow> manager \<Rightarrow> manager" where
  "fail_reload i r es mg = mg_changed i (put_ext i (r\<lparr>er_state := ErrorState, er_error := Some (ReloadFailed es)\<rparr>) mg)"

definition read_stored :: "files \<Rightarrow> file_reader" where
  "read_stored fs p = (case map_of fs p of Some b \<Rightarrow> Some b | None \<Rightarrow> map_of fs (drop 1 p))"

text \<open>Whether the package could be read, and whether the record could be put.\<close>

definition mg_reload ::
  "ext_env \<Rightarrow> string \<Rightarrow> bool \<Rightarrow> bool \<Rightarrow> manager \<Rightarrow> (manager_error + unit) \<times> manager" where
  "mg_reload env i read_ok db_ok mg = (case map_of (mg_exts mg) i of
     None \<Rightarrow> (Inl (NoSuchExtension i), mg)
   | Some r \<Rightarrow> if \<not> read_ok then (Inl DbFailed, mg) else
     (let fs = stored_package i mg
      in case map_of fs ''manifest.json'' of None \<Rightarrow> (Inl LostManifest, mg)
       | Some mbytes \<Rightarrow> (case ev_json env mbytes of None \<Rightarrow> (Inl ManifestNotJson, mg)
         | Some j \<Rightarrow> (case load_manifest env (read_stored fs) j of
             Inl es \<Rightarrow> (Inl (ManifestInvalid es), fail_reload i r es mg)
           | Inr (p, d) \<Rightarrow>
             (let r' = r\<lparr>er_info := p, er_state := Installed, er_error := None\<rparr>;
                  mg' = put_ext i r' mg
              in if db_ok then (Inr (), mg_changed i (put_meta i r' mg')) else (Inl DbFailed, mg'))))))"

definition mg_set_state :: "string \<Rightarrow> ext_state \<Rightarrow> string option \<Rightarrow> bool \<Rightarrow> manager \<Rightarrow> manager" where
  "mg_set_state i state err db_ok mg = (case map_of (mg_exts mg) i of None \<Rightarrow> mg
   | Some r \<Rightarrow>
     (let r' = r\<lparr>er_state := state, er_error := map_option RuntimeFailure err\<rparr>;
          mg' = mg_changed i (put_ext i r' mg)
      in if db_ok then put_meta i r' mg' else mg'))"

text \<open>An absent list of a request is the empty one.\<close>

record api_perms =
  ap_named :: "string list"
  ap_origins :: "string list"

definition add_missing :: "string list \<Rightarrow> string list \<Rightarrow> string list" where
  "add_missing ps xs = fold (\<lambda>p xs. if p \<in> set xs then xs else xs @ [p]) ps xs"

definition grant_optional :: "string \<Rightarrow> api_perms \<Rightarrow> bool \<Rightarrow> manager \<Rightarrow> ext_record option \<times> manager" where
  "grant_optional i perms db_ok mg = (case map_of (mg_exts mg) i of None \<Rightarrow> (None, mg)
   | Some r \<Rightarrow>
     if \<not> set (ap_named perms @ ap_origins perms) \<subseteq> set (pe_optional (er_info r)) then (None, mg)
     else let info = er_info r;
              r' = r\<lparr>er_info := info\<lparr>pe_permissions := add_missing (ap_named perms) (pe_permissions info),
                     pe_hosts := add_missing (ap_origins perms) (pe_hosts info)\<rparr>\<rparr>;
              mg' = put_ext i r' mg
          in (Some r', mg_changed i (if db_ok then put_meta i r' mg' else mg')))"

definition revoke_optional :: "string \<Rightarrow> api_perms \<Rightarrow> bool \<Rightarrow> manager \<Rightarrow> ext_record option \<times> manager" where
  "revoke_optional i perms db_ok mg = (case map_of (mg_exts mg) i of None \<Rightarrow> (None, mg)
   | Some r \<Rightarrow>
     (let info = er_info r;
          r' = r\<lparr>er_info := info\<lparr>
                 pe_permissions := filter (\<lambda>p. p \<notin> set (ap_named perms)) (pe_permissions info),
                 pe_hosts := filter (\<lambda>p. p \<notin> set (ap_origins perms)) (pe_hosts info)\<rparr>\<rparr>;
          mg' = put_ext i r' mg
      in (Some r', mg_changed i (if db_ok then put_meta i r' mg' else mg'))))"

definition mg_list :: "manager \<Rightarrow> ext_record list" where
  "mg_list mg = map snd (mg_exts mg)"

definition mg_get :: "string \<Rightarrow> manager \<Rightarrow> ext_record option" where
  "mg_get i mg = map_of (mg_exts mg) i"

section \<open>Resources\<close>

definition war_glob_hit :: "string \<Rightarrow> string \<Rightarrow> bool" where
  "war_glob_hit norm g \<longleftrightarrow> glob_test g norm \<or> glob_test g (drop 1 norm)"

definition war_admits :: "url_parser \<Rightarrow> ext_record \<Rightarrow> string \<Rightarrow> string option \<Rightarrow> string option \<Rightarrow> bool" where
  "war_admits pu r norm page_url from_ext \<longleftrightarrow>
     list_ex (war_glob_hit norm) (pe_war (er_info r))
     \<or> list_ex (\<lambda>s. list_ex (war_glob_hit norm) (we_resources s)
          \<and> ((case page_url of None \<Rightarrow> False
                | Some u \<Rightarrow> we_matches s \<noteq> [] \<and> host_patterns_match pu (we_matches s) u)
             \<or> (case from_ext of None \<Rightarrow> False
                | Some x \<Rightarrow> list_ex (\<lambda>y. y = ''*'' \<or> y = x) (we_ext_ids s)))) (pe_war_scoped (er_info r))"

definition get_resource ::
  "url_parser \<Rightarrow> string \<Rightarrow> string \<Rightarrow> bool \<Rightarrow> string option \<Rightarrow> string option \<Rightarrow> manager \<Rightarrow> byte list option" where
  "get_resource pu i path from_web page_url from_ext mg = (case map_of (mg_exts mg) i of None \<Rightarrow> None
   | Some r \<Rightarrow>
     if \<not> er_enabled r then None
     else case normalize_extension_path (rooted_path path) of None \<Rightarrow> None
       | Some norm \<Rightarrow>
         if from_web \<and> \<not> war_admits pu r norm page_url from_ext then None
         else (case map_of (mg_files mg) (file_key i norm) of Some b \<Rightarrow> Some b
               | None \<Rightarrow> map_of (mg_files mg) (file_key i (drop 1 norm))))"

text \<open>The scripts the installed extensions would run in a frame (\<open>resolveContentScripts\<close>).\<close>

definition resolve_content_scripts ::
  "url_parser \<Rightarrow> ext_record list \<Rightarrow> string \<Rightarrow> bool \<Rightarrow> (string \<times> string list \<times> string list \<times> run_at) list" where
  "resolve_content_scripts pu exts u is_subframe =
     concat (map (\<lambda>r. if \<not> er_enabled r then []
        else map (\<lambda>s. (er_id r, cs_js s, cs_css s, cs_run_at s))
          (filter (\<lambda>s. content_script_matches pu s u is_subframe) (pe_scripts (er_info r)))) exts)"

section \<open>The permissions registry\<close>

record perm_view =
  pv_named :: "string list"
  pv_origins :: "string list"

record perm_registry =
  pr_views :: "(string, perm_view) omap"
  pr_added :: "api_perms list"
  pr_removed :: "api_perms list"

definition rec_view :: "ext_record \<Rightarrow> perm_view" where
  "rec_view r = \<lparr>pv_named = pe_permissions (er_info r), pv_origins = pe_hosts (er_info r)\<rparr>"

definition view_of :: "ext_record \<Rightarrow> perm_registry \<Rightarrow> perm_view \<times> perm_registry" where
  "view_of r reg = (case map_of (pr_views reg) (er_id r) of Some v \<Rightarrow> (v, reg)
     | None \<Rightarrow> (rec_view r, reg\<lparr>pr_views := AList.update (er_id r) (rec_view r) (pr_views reg)\<rparr>))"

definition perms_contains :: "ext_record \<Rightarrow> api_perms \<Rightarrow> perm_registry \<Rightarrow> bool \<times> perm_registry" where
  "perms_contains r perms reg = (let (v, reg') = view_of r reg
     in (set (ap_named perms) \<subseteq> set (pv_named v) \<and> set (ap_origins perms) \<subseteq> set (pv_origins v), reg'))"

definition perms_get_all :: "ext_record \<Rightarrow> perm_registry \<Rightarrow> perm_view \<times> perm_registry" where
  "perms_get_all r reg = view_of r reg"

definition perms_delta :: "api_perms \<Rightarrow> perm_view \<Rightarrow> perm_view \<Rightarrow> api_perms" where
  "perms_delta requested prior after = \<lparr>
     ap_named = filter (\<lambda>p. p \<notin> set (pv_named prior) \<and> p \<in> set (pv_named after)) (ap_named requested),
     ap_origins = filter (\<lambda>p. p \<notin> set (pv_origins prior) \<and> p \<in> set (pv_origins after)) (ap_origins requested)\<rparr>"

definition perms_lost :: "api_perms \<Rightarrow> perm_view \<Rightarrow> perm_view \<Rightarrow> api_perms" where
  "perms_lost requested prior after = \<lparr>
     ap_named = filter (\<lambda>p. p \<in> set (pv_named prior) \<and> p \<notin> set (pv_named after)) (ap_named requested),
     ap_origins = filter (\<lambda>p. p \<in> set (pv_origins prior) \<and> p \<notin> set (pv_origins after)) (ap_origins requested)\<rparr>"

definition some_perms :: "api_perms \<Rightarrow> api_perms list" where
  "some_perms d = (if ap_named d = [] \<and> ap_origins d = [] then [] else [d])"

definition perms_request ::
  "ext_record \<Rightarrow> api_perms \<Rightarrow> bool \<Rightarrow> perm_registry \<times> manager \<Rightarrow> bool \<times> perm_registry \<times> manager" where
  "perms_request r perms db_ok rm = (case rm of (reg0, mg) \<Rightarrow>
     (let (prior, reg) = view_of r reg0
      in case grant_optional (er_id r) perms db_ok mg of
          (None, mg') \<Rightarrow> (False, reg, mg')
        | (Some r', mg') \<Rightarrow> (True, reg\<lparr>pr_views := AList.update (er_id r) (rec_view r') (pr_views reg),
             pr_added := pr_added reg @ some_perms (perms_delta perms prior (rec_view r'))\<rparr>, mg')))"

definition perms_remove ::
  "ext_record \<Rightarrow> api_perms \<Rightarrow> bool \<Rightarrow> perm_registry \<times> manager \<Rightarrow> bool \<times> perm_registry \<times> manager" where
  "perms_remove r perms db_ok rm = (case rm of (reg0, mg) \<Rightarrow>
     (let (prior, reg) = view_of r reg0
      in case revoke_optional (er_id r) perms db_ok mg of
          (None, mg') \<Rightarrow> (False, reg, mg')
        | (Some r', mg') \<Rightarrow> (True, reg\<lparr>pr_views := AList.update (er_id r) (rec_view r') (pr_views reg),
             pr_removed := pr_removed reg @ some_perms (perms_lost perms prior (rec_view r'))\<rparr>, mg')))"

section \<open>The identity of a package\<close>

lemma small_byte_nonzero: "0 < n \<Longrightarrow> n < 256 \<Longrightarrow> (of_nat n :: byte) \<noteq> 0"
  by (auto simp: word_of_nat_eq_0_iff dest: dvd_imp_le)

lemma utf8_no_zero: "CHR 0x00 \<notin> set s \<Longrightarrow> 0 \<notin> set (utf8_encode s)"
proof (induction s)
  case (Cons c s)
  have "c \<noteq> CHR 0x00" using Cons.prems by auto
  then have "char_code c \<noteq> char_code (CHR 0x00)" by (simp only: of_char_eq_iff not_False_eq_True)
  then have "char_code c \<noteq> 0" by simp
  moreover have "char_code c < 256" by simp
  moreover have "char_code c div 64 < 4" using \<open>char_code c < 256\<close> by (simp add: less_mult_imp_div_less)
  moreover have "char_code c mod 64 < 64" by simp
  ultimately have "char_code c < 128 \<Longrightarrow> (of_nat (char_code c) :: byte) \<noteq> 0"
    "(of_nat (192 + char_code c div 64) :: byte) \<noteq> 0" "(of_nat (128 + char_code c mod 64) :: byte) \<noteq> 0"
    by (intro small_byte_nonzero; linarith)+
  with Cons show ?case by (auto simp del: of_nat_add)
qed simp

lemma rev_be32: "rev (be32 n) = le32 n"
  by (simp add: be32_def le32_def Let_def)

lemma length_be32 [simp]: "length (be32 n) = 4"
  by (simp add: be32_def Let_def)

lemma be32_inject: "m < 2 ^ 32 \<Longrightarrow> n < 2 ^ 32 \<Longrightarrow> be32 m = be32 n \<longleftrightarrow> m = n"
  by (metis append_Nil2 rev_be32 u32_le)

lemma be32_small: "n < 2 ^ 24 \<Longrightarrow> \<exists>t. be32 n = 0 # t \<and> length t = 3"
proof -
  assume n: "n < 2 ^ 24"
  then have "drop_bit 24 (of_nat n :: 32 word) = 0"
    by (simp add: word_unat_eq_iff unsigned_drop_bit_eq unat_of_nat take_bit_nat_eq_self del: drop_bit_of_nat,
      simp add: drop_bit_eq_div)
  then show ?thesis by (simp add: be32_def Let_def)
qed

definition plain_part :: "string \<times> byte list \<Rightarrow> bool" where
  "plain_part e \<longleftrightarrow> CHR 0x00 \<notin> set (fst e) \<and> length (snd e) < 2 ^ 24"

lemma payload_first:
  assumes "plain_part (p, d)"
  shows "takeWhile (\<lambda>b. b \<noteq> 0) (utf8_encode p @ be32 (length d) @ x) = utf8_encode p"
proof -
  obtain t where "be32 (length d) = 0 # t"
    using be32_small [of "length d"] assms by (auto simp: plain_part_def)
  then show ?thesis
    using utf8_no_zero [of p] assms by (subst takeWhile_append2) (auto simp: plain_part_def)
qed

lemma payload_inject:
  "list_all plain_part xs \<Longrightarrow> list_all plain_part ys \<Longrightarrow> identity_payload xs = identity_payload ys \<Longrightarrow> xs = ys"
proof (induction xs arbitrary: ys)
  case Nil
  then show ?case
    by (cases ys) (auto simp: identity_payload_def be32_def Let_def split: prod.splits)
next
  case (Cons x xs)
  obtain p d where x: "x = (p, d)" by (cases x)
  obtain q e ys' where ys: "ys = (q, e) # ys'"
    using Cons.prems(3) by (cases ys) (auto simp: identity_payload_def x be32_def Let_def)
  have eq: "utf8_encode p @ be32 (length d) @ d @ identity_payload xs
      = utf8_encode q @ be32 (length e) @ e @ identity_payload ys'"
    using Cons.prems(3) by (simp add: identity_payload_def x ys)
  have pl: "plain_part (p, d)" "plain_part (q, e)" using Cons.prems by (simp_all add: x ys)
  have "utf8_encode p = utf8_encode q"
    using payload_first [OF pl(1)] payload_first [OF pl(2)] eq by metis
  then have pq: "p = q" by (metis option.inject utf8_decode_encode)
  have len: "length d < 2 ^ 32" "length e < 2 ^ 32" using pl by (auto simp: plain_part_def)
  have "be32 (length d) @ d @ identity_payload xs = be32 (length e) @ e @ identity_payload ys'"
    using eq pq by simp
  then have "be32 (length d) = be32 (length e)" and rest: "d @ identity_payload xs = e @ identity_payload ys'"
    by simp_all
  then have "length d = length e" using be32_inject [OF len] by simp
  with rest have "d = e" "identity_payload xs = identity_payload ys'" by simp_all
  then show ?case using Cons.IH [of ys'] Cons.prems pq by (simp add: x ys)
qed

definition plain_files :: "files \<Rightarrow> (string \<Rightarrow> string) \<Rightarrow> bool" where
  "plain_files fs rel \<longleftrightarrow> list_all (\<lambda>(p, d). plain_part (rel p, d)) fs"

lemma identity_parts_mset: "mset (identity_parts fs rel) = image_mset (\<lambda>(p, d). (rel p, d)) (mset fs)"
  by (simp add: identity_parts_def)

text \<open>Packages whose files are all below 16 MiB have the same identity payload only when they hold the
  same files under the same root-relative paths, so distinct packages get the same id only through
  a SHA-256 collision.
\<close>

theorem identity_payload_injective:
  assumes "plain_files fs rel" "plain_files gs rel'"
    "identity_payload (identity_parts fs rel) = identity_payload (identity_parts gs rel')"
  shows "image_mset (\<lambda>(p, d). (rel p, d)) (mset fs) = image_mset (\<lambda>(p, d). (rel' p, d)) (mset gs)"
proof -
  have pl: "list_all plain_part (identity_parts fs rel)" if "plain_files fs rel" for fs rel
    using that by (auto simp: plain_files_def identity_parts_def list_all_iff)
  have "identity_parts fs rel = identity_parts gs rel'"
    using assms by (intro payload_inject) (simp_all add: pl)
  then show ?thesis by (metis identity_parts_mset)
qed

theorem identity_payload_injective_witness:
  "image_mset (\<lambda>(p, d). (p, d)) (mset [(''b'', [1 :: byte]), (''a'', [])]) = mset [(''a'', []), (''b'', [1])]"
proof -
  have "plain_files [(''b'', [1 :: byte]), (''a'', [])] (\<lambda>p. p)" "plain_files [(''a'', []), (''b'', [1 :: byte])] (\<lambda>p. p)"
    by (simp_all add: plain_files_def plain_part_def)
  moreover have "identity_payload (identity_parts [(''b'', [1 :: byte]), (''a'', [])] (\<lambda>p. p))
      = identity_payload (identity_parts [(''a'', []), (''b'', [1 :: byte])] (\<lambda>p. p))"
    by code_simp
  ultimately show ?thesis
    using identity_payload_injective [of "[(''b'', [1 :: byte]), (''a'', [])]" "\<lambda>p. p" "[(''a'', []), (''b'', [1 :: byte])]" "\<lambda>p. p"]
    by simp
qed

text \<open>
  From 16 MiB on the encoding is ambiguous: the first byte of the length is no longer 0, and can be
  read as the last character of the path. These two packages have the same payload.
\<close>

lemma identity_payload_collision:
  fixes e :: "byte list"
  assumes "length e = 2 ^ 24 - 6"
  shows "identity_payload [(''a'', 0 # utf8_encode ''b'' @ be32 (length e) @ e)]
    = identity_payload [([CHR ''a'', CHR 0x01], []), (''b'', e)]"
proof -
  have "length (0 # utf8_encode ''b'' @ be32 (length e) @ e) = 2 ^ 24"
    using assms by (simp add: utf8_encode.simps)
  moreover have "be32 (2 ^ 24) = [1, 0, 0, 0]" by (simp add: be32_def Let_def)
  moreover have "be32 0 = [0, 0, 0, 0]" by (simp add: be32_def Let_def)
  ultimately show ?thesis
    by (simp add: identity_payload_def)
qed

section \<open>Permissions stay within the manifest\<close>

definition declared_named :: "jobj \<Rightarrow> string set" where
  "declared_named m = set (str_arr (map_of m ''permissions'')) \<union> set (str_arr (map_of m ''optional_permissions''))"

definition declared_hosts :: "jobj \<Rightarrow> string set" where
  "declared_hosts m = set (str_arr (map_of m ''host_permissions'')) \<union> declared_named m"

definition declared_globs :: "jobj \<Rightarrow> string set" where
  "declared_globs m = set (str_arr (map_of m ''web_accessible_resources''))
     \<union> (\<Union>e \<in> set (obj_arr (map_of m ''web_accessible_resources'')). set (str_arr (map_of e ''resources'')))"

definition ext_globs :: "parsed_ext \<Rightarrow> string set" where
  "ext_globs p = set (pe_war p) \<union> (\<Union>e \<in> set (pe_war_scoped p). set (we_resources e))"

definition within_manifest :: "parsed_ext \<Rightarrow> bool" where
  "within_manifest p \<longleftrightarrow> set (pe_permissions p) \<subseteq> declared_named (pe_manifest p)
     \<and> set (pe_hosts p) \<subseteq> declared_hosts (pe_manifest p)
     \<and> pe_optional p = str_arr (map_of (pe_manifest p) ''optional_permissions'')
     \<and> ext_globs p \<subseteq> declared_globs (pe_manifest p)"

lemma i18n_name_raw [simp]: "is_raw (i18n_name ap s) = is_raw s"
  by (simp add: i18n_name_def split: prod.splits)

lemma i18n_title_raw [simp]: "is_raw (i18n_title ap l t put s) = is_raw s"
  by (simp add: i18n_title_def split: prod.splits option.splits)

lemma i18n_raw_keeps: "k \<noteq> key \<Longrightarrow> map_of (is_raw (i18n_raw ap key s)) k = map_of (is_raw s) k"
  by (auto simp: i18n_raw_def i18n_field_def split: prod.splits option.splits)

lemma i18n_block_keeps: "k \<noteq> key \<Longrightarrow> map_of (is_raw (i18n_block ap key s)) k = map_of (is_raw s) k"
  by (auto simp: i18n_block_def split: prod.splits option.splits)

lemma i18n_finish_keeps:
  "k \<noteq> ''commands'' \<Longrightarrow> map_of (pe_manifest (is_parsed (i18n_finish ap s))) k = map_of (is_raw s) k"
  by (auto simp: i18n_finish_def split: prod.splits option.splits)

lemma i18n_keeps_declared:
  assumes "k \<in> {''permissions'', ''host_permissions'', ''optional_permissions'', ''web_accessible_resources''}"
  shows "map_of (pe_manifest (is_parsed (resolve_manifest_i18n json_of raw p rd d))) k = map_of raw k"
proof -
  have ne: "k \<noteq> ''commands''" "k \<noteq> ''short_name''" "k \<noteq> ''description''" "k \<noteq> ''action''" "k \<noteq> ''browser_action''"
    "k \<noteq> ''page_action''" "k \<noteq> ''sidebar_action''"
    using assms by auto
  show ?thesis
    by (simp add: resolve_manifest_i18n_def Let_def i18n_finish_keeps i18n_block_keeps i18n_raw_keeps ne)
qed

lemma same_powers_permissions:
  "same_powers p q \<Longrightarrow> pe_permissions q = pe_permissions p \<and> pe_hosts q = pe_hosts p \<and> pe_optional q = pe_optional p
     \<and> pe_war q = pe_war p \<and> pe_war_scoped q = pe_war_scoped p"
proof -
  let ?p = "p\<lparr>pe_name := pe_name q, pe_manifest := pe_manifest q, pe_action := pe_action q,
     pe_sidebar := pe_sidebar q, pe_commands := pe_commands q, pe_warnings := pe_warnings q\<rparr>"
  assume "same_powers p q"
  then have e: "q = ?p" unfolding same_powers_def .
  have "pe_permissions q = pe_permissions ?p" "pe_hosts q = pe_hosts ?p" "pe_optional q = pe_optional ?p"
    "pe_war q = pe_war ?p" "pe_war_scoped q = pe_war_scoped ?p"
    by (rule arg_cong [OF e])+
  then show ?thesis by simp
qed

lemma war_entries_globs:
  "set (fst (parse_war_entries es)) \<union> (\<Union>e \<in> set (fst (snd (parse_war_entries es))). set (we_resources e))
     \<subseteq> (\<Union>e \<in> set es. set (str_arr (map_of e ''resources'')))"
proof (induction es)
  case (Cons e es)
  obtain globs scoped w where r: "parse_war_entries es = (globs, scoped, w)"
    by (metis prod_cases3)
  with Cons show ?case by (auto simp: Let_def)
qed simp

lemma accessible_globs:
  "set (fst (parse_web_accessible v mv)) \<union> (\<Union>e \<in> set (fst (snd (parse_web_accessible v mv))). set (we_resources e))
     \<subseteq> set (str_arr v) \<union> (\<Union>e \<in> set (obj_arr v). set (str_arr (map_of e ''resources'')))"
  using war_entries_globs [of "obj_arr v"]
  by (auto simp: parse_web_accessible_def split: option.splits json.splits)

lemma fields_within: "within_manifest (parse_fields raw mv)"
  using accessible_globs [of "map_of raw ''web_accessible_resources''" mv]
  by (auto simp: within_manifest_def declared_named_def declared_hosts_def parse_fields_def Let_def
      ext_globs_def declared_globs_def)

lemma parse_fields_manifest: "pe_manifest (parse_fields raw mv) = raw"
  by (simp add: parse_fields_def Let_def)

lemma load_manifest_within:
  assumes "load_manifest env rd j = Inr (p, d)"
  shows "within_manifest p"
proof -
  obtain q d0 where q: "parse_manifest j = (True, Some q, d0)"
    and p: "p = is_parsed (resolve_manifest_i18n (ev_json env) (pe_manifest q) q rd d0)"
    using assms by (auto simp: load_manifest_def Let_def split: prod.splits bool.splits option.splits if_splits)
  obtain raw where j: "j = JObj raw"
    using q by (cases rule: parse_manifest_cases [of j]) (auto simp: no_parse_def)
  obtain mv where "q = parse_fields raw mv" using parse_manifest_ok [OF q [unfolded j]] by blast
  then have w: "within_manifest q" by (simp add: fields_within)
  have "pe_permissions p = pe_permissions q \<and> pe_hosts p = pe_hosts q \<and> pe_optional p = pe_optional q
      \<and> pe_war p = pe_war q \<and> pe_war_scoped p = pe_war_scoped q"
    unfolding p by (rule same_powers_permissions [OF i18n_same_powers])
  moreover have "map_of (pe_manifest p) k = map_of (pe_manifest q) k"
    if "k \<in> {''permissions'', ''host_permissions'', ''optional_permissions'', ''web_accessible_resources''}" for k
    unfolding p by (rule i18n_keeps_declared [OF that])
  ultimately show ?thesis
    using w by (simp add: within_manifest_def declared_named_def declared_hosts_def ext_globs_def declared_globs_def)
qed

lemma normalized_no_dots: "normalize_extension_path p = Some q \<Longrightarrow> ''..'' \<notin> set (split_on (CHR ''/'') q)"
proof (erule normalized_parts)
  fix parts
  assume q: "q = ''/'' @ join_with ''/'' parts"
    and ok: "\<forall>x \<in> set parts. x \<noteq> [] \<and> x \<noteq> ''.'' \<and> x \<noteq> ''..'' \<and> CHR ''/'' \<notin> set x \<and> CHR 0x00 \<notin> set x \<and> CHR 0x5C \<notin> set x"
  show "''..'' \<notin> set (split_on (CHR ''/'') q)"
    using split_on_join_with [of parts "CHR ''/''"] ok by (cases "parts = []") (auto simp: q)
qed

datatype mg_op =
  OpInstall files int "nat option"
| OpUninstall string "nat option"
| OpEnable string bool bool
| OpReload string bool bool
| OpState string ext_state "string option" bool
| OpGrant string api_perms bool
| OpRevoke string api_perms bool
| OpRestart bool

fun mg_step :: "ext_env \<Rightarrow> mg_op \<Rightarrow> manager \<Rightarrow> manager" where
  "mg_step env (OpInstall fs now fault) mg = snd (mg_install env fs now fault mg)"
| "mg_step env (OpUninstall i fault) mg = snd (mg_uninstall i fault mg)"
| "mg_step env (OpEnable i b db_ok) mg = snd (mg_set_enabled i b db_ok mg)"
| "mg_step env (OpReload i read_ok db_ok) mg = snd (mg_reload env i read_ok db_ok mg)"
| "mg_step env (OpState i s err db_ok) mg = mg_set_state i s err db_ok mg"
| "mg_step env (OpGrant i ps db_ok) mg = snd (grant_optional i ps db_ok mg)"
| "mg_step env (OpRevoke i ps db_ok) mg = snd (revoke_optional i ps db_ok mg)"
| "mg_step env (OpRestart db_ok) mg = mg_startup db_ok (mg\<lparr>mg_exts := [], mg_started := False\<rparr>)"

definition ext_ok :: "string \<times> ext_record \<Rightarrow> bool" where
  "ext_ok e \<longleftrightarrow> er_id (snd e) = fst e \<and> within_manifest (er_info (snd e))"

definition mg_ok :: "manager \<Rightarrow> bool" where
  "mg_ok mg \<longleftrightarrow> list_all ext_ok (mg_exts mg) \<and> list_all ext_ok (mg_meta mg)"

lemma list_all_update: "list_all P m \<Longrightarrow> P (k, v) \<Longrightarrow> list_all P (AList.update k v m)"
  using set_update_subset [of k v m] by (auto simp: list_all_iff)

lemma list_all_delete: "list_all P m \<Longrightarrow> list_all P (AList.delete k m)"
  using set_delete_subset [of k m] by (auto simp: list_all_iff)

lemma mg_ok_simps [simp]:
  "mg_ok (mg\<lparr>mg_events := ev\<rparr>) \<longleftrightarrow> mg_ok mg"
  "mg_ok (mg\<lparr>mg_files := f\<rparr>) \<longleftrightarrow> mg_ok mg"
  "mg_ok (mg\<lparr>mg_started := b\<rparr>) \<longleftrightarrow> mg_ok mg"
  "mg_ok (mg_changed i mg) \<longleftrightarrow> mg_ok mg"
  "mg_ok (put_files i root fs mg) \<longleftrightarrow> mg_ok mg"
  "mg_ok (drop_files ks mg) \<longleftrightarrow> mg_ok mg"
  by (simp_all add: mg_ok_def mg_changed_def put_files_def drop_files_def split: option.splits)

lemma mg_ok_put: "mg_ok mg \<Longrightarrow> ext_ok (i, r) \<Longrightarrow> mg_ok (put_ext i r mg)"
  "mg_ok mg \<Longrightarrow> ext_ok (i, r) \<Longrightarrow> mg_ok (put_meta i r mg)"
  by (simp_all add: mg_ok_def put_ext_def put_meta_def list_all_update)

lemma mg_ok_meta_delete: "mg_ok mg \<Longrightarrow> mg_ok (mg\<lparr>mg_meta := AList.delete i (mg_meta mg)\<rparr>)"
  by (simp add: mg_ok_def list_all_delete)

lemma mg_ok_get: "mg_ok mg \<Longrightarrow> map_of (mg_exts mg) i = Some r \<Longrightarrow> ext_ok (i, r)"
  by (auto simp: mg_ok_def list_all_iff dest: map_of_SomeD)

lemma ext_ok_update [simp]:
  "ext_ok (i, r\<lparr>er_state := s\<rparr>) \<longleftrightarrow> ext_ok (i, r)"
  "ext_ok (i, r\<lparr>er_enabled := b\<rparr>) \<longleftrightarrow> ext_ok (i, r)"
  "ext_ok (i, r\<lparr>er_error := e\<rparr>) \<longleftrightarrow> ext_ok (i, r)"
  by (simp_all add: ext_ok_def)

lemma ext_ok_info: "ext_ok (i, r) \<Longrightarrow> within_manifest p \<Longrightarrow> ext_ok (i, r\<lparr>er_info := p\<rparr>)"
  by (simp add: ext_ok_def)

lemma set_add_missing: "set (add_missing ps xs) = set xs \<union> set ps"
  by (induction ps arbitrary: xs) (auto simp: add_missing_def)

lemma install_puts_ok: "mg_ok mg \<Longrightarrow> ext_ok (i, r) \<Longrightarrow> mg_ok (install_puts i r root fs n mg)"
  by (simp add: install_puts_def mg_ok_put split: nat.splits)

lemma install_ok: "mg_ok mg \<Longrightarrow> mg_ok (snd (mg_install env fs now fault mg))"
  by (auto simp: mg_install_def Let_def ext_ok_def install_puts_ok mg_ok_put load_manifest_within
      split: option.splits prod.splits sum.splits nat.splits)

lemma uninstall_ok: "mg_ok mg \<Longrightarrow> mg_ok (snd (mg_uninstall i fault mg))"
proof (cases "map_of (mg_exts mg) i")
  case (Some r)
  assume ok: "mg_ok mg"
  have f: "mg_ok (forget_ext i r mg')" if "mg_ok mg'" for mg'
  proof -
    have "mg_ok (mg_changed i (put_ext i (r\<lparr>er_state := Uninstalled, er_enabled := False\<rparr>) mg'))"
      using that mg_ok_get [OF ok Some] by (simp add: mg_ok_put)
    then show ?thesis by (simp add: forget_ext_def Let_def mg_ok_def list_all_delete)
  qed
  show ?thesis
    using ok by (simp add: mg_uninstall_def Some Let_def f mg_ok_meta_delete split: option.splits)
qed (simp add: mg_uninstall_def)

lemma set_enabled_ok: "mg_ok mg \<Longrightarrow> mg_ok (snd (mg_set_enabled i b db_ok mg))"
  by (auto simp: mg_set_enabled_def Let_def mg_ok_put mg_ok_get split: option.splits)

lemma reload_ok: "mg_ok mg \<Longrightarrow> mg_ok (snd (mg_reload env i read_ok db_ok mg))"
  by (auto simp: mg_reload_def Let_def fail_reload_def mg_ok_put mg_ok_get ext_ok_info load_manifest_within
      split: option.splits sum.splits)

lemma set_state_ok: "mg_ok mg \<Longrightarrow> mg_ok (mg_set_state i s err db_ok mg)"
  by (auto simp: mg_set_state_def Let_def mg_ok_put mg_ok_get split: option.splits)

lemma grant_ok: "mg_ok mg \<Longrightarrow> mg_ok (snd (grant_optional i ps db_ok mg))"
proof (cases "map_of (mg_exts mg) i")
  case (Some r)
  assume ok: "mg_ok mg"
  let ?info = "(er_info r)\<lparr>pe_permissions := add_missing (ap_named ps) (pe_permissions (er_info r)),
      pe_hosts := add_missing (ap_origins ps) (pe_hosts (er_info r))\<rparr>"
  have "ext_ok (i, r\<lparr>er_info := ?info\<rparr>)" if "set (ap_named ps @ ap_origins ps) \<subseteq> set (pe_optional (er_info r))"
    using mg_ok_get [OF ok Some] that
    by (auto simp: ext_ok_def within_manifest_def set_add_missing declared_named_def declared_hosts_def ext_globs_def)
  then show ?thesis using ok by (simp add: grant_optional_def Some Let_def mg_ok_put)
qed (simp add: grant_optional_def)

lemma revoke_ok: "mg_ok mg \<Longrightarrow> mg_ok (snd (revoke_optional i ps db_ok mg))"
proof (cases "map_of (mg_exts mg) i")
  case (Some r)
  assume ok: "mg_ok mg"
  have "ext_ok (i, r\<lparr>er_info := (er_info r)\<lparr>pe_permissions := filter P (pe_permissions (er_info r)),
      pe_hosts := filter Q (pe_hosts (er_info r))\<rparr>\<rparr>)" for P Q
    using mg_ok_get [OF ok Some] by (auto simp: ext_ok_def within_manifest_def ext_globs_def)
  then show ?thesis using ok by (simp add: revoke_optional_def Some Let_def mg_ok_put)
qed (simp add: revoke_optional_def)

lemma startup_ok:
  assumes "mg_ok mg"
  shows "mg_ok (mg_startup db_ok mg)"
proof -
  have "list_all ext_ok (fold (\<lambda>(_, r). AList.update (er_id r) r) xs m)"
    if "list_all ext_ok xs" "list_all ext_ok m" for xs and m :: "(string, ext_record) omap"
    using that by (induction xs arbitrary: m) (auto simp: list_all_update ext_ok_def)
  then show ?thesis using assms by (simp add: mg_startup_def mg_ok_def)
qed

lemma mg_step_ok: "mg_ok mg \<Longrightarrow> mg_ok (mg_step env op mg)"
proof (cases op)
  case (OpRestart b)
  assume "mg_ok mg"
  then have "mg_ok (mg\<lparr>mg_exts := [], mg_started := False\<rparr>)" by (simp add: mg_ok_def)
  then show ?thesis using OpRestart startup_ok by simp
qed (simp_all add: install_ok uninstall_ok set_enabled_ok reload_ok set_state_ok grant_ok revoke_ok)

definition mg_run :: "ext_env \<Rightarrow> mg_op list \<Rightarrow> manager" where
  "mg_run env ops = fold (mg_step env) ops new_manager"

lemma mg_run_ok: "mg_ok (mg_run env ops)"
  by (induction ops rule: rev_induct) (simp_all add: mg_run_def mg_step_ok, simp add: mg_ok_def new_manager_def)

text \<open>C13. Whatever is installed, reloaded, granted, revoked or restarted, and wherever the database fails,
  no installed extension ever holds a permission or a host that its manifest does not list as
  required or optional.
\<close>

theorem grants_within_manifest:
  assumes "mg_get i (mg_run env ops) = Some r"
  shows "er_id r = i
    \<and> set (pe_permissions (er_info r)) \<subseteq> declared_named (pe_manifest (er_info r))
    \<and> set (pe_hosts (er_info r)) \<subseteq> declared_hosts (pe_manifest (er_info r))"
  using mg_ok_get [OF mg_run_ok] assms by (simp add: mg_get_def ext_ok_def within_manifest_def)

definition demo_ext_manifest :: jobj where
  "demo_ext_manifest =
    [(''manifest_version'', JNum 2), (''name'', JStr ''n''), (''version'', JStr ''1''),
     (''permissions'', JArr [JStr ''tabs'']), (''optional_permissions'', JArr [JStr ''alarms'', JStr ''*://a/*'']),
     (''web_accessible_resources'', JArr [JStr ''pub/*''])]"

definition demo_ext_env :: ext_env where
  "demo_ext_env = \<lparr>ev_zip = demo_zip_env, ev_json = (\<lambda>_. Some (JObj demo_ext_manifest)),
     ev_sha256 = (\<lambda>_. replicate 32 0), ev_url = (\<lambda>_. None)\<rparr>"

definition demo_ext_files :: files where
  "demo_ext_files = [(''manifest.json'', []), (''pub/i'', [1]), (''k'', [2])]"

definition demo_ext_id :: string where
  "demo_ext_id = replicate 32 (CHR ''0'')"

definition demo_ext_ops :: "mg_op list" where
  "demo_ext_ops = [OpRestart True, OpInstall demo_ext_files 5 None,
     OpGrant demo_ext_id \<lparr>ap_named = [''alarms''], ap_origins = [''*://a/*'']\<rparr> True,
     OpGrant demo_ext_id \<lparr>ap_named = [''cookies''], ap_origins = []\<rparr> True, OpRestart True]"

theorem grants_within_manifest_witness:
  "\<exists>r. mg_get demo_ext_id (mg_run demo_ext_env demo_ext_ops) = Some r
     \<and> pe_permissions (er_info r) = [''tabs'', ''alarms''] \<and> ''alarms'' \<in> declared_named (pe_manifest (er_info r))"
proof -
  have "map_option (\<lambda>r. pe_permissions (er_info r)) (mg_get demo_ext_id (mg_run demo_ext_env demo_ext_ops))
      = Some [''tabs'', ''alarms'']"
    by code_simp
  then obtain r where r: "mg_get demo_ext_id (mg_run demo_ext_env demo_ext_ops) = Some r"
    and p: "pe_permissions (er_info r) = [''tabs'', ''alarms'']" by auto
  with grants_within_manifest [OF r] show ?thesis by auto
qed

text \<open>A web page obtains from an extension only a file of that extension, under a path without dot
  segments, that a glob of the manifest's web-accessible resources matches; whatever the page asks
  for, and whatever happened before.
\<close>

theorem web_resource_declared:
  assumes "get_resource pu i path True page_url from_ext (mg_run env ops) = Some b"
  shows "\<exists>r norm g. mg_get i (mg_run env ops) = Some r \<and> er_enabled r
    \<and> g \<in> declared_globs (pe_manifest (er_info r)) \<and> (glob_test g norm \<or> glob_test g (drop 1 norm))
    \<and> normalize_extension_path norm = Some norm \<and> ''..'' \<notin> set (split_on (CHR ''/'') norm)
    \<and> (map_of (mg_files (mg_run env ops)) (file_key i norm) = Some b
       \<or> map_of (mg_files (mg_run env ops)) (file_key i (drop 1 norm)) = Some b)"
proof -
  obtain r norm where r: "mg_get i (mg_run env ops) = Some r" "er_enabled r"
    and n: "normalize_extension_path (rooted_path path) = Some norm"
    and w: "war_admits pu r norm page_url from_ext"
    and f: "map_of (mg_files (mg_run env ops)) (file_key i norm) = Some b
       \<or> map_of (mg_files (mg_run env ops)) (file_key i (drop 1 norm)) = Some b"
    using assms by (auto simp: get_resource_def mg_get_def split: option.splits if_splits)
  obtain g where g: "g \<in> ext_globs (er_info r)" "war_glob_hit norm g"
    using w by (auto simp: war_admits_def list_ex_iff ext_globs_def)
  have "ext_globs (er_info r) \<subseteq> declared_globs (pe_manifest (er_info r))"
    using mg_ok_get [OF mg_run_ok] r(1) by (simp add: mg_get_def ext_ok_def within_manifest_def)
  moreover have "''..'' \<notin> set (split_on (CHR ''/'') norm)"
    by (rule normalized_no_dots [OF n])
  ultimately show ?thesis
    using r g f normalize_idem [OF n] unfolding war_glob_hit_def by blast
qed

theorem web_resource_declared_witness:
  "get_resource (\<lambda>_. None) demo_ext_id ''pub/../k'' True None None (mg_run demo_ext_env demo_ext_ops) = None
   \<and> (\<exists>r g. mg_get demo_ext_id (mg_run demo_ext_env demo_ext_ops) = Some r
      \<and> g \<in> declared_globs (pe_manifest (er_info r)))"
proof -
  have "get_resource (\<lambda>_. None) demo_ext_id ''pub/i'' True None None (mg_run demo_ext_env demo_ext_ops) = Some [1]"
    by code_simp
  from web_resource_declared [OF this] have "\<exists>r g. mg_get demo_ext_id (mg_run demo_ext_env demo_ext_ops) = Some r
      \<and> g \<in> declared_globs (pe_manifest (er_info r))" by blast
  moreover have "get_resource (\<lambda>_. None) demo_ext_id ''pub/../k'' True None None (mg_run demo_ext_env demo_ext_ops) = None"
    by code_simp
  ultimately show ?thesis by blast
qed

section \<open>What removal leaves, and what it should not\<close>

lemma fold_delete_map: "map_of (fold AList.delete ks m) k = (if k \<in> set ks then None else map_of m k)"
  by (induction ks arbitrary: m) auto

lemma file_key_prefix: "length i = length j \<Longrightarrow> starts_with (file_key j p) (i @ '':'') \<longleftrightarrow> i = j"
  by (auto simp: file_key_def starts_with_iff)

text \<open>Uninstalling removes the record, its stored copy and every file of the extension, and touches no
  record and no file of another extension.
\<close>

theorem uninstall_exact:
  assumes "mg_uninstall i None mg = (Inr (), mg')" "j \<noteq> i" "length j = length i"
  shows "mg_get i mg' = None \<and> map_of (mg_meta mg') i = None \<and> map_of (mg_files mg') (file_key i p) = None
    \<and> get_resource pu i path web page_url from_ext mg' = None
    \<and> mg_get j mg' = mg_get j mg \<and> map_of (mg_meta mg') j = map_of (mg_meta mg) j
    \<and> map_of (mg_files mg') (file_key j p) = map_of (mg_files mg) (file_key j p)
    \<and> get_resource pu j path web page_url from_ext mg' = get_resource pu j path web page_url from_ext mg"
proof -
  obtain r where r: "map_of (mg_exts mg) i = Some r"
    and mg': "mg' = forget_ext i r (drop_files (package_keys i mg) (mg\<lparr>mg_meta := AList.delete i (mg_meta mg)\<rparr>))"
    using assms(1) by (auto simp: mg_uninstall_def Let_def split: option.splits)
  have exts: "map_of (mg_exts mg') = (map_of (mg_exts mg))(i := None)"
    and meta: "map_of (mg_meta mg') = (map_of (mg_meta mg))(i := None)"
    and files: "mg_files mg' = fold AList.delete (package_keys i mg) (mg_files mg)"
    by (simp_all add: mg' forget_ext_def Let_def mg_changed_def put_ext_def drop_files_def)
  have own: "map_of (mg_files mg') (file_key i q) = None" for q
  proof -
    have "file_key i q \<in> set (package_keys i mg) \<or> map_of (mg_files mg) (file_key i q) = None"
      by (auto simp: package_keys_def file_key_prefix map_of_eq_None_iff)
    then show ?thesis by (auto simp: files fold_delete_map)
  qed
  have other: "map_of (mg_files mg') (file_key j q) = map_of (mg_files mg) (file_key j q)" for q
  proof -
    have "file_key j q \<notin> set (package_keys i mg)"
      using assms(2,3) file_key_prefix [of i j q] by (auto simp: package_keys_def)
    then show ?thesis by (simp add: files fold_delete_map)
  qed
  have res: "get_resource pu i path web page_url from_ext mg' = None"
    "get_resource pu j path web page_url from_ext mg' = get_resource pu j path web page_url from_ext mg"
    using assms(2) by (simp_all add: get_resource_def exts other cong: option.case_cong if_cong)
  show ?thesis
    using assms(2) own other res by (simp add: mg_get_def exts meta)
qed

theorem uninstall_exact_witness:
  "mg_get demo_ext_id (snd (mg_uninstall demo_ext_id None (mg_run demo_ext_env demo_ext_ops))) = None"
proof -
  let ?mg = "mg_run demo_ext_env demo_ext_ops" and ?j = "replicate 32 (CHR ''a'')"
  have "fst (mg_uninstall demo_ext_id None ?mg) = Inr ()" by code_simp
  then have "mg_uninstall demo_ext_id None ?mg = (Inr (), snd (mg_uninstall demo_ext_id None ?mg))"
    by (metis prod.collapse)
  moreover have "?j \<noteq> demo_ext_id" "length ?j = length demo_ext_id" by (simp_all add: demo_ext_id_def)
  ultimately show ?thesis using uninstall_exact by blast
qed

text \<open>
  An installation whose file puts fail half way reports an error and keeps nothing in memory, but the
  record it put first stays: the next start of the worker lists the extension as installed.
\<close>

lemma failed_install_resurrects:
  "let mg = snd (mg_install demo_ext_env demo_ext_files 5 (Some 2) new_manager)
   in fst (mg_install demo_ext_env demo_ext_files 5 (Some 2) new_manager) = Inl DbFailed
      \<and> mg_get demo_ext_id mg = None
      \<and> map_option (\<lambda>r. (er_state r, er_enabled r)) (mg_get demo_ext_id (mg_step demo_ext_env (OpRestart True) mg))
        = Some (Installed, True)
      \<and> mg_files mg = []"
  by code_simp

text \<open>
  The view of the permissions registry outlives the record: after a grant, reloading or reinstalling
  the extension drops the optional permissions from its record, and \<open>contains\<close> goes on answering
  that they are held.
\<close>

lemma stale_view:
  assumes "perms_request r perms db_ok (reg, mg) = (True, reg', mg')" "er_id r2 = er_id r"
  shows "fst (perms_contains r2 perms reg')"
proof -
  obtain v reg0 r' where v: "view_of r reg = (v, reg0)" by (cases "view_of r reg")
  obtain r' where g: "grant_optional (er_id r) perms db_ok mg = (Some r', mg')"
    and reg': "map_of (pr_views reg') (er_id r) = Some (rec_view r')"
    using assms(1) by (auto simp: perms_request_def v Let_def split: prod.splits option.splits)
  have "set (ap_named perms) \<subseteq> set (pv_named (rec_view r'))" "set (ap_origins perms) \<subseteq> set (pv_origins (rec_view r'))"
    using g by (auto simp: grant_optional_def Let_def rec_view_def set_add_missing split: option.splits if_splits)
  then show ?thesis
    using reg' assms(2) by (simp add: perms_contains_def view_of_def Let_def)
qed

text \<open>\<open>remove\<close> also takes away what the manifest requires, which is not optional.\<close>

lemma revoke_takes_required:
  "map_option (\<lambda>r. pe_permissions (er_info r))
     (fst (revoke_optional demo_ext_id \<lparr>ap_named = [''tabs''], ap_origins = []\<rparr> True (mg_run demo_ext_env demo_ext_ops)))
   = Some [''alarms'']"
  by code_simp

end
