(* ===== verification/Alarms.thy ===== *)
theory Alarms
  imports Complex_Main "HOL-Library.Word" "HOL-Library.Log_Nat" Prelude
begin

text \<open>
  The alarms of the extensions (\<open>src/app/src/extensions/alarms.ts\<close>): the table, its timers and its
  persistence. Times (epoch milliseconds) and periods (minutes) are finite rational numbers; sums of times and
  minutes in milliseconds are rounded as doubles are (overflow to infinity apart). The difference that
  arms a timer is exact, as it is for doubles up to \<open>2^41\<close> (the year 2039). Timers are the pending calls of \<open>setTimeout\<close>, with the time they were made and the time they are due: the platform
  converts the delay to a signed 32-bit integer. A write to the store takes effect at
  once; restoring a key of the store is two steps, the awaited read and the merge. A
  restart drops the memory and keeps the store.
\<close>

section \<open>State\<close>

record alarm =
  al_name :: string
  al_time :: rat
  al_period :: "rat option"

record timer =
  tm_id :: nat
  tm_ext :: string
  tm_alarm :: alarm
  tm_armed :: int
  tm_due :: int

text \<open>A stored value that is no array, or an array whose hostile elements are \<open>None\<close>.\<close>

datatype stored_alarms = NotArray | Records "alarm option list"

type_synonym alarm_table = "(string, nat \<times> alarm) omap"

record alarms =
  ar_exts :: "(string, alarm_table) omap"
  ar_timers :: "timer list"
  ar_next :: nat
  ar_hydrated :: bool
  ar_store :: "(string, stored_alarms) omap"
  ar_read :: "(string \<times> stored_alarms option) option"
  ar_fired :: "(string \<times> alarm) list"

definition no_alarms :: alarms where
  "no_alarms = \<lparr>ar_exts = [], ar_timers = [], ar_next = 0, ar_hydrated = False, ar_store = [], ar_read = None, ar_fired = []\<rparr>"

text \<open>
  The rounding of double precision arithmetic: to the nearest multiple of the unit in the last place of
  the binade (52 bits below the leading one, and not below \<open>2^-1074\<close>), ties to even.
\<close>

definition round_even :: "rat \<Rightarrow> int" where
  "round_even x = (let f = \<lfloor>x\<rfloor>; d = x - of_int f
     in if d < 1 / 2 then f else if d > 1 / 2 then f + 1 else if even f then f else f + 1)"

definition leading_bit :: "rat \<Rightarrow> int" where
  "leading_bit x = (let (p, q) = quotient_of x; e = bitlen p - bitlen q in if x < 2 powi e then e - 1 else e)"

definition last_place :: "rat \<Rightarrow> rat" where
  "last_place x = 2 powi (max (leading_bit \<bar>x\<bar> - 52) (- 1074))"

definition round_double :: "rat \<Rightarrow> rat" where
  "round_double x = (if x = 0 then 0 else of_int (round_even (x / last_place x)) * last_place x)"

definition epoch_add :: "rat \<Rightarrow> rat \<Rightarrow> rat" where
  "epoch_add a b = round_double (a + b)"

definition minutes :: "rat \<Rightarrow> rat" where
  "minutes m = round_double (m * 60000)"

section \<open>Operations\<close>

definition table_of :: "alarms \<Rightarrow> string \<Rightarrow> alarm_table" where
  "table_of s i = (case map_of (ar_exts s) i of Some t \<Rightarrow> t | None \<Rightarrow> [])"

definition set_table :: "string \<Rightarrow> alarm_table \<Rightarrow> alarms \<Rightarrow> alarms" where
  "set_table i t s = s\<lparr>ar_exts := AList.update i t (ar_exts s)\<rparr>"

definition alarm_get :: "alarms \<Rightarrow> string \<Rightarrow> string \<Rightarrow> alarm option" where
  "alarm_get s i name = map_option snd (map_of (table_of s i) name)"

definition alarm_get_all :: "alarms \<Rightarrow> string \<Rightarrow> alarm list" where
  "alarm_get_all s i = map (snd \<circ> snd) (table_of s i)"

definition persist_ext :: "string \<Rightarrow> alarms \<Rightarrow> alarms" where
  "persist_ext i s =
     (if ar_hydrated s then s\<lparr>ar_store := AList.update i (Records (map Some (alarm_get_all s i))) (ar_store s)\<rparr> else s)"

definition clear_timers :: "nat list \<Rightarrow> alarms \<Rightarrow> alarms" where
  "clear_timers ids s = s\<lparr>ar_timers := filter (\<lambda>t. tm_id t \<notin> set ids) (ar_timers s)\<rparr>"

text \<open>The delay of \<open>setTimeout(f, d)\<close>.\<close>

definition timer_delay :: "rat \<Rightarrow> int" where
  "timer_delay d = max 0 (sint (word_of_int \<lfloor>d\<rfloor> :: 32 word))"

text \<open>\<open>r.alarms.set(name, { timer: this.arm(id, alarm, period), alarm })\<close>\<close>

definition arm_alarm :: "int \<Rightarrow> string \<Rightarrow> alarm \<Rightarrow> alarms \<Rightarrow> alarms" where
  "arm_alarm now i a s =
     (let t = \<lparr>tm_id = ar_next s, tm_ext = i, tm_alarm = a, tm_armed = now,
        tm_due = now + timer_delay (max 0 (al_time a - of_int now))\<rparr>
      in set_table i (AList.update (al_name a) (ar_next s, a) (table_of s i))
           (s\<lparr>ar_timers := ar_timers s @ [t], ar_next := ar_next s + 1\<rparr>))"

record alarm_info =
  ai_when :: "rat option"
  ai_delay :: "rat option"
  ai_period :: "rat option"

definition positive_period :: "rat option \<Rightarrow> rat option" where
  "positive_period p = (case p of Some x \<Rightarrow> if 0 < x then Some x else None | None \<Rightarrow> None)"

definition alarm_when :: "int \<Rightarrow> alarm_info \<Rightarrow> rat" where
  "alarm_when now info = (case ai_when info of Some w \<Rightarrow> w
   | None \<Rightarrow> (case ai_delay info of Some d \<Rightarrow> epoch_add (of_int now) (minutes d)
     | None \<Rightarrow> (case positive_period (ai_period info) of Some p \<Rightarrow> epoch_add (of_int now) (minutes p)
       | None \<Rightarrow> of_int now + 60000)))"

definition alarm_create :: "int \<Rightarrow> string \<Rightarrow> string \<Rightarrow> alarm_info \<Rightarrow> alarms \<Rightarrow> alarms" where
  "alarm_create now i name info s =
     (let prev = (case map_of (table_of s i) name of Some (t, _) \<Rightarrow> [t] | None \<Rightarrow> []);
          a = \<lparr>al_name = name, al_time = alarm_when now info, al_period = positive_period (ai_period info)\<rparr>
      in persist_ext i (arm_alarm now i a (clear_timers prev s)))"

text \<open>
  \<open>while (next.scheduledTime <= Date.now()) next.scheduledTime += period * 60_000\<close>; the clock is read
  once. \<open>None\<close> is a loop that never ends.
\<close>

partial_function (option) next_slot :: "rat \<Rightarrow> int \<Rightarrow> rat \<Rightarrow> rat option" where
  "next_slot step now t = (if t \<le> of_int now then next_slot step now (epoch_add t step) else Some t)"

text \<open>A timer goes off: the change of the table and, after the wake, the call of the listeners.\<close>

definition alarm_fire :: "int \<Rightarrow> timer \<Rightarrow> alarms \<Rightarrow> alarms option" where
  "alarm_fire now t s =
     (let i = tm_ext t; a = tm_alarm t;
          s0 = s\<lparr>ar_timers := filter (\<lambda>x. tm_id x \<noteq> tm_id t) (ar_timers s)\<rparr>;
          fired = (\<lambda>s'. s'\<lparr>ar_fired := ar_fired s' @ [(i, a)]\<rparr>)
      in if map_of (ar_exts s) i = None then Some s0
         else case al_period a of
           None \<Rightarrow> Some (fired (persist_ext i (set_table i (AList.delete (al_name a) (table_of s0 i)) s0)))
         | Some p \<Rightarrow> (case next_slot (minutes p) now (epoch_add (al_time a) (minutes p)) of
             None \<Rightarrow> None
           | Some w \<Rightarrow> Some (fired (persist_ext i (arm_alarm now i (a\<lparr>al_time := w\<rparr>) s0)))))"

definition alarm_clear_all :: "string \<Rightarrow> alarms \<Rightarrow> bool \<times> alarms" where
  "alarm_clear_all i s =
     (if table_of s i = [] then (False, s)
      else (True, persist_ext i (set_table i [] (clear_timers (map (fst \<circ> snd) (table_of s i)) s))))"

definition alarm_clear :: "string \<Rightarrow> string option \<Rightarrow> alarms \<Rightarrow> bool \<times> alarms" where
  "alarm_clear i name s = (case map_of (ar_exts s) i of None \<Rightarrow> (False, s)
   | Some tab \<Rightarrow> (case name of None \<Rightarrow> alarm_clear_all i s
     | Some n \<Rightarrow> (case map_of tab n of None \<Rightarrow> (False, s)
       | Some (t, _) \<Rightarrow> (True, persist_ext i (set_table i (AList.delete n tab) (clear_timers [t] s))))))"

text \<open>The uninstallation of the extension.\<close>

definition alarm_drop :: "string \<Rightarrow> alarms \<Rightarrow> alarms" where
  "alarm_drop i s = (case map_of (ar_exts s) i of None \<Rightarrow> s
   | Some tab \<Rightarrow> persist_ext i ((clear_timers (map (fst \<circ> snd) tab) s)\<lparr>ar_exts := AList.delete i (ar_exts s)\<rparr>))"

section \<open>Restoring\<close>

definition is_stored_alarm :: "alarm \<Rightarrow> bool" where
  "is_stored_alarm a \<longleftrightarrow> al_name a \<noteq> [] \<and> length (al_name a) \<le> 256
     \<and> (case al_period a of None \<Rightarrow> True | Some p \<Rightarrow> 0 < p)"

text \<open>The records of one extension; the flag tells whether one of them was armed.\<close>

fun restore_records :: "int \<Rightarrow> string \<Rightarrow> alarm option list \<Rightarrow> alarms \<Rightarrow> bool \<times> alarms" where
  "restore_records now i [] s = (False, s)"
| "restore_records now i (v # vs) s = (case v of
     None \<Rightarrow> restore_records now i vs s
   | Some a \<Rightarrow> if \<not> is_stored_alarm a \<or> omap_has (table_of s i) (al_name a) then restore_records now i vs s
               else (True, snd (restore_records now i vs (arm_alarm now i a s))))"

text \<open>One turn of the loop over the keys: the read of the key is awaited, then its records are merged.\<close>

definition hydrate_read :: "string \<Rightarrow> alarms \<Rightarrow> alarms" where
  "hydrate_read i s = s\<lparr>ar_read := Some (i, map_of (ar_store s) i)\<rparr>"

definition hydrate_key :: "int \<Rightarrow> alarms \<Rightarrow> alarms" where
  "hydrate_key now s = (case ar_read s of
     Some (i, Some (Records vs)) \<Rightarrow>
       (let (armed, s') = restore_records now i vs (set_table i (table_of s i) (s\<lparr>ar_read := None\<rparr>))
        in if armed then persist_ext i s' else s')
   | _ \<Rightarrow> s\<lparr>ar_read := None\<rparr>)"

datatype alarm_event =
  Create string string alarm_info
| Clear string "string option"
| ClearAll string
| Drop string
| TimerFires nat
| HydrateStart
| HydrateRead string
| HydrateKey
| WorkerRestart

text \<open>One event at the clock reading \<open>now\<close>; \<open>None\<close> when the code never returns.\<close>

fun alarm_step :: "int \<Rightarrow> alarm_event \<Rightarrow> alarms \<Rightarrow> alarms option" where
  "alarm_step now (Create i name info) s = Some (alarm_create now i name info s)"
| "alarm_step now (Clear i name) s = Some (snd (alarm_clear i name s))"
| "alarm_step now (ClearAll i) s = Some (snd (alarm_clear_all i s))"
| "alarm_step now (Drop i) s = Some (alarm_drop i s)"
| "alarm_step now (TimerFires n) s = (case find (\<lambda>t. tm_id t = n \<and> tm_due t \<le> now) (ar_timers s) of
     None \<Rightarrow> Some s | Some t \<Rightarrow> alarm_fire now t s)"
| "alarm_step now HydrateStart s = Some (s\<lparr>ar_hydrated := True\<rparr>)"
| "alarm_step now (HydrateRead i) s = Some (if ar_hydrated s then hydrate_read i s else s)"
| "alarm_step now HydrateKey s = Some (if ar_hydrated s then hydrate_key now s else s)"
| "alarm_step now WorkerRestart s =
     Some (s\<lparr>ar_exts := [], ar_timers := [], ar_hydrated := False, ar_read := None\<rparr>)"

fun alarm_run :: "(int \<times> alarm_event) list \<Rightarrow> alarms \<Rightarrow> alarms option" where
  "alarm_run [] s = Some s"
| "alarm_run ((now, e) # es) s = (case alarm_step now e s of None \<Rightarrow> None | Some s' \<Rightarrow> alarm_run es s')"

section \<open>Timers and alarms correspond\<close>

text \<open>A delay below \<open>2^31\<close> milliseconds is kept up to a fraction of a millisecond.\<close>

definition timely :: "timer \<Rightarrow> bool" where
  "timely t \<longleftrightarrow> (al_time (tm_alarm t) - of_int (tm_armed t) < 2 ^ 31 \<longrightarrow> al_time (tm_alarm t) < of_int (tm_due t) + 1)"

lemma timer_delay_short:
  assumes "0 \<le> d" "d < 2 ^ 31"
  shows "timer_delay d = \<lfloor>d\<rfloor>"
proof -
  have "0 \<le> \<lfloor>d\<rfloor>" "\<lfloor>d\<rfloor> < 2 ^ 31" using assms by (simp_all add: floor_less_iff)
  then have "sint (word_of_int \<lfloor>d\<rfloor> :: 32 word) = \<lfloor>d\<rfloor>"
    by (simp add: signed_of_int signed_take_bit_int_eq_self)
  with \<open>0 \<le> \<lfloor>d\<rfloor>\<close> show ?thesis by (simp add: timer_delay_def)
qed

lemma timer_delay_long:
  assumes "2 ^ 31 \<le> d" "d < 2 ^ 32"
  shows "timer_delay d = 0"
proof -
  have "2 ^ 31 \<le> \<lfloor>d\<rfloor>" "\<lfloor>d\<rfloor> < 2 ^ 32" using assms by (simp_all add: le_floor_iff floor_less_iff)
  then have r: "- (2 ^ 31) \<le> \<lfloor>d\<rfloor> - 2 ^ 32" "\<lfloor>d\<rfloor> - 2 ^ 32 < 0" by simp_all
  have "(word_of_int \<lfloor>d\<rfloor> :: 32 word) = word_of_int (\<lfloor>d\<rfloor> - 2 ^ 32)"
    by (simp add: word_of_int_eq_iff take_bit_eq_mod)
  then have "sint (word_of_int \<lfloor>d\<rfloor> :: 32 word) = sint (word_of_int (\<lfloor>d\<rfloor> - 2 ^ 32) :: 32 word)" by (rule arg_cong)
  also have "\<dots> = signed_take_bit 31 (\<lfloor>d\<rfloor> - 2 ^ 32)" by (simp only: signed_of_int) simp
  also have "\<dots> = \<lfloor>d\<rfloor> - 2 ^ 32" by (rule signed_take_bit_int_eq_self) (use r in simp_all)
  finally have "sint (word_of_int \<lfloor>d\<rfloor> :: 32 word) = \<lfloor>d\<rfloor> - 2 ^ 32" .
  with r show ?thesis by (simp add: timer_delay_def)
qed

lemma armed_timely:
  "timely \<lparr>tm_id = n, tm_ext = i, tm_alarm = a, tm_armed = now, tm_due = now + timer_delay (max 0 (al_time a - of_int now))\<rparr>"
proof (cases "al_time a - of_int now < 2 ^ 31")
  case True
  then have "timer_delay (max 0 (al_time a - of_int now)) = \<lfloor>max 0 (al_time a - of_int now)\<rfloor>"
    by (intro timer_delay_short) auto
  then show ?thesis by (simp add: timely_def) linarith
qed (simp add: timely_def)

text \<open>
  The entries of all tables, by extension and name. Away from the entries \<open>K\<close>, which have no timer,
  every entry has its pending timer, every pending timer belongs to an entry, and timers are timely.
\<close>

type_synonym live_alarms = "string \<times> string \<Rightarrow> (nat \<times> alarm) option"

definition live_entries :: "alarms \<Rightarrow> live_alarms" where
  "live_entries s k = map_of (table_of s (fst k)) (snd k)"

definition timer_key :: "timer \<Rightarrow> string \<times> string" where
  "timer_key t = (tm_ext t, al_name (tm_alarm t))"

definition exact_view :: "timer list \<Rightarrow> live_alarms \<Rightarrow> nat \<Rightarrow> (string \<times> string) set \<Rightarrow> bool" where
  "exact_view T L nx K \<longleftrightarrow>
     distinct (map tm_id T)
     \<and> (\<forall>t \<in> set T. tm_id t < nx \<and> timely t \<and> timer_key t \<notin> K
          \<and> L (timer_key t) = Some (tm_id t, tm_alarm t))
     \<and> (\<forall>k n a. L k = Some (n, a) \<longrightarrow> snd k = al_name a
          \<and> (k \<notin> K \<longrightarrow> (\<exists>t \<in> set T. tm_id t = n \<and> timer_key t = k \<and> tm_alarm t = a)))"

definition alarms_exact :: "alarms \<Rightarrow> bool" where
  "alarms_exact s \<longleftrightarrow> exact_view (ar_timers s) (live_entries s) (ar_next s) {}"

lemma view_same_timer:
  "exact_view T L nx K \<Longrightarrow> t \<in> set T \<Longrightarrow> u \<in> set T \<Longrightarrow> tm_id t = tm_id u \<Longrightarrow> t = u"
  by (simp add: exact_view_def distinct_map inj_on_def)

lemma view_timer:
  "exact_view T L nx K \<Longrightarrow> t \<in> set T \<Longrightarrow> tm_id t < nx \<and> timely t \<and> timer_key t \<notin> K
     \<and> L (timer_key t) = Some (tm_id t, tm_alarm t)"
  by (simp add: exact_view_def)

lemma view_entry:
  assumes "exact_view T L nx K" "L k = Some (n, a)" "k \<notin> K"
  obtains t where "t \<in> set T" "tm_id t = n" "timer_key t = k" "tm_alarm t = a"
  using assms unfolding exact_view_def by blast

lemma view_name: "exact_view T L nx K \<Longrightarrow> L k = Some (n, a) \<Longrightarrow> snd k = al_name a"
  unfolding exact_view_def by blast

lemma view_absent:
  assumes "exact_view T L nx {}" "L k = None"
  shows "exact_view T L nx {k}"
proof -
  have "timer_key t \<noteq> k" if "t \<in> set T" for t
    using view_timer [OF assms(1) that] assms(2) by auto
  then show ?thesis using assms(1) by (simp add: exact_view_def)
qed

lemma view_clear:
  assumes ex: "exact_view T L nx {}" and ids: "ids = {n. \<exists>k \<in> K. \<exists>a. L k = Some (n, a)}"
  shows "exact_view (filter (\<lambda>t. tm_id t \<notin> ids) T) L nx K"
proof -
  have keep: "tm_id t \<in> ids \<longleftrightarrow> timer_key t \<in> K" if t: "t \<in> set T" for t
  proof
    assume "tm_id t \<in> ids"
    then obtain k a where k: "k \<in> K" "L k = Some (tm_id t, a)" unfolding ids by blast
    obtain u where "u \<in> set T" "tm_id u = tm_id t" "timer_key u = k"
      using view_entry [OF ex k(2)] by blast
    then show "timer_key t \<in> K" using view_same_timer [OF ex t] k(1) by metis
  next
    assume "timer_key t \<in> K"
    then show "tm_id t \<in> ids" using view_timer [OF ex t] unfolding ids by blast
  qed
  have "\<exists>t \<in> set (filter (\<lambda>t. tm_id t \<notin> ids) T). tm_id t = n \<and> timer_key t = k \<and> tm_alarm t = a"
    if e: "L k = Some (n, a)" "k \<notin> K" for k n a
  proof -
    obtain t where t: "t \<in> set T" "tm_id t = n" "timer_key t = k" "tm_alarm t = a"
      using view_entry [OF ex e(1)] by blast
    then have "t \<in> set (filter (\<lambda>t. tm_id t \<notin> ids) T)" using keep [of t] e(2) by auto
    with t show ?thesis by blast
  qed
  then show ?thesis
    using ex keep view_name [OF ex] unfolding exact_view_def
    by (auto simp add: distinct_map_filter)
qed

lemma view_arm:
  assumes ex: "exact_view T L nx {timer_key t}" and t: "tm_id t = nx" "timely t"
  shows "exact_view (T @ [t]) (L(timer_key t \<mapsto> (nx, tm_alarm t))) (nx + 1) {}"
proof -
  have old: "tm_id u < nx" "timer_key u \<noteq> timer_key t" if "u \<in> set T" for u
    using view_timer [OF ex that] by auto
  have "\<exists>u \<in> set (T @ [t]). tm_id u = n \<and> timer_key u = k \<and> tm_alarm u = a"
    if "(L(timer_key t \<mapsto> (nx, tm_alarm t))) k = Some (n, a)" for k n a
  proof (cases "k = timer_key t")
    case True
    then show ?thesis using that t by simp
  next
    case False
    then have "L k = Some (n, a)" using that by simp
    then obtain u where "u \<in> set T" "tm_id u = n" "timer_key u = k" "tm_alarm u = a"
      using view_entry [OF ex] False by blast
    then show ?thesis by auto
  qed
  moreover have "snd k = al_name a" if "(L(timer_key t \<mapsto> (nx, tm_alarm t))) k = Some (n, a)" for k n a
    using that view_name [OF ex, of k n a] by (auto simp: timer_key_def split: if_splits)
  moreover have "distinct (map tm_id (T @ [t]))"
    using ex old(1) t(1) by (fastforce simp: exact_view_def)
  moreover have "tm_id u < nx + 1 \<and> timely u
      \<and> (L(timer_key t \<mapsto> (nx, tm_alarm t))) (timer_key u) = Some (tm_id u, tm_alarm u)"
    if "u \<in> set (T @ [t])" for u
    using that t old view_timer [OF ex, of u] by fastforce
  ultimately show ?thesis unfolding exact_view_def by blast
qed

lemma view_delete:
  assumes ex: "exact_view T L nx K" and L': "\<And>k. L' k = (if k \<in> K then None else L k)"
  shows "exact_view T L' nx {}"
proof -
  have "snd k = al_name a \<and> (\<exists>t \<in> set T. tm_id t = n \<and> timer_key t = k \<and> tm_alarm t = a)"
    if "L' k = Some (n, a)" for k n a
  proof -
    have k: "L k = Some (n, a)" "k \<notin> K" using that by (auto simp: L' split: if_splits)
    show ?thesis using view_entry [OF ex k] view_name [OF ex k(1)] by blast
  qed
  moreover have "L' (timer_key t) = Some (tm_id t, tm_alarm t)" if "t \<in> set T" for t
    using view_timer [OF ex that] by (simp add: L')
  ultimately show ?thesis using ex unfolding exact_view_def by blast
qed

text \<open>What the operations do to the entries and the timers.\<close>

lemma table_of_set [simp]: "table_of (set_table i t s) j = (if j = i then t else table_of s j)"
  by (simp add: table_of_def set_table_def)

lemma table_of_simps [simp]:
  "table_of (s\<lparr>ar_timers := x\<rparr>) j = table_of s j"
  "table_of (s\<lparr>ar_timers := x, ar_next := n\<rparr>) j = table_of s j"
  "table_of (s\<lparr>ar_store := y\<rparr>) j = table_of s j"
  "table_of (s\<lparr>ar_fired := z\<rparr>) j = table_of s j"
  "table_of (s\<lparr>ar_hydrated := b\<rparr>) j = table_of s j"
  "table_of (s\<lparr>ar_read := rd\<rparr>) j = table_of s j"
  "table_of (clear_timers ids s) j = table_of s j"
  by (simp_all add: table_of_def clear_timers_def)

lemma set_table_simps [simp]:
  "ar_timers (set_table i t s) = ar_timers s" "ar_next (set_table i t s) = ar_next s"
  "ar_hydrated (set_table i t s) = ar_hydrated s" "ar_store (set_table i t s) = ar_store s"
  by (simp_all add: set_table_def)

lemma clear_timers_simps [simp]:
  "ar_timers (clear_timers ids s) = filter (\<lambda>t. tm_id t \<notin> set ids) (ar_timers s)"
  "ar_next (clear_timers ids s) = ar_next s" "ar_exts (clear_timers ids s) = ar_exts s"
  by (simp_all add: clear_timers_def)

lemma live_entries_simps [simp]:
  "live_entries (s\<lparr>ar_timers := x\<rparr>) = live_entries s" "live_entries (clear_timers ids s) = live_entries s"
  "live_entries (s\<lparr>ar_fired := z\<rparr>) = live_entries s" "live_entries (s\<lparr>ar_store := y\<rparr>) = live_entries s" "live_entries (s\<lparr>ar_hydrated := b\<rparr>) = live_entries s" "live_entries (s\<lparr>ar_read := rd\<rparr>) = live_entries s"
  by (simp_all add: live_entries_def fun_eq_iff)

lemma alarms_exact_simps [simp]:
  "alarms_exact (persist_ext i s) \<longleftrightarrow> alarms_exact s"
  "alarms_exact (s\<lparr>ar_fired := z\<rparr>) \<longleftrightarrow> alarms_exact s"
  "alarms_exact (s\<lparr>ar_hydrated := b\<rparr>) \<longleftrightarrow> alarms_exact s"
  "alarms_exact (s\<lparr>ar_read := rd\<rparr>) \<longleftrightarrow> alarms_exact s"
  by (simp_all add: alarms_exact_def persist_ext_def)

lemma exact_arm:
  assumes "exact_view (ar_timers s) (live_entries s) (ar_next s) {(i, al_name a)}"
  shows "alarms_exact (arm_alarm now i a s)"
proof -
  let ?t = "\<lparr>tm_id = ar_next s, tm_ext = i, tm_alarm = a, tm_armed = now,
        tm_due = now + timer_delay (max 0 (al_time a - of_int now))\<rparr>"
  have "live_entries (arm_alarm now i a s) = (live_entries s)((i, al_name a) \<mapsto> (ar_next s, a))"
    by (auto simp: live_entries_def fun_eq_iff arm_alarm_def Let_def)
  moreover have "ar_timers (arm_alarm now i a s) = ar_timers s @ [?t]" "ar_next (arm_alarm now i a s) = ar_next s + 1"
    by (simp_all add: arm_alarm_def Let_def)
  moreover have "timer_key ?t = (i, al_name a)" by (simp add: timer_key_def)
  ultimately show ?thesis
    using view_arm [of "ar_timers s" "live_entries s" "ar_next s" ?t] assms armed_timely by (simp add: alarms_exact_def)
qed

lemma exact_clear_one:
  assumes "alarms_exact s" "map_of (table_of s i) name = Some (n, a)"
  shows "exact_view (filter (\<lambda>t. tm_id t \<noteq> n) (ar_timers s)) (live_entries s) (ar_next s) {(i, name)}"
  using view_clear [of "ar_timers s" "live_entries s" "ar_next s" "{n}" "{(i, name)}"] assms
  by (simp add: alarms_exact_def live_entries_def)

lemma exact_delete:
  assumes "exact_view T (live_entries s) nx {(i, name)}" "ar_timers s = T" "ar_next s = nx"
  shows "alarms_exact (set_table i (AList.delete name (table_of s i)) s)"
proof -
  have "live_entries (set_table i (AList.delete name (table_of s i)) s) k = (if k \<in> {(i, name)} then None else live_entries s k)" for k
    by (cases k) (auto simp: live_entries_def)
  from view_delete [OF assms(1) this] show ?thesis using assms(2,3) by (simp add: alarms_exact_def)
qed

lemma exact_create: "alarms_exact s \<Longrightarrow> alarms_exact (alarm_create now i name info s)"
proof -
  assume ex: "alarms_exact s"
  let ?a = "\<lparr>al_name = name, al_time = alarm_when now info, al_period = positive_period (ai_period info)\<rparr>"
  show ?thesis
  proof (cases "map_of (table_of s i) name")
    case None
    then have "exact_view (ar_timers s) (live_entries s) (ar_next s) {(i, name)}"
      using ex view_absent by (simp add: alarms_exact_def live_entries_def)
    then show ?thesis
      using exact_arm [of "clear_timers [] s" i ?a now] None by (simp add: alarm_create_def Let_def)
  next
    case (Some e)
    obtain n a where e: "e = (n, a)" by (cases e)
    show ?thesis
      using exact_arm [of "clear_timers [n] s" i ?a now] exact_clear_one [OF ex Some [unfolded e]] Some
      by (simp add: alarm_create_def Let_def e)
  qed
qed

lemma exact_fire:
  assumes ex: "alarms_exact s" and t: "t \<in> set (ar_timers s)" and f: "alarm_fire now t s = Some s'"
  shows "alarms_exact s'"
proof -
  let ?i = "tm_ext t" and ?a = "tm_alarm t"
  let ?s0 = "s\<lparr>ar_timers := filter (\<lambda>x. tm_id x \<noteq> tm_id t) (ar_timers s)\<rparr>"
  have e: "map_of (table_of s ?i) (al_name ?a) = Some (tm_id t, ?a)"
    using view_timer [OF ex [unfolded alarms_exact_def] t] by (simp add: live_entries_def timer_key_def)
  then have alive: "map_of (ar_exts s) ?i \<noteq> None"
    by (auto simp: table_of_def split: option.splits)
  note but = exact_clear_one [OF ex e]
  have del: "alarms_exact (set_table ?i (AList.delete (al_name ?a) (table_of ?s0 ?i)) ?s0)"
    by (rule exact_delete [OF _ refl refl]) (use but in simp)
  have arm: "alarms_exact (arm_alarm now ?i (?a\<lparr>al_time := w\<rparr>) ?s0)" for w
    by (rule exact_arm) (use but in simp)
  show ?thesis
    using f alive del arm by (auto simp: alarm_fire_def Let_def split: option.splits)
qed

lemma exact_clear_table:
  assumes "alarms_exact s" "omap_wf (table_of s i)"
  shows "exact_view (filter (\<lambda>t. tm_id t \<notin> set (map (fst \<circ> snd) (table_of s i))) (ar_timers s)) (live_entries s) (ar_next s)
    ({i} \<times> UNIV)"
proof (rule view_clear)
  show "exact_view (ar_timers s) (live_entries s) (ar_next s) {}" using assms(1) by (simp add: alarms_exact_def)
  show "set (map (fst \<circ> snd) (table_of s i)) = {n. \<exists>k \<in> {i} \<times> UNIV. \<exists>a. live_entries s k = Some (n, a)}"
    using assms(2) by (force simp: live_entries_def omap_wf_def image_iff dest: map_of_SomeD)
qed

definition tables_wf :: "alarms \<Rightarrow> bool" where
  "tables_wf s \<longleftrightarrow> (\<forall>i. omap_wf (table_of s i))"

lemma exact_clear_all:
  assumes "alarms_exact s" "tables_wf s"
  shows "alarms_exact (snd (alarm_clear_all i s))"
proof (cases "table_of s i = []")
  case False
  let ?ids = "map (fst \<circ> snd) (table_of s i)"
  have L: "live_entries (set_table i [] (clear_timers ?ids s)) k = (if k \<in> {i} \<times> UNIV then None else live_entries s k)" for k
    by (cases k) (auto simp: live_entries_def)
  have "exact_view (ar_timers (clear_timers ?ids s)) (live_entries s) (ar_next s) ({i} \<times> UNIV)"
    using exact_clear_table assms by (simp add: tables_wf_def)
  from view_delete [OF this L] show ?thesis
    using False by (simp add: alarm_clear_all_def alarms_exact_def persist_ext_def)
qed (use assms in \<open>simp add: alarm_clear_all_def\<close>)

lemma exact_clear:
  assumes "alarms_exact s" "tables_wf s"
  shows "alarms_exact (snd (alarm_clear i name s))"
proof (cases "map_of (ar_exts s) i")
  case (Some tab)
  then have tab: "table_of s i = tab" by (simp add: table_of_def)
  have "alarms_exact (set_table i (AList.delete n tab) (clear_timers [t] s))" if "map_of tab n = Some (t, a)" for n t a
    using exact_delete [of _ "clear_timers [t] s" _ i n] exact_clear_one [OF assms(1), of i n t a] that
    by (simp add: tab)
  then show ?thesis
    using assms Some exact_clear_all by (auto simp: alarm_clear_def split: option.splits prod.splits)
qed (use assms in \<open>simp add: alarm_clear_def\<close>)

lemma exact_drop:
  assumes "alarms_exact s" "tables_wf s"
  shows "alarms_exact (alarm_drop i s)"
proof (cases "map_of (ar_exts s) i")
  case (Some tab)
  then have tab: "table_of s i = tab" by (simp add: table_of_def)
  let ?s = "(clear_timers (map (fst \<circ> snd) tab) s)\<lparr>ar_exts := AList.delete i (ar_exts s)\<rparr>"
  have L: "live_entries ?s k = (if k \<in> {i} \<times> UNIV then None else live_entries s k)" for k
    by (cases k) (auto simp: live_entries_def table_of_def)
  have "exact_view (ar_timers ?s) (live_entries s) (ar_next s) ({i} \<times> UNIV)"
    using exact_clear_table [OF assms(1), of i] assms(2) unfolding tables_wf_def tab [symmetric] by simp
  from view_delete [OF this L] show ?thesis
    using Some by (simp add: alarm_drop_def alarms_exact_def persist_ext_def)
qed (use assms in \<open>simp add: alarm_drop_def\<close>)

lemma exact_arm_new:
  "alarms_exact s \<Longrightarrow> \<not> omap_has (table_of s i) (al_name a) \<Longrightarrow> alarms_exact (arm_alarm now i a s)"
proof -
  assume ex: "alarms_exact s" and "\<not> omap_has (table_of s i) (al_name a)"
  then have "live_entries s (i, al_name a) = None" by (simp only: omap_has_def live_entries_def not_not fst_conv snd_conv)
  then show ?thesis
    using ex view_absent by (intro exact_arm) (simp add: alarms_exact_def)
qed

lemma exact_restore: "alarms_exact s \<Longrightarrow> alarms_exact (snd (restore_records now i vs s))"
  by (induction now i vs s rule: restore_records.induct) (auto simp: exact_arm_new split: option.splits)

lemma exact_same_table: "alarms_exact (set_table i (table_of s i) s) \<longleftrightarrow> alarms_exact s"
proof -
  have "live_entries (set_table i (table_of s i) s) = live_entries s" by (auto simp: live_entries_def fun_eq_iff)
  then show ?thesis by (simp add: alarms_exact_def)
qed

lemma exact_hydrate: "alarms_exact s \<Longrightarrow> alarms_exact (hydrate_key now s)"
proof -
  assume "alarms_exact s"
  then have "alarms_exact (set_table i (table_of s i) (s\<lparr>ar_read := None\<rparr>))" for i
    using exact_same_table [of i "s\<lparr>ar_read := None\<rparr>"] by simp
  then have "alarms_exact (snd (restore_records now i vs (set_table i (table_of s i) (s\<lparr>ar_read := None\<rparr>))))" for i vs
    by (rule exact_restore)
  then show ?thesis using \<open>alarms_exact s\<close> unfolding hydrate_key_def
    by (auto split: option.splits stored_alarms.splits prod.splits) (metis snd_conv)+
qed

lemma tables_wf_simps [simp]:
  "tables_wf (persist_ext i s) \<longleftrightarrow> tables_wf s" "tables_wf (clear_timers ids s) \<longleftrightarrow> tables_wf s"
  "tables_wf (s\<lparr>ar_fired := z\<rparr>) \<longleftrightarrow> tables_wf s" "tables_wf (s\<lparr>ar_timers := x\<rparr>) \<longleftrightarrow> tables_wf s"
  "tables_wf (s\<lparr>ar_hydrated := b\<rparr>) \<longleftrightarrow> tables_wf s" "tables_wf (s\<lparr>ar_read := rd\<rparr>) \<longleftrightarrow> tables_wf s"
  by (simp_all add: tables_wf_def persist_ext_def)

lemma tables_wf_set: "tables_wf s \<Longrightarrow> omap_wf t \<Longrightarrow> tables_wf (set_table i t s)"
  by (simp add: tables_wf_def)

lemma tables_wf_arm: "tables_wf s \<Longrightarrow> tables_wf (arm_alarm now i a s)"
  by (simp add: tables_wf_def arm_alarm_def Let_def)

lemma tables_wf_delete: "tables_wf s \<Longrightarrow> tables_wf (s\<lparr>ar_exts := AList.delete i (ar_exts s)\<rparr>)"
  by (simp add: tables_wf_def table_of_def)

lemma tables_wf_restore: "tables_wf s \<Longrightarrow> tables_wf (snd (restore_records now i vs s))"
  by (induction now i vs s rule: restore_records.induct) (auto simp: tables_wf_arm split: option.splits)

lemma tables_wf_clear_all: "tables_wf s \<Longrightarrow> tables_wf (snd (alarm_clear_all i s))"
  by (simp add: alarm_clear_all_def tables_wf_set)

lemma tables_wf_get: "tables_wf s \<Longrightarrow> map_of (ar_exts s) i = Some tab \<Longrightarrow> omap_wf tab"
  unfolding tables_wf_def table_of_def by (metis option.simps(5))

lemma tables_wf_clear: "tables_wf s \<Longrightarrow> tables_wf (snd (alarm_clear i name s))"
  by (auto simp: alarm_clear_def tables_wf_clear_all tables_wf_set tables_wf_get split: option.splits prod.splits)

lemma tables_wf_drop: "tables_wf s \<Longrightarrow> tables_wf (alarm_drop i s)"
proof -
  assume "tables_wf s"
  then have "tables_wf ((clear_timers ids s)\<lparr>ar_exts := AList.delete i (ar_exts s)\<rparr>)" for ids
    using tables_wf_delete [of "clear_timers ids s" i] by simp
  with \<open>tables_wf s\<close> show ?thesis by (simp add: alarm_drop_def split: option.splits)
qed

lemma tables_wf_create: "tables_wf s \<Longrightarrow> tables_wf (alarm_create now i name info s)"
  by (simp add: alarm_create_def Let_def tables_wf_arm)

lemma tables_wf_fire: "tables_wf s \<Longrightarrow> alarm_fire now t s = Some s' \<Longrightarrow> tables_wf s'"
  by (auto simp: alarm_fire_def Let_def tables_wf_arm tables_wf_set split: if_splits option.splits)
    (simp add: tables_wf_def)

lemma tables_wf_hydrate: "tables_wf s \<Longrightarrow> tables_wf (hydrate_key now s)"
proof -
  assume "tables_wf s"
  then have "tables_wf (set_table i (table_of s i) (s\<lparr>ar_read := None\<rparr>))" for i by (simp add: tables_wf_def)
  then have "tables_wf (snd (restore_records now i vs (set_table i (table_of s i) (s\<lparr>ar_read := None\<rparr>))))" for i vs
    by (rule tables_wf_restore)
  then show ?thesis
    using \<open>tables_wf s\<close> unfolding hydrate_key_def
    by (auto split: option.splits stored_alarms.splits prod.splits) (metis snd_conv)+
qed

lemma alarm_step_ok:
  assumes "alarms_exact s" "tables_wf s" "alarm_step now e s = Some s'"
  shows "alarms_exact s' \<and> tables_wf s'"
proof (cases e)
  case (TimerFires n)
  then show ?thesis
    using assms exact_fire tables_wf_fire
    by (auto simp: find_Some_iff split: option.splits dest!: nth_mem)
next
  case WorkerRestart
  then show ?thesis
    using assms by (auto simp: alarms_exact_def exact_view_def live_entries_def table_of_def tables_wf_def)
qed (use assms in \<open>auto simp: exact_create tables_wf_create exact_clear tables_wf_clear exact_clear_all
      tables_wf_clear_all exact_drop tables_wf_drop exact_hydrate tables_wf_hydrate hydrate_read_def\<close>)

lemma alarm_run_ok:
  "alarm_run es s = Some s' \<Longrightarrow> alarms_exact s \<Longrightarrow> tables_wf s \<Longrightarrow> alarms_exact s' \<and> tables_wf s'"
  by (induction es s rule: alarm_run.induct) (auto split: option.splits dest: alarm_step_ok)

lemma no_alarms_ok: "alarms_exact no_alarms" "tables_wf no_alarms"
  by (simp_all add: no_alarms_def alarms_exact_def exact_view_def live_entries_def table_of_def tables_wf_def)

text \<open>C9. After any sequence of calls, timer events, restorations and restarts every live alarm has exactly
  one pending timer, that timer carries the alarm, and no timer is pending for anything else: no alarm
  is armed twice or fires after it was cleared. A timer armed less than \<open>2^31\<close> milliseconds ahead is not
  due a full millisecond before the alarm's time.
\<close>

theorem alarm_timers_exact:
  assumes "alarm_run es no_alarms = Some s"
  shows "(\<forall>i name a. alarm_get s i name = Some a \<longrightarrow>
      (\<exists>!t. t \<in> set (ar_timers s) \<and> tm_ext t = i \<and> al_name (tm_alarm t) = name)
      \<and> (\<exists>t \<in> set (ar_timers s). tm_ext t = i \<and> tm_alarm t = a))
    \<and> (\<forall>t \<in> set (ar_timers s). alarm_get s (tm_ext t) (al_name (tm_alarm t)) = Some (tm_alarm t)
        \<and> (al_time (tm_alarm t) - of_int (tm_armed t) < 2 ^ 31 \<longrightarrow> al_time (tm_alarm t) < of_int (tm_due t) + 1))"
proof -
  have ex: "exact_view (ar_timers s) (live_entries s) (ar_next s) {}"
    using alarm_run_ok [OF assms] no_alarms_ok by (simp add: alarms_exact_def)
  have fwd: "(\<exists>!t. t \<in> set (ar_timers s) \<and> tm_ext t = i \<and> al_name (tm_alarm t) = name)
      \<and> (\<exists>t \<in> set (ar_timers s). tm_ext t = i \<and> tm_alarm t = a)"
    if g: "alarm_get s i name = Some a" for i name a
  proof -
    obtain n where L: "live_entries s (i, name) = Some (n, a)"
      using g by (auto simp: alarm_get_def live_entries_def)
    obtain t where t: "t \<in> set (ar_timers s)" "tm_id t = n" "timer_key t = (i, name)" "tm_alarm t = a"
      using view_entry [OF ex L] by blast
    have uniq: "u = t" if u: "u \<in> set (ar_timers s)" "tm_ext u = i" "al_name (tm_alarm u) = name" for u
    proof -
      have "live_entries s (timer_key u) = Some (tm_id u, tm_alarm u)" using view_timer [OF ex u(1)] by blast
      moreover have "timer_key u = (i, name)" using u(2,3) by (simp only: timer_key_def)
      ultimately have "tm_id u = tm_id t" using L t(2) by (simp only: option.inject prod.inject)
      then show ?thesis by (rule view_same_timer [OF ex u(1) t(1)])
    qed
    have "tm_ext t = i" "al_name (tm_alarm t) = name" using t(3) by (simp_all add: timer_key_def)
    then show ?thesis
      using t(1,4) uniq by (intro conjI ex1I [of _ t] bexI [of _ t]) blast+
  qed
  have "alarm_get s (tm_ext t) (al_name (tm_alarm t)) = Some (tm_alarm t)
      \<and> (al_time (tm_alarm t) - of_int (tm_armed t) < 2 ^ 31 \<longrightarrow> al_time (tm_alarm t) < of_int (tm_due t) + 1)"
    if "t \<in> set (ar_timers s)" for t
    using view_timer [OF ex that] by (simp add: alarm_get_def live_entries_def timer_key_def timely_def)
  with fwd show ?thesis by blast
qed

text \<open>An alarm between \<open>2^31\<close> and \<open>2^32\<close> milliseconds ahead (25 to 50 days) is due at once.\<close>

lemma long_alarm_due_now:
  assumes "2 ^ 31 \<le> al_time a - of_int now" "al_time a - of_int now < 2 ^ 32"
  shows "tm_due (last (ar_timers (arm_alarm now i a s))) = now"
  using timer_delay_long [OF assms] assms(1) by (simp add: arm_alarm_def Let_def set_table_def max_def)

section \<open>Periodic alarms\<close>

lemma round_even_near: "\<bar>of_int (round_even x) - x\<bar> \<le> 1 / 2"
proof -
  have "x < of_int \<lfloor>x\<rfloor> + 1" "of_int \<lfloor>x\<rfloor> \<le> x" by linarith+
  then show ?thesis by (auto simp: round_even_def Let_def)
qed

lemma round_even_ge_int: "of_int k \<le> x \<Longrightarrow> k \<le> round_even x"
proof -
  assume "of_int k \<le> x"
  then have "k \<le> \<lfloor>x\<rfloor>" by (simp add: le_floor_iff)
  then show ?thesis by (auto simp: round_even_def Let_def)
qed

lemma leading_bit_bounds:
  assumes "0 < x"
  shows "2 powi leading_bit x \<le> x \<and> x < 2 powi (leading_bit x + 1)"
proof -
  obtain p q where pq: "quotient_of x = (p, q)" by fastforce
  then have x: "x = of_int p / of_int q" and q: "0 < q"
    by (simp_all add: quotient_of_div quotient_of_denom_pos)
  then have p: "0 < p" using assms by (simp add: zero_less_divide_iff)
  have bits: "2 powi (bitlen n - 1) \<le> (of_int n :: rat)" "(of_int n :: rat) < 2 powi bitlen n" if "0 < n" for n :: int
  proof -
    have b: "2 ^ nat (bitlen n - 1) \<le> n" "n < 2 ^ nat (bitlen n)" using bitlen_bounds [OF that] by auto
    have "0 < bitlen n" using that bitlen_nonneg [of n] by (simp add: bitlen_eq_zero_iff less_le)
    then have "(2 powi (bitlen n - 1) :: rat) = of_int (2 ^ nat (bitlen n - 1))" "(2 powi bitlen n :: rat) = of_int (2 ^ nat (bitlen n))"
      by (simp_all add: power_int_def)
    with b show "2 powi (bitlen n - 1) \<le> (of_int n :: rat)" "(of_int n :: rat) < 2 powi bitlen n"
      by (simp_all only: of_int_le_iff of_int_less_iff)
  qed
  let ?e = "bitlen p - bitlen q"
  have "x < 2 powi bitlen p / 2 powi (bitlen q - 1)" unfolding x
    using bits(2) [OF p] bits(1) [OF q] p q by (intro frac_less) simp_all
  also have "\<dots> = 2 powi (?e + 1)" by (simp flip: power_int_diff) (simp add: algebra_simps)
  finally have up: "x < 2 powi (?e + 1)" .
  have "2 powi (?e - 1) = 2 powi (bitlen p - 1) / (2 powi bitlen q :: rat)" by (simp flip: power_int_diff) (simp add: algebra_simps)
  also have "\<dots> < x" unfolding x
    using bits(1) [OF p] bits(2) [OF q] q by (intro frac_less2) simp_all
  finally have low: "2 powi (?e - 1) < x" .
  show ?thesis using up low by (auto simp: leading_bit_def pq Let_def)
qed

lemma last_place_pos [simp]: "0 < last_place x"
  by (simp add: last_place_def)

lemma last_place_nonzero [simp]: "last_place x \<noteq> 0"
  using last_place_pos [of x] by linarith

lemma round_double_near: "\<bar>round_double x - x\<bar> \<le> last_place x / 2"
proof (cases "x = 0")
  case False
  let ?u = "last_place x"
  have u: "0 < ?u" by simp
  have "round_double x - x = (of_int (round_even (x / ?u)) - x / ?u) * ?u"
    using False u by (simp add: round_double_def left_diff_distrib)
  then have "\<bar>round_double x - x\<bar> = \<bar>of_int (round_even (x / ?u)) - x / ?u\<bar> * ?u" by (simp only: abs_mult abs_of_pos [OF u])
  also have "\<dots> \<le> 1 / 2 * ?u" by (rule mult_right_mono [OF round_even_near]) (rule less_imp_le [OF u])
  finally show ?thesis by simp
qed (simp add: round_double_def less_imp_le)

lemma last_place_small:
  assumes "\<bar>x\<bar> < 2 ^ 41" "x \<noteq> 0"
  shows "last_place x \<le> 1 / 4096"
proof -
  have "2 powi leading_bit \<bar>x\<bar> \<le> \<bar>x\<bar>" using leading_bit_bounds [of "\<bar>x\<bar>"] assms(2) by simp
  also have "\<dots> < 2 powi 41" using assms(1) by simp
  finally have "(2 :: rat) powi leading_bit \<bar>x\<bar> < 2 powi 41" .
  then have "leading_bit \<bar>x\<bar> < 41" by (metis not_less one_le_numeral power_int_increasing)
  then have "last_place x \<le> 2 powi (- 12)" unfolding last_place_def by (intro power_int_increasing) auto
  then show ?thesis by (simp add: power_int_minus)
qed

lemma round_double_large:
  assumes "2 ^ 41 \<le> x"
  shows "2 ^ 41 \<le> round_double x"
proof -
  let ?e = "leading_bit x"
  have x: "0 < x" using assms by (rule less_le_trans [rotated]) simp
  then have lb: "2 powi ?e \<le> x" "x < 2 powi (?e + 1)" using leading_bit_bounds by blast+
  have "(2 :: rat) powi 41 \<le> x" using assms by simp
  also note lb(2)
  finally have "(2 :: rat) powi 41 < 2 powi (?e + 1)" .
  then have "41 < ?e + 1" by (metis not_less one_le_numeral power_int_increasing)
  then have e: "41 \<le> ?e" by simp
  have u: "last_place x = 2 powi (?e - 52)" using e x by (simp add: last_place_def)
  have whole: "of_int (2 ^ 52) * last_place x = 2 powi ?e" unfolding u by (simp add: power_int_diff)
  then have "of_int (2 ^ 52) \<le> x / last_place x" using lb(1) by (simp add: pos_le_divide_eq)
  then have "2 ^ 52 \<le> round_even (x / last_place x)" by (rule round_even_ge_int)
  then have "of_int (2 ^ 52) \<le> (of_int (round_even (x / last_place x)) :: rat)" by (simp only: of_int_le_iff)
  then have "of_int (2 ^ 52) * last_place x \<le> of_int (round_even (x / last_place x)) * last_place x"
    by (rule mult_right_mono) (simp add: less_imp_le)
  also have "\<dots> = round_double x" using x by (simp add: round_double_def)
  finally have "2 powi ?e \<le> round_double x" unfolding whole .
  moreover have "(2 :: rat) powi 41 \<le> 2 powi ?e" using e by (intro power_int_increasing) simp_all
  ultimately show ?thesis by simp
qed

text \<open>Up to \<open>2^41\<close> the rounding takes away less than half of a step of at least \<open>2^-12\<close>.\<close>

lemma epoch_add_advances:
  assumes "- (2 ^ 41) \<le> t" "t < 2 ^ 41" "1 / 4096 \<le> step"
  shows "t + 1 / 8192 \<le> epoch_add t step \<or> 2 ^ 41 \<le> epoch_add t step"
proof (cases "t + step < 2 ^ 41")
  case True
  then have b: "\<bar>t + step\<bar> < 2 ^ 41" using assms by linarith
  show ?thesis
  proof (cases "t + step = 0")
    case False
    then have "\<bar>round_double (t + step) - (t + step)\<bar> \<le> 1 / 8192"
      using round_double_near [of "t + step"] last_place_small [OF b] by linarith
    then show ?thesis using assms(3) unfolding epoch_add_def by linarith
  qed (use assms in \<open>simp add: epoch_add_def round_double_def\<close>)
next
  case False
  then have "2 ^ 41 \<le> epoch_add t step" unfolding epoch_add_def by (intro round_double_large) linarith
  then show ?thesis by blast
qed

text \<open>A period of at least \<open>2^-12\<close> milliseconds makes the loop advance, and so end.\<close>

lemma next_slot_later: "of_int now < t \<Longrightarrow> next_slot step now t = Some t"
  by (subst next_slot.simps) simp

lemma next_slot_returns:
  assumes "1 / 4096 \<le> step" "now < 2 ^ 41" "- (2 ^ 41) \<le> t"
  shows "\<exists>w. next_slot step now t = Some w \<and> of_int now < w"
  using assms(3)
proof (induction "nat \<lceil>(of_int now - t) * 8192\<rceil>" arbitrary: t rule: less_induct)
  case less
  have "of_int now < (of_int (2 ^ 41) :: rat)" using assms(2) by (simp only: of_int_less_iff)
  then have now: "of_int now < (2 ^ 41 :: rat)" by simp
  show ?case
  proof (cases "t \<le> of_int now")
    case True
    let ?t = "epoch_add t step"
    have step: "next_slot step now t = next_slot step now ?t" using True by (subst next_slot.simps) simp
    show ?thesis
    proof (cases "?t \<le> of_int now")
      case le: True
      then have inc: "t + 1 / 8192 \<le> ?t"
        using epoch_add_advances [OF less.prems _ assms(1)] True now by linarith
      then have "(of_int now - ?t) * 8192 \<le> (of_int now - t) * 8192 - 1" by (simp add: algebra_simps)
      then have "\<lceil>(of_int now - ?t) * 8192\<rceil> \<le> \<lceil>(of_int now - t) * 8192\<rceil> - 1" by linarith
      moreover have "0 < \<lceil>(of_int now - t) * 8192\<rceil>" using inc le by (simp add: zero_less_ceiling)
      ultimately have "nat \<lceil>(of_int now - ?t) * 8192\<rceil> < nat \<lceil>(of_int now - t) * 8192\<rceil>" by linarith
      moreover have "- (2 ^ 41) \<le> ?t" using inc less.prems by linarith
      ultimately show ?thesis using less.hyps step by metis
    qed (use step next_slot_later in \<open>metis not_le\<close>)
  qed (use next_slot_later in \<open>metis not_le\<close>)
qed

lemma next_slot_stuck:
  assumes "epoch_add t step = t" "t \<le> of_int now"
  shows "next_slot step now t = None"
proof -
  have "epoch_add t step = t \<longrightarrow> \<not> t \<le> of_int now" if "next_slot step now t = Some w" for t w
    using that
  proof (rule next_slot.raw_induct [where P = "\<lambda>step now t w. epoch_add t step = t \<longrightarrow> \<not> t \<le> of_int now", rotated])
    fix f step' now' t' w'
    assume IH: "\<And>step now t w. f step now t = Some w \<Longrightarrow> epoch_add t step = t \<longrightarrow> \<not> t \<le> of_int now"
      and eq: "(if t' \<le> of_int now' then f step' now' (epoch_add t' step') else Some t') = Some w'"
    show "epoch_add t' step' = t' \<longrightarrow> \<not> t' \<le> of_int now'"
    proof (intro impI notI)
      assume a: "epoch_add t' step' = t'" "t' \<le> of_int now'"
      then have "f step' now' t' = Some w'" using eq by simp
      from IH [OF this] a show False by simp
    qed
  qed
  then show ?thesis using assms by (cases "next_slot step now t") auto
qed

text \<open>
  Where the rounding absorbs the step, the loop never ends and the worker hangs: a period below half a unit
  in the last place of the time, and every usual period of an alarm that was made for a time far enough in
  the past, which nothing refuses.\<close>

lemma absorbed_period_hangs:
  assumes "al_period (tm_alarm t) = Some p" "epoch_add (al_time (tm_alarm t)) (minutes p) = al_time (tm_alarm t)"
    "al_time (tm_alarm t) \<le> of_int now" "map_of (ar_exts s) (tm_ext t) \<noteq> None"
  shows "alarm_fire now t s = None"
  using assms next_slot_stuck by (simp add: alarm_fire_def Let_def)

lemma tiny_period_absorbed: "epoch_add 1700000000000 (minutes (1 / 1000000000)) = 1700000000000"
  by code_simp

lemma distant_past_absorbed: "epoch_add (- (2 ^ 70)) (minutes 1) = - (2 ^ 70)"
  by code_simp

text \<open>C38. A periodic alarm never hangs the worker while the clock shows less than \<open>2^41\<close> milliseconds (the year
  2039), provided its period is at least \<open>2^-12\<close> milliseconds and its time not more than \<open>2^41\<close> milliseconds
  before the epoch: firing returns, delivers the alarm once, and leaves it armed for a slot in the future.
\<close>

theorem periodic_fire_rearms:
  assumes "al_period (tm_alarm t) = Some p" "1 / 4096 \<le> minutes p" "- (2 ^ 41) \<le> al_time (tm_alarm t)" "now < 2 ^ 41"
    "map_of (ar_exts s) (tm_ext t) \<noteq> None"
  shows "\<exists>s' w. alarm_fire now t s = Some s' \<and> of_int now < w
    \<and> alarm_get s' (tm_ext t) (al_name (tm_alarm t)) = Some ((tm_alarm t)\<lparr>al_time := w\<rparr>)
    \<and> ar_fired s' = ar_fired s @ [(tm_ext t, tm_alarm t)]"
proof -
  let ?t = "al_time (tm_alarm t)"
  have "- (2 ^ 41) \<le> epoch_add ?t (minutes p)"
  proof (cases "?t < 2 ^ 41")
    case True
    then show ?thesis using epoch_add_advances [OF assms(3) True assms(2)] assms(3) by linarith
  next
    case False
    then have "2 ^ 41 \<le> ?t + minutes p" using assms(2) by linarith
    then have "2 ^ 41 \<le> epoch_add ?t (minutes p)" unfolding epoch_add_def by (rule round_double_large)
    then show ?thesis by (rule order_trans [rotated]) simp
  qed
  then obtain w where w: "next_slot (minutes p) now (epoch_add ?t (minutes p)) = Some w" "of_int now < w"
    using next_slot_returns [OF assms(2,4)] by blast
  then show ?thesis
    using assms(1,5)
    by (auto simp: alarm_fire_def Let_def alarm_get_def arm_alarm_def persist_ext_def set_table_def table_of_def)
qed

definition demo_info :: alarm_info where
  "demo_info = \<lparr>ai_when = None, ai_delay = Some 1, ai_period = Some 2\<rparr>"

definition demo_alarm_events :: "(int \<times> alarm_event) list" where
  "demo_alarm_events =
    [(1000, HydrateStart), (1000, Create ''e'' ''a'' demo_info), (1000, Create ''e'' ''b'' demo_info),
     (1000, Create ''e'' ''a'' demo_info), (61000, TimerFires 2), (62000, Clear ''e'' (Some ''b''))]"

theorem alarm_timers_exact_witness:
  "\<exists>s. alarm_run demo_alarm_events no_alarms = Some s \<and> map tm_id (ar_timers s) = [3]
     \<and> (\<exists>!t. t \<in> set (ar_timers s) \<and> tm_ext t = ''e'' \<and> al_name (tm_alarm t) = ''a'')"
proof -
  have sums: "epoch_add 1000 (minutes 1) = 61000" "epoch_add 61000 (minutes 2) = 181000"
    by code_simp+
  note defs = demo_alarm_events_def no_alarms_def demo_info_def alarm_create_def arm_alarm_def clear_timers_def
    persist_ext_def set_table_def table_of_def alarm_when_def positive_period_def Let_def sums
    alarm_fire_def alarm_clear_def alarm_get_all_def next_slot_later timer_delay_short
  have "\<exists>s. alarm_run demo_alarm_events no_alarms = Some s \<and> map tm_id (ar_timers s) = [3]
      \<and> alarm_get s ''e'' ''a'' \<noteq> None"
    by (simp add: defs alarm_get_def)
  then obtain s where s: "alarm_run demo_alarm_events no_alarms = Some s" "map tm_id (ar_timers s) = [3]"
    and some: "alarm_get s ''e'' ''a'' \<noteq> None" by (elim exE conjE)
  from some obtain a where a: "alarm_get s ''e'' ''a'' = Some a" by (rule not_None_eq [THEN iffD1, THEN exE])
  have "\<exists>!t. t \<in> set (ar_timers s) \<and> tm_ext t = ''e'' \<and> al_name (tm_alarm t) = ''a''"
    using conjunct1 [OF alarm_timers_exact [OF s(1)], rule_format, OF a] by (rule conjunct1)
  with s show ?thesis by (intro exI [of _ s] conjI)
qed

lemma one_minute: "minutes 1 = 60000"
  by code_simp

theorem periodic_fire_rearms_witness:
  "\<exists>s' w. alarm_fire 5 \<lparr>tm_id = 0, tm_ext = ''e'', tm_alarm = \<lparr>al_name = [], al_time = 0, al_period = Some 1\<rparr>, tm_armed = 0, tm_due = 0\<rparr>
      (no_alarms\<lparr>ar_exts := [(''e'', [])]\<rparr>) = Some s' \<and> 5 < w \<and> alarm_get s' ''e'' [] = Some \<lparr>al_name = [], al_time = w, al_period = Some 1\<rparr>"
  using periodic_fire_rearms [of "\<lparr>tm_id = 0, tm_ext = ''e'', tm_alarm = \<lparr>al_name = [], al_time = 0, al_period = Some 1\<rparr>, tm_armed = 0, tm_due = 0\<rparr>"
      1 5 "no_alarms\<lparr>ar_exts := [(''e'', [])]\<rparr>"] one_minute
  by force

section \<open>Surviving a restart\<close>

lemma get_all_arm:
  assumes "\<not> omap_has (table_of s i) (al_name a)"
  shows "alarm_get_all (arm_alarm now i a s) i = alarm_get_all s i @ [a]"
  using assms by (simp add: alarm_get_all_def arm_alarm_def Let_def update_new_append)

lemma arm_names:
  "\<not> omap_has (table_of s i) (al_name a) \<Longrightarrow>
   fst ` set (table_of (arm_alarm now i a s) i) = insert (al_name a) (fst ` set (table_of s i))"
  by (simp add: arm_alarm_def Let_def update_new_append)

lemma get_all_restore:
  "distinct (map al_name as) \<Longrightarrow> \<forall>a \<in> set as. al_name a \<notin> fst ` set (table_of s i) \<Longrightarrow>
   alarm_get_all (snd (restore_records now i (map Some as) s)) i = alarm_get_all s i @ filter is_stored_alarm as"
proof (induction as arbitrary: s)
  case (Cons a as)
  have new: "\<not> omap_has (table_of s i) (al_name a)" using Cons.prems(2) by (simp add: omap_has_iff)
  show ?case
  proof (cases "is_stored_alarm a")
    case True
    have "\<forall>b \<in> set as. al_name b \<notin> fst ` set (table_of (arm_alarm now i a s) i)"
      using Cons.prems unfolding arm_names [OF new] by (force simp: image_iff)
    then show ?thesis
      using Cons.IH [of "arm_alarm now i a s"] Cons.prems(1) True new by (simp add: get_all_arm)
  next
    case False
    then show ?thesis using Cons by simp
  qed
qed simp

lemma table_names:
  assumes "alarms_exact s" "tables_wf s"
  shows "distinct (map al_name (alarm_get_all s i))"
proof -
  have "al_name (snd (snd e)) = fst e" if e: "e \<in> set (table_of s i)" for e
  proof -
    have "map_of (table_of s i) (fst e) = Some (snd e)"
      using assms(2) e by (cases e) (auto simp: tables_wf_def omap_wf_def intro: map_of_is_SomeI)
    then have "live_entries s (i, fst e) = Some (fst (snd e), snd (snd e))" by (simp add: live_entries_def)
    from view_name [OF assms(1) [unfolded alarms_exact_def] this] show ?thesis by simp
  qed
  then have "map al_name (alarm_get_all s i) = map fst (table_of s i)"
    by (simp add: alarm_get_all_def)
  then show ?thesis using assms(2) by (simp add: tables_wf_def omap_wf_def)
qed

definition after_restart :: "int \<Rightarrow> string \<Rightarrow> alarms \<Rightarrow> alarms option" where
  "after_restart now i s = alarm_run [(now, WorkerRestart), (now, HydrateStart), (now, HydrateRead i), (now, HydrateKey)] s"

lemma read_after_hydrated:
  "s\<lparr>ar_hydrated := b, ar_read := rd\<rparr> = s\<lparr>ar_read := rd, ar_hydrated := b\<rparr>"
  by (rule alarms.equality) simp_all

lemma restart_restores:
  assumes "distinct (map al_name as)" "map_of (ar_store s) i = Some (Records (map Some as))"
  shows "\<exists>s'. after_restart now i s = Some s' \<and> alarm_get_all s' i = filter is_stored_alarm as"
proof -
  let ?s = "s\<lparr>ar_exts := [], ar_timers := [], ar_read := None, ar_hydrated := True\<rparr>"
  let ?t = "set_table i [] ?s"
  have e: "table_of ?s i = []" by (simp add: table_of_def)
  have g: "alarm_get_all (snd (restore_records now i (map Some as) ?t)) i = filter is_stored_alarm as"
    using get_all_restore [OF assms(1), of ?t i now] by (simp add: alarm_get_all_def)
  have p: "alarm_get_all (persist_ext i x) i = alarm_get_all x i" for x
    by (simp add: alarm_get_all_def persist_ext_def)
  obtain armed x where r: "restore_records now i (map Some as) ?t = (armed, x)" by (cases "restore_records now i (map Some as) ?t")
  have "hydrate_key now (hydrate_read i ?s) = (let (armed, s') = restore_records now i (map Some as) (set_table i (table_of ?s i) ?s)
        in if armed then persist_ext i s' else s')"
    by (simp add: hydrate_key_def hydrate_read_def assms(2) read_after_hydrated)
  then have "hydrate_key now (hydrate_read i ?s) = (if armed then persist_ext i x else x)"
    unfolding e r by simp
  then have "alarm_get_all (hydrate_key now (hydrate_read i ?s)) i = filter is_stored_alarm as"
    using g p by (simp add: r)
  then show ?thesis by (simp add: after_restart_def hydrate_read_def)
qed

text \<open>Once the worker is up, the alarms of an extension survive the next restart: after every creation a
  restart restores exactly the alarms that were live and have a storable name, in their order.
\<close>

theorem alarms_survive_restart:
  assumes "alarm_run es no_alarms = Some s" "ar_hydrated s"
  shows "\<exists>s'. after_restart later i (alarm_create now i name info s) = Some s'
    \<and> alarm_get_all s' i = filter is_stored_alarm (alarm_get_all (alarm_create now i name info s) i)"
proof (rule restart_restores)
  have ok: "alarms_exact s" "tables_wf s" using alarm_run_ok [OF assms(1)] no_alarms_ok by blast+
  show "distinct (map al_name (alarm_get_all (alarm_create now i name info s) i))"
    by (rule table_names [OF exact_create [OF ok(1)] tables_wf_create [OF ok(2)]])
  have h: "ar_hydrated (arm_alarm now i a (clear_timers ids s))" for a ids
    using assms(2) by (simp add: arm_alarm_def Let_def clear_timers_def)
  show "map_of (ar_store (alarm_create now i name info s)) i
      = Some (Records (map Some (alarm_get_all (alarm_create now i name info s) i)))"
    by (simp add: alarm_create_def Let_def persist_ext_def h) (simp add: alarm_get_all_def)
qed

theorem alarms_survive_restart_witness:
  "\<exists>s'. after_restart 9 ''e'' (alarm_create 5 ''e'' ''a'' demo_info (no_alarms\<lparr>ar_hydrated := True\<rparr>)) = Some s'
     \<and> map al_name (alarm_get_all s' ''e'') = [''a'']"
proof -
  have r: "alarm_run [(0, HydrateStart)] no_alarms = Some (no_alarms\<lparr>ar_hydrated := True\<rparr>)" by simp
  have "alarm_get_all (alarm_create 5 ''e'' ''a'' demo_info (no_alarms\<lparr>ar_hydrated := True\<rparr>)) ''e''
      = [\<lparr>al_name = ''a'', al_time = alarm_when 5 demo_info, al_period = Some 2\<rparr>]"
    by (simp add: alarm_create_def no_alarms_def persist_ext_def arm_alarm_def clear_timers_def alarm_get_all_def
        table_of_def set_table_def Let_def positive_period_def demo_info_def)
  then show ?thesis
    using alarms_survive_restart [OF r, of 9 "''e''" 5 "''a''" demo_info] by (auto simp: is_stored_alarm_def)
qed

text \<open>
  The unnamed alarm, the one \<open>alarms.create(info)\<close> makes, has an empty name, which the check of the
  stored records refuses: no restart restores it.
\<close>

lemma unnamed_alarm_lost:
  assumes "distinct (map al_name as)" "map_of (ar_store s) i = Some (Records (map Some as))"
  shows "\<exists>s'. after_restart now i s = Some s' \<and> (\<forall>a \<in> set (alarm_get_all s' i). al_name a \<noteq> [])"
  using restart_restores [OF assms, of now] by (auto simp: is_stored_alarm_def)

text \<open>
  A creation between the start of the restoration and the read of its extension's key overwrites the
  stored list with the new alarm alone: the alarms not yet restored are gone.
\<close>

lemma early_create_erases:
  assumes "map_of (ar_store s) i = Some (Records (map Some as))"
  shows "\<exists>s'. alarm_run [(now, WorkerRestart), (now, HydrateStart), (now, Create i name info), (now, HydrateRead i), (now, HydrateKey)] s = Some s'
     \<and> map al_name (alarm_get_all s' i) = [name]"
proof -
  let ?s = "s\<lparr>ar_exts := [], ar_timers := [], ar_read := None, ar_hydrated := True\<rparr>"
  let ?c = "alarm_create now i name info ?s"
  let ?a = "\<lparr>al_name = name, al_time = alarm_when now info, al_period = positive_period (ai_period info)\<rparr>"
  have t: "table_of ?c i = [(name, ar_next s, ?a)]"
    by (simp add: alarm_create_def Let_def persist_ext_def arm_alarm_def clear_timers_def table_of_def set_table_def)
  have st: "map_of (ar_store ?c) i = Some (Records [Some ?a])"
    by (simp add: alarm_create_def Let_def persist_ext_def arm_alarm_def clear_timers_def table_of_def set_table_def
        alarm_get_all_def)
  have "table_of (hydrate_key now (hydrate_read i ?c)) i = table_of ?c i"
    by (simp add: hydrate_key_def hydrate_read_def st t omap_has_def)
  then have "map al_name (alarm_get_all (hydrate_key now (hydrate_read i ?c)) i) = [name]"
    by (simp add: alarm_get_all_def t)
  moreover have "ar_hydrated ?c"
    by (simp add: alarm_create_def Let_def persist_ext_def arm_alarm_def clear_timers_def set_table_def)
  ultimately show ?thesis by (simp add: hydrate_read_def)
qed

end
