(* ===== verification/Evidence.thy ===== *)
theory Evidence
  imports Prelude
begin

text \<open>
  The learned per-origin evidence of the engine: transit evidence
  (\<open>src/app/src/adaptive-evidence.ts\<close>), which may skip the literal pass of the JavaScript rewriter, and
  location targeting (\<open>location-targeting.ts\<close>), which may turn on the hybrid location pass. Both are
  stores of at most 512 origins that forget the oldest; both are instances of \<open>bounded_registry\<close>. The
  clock and the engine version are arguments of a step, the host switches arguments of the decision.
\<close>

section \<open>Hosts and clocks\<close>

text \<open>\<open>hostOf\<close>; the callers also give up on an empty host.\<close>

definition ev_host :: "url_parser \<Rightarrow> string \<Rightarrow> string option" where
  "ev_host pu target = truthy (map_option (\<lambda>u. js_lower (url_hostname u)) (pu target))"

definition EVIDENCE_TTL_MS :: int where
  "EVIDENCE_TTL_MS = 7 * 24 * 60 * 60 * 1000"

definition MAX_ORIGINS :: nat where
  "MAX_ORIGINS = 512"

text \<open>A list of at most 8 distinct ids that forgets its first one (\<open>shift\<close>, \<open>push\<close>).\<close>

definition push_id :: "string \<Rightarrow> string list \<Rightarrow> string list" where
  "push_id x xs = (if x \<in> set xs then xs else (if length xs \<ge> 8 then tl xs else xs) @ [x])"

section \<open>Transit evidence\<close>

datatype failure_class =
  Upstream3xx | Upstream4xx | Upstream5xx | ChallengePage | TransportFailure | RewriteStageFailure

datatype serve_failure = FailedTransport | FailedRewrite

definition classify_serve_failure :: "nat option \<Rightarrow> serve_failure option \<Rightarrow> bool \<Rightarrow> failure_class option" where
  "classify_serve_failure status failure challenge =
     (if challenge then Some ChallengePage
      else if failure = Some FailedRewrite then Some RewriteStageFailure
      else if failure = Some FailedTransport then Some TransportFailure
      else case status of None \<Rightarrow> None
        | Some n \<Rightarrow> if n < 300 then None else if n < 400 then Some Upstream3xx
                    else if n < 500 then Some Upstream4xx else Some Upstream5xx)"

text \<open>The six counters of the failure classes are the function \<open>oe_classes\<close>.\<close>

record origin_evidence =
  oe_observed :: nat
  oe_unchanged :: nat
  oe_literal :: nat
  oe_specifier :: nat
  oe_failures :: nat
  oe_traces :: "string list"
  oe_demotions :: nat
  oe_classes :: "failure_class \<Rightarrow> nat"
  oe_first :: int
  oe_last :: int

record transit_store =
  ts_evidence :: "(string, origin_evidence) omap"
  ts_dropped :: nat
  ts_version :: "string option"
  ts_resets :: nat

definition new_transit :: transit_store where
  "new_transit = \<lparr>ts_evidence = [], ts_dropped = 0, ts_version = None, ts_resets = 0\<rparr>"

definition version_gate :: "string \<Rightarrow> transit_store \<Rightarrow> transit_store" where
  "version_gate v s =
     (if ts_version s = Some v then s
      else if ts_version s \<noteq> None
      then s\<lparr>ts_evidence := [], ts_dropped := 0, ts_resets := ts_resets s + 1, ts_version := Some v\<rparr>
      else s\<lparr>ts_version := Some v\<rparr>)"

definition new_evidence :: "int \<Rightarrow> origin_evidence" where
  "new_evidence now = \<lparr>oe_observed = 0, oe_unchanged = 0, oe_literal = 0, oe_specifier = 0, oe_failures = 0,
     oe_traces = [], oe_demotions = 0, oe_classes = (\<lambda>_. 0), oe_first = now, oe_last = now\<rparr>"

text \<open>\<open>entry(h)\<close> followed by the change \<open>f\<close> of the entry it returns.\<close>

definition with_entry ::
  "string \<Rightarrow> int \<Rightarrow> string \<Rightarrow> (origin_evidence \<Rightarrow> origin_evidence) \<Rightarrow> transit_store \<Rightarrow> transit_store" where
  "with_entry v now h f s0 =
     (let s = version_gate v s0;
          old = map_of (ts_evidence s) h;
          full = (old = None \<and> length (ts_evidence s) \<ge> MAX_ORIGINS);
          e = (case old of Some e \<Rightarrow> e | None \<Rightarrow> new_evidence now)
      in s\<lparr>ts_evidence := omap_put_capped MAX_ORIGINS h (f (e\<lparr>oe_last := now\<rparr>)) (ts_evidence s),
           ts_dropped := ts_dropped s + (if full then 1 else 0)\<rparr>)"

definition on_host ::
  "url_parser \<Rightarrow> string \<Rightarrow> int \<Rightarrow> string \<Rightarrow> (origin_evidence \<Rightarrow> origin_evidence) \<Rightarrow> transit_store \<Rightarrow> transit_store" where
  "on_host pu v now target f s = (case ev_host pu target of None \<Rightarrow> s | Some h \<Rightarrow> with_entry v now h f s)"

definition record_js_serve :: "bool \<Rightarrow> bool \<Rightarrow> bool \<Rightarrow> origin_evidence \<Rightarrow> origin_evidence" where
  "record_js_serve specifier literal skipped e =
     e\<lparr>oe_observed := oe_observed e + 1,
       oe_specifier := oe_specifier e + (if specifier then 1 else 0),
       oe_literal := oe_literal e + (if literal then 1 else 0),
       oe_unchanged := oe_unchanged e + (if \<not> specifier \<and> \<not> literal \<and> \<not> skipped then 1 else 0)\<rparr>"

definition record_body_failure :: "string \<Rightarrow> origin_evidence \<Rightarrow> origin_evidence" where
  "record_body_failure trace e = e\<lparr>oe_failures := oe_failures e + 1, oe_traces := push_id trace (oe_traces e)\<rparr>"

definition record_class :: "failure_class \<Rightarrow> origin_evidence \<Rightarrow> origin_evidence" where
  "record_class c e = e\<lparr>oe_classes := (oe_classes e)(c := oe_classes e c + 1)\<rparr>"

definition demotes :: "origin_evidence \<Rightarrow> bool" where
  "demotes e \<longleftrightarrow> 3 \<le> oe_failures e \<and> 2 \<le> length (oe_traces e)"

definition literal_pass_demotion ::
  "url_parser \<Rightarrow> string \<Rightarrow> int \<Rightarrow> string \<Rightarrow> transit_store \<Rightarrow> bool \<times> transit_store" where
  "literal_pass_demotion pu v now target s0 =
     (let s = version_gate v s0
      in case ev_host pu target of None \<Rightarrow> (False, s)
       | Some h \<Rightarrow> (case map_of (ts_evidence s) h of None \<Rightarrow> (False, s)
         | Some e \<Rightarrow> if now - oe_last e > EVIDENCE_TTL_MS
                     then (False, s\<lparr>ts_evidence := AList.delete h (ts_evidence s)\<rparr>)
                     else (demotes e, s)))"

definition evidence_snapshot :: "string \<Rightarrow> int \<Rightarrow> transit_store \<Rightarrow> transit_store" where
  "evidence_snapshot v now s0 =
     (let s = version_gate v s0
      in s\<lparr>ts_evidence := filter (\<lambda>(_, e). \<not> now - oe_last e > EVIDENCE_TTL_MS) (ts_evidence s)\<rparr>)"

definition evidence_reset :: "transit_store \<Rightarrow> transit_store" where
  "evidence_reset s = new_transit"

datatype transit_event =
  JsServe string bool bool bool
| BodyPassFailure string string
| ServeFailure string "failure_class option"
| DemotionServed string
| AskDemotion string
| TakeSnapshot
| ResetEvidence

fun transit_step :: "url_parser \<Rightarrow> string \<times> int \<times> transit_event \<Rightarrow> transit_store \<Rightarrow> transit_store" where
  "transit_step pu (v, now, JsServe t a b c) s = on_host pu v now t (record_js_serve a b c) s"
| "transit_step pu (v, now, BodyPassFailure t tr) s = on_host pu v now t (record_body_failure tr) s"
| "transit_step pu (v, now, ServeFailure t None) s = s"
| "transit_step pu (v, now, ServeFailure t (Some c)) s = on_host pu v now t (record_class c) s"
| "transit_step pu (v, now, DemotionServed t) s = on_host pu v now t (\<lambda>e. e\<lparr>oe_demotions := oe_demotions e + 1\<rparr>) s"
| "transit_step pu (v, now, AskDemotion t) s = snd (literal_pass_demotion pu v now t s)"
| "transit_step pu (v, now, TakeSnapshot) s = evidence_snapshot v now s"
| "transit_step pu (v, now, ResetEvidence) s = evidence_reset s"

section \<open>Location targeting\<close>

record target_evidence =
  te_reports :: nat
  te_clients :: "string list"
  te_reads :: nat
  te_marked :: "int option"
  te_first :: int
  te_last :: int

record location_store =
  ls_evidence :: "(string, target_evidence) omap"
  ls_dropped :: nat

definition new_location :: location_store where
  "new_location = \<lparr>ls_evidence = [], ls_dropped = 0\<rparr>"

definition with_target ::
  "int \<Rightarrow> string \<Rightarrow> (target_evidence \<Rightarrow> target_evidence) \<Rightarrow> location_store \<Rightarrow> location_store" where
  "with_target now h f s =
     (let old = map_of (ls_evidence s) h;
          full = (old = None \<and> length (ls_evidence s) \<ge> MAX_ORIGINS);
          e = (case old of Some e \<Rightarrow> e | None \<Rightarrow>
            \<lparr>te_reports = 0, te_clients = [], te_reads = 0, te_marked = None, te_first = now, te_last = now\<rparr>)
      in s\<lparr>ls_evidence := omap_put_capped MAX_ORIGINS h (f (e\<lparr>te_last := now\<rparr>)) (ls_evidence s),
           ls_dropped := ls_dropped s + (if full then 1 else 0)\<rparr>)"

definition record_location_reads :: "url_parser \<Rightarrow> int \<Rightarrow> string \<Rightarrow> location_store \<Rightarrow> location_store" where
  "record_location_reads pu now target s = (case ev_host pu target of None \<Rightarrow> s
     | Some h \<Rightarrow> with_target now h (\<lambda>e. e\<lparr>te_reads := te_reads e + 1\<rparr>) s)"

text \<open>A client id that is absent or empty is not counted.\<close>

definition report_spa404 :: "int \<Rightarrow> string option \<Rightarrow> target_evidence \<Rightarrow> target_evidence" where
  "report_spa404 now client e0 =
     (let e = e0\<lparr>te_reports := te_reports e0 + 1,
            te_clients := (case truthy client of Some c \<Rightarrow> push_id c (te_clients e0) | None \<Rightarrow> te_clients e0)\<rparr>
      in if te_marked e = None \<and> 2 \<le> length (te_clients e) \<and> 0 < te_reads e
         then e\<lparr>te_marked := Some now\<rparr> else e)"

definition record_spa404 :: "url_parser \<Rightarrow> int \<Rightarrow> string \<Rightarrow> string option \<Rightarrow> location_store \<Rightarrow> location_store" where
  "record_spa404 pu now target client s = (case ev_host pu target of None \<Rightarrow> s
     | Some h \<Rightarrow> with_target now h (report_spa404 now client) s)"

definition location_marked :: "url_parser \<Rightarrow> int \<Rightarrow> string \<Rightarrow> location_store \<Rightarrow> bool \<times> location_store" where
  "location_marked pu now target s = (case ev_host pu target of None \<Rightarrow> (False, s)
     | Some h \<Rightarrow> (case map_of (ls_evidence s) h of None \<Rightarrow> (False, s)
       | Some e \<Rightarrow> if te_marked e = None then (False, s)
                   else if now - te_last e > EVIDENCE_TTL_MS
                   then (False, s\<lparr>ls_evidence := AList.delete h (ls_evidence s)\<rparr>)
                   else (True, s)))"

text \<open>
  \<open>resolveLocationPolicy\<close>: the rule of the site and the policy it defaults to are arguments, as are the
  experimental flag and the kill switch.
\<close>

datatype 'p location_choice = RulePolicy 'p | HybridPolicy | DefaultPolicy

definition resolve_location_policy ::
  "url_parser \<Rightarrow> int \<Rightarrow> bool \<Rightarrow> bool \<Rightarrow> string option \<Rightarrow> 'p option \<Rightarrow> location_store \<Rightarrow> 'p location_choice \<times> location_store"
where
  "resolve_location_policy pu now experimental enabled target rule s = (case rule of
     Some p \<Rightarrow> (RulePolicy p, s)
   | None \<Rightarrow>
     if experimental then (HybridPolicy, s)
     else case truthy target of None \<Rightarrow> (DefaultPolicy, s)
       | Some t \<Rightarrow> if \<not> enabled then (DefaultPolicy, s)
                   else let (m, s') = location_marked pu now t s
                        in (if m then HybridPolicy else DefaultPolicy, s'))"

definition location_snapshot :: "int \<Rightarrow> location_store \<Rightarrow> location_store" where
  "location_snapshot now s =
     s\<lparr>ls_evidence := filter (\<lambda>(_, e). \<not> now - te_last e > EVIDENCE_TTL_MS) (ls_evidence s)\<rparr>"

datatype location_event =
  LocationReads string | Spa404 string "string option" | AskMarked string | LocationSnapshot | LocationReset

fun location_step :: "url_parser \<Rightarrow> int \<times> location_event \<Rightarrow> location_store \<Rightarrow> location_store" where
  "location_step pu (now, LocationReads t) s = record_location_reads pu now t s"
| "location_step pu (now, Spa404 t c) s = record_spa404 pu now t c s"
| "location_step pu (now, AskMarked t) s = snd (location_marked pu now t s)"
| "location_step pu (now, LocationSnapshot) s = location_snapshot now s"
| "location_step pu (now, LocationReset) s = new_location"

section \<open>Both stores stay bounded\<close>

lemma length_delete_le: "length (AList.delete k m) \<le> length m"
  by (simp add: AList.delete_eq)

lemma gate_entries: "ts_evidence (version_gate v s) = ts_evidence s \<or> ts_evidence (version_gate v s) = []"
  by (simp add: version_gate_def)

lemma gate_wf: "omap_wf (ts_evidence s) \<Longrightarrow> omap_wf (ts_evidence (version_gate v s))"
  using gate_entries [of v s] by auto

lemma gate_length: "length (ts_evidence s) \<le> n \<Longrightarrow> length (ts_evidence (version_gate v s)) \<le> n"
  using gate_entries [of v s] by auto

lemma with_entry_ok:
  assumes "omap_wf (ts_evidence s)"
  shows "omap_wf (ts_evidence (with_entry v now h f s))"
    and "length (ts_evidence s) \<le> MAX_ORIGINS \<Longrightarrow> length (ts_evidence (with_entry v now h f s)) \<le> MAX_ORIGINS"
  using gate_wf [OF assms] gate_length
  by (auto simp: with_entry_def Let_def intro!: length_put_capped) (simp add: MAX_ORIGINS_def)

lemma on_host_ok:
  assumes "omap_wf (ts_evidence s)"
  shows "omap_wf (ts_evidence (on_host pu v now t f s))"
    and "length (ts_evidence s) \<le> MAX_ORIGINS \<Longrightarrow> length (ts_evidence (on_host pu v now t f s)) \<le> MAX_ORIGINS"
  using assms with_entry_ok by (auto simp: on_host_def split: option.splits)

lemma transit_step_ok:
  assumes wf: "omap_wf (ts_evidence s)"
  shows "omap_wf (ts_evidence (transit_step pu x s)) \<and>
    (length (ts_evidence s) \<le> MAX_ORIGINS \<longrightarrow> length (ts_evidence (transit_step pu x s)) \<le> MAX_ORIGINS)"
proof -
  have ask: "omap_wf (ts_evidence (snd (literal_pass_demotion pu v now t s))) \<and> (length (ts_evidence s) \<le> MAX_ORIGINS
      \<longrightarrow> length (ts_evidence (snd (literal_pass_demotion pu v now t s))) \<le> MAX_ORIGINS)" for v now t
    using gate_wf [OF wf, of v] gate_length [of s MAX_ORIGINS v] length_delete_le [of _ "ts_evidence (version_gate v s)"]
    by (auto simp: literal_pass_demotion_def Let_def split: option.splits intro: le_trans)
  have snap: "omap_wf (ts_evidence (evidence_snapshot v now s)) \<and> (length (ts_evidence s) \<le> MAX_ORIGINS
      \<longrightarrow> length (ts_evidence (evidence_snapshot v now s)) \<le> MAX_ORIGINS)" for v now
    using gate_wf [OF wf, of v] gate_length [of s MAX_ORIGINS v]
    by (auto simp: evidence_snapshot_def Let_def intro: le_trans [OF length_filter_le])
  show ?thesis
    using wf on_host_ok ask snap
    by (induction pu x s rule: transit_step.induct) (simp_all add: evidence_reset_def new_transit_def)
qed

interpretation transit_evidence: bounded_registry "transit_step pu" ts_evidence MAX_ORIGINS
  by unfold_locales (simp_all add: transit_step_ok)

lemma with_target_ok:
  assumes "omap_wf (ls_evidence s)"
  shows "omap_wf (ls_evidence (with_target now h f s))"
    and "length (ls_evidence s) \<le> MAX_ORIGINS \<Longrightarrow> length (ls_evidence (with_target now h f s)) \<le> MAX_ORIGINS"
  using assms by (auto simp: with_target_def Let_def intro!: length_put_capped) (simp add: MAX_ORIGINS_def)

lemma location_step_ok:
  assumes wf: "omap_wf (ls_evidence s)"
  shows "omap_wf (ls_evidence (location_step pu x s)) \<and>
    (length (ls_evidence s) \<le> MAX_ORIGINS \<longrightarrow> length (ls_evidence (location_step pu x s)) \<le> MAX_ORIGINS)"
proof -
  have ask: "omap_wf (ls_evidence (snd (location_marked pu now t s))) \<and> (length (ls_evidence s) \<le> MAX_ORIGINS
      \<longrightarrow> length (ls_evidence (snd (location_marked pu now t s))) \<le> MAX_ORIGINS)" for now t
    using wf length_delete_le [of _ "ls_evidence s"]
    by (auto simp: location_marked_def Let_def split: option.splits intro: le_trans)
  have snap: "omap_wf (ls_evidence (location_snapshot now s)) \<and> (length (ls_evidence s) \<le> MAX_ORIGINS
      \<longrightarrow> length (ls_evidence (location_snapshot now s)) \<le> MAX_ORIGINS)" for now
    using wf by (auto simp: location_snapshot_def intro: le_trans [OF length_filter_le])
  show ?thesis
    using wf with_target_ok ask snap
    by (induction pu x s rule: location_step.induct)
      (simp_all add: record_location_reads_def record_spa404_def new_location_def split: option.splits)
qed

interpretation location_evidence: bounded_registry "location_step pu" ls_evidence MAX_ORIGINS
  by unfold_locales (simp_all add: location_step_ok)

lemma evidence_bounded:
  "length (ts_evidence (fold (transit_step pu) es new_transit)) \<le> 512"
  "length (ls_evidence (fold (location_step pu) fs new_location)) \<le> 512"
  using transit_evidence.steps_bounded [of new_transit pu es] location_evidence.steps_bounded [of new_location pu fs]
  by (simp_all add: new_transit_def new_location_def MAX_ORIGINS_def)

section \<open>Nothing changes behaviour without corroboration\<close>

text \<open>The failures of a host that a run of events contains, as the traces they came with.\<close>

definition failure_traces :: "url_parser \<Rightarrow> string \<Rightarrow> (string \<times> int \<times> transit_event) list \<Rightarrow> string list" where
  "failure_traces pu h es = List.map_filter (\<lambda>(_, _, e). case e of
     BodyPassFailure t tr \<Rightarrow> if ev_host pu t = Some h then Some tr else None | _ \<Rightarrow> None) es"

lemma failure_traces_snoc:
  "failure_traces pu h (es @ [(v, now, e)]) = failure_traces pu h es @ (case e of
     BodyPassFailure t tr \<Rightarrow> if ev_host pu t = Some h then [tr] else [] | _ \<Rightarrow> [])"
  by (auto simp: failure_traces_def List.map_filter_def split: transit_event.splits)

definition backed :: "url_parser \<Rightarrow> (string \<times> int \<times> transit_event) list \<Rightarrow> string \<times> origin_evidence \<Rightarrow> bool" where
  "backed pu es x \<longleftrightarrow> (case x of (h, e) \<Rightarrow>
     oe_failures e \<le> length (failure_traces pu h es) \<and> set (oe_traces e) \<subseteq> set (failure_traces pu h es)
     \<and> distinct (oe_traces e))"

lemma push_id_distinct: "distinct xs \<Longrightarrow> distinct (push_id x xs)"
  by (cases xs) (auto simp: push_id_def)

lemma push_id_set: "set (push_id x xs) \<subseteq> insert x (set xs)"
  by (cases xs) (auto simp: push_id_def)

lemma push_id_length: "length xs \<le> 8 \<Longrightarrow> length (push_id x xs) \<le> 8"
  by (auto simp: push_id_def)

lemma backed_more: "backed pu es x \<Longrightarrow> backed pu (es @ [y]) x"
proof -
  obtain v now e where y: "y = (v, now, e)" by (cases y)
  show "backed pu es x \<Longrightarrow> backed pu (es @ [y]) x"
    by (cases x; cases e) (auto simp: backed_def y failure_traces_snoc)
qed

lemma with_entry_backed:
  assumes old: "\<forall>x \<in> set (ts_evidence s). backed pu es x"
    and f: "\<And>e. backed pu es (h, e) \<Longrightarrow> backed pu es' (h, f e)"
    and more: "\<And>x. backed pu es x \<Longrightarrow> backed pu es' x"
  shows "\<forall>x \<in> set (ts_evidence (with_entry v now h f s)). backed pu es' x"
proof -
  let ?s = "version_gate v s"
  have g: "\<forall>x \<in> set (ts_evidence ?s). backed pu es x" using old gate_entries [of v s] by auto
  define e where "e = (case map_of (ts_evidence ?s) h of Some e \<Rightarrow> e | None \<Rightarrow> new_evidence now)"
  have "backed pu es (h, e)"
    using g by (auto simp: e_def backed_def new_evidence_def split: option.splits dest: map_of_SomeD)
  then have "backed pu es (h, e\<lparr>oe_last := now\<rparr>)" by (simp add: backed_def)
  then have "backed pu es' (h, f (e\<lparr>oe_last := now\<rparr>))" by (rule f)
  moreover have "set (ts_evidence (with_entry v now h f s)) \<subseteq> insert (h, f (e\<lparr>oe_last := now\<rparr>)) (set (ts_evidence ?s))"
    using set_put_capped by (simp add: with_entry_def Let_def e_def)
  ultimately show ?thesis using g more by blast
qed

lemma on_host_backed:
  assumes "\<forall>x \<in> set (ts_evidence s). backed pu es x"
    and "\<And>h e. ev_host pu t = Some h \<Longrightarrow> backed pu es (h, e) \<Longrightarrow> backed pu es' (h, f e)"
    and "\<And>x. backed pu es x \<Longrightarrow> backed pu es' x"
  shows "\<forall>x \<in> set (ts_evidence (on_host pu v now t f s)). backed pu es' x"
proof (cases "ev_host pu t")
  case (Some h)
  have "\<forall>x \<in> set (ts_evidence (with_entry v now h f s)). backed pu es' x"
    by (rule with_entry_backed [OF assms(1)]) (use assms(2) [OF Some] assms(3) in blast)+
  then show ?thesis by (simp add: on_host_def Some)
qed (use assms in \<open>auto simp: on_host_def\<close>)

lemma on_host_neutral:
  assumes "\<forall>x \<in> set (ts_evidence s). backed pu es x"
    and "\<And>e. oe_failures (f e) = oe_failures e \<and> oe_traces (f e) = oe_traces e"
  shows "\<forall>x \<in> set (ts_evidence (on_host pu v now t f s)). backed pu (es @ [y]) x"
proof (rule on_host_backed [OF assms(1)])
  fix h e
  assume "backed pu es (h, e)"
  then have "backed pu es (h, f e)" using assms(2) by (simp add: backed_def)
  then show "backed pu (es @ [y]) (h, f e)" by (rule backed_more)
qed (rule backed_more)

lemma transit_step_backed:
  assumes old: "\<forall>x \<in> set (ts_evidence s). backed pu es x"
  shows "\<forall>x \<in> set (ts_evidence (transit_step pu y s)). backed pu (es @ [y]) x"
proof -
  note more = backed_more [of pu es _ y]
  have gate: "\<forall>x \<in> set (ts_evidence (version_gate v s)). backed pu (es @ [y]) x" for v
    using old gate_entries [of v s] more by auto
  show ?thesis
    using assms gate more
  proof (induction pu y s rule: transit_step.induct)
    case (2 pu v now t tr s)
    have "backed pu (es @ [(v, now, BodyPassFailure t tr)]) (h, record_body_failure tr e)"
      if "ev_host pu t = Some h" "backed pu es (h, e)" for h e
      using that push_id_set [of tr "oe_traces e"] push_id_distinct
      by (auto simp: backed_def record_body_failure_def failure_traces_snoc)
    then have "\<forall>x \<in> set (ts_evidence (on_host pu v now t (record_body_failure tr) s)).
        backed pu (es @ [(v, now, BodyPassFailure t tr)]) x"
      by (rule on_host_backed [OF 2(1)]) (assumption | rule 2(3))+
    then show ?case by simp
  next
    case (6 pu v now t s)
    have "set (ts_evidence (snd (literal_pass_demotion pu v now t s))) \<subseteq> set (ts_evidence (version_gate v s))"
      by (auto simp: literal_pass_demotion_def Let_def split: option.splits dest: subsetD [OF set_delete_subset])
    then show ?case using 6(2) by auto
  next
    case (1 pu v now t a b c s)
    show ?case
      unfolding transit_step.simps by (rule on_host_neutral [OF 1(1)]) (simp add: record_js_serve_def)
  next
    case (4 pu v now t c s)
    show ?case
      unfolding transit_step.simps by (rule on_host_neutral [OF 4(1)]) (simp add: record_class_def)
  next
    case (5 pu v now t s)
    show ?case
      unfolding transit_step.simps by (rule on_host_neutral [OF 5(1)]) simp
  qed (auto simp: evidence_snapshot_def evidence_reset_def new_transit_def Let_def)
qed

lemma transit_run_backed: "\<forall>x \<in> set (ts_evidence (fold (transit_step pu) es new_transit)). backed pu es x"
proof (induction es rule: rev_induct)
  case (snoc y es)
  then show ?case using transit_step_backed by simp
qed (simp add: new_transit_def)

text \<open>The literal pass of an origin is skipped only when at least three of its own loads failed in that
  pass, under at least two different traces; no upstream status, challenge page or transport error
  ever counts.
\<close>

theorem demotion_needs_corroboration:
  assumes "fst (literal_pass_demotion pu v now target (fold (transit_step pu) es new_transit))"
  shows "\<exists>h. ev_host pu target = Some h \<and> 3 \<le> length (failure_traces pu h es)
    \<and> 2 \<le> card (set (failure_traces pu h es))"
proof -
  let ?s = "fold (transit_step pu) es new_transit"
  obtain h e where h: "ev_host pu target = Some h" and e: "map_of (ts_evidence (version_gate v ?s)) h = Some e"
    and d: "demotes e"
    using assms by (auto simp: literal_pass_demotion_def Let_def split: option.splits if_splits)
  have "(h, e) \<in> set (ts_evidence ?s)"
    using map_of_SomeD [OF e] gate_entries [of v ?s] by auto
  then have b: "backed pu es (h, e)" using transit_run_backed by blast
  have "length (oe_traces e) = card (set (oe_traces e))" using b by (simp add: backed_def distinct_card)
  also have "\<dots> \<le> card (set (failure_traces pu h es))" using b by (intro card_mono) (simp_all add: backed_def)
  finally show ?thesis using h b d by (auto simp: backed_def demotes_def)
qed

definition demo_host_parser :: url_parser where
  "demo_host_parser s = Some \<lparr>url_href = s, url_protocol = ''https:'', url_origin = s, url_host = s, url_hostname = s,
     url_pathname = ''/'', url_search = [], url_hash = []\<rparr>"

definition demo_failures :: "(string \<times> int \<times> transit_event) list" where
  "demo_failures = map (\<lambda>t. (''1'', 0, BodyPassFailure ''h'' t)) [''t'', ''t'', ''u'']"

theorem demotion_needs_corroboration_witness:
  "fst (literal_pass_demotion demo_host_parser ''1'' 0 ''h'' (fold (transit_step demo_host_parser) demo_failures new_transit))
   \<and> 2 \<le> card (set (failure_traces demo_host_parser ''h'' demo_failures))"
proof -
  have d: "fst (literal_pass_demotion demo_host_parser ''1'' 0 ''h'' (fold (transit_step demo_host_parser) demo_failures new_transit))"
    by (simp add: literal_pass_demotion_def demo_failures_def on_host_def ev_host_def demo_host_parser_def truthy_def js_lower_def
        lower_char_def with_entry_def version_gate_def Let_def new_transit_def new_evidence_def record_body_failure_def push_id_def
        omap_put_capped_def MAX_ORIGINS_def omap_has_def demotes_def EVIDENCE_TTL_MS_def)
  moreover have "ev_host demo_host_parser ''h'' = Some ''h''" by code_simp
  ultimately show ?thesis using demotion_needs_corroboration [OF d] by auto
qed

text \<open>
  Learned demotion feeds itself: serving a demoted body refreshes the time stamp, so the seven days
  never pass for an origin that is visited.
\<close>

lemma demotion_refreshes:
  assumes "ev_host pu target = Some h"
  shows "map_of (ts_evidence (transit_step pu (v, now, DemotionServed target) s)) h \<noteq> None
    \<and> oe_last (the (map_of (ts_evidence (transit_step pu (v, now, DemotionServed target) s)) h)) = now"
  using assms by (simp add: on_host_def with_entry_def Let_def)

text \<open>A location mark needs reports of two clients and an observed read.\<close>

definition target_backed :: "target_evidence \<Rightarrow> bool" where
  "target_backed e \<longleftrightarrow> distinct (te_clients e) \<and> length (te_clients e) \<le> 8
     \<and> (te_marked e \<noteq> None \<longrightarrow> 2 \<le> length (te_clients e) \<and> 0 < te_reads e)"

lemma push_id_grows: "length xs \<le> 8 \<Longrightarrow> length xs \<le> length (push_id x xs)"
  by (auto simp: push_id_def)

lemma report_backed: "target_backed e \<Longrightarrow> target_backed (report_spa404 now c e)"
  using push_id_grows [of "te_clients e"]
  by (auto simp: target_backed_def report_spa404_def Let_def push_id_distinct push_id_length split: option.splits)
    (meson le_trans)+

lemma with_target_backed:
  assumes "\<forall>x \<in> set (ls_evidence s). target_backed (snd x)" "\<And>e. target_backed e \<Longrightarrow> target_backed (f e)"
  shows "\<forall>x \<in> set (ls_evidence (with_target now h f s)). target_backed (snd x)"
proof -
  define e where "e = (case map_of (ls_evidence s) h of Some e \<Rightarrow> e | None \<Rightarrow>
     \<lparr>te_reports = 0, te_clients = [], te_reads = 0, te_marked = None, te_first = now, te_last = now\<rparr>)"
  have "target_backed e"
    using assms(1) by (force simp: e_def target_backed_def split: option.splits dest: map_of_SomeD)
  then have "target_backed (f (e\<lparr>te_last := now\<rparr>))" by (intro assms(2)) (simp add: target_backed_def)
  moreover have "set (ls_evidence (with_target now h f s)) \<subseteq> insert (h, f (e\<lparr>te_last := now\<rparr>)) (set (ls_evidence s))"
    using set_put_capped by (simp add: with_target_def Let_def e_def)
  ultimately show ?thesis using assms(1) by fastforce
qed

lemma location_step_backed:
  assumes old: "\<forall>x \<in> set (ls_evidence s). target_backed (snd x)"
  shows "\<forall>x \<in> set (ls_evidence (location_step pu y s)). target_backed (snd x)"
proof -
  have reads: "\<forall>x \<in> set (ls_evidence (with_target now h (\<lambda>e. e\<lparr>te_reads := te_reads e + 1\<rparr>) s)). target_backed (snd x)" for now h
    by (rule with_target_backed [OF old]) (simp add: target_backed_def)
  have reports: "\<forall>x \<in> set (ls_evidence (with_target now h (report_spa404 now c) s)). target_backed (snd x)" for now h c
    by (rule with_target_backed [OF old report_backed])
  have ask: "set (ls_evidence (snd (location_marked pu now t s))) \<subseteq> set (ls_evidence s)" for now t
    by (auto simp: location_marked_def split: option.splits dest: subsetD [OF set_delete_subset])
  show ?thesis
    using old reads reports ask
    by (induction pu y s rule: location_step.induct)
      (simp_all add: record_location_reads_def record_spa404_def location_snapshot_def new_location_def
        split: option.splits, blast)
qed

lemma mark_needs_corroboration:
  assumes "fst (location_marked pu now target (fold (location_step pu) es new_location))"
  shows "\<exists>h e. ev_host pu target = Some h \<and> map_of (ls_evidence (fold (location_step pu) es new_location)) h = Some e
    \<and> 2 \<le> card (set (te_clients e)) \<and> 0 < te_reads e"
proof -
  let ?s = "fold (location_step pu) es new_location"
  have b: "\<forall>x \<in> set (ls_evidence ?s). target_backed (snd x)"
    by (induction es rule: rev_induct) (simp_all add: location_step_backed, simp add: new_location_def)
  obtain h e where h: "ev_host pu target = Some h" "map_of (ls_evidence ?s) h = Some e" "te_marked e \<noteq> None"
    using assms by (auto simp: location_marked_def split: option.splits if_splits)
  have "target_backed e" using b map_of_SomeD [OF h(2)] by force
  then show ?thesis using h by (auto simp: target_backed_def distinct_card)
qed

end
