(* ===== verification/ImportMaps.thy ===== *)
theory ImportMaps
  imports Prelude
begin

text \<open>
  Import maps for module workers (\<open>src/app/src/importmaps.ts\<close>): the scanner that finds the import maps of
  a document in the chunks it is served in, the registry of the maps of a page, and the resolution
  of a bare specifier. \<open>JSON.parse\<close> and the URL parser are arguments. Word boundaries and white space
  are those of the code units below 256.
\<close>

section \<open>The scanner\<close>

definition IMPORTMAP_SCAN_TEXT_MAX :: nat where "IMPORTMAP_SCAN_TEXT_MAX = 256 * 1024"

definition IMPORTMAP_BODY_CAP :: nat where "IMPORTMAP_BODY_CAP = 256 * 1024"

definition PENDING_CAP :: nat where "PENDING_CAP = 65536"

text \<open>\<open>name\s*=\s*([^\s>]+)\<close>, without case, at the head of \<open>s\<close>.\<close>

definition attr_here :: "string \<Rightarrow> string \<Rightarrow> string option" where
  "attr_here name s =
     (if \<not> starts_with (js_lower s) name then None
      else case dropWhile is_js_space (drop (length name) s) of
          [] \<Rightarrow> None
        | c # r \<Rightarrow> if c \<noteq> CHR ''='' then None
                 else let v = takeWhile (\<lambda>c. \<not> is_js_space c \<and> c \<noteq> CHR ''>'') (dropWhile is_js_space r)
                      in if v = [] then None else Some v)"

fun attr_scan :: "string \<Rightarrow> string \<Rightarrow> string option" where
  "attr_scan name [] = None"
| "attr_scan name (c # s) =
     (case (if is_js_space c then attr_here name s else None) of Some v \<Rightarrow> Some v | None \<Rightarrow> attr_scan name s)"

definition quoted_by :: "char \<Rightarrow> string \<Rightarrow> bool" where
  "quoted_by q v \<longleftrightarrow> 1 < length v \<and> hd v = q \<and> last v = q"

definition attr_value :: "string \<Rightarrow> string \<Rightarrow> string option" where
  "attr_value tag name =
     map_option (\<lambda>v. if quoted_by (CHR 0x22) v \<or> quoted_by (CHR 0x27) v then butlast (tl v) else v)
       (case attr_here name tag of Some v \<Rightarrow> Some v | None \<Rightarrow> attr_scan name tag)"

text \<open>\<open>/^<\s*script\b/i\<close>\<close>

definition is_script_tag :: "string \<Rightarrow> bool" where
  "is_script_tag tag \<longleftrightarrow> starts_with tag ''<''
     \<and> (let r = dropWhile is_js_space (tl tag)
        in starts_with (js_lower r) ''script''
           \<and> (case drop 6 r of [] \<Rightarrow> True | c # _ \<Rightarrow> \<not> (is_alnum c \<or> c = CHR ''_'')))"

definition opens_importmap :: "string \<Rightarrow> bool" where
  "opens_importmap tag \<longleftrightarrow> is_script_tag tag
     \<and> (case truthy (attr_value tag ''type'') of None \<Rightarrow> False
        | Some v \<Rightarrow> js_lower (js_trim (hd (split_on (CHR '';'') v))) = ''importmap'')"

text \<open>The first \<open></script\<close>, without case.\<close>

fun find_close :: "string \<Rightarrow> nat option" where
  "find_close [] = None"
| "find_close (c # s) =
     (if starts_with (js_lower (c # s)) ''</script'' then Some 0 else map_option Suc (find_close s))"

record scan_state =
  sc_pending :: string
  sc_capturing :: bool
  sc_truncated :: bool
  sc_body :: string
  sc_notes :: "string list"

record scanner =
  sc_state :: scan_state
  sc_fed :: nat
  sc_done :: bool

definition new_scanner :: scanner where
  "new_scanner = \<lparr>sc_state = \<lparr>sc_pending = [], sc_capturing = False, sc_truncated = False, sc_body = [],
     sc_notes = []\<rparr>, sc_fed = 0, sc_done = False\<rparr>"

lemma index_of_less: "index_of xs c = Some i \<Longrightarrow> i < length xs"
  by (simp add: index_of_Some)

text \<open>The loop of \<open>feed\<close>.\<close>

function scan_loop :: "scan_state \<Rightarrow> scan_state" where
  "scan_loop s =
     (let p = sc_pending s
      in if \<not> sc_capturing s then
           (case index_of p (CHR ''<'') of
              None \<Rightarrow> s\<lparr>sc_pending := []\<rparr>
            | Some lt \<Rightarrow> (case index_of (drop lt p) (CHR ''>'') of
                None \<Rightarrow> s\<lparr>sc_pending := (if length (drop lt p) > PENDING_CAP then [] else drop lt p)\<rparr>
              | Some gt \<Rightarrow>
                (let tag = take (gt + 1) (drop lt p); rest = drop (gt + 1) (drop lt p)
                 in scan_loop (if opens_importmap tag
                      then s\<lparr>sc_pending := rest, sc_capturing := True, sc_truncated := False, sc_body := []\<rparr>
                      else s\<lparr>sc_pending := rest\<rparr>))))
         else
           (case find_close p of
              Some m \<Rightarrow>
                (let body = sc_body s @ take m p
                 in scan_loop (s\<lparr>sc_pending := drop m p, sc_capturing := False, sc_body := [],
                      sc_notes := sc_notes s @ (if \<not> sc_truncated s \<and> length body \<le> IMPORTMAP_BODY_CAP then [body] else [])\<rparr>))
            | None \<Rightarrow>
                (let keep = length p - min 8 (length p); body = sc_body s @ take keep p
                 in s\<lparr>sc_pending := drop keep p, sc_body := body,
                      sc_truncated := (sc_truncated s \<or> length body > IMPORTMAP_BODY_CAP)\<rparr>)))"
  by pat_completeness auto
termination
proof (relation "measure (\<lambda>s. 2 * length (sc_pending s) + (if sc_capturing s then 1 else 0))", goal_cases)
  case (2 s p lt gt tag rest)
  have "lt < length (sc_pending s)" using 2 index_of_less by metis
  then show ?case using 2 by auto
qed auto

declare scan_loop.simps [simp del]

definition scan_feed :: "string \<Rightarrow> scanner \<Rightarrow> scanner" where
  "scan_feed text s =
     (if sc_done s then s
      else let w = sc_state s; fed = sc_fed s + length text
           in \<lparr>sc_state = scan_loop (w\<lparr>sc_pending := sc_pending w @ text\<rparr>), sc_fed = fed,
               sc_done = (fed \<ge> IMPORTMAP_SCAN_TEXT_MAX)\<rparr>)"

section \<open>The registry\<close>

definition IMPORTMAP_PAGES_CAP :: nat where "IMPORTMAP_PAGES_CAP = 64"

definition IMPORTMAP_ENTRIES_CAP :: nat where "IMPORTMAP_ENTRIES_CAP = 256"

definition IMPORTMAP_SCOPES_CAP :: nat where "IMPORTMAP_SCOPES_CAP = 32"

definition page_key_of :: "platform \<Rightarrow> string \<Rightarrow> string \<Rightarrow> string option" where
  "page_key_of pf url origin = map_option (\<lambda>u. takeWhile (\<lambda>c. c \<noteq> CHR ''#'') (url_href u)) (new_url_base pf url origin)"

datatype mapped_target = Blocked | OneTarget string | Fallbacks "string list"

type_synonym import_rules = "(string, mapped_target) omap"

record page_importmap =
  pi_imports :: import_rules
  pi_scopes :: "(string, import_rules) omap"

type_synonym importmap_registry = "(string, page_importmap) omap"

definition scheme_char :: "char \<Rightarrow> bool" where
  "scheme_char c \<longleftrightarrow> is_alnum c \<or> c \<in> set ''+.-''"

definition is_url_like :: "string \<Rightarrow> bool" where
  "is_url_like s \<longleftrightarrow>
     (case s of [] \<Rightarrow> False | c # r \<Rightarrow> is_alnum c \<and> \<not> is_digit c \<and> starts_with (dropWhile scheme_char r) '':'')
     \<or> starts_with s ''/'' \<or> starts_with s ''.'' \<or> starts_with s ''#'' \<or> starts_with s ''?''"

text \<open>\<open>None\<close> is a shape the browser ignores.\<close>

definition map_target :: "json \<Rightarrow> mapped_target option" where
  "map_target v = (case v of
     JNull \<Rightarrow> Some Blocked
   | JStr s \<Rightarrow> if is_url_like s then Some (OneTarget s) else None
   | JArr xs \<Rightarrow>
     if xs \<noteq> [] \<and> list_all (\<lambda>x. case x of JStr s \<Rightarrow> is_url_like s | _ \<Rightarrow> False) xs
     then Some (Fallbacks (map (\<lambda>x. case x of JStr s \<Rightarrow> s | _ \<Rightarrow> []) xs)) else None
   | _ \<Rightarrow> None)"

fun collect_entries :: "(string \<times> json) list \<Rightarrow> nat \<Rightarrow> import_rules \<Rightarrow> import_rules" where
  "collect_entries [] cap m = m"
| "collect_entries ((k, v) # rest) cap m = (case map_target v of
     None \<Rightarrow> collect_entries rest cap m
   | Some t \<Rightarrow> (let m' = AList.update k t m in if length m' \<ge> cap then m' else collect_entries rest cap m'))"

definition normalize_scope_key :: "platform \<Rightarrow> string \<Rightarrow> string \<Rightarrow> string option" where
  "normalize_scope_key pf page_key raw = (case new_url_base pf raw page_key of None \<Rightarrow> None
     | Some u \<Rightarrow> if \<not> is_http_url u then None
                 else Some (if ends_with (url_href u) ''/'' then url_href u else url_href u @ ''/''))"

definition importmap_reset :: "string \<Rightarrow> importmap_registry \<Rightarrow> importmap_registry" where
  "importmap_reset key reg = AList.delete key reg"

fun merge_imports :: "(string \<times> mapped_target) list \<Rightarrow> import_rules \<Rightarrow> import_rules" where
  "merge_imports [] m = m"
| "merge_imports ((k, v) # rest) m =
     (if omap_has m k then merge_imports rest m
      else if length m \<ge> IMPORTMAP_ENTRIES_CAP then m
      else merge_imports rest (AList.update k v m))"

fun merge_scopes ::
  "platform \<Rightarrow> string \<Rightarrow> (string \<times> json) list \<Rightarrow> (string, import_rules) omap \<Rightarrow> (string, import_rules) omap" where
  "merge_scopes pf key [] m = m"
| "merge_scopes pf key ((raw, v) # rest) m =
     (if length m \<ge> IMPORTMAP_SCOPES_CAP then m
      else case v of
        JObj fs \<Rightarrow> (case truthy (normalize_scope_key pf key raw) of
            None \<Rightarrow> merge_scopes pf key rest m
          | Some prefix \<Rightarrow> if omap_has m prefix then merge_scopes pf key rest m
              else merge_scopes pf key rest (AList.update prefix (collect_entries fs IMPORTMAP_ENTRIES_CAP []) m))
      | _ \<Rightarrow> merge_scopes pf key rest m)"

definition obj_field :: "json \<Rightarrow> string \<Rightarrow> (string \<times> json) list option" where
  "obj_field j k = (case jget j k of Some (JObj fs) \<Rightarrow> Some fs | _ \<Rightarrow> None)"

definition importmap_note ::
  "platform \<Rightarrow> (string \<Rightarrow> json option) \<Rightarrow> string \<Rightarrow> string \<Rightarrow> importmap_registry \<Rightarrow> importmap_registry" where
  "importmap_note pf parse key body reg = (case parse body of
     Some (JObj doc) \<Rightarrow>
       (let imports = obj_field (JObj doc) ''imports''; scopes = obj_field (JObj doc) ''scopes''
        in if imports = None \<and> scopes = None then reg
           else let page0 = (case map_of reg key of Some p \<Rightarrow> p | None \<Rightarrow> \<lparr>pi_imports = [], pi_scopes = []\<rparr>);
                    page1 = (case imports of None \<Rightarrow> page0
                      | Some fs \<Rightarrow> page0\<lparr>pi_imports := merge_imports (collect_entries fs IMPORTMAP_ENTRIES_CAP []) (pi_imports page0)\<rparr>);
                    page2 = (case scopes of None \<Rightarrow> page1
                      | Some fs \<Rightarrow> page1\<lparr>pi_scopes := merge_scopes pf key fs (pi_scopes page1)\<rparr>)
                in omap_put_capped IMPORTMAP_PAGES_CAP key page2 reg)
   | _ \<Rightarrow> reg)"

section \<open>Resolution\<close>

fun first_http :: "platform \<Rightarrow> string \<Rightarrow> string \<Rightarrow> string list \<Rightarrow> string option" where
  "first_http pf key app [] = None"
| "first_http pf key app (s # ss) = (case new_url_base pf (s @ app) key of
     Some u \<Rightarrow> if is_http_url u then Some (url_href u) else first_http pf key app ss
   | None \<Rightarrow> first_http pf key app ss)"

definition resolve_target :: "platform \<Rightarrow> string \<Rightarrow> mapped_target \<Rightarrow> string \<Rightarrow> string option" where
  "resolve_target pf key v app = (case v of Blocked \<Rightarrow> None
     | OneTarget s \<Rightarrow> first_http pf key app [s] | Fallbacks ss \<Rightarrow> first_http pf key app ss)"

definition longer_key :: "string \<times> 'v \<Rightarrow> string \<times> 'v \<Rightarrow> bool" where
  "longer_key x best \<longleftrightarrow> length (fst best) < length (fst x)"

text \<open>\<open>None\<close> when no key of the map matches, \<open>Some None\<close> when the map says that the load fails.\<close>

definition resolve_in :: "platform \<Rightarrow> import_rules \<Rightarrow> string \<Rightarrow> string \<Rightarrow> string option option" where
  "resolve_in pf m spec key = (case map_of m spec of
     Some v \<Rightarrow> Some (resolve_target pf key v [])
   | None \<Rightarrow> (case pick longer_key (filter (\<lambda>(k, _). ends_with k ''/'' \<and> starts_with spec k) m) of
       None \<Rightarrow> None
     | Some (k, v) \<Rightarrow> Some (resolve_target pf key v (drop (length k) spec))))"

definition scope_hit :: "platform \<Rightarrow> page_importmap \<Rightarrow> string \<Rightarrow> string \<Rightarrow> string \<Rightarrow> string option option" where
  "scope_hit pf page spec key p =
     (case map_of (pi_scopes page) p of Some m \<Rightarrow> resolve_in pf m spec key | None \<Rightarrow> None)"

fun cascade :: "platform \<Rightarrow> page_importmap \<Rightarrow> string \<Rightarrow> string \<Rightarrow> string list \<Rightarrow> string option option" where
  "cascade pf page spec key [] = None"
| "cascade pf page spec key (p # ps) =
     (case scope_hit pf page spec key p of Some hit \<Rightarrow> Some hit | None \<Rightarrow> cascade pf page spec key ps)"

definition scope_prefixes :: "page_importmap \<Rightarrow> string \<Rightarrow> string list" where
  "scope_prefixes page importer =
     sort_key (\<lambda>p. - int (length p)) (filter (\<lambda>p. starts_with importer p) (map fst (pi_scopes page)))"

definition flat_hit :: "string option option \<Rightarrow> string option" where
  "flat_hit h = (case h of Some x \<Rightarrow> x | None \<Rightarrow> None)"

definition resolve_bare_import :: "platform \<Rightarrow> importmap_registry \<Rightarrow> string \<Rightarrow> string \<Rightarrow> string option" where
  "resolve_bare_import pf reg key spec = (case map_of reg key of None \<Rightarrow> None
     | Some page \<Rightarrow> flat_hit (resolve_in pf (pi_imports page) spec key))"

definition resolve_bare_import_for ::
  "platform \<Rightarrow> importmap_registry \<Rightarrow> string \<Rightarrow> string option \<Rightarrow> string \<Rightarrow> string option" where
  "resolve_bare_import_for pf reg key importer spec = (case map_of reg key of None \<Rightarrow> None
     | Some page \<Rightarrow> (case (case truthy importer of None \<Rightarrow> None
           | Some u \<Rightarrow> cascade pf page spec key (scope_prefixes page u)) of
         Some hit \<Rightarrow> hit
       | None \<Rightarrow> flat_hit (resolve_in pf (pi_imports page) spec key)))"

lemma index_of_before: "index_of xs c = Some i \<Longrightarrow> c \<notin> set (take i xs)"
  by (induction xs arbitrary: i) (auto split: if_splits)

section \<open>Chunk boundaries do not matter\<close>

lemma index_of_append_left: "index_of xs c = Some i \<Longrightarrow> index_of (xs @ ys) c = Some i"
  by (induction xs arbitrary: i) (auto split: if_splits)

lemma index_of_append_none: "index_of xs c = None \<Longrightarrow> index_of (xs @ ys) c = map_option (\<lambda>i. length xs + i) (index_of ys c)"
proof (induction xs)
  case Nil
  then show ?case by (cases "index_of ys c") auto
next
  case (Cons x xs)
  then show ?case by (cases "index_of ys c") (auto split: if_splits)
qed

lemma find_close_bound: "find_close s = Some m \<Longrightarrow> m + 8 \<le> length s"
proof (induction s arbitrary: m)
  case (Cons c s)
  then show ?case
    by (auto simp: starts_with_def js_lower_def split: if_splits dest: arg_cong [where f = length])
qed simp

lemma starts_with_append_long: "length p \<le> length s \<Longrightarrow> starts_with (s @ t) p \<longleftrightarrow> starts_with s p"
  by (simp add: starts_with_def)

lemma find_close_append: "find_close s = Some m \<Longrightarrow> find_close (s @ t) = Some m"
proof (induction s arbitrary: m)
  case (Cons c s)
  show ?case
  proof (cases "starts_with (js_lower (c # s)) ''</script''")
    case True
    then obtain r where "js_lower (c # s) = ''</script'' @ r" by (auto simp: starts_with_iff)
    then have "starts_with (js_lower (c # s @ t)) ''</script''"
      by (simp add: js_lower_def starts_with_iff)
    then show ?thesis using True Cons.prems by simp
  next
    case False
    then obtain k where k: "find_close s = Some k" "m = Suc k" using Cons.prems by auto
    have "8 \<le> length (c # s)" using find_close_bound [OF Cons.prems] by simp
    then have "starts_with (js_lower (c # s @ t)) ''</script'' \<longleftrightarrow> starts_with (js_lower (c # s)) ''</script''"
      using starts_with_append_long [of "''</script''" "js_lower (c # s)" "js_lower t"] by (simp add: js_lower_def)
    then show ?thesis using False Cons.IH [OF k(1)] k(2) by simp
  qed
qed simp

text \<open>Without a close tag in \<open>s\<close>, none starts more than 8 characters before the end of \<open>s\<close>.\<close>

lemma find_close_skip:
  "find_close s = None \<Longrightarrow> k + 8 \<le> length s \<or> k = 0 \<Longrightarrow>
   find_close (s @ t) = map_option (\<lambda>m. k + m) (find_close (drop k s @ t))"
proof (induction k arbitrary: s)
  case 0
  then show ?case by (simp add: option.map_ident)
next
  case (Suc k)
  then obtain c s' where s: "s = c # s'" by (cases s) auto
  have no: "\<not> starts_with (js_lower (c # s')) ''</script''" "find_close s' = None"
    using Suc.prems(1) by (auto simp: s split: if_splits)
  have "\<not> starts_with (js_lower (c # s' @ t)) ''</script''"
    using no(1) Suc.prems(2) starts_with_append_long [of "''</script''" "js_lower (c # s')" "js_lower t"]
    by (simp add: s js_lower_def)
  then show ?case
    using Suc.IH [OF no(2)] Suc.prems(2) by (simp add: s option.map_comp comp_def)
qed

lemma scan_open_skip:
  assumes "\<not> sc_capturing s" "CHR ''<'' \<notin> set a"
  shows "scan_loop (s\<lparr>sc_pending := a @ p\<rparr>) = scan_loop (s\<lparr>sc_pending := p\<rparr>)"
proof -
  have "index_of a (CHR ''<'') = None" using assms(2) by (simp add: index_of_None)
  then have i: "index_of (a @ p) (CHR ''<'') = map_option (\<lambda>i. length a + i) (index_of p (CHR ''<''))"
    by (rule index_of_append_none)
  show ?thesis
    by (subst (1 2) scan_loop.simps) (simp add: assms(1) i Let_def split: option.splits)
qed

lemma scan_capture_skip:
  assumes "sc_capturing s" "\<not> sc_truncated s" "find_close (a @ b) = None" "length a + 8 \<le> length (a @ b) \<or> a = []"
    "length (sc_body s) + length a + length b + length q \<le> IMPORTMAP_BODY_CAP"
  shows "scan_loop (s\<lparr>sc_pending := (a @ b) @ q\<rparr>) = scan_loop (s\<lparr>sc_pending := b @ q, sc_body := sc_body s @ a\<rparr>)"
proof -
  have f: "find_close ((a @ b) @ q) = map_option (\<lambda>m. length a + m) (find_close (b @ q))"
    using find_close_skip [OF assms(3), of "length a" q] assms(4) by auto
  show ?thesis
  proof (cases "find_close (b @ q)")
    case (Some m)
    have "m + 8 \<le> length (b @ q)" by (rule find_close_bound [OF Some])
    then show ?thesis
      using assms(1,2,5) f Some
      by (subst (1 2) scan_loop.simps) (simp add: Let_def)
  next
    case None
    have l: "length a + (length b + length q) - min 8 (length a + (length b + length q))
        = length a + (length b + length q - min 8 (length b + length q))"
      using assms(4) by auto
    show ?thesis
      using assms(1,2,5) f None
      by (subst (1 2) scan_loop.simps) (simp add: Let_def l)
  qed
qed

definition scan_small :: "scan_state \<Rightarrow> nat \<Rightarrow> bool" where
  "scan_small s n \<longleftrightarrow> length (sc_pending s) + (if sc_capturing s then length (sc_body s) else 0) + n \<le> PENDING_CAP
     \<and> (sc_capturing s \<longrightarrow> \<not> sc_truncated s)"

lemma scan_loop_append:
  "scan_small s (length q) \<Longrightarrow>
   scan_loop (s\<lparr>sc_pending := sc_pending s @ q\<rparr>) = scan_loop ((scan_loop s)\<lparr>sc_pending := sc_pending (scan_loop s) @ q\<rparr>)
   \<and> scan_small (scan_loop s) (length q)"
proof (induction s rule: scan_loop.induct)
  case (1 s)
  let ?p = "sc_pending s"
  show ?case
  proof (cases "sc_capturing s")
    case False
    show ?thesis
    proof (cases "index_of ?p (CHR ''<'')")
      case None
      have r: "scan_loop s = s\<lparr>sc_pending := []\<rparr>"
        by (subst scan_loop.simps) (simp add: False None)
      show ?thesis
        using scan_open_skip [OF False, of ?p q] None "1.prems" False
        by (simp add: r index_of_None scan_small_def)
    next
      case (Some lt)
      note lt = index_of_Some [OF Some]
      show ?thesis
      proof (cases "index_of (drop lt ?p) (CHR ''>'')")
        case None
        have "length (drop lt ?p) \<le> PENDING_CAP" using "1.prems" False by (simp add: scan_small_def)
        then have r: "scan_loop s = s\<lparr>sc_pending := drop lt ?p\<rparr>"
          by (subst scan_loop.simps) (simp add: False Some None Let_def)
        have "CHR ''<'' \<notin> set (take lt ?p)" using Some by (rule index_of_before)
        from scan_open_skip [OF False this, of "drop lt ?p @ q"]
        have "scan_loop (s\<lparr>sc_pending := ?p @ q\<rparr>) = scan_loop (s\<lparr>sc_pending := drop lt ?p @ q\<rparr>)"
          by (simp add: append_assoc [symmetric] del: append_assoc)
        then show ?thesis using "1.prems" False by (simp add: r scan_small_def)
      next
        case (Some gt)
        note lts = \<open>index_of ?p (CHR ''<'') = Some lt\<close>
        let ?tag = "take (gt + 1) (drop lt ?p)" and ?rest = "drop (gt + 1) (drop lt ?p)"
        let ?s = "if opens_importmap ?tag
           then s\<lparr>sc_pending := ?rest, sc_capturing := True, sc_truncated := False, sc_body := []\<rparr>
           else s\<lparr>sc_pending := ?rest\<rparr>"
        have gt: "gt < length (drop lt ?p)" using index_of_Some [OF Some] by blast
        have r: "scan_loop s = scan_loop ?s"
          by (subst scan_loop.simps) (simp only: Let_def False lts Some if_False not_False_eq_True if_True option.case)
        have dq: "drop lt (?p @ q) = drop lt ?p @ q" using lt by simp
        have "scan_loop (s\<lparr>sc_pending := ?p @ q\<rparr>) = scan_loop (?s\<lparr>sc_pending := sc_pending ?s @ q\<rparr>)"
          using gt by (subst scan_loop.simps)
            (auto simp: False index_of_append_left [OF lts] index_of_append_left [OF Some] dq Let_def
              intro!: arg_cong [where f = scan_loop])
        moreover have "scan_small ?s (length q)" using "1.prems" False by (simp add: scan_small_def)
        ultimately show ?thesis
          using "1.IH"(1) [OF refl _ lts Some refl refl] False by (simp add: r)
      qed
    qed
  next
    case True
    show ?thesis
    proof (cases "find_close ?p")
      case (Some m)
      let ?s = "s\<lparr>sc_pending := drop m ?p, sc_capturing := False, sc_body := [],
         sc_notes := sc_notes s @ (if \<not> sc_truncated s \<and> length (sc_body s @ take m ?p) \<le> IMPORTMAP_BODY_CAP
           then [sc_body s @ take m ?p] else [])\<rparr>"
      have m: "m \<le> length ?p" using find_close_bound [OF Some] by simp
      have r: "scan_loop s = scan_loop ?s"
        by (subst scan_loop.simps) (simp add: True Some Let_def)
      have "scan_loop (s\<lparr>sc_pending := ?p @ q\<rparr>) = scan_loop (?s\<lparr>sc_pending := sc_pending ?s @ q\<rparr>)"
        using m by (subst scan_loop.simps) (auto simp: True find_close_append [OF Some] Let_def intro!: arg_cong [where f = scan_loop])
      moreover have "scan_small ?s (length q)" using "1.prems" True by (auto simp: scan_small_def)
      ultimately show ?thesis
        using "1.IH"(2) [OF refl _ Some refl] True by (simp add: r)
    next
      case None
      let ?k = "length ?p - min 8 (length ?p)"
      have body: "length (sc_body s) + length ?p + length q \<le> IMPORTMAP_BODY_CAP" and nt: "\<not> sc_truncated s"
        using "1.prems" True by (simp_all add: scan_small_def PENDING_CAP_def IMPORTMAP_BODY_CAP_def)
      have r: "scan_loop s = s\<lparr>sc_pending := drop ?k ?p, sc_body := sc_body s @ take ?k ?p\<rparr>"
        using body nt by (subst scan_loop.simps) (simp add: True None Let_def)
      have "scan_loop (s\<lparr>sc_pending := (take ?k ?p @ drop ?k ?p) @ q\<rparr>)
          = scan_loop (s\<lparr>sc_pending := drop ?k ?p @ q, sc_body := sc_body s @ take ?k ?p\<rparr>)"
        by (rule scan_capture_skip [OF True nt]) (use None body in auto)
      then show ?thesis using "1.prems" True nt by (auto simp: r scan_small_def intro!: arg_cong [where f = scan_loop])
    qed
  qed
qed

lemma scan_feed_append:
  assumes "scan_small (sc_state s) (length a + length b)" "sc_fed s + length a + length b < IMPORTMAP_SCAN_TEXT_MAX"
    "\<not> sc_done s"
  shows "scan_feed b (scan_feed a s) = scan_feed (a @ b) s"
proof -
  let ?w = "sc_state s\<lparr>sc_pending := sc_pending (sc_state s) @ a\<rparr>"
  have "scan_small ?w (length b)" using assms(1) by (auto simp: scan_small_def)
  from conjunct1 [OF scan_loop_append [OF this]] show ?thesis
    using assms by (simp add: scan_feed_def Let_def add.assoc)
qed

lemma scan_feeds:
  "scan_small (sc_state s) (sum_list (map length cs)) \<Longrightarrow> sc_fed s + sum_list (map length cs) < IMPORTMAP_SCAN_TEXT_MAX
   \<Longrightarrow> \<not> sc_done s \<Longrightarrow> cs \<noteq> [] \<Longrightarrow> fold scan_feed cs s = scan_feed (concat cs) s"
proof (induction cs arbitrary: s rule: length_induct)
  case (1 cs)
  then obtain c ds where cs: "cs = c # ds" by (cases cs) auto
  show ?case
  proof (cases ds)
    case (Cons d es)
    have sm: "scan_small (sc_state s) (length c + length d)" using 1(2) by (auto simp: cs Cons scan_small_def)
    have "fold scan_feed cs s = fold scan_feed ((c @ d) # es) s"
      using scan_feed_append [OF sm] 1(3,4) by (simp add: cs Cons)
    also have "\<dots> = scan_feed (concat ((c @ d) # es)) s"
      by (rule 1(1) [rule_format]) (use 1(2-4) in \<open>simp_all add: cs Cons add.assoc\<close>)
    finally show ?thesis by (simp add: cs Cons)
  qed (simp add: cs)
qed

text \<open>C39. Cutting a document of at most 65536 code units into chunks anywhere finds the same import maps.\<close>

theorem chunks_do_not_matter:
  assumes "sum_list (map length chunks) \<le> PENDING_CAP" "chunks \<noteq> []"
  shows "fold scan_feed chunks new_scanner = scan_feed (concat chunks) new_scanner"
  using scan_feeds [of new_scanner chunks] assms
  by (simp add: new_scanner_def scan_small_def PENDING_CAP_def IMPORTMAP_SCAN_TEXT_MAX_def)

lemma chunks_do_not_matter_witness:
  "fold scan_feed [''<scr'', ''ipt type=importmap>{}</s'', ''cript>''] new_scanner
   = scan_feed ''<script type=importmap>{}</script>'' new_scanner"
  using chunks_do_not_matter [of "[''<scr'', ''ipt type=importmap>{}</s'', ''cript>'']"]
  by (simp add: PENDING_CAP_def)

section \<open>The cascade\<close>

text \<open>Within one map the longest matching prefix key is chosen.\<close>

interpretation longest_prefix: first_selection "longer_key :: string \<times> mapped_target \<Rightarrow> _" "\<lambda>x. length (fst x)"
  by unfold_locales (simp_all add: longer_key_def)

lemma exact_key_wins: "map_of m spec = Some v \<Longrightarrow> resolve_in pf m spec key = Some (resolve_target pf key v [])"
  by (simp add: resolve_in_def)

lemma longest_prefix_wins:
  assumes "map_of m spec = None" "(k, v) \<in> set m" "ends_with k ''/''" "starts_with spec k" "distinct (map fst m)"
    "\<forall>(k', v') \<in> set m. ends_with k' ''/'' \<and> starts_with spec k' \<longrightarrow> length k' \<le> length k"
  shows "resolve_in pf m spec key = Some (resolve_target pf key v (drop (length k) spec))"
proof -
  let ?f = "\<lambda>(k, _). ends_with k ''/'' \<and> starts_with spec k"
  obtain xs ys where m: "m = xs @ (k, v) # ys" using assms(2) by (meson split_list)
  have shorter: "length (fst x) < length k" if "x \<in> set (filter ?f xs)" for x
  proof -
    have x: "x \<in> set xs" "starts_with spec (fst x)" "ends_with (fst x) ''/''" using that by auto
    have "length (fst x) \<le> length k" using x assms(6) by (auto simp: m split_beta)
    moreover have "fst x \<noteq> k" using x(1) assms(5) by (force simp: m)
    ultimately show ?thesis
      using x(2) assms(4) by (auto simp: starts_with_def le_less)
  qed
  have "pick longer_key (filter ?f xs @ (k, v) # filter ?f ys) = Some (k, v)"
    by (rule longest_prefix.pick_first) (use shorter assms(6) in \<open>auto simp: m split_beta\<close>)
  then have "pick longer_key (filter ?f m) = Some (k, v)" using assms(3,4) by (simp add: m)
  then show ?thesis using assms(1) by (simp add: resolve_in_def)
qed

lemma cascade_decides:
  "p \<in> set ps \<Longrightarrow> sorted_wrt (\<lambda>a b. length b \<le> length a) ps \<Longrightarrow> scope_hit pf page spec key p = Some hit
   \<Longrightarrow> \<forall>q \<in> set ps. length p \<le> length q \<longrightarrow> q = p \<or> scope_hit pf page spec key q = None
   \<Longrightarrow> cascade pf page spec key ps = Some hit"
proof (induction ps)
  case (Cons q ps)
  show ?case
  proof (cases "q = p")
    case False
    then have "p \<in> set ps" "length p \<le> length q" using Cons.prems(1,2) by auto
    then show ?thesis using Cons False by auto
  qed (use Cons in simp)
qed simp

lemma scope_prefixes_sorted: "sorted_wrt (\<lambda>a b. length b \<le> length a) (scope_prefixes page u)"
proof -
  have "sorted (map (\<lambda>p. - int (length p)) (scope_prefixes page u))" by (simp add: scope_prefixes_def)
  then show ?thesis by (simp add: sorted_map)
qed

text \<open>The longest scope that contains the importing module and has a rule for the specifier decides, with
  the failure it may state; no shorter scope and no top-level rule is asked.\<close>

theorem most_specific_scope_decides:
  assumes "map_of reg key = Some page" "u \<noteq> []" "map_of (pi_scopes page) p = Some m" "starts_with u p"
    "resolve_in pf m spec key = Some hit"
    "\<And>q m'. map_of (pi_scopes page) q = Some m' \<Longrightarrow> starts_with u q \<Longrightarrow> length p < length q \<Longrightarrow> resolve_in pf m' spec key = None"
  shows "resolve_bare_import_for pf reg key (Some u) spec = hit"
proof -
  have "cascade pf page spec key (scope_prefixes page u) = Some hit"
  proof (rule cascade_decides [OF _ scope_prefixes_sorted])
    show "p \<in> set (scope_prefixes page u)"
      using assms(3,4) by (force simp: scope_prefixes_def dest: map_of_SomeD)
    show "scope_hit pf page spec key p = Some hit" using assms(3,5) by (simp add: scope_hit_def)
    show "\<forall>q \<in> set (scope_prefixes page u). length p \<le> length q \<longrightarrow> q = p \<or> scope_hit pf page spec key q = None"
    proof (intro ballI impI)
      fix q
      assume q: "q \<in> set (scope_prefixes page u)" and l: "length p \<le> length q"
      have s: "starts_with u q" using q by (simp add: scope_prefixes_def)
      show "q = p \<or> scope_hit pf page spec key q = None"
      proof (cases "length p = length q")
        case True
        then show ?thesis using s assms(4) by (simp add: starts_with_def)
      next
        case False
        then show ?thesis using l s assms(6) by (auto simp: scope_hit_def split: option.splits)
      qed
    qed
  qed
  then show ?thesis using assms(1,2) by (simp add: resolve_bare_import_for_def truthy_def)
qed

definition demo_maps :: importmap_registry where
  "demo_maps = [(''P'', \<lparr>pi_imports = [(''x'', OneTarget ''/top.js'')],
     pi_scopes = [(''P/a/'', [(''x'', OneTarget ''/a.js'')]), (''P/a/b/'', [(''x'', Blocked)]), (''P/a/b/c/'', [])]\<rparr>)]"

lemma most_specific_scope_decides_witness:
  "\<forall>pf. resolve_bare_import_for pf demo_maps ''P'' (Some ''P/a/b/m.js'') ''x'' = None"
  by (intro allI, rule most_specific_scope_decides [where p = "''P/a/b/''" and m = "[(''x'', Blocked)]"])
    (auto simp: demo_maps_def resolve_in_def resolve_target_def starts_with_def split: if_splits)

lemma no_scope_top_level:
  assumes "map_of reg key = Some page" "\<And>q m. map_of (pi_scopes page) q = Some m \<Longrightarrow> \<not> starts_with u q"
  shows "resolve_bare_import_for pf reg key (Some u) spec = resolve_bare_import pf reg key spec"
proof -
  have "scope_prefixes page u = []"
  proof -
    have "\<not> starts_with u q" if "q \<in> fst ` set (pi_scopes page)" for q
      using that assms(2) by (meson map_of_eq_None_iff not_None_eq)
    then show ?thesis by (simp add: scope_prefixes_def filter_empty_conv)
  qed
  then show ?thesis using assms(1) by (cases u) (simp_all add: resolve_bare_import_for_def resolve_bare_import_def truthy_def)
qed

section \<open>Merging keeps the first rule\<close>

lemma merge_imports_keeps: "map_of m k = Some v \<Longrightarrow> map_of (merge_imports es m) k = Some v"
proof (induction es m rule: merge_imports.induct)
  case (2 k' v' rest m)
  then show ?case by (cases "k = k'") (auto simp: omap_has_def)
qed simp

lemma merge_imports_bound: "length m \<le> IMPORTMAP_ENTRIES_CAP \<Longrightarrow> length (merge_imports es m) \<le> IMPORTMAP_ENTRIES_CAP"
proof (induction es m rule: merge_imports.induct)
  case (2 k v rest m)
  then show ?case by (auto simp: length_update_new)
qed simp

end
