(* ===== verification/ExtStorage.thy ===== *)
theory ExtStorage
  imports Prelude
begin

text \<open>
  \<open>browser.storage\<close> (\<open>src/app/src/extensions/storage.ts\<close>), the level of access to the session area, and the
  storage branch of the content script messages (\<open>extensions/control.ts\<close>). The values are those of
  \<open>JSON.stringify\<close> and \<open>JSON.parse\<close>, which are arguments: \<open>ser v\<close> is \<open>None\<close> when a value is not serializable.
  The stored values of the data base are strings, or something else (\<open>None\<close>, such as the \<open>null\<close> of a
  removed key). A write to the data base takes effect at once or is rejected: \<open>stored\<close> says which, and
  \<open>opened\<close> whether the data base opens. Memory changes before the write is awaited, so a rejected write
  leaves memory and data base different.
\<close>

section \<open>The areas\<close>

datatype area_name = LocalArea | SyncArea | SessionArea

fun area_text :: "area_name \<Rightarrow> string" where
  "area_text LocalArea = ''local''" | "area_text SyncArea = ''sync''" | "area_text SessionArea = ''session''"

definition SYNC_QUOTA_BYTES :: nat where "SYNC_QUOTA_BYTES = 102400"

definition SYNC_QUOTA_BYTES_PER_ITEM :: nat where "SYNC_QUOTA_BYTES_PER_ITEM = 8192"

definition SYNC_MAX_ITEMS :: nat where "SYNC_MAX_ITEMS = 512"

definition SYNC_MAX_WRITES_PER_HOUR :: nat where "SYNC_MAX_WRITES_PER_HOUR = 1800"

definition SYNC_MAX_WRITES_PER_MINUTE :: nat where "SYNC_MAX_WRITES_PER_MINUTE = 120"

fun default_quota :: "area_name \<Rightarrow> int" where
  "default_quota LocalArea = 5 * 1024 * 1024"
| "default_quota SyncArea = int SYNC_QUOTA_BYTES"
| "default_quota SessionArea = 1024 * 1024"

text \<open>\<open>sa_unlimited\<close> is the quota override, which is only ever given as infinity.\<close>

record area =
  sa_id :: string
  sa_name :: area_name
  sa_unlimited :: bool

definition over_quota :: "area \<Rightarrow> int \<Rightarrow> bool" where
  "over_quota a n \<longleftrightarrow> \<not> sa_unlimited a \<and> n > default_quota (sa_name a)"

record area_state =
  st_mem :: "(string, string) omap"
  st_bytes :: int
  st_ops :: "int list"

definition fresh_area :: area_state where
  "fresh_area = \<lparr>st_mem = [], st_bytes = 0, st_ops = []\<rparr>"

type_synonym area_db = "(string, string option) omap"

datatype storage_error =
  WritesPerHour | WritesPerMinute | MaxItems | QuotaPerItem | QuotaExceeded | NotSerializable string
  | StoreRejected | DataBaseClosed

definition area_prefix :: "area \<Rightarrow> string" where
  "area_prefix a = sa_id a @ '':'' @ area_text (sa_name a) @ '':''"

definition storage_key :: "area \<Rightarrow> string \<Rightarrow> string" where
  "storage_key a key = area_prefix a @ key"

section \<open>The rate of writes\<close>

definition prune_ops :: "int \<Rightarrow> int list \<Rightarrow> int list" where
  "prune_ops now ops = dropWhile (\<lambda>t. now - t > 3600000) ops"

text \<open>The operations of the last minute, counted from the newest to the first older one.\<close>

definition last_minute :: "int \<Rightarrow> int list \<Rightarrow> nat" where
  "last_minute now ops = length (takeWhile (\<lambda>t. now - t \<le> 60000) (rev ops))"

text \<open>\<open>admit\<close>: the error it throws and the operations it leaves.\<close>

definition admit_write :: "int \<Rightarrow> int list \<Rightarrow> storage_error option \<times> int list" where
  "admit_write now ops0 =
     (let ops = prune_ops now ops0
      in if length ops \<ge> SYNC_MAX_WRITES_PER_HOUR then (Some WritesPerHour, ops)
         else if last_minute now ops \<ge> SYNC_MAX_WRITES_PER_MINUTE then (Some WritesPerMinute, ops)
         else (None, ops @ [now]))"

definition admit_area :: "area \<Rightarrow> int \<Rightarrow> area_state \<Rightarrow> storage_error option \<times> area_state" where
  "admit_area a now s =
     (if sa_name a = SyncArea
      then let (e, ops) = admit_write now (st_ops s) in (e, s\<lparr>st_ops := ops\<rparr>)
      else (None, s))"

section \<open>Operations\<close>

definition count_bytes :: "(string, string) omap \<Rightarrow> int" where
  "count_bytes m = (\<Sum>(_, j) \<leftarrow> m. int (length j))"

definition recount :: "area_state \<Rightarrow> area_state" where
  "recount s = s\<lparr>st_bytes := count_bytes (st_mem s)\<rparr>"

fun load_keys :: "string \<Rightarrow> area_db \<Rightarrow> (string, string) omap \<Rightarrow> (string, string) omap" where
  "load_keys prefix [] m = m"
| "load_keys prefix ((k, v) # kvs) m =
     (if \<not> starts_with k prefix then load_keys prefix kvs m
      else case v of None \<Rightarrow> load_keys prefix kvs m
        | Some j \<Rightarrow> load_keys prefix kvs (AList.update (drop (length prefix) k) j m))"

definition area_load :: "area \<Rightarrow> area_db \<Rightarrow> area_state \<Rightarrow> area_state" where
  "area_load a db s =
     (if sa_name a = SessionArea then s
      else recount (s\<lparr>st_mem := load_keys (area_prefix a) db (st_mem s)\<rparr>))"

text \<open>What \<open>get\<close> is asked for: everything, keys, or keys with their defaults.\<close>

datatype 'v wanted = AllKeys | TheKeys "string list" | WithDefaults "(string \<times> 'v) list"

text \<open>A key without value and default reads as \<open>null\<close> (\<open>None\<close>).\<close>

definition area_get :: "(string \<Rightarrow> 'v) \<Rightarrow> 'v wanted \<Rightarrow> area_state \<Rightarrow> (string, 'v option) omap" where
  "area_get thaw w s =
     (let ask = (\<lambda>ks defaults. fold (\<lambda>k out. AList.update k (case map_of (st_mem s) k of
            Some j \<Rightarrow> Some (thaw j) | None \<Rightarrow> map_of defaults k) out) ks [])
      in case w of
           AllKeys \<Rightarrow> map (\<lambda>(k, j). (k, Some (thaw j))) (st_mem s)
         | TheKeys ks \<Rightarrow> ask ks []
         | WithDefaults ds \<Rightarrow> ask (map fst ds) ds)"

text \<open>The limits of the sync area that \<open>set\<close> checks before it writes.\<close>

definition sync_refusal :: "('v \<Rightarrow> string option) \<Rightarrow> (string \<times> 'v) list \<Rightarrow> area_state \<Rightarrow> storage_error option" where
  "sync_refusal ser items s =
     (if card (set (map fst (st_mem s)) \<union> set (map fst items)) > SYNC_MAX_ITEMS then Some MaxItems
      else if \<exists>(k, v) \<in> set items. (case ser v of Some j \<Rightarrow> length j > SYNC_QUOTA_BYTES_PER_ITEM | None \<Rightarrow> False)
      then Some QuotaPerItem else None)"

text \<open>A change an area reports: the old text and the new value.\<close>

type_synonym 'v storage_change = "string \<times> string option \<times> 'v option"

text \<open>The put of a record that a change of memory is followed by.\<close>

definition store_record :: "area \<Rightarrow> bool \<Rightarrow> string \<Rightarrow> string option \<Rightarrow> area_db \<Rightarrow> storage_error option \<times> area_db" where
  "store_record a stored k v db =
     (if sa_name a = SessionArea then (None, db)
      else if stored then (None, AList.update (storage_key a k) v db) else (Some StoreRejected, db))"

text \<open>The body of the loop of \<open>set\<close>.\<close>

definition put_item ::
  "('v \<Rightarrow> string option) \<Rightarrow> area \<Rightarrow> int \<Rightarrow> bool \<Rightarrow> string \<Rightarrow> 'v \<Rightarrow> area_state \<Rightarrow> area_db
   \<Rightarrow> (storage_error + 'v storage_change) \<times> area_state \<times> area_db" where
  "put_item ser a now stored k v s0 db = (case ser v of
     None \<Rightarrow> (Inl (NotSerializable k), s0, db)
   | Some j \<Rightarrow> (case admit_area a now s0 of
       (Some e, s) \<Rightarrow> (Inl e, s, db)
     | (None, s) \<Rightarrow>
       (let old = map_of (st_mem s) k;
            old_length = (case old of Some j0 \<Rightarrow> int (length j0) | None \<Rightarrow> 0)
        in if over_quota a (st_bytes s - old_length + int (length j)) then (Inl QuotaExceeded, s, db)
           else
             let s = s\<lparr>st_mem := AList.update k j (st_mem s)\<rparr>
             in case store_record a stored k (Some j) db of
               (Some e, db) \<Rightarrow> (Inl e, s, db)
             | (None, db) \<Rightarrow> (Inr (k, old, Some v), s, db))))"

text \<open>An item that throws ends the call: the earlier items stay written, without a recount and without a
  report. Each item comes with the clock reading at which it is written and with the answer of the data base.\<close>

fun put_items ::
  "('v \<Rightarrow> string option) \<Rightarrow> area \<Rightarrow> (int \<times> bool \<times> string \<times> 'v) list \<Rightarrow> area_state \<Rightarrow> area_db
   \<Rightarrow> (storage_error + 'v storage_change list) \<times> area_state \<times> area_db" where
  "put_items ser a [] s db = (Inr [], s, db)"
| "put_items ser a ((now, stored, k, v) # rest) s db = (case put_item ser a now stored k v s db of
     (Inl e, s', db') \<Rightarrow> (Inl e, s', db')
   | (Inr c, s', db') \<Rightarrow> (case put_items ser a rest s' db' of
       (Inl e, s'', db'') \<Rightarrow> (Inl e, s'', db'')
     | (Inr cs, s'', db'') \<Rightarrow> (Inr (c # cs), s'', db'')))"

definition area_set ::
  "('v \<Rightarrow> string option) \<Rightarrow> area \<Rightarrow> bool \<Rightarrow> (int \<times> bool \<times> string \<times> 'v) list \<Rightarrow> area_state \<Rightarrow> area_db
   \<Rightarrow> (storage_error + 'v storage_change list) \<times> area_state \<times> area_db" where
  "area_set ser a opened items s db =
     (if sa_name a \<noteq> SessionArea \<and> \<not> opened then (Inl DataBaseClosed, s, db)
      else case (if sa_name a = SyncArea then sync_refusal ser (map (snd \<circ> snd) items) s else None) of
        Some e \<Rightarrow> (Inl e, s, db)
      | None \<Rightarrow> (case put_items ser a items s db of
          (Inl e, s', db') \<Rightarrow> (Inl e, s', db')
        | (Inr cs, s', db') \<Rightarrow> (Inr cs, recount s', db')))"

text \<open>The loop of \<open>remove\<close>: the answers of the data base come with the keys.\<close>

fun drop_keys ::
  "area \<Rightarrow> (bool \<times> string) list \<Rightarrow> area_state \<Rightarrow> area_db
   \<Rightarrow> (storage_error + 'v storage_change list) \<times> area_state \<times> area_db" where
  "drop_keys a [] s db = (Inr [], s, db)"
| "drop_keys a ((stored, k) # ks) s db = (case map_of (st_mem s) k of
     None \<Rightarrow> drop_keys a ks s db
   | Some old \<Rightarrow>
     (let s = s\<lparr>st_mem := AList.delete k (st_mem s)\<rparr>
      in case store_record a stored k None db of
        (Some e, db) \<Rightarrow> (Inl e, s, db)
      | (None, db) \<Rightarrow> (case drop_keys a ks s db of
          (Inl e, s', db') \<Rightarrow> (Inl e, s', db')
        | (Inr cs, s', db') \<Rightarrow> (Inr ((k, Some old, None) # cs), s', db'))))"

definition area_remove ::
  "area \<Rightarrow> bool \<Rightarrow> int \<Rightarrow> (bool \<times> string) list \<Rightarrow> area_state \<Rightarrow> area_db
   \<Rightarrow> (storage_error + 'v storage_change list) \<times> area_state \<times> area_db" where
  "area_remove a opened now ks s0 db =
     (if sa_name a \<noteq> SessionArea \<and> \<not> opened then (Inl DataBaseClosed, s0, db)
      else case admit_area a now s0 of
        (Some e, s) \<Rightarrow> (Inl e, s, db)
      | (None, s) \<Rightarrow> (case drop_keys a ks s db of
          (Inl e, s', db') \<Rightarrow> (Inl e, s', db')
        | (Inr cs, s', db') \<Rightarrow> (Inr cs, recount s', db')))"

text \<open>\<open>answers k\<close> is the answer to the record of \<open>k\<close>.\<close>

definition area_clear ::
  "area \<Rightarrow> bool \<Rightarrow> int \<Rightarrow> (string \<Rightarrow> bool) \<Rightarrow> area_state \<Rightarrow> area_db
   \<Rightarrow> (storage_error + 'v storage_change list) \<times> area_state \<times> area_db" where
  "area_clear a opened now answers s db = area_remove a opened now (map (\<lambda>(k, _). (answers k, k)) (st_mem s)) s db"

definition area_bytes_in_use :: "string list option \<Rightarrow> area_state \<Rightarrow> int" where
  "area_bytes_in_use ks s = (case ks of None \<Rightarrow> st_bytes s
   | Some l \<Rightarrow> (\<Sum>k \<leftarrow> l. case map_of (st_mem s) k of Some j \<Rightarrow> int (length j) | None \<Rightarrow> 0))"

section \<open>The session area and content scripts\<close>

datatype access_level = TrustedOnly | TrustedAndUntrusted

type_synonym session_access = "(string, access_level) omap"

definition session_access_of :: "session_access \<Rightarrow> string \<Rightarrow> access_level" where
  "session_access_of m i = (case map_of m i of Some l \<Rightarrow> l | None \<Rightarrow> TrustedOnly)"

definition level_of_text :: "json \<Rightarrow> access_level option" where
  "level_of_text j = (if j = JStr ''TRUSTED_CONTEXTS_ONLY'' then Some TrustedOnly
     else if j = JStr ''TRUSTED_AND_UNTRUSTED_CONTEXTS'' then Some TrustedAndUntrusted else None)"

text \<open>\<open>None\<close> is the error for an unknown level.\<close>

definition set_session_access :: "string \<Rightarrow> json \<Rightarrow> session_access \<Rightarrow> session_access option" where
  "set_session_access i arg m =
     (case (case level_of_text arg of Some l \<Rightarrow> Some l
            | None \<Rightarrow> (case jget arg ''accessLevel'' of Some x \<Rightarrow> level_of_text x | None \<Rightarrow> None)) of
        None \<Rightarrow> None | Some l \<Rightarrow> Some (AList.update i l m))"

definition drop_session_access :: "string \<Rightarrow> session_access \<Rightarrow> session_access" where
  "drop_session_access i m = AList.delete i m"

definition content_script_may_use_session :: "session_access \<Rightarrow> string \<Rightarrow> bool" where
  "content_script_may_use_session m i \<longleftrightarrow> session_access_of m i = TrustedAndUntrusted"

datatype storage_gate = NoPermission | NoSession | NoSuchArea | BadOp | Gated area_name string

text \<open>The storage message of a content script: the permissions of the extension, the area and the operation it names.\<close>

definition storage_gate_of :: "session_access \<Rightarrow> string \<Rightarrow> string list \<Rightarrow> string \<Rightarrow> string \<Rightarrow> storage_gate" where
  "storage_gate_of m i perms name op =
     (if ''storage'' \<notin> set perms then NoPermission
      else if name = ''session'' \<and> \<not> content_script_may_use_session m i then NoSession
      else case find (\<lambda>n. area_text n = name) [LocalArea, SyncArea, SessionArea] of
        None \<Rightarrow> NoSuchArea
      | Some n \<Rightarrow> if op \<in> {''get'', ''set'', ''remove'', ''clear''} then Gated n op else BadOp)"

section \<open>The rate limit holds\<close>

fun admitted :: "int list \<Rightarrow> int list \<Rightarrow> int list" where
  "admitted [] ops = []"
| "admitted (t # ts) ops = (case admit_write t ops of
     (None, ops') \<Rightarrow> t # admitted ts ops' | (Some _, ops') \<Rightarrow> admitted ts ops')"

definition in_window :: "int \<Rightarrow> int \<Rightarrow> int list \<Rightarrow> nat" where
  "in_window w d xs = length (filter (\<lambda>t. w \<le> t \<and> t \<le> w + d) xs)"

lemma sorted_dropWhile: "sorted xs \<Longrightarrow> dropWhile (\<lambda>t. now - t > d) xs = filter (\<lambda>t. now - t \<le> d) (xs :: int list)"
proof (induction xs)
  case (Cons x xs)
  show ?case
  proof (cases "now - x > d")
    case False
    then have "\<forall>y \<in> set (x # xs). now - y \<le> d" using Cons.prems by force
    then show ?thesis by (simp add: False filter_id_conv)
  qed (use Cons in simp)
qed simp

lemma sorted_takeWhile_rev:
  "sorted xs \<Longrightarrow> takeWhile (\<lambda>t. now - t \<le> d) (rev xs) = rev (filter (\<lambda>t. now - t \<le> d) (xs :: int list))"
proof (induction xs rule: rev_induct)
  case (snoc x xs)
  show ?case
  proof (cases "now - x \<le> d")
    case False
    then have "\<forall>y \<in> set xs. \<not> now - y \<le> d" using snoc.prems by (force simp: sorted_append)
    then show ?thesis using False by (simp add: filter_empty_conv)
  qed (use snoc in \<open>simp add: sorted_append\<close>)
qed simp

text \<open>\<open>H\<close> are all admitted operations, \<open>ops\<close> those the limiter still holds at \<open>T\<close>.\<close>

definition limiter_holds :: "int \<Rightarrow> int list \<Rightarrow> int list \<Rightarrow> bool" where
  "limiter_holds T H ops \<longleftrightarrow> sorted H \<and> (\<forall>x \<in> set H. x \<le> T) \<and> (\<exists>D. H = D @ ops \<and> (\<forall>x \<in> set D. T - x > 3600000))"

definition window_ok :: "int \<Rightarrow> nat \<Rightarrow> int list \<Rightarrow> bool" where
  "window_ok d n H \<longleftrightarrow> (\<forall>w. in_window w d H \<le> n)"

lemma window_ok_snoc:
  assumes "window_ok d n H" "\<forall>x \<in> set H. x \<le> t" "length (filter (\<lambda>x. t - x \<le> d) H) < n"
  shows "window_ok d n (H @ [t])"
  unfolding window_ok_def
proof
  fix w
  show "in_window w d (H @ [t]) \<le> n"
  proof (cases "w \<le> t \<and> t \<le> w + d")
    case True
    have "filter (\<lambda>x. w \<le> x \<and> x \<le> w + d) H = filter (\<lambda>x. w \<le> x \<and> x \<le> w + d) (filter (\<lambda>x. t - x \<le> d) H)"
      using True by (auto intro!: filter_cong)
    then have "length (filter (\<lambda>x. w \<le> x \<and> x \<le> w + d) H) \<le> length (filter (\<lambda>x. t - x \<le> d) H)"
      by (metis length_filter_le)
    then show ?thesis using True assms(3) by (simp add: in_window_def)
  next
    case False
    then show ?thesis using assms(1) by (auto simp: in_window_def window_ok_def)
  qed
qed

lemma limiter_prune:
  assumes "limiter_holds T H ops" "T \<le> t"
  shows "limiter_holds t H (prune_ops t ops)"
    "length (filter (\<lambda>x. t - x \<le> 3600000) H) = length (prune_ops t ops)"
    "length (filter (\<lambda>x. t - x \<le> 60000) H) = last_minute t (prune_ops t ops)"
proof -
  obtain D where D: "H = D @ ops" "\<forall>x \<in> set D. T - x > 3600000" and s: "sorted H" "\<forall>x \<in> set H. x \<le> T"
    using assms(1) by (auto simp: limiter_holds_def)
  have so: "sorted ops" using s(1) by (simp add: D(1) sorted_append)
  have p: "prune_ops t ops = filter (\<lambda>x. t - x \<le> 3600000) ops" by (simp add: prune_ops_def sorted_dropWhile [OF so])
  have old: "\<forall>x \<in> set D. t - x > 3600000" using D(2) assms(2) by force
  have h: "ops = takeWhile (\<lambda>x. t - x > 3600000) ops @ prune_ops t ops" by (simp add: prune_ops_def)
  have "\<forall>x \<in> set (D @ takeWhile (\<lambda>x. t - x > 3600000) ops). t - x > 3600000"
    using old by (auto dest: set_takeWhileD)
  moreover have "H = (D @ takeWhile (\<lambda>x. t - x > 3600000) ops) @ prune_ops t ops"
    by (simp add: D(1) h [symmetric])
  moreover have "\<forall>x \<in> set H. x \<le> t" using s(2) assms(2) by force
  ultimately show "limiter_holds t H (prune_ops t ops)" using s(1) unfolding limiter_holds_def by blast
  have dn: "filter (\<lambda>x. t - x \<le> 3600000) D = []" "filter (\<lambda>x. t - x \<le> 60000) D = []"
    using old by (force simp: filter_empty_conv)+
  show "length (filter (\<lambda>x. t - x \<le> 3600000) H) = length (prune_ops t ops)" by (simp add: D(1) dn p)
  have "sorted (prune_ops t ops)" using so by (simp add: p sorted_wrt_filter)
  then show "length (filter (\<lambda>x. t - x \<le> 60000) H) = last_minute t (prune_ops t ops)"
    by (simp add: last_minute_def sorted_takeWhile_rev) (simp add: D(1) dn p conj_commute cong: conj_cong)
qed

lemma admitted_ok:
  assumes "limiter_holds T H ops" "sorted ts" "\<forall>t \<in> set ts. T \<le> t"
    "window_ok 60000 SYNC_MAX_WRITES_PER_MINUTE H" "window_ok 3600000 SYNC_MAX_WRITES_PER_HOUR H"
  shows "window_ok 60000 SYNC_MAX_WRITES_PER_MINUTE (H @ admitted ts ops)
    \<and> window_ok 3600000 SYNC_MAX_WRITES_PER_HOUR (H @ admitted ts ops)"
  using assms
proof (induction ts arbitrary: T H ops)
  case (Cons t ts)
  note pr = limiter_prune [OF Cons.prems(1), of t]
  have t: "T \<le> t" "\<forall>u \<in> set ts. t \<le> u" "sorted ts" using Cons.prems by auto
  obtain e ops' where a: "admit_write t ops = (e, ops')" by fastforce
  show ?case
  proof (cases e)
    case None
    then have l: "length (prune_ops t ops) < SYNC_MAX_WRITES_PER_HOUR" "last_minute t (prune_ops t ops) < SYNC_MAX_WRITES_PER_MINUTE"
      and o': "ops' = prune_ops t ops @ [t]"
      using a by (auto simp: admit_write_def Let_def split: if_splits)
    have le: "\<forall>x \<in> set H. x \<le> t" using pr(1) t(1) by (simp add: limiter_holds_def)
    have "limiter_holds t (H @ [t]) ops'"
      using pr(1) t(1) by (auto simp: limiter_holds_def o' sorted_append)
    then have "window_ok 60000 SYNC_MAX_WRITES_PER_MINUTE ((H @ [t]) @ admitted ts ops')
        \<and> window_ok 3600000 SYNC_MAX_WRITES_PER_HOUR ((H @ [t]) @ admitted ts ops')"
      by (rule Cons.IH) (use t Cons.prems(4,5) le l pr in \<open>auto intro: window_ok_snoc\<close>)
    then show ?thesis using a None by simp
  next
    case (Some x)
    then have "ops' = prune_ops t ops" using a by (auto simp: admit_write_def Let_def split: if_splits)
    then show ?thesis using Cons.IH [of t H ops'] pr(1) t Cons.prems(4,5) a Some by simp
  qed
qed simp

text \<open>Under a clock that does not go back, no minute holds more than 120 admitted writes of the sync area and no
  hour more than 1800, wherever the minute or the hour begins.
\<close>

theorem sync_writes_rate_limited:
  assumes "sorted ts"
  shows "in_window w 60000 (admitted ts []) \<le> 120 \<and> in_window w 3600000 (admitted ts []) \<le> 1800"
proof -
  have "limiter_holds (case ts of [] \<Rightarrow> 0 | t # _ \<Rightarrow> t) [] []" by (simp add: limiter_holds_def)
  from admitted_ok [OF this assms]
  have "window_ok 60000 SYNC_MAX_WRITES_PER_MINUTE (admitted ts []) \<and> window_ok 3600000 SYNC_MAX_WRITES_PER_HOUR (admitted ts [])"
    using assms by (cases ts) (auto simp: window_ok_def in_window_def)
  then show ?thesis by (simp add: window_ok_def SYNC_MAX_WRITES_PER_MINUTE_def SYNC_MAX_WRITES_PER_HOUR_def)
qed

lemma sync_writes_rate_limited_witness:
  "in_window 0 60000 (admitted [0, 5, 70000] []) \<le> 120 \<and> in_window 0 3600000 (admitted [0, 5, 70000] []) \<le> 1800"
  by (rule sync_writes_rate_limited) simp

section \<open>What a restart reads back\<close>

lemma area_text_inject: "area_text a = area_text b \<longleftrightarrow> a = b"
  by (cases a; cases b) simp_all

lemma no_colon_area: "CHR '':'' \<notin> set (area_text a)"
  by (cases a) simp_all

lemma split_at_char:
  "c \<notin> set xs \<Longrightarrow> c \<notin> set ys \<Longrightarrow> xs @ c # r = ys @ c # q \<longleftrightarrow> xs = ys \<and> r = q"
  by (induction xs arbitrary: ys) (case_tac ys; force)+

text \<open>Areas of extensions whose ids have no colon never share a key of the data base.\<close>

lemma storage_key_inject:
  assumes "CHR '':'' \<notin> set (sa_id a)" "CHR '':'' \<notin> set (sa_id b)"
  shows "storage_key a k = storage_key b l \<longleftrightarrow> sa_id a = sa_id b \<and> sa_name a = sa_name b \<and> k = l"
  using assms
  by (auto simp: storage_key_def area_prefix_def split_at_char no_colon_area area_text_inject)

definition stored_text :: "area_db \<Rightarrow> string \<Rightarrow> string option" where
  "stored_text db k = (case map_of db k of Some (Some j) \<Rightarrow> Some j | _ \<Rightarrow> None)"

lemma stored_text_update [simp]:
  "stored_text (AList.update k v db) l = (if k = l then v else stored_text db l)"
  by (auto simp: stored_text_def split: option.split)

lemma load_keys_reads:
  "distinct (map fst db) \<Longrightarrow> map_of (load_keys p db m) k
     = (case stored_text db (p @ k) of Some j \<Rightarrow> Some j | None \<Rightarrow> map_of m k)"
proof (induction p db m rule: load_keys.induct)
  case (2 p q v kvs m)
  have "map_of kvs q = None" using 2(4) by (simp add: map_of_eq_None_iff)
  then have new: "stored_text kvs q = None" by (simp add: stored_text_def)
  have cons: "stored_text ((q, v) # kvs) l = (if l = q then v else stored_text kvs l)" for l
    by (auto simp: stored_text_def split: option.split)
  show ?case
  proof (cases "starts_with q p")
    case False
    then have "p @ k \<noteq> q" by auto
    then show ?thesis using 2(1) [OF False] 2(4) False by (simp add: cons)
  next
    case True
    then have q: "q = p @ drop (length p) q" by (simp add: starts_with_drop)
    then have e: "p @ k = q \<longleftrightarrow> k = drop (length p) q" by (metis same_append_eq)
    show ?thesis
    proof (cases v)
      case None
      then show ?thesis using 2(2) 2(4) True new by (auto simp: cons [unfolded None])
    next
      case (Some j)
      then show ?thesis
        using 2(3) [of j] 2(4) True new by (auto simp: cons [unfolded Some] e q [symmetric] split: option.split)
    qed
  qed
qed (simp add: stored_text_def)

text \<open>The segments between the awaits of \<open>set\<close> and \<open>remove\<close>, of any number of calls on any areas.\<close>

datatype 'v area_event = PutItem area int bool string 'v | DropKey area bool string | Recount area | Admit area int

fun event_area :: "'v area_event \<Rightarrow> area" where
  "event_area (PutItem a _ _ _ _) = a" | "event_area (DropKey a _ _) = a"
| "event_area (Recount a) = a" | "event_area (Admit a _) = a"

type_synonym areas = "string \<times> area_name \<Rightarrow> area_state"

definition area_ref :: "area \<Rightarrow> string \<times> area_name" where
  "area_ref a = (sa_id a, sa_name a)"

fun run_event ::
  "('v \<Rightarrow> string option) \<Rightarrow> 'v area_event \<Rightarrow> area_state \<Rightarrow> area_db \<Rightarrow> area_state \<times> area_db" where
  "run_event ser (PutItem a now stored k v) s db = snd (put_item ser a now stored k v s db)"
| "run_event ser (DropKey a stored k) s db =
     snd (drop_keys a [(stored, k)] s db :: (storage_error + 'v storage_change list) \<times> area_state \<times> area_db)"
| "run_event ser (Recount a) s db = (recount s, db)"
| "run_event ser (Admit a now) s db = (snd (admit_area a now s), db)"

definition area_step :: "('v \<Rightarrow> string option) \<Rightarrow> 'v area_event \<Rightarrow> areas \<times> area_db \<Rightarrow> areas \<times> area_db" where
  "area_step ser e sd =
     (let r = area_ref (event_area e); (s', db') = run_event ser e (fst sd r) (snd sd)
      in ((fst sd)(r := s'), db'))"

text \<open>The keys whose last change of memory the data base refused: the result of the event tells.\<close>

type_synonym area_key = "(string \<times> area_name) \<times> string"

fun note_refusal :: "('v \<Rightarrow> string option) \<Rightarrow> 'v area_event \<Rightarrow> area_state \<Rightarrow> area_db \<Rightarrow> area_key set \<Rightarrow> area_key set" where
  "note_refusal ser (PutItem a now stored k v) s db refused = (case fst (put_item ser a now stored k v s db) of
     Inr _ \<Rightarrow> refused - {(area_ref a, k)}
   | Inl e \<Rightarrow> if e = StoreRejected then insert (area_ref a, k) refused else refused)"
| "note_refusal ser (DropKey a stored k) s db refused =
     (case fst (drop_keys a [(stored, k)] s db :: (storage_error + 'v storage_change list) \<times> area_state \<times> area_db) of
        Inr [] \<Rightarrow> refused
      | Inr _ \<Rightarrow> refused - {(area_ref a, k)}
      | Inl _ \<Rightarrow> insert (area_ref a, k) refused)"
| "note_refusal ser _ s db refused = refused"

fun run_areas ::
  "('v \<Rightarrow> string option) \<Rightarrow> 'v area_event list \<Rightarrow> areas \<times> area_db \<Rightarrow> area_key set \<Rightarrow> (areas \<times> area_db) \<times> area_key set" where
  "run_areas ser [] sd refused = (sd, refused)"
| "run_areas ser (e # es) sd refused =
     run_areas ser es (area_step ser e sd) (note_refusal ser e (fst sd (area_ref (event_area e))) (snd sd) refused)"

text \<open>The areas as their contexts build them from a data base.\<close>

definition loaded_areas :: "area_db \<Rightarrow> areas" where
  "loaded_areas db r = area_load \<lparr>sa_id = fst r, sa_name = snd r, sa_unlimited = False\<rparr> db fresh_area"

definition mirrored :: "area_key set \<Rightarrow> string \<times> area_name \<Rightarrow> area_state \<Rightarrow> area_db \<Rightarrow> bool" where
  "mirrored refused r s db \<longleftrightarrow> snd r \<noteq> SessionArea \<longrightarrow>
     (\<forall>k. (r, k) \<notin> refused \<longrightarrow> stored_text db (fst r @ '':'' @ area_text (snd r) @ '':'' @ k) = map_of (st_mem s) k)"

lemma storage_key_alt: "storage_key a k = sa_id a @ '':'' @ area_text (sa_name a) @ '':'' @ k"
  by (simp add: storage_key_def area_prefix_def)

lemma admit_mem [simp]: "st_mem (snd (admit_area a now s)) = st_mem s"
  by (simp add: admit_area_def split: prod.split)

lemma admit_error [simp]: "fst (admit_area a now s) \<noteq> Some StoreRejected"
  by (auto simp: admit_area_def admit_write_def Let_def split: prod.splits)

text \<open>An event changes no text; or one text of its own area in memory, and the same in the data base unless the data
  base refuses it, which is then noted.\<close>

lemma run_event_effect:
  assumes "run_event ser e s db = (s', db')" and "note_refusal ser e s db refused = refused'"
  shows "(st_mem s' = st_mem s \<and> db' = db \<and> refused' = refused)
    \<or> (\<exists>k v. map_of (st_mem s') = (map_of (st_mem s))(k := v)
        \<and> (if sa_name (event_area e) = SessionArea then db' = db \<and> refused' = refused - {(area_ref (event_area e), k)}
           else db' = AList.update (storage_key (event_area e) k) v db \<and> refused' = refused - {(area_ref (event_area e), k)}
             \<or> db' = db \<and> refused' = insert (area_ref (event_area e), k) refused))"
proof (cases e)
  case (PutItem a now stored k v)
  obtain er s1 where ad: "admit_area a now s = (er, s1)" by fastforce
  then have m: "st_mem s1 = st_mem s" "er \<noteq> Some StoreRejected"
    using admit_mem [of a now s] admit_error [of a now s] by simp_all
  show ?thesis
  proof (cases "ser v")
    case None
    then show ?thesis using assms by (simp add: PutItem put_item_def)
  next
    case (Some j)
    show ?thesis
    proof (cases "er = None \<and> \<not> over_quota a (st_bytes s1 - (case map_of (st_mem s1) k of Some j0 \<Rightarrow> int (length j0) | None \<Rightarrow> 0) + int (length j))")
      case True
      then have "map_of (st_mem s') = (map_of (st_mem s))(k := Some j)"
        "if sa_name a = SessionArea then db' = db \<and> refused' = refused - {(area_ref a, k)}
         else db' = AList.update (storage_key a k) (Some j) db \<and> refused' = refused - {(area_ref a, k)}
           \<or> db' = db \<and> refused' = insert (area_ref a, k) refused"
        using assms ad Some m
        by (auto simp: PutItem put_item_def Let_def store_record_def split: if_splits)
      then show ?thesis unfolding PutItem event_area.simps by blast
    next
      case False
      then have "s' = s1" "db' = db" "refused' = refused"
        using assms ad Some m(2) by (auto simp: PutItem put_item_def Let_def split: option.splits if_splits)
      then show ?thesis using m by simp
    qed
  qed
next
  case (DropKey a stored k)
  show ?thesis
  proof (cases "map_of (st_mem s) k")
    case None
    then show ?thesis using assms by (simp add: DropKey)
  next
    case (Some old)
    then have "map_of (st_mem s') = (map_of (st_mem s))(k := None)"
      "if sa_name a = SessionArea then db' = db \<and> refused' = refused - {(area_ref a, k)}
       else db' = AList.update (storage_key a k) None db \<and> refused' = refused - {(area_ref a, k)}
         \<or> db' = db \<and> refused' = insert (area_ref a, k) refused"
      using assms Some by (auto simp: DropKey Let_def store_record_def split: if_splits)
    then show ?thesis unfolding DropKey event_area.simps by blast
  qed
next
  case (Recount a)
  then show ?thesis using assms by (auto simp: recount_def)
next
  case (Admit a now)
  then show ?thesis using assms admit_mem [of a now s] by auto
qed

lemma accepted_not_noted:
  assumes "case e of PutItem _ _ stored _ _ \<Rightarrow> stored | DropKey _ stored _ \<Rightarrow> stored | _ \<Rightarrow> True"
  shows "note_refusal ser e s db {} = {}"
proof (cases e)
  case (PutItem a now stored k v)
  then show ?thesis
    using assms admit_error [of a now s]
    by (cases "admit_area a now s") (auto simp: put_item_def Let_def store_record_def split: option.splits if_splits)
next
  case (DropKey a stored k)
  then show ?thesis
    using assms by (auto simp: Let_def store_record_def split: option.splits)
qed simp_all

definition all_mirrored :: "area_key set \<Rightarrow> areas \<times> area_db \<Rightarrow> bool" where
  "all_mirrored refused sd \<longleftrightarrow> omap_wf (snd sd) \<and> (\<forall>r. CHR '':'' \<notin> set (fst r) \<longrightarrow> mirrored refused r (fst sd r) (snd sd))"

lemma area_step_mirrored:
  assumes "all_mirrored refused sd" "CHR '':'' \<notin> set (sa_id (event_area e))"
  shows "all_mirrored (note_refusal ser e (fst sd (area_ref (event_area e))) (snd sd) refused) (area_step ser e sd)"
proof -
  let ?a = "event_area e" let ?R = "note_refusal ser e (fst sd (area_ref (event_area e))) (snd sd) refused"
  obtain s' db' where r: "run_event ser e (fst sd (area_ref ?a)) (snd sd) = (s', db')" by fastforce
  have wf: "omap_wf (snd sd)" and mir: "\<And>r. CHR '':'' \<notin> set (fst r) \<Longrightarrow> mirrored refused r (fst sd r) (snd sd)"
    using assms(1) by (auto simp: all_mirrored_def)
  have step: "area_step ser e sd = ((fst sd)(area_ref ?a := s'), db')"
    by (simp add: area_step_def Let_def r)
  from run_event_effect [OF r refl, of refused] show ?thesis
  proof (elim disjE exE conjE)
    assume "st_mem s' = st_mem (fst sd (area_ref ?a))" "db' = snd sd" "?R = refused"
    then show ?thesis using wf mir by (auto simp: step all_mirrored_def mirrored_def)
  next
    fix k v
    assume m: "map_of (st_mem s') = (map_of (st_mem (fst sd (area_ref ?a))))(k := v)"
      and d: "if sa_name ?a = SessionArea then db' = snd sd \<and> ?R = refused - {(area_ref ?a, k)}
        else db' = AList.update (storage_key ?a k) v (snd sd) \<and> ?R = refused - {(area_ref ?a, k)}
          \<or> db' = snd sd \<and> ?R = insert (area_ref ?a, k) refused"
    have "mirrored ?R r (((fst sd)(area_ref ?a := s')) r) db'" if c: "CHR '':'' \<notin> set (fst r)" for r
    proof -
      let ?b = "\<lparr>sa_id = fst r, sa_name = snd r, sa_unlimited = False\<rparr>"
      have same: "storage_key ?a k = storage_key ?b l \<longleftrightarrow> area_ref ?a = r \<and> k = l" for l
        using storage_key_inject [of ?a ?b k l] assms(2) c by (auto simp: area_ref_def)
      have key: "fst r @ '':'' @ area_text (snd r) @ '':'' @ l = storage_key ?b l" for l by (simp add: storage_key_alt)
      have old: "stored_text (snd sd) (storage_key ?b l) = map_of (st_mem (fst sd r)) l"
        if "snd r \<noteq> SessionArea" "(r, l) \<notin> refused" for l
        using mir [OF c] that unfolding mirrored_def key by blast
      have "stored_text db' (storage_key ?b l) = map_of (st_mem (((fst sd)(area_ref ?a := s')) r)) l"
        if r: "snd r \<noteq> SessionArea" "(r, l) \<notin> ?R" for l
      proof (cases "area_ref ?a = r \<and> l = k")
        case True
        then have "sa_name ?a = snd r" by (auto simp: area_ref_def)
        moreover have "(area_ref ?a, k) \<notin> ?R" using r(2) True by blast
        ultimately have "db' = AList.update (storage_key ?a k) v (snd sd)" using d r(1) by (metis insertI1)
        then have "stored_text db' (storage_key ?b l) = v" using same [of l] True by simp
        moreover have "map_of (st_mem (((fst sd)(area_ref ?a := s')) r)) l = v" using True m by simp
        ultimately show ?thesis by simp
      next
        case False
        have "?R = refused - {(area_ref ?a, k)} \<or> ?R = insert (area_ref ?a, k) refused" using d by (metis (full_types))
        then have nr: "(r, l) \<notin> refused" using r(2) False by blast
        have "stored_text db' (storage_key ?b l) = stored_text (snd sd) (storage_key ?b l)"
        proof -
          have "db' = snd sd \<or> db' = AList.update (storage_key ?a k) v (snd sd)" using d by (metis (full_types))
          then show ?thesis using False same [of l] by auto
        qed
        also have "\<dots> = map_of (st_mem (fst sd r)) l" by (rule old [OF r(1) nr])
        also have "\<dots> = map_of (st_mem (((fst sd)(area_ref ?a := s')) r)) l" using False m by (cases "area_ref ?a = r") simp_all
        finally show ?thesis .
      qed
      then show ?thesis unfolding mirrored_def key by blast
    qed
    moreover have "omap_wf db'"
    proof -
      have "db' = snd sd \<or> db' = AList.update (storage_key ?a k) v (snd sd)" using d by (metis (full_types))
      then show ?thesis using wf by auto
    qed
    ultimately show ?thesis by (simp add: step all_mirrored_def)
  qed
qed

lemma area_load_reads:
  assumes "omap_wf db" "sa_name a \<noteq> SessionArea"
  shows "map_of (st_mem (area_load a db fresh_area)) k = stored_text db (storage_key a k)"
  using assms load_keys_reads [of db "area_prefix a" "[]" k]
  by (simp add: area_load_def recount_def fresh_area_def omap_wf_def storage_key_def split: option.splits)

lemma loaded_mirrored: "omap_wf db \<Longrightarrow> all_mirrored {} (loaded_areas db, db)"
  by (auto simp: all_mirrored_def mirrored_def loaded_areas_def area_load_reads storage_key_alt)

text \<open>C27. Memory and data base of the storage areas. The contexts are built from any data base; then the
  segments of concurrent writes and removals of any areas of any extensions interleave, some are refused by the
  limits, and the data base refuses any of the records, in which case memory keeps the change. A restart then
  reads back, for each persistent area of an extension whose id has no colon, the value in memory of every key,
  but for the keys whose last change the data base refused: no area ever sees or loses a value through another
  one. When the data base refused no record, it reads back exactly what the memory of the area held.
\<close>

theorem storage_survives_restart:
  assumes "omap_wf db0" "\<forall>e \<in> set es. CHR '':'' \<notin> set (sa_id (event_area e))" "CHR '':'' \<notin> set (sa_id a)"
    "sa_name a \<noteq> SessionArea" "run_areas ser es (loaded_areas db0, db0) {} = ((areas, db), refused)"
  shows "(\<forall>k. (area_ref a, k) \<notin> refused \<longrightarrow>
      map_of (st_mem (area_load a db fresh_area)) k = map_of (st_mem (areas (area_ref a))) k) \<and>
    ((\<forall>e \<in> set es. case e of PutItem _ _ stored _ _ \<Rightarrow> stored | DropKey _ stored _ \<Rightarrow> stored | _ \<Rightarrow> True) \<longrightarrow> refused = {})"
proof -
  have run: "all_mirrored (snd (run_areas ser es sd R)) (fst (run_areas ser es sd R))" if "all_mirrored R sd" for sd R
    using that assms(2) by (induction es arbitrary: sd R) (simp_all add: area_step_mirrored)
  have "all_mirrored refused (areas, db)"
    using run [OF loaded_mirrored [OF assms(1)]] by (simp add: assms(5))
  then have wf: "omap_wf db" and m: "mirrored refused (area_ref a) (areas (area_ref a)) db"
    using assms(3) by (auto simp: all_mirrored_def area_ref_def)
  have "map_of (st_mem (area_load a db fresh_area)) k = map_of (st_mem (areas (area_ref a))) k"
    if "(area_ref a, k) \<notin> refused" for k
    using that m assms(4) by (simp add: area_load_reads [OF wf assms(4)] mirrored_def area_ref_def storage_key_alt)
  moreover have "snd (run_areas ser es sd {}) = {}"
    if "\<forall>e \<in> set es. case e of PutItem _ _ stored _ _ \<Rightarrow> stored | DropKey _ stored _ \<Rightarrow> stored | _ \<Rightarrow> True" for sd
    using that by (induction es arbitrary: sd) (simp_all add: accepted_not_noted)
  ultimately show ?thesis using assms(5) by (metis snd_conv)
qed

definition demo_area :: area where
  "demo_area = \<lparr>sa_id = ''x'', sa_name = LocalArea, sa_unlimited = False\<rparr>"

definition demo_store_events :: "string area_event list" where
  "demo_store_events = [PutItem demo_area 0 True ''k'' ''1'', DropKey demo_area True ''old'', PutItem demo_area 0 False ''l'' ''2'']"

lemma storage_survives_restart_witness:
  "\<exists>areas db refused. run_areas Some demo_store_events (loaded_areas [(''x:local:old'', Some ''0'')], [(''x:local:old'', Some ''0'')]) {}
      = ((areas, db), refused) \<and> (area_ref demo_area, ''l'') \<in> refused
    \<and> map_of (st_mem (area_load demo_area db fresh_area)) ''k'' = Some ''1''
    \<and> map_of (st_mem (areas (area_ref demo_area))) ''k'' = Some ''1''
    \<and> map_of (st_mem (area_load demo_area db fresh_area)) ''l'' = None
    \<and> map_of (st_mem (areas (area_ref demo_area))) ''l'' = Some ''2''"
proof -
  let ?db = "[(''x:local:old'', Some ''0'')] :: area_db"
  obtain areas db refused where r: "run_areas Some demo_store_events (loaded_areas ?db, ?db) {} = ((areas, db), refused)"
    by (metis prod.exhaust)
  have wf: "omap_wf ?db" by (simp add: omap_wf_def)
  note eval = demo_store_events_def area_step_def Let_def put_item_def admit_area_def demo_area_def area_ref_def loaded_areas_def
    area_load_def area_prefix_def fresh_area_def recount_def count_bytes_def over_quota_def store_record_def storage_key_alt
  have run: "refused = {((''x'', LocalArea), ''l'')}" "st_mem (areas (''x'', LocalArea)) = [(''k'', ''1''), (''l'', ''2'')]"
    "db = [(''x:local:old'', None), (''x:local:k'', Some ''1'')]"
    using r by (auto simp: eval)
  have "\<forall>k. (area_ref demo_area, k) \<notin> refused \<longrightarrow>
      map_of (st_mem (area_load demo_area db fresh_area)) k = map_of (st_mem (areas (area_ref demo_area))) k"
    using storage_survives_restart [OF wf _ _ _ r, of demo_area] by (simp add: demo_store_events_def demo_area_def)
  then have "map_of (st_mem (area_load demo_area db fresh_area)) ''k'' = Some ''1''"
    using run(1,2) by (simp add: demo_area_def area_ref_def)
  moreover have "map_of (st_mem (area_load demo_area db fresh_area)) ''l'' = None"
    unfolding run(3) by (simp add: demo_area_def area_load_def area_prefix_def fresh_area_def recount_def)
  ultimately show ?thesis using r run by (simp add: demo_area_def area_ref_def)
qed

section \<open>Quotas\<close>

lemma count_bytes_update:
  "omap_wf m \<Longrightarrow> count_bytes (AList.update k j m)
     = count_bytes m - (case map_of m k of Some i \<Rightarrow> int (length i) | None \<Rightarrow> 0) + int (length j)"
proof (induction m)
  case (Cons x m)
  obtain q i where x: "x = (q, i)" by (cases x)
  show ?case
  proof (cases "q = k")
    case True
    then have "map_of m k = None" using Cons.prems by (simp add: x omap_wf_def map_of_eq_None_iff)
    then show ?thesis by (simp add: x True count_bytes_def)
  next
    case False
    then show ?thesis using Cons by (simp add: x omap_wf_def count_bytes_def)
  qed
qed (simp add: count_bytes_def)

text \<open>One written item keeps an area within its quota when its size is counted.\<close>

lemma put_within_quota:
  assumes "put_item ser a now stored k v s db = (Inr c, s', db')" "omap_wf (st_mem s)" "st_bytes s = count_bytes (st_mem s)"
    "\<not> sa_unlimited a"
  shows "count_bytes (st_mem s') \<le> default_quota (sa_name a)"
proof -
  obtain er s1 where ad: "admit_area a now s = (er, s1)" by fastforce
  have s1: "st_mem s1 = st_mem s" "st_bytes s1 = st_bytes s"
    using ad by (auto simp: admit_area_def split: if_splits prod.splits)
  show ?thesis
    using assms ad s1
    by (auto simp: put_item_def Let_def over_quota_def count_bytes_update store_record_def split: option.splits if_splits)
qed

text \<open>
  The size is counted once, after all items: every item of a call is measured against what was stored
  before the call, and one call with two items can leave twice the quota.\<close>

lemma one_call_exceeds_quota:
  assumes "length v = 5 * 1024 * 1024"
  shows "\<exists>cs s db. area_set Some \<lparr>sa_id = ''x'', sa_name = LocalArea, sa_unlimited = False\<rparr> True
      [(0, True, ''a'', v), (0, True, ''b'', v)] fresh_area []
      = (Inr cs, s, db) \<and> count_bytes (st_mem s) = 2 * default_quota LocalArea"
  using assms
  by (simp add: area_set_def put_item_def admit_area_def fresh_area_def over_quota_def recount_def count_bytes_def store_record_def)

text \<open>An item that cannot be written leaves the items before it in memory and in the data base, uncounted and unreported.\<close>

lemma failed_set_is_partial:
  assumes "ser v = None"
  shows "area_set ser \<lparr>sa_id = i, sa_name = LocalArea, sa_unlimited = True\<rparr> True
      [(0, True, ''a'', u), (0, True, ''b'', v)] s db
    = (case ser u of None \<Rightarrow> (Inl (NotSerializable ''a''), s, db)
       | Some j \<Rightarrow> (Inl (NotSerializable ''b''), s\<lparr>st_mem := AList.update ''a'' j (st_mem s)\<rparr>,
           AList.update (i @ '':local:a'') (Some j) db))"
  using assms
  by (simp add: area_set_def put_item_def admit_area_def over_quota_def store_record_def storage_key_def area_prefix_def
      split: option.split)

section \<open>The session area is closed to content scripts\<close>

lemma session_closed_by_default:
  "map_of m i = None \<Longrightarrow> storage_gate_of m i perms ''session'' op \<in> {NoPermission, NoSession}"
  by (simp add: storage_gate_of_def content_script_may_use_session_def session_access_of_def)

lemma session_opened_only_by_level:
  assumes "storage_gate_of m i perms ''session'' op = Gated n op'"
  shows "map_of m i = Some TrustedAndUntrusted \<and> ''storage'' \<in> set perms \<and> n = SessionArea \<and> op' = op"
  using assms
  by (auto simp: storage_gate_of_def content_script_may_use_session_def session_access_of_def split: if_splits option.splits)

end
