(* ===== verification/Csp.thy ===== *)
theory Csp
  imports Prelude
begin

text \<open>
  The engine-side enforcement of upstream source lists (\<open>src/app/src/csp-enforce.ts\<close>): the parser of the
  policy, the plan of a document, source matching, the registry of plans and the gate of a
  subresource request. The branch of the planner that asks the WebAssembly module is not modelled;
  the URL parser is an argument.
\<close>

section \<open>Words and ports\<close>

text \<open>\<open>s.split(/\s+/)\<close> of a trimmed text.\<close>

definition split_words :: "string \<Rightarrow> string list" where
  "split_words s = filter (\<lambda>w. w \<noteq> []) (split_on (CHR '' '') (map (\<lambda>c. if is_js_space c then CHR '' '' else c) s))"

text \<open>\<open>u.port\<close>: what follows the host name and a colon in \<open>u.host\<close>.\<close>

definition url_port :: "url \<Rightarrow> string" where
  "url_port u = drop (length (url_hostname u) + 1) (url_host u)"

section \<open>Sources\<close>

datatype csp_source =
  SelfSource
| AnySource
| SchemeSource string
| HostSource "string option" string bool "string option" "string option"

definition CSP_MAX_POLICY_BYTES :: nat where "CSP_MAX_POLICY_BYTES = 8192"

definition CSP_MAX_DIRECTIVES :: nat where "CSP_MAX_DIRECTIVES = 64"

definition CSP_MAX_SOURCES :: nat where "CSP_MAX_SOURCES = 64"

definition CSP_CLIENTS_CAP :: nat where "CSP_CLIENTS_CAP = 256"

definition FETCH_DIRECTIVES :: "string list" where
  "FETCH_DIRECTIVES = [''script-src'', ''style-src'', ''img-src'', ''font-src'', ''media-src'', ''connect-src'']"

definition dest_directive :: "string \<Rightarrow> string option" where
  "dest_directive = map_of [(''script'', ''script-src''), (''style'', ''style-src''), (''image'', ''img-src''),
     (''font'', ''font-src''), (''media'', ''media-src''), (''audio'', ''media-src''), (''video'', ''media-src''),
     (''track'', ''media-src''), (''empty'', ''connect-src'')]"

definition IGNORED_KEYWORDS :: "string list" where
  "IGNORED_KEYWORDS = map (\<lambda>k. [CHR 0x27] @ k @ [CHR 0x27])
     [''none'', ''unsafe-inline'', ''unsafe-eval'', ''wasm-unsafe-eval'', ''unsafe-hashes'', ''report-sample'']"

record csp_plan =
  cp_self :: string
  cp_scheme :: string
  cp_enforced :: "string list"
  cp_unsupported :: "string list"
  cp_sources :: "(string, csp_source list) omap"
  cp_default :: "csp_source list option"

definition empty_csp_plan :: "string \<Rightarrow> string \<Rightarrow> csp_plan" where
  "empty_csp_plan self scheme =
     \<lparr>cp_self = self, cp_scheme = scheme, cp_enforced = [], cp_unsupported = [], cp_sources = [], cp_default = None\<rparr>"

section \<open>The tokens of a source list\<close>

datatype token_verdict = Source csp_source | IgnoredToken | UnverifiableToken

definition is_letter :: "char \<Rightarrow> bool" where
  "is_letter c \<longleftrightarrow> is_alnum c \<and> \<not> is_digit c"

definition scheme_rest :: "char \<Rightarrow> bool" where
  "scheme_rest c \<longleftrightarrow> is_alnum c \<or> c \<in> set ''+.-''"

text \<open>\<open>[a-z][a-z0-9+.-]*\<close>, without case, at the head of a text, and what follows it.\<close>

definition take_scheme :: "string \<Rightarrow> (string \<times> string) option" where
  "take_scheme s = (case s of [] \<Rightarrow> None
     | c # r \<Rightarrow> if is_letter c then Some (c # takeWhile scheme_rest r, dropWhile scheme_rest r) else None)"

definition is_bare_hash :: "string \<Rightarrow> bool" where
  "is_bare_hash tok \<longleftrightarrow>
     (\<exists>p \<in> {''sha256-'', ''sha384-'', ''sha512-''}. starts_with tok p \<and> drop 7 tok \<noteq> []
        \<and> list_all (\<lambda>c. is_alnum c \<or> c \<in> set ''+/='') (drop 7 tok))"

text \<open>\<open>(?:([a-z][a-z0-9+.-]*)?://)?\<close>\<close>

definition take_scheme_prefix :: "string \<Rightarrow> string option \<times> string" where
  "take_scheme_prefix tok =
     (case take_scheme tok of
        Some (sch, r) \<Rightarrow> if starts_with r ''://'' then (Some sch, drop 3 r) else (None, tok)
      | None \<Rightarrow> (None, if starts_with tok ''://'' then drop 3 tok else tok))"

text \<open>\<open>(?::(\*|\d+))?(/.*)?$\<close>\<close>

definition take_path :: "string \<Rightarrow> string option option" where
  "take_path s = (if s = [] then Some None else if starts_with s ''/'' then Some (Some s) else None)"

definition take_port_path :: "string \<Rightarrow> (string option \<times> string option) option" where
  "take_port_path s =
     (if starts_with s '':*'' then map_option (\<lambda>p. (Some ''*'', p)) (take_path (drop 2 s))
      else if starts_with s '':'' then
        (if takeWhile is_digit (tl s) = [] then None
         else map_option (\<lambda>p. (Some (takeWhile is_digit (tl s)), p)) (take_path (dropWhile is_digit (tl s))))
      else map_option (\<lambda>p. (None, p)) (take_path s))"

definition host_char :: "char \<Rightarrow> bool" where
  "host_char c \<longleftrightarrow> is_alnum c \<or> c = CHR ''.'' \<or> c = CHR ''-''"

definition parse_host_source :: "string \<Rightarrow> token_verdict" where
  "parse_host_source tok =
     (let (sch, r) = take_scheme_prefix tok;
          host = takeWhile (\<lambda>c. c \<noteq> CHR ''/'' \<and> c \<noteq> CHR '':'') r;
          r2 = drop (length host) r
      in if host = [] then UnverifiableToken
         else case take_port_path r2 of None \<Rightarrow> UnverifiableToken
           | Some (port, path) \<Rightarrow>
             if (case sch of None \<Rightarrow> False | Some s \<Rightarrow> js_lower s \<noteq> ''http'' \<and> js_lower s \<noteq> ''https'') then IgnoredToken
             else if host = ''*'' then Source AnySource
             else let wild = starts_with (js_lower host) ''*.'';
                      h = (if wild then drop 2 (js_lower host) else js_lower host)
                  in if h = [] \<or> \<not> list_all host_char h then UnverifiableToken
                     else Source (HostSource (map_option js_lower sch) h wild port path))"

definition parse_token :: "string \<Rightarrow> token_verdict" where
  "parse_token tok =
     (if tok \<in> set IGNORED_KEYWORDS then IgnoredToken
      else if tok = [CHR 0x27] @ ''self'' @ [CHR 0x27] then Source SelfSource
      else if tok = [CHR 0x27] @ ''strict-dynamic'' @ [CHR 0x27] \<or> tok = [CHR 0x27] @ ''allow'' @ [CHR 0x27]
        \<or> starts_with tok ([CHR 0x27] @ ''nonce-'') then UnverifiableToken
      else if tok = ''*'' then Source AnySource
      else if \<not> starts_with tok [CHR 0x27] \<and> is_bare_hash tok then UnverifiableToken
      else case take_scheme tok of
        Some (sch, r) \<Rightarrow>
          if r = '':'' then
            if js_lower sch = ''http'' \<or> js_lower sch = ''https'' then Source (SchemeSource (js_lower sch)) else IgnoredToken
          else parse_host_source tok
      | None \<Rightarrow> parse_host_source tok)"

text \<open>\<open>None\<close> is a list with a token that cannot be verified.\<close>

fun parse_source_list :: "string list \<Rightarrow> csp_source list option" where
  "parse_source_list [] = Some []"
| "parse_source_list (tok # toks) = (case parse_token tok of
     UnverifiableToken \<Rightarrow> None
   | IgnoredToken \<Rightarrow> parse_source_list toks
   | Source s \<Rightarrow> map_option (\<lambda>ss. s # ss) (parse_source_list toks))"

section \<open>The plan of a document\<close>

definition directive_name_ok :: "string \<Rightarrow> bool" where
  "directive_name_ok n \<longleftrightarrow> (case n of [] \<Rightarrow> False | c # r \<Rightarrow>
     97 \<le> char_code c \<and> char_code c \<le> 122
     \<and> list_all (\<lambda>d. (97 \<le> char_code d \<and> char_code d \<le> 122) \<or> is_digit d \<or> d = CHR ''-'') r)"

text \<open>One valid directive that was not seen before.\<close>

definition plan_directive :: "string \<Rightarrow> string list \<Rightarrow> csp_plan \<Rightarrow> csp_plan" where
  "plan_directive name toks p =
     (if toks = [] \<or> length toks > CSP_MAX_SOURCES \<or> (name \<notin> set FETCH_DIRECTIVES \<and> name \<noteq> ''default-src'') then p
      else case parse_source_list toks of
        None \<Rightarrow> p\<lparr>cp_unsupported := cp_unsupported p @ [name]\<rparr>
      | Some ss \<Rightarrow>
        if name = ''default-src'' then p\<lparr>cp_default := Some ss\<rparr>
        else p\<lparr>cp_sources := AList.update name ss (cp_sources p), cp_enforced := cp_enforced p @ [name]\<rparr>)"

text \<open>The loop over the directives; \<open>None\<close> is an invalid or repeated name, which empties the plan.\<close>

fun plan_parts :: "string list \<Rightarrow> string list \<Rightarrow> csp_plan \<Rightarrow> csp_plan option" where
  "plan_parts [] seen p = Some p"
| "plan_parts (part # parts) seen p = (case split_words part of
     [] \<Rightarrow> plan_parts parts seen p
   | w # toks \<Rightarrow>
     (let name = js_lower w
      in if \<not> directive_name_ok name \<or> name \<in> set seen then None
         else plan_parts parts (name # seen) (plan_directive name toks p)))"

definition plan_engine_csp :: "url_parser \<Rightarrow> string \<Rightarrow> string \<Rightarrow> csp_plan" where
  "plan_engine_csp pu raw doc = (case pu doc of
     None \<Rightarrow> empty_csp_plan [] ''https:''
   | Some u \<Rightarrow>
     if \<not> is_http_url u then empty_csp_plan [] ''https:''
     else let plan = empty_csp_plan (url_origin u) (url_protocol u)
          in if js_trim raw = [] \<or> (\<exists>c \<in> set raw. is_ctl c \<or> c = CHR '','') \<or> length raw > CSP_MAX_POLICY_BYTES then plan
             else let parts = split_on (CHR '';'') raw
                  in if length parts > CSP_MAX_DIRECTIVES + 1 then plan
                     else case plan_parts parts [] plan of Some p \<Rightarrow> p | None \<Rightarrow> plan)"

section \<open>Matching\<close>

definition default_port_of :: "string \<Rightarrow> string option" where
  "default_port_of = map_of [(''http'', ''80''), (''https'', ''443'')]"

definition drop_colon :: "string \<Rightarrow> string" where
  "drop_colon s = (if ends_with s '':'' then butlast s else s)"

definition source_matches :: "csp_source \<Rightarrow> url \<Rightarrow> csp_plan \<Rightarrow> bool" where
  "source_matches s u plan = (case s of
     SelfSource \<Rightarrow> url_origin u = cp_self plan
   | AnySource \<Rightarrow> is_http_url u
   | SchemeSource sch \<Rightarrow> url_protocol u = sch @ '':''
   | HostSource sch host wild port path \<Rightarrow>
       url_protocol u = (case sch of Some x \<Rightarrow> x @ '':'' | None \<Rightarrow> cp_scheme plan)
       \<and> (let uh = js_lower (url_hostname u) in if wild then ends_with uh (''.'' @ host) else uh = host)
       \<and> (case port of None \<Rightarrow> url_port u = []
          | Some p \<Rightarrow> p = ''*''
              \<or> url_port u = (if default_port_of (case sch of Some x \<Rightarrow> x | None \<Rightarrow> drop_colon (cp_scheme plan)) = Some p
                              then [] else p))
       \<and> (case path of None \<Rightarrow> True
          | Some q \<Rightarrow> if ends_with q ''/'' then starts_with (url_pathname u) q else url_pathname u = q))"

section \<open>The registry and the gate\<close>

type_synonym csp_registry = "(string, csp_plan) omap"

definition csp_set_client :: "string \<Rightarrow> csp_plan \<Rightarrow> csp_registry \<Rightarrow> csp_registry" where
  "csp_set_client client plan reg = (if client = [] then reg else omap_put_capped CSP_CLIENTS_CAP client plan reg)"

definition csp_clear_client :: "string option \<Rightarrow> csp_registry \<Rightarrow> csp_registry" where
  "csp_clear_client client reg = (case truthy client of None \<Rightarrow> reg | Some c \<Rightarrow> AList.delete c reg)"

record csp_decision =
  cd_blocked :: bool
  cd_directive :: "string option"

definition list_decision :: "string \<Rightarrow> csp_source list \<Rightarrow> url \<Rightarrow> csp_plan \<Rightarrow> csp_decision" where
  "list_decision name ss u plan = \<lparr>cd_blocked = \<not> (\<exists>s \<in> set ss. source_matches s u plan), cd_directive = Some name\<rparr>"

definition csp_gate :: "url_parser \<Rightarrow> csp_registry \<Rightarrow> string option \<Rightarrow> string \<Rightarrow> string \<Rightarrow> csp_decision" where
  "csp_gate pu reg client dest target =
     (let allow = \<lparr>cd_blocked = False, cd_directive = None\<rparr>
      in case (dest_directive dest, truthy client) of
        (Some directive, Some c) \<Rightarrow> (case map_of reg c of
          None \<Rightarrow> allow
        | Some plan \<Rightarrow>
          if cp_sources plan = [] \<and> cp_default plan = None then allow
          else case pu target of
            None \<Rightarrow> allow
          | Some u \<Rightarrow>
            if \<not> is_http_url u then allow
            else case map_of (cp_sources plan) directive of
              Some ss \<Rightarrow> list_decision directive ss u plan
            | None \<Rightarrow> (case cp_default plan of
                Some ss \<Rightarrow> list_decision ''default-src'' ss u plan
              | None \<Rightarrow> allow))
      | _ \<Rightarrow> allow)"

text \<open>\<open>engineCspMarker\<close>\<close>

definition engine_csp_marker :: "csp_plan \<Rightarrow> string option" where
  "engine_csp_marker p =
     (let enforced = cp_enforced p @ (if cp_default p \<noteq> None then [''default-src''] else []);
          segs = (if enforced \<noteq> [] then [''engine '' @ join_with '','' enforced] else [])
               @ (if cp_unsupported p \<noteq> [] then [''engine-unsupported '' @ join_with '','' (cp_unsupported p)] else [])
      in if segs = [] then None else Some (join_with ''; '' segs))"

section \<open>A block is backed by the policy\<close>

lemma parse_source_list_Some:
  "parse_source_list toks = Some ss \<Longrightarrow> (\<forall>t \<in> set toks. parse_token t \<noteq> UnverifiableToken)
     \<and> (\<forall>t \<in> set toks. \<forall>s. parse_token t = Source s \<longrightarrow> s \<in> set ss)"
proof (induction toks arbitrary: ss)
  case (Cons t toks)
  then show ?case by (cases "parse_token t") auto
qed simp

definition states :: "string list \<Rightarrow> string \<Rightarrow> csp_source list \<Rightarrow> bool" where
  "states parts name ss \<longleftrightarrow>
     (\<exists>part \<in> set parts. \<exists>w toks. split_words part = w # toks \<and> js_lower w = name \<and> toks \<noteq> [] \<and> parse_source_list toks = Some ss)"

definition plan_stated :: "string list \<Rightarrow> csp_plan \<Rightarrow> bool" where
  "plan_stated parts p \<longleftrightarrow>
     (\<forall>(name, ss) \<in> set (cp_sources p). states parts name ss)
     \<and> (\<forall>ss. cp_default p = Some ss \<longrightarrow> states parts ''default-src'' ss)"

lemma plan_stated_empty: "plan_stated parts (empty_csp_plan a b)"
  by (simp add: plan_stated_def empty_csp_plan_def)

lemma plan_directive_stated:
  assumes "plan_stated parts p" "part \<in> set parts" "split_words part = w # toks"
  shows "plan_stated parts (plan_directive (js_lower w) toks p)"
proof (cases "parse_source_list toks")
  case (Some ss)
  have s: "toks \<noteq> [] \<Longrightarrow> states parts (js_lower w) ss" using assms(2,3) Some by (auto simp: states_def)
  show ?thesis
    using assms(1) s set_update_subset [of "js_lower w" ss "cp_sources p"]
    by (auto simp: plan_directive_def plan_stated_def Some)
qed (use assms(1) in \<open>auto simp: plan_directive_def plan_stated_def\<close>)

lemma plan_parts_stated:
  "plan_parts ps seen p = Some q \<Longrightarrow> plan_stated parts p \<Longrightarrow> set ps \<subseteq> set parts \<Longrightarrow> plan_stated parts q"
  by (induction ps seen p rule: plan_parts.induct)
    (auto simp: Let_def plan_directive_stated split: list.splits if_splits)

lemma plan_engine_csp_stated: "plan_stated (split_on (CHR '';'') raw) (plan_engine_csp pu raw doc)"
  using plan_parts_stated [of "split_on (CHR '';'') raw" "[]" _ _ "split_on (CHR '';'') raw"]
  by (auto simp: plan_engine_csp_def Let_def plan_stated_empty split: option.splits)

lemma truthy_Some: "truthy (Some c) = Some x \<longleftrightarrow> x = c \<and> c \<noteq> []"
  by (auto simp: truthy_def)

lemma list_blocked:
  "states parts name ss \<Longrightarrow> cd_blocked (list_decision n ss u plan) \<Longrightarrow>
   \<exists>part \<in> set parts. \<exists>w toks. split_words part = w # toks \<and> js_lower w = name \<and> toks \<noteq> []
     \<and> (\<forall>t \<in> set toks. parse_token t \<noteq> UnverifiableToken
          \<and> (\<forall>s. parse_token t = Source s \<longrightarrow> \<not> source_matches s u plan))"
proof -
  assume st: "states parts name ss" and bl: "cd_blocked (list_decision n ss u plan)"
  obtain part w toks where p: "part \<in> set parts" "split_words part = w # toks" "js_lower w = name" "toks \<noteq> []"
    and l: "parse_source_list toks = Some ss"
    using st unfolding states_def by (elim bexE exE conjE)
  have no: "\<not> source_matches s u plan" if "s \<in> set ss" for s using bl that by (simp add: list_decision_def)
  have "\<forall>t \<in> set toks. parse_token t \<noteq> UnverifiableToken \<and> (\<forall>s. parse_token t = Source s \<longrightarrow> \<not> source_matches s u plan)"
    using parse_source_list_Some [OF l] no by simp
  with p show ?thesis by (intro bexI [of _ part] exI conjI)
qed

text \<open>A request is refused only on the word of the document's own policy: some directive of its text, the one of
  the request's destination or default-src, lists at least one token, every token of it is understood,
  and no source of it matches the requested URL.
\<close>

theorem csp_block_backed:
  assumes "map_of reg c = Some (plan_engine_csp pu raw doc)" "cd_blocked (csp_gate pu reg (Some c) dest target)"
  shows "\<exists>u d part w toks. pu target = Some u \<and> is_http_url u \<and> dest_directive dest = Some d
    \<and> part \<in> set (split_on (CHR '';'') raw) \<and> split_words part = w # toks \<and> js_lower w \<in> {d, ''default-src''} \<and> toks \<noteq> []
    \<and> (\<forall>t \<in> set toks. parse_token t \<noteq> UnverifiableToken
         \<and> (\<forall>s. parse_token t = Source s \<longrightarrow> \<not> source_matches s u (plan_engine_csp pu raw doc)))"
proof -
  let ?plan = "plan_engine_csp pu raw doc" and ?parts = "split_on (CHR '';'') raw"
  obtain d u where d: "dest_directive dest = Some d" "pu target = Some u" "is_http_url u"
    and dec: "(\<exists>ss. map_of (cp_sources ?plan) d = Some ss \<and> cd_blocked (list_decision d ss u ?plan))
      \<or> (\<exists>ss. cp_default ?plan = Some ss \<and> cd_blocked (list_decision ''default-src'' ss u ?plan))"
    using assms by (auto simp: csp_gate_def Let_def truthy_Some split: option.splits if_splits)
  have st: "plan_stated ?parts ?plan" by (rule plan_engine_csp_stated)
  have src: "states ?parts d ss" if "map_of (cp_sources ?plan) d = Some ss" for ss
    using st map_of_SomeD [OF that] unfolding plan_stated_def by blast
  have "\<exists>n ss. n \<in> {d, ''default-src''} \<and> states ?parts n ss \<and> cd_blocked (list_decision n ss u ?plan)"
    using dec st src unfolding plan_stated_def by blast
  then obtain n ss where n: "n \<in> {d, ''default-src''}" "states ?parts n ss" "cd_blocked (list_decision n ss u ?plan)"
    by blast
  show ?thesis using list_blocked [OF n(2,3)] n(1) d by blast
qed

definition csp_demo_parser :: url_parser where
  "csp_demo_parser s =
     (if s = ''https://a.com/'' \<or> s = ''https://b.com/x''
      then let h = take 5 (drop 8 s)
           in Some \<lparr>url_href = s, url_protocol = ''https:'', url_origin = ''https://'' @ h, url_host = h, url_hostname = h,
                url_pathname = drop 13 s, url_search = [], url_hash = []\<rparr>
      else None)"

definition csp_demo_gate :: "string \<Rightarrow> csp_decision" where
  "csp_demo_gate raw =
     csp_gate csp_demo_parser [(''c'', plan_engine_csp csp_demo_parser raw ''https://a.com/'')] (Some ''c'') ''script'' ''https://b.com/x''"

lemma demo_blocked: "cd_blocked (csp_demo_gate ''script-src a.com'')"
  by code_simp

lemma csp_block_backed_witness:
  "\<exists>part w toks. part \<in> set (split_on (CHR '';'') ''script-src a.com'') \<and> split_words part = w # toks \<and> toks \<noteq> []"
  using csp_block_backed [OF _ demo_blocked [unfolded csp_demo_gate_def]] by fastforce

text \<open>
  A script-src that lists a nonce is recorded as not enforceable, but the gate then asks default-src: a script
  the nonce allows is refused.\<close>

lemma unverifiable_list_falls_back:
  "csp_demo_gate (''default-src a.com; script-src '' @ [CHR 0x27] @ ''nonce-r'' @ [CHR 0x27])
     = \<lparr>cd_blocked = True, cd_directive = Some ''default-src''\<rparr>"
  by code_simp

text \<open>A source with scheme http does not match the same host over https, which it does in CSP3.\<close>

lemma http_source_refuses_https:
  "url_protocol u = ''https:'' \<Longrightarrow> \<not> source_matches (HostSource (Some ''http'') h w p q) u plan"
  by (simp add: source_matches_def)

section \<open>Host sources\<close>

text \<open>A wildcard matches at a label boundary and never the host itself.\<close>

lemma wildcard_subdomains_only:
  assumes "source_matches (HostSource sch h True p q) u plan"
  shows "dot_suffix (js_lower (url_hostname u)) h \<and> js_lower (url_hostname u) \<noteq> h"
  using assms by (auto simp: source_matches_def dot_suffix_def Let_def ends_with_iff)

lemma plain_host_exact:
  "source_matches (HostSource sch h False p q) u plan \<Longrightarrow> js_lower (url_hostname u) = h"
  by (simp add: source_matches_def Let_def)

section \<open>The registry stays bounded\<close>

datatype csp_event = SetPlan string csp_plan | ClearPlan "string option"

fun csp_step :: "csp_event \<Rightarrow> csp_registry \<Rightarrow> csp_registry" where
  "csp_step (SetPlan c p) reg = csp_set_client c p reg"
| "csp_step (ClearPlan c) reg = csp_clear_client c reg"

lemma csp_step_ok:
  "omap_wf reg \<Longrightarrow> omap_wf (csp_step e reg)
   \<and> (length reg \<le> CSP_CLIENTS_CAP \<longrightarrow> length (csp_step e reg) \<le> CSP_CLIENTS_CAP)"
proof (cases e)
  case (SetPlan c p)
  then show "omap_wf reg \<Longrightarrow> ?thesis" by (simp add: csp_set_client_def length_put_capped CSP_CLIENTS_CAP_def)
next
  case (ClearPlan c)
  have "length (AList.delete k reg) \<le> length reg" for k by (simp add: AList.delete_eq)
  then show "omap_wf reg \<Longrightarrow> ?thesis"
    using ClearPlan by (auto simp: csp_clear_client_def split: option.split intro: order_trans)
qed

interpretation csp_clients: bounded_registry csp_step id CSP_CLIENTS_CAP
  by unfold_locales (simp_all add: csp_step_ok)

lemma csp_registry_bounded: "length (fold csp_step es []) \<le> CSP_CLIENTS_CAP"
  using csp_clients.steps_bounded [of "[]" es] by simp

text \<open>After a navigation was announced, the gate lets the client's requests pass until a new plan is set.\<close>

lemma cleared_client_passes:
  assumes "c \<noteq> []"
  shows "\<not> cd_blocked (csp_gate pu (csp_clear_client (Some c) reg) (Some c) dest target)"
  using assms by (auto simp: csp_gate_def csp_clear_client_def truthy_def Let_def split: option.split)

end
