(* ===== verification/Sri.thy ===== *)
theory Sri
  imports Csp
begin

unbundle bit_operations_syntax

text \<open>
  The engine-side verification of subresource integrity (\<open>src/app/src/sri.ts\<close>): base64, the parser of
  the metadata, the decision on a body, the entities of attribute values, the scanner of a document
  and the registry of expectations. The digest is an argument (\<open>None\<close> when the call throws), as are the URL parser and
  the text of the code points from 256 on. The entity names that are properties of every object
  (\<open>&constructor;\<close>) are outside the model.
\<close>

section \<open>base64\<close>

definition B64 :: string where
  "B64 = ''ABCDEFGHIJKLMNOPQRSTUVWXYZabcdefghijklmnopqrstuvwxyz0123456789+/''"

definition sextet1 :: "byte \<Rightarrow> nat" where "sextet1 b0 = drop_bit 2 (unat b0)"

definition sextet2 :: "byte \<Rightarrow> byte \<Rightarrow> nat" where
  "sextet2 b0 b1 = push_bit 4 (unat b0 AND 3) OR drop_bit 4 (unat b1)"

definition sextet3 :: "byte \<Rightarrow> byte \<Rightarrow> nat" where
  "sextet3 b1 b2 = push_bit 2 (unat b1 AND 15) OR drop_bit 6 (unat b2)"

definition sextet4 :: "byte \<Rightarrow> nat" where "sextet4 b2 = unat b2 AND 63"

fun bytes_to_b64 :: "byte list \<Rightarrow> string" where
  "bytes_to_b64 [] = []"
| "bytes_to_b64 [b0] = [B64 ! sextet1 b0, B64 ! sextet2 b0 0, CHR ''='', CHR ''='']"
| "bytes_to_b64 [b0, b1] = [B64 ! sextet1 b0, B64 ! sextet2 b0 b1, B64 ! sextet3 b1 0, CHR ''='']"
| "bytes_to_b64 (b0 # b1 # b2 # bs) =
     [B64 ! sextet1 b0, B64 ! sextet2 b0 b1, B64 ! sextet3 b1 b2, B64 ! sextet4 b2] @ bytes_to_b64 bs"

section \<open>Metadata\<close>

record sri_candidates =
  sc_supported :: "(string \<times> string) list"
  sc_unsupported :: bool
  sc_malformed :: bool

text \<open>
  \<open>SRI_ALGS[alg]\<close> is a lookup in an object literal: the two lower case names every object has are found
  too.
\<close>

definition sri_alg_found :: "string \<Rightarrow> bool" where
  "sri_alg_found alg \<longleftrightarrow> alg \<in> {''sha256'', ''sha384'', ''sha512'', ''constructor'', ''__proto__''}"

definition b64_text_char :: "char \<Rightarrow> bool" where
  "b64_text_char c \<longleftrightarrow> is_alnum c \<or> c \<in> set ''+/=''"

definition sri_token :: "string \<Rightarrow> sri_candidates \<Rightarrow> sri_candidates" where
  "sri_token tok out = (case index_of tok (CHR ''-'') of
     None \<Rightarrow> out\<lparr>sc_malformed := True\<rparr>
   | Some 0 \<Rightarrow> out\<lparr>sc_malformed := True\<rparr>
   | Some d \<Rightarrow>
     (let alg = js_lower (take d tok); b64 = drop (d + 1) tok
      in if b64 = [] \<or> \<not> list_all b64_text_char b64 then out\<lparr>sc_malformed := True\<rparr>
         else if sri_alg_found alg then out\<lparr>sc_supported := sc_supported out @ [(alg, b64)]\<rparr>
         else out\<lparr>sc_unsupported := True\<rparr>))"

definition parse_sri :: "string \<Rightarrow> sri_candidates" where
  "parse_sri value = fold sri_token (split_words value) \<lparr>sc_supported = [], sc_unsupported = False, sc_malformed = False\<rparr>"

datatype sri_decision =
  Verified | SriBlocked | SkippedTooLarge | SkippedUnsupported | SkippedMalformed | SkippedNoCandidates

definition SRI_VERIFY_BYTE_CAP :: nat where "SRI_VERIFY_BYTE_CAP = 4 * 1024 * 1024"

definition sri_verify_bytes ::
  "(string \<Rightarrow> byte list \<Rightarrow> byte list option) \<Rightarrow> byte list \<Rightarrow> string \<Rightarrow> bool \<Rightarrow> sri_decision" where
  "sri_verify_bytes digest raw value too_large =
     (if too_large then SkippedTooLarge
      else let c = parse_sri value
           in if sc_malformed c then SkippedMalformed
              else if sc_supported c = [] then (if sc_unsupported c then SkippedUnsupported else SkippedNoCandidates)
              else if \<exists>(alg, _) \<in> set (sc_supported c). digest alg raw = None then SkippedMalformed
              else if \<exists>(alg, b64) \<in> set (sc_supported c). map_option bytes_to_b64 (digest alg raw) = Some b64 then Verified
              else SriBlocked)"

section \<open>Entities\<close>

definition named_entity :: "string \<Rightarrow> string option" where
  "named_entity = map_of [(''amp'', ''&''), (''lt'', ''<''), (''gt'', ''>''), (''quot'', [CHR 0x22]),
     (''apos'', [CHR 0x27]), (''#39'', [CHR 0x27])]"

definition lower_hex :: "char \<Rightarrow> bool" where
  "lower_hex c \<longleftrightarrow> is_digit c \<or> (97 \<le> char_code c \<and> char_code c \<le> 102)"

text \<open>\<open>#x?[0-9a-f]+|[a-zA-Z][a-zA-Z0-9]*\<close>\<close>

definition entity_name :: "string \<Rightarrow> bool" where
  "entity_name e = (case e of [] \<Rightarrow> False
     | c # r \<Rightarrow>
       if c = CHR ''#'' then (let d = (if starts_with r ''x'' then tl r else r) in d \<noteq> [] \<and> list_all lower_hex d)
       else is_letter c \<and> list_all is_alnum r)"

definition hex_value :: "string \<Rightarrow> nat" where
  "hex_value = foldl (\<lambda>n c. 16 * n + (case hex_val c of Some v \<Rightarrow> v | None \<Rightarrow> 0)) 0"

definition from_code_point :: "(nat \<Rightarrow> string) \<Rightarrow> nat \<Rightarrow> string" where
  "from_code_point wide cp = (if cp < 256 then [char_of cp] else wide cp)"

definition decode_entity :: "(nat \<Rightarrow> string) \<Rightarrow> string \<Rightarrow> string" where
  "decode_entity wide ent =
     (let keep = ''&'' @ ent @ '';''; point = (\<lambda>cp. if 0 < cp \<and> cp < 0x110000 then from_code_point wide cp else keep)
      in case named_entity ent of
           Some t \<Rightarrow> t
         | None \<Rightarrow>
           if starts_with ent ''#x'' then point (hex_value (drop 2 ent))
           else if starts_with ent ''#'' \<and> list_all is_digit (tl ent) then point (digits_val (tl ent))
           else keep)"

fun decode_entities :: "(nat \<Rightarrow> string) \<Rightarrow> string \<Rightarrow> string" where
  "decode_entities wide [] = []"
| "decode_entities wide (c # s) =
     (if c = CHR ''&'' then
        (case index_of s (CHR '';'') of
           Some i \<Rightarrow> if entity_name (take i s) then decode_entity wide (take i s) @ decode_entities wide (drop (i + 1) s)
                     else c # decode_entities wide s
         | None \<Rightarrow> c # decode_entities wide s)
      else c # decode_entities wide s)"

section \<open>Tags\<close>

definition word_char :: "char \<Rightarrow> bool" where
  "word_char c \<longleftrightarrow> is_alnum c \<or> c = CHR ''_''"

text \<open>\<open>(?:^|\s)\<close> before a pattern: the first place where it matches.\<close>

fun after_space :: "(string \<Rightarrow> 'a option) \<Rightarrow> string \<Rightarrow> 'a option" where
  "after_space f [] = None"
| "after_space f (c # s) = (case (if is_js_space c then f s else None) of Some v \<Rightarrow> Some v | None \<Rightarrow> after_space f s)"

definition at_word :: "(string \<Rightarrow> 'a option) \<Rightarrow> string \<Rightarrow> 'a option" where
  "at_word f s = (case f s of Some v \<Rightarrow> Some v | None \<Rightarrow> after_space f s)"

text \<open>The rest of the pattern; \<open>Some None\<close> is a bare value that is refused.\<close>

definition quoted_value :: "char \<Rightarrow> string \<Rightarrow> string option" where
  "quoted_value q v = (case v of [] \<Rightarrow> None
     | c # r \<Rightarrow> if c = q \<and> q \<in> set r then Some (takeWhile (\<lambda>d. d \<noteq> q) r) else None)"

definition bare_ok :: "char \<Rightarrow> bool" where
  "bare_ok c \<longleftrightarrow> \<not> is_js_space c \<and> c \<notin> {CHR 0x22, CHR 0x27, CHR ''<'', CHR ''>'', CHR 0x00}"

definition attr_match :: "string \<Rightarrow> string \<Rightarrow> string option option" where
  "attr_match name s =
     (if \<not> starts_with (js_lower s) name then None
      else case dropWhile is_js_space (drop (length name) s) of
          [] \<Rightarrow> None
        | c # r \<Rightarrow> if c \<noteq> CHR ''='' then None
            else let v = dropWhile is_js_space r
                 in case (case quoted_value (CHR 0x22) v of Some x \<Rightarrow> Some x | None \<Rightarrow> quoted_value (CHR 0x27) v) of
                      Some x \<Rightarrow> Some (Some x)
                    | None \<Rightarrow>
                      (let b = takeWhile (\<lambda>d. \<not> is_js_space d \<and> d \<noteq> CHR ''>'') v
                       in if b = [] then None else Some (if list_all bare_ok b then Some b else None)))"

definition attr_of :: "string \<Rightarrow> string \<Rightarrow> string option" where
  "attr_of tag name = (case at_word (attr_match name) tag of Some v \<Rightarrow> v | None \<Rightarrow> None)"

text \<open>\<open>/\bintegrity\b/i\<close>, with the character before the text.\<close>

fun has_word_from :: "char option \<Rightarrow> string \<Rightarrow> string \<Rightarrow> bool" where
  "has_word_from prev w [] \<longleftrightarrow> False"
| "has_word_from prev w (c # s) \<longleftrightarrow>
     (starts_with (js_lower (c # s)) w
      \<and> (case prev of None \<Rightarrow> True | Some p \<Rightarrow> \<not> word_char p)
      \<and> (case drop (length w) (c # s) of [] \<Rightarrow> True | d # _ \<Rightarrow> \<not> word_char d))
     \<or> has_word_from (Some c) w s"

text \<open>\<open>/^<\s*(script|link)\b/i\<close>\<close>

definition tag_is :: "string \<Rightarrow> string \<Rightarrow> bool" where
  "tag_is kind tag \<longleftrightarrow> starts_with tag ''<''
     \<and> (let r = dropWhile is_js_space (tl tag)
        in starts_with (js_lower r) kind
           \<and> (case drop (length kind) r of [] \<Rightarrow> True | c # _ \<Rightarrow> \<not> word_char c))"

definition resolve_sri_url :: "platform \<Rightarrow> (nat \<Rightarrow> string) \<Rightarrow> string \<Rightarrow> string \<Rightarrow> string option" where
  "resolve_sri_url pf wide v base = (case new_url_base pf (decode_entities wide v) base of
     None \<Rightarrow> None | Some u \<Rightarrow> if is_http_url u then Some (url_href u) else None)"

text \<open>What one tag adds: the absolute URL and the integrity metadata.\<close>

definition tag_pair :: "platform \<Rightarrow> (nat \<Rightarrow> string) \<Rightarrow> string \<Rightarrow> string \<Rightarrow> (string \<times> string) option" where
  "tag_pair pf wide base tag =
     (let url_attr = (if tag_is ''script'' tag then Some ''src''
            else if tag_is ''link'' tag
              \<and> ''stylesheet'' \<in> set (split_words (js_lower (case attr_of tag ''rel'' of Some r \<Rightarrow> r | None \<Rightarrow> [])))
            then Some ''href'' else None)
      in if \<not> has_word_from None ''integrity'' tag then None
         else case (url_attr, truthy (attr_of tag ''integrity'')) of
           (Some a, Some integrity) \<Rightarrow> (case truthy (attr_of tag a) of
              None \<Rightarrow> None
            | Some src \<Rightarrow> map_option (\<lambda>u. (u, integrity)) (truthy (resolve_sri_url pf wide src base)))
         | _ \<Rightarrow> None)"

section \<open>The scanner\<close>

definition SRI_SCAN_TEXT_MAX :: nat where "SRI_SCAN_TEXT_MAX = 256 * 1024"

definition SRI_ENTRIES_CAP :: nat where "SRI_ENTRIES_CAP = 128"

definition SRI_CLIENTS_CAP :: nat where "SRI_CLIENTS_CAP = 256"

definition TAG_HOLD_MAX :: nat where "TAG_HOLD_MAX = 64 * 1024"

record sri_scan =
  ss_pending :: string
  ss_fed :: nat
  ss_pairs :: "(string \<times> string) list"
  ss_done :: bool

definition new_sri_scan :: sri_scan where
  "new_sri_scan = \<lparr>ss_pending = [], ss_fed = 0, ss_pairs = [], ss_done = False\<rparr>"

definition sri_process :: "(string \<Rightarrow> (string \<times> string) option) \<Rightarrow> string \<Rightarrow> sri_scan \<Rightarrow> sri_scan" where
  "sri_process pair tag s =
     (if length (ss_pairs s) \<ge> SRI_ENTRIES_CAP then s\<lparr>ss_done := True\<rparr>
      else case pair tag of None \<Rightarrow> s | Some p \<Rightarrow> s\<lparr>ss_pairs := ss_pairs s @ [p]\<rparr>)"

text \<open>The loop of \<open>feed\<close> on the held text; the result holds the text that stays.\<close>

function sri_loop :: "(string \<Rightarrow> (string \<times> string) option) \<Rightarrow> string \<Rightarrow> sri_scan \<Rightarrow> sri_scan" where
  "sri_loop pair p s = (case index_of p (CHR ''<'') of
     None \<Rightarrow> s\<lparr>ss_pending := []\<rparr>
   | Some lt \<Rightarrow> (case index_of (drop lt p) (CHR ''>'') of
       None \<Rightarrow> s\<lparr>ss_pending := (if length (drop lt p) > TAG_HOLD_MAX then [] else drop lt p)\<rparr>
     | Some gt \<Rightarrow>
       (let s' = sri_process pair (take (gt + 1) (drop lt p)) s
        in if ss_done s' then s'\<lparr>ss_pending := []\<rparr> else sri_loop pair (drop (gt + 1) (drop lt p)) s')))"
  by pat_completeness auto
termination
proof (relation "measure (\<lambda>(pair, p, s). length p)", goal_cases)
  case (2 pair p s lt gt s')
  then have "lt < length p" using index_of_Some by metis
  then show ?case using 2 by auto
qed simp

declare sri_loop.simps [simp del]

definition sri_feed :: "platform \<Rightarrow> (nat \<Rightarrow> string) \<Rightarrow> string \<Rightarrow> string \<Rightarrow> sri_scan \<Rightarrow> sri_scan" where
  "sri_feed pf wide base text s =
     (if ss_done s then s
      else let s' = sri_loop (tag_pair pf wide base) (ss_pending s @ text) (s\<lparr>ss_fed := ss_fed s + length text\<rparr>)
           in if ss_fed s' \<ge> SRI_SCAN_TEXT_MAX then s'\<lparr>ss_done := True\<rparr> else s')"

section \<open>The registry\<close>

type_synonym sri_registry = "(string, (string, string) omap) omap"

definition sri_note :: "string \<Rightarrow> string \<Rightarrow> string \<Rightarrow> sri_registry \<Rightarrow> sri_registry" where
  "sri_note client target integrity reg =
     (let m = (case map_of reg client of Some m \<Rightarrow> m | None \<Rightarrow> [])
      in omap_put_capped SRI_CLIENTS_CAP client (omap_put_capped SRI_ENTRIES_CAP target integrity m) reg)"

definition sri_expectation :: "sri_registry \<Rightarrow> string option \<Rightarrow> string \<Rightarrow> string option" where
  "sri_expectation reg client target = (case truthy client of None \<Rightarrow> None
     | Some c \<Rightarrow> (case map_of reg c of None \<Rightarrow> None | Some m \<Rightarrow> map_of m target))"

definition sri_clear_client :: "string option \<Rightarrow> sri_registry \<Rightarrow> sri_registry" where
  "sri_clear_client client reg = (case truthy client of None \<Rightarrow> reg | Some c \<Rightarrow> AList.delete c reg)"

text \<open>The refusal: the status and the type of the body.\<close>

definition sri_blocked_response :: "string \<Rightarrow> nat \<Rightarrow> nat \<times> string" where
  "sri_blocked_response dest status =
     (if status \<ge> 500 then status else 500,
      if dest = ''style'' then ''text/css; charset=utf-8'' else ''application/javascript; charset=utf-8'')"

section \<open>base64 is injective\<close>

lemma or_add: "b < 2 ^ k \<Longrightarrow> push_bit k a OR b = 2 ^ k * a + (b :: nat)"
proof -
  assume b: "b < 2 ^ k"
  have "\<not> bit (push_bit k a) n \<or> \<not> bit b n" for n
  proof (cases "n < k")
    case False
    then have "b < 2 ^ n" using b by (meson leI less_le_trans one_le_numeral power_increasing)
    then show ?thesis by (simp add: bit_iff_odd)
  qed (simp add: bit_push_bit_iff)
  then have "push_bit k a + b = push_bit k a OR b" by (intro disjunctive_add) auto
  then show ?thesis by (simp add: push_bit_eq_mult mult.commute)
qed

lemma byte_less: "unat (b :: byte) < 256"
  by (rule order_less_le_trans [OF unsigned_less]) simp

lemma mask_mod: "(n :: nat) AND 3 = n mod 4" "n AND 15 = n mod 16" "n AND 63 = n mod 64"
  using take_bit_eq_mask [of 2 n] take_bit_eq_mask [of 4 n] take_bit_eq_mask [of 6 n]
  by (simp_all add: take_bit_eq_mod mask_eq_exp_minus_1)

lemma sextet_values:
  "sextet1 b0 = unat b0 div 4" "sextet2 b0 b1 = 16 * (unat b0 mod 4) + unat b1 div 16"
  "sextet3 b1 b2 = 4 * (unat b1 mod 16) + unat b2 div 64" "sextet4 b2 = unat b2 mod 64"
proof -
  have 1: "unat b1 div 16 < 2 ^ 4" using byte_less [of b1] by simp
  have 2: "unat b2 div 64 < 2 ^ 2" using byte_less [of b2] by simp
  show "sextet1 b0 = unat b0 div 4" by (simp add: sextet1_def drop_bit_eq_div)
  show "sextet2 b0 b1 = 16 * (unat b0 mod 4) + unat b1 div 16"
    using or_add [OF 1, of "unat b0 mod 4"] by (simp add: sextet2_def drop_bit_eq_div mask_mod)
  show "sextet3 b1 b2 = 4 * (unat b1 mod 16) + unat b2 div 64"
    using or_add [OF 2, of "unat b1 mod 16"] by (simp add: sextet3_def drop_bit_eq_div mask_mod)
  show "sextet4 b2 = unat b2 mod 64" by (simp add: sextet4_def mask_mod)
qed

lemma sextet_bounds: "sextet1 a < 64" "sextet2 a b < 64" "sextet3 a b < 64" "sextet4 a < 64"
  using byte_less [of a] byte_less [of b] by (auto simp: sextet_values)

lemma B64_inject: "i < 64 \<Longrightarrow> j < 64 \<Longrightarrow> B64 ! i = B64 ! j \<longleftrightarrow> i = j"
proof -
  have "distinct B64" "length B64 = 64" by (simp_all add: B64_def)
  then show "i < 64 \<Longrightarrow> j < 64 \<Longrightarrow> B64 ! i = B64 ! j \<longleftrightarrow> i = j" by (simp add: nth_eq_iff_index_eq)
qed

lemma B64_text: "i < 64 \<Longrightarrow> b64_text_char (B64 ! i) \<and> B64 ! i \<noteq> CHR ''=''"
proof -
  have "length B64 = 64" by (simp add: B64_def)
  moreover have "list_all (\<lambda>c. b64_text_char c \<and> c \<noteq> CHR ''='') B64"
    by (simp add: B64_def b64_text_char_def is_alnum_def is_digit_def)
  ultimately show "i < 64 \<Longrightarrow> b64_text_char (B64 ! i) \<and> B64 ! i \<noteq> CHR ''=''" by (simp add: list_all_length)
qed

lemma byte_eqI: "unat (a :: byte) div k = unat b div k \<Longrightarrow> unat a mod k = unat b mod k \<Longrightarrow> a = b"
  by (metis div_mult_mod_eq word_unat_eq_iff)

lemma digit_inject:
  fixes k :: nat
  assumes "k * a + x = k * b + y" "x < k" "y < k"
  shows "a = b \<and> x = y"
proof -
  have "(k * a + x) div k = (k * b + y) div k" "(k * a + x) mod k = (k * b + y) mod k" using assms(1) by simp_all
  then show ?thesis using assms(2,3) by simp
qed

lemma sextets_inject:
  assumes "sextet1 a0 = sextet1 b0" "sextet2 a0 a1 = sextet2 b0 b1"
  shows "a0 = b0 \<and> unat a1 div 16 = unat b1 div 16"
proof -
  have "unat a0 mod 4 = unat b0 mod 4 \<and> unat a1 div 16 = unat b1 div 16"
    by (rule digit_inject [of 16]) (use assms(2) byte_less [of a1] byte_less [of b1] in \<open>simp_all add: sextet_values\<close>)
  moreover have "unat a0 div 4 = unat b0 div 4" using assms(1) by (simp only: sextet_values)
  ultimately show ?thesis using byte_eqI by blast
qed

lemma sextets_inject2:
  assumes "unat a1 div 16 = unat b1 div 16" "sextet3 a1 a2 = sextet3 b1 b2"
  shows "a1 = b1 \<and> unat a2 div 64 = unat b2 div 64"
proof -
  have "unat a1 mod 16 = unat b1 mod 16 \<and> unat a2 div 64 = unat b2 div 64"
    by (rule digit_inject [of 4]) (use assms(2) byte_less [of a2] byte_less [of b2] in \<open>simp_all add: sextet_values\<close>)
  then show ?thesis using assms(1) byte_eqI by blast
qed

lemma bytes_to_b64_inject: "bytes_to_b64 xs = bytes_to_b64 ys \<Longrightarrow> xs = ys"
proof (induction xs arbitrary: ys rule: bytes_to_b64.induct)
  case 1
  then show ?case by (cases ys rule: bytes_to_b64.cases) auto
next
  case (2 b0)
  note no = B64_text [THEN conjunct2] B64_text [THEN conjunct2, THEN not_sym]
  show ?case
  proof (cases ys rule: bytes_to_b64.cases)
    case (2 c0)
    have e: "sextet1 b0 = sextet1 c0" "sextet2 b0 0 = sextet2 c0 0"
      using "2.prems" by (simp_all add: 2 B64_inject sextet_bounds)
    then show ?thesis using sextets_inject by (simp add: 2)
  qed (use "2.prems" in \<open>auto simp: no sextet_bounds\<close>)
next
  case (3 b0 b1)
  note no = B64_text [THEN conjunct2] B64_text [THEN conjunct2, THEN not_sym]
  show ?case
  proof (cases ys rule: bytes_to_b64.cases)
    case (3 c0 c1)
    have e: "sextet1 b0 = sextet1 c0" "sextet2 b0 b1 = sextet2 c0 c1" "sextet3 b1 0 = sextet3 c1 0"
      using "3.prems" by (simp_all add: 3 B64_inject sextet_bounds)
    have 1: "b0 = c0 \<and> unat b1 div 16 = unat c1 div 16" by (rule sextets_inject [OF e(1,2)])
    then show ?thesis using sextets_inject2 [OF _ e(3)] by (simp add: 3)
  qed (use "3.prems" in \<open>auto simp: no sextet_bounds\<close>)
next
  case (4 b0 b1 b2 bs)
  note no = B64_text [THEN conjunct2] B64_text [THEN conjunct2, THEN not_sym]
  show ?case
  proof (cases ys rule: bytes_to_b64.cases)
    case (4 c0 c1 c2 cs)
    have e: "sextet1 b0 = sextet1 c0" "sextet2 b0 b1 = sextet2 c0 c1" "sextet3 b1 b2 = sextet3 c1 c2" "sextet4 b2 = sextet4 c2"
      and t: "bytes_to_b64 bs = bytes_to_b64 cs"
      using "4.prems" by (simp_all add: 4 B64_inject sextet_bounds)
    have 1: "b0 = c0 \<and> unat b1 div 16 = unat c1 div 16" by (rule sextets_inject [OF e(1,2)])
    have 2: "b1 = c1 \<and> unat b2 div 64 = unat c2 div 64" using sextets_inject2 [OF _ e(3)] 1 by blast
    have 3: "b2 = c2" using 2 e(4) byte_eqI [of b2 64 c2] by (simp add: sextet_values)
    show ?thesis using 1 2 3 "4.IH" [OF t] by (simp add: 4)
  qed (use "4.prems" in \<open>auto simp: no sextet_bounds\<close>)
qed

section \<open>The decision is exact\<close>

definition sri_token_of :: "string \<times> byte list \<Rightarrow> string" where
  "sri_token_of c = fst c @ CHR ''-'' # bytes_to_b64 (snd c)"

lemma bytes_to_b64_text: "list_all b64_text_char (bytes_to_b64 bs)"
proof (induction bs rule: bytes_to_b64.induct)
qed (simp_all add: B64_text [THEN conjunct1] sextet_bounds, simp_all add: b64_text_char_def)

lemma bytes_to_b64_Nil: "bytes_to_b64 bs = [] \<longleftrightarrow> bs = []"
  by (cases bs rule: bytes_to_b64.cases) simp_all

lemma b64_text_no_space: "b64_text_char c \<Longrightarrow> \<not> is_js_space c"
  by (auto simp: b64_text_char_def is_js_space_def is_alnum_def is_digit_def)

lemma split_words_join:
  assumes "\<forall>w \<in> set ws. w \<noteq> [] \<and> (\<forall>c \<in> set w. \<not> is_js_space c)" "ws \<noteq> []"
  shows "split_words (join_with '' '' ws) = ws"
proof -
  have sp: "is_js_space (CHR '' '')" by (simp add: is_js_space_def)
  have "map (\<lambda>c. if is_js_space c then CHR '' '' else c) (join_with '' '' vs) = join_with '' '' vs"
    if "\<forall>w \<in> set vs. \<forall>c \<in> set w. \<not> is_js_space c" for vs
    using that by (induction "'' ''" vs rule: join_with.induct) (auto intro!: map_idI)
  moreover have "split_on (CHR '' '') (join_with [CHR '' ''] ws) = ws"
    by (rule split_on_join_with) (use assms sp in auto)
  moreover have "filter (\<lambda>w. w \<noteq> []) ws = ws" using assms(1) by (simp add: filter_id_conv)
  ultimately show ?thesis using assms(1) by (simp add: split_words_def)
qed

definition sri_algs :: "string list" where
  "sri_algs = [''sha256'', ''sha384'', ''sha512'']"

lemma sri_token_valid:
  assumes "fst c \<in> set sri_algs" "snd c \<noteq> []"
  shows "sri_token (sri_token_of c) out = out\<lparr>sc_supported := sc_supported out @ [(fst c, bytes_to_b64 (snd c))]\<rparr>"
proof -
  have a: "CHR ''-'' \<notin> set (fst c)" "length (fst c) = 6" "js_lower (fst c) = fst c" "sri_alg_found (fst c)"
    using assms(1) by (auto simp: sri_algs_def sri_alg_found_def js_lower_def lower_char_def)
  have "index_of (sri_token_of c) (CHR ''-'') = Some 6"
    unfolding sri_token_of_def using index_of_append [OF a(1)] a(2) by simp
  moreover have "take 6 (sri_token_of c) = fst c" "drop 7 (sri_token_of c) = bytes_to_b64 (snd c)"
    using a(2) by (simp_all add: sri_token_of_def)
  ultimately show ?thesis
    using a(3,4) assms(2) bytes_to_b64_text [of "snd c"] by (simp add: sri_token_def bytes_to_b64_Nil numeral_eq_Suc)
qed

lemma parse_sri_valid:
  assumes "\<forall>c \<in> set cs. fst c \<in> set sri_algs \<and> snd c \<noteq> []" "cs \<noteq> []"
  shows "parse_sri (join_with '' '' (map sri_token_of cs))
    = \<lparr>sc_supported = map (\<lambda>c. (fst c, bytes_to_b64 (snd c))) cs, sc_unsupported = False, sc_malformed = False\<rparr>"
proof -
  have f: "fold sri_token (map sri_token_of cs) out
      = out\<lparr>sc_supported := sc_supported out @ map (\<lambda>c. (fst c, bytes_to_b64 (snd c))) cs\<rparr>" for out
    using assms(1) by (induction cs arbitrary: out) (simp_all add: sri_token_valid)
  have "\<forall>w \<in> set (map sri_token_of cs). w \<noteq> [] \<and> (\<forall>c \<in> set w. \<not> is_js_space c)"
  proof
    fix w
    assume "w \<in> set (map sri_token_of cs)"
    then obtain c where c: "c \<in> set cs" "w = sri_token_of c" by auto
    have "\<forall>x \<in> set (bytes_to_b64 (snd c)). \<not> is_js_space x"
      using bytes_to_b64_text [of "snd c"] b64_text_no_space by (simp add: list_all_iff)
    moreover have "\<forall>x \<in> set (fst c @ ''-''). \<not> is_js_space x"
    proof -
      have "\<forall>a \<in> set sri_algs. \<forall>x \<in> set (a @ ''-''). \<not> is_js_space x" by (simp add: sri_algs_def is_js_space_def)
      then show ?thesis using assms(1) c(1) by blast
    qed
    ultimately show "w \<noteq> [] \<and> (\<forall>c \<in> set w. \<not> is_js_space c)" by (auto simp: c(2) sri_token_of_def)
  qed
  then have "split_words (join_with '' '' (map sri_token_of cs)) = map sri_token_of cs"
    by (rule split_words_join) (use assms(2) in simp)
  then show ?thesis by (simp add: parse_sri_def f)
qed

text \<open>On well-formed metadata the decision is exact: a body that is not too large is verified when one of the listed
  digests is its own, and refused when none is.
\<close>

theorem sri_decision_exact:
  assumes "\<forall>c \<in> set cs. fst c \<in> set sri_algs \<and> snd c \<noteq> []" "cs \<noteq> []" "\<forall>alg \<in> set sri_algs. digest alg raw \<noteq> None"
  shows "sri_verify_bytes digest raw (join_with '' '' (map sri_token_of cs)) False
    = (if \<exists>(alg, d) \<in> set cs. digest alg raw = Some d then Verified else SriBlocked)"
proof -
  have total: "digest (fst c) raw \<noteq> None" if "c \<in> set cs" for c using assms(1,3) that by blast
  have same: "map_option bytes_to_b64 (digest (fst c) raw) = Some (bytes_to_b64 (snd c)) \<longleftrightarrow> digest (fst c) raw = Some (snd c)"
    if "c \<in> set cs" for c
    using total [OF that] by (auto dest: bytes_to_b64_inject)
  let ?S = "map (\<lambda>c. (fst c, bytes_to_b64 (snd c))) cs"
  have 1: "\<not> (\<exists>(alg, _) \<in> set ?S. digest alg raw = None)" using total by auto
  have 2: "(\<exists>(alg, b64) \<in> set ?S. map_option bytes_to_b64 (digest alg raw) = Some b64)
      \<longleftrightarrow> (\<exists>(alg, d) \<in> set cs. digest alg raw = Some d)"
    using same by (simp add: split_beta)
  show ?thesis
    unfolding sri_verify_bytes_def parse_sri_valid [OF assms(1,2)] Let_def if_False sri_candidates.simps
    using assms(2) 1 2 by (simp only: if_False if_True map_is_Nil_conv)
qed

lemma sri_decision_exact_witness:
  "sri_verify_bytes (\<lambda>alg bs. Some (1 # bs)) [7] (join_with '' '' (map sri_token_of [(''sha256'', [9]), (''sha384'', [1, 7])])) False = Verified
   \<and> sri_verify_bytes (\<lambda>alg bs. Some (1 # bs)) [8] (join_with '' '' (map sri_token_of [(''sha256'', [9]), (''sha384'', [1, 7])])) False = SriBlocked"
  using sri_decision_exact [of "[(''sha256'', [9]), (''sha384'', [1, 7])]" "\<lambda>alg bs. Some (1 # bs)" "[7]"]
    sri_decision_exact [of "[(''sha256'', [9]), (''sha384'', [1, 7])]" "\<lambda>alg bs. Some (1 # bs)" "[8]"]
  by (simp add: sri_algs_def)

text \<open>
  The algorithm is looked up in an object literal, which finds \<open>constructor\<close> too: one such token turns the
  refusal of the others into a skip.\<close>

lemma constructor_token_skips:
  assumes "digest ''constructor'' raw = None"
  shows "sri_verify_bytes digest raw (''sha256-AAAA constructor-A'') False = SkippedMalformed"
proof -
  have "parse_sri ''sha256-AAAA constructor-A''
      = \<lparr>sc_supported = [(''sha256'', ''AAAA''), (''constructor'', ''A'')], sc_unsupported = False, sc_malformed = False\<rparr>"
    by code_simp
  then show ?thesis using assms by (simp add: sri_verify_bytes_def)
qed

text \<open>Hexadecimal references are decoded with lower case digits only.\<close>

lemma upper_hex_kept: "decode_entities wide ''a&#x2F;b&#x2f;c'' = ''a&#x2F;b/c''"
proof -
  have "char_of (47 :: nat) = CHR ''/''" by code_simp
  then show ?thesis
    by (simp add: entity_name_def lower_hex_def is_digit_def is_letter_def is_alnum_def decode_entity_def named_entity_def Let_def
        hex_value_def hex_val_def from_code_point_def)
qed

section \<open>Expectations\<close>

lemma sri_note_reads:
  assumes "c \<noteq> []"
  shows "sri_expectation (sri_note c target i reg) (Some c) target = Some i"
  using assms by (simp add: sri_expectation_def sri_note_def truthy_def Let_def)

lemma sri_cleared:
  assumes "c \<noteq> []"
  shows "sri_expectation (sri_clear_client (Some c) reg) (Some c) target = None"
  using assms by (simp add: sri_expectation_def sri_clear_client_def truthy_def)

datatype sri_event = NotePair string string string | ClearPairs "string option"

fun sri_step :: "sri_event \<Rightarrow> sri_registry \<Rightarrow> sri_registry" where
  "sri_step (NotePair c t i) reg = sri_note c t i reg"
| "sri_step (ClearPairs c) reg = sri_clear_client c reg"

lemma sri_step_ok:
  "omap_wf reg \<Longrightarrow> omap_wf (sri_step e reg)
   \<and> (length reg \<le> SRI_CLIENTS_CAP \<longrightarrow> length (sri_step e reg) \<le> SRI_CLIENTS_CAP)"
proof (cases e)
  case (NotePair c t i)
  then show "omap_wf reg \<Longrightarrow> ?thesis" by (simp add: sri_note_def Let_def length_put_capped SRI_CLIENTS_CAP_def)
next
  case (ClearPairs c)
  have "length (AList.delete k reg) \<le> length reg" for k by (simp add: AList.delete_eq)
  then show "omap_wf reg \<Longrightarrow> ?thesis"
    using ClearPairs by (auto simp: sri_clear_client_def split: option.split intro: order_trans)
qed

interpretation sri_clients: bounded_registry sri_step id SRI_CLIENTS_CAP
  by unfold_locales (simp_all add: sri_step_ok)

lemma sri_registry_bounded: "length (fold sri_step es []) \<le> SRI_CLIENTS_CAP"
  using sri_clients.steps_bounded [of "[]" es] by simp

end
