(* ===== verification/WispAuth.thy ===== *)
theory WispAuth
  imports Codec
begin

unbundle bit_operations_syntax

text \<open>
  Password authentication on the wisp socket (\<open>src/app/src/wisp-auth.ts\<close>): the credentials, the frames
  and the wrapper of the WebSocket. A socket is driven by events: what the transport sends, what the
  server sends, the deadline, and the changes of the credentials by the host. The frames handed to the
  platform are recorded with the place of the code that sends them; the platform drops what is sent after
  \<open>close()\<close>. The wrapper installs itself once; its installation is not modelled.
\<close>

section \<open>Credentials\<close>

datatype auth_outcome = AuthRequired | InvalidCredential | AuthUnsupported

record wisp_cred =
  wc_endpoint :: string
  wc_user :: string
  wc_password :: string
  wc_secure :: bool

record wisp_auth =
  wa_cred :: "wisp_cred option"
  wa_outcome :: "auth_outcome option"

datatype wisp_auth_error =
  BadEndpoint | InsecureEndpoint | EmptyUser | LongUser | EmptyPassword | LongPassword | NoEndpointKey

text \<open>\<open>normalizeWispUrl\<close> of \<open>config.ts\<close>.\<close>

definition normalize_wisp_url :: "url_parser \<Rightarrow> string \<Rightarrow> string option" where
  "normalize_wisp_url pu s =
     (let t = js_trim s
      in if \<not> starts_with t ''ws://'' \<and> \<not> starts_with t ''wss://'' then None
         else case pu t of None \<Rightarrow> None
           | Some u \<Rightarrow> if url_protocol u \<noteq> ''ws:'' \<and> url_protocol u \<noteq> ''wss:'' then None else Some (url_href u))"

definition endpoint_key :: "url_parser \<Rightarrow> string \<Rightarrow> string option" where
  "endpoint_key pu s = map_option (\<lambda>u. url_origin u @ url_pathname u) (pu s)"

definition is_loopback :: "url_parser \<Rightarrow> string \<Rightarrow> bool" where
  "is_loopback pu s = (case pu s of None \<Rightarrow> False
     | Some u \<Rightarrow> url_hostname u \<in> {''localhost'', ''127.0.0.1'', ''[::1]''})"

definition configure_wisp_auth ::
  "url_parser \<Rightarrow> string \<Rightarrow> string \<Rightarrow> string \<Rightarrow> wisp_auth \<Rightarrow> wisp_auth_error option \<times> wisp_auth" where
  "configure_wisp_auth pu endpoint user password s = (case truthy (normalize_wisp_url pu endpoint) of
     None \<Rightarrow> (Some BadEndpoint, s)
   | Some norm \<Rightarrow>
     (let secure = starts_with norm ''wss://'';
          u = length (utf8_encode user); p = length (utf8_encode password)
      in if \<not> secure \<and> \<not> is_loopback pu norm then (Some InsecureEndpoint, s)
         else if u = 0 then (Some EmptyUser, s)
         else if u > 255 then (Some LongUser, s)
         else if p = 0 then (Some EmptyPassword, s)
         else if p > 1024 then (Some LongPassword, s)
         else case truthy (endpoint_key pu norm) of
           None \<Rightarrow> (Some NoEndpointKey, s)
         | Some key \<Rightarrow>
           (None, \<lparr>wa_cred = Some \<lparr>wc_endpoint = key, wc_user = user, wc_password = password, wc_secure = secure\<rparr>,
                   wa_outcome = None\<rparr>)))"

definition clear_wisp_auth :: "wisp_auth \<Rightarrow> wisp_auth" where
  "clear_wisp_auth s = s\<lparr>wa_cred := None\<rparr>"

record wisp_status =
  ws_password_mode :: bool
  ws_endpoint :: "string option"
  ws_secure :: bool
  ws_outcome :: "auth_outcome option"

definition wisp_auth_status :: "wisp_auth \<Rightarrow> wisp_status" where
  "wisp_auth_status s = \<lparr>ws_password_mode = (wa_cred s \<noteq> None), ws_endpoint = map_option wc_endpoint (wa_cred s),
     ws_secure = (case wa_cred s of Some c \<Rightarrow> wc_secure c | None \<Rightarrow> True), ws_outcome = wa_outcome s\<rparr>"

definition note_outcome :: "auth_outcome \<Rightarrow> wisp_auth \<Rightarrow> wisp_auth" where
  "note_outcome x s = s\<lparr>wa_outcome := Some x\<rparr>"

section \<open>Frames\<close>

type_synonym frame = "byte list"

definition PKT_CONNECT :: byte where "PKT_CONNECT = 1"
definition PKT_DATA :: byte where "PKT_DATA = 2"
definition PKT_CONTINUE :: byte where "PKT_CONTINUE = 3"
definition PKT_CLOSE :: byte where "PKT_CLOSE = 4"
definition PKT_INFO :: byte where "PKT_INFO = 5"
definition EXT_PASSWORD_AUTH :: byte where "EXT_PASSWORD_AUTH = 2"
definition MAX_EXTS :: nat where "MAX_EXTS = 64"
definition MAX_EXT_META :: int where "MAX_EXT_META = 4096"
definition WISP_GRANT_PACKETS :: nat where "WISP_GRANT_PACKETS = 65536"

text \<open>A read past the end is \<open>undefined\<close>, which the bit operations take as 0.\<close>

definition frame_byte :: "frame \<Rightarrow> nat \<Rightarrow> 32 word" where
  "frame_byte b p = (if p < length b then ucast (b ! p) else 0)"

definition frame_u32 :: "frame \<Rightarrow> nat \<Rightarrow> 32 word" where
  "frame_u32 b p = frame_byte b p OR push_bit 8 (frame_byte b (p + 1)) OR push_bit 16 (frame_byte b (p + 2))
     OR push_bit 24 (frame_byte b (p + 3))"

text \<open>\<open>setUint32(p, n, true)\<close>\<close>

definition frame_le32 :: "32 word \<Rightarrow> frame" where
  "frame_le32 n = [ucast n, ucast (drop_bit 8 n), ucast (drop_bit 16 n), ucast (drop_bit 24 n)]"

definition password_auth_payload :: "string \<Rightarrow> string \<Rightarrow> frame option" where
  "password_auth_payload user password =
     (let u = utf8_encode user; p = utf8_encode password
      in if u = [] \<or> length u > 255 \<or> p = [] \<or> length p > 1024 then None
         else Some (of_nat (length u) # u @ p))"

definition client_info_with_auth :: "string \<Rightarrow> string \<Rightarrow> frame option" where
  "client_info_with_auth user password = (case password_auth_payload user password of
     None \<Rightarrow> None
   | Some auth \<Rightarrow> Some ([PKT_INFO, 0, 0, 0, 0, 2, 1, EXT_PASSWORD_AUTH] @ frame_le32 (of_nat (length auth)) @ auth))"

text \<open>The extensions of an INFO frame, from the rest of the frame; the loop counts those it has read.\<close>

function parse_exts :: "frame \<Rightarrow> nat \<Rightarrow> (byte \<times> frame) list option" where
  "parse_exts rest n =
     (if rest = [] then Some []
      else if length rest < 5 \<or> n \<ge> MAX_EXTS then None
      else let len = sint (frame_u32 rest 1)
           in if len < 0 \<or> len > MAX_EXT_META \<or> 5 + len > int (length rest) then None
              else map_option (\<lambda>es. (hd rest, take (nat len) (drop 5 rest)) # es) (parse_exts (drop (5 + nat len) rest) (n + 1)))"
  by pat_completeness auto
termination by (relation "measure (\<lambda>(rest, n). length rest)") auto

declare parse_exts.simps [simp del]

definition ext_bytes :: "byte \<times> frame \<Rightarrow> frame" where
  "ext_bytes e = fst e # frame_le32 (of_nat (length (snd e))) @ snd e"

definition append_password_auth :: "frame \<Rightarrow> string \<Rightarrow> string \<Rightarrow> frame option" where
  "append_password_auth f user password =
     (if length f < 7 \<or> hd f \<noteq> PKT_INFO \<or> frame_u32 f 1 \<noteq> 0 then None
      else case (parse_exts (drop 7 f) 0, password_auth_payload user password) of
        (Some exts, Some auth) \<Rightarrow> Some (take 7 f @ concat (map ext_bytes exts) @ ext_bytes (EXT_PASSWORD_AUTH, auth))
      | _ \<Rightarrow> None)"

definition upgrade_connect_frame :: "frame \<Rightarrow> frame option" where
  "upgrade_connect_frame f =
     (if length f < 8 \<or> hd f \<noteq> PKT_CONNECT \<or> length f - 8 > 255 then None
      else Some (take 8 f @ [of_nat (length f - 8)] @ drop 8 f))"

definition close_auth_outcome :: "frame \<Rightarrow> auth_outcome option" where
  "close_auth_outcome f =
     (if length f < 6 \<or> hd f \<noteq> PKT_CLOSE \<or> frame_u32 f 1 \<noteq> 0 then None
      else if f ! 5 = 0xc0 then Some InvalidCredential
      else if f ! 5 = 0xc2 then Some AuthRequired
      else if f ! 5 = 0xc1 then Some AuthUnsupported else None)"

section \<open>The socket\<close>

datatype handshake = WaitInfo | WaitContinue | HsDone

datatype out_frame = AuthInfo frame | Passed frame | Rewritten frame | Granted "32 word"

record socket =
  so_armed :: bool
  so_native :: bool
  so_hs :: handshake
  so_rewrote :: bool
  so_held :: "frame list"
  so_credits :: "(32 word, nat) omap"
  so_timer :: bool
  so_closed :: bool
  so_sent :: "out_frame list"

text \<open>The socket and the subprotocols it asks for.\<close>

definition new_socket ::
  "url_parser \<Rightarrow> wisp_auth \<Rightarrow> string \<Rightarrow> string list \<Rightarrow> socket \<times> string list" where
  "new_socket pu au target protos =
     (let matched = (case wa_cred au of None \<Rightarrow> False | Some c \<Rightarrow> endpoint_key pu target = Some (wc_endpoint c));
          native = matched \<and> (\<exists>p \<in> set protos. js_lower p = ''wisp'')
      in (\<lparr>so_armed = matched, so_native = native, so_hs = WaitInfo, so_rewrote = False, so_held = [], so_credits = [],
           so_timer = matched, so_closed = False, so_sent = []\<rparr>,
          if matched \<and> \<not> native then protos @ [''wisp''] else protos))"

definition ws_send :: "out_frame \<Rightarrow> socket \<Rightarrow> socket" where
  "ws_send f s = (if so_closed s then s else s\<lparr>so_sent := so_sent s @ [f]\<rparr>)"

definition fail_closed :: "socket \<Rightarrow> socket" where
  "fail_closed s = s\<lparr>so_hs := HsDone, so_held := [], so_timer := False, so_closed := True\<rparr>"

definition maybe_grant :: "frame \<Rightarrow> socket \<Rightarrow> socket" where
  "maybe_grant b s =
     (if \<not> so_armed s \<or> so_native s \<or> length b < 5 then s
      else let t = hd b; i = frame_u32 b 1
           in if t = PKT_CLOSE then s\<lparr>so_credits := AList.delete i (so_credits s)\<rparr>
              else if t \<noteq> PKT_CONTINUE \<and> t \<noteq> PKT_DATA then s
              else if i = 0 then s
              else case map_of (so_credits s) i of
                None \<Rightarrow> ws_send (Granted i) (s\<lparr>so_credits := AList.update i 0 (so_credits s)\<rparr>)
              | Some n \<Rightarrow>
                if t = PKT_CONTINUE then s
                else if n + 1 \<ge> WISP_GRANT_PACKETS div 2
                then ws_send (Granted i) (s\<lparr>so_credits := AList.update i 0 (so_credits s)\<rparr>)
                else s\<lparr>so_credits := AList.update i (n + 1) (so_credits s)\<rparr>)"

text \<open>The bytes of a grant.\<close>

definition grant_frame :: "32 word \<Rightarrow> frame" where
  "grant_frame i = PKT_CONTINUE # frame_le32 i @ frame_le32 (of_nat WISP_GRANT_PACKETS)"

text \<open>A CONNECT frame is translated, the others pass.\<close>

definition translate :: "frame \<Rightarrow> frame option" where
  "translate f = (if f \<noteq> [] \<and> hd f = PKT_CONNECT then upgrade_connect_frame f else Some f)"

text \<open>The release of the held frames; the flag tells that all were sent.\<close>

fun release :: "frame list \<Rightarrow> socket \<Rightarrow> bool \<times> socket" where
  "release [] s = (True, s)"
| "release (f # fs) s = (case translate f of
     None \<Rightarrow> (False, fail_closed s) | Some g \<Rightarrow> release fs (ws_send (Passed g) s))"

definition server_message :: "frame \<Rightarrow> wisp_auth \<times> socket \<Rightarrow> wisp_auth \<times> socket" where
  "server_message b st =
     (let au = fst st; s = snd st
      in if \<not> so_armed s then st
         else case close_auth_outcome b of
           Some x \<Rightarrow> (note_outcome x au, if so_hs s \<noteq> HsDone then fail_closed s else s)
         | None \<Rightarrow>
           if so_native s \<or> so_hs s = HsDone then (au, maybe_grant b s)
           else if so_hs s = WaitInfo then
             (if b = [] \<or> hd b \<noteq> PKT_INFO \<or> frame_u32 b 1 \<noteq> 0 then st
              else case (case wa_cred au of None \<Rightarrow> None | Some c \<Rightarrow> client_info_with_auth (wc_user c) (wc_password c)) of
                None \<Rightarrow> (au, fail_closed s)
              | Some info \<Rightarrow> (au, ws_send (AuthInfo info) (s\<lparr>so_hs := WaitContinue\<rparr>)))
           else if b \<noteq> [] \<and> hd b = PKT_CONTINUE \<and> frame_u32 b 1 = 0 then
             (let s' = s\<lparr>so_hs := HsDone, so_timer := False\<rparr>
              in if wa_cred au = None then (au, fail_closed s')
                 else case release (so_held s) s' of
                   (True, s'') \<Rightarrow> (au, s''\<lparr>so_held := []\<rparr>)
                 | (False, s'') \<Rightarrow> (note_outcome AuthUnsupported au, s''))
           else st)"

text \<open>What the transport hands over: bytes, or something that cannot be read at once.\<close>

datatype payload = Bytes frame | Opaque

definition refuse :: "wisp_auth \<times> socket \<Rightarrow> wisp_auth \<times> socket" where
  "refuse st = (note_outcome AuthUnsupported (fst st), fail_closed (snd st))"

definition vendor_send :: "payload \<Rightarrow> wisp_auth \<times> socket \<Rightarrow> wisp_auth \<times> socket" where
  "vendor_send d st =
     (let au = fst st; s = snd st; raw = (case d of Bytes f \<Rightarrow> f | Opaque \<Rightarrow> [])
      in if \<not> so_armed s then (au, ws_send (Passed raw) s)
         else if so_native s then
           (if so_rewrote s then (au, ws_send (Passed raw) s)
            else case (wa_cred au, d) of
              (Some c, Bytes f) \<Rightarrow> (case append_password_auth f (wc_user c) (wc_password c) of
                 Some g \<Rightarrow> (au, ws_send (Rewritten g) (s\<lparr>so_rewrote := True\<rparr>))
               | None \<Rightarrow> refuse (au, s\<lparr>so_rewrote := True\<rparr>))
            | _ \<Rightarrow> refuse (au, s\<lparr>so_rewrote := True\<rparr>))
         else case d of Opaque \<Rightarrow> refuse st
           | Bytes f \<Rightarrow>
             if so_hs s \<noteq> HsDone then (au, s\<lparr>so_held := so_held s @ [f]\<rparr>)
             else case translate f of Some g \<Rightarrow> (au, ws_send (Passed g) s) | None \<Rightarrow> refuse st)"

datatype socket_event =
  VendorSends payload
| ServerSends frame
| Deadline
| HostConfigures string string string
| HostClears

fun socket_step :: "url_parser \<Rightarrow> socket_event \<Rightarrow> wisp_auth \<times> socket \<Rightarrow> wisp_auth \<times> socket" where
  "socket_step pu (VendorSends d) st = vendor_send d st"
| "socket_step pu (ServerSends b) st = server_message b st"
| "socket_step pu Deadline st = (if so_timer (snd st) \<and> so_hs (snd st) \<noteq> HsDone then refuse st else st)"
| "socket_step pu (HostConfigures e u p) st = (snd (configure_wisp_auth pu e u p (fst st)), snd st)"
| "socket_step pu HostClears st = (clear_wisp_auth (fst st), snd st)"

section \<open>Little-endian numbers\<close>

lemma frame_le32_bytes:
  "(ucast (ucast n :: byte) :: 32 word) OR push_bit 8 (ucast (ucast (drop_bit 8 n) :: byte))
     OR push_bit 16 (ucast (ucast (drop_bit 16 n) :: byte)) OR push_bit 24 (ucast (ucast (drop_bit 24 n) :: byte)) = n"
proof (rule bit_word_eqI)
  fix k
  assume "k < LENGTH(32)"
  then have k: "k < 32" by simp
  consider "k < 8" | "8 \<le> k" "k < 16" | "16 \<le> k" "k < 24" | "24 \<le> k" by linarith
  then show "bit ((ucast (ucast n :: byte) :: 32 word) OR push_bit 8 (ucast (ucast (drop_bit 8 n) :: byte))
     OR push_bit 16 (ucast (ucast (drop_bit 16 n) :: byte)) OR push_bit 24 (ucast (ucast (drop_bit 24 n) :: byte))) k = bit n k"
    using k by cases (auto simp: bit_simps)
qed

lemma frame_u32_frame_le32: "frame_u32 (x # frame_le32 n @ r) 1 = n"
  by (simp add: frame_u32_def frame_byte_def frame_le32_def frame_le32_bytes)

lemma length_frame_le32 [simp]: "length (frame_le32 n) = 4"
  by (simp add: frame_le32_def)

lemma sint_small: "n \<le> 4096 \<Longrightarrow> sint (of_nat n :: 32 word) = int n"
proof -
  assume "n \<le> 4096"
  then have "signed_take_bit 31 (int n) = int n" by (intro signed_take_bit_int_eq_self) simp_all
  then show ?thesis by (simp add: signed_of_nat)
qed

section \<open>The extended INFO frame\<close>

lemma parse_exts_Cons:
  assumes "length (snd e) \<le> 4096" "n < MAX_EXTS"
  shows "parse_exts (ext_bytes e @ rest) n = map_option (\<lambda>es. e # es) (parse_exts rest (n + 1))"
proof -
  have u: "frame_u32 (ext_bytes e @ rest) 1 = of_nat (length (snd e))"
    using frame_u32_frame_le32 [of "fst e" "of_nat (length (snd e))" "snd e @ rest"] by (simp add: ext_bytes_def)
  have d: "drop 5 (ext_bytes e @ rest) = snd e @ rest" by (simp add: ext_bytes_def frame_le32_def)
  have "length (ext_bytes e) = 5 + length (snd e)" by (simp add: ext_bytes_def)
  then have dd: "drop (5 + length (snd e)) (ext_bytes e @ rest) = rest" by simp
  have l: "length (ext_bytes e @ rest) = 5 + length (snd e) + length rest" and h: "hd (ext_bytes e @ rest) = fst e"
    by (simp_all add: ext_bytes_def)
  have s: "sint (frame_u32 (ext_bytes e @ rest) 1) = int (length (snd e))" by (simp only: u sint_small [OF assms(1)])
  have "ext_bytes e @ rest \<noteq> []" by (simp add: ext_bytes_def)
  moreover have "\<not> (length (ext_bytes e @ rest) < 5 \<or> n \<ge> MAX_EXTS)" using assms(2) l by simp
  moreover have "\<not> (int (length (snd e)) < 0 \<or> int (length (snd e)) > MAX_EXT_META
      \<or> 5 + int (length (snd e)) > int (length (ext_bytes e @ rest)))"
    using assms(1) l by (simp add: MAX_EXT_META_def)
  ultimately have "parse_exts (ext_bytes e @ rest) n
      = map_option (\<lambda>es. (hd (ext_bytes e @ rest), take (nat (int (length (snd e)))) (drop 5 (ext_bytes e @ rest))) # es)
          (parse_exts (drop (5 + nat (int (length (snd e)))) (ext_bytes e @ rest)) (n + 1))"
    by (subst parse_exts.simps) (simp only: Let_def s if_False)
  then show ?thesis by (simp only: nat_int d dd h) simp
qed

lemma parse_exts_concat:
  "\<forall>e \<in> set es. length (snd e) \<le> 4096 \<Longrightarrow> n + length es \<le> MAX_EXTS \<Longrightarrow> parse_exts (concat (map ext_bytes es)) n = Some es"
proof (induction es arbitrary: n)
  case Nil
  then show ?case by (simp add: parse_exts.simps)
next
  case (Cons e es)
  then show ?case by (simp add: parse_exts_Cons)
qed

lemma parse_exts_bounds: "parse_exts r n = Some es \<Longrightarrow> \<forall>e \<in> set es. length (snd e) \<le> 4096"
proof (induction r n arbitrary: es rule: parse_exts.induct)
  case (1 r n)
  let ?len = "sint (frame_u32 r 1)"
  show ?case
  proof (cases "r = []")
    case True
    then show ?thesis using "1.prems" by (simp add: parse_exts.simps)
  next
    case False
    then have ok: "\<not> (length r < 5 \<or> n \<ge> MAX_EXTS)" "\<not> (?len < 0 \<or> ?len > MAX_EXT_META \<or> 5 + ?len > int (length r))"
      using "1.prems" by (subst (asm) parse_exts.simps, auto simp: Let_def split: if_splits)+
    obtain es' where es': "parse_exts (drop (5 + nat ?len) r) (n + 1) = Some es'"
      "es = (hd r, take (nat ?len) (drop 5 r)) # es'"
      using "1.prems" False ok by (subst (asm) parse_exts.simps) (auto simp: Let_def)
    have "length (take (nat ?len) (drop 5 r)) \<le> 4096" using ok(2) by (auto simp: MAX_EXT_META_def)
    then show ?thesis using "1.IH" [OF False ok(1) refl ok(2) es'(1)] es'(2) by simp
  qed
qed

lemma password_payload_length: "password_auth_payload u p = Some auth \<Longrightarrow> length auth \<le> 1280"
  by (auto simp: password_auth_payload_def Let_def split: if_splits)

text \<open>Rewriting a client INFO keeps its header and every extension, in order, and adds exactly the password
  extension: the frame that goes out decodes to the old extensions followed by the credentials.
\<close>

theorem appended_info_parses:
  assumes "append_password_auth f user password = Some out" "parse_exts (drop 7 f) 0 = Some exts" "length exts < MAX_EXTS"
  shows "\<exists>auth. password_auth_payload user password = Some auth \<and> take 7 out = take 7 f
    \<and> parse_exts (drop 7 out) 0 = Some (exts @ [(EXT_PASSWORD_AUTH, auth)])"
proof -
  obtain auth where auth: "password_auth_payload user password = Some auth" "7 \<le> length f"
    and out: "out = take 7 f @ concat (map ext_bytes (exts @ [(EXT_PASSWORD_AUTH, auth)]))"
    using assms(1,2) by (auto simp: append_password_auth_def split: if_splits option.splits)
  have "\<forall>e \<in> set (exts @ [(EXT_PASSWORD_AUTH, auth)]). length (snd e) \<le> 4096"
    using parse_exts_bounds [OF assms(2)] password_payload_length [OF auth(1)] by auto
  then have "parse_exts (concat (map ext_bytes (exts @ [(EXT_PASSWORD_AUTH, auth)]))) 0 = Some (exts @ [(EXT_PASSWORD_AUTH, auth)])"
    by (rule parse_exts_concat) (use assms(3) in simp)
  moreover have "take 7 out = take 7 f" "drop 7 out = concat (map ext_bytes (exts @ [(EXT_PASSWORD_AUTH, auth)]))"
    using auth(2) by (simp_all only: out append_eq_conv_conj take_append drop_append) simp_all
  ultimately show ?thesis using auth(1) by metis
qed

definition demo_info_frame :: frame where
  "demo_info_frame = [5, 0, 0, 0, 0, 2, 1, 7, 1, 0, 0, 0, 9]"

lemma demo_info_exts: "parse_exts (drop 7 demo_info_frame) 0 = Some [(7, [9])]"
  using parse_exts_concat [of "[(7, [9])]" 0]
  by (simp add: demo_info_frame_def ext_bytes_def frame_le32_def MAX_EXTS_def)

lemma appended_info_parses_witness:
  "\<exists>out auth. append_password_auth demo_info_frame ''u'' ''p'' = Some out
     \<and> parse_exts (drop 7 out) 0 = Some [(7, [9]), (EXT_PASSWORD_AUTH, auth)]"
proof -
  have "\<exists>out. append_password_auth demo_info_frame ''u'' ''p'' = Some out"
    using demo_info_exts
    by (simp add: append_password_auth_def password_auth_payload_def Let_def)
      (simp add: demo_info_frame_def PKT_INFO_def frame_u32_def frame_byte_def)
  then obtain out where out: "append_password_auth demo_info_frame ''u'' ''p'' = Some out" ..
  from appended_info_parses [OF out demo_info_exts] show ?thesis using out by (auto simp: MAX_EXTS_def)
qed

section \<open>The handshake of the upgrade mode\<close>

fun passed_of :: "out_frame \<Rightarrow> frame list" where
  "passed_of (Passed f) = [f]" | "passed_of _ = []"

definition passed :: "socket \<Rightarrow> frame list" where
  "passed s = concat (map passed_of (so_sent s))"

fun vendor_frame :: "socket_event \<Rightarrow> frame list" where
  "vendor_frame (VendorSends (Bytes f)) = [f]" | "vendor_frame _ = []"

definition vendor_frames :: "socket_event list \<Rightarrow> frame list" where
  "vendor_frames es = concat (map vendor_frame es)"

definition translated :: "frame list \<Rightarrow> frame list \<Rightarrow> bool" where
  "translated = list_all2 (\<lambda>f g. translate f = Some g)"

definition is_auth_info :: "out_frame \<Rightarrow> bool" where
  "is_auth_info x \<longleftrightarrow> (\<exists>u p info. client_info_with_auth u p = Some info \<and> x = AuthInfo info)"

definition authenticated :: "socket \<Rightarrow> bool" where
  "authenticated s \<longleftrightarrow> so_sent s \<noteq> [] \<and> is_auth_info (hd (so_sent s))"

text \<open>\<open>V\<close> are the frames the transport has handed over so far.\<close>

definition upgrade_inv :: "frame list \<Rightarrow> socket \<Rightarrow> bool" where
  "upgrade_inv V s \<longleftrightarrow> so_armed s \<and> \<not> so_native s
     \<and> (so_sent s = [] \<or> authenticated s)
     \<and> (if so_closed s then so_hs s = HsDone \<and> (\<exists>n \<le> length V. translated (take n V) (passed s))
        else if so_hs s = HsDone then authenticated s \<and> so_held s = [] \<and> translated V (passed s)
        else so_held s = V \<and> passed s = [] \<and> (so_hs s = WaitContinue \<longrightarrow> authenticated s))"

lemma release_effect:
  "\<not> so_closed s \<Longrightarrow> \<exists>k gs. k \<le> length fs \<and> translated (take k fs) gs
     \<and> release fs s = (if k = length fs then (True, s\<lparr>so_sent := so_sent s @ map Passed gs\<rparr>)
                       else (False, fail_closed (s\<lparr>so_sent := so_sent s @ map Passed gs\<rparr>)))"
proof (induction fs arbitrary: s)
  case Nil
  then show ?case by (intro exI [of _ 0] exI [of _ "[]"]) (simp add: translated_def)
next
  case (Cons f fs)
  show ?case
  proof (cases "translate f")
    case None
    then show ?thesis by (intro exI [of _ 0] exI [of _ "[]"]) (simp add: translated_def)
  next
    case (Some g)
    have "\<not> so_closed (ws_send (Passed g) s)" using Cons.prems by (simp add: ws_send_def)
    from Cons.IH [OF this] obtain k gs where k: "k \<le> length fs" "translated (take k fs) gs"
      "release fs (ws_send (Passed g) s)
       = (if k = length fs then (True, ws_send (Passed g) s\<lparr>so_sent := so_sent (ws_send (Passed g) s) @ map Passed gs\<rparr>)
          else (False, fail_closed (ws_send (Passed g) s\<lparr>so_sent := so_sent (ws_send (Passed g) s) @ map Passed gs\<rparr>)))"
      by blast
    then show ?thesis
      using Some Cons.prems by (intro exI [of _ "Suc k"] exI [of _ "g # gs"]) (simp add: translated_def ws_send_def)
  qed
qed

lemma passed_append: "passed (s\<lparr>so_sent := so_sent s @ map Passed gs\<rparr>) = passed s @ gs"
  by (induction gs) (simp_all add: passed_def)

lemma translated_take: "translated V gs \<Longrightarrow> \<exists>n \<le> length V. translated (take n V) gs"
  by (intro exI [of _ "length V"]) simp

lemma translated_snoc: "translated V gs \<Longrightarrow> translate f = Some g \<Longrightarrow> translated (V @ [f]) (gs @ [g])"
  by (simp add: translated_def list_all2_appendI)

lemma passed_simps [simp]:
  "passed (fail_closed s) = passed s" "passed (s\<lparr>so_hs := h\<rparr>) = passed s" "passed (s\<lparr>so_held := l\<rparr>) = passed s"
  "passed (s\<lparr>so_timer := t\<rparr>) = passed s" "passed (s\<lparr>so_credits := c\<rparr>) = passed s"
  by (simp_all add: passed_def fail_closed_def)

lemma authenticated_simps [simp]:
  "authenticated (fail_closed s) = authenticated s" "authenticated (s\<lparr>so_hs := h\<rparr>) = authenticated s"
  "authenticated (s\<lparr>so_held := l\<rparr>) = authenticated s" "authenticated (s\<lparr>so_timer := t\<rparr>) = authenticated s"
  "authenticated (s\<lparr>so_credits := c\<rparr>) = authenticated s"
  by (simp_all add: authenticated_def fail_closed_def)

lemma authenticated_append: "authenticated s \<Longrightarrow> authenticated (s\<lparr>so_sent := so_sent s @ l\<rparr>)"
  by (auto simp: authenticated_def)

lemma fail_closed_inv:
  assumes "upgrade_inv V s"
  shows "upgrade_inv V (fail_closed s)"
proof -
  have "\<exists>n \<le> length V. translated (take n V) (passed s)"
  proof (cases "so_closed s \<or> so_hs s = HsDone")
    case True
    then show ?thesis using assms translated_take by (auto simp: upgrade_inv_def split: if_splits)
  next
    case False
    then have "passed s = []" using assms by (simp add: upgrade_inv_def)
    then show ?thesis by (intro exI [of _ 0]) (simp add: translated_def)
  qed
  then show ?thesis using assms by (simp add: upgrade_inv_def) (simp add: fail_closed_def)
qed

lemma grant_inv:
  assumes "upgrade_inv V s" "so_hs s = HsDone"
  shows "upgrade_inv V (maybe_grant b s)"
proof -
  have 1: "upgrade_inv V (s\<lparr>so_credits := c\<rparr>)" for c using assms(1) by (simp add: upgrade_inv_def)
  have 2: "upgrade_inv V (ws_send (Granted i) (s\<lparr>so_credits := c\<rparr>))" for i c
  proof (cases "so_closed s")
    case True
    then show ?thesis using 1 by (simp add: ws_send_def)
  next
    case False
    then have "authenticated s" using assms by (simp add: upgrade_inv_def)
    then show ?thesis
      using assms False by (auto simp: ws_send_def upgrade_inv_def passed_def authenticated_def)
  qed
  show ?thesis using assms(1) 1 2 by (auto simp: maybe_grant_def Let_def split: option.split)
qed

lemma info_inv:
  assumes "upgrade_inv V s" "so_hs s = WaitInfo" "client_info_with_auth u p = Some info"
  shows "upgrade_inv V (ws_send (AuthInfo info) (s\<lparr>so_hs := WaitContinue\<rparr>))"
proof -
  have "\<not> so_closed s" using assms(1,2) by (auto simp: upgrade_inv_def split: if_splits)
  moreover have "so_sent s = [] \<or> authenticated s" using assms(1) by (simp add: upgrade_inv_def)
  moreover have "is_auth_info (AuthInfo info)" using assms(3) by (auto simp: is_auth_info_def)
  ultimately show ?thesis
    using assms(1,2) by (auto simp: upgrade_inv_def ws_send_def authenticated_def passed_def)
qed

lemma released_inv:
  assumes "upgrade_inv V s" "so_hs s = WaitContinue" "release (so_held s) (s\<lparr>so_hs := HsDone, so_timer := False\<rparr>) = (b, s')"
  shows "upgrade_inv V (if b then s'\<lparr>so_held := []\<rparr> else s')"
proof -
  let ?s = "s\<lparr>so_hs := HsDone, so_timer := False\<rparr>"
  have st: "\<not> so_closed s" "so_held s = V" "passed s = []" "authenticated s" "so_armed s" "\<not> so_native s"
    using assms(1,2) by (auto simp: upgrade_inv_def split: if_splits)
  then have "\<not> so_closed ?s" by simp
  from release_effect [OF this, of "so_held s"] obtain k gs where k: "k \<le> length V" "translated (take k V) gs"
    and r: "release (so_held s) ?s = (if k = length V then (True, ?s\<lparr>so_sent := so_sent ?s @ map Passed gs\<rparr>)
       else (False, fail_closed (?s\<lparr>so_sent := so_sent ?s @ map Passed gs\<rparr>)))"
    unfolding st(2) by blast
  let ?t = "?s\<lparr>so_sent := so_sent ?s @ map Passed gs\<rparr>"
  have pa: "passed ?t = gs" using passed_append [of ?s gs] st(3) by simp
  have au: "authenticated ?t" using authenticated_append [of ?s "map Passed gs"] st(4) by simp
  show ?thesis
  proof (cases "k = length V")
    case True
    then have "b" "s' = ?t" using r assms(3) by simp_all
    then show ?thesis using st k True pa au by (simp add: upgrade_inv_def)
  next
    case False
    then have "\<not> b" "s' = fail_closed ?t" using r assms(3) by simp_all
    moreover have "upgrade_inv V (fail_closed ?t)"
      using st k pa au by (simp add: upgrade_inv_def) (auto simp: fail_closed_def)
    ultimately show ?thesis by simp
  qed
qed

lemma server_message_inv:
  assumes inv: "upgrade_inv V (snd st)"
  shows "upgrade_inv V (snd (server_message b st))"
proof -
  obtain au s where st: "st = (au, s)" by (cases st)
  have basic: "so_armed s" "\<not> so_native s" "upgrade_inv V s" using inv by (simp_all add: st upgrade_inv_def)
  show ?thesis
  proof (cases "close_auth_outcome b")
    case (Some x)
    then show ?thesis using basic fail_closed_inv by (simp add: st server_message_def)
  next
    case None
    show ?thesis
    proof (cases "so_hs s")
      case WaitInfo
      then show ?thesis
        using basic None fail_closed_inv [OF basic(3)] info_inv [OF basic(3) WaitInfo]
        by (auto simp: st server_message_def Let_def split: option.split)
    next
      case HsDone
      then show ?thesis using basic None grant_inv by (simp add: st server_message_def)
    next
      case WaitContinue
      let ?s = "s\<lparr>so_hs := HsDone, so_timer := False\<rparr>"
      obtain ok s' where r: "release (so_held s) ?s = (ok, s')" by fastforce
      have "upgrade_inv V (if ok then s'\<lparr>so_held := []\<rparr> else s')" by (rule released_inv [OF basic(3) WaitContinue r])
      moreover have "fail_closed ?s = fail_closed s" by (simp add: fail_closed_def)
      ultimately show ?thesis
        using basic None WaitContinue fail_closed_inv [OF basic(3)] r
        by (auto simp: st server_message_def Let_def split: bool.split)
    qed
  qed
qed

lemma vendor_send_inv:
  assumes inv: "upgrade_inv V (snd st)"
  shows "upgrade_inv (V @ vendor_frame (VendorSends d)) (snd (vendor_send d st))"
proof -
  obtain au s where st: "st = (au, s)" by (cases st)
  have basic: "so_armed s" "\<not> so_native s" "upgrade_inv V s" using inv by (simp_all add: st upgrade_inv_def)
  show ?thesis
  proof (cases d)
    case Opaque
    then show ?thesis using basic fail_closed_inv by (simp add: st vendor_send_def refuse_def)
  next
    case (Bytes f)
    have later: "\<exists>n \<le> length (V @ [f]). translated (take n (V @ [f])) (passed s)" if "so_closed s"
    proof -
      have "\<exists>n \<le> length V. translated (take n V) (passed s)" using basic(3) that by (simp add: upgrade_inv_def)
      then obtain n where "n \<le> length V" "translated (take n V) (passed s)" by blast
      then show ?thesis by (intro exI [of _ n]) simp
    qed
    show ?thesis
    proof (cases "so_hs s = HsDone")
      case False
      then have "\<not> so_closed s" using basic(3) by (auto simp: upgrade_inv_def split: if_splits)
      then show ?thesis
        using False basic by (auto simp: Bytes st vendor_send_def upgrade_inv_def)
    next
      case fin: True
      show ?thesis
      proof (cases "so_closed s")
        case True
        then have "upgrade_inv (V @ [f]) s" using basic(3) later by (simp add: upgrade_inv_def)
        then show ?thesis
          using True basic fin fail_closed_inv by (auto simp: Bytes st vendor_send_def ws_send_def refuse_def split: option.split)
      next
        case open': False
        have t: "translated V (passed s)" "authenticated s" "so_held s = []" using basic(3) open' fin by (simp_all add: upgrade_inv_def)
        show ?thesis
        proof (cases "translate f")
          case None
          have "upgrade_inv (V @ [f]) (fail_closed s)"
            using basic(3) t(1) by (simp add: upgrade_inv_def) (auto simp: fail_closed_def intro: exI [of _ "length V"])
          then show ?thesis using None basic fin by (simp add: Bytes st vendor_send_def refuse_def)
        next
          case (Some g)
          have "passed (ws_send (Passed g) s) = passed s @ [g]"
            using open' passed_append [of s "[g]"] by (simp add: ws_send_def)
          moreover have "authenticated (ws_send (Passed g) s)" using t(2) authenticated_append [of s] by (simp add: ws_send_def)
          ultimately have "upgrade_inv (V @ [f]) (ws_send (Passed g) s)"
            using basic open' fin t translated_snoc [OF t(1) Some] by (simp add: upgrade_inv_def ws_send_def)
          then show ?thesis using Some basic fin by (simp add: Bytes st vendor_send_def)
        qed
      qed
    qed
  qed
qed

lemma socket_step_inv:
  "upgrade_inv V (snd st) \<Longrightarrow> upgrade_inv (V @ vendor_frame e) (snd (socket_step pu e st))"
proof (cases e)
  case (VendorSends d)
  then show "upgrade_inv V (snd st) \<Longrightarrow> ?thesis" using vendor_send_inv by (simp del: vendor_frame.simps)
qed (auto simp: server_message_inv refuse_def fail_closed_inv)

lemma socket_run_inv:
  "upgrade_inv V (snd st) \<Longrightarrow> upgrade_inv (V @ vendor_frames es) (snd (fold (socket_step pu) es st))"
proof (induction es arbitrary: V st)
  case (Cons e es)
  have "upgrade_inv ((V @ vendor_frame e) @ vendor_frames es) (snd (fold (socket_step pu) es (socket_step pu e st)))"
    by (rule Cons.IH [OF socket_step_inv [OF Cons.prems]])
  then show ?case by (simp add: vendor_frames_def)
qed (simp add: vendor_frames_def)

text \<open>C14. On a credentialed endpoint nothing leaves unauthenticated: the first frame a v1 transport's socket sends is the
  wrapper's own INFO with the password, no frame of the transport goes out before the server's
  handshake ends, and what goes out is, in order and without a gap, the translation of the frames it handed
  over, all of them while the socket is open.
\<close>

theorem upgrade_handshake_safe:
  assumes "fst (new_socket pu au target protos) = s0" "so_armed s0" "\<not> so_native s0"
    "snd (fold (socket_step pu) es (au', s0)) = s"
  shows "(so_sent s = [] \<or> is_auth_info (hd (so_sent s)))
    \<and> (so_hs s \<noteq> HsDone \<longrightarrow> passed s = [])
    \<and> (\<exists>n \<le> length (vendor_frames es). list_all2 (\<lambda>f g. translate f = Some g) (take n (vendor_frames es)) (passed s))
    \<and> (so_hs s = HsDone \<and> \<not> so_closed s \<longrightarrow> length (passed s) = length (vendor_frames es))"
proof -
  have "upgrade_inv [] s0"
    using assms(2,3) unfolding assms(1) [symmetric]
    by (auto simp: new_socket_def Let_def upgrade_inv_def passed_def)
  then have inv: "upgrade_inv (vendor_frames es) s"
    using socket_run_inv [of "[]" "(au', s0)" es pu] assms(4) by simp
  then show ?thesis
    using translated_take [of "vendor_frames es" "passed s"]
    by (cases "so_closed s"; cases "so_hs s = HsDone")
      (auto simp: upgrade_inv_def authenticated_def translated_def dest: list_all2_lengthD intro: exI [of _ 0])
qed

definition demo_wisp_parser :: url_parser where
  "demo_wisp_parser s = Some \<lparr>url_href = s, url_protocol = ''wss:'', url_origin = s, url_host = s, url_hostname = s,
     url_pathname = [], url_search = [], url_hash = []\<rparr>"

definition demo_wisp_auth :: wisp_auth where
  "demo_wisp_auth = \<lparr>wa_cred = Some \<lparr>wc_endpoint = ''wss://h'', wc_user = ''u'', wc_password = ''p'', wc_secure = True\<rparr>, wa_outcome = None\<rparr>"

definition demo_wisp_events :: "socket_event list" where
  "demo_wisp_events = [VendorSends (Bytes [1, 0, 0, 0, 7, 1, 80, 0, 104]), ServerSends [5, 0, 0, 0, 0, 2, 0],
     ServerSends [3, 0, 0, 0, 0], VendorSends (Bytes [2, 0, 0, 0, 7])]"

lemma upgrade_handshake_safe_witness:
  "\<exists>s. snd (fold (socket_step demo_wisp_parser) demo_wisp_events
        (demo_wisp_auth, fst (new_socket demo_wisp_parser demo_wisp_auth ''wss://h'' []))) = s
     \<and> is_auth_info (hd (so_sent s)) \<and> passed s = [[1, 0, 0, 0, 7, 1, 80, 0, 1, 104], [2, 0, 0, 0, 7]]"
proof -
  let ?start = "fst (new_socket demo_wisp_parser demo_wisp_auth ''wss://h'' [])"
  let ?s = "snd (fold (socket_step demo_wisp_parser) demo_wisp_events (demo_wisp_auth, ?start))"
  have a: "so_armed ?start" "\<not> so_native ?start"
    by (simp_all add: new_socket_def demo_wisp_parser_def demo_wisp_auth_def endpoint_key_def)
  have r: "passed ?s = [[1, 0, 0, 0, 7, 1, 80, 0, 1, 104], [2, 0, 0, 0, 7]]" "so_sent ?s \<noteq> []"
    by code_simp+
  show ?thesis using upgrade_handshake_safe [OF refl a refl] r by blast
qed

section \<open>The deadline and the credits\<close>

text \<open>
  The handshake state of a socket that speaks v2 itself never changes, so the deadline closes it although its
  first frame was rewritten and sent and the server answered.\<close>

lemma server_message_native:
  "so_native s \<Longrightarrow> so_armed s \<Longrightarrow> close_auth_outcome b = None \<Longrightarrow> server_message b (au, s) = (au, s)"
  by (simp add: server_message_def maybe_grant_def)

lemma native_closed_by_deadline:
  assumes "so_armed s" "so_native s" "so_hs s = WaitInfo" "so_timer s" "\<not> so_closed s" "\<not> so_rewrote s"
    "wa_cred au = Some c" "append_password_auth f (wc_user c) (wc_password c) = Some g" "close_auth_outcome b = None"
  shows "so_closed (snd (fold (socket_step pu) [VendorSends (Bytes f), ServerSends b, Deadline] (au, s)))"
  using assms by (simp add: vendor_send_def ws_send_def server_message_native refuse_def fail_closed_def)

text \<open>A message of one byte counts as a frame of stream 0, and a lone 3 ends the handshake.\<close>

lemma truncated_continue_completes:
  assumes "so_armed s" "\<not> so_native s" "so_hs s = WaitContinue" "so_held s = []" "wa_cred au \<noteq> None"
  shows "so_hs (snd (server_message [3] (au, s))) = HsDone \<and> so_closed (snd (server_message [3] (au, s))) = so_closed s"
  using assms by (auto simp: server_message_def close_auth_outcome_def PKT_CONTINUE_def frame_u32_def frame_byte_def Let_def)

text \<open>No stream is left with half a window of unanswered packets.\<close>

definition credits_ok :: "socket \<Rightarrow> bool" where
  "credits_ok s \<longleftrightarrow> (\<forall>(i, n) \<in> set (so_credits s). n < WISP_GRANT_PACKETS div 2)"

lemma credits_update: "credits_ok s \<Longrightarrow> n < WISP_GRANT_PACKETS div 2 \<Longrightarrow> credits_ok (s\<lparr>so_credits := AList.update i n (so_credits s)\<rparr>)"
  using set_update_subset [of i n "so_credits s"] by (auto simp: credits_ok_def)

lemma credits_send [simp]: "credits_ok (ws_send f s) = credits_ok s"
  by (simp add: ws_send_def credits_ok_def)

lemma maybe_grant_credits: "credits_ok s \<Longrightarrow> credits_ok (maybe_grant b s)"
proof -
  assume c: "credits_ok s"
  have d: "credits_ok (s\<lparr>so_credits := AList.delete i (so_credits s)\<rparr>)" for i
    using c set_delete_subset [of i "so_credits s"] by (auto simp: credits_ok_def)
  have z: "0 < WISP_GRANT_PACKETS div 2" by (simp add: WISP_GRANT_PACKETS_def)
  show ?thesis using c d z credits_update by (auto simp: maybe_grant_def Let_def split: option.split)
qed

section \<open>Credentials stay off insecure channels\<close>

lemma configured_secure:
  assumes "configure_wisp_auth pu endpoint user password s = (None, s')"
  shows "\<exists>norm c. normalize_wisp_url pu endpoint = Some norm \<and> wa_cred s' = Some c
    \<and> (starts_with norm ''wss://'' \<or> is_loopback pu norm) \<and> password_auth_payload user password \<noteq> None"
  using assms
  by (auto simp: configure_wisp_auth_def Let_def truthy_def password_auth_payload_def split: option.splits if_splits)

end
