(* ===== verification/WebRequest.thy ===== *)
theory WebRequest
  imports ExtPermissions
begin

text \<open>
  The webRequest bridge (\<open>src/app/src/extensions/webrequest.ts\<close>): the listeners of the extensions and the
  hooks the fetch pipeline calls. A listener is an identity; what it does with a call is the argument
  \<open>behave\<close>, and the live permissions of an extension are the argument \<open>perms\<close>. A \<open>Headers\<close> object is the list of the
  pairs its iteration yields; whether the platform accepts a name and a value is the argument \<open>ok\<close>.
\<close>

section \<open>Requests and headers\<close>

definition wr_type :: "string \<Rightarrow> string" where
  "wr_type dest = (case map_of [(''document'', ''main_frame''), (''iframe'', ''sub_frame''), (''frame'', ''sub_frame''),
       (''object'', ''sub_frame''), (''style'', ''stylesheet''), (''script'', ''script''), (''worker'', ''script''),
       (''sharedworker'', ''script''), (''serviceworker'', ''script''), (''image'', ''image''), (''font'', ''font''),
       (''audio'', ''media''), (''video'', ''media''), (''websocket'', ''websocket'')] (js_lower dest) of
     Some t \<Rightarrow> t | None \<Rightarrow> ''other'')"

type_synonym wr_headers = "(string \<times> string) list"

definition headers_to_pairs :: "wr_headers \<Rightarrow> json" where
  "headers_to_pairs h = JArr (map (\<lambda>(k, v). JObj [(''name'', JStr k), (''value'', JStr v)]) h)"

text \<open>\<open>Inl\<close> is the error that \<open>Headers.set\<close> throws, \<open>Inr None\<close> a refused list.\<close>

datatype header_fault = InvalidHeader

fun add_pairs :: "(string \<Rightarrow> string \<Rightarrow> bool) \<Rightarrow> json list \<Rightarrow> wr_headers \<Rightarrow> header_fault + wr_headers option" where
  "add_pairs ok [] h = Inr (Some h)"
| "add_pairs ok (p # ps) h = (case (jget p ''name'', jget p ''value'') of
     (Some (JStr name), Some (JStr value)) \<Rightarrow>
       if name = [] then Inr None
       else if \<not> ok name value then Inl InvalidHeader
       else add_pairs ok ps (AList.update (js_lower name) value h)
   | _ \<Rightarrow> Inr None)"

definition pairs_to_headers :: "(string \<Rightarrow> string \<Rightarrow> bool) \<Rightarrow> json \<Rightarrow> header_fault + wr_headers option" where
  "pairs_to_headers ok pairs = (case pairs of JArr ps \<Rightarrow> add_pairs ok ps [] | _ \<Rightarrow> Inr None)"

record wr_details =
  wd_request :: string
  wd_url :: string
  wd_method :: string
  wd_type :: string
  wd_origin :: "string option"
  wd_time :: int

section \<open>The registry\<close>

datatype wr_kind = BeforeRequest | BeforeSendHeaders | HeadersReceived | Completed | ErrorOccurred

record ext_wr_reg =
  wr_listeners :: "wr_kind \<Rightarrow> nat list"
  wr_filters :: "(nat, string list) omap"

type_synonym wr_registry = "(string, ext_wr_reg) omap"

record wr_perm =
  wp_hosts :: "string list"
  wp_block :: bool

definition ext_wr :: "wr_registry \<Rightarrow> string \<Rightarrow> ext_wr_reg" where
  "ext_wr reg i = (case map_of reg i of Some r \<Rightarrow> r | None \<Rightarrow> \<lparr>wr_listeners = (\<lambda>_. []), wr_filters = []\<rparr>)"

definition wr_register :: "string \<Rightarrow> wr_kind \<Rightarrow> nat \<Rightarrow> string list \<Rightarrow> wr_registry \<Rightarrow> wr_registry" where
  "wr_register i kind l urls reg =
     (let r = ext_wr reg i; ls = wr_listeners r kind
      in AList.update i
           (r\<lparr>wr_listeners := (wr_listeners r)(kind := if l \<in> set ls then ls else ls @ [l]),
              wr_filters := (if urls \<noteq> [] then AList.update l urls (wr_filters r) else wr_filters r)\<rparr>) reg)"

text \<open>The function that \<open>register\<close> returns.\<close>

definition wr_unregister :: "string \<Rightarrow> wr_kind \<Rightarrow> nat \<Rightarrow> wr_registry \<Rightarrow> wr_registry" where
  "wr_unregister i kind l reg =
     (let r = ext_wr reg i
      in AList.update i
           (r\<lparr>wr_listeners := (wr_listeners r)(kind := filter (\<lambda>x. x \<noteq> l) (wr_listeners r kind)),
              wr_filters := AList.delete l (wr_filters r)\<rparr>) reg)"

definition wr_visible :: "url_parser \<Rightarrow> wr_perm \<Rightarrow> ext_wr_reg \<Rightarrow> nat \<Rightarrow> string \<Rightarrow> bool" where
  "wr_visible pu p r l url \<longleftrightarrow> host_patterns_match pu (wp_hosts p) url
     \<and> (case map_of (wr_filters r) l of None \<Rightarrow> True | Some f \<Rightarrow> host_patterns_match pu f url)"

section \<open>The hooks\<close>

text \<open>What a listener is called with beside the details, and what comes back.\<close>

datatype wr_extra = NoExtra | RequestHeaders json | ResponseHeaders nat json | StatusCode nat | ErrorText string

datatype wr_result = Threw | Nothing | CancelResult bool | HeaderResult json

type_synonym wr_behaviour = "nat \<Rightarrow> wr_details \<Rightarrow> wr_extra \<Rightarrow> wr_result"

text \<open>The calls that were made: the extension and the listener.\<close>

type_synonym wr_calls = "(string \<times> nat) list"

text \<open>The listeners of one extension that a request reaches.\<close>

definition wr_reached :: "url_parser \<Rightarrow> (string \<Rightarrow> wr_perm) \<Rightarrow> wr_kind \<Rightarrow> string \<Rightarrow> string \<times> ext_wr_reg \<Rightarrow> wr_calls" where
  "wr_reached pu perms kind url e =
     map (\<lambda>l. (fst e, l)) (filter (\<lambda>l. wr_visible pu (perms (fst e)) (snd e) l url) (wr_listeners (snd e) kind))"

fun ask_cancel :: "(string \<Rightarrow> wr_perm) \<Rightarrow> wr_behaviour \<Rightarrow> wr_details \<Rightarrow> wr_calls \<Rightarrow> bool \<times> wr_calls" where
  "ask_cancel perms behave d [] = (False, [])"
| "ask_cancel perms behave d ((i, l) # cs) =
     (if behave l d NoExtra = CancelResult True \<and> wp_block (perms i) then (True, [(i, l)])
      else let (b, calls) = ask_cancel perms behave d cs in (b, (i, l) # calls))"

definition wr_before_request ::
  "url_parser \<Rightarrow> (string \<Rightarrow> wr_perm) \<Rightarrow> wr_behaviour \<Rightarrow> wr_registry \<Rightarrow> wr_details \<Rightarrow> bool \<times> wr_calls" where
  "wr_before_request pu perms behave reg d =
     ask_cancel perms behave d (concat (map (wr_reached pu perms BeforeRequest (wd_url d)) reg))"

text \<open>The extensions that may block, and the replacement of headers by their listeners in turn.\<close>

definition wr_blocking :: "url_parser \<Rightarrow> (string \<Rightarrow> wr_perm) \<Rightarrow> wr_kind \<Rightarrow> wr_registry \<Rightarrow> string \<Rightarrow> wr_calls" where
  "wr_blocking pu perms kind reg url =
     concat (map (wr_reached pu perms kind url) (filter (\<lambda>(i, _). wp_block (perms i)) reg))"

fun replace_headers ::
  "(string \<Rightarrow> string \<Rightarrow> bool) \<Rightarrow> (nat \<Rightarrow> json \<Rightarrow> wr_result) \<Rightarrow> wr_headers \<Rightarrow> wr_headers option \<Rightarrow> wr_calls
   \<Rightarrow> header_fault + wr_headers option" where
  "replace_headers ok call h out [] = Inr out"
| "replace_headers ok call h out ((i, l) # cs) =
     (case call l (headers_to_pairs (case out of Some x \<Rightarrow> x | None \<Rightarrow> h)) of
        HeaderResult pairs \<Rightarrow> (case pairs_to_headers ok pairs of
            Inl e \<Rightarrow> Inl e
          | Inr None \<Rightarrow> replace_headers ok call h out cs
          | Inr (Some x) \<Rightarrow> replace_headers ok call h (Some x) cs)
      | _ \<Rightarrow> replace_headers ok call h out cs)"

definition wr_before_send_headers ::
  "(string \<Rightarrow> string \<Rightarrow> bool) \<Rightarrow> url_parser \<Rightarrow> (string \<Rightarrow> wr_perm) \<Rightarrow> wr_behaviour \<Rightarrow> wr_registry \<Rightarrow> wr_details \<Rightarrow> wr_headers
   \<Rightarrow> header_fault + wr_headers option" where
  "wr_before_send_headers ok pu perms behave reg d h =
     replace_headers ok (\<lambda>l pairs. behave l d (RequestHeaders pairs)) h None (wr_blocking pu perms BeforeSendHeaders reg (wd_url d))"

definition wr_headers_received ::
  "(string \<Rightarrow> string \<Rightarrow> bool) \<Rightarrow> url_parser \<Rightarrow> (string \<Rightarrow> wr_perm) \<Rightarrow> wr_behaviour \<Rightarrow> wr_registry \<Rightarrow> wr_details \<Rightarrow> nat
   \<Rightarrow> wr_headers \<Rightarrow> header_fault + wr_headers option" where
  "wr_headers_received ok pu perms behave reg d status h =
     replace_headers ok (\<lambda>l pairs. behave l d (ResponseHeaders status pairs)) h None (wr_blocking pu perms HeadersReceived reg (wd_url d))"

definition wr_completed :: "url_parser \<Rightarrow> (string \<Rightarrow> wr_perm) \<Rightarrow> wr_registry \<Rightarrow> wr_details \<Rightarrow> wr_calls" where
  "wr_completed pu perms reg d = concat (map (wr_reached pu perms Completed (wd_url d)) reg)"

definition wr_error_occurred :: "url_parser \<Rightarrow> (string \<Rightarrow> wr_perm) \<Rightarrow> wr_registry \<Rightarrow> wr_details \<Rightarrow> wr_calls" where
  "wr_error_occurred pu perms reg d = concat (map (wr_reached pu perms ErrorOccurred (wd_url d)) reg)"

section \<open>Delivery\<close>

definition wr_entitled :: "url_parser \<Rightarrow> (string \<Rightarrow> wr_perm) \<Rightarrow> wr_registry \<Rightarrow> wr_kind \<Rightarrow> string \<Rightarrow> string \<times> nat \<Rightarrow> bool" where
  "wr_entitled pu perms reg kind url c \<longleftrightarrow>
     (\<exists>r. (fst c, r) \<in> set reg \<and> snd c \<in> set (wr_listeners r kind) \<and> host_patterns_match pu (wp_hosts (perms (fst c))) url
        \<and> (\<forall>f. map_of (wr_filters r) (snd c) = Some f \<longrightarrow> host_patterns_match pu f url))"

lemma reached_entitled: "c \<in> set (concat (map (wr_reached pu perms kind url) reg)) \<Longrightarrow> wr_entitled pu perms reg kind url c"
  by (fastforce simp: wr_reached_def wr_entitled_def wr_visible_def split: option.splits)

lemma blocking_entitled:
  "c \<in> set (wr_blocking pu perms kind reg url) \<Longrightarrow> wr_entitled pu perms reg kind url c \<and> wp_block (perms (fst c))"
  by (fastforce simp: wr_blocking_def wr_reached_def wr_entitled_def wr_visible_def split: option.splits)

lemma ask_cancel_calls: "set (snd (ask_cancel perms behave d cs)) \<subseteq> set cs"
  by (induction perms behave d cs rule: ask_cancel.induct) (auto split: prod.split)

lemma ask_cancel_True:
  "fst (ask_cancel perms behave d cs) \<longleftrightarrow> (\<exists>(i, l) \<in> set cs. behave l d NoExtra = CancelResult True \<and> wp_block (perms i))"
  by (induction perms behave d cs rule: ask_cancel.induct) (simp_all add: split_beta, blast)

text \<open>A request is cancelled exactly when a listener it reaches asks for it and belongs to an extension that may
  block now; and no listener learns of a request that the current host permissions of its extension
  and its own filter do not both cover.
\<close>

theorem cancel_exact:
  shows "(fst (wr_before_request pu perms behave reg d) \<longleftrightarrow>
      (\<exists>(i, r) \<in> set reg. \<exists>l \<in> set (wr_listeners r BeforeRequest). wr_visible pu (perms i) r l (wd_url d)
         \<and> wp_block (perms i) \<and> behave l d NoExtra = CancelResult True))
    \<and> (\<forall>c \<in> set (snd (wr_before_request pu perms behave reg d)). wr_entitled pu perms reg BeforeRequest (wd_url d) c)
    \<and> (\<forall>c \<in> set (wr_completed pu perms reg d). wr_entitled pu perms reg Completed (wd_url d) c)
    \<and> (\<forall>c \<in> set (wr_error_occurred pu perms reg d). wr_entitled pu perms reg ErrorOccurred (wd_url d) c)"
proof (intro conjI ballI)
  let ?cs = "concat (map (wr_reached pu perms BeforeRequest (wd_url d)) reg)"
  show "fst (wr_before_request pu perms behave reg d) \<longleftrightarrow>
      (\<exists>(i, r) \<in> set reg. \<exists>l \<in> set (wr_listeners r BeforeRequest). wr_visible pu (perms i) r l (wd_url d)
         \<and> wp_block (perms i) \<and> behave l d NoExtra = CancelResult True)"
    unfolding wr_before_request_def ask_cancel_True by (force simp: wr_reached_def)
  show "wr_entitled pu perms reg BeforeRequest (wd_url d) c" if "c \<in> set (snd (wr_before_request pu perms behave reg d))" for c
    using that ask_cancel_calls [of perms behave d ?cs] by (intro reached_entitled) (auto simp only: wr_before_request_def)
qed (simp_all only: wr_completed_def wr_error_occurred_def reached_entitled)

definition wr_demo_parser :: url_parser where
  "wr_demo_parser s = Some \<lparr>url_href = s, url_protocol = ''https:'', url_origin = s, url_host = s, url_hostname = s,
     url_pathname = ''/'', url_search = [], url_hash = []\<rparr>"

definition wr_demo_details :: wr_details where
  "wr_demo_details = \<lparr>wd_request = ''1'', wd_url = ''a.com'', wd_method = ''GET'', wd_type = ''script'', wd_origin = None, wd_time = 0\<rparr>"

lemma cancel_exact_witness:
  "fst (wr_before_request wr_demo_parser (\<lambda>_. \<lparr>wp_hosts = [''<all_urls>''], wp_block = True\<rparr>) (\<lambda>_ _ _. CancelResult True)
     (wr_register ''e'' BeforeRequest 7 [] []) wr_demo_details)"
proof -
  let ?perms = "\<lambda>_. \<lparr>wp_hosts = [''<all_urls>''], wp_block = True\<rparr>"
  have "host_patterns_match wr_demo_parser [''<all_urls>''] ''a.com''" by code_simp
  then have "\<exists>(i, r) \<in> set (wr_register ''e'' BeforeRequest 7 [] []). \<exists>l \<in> set (wr_listeners r BeforeRequest).
      wr_visible wr_demo_parser (?perms i) r l ''a.com''"
    by (simp add: wr_register_def ext_wr_def wr_visible_def)
  then show ?thesis
    using conjunct1 [OF cancel_exact [of wr_demo_parser ?perms "\<lambda>_ _ _. CancelResult True"
        "wr_register ''e'' BeforeRequest 7 [] []" wr_demo_details]]
    by (simp add: wr_demo_details_def)
qed

lemma replaced_by_listener:
  "replace_headers ok call h out cs = Inr (Some x) \<Longrightarrow> out = Some x
     \<or> (\<exists>c \<in> set cs. \<exists>pairs shown. call (snd c) shown = HeaderResult pairs \<and> pairs_to_headers ok pairs = Inr (Some x))"
proof (induction ok call h out cs rule: replace_headers.induct)
  case (2 ok call h out i l cs)
  show ?case
  proof (cases "call l (headers_to_pairs (case out of Some x \<Rightarrow> x | None \<Rightarrow> h))")
    case (HeaderResult pairs)
    then show ?thesis using 2 by (auto split: sum.splits option.splits)
  qed (use 2 in auto)
qed simp

text \<open>Headers are replaced only by what a listener of an extension that may block returned.\<close>

lemma headers_replaced_by_blocking:
  assumes "wr_before_send_headers ok pu perms behave reg d h = Inr (Some x)"
  shows "\<exists>i l pairs shown. wr_entitled pu perms reg BeforeSendHeaders (wd_url d) (i, l) \<and> wp_block (perms i)
    \<and> behave l d (RequestHeaders shown) = HeaderResult pairs \<and> pairs_to_headers ok pairs = Inr (Some x)"
proof -
  from replaced_by_listener [OF assms [unfolded wr_before_send_headers_def]]
  obtain c pairs shown where "c \<in> set (wr_blocking pu perms BeforeSendHeaders reg (wd_url d))"
    "behave (snd c) d (RequestHeaders shown) = HeaderResult pairs" "pairs_to_headers ok pairs = Inr (Some x)" by auto
  then show ?thesis using blocking_entitled by (metis prod.collapse)
qed

section \<open>Round trip of headers\<close>

lemma add_pairs_distinct:
  "\<forall>(k, v) \<in> set h. k \<noteq> [] \<and> js_lower k = k \<and> ok k v \<Longrightarrow> distinct (map fst (acc @ h)) \<Longrightarrow>
   add_pairs ok (map (\<lambda>(k, v). JObj [(''name'', JStr k), (''value'', JStr v)]) h) acc = Inr (Some (acc @ h))"
proof (induction h arbitrary: acc)
  case (Cons e h)
  obtain k v where e: "e = (k, v)" by (cases e)
  have "AList.update k v acc = acc @ [(k, v)]"
    using Cons.prems(2) by (intro update_new_append) (auto simp: e omap_has_iff)
  then show ?case using Cons by (simp add: e jget_def)
qed simp

lemma untouched_headers_kept:
  assumes "\<forall>(k, v) \<in> set h. k \<noteq> [] \<and> js_lower k = k \<and> ok k v" "distinct (map fst h)"
  shows "pairs_to_headers ok (headers_to_pairs h) = Inr (Some h)"
  using add_pairs_distinct [of h ok "[]"] assms by (simp add: pairs_to_headers_def headers_to_pairs_def)

text \<open>Set-Cookie is the header that may repeat: a listener that returns what it was given loses all but the last.\<close>

lemma repeated_cookie_lost:
  "pairs_to_headers (\<lambda>_ _. True) (headers_to_pairs [(''set-cookie'', ''a=1''), (''set-cookie'', ''b=2'')])
     = Inr (Some [(''set-cookie'', ''b=2'')])"
  by (simp add: pairs_to_headers_def headers_to_pairs_def jget_def js_lower_def lower_char_def)

section \<open>Filters\<close>

text \<open>
  The filter belongs to the listener, not to its registration: when a listener registered for two events leaves
  one of them, the other loses its filter.\<close>

lemma shared_listener_loses_filter:
  assumes "urls \<noteq> []" "kind \<noteq> kind'"
  shows "\<exists>r. map_of (wr_unregister i kind l (wr_register i kind' l urls (wr_register i kind l urls []))) i = Some r
    \<and> l \<in> set (wr_listeners r kind') \<and> map_of (wr_filters r) l = None"
  using assms by (simp add: wr_unregister_def wr_register_def ext_wr_def Let_def)

end
