(* ===== verification/Downloads.thy ===== *)
theory Downloads
  imports Complex_Main HttpHeaders NavHandles "HOL-Library.Char_ord" "HOL-Library.List_Lexorder"
begin

text \<open>
  The download registry (\<open>src/app/src/downloads.ts\<close>): the ring of entries, the counting streams, the
  buffered partial bytes, the resume pumps and the two stores in IndexedDB. The code between two
  awaits is one event of \<open>dl_step\<close>; an event that cannot happen in a state leaves it as it is. The
  closures of the source hold their entry by reference; here they find it by its id, which stays
  the same entry as long as ids are distinct (\<open>dl_ids_ok\<close>). A write to the stores takes effect
  with the event that issues it and succeeds while \<open>dl_io\<close> holds; the event \<open>DlStorage\<close> switches it.
  The bytes delivered by the upstream, the clock and the URL parser are arguments. \<open>Number(s)\<close> is
  modelled on optionally signed decimal digits.
\<close>

section \<open>Entries\<close>

definition DL_RING :: nat where "DL_RING = 200"

definition ZL_DL_RESUME_MAX :: nat where
  "ZL_DL_RESUME_MAX = 67108864"

definition ZL_DL_BUFFER_TOTAL_MAX :: nat where
  "ZL_DL_BUFFER_TOTAL_MAX = 134217728"

datatype dl_state = DlActive | DlDone | DlError | DlCancelled | DlPaused

text \<open>A size of \<open>None\<close> is \<open>NaN\<close>. The field \<open>speed\<close> is computed by \<open>dl_snapshot\<close>.\<close>

record dl_entry =
  dl_id :: string
  dl_filename :: string
  dl_mime :: string
  dl_size :: "int option"
  dl_received :: int
  dl_started :: int
  dl_ended :: int
  dl_status :: dl_state
  dl_resumable :: bool
  dl_source :: string
  dl_error :: "string option"

record dl_partial =
  pa_chunks :: "byte list list"
  pa_n :: nat

section \<open>File names\<close>

text \<open>\<open>(?:"([^"]*)"|([^;\s]+))\<close> after the equals sign: the captured text.\<close>

definition quoted_text :: "string \<Rightarrow> string option" where
  "quoted_text s =
     (case s of
        c # r \<Rightarrow> if c = QUOTE \<and> QUOTE \<in> set r then Some (takeWhile (\<lambda>d. d \<noteq> QUOTE) r) else None
      | [] \<Rightarrow> None)"

definition token_text :: "(char \<Rightarrow> bool) \<Rightarrow> string \<Rightarrow> string option" where
  "token_text ok s = (let t = takeWhile ok s in if t = [] then None else Some t)"

definition ext_filename_at :: "string \<Rightarrow> string option" where
  "ext_filename_at s =
     (case key_eq ''filename*'' s of
        None \<Rightarrow> None
      | Some r \<Rightarrow>
          (case quoted_text r of
             Some t \<Rightarrow> Some t
           | None \<Rightarrow> token_text (\<lambda>c. c \<noteq> CHR '';'' \<and> \<not> is_js_space c) r))"

definition quoted_filename_at :: "string \<Rightarrow> string option" where
  "quoted_filename_at s = (case key_eq ''filename'' s of None \<Rightarrow> None | Some r \<Rightarrow> quoted_text r)"

definition token_filename_at :: "string \<Rightarrow> string option" where
  "token_filename_at s =
     (case key_eq ''filename'' s of
        None \<Rightarrow> None
      | Some r \<Rightarrow> token_text (\<lambda>c. c \<noteq> CHR '';'' \<and> c \<noteq> QUOTE \<and> \<not> is_js_space c) r)"

definition cd_match :: "(string \<Rightarrow> string option) \<Rightarrow> string \<Rightarrow> string option" where
  "cd_match m cd = map_option snd (find_match m cd)"

text \<open>The value after \<open>charset'lang'\<close>, decoded and trimmed.\<close>

definition ext_filename :: "string \<Rightarrow> string option" where
  "ext_filename cd =
     (case cd_match ext_filename_at cd of
        None \<Rightarrow> None
      | Some t \<Rightarrow>
          let parts = split_on (CHR 0x27) t;
              val = (if length parts = 3 then parts ! 2 else [])
          in if val = [] then None
             else truthy (map_option js_trim (decode_uri_component val)))"

definition path_filename :: "url_parser \<Rightarrow> string \<Rightarrow> string option" where
  "path_filename pu source =
     (case pu source of
        None \<Rightarrow> None
      | Some u \<Rightarrow>
          (case rev (filter (\<lambda>p. p \<noteq> []) (split_on (CHR ''/'') (url_pathname u))) of
             [] \<Rightarrow> None
           | p # _ \<Rightarrow> decode_uri_component p))"

definition download_filename :: "url_parser \<Rightarrow> string \<Rightarrow> headers \<Rightarrow> string" where
  "download_filename pu source h =
     (let cd = (case hget h ''content-disposition'' of Some v \<Rightarrow> v | None \<Rightarrow> [])
      in case ext_filename cd of
           Some f \<Rightarrow> f
         | None \<Rightarrow>
             (case truthy (map_option js_trim (cd_match quoted_filename_at cd)) of
                Some f \<Rightarrow> f
              | None \<Rightarrow>
                  (case truthy (map_option js_trim (cd_match token_filename_at cd)) of
                     Some f \<Rightarrow> f
                   | None \<Rightarrow> (case path_filename pu source of Some f \<Rightarrow> f | None \<Rightarrow> ''download''))))"

definition AD_HOST_SUFFIX :: string where
  "AD_HOST_SUFFIX = ''doubleclick.net''"

definition is_ad_artefact :: "url_parser \<Rightarrow> string \<Rightarrow> string \<Rightarrow> bool" where
  "is_ad_artefact pu source filename \<longleftrightarrow>
     js_lower filename = ''f.txt'' \<and>
     (case pu source of
        None \<Rightarrow> False
      | Some u \<Rightarrow> url_hostname u = AD_HOST_SUFFIX \<or> ends_with (url_hostname u) (CHR ''.'' # AD_HOST_SUFFIX))"

section \<open>Stored records\<close>

definition status_text :: "dl_state \<Rightarrow> string" where
  "status_text st =
     (case st of DlActive \<Rightarrow> ''active'' | DlDone \<Rightarrow> ''done'' | DlError \<Rightarrow> ''error''
      | DlCancelled \<Rightarrow> ''cancelled'' | DlPaused \<Rightarrow> ''paused'')"

definition status_of_text :: "string \<Rightarrow> dl_state option" where
  "status_of_text t =
     map_of (map (\<lambda>st. (status_text st, st)) [DlActive, DlDone, DlError, DlCancelled, DlPaused]) t"

text \<open>A stored \<open>NaN\<close> is \<open>JNull\<close>: neither is a finite number. An absent field is \<open>undefined\<close>.\<close>

definition entry_record :: "dl_entry \<Rightarrow> json" where
  "entry_record e =
     JObj ([(''id'', JStr (dl_id e)), (''filename'', JStr (dl_filename e)), (''mime'', JStr (dl_mime e)),
            (''size'', case dl_size e of Some n \<Rightarrow> JNum n | None \<Rightarrow> JNull),
            (''received'', JNum (dl_received e)), (''startedAt'', JNum (dl_started e)),
            (''endedAt'', JNum (dl_ended e)), (''status'', JStr (status_text (dl_status e))),
            (''source'', JStr (dl_source e)), (''speed'', JNum 0), (''resumable'', JBool (dl_resumable e))]
           @ (case dl_error e of Some t \<Rightarrow> [(''error'', JStr t)] | None \<Rightarrow> []))"

definition is_jstr :: "json option \<Rightarrow> bool" where
  "is_jstr j = (case j of Some (JStr _) \<Rightarrow> True | _ \<Rightarrow> False)"

definition is_jnum :: "json option \<Rightarrow> bool" where
  "is_jnum j = (case j of Some (JNum _) \<Rightarrow> True | _ \<Rightarrow> False)"

definition is_valid_entry :: "json \<Rightarrow> bool" where
  "is_valid_entry e \<longleftrightarrow>
     (\<forall>k \<in> set [''id'', ''filename'', ''mime'', ''source'']. is_jstr (jget e k)) \<and>
     (\<forall>k \<in> set [''size'', ''received'', ''startedAt'', ''endedAt'']. is_jnum (jget e k)) \<and>
     (case jget e ''status'' of Some (JStr t) \<Rightarrow> status_of_text t \<noteq> None | _ \<Rightarrow> False) \<and>
     (case jget e ''resumable'' of None \<Rightarrow> True | Some (JBool _) \<Rightarrow> True | _ \<Rightarrow> False) \<and>
     (case jget e ''error'' of None \<Rightarrow> True | Some (JStr _) \<Rightarrow> True | _ \<Rightarrow> False)"

definition jstr_of :: "json option \<Rightarrow> string" where
  "jstr_of j = (case j of Some (JStr s) \<Rightarrow> s | _ \<Rightarrow> [])"

definition jnum_of :: "json option \<Rightarrow> int" where
  "jnum_of j = (case j of Some (JNum n) \<Rightarrow> n | _ \<Rightarrow> 0)"

text \<open>The entry a valid record is.\<close>

definition record_entry :: "json \<Rightarrow> dl_entry" where
  "record_entry j =
     \<lparr>dl_id = jstr_of (jget j ''id''), dl_filename = jstr_of (jget j ''filename''), dl_mime = jstr_of (jget j ''mime''),
      dl_size = Some (jnum_of (jget j ''size'')), dl_received = jnum_of (jget j ''received''),
      dl_started = jnum_of (jget j ''startedAt''), dl_ended = jnum_of (jget j ''endedAt''),
      dl_status = (case status_of_text (jstr_of (jget j ''status'')) of Some st \<Rightarrow> st | None \<Rightarrow> DlError),
      dl_resumable = (jget j ''resumable'' = Some (JBool True)),
      dl_source = jstr_of (jget j ''source''),
      dl_error = (case jget j ''error'' of Some (JStr t) \<Rightarrow> Some t | _ \<Rightarrow> None)\<rparr>"

definition restore_entry :: "int \<Rightarrow> dl_entry \<Rightarrow> dl_entry" where
  "restore_entry now e =
     (if dl_status e = DlActive
      then e\<lparr>dl_status := DlError, dl_ended := now, dl_error := Some ''interrupted: worker restarted''\<rparr>
      else e)"

section \<open>The tracker\<close>

text \<open>
  \<open>dl_pipes\<close> holds the pipes that have not settled, with whether their stream has been flushed;
  \<open>dl_pumps\<close> is \<open>resumePumps\<close> with the await each resume stands at; \<open>dl_assembling\<close> the calls of
  \<open>assemble\<close> that wait for the store; \<open>dl_saved\<close> the store of the ring, one record per site;
  \<open>dl_stored\<close> the store of the partials.
\<close>

datatype pump_phase = Restoring | Fetching | Pumping

record downloads =
  dl_entries :: "dl_entry list"
  dl_streams :: "string list"
  dl_pipes :: "(string, bool) omap"
  dl_partials :: "(string, dl_partial) omap"
  dl_pumps :: "(string, pump_phase) omap"
  dl_assembling :: "string list"
  dl_seq :: nat
  dl_wired :: bool
  dl_saved :: "(string, json) omap"
  dl_stored :: "(string, dl_partial) omap"
  dl_io :: bool

definition no_downloads :: downloads where
  "no_downloads =
     \<lparr>dl_entries = [], dl_streams = [], dl_pipes = [], dl_partials = [], dl_pumps = [], dl_assembling = [],
      dl_seq = 0, dl_wired = False, dl_saved = [], dl_stored = [], dl_io = True\<rparr>"

definition find_entry :: "string \<Rightarrow> downloads \<Rightarrow> dl_entry option" where
  "find_entry i s = find (\<lambda>e. dl_id e = i) (dl_entries s)"

fun change_entry :: "string \<Rightarrow> (dl_entry \<Rightarrow> dl_entry) \<Rightarrow> dl_entry list \<Rightarrow> dl_entry list" where
  "change_entry i f [] = []"
| "change_entry i f (e # es) = (if dl_id e = i then f e # es else e # change_entry i f es)"

definition on_entry :: "string \<Rightarrow> (dl_entry \<Rightarrow> dl_entry) \<Rightarrow> downloads \<Rightarrow> downloads" where
  "on_entry i f s = s\<lparr>dl_entries := change_entry i f (dl_entries s)\<rparr>"

definition entry_is :: "string \<Rightarrow> dl_state \<Rightarrow> downloads \<Rightarrow> bool" where
  "entry_is i st s = (case find_entry i s of Some e \<Rightarrow> dl_status e = st | None \<Rightarrow> False)"

definition end_entry :: "string \<Rightarrow> dl_state \<Rightarrow> int \<Rightarrow> string option \<Rightarrow> downloads \<Rightarrow> downloads" where
  "end_entry i st now err = on_entry i (\<lambda>e. e\<lparr>dl_status := st, dl_ended := now, dl_error := err\<rparr>)"

text \<open>\<open>forgetPartial\<close>, \<open>persistPartial\<close> and \<open>loadPartial\<close>.\<close>

definition forget_partial :: "string \<Rightarrow> downloads \<Rightarrow> downloads" where
  "forget_partial i s =
     s\<lparr>dl_partials := AList.delete i (dl_partials s),
       dl_stored := (if dl_io s then AList.delete i (dl_stored s) else dl_stored s)\<rparr>"

definition persist_partial :: "string \<Rightarrow> downloads \<Rightarrow> downloads" where
  "persist_partial i s =
     (case map_of (dl_partials s) i of
        None \<Rightarrow> s
      | Some p \<Rightarrow> if pa_n p = 0 \<or> \<not> dl_io s then s else s\<lparr>dl_stored := AList.update i p (dl_stored s)\<rparr>)"

definition load_partial :: "string \<Rightarrow> downloads \<Rightarrow> downloads option" where
  "load_partial i s =
     (if \<not> dl_io s then None
      else case map_of (dl_stored s) i of
             None \<Rightarrow> None
           | Some p \<Rightarrow>
               if pa_chunks p = [] \<or> sum_list (map length (pa_chunks p)) \<noteq> pa_n p then None
               else Some (s\<lparr>dl_partials := AList.update i p (dl_partials s)\<rparr>))"

section \<open>Buffering\<close>

definition buffered_bytes :: "downloads \<Rightarrow> nat" where
  "buffered_bytes s = sum_list (map (pa_n \<circ> snd) (dl_partials s))"

definition drop_buffer :: "string \<Rightarrow> downloads \<Rightarrow> downloads" where
  "drop_buffer i s = forget_partial i (on_entry i (\<lambda>e. e\<lparr>dl_resumable := False\<rparr>) s)"

fun drop_victims :: "nat \<Rightarrow> nat \<Rightarrow> string list \<Rightarrow> downloads \<Rightarrow> bool \<times> downloads" where
  "drop_victims b n [] s = (buffered_bytes s + n \<le> b, s)"
| "drop_victims b n (v # vs) s =
     (let s = drop_buffer v s
      in if buffered_bytes s + n \<le> b then (True, s) else drop_victims b n vs s)"

definition buffer_victims :: "string \<Rightarrow> downloads \<Rightarrow> string list" where
  "buffer_victims i s =
     map dl_id (sort_key (\<lambda>e. dl_status e = DlActive)
       (filter (\<lambda>e. dl_id e \<noteq> i \<and> omap_has (dl_partials s) (dl_id e)) (dl_entries s)))"

definition admit_bytes :: "nat \<Rightarrow> string \<Rightarrow> nat \<Rightarrow> downloads \<Rightarrow> bool \<times> downloads" where
  "admit_bytes b i n s =
     (if buffered_bytes s + n \<le> b then (True, s)
      else drop_victims b n (buffer_victims i s) s)"

lemma buffer_victims_others: "i \<notin> set (buffer_victims i s)"
  by (auto simp: buffer_victims_def)

definition add_chunk :: "string \<Rightarrow> byte list \<Rightarrow> dl_partial \<Rightarrow> downloads \<Rightarrow> downloads" where
  "add_chunk i chunk p s =
     s\<lparr>dl_partials := AList.update i \<lparr>pa_chunks = pa_chunks p @ [chunk], pa_n = pa_n p + length chunk\<rparr> (dl_partials s)\<rparr>"

definition buffer_chunk :: "nat \<Rightarrow> string \<Rightarrow> byte list \<Rightarrow> downloads \<Rightarrow> downloads" where
  "buffer_chunk b i chunk s =
     (case (find_entry i s, map_of (dl_partials s) i) of
        (Some e, Some p) \<Rightarrow>
          if \<not> dl_resumable e then s
          else if ZL_DL_RESUME_MAX < pa_n p + length chunk then drop_buffer i s
          else (case admit_bytes b i (length chunk) s of
                  (False, s') \<Rightarrow> drop_buffer i s'
                | (True, s') \<Rightarrow> add_chunk i chunk p s')
      | _ \<Rightarrow> s)"

section \<open>Registration\<close>

text \<open>The ring gives up its oldest entry that has neither a stream nor a resume.\<close>

definition evict_idle :: "downloads \<Rightarrow> downloads" where
  "evict_idle s =
     (case find (\<lambda>e. dl_id e \<notin> set (dl_streams s) \<and> \<not> omap_has (dl_pumps s) (dl_id e)) (dl_entries s) of
        None \<Rightarrow> s
      | Some gone \<Rightarrow> forget_partial (dl_id gone) (s\<lparr>dl_entries := remove1 gone (dl_entries s)\<rparr>))"

definition new_entry :: "url_parser \<Rightarrow> string \<Rightarrow> headers \<Rightarrow> string \<Rightarrow> int option \<Rightarrow> int \<Rightarrow> string \<Rightarrow> dl_entry" where
  "new_entry pu source h mime len now i =
     \<lparr>dl_id = i, dl_filename = download_filename pu source h, dl_mime = mime, dl_size = len,
      dl_received = 0, dl_started = now, dl_ended = 0, dl_status = DlActive,
      dl_resumable = (case len of Some n \<Rightarrow> n = -1 \<or> n \<le> int ZL_DL_RESUME_MAX | None \<Rightarrow> False),
      dl_source = source, dl_error = None\<rparr>"

definition dl_begin ::
  "url_parser \<Rightarrow> string \<Rightarrow> headers \<Rightarrow> string \<Rightarrow> int option \<Rightarrow> int \<Rightarrow> downloads \<Rightarrow> string \<times> downloads" where
  "dl_begin pu source h mime len now s =
     (let i = ''dl'' @ nat_digits (Suc (dl_seq s));
          s = s\<lparr>dl_seq := Suc (dl_seq s), dl_entries := dl_entries s @ [new_entry pu source h mime len now i]\<rparr>
      in (i, if DL_RING < length (dl_entries s) then evict_idle s else s))"

definition dl_wrap :: "string \<Rightarrow> downloads \<Rightarrow> downloads" where
  "dl_wrap i s =
     (let s = (case find_entry i s of
                 Some e \<Rightarrow> if dl_resumable e
                           then s\<lparr>dl_partials := AList.update i \<lparr>pa_chunks = [], pa_n = 0\<rparr> (dl_partials s)\<rparr> else s
               | None \<Rightarrow> s)
      in s\<lparr>dl_streams := List.insert i (dl_streams s), dl_pipes := AList.update i False (dl_pipes s)\<rparr>)"

definition number_of_text :: "string \<Rightarrow> int option" where
  "number_of_text s =
     (let t = js_trim s; (neg, ds) = (case t of c # r \<Rightarrow> if c = CHR ''-'' then (True, r) else if c = CHR ''+'' then (False, r) else (False, t) | [] \<Rightarrow> (False, t))
      in if t = [] then Some 0
         else if ds \<noteq> [] \<and> list_all is_digit ds then Some (if neg then - int (digits_val ds) else int (digits_val ds))
         else None)"

text \<open>\<open>None\<close>: the response is not a download, and the engine serves it on its normal path.\<close>

definition adopt_response ::
  "url_parser \<Rightarrow> string \<Rightarrow> bool \<Rightarrow> headers \<Rightarrow> headers \<Rightarrow> int \<Rightarrow> downloads \<Rightarrow> (string \<times> downloads) option" where
  "adopt_response pu target has_body h out now s =
     (if \<not> has_body then None
      else if \<not> str_includes (js_lower (case hget out ''content-disposition'' of Some v \<Rightarrow> v | None \<Rightarrow> [])) ''attachment'' then None
      else if is_ad_artefact pu target (download_filename pu target h) then None
      else
        let (i, s) = dl_begin pu target h
              (case hget out ''content-type'' of Some t \<Rightarrow> t | None \<Rightarrow> ''application/octet-stream'')
              (case hget h ''content-length'' of Some t \<Rightarrow> number_of_text t | None \<Rightarrow> Some (-1)) now s
        in Some (i, dl_wrap i s))"

section \<open>Cancel and pause\<close>

definition sever_stream :: "string \<Rightarrow> downloads \<Rightarrow> downloads" where
  "sever_stream i s = s\<lparr>dl_streams := remove1 i (dl_streams s)\<rparr>"

definition dl_cancel :: "string \<Rightarrow> int \<Rightarrow> downloads \<Rightarrow> bool \<times> downloads" where
  "dl_cancel i now s =
     (let live = i \<in> set (dl_streams s);
          s = (if entry_is i DlActive s
               then forget_partial i (on_entry i (\<lambda>e. e\<lparr>dl_status := DlCancelled, dl_ended := now\<rparr>) s) else s)
      in if live then (True, sever_stream i s) else (entry_is i DlCancelled s, s))"

definition dl_pause :: "string \<Rightarrow> int \<Rightarrow> downloads \<Rightarrow> bool \<times> downloads" where
  "dl_pause i now s =
     (let live = i \<in> set (dl_streams s);
          s = (if entry_is i DlActive s then
                 let resumable = (case find_entry i s of Some e \<Rightarrow> dl_resumable e | None \<Rightarrow> False);
                     s = on_entry i (\<lambda>e. e\<lparr>dl_status := DlPaused, dl_ended := now\<rparr>) s
                 in if resumable \<and> omap_has (dl_partials s) i then persist_partial i s
                    else on_entry i (\<lambda>e. e\<lparr>dl_resumable := False\<rparr>) s
               else s)
      in if live then (True, sever_stream i s) else (entry_is i DlPaused s, s))"

section \<open>Streams\<close>

definition stream_chunk :: "nat \<Rightarrow> string \<Rightarrow> byte list \<Rightarrow> downloads \<Rightarrow> downloads" where
  "stream_chunk b i chunk s =
     (if entry_is i DlActive s
      then buffer_chunk b i chunk (on_entry i (\<lambda>e. e\<lparr>dl_received := dl_received e + int (length chunk)\<rparr>) s) else s)"

definition stream_flush :: "string \<Rightarrow> int \<Rightarrow> downloads \<Rightarrow> downloads" where
  "stream_flush i now s =
     (let s = s\<lparr>dl_pipes := AList.update i True (dl_pipes s)\<rparr>
      in if entry_is i DlActive s
         then (on_entry i (\<lambda>e. e\<lparr>dl_status := DlDone, dl_ended := now\<rparr>) s)\<lparr>dl_partials := AList.delete i (dl_partials s)\<rparr>
         else s)"

text \<open>The handlers of \<open>pipeTo\<close>: \<open>catch\<close> when it failed, then \<open>finally\<close>.\<close>

definition stream_settled :: "string \<Rightarrow> bool \<Rightarrow> int \<Rightarrow> downloads \<Rightarrow> downloads" where
  "stream_settled i failed now s =
     (let s = (case find_entry i s of
                 Some e \<Rightarrow>
                   if failed \<and> dl_status e = DlActive then
                     if dl_resumable e \<and> (case map_of (dl_partials s) i of Some p \<Rightarrow> 0 < pa_n p | None \<Rightarrow> False)
                     then persist_partial i (end_entry i DlPaused now (Some ''interrupted: stream failed (resumable)'') s)
                     else end_entry i DlError now (Some ''stream failed'') s
                   else s
               | None \<Rightarrow> s)
      in s\<lparr>dl_streams := remove1 i (dl_streams s), dl_pipes := AList.delete i (dl_pipes s)\<rparr>)"

section \<open>Resume\<close>

definition resume_refusal :: "string \<Rightarrow> downloads \<Rightarrow> string option" where
  "resume_refusal i s =
     (case find_entry i s of
        None \<Rightarrow> Some ''unknown id''
      | Some e \<Rightarrow>
          if dl_status e \<noteq> DlPaused then Some ''not paused''
          else if \<not> dl_resumable e then Some ''no resumable bytes (cap exceeded or none buffered)''
          else if \<not> dl_wired s then Some ''no resume transport wired''
          else if omap_has (dl_pumps s) i then Some ''resume already in flight''
          else None)"

definition set_pump :: "string \<Rightarrow> pump_phase \<Rightarrow> downloads \<Rightarrow> downloads" where
  "set_pump i ph s = s\<lparr>dl_pumps := AList.update i ph (dl_pumps s)\<rparr>"

definition end_pump :: "string \<Rightarrow> downloads \<Rightarrow> downloads" where
  "end_pump i s = s\<lparr>dl_pumps := AList.delete i (dl_pumps s)\<rparr>"

definition resume_send :: "string \<Rightarrow> downloads \<Rightarrow> downloads" where
  "resume_send i s = set_pump i Fetching (on_entry i (\<lambda>e. e\<lparr>dl_status := DlActive, dl_error := None\<rparr>) s)"

definition dl_resume :: "string \<Rightarrow> downloads \<Rightarrow> downloads" where
  "dl_resume i s =
     (if resume_refusal i s \<noteq> None then s
      else if omap_has (dl_partials s) i then resume_send i s
      else set_pump i Restoring s)"

definition resume_restored :: "string \<Rightarrow> downloads \<Rightarrow> downloads" where
  "resume_restored i s =
     resume_send i
       (case load_partial i s of
          Some s' \<Rightarrow>
            on_entry i (\<lambda>e. e\<lparr>dl_received := int (case map_of (dl_partials s') i of Some p \<Rightarrow> pa_n p | None \<Rightarrow> 0)\<rparr>) s'
        | None \<Rightarrow>
            on_entry i (\<lambda>e. e\<lparr>dl_received := 0\<rparr>)
              (s\<lparr>dl_partials := AList.update i \<lparr>pa_chunks = [], pa_n = 0\<rparr> (dl_partials s)\<rparr>))"

text \<open>\<open>/bytes (\d+)-/\<close>\<close>

definition range_start_at :: "string \<Rightarrow> nat option" where
  "range_start_at s =
     (if starts_with s ''bytes '' then
        let ds = takeWhile is_digit (drop 6 s)
        in if ds \<noteq> [] \<and> starts_with (drop (6 + length ds) s) ''-'' then Some (digits_val ds) else None
      else None)"

definition range_start :: "string \<Rightarrow> nat option" where
  "range_start cr = map_option snd (find_match range_start_at cr)"

definition NOT_RETAINED :: string where
  "NOT_RETAINED = ''resume artifact not retained: buffer dropped by the size cap or budget''"

definition pump_done :: "string \<Rightarrow> int \<Rightarrow> downloads \<Rightarrow> downloads" where
  "pump_done i now s =
     end_pump i
       (if omap_has (dl_partials s) i then end_entry i DlDone now None s
        else end_entry i DlError now (Some NOT_RETAINED) s)"

definition pump_resume :: "string \<Rightarrow> bool \<Rightarrow> int \<Rightarrow> downloads \<Rightarrow> downloads" where
  "pump_resume i has_body now s =
     (if find_entry i s = None \<or> \<not> omap_has (dl_partials s) i
      then end_pump i (on_entry i (\<lambda>e. e\<lparr>dl_status := DlPaused, dl_error := Some NOT_RETAINED\<rparr>) s)
      else if has_body then set_pump i Pumping s
      else pump_done i now s)"

definition clear_buffer :: "string \<Rightarrow> downloads \<Rightarrow> downloads" where
  "clear_buffer i s =
     (if omap_has (dl_partials s) i
      then s\<lparr>dl_partials := AList.update i \<lparr>pa_chunks = [], pa_n = 0\<rparr> (dl_partials s)\<rparr> else s)"

text \<open>
  An entry that has left the ring is only visible to its own resume: whichever start a 206 names,
  the resume ends without a pump.
\<close>

definition resume_answer :: "string \<Rightarrow> nat \<Rightarrow> string option \<Rightarrow> bool \<Rightarrow> int \<Rightarrow> downloads \<Rightarrow> downloads" where
  "resume_answer i code content_range has_body now s =
     (let received = (case find_entry i s of Some e \<Rightarrow> dl_received e | None \<Rightarrow> 0)
      in if code = 416
         then end_pump i (forget_partial i
                (end_entry i DlError now (Some ''416: upstream cannot serve the remaining range'') s))
         else if code = 206 then
           (if (case range_start (case content_range of Some v \<Rightarrow> v | None \<Rightarrow> []) of
                  Some n \<Rightarrow> int n = received | None \<Rightarrow> False)
            then pump_resume i has_body now s
            else end_pump i (on_entry i (\<lambda>e. e\<lparr>dl_status := DlPaused,
                   dl_error := Some ''206 content-range mismatch: upstream answered a different start''\<rparr>) s))
         else
           pump_resume i has_body now
             (on_entry i (\<lambda>e. e\<lparr>dl_received := 0, dl_started := now\<rparr>) (clear_buffer i s)))"

definition resume_fetch_failed :: "string \<Rightarrow> string \<Rightarrow> downloads \<Rightarrow> downloads" where
  "resume_fetch_failed i err s =
     end_pump i (persist_partial i
       (on_entry i (\<lambda>e. e\<lparr>dl_status := DlPaused, dl_error := Some (''resume failed: '' @ err)\<rparr>) s))"

definition pump_chunk :: "nat \<Rightarrow> string \<Rightarrow> byte list \<Rightarrow> downloads \<Rightarrow> downloads" where
  "pump_chunk b i chunk s =
     buffer_chunk b i chunk (on_entry i (\<lambda>e. e\<lparr>dl_received := dl_received e + int (length chunk)\<rparr>) s)"

definition pump_failed :: "string \<Rightarrow> int \<Rightarrow> string \<Rightarrow> downloads \<Rightarrow> downloads" where
  "pump_failed i now err s =
     end_pump i (persist_partial i (end_entry i DlPaused now (Some (''resume interrupted: '' @ err)) s))"

section \<open>Assembling the artifact\<close>

definition artifact :: "string \<Rightarrow> downloads \<Rightarrow> byte list option" where
  "artifact i s =
     (case map_of (dl_partials s) i of
        None \<Rightarrow> None
      | Some p \<Rightarrow> if pa_n p = 0 then None else Some (concat (pa_chunks p)))"

text \<open>\<open>Inl\<close>: the call waits for the store.\<close>

definition dl_assemble :: "string \<Rightarrow> downloads \<Rightarrow> downloads + byte list option" where
  "dl_assemble i s =
     (case find_entry i s of
        None \<Rightarrow> Inr None
      | Some e \<Rightarrow>
          if dl_status e \<noteq> DlDone \<and> dl_status e \<noteq> DlPaused then Inr None
          else if \<not> omap_has (dl_partials s) i \<and> dl_status e = DlPaused
          then Inl (s\<lparr>dl_assembling := dl_assembling s @ [i]\<rparr>)
          else Inr (artifact i s))"

definition dl_assembled :: "string \<Rightarrow> downloads \<Rightarrow> byte list option \<times> downloads" where
  "dl_assembled i s =
     (let s = s\<lparr>dl_assembling := remove1 i (dl_assembling s)\<rparr>
      in case load_partial i s of
           None \<Rightarrow> (None, s)
         | Some s' \<Rightarrow> (artifact i s', s'))"

section \<open>History and persistence\<close>

definition dl_snapshot :: "int \<Rightarrow> downloads \<Rightarrow> (dl_entry \<times> rat) list" where
  "dl_snapshot now s =
     map (\<lambda>e. (e, if 0 < dl_received e \<and> dl_status e = DlActive
                   then of_int (dl_received e) / of_int (max 1 (now - dl_started e)) * 1000
                   else if dl_status e = DlDone \<and> dl_started e < dl_ended e
                   then of_int (dl_received e) / of_int (dl_ended e - dl_started e) * 1000
                   else 0)) (rev (dl_entries s))"

definition clears :: "url_parser \<Rightarrow> string list option \<Rightarrow> int option \<Rightarrow> dl_entry \<Rightarrow> bool" where
  "clears pu origins since e \<longleftrightarrow>
     dl_status e \<noteq> DlActive \<and>
     (case since of Some t \<Rightarrow> \<not> dl_ended e < t | None \<Rightarrow> True) \<and>
     (case origins of
        Some os \<Rightarrow> (case pu (dl_source e) of Some u \<Rightarrow> url_origin u | None \<Rightarrow> ''unknown'') \<in> set os
      | None \<Rightarrow> True)"

definition clear_history :: "url_parser \<Rightarrow> string list option \<Rightarrow> int option \<Rightarrow> downloads \<Rightarrow> nat \<times> downloads" where
  "clear_history pu origins since s =
     (let gone = filter (clears pu origins since) (dl_entries s)
      in (length gone,
          fold (forget_partial \<circ> dl_id) (rev gone)
            (s\<lparr>dl_entries := filter (\<lambda>e. \<not> clears pu origins since e) (dl_entries s)\<rparr>)))"

definition dl_site_key :: "url_parser \<Rightarrow> string \<Rightarrow> string" where
  "dl_site_key pu source = (case pu source of Some u \<Rightarrow> ''site:'' @ url_origin u | None \<Rightarrow> ''site:unknown'')"

text \<open>\<open>ok k\<close>: the write or the deletion of the record \<open>k\<close> succeeds.\<close>

definition dl_persist :: "url_parser \<Rightarrow> (string \<Rightarrow> bool) \<Rightarrow> downloads \<Rightarrow> downloads" where
  "dl_persist pu ok s =
     (if \<not> dl_io s then s
      else
        let by_site = group_by (\<lambda>e. dl_site_key pu (dl_source e)) (dl_entries s);
            emptied = filter (\<lambda>k. \<not> omap_has by_site k) (map fst (dl_saved s));
            saved = fold (\<lambda>(k, l) m. if ok k then AList.update k (JArr (map entry_record l)) m else m) by_site (dl_saved s)
        in s\<lparr>dl_saved := fold (\<lambda>k m. if ok k then AList.delete k m else m) emptied saved\<rparr>)"

definition restored_entries :: "int \<Rightarrow> json \<Rightarrow> dl_entry list" where
  "restored_entries now rec =
     (case rec of JArr es \<Rightarrow> map (restore_entry now \<circ> record_entry) (filter is_valid_entry es) | _ \<Rightarrow> [])"

definition load_ring :: "int \<Rightarrow> (string, json) omap \<Rightarrow> dl_entry list" where
  "load_ring now saved =
     (let restored = sort_key dl_started
            (concat (map (\<lambda>k. case map_of saved k of Some rec \<Rightarrow> restored_entries now rec | None \<Rightarrow> [])
               (sort (map fst saved))))
      in drop (length restored - DL_RING) restored)"

definition past_id :: "dl_entry \<Rightarrow> nat \<Rightarrow> nat" where
  "past_id e n =
     (case number_of_text (drop 2 (dl_id e)) of Some k \<Rightarrow> if int n < k then nat k else n | None \<Rightarrow> n)"

definition dl_load :: "int \<Rightarrow> downloads \<Rightarrow> downloads" where
  "dl_load now s =
     (if \<not> dl_io s then s
      else
        let es = load_ring now (dl_saved s)
        in s\<lparr>dl_entries := es,
             dl_stored := filter (\<lambda>(k, _). k \<in> dl_id ` set es) (dl_stored s),
             dl_seq := fold past_id es (dl_seq s)\<rparr>)"

text \<open>A new worker starts with its memory empty and loads the ring.\<close>

definition dl_restart :: "int \<Rightarrow> downloads \<Rightarrow> downloads" where
  "dl_restart now s =
     dl_load now (no_downloads\<lparr>dl_saved := dl_saved s, dl_stored := dl_stored s, dl_io := dl_io s\<rparr>)"

section \<open>Events\<close>

datatype dl_event =
  DlAdopt string bool headers headers int
  | DlChunk string "byte list"
  | DlFlush string int
  | DlSettled string bool int
  | DlCancel string int
  | DlPause string int
  | DlWire
  | DlResume string
  | DlRestored string
  | DlAnswer string nat "string option" bool int
  | DlFetchFailed string string
  | DlPumpChunk string "byte list"
  | DlPumpEnd string int
  | DlPumpFailed string int string
  | DlAssemble string
  | DlAssembled string
  | DlClear "string list option" "int option"
  | DlPersist "string \<Rightarrow> bool"
  | DlRestart int
  | DlStorage bool

definition flowing :: "string \<Rightarrow> downloads \<Rightarrow> bool" where
  "flowing i s \<longleftrightarrow> i \<in> set (dl_streams s) \<and> map_of (dl_pipes s) i = Some False"

fun dl_step :: "url_parser \<Rightarrow> nat \<Rightarrow> dl_event \<Rightarrow> downloads \<Rightarrow> downloads" where
  "dl_step pu b (DlAdopt target has_body h out now) s =
     (case adopt_response pu target has_body h out now s of Some (_, s') \<Rightarrow> s' | None \<Rightarrow> s)"
| "dl_step pu b (DlChunk i chunk) s = (if flowing i s then stream_chunk b i chunk s else s)"
| "dl_step pu b (DlFlush i now) s = (if flowing i s then stream_flush i now s else s)"
| "dl_step pu b (DlSettled i failed now) s =
     (case map_of (dl_pipes s) i of
        Some flushed \<Rightarrow> if flushed \<or> failed then stream_settled i failed now s else s
      | None \<Rightarrow> s)"
| "dl_step pu b (DlCancel i now) s = snd (dl_cancel i now s)"
| "dl_step pu b (DlPause i now) s = snd (dl_pause i now s)"
| "dl_step pu b DlWire s = s\<lparr>dl_wired := True\<rparr>"
| "dl_step pu b (DlResume i) s = dl_resume i s"
| "dl_step pu b (DlRestored i) s = (if map_of (dl_pumps s) i = Some Restoring then resume_restored i s else s)"
| "dl_step pu b (DlAnswer i code cr has_body now) s =
     (if map_of (dl_pumps s) i = Some Fetching then resume_answer i code cr has_body now s else s)"
| "dl_step pu b (DlFetchFailed i err) s =
     (if map_of (dl_pumps s) i = Some Fetching then resume_fetch_failed i err s else s)"
| "dl_step pu b (DlPumpChunk i chunk) s = (if map_of (dl_pumps s) i = Some Pumping then pump_chunk b i chunk s else s)"
| "dl_step pu b (DlPumpEnd i now) s = (if map_of (dl_pumps s) i = Some Pumping then pump_done i now s else s)"
| "dl_step pu b (DlPumpFailed i now err) s = (if map_of (dl_pumps s) i = Some Pumping then pump_failed i now err s else s)"
| "dl_step pu b (DlAssemble i) s = (case dl_assemble i s of Inl s' \<Rightarrow> s' | Inr _ \<Rightarrow> s)"
| "dl_step pu b (DlAssembled i) s = (if i \<in> set (dl_assembling s) then snd (dl_assembled i s) else s)"
| "dl_step pu b (DlClear origins since) s = snd (clear_history pu origins since s)"
| "dl_step pu b (DlPersist ok) s = dl_persist pu ok s"
| "dl_step pu b (DlRestart now) s = dl_restart now s"
| "dl_step pu b (DlStorage on) s = s\<lparr>dl_io := on\<rparr>"

section \<open>Runs\<close>

definition dl_run :: "url_parser \<Rightarrow> nat \<Rightarrow> dl_event list \<Rightarrow> downloads \<Rightarrow> downloads" where
  "dl_run pu b evs s = fold (dl_step pu b) evs s"

text \<open>A condition on every event of a run, in the state it meets.\<close>

fun dl_along :: "url_parser \<Rightarrow> nat \<Rightarrow> (downloads \<Rightarrow> dl_event \<Rightarrow> bool) \<Rightarrow> dl_event list \<Rightarrow> downloads \<Rightarrow> bool" where
  "dl_along pu b P [] s \<longleftrightarrow> True"
| "dl_along pu b P (ev # evs) s \<longleftrightarrow> P s ev \<and> dl_along pu b P evs (dl_step pu b ev s)"

lemma dl_run_induct:
  assumes "dl_along pu b P evs s" "I s" "\<And>s ev. I s \<Longrightarrow> P s ev \<Longrightarrow> I (dl_step pu b ev s)"
  shows "I (dl_run pu b evs s)"
  using assms(1,2) by (induction evs arbitrary: s) (auto simp: dl_run_def assms(3))

section \<open>Basic facts\<close>

named_theorems dl_simps \<open>what the operations leave alone\<close>

lemma on_entry_simps [simp, dl_simps]:
  "dl_partials (on_entry i f s) = dl_partials s" "dl_stored (on_entry i f s) = dl_stored s"
  "dl_streams (on_entry i f s) = dl_streams s" "dl_pipes (on_entry i f s) = dl_pipes s"
  "dl_pumps (on_entry i f s) = dl_pumps s" "dl_saved (on_entry i f s) = dl_saved s"
  "dl_seq (on_entry i f s) = dl_seq s" "dl_io (on_entry i f s) = dl_io s"
  "dl_assembling (on_entry i f s) = dl_assembling s" "dl_wired (on_entry i f s) = dl_wired s"
  by (simp_all add: on_entry_def)

lemma forget_partial_simps [simp, dl_simps]:
  "dl_entries (forget_partial i s) = dl_entries s" "dl_partials (forget_partial i s) = AList.delete i (dl_partials s)"
  "dl_streams (forget_partial i s) = dl_streams s" "dl_pipes (forget_partial i s) = dl_pipes s"
  "dl_pumps (forget_partial i s) = dl_pumps s" "dl_saved (forget_partial i s) = dl_saved s"
  "dl_seq (forget_partial i s) = dl_seq s" "dl_io (forget_partial i s) = dl_io s"
  "dl_assembling (forget_partial i s) = dl_assembling s" "dl_wired (forget_partial i s) = dl_wired s"
  by (simp_all add: forget_partial_def)

lemma persist_partial_simps [simp, dl_simps]:
  "dl_entries (persist_partial i s) = dl_entries s" "dl_partials (persist_partial i s) = dl_partials s"
  "dl_streams (persist_partial i s) = dl_streams s" "dl_pipes (persist_partial i s) = dl_pipes s"
  "dl_pumps (persist_partial i s) = dl_pumps s" "dl_saved (persist_partial i s) = dl_saved s"
  "dl_seq (persist_partial i s) = dl_seq s" "dl_io (persist_partial i s) = dl_io s"
  "dl_assembling (persist_partial i s) = dl_assembling s"
  by (simp_all add: persist_partial_def split: option.splits)

lemma end_entry_simps [simp, dl_simps]:
  "dl_partials (end_entry i st now err s) = dl_partials s" "dl_stored (end_entry i st now err s) = dl_stored s"
  by (simp_all add: end_entry_def)

lemma set_pump_simps [simp, dl_simps]:
  "dl_entries (set_pump i ph s) = dl_entries s" "dl_partials (set_pump i ph s) = dl_partials s"
  "dl_entries (end_pump i s) = dl_entries s" "dl_partials (end_pump i s) = dl_partials s"
  "dl_entries (sever_stream i s) = dl_entries s" "dl_partials (sever_stream i s) = dl_partials s"
  by (simp_all add: set_pump_def end_pump_def sever_stream_def)

lemma drop_buffer_partials [simp, dl_simps]: "dl_partials (drop_buffer i s) = AList.delete i (dl_partials s)"
  by (simp add: drop_buffer_def)

section \<open>The budget\<close>

lemma sum_delete: "omap_wf m \<Longrightarrow> map_of m i = Some p \<Longrightarrow>
  sum_list (map (f \<circ> snd) m) = (f p :: nat) + sum_list (map (f \<circ> snd) (AList.delete i m))"
proof (induction m)
  case (Cons kv m)
  then show ?case
    by (cases kv) (auto simp: omap_wf_def split: if_splits)
qed simp

lemma sum_delete_le: "sum_list (map (f \<circ> snd) (AList.delete i m)) \<le> (sum_list (map (f \<circ> snd) m) :: nat)"
  by (induction m) (auto simp: AList.delete_eq)

lemma sum_update: "omap_wf m \<Longrightarrow>
  sum_list (map (f \<circ> snd) (AList.update i p m)) = (f p :: nat) + sum_list (map (f \<circ> snd) (AList.delete i m))"
proof (induction m)
  case (Cons kv m)
  then show ?case
    by (cases kv) (auto simp: omap_wf_def split: if_splits)
qed simp

text \<open>What the budget theorem keeps: the byte counts are the counts of the bytes.\<close>

definition counts_ok :: "(string, dl_partial) omap \<Rightarrow> bool" where
  "counts_ok m \<longleftrightarrow> omap_wf m \<and> (\<forall>(i, p) \<in> set m. pa_n p = sum_list (map length (pa_chunks p)))"

lemma counts_ok_delete [simp]: "counts_ok m \<Longrightarrow> counts_ok (AList.delete i m)"
  using set_delete_subset [of i m] by (auto simp: counts_ok_def)

lemma counts_ok_update:
  "counts_ok m \<Longrightarrow> pa_n p = sum_list (map length (pa_chunks p)) \<Longrightarrow> counts_ok (AList.update i p m)"
  using set_update_subset [of i p m] by (fastforce simp: counts_ok_def)

lemma counts_ok_lookup: "counts_ok m \<Longrightarrow> map_of m i = Some p \<Longrightarrow> pa_n p = sum_list (map length (pa_chunks p))"
  by (auto simp: counts_ok_def dest: map_of_SomeD)

lemma drop_victims_partials:
  assumes "drop_victims b n vs s = (r, s')" "i \<notin> set vs" "counts_ok (dl_partials s)"
  shows "(r \<longrightarrow> buffered_bytes s' + n \<le> b) \<and> buffered_bytes s' \<le> buffered_bytes s
    \<and> map_of (dl_partials s') i = map_of (dl_partials s) i \<and> counts_ok (dl_partials s')"
  using assms
proof (induction vs arbitrary: s)
  case (Cons v vs)
  have le: "buffered_bytes (drop_buffer v s) \<le> buffered_bytes s"
    using sum_delete_le [of pa_n v "dl_partials s"] by (simp add: buffered_bytes_def)
  from Cons.prems Cons.IH [of "drop_buffer v s"] le show ?case
    by (auto simp: Let_def split: if_splits)
qed auto

lemma admit_bytes_partials:
  assumes "admit_bytes b i n s = (r, s')" "counts_ok (dl_partials s)"
  shows "(r \<longrightarrow> buffered_bytes s' + n \<le> b) \<and> buffered_bytes s' \<le> buffered_bytes s
    \<and> map_of (dl_partials s') i = map_of (dl_partials s) i \<and> counts_ok (dl_partials s')"
  using assms drop_victims_partials [OF _ buffer_victims_others]
  by (auto simp: admit_bytes_def split: if_splits)

definition in_budget :: "nat \<Rightarrow> downloads \<Rightarrow> downloads \<Rightarrow> bool" where
  "in_budget b s s' \<longleftrightarrow> counts_ok (dl_partials s') \<and> buffered_bytes s' \<le> max b (buffered_bytes s)"

lemma in_budget_buffer_chunk:
  assumes "counts_ok (dl_partials s)"
  shows "in_budget b s (buffer_chunk b i chunk s)"
proof -
  have drop: "in_budget b s (drop_buffer i s')" if "buffered_bytes s' \<le> buffered_bytes s" "counts_ok (dl_partials s')" for s'
    using that sum_delete_le [of pa_n i "dl_partials s'"] by (simp add: in_budget_def buffered_bytes_def)
  have add: "in_budget b s (add_chunk i chunk p s')"
    if "admit_bytes b i (length chunk) s = (True, s')" "map_of (dl_partials s) i = Some p" for p s'
  proof -
    note f = admit_bytes_partials [OF that(1) assms]
    then have "buffered_bytes (add_chunk i chunk p s') = buffered_bytes s' + length chunk"
      using sum_update [of "dl_partials s'" pa_n i] sum_delete [of "dl_partials s'" i p pa_n] that(2)
      by (simp add: buffered_bytes_def add_chunk_def counts_ok_def)
    moreover have "counts_ok (dl_partials (add_chunk i chunk p s'))"
      using f counts_ok_lookup [OF assms that(2)] by (simp add: add_chunk_def counts_ok_update)
    ultimately show ?thesis using f by (simp add: in_budget_def max.coboundedI1)
  qed
  have "in_budget b s s" using assms by (simp add: in_budget_def)
  with drop [of s] add assms show ?thesis
    by (auto simp: buffer_chunk_def split: option.splits prod.splits bool.splits
        dest!: admit_bytes_partials [OF _ assms] intro!: drop)
qed

lemma in_budget_same: "counts_ok (dl_partials s) \<Longrightarrow> dl_partials s' = dl_partials s \<Longrightarrow> in_budget b s s'"
  by (simp add: in_budget_def buffered_bytes_def)

lemma in_budget_deleted:
  "counts_ok (dl_partials s) \<Longrightarrow> dl_partials s' = AList.delete i (dl_partials s) \<Longrightarrow> in_budget b s s'"
  using sum_delete_le [of pa_n i "dl_partials s"] by (simp add: in_budget_def buffered_bytes_def max.coboundedI2)

lemma in_budget_emptied:
  "counts_ok (dl_partials s) \<Longrightarrow> dl_partials s' = AList.update i \<lparr>pa_chunks = [], pa_n = 0\<rparr> (dl_partials s) \<Longrightarrow> in_budget b s s'"
  using sum_delete_le [of pa_n i "dl_partials s"] sum_update [of "dl_partials s" pa_n i "\<lparr>pa_chunks = [], pa_n = 0\<rparr>"]
  by (simp add: in_budget_def buffered_bytes_def max.coboundedI2 counts_ok_update) (simp add: counts_ok_def)

lemma in_budget_trans: "in_budget b s s' \<Longrightarrow> in_budget b s' s'' \<Longrightarrow> in_budget b s s''"
  by (auto simp: in_budget_def)

lemma in_budget_chunk:
  "counts_ok (dl_partials s) \<Longrightarrow> in_budget b s (buffer_chunk b i chunk (on_entry j f s))"
  using in_budget_buffer_chunk [of "on_entry j f s" b i chunk] by (simp add: in_budget_def buffered_bytes_def)

lemma fold_forget_partials:
  "dl_partials (fold (forget_partial \<circ> dl_id) es s) = fold (\<lambda>e. AList.delete (dl_id e)) es (dl_partials s)"
  by (induction es arbitrary: s) auto

lemma counts_ok_fold_delete:
  "counts_ok m \<Longrightarrow> counts_ok (fold (\<lambda>e. AList.delete (dl_id e)) es m)
    \<and> sum_list (map (pa_n \<circ> snd) (fold (\<lambda>e. AList.delete (dl_id e)) es m)) \<le> sum_list (map (pa_n \<circ> snd) m)"
proof (induction es arbitrary: m)
  case (Cons e es)
  from Cons.IH [of "AList.delete (dl_id e) m"] Cons.prems sum_delete_le [of pa_n "dl_id e" m]
  show ?case by (simp add: comp_def)
qed simp

lemma in_budget_clear: "counts_ok (dl_partials s) \<Longrightarrow> in_budget b s (snd (clear_history pu origins since s))"
  using counts_ok_fold_delete [of "dl_partials s"]
  by (auto simp: clear_history_def Let_def in_budget_def buffered_bytes_def fold_forget_partials max.coboundedI2)

lemma evict_idle_partials:
  "dl_partials (evict_idle s) = dl_partials s \<or> (\<exists>i. dl_partials (evict_idle s) = AList.delete i (dl_partials s))"
  by (auto simp: evict_idle_def split: option.splits)

lemma in_budget_evict:
  assumes "counts_ok (dl_partials s)" shows "in_budget b s (evict_idle s)"
  using evict_idle_partials [of s] in_budget_same [OF assms] in_budget_deleted [OF assms] by blast

lemma in_budget_begin:
  "counts_ok (dl_partials s) \<Longrightarrow> in_budget b s (snd (dl_begin pu source h mime len now s))"
  using in_budget_evict [of "s\<lparr>dl_seq := Suc (dl_seq s), dl_entries := es\<rparr>" b for es]
  by (auto simp: dl_begin_def Let_def in_budget_def buffered_bytes_def)

lemma in_budget_wrap: "counts_ok (dl_partials s) \<Longrightarrow> in_budget b s (dl_wrap i s)"
  by (cases "\<exists>e. find_entry i s = Some e \<and> dl_resumable e")
    (auto simp: dl_wrap_def intro: in_budget_same in_budget_emptied split: option.splits)

lemma in_budget_adopt:
  assumes "counts_ok (dl_partials s)" "adopt_response pu target has_body h out now s = Some (i, s')"
  shows "in_budget b s s'"
proof -
  obtain mime len s1 where s1: "dl_begin pu target h mime len now s = (i, s1)" "s' = dl_wrap i s1"
    using assms(2) by (auto simp: adopt_response_def Let_def split: if_splits prod.splits)
  with in_budget_begin [OF assms(1), of b pu target h mime len now] have "in_budget b s s1" by simp
  then show ?thesis using in_budget_wrap [of s1 b i] s1(2) in_budget_trans by (auto simp: in_budget_def)
qed

lemma in_budget_cancel: "counts_ok (dl_partials s) \<Longrightarrow> in_budget b s (snd (dl_cancel i now s))"
  by (cases "entry_is i DlActive s") (auto simp: dl_cancel_def Let_def intro: in_budget_same in_budget_deleted)

lemma pause_partials [simp]: "dl_partials (snd (dl_pause i now s)) = dl_partials s"
  by (simp add: dl_pause_def Let_def)

lemma in_budget_flush: "counts_ok (dl_partials s) \<Longrightarrow> in_budget b s (stream_flush i now s)"
  by (cases "entry_is i DlActive (s\<lparr>dl_pipes := AList.update i True (dl_pipes s)\<rparr>)")
    (auto simp: stream_flush_def Let_def intro: in_budget_same in_budget_deleted)

lemma settled_partials [simp]: "dl_partials (stream_settled i failed now s) = dl_partials s"
  by (simp add: stream_settled_def Let_def split: option.splits)

lemma resume_partials [simp]: "dl_partials (dl_resume i s) = dl_partials s"
  by (simp add: dl_resume_def resume_send_def)

lemma pump_end_partials [simp]:
  "dl_partials (pump_done i now s) = dl_partials s" "dl_partials (pump_failed i now err s) = dl_partials s"
  "dl_partials (resume_fetch_failed i err s) = dl_partials s" "dl_partials (pump_resume i has_body now s) = dl_partials s"
  by (simp_all add: pump_done_def pump_failed_def resume_fetch_failed_def pump_resume_def)

lemma in_budget_answer: "counts_ok (dl_partials s) \<Longrightarrow> in_budget b s (resume_answer i code cr has_body now s)"
  by (auto simp: resume_answer_def Let_def clear_buffer_def intro: in_budget_same in_budget_deleted in_budget_emptied)

lemma in_budget_restored:
  "counts_ok (dl_partials s) \<Longrightarrow> load_partial i s = None \<Longrightarrow> in_budget b s (resume_restored i s)"
  by (auto simp: resume_restored_def resume_send_def intro: in_budget_emptied)

text \<open>The event takes a stored partial into memory.\<close>

definition reads_store :: "downloads \<Rightarrow> dl_event \<Rightarrow> bool" where
  "reads_store s ev =
     (case ev of DlRestored i \<Rightarrow> load_partial i s \<noteq> None | DlAssembled i \<Rightarrow> load_partial i s \<noteq> None | _ \<Rightarrow> False)"

lemma in_budget_step:
  assumes "counts_ok (dl_partials s)" "\<not> reads_store s ev"
  shows "in_budget b s (dl_step pu b ev s)"
proof -
  note same = in_budget_same [OF assms(1)]
  show ?thesis
  proof (cases ev)
    case (DlAdopt target has_body h out now)
    then show ?thesis using in_budget_adopt [OF assms(1)] same by (auto split: option.splits)
  next
    case (DlAssembled i)
    then show ?thesis using assms(2) same by (auto simp: dl_assembled_def reads_store_def Let_def load_partial_def split: option.splits)
  next
    case (DlRestart now)
    then show ?thesis
      by (auto simp: dl_restart_def dl_load_def no_downloads_def in_budget_def buffered_bytes_def counts_ok_def Let_def)
  next
    case (DlAssemble i)
    then show ?thesis using same by (auto simp: dl_assemble_def split: option.splits sum.splits)
  qed (use assms(2) in \<open>auto intro!: same in_budget_chunk [OF assms(1)] in_budget_flush [OF assms(1)] in_budget_cancel [OF assms(1)]
      in_budget_answer [OF assms(1)] in_budget_restored [OF assms(1)] in_budget_clear [OF assms(1)]
      simp: stream_chunk_def pump_chunk_def reads_store_def dl_persist_def Let_def split: option.splits\<close>)
qed

text \<open>Whatever downloads, pauses, resumes and restarts interleave, the partial bytes buffered across all entries never exceed the budget, as long as no stored partial is read back.\<close>

theorem buffer_within_budget:
  assumes "dl_along pu b (\<lambda>s ev. \<not> reads_store s ev) evs no_downloads"
  shows "buffered_bytes (dl_run pu b evs no_downloads) \<le> b"
proof -
  let ?I = "\<lambda>s. counts_ok (dl_partials s) \<and> buffered_bytes s \<le> b"
  have "?I (dl_run pu b evs no_downloads)"
  proof (rule dl_run_induct [OF assms, where I = ?I])
    show "?I no_downloads" by (simp add: no_downloads_def counts_ok_def buffered_bytes_def)
  next
    fix s ev
    assume s: "?I s" and ev: "\<not> reads_store s ev"
    then have "in_budget b s (dl_step pu b ev s)" using in_budget_step by blast
    with s show "?I (dl_step pu b ev s)" by (simp add: in_budget_def)
  qed
  then show ?thesis by simp
qed

section \<open>Artifacts\<close>

text \<open>
  \<open>F\<close> gives the file behind a source. The invariant of every run: what is buffered or stored for an
  entry is the beginning of its file, and what is buffered is exactly what the entry counts.
\<close>

definition entry_ids :: "downloads \<Rightarrow> string set" where
  "entry_ids s = dl_id ` set (dl_entries s)"

definition saved_entries :: "downloads \<Rightarrow> dl_entry list" where
  "saved_entries s = concat (map (\<lambda>(k, rec). case rec of JArr es \<Rightarrow> map record_entry (filter is_valid_entry es) | _ \<Rightarrow> []) (dl_saved s))"

definition dl_names :: "downloads \<Rightarrow> string set" where
  "dl_names s = entry_ids s \<union> set (dl_streams s) \<union> dom (map_of (dl_pumps s)) \<union> dom (map_of (dl_partials s))
     \<union> dom (map_of (dl_stored s)) \<union> dl_id ` set (saved_entries s)"

definition prefix_of :: "(string \<Rightarrow> byte list) \<Rightarrow> dl_entry \<Rightarrow> dl_partial \<Rightarrow> bool" where
  "prefix_of F e p \<longleftrightarrow> concat (pa_chunks p) = take (pa_n p) (F (dl_source e))"

definition ring_ok :: "downloads \<Rightarrow> bool" where
  "ring_ok s \<longleftrightarrow> distinct (map dl_id (dl_entries s)) \<and> length (dl_entries s) \<le> DL_RING
     \<and> (\<forall>n. ''dl'' @ nat_digits n \<in> dl_names s \<longrightarrow> n \<le> dl_seq s)"

definition saved_ok :: "downloads \<Rightarrow> bool" where
  "saved_ok s \<longleftrightarrow> omap_wf (dl_saved s) \<and> distinct (map dl_id (saved_entries s))
     \<and> length (saved_entries s) \<le> DL_RING
     \<and> (\<forall>e' \<in> set (saved_entries s). \<forall>e \<in> set (dl_entries s). dl_id e = dl_id e' \<longrightarrow> dl_source e = dl_source e')"

definition entry_ok :: "(string \<Rightarrow> byte list) \<Rightarrow> downloads \<Rightarrow> dl_entry \<Rightarrow> bool" where
  "entry_ok F s e \<longleftrightarrow>
     (\<forall>p. map_of (dl_partials s) (dl_id e) = Some p \<longrightarrow>
        prefix_of F e p \<and> dl_received e = int (pa_n p) \<and> dl_resumable e) \<and>
     (\<forall>p. map_of (dl_stored s) (dl_id e) = Some p \<longrightarrow> prefix_of F e p) \<and>
     (map_of (dl_pumps s) (dl_id e) = Some Restoring \<longrightarrow>
        dl_status e = DlPaused \<and> dl_resumable e \<and> map_of (dl_partials s) (dl_id e) = None)"

definition buffers_ok :: "(string \<Rightarrow> byte list) \<Rightarrow> downloads \<Rightarrow> bool" where
  "buffers_ok F s \<longleftrightarrow>
     (\<forall>e \<in> set (dl_entries s). entry_ok F s e) \<and>
     dom (map_of (dl_stored s)) \<subseteq> entry_ids s \<and>
     (\<forall>i p. map_of (dl_partials s) i = Some p \<longrightarrow> i \<notin> entry_ids s \<longrightarrow> pa_n p = 0)"

definition dl_inv :: "(string \<Rightarrow> byte list) \<Rightarrow> downloads \<Rightarrow> bool" where
  "dl_inv F s \<longleftrightarrow> dl_io s \<and> ring_ok s \<and> saved_ok s \<and> buffers_ok F s"

lemma change_entry_map:
  "distinct (map dl_id es) \<Longrightarrow> change_entry i f es = map (\<lambda>e. if dl_id e = i then f e else e) es"
proof (induction es)
  case (Cons e es)
  have "map (\<lambda>e. if dl_id e = i then f e else e) es = es" if "i \<notin> dl_id ` set es"
    using that by (induction es) auto
  with Cons show ?case by auto
qed simp

lemma find_entry_iff:
  "distinct (map dl_id (dl_entries s)) \<Longrightarrow> find_entry i s = Some e \<longleftrightarrow> e \<in> set (dl_entries s) \<and> dl_id e = i"
proof -
  have "find (\<lambda>e. dl_id e = i) es = Some e \<longleftrightarrow> e \<in> set es \<and> dl_id e = i" if "distinct (map dl_id es)" for es
    using that by (induction es) auto
  then show ?thesis if "distinct (map dl_id (dl_entries s))" using that by (simp add: find_entry_def)
qed

lemma find_entry_None: "find_entry i s = None \<longleftrightarrow> i \<notin> entry_ids s"
  by (auto simp: find_entry_def entry_ids_def find_None_iff)

lemma same_id:
  "distinct (map dl_id es) \<Longrightarrow> e \<in> set es \<Longrightarrow> e' \<in> set es \<Longrightarrow> dl_id e = dl_id e' \<Longrightarrow> e = e'"
  by (auto simp: distinct_map inj_on_def)

lemma entry_is_iff:
  "distinct (map dl_id (dl_entries s)) \<Longrightarrow>
    entry_is i st s \<longleftrightarrow> (\<exists>e \<in> set (dl_entries s). dl_id e = i \<and> dl_status e = st)"
  by (auto simp: entry_is_def find_entry_iff find_entry_None entry_ids_def split: option.splits dest: same_id)

lemma entries_on_entry:
  "distinct (map dl_id (dl_entries s)) \<Longrightarrow>
    dl_entries (on_entry i f s) = map (\<lambda>e. if dl_id e = i then f e else e) (dl_entries s)"
  by (simp add: on_entry_def change_entry_map)

lemma map_id_on: "\<forall>e. dl_id (f e) = dl_id e \<Longrightarrow>
  map dl_id (map (\<lambda>e. if dl_id e = i then f e else e) es) = map dl_id es"
  by (induction es) auto

lemma saved_entries_cong: "dl_saved s' = dl_saved s \<Longrightarrow> saved_entries s' = saved_entries s"
  by (simp add: saved_entries_def)

text \<open>Changing one entry.\<close>

lemma inv_on_entry:
  assumes "dl_inv F s" "\<forall>e. dl_id (f e) = dl_id e \<and> dl_source (f e) = dl_source e"
    and "\<And>e. e \<in> set (dl_entries s) \<Longrightarrow> dl_id e = i \<Longrightarrow> entry_ok F s (f e)"
  shows "dl_inv F (on_entry i f s)"
proof -
  have d: "distinct (map dl_id (dl_entries s))" using assms(1) by (simp add: dl_inv_def ring_ok_def)
  note es = entries_on_entry [OF d, of i f]
  have f: "\<forall>e. dl_id (f e) = dl_id e" using assms(2) by simp
  have m: "map dl_id (dl_entries (on_entry i f s)) = map dl_id (dl_entries s)"
    unfolding es by (rule map_id_on [OF f])
  have ids: "entry_ids (on_entry i f s) = entry_ids s"
    using arg_cong [OF m, of set] by (simp only: entry_ids_def list.set_map)
  have sv: "saved_entries (on_entry i f s) = saved_entries s" by (simp add: saved_entries_def)
  have ok: "entry_ok F (on_entry i f s) e = entry_ok F s e" for e by (simp add: entry_ok_def)
  have "ring_ok (on_entry i f s)"
    using assms(1) unfolding dl_inv_def ring_ok_def dl_names_def ids sv m by (simp add: es)
  moreover have "saved_ok (on_entry i f s)"
    using assms(1,2) by (auto simp: dl_inv_def saved_ok_def sv es)
  moreover have "buffers_ok F (on_entry i f s)"
    using assms(1,3) by (auto simp: dl_inv_def buffers_ok_def ids es ok)
  ultimately show ?thesis using assms(1) by (simp add: dl_inv_def)
qed

text \<open>Giving something up: entries with all that is held for them, buffers, stored partials, streams, pumps.\<close>

definition gives_up :: "downloads \<Rightarrow> downloads \<Rightarrow> bool" where
  "gives_up s s' \<longleftrightarrow>
     (\<exists>P. dl_entries s' = filter P (dl_entries s) \<and>
       (\<forall>e \<in> set (dl_entries s). \<not> P e \<longrightarrow> map_of (dl_partials s') (dl_id e) = None \<and> map_of (dl_stored s') (dl_id e) = None)) \<and>
     map_of (dl_partials s') \<subseteq>\<^sub>m map_of (dl_partials s) \<and> map_of (dl_stored s') \<subseteq>\<^sub>m map_of (dl_stored s) \<and>
     set (dl_streams s') \<subseteq> set (dl_streams s) \<and> dom (map_of (dl_pumps s')) \<subseteq> dom (map_of (dl_pumps s)) \<union> entry_ids s \<and>
     (\<forall>i. map_of (dl_pumps s') i = Some Restoring \<longrightarrow> map_of (dl_pumps s) i = Some Restoring) \<and>
     dl_saved s' = dl_saved s \<and> dl_seq s' = dl_seq s \<and> dl_io s' = dl_io s"

lemma distinct_filter_ids: "distinct (map f xs) \<Longrightarrow> distinct (map f (filter P xs))"
  by (induction xs) auto

lemma inv_gives_up:
  assumes "dl_inv F s" "gives_up s s'"
  shows "dl_inv F s'"
proof -
  obtain P where P: "dl_entries s' = filter P (dl_entries s)"
    "\<And>e. e \<in> set (dl_entries s) \<Longrightarrow> \<not> P e \<Longrightarrow> map_of (dl_partials s') (dl_id e) = None \<and> map_of (dl_stored s') (dl_id e) = None"
    using assms(2) by (auto simp: gives_up_def)
  have pm: "map_of (dl_partials s) i = Some p" if "map_of (dl_partials s') i = Some p" for i p
    using assms(2) that by (auto simp: gives_up_def map_le_def dom_def)
  have sm: "map_of (dl_stored s) i = Some p" if "map_of (dl_stored s') i = Some p" for i p
    using assms(2) that by (auto simp: gives_up_def map_le_def dom_def)
  have sv: "saved_entries s' = saved_entries s" using assms(2) by (simp add: gives_up_def saved_entries_def)
  have ids: "entry_ids s' \<subseteq> entry_ids s" by (auto simp: entry_ids_def P(1))
  have gone: "map_of (dl_partials s') i = None \<and> map_of (dl_stored s') i = None" if "i \<in> entry_ids s" "i \<notin> entry_ids s'" for i
    using that P by (auto simp: entry_ids_def)
  have names: "dl_names s' \<subseteq> dl_names s"
    using assms(2) ids pm sm unfolding dl_names_def sv gives_up_def by blast
  have "ring_ok s'"
    using assms(1) names assms(2) length_filter_le [of P "dl_entries s"]
    by (auto simp: dl_inv_def ring_ok_def P(1) distinct_filter_ids gives_up_def simp del: length_filter_le intro: order_trans)
  moreover have "saved_ok s'"
    using assms by (auto simp: dl_inv_def saved_ok_def sv P(1) gives_up_def)
  moreover have "entry_ok F s' e" if "e \<in> set (dl_entries s')" for e
  proof -
    have "entry_ok F s e" using assms(1) that P(1) by (simp add: dl_inv_def buffers_ok_def)
    moreover have "map_of (dl_pumps s) (dl_id e) = Some Restoring" if "map_of (dl_pumps s') (dl_id e) = Some Restoring"
      using assms(2) that by (simp add: gives_up_def)
    moreover have "map_of (dl_partials s') (dl_id e) = None" if "map_of (dl_partials s) (dl_id e) = None"
      using pm that by (metis not_Some_eq)
    ultimately show ?thesis using pm sm unfolding entry_ok_def by blast
  qed
  moreover have "dom (map_of (dl_stored s')) \<subseteq> entry_ids s'"
    using assms(1) sm gone by (fastforce simp: dl_inv_def buffers_ok_def)
  moreover have "pa_n p = 0" if "map_of (dl_partials s') i = Some p" "i \<notin> entry_ids s'" for i p
  proof -
    have "i \<notin> entry_ids s" using gone that by force
    with pm [OF that(1)] assms(1) show ?thesis by (simp add: dl_inv_def buffers_ok_def)
  qed
  ultimately show ?thesis using assms by (auto simp: dl_inv_def buffers_ok_def gives_up_def)
qed

lemma gives_upI:
  assumes "dl_entries s' = dl_entries s" "map_of (dl_partials s') \<subseteq>\<^sub>m map_of (dl_partials s)"
    "map_of (dl_stored s') \<subseteq>\<^sub>m map_of (dl_stored s)" "set (dl_streams s') \<subseteq> set (dl_streams s)"
    "dom (map_of (dl_pumps s')) \<subseteq> dom (map_of (dl_pumps s)) \<union> entry_ids s"
    "\<And>i. map_of (dl_pumps s') i = Some Restoring \<Longrightarrow> map_of (dl_pumps s) i = Some Restoring"
    "dl_saved s' = dl_saved s" "dl_seq s' = dl_seq s" "dl_io s' = dl_io s"
  shows "gives_up s s'"
  unfolding gives_up_def
proof (intro conjI)
  show "\<exists>P. dl_entries s' = filter P (dl_entries s) \<and>
       (\<forall>e \<in> set (dl_entries s). \<not> P e \<longrightarrow> map_of (dl_partials s') (dl_id e) = None \<and> map_of (dl_stored s') (dl_id e) = None)"
    using assms(1) by (intro exI [of _ "\<lambda>_. True"]) simp
qed (use assms in auto)

lemma delete_le [simp]: "map_of (AList.delete i m) \<subseteq>\<^sub>m map_of m"
  by (auto simp: map_le_def)

lemma stored_forget: "map_of (dl_stored (forget_partial i s)) \<subseteq>\<^sub>m map_of (dl_stored s)"
  by (simp add: forget_partial_def)

lemma inv_forget: "dl_inv F s \<Longrightarrow> dl_inv F (forget_partial i s)"
  by (rule inv_gives_up) (auto intro!: gives_upI stored_forget)

lemma inv_sever: "dl_inv F s \<Longrightarrow> dl_inv F (sever_stream i s)"
  by (rule inv_gives_up) (auto intro!: gives_upI simp: sever_stream_def dest: subsetD [OF set_remove1_subset])

lemma inv_pipes: "dl_inv F s \<Longrightarrow> set xs \<subseteq> set (dl_streams s) \<Longrightarrow> dl_inv F (s\<lparr>dl_streams := xs, dl_pipes := ps\<rparr>)"
  by (rule inv_gives_up) (auto intro!: gives_upI)

lemma inv_end_pump: "dl_inv F s \<Longrightarrow> dl_inv F (end_pump i s)"
  by (rule inv_gives_up) (auto intro!: gives_upI simp: end_pump_def split: if_splits)

lemma inv_set_pump:
  "dl_inv F s \<Longrightarrow> ph \<noteq> Restoring \<Longrightarrow> omap_has (dl_pumps s) i \<or> i \<in> entry_ids s \<Longrightarrow> dl_inv F (set_pump i ph s)"
  by (rule inv_gives_up) (auto intro!: gives_upI simp: set_pump_def omap_has_def split: if_splits)

text \<open>An update that leaves received count, resumability and the status of a restoring entry alone.\<close>

lemma inv_mark:
  assumes "dl_inv F s" "\<And>e. dl_id (f e) = dl_id e \<and> dl_source (f e) = dl_source e \<and> dl_received (f e) = dl_received e
      \<and> dl_resumable (f e) = dl_resumable e"
    and "map_of (dl_pumps s) i \<noteq> Some Restoring \<or> (\<forall>e. dl_status (f e) = dl_status e)"
  shows "dl_inv F (on_entry i f s)"
proof (rule inv_on_entry [OF assms(1)])
  show "entry_ok F s (f e)" if "e \<in> set (dl_entries s)" "dl_id e = i" for e
  proof -
    have "entry_ok F s e" using assms(1) that(1) by (simp add: dl_inv_def buffers_ok_def)
    then show ?thesis using assms(2,3) that(2) by (auto simp: entry_ok_def prefix_of_def)
  qed
qed (use assms(2) in simp)

lemma inv_end_entry:
  "dl_inv F s \<Longrightarrow> map_of (dl_pumps s) i \<noteq> Some Restoring \<Longrightarrow> dl_inv F (end_entry i st now err s)"
  unfolding end_entry_def by (rule inv_mark) auto

text \<open>What holds no buffer may lose its resumability.\<close>

lemma inv_unresumable:
  assumes "dl_inv F s" "map_of (dl_partials s) i = None" "map_of (dl_pumps s) i \<noteq> Some Restoring"
  shows "dl_inv F (on_entry i (\<lambda>e. e\<lparr>dl_resumable := False\<rparr>) s)"
proof (rule inv_on_entry [OF assms(1)])
  show "entry_ok F s (e\<lparr>dl_resumable := False\<rparr>)" if "e \<in> set (dl_entries s)" "dl_id e = i" for e
  proof -
    have "entry_ok F s e" using assms(1) that(1) by (simp add: dl_inv_def buffers_ok_def)
    then show ?thesis using assms(2,3) that(2) by (auto simp: entry_ok_def prefix_of_def)
  qed
qed simp

lemma drop_buffer_alt: "drop_buffer i s = on_entry i (\<lambda>e. e\<lparr>dl_resumable := False\<rparr>) (forget_partial i s)"
  by (simp add: drop_buffer_def forget_partial_def on_entry_def)

lemma forget_None: "map_of (dl_partials (forget_partial i s)) i = None"
  by simp

lemma inv_drop_buffer:
  "dl_inv F s \<Longrightarrow> map_of (dl_pumps s) i \<noteq> Some Restoring \<Longrightarrow> dl_inv F (drop_buffer i s)"
  unfolding drop_buffer_alt by (rule inv_unresumable) (simp_all add: inv_forget)

lemma drop_buffer_simps [simp, dl_simps]:
  "dl_pumps (drop_buffer i s) = dl_pumps s"
  by (simp add: drop_buffer_def)

lemma inv_drop_victims:
  "dl_inv F s \<Longrightarrow> \<forall>v \<in> set vs. map_of (dl_pumps s) v \<noteq> Some Restoring \<Longrightarrow> dl_inv F (snd (drop_victims b n vs s))"
proof (induction vs arbitrary: s)
  case (Cons v vs)
  then have "dl_inv F (drop_buffer v s)" by (simp add: inv_drop_buffer)
  with Cons show ?case by (simp add: Let_def)
qed simp

lemma victims_not_restoring:
  assumes "dl_inv F s" "v \<in> set (buffer_victims i s)" shows "map_of (dl_pumps s) v \<noteq> Some Restoring"
  using assms by (auto simp: buffer_victims_def dl_inv_def buffers_ok_def entry_ok_def omap_has_def)

lemma inv_admit: "dl_inv F s \<Longrightarrow> dl_inv F (snd (admit_bytes b i n s))"
  using victims_not_restoring by (auto simp: admit_bytes_def intro!: inv_drop_victims)

section \<open>Counting and buffering commute\<close>

lemma change_entry_commute:
  "i \<noteq> j \<Longrightarrow> \<forall>e. dl_id (f e) = dl_id e \<Longrightarrow> \<forall>e. dl_id (g e) = dl_id e \<Longrightarrow>
    change_entry i f (change_entry j g es) = change_entry j g (change_entry i f es)"
  by (induction es) auto

lemma drop_buffer_commute:
  "i \<noteq> v \<Longrightarrow> \<forall>e. dl_id (f e) = dl_id e \<Longrightarrow> drop_buffer v (on_entry i f s) = on_entry i f (drop_buffer v s)"
  by (simp add: drop_buffer_def forget_partial_def on_entry_def change_entry_commute)

lemma buffered_on_entry [simp]: "buffered_bytes (on_entry i f s) = buffered_bytes s"
  by (simp add: buffered_bytes_def)

lemma drop_victims_commute:
  assumes "i \<notin> set vs" "\<forall>e. dl_id (f e) = dl_id e"
  shows "drop_victims b n vs (on_entry i f s) = map_prod id (on_entry i f) (drop_victims b n vs s)"
  using assms by (induction vs arbitrary: s) (auto simp: drop_buffer_commute Let_def)

lemma filter_change_entry:
  "\<forall>e. dl_id (f e) = dl_id e \<Longrightarrow>
    filter (\<lambda>e. dl_id e \<noteq> i \<and> Q (dl_id e)) (change_entry i f es) = filter (\<lambda>e. dl_id e \<noteq> i \<and> Q (dl_id e)) es"
  by (induction es) auto

lemma admit_commute:
  assumes "\<forall>e. dl_id (f e) = dl_id e"
  shows "admit_bytes b i n (on_entry i f s) = map_prod id (on_entry i f) (admit_bytes b i n s)"
proof -
  have "buffer_victims i (on_entry i f s) = buffer_victims i s"
    using filter_change_entry [OF assms, of i "omap_has (dl_partials s)"] by (simp add: buffer_victims_def) (simp add: on_entry_def)
  then show ?thesis using drop_victims_commute [OF buffer_victims_others assms] by (simp add: admit_bytes_def)
qed

lemma drop_victims_pumps [simp]: "dl_pumps (snd (drop_victims b n vs s)) = dl_pumps s"
  by (induction vs arbitrary: s) (auto simp: Let_def)

lemma admit_pumps [simp]: "dl_pumps (snd (admit_bytes b i n s)) = dl_pumps s"
  by (simp add: admit_bytes_def)

lemma drop_victims_map:
  "i \<notin> set vs \<Longrightarrow> map_of (dl_partials (snd (drop_victims b n vs s))) i = map_of (dl_partials s) i"
  by (induction vs arbitrary: s) (auto simp: Let_def)

lemma admit_map [simp]: "map_of (dl_partials (snd (admit_bytes b i n s))) i = map_of (dl_partials s) i"
  using drop_victims_map [OF buffer_victims_others] by (simp add: admit_bytes_def)

lemma find_on_entry:
  "\<forall>e. dl_id (f e) = dl_id e \<Longrightarrow> find_entry i (on_entry i f s) = map_option f (find_entry i s)"
proof -
  assume f: "\<forall>e. dl_id (f e) = dl_id e"
  have "find (\<lambda>e. dl_id e = i) (change_entry i f es) = map_option f (find (\<lambda>e. dl_id e = i) es)" for es
    using f by (induction es) auto
  then show ?thesis by (simp add: find_entry_def on_entry_def)
qed

abbreviation count_bytes_of :: "byte list \<Rightarrow> dl_entry \<Rightarrow> dl_entry" where
  "count_bytes_of chunk \<equiv> \<lambda>e. e\<lparr>dl_received := dl_received e + int (length chunk)\<rparr>"

lemma inv_count_unbuffered:
  assumes "dl_inv F s" "map_of (dl_partials s) i = None" "\<forall>e. dl_id (f e) = dl_id e \<and> dl_source (f e) = dl_source e
    \<and> dl_status (f e) = dl_status e \<and> dl_resumable (f e) = dl_resumable e"
  shows "dl_inv F (on_entry i f s)"
proof (rule inv_on_entry [OF assms(1)])
  show "entry_ok F s (f e)" if "e \<in> set (dl_entries s)" "dl_id e = i" for e
  proof -
    have "entry_ok F s e" using assms(1) that(1) by (simp add: dl_inv_def buffers_ok_def)
    then show ?thesis using assms(2,3) that(2) by (auto simp: entry_ok_def prefix_of_def)
  qed
qed (use assms(3) in simp)

lemma dl_names_entries: "dl_id e = i \<Longrightarrow> e \<in> set (dl_entries s) \<Longrightarrow> i \<in> dl_names s"
  by (auto simp: dl_names_def entry_ids_def)

lemma add_chunk_simps [simp, dl_simps]:
  "dl_stored (add_chunk i chunk p s) = dl_stored s" "dl_pumps (add_chunk i chunk p s) = dl_pumps s"
  "map_of (dl_partials (add_chunk i chunk p s)) =
     (map_of (dl_partials s))(i \<mapsto> \<lparr>pa_chunks = pa_chunks p @ [chunk], pa_n = pa_n p + length chunk\<rparr>)"
  by (simp_all add: add_chunk_def update_conv')

text \<open>Buffering a chunk and counting it keep the buffer and the count together.\<close>

lemma inv_put_partial:
  assumes inv: "dl_inv F s" and known: "i \<in> dl_names s" and nr: "map_of (dl_pumps s) i \<noteq> Some Restoring"
    and f: "\<forall>e. dl_id (f e) = dl_id e \<and> dl_source (f e) = dl_source e \<and> dl_resumable (f e) = dl_resumable e"
    and p: "\<And>e. e \<in> set (dl_entries s) \<Longrightarrow> dl_id e = i \<Longrightarrow>
      prefix_of F e p \<and> dl_resumable e \<and> dl_received (f e) = int (pa_n p)"
    and none: "i \<notin> entry_ids s \<Longrightarrow> pa_n p = 0"
  shows "dl_inv F (on_entry i f (s\<lparr>dl_partials := AList.update i p (dl_partials s)\<rparr>))"
proof -
  let ?a = "s\<lparr>dl_partials := AList.update i p (dl_partials s)\<rparr>"
  let ?s = "on_entry i f ?a"
  have d: "distinct (map dl_id (dl_entries ?a))" using inv by (simp add: dl_inv_def ring_ok_def)
  have es: "dl_entries ?s = map (\<lambda>e. if dl_id e = i then f e else e) (dl_entries s)"
    unfolding entries_on_entry [OF d] by simp
  have m: "map dl_id (dl_entries ?s) = map dl_id (dl_entries s)"
    unfolding es using map_id_on f by blast
  have ids: "entry_ids ?s = entry_ids s"
    using arg_cong [OF m, of set] by (simp only: entry_ids_def list.set_map)
  have sv: "saved_entries ?s = saved_entries s" by (simp add: saved_entries_def)
  have same: "map_of (dl_partials ?s) = (map_of (dl_partials s))(i \<mapsto> p)" "dl_stored ?s = dl_stored s" "dl_pumps ?s = dl_pumps s"
    by (simp_all add: update_conv')
  have names: "dl_names ?s \<subseteq> dl_names s"
    using known unfolding dl_names_def ids sv by auto
  have len: "length (dl_entries ?s) = length (dl_entries s)" using arg_cong [OF m, of length] by simp
  have "ring_ok ?s" using inv names unfolding dl_inv_def ring_ok_def m len by auto
  moreover have "saved_ok ?s"
    using inv f unfolding dl_inv_def saved_ok_def sv es by auto
  moreover have "buffers_ok F ?s"
    unfolding buffers_ok_def ids
  proof (intro conjI ballI allI impI)
    fix e' assume "e' \<in> set (dl_entries ?s)"
    then obtain e where e: "e \<in> set (dl_entries s)" "e' = (if dl_id e = i then f e else e)"
      unfolding es by auto
    have ok: "entry_ok F s e" using inv e(1) by (simp add: dl_inv_def buffers_ok_def)
    show "entry_ok F ?s e'"
    proof (cases "dl_id e = i")
      case True
      then show ?thesis using ok p [OF e(1)] e(2) f nr unfolding entry_ok_def same by (auto simp: prefix_of_def)
    qed (use ok e(2) in \<open>auto simp: entry_ok_def same\<close>)
  qed (use inv none in \<open>auto simp: dl_inv_def buffers_ok_def same split: if_splits\<close>)
  ultimately show ?thesis using inv by (simp add: dl_inv_def)
qed

lemma inv_add_chunk:
  assumes inv: "dl_inv F s" and p: "map_of (dl_partials s) i = Some p"
    and honest: "\<forall>e \<in> set (dl_entries s). dl_id e = i \<longrightarrow>
      chunk = take (length chunk) (drop (nat (dl_received e)) (F (dl_source e)))"
    and here: "i \<in> entry_ids s"
  shows "dl_inv F (on_entry i (count_bytes_of chunk) (add_chunk i chunk p s))"
  unfolding add_chunk_def
proof (rule inv_put_partial [OF inv])
  have ok: "entry_ok F s e" if "e \<in> set (dl_entries s)" for e using inv that by (simp add: dl_inv_def buffers_ok_def)
  show "i \<in> dl_names s" using here by (simp add: dl_names_def)
  show "map_of (dl_pumps s) i \<noteq> Some Restoring" using ok here p by (auto simp: entry_ok_def entry_ids_def)
  show "prefix_of F e \<lparr>pa_chunks = pa_chunks p @ [chunk], pa_n = pa_n p + length chunk\<rparr> \<and> dl_resumable e \<and>
      dl_received (count_bytes_of chunk e) = int (pa_n \<lparr>pa_chunks = pa_chunks p @ [chunk], pa_n = pa_n p + length chunk\<rparr>)"
    if "e \<in> set (dl_entries s)" "dl_id e = i" for e
  proof -
    have "chunk = take (length chunk) (drop (pa_n p) (F (dl_source e)))"
      using honest that ok [OF that(1)] p by (auto simp: entry_ok_def)
    then show ?thesis using ok [OF that(1)] p that(2) by (auto simp: entry_ok_def prefix_of_def take_add)
  qed
qed (use here in simp_all)

lemma drop_after_count: "drop_buffer i (on_entry i f s) = on_entry i (\<lambda>e. e\<lparr>dl_resumable := False\<rparr>) (on_entry i f (forget_partial i s))"
  by (simp add: drop_buffer_def forget_partial_def on_entry_def)

lemma inv_drop_counted:
  assumes "dl_inv F s" "map_of (dl_partials s) i \<noteq> None" "i \<in> entry_ids s"
  shows "dl_inv F (drop_buffer i (on_entry i (count_bytes_of chunk) s))"
proof -
  have nr: "map_of (dl_pumps s) i \<noteq> Some Restoring"
    using assms by (auto simp: dl_inv_def buffers_ok_def entry_ok_def entry_ids_def)
  have "dl_inv F (on_entry i (count_bytes_of chunk) (forget_partial i s))"
    using inv_forget [OF assms(1)] by (rule inv_count_unbuffered) auto
  then show ?thesis unfolding drop_after_count using nr by (intro inv_unresumable) auto
qed

lemma entry_ids_forget [simp]: "entry_ids (forget_partial i s) = entry_ids s"
  by (simp add: entry_ids_def)

lemma entry_ids_on_entry: "\<forall>e. dl_id (f e) = dl_id e \<Longrightarrow> entry_ids (on_entry i f s) = entry_ids s"
proof -
  assume f: "\<forall>e. dl_id (f e) = dl_id e"
  have "dl_id ` set (change_entry i f es) = dl_id ` set es" for es
    using f by (induction es) auto
  then show ?thesis by (simp add: entry_ids_def on_entry_def)
qed

lemma entry_ids_drop [simp]: "entry_ids (drop_buffer i s) = entry_ids s"
  by (simp add: drop_buffer_def entry_ids_on_entry)

lemma entry_ids_admit [simp]: "entry_ids (snd (admit_bytes b i n s)) = entry_ids s"
proof -
  have "entry_ids (snd (drop_victims b n vs s)) = entry_ids s" for vs
    by (induction vs arbitrary: s) (auto simp: Let_def)
  then show ?thesis by (simp add: admit_bytes_def)
qed

lemma on_entry_missing: "find_entry i s = None \<Longrightarrow> on_entry i f s = s"
proof -
  assume "find_entry i s = None"
  then have "i \<notin> dl_id ` set (dl_entries s)" by (simp add: find_entry_None entry_ids_def)
  moreover have "change_entry i f es = es" if "i \<notin> dl_id ` set es" for es
    using that by (induction es) auto
  ultimately show ?thesis by (simp add: on_entry_def)
qed

lemma find_on_other:
  "i \<noteq> j \<Longrightarrow> \<forall>e. dl_id (f e) = dl_id e \<Longrightarrow> find_entry i (on_entry j f s) = find_entry i s"
proof -
  assume a: "i \<noteq> j" "\<forall>e. dl_id (f e) = dl_id e"
  have "find (\<lambda>e. dl_id e = i) (change_entry j f es) = find (\<lambda>e. dl_id e = i) es" for es
    using a by (induction es) auto
  then show ?thesis by (simp add: find_entry_def on_entry_def)
qed

lemma find_forget [simp]: "find_entry i (forget_partial j s) = find_entry i s"
  by (simp add: find_entry_def)

lemma find_drop_victims: "i \<notin> set vs \<Longrightarrow> find_entry i (snd (drop_victims b n vs s)) = find_entry i s"
  by (induction vs arbitrary: s) (auto simp: Let_def drop_buffer_def find_on_other)

lemma find_admit [simp]: "find_entry i (snd (admit_bytes b i n s)) = find_entry i s"
  using find_drop_victims [OF buffer_victims_others] by (simp add: admit_bytes_def)

definition honest_chunk :: "(string \<Rightarrow> byte list) \<Rightarrow> string \<Rightarrow> byte list \<Rightarrow> downloads \<Rightarrow> bool" where
  "honest_chunk F i chunk s \<longleftrightarrow>
     (case find_entry i s of
        Some e \<Rightarrow> chunk = take (length chunk) (drop (nat (dl_received e)) (F (dl_source e)))
      | None \<Rightarrow> True)"

lemma inv_distinct: "dl_inv F s \<Longrightarrow> distinct (map dl_id (dl_entries s))"
  by (simp add: dl_inv_def ring_ok_def)

lemma inv_entry: "dl_inv F s \<Longrightarrow> find_entry i s = Some e \<Longrightarrow> entry_ok F s e \<and> dl_id e = i"
  by (auto simp: dl_inv_def buffers_ok_def find_entry_iff ring_ok_def)

lemma inv_buffer_chunk:
  assumes inv: "dl_inv F s" and honest: "honest_chunk F i chunk s"
  shows "dl_inv F (buffer_chunk b i chunk (on_entry i (count_bytes_of chunk) s))"
proof (cases "find_entry i s")
  case None
  then show ?thesis using inv by (simp add: on_entry_missing buffer_chunk_def)
next
  case (Some e)
  have here: "i \<in> entry_ids s" using Some find_entry_None [of i s] by auto
  have found: "find_entry i (on_entry i (count_bytes_of chunk) s) = Some (count_bytes_of chunk e)"
    using Some by (simp add: find_on_entry)
  show ?thesis
  proof (cases "map_of (dl_partials s) i")
    case None
    then show ?thesis using inv_count_unbuffered [OF inv None] by (simp add: buffer_chunk_def found)
  next
    case (Some p)
    have res: "dl_resumable e" using inv_entry [OF inv \<open>find_entry i s = Some e\<close>] Some by (auto simp: entry_ok_def)
    obtain r s2 where s2: "admit_bytes b i (length chunk) s = (r, s2)" by force
    have inv2: "dl_inv F s2" using inv_admit [OF inv, of b i "length chunk"] s2 by simp
    have here2: "i \<in> entry_ids s2" using entry_ids_admit [of b i "length chunk" s] s2 here by simp
    have p2: "map_of (dl_partials s2) i = Some p" using admit_map [of b i "length chunk" s] s2 Some by simp
    have "find_entry i s2 = Some e" using find_admit [of i b "length chunk" s] s2 \<open>find_entry i s = Some e\<close> by simp
    then have h2: "\<forall>e \<in> set (dl_entries s2). dl_id e = i \<longrightarrow>
        chunk = take (length chunk) (drop (nat (dl_received e)) (F (dl_source e)))"
      using honest \<open>find_entry i s = Some e\<close> inv_distinct [OF inv2]
      by (auto simp: honest_chunk_def find_entry_iff dest: same_id)
    have add: "add_chunk i chunk p (on_entry i f s2) = on_entry i f (add_chunk i chunk p s2)" for f
      by (simp add: add_chunk_def on_entry_def)
    show ?thesis
      using inv_drop_counted [OF inv _ here] inv_drop_counted [OF inv2 _ here2] inv_add_chunk [OF inv2 p2 h2 here2] Some p2 res
      by (simp add: buffer_chunk_def found admit_commute s2 add split: bool.splits)
  qed
qed

section \<open>New entries\<close>

lemma inv_seq: "dl_inv F s \<Longrightarrow> dl_seq s \<le> n \<Longrightarrow> dl_inv F (s\<lparr>dl_seq := n\<rparr>)"
proof -
  assume inv: "dl_inv F s" and n: "dl_seq s \<le> n"
  have "dl_names (s\<lparr>dl_seq := n\<rparr>) = dl_names s" "saved_entries (s\<lparr>dl_seq := n\<rparr>) = saved_entries s"
    "buffers_ok F (s\<lparr>dl_seq := n\<rparr>) = buffers_ok F s"
    by (simp_all add: dl_names_def entry_ids_def saved_entries_def buffers_ok_def entry_ok_def)
  with inv n show ?thesis by (auto simp: dl_inv_def ring_ok_def saved_ok_def intro: order_trans)
qed

lemma dl_digits_inj: "nat_digits m = nat_digits n \<longleftrightarrow> m = n"
  by (metis digits_val_nat_digits)

lemma fresh_id: "dl_inv F s \<Longrightarrow> dl_seq s < n \<Longrightarrow> ''dl'' @ nat_digits n \<notin> dl_names s"
  by (fastforce simp: dl_inv_def ring_ok_def)

lemma inv_add_entry:
  assumes inv: "dl_inv F s" and room: "length (dl_entries s) < DL_RING"
    and id: "dl_id e = ''dl'' @ nat_digits n" "dl_seq s < n"
  shows "dl_inv F (s\<lparr>dl_seq := n, dl_entries := dl_entries s @ [e]\<rparr>)"
proof -
  let ?s = "s\<lparr>dl_seq := n, dl_entries := dl_entries s @ [e]\<rparr>"
  have fresh: "dl_id e \<notin> dl_names s" using fresh_id [OF inv id(2)] id(1) by simp
  have ids: "entry_ids ?s = insert (dl_id e) (entry_ids s)" by (simp add: entry_ids_def)
  have sv: "saved_entries ?s = saved_entries s" by (simp add: saved_entries_def)
  have names: "dl_names ?s = insert (dl_id e) (dl_names s)" unfolding dl_names_def ids sv by simp
  have new: "map_of (dl_partials s) (dl_id e) = None" "map_of (dl_stored s) (dl_id e) = None"
    "map_of (dl_pumps s) (dl_id e) = None" "dl_id e \<notin> entry_ids s" "dl_id e \<notin> dl_id ` set (saved_entries s)"
    using fresh by (auto simp: dl_names_def dom_def)
  have "ring_ok ?s"
    unfolding ring_ok_def names
    using inv room new(4) id by (fastforce simp: dl_inv_def ring_ok_def entry_ids_def dl_digits_inj)
  moreover have "saved_ok ?s" using inv new(5) by (auto simp: dl_inv_def saved_ok_def sv)
  moreover have "buffers_ok F ?s"
    using inv new by (auto simp: dl_inv_def buffers_ok_def ids entry_ok_def)
  ultimately show ?thesis using inv by (simp add: dl_inv_def)
qed

lemma inv_remove:
  assumes "dl_inv F s" "gone \<in> set (dl_entries s)"
  shows "dl_inv F (forget_partial (dl_id gone) (s\<lparr>dl_entries := remove1 gone (dl_entries s)\<rparr>))"
proof (rule inv_gives_up [OF assms(1)])
  have d: "distinct (dl_entries s)" using inv_distinct [OF assms(1)] by (simp add: distinct_map)
  have io: "dl_io s" using assms(1) by (simp add: dl_inv_def)
  have eq: "e = gone" if "e \<in> set (dl_entries s)" "dl_id e = dl_id gone" for e
    using same_id [OF inv_distinct [OF assms(1)]] assms(2) that by blast
  show "gives_up s (forget_partial (dl_id gone) (s\<lparr>dl_entries := remove1 gone (dl_entries s)\<rparr>))"
    unfolding gives_up_def
  proof (intro conjI)
    show "\<exists>P. dl_entries (forget_partial (dl_id gone) (s\<lparr>dl_entries := remove1 gone (dl_entries s)\<rparr>)) = filter P (dl_entries s) \<and>
       (\<forall>e \<in> set (dl_entries s). \<not> P e \<longrightarrow>
          map_of (dl_partials (forget_partial (dl_id gone) (s\<lparr>dl_entries := remove1 gone (dl_entries s)\<rparr>))) (dl_id e) = None \<and>
          map_of (dl_stored (forget_partial (dl_id gone) (s\<lparr>dl_entries := remove1 gone (dl_entries s)\<rparr>))) (dl_id e) = None)"
      using io by (intro exI [of _ "\<lambda>e. e \<noteq> gone"])
        (auto simp: distinct_remove1_removeAll [OF d] removeAll_filter_not_eq forget_partial_def intro: filter_cong)
  qed (auto simp: forget_partial_def)
qed

lemma evict_snoc:
  assumes "find (\<lambda>e. dl_id e \<notin> set (dl_streams s) \<and> \<not> omap_has (dl_pumps s) (dl_id e)) (dl_entries s @ [e]) = Some gone"
    "gone \<in> set (dl_entries s)"
  shows "evict_idle (s\<lparr>dl_seq := n, dl_entries := dl_entries s @ [e]\<rparr>) =
    (let t = forget_partial (dl_id gone) (s\<lparr>dl_entries := remove1 gone (dl_entries s)\<rparr>)
     in t\<lparr>dl_seq := n, dl_entries := dl_entries t @ [e]\<rparr>)"
  using assms by (simp add: evict_idle_def forget_partial_def remove1_append Let_def)

text \<open>The ring never grows past its size: when every other entry is live, the new one goes.\<close>

lemma inv_begin:
  assumes inv: "dl_inv F s" and e: "dl_id e = ''dl'' @ nat_digits (Suc (dl_seq s))" "dl_received e = 0"
    and s1_def: "s1 = s\<lparr>dl_seq := Suc (dl_seq s), dl_entries := dl_entries s @ [e]\<rparr>"
    and s2_def: "s2 = (if DL_RING < length (dl_entries s1) then evict_idle s1 else s1)"
  shows "dl_inv F s2 \<and> dl_seq s2 = Suc (dl_seq s) \<and> map_of (dl_pumps s2) (dl_id e) = None
    \<and> (\<forall>x \<in> set (dl_entries s2). dl_id x = dl_id e \<longrightarrow> x = e)"
proof (cases "DL_RING < length (dl_entries s1)")
  case False
  then have "dl_inv F s1" unfolding s1_def using e by (intro inv_add_entry [OF inv]) (auto simp: s1_def)
  moreover have fresh: "dl_id e \<notin> dl_names s" using fresh_id [OF inv, of "Suc (dl_seq s)"] e by simp
  moreover have "\<forall>x \<in> set (dl_entries s). dl_id x \<noteq> dl_id e" using fresh dl_names_entries by blast
  ultimately show ?thesis using False by (auto simp: s2_def s1_def dl_names_def dom_def)
next
  case True
  have fresh: "dl_id e \<notin> dl_names s" using fresh_id [OF inv, of "Suc (dl_seq s)"] e by simp
  then have new: "dl_id e \<notin> set (dl_streams s)" "\<not> omap_has (dl_pumps s) (dl_id e)" "e \<notin> set (dl_entries s)"
    "dl_id e \<notin> entry_ids s" "map_of (dl_partials s) (dl_id e) = None" "map_of (dl_stored s) (dl_id e) = None"
    "map_of (dl_pumps s) (dl_id e) = None"
    by (auto simp: dl_names_def entry_ids_def omap_has_def dom_def)
  have other: "\<forall>x \<in> set (dl_entries s). dl_id x \<noteq> dl_id e" using fresh dl_names_entries by blast
  let ?idle = "\<lambda>e. dl_id e \<notin> set (dl_streams s) \<and> \<not> omap_has (dl_pumps s) (dl_id e)"
  obtain gone where gone: "find ?idle (dl_entries s @ [e]) = Some gone"
    using new(1,2) find_None_iff [of ?idle "dl_entries s @ [e]"] by (cases "find ?idle (dl_entries s @ [e])") auto
  show ?thesis
  proof (cases "gone \<in> set (dl_entries s)")
    case here: True
    let ?t = "forget_partial (dl_id gone) (s\<lparr>dl_entries := remove1 gone (dl_entries s)\<rparr>)"
    have s2: "s2 = ?t\<lparr>dl_seq := Suc (dl_seq s), dl_entries := dl_entries ?t @ [e]\<rparr>"
      using True evict_snoc [OF gone here, of "Suc (dl_seq s)"] by (simp add: s2_def s1_def Let_def)
    have "length (dl_entries s) \<le> DL_RING" using inv by (simp add: dl_inv_def ring_ok_def)
    moreover have "length (dl_entries ?t) = length (dl_entries s) - 1" using here by (simp add: length_remove1)
    ultimately have "length (dl_entries ?t) < DL_RING"
      using length_pos_if_in_set [OF here] by linarith
    then have "dl_inv F s2"
      unfolding s2 using e by (intro inv_add_entry inv_remove [OF inv here]) auto
    then show ?thesis using other new(7) s2 subsetD [OF set_remove1_subset] by auto
  next
    case False
    have "gone = e" using gone False new(3) by (auto simp: find_Some_iff nth_append split: if_splits)
    then have "s2 = s\<lparr>dl_seq := Suc (dl_seq s)\<rparr>"
      using True gone new by (simp add: s2_def s1_def evict_idle_def forget_partial_def remove1_append delete_id map_of_eq_None_iff)
    then show ?thesis using inv_seq [OF inv] new(7) other by auto
  qed
qed

lemma inv_wrap:
  assumes inv: "dl_inv F s" and i: "i = ''dl'' @ nat_digits n" "n \<le> dl_seq s"
    and fresh: "map_of (dl_pumps s) i = None" "\<forall>e \<in> set (dl_entries s). dl_id e = i \<longrightarrow> dl_received e = 0"
  shows "dl_inv F (dl_wrap i s)"
proof -
  have ids: "entry_ids (dl_wrap i s) = entry_ids s" "dl_entries (dl_wrap i s) = dl_entries s"
    and sv: "saved_entries (dl_wrap i s) = saved_entries s"
    and st: "dl_stored (dl_wrap i s) = dl_stored s" "dl_pumps (dl_wrap i s) = dl_pumps s" "dl_io (dl_wrap i s) = dl_io s"
      "dl_seq (dl_wrap i s) = dl_seq s" "set (dl_streams (dl_wrap i s)) = insert i (set (dl_streams s))"
      "dl_saved (dl_wrap i s) = dl_saved s"
    by (auto simp: dl_wrap_def entry_ids_def saved_entries_def Let_def split: option.splits)
  have pa: "map_of (dl_partials (dl_wrap i s)) =
     (if \<exists>e \<in> set (dl_entries s). dl_id e = i \<and> dl_resumable e
      then (map_of (dl_partials s))(i \<mapsto> \<lparr>pa_chunks = [], pa_n = 0\<rparr>) else map_of (dl_partials s))"
    using inv_distinct [OF inv]
    by (auto simp: dl_wrap_def update_conv' find_entry_iff find_entry_None entry_ids_def Let_def split: option.splits dest: same_id)
  have "dl_names (dl_wrap i s) \<subseteq> insert i (dl_names s)" unfolding dl_names_def ids sv st pa by auto
  then have "''dl'' @ nat_digits m = i \<or> ''dl'' @ nat_digits m \<in> dl_names s"
    if "''dl'' @ nat_digits m \<in> dl_names (dl_wrap i s)" for m
    using that by blast
  then have "m \<le> dl_seq s" if "''dl'' @ nat_digits m \<in> dl_names (dl_wrap i s)" for m
    using that inv i by (fastforce simp: dl_inv_def ring_ok_def dl_digits_inj)
  then have "ring_ok (dl_wrap i s)"
    using inv unfolding ring_ok_def dl_inv_def ids st by blast
  moreover have "saved_ok (dl_wrap i s)" using inv by (simp add: dl_inv_def saved_ok_def sv ids st)
  moreover have "buffers_ok F (dl_wrap i s)"
    unfolding buffers_ok_def ids st
  proof (intro conjI ballI allI impI)
    show "entry_ok F (dl_wrap i s) e" if "e \<in> set (dl_entries s)" for e
    proof -
      have "entry_ok F s e" using inv that by (simp add: dl_inv_def buffers_ok_def)
      moreover have "x = e" if "x \<in> set (dl_entries s)" "dl_id x = dl_id e" for x
        using same_id [OF inv_distinct [OF inv] that(1) \<open>e \<in> set (dl_entries s)\<close> that(2)] .
      ultimately show ?thesis using fresh that
        by (auto simp: entry_ok_def pa st prefix_of_def split: if_splits)
    qed
  qed (use inv in \<open>auto simp: dl_inv_def buffers_ok_def pa split: if_splits\<close>)
  ultimately show ?thesis using inv by (simp add: dl_inv_def st)
qed

lemma inv_adopt:
  assumes inv: "dl_inv F s" and a: "adopt_response pu target has_body h out now s = Some (i, s')"
  shows "dl_inv F s'"
proof -
  obtain mime len s1 where s1: "dl_begin pu target h mime len now s = (i, s1)" "s' = dl_wrap i s1"
    using a by (auto simp: adopt_response_def Let_def split: if_splits prod.splits)
  have i: "i = ''dl'' @ nat_digits (Suc (dl_seq s))" using s1(1) by (simp add: dl_begin_def Let_def)
  let ?e = "new_entry pu target h mime len now i"
  have e: "dl_id ?e = ''dl'' @ nat_digits (Suc (dl_seq s))" "dl_id ?e = i" "dl_received ?e = 0"
    by (simp_all add: new_entry_def i)
  have "s1 = (if DL_RING < length (dl_entries (s\<lparr>dl_seq := Suc (dl_seq s), dl_entries := dl_entries s @ [?e]\<rparr>))
    then evict_idle (s\<lparr>dl_seq := Suc (dl_seq s), dl_entries := dl_entries s @ [?e]\<rparr>)
    else s\<lparr>dl_seq := Suc (dl_seq s), dl_entries := dl_entries s @ [?e]\<rparr>)"
    using s1(1) i unfolding dl_begin_def Let_def prod.inject by blast
  from inv_begin [OF inv e(1,3) refl this, unfolded e(2)]
  have b: "dl_inv F s1" "dl_seq s1 = Suc (dl_seq s)" "map_of (dl_pumps s1) i = None"
    "\<forall>x \<in> set (dl_entries s1). dl_id x = i \<longrightarrow> x = ?e"
    by blast+
  show ?thesis unfolding s1(2)
  proof (rule inv_wrap [OF b(1) i _ b(3)])
    show "\<forall>x \<in> set (dl_entries s1). dl_id x = i \<longrightarrow> dl_received x = 0"
    proof (intro ballI impI)
      fix x assume "x \<in> set (dl_entries s1)" "dl_id x = i"
      then have "x = ?e" using b(4) by blast
      then show "dl_received x = 0" using e(3) by (simp only:)
    qed
  qed (simp add: b(2))
qed

section \<open>Every event keeps the invariant\<close>

lemma inv_same:
  assumes "dl_inv F s" "dl_entries s' = dl_entries s" "dl_partials s' = dl_partials s" "dl_stored s' = dl_stored s"
    "set (dl_streams s') \<subseteq> set (dl_streams s)" "dl_pumps s' = dl_pumps s" "dl_saved s' = dl_saved s"
    "dl_seq s' = dl_seq s" "dl_io s' = dl_io s"
  shows "dl_inv F s'"
  using assms by (intro inv_gives_up [OF assms(1)] gives_upI) auto

lemma active_not_restoring:
  assumes "dl_inv F s" "entry_is i DlActive s" shows "map_of (dl_pumps s) i \<noteq> Some Restoring"
proof -
  obtain e where e: "find_entry i s = Some e" "dl_status e = DlActive"
    using assms(2) by (auto simp: entry_is_def split: option.splits)
  then show ?thesis using inv_entry [OF assms(1) e(1)] by (auto simp: entry_ok_def)
qed

lemma inv_persist_partial:
  assumes inv: "dl_inv F s" shows "dl_inv F (persist_partial i s)"
proof (cases "map_of (dl_partials s) i")
  case (Some p)
  show ?thesis
  proof (cases "pa_n p = 0")
    case False
    then have here: "i \<in> entry_ids s" using inv Some by (auto simp: dl_inv_def buffers_ok_def)
    let ?s = "s\<lparr>dl_stored := AList.update i p (dl_stored s)\<rparr>"
    have io: "dl_io s" using inv by (simp add: dl_inv_def)
    have ids: "entry_ids ?s = entry_ids s" and sv: "saved_entries ?s = saved_entries s"
      by (simp_all add: entry_ids_def saved_entries_def)
    have st: "map_of (dl_stored ?s) = (map_of (dl_stored s))(i \<mapsto> p)" by (simp add: update_conv')
    have "dl_names ?s \<subseteq> dl_names s" using here unfolding dl_names_def ids sv st by auto
    then have "ring_ok ?s" using inv by (auto simp: dl_inv_def ring_ok_def)
    moreover have "saved_ok ?s" using inv by (simp add: dl_inv_def saved_ok_def sv)
    moreover have "entry_ok F ?s e" if "e \<in> set (dl_entries s)" for e
    proof -
      have "entry_ok F s e" using inv that by (simp add: dl_inv_def buffers_ok_def)
      then show ?thesis unfolding entry_ok_def st using Some by (auto simp: entry_ok_def)
    qed
    then have "buffers_ok F ?s"
      using inv here unfolding dl_inv_def buffers_ok_def ids st by auto
    ultimately show ?thesis using False Some io by (simp add: persist_partial_def dl_inv_def)
  qed (use Some inv in \<open>simp add: persist_partial_def\<close>)
qed (use inv in \<open>simp add: persist_partial_def\<close>)

lemma inv_delete_partial:
  assumes "dl_inv F s" shows "dl_inv F (s\<lparr>dl_partials := AList.delete i (dl_partials s)\<rparr>)"
  using assms by (rule inv_gives_up) (auto intro!: gives_upI)

lemma entry_is_pipes [simp]: "entry_is i st (s\<lparr>dl_pipes := ps\<rparr>) = entry_is i st s"
  by (simp add: entry_is_def find_entry_def)

lemma inv_flush:
  assumes "dl_inv F s" shows "dl_inv F (stream_flush i now s)"
proof -
  let ?s = "s\<lparr>dl_pipes := AList.update i True (dl_pipes s)\<rparr>"
  have s: "dl_inv F ?s" using assms by (rule inv_same) auto
  show ?thesis
  proof (cases "entry_is i DlActive s")
    case True
    then have "dl_inv F (on_entry i (\<lambda>e. e\<lparr>dl_status := DlDone, dl_ended := now\<rparr>) ?s)"
      using active_not_restoring [OF s, of i] by (intro inv_mark [OF s]) auto
    from inv_delete_partial [OF this, of i] True show ?thesis by (simp add: stream_flush_def)
  qed (use s in \<open>simp add: stream_flush_def\<close>)
qed

lemma inv_settled:
  assumes inv: "dl_inv F s" shows "dl_inv F (stream_settled i failed now s)"
proof -
  have "dl_inv F (end_entry i st now err s)" if "find_entry i s = Some e" "dl_status e = DlActive" for e st err
    using that by (intro inv_end_entry [OF inv] active_not_restoring [OF inv]) (simp add: entry_is_def)
  with inv show ?thesis
    unfolding stream_settled_def Let_def
    by (auto intro!: inv_pipes inv_persist_partial split: option.splits dest: subsetD [OF set_remove1_subset])
qed

lemma inv_cancel:
  assumes inv: "dl_inv F s" shows "dl_inv F (snd (dl_cancel i now s))"
proof -
  have "dl_inv F (on_entry i (\<lambda>e. e\<lparr>dl_status := DlCancelled, dl_ended := now\<rparr>) s)" if "entry_is i DlActive s"
    using active_not_restoring [OF inv that] by (intro inv_mark [OF inv]) auto
  with inv show ?thesis unfolding dl_cancel_def Let_def by (auto intro!: inv_sever inv_forget)
qed

lemma inv_pause:
  assumes inv: "dl_inv F s" shows "dl_inv F (snd (dl_pause i now s))"
proof -
  let ?s = "on_entry i (\<lambda>e. e\<lparr>dl_status := DlPaused, dl_ended := now\<rparr>) s"
  have "dl_inv F (if (case find_entry i s of Some e \<Rightarrow> dl_resumable e | None \<Rightarrow> False) \<and> omap_has (dl_partials ?s) i
      then persist_partial i ?s else on_entry i (\<lambda>e. e\<lparr>dl_resumable := False\<rparr>) ?s)" if a: "entry_is i DlActive s"
  proof -
    note nr = active_not_restoring [OF inv a]
    have s: "dl_inv F ?s" using nr by (intro inv_mark [OF inv]) auto
    obtain e where e: "find_entry i s = Some e" using a by (auto simp: entry_is_def split: option.splits)
    have "map_of (dl_partials s) i = None" if "\<not> dl_resumable e"
      using inv_entry [OF inv e] that by (auto simp: entry_ok_def)
    then show ?thesis using s e nr by (auto simp: omap_has_def intro!: inv_persist_partial inv_unresumable)
  qed
  with inv show ?thesis unfolding dl_pause_def Let_def by (auto intro!: inv_sever)
qed

lemma inv_resume_send:
  assumes inv: "dl_inv F s" and nr: "map_of (dl_pumps s) i \<noteq> Some Restoring" and "i \<in> entry_ids s"
  shows "dl_inv F (resume_send i s)"
proof -
  have "dl_inv F (on_entry i (\<lambda>e. e\<lparr>dl_status := DlActive, dl_error := None\<rparr>) s)"
    using nr by (intro inv_mark [OF inv]) auto
  then show ?thesis unfolding resume_send_def using assms(3) by (intro inv_set_pump) (auto simp: entry_ids_on_entry)
qed

lemma inv_set_restoring:
  assumes inv: "dl_inv F s" and e: "find_entry i s = Some e" "dl_status e = DlPaused" "dl_resumable e"
    and none: "map_of (dl_partials s) i = None"
  shows "dl_inv F (set_pump i Restoring s)"
proof -
  let ?s = "set_pump i Restoring s"
  have here: "i \<in> entry_ids s" using e(1) find_entry_None [of i s] by auto
  have ids: "entry_ids ?s = entry_ids s" "saved_entries ?s = saved_entries s"
    by (simp_all add: entry_ids_def saved_entries_def set_pump_def)
  have "dl_names ?s \<subseteq> dl_names s" using here unfolding dl_names_def ids by (auto simp: set_pump_def)
  then have "ring_ok ?s" using inv by (auto simp: dl_inv_def ring_ok_def set_pump_def)
  moreover have "saved_ok ?s" using inv by (simp add: dl_inv_def saved_ok_def ids) (simp add: set_pump_def)
  moreover have "entry_ok F ?s x" if "x \<in> set (dl_entries s)" for x
  proof -
    have "entry_ok F s x" using inv that by (simp add: dl_inv_def buffers_ok_def)
    moreover have "x = e" if "dl_id x = i"
      using that e(1) \<open>x \<in> set (dl_entries s)\<close> inv_distinct [OF inv] by (auto simp: find_entry_iff dest: same_id)
    ultimately show ?thesis using e none by (auto simp: entry_ok_def set_pump_def update_conv')
  qed
  then have "buffers_ok F ?s" using inv unfolding dl_inv_def buffers_ok_def ids by (auto simp: set_pump_def)
  ultimately show ?thesis using inv by (simp add: dl_inv_def) (simp add: set_pump_def)
qed

lemma inv_resume:
  assumes inv: "dl_inv F s" shows "dl_inv F (dl_resume i s)"
proof (cases "resume_refusal i s")
  case None
  then obtain e where e: "find_entry i s = Some e" "dl_status e = DlPaused" "dl_resumable e" "map_of (dl_pumps s) i = None"
    by (auto simp: resume_refusal_def omap_has_def split: option.splits if_splits)
  then have "i \<in> entry_ids s" using find_entry_None [of i s] by auto
  with e None inv show ?thesis
    by (auto simp: dl_resume_def omap_has_def intro!: inv_resume_send inv_set_restoring)
qed (use inv in \<open>simp add: dl_resume_def\<close>)

lemma dl_names_pump: "map_of (dl_pumps s) i = Some ph \<Longrightarrow> i \<in> dl_names s"
  by (auto simp: dl_names_def)

lemma on_entry_twice:
  "\<forall>e. dl_id (f e) = dl_id e \<Longrightarrow> on_entry i g (on_entry i f s) = on_entry i (g \<circ> f) s"
proof -
  assume "\<forall>e. dl_id (f e) = dl_id e"
  then have "change_entry i g (change_entry i f es) = change_entry i (g \<circ> f) es" for es by (induction es) auto
  then show ?thesis by (simp add: on_entry_def)
qed

lemma inv_restored:
  assumes inv: "dl_inv F s" and r: "map_of (dl_pumps s) i = Some Restoring"
  shows "dl_inv F (resume_restored i s)"
proof -
  let ?t = "set_pump i Fetching s"
  have t: "dl_inv F ?t" using inv r by (intro inv_set_pump) (auto simp: omap_has_def)
  have known: "i \<in> dl_names ?t" by (rule dl_names_pump [where ph = Fetching]) (simp add: set_pump_def)
  have pump: "map_of (dl_pumps ?t) i = Some Fetching" by (simp add: set_pump_def)
  let ?send = "\<lambda>e. e\<lparr>dl_status := DlActive, dl_error := None\<rparr>"
  have put: "dl_inv F (on_entry i ?send (on_entry i (\<lambda>e. e\<lparr>dl_received := int (pa_n p)\<rparr>) (?t\<lparr>dl_partials := AList.update i p (dl_partials ?t)\<rparr>)))"
    if p: "\<And>e. find_entry i s = Some e \<Longrightarrow> prefix_of F e p" "i \<notin> entry_ids s \<Longrightarrow> pa_n p = 0" for p
  proof (rule inv_mark)
    show "dl_inv F (on_entry i (\<lambda>e. e\<lparr>dl_received := int (pa_n p)\<rparr>) (?t\<lparr>dl_partials := AList.update i p (dl_partials ?t)\<rparr>))"
    proof (rule inv_put_partial [OF t known])
      fix e assume "e \<in> set (dl_entries ?t)" "dl_id e = i"
      then have e: "find_entry i s = Some e" using inv_distinct [OF inv] by (simp add: find_entry_iff)
      then show "prefix_of F e p \<and> dl_resumable e \<and> dl_received (e\<lparr>dl_received := int (pa_n p)\<rparr>) = int (pa_n p)"
        using p(1) inv_entry [OF inv e] r by (auto simp: entry_ok_def)
    qed (use p(2) pump in \<open>auto simp: entry_ids_def\<close>)
  qed (use pump in \<open>auto simp: set_pump_def\<close>)
  show ?thesis
  proof (cases "load_partial i s")
    case None
    have "resume_restored i s = on_entry i ?send (on_entry i (\<lambda>e. e\<lparr>dl_received := int (pa_n \<lparr>pa_chunks = [], pa_n = 0\<rparr>)\<rparr>)
        (?t\<lparr>dl_partials := AList.update i \<lparr>pa_chunks = [], pa_n = 0\<rparr> (dl_partials ?t)\<rparr>))"
      by (simp add: resume_restored_def None resume_send_def set_pump_def on_entry_def)
    with put [of "\<lparr>pa_chunks = [], pa_n = 0\<rparr>"] show ?thesis by (simp add: prefix_of_def)
  next
    case (Some s')
    then obtain p where p: "map_of (dl_stored s) i = Some p" "s' = s\<lparr>dl_partials := AList.update i p (dl_partials s)\<rparr>"
      by (auto simp: load_partial_def split: if_splits option.splits)
    then have "resume_restored i s = on_entry i ?send (on_entry i (\<lambda>e. e\<lparr>dl_received := int (pa_n p)\<rparr>)
        (?t\<lparr>dl_partials := AList.update i p (dl_partials ?t)\<rparr>))"
      by (simp add: resume_restored_def Some resume_send_def set_pump_def on_entry_def)
    moreover have "prefix_of F e p" if "find_entry i s = Some e" for e
      using inv_entry [OF inv that] p(1) by (auto simp: entry_ok_def)
    moreover have "i \<in> entry_ids s" using inv p(1) by (auto simp: dl_inv_def buffers_ok_def)
    ultimately show ?thesis using put [of p] by simp
  qed
qed

lemma inv_pump_done:
  "dl_inv F s \<Longrightarrow> map_of (dl_pumps s) i \<noteq> Some Restoring \<Longrightarrow> dl_inv F (pump_done i now s)"
  by (auto simp: pump_done_def intro!: inv_end_pump inv_end_entry)

lemma inv_pump_resume:
  assumes "dl_inv F s" "map_of (dl_pumps s) i = Some ph" "ph \<noteq> Restoring"
  shows "dl_inv F (pump_resume i has_body now s)"
  using assms by (auto simp: pump_resume_def omap_has_def intro!: inv_end_pump inv_mark [OF assms(1)] inv_set_pump inv_pump_done)

lemma clear_buffer_pumps [simp]: "dl_pumps (clear_buffer i s) = dl_pumps s"
  by (simp add: clear_buffer_def)

lemma inv_clear_buffer:
  assumes inv: "dl_inv F s" and nr: "map_of (dl_pumps s) i \<noteq> Some Restoring"
  shows "dl_inv F (on_entry i (\<lambda>e. e\<lparr>dl_received := 0, dl_started := now\<rparr>) (clear_buffer i s))"
proof (cases "map_of (dl_partials s) i")
  case None
  then show ?thesis using inv_count_unbuffered [OF inv None] by (simp add: clear_buffer_def omap_has_def)
next
  case (Some p)
  have "dl_inv F (on_entry i (\<lambda>e. e\<lparr>dl_received := 0, dl_started := now\<rparr>)
      (s\<lparr>dl_partials := AList.update i \<lparr>pa_chunks = [], pa_n = 0\<rparr> (dl_partials s)\<rparr>))"
  proof (rule inv_put_partial [OF inv _ nr])
    show "i \<in> dl_names s" using Some by (auto simp: dl_names_def)
    show "prefix_of F e \<lparr>pa_chunks = [], pa_n = 0\<rparr> \<and> dl_resumable e \<and>
        dl_received (e\<lparr>dl_received := 0, dl_started := now\<rparr>) = int (pa_n \<lparr>pa_chunks = [], pa_n = 0\<rparr>)"
      if "e \<in> set (dl_entries s)" "dl_id e = i" for e
      using inv that Some by (auto simp: dl_inv_def buffers_ok_def entry_ok_def prefix_of_def)
  qed simp_all
  then show ?thesis using Some by (simp add: clear_buffer_def omap_has_def)
qed

lemma inv_answer:
  assumes inv: "dl_inv F s" and ph: "map_of (dl_pumps s) i = Some Fetching"
  shows "dl_inv F (resume_answer i code cr has_body now s)"
proof -
  have nr: "map_of (dl_pumps s) i \<noteq> Some Restoring" using ph by simp
  have "dl_inv F (end_pump i (forget_partial i (end_entry i DlError now err s)))" for err
    by (intro inv_end_pump inv_forget inv_end_entry inv nr)
  moreover have "dl_inv F (end_pump i (on_entry i (\<lambda>e. e\<lparr>dl_status := DlPaused, dl_error := err\<rparr>) s))" for err
    using nr by (intro inv_end_pump inv_mark [OF inv]) auto
  moreover have "dl_inv F (pump_resume i has_body now s)"
    using inv_pump_resume [OF inv ph] by simp
  moreover have "dl_inv F (pump_resume i has_body now (on_entry i (\<lambda>e. e\<lparr>dl_received := 0, dl_started := now\<rparr>) (clear_buffer i s)))"
    using ph by (intro inv_pump_resume [where ph = Fetching] inv_clear_buffer [OF inv nr]) auto
  ultimately show ?thesis by (simp add: resume_answer_def Let_def)
qed

lemma inv_fetch_failed:
  assumes inv: "dl_inv F s" and ph: "map_of (dl_pumps s) i = Some Fetching"
  shows "dl_inv F (resume_fetch_failed i err s)"
  unfolding resume_fetch_failed_def using ph by (intro inv_end_pump inv_persist_partial inv_mark [OF inv]) auto

lemma inv_pump_failed:
  "dl_inv F s \<Longrightarrow> map_of (dl_pumps s) i = Some Pumping \<Longrightarrow> dl_inv F (pump_failed i now err s)"
  unfolding pump_failed_def by (intro inv_end_pump inv_persist_partial inv_end_entry) auto

text \<open>The history is cleared.\<close>

lemma fold_forget:
  fixes es :: "dl_entry list"
  assumes "dl_io s"
  defines "t \<equiv> fold (forget_partial \<circ> dl_id) es s"
  shows "dl_entries t = dl_entries s \<and> dl_streams t = dl_streams s \<and> dl_pumps t = dl_pumps s \<and> dl_saved t = dl_saved s
    \<and> dl_seq t = dl_seq s \<and> dl_io t = dl_io s
    \<and> map_of (dl_partials t) = (\<lambda>i. if i \<in> dl_id ` set es then None else map_of (dl_partials s) i)
    \<and> map_of (dl_stored t) = (\<lambda>i. if i \<in> dl_id ` set es then None else map_of (dl_stored s) i)"
  using assms(1) unfolding t_def
proof (induction es arbitrary: s)
  case (Cons e es)
  have "dl_io (forget_partial (dl_id e) s)" using Cons.prems by simp
  from Cons.IH [OF this] Cons.prems show ?case by (auto simp: forget_partial_def fun_eq_iff)
qed simp

lemma inv_clear:
  assumes inv: "dl_inv F s" shows "dl_inv F (snd (clear_history pu origins since s))"
proof (rule inv_gives_up [OF inv])
  let ?gone = "filter (clears pu origins since) (dl_entries s)"
  let ?s = "s\<lparr>dl_entries := filter (\<lambda>e. \<not> clears pu origins since e) (dl_entries s)\<rparr>"
  have "dl_io ?s" using inv by (simp add: dl_inv_def)
  note f = fold_forget [OF this, of "rev ?gone"]
  have t: "snd (clear_history pu origins since s) = fold (forget_partial \<circ> dl_id) (rev ?gone) ?s"
    by (simp add: clear_history_def Let_def)
  show "gives_up s (snd (clear_history pu origins since s))"
    unfolding t gives_up_def
  proof (intro conjI)
    show "\<exists>P. dl_entries (fold (forget_partial \<circ> dl_id) (rev ?gone) ?s) = filter P (dl_entries s) \<and>
       (\<forall>e \<in> set (dl_entries s). \<not> P e \<longrightarrow>
          map_of (dl_partials (fold (forget_partial \<circ> dl_id) (rev ?gone) ?s)) (dl_id e) = None \<and>
          map_of (dl_stored (fold (forget_partial \<circ> dl_id) (rev ?gone) ?s)) (dl_id e) = None)"
      using f by (intro exI [of _ "\<lambda>e. \<not> clears pu origins since e"]) auto
  qed (use f in \<open>auto simp: map_le_def split: if_splits\<close>)
qed

section \<open>Persisting and restarting\<close>

lemma status_of_status_text [simp]: "status_of_text (status_text st) = Some st"
  by (cases st) (simp_all add: status_of_text_def status_text_def)

lemma valid_record [simp]: "is_valid_entry (entry_record e) \<longleftrightarrow> dl_size e \<noteq> None"
  by (auto simp: is_valid_entry_def entry_record_def jget_def is_jstr_def is_jnum_def split: option.splits)

lemma record_entry_record [simp]: "dl_size e \<noteq> None \<Longrightarrow> record_entry (entry_record e) = e"
  by (cases e) (auto simp: record_entry_def entry_record_def jget_def jstr_of_def jnum_of_def split: option.splits)

definition persisted_map :: "url_parser \<Rightarrow> dl_entry list \<Rightarrow> (string, json) omap \<Rightarrow> (string, json) omap" where
  "persisted_map pu es saved =
     (let by_site = group_by (\<lambda>e. dl_site_key pu (dl_source e)) es
      in fold AList.delete (filter (\<lambda>k. \<not> omap_has by_site k) (map fst saved))
           (fold (\<lambda>(k, l). AList.update k (JArr (map entry_record l))) by_site saved))"

lemma persist_all: "dl_io s \<Longrightarrow> \<forall>k. ok k \<Longrightarrow> dl_persist pu ok s = s\<lparr>dl_saved := persisted_map pu (dl_entries s) (dl_saved s)\<rparr>"
  by (simp add: dl_persist_def persisted_map_def Let_def)

lemma fold_update_map:
  "omap_wf gs \<Longrightarrow> omap_wf m \<Longrightarrow>
    omap_wf (fold (\<lambda>(k, l). AList.update k (g l)) gs m) \<and>
    map_of (fold (\<lambda>(k, l). AList.update k (g l)) gs m) =
      (\<lambda>k. case map_of gs k of Some l \<Rightarrow> Some (g l) | None \<Rightarrow> map_of m k)"
proof (induction gs arbitrary: m)
  case (Cons kl gs)
  obtain k l where kl: "kl = (k, l)" by force
  have wf: "omap_wf gs" "map_of gs k = None" using Cons.prems(1) by (auto simp: omap_wf_def kl map_of_eq_None_iff)
  from Cons.IH [OF wf(1), of "AList.update k (g l) m"] Cons.prems(2) wf(2)
  show ?case by (auto simp: kl fun_eq_iff split: option.splits)
qed simp

lemma dl_fold_delete:
  "omap_wf m \<Longrightarrow> omap_wf (fold AList.delete ks m) \<and>
    map_of (fold AList.delete ks m) = (\<lambda>k. if k \<in> set ks then None else map_of m k)"
  by (induction ks arbitrary: m) (auto simp: fun_eq_iff)

lemma persisted_map_of:
  assumes "omap_wf saved"
  shows "omap_wf (persisted_map pu es saved)"
    and "map_of (persisted_map pu es saved) k =
      map_option (\<lambda>l. JArr (map entry_record l)) (map_of (group_by (\<lambda>e. dl_site_key pu (dl_source e)) es) k)"
proof -
  let ?g = "group_by (\<lambda>e. dl_site_key pu (dl_source e)) es"
  note u = fold_update_map [OF omap_wf_group_by assms, of "\<lambda>l. JArr (map entry_record l)" "\<lambda>e. dl_site_key pu (dl_source e)" es]
  note d = dl_fold_delete [of "fold (\<lambda>(k, l). AList.update k (JArr (map entry_record l))) ?g saved"]
  show "omap_wf (persisted_map pu es saved)" using u d by (simp add: persisted_map_def Let_def)
  show "map_of (persisted_map pu es saved) k = map_option (\<lambda>l. JArr (map entry_record l)) (map_of ?g k)"
  proof (cases "map_of ?g k")
    case None
    have "map_of saved k = None" if "k \<notin> fst ` set saved" using that by (simp add: map_of_eq_None_iff)
    with None show ?thesis
      using u d by (cases "k \<in> fst ` set saved") (simp_all add: persisted_map_def Let_def omap_has_def del: map_of_eq_None_iff)
  next
    case (Some l)
    then show ?thesis using u d by (simp add: persisted_map_def Let_def omap_has_def)
  qed
qed

lemma mset_concat_map_cong: "mset xs = mset ys \<Longrightarrow> mset (concat (map f xs)) = mset (concat (map f ys))"
  by (simp add: mset_concat comp_def flip: sum_mset_sum_list)

lemma valid_records: "map record_entry (filter is_valid_entry (map entry_record l)) = filter (\<lambda>e. dl_size e \<noteq> None) l"
  by (induction l) auto

abbreviation valid_of :: "json \<Rightarrow> dl_entry list" where
  "valid_of rec \<equiv> (case rec of JArr es \<Rightarrow> map record_entry (filter is_valid_entry es) | _ \<Rightarrow> [])"

lemma persisted_entries:
  assumes "omap_wf saved"
  shows "mset (concat (map (\<lambda>(k, rec). valid_of rec) (persisted_map pu es saved))) = mset (filter (\<lambda>e. dl_size e \<noteq> None) es)"
proof -
  let ?g = "group_by (\<lambda>e. dl_site_key pu (dl_source e)) es"
  let ?m = "persisted_map pu es saved"
  let ?gm = "map (\<lambda>(k, l). (k, JArr (map entry_record l))) ?g"
  have wf: "omap_wf ?m" "omap_wf ?gm" using persisted_map_of(1) [OF assms] omap_wf_group_by [of "\<lambda>e. dl_site_key pu (dl_source e)" es]
    by (auto simp: omap_wf_def comp_def case_prod_unfold)
  have "map_of ?m = map_of ?gm" using persisted_map_of(2) [OF assms, of pu es] by (auto simp: map_of_map fun_eq_iff)
  then have "set ?m = set ?gm" using wf by (simp add: omap_wf_def map_of_inject_set)
  moreover have "distinct ?m" "distinct ?gm" using wf by (auto simp: omap_wf_def intro: distinct_map [THEN iffD1, THEN conjunct1])
  ultimately have "mset ?m = mset ?gm"
    using set_eq_iff_mset_eq_distinct [of ?m ?gm] by blast
  then have "mset (concat (map (\<lambda>(k, rec). valid_of rec) ?m)) = mset (concat (map (\<lambda>(k, rec). valid_of rec) ?gm))"
    by (rule mset_concat_map_cong)
  also have "concat (map (\<lambda>(k, rec). valid_of rec) ?gm) = filter (\<lambda>e. dl_size e \<noteq> None) (concat (map snd ?g))"
    by (simp add: case_prod_unfold comp_def valid_records filter_concat)
  also have "mset \<dots> = mset (filter (\<lambda>e. dl_size e \<noteq> None) es)" by (simp add: mset_group_by)
  finally show ?thesis .
qed

lemma saved_entries_persist:
  assumes "omap_wf (dl_saved s)"
  shows "mset (saved_entries (s\<lparr>dl_saved := persisted_map pu (dl_entries s) (dl_saved s)\<rparr>))
    = mset (filter (\<lambda>e. dl_size e \<noteq> None) (dl_entries s))"
  using persisted_entries [OF assms, of pu "dl_entries s"] by (simp add: saved_entries_def)

lemma inv_persist:
  assumes inv: "dl_inv F s" and ok: "\<forall>k. ok k"
  shows "dl_inv F (dl_persist pu ok s)"
proof -
  let ?s = "s\<lparr>dl_saved := persisted_map pu (dl_entries s) (dl_saved s)\<rparr>"
  have wf: "omap_wf (dl_saved s)" and d: "distinct (map dl_id (dl_entries s))" and len: "length (dl_entries s) \<le> DL_RING"
    using inv by (simp_all add: dl_inv_def saved_ok_def ring_ok_def)
  note m = saved_entries_persist [OF wf, of pu]
  have st: "set (saved_entries ?s) \<subseteq> set (dl_entries s)"
    using mset_eq_setD [OF m] by auto
  have "mset (map dl_id (saved_entries ?s)) = mset (map dl_id (filter (\<lambda>e. dl_size e \<noteq> None) (dl_entries s)))"
    using arg_cong [OF m, of "image_mset dl_id"] by (simp only: mset_map)
  then have "distinct (map dl_id (saved_entries ?s))"
    using mset_eq_imp_distinct_iff distinct_filter_ids [OF d] by blast
  moreover have "length (saved_entries ?s) \<le> DL_RING"
    using mset_eq_length [OF m] length_filter_le [of "\<lambda>e. dl_size e \<noteq> None" "dl_entries s"] len by linarith
  moreover have "omap_wf (dl_saved ?s)" using persisted_map_of(1) [OF wf] by simp
  moreover have "dl_source e = dl_source e'"
    if "e' \<in> set (saved_entries ?s)" "e \<in> set (dl_entries s)" "dl_id e = dl_id e'" for e e'
    using same_id [OF d that(2) subsetD [OF st that(1)] that(3)] by simp
  ultimately have "saved_ok ?s" by (simp add: saved_ok_def)
  moreover have ids: "entry_ids ?s = entry_ids s" by (simp add: entry_ids_def)
  have "dl_names ?s \<subseteq> dl_names s"
    using st unfolding dl_names_def ids by (auto simp: entry_ids_def)
  then have "ring_ok ?s" using inv by (auto simp: dl_inv_def ring_ok_def)
  moreover have "buffers_ok F ?s" using inv by (simp add: dl_inv_def buffers_ok_def ids entry_ok_def)
  ultimately show ?thesis using inv ok by (simp add: persist_all dl_inv_def)
qed

lemma map_of_filter_keys: "map_of (filter (\<lambda>(k, _). k \<in> S) m) k = (if k \<in> S then map_of m k else None)"
  by (induction m) auto

lemma load_ring_entries:
  assumes "omap_wf (dl_saved s)" "length (saved_entries s) \<le> DL_RING"
  shows "mset (load_ring now (dl_saved s)) = mset (map (restore_entry now) (saved_entries s))"
proof -
  let ?f = "\<lambda>k. case map_of (dl_saved s) k of Some rec \<Rightarrow> restored_entries now rec | None \<Rightarrow> []"
  have r: "restored_entries now rec = map (restore_entry now) (valid_of rec)" for rec
    by (simp add: restored_entries_def split: json.splits)
  have "map ?f (map fst (dl_saved s)) = map (\<lambda>(k, rec). map (restore_entry now) (valid_of rec)) (dl_saved s)"
    using assms(1) r by (auto simp: omap_wf_def)
  then have "concat (map ?f (map fst (dl_saved s))) = map (restore_entry now) (saved_entries s)"
    unfolding saved_entries_def by (simp only: map_concat map_map comp_def case_prod_unfold)
  moreover have "mset (concat (map ?f (sort (map fst (dl_saved s))))) = mset (concat (map ?f (map fst (dl_saved s))))"
    by (rule mset_concat_map_cong) simp
  ultimately have m: "mset (concat (map ?f (sort (map fst (dl_saved s))))) = mset (map (restore_entry now) (saved_entries s))"
    by simp
  then have "length (concat (map ?f (sort (map fst (dl_saved s))))) \<le> DL_RING"
    using assms(2) mset_eq_length by (metis length_map)
  with m show ?thesis by (simp add: load_ring_def Let_def)
qed

lemma number_of_digits [simp]: "number_of_text (nat_digits n) = Some (int n)"
proof -
  have sp: "\<not> is_js_space c" if "c \<in> set (nat_digits n)" for c
    using nat_digits_char [OF that] by (auto simp: is_digit_def is_js_space_def)
  have "dropWhile is_js_space (nat_digits n) = nat_digits n" "dropWhile is_js_space (rev (nat_digits n)) = rev (nat_digits n)"
    using sp by (simp_all add: dropWhile_eq_self_iff hd_in_set) (metis hd_in_set rev.simps(1) rev_rev_ident set_rev)+
  then have "js_trim (nat_digits n) = nat_digits n" by (simp add: js_trim_def)
  moreover obtain c r where cr: "nat_digits n = c # r" using nat_digits_all [of n] by (cases "nat_digits n") auto
  moreover have "c \<noteq> CHR ''-''" "c \<noteq> CHR ''+''" using nat_digits_char [of c n] cr by (auto simp: is_digit_def)
  moreover have "list_all is_digit (c # r)" "digits_val (c # r) = n"
    using nat_digits_all [of n] digits_val_nat_digits [of n] by (simp_all only: cr)
  ultimately show ?thesis by (simp add: number_of_text_def)
qed

lemma fold_past_id: "n \<le> fold past_id es n \<and> (\<forall>e \<in> set es. \<forall>k. dl_id e = ''dl'' @ nat_digits k \<longrightarrow> k \<le> fold past_id es n)"
proof (induction es arbitrary: n)
  case (Cons e es)
  have "n \<le> past_id e n" by (auto simp: past_id_def split: option.splits)
  moreover have "k \<le> past_id e n" if "dl_id e = ''dl'' @ nat_digits k" for k
    using that by (simp add: past_id_def)
  ultimately show ?case using Cons.IH [of "past_id e n"] by (auto intro: order_trans)
qed simp

lemma restore_entry_simps [simp]:
  "dl_id (restore_entry now e) = dl_id e" "dl_source (restore_entry now e) = dl_source e"
  by (simp_all add: restore_entry_def)

lemma inv_restart:
  assumes inv: "dl_inv F s" shows "dl_inv F (dl_restart now s)"
proof -
  let ?es = "load_ring now (dl_saved s)"
  let ?s = "dl_restart now s"
  have wf: "omap_wf (dl_saved s)" and len: "length (saved_entries s) \<le> DL_RING"
    and d: "distinct (map dl_id (saved_entries s))" and io: "dl_io s"
    using inv by (simp_all add: dl_inv_def saved_ok_def)
  note m = load_ring_entries [OF wf len, of now]
  have s: "?s = no_downloads\<lparr>dl_saved := dl_saved s, dl_io := True, dl_entries := ?es,
      dl_stored := filter (\<lambda>(k, _). k \<in> dl_id ` set ?es) (dl_stored s), dl_seq := fold past_id ?es 0\<rparr>"
    using io by (simp add: dl_restart_def dl_load_def no_downloads_def Let_def)
  have es: "set ?es = restore_entry now ` set (saved_entries s)" using mset_eq_setD [OF m] by simp
  have sv: "saved_entries ?s = saved_entries s" by (simp add: s saved_entries_def)
  have ids: "entry_ids ?s = dl_id ` set (saved_entries s)" by (simp add: s entry_ids_def es image_image)
  have st: "map_of (dl_stored ?s) i = (if i \<in> entry_ids ?s then map_of (dl_stored s) i else None)" for i
    unfolding s by (simp add: map_of_filter_keys entry_ids_def)
  have "mset (map dl_id ?es) = mset (map dl_id (saved_entries s))"
    using arg_cong [OF m, of "image_mset dl_id"] by (simp add: image_mset.compositionality comp_def)
  then have "distinct (map dl_id ?es)" using mset_eq_imp_distinct_iff d by blast
  moreover have "dl_names ?s = entry_ids ?s"
    unfolding dl_names_def sv using st ids by (auto simp: s no_downloads_def dom_def split: if_splits)
  then have "k \<le> dl_seq ?s" if "''dl'' @ nat_digits k \<in> dl_names ?s" for k
    using that fold_past_id [of 0 ?es] by (auto simp: s entry_ids_def)
  ultimately have "ring_ok ?s" using mset_eq_length [OF m] len by (auto simp: ring_ok_def) (simp_all add: s)
  moreover have "saved_ok ?s"
    unfolding saved_ok_def sv using wf len d same_id [OF d] by (auto simp: s es)
  moreover have "entry_ok F ?s e" if e: "e \<in> set (dl_entries ?s)" for e
  proof -
    obtain e' where e': "e' \<in> set (saved_entries s)" "dl_id e' = dl_id e" "dl_source e' = dl_source e"
      using e es by (auto simp: s)
    have "prefix_of F e p" if "map_of (dl_stored ?s) (dl_id e) = Some p" for p
    proof -
      have p: "map_of (dl_stored s) (dl_id e) = Some p" using that st by (simp split: if_splits)
      then obtain e0 where e0: "e0 \<in> set (dl_entries s)" "dl_id e0 = dl_id e"
        using inv by (force simp: dl_inv_def buffers_ok_def entry_ids_def)
      then have "dl_source e0 = dl_source e" using inv e' by (auto simp: dl_inv_def saved_ok_def)
      moreover have "entry_ok F s e0" using inv e0(1) by (simp add: dl_inv_def buffers_ok_def)
      ultimately show ?thesis using p e0(2) by (auto simp: entry_ok_def prefix_of_def)
    qed
    then show ?thesis by (auto simp: entry_ok_def) (simp_all add: s no_downloads_def)
  qed
  then have "buffers_ok F ?s"
    unfolding buffers_ok_def using st by (auto simp: dom_def split: if_splits) (simp add: s no_downloads_def)
  ultimately show ?thesis by (simp add: dl_inv_def) (simp add: s)
qed

section \<open>Main properties\<close>

text \<open>
  The upstream serves the file behind each source from the position asked for, and the stores work.
  A partial that \<open>assemble\<close> reads back is excluded: see \<open>assembled_partial_corrupts\<close>.
\<close>

definition honest :: "(string \<Rightarrow> byte list) \<Rightarrow> downloads \<Rightarrow> dl_event \<Rightarrow> bool" where
  "honest F s ev =
     (case ev of
        DlChunk i chunk \<Rightarrow> honest_chunk F i chunk s
      | DlPumpChunk i chunk \<Rightarrow> honest_chunk F i chunk s
      | DlAssembled i \<Rightarrow> load_partial i s = None
      | DlPersist ok \<Rightarrow> \<forall>k. ok k
      | DlStorage on \<Rightarrow> on
      | _ \<Rightarrow> True)"

lemma inv_step:
  assumes inv: "dl_inv F s" and h: "honest F s ev"
  shows "dl_inv F (dl_step pu b ev s)"
proof (cases ev)
  case (DlAdopt target has_body hd out now)
  then show ?thesis using inv_adopt [OF inv] inv by (auto split: option.splits)
next
  case DlWire
  have "dl_inv F (s\<lparr>dl_wired := True\<rparr>)" using inv by (rule inv_same) auto
  then show ?thesis using DlWire by simp
next
  case (DlAssemble i)
  have "dl_inv F (s\<lparr>dl_assembling := xs\<rparr>)" for xs using inv by (rule inv_same) auto
  then show ?thesis using DlAssemble inv by (auto simp: dl_assemble_def split: option.splits)
next
  case (DlAssembled i)
  have "dl_inv F (s\<lparr>dl_assembling := xs\<rparr>)" for xs using inv by (rule inv_same) auto
  then show ?thesis using DlAssembled h inv
    by (auto simp: dl_assembled_def honest_def load_partial_def Let_def split: option.splits if_splits)
next
  case (DlPersist ok)
  then show ?thesis using inv_persist [OF inv] h by (simp add: honest_def)
next
  case (DlStorage on)
  have "s\<lparr>dl_io := True\<rparr> = s" using inv by (simp add: dl_inv_def)
  then show ?thesis using DlStorage inv h by (simp add: honest_def)
qed (use inv h in \<open>auto simp: honest_def stream_chunk_def pump_chunk_def split: option.splits
  intro!: inv_buffer_chunk inv_flush inv_settled inv_cancel inv_pause inv_resume inv_restored inv_answer
    inv_fetch_failed inv_pump_done inv_pump_failed inv_clear inv_restart\<close>)

lemma inv_start: "dl_inv F no_downloads"
  by (simp add: dl_inv_def no_downloads_def ring_ok_def saved_ok_def buffers_ok_def entry_ids_def saved_entries_def dl_names_def)

lemma honest_run_inv: "dl_along pu b (honest F) evs no_downloads \<Longrightarrow> dl_inv F (dl_run pu b evs no_downloads)"
  by (rule dl_run_induct [where P = "honest F"]) (auto intro: inv_start inv_step)

text \<open>C10. In a run whose upstream serves the same file from the position asked for, whose stores never fail or are switched off, and in which no call to assemble finds a stored partial to read back, every artifact the registry hands out is exactly the first bytes of that file, as many as its entry counts, through pauses, resumes, failed fetches and pumps, evictions and restarts. With a partial that assemble reads back it does not hold: \<open>assembled_partial_corrupts\<close>.\<close>

theorem artifact_is_prefix:
  assumes "dl_along pu b (honest F) evs no_downloads"
    and "s = dl_run pu b evs no_downloads" "e \<in> set (dl_entries s)" "artifact (dl_id e) s = Some bytes"
  shows "bytes = take (nat (dl_received e)) (F (dl_source e))"
proof -
  have "entry_ok F s e" using honest_run_inv [OF assms(1)] assms(2,3) by (simp add: dl_inv_def buffers_ok_def)
  then show ?thesis using assms(4)
    by (auto simp: artifact_def entry_ok_def prefix_of_def split: option.splits if_splits)
qed

text \<open>A worker that restarts after a flush finds every entry of a known size again, the active ones marked as interrupted.\<close>

theorem restart_restores_ring:
  assumes "dl_io s" "omap_wf (dl_saved s)" "length (dl_entries s) \<le> DL_RING"
  shows "mset (dl_entries (dl_restart now (dl_persist pu (\<lambda>_. True) s)))
    = mset (map (restore_entry now) (filter (\<lambda>e. dl_size e \<noteq> None) (dl_entries s)))"
proof -
  let ?s = "s\<lparr>dl_saved := persisted_map pu (dl_entries s) (dl_saved s)\<rparr>"
  have p: "dl_persist pu (\<lambda>_. True) s = ?s" using assms(1) by (simp add: persist_all)
  note m = saved_entries_persist [OF assms(2), of pu]
  have ok: "omap_wf (dl_saved ?s)" "length (saved_entries ?s) \<le> DL_RING" "dl_io ?s"
    using assms persisted_map_of(1) [OF assms(2)] mset_eq_length [OF m]
      length_filter_le [of "\<lambda>e. dl_size e \<noteq> None" "dl_entries s"] by (simp, linarith, simp)
  have "mset (map (restore_entry now) (saved_entries ?s)) = mset (map (restore_entry now) (filter (\<lambda>e. dl_size e \<noteq> None) (dl_entries s)))"
    using m by (simp only: mset_map)
  moreover have "dl_entries (dl_restart now ?s) = load_ring now (dl_saved ?s)"
    using ok(3) by (simp add: dl_restart_def dl_load_def Let_def)
  ultimately show ?thesis unfolding p using load_ring_entries [OF ok(1,2), of now] by simp
qed

text \<open>C29. A paused download whose partial is in memory (not one only the store holds, as after a restart) completes when the upstream answers 206 from the byte it stopped at and sends the rest, which is not empty, as one chunk with no other event between, for a file of at most 64 MiB and with room in the buffer budget: the entry is done and the artifact is the whole file.\<close>

theorem resume_completes:
  assumes "dl_along pu b (honest F) evs no_downloads" "s = dl_run pu b evs no_downloads"
    and can: "resume_refusal i s = None" and e: "find_entry i s = Some e"
    and p: "map_of (dl_partials s) i = Some p"
    and rest: "rest = drop (pa_n p) (F (dl_source e))" "rest \<noteq> []" "pa_n p \<le> length (F (dl_source e))"
    and room: "length (F (dl_source e)) \<le> ZL_DL_RESUME_MAX" "buffered_bytes s + length rest \<le> b"
    and cr: "range_start cr = Some (pa_n p)"
  shows "\<exists>e'. find_entry i (dl_run pu b [DlResume i, DlAnswer i 206 (Some cr) True now, DlPumpChunk i rest, DlPumpEnd i now'] s) = Some e'
      \<and> dl_status e' = DlDone \<and> dl_received e' = int (length (F (dl_source e)))
      \<and> artifact i (dl_run pu b [DlResume i, DlAnswer i 206 (Some cr) True now, DlPumpChunk i rest, DlPumpEnd i now'] s) = Some (F (dl_source e))"
proof -
  have inv: "dl_inv F s" using honest_run_inv [OF assms(1)] assms(2) by simp
  have ok: "dl_received e = int (pa_n p)" "dl_resumable e" "concat (pa_chunks p) = take (pa_n p) (F (dl_source e))"
    using inv_entry [OF inv e] p by (auto simp: entry_ok_def prefix_of_def)
  let ?g = "\<lambda>e. e\<lparr>dl_status := DlActive, dl_error := None\<rparr>"
  let ?s1 = "set_pump i Fetching (on_entry i ?g s)"
  let ?s2 = "set_pump i Pumping ?s1"
  let ?s3 = "add_chunk i rest p (on_entry i (count_bytes_of rest) ?s2)"
  have f: "find_entry i (set_pump j ph t) = find_entry i t" "find_entry i (end_pump j t) = find_entry i t"
    "find_entry i (add_chunk j c q t) = find_entry i t" for t j ph c q
    by (simp_all add: find_entry_def set_pump_def end_pump_def add_chunk_def)
  have pm: "dl_pumps (set_pump i ph t) = AList.update i ph (dl_pumps t)" for ph t by (simp add: set_pump_def)
  have 1: "dl_step pu b (DlResume i) s = ?s1" using can p by (simp add: dl_resume_def resume_send_def omap_has_def)
  have 2: "dl_step pu b (DlAnswer i 206 (Some cr) True now) ?s1 = ?s2"
    using e p cr ok(1) by (simp add: pm resume_answer_def f find_on_entry pump_resume_def omap_has_def)
  have "buffered_bytes (on_entry i (count_bytes_of rest) ?s2) = buffered_bytes s" by (simp add: buffered_bytes_def)
  then have 3: "dl_step pu b (DlPumpChunk i rest) ?s2 = ?s3"
    using e p ok(2) rest room by (simp add: pm pump_chunk_def buffer_chunk_def f find_on_entry admit_bytes_def)
  have 4: "dl_step pu b (DlPumpEnd i now') ?s3 = end_pump i (end_entry i DlDone now' None ?s3)"
    using p by (simp add: pm pump_done_def omap_has_def)
  have len: "int (pa_n p) + int (length rest) = int (length (F (dl_source e)))" using rest(1,3) by simp
  have run: "dl_run pu b [DlResume i, DlAnswer i 206 (Some cr) True now, DlPumpChunk i rest, DlPumpEnd i now'] s
      = end_pump i (end_entry i DlDone now' None ?s3)"
    unfolding dl_run_def by (simp only: fold_simps 1 2 3 4)
  have "find_entry i (end_pump i (end_entry i DlDone now' None ?s3)) =
      Some ((count_bytes_of rest (?g e))\<lparr>dl_status := DlDone, dl_ended := now', dl_error := None\<rparr>)"
    using e by (simp add: end_entry_def f find_on_entry)
  moreover have "artifact i (end_pump i (end_entry i DlDone now' None ?s3)) = Some (F (dl_source e))"
    using rest ok(3) by (auto simp: artifact_def)
  ultimately show ?thesis unfolding run using len ok(1) by simp
qed

section \<open>Concrete runs\<close>

lemmas dl_filename_eval = download_filename_def ext_filename_def cd_match_def hget_def js_lower_def lower_char_def
  truthy_def path_filename_def ext_filename_at_def key_eq_def word_ci_def quoted_filename_at_def token_filename_at_def

lemmas dl_eval = adopt_response_def dl_begin_def new_entry_def dl_wrap_def is_ad_artefact_def
  find_entry_def entry_is_def on_entry_def flowing_def stream_chunk_def buffer_chunk_def admit_bytes_def add_chunk_def
  buffered_bytes_def ZL_DL_RESUME_MAX_def DL_RING_def dl_pause_def persist_partial_def sever_stream_def omap_has_def
  stream_settled_def dl_resume_def resume_refusal_def resume_send_def set_pump_def resume_answer_def pump_resume_def
  clear_buffer_def pump_failed_def end_entry_def end_pump_def pump_chunk_def pump_done_def artifact_def
  load_partial_def dl_assemble_def dl_assembled_def dl_cancel_def forget_partial_def resume_fetch_failed_def
  drop_buffer_def buffer_victims_def Let_def

definition dl_headers :: headers where
  "dl_headers = [(''content-disposition'', ''attachment'')]"

definition first_entry :: dl_entry where
  "first_entry = \<lparr>dl_id = ''dl1'', dl_filename = ''download'', dl_mime = ''application/octet-stream'', dl_size = Some (-1),
     dl_received = 0, dl_started = 5, dl_ended = 0, dl_status = DlActive, dl_resumable = True, dl_source = ''u'', dl_error = None\<rparr>"

definition first_download :: downloads where
  "first_download =
     no_downloads\<lparr>dl_wired := True, dl_seq := 1, dl_entries := [first_entry], dl_streams := [''dl1''],
      dl_pipes := [(''dl1'', False)], dl_partials := [(''dl1'', \<lparr>pa_chunks = [], pa_n = 0\<rparr>)]\<rparr>"

lemma nat_digits_one: "nat_digits (Suc 0) = ''1''" by code_simp

lemma first_adoption:
  "dl_step (\<lambda>_. None) b (DlAdopt ''u'' True [] dl_headers 5) (no_downloads\<lparr>dl_wired := True\<rparr>) = first_download"
  by (simp add: dl_eval dl_filename_eval dl_headers_def first_entry_def no_downloads_def first_download_def nat_digits_one)

definition first_events :: "dl_event list" where
  "first_events = [DlWire, DlAdopt ''u'' True [] dl_headers 5]"

lemma first_run: "dl_run (\<lambda>_. None) b (first_events @ evs) no_downloads = dl_run (\<lambda>_. None) b evs first_download"
  by (simp only: dl_run_def first_events_def append_Cons append_Nil fold_simps dl_step.simps(7) first_adoption)

lemma first_along:
  "dl_along (\<lambda>_. None) b P (first_events @ evs) no_downloads \<longleftrightarrow>
    P no_downloads DlWire \<and> P (no_downloads\<lparr>dl_wired := True\<rparr>) (DlAdopt ''u'' True [] dl_headers 5)
    \<and> dl_along (\<lambda>_. None) b P evs first_download"
  by (simp only: first_events_def append_Cons append_Nil dl_along.simps dl_step.simps(7) first_adoption)

text \<open>A paused download: two of three bytes are there.\<close>

definition paused_events :: "dl_event list" where
  "paused_events = [DlChunk ''dl1'' [1, 2], DlPause ''dl1'' 6, DlSettled ''dl1'' True 7]"

definition paused_download :: downloads where
  "paused_download = first_download\<lparr>
     dl_entries := [first_entry\<lparr>dl_received := 2, dl_status := DlPaused, dl_ended := 6\<rparr>],
     dl_streams := [], dl_pipes := [], dl_partials := [(''dl1'', \<lparr>pa_chunks = [[1, 2]], pa_n = 2\<rparr>)],
     dl_stored := [(''dl1'', \<lparr>pa_chunks = [[1, 2]], pa_n = 2\<rparr>)]\<rparr>"

lemma paused_run: "dl_run (\<lambda>_. None) 10 paused_events first_download = paused_download"
  by (simp add: dl_run_def paused_events_def dl_eval first_download_def first_entry_def no_downloads_def paused_download_def)

lemma paused_honest: "dl_along (\<lambda>_. None) 10 (honest (\<lambda>_. [1, 2, 3])) paused_events first_download"
  by (simp add: paused_events_def dl_eval first_download_def first_entry_def no_downloads_def honest_def honest_chunk_def)

lemma paused_from_start:
  "dl_along (\<lambda>_. None) 10 (honest (\<lambda>_. [1, 2, 3])) (first_events @ paused_events) no_downloads"
  "dl_run (\<lambda>_. None) 10 (first_events @ paused_events) no_downloads = paused_download"
  by (simp_all only: first_along first_run paused_run paused_honest) (simp add: honest_def)

theorem buffer_within_budget_witness:
  "buffered_bytes (dl_run (\<lambda>_. None) 1 (first_events @ [DlChunk ''dl1'' [1, 2]]) no_downloads) \<le> 1"
  by (rule buffer_within_budget)
    (simp only: first_along, simp add: reads_store_def)

theorem artifact_is_prefix_witness:
  "[1, 2] = take (nat (dl_received (hd (dl_entries paused_download)))) ([1, 2, 3] :: byte list)"
  using artifact_is_prefix [OF paused_from_start(1) paused_from_start(2) [symmetric], of "hd (dl_entries paused_download)" "[1, 2]"]
  by (simp add: paused_download_def artifact_def first_entry_def)

theorem restart_restores_ring_witness:
  "mset (dl_entries (dl_restart 9 (dl_persist (\<lambda>_. None) (\<lambda>_. True) first_download)))
    = {#restore_entry 9 first_entry#}"
  using restart_restores_ring [of first_download 9 "\<lambda>_. None"]
  by (simp add: first_download_def no_downloads_def first_entry_def DL_RING_def)

theorem resume_completes_witness:
  "artifact ''dl1'' (dl_run (\<lambda>_. None) 10 [DlResume ''dl1'', DlAnswer ''dl1'' 206 (Some ''bytes 2-2/3'') True 8,
     DlPumpChunk ''dl1'' [3], DlPumpEnd ''dl1'' 9] paused_download) = Some [1, 2, 3]"
proof -
  have "resume_refusal ''dl1'' paused_download = None"
    by (simp add: resume_refusal_def paused_download_def first_download_def no_downloads_def find_entry_def omap_has_def first_entry_def)
  moreover have "find_entry ''dl1'' paused_download = Some (first_entry\<lparr>dl_received := 2, dl_status := DlPaused, dl_ended := 6\<rparr>)"
    by (simp add: find_entry_def paused_download_def first_entry_def)
  moreover have "range_start ''bytes 2-2/3'' = Some 2" by code_simp
  moreover have "map_of (dl_partials paused_download) ''dl1'' = Some \<lparr>pa_chunks = [[1, 2]], pa_n = 2\<rparr>"
    by (simp add: paused_download_def)
  moreover have "buffered_bytes paused_download = 2" by (simp add: paused_download_def buffered_bytes_def)
  ultimately show ?thesis
    using resume_completes [OF paused_from_start(1) paused_from_start(2) [symmetric], of "''dl1''"
        "first_entry\<lparr>dl_received := 2, dl_status := DlPaused, dl_ended := 6\<rparr>" "\<lparr>pa_chunks = [[1, 2]], pa_n = 2\<rparr>" "[3]" "''bytes 2-2/3''" 8 9]
    by (auto simp: ZL_DL_RESUME_MAX_def)
qed

text \<open>
  Resuming from a full answer empties the buffer, and a body that breaks at once leaves nothing to
  store: the old stored partial survives. After a restart \<open>assemble\<close> reads it back without counting
  it, and the next resume asks for the file from the start: the artifact begins twice.
\<close>

definition restarted_download :: downloads where
  "restarted_download = no_downloads\<lparr>dl_wired := True, dl_seq := 1,
     dl_entries := [first_entry\<lparr>dl_started := 9, dl_ended := 10, dl_status := DlPaused, dl_error := Some ''resume interrupted: x''\<rparr>],
     dl_stored := [(''dl1'', \<lparr>pa_chunks = [[1, 2]], pa_n = 2\<rparr>)]\<rparr>"

lemma broken_restart_leaves_partial:
  "let s = dl_run (\<lambda>_. None) 10 [DlResume ''dl1'', DlAnswer ''dl1'' 200 None True 9, DlPumpFailed ''dl1'' 10 ''x''] paused_download
   in dl_entries s = dl_entries restarted_download \<and> dl_stored s = dl_stored restarted_download"
  by (simp add: dl_run_def dl_eval paused_download_def restarted_download_def first_download_def first_entry_def no_downloads_def)

lemma assembled_partial_corrupts:
  "artifact ''dl1'' (dl_run (\<lambda>_. None) 10 [DlAssemble ''dl1'', DlAssembled ''dl1'', DlResume ''dl1'',
      DlAnswer ''dl1'' 206 (Some ''bytes 0-2/3'') True 12, DlPumpChunk ''dl1'' [1, 2, 3], DlPumpEnd ''dl1'' 13] restarted_download)
    = Some [1, 2, 1, 2, 3]"
proof -
  have "range_start ''bytes 0-2/3'' = Some 0" by code_simp
  then show ?thesis
    by (simp add: dl_run_def dl_eval restarted_download_def first_entry_def no_downloads_def)
qed

text \<open>A download cancelled while its resume waits for the answer comes back as a paused one.\<close>

lemma cancelled_resume_revives:
  "map dl_status (dl_entries (dl_run (\<lambda>_. None) 10 [DlResume ''dl1'', DlCancel ''dl1'' 8, DlFetchFailed ''dl1'' ''x''] paused_download))
    = [DlPaused]"
  by (simp add: dl_run_def dl_eval paused_download_def first_download_def first_entry_def no_downloads_def)

text \<open>A pause does not reach a running pump: the entry ends as done.\<close>

lemma paused_pump_ends_done:
  "map dl_status (dl_entries (dl_run (\<lambda>_. None) 10 [DlResume ''dl1'', DlAnswer ''dl1'' 200 None True 8, DlPause ''dl1'' 9,
      DlPumpChunk ''dl1'' [1, 2, 3], DlPumpEnd ''dl1'' 10] paused_download)) = [DlDone]"
  by (simp add: dl_run_def dl_eval paused_download_def first_download_def first_entry_def no_downloads_def)

text \<open>The answer to a range request is pumped whatever its status: an error page becomes the artifact.\<close>

lemma error_page_saved:
  "artifact ''dl1'' (dl_run (\<lambda>_. None) 10 [DlResume ''dl1'', DlAnswer ''dl1'' 404 None True 8,
      DlPumpChunk ''dl1'' [9], DlPumpEnd ''dl1'' 10] paused_download) = Some [9]"
  by (simp add: dl_run_def dl_eval paused_download_def first_download_def first_entry_def no_downloads_def)

text \<open>With every slot live the new entry itself is the first idle one, and is evicted at once.\<close>

lemma full_ring_loses_new:
  assumes "length (dl_entries s) = DL_RING" "ring_ok s"
    and "\<forall>e \<in> set (dl_entries s). dl_id e \<in> set (dl_streams s)"
  shows "dl_entries (snd (dl_begin pu source h mime len now s)) = dl_entries s"
proof -
  let ?i = "''dl'' @ nat_digits (Suc (dl_seq s))"
  have fresh: "?i \<notin> dl_names s" using assms(2) unfolding ring_ok_def by (metis Suc_n_not_le_n)
  then have new: "?i \<notin> set (dl_streams s)" "\<not> omap_has (dl_pumps s) ?i" "?i \<notin> dl_id ` set (dl_entries s)"
    by (auto simp: dl_names_def entry_ids_def omap_has_def dom_def)
  have none: "find (\<lambda>e. dl_id e \<notin> set (dl_streams s) \<and> \<not> omap_has (dl_pumps s) (dl_id e)) (dl_entries s) = None"
    using assms(3) by (auto simp: find_None_iff)
  have app: "find P (xs @ [x]) = (case find P xs of Some y \<Rightarrow> Some y | None \<Rightarrow> if P x then Some x else None)" for P xs and x :: dl_entry
    by (induction xs) auto
  let ?e = "new_entry pu source h mime len now ?i"
  have "dl_id ?e = ?i" by (simp add: new_entry_def)
  moreover from this have "?e \<notin> set (dl_entries s)" using new(3) by (metis image_eqI)
  ultimately show ?thesis
    using new none assms(1) by (simp add: dl_begin_def Let_def evict_idle_def app remove1_append)
qed

end
