(* ===== verification/WsBridge.thy ===== *)
theory WsBridge
  imports Codec
begin

text \<open>
  The WebSocket bridge (\<open>src/app/src/wsbridge.ts\<close>): the registry of connections, the page's port, the
  transport's handle, the accounting hooks and the keepalive watchdog. A call of the page, a callback
  of the transport or a tick of the watchdog is one event; what the bridge does to the outside goes,
  in order, into a log. How the transport answers a call (a throw, its write watermark, the time of
  the last pong) is part of the event. A port is opened once: it is transferred with its request.
  The trace hook and the times of the hooks are not modelled.
\<close>

section \<open>State\<close>

datatype ws_data = WsText string | WsBytes "byte list" | WsOpaque

definition byte_size :: "ws_data \<Rightarrow> nat" where
  "byte_size d = (case d of WsText t \<Rightarrow> length (utf8_encode t) | WsBytes b \<Rightarrow> length b | WsOpaque \<Rightarrow> 0)"

datatype ws_post =
  PostOpen string | PostData ws_data | PostDrain int | PostError string | PostClose int bool "string option"

datatype ws_out =
  HookAttempt | HookReady string | HookBytes nat nat | HookClose int bool
  | HandleSend ws_data | HandlePing | HandleClose int string
  | Posted ws_post | PortClosed

record ws_conn =
  wc_url :: string
  wc_ready :: bool
  wc_pending :: "ws_data list"
  wc_armed :: bool
  wc_missed :: nat
  wc_last_pong :: int
  wc_drain_acked :: int

record ws_bridge =
  wb_conns :: "(nat, ws_conn) omap"
  wb_ports :: "nat list"
  wb_log :: "(nat \<times> ws_out) list"

definition new_bridge :: ws_bridge where
  "new_bridge = \<lparr>wb_conns = [], wb_ports = [], wb_log = []\<rparr>"

definition ws_emit :: "nat \<Rightarrow> ws_out list \<Rightarrow> ws_bridge \<Rightarrow> ws_bridge" where
  "ws_emit p outs s = s\<lparr>wb_log := wb_log s @ map (Pair p) outs\<rparr>"

definition set_conn :: "nat \<Rightarrow> ws_conn \<Rightarrow> ws_bridge \<Rightarrow> ws_bridge" where
  "set_conn p c s = s\<lparr>wb_conns := AList.update p c (wb_conns s)\<rparr>"

section \<open>Operations\<close>

text \<open>The connection leaves the registry first; an abnormal end closes the handle.\<close>

definition ws_end :: "nat \<Rightarrow> int \<Rightarrow> bool \<Rightarrow> string option \<Rightarrow> ws_bridge \<Rightarrow> ws_bridge" where
  "ws_end p code clean reason s =
     (case map_of (wb_conns s) p of
        None \<Rightarrow> s
      | Some c \<Rightarrow>
          ws_emit p ((if clean then [] else [HandleClose 1000 ''bridge terminated''])
              @ [HookClose code clean, Posted (PostClose code clean reason), PortClosed])
            (s\<lparr>wb_conns := AList.delete p (wb_conns s)\<rparr>))"

text \<open>The factory returns a handle or throws.\<close>

definition ws_open :: "nat \<Rightarrow> string \<Rightarrow> string option \<Rightarrow> ws_bridge \<Rightarrow> ws_bridge" where
  "ws_open p url thrown s =
     (let s = ws_emit p [HookAttempt] (s\<lparr>wb_ports := wb_ports s @ [p]\<rparr>)
      in case thrown of
           None \<Rightarrow> set_conn p \<lparr>wc_url = url, wc_ready = False, wc_pending = [], wc_armed = False, wc_missed = 0,
                     wc_last_pong = 0, wc_drain_acked = 0\<rparr> s
         | Some err \<Rightarrow>
             ws_emit p [HookClose 1006 False, Posted (PostError err), Posted (PostClose 1006 False None), PortClosed] s)"

text \<open>How \<open>handle.send\<close> ends: a throw, or success with what \<open>drainAt\<close> reports afterwards.\<close>

datatype send_outcome = SendThrows string | SendOk "int option"

definition ws_acked :: "ws_conn \<Rightarrow> ws_data \<Rightarrow> int option \<Rightarrow> int \<times> ws_conn" where
  "ws_acked c d drain =
     (case drain of
        Some accepted \<Rightarrow>
          if 0 \<le> accepted then (max 0 (accepted - wc_drain_acked c), c\<lparr>wc_drain_acked := accepted\<rparr>)
          else (int (byte_size d), c)
      | None \<Rightarrow> (int (byte_size d), c))"

definition ws_send_on :: "nat \<Rightarrow> ws_data \<Rightarrow> send_outcome \<Rightarrow> ws_conn \<Rightarrow> ws_bridge \<Rightarrow> bool \<times> ws_bridge" where
  "ws_send_on p d outcome c s =
     (case outcome of
        SendThrows err \<Rightarrow> (False, ws_end p 1006 False (Some ''send failed'') (ws_emit p [Posted (PostError err)] s))
      | SendOk drain \<Rightarrow>
          let (acked, c) = ws_acked c d drain
          in (True, ws_emit p [HandleSend d, HookBytes 0 (byte_size d), Posted (PostDrain acked)] (set_conn p c s)))"

text \<open>The flush after the handshake stops at the first send that fails.\<close>

fun ws_flush :: "nat \<Rightarrow> ws_data list \<Rightarrow> send_outcome list \<Rightarrow> ws_bridge \<Rightarrow> ws_bridge" where
  "ws_flush p [] outcomes s = s"
| "ws_flush p (d # ds) outcomes s =
     (case map_of (wb_conns s) p of
        None \<Rightarrow> s
      | Some c \<Rightarrow>
          (case ws_send_on p d (case outcomes of o1 # _ \<Rightarrow> o1 | [] \<Rightarrow> SendOk None) c s of
             (True, s') \<Rightarrow> ws_flush p ds (tl outcomes) s'
           | (False, s') \<Rightarrow> s'))"

text \<open>\<open>pong\<close>: the transport can ping and observe pongs, and the last pong it has seen.\<close>

definition ws_on_open :: "bool \<Rightarrow> nat \<Rightarrow> string \<Rightarrow> int option \<Rightarrow> send_outcome list \<Rightarrow> ws_conn \<Rightarrow> ws_bridge \<Rightarrow> ws_bridge" where
  "ws_on_open ka p protocol pong outcomes c s =
     (let c' = (case pong of
                  Some t \<Rightarrow> if ka then c\<lparr>wc_ready := True, wc_last_pong := t, wc_armed := True\<rparr> else c\<lparr>wc_ready := True\<rparr>
                | None \<Rightarrow> c\<lparr>wc_ready := True\<rparr>)
      in ws_flush p (wc_pending c) outcomes
           (ws_emit p [HookReady protocol, Posted (PostOpen protocol)] (set_conn p (c'\<lparr>wc_pending := []\<rparr>) s)))"

definition ws_on_message :: "nat \<Rightarrow> ws_data \<Rightarrow> ws_conn \<Rightarrow> ws_bridge \<Rightarrow> ws_bridge" where
  "ws_on_message p d c s =
     ws_emit p [HookBytes (byte_size d) 0, Posted (PostData d)] (set_conn p (c\<lparr>wc_missed := 0\<rparr>) s)"

definition ws_on_error :: "nat \<Rightarrow> string \<Rightarrow> ws_conn \<Rightarrow> ws_bridge \<Rightarrow> ws_bridge" where
  "ws_on_error p err c s =
     (let s = ws_emit p [Posted (PostError err)] s
      in if wc_ready c then s else ws_end p 1006 False (Some err) s)"

definition ws_page_send :: "nat \<Rightarrow> ws_data \<Rightarrow> send_outcome \<Rightarrow> ws_conn \<Rightarrow> ws_bridge \<Rightarrow> ws_bridge" where
  "ws_page_send p d outcome c s =
     (if wc_ready c then snd (ws_send_on p d outcome c s) else set_conn p (c\<lparr>wc_pending := wc_pending c @ [d]\<rparr>) s)"

definition ws_page_close :: "nat \<Rightarrow> int option \<Rightarrow> string option \<Rightarrow> bool \<Rightarrow> ws_bridge \<Rightarrow> ws_bridge" where
  "ws_page_close p code reason throws s =
     (if throws then ws_end p 1006 False (Some ''send failed'') s
      else ws_emit p [HandleClose (case code of Some n \<Rightarrow> n | None \<Rightarrow> 1000) (case reason of Some r \<Rightarrow> r | None \<Rightarrow> [])] s)"

definition ws_tick :: "nat \<Rightarrow> nat \<Rightarrow> int \<Rightarrow> bool \<Rightarrow> ws_conn \<Rightarrow> ws_bridge \<Rightarrow> ws_bridge" where
  "ws_tick misses p ponged ping_ok c s =
     (let missed = (if wc_last_pong c < ponged then 0 else Suc (wc_missed c));
          s = set_conn p (c\<lparr>wc_missed := missed, wc_last_pong := ponged\<rparr>) s
      in if misses \<le> missed then ws_end p 1006 False (Some ''keepalive timeout'') s
         else let s = ws_emit p [HandlePing] s
              in if ping_ok then s else ws_end p 1006 False (Some ''keepalive send failed'') s)"

definition ws_close_all :: "ws_bridge \<Rightarrow> ws_bridge" where
  "ws_close_all s =
     fold (\<lambda>p s. ws_end p 1000 True (Some ''teardown'') (ws_emit p [HandleClose 1000 ''teardown''] s)) (map fst (wb_conns s)) s"

section \<open>Events\<close>

datatype ws_event =
  WsOpen nat string "string option"
  | WsPageSend nat ws_data send_outcome
  | WsPageClose nat "int option" "string option" bool
  | WsOnOpen nat string "int option" "send_outcome list"
  | WsOnMessage nat ws_data
  | WsOnClose nat int string bool
  | WsOnError nat string
  | WsTick nat int bool
  | WsCloseAll

definition on_conn :: "nat \<Rightarrow> (ws_conn \<Rightarrow> ws_bridge \<Rightarrow> ws_bridge) \<Rightarrow> ws_bridge \<Rightarrow> ws_bridge" where
  "on_conn p f s = (case map_of (wb_conns s) p of Some c \<Rightarrow> f c s | None \<Rightarrow> s)"

fun ws_step :: "bool \<Rightarrow> nat \<Rightarrow> ws_event \<Rightarrow> ws_bridge \<Rightarrow> ws_bridge" where
  "ws_step ka misses (WsOpen p url thrown) s = (if p \<in> set (wb_ports s) then s else ws_open p url thrown s)"
| "ws_step ka misses (WsPageSend p d outcome) s = on_conn p (ws_page_send p d outcome) s"
| "ws_step ka misses (WsPageClose p code reason throws) s = on_conn p (\<lambda>_. ws_page_close p code reason throws) s"
| "ws_step ka misses (WsOnOpen p protocol pong outcomes) s = on_conn p (ws_on_open ka p protocol pong outcomes) s"
| "ws_step ka misses (WsOnMessage p d) s = on_conn p (ws_on_message p d) s"
| "ws_step ka misses (WsOnClose p code reason clean) s = ws_end p code clean (Some reason) s"
| "ws_step ka misses (WsOnError p err) s = on_conn p (ws_on_error p err) s"
| "ws_step ka misses (WsTick p ponged ping_ok) s =
     on_conn p (\<lambda>c s. if wc_armed c then ws_tick misses p ponged ping_ok c s else s) s"
| "ws_step ka misses WsCloseAll s = ws_close_all s"

definition ws_run :: "bool \<Rightarrow> nat \<Rightarrow> ws_event list \<Rightarrow> ws_bridge \<Rightarrow> ws_bridge" where
  "ws_run ka misses evs s = fold (ws_step ka misses) evs s"

section \<open>What happens on one port\<close>

definition outs :: "nat \<Rightarrow> ws_bridge \<Rightarrow> ws_out list" where
  "outs p s = map snd (filter (\<lambda>(q, _). q = p) (wb_log s))"

definition ws_live :: "nat \<Rightarrow> ws_bridge \<Rightarrow> bool" where
  "ws_live p s \<longleftrightarrow> map_of (wb_conns s) p \<noteq> None"

definition is_close :: "ws_out \<Rightarrow> bool" where
  "is_close x \<longleftrightarrow> (\<exists>code clean. x = HookClose code clean) \<or> (\<exists>code clean r. x = Posted (PostClose code clean r)) \<or> x = PortClosed"

lemma outs_emit [simp]: "outs p (ws_emit q xs s) = (if p = q then outs p s @ xs else outs p s)"
  by (induction xs) (auto simp: outs_def ws_emit_def filter_map comp_def)

lemma outs_set_conn [simp]: "outs p (set_conn q c s) = outs p s"
  by (simp add: outs_def set_conn_def)

lemma conns_emit [simp]: "wb_conns (ws_emit q xs s) = wb_conns s" "wb_ports (ws_emit q xs s) = wb_ports s"
  by (simp_all add: ws_emit_def)

lemma conns_set_conn [simp]:
  "wb_conns (set_conn q c s) = AList.update q c (wb_conns s)" "wb_ports (set_conn q c s) = wb_ports s"
  by (simp_all add: set_conn_def)

section \<open>One close per attempt\<close>

definition closed_once :: "ws_out list \<Rightarrow> bool" where
  "closed_once xs \<longleftrightarrow>
     (\<exists>code clean r. filter is_close xs = [HookClose code clean, Posted (PostClose code clean r), PortClosed])
     \<and> xs \<noteq> [] \<and> last xs = PortClosed"

definition port_ok :: "nat \<Rightarrow> ws_bridge \<Rightarrow> bool" where
  "port_ok p s \<longleftrightarrow>
     (if ws_live p s then filter is_close (outs p s) = [] \<and> p \<in> set (wb_ports s)
      else if p \<in> set (wb_ports s) then closed_once (outs p s) else outs p s = [])"

definition ws_inv :: "ws_bridge \<Rightarrow> bool" where
  "ws_inv s \<longleftrightarrow> omap_wf (wb_conns s) \<and> (\<forall>p. port_ok p s)"

lemma live_emit [simp]: "ws_live p (ws_emit q xs s) = ws_live p s"
  by (simp add: ws_live_def)

lemma live_set_conn [simp]: "ws_live p (set_conn q c s) \<longleftrightarrow> p = q \<or> ws_live p s"
  by (simp add: ws_live_def)

lemma live_end [simp]: "ws_live p (ws_end q code clean r s) \<longleftrightarrow> p \<noteq> q \<and> ws_live p s"
  by (auto simp: ws_live_def ws_end_def split: option.splits)

lemma ports_end [simp]: "wb_ports (ws_end q code clean r s) = wb_ports s"
  by (simp add: ws_end_def split: option.splits)

lemma outs_end: "outs p (ws_end q code clean r s) =
  (if p = q \<and> ws_live q s then outs p s @ (if clean then [] else [HandleClose 1000 ''bridge terminated''])
     @ [HookClose code clean, Posted (PostClose code clean r), PortClosed] else outs p s)"
  by (auto simp: ws_end_def ws_live_def split: option.splits) (simp_all add: outs_def ws_emit_def)

lemma inv_emit: "ws_inv s \<Longrightarrow> ws_live p s \<Longrightarrow> filter is_close xs = [] \<Longrightarrow> ws_inv (ws_emit p xs s)"
  by (auto simp: ws_inv_def port_ok_def split: if_splits)

lemma inv_set_conn: "ws_inv s \<Longrightarrow> ws_live p s \<Longrightarrow> ws_inv (set_conn p c s)"
  by (auto simp: ws_inv_def port_ok_def split: if_splits)

lemma inv_end: "ws_inv s \<Longrightarrow> ws_inv (ws_end p code clean r s)"
proof -
  assume inv: "ws_inv s"
  have "omap_wf (wb_conns (ws_end p code clean r s))"
    using inv by (auto simp: ws_inv_def ws_end_def split: option.splits)
  moreover have "port_ok q (ws_end p code clean r s)" for q
  proof (cases "q = p \<and> ws_live p s")
    case True
    then have "filter is_close (outs p s) = []" "p \<in> set (wb_ports s)" using inv by (auto simp: ws_inv_def port_ok_def)
    then show ?thesis using True by (auto simp: port_ok_def outs_end closed_once_def is_close_def)
  next
    case False
    then have "outs q (ws_end p code clean r s) = outs q s" "ws_live q (ws_end p code clean r s) = ws_live q s"
      by (auto simp: outs_end)
    then show ?thesis using inv by (simp add: ws_inv_def port_ok_def)
  qed
  ultimately show ?thesis by (simp add: ws_inv_def)
qed

lemma inv_send:
  assumes "ws_inv s" "ws_live p s" "ws_send_on p d oc c s = (r, s')"
  shows "ws_inv s' \<and> (r \<longrightarrow> ws_live p s')"
proof (cases oc)
  case (SendThrows err)
  then show ?thesis using assms inv_emit [OF assms(1,2), of "[Posted (PostError err)]"]
    by (auto simp: ws_send_on_def is_close_def intro!: inv_end)
next
  case (SendOk drain)
  obtain acked c' where a: "ws_acked c d drain = (acked, c')" by force
  have "ws_inv (ws_emit p [HandleSend d, HookBytes 0 (byte_size d), Posted (PostDrain acked)] (set_conn p c' s))"
    by (intro inv_emit inv_set_conn assms) (simp_all add: is_close_def)
  then show ?thesis using assms(3) SendOk a by (auto simp: ws_send_on_def)
qed

lemma ws_inv_flush: "ws_inv s \<Longrightarrow> ws_inv (ws_flush p ds ocs s)"
proof (induction p ds ocs s rule: ws_flush.induct)
  case (2 p d ds ocs s)
  show ?case
  proof (cases "map_of (wb_conns s) p")
    case (Some c)
    obtain r s' where r: "ws_send_on p d (case ocs of o1 # _ \<Rightarrow> o1 | [] \<Rightarrow> SendOk None) c s = (r, s')" by force
    have "ws_inv s'" using inv_send [OF 2(2) _ r] Some by (simp add: ws_live_def)
    then show ?thesis using 2(1) [OF Some r [symmetric]] Some r by (cases r) auto
  qed (use 2(2) in simp)
qed simp

lemma no_close_simps [simp]:
  "\<not> is_close (HookReady x)" "\<not> is_close (Posted (PostOpen x))" "\<not> is_close (HookBytes a b)" "\<not> is_close (Posted (PostData d))"
  "\<not> is_close (Posted (PostError e))" "\<not> is_close (HandleClose cd y)" "\<not> is_close HandlePing" "\<not> is_close HookAttempt"
  "\<not> is_close (HandleSend d)" "\<not> is_close (Posted (PostDrain z))"
  by (simp_all add: is_close_def)

lemma close_simps [simp]: "is_close (HookClose cd cl)" "is_close (Posted (PostClose cd cl r))" "is_close PortClosed"
  by (simp_all add: is_close_def)

lemma inv_ws_open:
  assumes "ws_inv s" "p \<notin> set (wb_ports s)"
  shows "ws_inv (ws_open p url thrown s)"
proof -
  let ?s = "ws_emit p [HookAttempt] (s\<lparr>wb_ports := wb_ports s @ [p]\<rparr>)"
  have new: "\<not> ws_live p s" "outs p s = []" using assms by (auto simp: ws_inv_def port_ok_def split: if_splits)
  have l: "ws_live q (s\<lparr>wb_ports := xs\<rparr>) = ws_live q s" "outs q (s\<lparr>wb_ports := xs\<rparr>) = outs q s" for q xs
    by (simp_all add: ws_live_def outs_def)
  show ?thesis
  proof (cases thrown)
    case None
    then show ?thesis using assms(1) new by (auto simp: ws_open_def ws_inv_def port_ok_def l)
  next
    case (Some err)
    have "port_ok q (ws_open p url thrown s)" for q
    proof (cases "q = p")
      case True
      have "filter is_close (outs p (ws_open p url thrown s)) = [HookClose 1006 False, Posted (PostClose 1006 False None), PortClosed]"
        using new Some by (simp add: ws_open_def l)
      then have "\<exists>code clean r. filter is_close (outs p (ws_open p url thrown s)) = [HookClose code clean, Posted (PostClose code clean r), PortClosed]"
        by blast
      moreover have "outs p (ws_open p url thrown s) \<noteq> []" "last (outs p (ws_open p url thrown s)) = PortClosed"
        using Some by (simp_all add: ws_open_def)
      ultimately have "closed_once (outs p (ws_open p url thrown s))" unfolding closed_once_def by blast
      then show ?thesis using True new Some by (simp add: port_ok_def ws_open_def l)
    next
      case False
      have "port_ok q s" using assms(1) by (simp add: ws_inv_def)
      then show ?thesis using False Some by (simp add: ws_open_def port_ok_def l)
    qed
    then show ?thesis using assms(1) Some by (simp add: ws_inv_def ws_open_def)
  qed
qed

lemma inv_close_all:
  assumes "ws_inv s" shows "ws_inv (ws_close_all s)"
proof -
  let ?f = "\<lambda>p s. ws_end p 1000 True (Some ''teardown'') (ws_emit p [HandleClose 1000 ''teardown''] s)"
  have "ws_inv (fold ?f ps t)" if "ws_inv t" "distinct ps" "\<forall>p \<in> set ps. ws_live p t" for ps t
    using that
  proof (induction ps arbitrary: t)
    case (Cons p ps)
    have "ws_inv (?f p t)" using Cons.prems by (intro inv_end inv_emit) auto
    then show ?case using Cons.IH [of "?f p t"] Cons.prems by auto
  qed simp
  then show ?thesis using assms by (auto simp: ws_close_all_def ws_inv_def omap_wf_def ws_live_def map_of_eq_None_iff)
qed

lemma inv_ws_step: "ws_inv s \<Longrightarrow> ws_inv (ws_step ka misses ev s)"
proof (induction ev)
  case (WsPageSend p d oc)
  then show ?case
  proof (cases "map_of (wb_conns s) p")
    case (Some c)
    obtain r s' where "ws_send_on p d oc c s = (r, s')" by force
    with inv_send [OF WsPageSend, of p d oc c] Some WsPageSend show ?thesis
      by (auto simp: on_conn_def ws_page_send_def ws_live_def intro!: inv_set_conn)
  qed (simp add: on_conn_def)
next
  case (WsOnOpen p protocol pong ocs)
  then show ?case
    by (cases "map_of (wb_conns s) p")
      (auto simp: on_conn_def ws_on_open_def Let_def ws_live_def intro!: ws_inv_flush inv_emit inv_set_conn)
next
  case (WsTick p ponged ok)
  then show ?case
    by (cases "map_of (wb_conns s) p")
      (auto simp: on_conn_def ws_tick_def Let_def ws_live_def intro!: inv_end inv_emit inv_set_conn)
qed (auto simp: on_conn_def ws_on_message_def ws_on_error_def ws_page_close_def Let_def ws_live_def
  intro!: inv_end inv_emit inv_set_conn inv_ws_open inv_close_all split: option.splits)

lemma inv_new_bridge: "ws_inv new_bridge"
  by (simp add: ws_inv_def new_bridge_def port_ok_def ws_live_def outs_def)

lemma inv_ws_run: "ws_inv s \<Longrightarrow> ws_inv (ws_run ka misses evs s)"
  by (induction evs arbitrary: s) (auto simp: ws_run_def inv_ws_step)

text \<open>C32. Every attempted connection is either live and has reported no close, or has told the accounting and the page exactly once that it ended, with the same code, and has closed the port last.\<close>

theorem ws_closed_once:
  assumes "s = ws_run ka misses evs new_bridge" "p \<in> set (wb_ports s)"
  shows "if ws_live p s then filter is_close (outs p s) = []
    else (\<exists>code clean r. filter is_close (outs p s) = [HookClose code clean, Posted (PostClose code clean r), PortClosed])
      \<and> last (outs p s) = PortClosed"
proof -
  have "port_ok p s" using inv_ws_run [OF inv_new_bridge] assms(1) by (simp add: ws_inv_def)
  then show ?thesis using assms(2) by (auto simp: port_ok_def closed_once_def)
qed

section \<open>Sends keep their order\<close>

definition sent :: "nat \<Rightarrow> ws_bridge \<Rightarrow> ws_data list" where
  "sent p s = concat (map (\<lambda>x. case x of HandleSend d \<Rightarrow> [d] | _ \<Rightarrow> []) (outs p s))"

text \<open>What the page gave the port while its connection was live.\<close>

fun offered :: "bool \<Rightarrow> nat \<Rightarrow> nat \<Rightarrow> ws_event list \<Rightarrow> ws_bridge \<Rightarrow> ws_data list" where
  "offered ka misses p [] s = []"
| "offered ka misses p (ev # evs) s =
     (case ev of WsPageSend q d _ \<Rightarrow> if q = p \<and> ws_live p s then [d] else [] | _ \<Rightarrow> [])
     @ offered ka misses p evs (ws_step ka misses ev s)"

definition sends_ok :: "nat \<Rightarrow> ws_data list \<Rightarrow> ws_bridge \<Rightarrow> bool" where
  "sends_ok p off s \<longleftrightarrow>
     (case map_of (wb_conns s) p of
        Some c \<Rightarrow> p \<in> set (wb_ports s) \<and> off = sent p s @ wc_pending c \<and> (wc_ready c \<longrightarrow> wc_pending c = [])
      | None \<Rightarrow> if p \<in> set (wb_ports s) then \<exists>rest. off = sent p s @ rest else off = [])"

definition plain :: "ws_out list \<Rightarrow> bool" where
  "plain xs \<longleftrightarrow> (\<forall>d. HandleSend d \<notin> set xs)"

lemma sent_plain: "plain xs \<Longrightarrow> concat (map (\<lambda>x. case x of HandleSend d \<Rightarrow> [d] | _ \<Rightarrow> []) xs) = []"
  by (auto simp: plain_def split: ws_out.splits)

lemma sent_emit: "sent p (ws_emit q xs s) =
  (if p = q then sent p s @ concat (map (\<lambda>x. case x of HandleSend d \<Rightarrow> [d] | _ \<Rightarrow> []) xs) else sent p s)"
  by (simp add: sent_def)

lemma sent_set_conn [simp]: "sent p (set_conn q c s) = sent p s"
  by (simp add: sent_def)

lemma sent_end [simp]: "sent p (ws_end q code clean r s) = sent p s"
  by (simp add: sent_def outs_end)

lemma sends_ok_end: "sends_ok p off s \<Longrightarrow> sends_ok p off (ws_end q code clean r s)"
proof -
  assume a: "sends_ok p off s"
  have "map_of (wb_conns (ws_end q code clean r s)) p = (if p = q then None else map_of (wb_conns s) p)"
    by (auto simp: ws_end_def split: option.splits)
  then show ?thesis using a by (cases "map_of (wb_conns s) p") (auto simp: sends_ok_def ws_live_def)
qed

lemma sends_ok_emit: "sends_ok p off s \<Longrightarrow> plain xs \<Longrightarrow> sends_ok p off (ws_emit q xs s)"
  by (cases "map_of (wb_conns s) p") (auto simp: sends_ok_def sent_emit sent_plain)

lemma sends_ok_conn:
  "sends_ok p off s \<Longrightarrow> map_of (wb_conns s) q = Some c \<Longrightarrow> wc_pending c' = wc_pending c \<Longrightarrow> wc_ready c' = wc_ready c
    \<Longrightarrow> sends_ok p off (set_conn q c' s)"
  by (auto simp: sends_ok_def split: option.splits)

lemma acked_conn: "ws_acked c d drain = (a, c') \<Longrightarrow> wc_pending c' = wc_pending c \<and> wc_ready c' = wc_ready c"
  by (auto simp: ws_acked_def split: option.splits if_splits)

text \<open>One datum handed to the transport, with \<open>ds\<close> still to come.\<close>

lemma send_step:
  assumes "ws_send_on p d oc c s = (r, s')" "map_of (wb_conns s) p = Some c" "wc_pending c = []"
    and "off = sent p s @ d # ds" "p \<in> set (wb_ports s)"
  shows "(r \<longrightarrow> (\<exists>c'. map_of (wb_conns s') p = Some c' \<and> wc_pending c' = [] \<and> wc_ready c' = wc_ready c) \<and> off = sent p s' @ ds)
    \<and> (\<not> r \<longrightarrow> sends_ok p off s')"
proof (cases oc)
  case (SendThrows err)
  then have s': "s' = ws_end p 1006 False (Some ''send failed'') (ws_emit p [Posted (PostError err)] s)" "\<not> r"
    using assms(1) by (auto simp: ws_send_on_def)
  have "map_of (wb_conns s') p = None" by (simp add: s'(1) ws_end_def assms(2))
  moreover have "sent p s' = sent p s" by (simp add: s'(1) sent_emit)
  ultimately show ?thesis using s' assms(4,5) by (simp add: sends_ok_def)
next
  case (SendOk drain)
  obtain a c' where "ws_acked c d drain = (a, c')" by force
  then show ?thesis using assms SendOk acked_conn [of c d drain a c']
    by (auto simp: ws_send_on_def sent_emit)
qed

lemma flush_sends:
  "p \<in> set (wb_ports s) \<Longrightarrow> map_of (wb_conns s) p = Some c \<Longrightarrow> wc_pending c = [] \<Longrightarrow> wc_ready c \<Longrightarrow> off = sent p s @ ds \<Longrightarrow> sends_ok p off (ws_flush p ds ocs s)"
proof (induction ds arbitrary: s c ocs)
  case Nil
  then show ?case by (simp add: sends_ok_def)
next
  case (Cons d ds)
  obtain r s' where r: "ws_send_on p d (case ocs of o1 # _ \<Rightarrow> o1 | [] \<Rightarrow> SendOk None) c s = (r, s')" by force
  have "wb_ports s' = wb_ports s" using r by (auto simp: ws_send_on_def split: send_outcome.splits prod.splits)
  with send_step [OF r Cons.prems(2,3,5,1)] Cons.IH Cons.prems r show ?case by (cases r) auto
qed

lemma send_other:
  assumes "ws_send_on q d oc c s = (r, s')" "p \<noteq> q"
  shows "sent p s' = sent p s \<and> map_of (wb_conns s') p = map_of (wb_conns s) p"
  using assms by (auto simp: ws_send_on_def sent_emit ws_end_def split: send_outcome.splits prod.splits option.splits)
    (simp_all add: sent_def outs_def ws_emit_def)

lemma flush_other:
  "p \<noteq> q \<Longrightarrow> sent p (ws_flush q ds ocs s) = sent p s \<and> map_of (wb_conns (ws_flush q ds ocs s)) p = map_of (wb_conns s) p"
proof (induction q ds ocs s rule: ws_flush.induct)
  case (2 q d ds ocs s)
  show ?case
  proof (cases "map_of (wb_conns s) q")
    case (Some c)
    obtain r s' where r: "ws_send_on q d (case ocs of o1 # _ \<Rightarrow> o1 | [] \<Rightarrow> SendOk None) c s = (r, s')" by force
    from send_other [OF r 2(2)] 2(1) [OF Some r [symmetric]] 2(2) Some r show ?thesis by (cases r) auto
  qed simp
qed simp

lemma sends_ok_same:
  "sends_ok p off s \<Longrightarrow> sent p s' = sent p s \<Longrightarrow> map_of (wb_conns s') p = map_of (wb_conns s) p
    \<Longrightarrow> set (wb_ports s') = set (wb_ports s) \<Longrightarrow> sends_ok p off s'"
  by (cases "map_of (wb_conns s) p") (auto simp: sends_ok_def)

lemma open_facts:
  "sent q (ws_open p url thrown s) = sent q s" "wb_ports (ws_open p url thrown s) = wb_ports s @ [p]"
  "q \<noteq> p \<Longrightarrow> map_of (wb_conns (ws_open p url thrown s)) q = map_of (wb_conns s) q"
proof -
  have l: "sent r (s\<lparr>wb_ports := xs\<rparr>) = sent r s" for r xs by (simp add: sent_def outs_def)
  show "sent q (ws_open p url thrown s) = sent q s" by (simp add: ws_open_def sent_emit l Let_def split: option.splits)
  show "wb_ports (ws_open p url thrown s) = wb_ports s @ [p]" by (simp add: ws_open_def Let_def split: option.splits)
  show "map_of (wb_conns (ws_open p url thrown s)) q = map_of (wb_conns s) q" if "q \<noteq> p"
    using that by (simp add: ws_open_def Let_def split: option.splits)
qed

lemma sends_ok_open:
  assumes "ws_inv s" "sends_ok p off s" "q \<notin> set (wb_ports s)"
  shows "sends_ok p off (ws_open q url thrown s)"
proof (cases "p = q")
  case True
  then have n: "\<not> ws_live p s" "outs p s = []" using assms(1,3) by (auto simp: ws_inv_def port_ok_def split: if_splits)
  then have "off = []" using assms(2,3) True by (simp add: sends_ok_def ws_live_def)
  then show ?thesis using n True open_facts(1) [of p q url thrown s] open_facts(2) [of q url thrown s]
    by (auto simp: sends_ok_def sent_def split: option.splits) (auto simp: ws_open_def Let_def ws_live_def split: option.splits)
next
  case False
  have "sent p (ws_open q url thrown s) = sent p s" by (rule open_facts)
  then show ?thesis using assms(2) False open_facts(2) [of q url thrown s] open_facts(3) [of p q url thrown s]
    by (cases "map_of (wb_conns s) p") (auto simp: sends_ok_def)
qed

lemma flush_ports [simp]: "wb_ports (ws_flush q ds ocs s) = wb_ports s"
proof (induction q ds ocs s rule: ws_flush.induct)
  case (2 q d ds ocs s)
  show ?case
  proof (cases "map_of (wb_conns s) q")
    case (Some c)
    obtain r s' where r: "ws_send_on q d (case ocs of o1 # _ \<Rightarrow> o1 | [] \<Rightarrow> SendOk None) c s = (r, s')" by force
    have "wb_ports s' = wb_ports s" using r by (auto simp: ws_send_on_def split: send_outcome.splits prod.splits)
    with 2(1) [OF Some r [symmetric]] Some r show ?thesis by (cases r) auto
  qed simp
qed simp

lemma sends_close_all: "sends_ok p off s \<Longrightarrow> sends_ok p off (ws_close_all s)"
proof -
  have "sends_ok p off t \<Longrightarrow> sends_ok p off (fold (\<lambda>q s. ws_end q 1000 True (Some ''teardown'')
      (ws_emit q [HandleClose 1000 ''teardown''] s)) ps t)" for ps t
    by (induction ps arbitrary: t) (simp_all add: plain_def sends_ok_end sends_ok_emit)
  then show "sends_ok p off s \<Longrightarrow> sends_ok p off (ws_close_all s)" by (simp add: ws_close_all_def)
qed

lemma sends_ok_ports: "sends_ok p off s \<Longrightarrow> map_of (wb_conns s) p = Some c \<Longrightarrow> p \<in> set (wb_ports s)"
  by (simp add: sends_ok_def)

lemma sends_page:
  assumes ok: "sends_ok p off s" and c: "map_of (wb_conns s) q = Some c"
  shows "sends_ok p (off @ (if q = p then [d] else [])) (ws_page_send q d oc c s)"
proof (cases "wc_ready c")
  case True
  obtain r s' where r: "ws_send_on q d oc c s = (r, s')" by force
  have ports: "wb_ports s' = wb_ports s" using r by (auto simp: ws_send_on_def split: send_outcome.splits prod.splits)
  show ?thesis
  proof (cases "q = p")
    case here: True
    then have "off = sent p s" "wc_pending c = []" using ok c True by (auto simp: sends_ok_def)
    then have "(r \<longrightarrow> (\<exists>c'. map_of (wb_conns s') p = Some c' \<and> wc_pending c' = [] \<and> wc_ready c') \<and> off @ [d] = sent p s')
        \<and> (\<not> r \<longrightarrow> sends_ok p (off @ [d]) s')"
      using send_step [OF r c, of "off @ [d]" "[]"] here True ok c by (auto simp: sends_ok_def)
    then show ?thesis using here True r by (cases r) (auto simp: ws_page_send_def sends_ok_def ports sends_ok_ports [OF ok c [unfolded here]])
  next
    case False
    then have "sends_ok p off s'" using sends_ok_same [OF ok] send_other [OF r] ports by metis
    then show ?thesis using False True r by (simp add: ws_page_send_def)
  qed
next
  case False
  then show ?thesis using ok c by (cases "map_of (wb_conns s) p") (auto simp: ws_page_send_def sends_ok_def)
qed

lemma sends_on_open:
  assumes ok: "sends_ok p off s" and c: "map_of (wb_conns s) q = Some c"
  shows "sends_ok p off (ws_on_open ka q protocol pong ocs c s)"
proof -
  let ?c = "(case pong of Some t \<Rightarrow> if ka then c\<lparr>wc_ready := True, wc_last_pong := t, wc_armed := True\<rparr> else c\<lparr>wc_ready := True\<rparr>
                | None \<Rightarrow> c\<lparr>wc_ready := True\<rparr>)\<lparr>wc_pending := []\<rparr>"
  let ?s = "ws_emit q [HookReady protocol, Posted (PostOpen protocol)] (set_conn q ?c s)"
  have run: "ws_on_open ka q protocol pong ocs c s = ws_flush q (wc_pending c) ocs ?s" by (simp add: ws_on_open_def Let_def)
  show ?thesis
  proof (cases "q = p")
    case True
    have "off = sent p s @ wc_pending c" using ok c True by (simp add: sends_ok_def)
    then have "sends_ok p off (ws_flush p (wc_pending c) ocs ?s)"
      using True sends_ok_ports [OF ok, of c] c by (intro flush_sends [where c = ?c]) (auto simp: sent_emit split: option.splits)
    then show ?thesis using True run by simp
  next
    case False
    then have "sent p ?s = sent p s" "map_of (wb_conns ?s) p = map_of (wb_conns s) p" by (auto simp: sent_emit)
    then show ?thesis unfolding run using sends_ok_same [OF ok] flush_other [of p q "wc_pending c" ocs ?s] False by simp
  qed
qed

lemma plain_simps [simp]:
  "plain []" "plain (x # xs) \<longleftrightarrow> (\<forall>d. x \<noteq> HandleSend d) \<and> plain xs"
  by (auto simp: plain_def)

lemma sends_ws_step:
  assumes "ws_inv s" "sends_ok p off s"
  shows "sends_ok p (off @ (case ev of WsPageSend q d _ \<Rightarrow> if q = p \<and> ws_live p s then [d] else [] | _ \<Rightarrow> [])) (ws_step ka misses ev s)"
proof (cases ev)
  case (WsPageSend q d oc)
  then show ?thesis using sends_page [OF assms(2), of q _ d oc] assms(2)
    by (cases "map_of (wb_conns s) q"; cases "q = p") (auto simp: on_conn_def ws_live_def)
next
  case (WsOnOpen q protocol pong ocs)
  then show ?thesis using sends_on_open [OF assms(2)] assms(2) by (auto simp: on_conn_def split: option.splits)
qed (use assms sends_ok_conn [OF assms(2)] in \<open>auto simp: on_conn_def ws_on_message_def ws_on_error_def ws_page_close_def ws_tick_def Let_def
  intro!: sends_ok_end sends_ok_emit sends_ok_open sends_close_all split: option.splits\<close>)

lemma sends_run:
  "ws_inv s \<Longrightarrow> sends_ok p off s \<Longrightarrow> sends_ok p (off @ offered ka misses p evs s) (ws_run ka misses evs s)"
proof (induction evs arbitrary: s off)
  case (Cons ev evs)
  from Cons.IH [OF inv_ws_step [OF Cons.prems(1)] sends_ws_step [OF Cons.prems]] show ?case by (simp add: ws_run_def)
qed (simp add: ws_run_def)

text \<open>C33. The transport receives what the page sends on a live connection in order and without gaps, the sends of the handshake first; while the connection is open and ready nothing waits.\<close>

theorem ws_sends_in_order:
  assumes "s = ws_run ka misses evs new_bridge"
  shows "\<exists>rest. offered ka misses p evs new_bridge = sent p s @ rest
    \<and> (\<forall>c. map_of (wb_conns s) p = Some c \<longrightarrow> wc_ready c \<longrightarrow> rest = [])"
proof -
  have "sends_ok p [] new_bridge" by (simp add: sends_ok_def new_bridge_def)
  from sends_run [OF inv_new_bridge this, of ka misses evs] assms have ok: "sends_ok p (offered ka misses p evs new_bridge) s" by simp
  have none: "sent p s = []" if "p \<notin> set (wb_ports s)"
    using that inv_ws_run [OF inv_new_bridge, of ka misses evs] assms by (auto simp: ws_inv_def port_ok_def sent_def split: if_splits)
  show ?thesis using ok none by (auto simp: sends_ok_def split: option.splits if_splits)
qed

section \<open>The watchdog\<close>

definition miss_tick :: "nat \<Rightarrow> ws_conn \<Rightarrow> ws_event" where
  "miss_tick p c = WsTick p (wc_last_pong c) True"

text \<open>An armed connection whose pongs stop advancing and that receives nothing is ended as abnormal at the configured number of ticks.\<close>

theorem watchdog_closes:
  assumes "map_of (wb_conns s) p = Some c" "wc_armed c" "wc_missed c + Suc k = misses"
  shows "\<not> ws_live p (ws_run ka misses (replicate (Suc k) (miss_tick p c)) s)
    \<and> outs p (ws_run ka misses (replicate (Suc k) (miss_tick p c)) s) = outs p s @ replicate k HandlePing
      @ [HandleClose 1000 ''bridge terminated'', HookClose 1006 False, Posted (PostClose 1006 False (Some ''keepalive timeout'')), PortClosed]"
  using assms
proof (induction k arbitrary: s c)
  case 0
  then have "ws_live p s" by (simp add: ws_live_def)
  with 0 show ?case by (simp add: ws_run_def miss_tick_def on_conn_def ws_tick_def outs_end Let_def)
next
  case (Suc k)
  let ?c = "c\<lparr>wc_missed := Suc (wc_missed c)\<rparr>"
  let ?s = "ws_emit p [HandlePing] (set_conn p ?c s)"
  have "ws_step ka misses (miss_tick p c) s = ?s"
    using Suc.prems by (simp add: miss_tick_def on_conn_def ws_tick_def Let_def)
  moreover have "miss_tick p ?c = miss_tick p c" by (simp add: miss_tick_def)
  ultimately show ?case using Suc.IH [of ?s ?c] Suc.prems by (simp add: ws_run_def)
qed

section \<open>Concrete runs\<close>

definition demo_open :: "ws_event list" where
  "demo_open = [WsOpen 1 ''ws://h/'' None, WsPageSend 1 (WsText ''a'') (SendOk None), WsOnOpen 1 ''p'' (Some 0) [SendOk None]]"

definition demo_bridge :: ws_bridge where
  "demo_bridge = ws_run True 2 demo_open new_bridge"

lemmas ws_eval = ws_run_def demo_open_def ws_open_def ws_emit_def set_conn_def on_conn_def ws_page_send_def ws_on_open_def
  ws_send_on_def ws_acked_def ws_end_def new_bridge_def byte_size_def is_close_def outs_def sent_def ws_live_def Let_def

lemma demo_conn: "map_of (wb_conns demo_bridge) 1 =
  Some \<lparr>wc_url = ''ws://h/'', wc_ready = True, wc_pending = [], wc_armed = True, wc_missed = 0, wc_last_pong = 0, wc_drain_acked = 0\<rparr>"
  by (simp add: demo_bridge_def ws_eval)

lemma demo_outs: "outs 1 demo_bridge =
  [HookAttempt, HookReady ''p'', Posted (PostOpen ''p''), HandleSend (WsText ''a''), HookBytes 0 (length (utf8_encode ''a'')),
   Posted (PostDrain (int (length (utf8_encode ''a''))))]"
  by (simp add: demo_bridge_def ws_eval)

theorem ws_closed_once_witness:
  "\<exists>code clean r. filter is_close (outs 1 (ws_run True 2 (demo_open @ [WsOnClose 1 1000 ''bye'' True]) new_bridge)) =
    [HookClose code clean, Posted (PostClose code clean r), PortClosed]"
proof -
  have "1 \<in> set (wb_ports (ws_run True 2 (demo_open @ [WsOnClose 1 1000 ''bye'' True]) new_bridge))"
    "\<not> ws_live 1 (ws_run True 2 (demo_open @ [WsOnClose 1 1000 ''bye'' True]) new_bridge)"
    by (simp_all add: ws_eval)
  then show ?thesis
    using ws_closed_once [of _ True 2 "demo_open @ [WsOnClose 1 1000 ''bye'' True]" 1, OF refl] by simp
qed

theorem ws_sends_in_order_witness:
  "\<exists>rest. offered True 2 1 demo_open new_bridge = sent 1 demo_bridge @ rest"
  using ws_sends_in_order [of demo_bridge True 2 demo_open 1] by (auto simp: demo_bridge_def)

theorem watchdog_closes_witness:
  "\<not> ws_live 1 (ws_run True 2 (replicate 2 (WsTick 1 0 True)) demo_bridge)"
  using watchdog_closes [OF demo_conn, of 1 2 True] by (simp add: miss_tick_def numeral_2_eq_2)

text \<open>
  The first tick counts a miss before any ping has left: with the default of two misses a
  connection is closed after a single unanswered ping, and with one it is closed without any.
\<close>

lemma one_unanswered_ping_closes:
  "let s = ws_run True 2 [WsTick 1 0 True, WsTick 1 0 True] demo_bridge
   in \<not> ws_live 1 s \<and> length (filter (\<lambda>x. x = HandlePing) (outs 1 s)) = 1"
  using watchdog_closes [OF demo_conn, of 1 2 True] demo_outs
  by (simp add: miss_tick_def numeral_2_eq_2)

text \<open>Only a send posts a drain: what the transport accepts after the last send is never reported.\<close>

lemma outs_ports [simp]: "outs p (s\<lparr>wb_ports := xs\<rparr>) = outs p s"
  by (simp add: outs_def)

lemma only_sends_drain:
  "\<forall>q d oc. ev \<noteq> WsPageSend q d oc \<Longrightarrow> \<forall>q x y z. ev \<noteq> WsOnOpen q x y z \<Longrightarrow> ev \<noteq> WsCloseAll \<Longrightarrow>
    \<exists>new. outs p (ws_step ka misses ev s) = outs p s @ new \<and> (\<forall>n. Posted (PostDrain n) \<notin> set new)"
  by (cases ev) (auto simp: on_conn_def ws_open_def ws_on_message_def ws_on_error_def ws_page_close_def ws_tick_def Let_def outs_end
      split: option.splits)

end
