(* ===== verification/AssetBases.thy ===== *)
theory AssetBases
  imports HttpHeaders
begin

text \<open>
  Recovery of assets whose names a page builds at run time (\<open>src/app/src/assetbases.ts\<close>): the
  directories and script URLs a page origin has loaded from, the gates on destination, path and
  content type, and the two retry routines with their budgets. The upstream fetch is an argument: a
  function from URL and request headers to the response, \<open>None\<close> when it rejects. A path of a parsed
  URL holds no line terminator, so the dot of a regular expression is any character. Diagnostics are
  not modelled.
\<close>

section \<open>Registries\<close>

definition ASSET_BASES_PER_ORIGIN :: nat where "ASSET_BASES_PER_ORIGIN = 4"
definition ASSET_BASES_TOTAL :: nat where "ASSET_BASES_TOTAL = 128"
definition SCRIPT_URLS_PER_ORIGIN :: nat where "SCRIPT_URLS_PER_ORIGIN = 8"
definition SCRIPT_URLS_TOTAL :: nat where "SCRIPT_URLS_TOTAL = 64"
definition FLAG_REQUESTS_PER_CALL :: nat where "FLAG_REQUESTS_PER_CALL = 4"
definition FLAG_REQUESTS_PER_ORIGIN :: nat where "FLAG_REQUESTS_PER_ORIGIN = 64"
definition FLAG_TARGETS_PER_ORIGIN :: nat where "FLAG_TARGETS_PER_ORIGIN = 16"
definition FLAG_ORIGINS :: nat where "FLAG_ORIGINS = 128"

record asset_state =
  as_bases :: "(string, string list) omap"
  as_scripts :: "(string, string list) omap"
  as_requests :: "(string, nat) omap"
  as_targets :: "(string, string list) omap"

definition no_assets :: asset_state where
  "no_assets = \<lparr>as_bases = [], as_scripts = [], as_requests = [], as_targets = []\<rparr>"

definition get_list :: "(string, 'a list) omap \<Rightarrow> string \<Rightarrow> 'a list" where
  "get_list m k = (case map_of m k of Some l \<Rightarrow> l | None \<Rightarrow> [])"

definition asset_origin :: "url_parser \<Rightarrow> string \<Rightarrow> string" where
  "asset_origin pu u = (case pu u of Some x \<Rightarrow> url_origin x | None \<Rightarrow> [])"

definition is_http_text :: "string \<Rightarrow> bool" where
  "is_http_text s \<longleftrightarrow> starts_with (js_lower s) ''http:'' \<or> starts_with (js_lower s) ''https:''"

text \<open>\<open>s.slice(0, s.lastIndexOf(c) + 1)\<close>\<close>

definition upto_last :: "char \<Rightarrow> string \<Rightarrow> string" where
  "upto_last c s = rev (dropWhile (\<lambda>x. x \<noteq> c) (rev s))"

text \<open>Most recent first, without repetition, cut to the cap.\<close>

definition push_recent :: "nat \<Rightarrow> 'a \<Rightarrow> 'a list \<Rightarrow> 'a list" where
  "push_recent cap x l = take cap (x # remove1 x l)"

text \<open>A write that may push out the oldest key; the second form first makes its key the newest.\<close>

definition put_trimmed :: "nat \<Rightarrow> string \<Rightarrow> 'a \<Rightarrow> (string, 'a) omap \<Rightarrow> (string, 'a) omap" where
  "put_trimmed cap k v m =
     (let m = AList.update k v m in if cap < length m then omap_drop_oldest m else m)"

definition put_newest :: "nat \<Rightarrow> string \<Rightarrow> 'a \<Rightarrow> (string, 'a) omap \<Rightarrow> (string, 'a) omap" where
  "put_newest cap k v m =
     (let m = AList.delete k m @ [(k, v)] in if cap < length m then omap_drop_oldest m else m)"

definition record_asset_base :: "url_parser \<Rightarrow> string \<Rightarrow> string \<Rightarrow> asset_state \<Rightarrow> asset_state" where
  "record_asset_base pu initiator asset_url s =
     (let page = asset_origin pu initiator; asset = asset_origin pu asset_url;
          clean = (if CHR ''#'' \<in> set asset_url then butlast (upto_last (CHR ''#'') asset_url) else asset_url);
          dir = upto_last (CHR ''/'') clean
      in if page = [] \<or> asset = [] \<or> page = asset \<or> \<not> is_http_text dir then s
         else s\<lparr>as_bases := put_trimmed ASSET_BASES_TOTAL page
                  (push_recent ASSET_BASES_PER_ORIGIN dir (get_list (as_bases s) page)) (as_bases s)\<rparr>)"

definition record_script_url :: "url_parser \<Rightarrow> string \<Rightarrow> string \<Rightarrow> asset_state \<Rightarrow> asset_state" where
  "record_script_url pu initiator u s =
     (let page = asset_origin pu initiator; clean = takeWhile (\<lambda>c. c \<noteq> CHR ''#'') u
      in if page = [] \<or> \<not> is_http_text u then s
         else s\<lparr>as_scripts := put_newest SCRIPT_URLS_TOTAL page
                  (push_recent SCRIPT_URLS_PER_ORIGIN clean (get_list (as_scripts s) page)) (as_scripts s)\<rparr>)"

section \<open>Gates\<close>

definition is_recoverable_asset_dest :: "string \<Rightarrow> bool" where
  "is_recoverable_asset_dest d \<longleftrightarrow> d \<in> set [''script'', ''style'', ''image'', ''video'', ''audio'', ''font'', ''empty'']"

definition is_flat_path :: "string \<Rightarrow> bool" where
  "is_flat_path p = (case p of c # r \<Rightarrow> c = CHR ''/'' \<and> r \<noteq> [] \<and> CHR ''/'' \<notin> set r | [] \<Rightarrow> False)"

definition path_segments :: "string \<Rightarrow> string list" where
  "path_segments p = filter (\<lambda>x. x \<noteq> []) (split_on (CHR ''/'') p)"

text \<open>\<open>/[0-9a-f]{6,}/i\<close>\<close>

fun hex_run :: "nat \<Rightarrow> string \<Rightarrow> bool" where
  "hex_run n [] \<longleftrightarrow> 6 \<le> n"
| "hex_run n (c # s) \<longleftrightarrow> 6 \<le> n \<or> hex_run (if hex_val c = None then 0 else Suc n) s"

definition is_mint_char :: "char \<Rightarrow> bool" where
  "is_mint_char c \<longleftrightarrow> is_alnum c \<or> c = CHR ''_'' \<or> c = CHR ''-''"

text \<open>\<open>/^[^/]+\.[A-Za-z0-9_-]{6,12}\.[a-z0-9]{1,8}$/i\<close> on a segment: the last two dots decide.\<close>

definition dotted_hash :: "string \<Rightarrow> bool" where
  "dotted_hash s =
     (case rev (split_on (CHR ''.'') s) of
        ext # hash # front \<Rightarrow>
          front \<noteq> [] \<and> front \<noteq> [[]]
          \<and> 6 \<le> length hash \<and> length hash \<le> 12 \<and> list_all is_mint_char hash
          \<and> 1 \<le> length ext \<and> length ext \<le> 8 \<and> list_all is_alnum ext
      | _ \<Rightarrow> False)"

definition is_recoverable_asset_path :: "string \<Rightarrow> bool" where
  "is_recoverable_asset_path p =
     (let segs = path_segments p
      in if segs = [] then False
         else if length segs = 1 then True
         else if 8 < length segs then False
         else hex_run 0 (last segs) \<or> str_includes (last segs) ''.module.'' \<or> dotted_hash (last segs))"

definition asset_base_count :: "url_parser \<Rightarrow> string \<Rightarrow> asset_state \<Rightarrow> nat" where
  "asset_base_count pu initiator s = length (get_list (as_bases s) (asset_origin pu initiator))"

definition mime_ok_for :: "string \<Rightarrow> string \<Rightarrow> bool" where
  "mime_ok_for dest ct =
     (let c = js_lower (js_trim (takeWhile (\<lambda>x. x \<noteq> CHR '';'') ct));
          octet = (c = ''application/octet-stream'' \<or> c = ''binary/octet-stream'')
      in if dest = ''style'' then c = ''text/css''
         else if dest = ''script'' then
           c = ''text/javascript'' \<or> c = ''application/javascript'' \<or> c = ''application/ecmascript'' \<or> ends_with c ''+javascript''
         else if dest = ''image'' then starts_with c ''image/'' \<or> octet
         else if dest = ''video'' then starts_with c ''video/'' \<or> octet
         else if dest = ''audio'' then starts_with c ''audio/'' \<or> octet
         else if dest = ''font'' then
           octet \<or> str_includes c ''font'' \<or> str_includes c ''woff'' \<or> str_includes c ''ttf'' \<or> str_includes c ''otf''
         else octet \<or> (c \<noteq> [] \<and> c \<noteq> ''text/html'' \<and> c \<noteq> ''text/plain''))"

section \<open>Flat names\<close>

record asset_response =
  ar_ok :: bool
  ar_type :: "string option"
  ar_body :: "byte list"

type_synonym asset_fetch = "string \<Rightarrow> headers \<Rightarrow> asset_response option"

text \<open>Cookie, origin and referrer stay behind.\<close>

definition safe_headers :: "headers \<Rightarrow> headers" where
  "safe_headers h =
     fold (\<lambda>k acc. case truthy (hget h k) of Some v \<Rightarrow> hset k v acc | None \<Rightarrow> acc)
       [''user-agent'', ''accept'', ''accept-language''] []"

definition answers :: "string \<Rightarrow> asset_response \<Rightarrow> bool" where
  "answers dest r \<longleftrightarrow> ar_ok r \<and> mime_ok_for dest (case ar_type r of Some t \<Rightarrow> t | None \<Rightarrow> [])"

fun try_bases ::
  "platform \<Rightarrow> asset_fetch \<Rightarrow> string \<Rightarrow> headers \<Rightarrow> string \<Rightarrow> string list \<Rightarrow> (string \<times> asset_response) option" where
  "try_bases pf fetch dest h name [] = None"
| "try_bases pf fetch dest h name (base # bases) =
     (case new_url_base pf name base of
        None \<Rightarrow> try_bases pf fetch dest h name bases
      | Some u \<Rightarrow>
          (case fetch (url_href u) h of
             Some r \<Rightarrow> if answers dest r then Some (url_href u, r) else try_bases pf fetch dest h name bases
           | None \<Rightarrow> try_bases pf fetch dest h name bases))"

definition has_short_extension :: "string \<Rightarrow> bool" where
  "has_short_extension flat =
     (CHR ''.'' \<in> set flat \<and>
      (let dot = length (upto_last (CHR ''.'') flat) - 1 in 1 \<le> dot \<and> length flat - dot \<le> 9))"

definition recover_flat_asset ::
  "platform \<Rightarrow> asset_fetch \<Rightarrow> nat \<Rightarrow> asset_state \<Rightarrow> string \<Rightarrow> string \<Rightarrow> string \<Rightarrow> headers \<Rightarrow> (string \<times> asset_response) option" where
  "recover_flat_asset pf fetch max_tries s initiator target dest h =
     (let bases = get_list (as_bases s) (asset_origin (new_url pf) initiator)
      in if \<not> is_recoverable_asset_dest dest \<or> initiator = [] \<or> bases = [] then None
         else case new_url pf target of
           None \<Rightarrow> None
         | Some u \<Rightarrow>
             if \<not> is_recoverable_asset_path (url_pathname u) then None
             else
               let flat = last (path_segments (url_pathname u))
               in if dest = ''empty'' \<and> \<not> has_short_extension flat then None
                  else try_bases pf fetch dest (safe_headers h) (flat @ url_search u) (take max_tries bases))"

section \<open>Flag-shaped script paths\<close>

text \<open>\<open>/^([a-z][a-z0-9_-]{0,30})=/i\<close>: the lower-case key.\<close>

definition flag_key :: "string \<Rightarrow> string option" where
  "flag_key seg =
     (let k = takeWhile is_mint_char seg; rest = drop (length k) seg
      in case k of
           c # _ \<Rightarrow>
             if is_alnum c \<and> \<not> is_digit c \<and> length k \<le> 31 \<and> starts_with rest ''='' then Some (js_lower k) else None
         | [] \<Rightarrow> None)"

definition GOOGLE_FLAG_KEYS :: "string list" where
  "GOOGLE_FLAG_KEYS = [''httpd'', ''exm'', ''ed'', ''cb'', ''m'', ''udm'', ''sxsrf'', ''sca_esv'']"

definition is_flag_surgery_path :: "string \<Rightarrow> bool" where
  "is_flag_surgery_path p \<longleftrightarrow>
     2 \<le> length (filter (\<lambda>k. k \<in> set GOOGLE_FLAG_KEYS) (List.map_filter flag_key (path_segments p)))"

record mss_path =
  mss_token :: string
  mss_app :: string
  mss_tail :: string

definition parse_google_mss :: "string \<Rightarrow> mss_path option" where
  "parse_google_mss p =
     (case split_on (CHR ''/'') p of
        e # token # u1 # m # app # u2 # js # k # rest \<Rightarrow>
          if e = [] \<and> 24 \<le> length token \<and> length token \<le> 128 \<and> list_all is_mint_char token
            \<and> u1 = ''_'' \<and> m = ''mss'' \<and> 1 \<le> length app \<and> length app \<le> 80
            \<and> list_all (\<lambda>c. is_mint_char c \<or> c = CHR ''.'') app
            \<and> u2 = ''_'' \<and> js = ''js'' \<and> starts_with k ''k='' \<and> 2 < length k
          then Some \<lparr>mss_token = token, mss_app = app, mss_tail = join_with ''/'' (k # rest)\<rparr>
          else None
      | _ \<Rightarrow> None)"

text \<open>\<open>cu.pathname.slice(0, cu.pathname.indexOf("/_/js/") + 6)\<close> on a path of this shape.\<close>

fun upto_text :: "string \<Rightarrow> string \<Rightarrow> string" where
  "upto_text pat [] = []"
| "upto_text pat (c # s) = (if starts_with (c # s) pat then pat else c # upto_text pat s)"

definition add_new :: "'a \<Rightarrow> 'a list \<Rightarrow> 'a list" where
  "add_new x xs = (if x \<in> set xs then xs else xs @ [x])"

definition mss_candidates :: "url_parser \<Rightarrow> string \<Rightarrow> url \<Rightarrow> mss_path \<Rightarrow> string list \<Rightarrow> string list" where
  "mss_candidates pu page u want cands =
     fold (\<lambda>c acc.
       case pu c of
         None \<Rightarrow> acc
       | Some cu \<Rightarrow>
           if url_origin cu \<noteq> url_origin u \<or> url_origin cu \<noteq> page then acc
           else (case parse_google_mss (url_pathname cu) of
                   Some o1 \<Rightarrow>
                     if mss_app o1 = mss_app want
                     then add_new (url_origin cu @ upto_text ''/_/js/'' (url_pathname cu) @ mss_tail want @ url_search u) acc
                     else acc
                 | None \<Rightarrow> acc)) cands []"

text \<open>The bases of one observed script: the path before its first flag segment, and its directory.\<close>

definition script_bases :: "string \<Rightarrow> string list" where
  "script_bases p =
     (let segs = split_on (CHR ''/'') p;
          fi = length (takeWhile (\<lambda>x. flag_key x = None) segs);
          cuts = (if fi < length segs \<and> 0 < fi then [join_with ''/'' (take fi segs)] else []);
          dir = upto_last (CHR ''/'') p
      in add_new (if ends_with dir ''/'' then butlast dir else dir) cuts)"

text \<open>\<open>u.pathname.replace(/^\/[^/]+\//, "/")\<close>\<close>

definition strip_first :: "string \<Rightarrow> string" where
  "strip_first p =
     (case p of
        c # r \<Rightarrow>
          let seg = takeWhile (\<lambda>x. x \<noteq> CHR ''/'') r; rest = drop (length seg) r
          in if c = CHR ''/'' \<and> seg \<noteq> [] \<and> rest \<noteq> [] then rest else p
      | [] \<Rightarrow> p)"

definition flag_candidates :: "url_parser \<Rightarrow> url \<Rightarrow> string list \<Rightarrow> string list" where
  "flag_candidates pu u cands =
     concat (map (\<lambda>c.
       case pu c of
         None \<Rightarrow> []
       | Some cu \<Rightarrow>
           let tails = (if strip_first (url_pathname u) \<noteq> url_pathname u
                        then [url_pathname u, strip_first (url_pathname u)] else [url_pathname u])
           in concat (map (\<lambda>b. map (\<lambda>t. url_origin cu @ b @ t @ url_search u) tails) (script_bases (url_pathname cu))))
       (take 3 cands))"

definition request_count :: "string \<Rightarrow> asset_state \<Rightarrow> nat" where
  "request_count page s = (case map_of (as_requests s) page of Some n \<Rightarrow> n | None \<Rightarrow> 0)"

text \<open>A counted origin becomes the newest; past the cap the oldest loses both records.\<close>

definition count_request :: "string \<Rightarrow> asset_state \<Rightarrow> asset_state" where
  "count_request page s =
     (let others = AList.delete page (as_requests s);
          s = s\<lparr>as_requests := put_newest FLAG_ORIGINS page (Suc (request_count page s)) (as_requests s)\<rparr>
      in if FLAG_ORIGINS < length others + 1 then s\<lparr>as_targets := AList.delete (fst (hd others)) (as_targets s)\<rparr> else s)"

definition remember_target :: "string \<Rightarrow> string \<Rightarrow> asset_state \<Rightarrow> asset_state" where
  "remember_target page key s =
     (let others = AList.delete page (as_targets s);
          s = s\<lparr>as_targets := put_newest FLAG_ORIGINS page (add_new key (get_list (as_targets s) page)) (as_targets s)\<rparr>
      in if FLAG_ORIGINS < length others + 1 then s\<lparr>as_requests := AList.delete (fst (hd others)) (as_requests s)\<rparr> else s)"

text \<open>
  The tries of one call, with the URLs asked for. The candidates of the \<open>mss\<close> route are distinct, so
  that the order of the two checks before a try does not matter there.
\<close>

fun flag_tries ::
  "asset_fetch \<Rightarrow> string \<Rightarrow> headers \<Rightarrow> string list \<Rightarrow> string list \<Rightarrow> asset_state
    \<Rightarrow> (string \<times> asset_response) option \<times> string list \<times> asset_state" where
  "flag_tries fetch page h [] tried s = (None, tried, s)"
| "flag_tries fetch page h (c # cs) tried s =
     (if c \<in> set tried then flag_tries fetch page h cs tried s
      else if FLAG_REQUESTS_PER_CALL \<le> length tried then (None, tried, s)
      else if FLAG_REQUESTS_PER_ORIGIN \<le> request_count page s then (None, tried, s)
      else
        let s = count_request page s
        in case fetch c h of
             Some r \<Rightarrow> if answers ''script'' r then (Some (c, r), tried @ [c], s) else flag_tries fetch page h cs (tried @ [c]) s
           | None \<Rightarrow> flag_tries fetch page h cs (tried @ [c]) s)"

definition recover_flag_script ::
  "platform \<Rightarrow> asset_fetch \<Rightarrow> string \<Rightarrow> string \<Rightarrow> headers \<Rightarrow> asset_state
    \<Rightarrow> (string \<times> asset_response) option \<times> string list \<times> asset_state" where
  "recover_flag_script pf fetch initiator target h s =
     (let page = asset_origin (new_url pf) initiator; cands = get_list (as_scripts s) page
      in if initiator = [] \<or> cands = [] then (None, [], s)
         else case new_url pf target of
           None \<Rightarrow> (None, [], s)
         | Some u \<Rightarrow>
             let key = url_origin u @ url_pathname u @ url_search u; attempted = get_list (as_targets s) page
             in if \<not> is_flag_surgery_path (url_pathname u) \<or> page = [] \<or> key \<in> set attempted
                  \<or> FLAG_TARGETS_PER_ORIGIN \<le> length attempted
                then (None, [], s)
                else case parse_google_mss (url_pathname u) of
                  Some want \<Rightarrow>
                    let candidates = mss_candidates (new_url pf) page u want cands
                    in if candidates = [] then (None, [], s)
                       else flag_tries fetch page (safe_headers h) (take FLAG_REQUESTS_PER_CALL candidates) [] (remember_target page key s)
                | None \<Rightarrow>
                    if FLAG_REQUESTS_PER_ORIGIN \<le> request_count page s then (None, [], s)
                    else flag_tries fetch page (safe_headers h) (flag_candidates (new_url pf) u cands) [] (remember_target page key s))"

section \<open>Flat names: what a recovery may return\<close>

lemma safe_headers_keys: "fst ` set (safe_headers h) \<subseteq> {''user-agent'', ''accept'', ''accept-language''}"
proof -
  have step: "fst ` set (case truthy (hget h k) of Some v \<Rightarrow> hset k v acc | None \<Rightarrow> acc) \<subseteq> insert (js_lower k) (fst ` set acc)" for k acc
    using set_update_subset [of "js_lower k" _ acc] by (fastforce simp: hset_def split: option.splits)
  have low: "js_lower ''user-agent'' = ''user-agent''" "js_lower ''accept'' = ''accept''" "js_lower ''accept-language'' = ''accept-language''"
    by code_simp+
  have "fst ` set (fold (\<lambda>k acc. case truthy (hget h k) of Some v \<Rightarrow> hset k v acc | None \<Rightarrow> acc) ks acc)
      \<subseteq> js_lower ` set ks \<union> fst ` set acc" for ks acc
  proof (induction ks arbitrary: acc)
    case (Cons k ks)
    show ?case using Cons.IH [where acc = "case truthy (hget h k) of Some v \<Rightarrow> hset k v acc | None \<Rightarrow> acc"] step [where k = k and acc = acc] by auto
  qed simp
  from this [of "[''user-agent'', ''accept'', ''accept-language'']" "[]"] show ?thesis
    unfolding safe_headers_def using low by auto
qed

lemma try_bases_Some:
  "try_bases pf fetch dest h name bases = Some (v, r) \<Longrightarrow>
    answers dest r \<and> fetch v h = Some r \<and> (\<exists>base \<in> set bases. \<exists>u. new_url_base pf name base = Some u \<and> url_href u = v)"
  by (induction bases) (auto split: option.splits if_splits)

text \<open>A recovered flat-named asset comes from a directory the same page origin has loaded from, was fetched without cookie, origin or referrer, and its answer is a success of a content type its destination admits.\<close>

theorem flat_recovery_sound:
  assumes "recover_flat_asset pf fetch n s initiator target dest h = Some (v, r)"
  shows "ar_ok r \<and> mime_ok_for dest (case ar_type r of Some t \<Rightarrow> t | None \<Rightarrow> [])
    \<and> (\<exists>base \<in> set (take n (get_list (as_bases s) (asset_origin (new_url pf) initiator))). \<exists>u name.
         new_url_base pf name base = Some u \<and> url_href u = v)
    \<and> (\<exists>sent. fetch v sent = Some r \<and> fst ` set sent \<subseteq> {''user-agent'', ''accept'', ''accept-language''})"
proof -
  obtain name where t: "try_bases pf fetch dest (safe_headers h) name
      (take n (get_list (as_bases s) (asset_origin (new_url pf) initiator))) = Some (v, r)"
    using assms by (auto simp: recover_flat_asset_def Let_def split: if_splits option.splits)
  from try_bases_Some [OF t] safe_headers_keys [of h] show ?thesis unfolding answers_def by blast
qed

section \<open>Budgets\<close>

lemma head_other: "AList.delete k m = (j, v) # r \<Longrightarrow> j \<noteq> k"
proof -
  assume d: "AList.delete k m = (j, v) # r"
  have "map_of (AList.delete k m) k = None" by simp
  then show ?thesis using d by (auto split: if_splits)
qed

lemma put_newest_get: "0 < cap \<Longrightarrow> map_of (put_newest cap k v m) k = Some v"
proof -
  assume cap: "0 < cap"
  have none: "map_of (AList.delete k m) k = None" by simp
  have last: "map_of (AList.delete k m @ [(k, v)]) k = Some v" using none by (simp add: map_add_def)
  show ?thesis
  proof (cases "AList.delete k m")
    case Nil
    then show ?thesis using cap by (simp add: put_newest_def)
  next
    case (Cons jw r)
    then have "fst jw \<noteq> k" using head_other [of k m "fst jw" "snd jw" r] by simp
    then show ?thesis using last Cons by (cases jw) (simp add: put_newest_def Let_def omap_drop_oldest_def)
  qed
qed

lemma count_self [simp]: "request_count page (count_request page s) = Suc (request_count page s)"
  using put_newest_get [of FLAG_ORIGINS page "Suc (request_count page s)" "as_requests s"]
  by (simp add: request_count_def count_request_def Let_def FLAG_ORIGINS_def)

lemma count_remember [simp]: "request_count page (remember_target page key s) = request_count page s"
proof (cases "AList.delete page (as_targets s)")
  case Nil
  then show ?thesis by (simp add: request_count_def remember_target_def Let_def FLAG_ORIGINS_def)
next
  case (Cons jw r)
  then have "fst jw \<noteq> page" using head_other [of page "as_targets s" "fst jw" "snd jw" r] by simp
  then show ?thesis using Cons by (simp add: request_count_def remember_target_def Let_def)
qed

lemma flag_tries_bounded:
  assumes "flag_tries fetch page h cs tried s = (res, tried', s')" "distinct tried"
    "length tried \<le> FLAG_REQUESTS_PER_CALL" "request_count page s \<le> FLAG_REQUESTS_PER_ORIGIN"
  shows "distinct tried' \<and> set tried' \<subseteq> set tried \<union> set cs \<and> length tried' \<le> FLAG_REQUESTS_PER_CALL
    \<and> request_count page s' + length tried = request_count page s + length tried'
    \<and> request_count page s' \<le> FLAG_REQUESTS_PER_ORIGIN
    \<and> (\<forall>v r. res = Some (v, r) \<longrightarrow> answers ''script'' r \<and> fetch v h = Some r \<and> v \<in> set tried')"
  using assms
proof (induction cs arbitrary: tried s)
  case (Cons c cs)
  consider (stop) "c \<notin> set tried" "FLAG_REQUESTS_PER_CALL \<le> length tried \<or> FLAG_REQUESTS_PER_ORIGIN \<le> request_count page s"
    | (skip) "c \<in> set tried"
    | (fetch) "c \<notin> set tried" "length tried < FLAG_REQUESTS_PER_CALL" "request_count page s < FLAG_REQUESTS_PER_ORIGIN"
    by linarith
  then show ?case
  proof cases
    case stop
    then have "flag_tries fetch page h (c # cs) tried s = (None, tried, s)" by auto
    then show ?thesis using Cons.prems by auto
  next
    case skip
    then show ?thesis using Cons.IH [of tried s] Cons.prems by auto
  next
    case fetch
    let ?s = "count_request page s"
    have pre: "distinct (tried @ [c])" "length (tried @ [c]) \<le> FLAG_REQUESTS_PER_CALL" "request_count page ?s \<le> FLAG_REQUESTS_PER_ORIGIN"
      using fetch Cons.prems(2) by auto
    show ?thesis
    proof (cases "\<exists>r. fetch c h = Some r \<and> answers ''script'' r")
      case True
      then show ?thesis using fetch Cons.prems pre by (auto simp: Let_def)
    next
      case False
      then have "flag_tries fetch page h cs (tried @ [c]) ?s = (res, tried', s')"
        using fetch Cons.prems(1) by (auto simp: Let_def split: option.splits)
      from Cons.IH [OF this pre] show ?thesis by auto
    qed
  qed
qed simp

text \<open>C35. One recovery of a flag-shaped script asks for at most four distinct URLs, all of them counted against the page origin, whose count never passes 64; what it returns is a JavaScript success of one of them.\<close>

theorem flag_recovery_bounded:
  assumes "recover_flag_script pf fetch initiator target h s = (res, tried, s')"
    and "request_count page s \<le> FLAG_REQUESTS_PER_ORIGIN" "page = asset_origin (new_url pf) initiator"
  shows "distinct tried \<and> length tried \<le> 4 \<and> request_count page s' = request_count page s + length tried
    \<and> request_count page s' \<le> 64
    \<and> (\<forall>v r. res = Some (v, r) \<longrightarrow> v \<in> set tried \<and> ar_ok r \<and> mime_ok_for ''script'' (case ar_type r of Some t \<Rightarrow> t | None \<Rightarrow> []))"
proof -
  let ?goal = "\<lambda>res tried s'. distinct tried \<and> length tried \<le> 4 \<and> request_count page s' = request_count page s + length tried
    \<and> request_count page s' \<le> 64
    \<and> (\<forall>v r. res = Some (v, r) \<longrightarrow> v \<in> set tried \<and> ar_ok r \<and> mime_ok_for ''script'' (case ar_type r of Some t \<Rightarrow> t | None \<Rightarrow> []))"
  have none: "?goal None [] s" using assms(2) by (simp add: FLAG_REQUESTS_PER_ORIGIN_def)
  have run: "?goal res tried s'" if "flag_tries fetch page hh cs [] (remember_target page key s) = (res, tried, s')" for hh cs key
    using flag_tries_bounded [OF that] assms(2)
    by (auto simp: answers_def FLAG_REQUESTS_PER_CALL_def FLAG_REQUESTS_PER_ORIGIN_def)
  have "(res, tried, s') = (None, [], s)
    \<or> (\<exists>hh cs key. flag_tries fetch page hh cs [] (remember_target page key s) = (res, tried, s'))"
    using assms(1) by (simp add: recover_flag_script_def Let_def flip: assms(3) split: if_splits option.splits) blast+
  then show ?thesis using none run by blast
qed

section \<open>Bounded registries\<close>

datatype asset_op =
  NoteBase string string
  | NoteScript string string
  | RecoverFlag string string headers

fun asset_step :: "platform \<Rightarrow> asset_fetch \<Rightarrow> asset_op \<Rightarrow> asset_state \<Rightarrow> asset_state" where
  "asset_step pf fetch (NoteBase initiator u) s = record_asset_base (new_url pf) initiator u s"
| "asset_step pf fetch (NoteScript initiator u) s = record_script_url (new_url pf) initiator u s"
| "asset_step pf fetch (RecoverFlag initiator target h) s = snd (snd (recover_flag_script pf fetch initiator target h s))"

definition well_kept :: "nat \<Rightarrow> ('a \<Rightarrow> bool) \<Rightarrow> (string, 'a) omap \<Rightarrow> bool" where
  "well_kept cap P m \<longleftrightarrow> omap_wf m \<and> length m \<le> cap \<and> (\<forall>k v. (k, v) \<in> set m \<longrightarrow> P v)"

lemma well_kept_trim:
  assumes "omap_wf m" "length m \<le> Suc cap" "\<forall>k v. (k, v) \<in> set m \<longrightarrow> P v"
  shows "well_kept cap P (if cap < length m then omap_drop_oldest m else m)"
proof -
  have "length (omap_drop_oldest m) \<le> cap" using assms(2) by (simp add: omap_drop_oldest_tl [OF assms(1)])
  moreover have "\<forall>k v. (k, v) \<in> set (omap_drop_oldest m) \<longrightarrow> P v" using set_drop_oldest [of m] assms(3) by blast
  ultimately show ?thesis using assms by (simp add: well_kept_def)
qed

lemma well_kept_delete [simp]: "well_kept cap P m \<Longrightarrow> well_kept cap P (AList.delete k m)"
  using length_delete_le [of k m] set_delete_subset [of k m] by (auto simp: well_kept_def)

lemma well_kept_put_trimmed:
  assumes "well_kept cap P m" "P v" shows "well_kept cap P (put_trimmed cap k v m)"
proof -
  have "length (AList.update k v m) \<le> Suc cap"
    using assms(1) by (cases "omap_has m k") (auto simp: well_kept_def length_update_new length_update_old)
  moreover have "\<forall>j w. (j, w) \<in> set (AList.update k v m) \<longrightarrow> P w"
    using assms set_update_subset [of k v m] by (auto simp: well_kept_def)
  ultimately show ?thesis
    unfolding put_trimmed_def Let_def using assms(1) by (intro well_kept_trim) (simp_all add: well_kept_def)
qed

lemma well_kept_put_newest:
  assumes "well_kept cap P m" "P v" shows "well_kept cap P (put_newest cap k v m)"
proof -
  have "map_of (AList.delete k m) k = None" by simp
  then have "k \<notin> fst ` set (AList.delete k m)" unfolding map_of_eq_None_iff .
  then have "omap_wf (AList.delete k m @ [(k, v)])"
    using assms(1) omap_wf_delete [of m k] by (simp add: well_kept_def omap_wf_def)
  moreover have "length (AList.delete k m @ [(k, v)]) \<le> Suc cap"
    using assms(1) length_delete_le [of k m] by (simp add: well_kept_def)
  moreover have "\<forall>j w. (j, w) \<in> set (AList.delete k m @ [(k, v)]) \<longrightarrow> P w"
    using assms set_delete_subset [of k m] by (auto simp: well_kept_def)
  ultimately show ?thesis unfolding put_newest_def Let_def by (rule well_kept_trim)
qed

lemma well_kept_get: "well_kept cap P m \<Longrightarrow> map_of m k = Some v \<Longrightarrow> P v"
  by (auto simp: well_kept_def dest: map_of_SomeD)

definition assets_ok :: "asset_state \<Rightarrow> bool" where
  "assets_ok s \<longleftrightarrow>
     well_kept ASSET_BASES_TOTAL (\<lambda>l. length l \<le> ASSET_BASES_PER_ORIGIN) (as_bases s) \<and>
     well_kept SCRIPT_URLS_TOTAL (\<lambda>l. length l \<le> SCRIPT_URLS_PER_ORIGIN) (as_scripts s) \<and>
     well_kept FLAG_ORIGINS (\<lambda>n. n \<le> FLAG_REQUESTS_PER_ORIGIN) (as_requests s) \<and>
     well_kept FLAG_ORIGINS (\<lambda>l. length l \<le> FLAG_TARGETS_PER_ORIGIN) (as_targets s)"

lemma ok_base: "assets_ok s \<Longrightarrow> assets_ok (record_asset_base pu i u s)"
  by (simp add: record_asset_base_def Let_def assets_ok_def well_kept_put_trimmed push_recent_def)

lemma ok_script: "assets_ok s \<Longrightarrow> assets_ok (record_script_url pu i u s)"
  by (simp add: record_script_url_def Let_def assets_ok_def well_kept_put_newest push_recent_def)

lemma ok_count: "assets_ok s \<Longrightarrow> request_count page s < FLAG_REQUESTS_PER_ORIGIN \<Longrightarrow> assets_ok (count_request page s)"
  by (simp add: count_request_def Let_def assets_ok_def well_kept_put_newest)

lemma ok_remember:
  assumes "assets_ok s" "length (get_list (as_targets s) page) < FLAG_TARGETS_PER_ORIGIN"
  shows "assets_ok (remember_target page key s)"
proof -
  have "length (add_new key (get_list (as_targets s) page)) \<le> FLAG_TARGETS_PER_ORIGIN" using assms(2) by (simp add: add_new_def)
  then show ?thesis using assms(1) by (simp add: remember_target_def Let_def assets_ok_def well_kept_put_newest)
qed

lemma ok_tries: "assets_ok s \<Longrightarrow> flag_tries fetch page h cs tried s = (res, tried', s') \<Longrightarrow> assets_ok s'"
proof (induction cs arbitrary: tried s)
  case (Cons c cs)
  then show ?case using ok_count [OF Cons.prems(1), of page] by (auto simp: Let_def split: if_splits option.splits)
qed simp

lemma ok_recover:
  assumes "assets_ok s" "recover_flag_script pf fetch initiator target h s = (res, tried, s')"
  shows "assets_ok s'"
proof -
  let ?page = "asset_origin (new_url pf) initiator"
  have "s' = s \<or> length (get_list (as_targets s) ?page) < FLAG_TARGETS_PER_ORIGIN
      \<and> (\<exists>hh cs key. flag_tries fetch ?page hh cs [] (remember_target ?page key s) = (res, tried, s'))"
    using assms(2) by (simp add: recover_flag_script_def Let_def split: if_splits option.splits) (metis not_le)+
  then show ?thesis using assms(1) ok_tries ok_remember by metis
qed

lemma ok_step: "assets_ok s \<Longrightarrow> assets_ok (asset_step pf fetch op s)"
proof (induction op)
  case (RecoverFlag i t h)
  obtain res tried s' where "recover_flag_script pf fetch i t h s = (res, tried, s')" using prod_cases3 by blast
  then show ?case using ok_recover [OF RecoverFlag] by simp
qed (simp_all add: ok_base ok_script)

text \<open>Whatever a page loads and however many recoveries run, every registry keeps at most its cap of origins and of entries per origin.\<close>

theorem asset_registries_bounded:
  assumes "s = fold (asset_step pf fetch) ops no_assets"
  shows "length (as_bases s) \<le> 128 \<and> length (as_scripts s) \<le> 64 \<and> length (as_requests s) \<le> 128 \<and> length (as_targets s) \<le> 128
    \<and> length (get_list (as_bases s) page) \<le> 4 \<and> length (get_list (as_scripts s) page) \<le> 8
    \<and> length (get_list (as_targets s) page) \<le> 16 \<and> request_count page s \<le> 64"
proof -
  have "assets_ok (fold (asset_step pf fetch) ops t)" if "assets_ok t" for t
    using that by (induction ops arbitrary: t) (auto simp: ok_step)
  moreover have "assets_ok no_assets" by (simp add: assets_ok_def no_assets_def well_kept_def)
  ultimately have ok: "assets_ok s" using assms by blast
  have g: "length (get_list m page) \<le> n" if "well_kept cap (\<lambda>l. length l \<le> n) m" for cap n and m :: "(string, string list) omap"
    using that by (auto simp: get_list_def split: option.splits dest: well_kept_get)
  have "length (get_list (as_bases s) page) \<le> ASSET_BASES_PER_ORIGIN" "length (get_list (as_scripts s) page) \<le> SCRIPT_URLS_PER_ORIGIN"
    "length (get_list (as_targets s) page) \<le> FLAG_TARGETS_PER_ORIGIN"
    using g ok unfolding assets_ok_def by blast+
  moreover have "request_count page s \<le> FLAG_REQUESTS_PER_ORIGIN"
    using ok by (auto simp: request_count_def assets_ok_def split: option.splits dest: well_kept_get)
  moreover have "length (as_bases s) \<le> ASSET_BASES_TOTAL" "length (as_scripts s) \<le> SCRIPT_URLS_TOTAL"
    "length (as_requests s) \<le> FLAG_ORIGINS" "length (as_targets s) \<le> FLAG_ORIGINS"
    using ok by (simp_all add: assets_ok_def well_kept_def)
  ultimately show ?thesis
    by (simp add: ASSET_BASES_TOTAL_def ASSET_BASES_PER_ORIGIN_def
        SCRIPT_URLS_TOTAL_def SCRIPT_URLS_PER_ORIGIN_def FLAG_ORIGINS_def FLAG_REQUESTS_PER_ORIGIN_def FLAG_TARGETS_PER_ORIGIN_def)
qed

section \<open>Concrete runs\<close>

definition demo_asset_url :: "string \<Rightarrow> string \<Rightarrow> url" where
  "demo_asset_url orig path = \<lparr>url_href = orig @ path, url_protocol = ''https:'', url_origin = orig, url_host = orig, url_hostname = orig,
     url_pathname = path, url_search = [], url_hash = []\<rparr>"

definition demo_assets :: platform where
  "demo_assets = \<lparr>
     new_url = (\<lambda>s. if s = ''i'' then Some (demo_asset_url ''o'' ''/'')
        else if s = ''c'' then Some (demo_asset_url ''o'' ''/x/ed=0/y.js'')
        else if s = ''t'' then Some (demo_asset_url ''o'' ''/ed=1/cb=2'')
        else if s = ''f'' then Some (demo_asset_url ''o'' ''/a.css'') else None),
     new_url_base = (\<lambda>s base. Some (demo_asset_url base s)), with_pathname = (\<lambda>u _. u),
     psl_domain = (\<lambda>_. None), psl_suffix = (\<lambda>_. None)\<rparr>"

definition demo_fetch :: "string \<Rightarrow> asset_fetch" where
  "demo_fetch ct u h = Some \<lparr>ar_ok = True, ar_type = Some ct, ar_body = []\<rparr>"

definition demo_state :: asset_state where
  "demo_state = no_assets\<lparr>as_bases := [(''o'', [''https://cdn/'', ''https://old/''])], as_scripts := [(''o'', [''c''])]\<rparr>"

lemma demo_flat:
  "recover_flat_asset demo_assets (demo_fetch ''text/css'') 4 demo_state ''i'' ''f'' ''style'' [] =
    Some (''https://cdn/a.css'', \<lparr>ar_ok = True, ar_type = Some ''text/css'', ar_body = []\<rparr>)"
  by code_simp

lemma demo_flag:
  "(case recover_flag_script demo_assets (demo_fetch ''text/javascript'') ''i'' ''t'' [] demo_state of (r, tried, s') \<Rightarrow>
      map_option fst r = Some ''o/x/ed=1/cb=2'' \<and> tried = [''o/x/ed=1/cb=2''])"
  by code_simp

theorem flat_recovery_sound_witness:
  "\<exists>base \<in> set (take 4 (get_list (as_bases demo_state) (asset_origin (new_url demo_assets) ''i''))). \<exists>u name.
     new_url_base demo_assets name base = Some u \<and> url_href u = ''https://cdn/a.css''"
  using flat_recovery_sound [OF demo_flat] by blast

theorem flag_recovery_bounded_witness:
  "\<exists>res s'. recover_flag_script demo_assets (demo_fetch ''text/javascript'') ''i'' ''t'' [] demo_state = (res, [''o/x/ed=1/cb=2''], s')
     \<and> request_count ''o'' s' = 1"
proof -
  obtain res tried s' where r: "recover_flag_script demo_assets (demo_fetch ''text/javascript'') ''i'' ''t'' [] demo_state = (res, tried, s')"
    using prod_cases3 by blast
  moreover have "request_count ''o'' demo_state = 0" "''o'' = asset_origin (new_url demo_assets) ''i''" by code_simp+
  ultimately show ?thesis
    using flag_recovery_bounded [OF r, of "''o''"] demo_flag by (auto simp: FLAG_REQUESTS_PER_ORIGIN_def)
qed

theorem asset_registries_bounded_witness:
  "request_count ''o'' (fold (asset_step demo_assets (demo_fetch ''text/css'')) [NoteScript ''i'' ''c'', RecoverFlag ''i'' ''t'' []] no_assets) \<le> 64"
  using asset_registries_bounded [OF refl] by blast

text \<open>
  A directory noted again does not make its origin newer: the next new origin pushes out the one
  inserted first, although it has just been used. The map of the script URLs re-inserts instead.
\<close>

lemma used_origin_pushed_out:
  assumes "well_kept ASSET_BASES_TOTAL P (as_bases s)" "length (as_bases s) = ASSET_BASES_TOTAL" "as_bases s = (page, l) # r"
    and "\<not> omap_has (as_bases s) new"
  shows "map_of (put_trimmed ASSET_BASES_TOTAL new v (put_trimmed ASSET_BASES_TOTAL page w (as_bases s))) page = None"
proof -
  have 1: "put_trimmed ASSET_BASES_TOTAL page w (as_bases s) = (page, w) # r"
    using assms(2,3) by (simp add: put_trimmed_def)
  have "omap_wf ((page, w) # r)" "new \<notin> insert page (fst ` set r)" using assms by (auto simp: well_kept_def omap_wf_def omap_has_def map_of_eq_None_iff split: if_splits)
  then have "put_trimmed ASSET_BASES_TOTAL new v ((page, w) # r) = AList.delete page ((page, w) # AList.update new v r)"
    using assms(2,3) by (auto simp: put_trimmed_def omap_drop_oldest_def length_update_new omap_has_def map_of_eq_None_iff)
  then show ?thesis by (simp add: 1)
qed

end
