(* ===== verification/ExtMessaging.thy ===== *)
theory ExtMessaging
  imports ExtPermissions
begin

text \<open>
  Message passing between the contexts of an extension and between extensions
  (\<open>src/app/src/extensions/messaging.ts\<close>): the listener registries, the gate for foreign senders, the
  reply of one send and the pairs of ports. A listener is a number; what it does when it is called is
  an argument, and what happens after the call (a promise settles, \<open>sendResponse\<close> runs late, the
  timer fires) is a sequence of events. The calls on the two ends of a channel are events too, each of
  which returns before the next: a listener that posts, disconnects or registers while it is called is
  not modelled.
\<close>

section \<open>Listeners and the gate\<close>

record messenger =
  mg_listeners :: "(string, nat list) omap"
  mg_connect :: "(string, nat list) omap"
  mg_external :: "(string, nat list) omap"
  mg_external_connect :: "(string, nat list) omap"

definition no_messenger :: messenger where
  "no_messenger = \<lparr>mg_listeners = [], mg_connect = [], mg_external = [], mg_external_connect = []\<rparr>"

text \<open>A \<open>Set\<close> keeps the order of insertion and each listener once.\<close>

definition add_listener :: "string \<Rightarrow> nat \<Rightarrow> (string, nat list) omap \<Rightarrow> (string, nat list) omap" where
  "add_listener i l m =
     (let ls = (case map_of m i of Some ls \<Rightarrow> ls | None \<Rightarrow> [])
      in AList.update i (if l \<in> set ls then ls else ls @ [l]) m)"

definition on_message :: "string \<Rightarrow> nat \<Rightarrow> messenger \<Rightarrow> messenger" where
  "on_message i l mg = mg\<lparr>mg_listeners := add_listener i l (mg_listeners mg)\<rparr>"

definition on_connect :: "string \<Rightarrow> nat \<Rightarrow> messenger \<Rightarrow> messenger" where
  "on_connect i l mg = mg\<lparr>mg_connect := add_listener i l (mg_connect mg)\<rparr>"

definition on_message_external :: "string \<Rightarrow> nat \<Rightarrow> messenger \<Rightarrow> messenger" where
  "on_message_external i l mg = mg\<lparr>mg_external := add_listener i l (mg_external mg)\<rparr>"

definition on_connect_external :: "string \<Rightarrow> nat \<Rightarrow> messenger \<Rightarrow> messenger" where
  "on_connect_external i l mg = mg\<lparr>mg_external_connect := add_listener i l (mg_external_connect mg)\<rparr>"

definition clear_listeners :: "string \<Rightarrow> messenger \<Rightarrow> messenger" where
  "clear_listeners i mg =
     \<lparr>mg_listeners = AList.delete i (mg_listeners mg), mg_connect = AList.delete i (mg_connect mg),
      mg_external = AList.delete i (mg_external mg), mg_external_connect = AList.delete i (mg_external_connect mg)\<rparr>"

text \<open>\<open>ids\<close>: the \<open>externally_connectable.ids\<close> of the target, \<open>None\<close> when it declares none.\<close>

definition externally_allowed :: "(string \<Rightarrow> string list option) \<Rightarrow> string \<Rightarrow> string \<Rightarrow> bool" where
  "externally_allowed ids target sender =
     (case ids target of
        None \<Rightarrow> False
      | Some ps \<Rightarrow> list_ex (\<lambda>p. p \<noteq> [] \<and> (p = ''*'' \<or> glob_test p sender)) ps)"

section \<open>Senders\<close>

datatype message_context = BackgroundContext | PopupContext | OptionsContext | ContentContext | ExtensionPage

record message_sender =
  ms_extension :: string
  ms_id :: "string option"
  ms_context :: message_context
  ms_url :: "string option"
  ms_origin :: "string option"

definition sender_origin :: "url_parser \<Rightarrow> string option \<Rightarrow> string option" where
  "sender_origin pu u = (case truthy u of Some s \<Rightarrow> map_option url_origin (pu s) | None \<Rightarrow> None)"

text \<open>Which listeners one send reaches, and what they are told of the sender.\<close>

datatype send_refusal = CrossExtension | NoReceiver

definition receivers :: "string \<Rightarrow> (string, nat list) omap \<Rightarrow> message_sender \<Rightarrow> send_refusal + message_sender \<times> nat list" where
  "receivers i m from =
     (case map_of m i of
        None \<Rightarrow> Inl NoReceiver
      | Some ls \<Rightarrow> if ls = [] then Inl NoReceiver else Inr (from, ls))"

definition send_message :: "messenger \<Rightarrow> string \<Rightarrow> message_sender \<Rightarrow> send_refusal + message_sender \<times> nat list" where
  "send_message mg i from =
     (if ms_extension from \<noteq> i then Inl CrossExtension else receivers i (mg_listeners mg) from)"

definition send_message_external ::
  "url_parser \<Rightarrow> (string \<Rightarrow> string list option) \<Rightarrow> messenger \<Rightarrow> string \<Rightarrow> message_sender
    \<Rightarrow> send_refusal + message_sender \<times> nat list" where
  "send_message_external pu ids mg target from =
     (if ms_extension from = target then send_message mg target from
      else if \<not> externally_allowed ids target (ms_extension from) then Inl NoReceiver
      else receivers target (mg_external mg)
             \<lparr>ms_extension = ms_extension from, ms_id = Some (ms_extension from), ms_context = ms_context from,
              ms_url = ms_url from, ms_origin = sender_origin pu (ms_url from)\<rparr>)"

section \<open>The reply of one send\<close>

text \<open>
  What a listener does while it is called: it may call \<open>sendResponse\<close>, and it returns nothing, \<open>true\<close>,
  a value or a promise, or throws. A response of \<open>None\<close> is \<open>undefined\<close>.
\<close>

datatype 'v listener_return = Silent | KeepOpen | ReplyValue 'v | ReplyPromise | ListenerThrows string

record 'v listener_call =
  lc_responds :: "'v option option"
  lc_returns :: "'v listener_return"

datatype 'v outcome = Resolved "'v option" | Rejected string

record 'v reply =
  rp_outcome :: "'v outcome option"
  rp_pending :: nat
  rp_kept_open :: bool

definition settle :: "'v outcome \<Rightarrow> 'v reply \<Rightarrow> 'v reply" where
  "settle x r = (if rp_outcome r = None then r\<lparr>rp_outcome := Some x\<rparr> else r)"

text \<open>A listener that throws ends the loop: the constructor of the promise turns it into a rejection.\<close>

fun call_listeners :: "'v listener_call list \<Rightarrow> 'v reply \<Rightarrow> 'v reply" where
  "call_listeners [] r =
     (if rp_outcome r = None \<and> rp_pending r = 0 \<and> \<not> rp_kept_open r then settle (Resolved None) r else r)"
| "call_listeners (c # cs) r =
     (let r = (case lc_responds c of Some v \<Rightarrow> settle (Resolved v) r | None \<Rightarrow> r)
      in case lc_returns c of
           Silent \<Rightarrow> call_listeners cs r
         | KeepOpen \<Rightarrow> call_listeners cs (r\<lparr>rp_kept_open := True\<rparr>)
         | ReplyValue v \<Rightarrow> call_listeners cs (settle (Resolved (Some v)) r)
         | ReplyPromise \<Rightarrow> call_listeners cs (r\<lparr>rp_pending := Suc (rp_pending r)\<rparr>)
         | ListenerThrows e \<Rightarrow> settle (Rejected e) r)"

datatype 'v late_event = PromiseResolves "'v option" | PromiseRejects string | LateResponse "'v option" | ReplyTimeout

fun late_step :: "'v late_event \<Rightarrow> 'v reply \<Rightarrow> 'v reply" where
  "late_step (PromiseResolves v) r = settle (Resolved v) r"
| "late_step (PromiseRejects e) r = settle (Rejected e) r"
| "late_step (LateResponse v) r = settle (Resolved v) r"
| "late_step ReplyTimeout r = settle (Rejected ''zeolite: message listener did not respond'') r"

definition deliver :: "'v listener_call list \<Rightarrow> 'v late_event list \<Rightarrow> 'v outcome option" where
  "deliver calls evs =
     rp_outcome (fold late_step evs (call_listeners calls \<lparr>rp_outcome = None, rp_pending = 0, rp_kept_open = False\<rparr>))"

section \<open>Ports\<close>

text \<open>
  One end of a channel: its two sets of listeners, which message each call of a listener was given and which
  listeners were told of the end.\<close>

record 'm port =
  pt_alive :: bool
  pt_msg :: "nat list"
  pt_disc :: "nat list"
  pt_heard :: "(nat \<times> 'm) list"
  pt_told :: "nat list"

datatype channel_end = CallerEnd | ReceiverEnd

fun other_end :: "channel_end \<Rightarrow> channel_end" where
  "other_end CallerEnd = ReceiverEnd" | "other_end ReceiverEnd = CallerEnd"

type_synonym 'm port_pair = "channel_end \<Rightarrow> 'm port"

definition new_channel :: "'m port_pair" where
  "new_channel _ = \<lparr>pt_alive = True, pt_msg = [], pt_disc = [], pt_heard = [], pt_told = []\<rparr>"

text \<open>The loop over a set of listeners: those that are called, up to the first that throws.\<close>

fun call_until :: "nat list \<Rightarrow> nat list \<Rightarrow> nat list \<times> bool" where
  "call_until throwing [] = ([], False)"
| "call_until throwing (l # ls) =
     (if l \<in> set throwing then ([l], True) else let (called, threw) = call_until throwing ls in (l # called, threw))"

definition port_receive :: "nat list \<Rightarrow> 'm \<Rightarrow> 'm port \<Rightarrow> bool \<times> 'm port" where
  "port_receive throwing m p =
     (if \<not> pt_alive p then (False, p)
      else let (called, threw) = call_until throwing (pt_msg p)
           in (threw, p\<lparr>pt_heard := pt_heard p @ map (\<lambda>l. (l, m)) called\<rparr>))"

text \<open>What \<open>disconnect\<close> and \<open>notifyDisconnect\<close> share.\<close>

definition port_end :: "nat list \<Rightarrow> 'm port \<Rightarrow> bool \<times> 'm port" where
  "port_end throwing p =
     (let (called, threw) = call_until throwing (pt_disc p)
      in (threw, p\<lparr>pt_alive := False, pt_told := pt_told p @ called\<rparr>))"

definition notify_disconnect :: "nat list \<Rightarrow> 'm port \<Rightarrow> bool \<times> 'm port" where
  "notify_disconnect throwing p = (if \<not> pt_alive p then (False, p) else port_end throwing p)"

datatype port_error = PortDisconnected | ListenerThrew

definition post_message :: "channel_end \<Rightarrow> 'm \<Rightarrow> nat list \<Rightarrow> 'm port_pair \<Rightarrow> port_error option \<times> 'm port_pair" where
  "post_message e m throwing c =
     (if \<not> pt_alive (c e) then (Some PortDisconnected, c)
      else let (threw, q) = port_receive throwing m (c (other_end e))
           in (if threw then Some ListenerThrew else None, c(other_end e := q)))"

text \<open>A listener of this end that throws keeps the other end from being told.\<close>

definition disconnect :: "channel_end \<Rightarrow> (channel_end \<Rightarrow> nat list) \<Rightarrow> 'm port_pair \<Rightarrow> port_error option \<times> 'm port_pair" where
  "disconnect e throwing c =
     (if \<not> pt_alive (c e) then (None, c)
      else let (threw, p) = port_end (throwing e) (c e); c = c(e := p)
           in if threw then (Some ListenerThrew, c)
              else let (threw, q) = notify_disconnect (throwing (other_end e)) (c (other_end e))
                   in (if threw then Some ListenerThrew else None, c(other_end e := q)))"

definition add_once :: "nat \<Rightarrow> nat list \<Rightarrow> nat list" where
  "add_once l ls = (if l \<in> set ls then ls else ls @ [l])"

definition port_on_message :: "nat \<Rightarrow> 'm port \<Rightarrow> 'm port" where
  "port_on_message l p = p\<lparr>pt_msg := add_once l (pt_msg p)\<rparr>"

definition port_on_disconnect :: "nat \<Rightarrow> 'm port \<Rightarrow> 'm port" where
  "port_on_disconnect l p = p\<lparr>pt_disc := add_once l (pt_disc p)\<rparr>"

datatype 'm port_event =
  Post channel_end 'm "nat list"
| Disconnect channel_end "channel_end \<Rightarrow> nat list"
| ListenMessage channel_end nat
| ListenDisconnect channel_end nat

fun port_step :: "'m port_event \<Rightarrow> 'm port_pair \<Rightarrow> 'm port_pair" where
  "port_step (Post e m throwing) c = snd (post_message e m throwing c)"
| "port_step (Disconnect e throwing) c = snd (disconnect e throwing c)"
| "port_step (ListenMessage e l) c = c(e := port_on_message l (c e))"
| "port_step (ListenDisconnect e l) c = c(e := port_on_disconnect l (c e))"

definition run_channel :: "'m port_event list \<Rightarrow> 'm port_pair" where
  "run_channel evs = fold port_step evs new_channel"

text \<open>\<open>connect\<close>: the senders of the caller's and of the receiver's port, and who is handed the latter.\<close>

definition connect_port ::
  "messenger \<Rightarrow> string \<Rightarrow> message_sender \<Rightarrow> (message_sender \<times> message_sender \<times> nat list) option" where
  "connect_port mg i from =
     (if ms_extension from \<noteq> i then None
      else Some (from,
                 \<lparr>ms_extension = i, ms_id = Some i, ms_context = BackgroundContext, ms_url = None, ms_origin = None\<rparr>,
                 (case map_of (mg_connect mg) i of Some ls \<Rightarrow> ls | None \<Rightarrow> [])))"

definition connect_external ::
  "url_parser \<Rightarrow> (string \<Rightarrow> string list option) \<Rightarrow> messenger \<Rightarrow> string \<Rightarrow> message_sender
    \<Rightarrow> (message_sender \<times> message_sender \<times> nat list) option" where
  "connect_external pu ids mg target from =
     (if ms_extension from = target then connect_port mg target from
      else if \<not> externally_allowed ids target (ms_extension from) then None
      else
        let sender = from\<lparr>ms_origin := sender_origin pu (ms_url from)\<rparr>
        in Some (sender, sender, (case map_of (mg_external_connect mg) target of Some ls \<Rightarrow> ls | None \<Rightarrow> [])))"

section \<open>Isolation\<close>

text \<open>A message reaches the listeners of its target only, and one from another extension only if the target's patterns admit that extension; the external listeners are told the sender's own id.\<close>

theorem messages_isolated:
  assumes "send_message_external pu ids mg target from = Inr (sender, ls)"
  shows "ms_extension sender = ms_extension from
    \<and> (if ms_extension from = target then map_of (mg_listeners mg) target = Some ls \<and> sender = from
       else map_of (mg_external mg) target = Some ls \<and> ms_id sender = Some (ms_extension from)
         \<and> (\<exists>ps p. ids target = Some ps \<and> p \<in> set ps \<and> (p = ''*'' \<or> glob_test p (ms_extension from))))"
  using assms
  by (auto simp: send_message_external_def send_message_def receivers_def externally_allowed_def list_ex_iff
      split: if_splits option.splits)

section \<open>Replies\<close>

lemma settle_keeps: "rp_outcome r = Some x \<Longrightarrow> settle y r = r"
  by (simp add: settle_def)

lemma late_keeps: "rp_outcome r = Some x \<Longrightarrow> fold late_step evs r = r"
proof (induction evs)
  case (Cons ev evs)
  then show ?case by (cases ev) (simp_all add: settle_keeps)
qed simp

lemma late_settles: "rp_outcome (late_step ev r) \<noteq> None"
  by (cases ev) (auto simp: settle_def)

lemma late_first:
  "rp_outcome r = None \<Longrightarrow> rp_outcome (fold late_step (ev # evs) r) = rp_outcome (late_step ev r)"
  using late_settles [of ev r] late_keeps by fastforce

lemma calls_keep: "rp_outcome r = Some x \<Longrightarrow> rp_outcome (call_listeners cs r) = Some x"
  by (induction cs r rule: call_listeners.induct)
    (auto simp: settle_def Let_def split: option.splits listener_return.splits)

text \<open>What decides a send while its listeners are called: the first call that responds, replies or throws.\<close>

definition call_decides :: "'v listener_call \<Rightarrow> 'v outcome option" where
  "call_decides c =
     (case lc_responds c of
        Some v \<Rightarrow> Some (Resolved v)
      | None \<Rightarrow> (case lc_returns c of
                 ReplyValue v \<Rightarrow> Some (Resolved (Some v))
               | ListenerThrows e \<Rightarrow> Some (Rejected e)
               | _ \<Rightarrow> None))"

fun first_decision :: "'v listener_call list \<Rightarrow> 'v outcome option" where
  "first_decision [] = None"
| "first_decision (c # cs) = (case call_decides c of Some x \<Rightarrow> Some x | None \<Rightarrow> first_decision cs)"

definition awaits :: "'v listener_call \<Rightarrow> bool" where
  "awaits c \<longleftrightarrow> (case lc_returns c of KeepOpen \<Rightarrow> True | ReplyPromise \<Rightarrow> True | _ \<Rightarrow> False)"

lemma calls_outcome:
  "rp_outcome r = None \<Longrightarrow> rp_outcome (call_listeners cs r) =
    (case first_decision cs of
       Some x \<Rightarrow> Some x
     | None \<Rightarrow> if rp_pending r = 0 \<and> \<not> rp_kept_open r \<and> \<not> list_ex awaits cs then Some (Resolved None) else None)"
proof (induction cs arbitrary: r)
  case (Cons c cs)
  show ?case
  proof (cases "call_decides c")
    case None
    then have "lc_responds c = None" by (auto simp: call_decides_def split: option.splits)
    with None Cons show ?thesis
      by (cases "lc_returns c") (auto simp: call_decides_def awaits_def Let_def split: option.splits)
  next
    case (Some x)
    show ?thesis
    proof (cases "lc_responds c")
      case None
      then show ?thesis using Some Cons.prems
        by (cases "lc_returns c") (auto simp: call_decides_def settle_def Let_def calls_keep)
    next
      case (Some v)
      have "rp_outcome (call_listeners (c # cs) r) = Some (Resolved v)"
        using Some Cons.prems by (cases "lc_returns c") (auto simp: settle_def Let_def calls_keep)
      then show ?thesis using Some by (simp add: call_decides_def)
    qed
  qed
qed (simp add: settle_def)

text \<open>C36. A send settles once: with the first response, reply or throw of its listeners in their order, with undefined when they all stay silent, and else with the first late event, the timer at the latest.\<close>

theorem send_outcome_exact:
  "deliver calls evs =
    (case first_decision calls of
       Some x \<Rightarrow> Some x
     | None \<Rightarrow> if \<not> list_ex awaits calls then Some (Resolved None)
              else case evs of
                     [] \<Rightarrow> None
                   | PromiseResolves v # _ \<Rightarrow> Some (Resolved v)
                   | PromiseRejects e # _ \<Rightarrow> Some (Rejected e)
                   | LateResponse v # _ \<Rightarrow> Some (Resolved v)
                   | ReplyTimeout # _ \<Rightarrow> Some (Rejected ''zeolite: message listener did not respond''))"
proof -
  let ?r = "call_listeners calls \<lparr>rp_outcome = None, rp_pending = 0, rp_kept_open = False\<rparr>"
  have r: "rp_outcome ?r = (case first_decision calls of Some x \<Rightarrow> Some x
      | None \<Rightarrow> if \<not> list_ex awaits calls then Some (Resolved None) else None)"
    using calls_outcome [of "\<lparr>rp_outcome = None, rp_pending = 0, rp_kept_open = False\<rparr>" calls] by simp
  show ?thesis
  proof (cases "rp_outcome ?r")
    case (Some x)
    then have "deliver calls evs = Some x" unfolding deliver_def by (simp add: late_keeps [OF Some])
    then show ?thesis using r Some by (auto split: option.splits if_splits)
  next
    case None
    then have "first_decision calls = None" "list_ex awaits calls" using r by (auto split: option.splits if_splits)
    moreover have "deliver calls evs = (case evs of [] \<Rightarrow> None | ev # _ \<Rightarrow> rp_outcome (late_step ev ?r))"
      unfolding deliver_def using None late_first [OF None] by (cases evs) auto
    ultimately show ?thesis using None by (auto simp: settle_def split: list.splits late_event.splits)
  qed
qed

text \<open>A listener that throws hides the message from the listeners after it.\<close>

lemma throw_hides_message:
  "lc_responds c = None \<Longrightarrow> lc_returns c = ListenerThrows e \<Longrightarrow>
    call_listeners (c # cs) r = settle (Rejected e) r"
  by simp

section \<open>Channels\<close>

lemma call_until_prefix: "\<exists>rest. ls = fst (call_until throwing ls) @ rest"
  by (induction ls) (auto split: prod.splits)

lemma call_until_calm: "set throwing \<inter> set ls = {} \<Longrightarrow> call_until throwing ls = (ls, False)"
  by (induction ls) auto

lemma other_end_simps [simp]: "other_end e \<noteq> e" "e \<noteq> other_end e" "other_end (other_end e) = e"
  by (cases e; simp)+

lemma end_cases: "f = e \<or> f = other_end e"
  by (cases e; cases f) simp_all

lemmas port_defs = post_message_def disconnect_def port_receive_def notify_disconnect_def port_end_def

text \<open>What the listener \<open>l\<close> heard, and what was posted to its end.\<close>

definition heard_by :: "nat \<Rightarrow> 'm port \<Rightarrow> 'm list" where
  "heard_by l p = map snd (filter (\<lambda>(k, m). k = l) (pt_heard p))"

fun posts_to :: "channel_end \<Rightarrow> 'm port_event list \<Rightarrow> 'm list" where
  "posts_to e [] = []"
| "posts_to e (ev # evs) = (case ev of Post f m _ \<Rightarrow> if f = other_end e then m # posts_to e evs else posts_to e evs | _ \<Rightarrow> posts_to e evs)"

lemma posts_to_append: "posts_to e (evs @ rest) = posts_to e evs @ posts_to e rest"
  by (induction evs) (auto split: port_event.split)

text \<open>An end that is disconnected stays so: none of its listeners is called again.\<close>

lemma dead_end_step:
  "\<not> pt_alive (c e) \<Longrightarrow> \<not> pt_alive (port_step ev c e) \<and> pt_heard (port_step ev c e) = pt_heard (c e)
    \<and> pt_told (port_step ev c e) = pt_told (c e)"
  by (cases ev) (auto simp: port_defs port_on_message_def port_on_disconnect_def Let_def split: prod.splits)

lemma dead_end_run:
  "\<not> pt_alive (c e) \<Longrightarrow> \<not> pt_alive (fold port_step evs c e) \<and> pt_heard (fold port_step evs c e) = pt_heard (c e)
    \<and> pt_told (fold port_step evs c e) = pt_told (c e)"
proof (induction evs arbitrary: c)
  case (Cons ev evs)
  from dead_end_step [of c e ev] Cons.prems Cons.IH [of "port_step ev c"] show ?case by simp
qed simp

text \<open>Listeners are sets; a live end has told nobody, and an end tells each listener once at most.\<close>

definition port_inv :: "'m port \<Rightarrow> bool" where
  "port_inv p \<longleftrightarrow> distinct (pt_msg p) \<and> distinct (pt_disc p) \<and> distinct (pt_told p) \<and> (pt_alive p \<longrightarrow> pt_told p = [])"

lemma distinct_called: "distinct ls \<Longrightarrow> call_until throwing ls = (called, threw) \<Longrightarrow> distinct called"
  using call_until_prefix [of ls throwing] by (metis distinct_append fst_conv)

lemma port_inv_step: "(\<forall>f. port_inv (c f)) \<Longrightarrow> port_inv (port_step ev c e)"
proof -
  assume ok: "\<forall>f. port_inv (c f)"
  have ended: "port_inv (snd (port_end throwing (c f)))" if "pt_alive (c f)" for throwing f
    using ok [rule_format, of f] that by (auto simp: port_end_def port_inv_def intro: distinct_called split: prod.split)
  have rec: "port_inv (snd (port_receive throwing m (c f)))" for throwing m f
    using ok by (auto simp: port_receive_def port_inv_def split: prod.split)
  have noted: "port_inv (snd (notify_disconnect throwing (c f)))" for throwing f
    using ok ended by (simp add: notify_disconnect_def)
  show ?thesis
  proof (cases ev)
    case (Post f m th)
    then show ?thesis using ok rec [of th m "other_end f"] by (auto simp: post_message_def split: prod.splits)
  next
    case (Disconnect f th)
    then show ?thesis using ok ended [of f "th f"] noted [of "th (other_end f)" "other_end f"]
      by (auto simp: disconnect_def Let_def split: prod.splits)
  qed (use ok in \<open>auto simp: port_inv_def port_on_message_def port_on_disconnect_def add_once_def\<close>)
qed

lemma port_inv_run: "(\<forall>f. port_inv (c f)) \<Longrightarrow> port_inv (fold port_step evs c e)"
proof (induction evs arbitrary: c)
  case (Cons ev evs)
  have "\<forall>f. port_inv (port_step ev c f)" using port_inv_step [OF Cons.prems] by blast
  from Cons.IH [OF this] show ?case by simp
qed simp

lemma port_inv_channel: "port_inv (run_channel evs e)"
  unfolding run_channel_def by (rule port_inv_run) (simp add: port_inv_def new_channel_def)

text \<open>\<open>nths\<close> picks the elements at a set of positions: one list is in the other, in order.\<close>

lemma nths_in_range: "nths ys I = nths ys (I \<inter> {..<length ys})"
proof -
  have "filter (\<lambda>p. snd p \<in> I) (zip ys [0..<length ys]) = filter (\<lambda>p. snd p \<in> I \<inter> {..<length ys}) (zip ys [0..<length ys])"
    by (rule filter_cong) (auto dest: set_zip_rightD)
  then show ?thesis by (simp add: nths_def)
qed

lemma in_order_skip: "\<exists>I. xs = nths ys I \<Longrightarrow> \<exists>I. xs = nths (ys @ [m]) I"
proof -
  assume "\<exists>I. xs = nths ys I"
  then obtain I where "xs = nths ys (I \<inter> {..<length ys})" using nths_in_range by metis
  then have "xs = nths (ys @ [m]) (I \<inter> {..<length ys})" by (simp add: nths_append)
  then show ?thesis by blast
qed

lemma in_order_take: "\<exists>I. xs = nths ys I \<Longrightarrow> \<exists>I. xs @ [m] = nths (ys @ [m]) I"
proof -
  assume "\<exists>I. xs = nths ys I"
  then obtain I where I: "xs = nths ys (I \<inter> {..<length ys})" using nths_in_range by metis
  have "nths ys (insert (length ys) (I \<inter> {..<length ys})) = nths ys (I \<inter> {..<length ys})"
    using nths_in_range [of ys "insert (length ys) (I \<inter> {..<length ys})"] by simp
  then have "xs @ [m] = nths (ys @ [m]) (insert (length ys) (I \<inter> {..<length ys}))"
    using I by (simp add: nths_append)
  then show ?thesis by blast
qed

lemma filter_one: "distinct ls \<Longrightarrow> filter (\<lambda>k. k = l) ls = (if l \<in> set ls then [l] else [])"
  by (induction ls) (auto simp: filter_empty_conv)

lemma count_distinct: "distinct ls \<Longrightarrow> count_list ls l = (if l \<in> set ls then 1 else 0)"
  by (induction ls) auto

lemma heard_receive:
  assumes "distinct (pt_msg p)"
  shows "heard_by l (snd (port_receive throwing m p)) = heard_by l p
    \<or> heard_by l (snd (port_receive throwing m p)) = heard_by l p @ [m]"
proof (cases "pt_alive p")
  case True
  obtain called threw where c: "call_until throwing (pt_msg p) = (called, threw)" by fastforce
  have "filter (\<lambda>k. k = l) called = (if l \<in> set called then [l] else [])"
    by (rule filter_one [OF distinct_called [OF assms c]])
  then have "map snd (filter (\<lambda>(k, x). k = l) (map (\<lambda>k. (k, m)) called)) = (if l \<in> set called then [m] else [])"
    by (simp add: filter_map comp_def)
  then show ?thesis using True c by (simp add: port_receive_def heard_by_def)
qed (simp add: port_receive_def)

lemma heard_end [simp]: "heard_by l (snd (port_end throwing p)) = heard_by l p"
  by (simp add: port_end_def heard_by_def split: prod.split)

lemma heard_notify [simp]: "heard_by l (snd (notify_disconnect throwing p)) = heard_by l p"
  by (simp add: notify_disconnect_def)

lemma heard_step:
  assumes "\<forall>f. port_inv (c f)"
  shows "heard_by l (port_step ev c e) = heard_by l (c e)
    \<or> (\<exists>m th. ev = Post (other_end e) m th \<and> heard_by l (port_step ev c e) = heard_by l (c e) @ [m])"
proof (cases ev)
  case (Post f m th)
  have "distinct (pt_msg (c e))" using assms by (simp add: port_inv_def)
  from heard_receive [OF this, of l th m] show ?thesis
    using Post end_cases [of f e] by (auto simp: post_message_def split: prod.splits)
next
  case (Disconnect f th)
  obtain threw p where p: "port_end (th f) (c f) = (threw, p)" by fastforce
  obtain threw' q where q: "notify_disconnect (th (other_end f)) (c (other_end f)) = (threw', q)" by fastforce
  have "heard_by l p = heard_by l (c f)" "heard_by l q = heard_by l (c (other_end f))"
    using heard_end [of l "th f" "c f"] heard_notify [of l "th (other_end f)" "c (other_end f)"] p q by simp_all
  then show ?thesis using Disconnect by (simp add: disconnect_def Let_def p q)
qed (auto simp: heard_by_def port_on_message_def port_on_disconnect_def)

lemma heard_in_order: "\<exists>I. heard_by l (run_channel evs e) = nths (posts_to e evs) I"
proof (induction evs rule: rev_induct)
  case (snoc ev evs)
  have "\<forall>f. port_inv (run_channel evs f)" using port_inv_channel by blast
  from heard_step [OF this, of l ev e] show ?case
  proof (elim disjE exE conjE)
    assume "heard_by l (port_step ev (run_channel evs) e) = heard_by l (run_channel evs e)"
    then have same: "heard_by l (run_channel (evs @ [ev]) e) = heard_by l (run_channel evs e)" by (simp add: run_channel_def)
    have "posts_to e [ev] = [] \<or> (\<exists>m. posts_to e [ev] = [m])" by (cases ev) auto
    then show ?thesis unfolding posts_to_append same using snoc in_order_skip [OF snoc] by fastforce
  next
    fix m th
    assume "ev = Post (other_end e) m th" "heard_by l (port_step ev (run_channel evs) e) = heard_by l (run_channel evs e) @ [m]"
    then show ?thesis using in_order_take [OF snoc, of m] by (simp add: run_channel_def posts_to_append)
  qed
qed (auto simp: run_channel_def new_channel_def heard_by_def)

text \<open>What a listener of the end \<open>e\<close> has to hear, and how often it has to be told of the end, when no listener throws.\<close>

fun must_hear :: "channel_end \<Rightarrow> nat \<Rightarrow> bool \<Rightarrow> 'm port_event list \<Rightarrow> 'm list" where
  "must_hear e l registered [] = []"
| "must_hear e l registered (ev # evs) = (case ev of
     Post f m _ \<Rightarrow> if f = other_end e \<and> registered then m # must_hear e l registered evs else must_hear e l registered evs
   | Disconnect _ _ \<Rightarrow> []
   | ListenMessage f k \<Rightarrow> must_hear e l (registered \<or> f = e \<and> k = l) evs
   | ListenDisconnect _ _ \<Rightarrow> must_hear e l registered evs)"

fun must_tell :: "channel_end \<Rightarrow> nat \<Rightarrow> bool \<Rightarrow> 'm port_event list \<Rightarrow> nat" where
  "must_tell e l registered [] = 0"
| "must_tell e l registered (ev # evs) = (case ev of
     Disconnect _ _ \<Rightarrow> if registered then 1 else 0
   | ListenDisconnect f k \<Rightarrow> must_tell e l (registered \<or> f = e \<and> k = l) evs
   | _ \<Rightarrow> must_tell e l registered evs)"

fun calm :: "'m port_event \<Rightarrow> bool" where
  "calm (Post _ _ throwing) \<longleftrightarrow> throwing = []"
| "calm (Disconnect _ throwing) \<longleftrightarrow> throwing CallerEnd = [] \<and> throwing ReceiverEnd = []"
| "calm _ \<longleftrightarrow> True"

fun is_disconnect :: "'m port_event \<Rightarrow> bool" where
  "is_disconnect (Disconnect _ _) = True" | "is_disconnect _ = False"

lemma calm_end: "calm (Disconnect f th) \<Longrightarrow> th e = []"
  by (cases e) simp_all

lemma calm_disconnect:
  assumes "calm (Disconnect f th)" "\<forall>e. pt_alive (c e)"
  shows "port_step (Disconnect f th) c e = (c e)\<lparr>pt_alive := False, pt_told := pt_told (c e) @ pt_disc (c e)\<rparr>"
  using assms end_cases [of e f] by (auto simp: port_defs Let_def calm_end [OF assms(1)] call_until_calm)

lemma calm_post:
  assumes "\<forall>e. pt_alive (c e)"
  shows "port_step (Post f m []) c e = (if f = other_end e
    then (c e)\<lparr>pt_heard := pt_heard (c e) @ map (\<lambda>l. (l, m)) (pt_msg (c e))\<rparr> else c e)"
  using assms end_cases [of e f] by (auto simp: port_defs Let_def call_until_calm)

lemma calm_run:
  assumes "\<forall>e. pt_alive (c e) \<and> port_inv (c e)" "\<forall>ev \<in> set evs. calm ev"
  shows "heard_by l (fold port_step evs c e) = heard_by l (c e) @ must_hear e l (l \<in> set (pt_msg (c e))) evs
    \<and> (pt_alive (fold port_step evs c e) \<longleftrightarrow> \<not> list_ex is_disconnect evs)
    \<and> count_list (pt_told (fold port_step evs c e)) l = must_tell e l (l \<in> set (pt_disc (c e))) evs"
  using assms
proof (induction evs arbitrary: c)
  case Nil
  then show ?case by (simp add: port_inv_def)
next
  case (Cons ev evs)
  have ok: "\<forall>f. port_inv (port_step ev c f)" using port_inv_step Cons.prems(1) by blast
  show ?case
  proof (cases ev)
    case (Post f m th)
    then have ev: "ev = Post f m []" using Cons.prems(2) by simp
    have s: "port_step ev c x = (if f = other_end x
        then (c x)\<lparr>pt_heard := pt_heard (c x) @ map (\<lambda>l. (l, m)) (pt_msg (c x))\<rparr> else c x)" for x
      unfolding ev by (rule calm_post) (use Cons.prems(1) in blast)
    have "filter (\<lambda>k. k = l) (pt_msg (c e)) = (if l \<in> set (pt_msg (c e)) then [l] else [])"
      using Cons.prems(1) by (simp add: port_inv_def filter_one)
    then have "heard_by l (port_step ev c e) = heard_by l (c e) @ (if f = other_end e \<and> l \<in> set (pt_msg (c e)) then [m] else [])"
      by (simp add: s heard_by_def filter_map comp_def)
    moreover have "\<forall>x. pt_alive (port_step ev c x) \<and> port_inv (port_step ev c x)" using ok Cons.prems(1) by (simp add: s)
    moreover have "pt_msg (port_step ev c e) = pt_msg (c e)" "pt_disc (port_step ev c e) = pt_disc (c e)" by (simp_all add: s)
    ultimately show ?thesis using Cons.IH [of "port_step ev c"] Cons.prems(2) by (simp add: ev)
  next
    case (Disconnect f th)
    then have s: "port_step ev c x = (c x)\<lparr>pt_alive := False, pt_told := pt_told (c x) @ pt_disc (c x)\<rparr>" for x
      using calm_disconnect [of f th c x] Cons.prems by simp
    then have "\<not> pt_alive (port_step ev c e)" by simp
    then have dead: "\<not> pt_alive (fold port_step evs (port_step ev c) e) \<and> pt_heard (fold port_step evs (port_step ev c) e) = pt_heard (port_step ev c e)
      \<and> pt_told (fold port_step evs (port_step ev c) e) = pt_told (port_step ev c e)"
      using dead_end_run [of "port_step ev c" e evs] by blast
    have told: "pt_told (c e) = []" "distinct (pt_disc (c e))" using Cons.prems(1) by (simp_all add: port_inv_def)
    then have "count_list (pt_disc (c e)) l = (if l \<in> set (pt_disc (c e)) then 1 else 0)"
      by (simp add: count_distinct)
    moreover have "fold port_step (ev # evs) c e = fold port_step evs (port_step ev c) e" by simp
    ultimately show ?thesis unfolding heard_by_def using dead told s [of e] Disconnect
      by (simp del: fold_simps port_step.simps)
  next
    case (ListenMessage f k)
    have "\<forall>x. pt_alive (port_step ev c x) \<and> port_inv (port_step ev c x)"
      using ok Cons.prems(1) by (simp add: ListenMessage port_on_message_def)
    moreover have "pt_heard (port_step ev c e) = pt_heard (c e)" "pt_disc (port_step ev c e) = pt_disc (c e)"
      "l \<in> set (pt_msg (port_step ev c e)) \<longleftrightarrow> l \<in> set (pt_msg (c e)) \<or> f = e \<and> k = l"
      by (auto simp: ListenMessage port_on_message_def add_once_def)
    ultimately show ?thesis
      using Cons.IH [of "port_step ev c"] Cons.prems(2) unfolding heard_by_def
      by (simp add: ListenMessage del: port_step.simps)
  next
    case (ListenDisconnect f k)
    have "\<forall>x. pt_alive (port_step ev c x) \<and> port_inv (port_step ev c x)"
      using ok Cons.prems(1) by (simp add: ListenDisconnect port_on_disconnect_def)
    moreover have "pt_heard (port_step ev c e) = pt_heard (c e)" "pt_msg (port_step ev c e) = pt_msg (c e)"
      "l \<in> set (pt_disc (port_step ev c e)) \<longleftrightarrow> l \<in> set (pt_disc (c e)) \<or> f = e \<and> k = l"
      by (auto simp: ListenDisconnect port_on_disconnect_def add_once_def)
    ultimately show ?thesis
      using Cons.IH [of "port_step ev c"] Cons.prems(2) unfolding heard_by_def
      by (simp add: ListenDisconnect del: port_step.simps)
  qed
qed

lemma nobody: "heard_by l (new_channel e) = []" "pt_msg (new_channel e) = []" "pt_disc (new_channel e) = []"
  by (simp_all add: new_channel_def heard_by_def)

text \<open>C40. The channel between two ends, whatever calls follow one another on them and whichever listeners throw.
  A listener hears only what was posted from the other end, in order, each post once at most. When an end is
  disconnected, none of its listeners hears or is told anything more, even if the other end lives on and
  posts. A live end has told nobody of an end, and no listener is told twice. While no listener throws, both
  ends live until the first disconnect, every listener hears exactly what the other end posts between its
  registration and that disconnect, and is told of it exactly once if it was registered for that before.\<close>

theorem channel_exact:
  "(\<exists>I. heard_by l (run_channel evs e) = nths (posts_to e evs) I)
    \<and> (\<not> pt_alive (run_channel evs e) \<longrightarrow> pt_heard (run_channel (evs @ rest) e) = pt_heard (run_channel evs e)
        \<and> pt_told (run_channel (evs @ rest) e) = pt_told (run_channel evs e))
    \<and> (pt_alive (run_channel evs e) \<longrightarrow> pt_told (run_channel evs e) = [])
    \<and> count_list (pt_told (run_channel evs e)) l \<le> 1
    \<and> ((\<forall>ev \<in> set evs. calm ev) \<longrightarrow>
        (pt_alive (run_channel evs e) \<longleftrightarrow> \<not> list_ex is_disconnect evs)
        \<and> heard_by l (run_channel evs e) = must_hear e l False evs
        \<and> count_list (pt_told (run_channel evs e)) l = must_tell e l False evs)"
proof -
  have ok: "distinct (pt_told (run_channel evs e))" "pt_alive (run_channel evs e) \<longrightarrow> pt_told (run_channel evs e) = []"
    using port_inv_channel [of evs e] by (simp_all add: port_inv_def)
  have dead: "pt_heard (run_channel (evs @ rest) e) = pt_heard (run_channel evs e)
      \<and> pt_told (run_channel (evs @ rest) e) = pt_told (run_channel evs e)" if "\<not> pt_alive (run_channel evs e)"
    using dead_end_run [of "run_channel evs" e rest] that by (simp add: run_channel_def)
  have "count_list (pt_told (run_channel evs e)) l \<le> 1" using ok(1) by (simp add: count_distinct)
  moreover have "\<forall>e. pt_alive (new_channel e) \<and> port_inv (new_channel e)" by (simp add: new_channel_def port_inv_def)
  note calm_run [OF this, of evs l e, folded run_channel_def]
  ultimately show ?thesis
    using ok(2) dead heard_in_order [of l evs e] by (simp add: nobody)
qed

text \<open>
  A listener that throws while its own end disconnects leaves the other end alive: it is never told, and
  what it posts from then on is dropped without an error.\<close>

lemma throwing_listener_strands_peer:
  assumes "\<forall>e. pt_alive (c e)" "pt_disc (c e) = [l]" "th e = [l]"
  shows "pt_alive (port_step (Disconnect e th) c (other_end e))
    \<and> post_message (other_end e) m [] (port_step (Disconnect e th) c) = (None, port_step (Disconnect e th) c)"
  using assms by (auto simp: port_defs Let_def)

text \<open>The port an \<open>onConnect\<close> listener is handed says nothing of who connects.\<close>

lemma connect_hides_caller:
  "connect_port mg i from = Some (x, sender, ls) \<Longrightarrow> ms_context sender = BackgroundContext \<and> ms_url sender = None"
  by (auto simp: connect_port_def split: if_splits)

section \<open>Concrete messages\<close>

definition demo_messenger :: messenger where
  "demo_messenger = on_message_external ''b'' 7 (on_message ''b'' 3 no_messenger)"

definition demo_sender :: message_sender where
  "demo_sender = \<lparr>ms_extension = ''a@x'', ms_id = None, ms_context = BackgroundContext, ms_url = None, ms_origin = None\<rparr>"

definition demo_posts :: "string port_event list" where
  "demo_posts = [Post CallerEnd ''early'' [], ListenMessage ReceiverEnd 4, ListenDisconnect CallerEnd 6,
     Post CallerEnd ''x'' [], Post CallerEnd ''y'' [], Disconnect ReceiverEnd (\<lambda>_. []), Post CallerEnd ''late'' []]"

theorem channel_exact_witness:
  "heard_by 4 (run_channel demo_posts ReceiverEnd) = [''x'', ''y''] \<and> count_list (pt_told (run_channel demo_posts CallerEnd)) 6 = 1"
proof -
  have "\<forall>ev \<in> set demo_posts. calm ev" by (simp add: demo_posts_def)
  then have "heard_by 4 (run_channel demo_posts ReceiverEnd) = must_hear ReceiverEnd 4 False demo_posts"
      "count_list (pt_told (run_channel demo_posts CallerEnd)) 6 = must_tell CallerEnd 6 False demo_posts"
    using channel_exact [of 4 demo_posts ReceiverEnd "[]"] channel_exact [of 6 demo_posts CallerEnd "[]"] by blast+
  then show ?thesis by (simp add: demo_posts_def)
qed

theorem messages_isolated_witness:
  "\<exists>sender. send_message_external (\<lambda>_. None) (\<lambda>t. if t = ''b'' then Some [''*@x''] else None) demo_messenger ''b'' demo_sender = Inr (sender, [7])
    \<and> ms_id sender = Some ''a@x''"
proof -
  have g: "glob_test ''*@x'' ''a@x''" by code_simp
  obtain sender ls where s: "send_message_external (\<lambda>_. None) (\<lambda>t. if t = ''b'' then Some [''*@x''] else None) demo_messenger ''b'' demo_sender = Inr (sender, ls)"
    using g by (simp add: send_message_external_def demo_sender_def externally_allowed_def receivers_def demo_messenger_def
        on_message_def on_message_external_def no_messenger_def add_listener_def)
  have "map_of (mg_external demo_messenger) ''b'' = Some [7]"
    by (simp add: demo_messenger_def on_message_def on_message_external_def no_messenger_def add_listener_def)
  then show ?thesis using messages_isolated [OF s] s by (auto simp: demo_sender_def)
qed

end
