(* ===== verification/ModuleImports.thy ===== *)
theory ModuleImports
  imports Routes
begin

text \<open>
  Routing of the specifiers of module scripts (\<open>src/app/src/worker-imports.ts\<close>): the scanner that tells
  code from strings, comments, templates and regular expressions, and the routing of one specifier.
  The scanner's index into the text is the rest of the text; a scan for a closing mark returns what it
  passed and what follows. The two scans of templates call each other and carry a fuel, which is
  ample at the length of the text (\<open>find_template_end_iff\<close>: with it the scan finds exactly the templates of
  the grammar \<open>template_body\<close>). The tokens of a module are then stated without the scans (\<open>token_at\<close>,
  \<open>lexed\<close>), and \<open>rewrite_tokens\<close> shows that the pass writes them back with the specifiers routed.
\<close>

section \<open>Scanning strings, templates and regular expressions\<close>

abbreviation (input) BSLASH :: char where "BSLASH \<equiv> CHR 0x5C"
abbreviation (input) LFEED :: char where "LFEED \<equiv> CHR 0x0A"
abbreviation (input) CARR :: char where "CARR \<equiv> CHR 0x0D"
abbreviation (input) DQUOTE :: char where "DQUOTE \<equiv> CHR 0x22"
abbreviation (input) SQUOTE :: char where "SQUOTE \<equiv> CHR 0x27"
abbreviation (input) BTICK :: char where "BTICK \<equiv> CHR 0x60"

definition REGEX_KEYWORDS :: "string list" where
  "REGEX_KEYWORDS = [''return'', ''typeof'', ''instanceof'', ''in'', ''of'', ''new'', ''delete'', ''void'', ''case'',
     ''do'', ''else'', ''throw'', ''yield'']"

definition REGEX_SIG :: string where
  "REGEX_SIG = ''(,=:[!&|?{};+-*%^<>~''"

definition is_code_space :: "char \<Rightarrow> bool" where
  "is_code_space c \<longleftrightarrow> c \<in> {CHR '' '', CHR 0x09, CHR 0x0A, CHR 0x0D, CHR 0x0B, CHR 0x0C}"

definition is_id_start :: "char \<Rightarrow> bool" where
  "is_id_start c \<longleftrightarrow> c = CHR ''_'' \<or> c = CHR ''$'' \<or> (is_alnum c \<and> \<not> is_digit c)"

definition is_id_part :: "char \<Rightarrow> bool" where
  "is_id_part c \<longleftrightarrow> is_id_start c \<or> is_digit c"

type_synonym scan = "(string \<times> string) option"

definition scanned :: "string \<Rightarrow> scan \<Rightarrow> scan" where
  "scanned p r = map_option (\<lambda>(b, s). (p @ b, s)) r"

text \<open>The text before the first occurrence of \<open>pat\<close> and the text after it.\<close>

fun find_text :: "string \<Rightarrow> string \<Rightarrow> scan" where
  "find_text pat [] = (if pat = [] then Some ([], []) else None)"
| "find_text pat (c # s) =
     (if starts_with (c # s) pat then Some ([], drop (length pat) (c # s)) else scanned [c] (find_text pat s))"

fun find_string_end :: "char \<Rightarrow> string \<Rightarrow> scan" where
  "find_string_end q [] = None"
| "find_string_end q (c # s) =
     (if c = BSLASH then (case s of [] \<Rightarrow> None | d # s' \<Rightarrow> scanned [c, d] (find_string_end q s'))
      else if c = q then Some ([], s)
      else if c = LFEED \<or> c = CARR then None
      else scanned [c] (find_string_end q s))"

fun find_template_end :: "nat \<Rightarrow> string \<Rightarrow> scan"
  and find_template_expr_end :: "nat \<Rightarrow> nat \<Rightarrow> string \<Rightarrow> scan" where
  "find_template_end 0 s = None"
| "find_template_end (Suc n) s =
     (case s of
        [] \<Rightarrow> None
      | c # s1 \<Rightarrow>
          if c = BSLASH then (case s1 of [] \<Rightarrow> None | d # s2 \<Rightarrow> scanned [c, d] (find_template_end n s2))
          else if c = BTICK then Some ([], s1)
          else if c = CHR ''$'' \<and> starts_with s1 ''{'' then
            (case find_template_expr_end n 1 (tl s1) of
               None \<Rightarrow> None
             | Some (b, r) \<Rightarrow> scanned (''${'' @ b @ ''}'') (find_template_end n r))
          else scanned [c] (find_template_end n s1))"
| "find_template_expr_end 0 depth s = None"
| "find_template_expr_end (Suc n) depth s =
     (case s of
        [] \<Rightarrow> None
      | c # s1 \<Rightarrow>
          if c = BSLASH then (case s1 of [] \<Rightarrow> None | d # s2 \<Rightarrow> scanned [c, d] (find_template_expr_end n depth s2))
          else if c = DQUOTE \<or> c = SQUOTE then
            (case find_string_end c s1 of
               None \<Rightarrow> None
             | Some (b, r) \<Rightarrow> scanned (c # b @ [c]) (find_template_expr_end n depth r))
          else if c = BTICK then
            (case find_template_end n s1 of
               None \<Rightarrow> None
             | Some (b, r) \<Rightarrow> scanned (c # b @ [c]) (find_template_expr_end n depth r))
          else if c = CHR ''/'' \<and> starts_with s1 ''/'' then
            (case find_text [LFEED] s of
               None \<Rightarrow> None
             | Some (b, r) \<Rightarrow> scanned (b @ [LFEED]) (find_template_expr_end n depth r))
          else if c = CHR ''/'' \<and> starts_with s1 ''*'' then
            (case find_text ''*/'' (tl s1) of
               None \<Rightarrow> None
             | Some (b, r) \<Rightarrow> scanned (''/*'' @ b @ ''*/'') (find_template_expr_end n depth r))
          else if c = CHR ''{'' then scanned [c] (find_template_expr_end n (Suc depth) s1)
          else if c = CHR ''}'' then
            (if depth = 1 then Some ([], s1) else scanned [c] (find_template_expr_end n (depth - 1) s1))
          else scanned [c] (find_template_expr_end n depth s1))"

fun find_regex_end :: "bool \<Rightarrow> string \<Rightarrow> scan" where
  "find_regex_end in_class [] = None"
| "find_regex_end in_class (c # s) =
     (if c = BSLASH then (case s of [] \<Rightarrow> None | d # s' \<Rightarrow> scanned [c, d] (find_regex_end in_class s'))
      else if c = CHR ''['' then scanned [c] (find_regex_end True s)
      else if c = CHR '']'' then scanned [c] (find_regex_end False s)
      else if (c = LFEED \<or> c = CARR) \<and> \<not> in_class then None
      else if c = CHR ''/'' \<and> \<not> in_class then Some ([], s)
      else scanned [c] (find_regex_end in_class s))"

definition regex_allowed :: "char \<Rightarrow> string \<Rightarrow> bool" where
  "regex_allowed sig word \<longleftrightarrow> word \<in> set REGEX_KEYWORDS \<or> sig \<in> set REGEX_SIG"

text \<open>The gap between a keyword and the opening quote, the quote, and what follows it.\<close>

definition peek_specifier_quote :: "string \<Rightarrow> string \<Rightarrow> (string \<times> char \<times> string) option" where
  "peek_specifier_quote kw s =
     (let g1 = takeWhile is_code_space s; s1 = dropWhile is_code_space s;
          (g, r) = (if kw = ''import'' \<and> starts_with s1 ''(''
                    then (g1 @ ''('' @ takeWhile is_code_space (tl s1), dropWhile is_code_space (tl s1))
                    else (g1, s1))
      in case r of
           q # t \<Rightarrow> if q = DQUOTE \<or> q = SQUOTE then Some (g, q, t) else None
         | [] \<Rightarrow> None)"

section \<open>The rewriting pass\<close>

text \<open>One step of the loop: what it writes, what is left, the last significant character and the last word.\<close>

record 'st module_state =
  sc_rest :: string
  sc_sig :: char
  sc_word :: string
  sc_env :: 'st

type_synonym 'st router = "'st \<Rightarrow> string \<Rightarrow> string \<times> 'st"

definition after_value :: "string \<Rightarrow> 'st \<Rightarrow> 'st module_state" where
  "after_value r env = \<lparr>sc_rest = r, sc_sig = CHR ''x'', sc_word = [], sc_env = env\<rparr>"

definition scan_slash :: "string \<Rightarrow> 'st module_state \<Rightarrow> string \<times> 'st module_state" where
  "scan_slash s1 st =
     (let s = sc_rest st
      in if starts_with s1 ''/'' then
           (let l = takeWhile (\<lambda>x. x \<noteq> LFEED) s in (l, st\<lparr>sc_rest := drop (length l) s\<rparr>))
         else if starts_with s1 ''*'' then
           (case find_text ''*/'' (tl s1) of
              None \<Rightarrow> (s, st\<lparr>sc_rest := []\<rparr>)
            | Some (b, r) \<Rightarrow> (''/*'' @ b @ ''*/'', st\<lparr>sc_rest := r\<rparr>))
         else
           (case (if regex_allowed (sc_sig st) (sc_word st) then find_regex_end False s1 else None) of
              Some (b, r) \<Rightarrow> (''/'' @ b @ ''/'', after_value r (sc_env st))
            | None \<Rightarrow> (''/'', st\<lparr>sc_rest := s1, sc_sig := CHR ''/'', sc_word := []\<rparr>)))"

definition find_specifier :: "string \<Rightarrow> string \<Rightarrow> (string \<times> char \<times> string \<times> string) option" where
  "find_specifier kw s =
     (case peek_specifier_quote kw s of
        None \<Rightarrow> None
      | Some (gap, q, t) \<Rightarrow> map_option (\<lambda>(spec, rest). (gap, q, spec, rest)) (find_string_end q t))"

definition plain_word :: "string \<Rightarrow> string \<Rightarrow> 'st \<Rightarrow> string \<times> 'st module_state" where
  "plain_word run r env =
     (run, \<lparr>sc_rest = r, sc_sig = CHR ''x'', sc_word = (if length run \<le> 12 then run else []), sc_env = env\<rparr>)"

definition scan_word :: "'st router \<Rightarrow> 'st module_state \<Rightarrow> string \<times> 'st module_state" where
  "scan_word route st =
     (let run = takeWhile is_id_part (sc_rest st); r = drop (length run) (sc_rest st)
      in case (if (run = ''from'' \<or> run = ''import'') \<and> sc_sig st \<noteq> CHR ''.'' then find_specifier run r else None) of
           None \<Rightarrow> plain_word run r (sc_env st)
         | Some (gap, q, spec, rest) \<Rightarrow>
             (case route (sc_env st) spec of
                (routed, env) \<Rightarrow>
                  if routed \<noteq> spec then (run @ gap @ [q] @ routed @ [q], after_value rest env)
                  else plain_word run r env))"

definition scan_step :: "'st router \<Rightarrow> 'st module_state \<Rightarrow> string \<times> 'st module_state" where
  "scan_step route st =
     (case sc_rest st of
        [] \<Rightarrow> ([], st)
      | c # s1 \<Rightarrow>
          if c = CHR ''/'' then scan_slash s1 st
          else if c = BTICK then
            (case find_template_end (Suc (length s1)) s1 of
               Some (b, r) \<Rightarrow> (c # b @ [c], after_value r (sc_env st))
             | None \<Rightarrow> (c # s1, st\<lparr>sc_rest := []\<rparr>))
          else if c = DQUOTE \<or> c = SQUOTE then
            (case find_string_end c s1 of
               Some (b, r) \<Rightarrow> (c # b @ [c], after_value r (sc_env st))
             | None \<Rightarrow> ([c], st\<lparr>sc_rest := s1, sc_sig := c, sc_word := []\<rparr>))
          else if is_id_start c then scan_word route st
          else ([c], if is_code_space c then st\<lparr>sc_rest := s1\<rparr> else st\<lparr>sc_rest := s1, sc_sig := c, sc_word := []\<rparr>))"

section \<open>What the scans find\<close>

lemma scanned_Some [simp]: "scanned p r = Some (b, s) \<longleftrightarrow> (\<exists>b'. r = Some (b', s) \<and> b = p @ b')"
  by (auto simp: scanned_def)

text \<open>
  The shapes of the tokens, without reference to the scans: the body of a string, of a regular expression, of a
  block comment, and the grammar of templates with their substitutions, which \<open>d\<close> braces must close.
\<close>

fun literal_body :: "char \<Rightarrow> string \<Rightarrow> bool" where
  "literal_body q [] \<longleftrightarrow> True"
| "literal_body q (c # s) \<longleftrightarrow>
     (if c = BSLASH then (case s of [] \<Rightarrow> False | d # s' \<Rightarrow> literal_body q s')
      else c \<noteq> q \<and> c \<noteq> LFEED \<and> c \<noteq> CARR \<and> literal_body q s)"

fun regex_body :: "bool \<Rightarrow> string \<Rightarrow> bool" where
  "regex_body in_class [] \<longleftrightarrow> \<not> in_class"
| "regex_body in_class (c # s) \<longleftrightarrow>
     (if c = BSLASH then (case s of [] \<Rightarrow> False | d # s' \<Rightarrow> regex_body in_class s')
      else if c = CHR ''['' then regex_body True s
      else if c = CHR '']'' then regex_body False s
      else (in_class \<or> c \<noteq> LFEED \<and> c \<noteq> CARR \<and> c \<noteq> CHR ''/'') \<and> regex_body in_class s)"

definition comment_body :: "string \<Rightarrow> bool" where
  "comment_body b \<longleftrightarrow> \<not> str_includes (b @ ''*'') ''*/''"

inductive template_body :: "string \<Rightarrow> bool" and template_expr :: "nat \<Rightarrow> string \<Rightarrow> bool" where
  template_end: "template_body []"
| template_escape: "template_body s \<Longrightarrow> template_body (BSLASH # x # s)"
| template_subst: "template_expr 1 e \<Longrightarrow> template_body s \<Longrightarrow> template_body (''${'' @ e @ ''}'' @ s)"
| template_char: "c \<noteq> BSLASH \<Longrightarrow> c \<noteq> BTICK \<Longrightarrow> \<not> (c = CHR ''$'' \<and> starts_with s ''{'') \<Longrightarrow> template_body s \<Longrightarrow> template_body (c # s)"
| expr_end: "template_expr 1 []"
| expr_escape: "template_expr d s \<Longrightarrow> template_expr d (BSLASH # x # s)"
| expr_string: "q \<in> {DQUOTE, SQUOTE} \<Longrightarrow> literal_body q b \<Longrightarrow> template_expr d s \<Longrightarrow> template_expr d (q # b @ q # s)"
| expr_template: "template_body b \<Longrightarrow> template_expr d s \<Longrightarrow> template_expr d (BTICK # b @ BTICK # s)"
| expr_line: "LFEED \<notin> set b \<Longrightarrow> template_expr d s \<Longrightarrow> template_expr d (''//'' @ b @ LFEED # s)"
| expr_block: "comment_body b \<Longrightarrow> template_expr d s \<Longrightarrow> template_expr d (''/*'' @ b @ ''*/'' @ s)"
| expr_open: "template_expr (Suc d) s \<Longrightarrow> template_expr d (CHR ''{'' # s)"
| expr_close: "d \<noteq> 1 \<Longrightarrow> template_expr (d - 1) s \<Longrightarrow> template_expr d (CHR ''}'' # s)"
| expr_char: "c \<notin> {BSLASH, DQUOTE, SQUOTE, BTICK, CHR ''{'', CHR ''}''} \<Longrightarrow> \<not> (c = CHR ''/'' \<and> (starts_with s ''/'' \<or> starts_with s ''*'')) \<Longrightarrow>
    template_expr d s \<Longrightarrow> template_expr d (c # s)"

lemma find_text_Some: "find_text pat s = Some (b, r) \<Longrightarrow> s = b @ pat @ r"
proof (induction pat s arbitrary: b rule: find_text.induct)
  case (2 pat c s)
  then show ?case using starts_with_drop [of "c # s" pat] by (auto split: if_splits)
qed (auto split: if_splits)

lemma find_string_end_iff:
  assumes "q \<in> {DQUOTE, SQUOTE}"
  shows "find_string_end q s = Some (b, r) \<longleftrightarrow> s = b @ q # r \<and> literal_body q b"
proof
  show "find_string_end q s = Some (b, r) \<Longrightarrow> s = b @ q # r \<and> literal_body q b"
    by (induction q s arbitrary: b rule: find_string_end.induct) (auto split: if_splits list.splits)
next
  assume "s = b @ q # r \<and> literal_body q b"
  moreover have "literal_body q b \<Longrightarrow> find_string_end q (b @ q # r) = Some (b, r)" using assms
    by (induction q b rule: literal_body.induct) (auto simp: scanned_def split: if_splits list.splits)
  ultimately show "find_string_end q s = Some (b, r)" by simp
qed

lemma find_regex_end_iff: "find_regex_end k s = Some (b, r) \<longleftrightarrow> s = b @ CHR ''/'' # r \<and> regex_body k b"
proof
  show "find_regex_end k s = Some (b, r) \<Longrightarrow> s = b @ CHR ''/'' # r \<and> regex_body k b"
    by (induction k s arbitrary: b rule: find_regex_end.induct) (auto split: if_splits list.splits)
next
  assume "s = b @ CHR ''/'' # r \<and> regex_body k b"
  moreover have "regex_body k b \<Longrightarrow> find_regex_end k (b @ CHR ''/'' # r) = Some (b, r)"
    by (induction k b rule: regex_body.induct) (auto simp: scanned_def split: if_splits list.splits)
  ultimately show "find_regex_end k s = Some (b, r)" by simp
qed

lemma find_close_iff: "find_text ''*/'' s = Some (b, r) \<longleftrightarrow> s = b @ ''*/'' @ r \<and> comment_body b"
proof
  show "find_text ''*/'' s = Some (b, r) \<Longrightarrow> s = b @ ''*/'' @ r \<and> comment_body b"
  proof (induction "''*/''" s arbitrary: b rule: find_text.induct)
    case (2 c s)
    show ?case
    proof (cases "starts_with (c # s) ''*/''")
      case True
      then show ?thesis using 2(2) starts_with_drop [OF True] by (auto simp: comment_body_def)
    next
      case False
      then obtain b' where b: "b = c # b'" "find_text ''*/'' s = Some (b', r)" using 2(2) by auto
      then have "s = b' @ ''*/'' @ r \<and> comment_body b'" using 2(1) [OF False] by simp
      moreover have "\<not> starts_with (c # b' @ ''*'') ''*/''" using False calculation by (cases b') auto
      ultimately show ?thesis using b by (auto simp: comment_body_def)
    qed
  qed simp
next
  assume "s = b @ ''*/'' @ r \<and> comment_body b"
  moreover have "comment_body b \<Longrightarrow> find_text ''*/'' (b @ ''*/'' @ r) = Some (b, r)"
  proof (induction b)
    case (Cons c b)
    have "\<not> starts_with (c # b @ ''*/'' @ r) ''*/''" using Cons.prems by (cases b) (auto simp: comment_body_def)
    moreover have "comment_body b" using Cons.prems by (simp add: comment_body_def)
    ultimately show ?case using Cons.IH by (simp add: scanned_def)
  qed simp
  ultimately show "find_text ''*/'' s = Some (b, r)" by simp
qed

lemma find_line_iff: "find_text [c] s = Some (b, r) \<longleftrightarrow> s = b @ c # r \<and> c \<notin> set b"
proof
  show "find_text [c] s = Some (b, r) \<Longrightarrow> s = b @ c # r \<and> c \<notin> set b"
  proof (induction s arbitrary: b)
    case (Cons x s)
    then show ?case by (auto split: if_splits)
  qed simp
next
  assume "s = b @ c # r \<and> c \<notin> set b"
  moreover have "c \<notin> set b \<Longrightarrow> find_text [c] (b @ c # r) = Some (b, r)" by (induction b) (auto simp: scanned_def)
  ultimately show "find_text [c] s = Some (b, r)" by simp
qed

lemma starts_with_single: "starts_with s [c] \<longleftrightarrow> (\<exists>r. s = c # r)"
  by (cases s) auto

lemma starts_with_app: "b \<noteq> [] \<or> c \<noteq> x \<Longrightarrow> starts_with (b @ x # r) [c] \<longleftrightarrow> starts_with b [c]"
  by (cases b) auto

text \<open>The two scans of templates are sound and, with more fuel than characters, complete for the grammar.\<close>

lemma template_sound:
  "(\<forall>s b r. find_template_end n s = Some (b, r) \<longrightarrow> s = b @ BTICK # r \<and> template_body b)
    \<and> (\<forall>d s b r. find_template_expr_end n d s = Some (b, r) \<longrightarrow> s = b @ CHR ''}'' # r \<and> template_expr d b)"
proof (induction n)
  case (Suc n)
  have t: "s = b @ BTICK # r" "template_body b" if "find_template_end n s = Some (b, r)" for s b r using Suc that by blast+
  have e: "s = b @ CHR ''}'' # r" "template_expr d b" if "find_template_expr_end n d s = Some (b, r)" for d s b r using Suc that by blast+
  have 1: "s = b @ BTICK # r \<and> template_body b" if a: "find_template_end (Suc n) s = Some (b, r)" for s b r
  proof (cases s)
    case (Cons c s1)
    note a = a [unfolded Cons find_template_end.simps list.case]
    consider "c = BSLASH" | "c = BTICK" | "c = CHR ''$''" "starts_with s1 ''{''"
      | "c \<noteq> BSLASH" "c \<noteq> BTICK" "\<not> (c = CHR ''$'' \<and> starts_with s1 ''{'')" by blast
    then show ?thesis
    proof cases
      case 1
      then obtain d s2 b' where "s1 = d # s2" "find_template_end n s2 = Some (b', r)" "b = c # d # b'"
        using a by (auto split: list.splits)
      then show ?thesis using t Cons 1 template_escape by auto
    next
      case 2
      then show ?thesis using a Cons template_end by auto
    next
      case 3
      then obtain b1 r1 b2 where x: "find_template_expr_end n 1 (tl s1) = Some (b1, r1)" "find_template_end n r1 = Some (b2, r)"
        "b = ''${'' @ b1 @ ''}'' @ b2"
        using a by (auto split: option.splits)
      moreover obtain s2 where "s1 = CHR ''{'' # s2" using 3(2) by (auto simp: starts_with_single)
      ultimately show ?thesis using e [OF x(1)] t [OF x(2)] Cons 3(1) template_subst [of b1 b2] by simp
    next
      case 4
      then have "scanned [c] (find_template_end n s1) = Some (b, r)" using a by (simp only: if_False simp_thms)
      then obtain b' where b: "find_template_end n s1 = Some (b', r)" "b = c # b'" by auto
      have "\<not> (c = CHR ''$'' \<and> starts_with b' ''{'')" using 4(3) t(1) [OF b(1)] by (cases b') auto
      then show ?thesis using t [OF b(1)] b(2) Cons template_char [OF 4(1,2)] by simp
    qed
  qed (use a in simp)
  have 2: "s = b @ CHR ''}'' # r \<and> template_expr d b" if a: "find_template_expr_end (Suc n) d s = Some (b, r)" for d s b r
  proof (cases s)
    case (Cons c s1)
    note a = a [unfolded Cons find_template_expr_end.simps list.case]
    consider "c = BSLASH" | "c = DQUOTE \<or> c = SQUOTE" | "c = BTICK" | "c = CHR ''/''" "starts_with s1 ''/''"
      | "c = CHR ''/''" "starts_with s1 ''*''" | "c = CHR ''{''" | "c = CHR ''}''"
      | "c \<noteq> BSLASH" "\<not> (c = DQUOTE \<or> c = SQUOTE)" "c \<noteq> BTICK" "\<not> (c = CHR ''/'' \<and> starts_with s1 ''/'')"
        "\<not> (c = CHR ''/'' \<and> starts_with s1 ''*'')" "c \<noteq> CHR ''{''" "c \<noteq> CHR ''}''" by blast
    then show ?thesis
    proof cases
      case 1
      then obtain x s2 b' where "s1 = x # s2" "find_template_expr_end n d s2 = Some (b', r)" "b = c # x # b'"
        using a by (auto split: list.splits)
      then show ?thesis using e Cons 1 expr_escape by auto
    next
      case 2
      then obtain b1 r1 b2 where x: "find_string_end c s1 = Some (b1, r1)" "find_template_expr_end n d r1 = Some (b2, r)"
        "b = c # b1 @ c # b2"
        using a by (auto split: option.splits)
      moreover have c: "c \<in> {DQUOTE, SQUOTE}" using 2 by blast
      moreover note find_string_end_iff [OF c, THEN iffD1, OF x(1)]
      ultimately show ?thesis using e [OF x(2)] Cons expr_string [of c b1 d b2] by simp
    next
      case 3
      then obtain b1 r1 b2 where x: "find_template_end n s1 = Some (b1, r1)" "find_template_expr_end n d r1 = Some (b2, r)"
        "b = c # b1 @ c # b2"
        using a by (auto split: option.splits)
      then show ?thesis using t [OF x(1)] e [OF x(2)] Cons expr_template [of b1 d b2] 3 by simp
    next
      case 4
      then obtain b1 r1 b2 where x: "find_text [LFEED] (c # s1) = Some (b1, r1)" "find_template_expr_end n d r1 = Some (b2, r)"
        "b = b1 @ LFEED # b2"
        using a Cons by (auto split: option.splits simp del: find_text.simps)
      moreover obtain s2 where s2: "s1 = CHR ''/'' # s2" using 4(2) by (auto simp: starts_with_single)
      moreover from x(1) have l: "c # s1 = b1 @ LFEED # r1" "LFEED \<notin> set b1" using find_line_iff [THEN iffD1, OF x(1)] by blast+
      moreover obtain b' where "b1 = ''//'' @ b'" using l(1) s2 4(1) by (cases b1; cases "tl b1") auto
      ultimately show ?thesis using e [OF x(2)] Cons 4(1) expr_line [of b' d b2] by simp
    next
      case 5
      then obtain b1 r1 b2 where x: "find_text ''*/'' (tl s1) = Some (b1, r1)" "find_template_expr_end n d r1 = Some (b2, r)"
        "b = ''/*'' @ b1 @ ''*/'' @ b2"
        using a by (auto simp: starts_with_single split: option.splits)
      moreover obtain s2 where "s1 = CHR ''*'' # s2" using 5(2) by (auto simp: starts_with_single)
      moreover note find_close_iff [THEN iffD1, OF x(1)]
      ultimately show ?thesis using e [OF x(2)] Cons 5(1) expr_block [of b1 d b2] by simp
    next
      case 6
      then obtain b' where "find_template_expr_end n (Suc d) s1 = Some (b', r)" "b = c # b'" using a by auto
      then show ?thesis using e Cons 6 expr_open by auto
    next
      case 7
      show ?thesis
      proof (cases "d = 1")
        case True
        then show ?thesis using a 7 Cons expr_end by auto
      next
        case False
        then obtain b' where "find_template_expr_end n (d - 1) s1 = Some (b', r)" "b = c # b'" using a 7 by auto
        then show ?thesis using e Cons 7 expr_close [OF False] by auto
      qed
    next
      case 8
      then have "scanned [c] (find_template_expr_end n d s1) = Some (b, r)" using a by (simp only: if_False simp_thms)
      then obtain b' where b: "find_template_expr_end n d s1 = Some (b', r)" "b = c # b'" by auto
      have "\<not> (c = CHR ''/'' \<and> (starts_with b' ''/'' \<or> starts_with b' ''*''))" using 8(4,5) e(1) [OF b(1)] by (cases b') auto
      then show ?thesis using e [OF b(1)] b(2) Cons expr_char [of c b' d] 8 by simp
    qed
  qed (use a in simp)
  show ?case using 1 2 by blast
qed simp

lemma template_complete:
  "template_body b \<Longrightarrow> \<forall>n r. length b < n \<longrightarrow> find_template_end n (b @ BTICK # r) = Some (b, r)"
  "template_expr d e \<Longrightarrow> \<forall>n r. length e < n \<longrightarrow> find_template_expr_end n d (e @ CHR ''}'' # r) = Some (e, r)"
proof (induction rule: template_body_template_expr.inducts)
  case template_end
  show ?case by (auto simp: gr0_conv_Suc)
next
  case (template_escape s x)
  show ?case
  proof (intro allI impI)
    fix n r assume l: "length (BSLASH # x # s) < n"
    then obtain m where m: "n = Suc m" "length s < m" by (cases n) auto
    then show "find_template_end n ((BSLASH # x # s) @ BTICK # r) = Some (BSLASH # x # s, r)"
      using template_escape by (auto simp: scanned_def starts_with_app)
  qed
next
  case (template_subst e s)
  show ?case
  proof (intro allI impI)
    fix n r assume l: "length (''${'' @ e @ ''}'' @ s) < n"
    then obtain m where m: "n = Suc m" "length e < m" "length s < m" by (cases n) auto
    then show "find_template_end n ((''${'' @ e @ ''}'' @ s) @ BTICK # r) = Some (''${'' @ e @ ''}'' @ s, r)"
      using template_subst.IH by (simp add: scanned_def)
  qed
next
  case (template_char c s)
  show ?case
  proof (intro allI impI)
    fix n r assume l: "length (c # s) < n"
    then obtain m where m: "n = Suc m" "length s < m" by (cases n) auto
    then show "find_template_end n ((c # s) @ BTICK # r) = Some (c # s, r)"
      using template_char by (auto simp: scanned_def starts_with_app)
  qed
next
  case expr_end
  show ?case by (auto simp: gr0_conv_Suc)
next
  case (expr_escape d s x)
  show ?case
  proof (intro allI impI)
    fix n r assume l: "length (BSLASH # x # s) < n"
    then obtain m where m: "n = Suc m" "length s < m" by (cases n) auto
    then show "find_template_expr_end n d ((BSLASH # x # s) @ CHR ''}'' # r) = Some (BSLASH # x # s, r)"
      using expr_escape by (auto simp: scanned_def starts_with_app)
  qed
next
  case (expr_string q b d s)
  show ?case
  proof (intro allI impI)
    fix n r assume l: "length (q # b @ q # s) < n"
    then obtain m where m: "n = Suc m" "length s < m" by (cases n) auto
    have "find_string_end q ((b @ q # s) @ CHR ''}'' # r) = Some (b, s @ CHR ''}'' # r)"
      using find_string_end_iff [OF expr_string(1)] expr_string(2) by simp
    then show "find_template_expr_end n d ((q # b @ q # s) @ CHR ''}'' # r) = Some (q # b @ q # s, r)"
      using expr_string m by (auto simp: scanned_def)
  qed
next
  case (expr_template b d s)
  show ?case
  proof (intro allI impI)
    fix n r assume l: "length (BTICK # b @ BTICK # s) < n"
    then obtain m where m: "n = Suc m" "length s < m" "length b < m" by (cases n) auto
    then show "find_template_expr_end n d ((BTICK # b @ BTICK # s) @ CHR ''}'' # r) = Some (BTICK # b @ BTICK # s, r)"
      using expr_template by (auto simp: scanned_def)
  qed
next
  case (expr_line b d s)
  show ?case
  proof (intro allI impI)
    fix n r assume l: "length (''//'' @ b @ LFEED # s) < n"
    then obtain m where m: "n = Suc m" "length s < m" by (cases n) auto
    have "find_text [LFEED] ((''//'' @ b @ LFEED # s) @ CHR ''}'' # r) = Some (''//'' @ b, s @ CHR ''}'' # r)"
      unfolding find_line_iff using expr_line(1) by simp
    then show "find_template_expr_end n d ((''//'' @ b @ LFEED # s) @ CHR ''}'' # r) = Some (''//'' @ b @ LFEED # s, r)"
      using expr_line m by (simp add: scanned_def del: find_text.simps)
  qed
next
  case (expr_block b d s)
  show ?case
  proof (intro allI impI)
    fix n r assume l: "length (''/*'' @ b @ ''*/'' @ s) < n"
    then obtain m where m: "n = Suc m" "length s < m" by (cases n) auto
    have "find_text ''*/'' ((b @ ''*/'' @ s) @ CHR ''}'' # r) = Some (b, s @ CHR ''}'' # r)"
      unfolding find_close_iff using expr_block(1) by simp
    then show "find_template_expr_end n d ((''/*'' @ b @ ''*/'' @ s) @ CHR ''}'' # r) = Some (''/*'' @ b @ ''*/'' @ s, r)"
      using expr_block m by (simp add: scanned_def)
  qed
next
  case (expr_char c s d)
  show ?case
  proof (intro allI impI)
    fix n r assume l: "length (c # s) < n"
    then obtain m where m: "n = Suc m" "length s < m" by (cases n) auto
    then show "find_template_expr_end n d ((c # s) @ CHR ''}'' # r) = Some (c # s, r)"
      using expr_char by (auto simp: scanned_def starts_with_app)
  qed
next
  case (expr_open d s)
  show ?case
  proof (intro allI impI)
    fix n r assume l: "length (CHR ''{'' # s) < n"
    then obtain m where m: "n = Suc m" "length s < m" by (cases n) auto
    then show "find_template_expr_end n d ((CHR ''{'' # s) @ CHR ''}'' # r) = Some (CHR ''{'' # s, r)"
      using expr_open by (auto simp: scanned_def starts_with_app)
  qed
next
  case (expr_close d s)
  show ?case
  proof (intro allI impI)
    fix n r assume l: "length (CHR ''}'' # s) < n"
    then obtain m where m: "n = Suc m" "length s < m" by (cases n) auto
    then show "find_template_expr_end n d ((CHR ''}'' # s) @ CHR ''}'' # r) = Some (CHR ''}'' # s, r)"
      using expr_close by (auto simp: scanned_def starts_with_app)
  qed
qed

declare find_template_end.simps [simp del] find_template_expr_end.simps [simp del]

lemma find_template_end_iff: "find_template_end (Suc (length s)) s = Some (b, r) \<longleftrightarrow> s = b @ BTICK # r \<and> template_body b"
  using template_sound [of "Suc (length s)"] template_complete(1) [of b] by auto

section \<open>The tokens of a module\<close>

text \<open>
  What stands where, again without the scans: a slash opens a comment, a regular expression where one may
  stand after the significant character and the word before it, or is an operator; a quote or backtick that
  nothing closes is a token of its own, or opens a template to the end.
\<close>

datatype token = LineComment string | BlockComment string | OpenComment string | Regex string | Template string
  | OpenTemplate string | Str char string | Word string | Space char | Punct char

primrec tok_text :: "token \<Rightarrow> string" where
  "tok_text (LineComment b) = ''//'' @ b"
| "tok_text (BlockComment b) = ''/*'' @ b @ ''*/''"
| "tok_text (OpenComment b) = ''/*'' @ b"
| "tok_text (Regex b) = ''/'' @ b @ ''/''"
| "tok_text (Template b) = BTICK # b @ [BTICK]"
| "tok_text (OpenTemplate b) = BTICK # b"
| "tok_text (Str q b) = q # b @ [q]"
| "tok_text (Word w) = w"
| "tok_text (Space c) = [c]"
| "tok_text (Punct c) = [c]"

primrec token_at :: "char \<Rightarrow> string \<Rightarrow> token \<Rightarrow> string \<Rightarrow> bool" where
  "token_at sig word (LineComment b) r \<longleftrightarrow> LFEED \<notin> set b \<and> (r = [] \<or> hd r = LFEED)"
| "token_at sig word (BlockComment b) r \<longleftrightarrow> comment_body b"
| "token_at sig word (OpenComment b) r \<longleftrightarrow> r = [] \<and> \<not> str_includes b ''*/''"
| "token_at sig word (Regex b) r \<longleftrightarrow> regex_allowed sig word \<and> regex_body False b \<and> b \<noteq> [] \<and> hd b \<noteq> CHR ''*''"
| "token_at sig word (Template b) r \<longleftrightarrow> template_body b"
| "token_at sig word (OpenTemplate b) r \<longleftrightarrow> r = [] \<and> \<not> (\<exists>b' r'. b = b' @ BTICK # r' \<and> template_body b')"
| "token_at sig word (Str q b) r \<longleftrightarrow> q \<in> {DQUOTE, SQUOTE} \<and> literal_body q b"
| "token_at sig word (Word w) r \<longleftrightarrow> w \<noteq> [] \<and> is_id_start (hd w) \<and> list_all is_id_part w \<and> (r = [] \<or> \<not> is_id_part (hd r))"
| "token_at sig word (Space c) r \<longleftrightarrow> is_code_space c"
| "token_at sig word (Punct c) r \<longleftrightarrow> \<not> is_code_space c \<and> \<not> is_id_start c \<and> c \<noteq> BTICK
     \<and> (c = CHR ''/'' \<longrightarrow> \<not> starts_with r ''/'' \<and> \<not> starts_with r ''*''
          \<and> \<not> (regex_allowed sig word \<and> (\<exists>b r'. r = b @ CHR ''/'' # r' \<and> regex_body False b)))
     \<and> (c \<in> {DQUOTE, SQUOTE} \<longrightarrow> \<not> (\<exists>b r'. r = b @ c # r' \<and> literal_body c b))"

text \<open>The significant character and the word a token leaves for the next.\<close>

fun token_after :: "token \<Rightarrow> char \<times> string \<Rightarrow> char \<times> string" where
  "token_after (Regex b) x = (CHR ''x'', [])"
| "token_after (Template b) x = (CHR ''x'', [])"
| "token_after (Str q b) x = (CHR ''x'', [])"
| "token_after (Word w) x = (CHR ''x'', if length w \<le> 12 then w else [])"
| "token_after (Punct c) x = (c, [])"
| "token_after t x = x"

primrec lexed :: "char \<times> string \<Rightarrow> token list \<Rightarrow> string \<Rightarrow> bool" where
  "lexed x [] s \<longleftrightarrow> s = []"
| "lexed x (t # ts) s \<longleftrightarrow>
     (\<exists>r. s = tok_text t @ r \<and> token_at (fst x) (snd x) t r \<and> lexed (token_after t x) ts r)"

abbreviation tokens_text :: "token list \<Rightarrow> string" where
  "tokens_text ts \<equiv> concat (map tok_text ts)"

definition next_token :: "char \<Rightarrow> string \<Rightarrow> string \<Rightarrow> token" where
  "next_token sig word s =
     (let c = hd s; s1 = tl s
      in if c = CHR ''/'' then
           (if starts_with s1 ''/'' then LineComment (takeWhile (\<lambda>x. x \<noteq> LFEED) (tl s1))
            else if starts_with s1 ''*'' then
              (case find_text ''*/'' (tl s1) of None \<Rightarrow> OpenComment (tl s1) | Some (b, r) \<Rightarrow> BlockComment b)
            else
              (case (if regex_allowed sig word then find_regex_end False s1 else None) of
                 Some (b, r) \<Rightarrow> Regex b
               | None \<Rightarrow> Punct c))
         else if c = BTICK then
           (case find_template_end (Suc (length s1)) s1 of Some (b, r) \<Rightarrow> Template b | None \<Rightarrow> OpenTemplate s1)
         else if c = DQUOTE \<or> c = SQUOTE then
           (case find_string_end c s1 of Some (b, r) \<Rightarrow> Str c b | None \<Rightarrow> Punct c)
         else if is_id_start c then Word (takeWhile is_id_part s)
         else if is_code_space c then Space c
         else Punct c)"

lemma find_close_None: "find_text ''*/'' s = None \<longleftrightarrow> \<not> str_includes s ''*/''"
  by (induction s) (auto simp: scanned_def)

lemma class_of_marks [simp]:
  "\<not> is_id_start (CHR ''/'')" "\<not> is_id_start BTICK" "\<not> is_id_start DQUOTE" "\<not> is_id_start SQUOTE" "\<not> is_id_start (CHR ''('')"
  "\<not> is_code_space (CHR ''/'')" "\<not> is_code_space BTICK" "\<not> is_code_space DQUOTE" "\<not> is_code_space SQUOTE" "\<not> is_code_space (CHR ''('')"
  by (simp_all add: is_id_start_def is_code_space_def is_alnum_def)

lemma space_not_id: "is_code_space c \<Longrightarrow> \<not> is_id_start c"
  by (auto simp: is_id_start_def is_code_space_def is_alnum_def is_digit_def)

lemma takeWhile_run: "list_all P w \<Longrightarrow> r = [] \<or> \<not> P (hd r) \<Longrightarrow> takeWhile P (w @ r) = w"
  by (induction w) (cases r; auto)+

lemma next_token_at: "token_at sig word t r \<Longrightarrow> next_token sig word (tok_text t @ r) = t"
proof (cases t)
  case (LineComment b)
  moreover assume "token_at sig word t r"
  ultimately have "list_all (\<lambda>x. x \<noteq> LFEED) b" "r = [] \<or> \<not> hd r \<noteq> LFEED" by (auto simp: list_all_iff)
  from takeWhile_run [OF this] show ?thesis using LineComment by (simp add: next_token_def)
next
  case (BlockComment b)
  moreover assume "token_at sig word t r"
  ultimately have "find_text ''*/'' (b @ ''*/'' @ r) = Some (b, r)" unfolding find_close_iff by simp
  then show ?thesis using BlockComment by (simp add: next_token_def)
next
  case (OpenComment b)
  moreover assume "token_at sig word t r"
  ultimately show ?thesis using find_close_None [of b] by (simp add: next_token_def)
next
  case (Regex b)
  moreover assume a: "token_at sig word t r"
  ultimately have f: "find_regex_end False (b @ CHR ''/'' # r) = Some (b, r)" unfolding find_regex_end_iff by simp
  obtain c b' where b: "b = c # b'" "c \<noteq> CHR ''*''" using Regex a by (cases b) auto
  moreover have "c \<noteq> CHR ''/''" using b(1) Regex a by auto
  ultimately show ?thesis using f Regex a by (simp add: next_token_def del: find_regex_end.simps)
next
  case (Template b)
  moreover assume "token_at sig word t r"
  ultimately have "find_template_end (Suc (length (b @ BTICK # r))) (b @ BTICK # r) = Some (b, r)" unfolding find_template_end_iff by simp
  then show ?thesis using Template by (simp add: next_token_def)
next
  case (OpenTemplate b)
  moreover assume a: "token_at sig word t r"
  ultimately have "find_template_end (Suc (length b)) b = None"
    using find_template_end_iff [of b] by (cases "find_template_end (Suc (length b)) b") auto
  then show ?thesis using OpenTemplate a by (simp add: next_token_def)
next
  case (Str q b)
  moreover assume a: "token_at sig word t r"
  ultimately have "find_string_end q (b @ q # r) = Some (b, r)" using find_string_end_iff by simp
  then show ?thesis using Str a by (auto simp: next_token_def)
next
  case (Word w)
  moreover assume a: "token_at sig word t r"
  ultimately obtain c w' where w: "w = c # w'" by (cases w) auto
  moreover have "takeWhile is_id_part (w @ r) = w" using takeWhile_run Word a by auto
  moreover have "c \<notin> {CHR ''/'', BTICK, DQUOTE, SQUOTE}" using Word w a by auto
  ultimately show ?thesis using Word a by (simp add: next_token_def)
next
  case (Space c)
  moreover assume a: "token_at sig word t r"
  moreover have "c \<notin> {CHR ''/'', BTICK, DQUOTE, SQUOTE}" using Space a by auto
  ultimately show ?thesis using space_not_id by (auto simp: next_token_def)
next
  case (Punct c)
  assume a: "token_at sig word t r"
  have "find_regex_end False r = None" if "c = CHR ''/''" "regex_allowed sig word"
    using a that Punct find_regex_end_iff [of False r] by (cases "find_regex_end False r") auto
  moreover have "find_string_end c r = None" if "c \<in> {DQUOTE, SQUOTE}"
    using a that Punct find_string_end_iff [OF that, of r] by (cases "find_string_end c r") auto
  ultimately show ?thesis using Punct a by (auto simp: next_token_def)
qed

lemma tok_text_ne: "token_at sig word t r \<Longrightarrow> tok_text t \<noteq> []"
  by (cases t) auto

lemma lexed_unique: "lexed x ts s \<Longrightarrow> lexed x us s \<Longrightarrow> us = ts"
proof (induction ts arbitrary: x s us)
  case Nil
  then show ?case by (cases us) (auto dest: tok_text_ne)
next
  case (Cons t ts)
  obtain r where r: "s = tok_text t @ r" "token_at (fst x) (snd x) t r" "lexed (token_after t x) ts r" using Cons.prems(1) by auto
  obtain u us' where u: "us = u # us'" using Cons.prems(2) tok_text_ne [OF r(2)] r(1) by (cases us) auto
  then obtain r' where r': "s = tok_text u @ r'" "token_at (fst x) (snd x) u r'" "lexed (token_after u x) us' r'" using Cons.prems(2) by auto
  have "u = t" using next_token_at [OF r(2)] next_token_at [OF r'(2)] r(1) r'(1) by simp
  then show ?case using Cons.IH r r' u by simp
qed

lemma lexed_text: "lexed x ts s \<Longrightarrow> tokens_text ts = s"
proof (induction ts arbitrary: x s)
  case (Cons t ts)
  then obtain r where "s = tok_text t @ r" "lexed (token_after t x) ts r" by auto
  then show ?case using Cons.IH by simp
qed simp

section \<open>The specifiers among the tokens\<close>

text \<open>
  The specifiers are the strings after \<open>from\<close>, \<open>import\<close> or \<open>import(\<close>, with nothing but
  space between, unless the keyword follows a dot.
\<close>

definition spaces :: "string \<Rightarrow> token list" where
  "spaces xs = map Space xs"

definition specifier_gap :: "string \<Rightarrow> token list \<Rightarrow> bool" where
  "specifier_gap kw g \<longleftrightarrow>
     (kw = ''from'' \<or> kw = ''import'') \<and>
     ((\<exists>xs. list_all is_code_space xs \<and> g = spaces xs)
      \<or> kw = ''import'' \<and> (\<exists>xs ys. list_all is_code_space xs \<and> list_all is_code_space ys
           \<and> g = spaces xs @ Punct (CHR ''('') # spaces ys))"

text \<open>
  \<open>rerouted P c ts ts'\<close>: \<open>ts'\<close> is \<open>ts\<close> with each specifier \<open>w\<close> replaced by a \<open>w'\<close> with \<open>P w w'\<close>, and
  nothing else changed; \<open>c\<close> is the significant character before \<open>ts\<close>.
\<close>

inductive rerouted :: "(string \<Rightarrow> string \<Rightarrow> bool) \<Rightarrow> char \<Rightarrow> token list \<Rightarrow> token list \<Rightarrow> bool" for P where
  rerouted_end: "rerouted P c [] []"
| rerouted_specifier:
    "c \<noteq> CHR ''.'' \<Longrightarrow> specifier_gap kw g \<Longrightarrow> P w w' \<Longrightarrow> rerouted P (CHR ''x'') ts ts' \<Longrightarrow>
      rerouted P c (Word kw # g @ Str q w # ts) (Word kw # g @ Str q w' # ts')"
| rerouted_other:
    "\<not> (\<exists>kw g q w us. c \<noteq> CHR ''.'' \<and> specifier_gap kw g \<and> t = Word kw \<and> ts = g @ Str q w # us) \<Longrightarrow>
      rerouted P (fst (token_after t (c, []))) ts ts' \<Longrightarrow> rerouted P c (t # ts) (t # ts')"

lemma rerouted_mono:
  assumes "rerouted P c s t" "\<And>w w'. P w w' \<Longrightarrow> Q w w'"
  shows "rerouted Q c s t"
  using assms(1)
proof (induction rule: rerouted.induct)
  case (rerouted_other c t ts ts')
  show ?case by (rule rerouted.rerouted_other) fact+
qed (auto intro: rerouted.intros assms(2))

lemma rerouted_same: "rerouted P c s t \<Longrightarrow> (\<And>w w'. P w w' \<Longrightarrow> w' = w) \<Longrightarrow> t = s"
  by (induction rule: rerouted.induct) auto

lemma rerouted_no_keyword: "Word ''from'' \<notin> set ts \<Longrightarrow> Word ''import'' \<notin> set ts \<Longrightarrow> rerouted P c ts ts"
  by (induction ts arbitrary: c) (auto intro!: rerouted.intros simp: specifier_gap_def)

lemma tokens_spaces [simp]: "tokens_text (spaces xs) = xs"
  by (induction xs) (auto simp: spaces_def)

lemma lexed_spaces [simp]: "list_all is_code_space xs \<Longrightarrow> lexed x (spaces xs @ ts) (xs @ s) \<longleftrightarrow> lexed x ts s"
  by (induction xs) (auto simp: spaces_def)

lemma dropWhile_spaces: "list_all P xs \<Longrightarrow> \<not> P c \<Longrightarrow> dropWhile P (xs @ c # s) = c # s \<and> takeWhile P (xs @ c # s) = xs"
  by (induction xs) auto

lemma peek_specifier_quote_iff:
  assumes "kw = ''from'' \<or> kw = ''import''"
  shows "peek_specifier_quote kw s = Some (g, q, t) \<longleftrightarrow>
    (\<exists>gs. specifier_gap kw gs \<and> g = tokens_text gs \<and> s = g @ q # t \<and> q \<in> {DQUOTE, SQUOTE})" (is "?l \<longleftrightarrow> ?r")
proof
  have sp: "list_all is_code_space (takeWhile is_code_space x)" for x by (auto simp: list_all_iff dest: set_takeWhileD)
  have tl: "starts_with x ''('' \<Longrightarrow> x = CHR ''('' # tl x" for x by (cases x) auto
  assume l: ?l
  show ?r
  proof (cases "kw = ''import'' \<and> starts_with (dropWhile is_code_space s) ''(''")
    case True
    let ?u = "tl (dropWhile is_code_space s)"
    from True l have g: "g = takeWhile is_code_space s @ ''('' @ takeWhile is_code_space ?u"
      and r: "dropWhile is_code_space ?u = q # t" "q \<in> {DQUOTE, SQUOTE}"
      by (auto simp: peek_specifier_quote_def Let_def split: list.splits if_splits)
    have "s = takeWhile is_code_space s @ CHR ''('' # ?u" using tl [of "dropWhile is_code_space s"] True by (metis takeWhile_dropWhile_id)
    also have "?u = takeWhile is_code_space ?u @ q # t" using r(1) by (metis takeWhile_dropWhile_id)
    finally have "s = g @ q # t" using g by simp
    moreover have "specifier_gap kw (spaces (takeWhile is_code_space s) @ Punct (CHR ''('') # spaces (takeWhile is_code_space ?u))"
      unfolding specifier_gap_def using sp True by blast
    ultimately show ?thesis using r(2) g by (intro exI conjI) (assumption | simp)+
  next
    case False
    then have g: "g = takeWhile is_code_space s" and r: "dropWhile is_code_space s = q # t" "q \<in> {DQUOTE, SQUOTE}"
      using l by (auto simp: peek_specifier_quote_def Let_def split: list.splits if_splits)
    have "s = g @ q # t" using r(1) g by (metis takeWhile_dropWhile_id)
    moreover have "specifier_gap kw (spaces g)" unfolding specifier_gap_def g using sp assms by blast
    ultimately show ?thesis using r(2) by (intro exI [of _ "spaces g"]) simp
  qed
next
  assume ?r
  then obtain gs where gs: "specifier_gap kw gs" "g = tokens_text gs" "s = g @ q # t" "q \<in> {DQUOTE, SQUOTE}" by blast
  then have q: "\<not> is_code_space q" "q \<noteq> CHR ''(''" by auto
  from gs(1) consider xs where "list_all is_code_space xs" "gs = spaces xs"
    | xs ys where "kw = ''import''" "list_all is_code_space xs" "list_all is_code_space ys" "gs = spaces xs @ Punct (CHR ''('') # spaces ys"
    unfolding specifier_gap_def by blast
  then show ?l
  proof cases
    case 1
    then show ?thesis using gs q dropWhile_spaces [OF 1(1) q(1), of t] by (auto simp: peek_specifier_quote_def)
  next
    case 2
    then have "g = xs @ CHR ''('' # ys" using gs by simp
    then show ?thesis
      using gs q 2(1) dropWhile_spaces [OF 2(2), of "CHR ''(''" "ys @ q # t"] dropWhile_spaces [OF 2(3) q(1), of t]
      by (auto simp: peek_specifier_quote_def)
  qed
qed

lemma find_specifier_iff:
  assumes "kw = ''from'' \<or> kw = ''import''"
  shows "find_specifier kw s = Some (g, q, w, r) \<longleftrightarrow>
    (\<exists>gs. specifier_gap kw gs \<and> g = tokens_text gs \<and> s = g @ q # w @ q # r \<and> q \<in> {DQUOTE, SQUOTE} \<and> literal_body q w)"
  (is "?l \<longleftrightarrow> ?r")
proof
  assume ?l
  then obtain t where p: "peek_specifier_quote kw s = Some (g, q, t)" and f: "find_string_end q t = Some (w, r)"
    by (auto simp: find_specifier_def split: option.splits)
  then show ?r using peek_specifier_quote_iff [OF assms, of s g q t] find_string_end_iff [of q t w r] by auto
next
  assume r: ?r
  then have "peek_specifier_quote kw s = Some (g, q, w @ q # r)" unfolding peek_specifier_quote_iff [OF assms] by blast
  moreover have "find_string_end q (w @ q # r) = Some (w, r)" using r find_string_end_iff by blast
  ultimately show ?l by (simp add: find_specifier_def)
qed

lemma lexed_specifier:
  assumes "specifier_gap kw g" "q \<in> {DQUOTE, SQUOTE}" "literal_body q w"
  shows "lexed x (g @ Str q w # ts) (tokens_text g @ q # w @ q # s) \<longleftrightarrow> lexed (CHR ''x'', []) ts s"
proof -
  from assms(1) consider xs where "list_all is_code_space xs" "g = spaces xs"
    | xs ys where "kw = ''import''" "list_all is_code_space xs" "list_all is_code_space ys" "g = spaces xs @ Punct (CHR ''('') # spaces ys"
    unfolding specifier_gap_def by blast
  then show ?thesis
  proof cases
    case 1
    then show ?thesis using assms by auto
  next
    case 2
    then show ?thesis using assms by auto
  qed
qed

section \<open>The loop takes the tokens one by one\<close>

lemma take_run [simp]: "takeWhile P xs @ drop (length (takeWhile P xs)) xs = xs"
  by (metis dropWhile_eq_drop takeWhile_dropWhile_id)

definition scan_at :: "char \<times> string \<Rightarrow> string \<Rightarrow> 'st \<Rightarrow> 'st module_state" where
  "scan_at x s env = \<lparr>sc_rest = s, sc_sig = fst x, sc_word = snd x, sc_env = env\<rparr>"

lemma scan_at_sel [simp]:
  "sc_rest (scan_at x s env) = s" "sc_sig (scan_at x s env) = fst x" "sc_word (scan_at x s env) = snd x" "sc_env (scan_at x s env) = env"
  "(scan_at x s env)\<lparr>sc_rest := r\<rparr> = scan_at x r env"
  "after_value r env = scan_at (CHR ''x'', []) r env"
  by (simp_all add: scan_at_def after_value_def)

definition token_step :: "char \<times> string \<Rightarrow> string \<Rightarrow> 'st \<Rightarrow> string \<times> 'st module_state \<Rightarrow> bool" where
  "token_step x s env res \<longleftrightarrow>
     (\<exists>t r. s = tok_text t @ r \<and> token_at (fst x) (snd x) t r \<and> (\<forall>w. t \<noteq> Word w)
        \<and> res = (tok_text t, scan_at (token_after t x) r env))"

lemma token_stepI:
  "s = tok_text t @ r \<Longrightarrow> token_at (fst x) (snd x) t r \<Longrightarrow> (\<And>w. t \<noteq> Word w) \<Longrightarrow> res = (tok_text t, scan_at (token_after t x) r env) \<Longrightarrow>
    token_step x s env res"
  unfolding token_step_def by blast

lemma drop_run: "drop (length (takeWhile P s)) s = dropWhile P s"
  by (simp add: dropWhile_eq_drop)

lemma scan_slash_token: "token_step x (CHR ''/'' # s1) env (scan_slash s1 (scan_at x (CHR ''/'' # s1) env))"
proof -
  consider "starts_with s1 ''/''" | "starts_with s1 ''*''" | "\<not> starts_with s1 ''/''" "\<not> starts_with s1 ''*''" by blast
  then show ?thesis
  proof cases
    case 1
    then obtain u where u: "s1 = CHR ''/'' # u" by (auto simp: starts_with_single)
    let ?b = "takeWhile (\<lambda>x. x \<noteq> LFEED) u"
    have "hd (dropWhile (\<lambda>x. x \<noteq> LFEED) u) = LFEED" if "dropWhile (\<lambda>x. x \<noteq> LFEED) u \<noteq> []"
      using hd_dropWhile [OF that] by simp
    then show ?thesis
      by (intro token_stepI [where t = "LineComment ?b" and r = "dropWhile (\<lambda>x. x \<noteq> LFEED) u"])
        (auto simp: u scan_slash_def Let_def drop_run dest: set_takeWhileD)
  next
    case 2
    then obtain u where u: "s1 = CHR ''*'' # u" by (auto simp: starts_with_single)
    show ?thesis
    proof (cases "find_text ''*/'' u")
      case None
      then show ?thesis using find_close_None [of u]
        by (intro token_stepI [where t = "OpenComment u" and r = "[]"]) (simp_all add: u scan_slash_def)
    next
      case (Some y)
      then obtain b r where y: "find_text ''*/'' u = Some (b, r)" by (cases y) auto
      then show ?thesis using find_close_iff [of u b r]
        by (intro token_stepI [where t = "BlockComment b" and r = r]) (simp_all add: u scan_slash_def)
    qed
  next
    case 3
    show ?thesis
    proof (cases "if regex_allowed (fst x) (snd x) then find_regex_end False s1 else None")
      case None
      then have "\<not> (regex_allowed (fst x) (snd x) \<and> (\<exists>b r'. s1 = b @ CHR ''/'' # r' \<and> regex_body False b))"
        using find_regex_end_iff [of False s1] by (auto split: if_splits)
      moreover have "scan_slash s1 (scan_at x (CHR ''/'' # s1) env) = (''/'', scan_at (CHR ''/'', []) s1 env)"
        using 3 None by (simp add: scan_slash_def scan_at_def Let_def)
      ultimately show ?thesis using 3 by (intro token_stepI [where t = "Punct (CHR ''/'')" and r = s1]) simp_all
    next
      case (Some y)
      then obtain b r where y: "regex_allowed (fst x) (snd x)" "find_regex_end False s1 = Some (b, r)" by (cases y) (auto split: if_splits)
      have s1: "s1 = b @ CHR ''/'' # r" "regex_body False b" using y(2) find_regex_end_iff [of False s1 b r] by blast+
      moreover have "b \<noteq> []" "hd b \<noteq> CHR ''*''" using 3 s1(1) by (cases b; simp)+
      moreover have "scan_slash s1 (scan_at x (CHR ''/'' # s1) env) = (''/'' @ b @ ''/'', scan_at (CHR ''x'', []) r env)"
        using 3 y by (simp add: scan_slash_def Let_def)
      ultimately show ?thesis using y(1) by (intro token_stepI [where t = "Regex b" and r = r]) simp_all
    qed
  qed
qed

lemma scan_step_token:
  assumes "\<not> is_id_start c"
  shows "token_step x (c # s1) env (scan_step route (scan_at x (c # s1) env))"
proof -
  consider "c = CHR ''/''" | "c = BTICK" | "c \<in> {DQUOTE, SQUOTE}" | "c \<notin> {CHR ''/'', BTICK, DQUOTE, SQUOTE}" by blast
  then show ?thesis
  proof cases
    case 1
    then show ?thesis using scan_slash_token by (simp add: scan_step_def)
  next
    case 2
    show ?thesis
    proof (cases "find_template_end (Suc (length s1)) s1")
      case None
      then have "\<not> (\<exists>b' r'. s1 = b' @ BTICK # r' \<and> template_body b')" using find_template_end_iff [of s1] by auto
      then show ?thesis using None 2
        by (intro token_stepI [where t = "OpenTemplate s1" and r = "[]"]) (simp_all add: scan_step_def)
    next
      case (Some y)
      then obtain b r where y: "find_template_end (Suc (length s1)) s1 = Some (b, r)" by (cases y) auto
      then show ?thesis using 2 find_template_end_iff [of s1 b r]
        by (intro token_stepI [where t = "Template b" and r = r]) (simp_all add: scan_step_def)
    qed
  next
    case 3
    then have c: "c \<noteq> CHR ''/''" "c \<noteq> BTICK" "c = DQUOTE \<or> c = SQUOTE" by auto
    show ?thesis
    proof (cases "find_string_end c s1")
      case None
      then have "\<not> (\<exists>b r'. s1 = b @ c # r' \<and> literal_body c b)" using find_string_end_iff [OF 3, of s1] by auto
      moreover have "scan_step route (scan_at x (c # s1) env) = ([c], scan_at (c, []) s1 env)"
        using c None by (simp add: scan_step_def scan_at_def)
      ultimately show ?thesis using 3 c assms by (intro token_stepI [where t = "Punct c" and r = s1]) auto
    next
      case (Some y)
      then obtain b r where y: "find_string_end c s1 = Some (b, r)" by (cases y) auto
      moreover have "scan_step route (scan_at x (c # s1) env) = (c # b @ [c], scan_at (CHR ''x'', []) r env)"
        using c y by (simp add: scan_step_def)
      ultimately show ?thesis using 3 find_string_end_iff [OF 3, of s1 b r]
        by (intro token_stepI [where t = "Str c b" and r = r]) simp_all
    qed
  next
    case 4
    show ?thesis
    proof (cases "is_code_space c")
      case True
      then show ?thesis using 4 assms
        by (intro token_stepI [where t = "Space c" and r = s1]) (simp_all add: scan_step_def)
    next
      case False
      then have "scan_step route (scan_at x (c # s1) env) = ([c], scan_at (c, []) s1 env)"
        using 4 assms by (simp add: scan_step_def scan_at_def)
      then show ?thesis using 4 assms False by (intro token_stepI [where t = "Punct c" and r = s1]) auto
    qed
  qed
qed

text \<open>A word is either a plain token or a keyword whose specifier is routed.\<close>

definition specifier_of :: "char \<Rightarrow> string \<Rightarrow> string \<Rightarrow> (string \<times> char \<times> string \<times> string) option" where
  "specifier_of sig w r = (if (w = ''from'' \<or> w = ''import'') \<and> sig \<noteq> CHR ''.'' then find_specifier w r else None)"

lemma scan_word_token:
  assumes "is_id_start c"
  obtains w r where "c # s1 = w @ r" "token_at sig word (Word w) r"
    "scan_step route (scan_at x (c # s1) env) =
      (case specifier_of (fst x) w r of
         None \<Rightarrow> (w, scan_at (token_after (Word w) x) r env)
       | Some (g, q, spec, rest) \<Rightarrow>
           (case route env spec of
              (routed, env') \<Rightarrow>
                if routed \<noteq> spec then (w @ g @ [q] @ routed @ [q], scan_at (CHR ''x'', []) rest env')
                else (w, scan_at (token_after (Word w) x) r env')))"
proof (rule that)
  let ?w = "takeWhile is_id_part (c # s1)" and ?r = "dropWhile is_id_part (c # s1)"
  show "c # s1 = ?w @ ?r" by simp
  have "\<not> is_id_part (hd ?r)" if "?r \<noteq> []" using hd_dropWhile [OF that] .
  moreover have "list_all is_id_part ?w" by (auto simp: list_all_iff dest: set_takeWhileD)
  moreover have "?w \<noteq> []" "hd ?w = c" using assms by (simp_all add: is_id_part_def)
  ultimately show "token_at sig word (Word ?w) ?r" using assms unfolding token_at.simps by (metis (no_types))
  have "c \<noteq> CHR ''/''" "c \<noteq> BTICK" "c \<noteq> DQUOTE" "c \<noteq> SQUOTE" using assms by auto
  then show "scan_step route (scan_at x (c # s1) env) =
      (case specifier_of (fst x) ?w ?r of
         None \<Rightarrow> (?w, scan_at (token_after (Word ?w) x) ?r env)
       | Some (g, q, spec, rest) \<Rightarrow>
           (case route env spec of
              (routed, env') \<Rightarrow>
                if routed \<noteq> spec then (?w @ g @ [q] @ routed @ [q], scan_at (CHR ''x'', []) rest env')
                else (?w, scan_at (token_after (Word ?w) x) ?r env')))"
    unfolding scan_step_def scan_at_sel list.case scan_word_def Let_def drop_run specifier_of_def
    using assms by (simp only: if_False if_True simp_thms plain_word_def scan_at_def token_after.simps fst_conv snd_conv after_value_def split: option.split prod.split)
qed

function module_scan :: "'st router \<Rightarrow> 'st module_state \<Rightarrow> string" where
  "module_scan route st =
     (if sc_rest st = [] then []
      else case scan_step route st of (out, st') \<Rightarrow> out @ module_scan route st')"
  by pat_completeness auto

lemma scan_step_shorter:
  assumes "sc_rest st \<noteq> []" "scan_step route st = (out, st')"
  shows "length (sc_rest st') < length (sc_rest st)"
proof -
  obtain c s1 where s: "sc_rest st = c # s1" using assms(1) by (cases "sc_rest st") auto
  let ?x = "(sc_sig st, sc_word st)"
  have st: "st = scan_at ?x (c # s1) (sc_env st)" using s by (simp add: scan_at_def)
  show ?thesis
  proof (cases "is_id_start c")
    case False
    have "token_step ?x (c # s1) (sc_env st) (out, st')"
      using scan_step_token [OF False, of ?x s1 "sc_env st" route] assms(2) st by simp
    then obtain t r where "c # s1 = tok_text t @ r" "tok_text t \<noteq> []" "st' = scan_at (token_after t ?x) r (sc_env st)"
      unfolding token_step_def using tok_text_ne by blast
    then show ?thesis using s by (cases "tok_text t") auto
  next
    case True
    obtain w r where w: "c # s1 = w @ r" "token_at (fst ?x) (snd ?x) (Word w) r"
      "scan_step route (scan_at ?x (c # s1) (sc_env st)) =
      (case specifier_of (fst ?x) w r of
         None \<Rightarrow> (w, scan_at (token_after (Word w) ?x) r (sc_env st))
       | Some (g, q, spec, rest) \<Rightarrow>
           (case route (sc_env st) spec of
              (routed, env') \<Rightarrow>
                if routed \<noteq> spec then (w @ g @ [q] @ routed @ [q], scan_at (CHR ''x'', []) rest env')
                else (w, scan_at (token_after (Word w) ?x) r env')))" by (rule scan_word_token [OF True])
    have "length r < length (sc_rest st)" using w(1,2) s by (cases w) auto
    moreover have "length rest \<le> length r" if "specifier_of (fst ?x) w r = Some (g, q, spec, rest)" for g q spec rest
      using that find_specifier_iff [of w r g q spec rest] by (auto simp: specifier_of_def split: if_splits)
    moreover have "sc_rest st' = r \<or> (\<exists>g q spec. specifier_of (fst ?x) w r = Some (g, q, spec, sc_rest st'))"
    proof (cases "specifier_of (fst ?x) w r")
      case None
      then show ?thesis using w(3) [folded st, unfolded assms(2) None] by simp
    next
      case (Some y)
      then obtain g q spec rest where y: "specifier_of (fst ?x) w r = Some (g, q, spec, rest)" by (cases y) blast
      obtain routed env' where "route (sc_env st) spec = (routed, env')" by (meson surj_pair)
      from w(3) [folded st, unfolded assms(2) y option.case prod.case this] show ?thesis using y
        by (cases "routed = spec") simp_all
    qed
    ultimately show ?thesis by (elim disjE exE) (simp, fastforce)
  qed
qed

termination module_scan
  by (relation "measure (\<lambda>(_, st). length (sc_rest st))") (auto dest: scan_step_shorter [OF _ sym])

declare module_scan.simps [simp del]

definition rewrite_module_imports :: "'st router \<Rightarrow> 'st \<Rightarrow> string \<Rightarrow> string" where
  "rewrite_module_imports route env src =
     (if \<not> str_includes src ''import'' \<and> \<not> str_includes src ''from'' then src
      else module_scan route \<lparr>sc_rest = src, sc_sig = CHR '';'', sc_word = [], sc_env = env\<rparr>)"

lemma module_scan_Cons:
  "module_scan route (scan_at x (c # s) env) = (case scan_step route (scan_at x (c # s) env) of (out, st') \<Rightarrow> out @ module_scan route st')"
  by (subst module_scan.simps) simp

lemma module_scan_Nil [simp]: "module_scan route (scan_at x [] env) = []"
  by (subst module_scan.simps) simp

text \<open>A string of the module is copied whole, whatever words it holds, and the scan goes on after it.\<close>

lemma string_copied:
  assumes "q \<in> {DQUOTE, SQUOTE}" "literal_body q w"
  shows "module_scan route (scan_at x (q # w @ q # s) env) = q # w @ q # module_scan route (scan_at (CHR ''x'', []) s env)"
proof -
  have "find_string_end q (w @ q # s) = Some (w, s)" using assms find_string_end_iff by blast
  then show ?thesis using assms(1) by (auto simp: module_scan_Cons scan_step_def)
qed

lemma spaces_copied:
  "list_all is_code_space xs \<Longrightarrow> module_scan route (scan_at x (xs @ s) env) = xs @ module_scan route (scan_at x s env)"
proof (induction xs)
  case (Cons c xs)
  then have "c \<notin> {CHR ''/'', BTICK, DQUOTE, SQUOTE}" "\<not> is_id_start c" using space_not_id by auto
  then show ?case using Cons by (simp add: module_scan_Cons scan_step_def)
qed simp

lemma paren_copied:
  "module_scan route (scan_at x (CHR ''('' # s) env) = CHR ''('' # module_scan route (scan_at (CHR ''('', []) s env)"
proof -
  have "scan_step route (scan_at x (CHR ''('' # s) env) = ([CHR ''(''], scan_at (CHR ''('', []) s env)"
    by (simp add: scan_step_def scan_at_def)
  then show ?thesis by (simp add: module_scan_Cons)
qed

lemma specifier_copied:
  assumes "specifier_gap kw g" "q \<in> {DQUOTE, SQUOTE}" "literal_body q w"
  shows "module_scan route (scan_at x (tokens_text g @ q # w @ q # s) env)
    = tokens_text g @ q # w @ q # module_scan route (scan_at (CHR ''x'', []) s env)"
proof -
  from assms(1) consider xs where "list_all is_code_space xs" "g = spaces xs"
    | xs ys where "list_all is_code_space xs" "list_all is_code_space ys" "g = spaces xs @ Punct (CHR ''('') # spaces ys"
    unfolding specifier_gap_def by blast
  then show ?thesis by cases (simp_all add: spaces_copied paren_copied string_copied [OF assms(2,3)])
qed

lemma lexed_append: "lexed x (ts @ us) s \<Longrightarrow> \<exists>x' s'. s = tokens_text ts @ s' \<and> lexed x' us s'"
proof (induction ts arbitrary: x s)
  case (Cons t ts)
  then obtain r where "s = tok_text t @ r" "lexed (token_after t x) (ts @ us) r" by auto
  then show ?case using Cons.IH by fastforce
qed auto

lemma no_specifier:
  assumes "specifier_of sig w r = None" "lexed x ts r"
  shows "\<not> (\<exists>kw g q v us. sig \<noteq> CHR ''.'' \<and> specifier_gap kw g \<and> Word w = Word kw \<and> ts = g @ Str q v # us)"
proof
  assume "\<exists>kw g q v us. sig \<noteq> CHR ''.'' \<and> specifier_gap kw g \<and> Word w = Word kw \<and> ts = g @ Str q v # us"
  then obtain g q v us where g: "sig \<noteq> CHR ''.''" "specifier_gap w g" "ts = g @ Str q v # us" by blast
  then obtain s' where "r = tokens_text g @ q # v @ q # s'" "q \<in> {DQUOTE, SQUOTE}" "literal_body q v"
    using lexed_append [of x g "Str q v # us" r] assms(2) by auto
  moreover have kw: "w = ''from'' \<or> w = ''import''" using g(2) by (simp add: specifier_gap_def)
  ultimately have "find_specifier w r = Some (tokens_text g, q, v, s')" unfolding find_specifier_iff [OF kw] using g(2) by blast
  then show False using assms(1) kw g(1) by (simp add: specifier_of_def)
qed

lemma token_after_sig: "fst (token_after t x) = fst (token_after t (fst x, []))"
  by (cases t; cases x) simp_all

text \<open>The pass writes the tokens of what it reads, with each specifier routed in some state the routing reaches.\<close>

definition routed_in :: "('st \<Rightarrow> bool) \<Rightarrow> 'st router \<Rightarrow> string \<Rightarrow> string \<Rightarrow> bool" where
  "routed_in I route w w' \<longleftrightarrow> (\<exists>env. I env \<and> w' = fst (route env w))"

definition tokens_routed :: "('st \<Rightarrow> bool) \<Rightarrow> 'st router \<Rightarrow> char \<times> string \<Rightarrow> string \<Rightarrow> 'st \<Rightarrow> bool" where
  "tokens_routed I route x s env \<longleftrightarrow>
     (\<exists>ts ts'. lexed x ts s \<and> rerouted (routed_in I route) (fst x) ts ts' \<and> module_scan route (scan_at x s env) = tokens_text ts')"

lemma tokens_routed_Nil: "tokens_routed I route x [] env"
  unfolding tokens_routed_def by (intro exI [of _ "[]"]) (simp add: rerouted_end)

lemma tokens_routed_other:
  assumes "tokens_routed I route (token_after t x) r env'" "token_at (fst x) (snd x) t r"
    and "module_scan route (scan_at x (tok_text t @ r) env) = tok_text t @ module_scan route (scan_at (token_after t x) r env')"
    and "\<And>w. t = Word w \<Longrightarrow> specifier_of (fst x) w r = None"
  shows "tokens_routed I route x (tok_text t @ r) env"
proof -
  obtain ts ts' where ts: "lexed (token_after t x) ts r" "rerouted (routed_in I route) (fst (token_after t x)) ts ts'"
    "module_scan route (scan_at (token_after t x) r env') = tokens_text ts'" using assms(1) unfolding tokens_routed_def by blast
  have "\<not> (\<exists>kw g q w us. fst x \<noteq> CHR ''.'' \<and> specifier_gap kw g \<and> t = Word kw \<and> ts = g @ Str q w # us)"
    using no_specifier [OF assms(4) ts(1)] by blast
  then have "rerouted (routed_in I route) (fst x) (t # ts) (t # ts')"
    using ts(2) token_after_sig [of t x] by (intro rerouted_other) simp_all
  then show ?thesis unfolding tokens_routed_def
    using ts assms(2,3) by (intro exI [of _ "t # ts"] exI [of _ "t # ts'"]) auto
qed

lemma tokens_routed_specifier:
  assumes "tokens_routed I route (CHR ''x'', []) rest env'" "token_at (fst x) (snd x) (Word w) (tokens_text g @ q # v @ q # rest)"
    and g: "specifier_gap w g" "q \<in> {DQUOTE, SQUOTE}" "literal_body q v" "fst x \<noteq> CHR ''.''"
    and "I env" "module_scan route (scan_at x (w @ tokens_text g @ q # v @ q # rest) env)
      = w @ tokens_text g @ q # fst (route env v) @ q # module_scan route (scan_at (CHR ''x'', []) rest env')"
  shows "tokens_routed I route x (w @ tokens_text g @ q # v @ q # rest) env"
proof -
  obtain ts ts' where ts: "lexed (CHR ''x'', []) ts rest" "rerouted (routed_in I route) (CHR ''x'') ts ts'"
    "module_scan route (scan_at (CHR ''x'', []) rest env') = tokens_text ts'" using assms(1) unfolding tokens_routed_def by auto
  let ?ts = "Word w # g @ Str q v # ts" and ?ts' = "Word w # g @ Str q (fst (route env v)) # ts'"
  have "routed_in I route v (fst (route env v))" unfolding routed_in_def using assms(7) by blast
  then have "rerouted (routed_in I route) (fst x) ?ts ?ts'" by (rule rerouted_specifier [OF g(4,1) _ ts(2)])
  moreover have "lexed x ?ts (w @ tokens_text g @ q # v @ q # rest)" using assms(2) ts(1) lexed_specifier [OF g(1-3)] by auto
  ultimately show ?thesis unfolding tokens_routed_def using ts(3) assms(8) by (intro exI [of _ ?ts] exI [of _ ?ts']) simp
qed

lemma word_routed:
  assumes "is_id_start c" "I env" "\<And>s' x' env'. length s' < length (c # s1) \<Longrightarrow> I env' \<Longrightarrow> tokens_routed I route x' s' env'"
    and "\<And>env w. I env \<Longrightarrow> I (snd (route env w))"
  shows "tokens_routed I route x (c # s1) env"
proof -
  obtain w r where w: "c # s1 = w @ r" "token_at (fst x) (snd x) (Word w) r"
    and step: "scan_step route (scan_at x (c # s1) env) =
      (case specifier_of (fst x) w r of
         None \<Rightarrow> (w, scan_at (token_after (Word w) x) r env)
       | Some (g, q, spec, rest) \<Rightarrow>
           (case route env spec of
              (routed, env') \<Rightarrow>
                if routed \<noteq> spec then (w @ g @ [q] @ routed @ [q], scan_at (CHR ''x'', []) rest env')
                else (w, scan_at (token_after (Word w) x) r env')))" by (rule scan_word_token [OF assms(1)])
  have l: "length r < length (c # s1)" using w by (cases w) auto
  show ?thesis
  proof (cases "specifier_of (fst x) w r")
    case None
    then have "module_scan route (scan_at x (w @ r) env) = w @ module_scan route (scan_at (token_after (Word w) x) r env)"
      using step w(1) module_scan_Cons [of route x c s1 env] by simp
    then show ?thesis using tokens_routed_other [of I route "Word w" x r env env] assms(3) [OF l assms(2)] w None by simp
  next
    case (Some y)
    then obtain g q v rest where y: "specifier_of (fst x) w r = Some (g, q, v, rest)" by (cases y) blast
    then have kw: "w = ''from'' \<or> w = ''import''" and dot: "fst x \<noteq> CHR ''.''" and f: "find_specifier w r = Some (g, q, v, rest)"
      by (auto simp: specifier_of_def split: if_splits)
    obtain gs where gs: "specifier_gap w gs" "g = tokens_text gs" "r = tokens_text gs @ q # v @ q # rest" "q \<in> {DQUOTE, SQUOTE}" "literal_body q v"
      using f unfolding find_specifier_iff [OF kw] by blast
    obtain routed env' where e: "route env v = (routed, env')" by (meson surj_pair)
    have "module_scan route (scan_at x (w @ r) env) = w @ tokens_text gs @ q # routed @ q # module_scan route (scan_at (CHR ''x'', []) rest env')"
    proof (cases "routed = v")
      case True
      then have "module_scan route (scan_at x (w @ r) env) = w @ module_scan route (scan_at (token_after (Word w) x) r env')"
        using step w(1) y e module_scan_Cons [of route x c s1 env] by simp
      then show ?thesis using gs(3) True by (simp add: specifier_copied [OF gs(1,4,5)] del: token_after.simps)
    next
      case False
      then show ?thesis using step w(1) y e gs(2) module_scan_Cons [of route x c s1 env] by simp
    qed
    moreover have "length rest < length (c # s1)" using l gs(3) by simp
    moreover have "I env'" using assms(4) [OF assms(2), of v] e by simp
    ultimately show ?thesis
      using tokens_routed_specifier [OF assms(3), of rest env' x w gs q v] gs w dot e assms(2) by simp
  qed
qed

lemma module_scan_tokens:
  assumes "\<And>env w. I env \<Longrightarrow> I (snd (route env w))" "I env"
  shows "tokens_routed I route x s env"
  using assms(2)
proof (induction s arbitrary: x env rule: measure_induct_rule [where f = length])
  case (less s)
  show ?case
  proof (cases s)
    case (Cons c s1)
    show ?thesis
    proof (cases "is_id_start c")
      case True
      show ?thesis unfolding Cons
        by (rule word_routed [OF True less.prems less.IH assms(1)]) (simp_all add: Cons)
    next
      case False
      obtain t r where t: "c # s1 = tok_text t @ r" "token_at (fst x) (snd x) t r" "\<And>w. t \<noteq> Word w"
        "scan_step route (scan_at x (c # s1) env) = (tok_text t, scan_at (token_after t x) r env)"
        using scan_step_token [OF False, of x s1 env route] unfolding token_step_def by blast
      have "length r < length s" using t(1) tok_text_ne [OF t(2)] Cons by (cases "tok_text t") auto
      moreover have "module_scan route (scan_at x (tok_text t @ r) env) = tok_text t @ module_scan route (scan_at (token_after t x) r env)"
        using module_scan_Cons [of route x c s1 env] t(1,4) by simp
      ultimately show ?thesis using tokens_routed_other [OF less.IH [OF _ less.prems] t(2)] t(1,3) Cons by simp
    qed
  qed (simp add: tokens_routed_Nil)
qed

text \<open>The tokens of a module, and what the whole pass does to them.\<close>

lemma lexed_exists: "\<exists>ts. lexed x ts s"
  using module_scan_tokens [of "\<lambda>_. True" "\<lambda>e w. (w, e)" "()" x s] unfolding tokens_routed_def by blast

lemma lexed_keyword: "lexed x ts s \<Longrightarrow> Word w \<in> set ts \<Longrightarrow> str_includes s w"
proof -
  assume "lexed x ts s" and "Word w \<in> set ts"
  then obtain us vs where "s = tokens_text (us @ Word w # vs)" using lexed_text split_list by metis
  then show ?thesis unfolding str_includes_iff by auto
qed

lemma rewrite_tokens:
  assumes "\<And>env w. I env \<Longrightarrow> I (snd (route env w))" "I env"
  shows "\<exists>ts ts'. (\<forall>us. lexed (CHR '';'', []) us src \<longleftrightarrow> us = ts) \<and> rerouted (routed_in I route) (CHR '';'') ts ts'
    \<and> rewrite_module_imports route env src = tokens_text ts'"
proof (cases "\<not> str_includes src ''import'' \<and> \<not> str_includes src ''from''")
  case True
  obtain ts where ts: "lexed (CHR '';'', []) ts src" using lexed_exists by blast
  then have "Word ''from'' \<notin> set ts" "Word ''import'' \<notin> set ts" using lexed_keyword True by blast+
  then have "rerouted (routed_in I route) (CHR '';'') ts ts" by (rule rerouted_no_keyword)
  then show ?thesis using ts lexed_unique lexed_text [OF ts] True
    by (intro exI [of _ ts]) (auto simp: rewrite_module_imports_def)
next
  case False
  obtain ts ts' where ts: "lexed (CHR '';'', []) ts src" "rerouted (routed_in I route) (CHR '';'') ts ts'"
    "module_scan route (scan_at (CHR '';'', []) src env) = tokens_text ts'"
    using module_scan_tokens [of I route env "(CHR '';'', [])" src, OF assms] unfolding tokens_routed_def by auto
  have "rewrite_module_imports route env src = tokens_text ts'" using False ts(3)
    unfolding rewrite_module_imports_def scan_at_def by auto
  then show ?thesis using ts(1,2) lexed_unique by blast
qed

section \<open>Routing one specifier\<close>

definition passthrough :: "string \<Rightarrow> url \<Rightarrow> bool" where
  "passthrough engine_origin u \<longleftrightarrow> url_origin u = engine_origin \<or> \<not> is_http_url u"

text \<open>\<open>/^[a-z][a-z0-9+.-]*:/i\<close>\<close>

definition has_scheme :: "string \<Rightarrow> bool" where
  "has_scheme s \<longleftrightarrow>
     (case s of
        c # r \<Rightarrow> is_alnum c \<and> \<not> is_digit c \<and> starts_with (dropWhile (\<lambda>x. is_alnum x \<or> x \<in> set ''+.-'') r) '':''
      | [] \<Rightarrow> False)"

definition is_bare_specifier :: "string \<Rightarrow> bool" where
  "is_bare_specifier s \<longleftrightarrow> \<not> has_scheme s \<and> \<not> starts_with s ''/'' \<and> \<not> starts_with s ''.''"

definition route_abs :: "string \<Rightarrow> string \<Rightarrow> url \<Rightarrow> string \<Rightarrow> codec \<Rightarrow> string \<times> codec" where
  "route_abs scheme engine_origin u verbatim st =
     (if passthrough engine_origin u \<or> is_engine_path st (url_pathname u) then (verbatim, st)
      else let st = snd (set_scheme st scheme) in (encode_dest st (url_href u), st))"

definition route_module_specifier ::
  "platform \<Rightarrow> string \<Rightarrow> string \<Rightarrow> string \<Rightarrow> (string \<Rightarrow> string option) \<Rightarrow> codec router" where
  "route_module_specifier pf scheme worker_url engine_origin bare st spec =
     (if is_bare_specifier spec then
        (case truthy (bare spec) of
           None \<Rightarrow> (spec, st)
         | Some mapped \<Rightarrow>
             (case new_url pf mapped of
                None \<Rightarrow> (spec, st)
              | Some u \<Rightarrow> route_abs scheme engine_origin u mapped st))
      else
        (case new_url_base pf spec worker_url of
           None \<Rightarrow> (spec, st)
         | Some u \<Rightarrow> route_abs scheme engine_origin u spec st))"

section \<open>What the routes stand for\<close>

text \<open>
  The URL of a specifier in its module, and the text it is written with. A specifier is the text of the string
  as it stands: the code interprets no escape in it, so a text without a backslash is the module it names.
\<close>

definition specifier_url :: "platform \<Rightarrow> string \<Rightarrow> (string \<Rightarrow> string option) \<Rightarrow> string \<Rightarrow> (url \<times> string) option" where
  "specifier_url pf worker_url bare w =
     (if is_bare_specifier w
      then (case truthy (bare w) of None \<Rightarrow> None | Some m \<Rightarrow> map_option (\<lambda>u. (u, m)) (new_url pf m))
      else map_option (\<lambda>u. (u, w)) (new_url_base pf w worker_url))"

lemma route_module_specifier_alt:
  "route_module_specifier pf scheme worker_url engine_origin bare st w =
     (case specifier_url pf worker_url bare w of
        None \<Rightarrow> (w, st)
      | Some (u, v) \<Rightarrow> route_abs scheme engine_origin u v st)"
  by (simp add: route_module_specifier_def specifier_url_def split: option.splits)

lemma set_scheme_idem: "snd (set_scheme (snd (set_scheme st p)) p) = snd (set_scheme st p)"
  by (simp add: set_scheme_def)

lemma encode_dest_chars:
  assumes "codec_wf st"
  shows "set (encode_dest st d) \<subseteq> insert (CHR ''/'') (set B64URL)"
proof -
  obtain seg where "prefix st = ''/'' @ seg @ ''/''" "list_all is_segment_char seg"
    using assms valid_prefix_cases by (metis codec_wf_def)
  then have "set (prefix st) \<subseteq> insert (CHR ''/'') (set B64URL)" by (auto simp: list_all_iff is_segment_char_def)
  then show ?thesis using b64u_encode_chars by (auto simp: encode_dest_def encode_dest_legacy_def split: option.splits)
qed

lemma plain_body: "q \<notin> set w \<Longrightarrow> BSLASH \<notin> set w \<Longrightarrow> LFEED \<notin> set w \<Longrightarrow> CARR \<notin> set w \<Longrightarrow> literal_body q w"
  by (induction w) auto

lemma route_body:
  assumes "codec_wf st" "q \<in> {DQUOTE, SQUOTE}"
  shows "literal_body q (encode_dest st d)"
proof -
  have "c \<notin> insert (CHR ''/'') (set B64URL)" if "c \<in> {DQUOTE, SQUOTE, BSLASH, LFEED, CARR}" for c
    using that by (auto simp: B64URL_def)
  then show ?thesis using encode_dest_chars [OF assms(1), of d] assms(2) by (intro plain_body) (blast | (drule subsetD; blast))+
qed

lemma route_states:
  assumes "st' = snd (set_scheme st scheme)" "env \<in> {st, st'}"
  shows "snd (set_scheme env scheme) = st'"
    and "snd (route_module_specifier pf scheme worker_url engine_origin bare env w) \<in> {st, st'}"
  using assms set_scheme_idem by (auto simp: route_module_specifier_alt route_abs_def Let_def split: option.splits)

text \<open>
  What a specifier may become, in a routing that starts in \<open>st\<close> and sets the live prefix of \<open>st'\<close> when it
  mints its first route.
\<close>

definition specifier_becomes ::
  "platform \<Rightarrow> string \<Rightarrow> string \<Rightarrow> (string \<Rightarrow> string option) \<Rightarrow> codec \<Rightarrow> codec \<Rightarrow> string \<Rightarrow> string \<Rightarrow> bool" where
  "specifier_becomes pf worker_url engine_origin bare st st' w w' \<longleftrightarrow>
     (case specifier_url pf worker_url bare w of
        None \<Rightarrow> w' = w
      | Some (u, v) \<Rightarrow>
          if passthrough engine_origin u then w' = v
          else w' = v \<and> (is_engine_path st (url_pathname u) \<or> is_engine_path st' (url_pathname u))
            \<or> decode_path st' w' = Some (url_href u) \<and> (\<forall>q \<in> {DQUOTE, SQUOTE}. literal_body q w'))"

lemma route_becomes:
  assumes "codec_wf st" "st' = snd (set_scheme st scheme)"
    and "\<forall>s u. new_url pf s = Some u \<longrightarrow> is_http_url u \<longrightarrow> http_shaped (url_href u)"
    and "\<forall>s b u. new_url_base pf s b = Some u \<longrightarrow> is_http_url u \<longrightarrow> http_shaped (url_href u)"
    and env: "env \<in> {st, st'}"
  shows "specifier_becomes pf worker_url engine_origin bare st st' w
    (fst (route_module_specifier pf scheme worker_url engine_origin bare env w))"
proof (cases "specifier_url pf worker_url bare w")
  case (Some y)
  then obtain u v where u: "specifier_url pf worker_url bare w = Some (u, v)" by (cases y) blast
  show ?thesis
  proof (cases "passthrough engine_origin u \<or> is_engine_path env (url_pathname u)")
    case True
    then have "fst (route_module_specifier pf scheme worker_url engine_origin bare env w) = v"
      using u by (simp add: route_module_specifier_alt route_abs_def)
    then show ?thesis using True u env by (auto simp: specifier_becomes_def)
  next
    case False
    have wf: "codec_wf st'" using codec_wf_set_scheme assms(1,2) by simp
    have e: "fst (route_module_specifier pf scheme worker_url engine_origin bare env w) = encode_dest st' (url_href u)"
      using False u route_states(1) [OF assms(2) env] by (simp add: route_module_specifier_alt route_abs_def Let_def)
    have "http_shaped (url_href u)" using u False assms(3,4)
      by (auto simp: specifier_url_def passthrough_def split: if_splits option.splits)
    then show ?thesis using route_roundtrip [OF wf, of "url_href u" "[]"] route_body [OF wf] False
      unfolding e specifier_becomes_def by (simp add: u)
  qed
qed (simp add: specifier_becomes_def route_module_specifier_alt)

text \<open>C17. The pass leaves every token of a module as it is - code, strings, comments, templates and regular expressions - but the specifiers, and each of these becomes, as it is written: itself, when it names no URL; the text of its URL, when that passes through or is under an engine prefix already; and otherwise a route of the live prefix that decodes to the URL and cannot end the string it stands in.\<close>

theorem module_imports_exact:
  assumes "codec_wf st" "st' = snd (set_scheme st scheme)"
    and "\<forall>s u. new_url pf s = Some u \<longrightarrow> is_http_url u \<longrightarrow> http_shaped (url_href u)"
    and "\<forall>s b u. new_url_base pf s b = Some u \<longrightarrow> is_http_url u \<longrightarrow> http_shaped (url_href u)"
  shows "\<exists>ts ts'. (\<forall>us. lexed (CHR '';'', []) us src \<longleftrightarrow> us = ts)
    \<and> rerouted (specifier_becomes pf worker_url engine_origin bare st st') (CHR '';'') ts ts'
    \<and> rewrite_module_imports (route_module_specifier pf scheme worker_url engine_origin bare) st src = tokens_text ts'"
proof -
  let ?route = "route_module_specifier pf scheme worker_url engine_origin bare"
  obtain ts ts' where ts: "\<forall>us. lexed (CHR '';'', []) us src \<longleftrightarrow> us = ts"
    "rerouted (routed_in (\<lambda>e. e \<in> {st, st'}) ?route) (CHR '';'') ts ts'" "rewrite_module_imports ?route st src = tokens_text ts'"
    using rewrite_tokens [of "\<lambda>e. e \<in> {st, st'}" ?route st src, OF route_states(2) [OF assms(2)]] by blast
  have "rerouted (specifier_becomes pf worker_url engine_origin bare st st') (CHR '';'') ts ts'"
    by (rule rerouted_mono [OF ts(2)]) (use route_becomes [OF assms] in \<open>auto simp: routed_in_def\<close>)
  then show ?thesis using ts(1,3) by blast
qed

section \<open>Concrete modules\<close>

definition demo_module_url :: "string \<Rightarrow> string \<Rightarrow> url" where
  "demo_module_url p tail = \<lparr>url_href = ''https://h'' @ p @ tail, url_protocol = ''https:'', url_origin = ''https://h'', url_host = ''h'',
     url_hostname = ''h'', url_pathname = p @ tail, url_search = [], url_hash = []\<rparr>"

definition demo_modules :: platform where
  "demo_modules =
     \<lparr>new_url = (\<lambda>s. if starts_with s ''https://h/'' then Some (demo_module_url [] (drop 9 s)) else None),
      new_url_base = (\<lambda>s b. if starts_with s ''./'' then Some (demo_module_url ''/'' (drop 2 s)) else None),
      with_pathname = (\<lambda>u p. u), psl_domain = (\<lambda>_. None), psl_suffix = (\<lambda>_. None)\<rparr>"

lemmas module_eval = rewrite_module_imports_def module_scan.simps scan_step_def scan_word_def scan_slash_def after_value_def
  plain_word_def find_specifier_def peek_specifier_quote_def is_id_part_def is_id_start_def is_alnum_def is_digit_def
  is_code_space_def scanned_def Let_def route_module_specifier_def is_bare_specifier_def has_scheme_def truthy_def
  demo_modules_def demo_module_url_def route_abs_def passthrough_def is_http_url_def is_engine_path_def

lemma demo_rewrite:
  "rewrite_module_imports (route_module_specifier demo_modules ''/j/'' ''https://h/m.js'' ''https://e'' (\<lambda>_. None)) initial_codec
     (''import'' @ DQUOTE # ''./a'' @ [DQUOTE])
   = ''import'' @ DQUOTE # encode_dest initial_codec ''https://h/a'' @ [DQUOTE]"
  by (simp add: module_eval initial_codec_def set_scheme_def)


definition demo_tokens :: "token list" where
  "demo_tokens = [Str DQUOTE (''import'' @ SQUOTE # ''./a'' @ [SQUOTE]), Punct (CHR '';''), Word ''import'', Str DQUOTE ''./a'']"

lemma demo_lexed: "lexed (CHR '';'', []) demo_tokens (tokens_text demo_tokens)"
  by (simp add: demo_tokens_def is_code_space_def is_id_start_def is_id_part_def is_alnum_def is_digit_def)

lemma demo_rewrite_tokens:
  "rewrite_module_imports (route_module_specifier demo_modules ''/j/'' ''https://h/m.js'' ''https://e'' (\<lambda>_. None)) initial_codec
     (tokens_text demo_tokens)
   = DQUOTE # ''import'' @ SQUOTE # ''./a'' @ SQUOTE # DQUOTE # '';import'' @ DQUOTE # encode_dest initial_codec ''https://h/a'' @ [DQUOTE]"
  by (simp add: demo_tokens_def module_eval initial_codec_def set_scheme_def)

theorem module_imports_exact_witness:
  "\<exists>ts'. rerouted (specifier_becomes demo_modules ''https://h/m.js'' ''https://e'' (\<lambda>_. None) initial_codec (snd (set_scheme initial_codec ''/j/'')))
      (CHR '';'') demo_tokens ts'
    \<and> tokens_text ts' = DQUOTE # ''import'' @ SQUOTE # ''./a'' @ SQUOTE # DQUOTE # '';import'' @ DQUOTE # encode_dest initial_codec ''https://h/a'' @ [DQUOTE]"
proof -
  have 1: "\<forall>s u. new_url demo_modules s = Some u \<longrightarrow> is_http_url u \<longrightarrow> http_shaped (url_href u)"
    and 2: "\<forall>s b u. new_url_base demo_modules s b = Some u \<longrightarrow> is_http_url u \<longrightarrow> http_shaped (url_href u)"
    by (auto simp: demo_modules_def demo_module_url_def http_shaped_def)
  obtain ts ts' where ts: "\<forall>us. lexed (CHR '';'', []) us (tokens_text demo_tokens) \<longleftrightarrow> us = ts"
    "rerouted (specifier_becomes demo_modules ''https://h/m.js'' ''https://e'' (\<lambda>_. None) initial_codec (snd (set_scheme initial_codec ''/j/''))) (CHR '';'') ts ts'"
    "rewrite_module_imports (route_module_specifier demo_modules ''/j/'' ''https://h/m.js'' ''https://e'' (\<lambda>_. None)) initial_codec (tokens_text demo_tokens) = tokens_text ts'"
    using module_imports_exact [OF codec_wf_initial refl 1 2] by blast
  moreover have "demo_tokens = ts" using ts(1) demo_lexed by blast
  ultimately show ?thesis unfolding demo_rewrite_tokens by metis
qed

text \<open>
  A mapped target that stays as it is may hold a quote, which ends the literal early: the rewritten
  module no longer parses.
\<close>

lemma mapped_target_breaks_literal:
  "let mapped = ''https://h/j/a'' @ SQUOTE # ''b'' in
   rewrite_module_imports (route_module_specifier demo_modules ''/j/'' ''https://h/m.js'' ''https://e'' (\<lambda>_. Some mapped)) initial_codec
     (''import'' @ SQUOTE # ''x'' @ [SQUOTE])
   = ''import'' @ SQUOTE # mapped @ [SQUOTE]
   \<and> \<not> literal_body SQUOTE mapped"
  by (simp add: module_eval initial_codec_def set_scheme_def)

end
