(* ===== verification/VirtualOrigin.thy ===== *)
theory VirtualOrigin
  imports NavHandles
begin

text \<open>
  Whose request it is: the map of client contexts (\<open>src/app/src/vctx.ts\<close>), the origin of a page that sends
  the worker a message, and the headers a browser would send for the virtual page
  (\<open>src/app/src/origin.ts\<close>). The map of contexts is an insertion-ordered map; the decoder of client URLs
  is that of \<open>NavHandles\<close>.
\<close>

section \<open>Client contexts\<close>

datatype client_kind = WindowClient | WorkerClient | SharedWorkerClient

record virtual_context =
  vc_id :: string
  vc_origin :: string
  vc_url :: string
  vc_kind :: client_kind
  vc_main :: bool

type_synonym contexts = "(string, virtual_context) omap"

definition VCTX_CAP :: nat where "VCTX_CAP = 256"

definition establish_context ::
  "url_parser \<Rightarrow> string \<Rightarrow> string \<Rightarrow> client_kind \<Rightarrow> bool \<Rightarrow> contexts \<Rightarrow> virtual_context option \<times> contexts" where
  "establish_context pu client target kind main m =
     (case pu target of
        None \<Rightarrow> (None, m)
      | Some u \<Rightarrow>
          if url_protocol u \<noteq> ''http:'' \<and> url_protocol u \<noteq> ''https:'' then (None, m)
          else let ctx = \<lparr>vc_id = client, vc_origin = url_origin u, vc_url = target, vc_kind = kind, vc_main = main\<rparr>
               in (Some ctx, AList.update client ctx m))"

definition context_of :: "string option \<Rightarrow> contexts \<Rightarrow> virtual_context option" where
  "context_of client m = (case truthy client of Some c \<Rightarrow> map_of m c | None \<Rightarrow> None)"

definition resolve_relative :: "platform \<Rightarrow> string option \<Rightarrow> string \<Rightarrow> contexts \<Rightarrow> string option" where
  "resolve_relative pf client path m =
     (case context_of client m of
        None \<Rightarrow> None
      | Some ctx \<Rightarrow> map_option url_href (new_url_base pf path (vc_url ctx)))"

definition cap_contexts :: "nat \<Rightarrow> contexts \<Rightarrow> contexts" where
  "cap_contexts n m = (if n = 0 \<or> length m \<le> n then m else drop (length m - n) m)"

definition establish_from_client_url ::
  "url_parser \<Rightarrow> (url \<Rightarrow> string option) \<Rightarrow> string \<Rightarrow> string \<Rightarrow> bool \<Rightarrow> contexts \<Rightarrow> virtual_context option \<times> contexts" where
  "establish_from_client_url pu decode client client_url main m =
     (case pu client_url of
        None \<Rightarrow> (None, m)
      | Some u \<Rightarrow>
          (case truthy (decode u) of
             None \<Rightarrow> (None, m)
           | Some target \<Rightarrow> establish_context pu client target WindowClient main m))"

text \<open>The request handler caps the map after every context it installs.\<close>

datatype context_event = Serve string string client_kind bool | Rehydrate string string bool

fun context_step :: "url_parser \<Rightarrow> (url \<Rightarrow> string option) \<Rightarrow> context_event \<Rightarrow> contexts \<Rightarrow> contexts" where
  "context_step pu decode (Serve client target kind main) m =
     (case establish_context pu client target kind main m of
        (Some _, m') \<Rightarrow> cap_contexts VCTX_CAP m' | (None, m') \<Rightarrow> m')"
| "context_step pu decode (Rehydrate client client_url main) m =
     (case establish_from_client_url pu decode client client_url main m of
        (Some _, m') \<Rightarrow> cap_contexts VCTX_CAP m' | (None, m') \<Rightarrow> m')"

section \<open>Virtual origin headers\<close>

definition strip_last_dot :: "string \<Rightarrow> string" where
  "strip_last_dot s = (if ends_with s ''.'' then butlast s else s)"

definition same_site_hosts :: "string \<Rightarrow> string \<Rightarrow> bool" where
  "same_site_hosts a b =
     (let a = strip_last_dot a; b = strip_last_dot b
      in a = b \<or> ends_with a (''.'' @ b) \<or> ends_with b (''.'' @ a))"

datatype fetch_site = SameOrigin | SameSiteOnly | CrossSite | SiteNone

record origin_headers =
  oh_origin :: "string option"
  oh_site :: "fetch_site option"

definition virtual_origin_headers :: "url_parser \<Rightarrow> string option \<Rightarrow> string \<Rightarrow> string \<Rightarrow> string \<Rightarrow> origin_headers" where
  "virtual_origin_headers pu initiator target meth mode =
     (case truthy initiator of
        None \<Rightarrow> \<lparr>oh_origin = None, oh_site = None\<rparr>
      | Some i \<Rightarrow>
          (case (pu target, pu i) of
             (Some ti, Some ii) \<Rightarrow>
               if \<not> is_http_url ti \<or> \<not> is_http_url ii then \<lparr>oh_origin = None, oh_site = None\<rparr>
               else \<lparr>oh_origin = (if (meth \<noteq> ''GET'' \<and> meth \<noteq> ''HEAD'') \<or> mode = ''cors'' then Some (url_origin ii) else None),
                     oh_site = Some (if url_origin ii = url_origin ti then SameOrigin
                                     else if same_site_hosts (url_hostname ii) (url_hostname ti) then SameSiteOnly else CrossSite)\<rparr>
           | _ \<Rightarrow> \<lparr>oh_origin = None, oh_site = None\<rparr>))"

definition sender_virtual_origin ::
  "platform \<Rightarrow> codec \<Rightarrow> int \<Rightarrow> string option \<Rightarrow> string \<Rightarrow> string option" where
  "sender_virtual_origin pf st now client_url engine_origin =
     (case truthy client_url of
        None \<Rightarrow> None
      | Some s \<Rightarrow>
          (case new_url_base pf s engine_origin of
             None \<Rightarrow> None
           | Some cu \<Rightarrow>
               if url_origin cu \<noteq> engine_origin then None
               else case truthy (case decode_client_url pf st now cu of Some d \<Rightarrow> Some d | None \<Rightarrow> recover_path st (url_pathname cu)) of
                 None \<Rightarrow> None
               | Some raw \<Rightarrow>
                   (case new_url pf (unwrap_dest (new_url pf) st raw) of
                      None \<Rightarrow> None
                    | Some du \<Rightarrow> if is_http_url du then Some (url_origin du) else None)))"

definition virtual_referer_fallback :: "url_parser \<Rightarrow> string option \<Rightarrow> string option" where
  "virtual_referer_fallback pu initiator =
     (case truthy initiator of
        None \<Rightarrow> None
      | Some i \<Rightarrow>
          (case pu i of None \<Rightarrow> None | Some ii \<Rightarrow> if is_http_url ii then Some (url_origin ii @ ''/'') else None))"

record sec_fetch =
  sf_site :: "fetch_site option"
  sf_mode :: string
  sf_dest :: string
  sf_user :: bool
  sf_upgrade :: bool

definition sec_fetch_headers ::
  "url_parser \<Rightarrow> string option \<Rightarrow> string \<Rightarrow> string \<Rightarrow> string \<Rightarrow> string \<Rightarrow> bool \<Rightarrow> sec_fetch" where
  "sec_fetch_headers pu initiator target meth mode destination main =
     (let site = oh_site (virtual_origin_headers pu initiator target meth mode);
          dest = (if destination = [] then ''empty'' else js_lower destination)
      in if mode = ''navigate'' then
           (if site = None then
              \<lparr>sf_site = Some SiteNone, sf_mode = ''navigate'', sf_dest = ''document'', sf_user = True, sf_upgrade = True\<rparr>
            else if main then
              \<lparr>sf_site = site, sf_mode = ''navigate'', sf_dest = ''document'', sf_user = False, sf_upgrade = True\<rparr>
            else
              \<lparr>sf_site = site, sf_mode = ''navigate'', sf_dest = (if dest = ''empty'' then ''document'' else dest),
               sf_user = False, sf_upgrade = True\<rparr>)
         else \<lparr>sf_site = site, sf_mode = mode, sf_dest = dest, sf_user = False, sf_upgrade = False\<rparr>)"

definition PROXY_INJECTED_HEADERS :: "string list" where
  "PROXY_INJECTED_HEADERS = [''x-forwarded-for'', ''x-forwarded-proto'', ''x-forwarded-host'', ''x-forwarded-port'',
     ''x-forwarded-server'', ''x-forwarded-cluster'', ''x-real-ip'']"

text \<open>\<open>Math.max(0.1, 1 - 0.1 * i).toFixed(1)\<close>\<close>

definition language_weight :: "nat \<Rightarrow> string" where
  "language_weight i = ''0.'' @ nat_digits (if i < 10 then 10 - i else 1)"

definition accept_language_value :: "string list \<Rightarrow> string" where
  "accept_language_value ls =
     join_with '','' (map (\<lambda>i. if i = 0 then ls ! i else ls ! i @ '';q='' @ language_weight i) [0..<length ls])"

section \<open>Contexts follow the latest document\<close>

definition installs :: "url_parser \<Rightarrow> (url \<Rightarrow> string option) \<Rightarrow> context_event \<Rightarrow> virtual_context option" where
  "installs pu decode ev =
     (case ev of
        Serve client target kind main \<Rightarrow> fst (establish_context pu client target kind main [])
      | Rehydrate client client_url main \<Rightarrow> fst (establish_from_client_url pu decode client client_url main []))"

lemma establish_context_cases:
  "establish_context pu client target kind main m = (None, m) \<and> establish_context pu client target kind main [] = (None, [])
    \<or> (\<exists>ctx. vc_id ctx = client \<and> establish_context pu client target kind main m = (Some ctx, AList.update client ctx m)
        \<and> establish_context pu client target kind main [] = (Some ctx, AList.update client ctx []))"
  by (auto simp: establish_context_def Let_def split: option.splits)

lemma context_step_alt:
  "context_step pu decode ev m =
     (case installs pu decode ev of None \<Rightarrow> m | Some ctx \<Rightarrow> cap_contexts VCTX_CAP (AList.update (vc_id ctx) ctx m))"
proof (cases ev)
  case (Serve client target kind main)
  show ?thesis using establish_context_cases [of pu client target kind main m] Serve by (auto simp: installs_def)
next
  case (Rehydrate client client_url main)
  show ?thesis
  proof (cases "\<exists>u target. pu client_url = Some u \<and> truthy (decode u) = Some target")
    case True
    then obtain u target where "pu client_url = Some u" "truthy (decode u) = Some target" by blast
    then show ?thesis using establish_context_cases [of pu client target WindowClient main m] Rehydrate
      by (auto simp: installs_def establish_from_client_url_def)
  next
    case False
    then show ?thesis using Rehydrate by (auto simp: installs_def establish_from_client_url_def split: option.splits)
  qed
qed

lemma cap_contexts_wf: "omap_wf m \<Longrightarrow> omap_wf (cap_contexts n m)"
  by (auto simp: cap_contexts_def omap_wf_def drop_map [symmetric])

lemma cap_contexts_sub: "omap_wf m \<Longrightarrow> map_of (cap_contexts n m) k = Some v \<Longrightarrow> map_of m k = Some v"
  by (auto simp: cap_contexts_def omap_wf_def map_of_eq_Some_iff drop_map [symmetric] dest: in_set_dropD split: if_splits)

interpretation context_registry: bounded_registry "context_step pu decode" id VCTX_CAP
proof
  fix s :: contexts and x
  assume "omap_wf (id s)"
  then show "omap_wf (id (context_step pu decode x s))" by (simp add: context_step_alt cap_contexts_wf split: option.splits)
next
  fix s :: contexts and x
  assume "omap_wf (id s)" "length (id s) \<le> VCTX_CAP"
  then show "length (id (context_step pu decode x s)) \<le> VCTX_CAP"
    by (auto simp: context_step_alt cap_contexts_def VCTX_CAP_def split: option.splits)
qed

lemma update_new_last: "k \<notin> fst ` set m \<Longrightarrow> AList.update k v m = m @ [(k, v)]"
  by (induction m) auto

lemma installed_present:
  assumes "omap_wf m" "length m \<le> VCTX_CAP"
  shows "map_of (cap_contexts VCTX_CAP (AList.update k v m)) k = Some v"
proof (cases "length (AList.update k v m) \<le> VCTX_CAP")
  case True
  then show ?thesis by (simp add: cap_contexts_def update_conv)
next
  case False
  have new: "k \<notin> fst ` set m"
  proof
    assume "k \<in> fst ` set m"
    then have "length (AList.update k v m) = length m" by (induction m) auto
    then show False using False assms(2) by simp
  qed
  then have eq: "AList.update k v m = m @ [(k, v)]" by (rule update_new_last)
  then have len: "length m = VCTX_CAP" using False assms(2) by simp
  have "map_of (drop 1 m) k = None" using new by (auto simp: map_of_eq_None_iff dest: in_set_dropD)
  moreover have "cap_contexts VCTX_CAP (AList.update k v m) = drop 1 m @ [(k, v)]"
    using len unfolding eq cap_contexts_def by (simp add: VCTX_CAP_def)
  ultimately show ?thesis by (simp add: map_add_def)
qed

text \<open>Whatever documents and recoveries happen, at most 256 contexts are kept, each client's context is that of the last document installed for that very client, and the client installed last always has its context.\<close>

theorem contexts_current:
  assumes "m = fold (context_step pu decode) evs []"
  shows "length m \<le> 256
    \<and> (\<forall>client ctx. map_of m client = Some ctx \<longrightarrow>
         (\<exists>before. filter (\<lambda>x. vc_id x = client) (List.map_filter (installs pu decode) evs) = before @ [ctx]))
    \<and> (\<forall>before ctx. List.map_filter (installs pu decode) evs = before @ [ctx] \<longrightarrow> map_of m (vc_id ctx) = Some ctx)"
  using assms
proof (induction evs arbitrary: m rule: rev_induct)
  case (snoc ev evs)
  let ?m = "fold (context_step pu decode) evs []"
  have ok: "omap_wf ?m" "length ?m \<le> VCTX_CAP" using context_registry.steps_bounded [of "[]" pu decode evs] by simp_all
  note ih = snoc.IH [OF refl]
  show ?case
  proof (cases "installs pu decode ev")
    case None
    then have "m = ?m" "List.map_filter (installs pu decode) (evs @ [ev]) = List.map_filter (installs pu decode) evs"
      using snoc.prems by (simp_all add: context_step_alt [of pu decode ev] List.map_filter_def)
    then show ?thesis using ih by simp
  next
    case (Some ctx)
    then have m: "m = cap_contexts VCTX_CAP (AList.update (vc_id ctx) ctx ?m)"
      and h: "List.map_filter (installs pu decode) (evs @ [ev]) = List.map_filter (installs pu decode) evs @ [ctx]"
      using snoc.prems by (simp_all add: context_step_alt [of pu decode ev] List.map_filter_def)
    have "length m \<le> 256" unfolding m by (simp add: cap_contexts_def VCTX_CAP_def)
    moreover have "\<exists>before. filter (\<lambda>x. vc_id x = client) (List.map_filter (installs pu decode) (evs @ [ev])) = before @ [c]"
      if "map_of m client = Some c" for client c
    proof -
      have "map_of (AList.update (vc_id ctx) ctx ?m) client = Some c"
        using cap_contexts_sub [of "AList.update (vc_id ctx) ctx ?m" VCTX_CAP client c] ok(1) that unfolding m by simp
      then have "client = vc_id ctx \<and> c = ctx \<or> client \<noteq> vc_id ctx \<and> map_of ?m client = Some c" by (auto simp: update_conv split: if_splits)
      then show ?thesis using ih unfolding h by auto
    qed
    moreover have "map_of m (vc_id ctx) = Some ctx" unfolding m by (rule installed_present [OF ok])
    ultimately show ?thesis unfolding h by blast
  qed
qed (simp add: List.map_filter_def)

section \<open>Routes and contexts\<close>

lemma starts_with_before: "starts_with (s @ c # r) (p @ x) \<Longrightarrow> c \<notin> set p \<Longrightarrow> starts_with s p"
proof (induction p arbitrary: s)
  case (Cons a p)
  then show ?case by (cases s) auto
qed simp

lemma encoded_path_shape:
  assumes "codec_wf st"
  shows "is_engine_path st (encode_dest st d) \<and> \<not> starts_with (encode_dest st d) ''/__zl_nav__/'' \<and> \<not> starts_with (encode_dest st d) (NAVH @ ''/'')"
proof -
  obtain seg where p: "prefix st = ''/'' @ seg @ ''/''" "\<not> starts_with seg ''__zl''"
    using assms valid_prefix_cases by (metis codec_wf_def)
  obtain rest where e: "encode_dest st d = prefix st @ rest" unfolding encode_dest_def encode_dest_legacy_def by (cases "route_key st") auto
  have "\<not> starts_with (prefix st @ rest) (''/__zl'' @ x)" for x
  proof
    assume "starts_with (prefix st @ rest) (''/__zl'' @ x)"
    then have s: "starts_with (seg @ CHR ''/'' # rest) (''__zl'' @ x)" using p(1) by simp
    have "starts_with seg ''__zl''" by (rule starts_with_before [OF s]) simp
    then show False using p(2) by simp
  qed
  from this [of "''_nav__/''"] this [of "''_navh__/''"] show ?thesis unfolding e by (simp add: is_engine_path_def NAVH_def)
qed

lemma route_decodes_client:
  assumes "codec_wf st" "http_shaped t" "url_pathname u = encode_dest st t" "url_search u = []" "url_hash u = []"
  shows "decode_client_url pf st now u = Some t"
proof -
  have q: "decode_query_handle pf st now u = None"
    using encoded_path_shape [OF assms(1)] assms(3) by (simp add: decode_query_handle_def query_handle_path_shaped_def)
  have "decode_path st (encode_dest st t) = Some t" using route_roundtrip [OF assms(1,2), of "[]"] by simp
  then show ?thesis
    using encoded_path_shape [OF assms(1), of t] assms(3,4,5) q
    by (simp add: decode_client_url_def decode_client_url_no_hash_def)
qed


text \<open>C18. After a restart of the worker a client is given back its context from its committed address: where that address is the plain route of its document, the recovered context resolves every path as the lost one did.\<close>

theorem restart_restores_context:
  assumes "codec_wf st" "http_shaped target" "new_url pf client_url = Some cu"
    and "url_pathname cu = encode_dest st target" "url_search cu = []" "url_hash cu = []"
    and "m1 = context_step (new_url pf) decode (Serve client target WindowClient main) (fold (context_step (new_url pf) decode) evs [])"
    and "m2 = context_step (new_url pf) (decode_client_url pf st now) (Rehydrate client client_url main) []"
    and "mintable_dest (new_url pf) target" "client \<noteq> []"
  shows "context_of (Some client) m2 = context_of (Some client) m1 \<and> context_of (Some client) m1 \<noteq> None
    \<and> resolve_relative pf (Some client) path m2 = resolve_relative pf (Some client) path m1"
proof -
  let ?decode = "decode_client_url pf st now"
  have d: "?decode cu = Some target" by (rule route_decodes_client [OF assms(1,2,4,5,6)])
  have t: "truthy (Some target) = Some target" using assms(2) http_shaped_nonempty by (simp add: truthy_def)
  obtain ctx where ctx: "installs (new_url pf) decode (Serve client target WindowClient main) = Some ctx" "vc_id ctx = client"
    using assms(9) by (auto simp: installs_def establish_context_def mintable_dest_def Let_def split: option.splits)
  have r: "installs (new_url pf) ?decode (Rehydrate client client_url main) = Some ctx"
    using ctx(1) assms(3) d t by (simp add: installs_def establish_from_client_url_def)
  have ok: "omap_wf (fold (context_step (new_url pf) decode) evs [])" "length (fold (context_step (new_url pf) decode) evs []) \<le> VCTX_CAP"
    using context_registry.steps_bounded [of "[]" "new_url pf" decode evs] by simp_all
  have 1: "map_of m1 client = Some ctx"
    unfolding assms(7) context_step_alt [of "new_url pf" decode "Serve client target WindowClient main"] ctx(1) using installed_present [OF ok, of client ctx] ctx(2) by simp
  have 2: "map_of m2 client = Some ctx"
    unfolding assms(8) context_step_alt r using installed_present [of "[]" client ctx] ctx(2) by simp
  have "context_of (Some client) m1 = Some ctx" "context_of (Some client) m2 = Some ctx"
    using 1 2 assms(10) by (simp_all add: context_of_def truthy_def)
  then show ?thesis by (simp add: resolve_relative_def)
qed

text \<open>C19. A page that talks to the worker from the plain route of its document - an address minted by encodeDest, not a handle or a directory route, without query or fragment, for an http(s) document whose own path is no engine path - acts for the origin of that document when the address is on the engine's origin; from any other origin it acts for none.\<close>

theorem sender_origin_exact:
  assumes "codec_wf st" "http_shaped target" "new_url_base pf client_url engine = Some cu" "client_url \<noteq> []"
    and "url_pathname cu = encode_dest st target" "url_search cu = []" "url_hash cu = []"
    and "new_url pf target = Some du" "is_http_url du" "\<not> is_engine_path st (url_pathname du)"
  shows "sender_virtual_origin pf st now (Some client_url) engine = (if url_origin cu = engine then Some (url_origin du) else None)"
proof -
  have d: "decode_client_url pf st now cu = Some target" by (rule route_decodes_client [OF assms(1,2,5,6,7)])
  have "unwrap_hops (new_url pf) st 8 target = target"
    using unwrap_hops.simps(2) [of "new_url pf" st 7 target] assms(8,10) by simp
  then have w: "unwrap_dest (new_url pf) st target = target" by (simp add: unwrap_dest_def)
  have "truthy (Some target) = Some target" using assms(2) http_shaped_nonempty by (simp add: truthy_def)
  then show ?thesis using assms(3,4,8,9) d w by (simp add: sender_virtual_origin_def truthy_def)
qed

section \<open>The headers of a virtual request\<close>

text \<open>The headers never name the engine: an origin is sent only for a known http(s) initiator, as its own, on every method but GET and HEAD and on every CORS request; a site label is missing exactly when the initiator or the target is unknown, and the full set claims user activation only with the site none of a typed navigation, which always loads a document.\<close>

theorem virtual_headers_consistent:
  "(oh_origin (virtual_origin_headers pu i target meth mode) = Some orig \<longleftrightarrow>
      (\<exists>s ii ti. truthy i = Some s \<and> pu s = Some ii \<and> pu target = Some ti \<and> is_http_url ii \<and> is_http_url ti \<and> orig = url_origin ii
        \<and> (meth \<noteq> ''GET'' \<and> meth \<noteq> ''HEAD'' \<or> mode = ''cors'')))
    \<and> (oh_site (virtual_origin_headers pu i target meth mode) = None \<longleftrightarrow>
      \<not> (\<exists>s ii ti. truthy i = Some s \<and> pu s = Some ii \<and> pu target = Some ti \<and> is_http_url ii \<and> is_http_url ti))
    \<and> (let sf = sec_fetch_headers pu i target meth mode dest main in
        (sf_user sf \<longleftrightarrow> sf_site sf = Some SiteNone) \<and> (sf_upgrade sf \<longleftrightarrow> mode = ''navigate'') \<and> sf_mode sf = mode
        \<and> (sf_site sf = Some SiteNone \<longleftrightarrow> mode = ''navigate'' \<and> oh_site (virtual_origin_headers pu i target meth mode) = None)
        \<and> (sf_site sf = Some SiteNone \<or> mode = ''navigate'' \<and> main \<longrightarrow> sf_dest sf = ''document''))"
proof -
  have s: "oh_site (virtual_origin_headers pu i target meth mode) \<noteq> Some SiteNone"
    by (auto simp: virtual_origin_headers_def split: option.splits)
  have 1: "oh_origin (virtual_origin_headers pu i target meth mode) = Some orig \<longleftrightarrow>
      (\<exists>s ii ti. truthy i = Some s \<and> pu s = Some ii \<and> pu target = Some ti \<and> is_http_url ii \<and> is_http_url ti \<and> orig = url_origin ii
        \<and> (meth \<noteq> ''GET'' \<and> meth \<noteq> ''HEAD'' \<or> mode = ''cors''))"
    by (auto simp: virtual_origin_headers_def split: option.splits)
  have 2: "oh_site (virtual_origin_headers pu i target meth mode) = None \<longleftrightarrow>
      \<not> (\<exists>s ii ti. truthy i = Some s \<and> pu s = Some ii \<and> pu target = Some ti \<and> is_http_url ii \<and> is_http_url ti)"
    by (auto simp: virtual_origin_headers_def split: option.splits)
  have 3: "let sf = sec_fetch_headers pu i target meth mode dest main in
        (sf_user sf \<longleftrightarrow> sf_site sf = Some SiteNone) \<and> (sf_upgrade sf \<longleftrightarrow> mode = ''navigate'') \<and> sf_mode sf = mode
        \<and> (sf_site sf = Some SiteNone \<longleftrightarrow> mode = ''navigate'' \<and> oh_site (virtual_origin_headers pu i target meth mode) = None)
        \<and> (sf_site sf = Some SiteNone \<or> mode = ''navigate'' \<and> main \<longrightarrow> sf_dest sf = ''document'')"
    using s by (cases "mode = ''navigate''"; cases "oh_site (virtual_origin_headers pu i target meth mode)"; cases main)
      (simp_all add: sec_fetch_headers_def Let_def)
  show ?thesis by (intro conjI 1 2 3)
qed

text \<open>
  Two subdomains of one site are labelled cross-site: neither is a suffix of the other.
\<close>

lemma siblings_cross_site:
  "\<not> same_site_hosts ''a.example.com'' ''b.example.com''"
  by (simp add: same_site_hosts_def Let_def strip_last_dot_def ends_with_def)

section \<open>A concrete client\<close>

definition demo_page :: url where
  "demo_page = \<lparr>url_href = ''https://h/a'', url_protocol = ''https:'', url_origin = ''https://h'', url_host = ''h'',
     url_hostname = ''h'', url_pathname = ''/a'', url_search = [], url_hash = []\<rparr>"

definition demo_client_page :: url where
  "demo_client_page = \<lparr>url_href = ''https://e/c'', url_protocol = ''https:'', url_origin = ''https://e'', url_host = ''e'',
     url_hostname = ''e'', url_pathname = encode_dest initial_codec ''https://h/a'', url_search = [], url_hash = []\<rparr>"

definition demo_clients :: platform where
  "demo_clients =
     \<lparr>new_url = (\<lambda>s. if s = ''https://h/a'' then Some demo_page else if s = ''https://e/c'' then Some demo_client_page else None),
      new_url_base = (\<lambda>s b. if s = ''https://e/c'' then Some demo_client_page else None),
      with_pathname = (\<lambda>u p. u), psl_domain = (\<lambda>_. None), psl_suffix = (\<lambda>_. None)\<rparr>"

theorem contexts_current_witness:
  "map_of (fold (context_step (new_url demo_clients) (\<lambda>_. None)) [Serve ''1'' ''https://h/a'' WindowClient True] []) ''1''
    = Some \<lparr>vc_id = ''1'', vc_origin = ''https://h'', vc_url = ''https://h/a'', vc_kind = WindowClient, vc_main = True\<rparr>"
proof -
  have "List.map_filter (installs (new_url demo_clients) (\<lambda>_. None)) [Serve ''1'' ''https://h/a'' WindowClient True]
      = [] @ [\<lparr>vc_id = ''1'', vc_origin = ''https://h'', vc_url = ''https://h/a'', vc_kind = WindowClient, vc_main = True\<rparr>]"
    by (simp add: List.map_filter_def installs_def establish_context_def Let_def demo_clients_def demo_page_def)
  with contexts_current [OF refl, of "new_url demo_clients" "\<lambda>_. None" "[Serve ''1'' ''https://h/a'' WindowClient True]"]
  show ?thesis by fastforce
qed

theorem restart_restores_context_witness:
  "context_of (Some ''1'') (context_step (new_url demo_clients) (decode_client_url demo_clients initial_codec 0) (Rehydrate ''1'' ''https://e/c'' True) []) \<noteq> None"
proof -
  have h: "http_shaped ''https://h/a''" "new_url demo_clients ''https://e/c'' = Some demo_client_page"
    "url_pathname demo_client_page = encode_dest initial_codec ''https://h/a''" "url_search demo_client_page = []" "url_hash demo_client_page = []"
    "mintable_dest (new_url demo_clients) ''https://h/a''" "''1'' \<noteq> []"
    by (simp_all add: http_shaped_def demo_clients_def demo_client_page_def mintable_dest_def demo_page_def)
  from restart_restores_context [OF codec_wf_initial h(1-5) refl refl h(6,7), where decode = "\<lambda>_. None" and evs = "[]" and now = 0 and main = True and path = "''b''"]
  show ?thesis by auto
qed

theorem sender_origin_exact_witness:
  "sender_virtual_origin demo_clients initial_codec 0 (Some ''https://e/c'') ''https://e'' = Some ''https://h''"
proof -
  have h: "http_shaped ''https://h/a''" "new_url_base demo_clients ''https://e/c'' ''https://e'' = Some demo_client_page" "''https://e/c'' \<noteq> []"
    "url_pathname demo_client_page = encode_dest initial_codec ''https://h/a''" "url_search demo_client_page = []" "url_hash demo_client_page = []"
    "new_url demo_clients ''https://h/a'' = Some demo_page" "is_http_url demo_page" "\<not> is_engine_path initial_codec (url_pathname demo_page)"
    by (simp_all add: http_shaped_def demo_clients_def demo_client_page_def demo_page_def is_http_url_def is_engine_path_def initial_codec_def)
  from sender_origin_exact [OF codec_wf_initial h, of 0] show ?thesis by (simp add: demo_client_page_def demo_page_def)
qed

end
