(* ===== verification/ExtCookies.thy ===== *)
theory ExtCookies
  imports CookieIsolation ExtPermissions
begin

text \<open>
  \<open>browser.cookies\<close> over the jar (\<open>src/app/src/extensions/cookies.ts\<close>): the permission gate, the reads, the
  write through the seam of \<open>document.cookie\<close>, the removal of identities and the change events. An
  extension is what the bridge reads of its record, a \<open>permission_gate\<close>; the details of a call are a JSON
  value; a call reads the clock once. \<open>None\<close> as the result of a write is the TypeError of the admission.
\<close>

section \<open>Matching and views\<close>

definition api_domain_match :: "string \<Rightarrow> string \<Rightarrow> bool" where
  "api_domain_match host domain \<longleftrightarrow>
     host = domain \<or> (ends_with host (''.'' @ domain) \<and> \<not> looks_like_ip host)"

definition api_path_match :: "string \<Rightarrow> string \<Rightarrow> bool" where
  "api_path_match req cp \<longleftrightarrow>
     cp = ''/'' \<or> req = cp \<or>
     (starts_with req cp \<and> (ends_with cp ''/'' \<or> (length cp < length req \<and> req ! length cp = CHR ''/'')))"

definition cookie_applies :: "cookie \<Rightarrow> parsed_url \<Rightarrow> int \<Rightarrow> bool" where
  "cookie_applies c f now \<longleftrightarrow>
     (if ck_expires c \<noteq> 0 \<and> ck_expires c \<le> now then False
      else if ck_secure c \<and> \<not> pu_secure f then False
      else if ck_host_only c then pu_host f = ck_domain c else api_domain_match (pu_host f) (ck_domain c))"

definition same_site_text :: "same_site \<Rightarrow> json" where
  "same_site_text s = (case s of Strict \<Rightarrow> JStr ''strict'' | Lax \<Rightarrow> JStr ''lax'' | SSNone \<Rightarrow> JStr ''none'' | SSOther j \<Rightarrow> j)"

text \<open>\<open>cv_expires\<close> is in milliseconds; the code divides by 1000.\<close>

record cookie_view =
  cv_name :: string
  cv_value :: string
  cv_domain :: string
  cv_host_only :: bool
  cv_path :: string
  cv_secure :: bool
  cv_http_only :: bool
  cv_same_site :: "json option"
  cv_expires :: "int option"
  cv_session :: bool

definition cookie_to_view :: "cookie \<Rightarrow> cookie_view" where
  "cookie_to_view c =
     \<lparr>cv_name = ck_name c, cv_value = ck_value c, cv_domain = ck_domain c, cv_host_only = ck_host_only c,
      cv_path = ck_path c, cv_secure = ck_secure c, cv_http_only = ck_http_only c,
      cv_same_site = (case ck_same_site c of
          None \<Rightarrow> None
        | Some s \<Rightarrow>
            if \<not> jtruthy (Some (same_site_text s)) then None
            else if same_site_text s = JStr ''none'' then Some (JStr ''no_restriction'') else Some (same_site_text s)),
      cv_expires = (if ck_expires c \<noteq> 0 then Some (ck_expires c) else None),
      cv_session = (ck_expires c = 0)\<rparr>"

definition active_origins :: "jar_state \<Rightarrow> (string \<times> cookie list) list" where
  "active_origins st =
     (case find pv_active (jar_default_enumeration st) of
        None \<Rightarrow> []
      | Some p \<Rightarrow> List.map_filter (\<lambda>v. map_option (\<lambda>s. (s, ov_cookies v)) (truthy (ov_origin v))) (pv_origins p))"

section \<open>The gate\<close>

datatype cookie_error =
  NoCookiesPermission | NoUrl | NotHttpUrl | NoHostPermission string | NoName | UncleanName | UncleanValue

definition str_of :: "json \<Rightarrow> string \<Rightarrow> string option" where
  "str_of d k = (case jget d k of Some (JStr s) \<Rightarrow> Some s | _ \<Rightarrow> None)"

definition cookie_gate :: "platform \<Rightarrow> permission_gate \<Rightarrow> json option \<Rightarrow> cookie_error + string \<times> parsed_url" where
  "cookie_gate pf ext url =
     (if ''cookies'' \<notin> set (pg_perms ext) then Inl NoCookiesPermission
      else case url of
        Some (JStr s) \<Rightarrow>
          (case parse_url pf s of
             None \<Rightarrow> Inl NotHttpUrl
           | Some f \<Rightarrow> if \<not> host_patterns_match (new_url pf) (pg_hosts ext) s then Inl (NoHostPermission s) else Inr (s, f))
      | _ \<Rightarrow> Inl NoUrl)"

section \<open>Reads\<close>

definition better_cookie :: "cookie \<Rightarrow> cookie \<Rightarrow> bool" where
  "better_cookie c best \<longleftrightarrow>
     length (ck_path best) < length (ck_path c) \<or> (length (ck_path c) = length (ck_path best) \<and> ck_created best < ck_created c)"

definition reaches :: "cookie \<Rightarrow> parsed_url \<Rightarrow> int \<Rightarrow> bool" where
  "reaches c f now \<longleftrightarrow> cookie_applies c f now \<and> api_path_match (pu_path f) (ck_path c)"

definition cookies_get :: "platform \<Rightarrow> int \<Rightarrow> permission_gate \<Rightarrow> json \<Rightarrow> jar_state \<Rightarrow> cookie_error + cookie_view option" where
  "cookies_get pf now ext d st =
     (case cookie_gate pf ext (jget d ''url'') of
        Inl e \<Rightarrow> Inl e
      | Inr (_, f) \<Rightarrow>
          (case truthy (str_of d ''name'') of
             None \<Rightarrow> Inl NoName
           | Some name \<Rightarrow>
               Inr (map_option cookie_to_view
                 (pick better_cookie (filter (\<lambda>c. ck_name c = name \<and> reaches c f now) (concat (map snd (active_origins st))))))))"

definition strip_dot :: "string \<Rightarrow> string" where
  "strip_dot s = (if starts_with s ''.'' then tl s else s)"

definition flag_filter :: "json \<Rightarrow> string \<Rightarrow> bool \<Rightarrow> bool" where
  "flag_filter d k b = (case jget d k of None \<Rightarrow> True | Some j \<Rightarrow> b = (j = JBool True))"

definition cookie_selected :: "json \<Rightarrow> cookie \<Rightarrow> bool" where
  "cookie_selected d c \<longleftrightarrow>
     (case truthy (str_of d ''name'') of Some n \<Rightarrow> ck_name c = n | None \<Rightarrow> True)
     \<and> (case truthy (map_option (\<lambda>s. js_lower (strip_dot s)) (str_of d ''domain'')) of
          Some dm \<Rightarrow> ck_domain c = dm \<or> ends_with (ck_domain c) (''.'' @ dm) | None \<Rightarrow> True)
     \<and> (case truthy (str_of d ''path'') of Some p \<Rightarrow> ck_path c = p | None \<Rightarrow> True)
     \<and> flag_filter d ''secure'' (ck_secure c) \<and> flag_filter d ''httpOnly'' (ck_http_only c)
     \<and> (case truthy (map_option (\<lambda>s. if s = ''no_restriction'' then ''none'' else s) (str_of d ''sameSite'')) of
          Some s \<Rightarrow> map_option same_site_text (ck_same_site c) = Some (JStr s) | None \<Rightarrow> True)"

definition cookies_get_all :: "platform \<Rightarrow> int \<Rightarrow> permission_gate \<Rightarrow> json \<Rightarrow> jar_state \<Rightarrow> cookie_error + cookie_view list" where
  "cookies_get_all pf now ext d st =
     (case str_of d ''url'' of
        Some _ \<Rightarrow>
          (case cookie_gate pf ext (jget d ''url'') of
             Inl e \<Rightarrow> Inl e
           | Inr (_, f) \<Rightarrow>
               Inr (map cookie_to_view (filter (\<lambda>c. reaches c f now \<and> cookie_selected d c) (concat (map snd (active_origins st))))))
      | None \<Rightarrow>
          Inr (map cookie_to_view
            (filter (\<lambda>c. \<not> (ck_expires c \<noteq> 0 \<and> ck_expires c \<le> now) \<and> cookie_selected d c)
              (concat (map snd (filter (\<lambda>(orig, _). host_patterns_match (new_url pf) (pg_hosts ext) orig) (active_origins st)))))))"

section \<open>Writes\<close>

definition set_text :: "json \<Rightarrow> string \<Rightarrow> string \<Rightarrow> string" where
  "set_text d name val =
     join_with ''; ''
       ([name @ ''='' @ val]
        @ (case truthy (str_of d ''domain'') of Some s \<Rightarrow> [''Domain='' @ strip_dot s] | None \<Rightarrow> [])
        @ [''Path='' @ (case str_of d ''path'' of Some p \<Rightarrow> if starts_with p ''/'' then p else ''/'' | None \<Rightarrow> ''/'')]
        @ (if jget d ''secure'' = Some (JBool True) then [''Secure''] else [])
        @ (if jget d ''sameSite'' = Some (JStr ''no_restriction'') then [''SameSite=None'']
           else if jget d ''sameSite'' = Some (JStr ''lax'') then [''SameSite=Lax'']
           else if jget d ''sameSite'' = Some (JStr ''strict'') then [''SameSite=Strict''] else [])
        @ (case jget d ''expirationDate'' of Some (JNum t) \<Rightarrow> if 0 < t then [''Expires='' @ to_utc_string (t * 1000)] else [] | _ \<Rightarrow> []))"

definition cookies_set ::
  "platform \<Rightarrow> codec \<Rightarrow> int \<Rightarrow> permission_gate \<Rightarrow> json \<Rightarrow> jar_state \<Rightarrow> ((cookie_error + cookie_view option) \<times> jar_state) option" where
  "cookies_set pf cd now ext d st =
     (case cookie_gate pf ext (jget d ''url'') of
        Inl e \<Rightarrow> Some (Inl e, st)
      | Inr (url, _) \<Rightarrow>
          (case truthy (str_of d ''name'') of
             None \<Rightarrow> Some (Inl UncleanName, st)
           | Some name \<Rightarrow>
               if list_ex (\<lambda>c. is_js_space c \<or> c = CHR '';'' \<or> c = CHR '','') name then Some (Inl UncleanName, st)
               else case str_of d ''value'' of
                 None \<Rightarrow> Some (Inl UncleanValue, st)
               | Some val \<Rightarrow>
                   if list_ex (\<lambda>c. c = CHR 0x0D \<or> c = CHR 0x0A \<or> c = CHR '';'') val then Some (Inl UncleanValue, st)
                   else case document_cookie_write pf cd now url (set_text d name val) None st of
                     None \<Rightarrow> None
                   | Some (r, st') \<Rightarrow>
                       if \<not> sr_stored r \<and> \<not> sr_deleted r then Some (Inr None, st')
                       else Some (cookies_get pf now ext (JObj [(''url'', JStr url), (''name'', JStr name)]) st', st')))"

text \<open>The identities are written into one text and read back from it.\<close>

definition identity_key :: "cookie \<Rightarrow> string" where
  "identity_key c = ck_domain c @ ''|'' @ (if ck_host_only c then ''1'' else ''0'') @ ''|'' @ ck_path c"

definition identity_of_key :: "string \<Rightarrow> string \<Rightarrow> string \<times> string \<times> bool \<times> string" where
  "identity_of_key name t =
     (case split_on (CHR ''|'') t of
        domain # host_only # p # _ \<Rightarrow> (name, domain, host_only = ''1'', p)
      | _ \<Rightarrow> (name, t, False, []))"

text \<open>A \<open>Set\<close> keeps the first of equal texts.\<close>

definition first_keys :: "'a list \<Rightarrow> 'a list" where
  "first_keys xs = rev (remdups (rev xs))"

definition removal_ids :: "parsed_url \<Rightarrow> string \<Rightarrow> int \<Rightarrow> jar_state \<Rightarrow> (string \<times> string \<times> bool \<times> string) list" where
  "removal_ids f name now st =
     map (identity_of_key name)
       (first_keys (map identity_key (filter (\<lambda>c. ck_name c = name \<and> reaches c f now) (concat (map snd (active_origins st))))))"

datatype change_cause = Explicit | Overwrite | ExpiredOverwrite

text \<open>What a change says of its cookie: a whole view, or the identity of a removed one.\<close>

datatype changed_cookie = ChangedView cookie_view | ChangedIdentity "string \<times> string \<times> bool \<times> string"

record cookie_change =
  cc_cause :: change_cause
  cc_removed :: bool
  cc_cookie :: changed_cookie

definition cookies_remove ::
  "platform \<Rightarrow> int \<Rightarrow> permission_gate \<Rightarrow> json \<Rightarrow> jar_state
    \<Rightarrow> (cookie_error + (string \<times> string) option) \<times> cookie_change list \<times> jar_state" where
  "cookies_remove pf now ext d st =
     (case cookie_gate pf ext (jget d ''url'') of
        Inl e \<Rightarrow> (Inl e, [], st)
      | Inr (url, f) \<Rightarrow>
          (case truthy (str_of d ''name'') of
             None \<Rightarrow> (Inl NoName, [], st)
           | Some name \<Rightarrow>
               let ids = removal_ids f name now st
               in if ids = [] then (Inr None, [], st)
                  else case jar_remove_identities ids None st of
                    (n, st') \<Rightarrow>
                      if 0 < n
                      then (Inr (Some (url, name)), map (\<lambda>i. \<lparr>cc_cause = Explicit, cc_removed = True, cc_cookie = ChangedIdentity i\<rparr>) ids, st')
                      else (Inr None, [], st')))"

section \<open>Change events\<close>

definition jar_change_event :: "set_cookie_result \<Rightarrow> cookie_change option" where
  "jar_change_event r =
     (case sr_cookie r of
        None \<Rightarrow> None
      | Some c \<Rightarrow>
          if sr_namespace r \<noteq> Some PROFILE_DEFAULT then None
          else Some \<lparr>cc_cause = (if sr_stored r then (if sr_replaced r = Some True then Overwrite else Explicit) else ExpiredOverwrite),
                     cc_removed = (\<not> sr_stored r), cc_cookie = ChangedView (cookie_to_view c)\<rparr>)"

definition change_visible :: "platform \<Rightarrow> permission_gate \<Rightarrow> changed_cookie \<Rightarrow> bool" where
  "change_visible pf ext cookie =
     (let (dm, p, secure) = (case cookie of
            ChangedView v \<Rightarrow> (strip_dot (cv_domain v), cv_path v, cv_secure v)
          | ChangedIdentity (_, x, _, p) \<Rightarrow> (strip_dot x, p, False));
          p = (if starts_with p ''/'' then p else ''/'');
          schemes = (if secure then [''https''] else [''http'', ''https''])
      in ''cookies'' \<in> set (pg_perms ext) \<and> dm \<noteq> []
         \<and> list_ex (\<lambda>s. host_patterns_match (new_url pf) (pg_hosts ext) (s @ ''://'' @ dm @ p)) schemes)"

text \<open>Which listeners, kept with their extensions, hear of a change.\<close>

definition change_listeners :: "platform \<Rightarrow> (nat \<times> permission_gate) list \<Rightarrow> cookie_change \<Rightarrow> nat list" where
  "change_listeners pf ls ch = map fst (filter (\<lambda>(_, ext). change_visible pf ext (cc_cookie ch)) ls)"

section \<open>Reads see exactly the reachable cookies of the default profile\<close>

lemma api_matching: "reaches c f now \<longleftrightarrow> cookie_live now c \<and> in_scope f c"
  by (auto simp: reaches_def cookie_applies_def api_domain_match_def api_path_match_def cookie_live_def in_scope_def
      domain_match_def path_match_def)

text \<open>
  The cookies of the default profile whose origin the jar can name: all of them, unless a record restored or
  imported under an identifier alone has left a bucket without a name.
\<close>

definition known_cookies :: "jar_state \<Rightarrow> cookie set" where
  "known_cookies st =
     {c. \<exists>k. (k, c) \<in> set (profile_entries PROFILE_DEFAULT (js_jars st)) \<and> truthy (map_of (js_origin_by_id st) k) \<noteq> None}"

lemma known_cookies_all:
  "(\<forall>k \<in> fst ` set (profile_entries PROFILE_DEFAULT (js_jars st)). truthy (map_of (js_origin_by_id st) k) \<noteq> None) \<Longrightarrow>
    known_cookies st = snd ` set (profile_entries PROFILE_DEFAULT (js_jars st))"
  by (force simp: known_cookies_def)

lemma unnamed_bucket_hidden:
  "js_origin_by_id st = [] \<Longrightarrow> known_cookies st = {}"
  by (simp add: known_cookies_def truthy_def)

lemma active_origins_eq:
  "active_origins st = List.map_filter (\<lambda>(k, l). map_option (\<lambda>s. (s, l)) (truthy (map_of (js_origin_by_id st) k)))
     (filter (\<lambda>(k, _). in_profile k PROFILE_DEFAULT) (js_jars st))"
  by (simp add: active_origins_def jar_default_enumeration_def Let_def origin_views_def List.map_filter_def
      filter_map comp_def case_prod_unfold)

lemma set_active_origins: "set (concat (map snd (active_origins st))) = known_cookies st"
  by (force simp: active_origins_eq known_cookies_def profile_entries_in List.map_filter_def split: option.splits)

interpretation longest_newest: first_selection "\<lambda>c b. better_cookie c b" "\<lambda>c. (length (ck_path c), ck_created c)"
  by unfold_locales (auto simp: better_cookie_def)

text \<open>C11. An enumeration for a URL answers only an extension that holds the cookies permission and a host permission for that URL, and with exactly the live cookies of the default profile in scope for the URL that the filter selects, among those kept under an identifier whose origin the jar can name; a bucket with an identifier alone is never enumerated, though requests carry its cookies. No cookie of a session profile can appear.\<close>

theorem ext_reads_exact:
  assumes "cookies_get_all pf now ext d st = Inr vs" "str_of d ''url'' = Some url"
  shows "''cookies'' \<in> set (pg_perms ext) \<and> host_patterns_match (new_url pf) (pg_hosts ext) url
    \<and> (\<exists>f. parse_url pf url = Some f \<and>
         set vs = cookie_to_view ` {c \<in> known_cookies st. cookie_live now c \<and> in_scope f c \<and> cookie_selected d c})"
proof -
  have u: "jget d ''url'' = Some (JStr url)" using assms(2) by (auto simp: str_of_def split: option.splits json.splits)
  obtain f where f: "cookie_gate pf ext (jget d ''url'') = Inr (url, f)"
    using assms u by (auto simp: cookies_get_all_def cookie_gate_def split: sum.splits option.splits if_splits)
  have vs: "set vs = cookie_to_view ` {c \<in> known_cookies st. reaches c f now \<and> cookie_selected d c}"
  proof -
    have "vs = map cookie_to_view (filter (\<lambda>c. reaches c f now \<and> cookie_selected d c) (concat (map snd (active_origins st))))"
      using assms f by (simp add: cookies_get_all_def)
    then show ?thesis by (simp only: set_map set_filter set_active_origins)
  qed
  have "''cookies'' \<in> set (pg_perms ext)" "host_patterns_match (new_url pf) (pg_hosts ext) url" "parse_url pf url = Some f"
    using f u by (auto simp: cookie_gate_def split: option.splits if_splits)
  then show ?thesis using vs by (auto simp: api_matching)
qed

text \<open>A single read returns, of the reachable cookies of that name, one with the longest path and among those the newest.\<close>

theorem ext_get_best:
  assumes "cookies_get pf now ext d st = Inr (Some v)"
  shows "\<exists>url f name c. cookie_gate pf ext (jget d ''url'') = Inr (url, f) \<and> str_of d ''name'' = Some name \<and> v = cookie_to_view c
    \<and> c \<in> known_cookies st \<and> ck_name c = name \<and> cookie_live now c \<and> in_scope f c
    \<and> (\<forall>c' \<in> known_cookies st. ck_name c' = name \<longrightarrow> cookie_live now c' \<longrightarrow> in_scope f c' \<longrightarrow>
         length (ck_path c') < length (ck_path c) \<or> (length (ck_path c') = length (ck_path c) \<and> ck_created c' \<le> ck_created c))"
proof -
  obtain url f name c where g: "cookie_gate pf ext (jget d ''url'') = Inr (url, f)" "truthy (str_of d ''name'') = Some name" "v = cookie_to_view c"
    and c: "pick better_cookie (filter (\<lambda>c. ck_name c = name \<and> reaches c f now) (concat (map snd (active_origins st)))) = Some c"
    using assms by (auto simp: cookies_get_def split: sum.splits option.splits)
  have "str_of d ''name'' = Some name" using g(2) by (auto simp: truthy_def split: option.splits if_splits)
  moreover have "c \<in> known_cookies st \<and> ck_name c = name \<and> reaches c f now"
    using longest_newest.pick_mem [OF c] by (auto simp flip: set_active_origins)
  moreover have "length (ck_path c') < length (ck_path c) \<or> (length (ck_path c') = length (ck_path c) \<and> ck_created c' \<le> ck_created c)"
    if "c' \<in> known_cookies st" "ck_name c' = name" "reaches c' f now" for c'
  proof -
    have "c' \<in> set (filter (\<lambda>c. ck_name c = name \<and> reaches c f now) (concat (map snd (active_origins st))))"
      using that by (auto simp flip: set_active_origins)
    from longest_newest.pick_max [OF c this] show ?thesis by auto
  qed
  ultimately show ?thesis using g unfolding api_matching by blast
qed

section \<open>Removal\<close>

lemma identity_key_back:
  assumes "CHR ''|'' \<notin> set (ck_domain c)" "CHR ''|'' \<notin> set (ck_path c)"
  shows "identity_of_key (ck_name c) (identity_key c) = cookie_id c"
  using assms by (simp add: identity_of_key_def identity_key_def split_on_append split_on_id cookie_id_def)

lemma set_first_keys [simp]: "set (first_keys xs) = set xs"
  by (simp add: first_keys_def)

lemma removal_ids_exact:
  assumes "\<forall>c \<in> known_cookies st. CHR ''|'' \<notin> set (ck_domain c) \<and> CHR ''|'' \<notin> set (ck_path c)"
  shows "set (removal_ids f name now st) = cookie_id ` {c \<in> known_cookies st. ck_name c = name \<and> cookie_live now c \<and> in_scope f c}"
proof -
  have "set (removal_ids f name now st)
      = (\<lambda>c. identity_of_key name (identity_key c)) ` {c \<in> known_cookies st. ck_name c = name \<and> reaches c f now}"
    by (auto simp: removal_ids_def image_iff simp flip: set_active_origins)
  also have "\<dots> = cookie_id ` {c \<in> known_cookies st. ck_name c = name \<and> reaches c f now}"
    using assms identity_key_back by (intro image_cong) auto
  finally show ?thesis by (simp add: api_matching)
qed

text \<open>C26. A removal deletes from the default profile exactly the cookies, in whatever bucket, that share the identity of a live cookie of that name that is in scope for the URL and kept under an identifier whose origin the jar can name - a cookie in a bucket with an identifier alone is removed only as the twin of such a one - and touches no other profile, provided no domain or path of the nameable cookies holds a bar.\<close>

theorem ext_remove_exact:
  assumes "cookies_remove pf now ext d st = (Inr (Some (url, name)), evs, st')"
    and "\<forall>c \<in> known_cookies st. CHR ''|'' \<notin> set (ck_domain c) \<and> CHR ''|'' \<notin> set (ck_path c)"
  shows "\<exists>f. cookie_gate pf ext (jget d ''url'') = Inr (url, f) \<and>
    profile_entries PROFILE_DEFAULT (js_jars st') =
      filter (\<lambda>(k, c). \<not> (\<exists>c' \<in> known_cookies st. ck_name c' = name \<and> cookie_live now c' \<and> in_scope f c' \<and> cookie_id c' = cookie_id c))
        (profile_entries PROFILE_DEFAULT (js_jars st))
    \<and> (\<forall>k. \<not> in_profile k PROFILE_DEFAULT \<longrightarrow> map_of (js_jars st') k = map_of (js_jars st) k)"
proof -
  obtain f where g: "cookie_gate pf ext (jget d ''url'') = Inr (url, f)"
    and r: "\<exists>n. jar_remove_identities (removal_ids f name now st) None st = (n, st')"
    using assms(1) by (auto simp: cookies_remove_def Let_def split: sum.splits option.splits if_splits prod.splits)
  have j: "js_jars st' = filter_buckets (\<lambda>k. in_profile k PROFILE_DEFAULT) (\<lambda>c. cookie_id c \<notin> set (removal_ids f name now st)) (js_jars st)"
    using r by (auto simp: jar_remove_identities_def Let_def truthy_def schedule_persist_def split: if_splits)
  have "profile_entries PROFILE_DEFAULT (js_jars st') =
      filter (\<lambda>(k, c). \<not> (\<exists>c' \<in> known_cookies st. ck_name c' = name \<and> cookie_live now c' \<and> in_scope f c' \<and> cookie_id c' = cookie_id c))
        (profile_entries PROFILE_DEFAULT (js_jars st))"
  proof -
    let ?A = "{c \<in> known_cookies st. ck_name c = name \<and> cookie_live now c \<and> in_scope f c}"
    have mem: "cookie_id c \<notin> cookie_id ` ?A \<longleftrightarrow> \<not> (\<exists>c' \<in> known_cookies st. ck_name c' = name \<and> cookie_live now c' \<and> in_scope f c' \<and> cookie_id c' = cookie_id c)" for c
      unfolding image_iff mem_Collect_eq Bex_def by (simp only: eq_commute [of "cookie_id c"] simp_thms conj_assoc)
    have "(case x of (k, c) \<Rightarrow> in_profile k PROFILE_DEFAULT \<longrightarrow> cookie_id c \<notin> cookie_id ` ?A) = (case x of (k, c) \<Rightarrow> cookie_id c \<notin> cookie_id ` ?A)"
      if "x \<in> set (profile_entries PROFILE_DEFAULT (js_jars st))" for x
    proof -
      obtain k c where x: "x = (k, c)" by (cases x)
      then have "in_profile k PROFILE_DEFAULT" using that profile_entries_in by blast
      then show ?thesis unfolding x by simp
    qed
    then have "filter (\<lambda>(k, c). in_profile k PROFILE_DEFAULT \<longrightarrow> cookie_id c \<notin> cookie_id ` ?A) (profile_entries PROFILE_DEFAULT (js_jars st))
        = filter (\<lambda>(k, c). cookie_id c \<notin> cookie_id ` ?A) (profile_entries PROFILE_DEFAULT (js_jars st))"
      by (rule filter_cong [OF refl])
    then show ?thesis unfolding j profile_entries_filter_buckets removal_ids_exact [OF assms(2)] by (simp only: mem)
  qed
  moreover have "map_of (js_jars st') k = map_of (js_jars st) k" if "\<not> in_profile k PROFILE_DEFAULT" for k
    unfolding j by (rule filter_buckets_lookup) (rule that)
  ultimately show ?thesis using g by blast
qed


text \<open>A path with a bar is cut at it when the identity is read back: the removal asks for another cookie.\<close>

lemma bar_cuts_path:
  assumes "ck_path c = p @ ''|'' @ rest" "CHR ''|'' \<notin> set (ck_domain c)" "CHR ''|'' \<notin> set p"
  shows "identity_of_key (ck_name c) (identity_key c) = (ck_name c, ck_domain c, ck_host_only c, p)"
  using assms by (simp add: identity_of_key_def identity_key_def split_on_append)

text \<open>An enumeration without a URL does not look at the cookies permission.\<close>

lemma enumeration_unguarded:
  "str_of d ''url'' = None \<Longrightarrow> cookies_get_all pf now (ext\<lparr>pg_perms := []\<rparr>) d st = cookies_get_all pf now ext d st
    \<and> (\<exists>vs. cookies_get_all pf now ext d st = Inr vs)"
  by (simp add: cookies_get_all_def)

section \<open>Change events\<close>

text \<open>A change of a session profile is no event, and nobody hears of a change without the cookies permission.\<close>

lemma session_changes_silent: "sr_namespace r \<noteq> Some PROFILE_DEFAULT \<Longrightarrow> jar_change_event r = None"
  by (simp add: jar_change_event_def split: option.splits)

lemma change_visible_needs:
  "change_visible pf ext x \<Longrightarrow> ''cookies'' \<in> set (pg_perms ext) \<and> (\<exists>u. host_patterns_match (new_url pf) (pg_hosts ext) u)"
  unfolding change_visible_def Let_def by (auto simp: list_ex_iff split: prod.splits)

lemma change_needs_permission:
  "l \<in> set (change_listeners pf ls ch) \<Longrightarrow> \<exists>ext. (l, ext) \<in> set ls \<and> ''cookies'' \<in> set (pg_perms ext)
    \<and> (\<exists>u. host_patterns_match (new_url pf) (pg_hosts ext) u)"
  using change_visible_needs by (force simp: change_listeners_def)

section \<open>A concrete jar\<close>

definition demo_cookie :: "string \<Rightarrow> nat \<Rightarrow> cookie" where
  "demo_cookie p r = \<lparr>ck_name = ''n'', ck_value = ''v'', ck_domain = ''h'', ck_host_only = True, ck_path = p, ck_secure = False,
     ck_http_only = False, ck_same_site = None, ck_expires = 0, ck_created = 1, ck_ref = r\<rparr>"

definition demo_cookie_jar :: jar_state where
  "demo_cookie_jar = initial_jar\<lparr>js_origin_by_id := [(''1'', ''https://h'')], js_jars := [(''1'', [demo_cookie ''/'' 0, demo_cookie ''/a'' 1])]\<rparr>"

definition demo_cookie_platform :: platform where
  "demo_cookie_platform =
     \<lparr>new_url = (\<lambda>s. if s = ''https://h/a'' then Some \<lparr>url_href = s, url_protocol = ''https:'', url_origin = ''https://h'', url_host = ''h'',
          url_hostname = ''h'', url_pathname = ''/a'', url_search = [], url_hash = []\<rparr> else None),
      new_url_base = (\<lambda>_ _. None), with_pathname = (\<lambda>u p. u), psl_domain = (\<lambda>_. None), psl_suffix = (\<lambda>_. None)\<rparr>"

definition demo_cookie_ext :: permission_gate where
  "demo_cookie_ext = \<lparr>pg_perms = [''cookies''], pg_hosts = [''<all_urls>'']\<rparr>"

definition demo_cookie_call :: json where
  "demo_cookie_call = JObj [(''url'', JStr ''https://h/a''), (''name'', JStr ''n'')]"

lemma demo_str: "str_of demo_cookie_call ''url'' = Some ''https://h/a''"
  by (simp add: str_of_def demo_cookie_call_def jget_def)

lemma demo_all: "cookies_get_all demo_cookie_platform 5 demo_cookie_ext demo_cookie_call demo_cookie_jar
    = Inr [cookie_to_view (demo_cookie ''/'' 0), cookie_to_view (demo_cookie ''/a'' 1)]"
  by code_simp

lemma demo_cookie_get: "cookies_get demo_cookie_platform 5 demo_cookie_ext demo_cookie_call demo_cookie_jar
    = Inr (Some (cookie_to_view (demo_cookie ''/a'' 1)))"
  by code_simp

lemma demo_remove:
  "fst (cookies_remove demo_cookie_platform 5 demo_cookie_ext demo_cookie_call demo_cookie_jar) = Inr (Some (''https://h/a'', ''n''))"
  by code_simp

lemma demo_known: "known_cookies demo_cookie_jar = {demo_cookie ''/'' 0, demo_cookie ''/a'' 1}"
  unfolding set_active_origins [symmetric] by code_simp

theorem ext_reads_exact_witness:
  "''cookies'' \<in> set (pg_perms demo_cookie_ext) \<and> host_patterns_match (new_url demo_cookie_platform) (pg_hosts demo_cookie_ext) ''https://h/a''"
  using ext_reads_exact [OF demo_all demo_str] by blast

theorem ext_get_best_witness:
  "\<exists>c \<in> known_cookies demo_cookie_jar. cookie_to_view (demo_cookie ''/a'' 1) = cookie_to_view c"
  using ext_get_best [OF demo_cookie_get] by blast

theorem ext_remove_exact_witness:
  "\<exists>evs st'. cookies_remove demo_cookie_platform 5 demo_cookie_ext demo_cookie_call demo_cookie_jar = (Inr (Some (''https://h/a'', ''n'')), evs, st')
    \<and> set (profile_entries PROFILE_DEFAULT (js_jars st')) \<subseteq> set (profile_entries PROFILE_DEFAULT (js_jars demo_cookie_jar))"
proof -
  obtain evs st' where r: "cookies_remove demo_cookie_platform 5 demo_cookie_ext demo_cookie_call demo_cookie_jar = (Inr (Some (''https://h/a'', ''n'')), evs, st')"
    using demo_remove by (metis prod.collapse)
  have b: "\<forall>c \<in> known_cookies demo_cookie_jar. CHR ''|'' \<notin> set (ck_domain c) \<and> CHR ''|'' \<notin> set (ck_path c)"
    unfolding demo_known by (simp add: demo_cookie_def)
  from ext_remove_exact [OF r b] have "set (profile_entries PROFILE_DEFAULT (js_jars st')) \<subseteq> set (profile_entries PROFILE_DEFAULT (js_jars demo_cookie_jar))"
    by auto
  then show ?thesis using r by blast
qed

end
