(* ===== verification/CspTranslate.thy ===== *)
theory CspTranslate
  imports HttpHeaders
begin

text \<open>
  The translation of an upstream Content-Security-Policy into the subset the engine can enforce
  (\<open>src/app/src/csp-translation.ts\<close>): directives that deny a class of actions outright. Anything else leaves
  the policy stripped, with a typed reason. The branch that asks the WebAssembly module is not modelled.
\<close>

datatype unsupported_reason = Oversize | InvalidSyntax | DuplicateDirective | UnsupportedDirective | UnsupportedSource | ReportOnly

datatype translation_plan = CspCandidate string "string list" | CspUnsupported unsupported_reason

definition DENY_ONLY :: "string list" where
  "DENY_ONLY = [''object-src'', ''base-uri'', ''form-action'', ''worker-src'', ''frame-src'', ''child-src'']"

definition MAX_POLICY_BYTES :: nat where "MAX_POLICY_BYTES = 8192"
definition MAX_DIRECTIVES :: nat where "MAX_DIRECTIVES = 64"

definition QUOTED_NONE :: string where
  "QUOTED_NONE = CHR 0x27 # ''none'' @ [CHR 0x27]"

text \<open>\<open>s.split(/\s+/)\<close> on a trimmed text that is not empty\<close>

fun split_spaces :: "string \<Rightarrow> string list" where
  "split_spaces [] = [[]]"
| "split_spaces (c # s) =
     (if is_js_space c then (case s of d # _ \<Rightarrow> if is_js_space d then split_spaces s else [] # split_spaces s | [] \<Rightarrow> [[], []])
      else case split_spaces s of w # ws \<Rightarrow> (c # w) # ws | [] \<Rightarrow> [[c]])"

text \<open>\<open>/^[a-z][a-z0-9-]*$/\<close>\<close>

definition is_small_letter :: "char \<Rightarrow> bool" where
  "is_small_letter c \<longleftrightarrow> 97 \<le> char_code c \<and> char_code c \<le> 122"

definition directive_name :: "string \<Rightarrow> bool" where
  "directive_name n \<longleftrightarrow> (case n of c # r \<Rightarrow> is_small_letter c \<and> list_all (\<lambda>x. is_small_letter x \<or> is_digit x \<or> x = CHR ''-'') r | [] \<Rightarrow> False)"

text \<open>The loop over the parts; every name that passes is emitted, so the names seen are those emitted.\<close>

fun translate_parts :: "string list \<Rightarrow> string list \<Rightarrow> unsupported_reason + string list" where
  "translate_parts [] seen = Inr seen"
| "translate_parts (part # parts) seen =
     (let directive = js_trim part
      in if directive = [] then translate_parts parts seen
         else
           let tokens = split_spaces directive; name = js_lower (hd tokens)
           in if \<not> directive_name name then Inl InvalidSyntax
              else if name \<in> set seen then Inl DuplicateDirective
              else if name \<notin> set DENY_ONLY then Inl UnsupportedDirective
              else if length tokens \<noteq> 2 \<or> js_lower (tokens ! 1) \<noteq> QUOTED_NONE then Inl UnsupportedSource
              else translate_parts parts (seen @ [name]))"

definition deny_text :: "string \<Rightarrow> string" where
  "deny_text name = name @ '' '' @ QUOTED_NONE"

definition plan_csp_translation :: "string \<Rightarrow> bool \<Rightarrow> translation_plan" where
  "plan_csp_translation raw report_only =
     (if report_only then CspUnsupported ReportOnly
      else if MAX_POLICY_BYTES < length (utf8_encode raw) then CspUnsupported Oversize
      else if js_trim raw = [] \<or> list_ex (\<lambda>c. is_ctl c \<or> c = CHR '','') raw then CspUnsupported InvalidSyntax
      else
        let parts = split_on (CHR '';'') raw
        in if MAX_DIRECTIVES + 1 < length parts then CspUnsupported Oversize
           else case translate_parts parts [] of
             Inl r \<Rightarrow> CspUnsupported r
           | Inr names \<Rightarrow>
               if names = [] then CspUnsupported InvalidSyntax
               else CspCandidate (join_with ''; '' (map deny_text names)) names)"

definition plan_csp_headers :: "headers \<Rightarrow> translation_plan option \<times> translation_plan option" where
  "plan_csp_headers h =
     (map_option (\<lambda>s. plan_csp_translation s False) (hget h ''content-security-policy''),
      map_option (\<lambda>s. plan_csp_translation s True) (hget h ''content-security-policy-report-only''))"

definition reason_text :: "unsupported_reason \<Rightarrow> string" where
  "reason_text r = (case r of Oversize \<Rightarrow> ''oversize'' | InvalidSyntax \<Rightarrow> ''invalid-syntax'' | DuplicateDirective \<Rightarrow> ''duplicate-directive''
     | UnsupportedDirective \<Rightarrow> ''unsupported-directive'' | UnsupportedSource \<Rightarrow> ''unsupported-source'' | ReportOnly \<Rightarrow> ''report-only'')"

text \<open>\<open>/^(?:text\/html|application\/xhtml\+xml)(?:\s*;|\s*$)/i\<close> on a trimmed type\<close>

definition html_type :: "string \<Rightarrow> bool" where
  "html_type ct =
     (let s = js_lower (js_trim ct);
          rest = (if starts_with s ''text/html'' then Some (drop 9 s)
                  else if starts_with s ''application/xhtml+xml'' then Some (drop 21 s) else None)
      in case rest of None \<Rightarrow> False | Some r \<Rightarrow> (case dropWhile is_js_space r of [] \<Rightarrow> True | c # _ \<Rightarrow> c = CHR '';''))"

definition apply_experimental_csp :: "headers \<Rightarrow> string option \<Rightarrow> string \<Rightarrow> bool \<Rightarrow> bool \<times> headers" where
  "apply_experimental_csp down upstream ct is_document =
     (if \<not> is_document \<or> \<not> html_type ct then (False, down)
      else case truthy upstream of
        None \<Rightarrow> (False, down)
      | Some raw \<Rightarrow>
          (case plan_csp_translation raw False of
             CspUnsupported r \<Rightarrow> (False, hset ''x-zl-csp'' (''unsupported '' @ reason_text r) down)
           | CspCandidate policy names \<Rightarrow>
               (True, hdel ''content-security-policy-report-only''
                  (hset ''x-zl-csp'' (''enforced '' @ join_with '','' names) (hset ''content-security-policy'' policy down)))))"

section \<open>What a candidate is\<close>

abbreviation nonblank :: "string list \<Rightarrow> string list" where
  "nonblank parts \<equiv> filter (\<lambda>p. js_trim p \<noteq> []) parts"

definition part_tokens :: "string \<Rightarrow> string list" where
  "part_tokens p = map js_lower (split_spaces (js_trim p))"

lemma two_tokens: "length ts = 2 \<Longrightarrow> ts = [hd ts, ts ! 1]"
  by (cases ts; cases "tl ts") auto

lemma translate_parts_exact:
  "translate_parts parts seen = Inr names \<Longrightarrow> distinct seen \<Longrightarrow> set seen \<subseteq> set DENY_ONLY \<Longrightarrow>
    \<exists>ds. names = seen @ ds \<and> distinct names \<and> set names \<subseteq> set DENY_ONLY
      \<and> map part_tokens (nonblank parts) = map (\<lambda>d. [d, QUOTED_NONE]) ds"
proof (induction parts seen rule: translate_parts.induct)
  case (2 part parts seen)
  let ?d = "js_trim part" let ?ts = "split_spaces (js_trim part)" let ?n = "js_lower (hd (split_spaces (js_trim part)))"
  show ?case
  proof (cases "?d = []")
    case True
    then show ?thesis using 2 by (simp add: Let_def)
  next
    case False
    then have ok: "?n \<notin> set seen" "?n \<in> set DENY_ONLY" "length ?ts = 2" "js_lower (?ts ! 1) = QUOTED_NONE"
      and rest: "translate_parts parts (seen @ [?n]) = Inr names"
      using 2(3) by (auto simp: Let_def split: if_splits)
    have name: "directive_name ?n" using 2(3) False by (auto simp: Let_def split: if_splits)
    have ih: "\<exists>ds. names = (seen @ [?n]) @ ds \<and> distinct names \<and> set names \<subseteq> set DENY_ONLY
      \<and> map part_tokens (nonblank parts) = map (\<lambda>d. [d, QUOTED_NONE]) ds"
      using 2(2) [OF refl False refl refl] name ok rest 2(4,5) by simp
    have "part_tokens part = [?n, QUOTED_NONE]"
      unfolding part_tokens_def using two_tokens [OF ok(3)] ok(4) by (metis list.simps(8,9))
    then show ?thesis using ih False by fastforce
  qed
qed auto

lemma deny_cases: "d \<in> set DENY_ONLY \<Longrightarrow> js_trim (deny_text d) = deny_text d \<and> js_trim (CHR '' '' # deny_text d) = deny_text d
    \<and> split_spaces (deny_text d) = [d, QUOTED_NONE] \<and> js_lower d = d \<and> directive_name d \<and> js_lower QUOTED_NONE = QUOTED_NONE
    \<and> length (deny_text d) \<le> 20 \<and> CHR '';'' \<notin> set (deny_text d) \<and> list_all (\<lambda>c. \<not> is_ctl c \<and> c \<noteq> CHR '','') (deny_text d) \<and> deny_text d \<noteq> []"
  by (auto simp: DENY_ONLY_def deny_text_def QUOTED_NONE_def js_trim_def is_js_space_def js_lower_def lower_char_def directive_name_def
      is_small_letter_def is_digit_def is_ctl_def)

lemma translate_parts_denials:
  "map js_trim ps = map deny_text ds \<Longrightarrow> set ds \<subseteq> set DENY_ONLY \<Longrightarrow> distinct (seen @ ds) \<Longrightarrow> translate_parts ps seen = Inr (seen @ ds)"
proof (induction ps arbitrary: ds seen)
  case (Cons p ps)
  then obtain d ds' where d: "ds = d # ds'" "js_trim p = deny_text d" "map js_trim ps = map deny_text ds'" by auto
  then have "d \<in> set DENY_ONLY" using Cons.prems(2) by simp
  note c = deny_cases [OF this]
  show ?case using Cons.IH [OF d(3), of "seen @ [d]"] Cons.prems d c \<open>d \<in> set DENY_ONLY\<close> by (simp add: Let_def)
qed simp

lemma split_on_join_sep:
  "\<forall>w \<in> set (w # ws). CHR '';'' \<notin> set w \<Longrightarrow> split_on (CHR '';'') (join_with ''; '' (w # ws)) = w # map ((#) (CHR '' '')) ws"
proof (induction ws arbitrary: w)
  case (Cons v vs)
  have "split_on (CHR '';'') (join_with ''; '' (w # v # vs)) = w # split_on (CHR '';'') (CHR '' '' # join_with ''; '' (v # vs))"
    using Cons.prems split_on_append [of "CHR '';''" w "CHR '' '' # join_with ''; '' (v # vs)"] by simp
  also have "split_on (CHR '';'') (CHR '' '' # join_with ''; '' (v # vs)) = (CHR '' '' # v) # map ((#) (CHR '' '')) vs"
    using Cons.IH [of v] Cons.prems by simp
  finally show ?case by simp
qed (simp add: split_on_id)

lemma length_join_with: "\<forall>w \<in> set ws. length w \<le> n \<Longrightarrow> length (join_with sep ws) \<le> length ws * (n + length sep)"
  by (induction sep ws rule: join_with.induct) auto

lemma length_utf8: "length (utf8_encode s) \<le> 2 * length s"
  by (induction s rule: utf8_encode.induct) auto

lemma js_trim_blank: "js_trim s = [] \<Longrightarrow> \<forall>c \<in> set s. is_js_space c"
proof (rule ccontr)
  assume t: "js_trim s = []" and "\<not> (\<forall>c \<in> set s. is_js_space c)"
  then have "dropWhile is_js_space s \<noteq> []" by (simp add: dropWhile_eq_Nil_conv)
  moreover from this have "\<not> is_js_space (hd (dropWhile is_js_space s))" by (rule hd_dropWhile)
  moreover have "\<forall>c \<in> set (dropWhile is_js_space s). is_js_space c" using t by (simp add: js_trim_def dropWhile_eq_Nil_conv)
  ultimately show False by (metis hd_in_set)
qed

lemma set_join_with: "set (join_with sep ws) \<subseteq> set sep \<union> \<Union> (set ` set ws)"
  by (induction sep ws rule: join_with.induct) auto

text \<open>C30. A translated policy is exactly the upstream one: its directives are the upstream parts in their order, each a distinct denial from the audited list with 'none' as its whole source list; nothing is dropped or widened, and the result translates to itself.\<close>

theorem csp_translation_exact:
  assumes "plan_csp_translation raw False = CspCandidate policy names"
  shows "names \<noteq> [] \<and> distinct names \<and> set names \<subseteq> set DENY_ONLY \<and> policy = join_with ''; '' (map deny_text names)
    \<and> map part_tokens (nonblank (split_on (CHR '';'') raw)) = map (\<lambda>d. [d, QUOTED_NONE]) names
    \<and> plan_csp_translation policy False = CspCandidate policy names"
proof -
  have p: "translate_parts (split_on (CHR '';'') raw) [] = Inr names" "names \<noteq> []" "policy = join_with ''; '' (map deny_text names)"
    using assms by (auto simp: plan_csp_translation_def Let_def split: if_splits sum.splits)
  from translate_parts_exact [OF p(1)] have n: "distinct names" "set names \<subseteq> set DENY_ONLY"
    "map part_tokens (nonblank (split_on (CHR '';'') raw)) = map (\<lambda>d. [d, QUOTED_NONE]) names" by simp_all
  obtain d ds where d: "names = d # ds" using p(2) by (cases names) auto
  have den: "x \<in> set names \<Longrightarrow> x \<in> set DENY_ONLY" for x using n(2) by blast
  note dc = deny_cases [OF den]
  have parts: "split_on (CHR '';'') policy = deny_text d # map ((#) (CHR '' '') \<circ> deny_text) ds"
  proof -
    have "\<forall>w \<in> set (deny_text d # map deny_text ds). CHR '';'' \<notin> set w" using dc d by simp
    from split_on_join_sep [OF this] show ?thesis unfolding p(3) d by simp
  qed
  have trim: "map js_trim (split_on (CHR '';'') policy) = map deny_text names"
  proof -
    have "js_trim (deny_text d) = deny_text d" using dc [of d] d by simp
    moreover have "\<forall>x \<in> set ds. js_trim (CHR '' '' # deny_text x) = deny_text x" using dc d by simp
    ultimately show ?thesis unfolding parts d by simp
  qed
  have plan: "translate_parts (split_on (CHR '';'') policy) [] = Inr names"
    using translate_parts_denials [OF trim n(2), of "[]"] n(1) by simp
  have "card (set names) \<le> card (set DENY_ONLY)" using n(2) by (intro card_mono) simp_all
  then have len: "length names \<le> 6" using n(1) by (simp add: distinct_card DENY_ONLY_def)
  have "length policy \<le> length (map deny_text names) * (20 + 2)"
    unfolding p(3) using length_join_with [of "map deny_text names" 20 "''; ''"] dc by simp
  then have size: "length (utf8_encode policy) \<le> MAX_POLICY_BYTES" using length_utf8 [of policy] len by (simp add: MAX_POLICY_BYTES_def)
  have "\<not> is_ctl c \<and> c \<noteq> CHR '',''" if c: "c \<in> set policy" for c
  proof -
    have "c \<in> set ''; '' \<or> (\<exists>x \<in> set names. c \<in> set (deny_text x))"
      using c set_join_with [of "''; ''" "map deny_text names"] unfolding p(3) by (auto simp del: set_simps)
    then show ?thesis
    proof
      assume "\<exists>x \<in> set names. c \<in> set (deny_text x)"
      then obtain x where x: "x \<in> set names" "c \<in> set (deny_text x)" by blast
      have "list_all (\<lambda>c. \<not> is_ctl c \<and> c \<noteq> CHR '','') (deny_text x)" using dc [OF x(1)] by blast
      then show ?thesis using x(2) unfolding list_all_iff by blast
    qed (auto simp: is_ctl_def)
  qed
  then have chars: "\<not> list_ex (\<lambda>c. is_ctl c \<or> c = CHR '','') policy" by (auto simp: list_ex_iff)
  have "js_trim policy \<noteq> []"
  proof
    assume "js_trim policy = []"
    then have "\<forall>c \<in> set policy. is_js_space c" by (rule js_trim_blank)
    moreover have "hd d \<in> set policy \<and> \<not> is_js_space (hd d)"
      using den [of d] d unfolding p(3) d by (cases ds) (auto simp: DENY_ONLY_def deny_text_def is_js_space_def)
    ultimately show False by blast
  qed
  moreover have "length (split_on (CHR '';'') policy) \<le> MAX_DIRECTIVES + 1" unfolding parts using len d by (simp add: MAX_DIRECTIVES_def)
  ultimately have "plan_csp_translation policy False = CspCandidate policy names"
    using size chars plan p(2,3) by (simp add: plan_csp_translation_def Let_def)
  then show ?thesis using p n by blast
qed

definition demo_upstream_policy :: string where
  "demo_upstream_policy = ''Object-Src '' @ QUOTED_NONE @ '' ; base-uri   '' @ QUOTED_NONE @ '';''"

lemma demo_upstream_policy_plan:
  "plan_csp_translation demo_upstream_policy False = CspCandidate (join_with ''; '' (map deny_text [''object-src'', ''base-uri''])) [''object-src'', ''base-uri'']"
  by code_simp

lemma csp_names_distinct:
  "js_lower ''content-security-policy'' \<noteq> js_lower ''content-security-policy-report-only''"
  "js_lower ''x-zl-csp'' \<noteq> js_lower ''content-security-policy-report-only''"
  "js_lower ''content-security-policy'' \<noteq> js_lower ''x-zl-csp''"
  by code_simp+

text \<open>What the opt-in adapter sends downstream: the policy it enforces is the candidate, and the marker names what was translated.\<close>

lemma applied_policy_marked:
  assumes "apply_experimental_csp down upstream ct doc = (True, h)"
  shows "\<exists>raw policy names. upstream = Some raw \<and> doc \<and> html_type ct \<and> plan_csp_translation raw False = CspCandidate policy names
    \<and> hget h ''content-security-policy'' = Some policy \<and> hget h ''x-zl-csp'' = Some (''enforced '' @ join_with '','' names)
    \<and> hget h ''content-security-policy-report-only'' = None"
  using assms by (cases upstream) (auto simp: apply_experimental_csp_def truthy_def csp_names_distinct csp_names_distinct [symmetric] split: if_splits option.splits translation_plan.splits)

theorem csp_translation_exact_witness:
  "map part_tokens (nonblank (split_on (CHR '';'') demo_upstream_policy)) = map (\<lambda>d. [d, QUOTED_NONE]) [''object-src'', ''base-uri'']"
  using csp_translation_exact [OF demo_upstream_policy_plan] by blast

end
