(* ===== verification/Spec2Isabelle.thy ===== *)
theory Spec2Isabelle
  imports NavHandles CookieIsolation CookiePersist Policies ContextMenus BodySpool PageCache Transport ExtManager Alarms Evidence ImportMaps ExtStorage Sri WispAuth WebRequest Downloads WsBridge AssetBases ExtMessaging ModuleImports VirtualOrigin ExtCookies CspTranslate
begin

text \<open>
  Zeolite is a web proxy that runs in a service worker: a page of a target site is served under the
  engine's own origin, at a path that encodes its address; every request the page makes comes to the
  worker, which recovers the address, decides what may happen, sends the request through a transport of
  its own, and serves the rewritten answer. The state a browser keeps per site (cookies, caches, downloads,
  extensions) is kept by the worker. This library models the TypeScript of the worker
  (\<open>src/app/src\<close>); it has one theory per component, each with its state, its operations and the
  theorems that make it correct.

  \<^bold>\<open>How the parts interact.\<close> A request arrives as a route. \<open>Codec\<close> and \<open>Routes\<close> recover its destination,
  \<open>NavHandles\<close> does so for navigations, and \<open>VirtualOrigin\<close> knows which document a
  client is and what a browser would say of its requests. \<open>Policies\<close>, \<open>WebRequest\<close>, \<open>Csp\<close> and \<open>Sri\<close> may refuse it.
  \<open>CookieReads\<close> gives it its cookies, \<open>PageCache\<close> may answer it, \<open>BodySpool\<close> keeps a large body for
  replays, \<open>Transport\<close> sends it, over \<open>Relay\<close> or a socket that \<open>WispAuth\<close> guards, and records in \<open>Delivery\<close>
  whether the peer can have seen it. \<open>HttpHeaders\<close> and \<open>Transit\<close> shape the answer, \<open>ImportMaps\<close> and
  \<open>ModuleImports\<close> route the imports of module scripts, \<open>AssetBases\<close> retries assets a page asks of the wrong
  place, \<open>Downloads\<close> counts and keeps what is saved. \<open>WsBridge\<close> carries the page's WebSockets. The
  extension theories model the registries the extension API calls.

  \<^bold>\<open>Theories and sources.\<close>
  \<^item> \<open>Prelude\<close>: strings, insertion-ordered maps, URLs, JSON; the locales \<open>selection\<close> (the best of a list by
    a rank, with \<open>first_selection\<close> and \<open>last_selection\<close>) and \<open>bounded_registry\<close>.
  \<^item> \<open>Codec\<close>, \<open>Routes\<close>, \<open>NavHandles\<close>: \<open>codec.ts\<close>. Base64url, SipHash-2-4 on \<open>64 word\<close>, keyed tokens, key
    history, recovery of mangled routes, navigation handles. The locale \<open>token_scheme\<close> is the contract of a
    token, with the byte strings that spell one text (the strict decoder drops a byte-order mark); the code's
    tokens are its interpretation.
  \<^item> \<open>VirtualOrigin\<close>: \<open>vctx.ts\<close> and \<open>origin.ts\<close>. The contexts of clients, their recovery after a restart, the
    origin of a message's sender, the Origin and Sec-Fetch headers.
  \<^item> \<open>Cookies\<close>, \<open>CookieProfiles\<close>, \<open>CookieJar\<close>, \<open>CookieAdmit\<close>, \<open>CookieReads\<close>, \<open>CookieIsolation\<close>, \<open>CookiePersist\<close>:
    \<open>cookies.ts\<close>. Grammar and matching, profiles of host roots, admission with its limits, the seams
    that read and write, their isolation, the durable record and the import of a session.
  \<^item> \<open>Kdl\<close>, \<open>Policies\<close>: \<open>kdl.ts\<close>, \<open>policy.ts\<close>, \<open>rules.ts\<close>, \<open>siteconfig.ts\<close>. The parser of the operator's files and
    what is compiled from them.
  \<^item> \<open>HttpHeaders\<close>, \<open>Transit\<close>: \<open>headers.ts\<close>, \<open>cors.ts\<close>, \<open>transit.ts\<close> and the classifiers of \<open>transform.ts\<close>.
  \<^item> \<open>CachePolicy\<close>, \<open>PageCache\<close>, \<open>BodySpool\<close>: the page cache of \<open>request.ts\<close> with \<open>range.ts\<close>; \<open>bodyspool.ts\<close>.
  \<^item> \<open>Delivery\<close>, \<open>Relay\<close>, \<open>Transport\<close>, \<open>WispAuth\<close>, \<open>WsBridge\<close>: \<open>delivery.ts\<close>, \<open>transport-lifecycle.ts\<close>,
    \<open>loadstate.ts\<close>, \<open>relayfetch.ts\<close>, \<open>transport.ts\<close> with \<open>upstreamFetch\<close> of \<open>request.ts\<close>, \<open>wisp-auth.ts\<close>, \<open>wsbridge.ts\<close>.
    The locale \<open>replay_guard\<close> states when a request may be sent again; it is interpreted for methods that
    are not idempotent and for bodies that can be read once.
  \<^item> \<open>Csp\<close>, \<open>CspTranslate\<close>, \<open>Sri\<close>, \<open>Evidence\<close>, \<open>ImportMaps\<close>, \<open>ModuleImports\<close>, \<open>AssetBases\<close>, \<open>Downloads\<close>:
    \<open>csp-enforce.ts\<close>, \<open>csp-translation.ts\<close>, \<open>sri.ts\<close>,
    \<open>adaptive-evidence.ts\<close> with \<open>location-targeting.ts\<close>, \<open>importmaps.ts\<close>, \<open>worker-imports.ts\<close>,
    \<open>assetbases.ts\<close>, \<open>downloads.ts\<close>.
  \<^item> \<open>ExtManifest\<close>, \<open>ExtPackage\<close>, \<open>ExtPermissions\<close>, \<open>ExtManager\<close>, \<open>ExtStorage\<close>, \<open>ExtMessaging\<close>, \<open>Alarms\<close>, \<open>ContextMenus\<close>,
    \<open>WebRequest\<close>, \<open>ExtCookies\<close>: the files of the same names under \<open>extensions/\<close>, with \<open>advanced-permissions.ts\<close>,
    \<open>content-scripts.ts\<close>, \<open>origin.ts\<close> and \<open>types.ts\<close>.

  \<^bold>\<open>Conventions.\<close> A class or the bindings of a module are a record, a call is a function from state to
  state, an exception is \<open>None\<close> or the left side of a sum. Code that awaits is cut at its awaits: the code
  between two of them is one step, what the platform answers is an argument of the next, and the theorems
  quantify over all sequences of steps. Where several calls interleave (\<open>BodySpool\<close>, \<open>PageCache\<close>, \<open>Transport\<close>,
  \<open>ExtStorage\<close>, \<open>Downloads\<close>, \<open>Relay\<close>) the steps of different calls mix freely. Arguments stand for what the
  repository does not define: the URL parser and the public suffix list (the record \<open>platform\<close>), the clock,
  \<open>JSON.parse\<close>, digests, decompression, the network, the host's storage. Diagnostics, traces and texts of
  log messages are left out.

  \<^bold>\<open>What the lemmas show.\<close> Routes and handles: what is minted opens to what was meant, and only what was
  minted under a held key opens. Cookies: admission keeps the jar well formed and within its caps, every
  header is exactly the matching cookies of the client's namespace, session profiles influence nothing else
  and never reach the durable record, a restart reads back what was written. Data files: the parser is
  total, the chosen rule is the one its precedence names. Requests: a request that must not be repeated is
  not, a relay refines an ordered channel, the bytes a cache or spool has reserved stay within their budget in
  every interleaving, a socket on a credentialed endpoint sends nothing before its handshake. Scripts: a module
  has one reading as tokens, stated without the scanner, and the import pass changes nothing but the specifiers
  among them, each into a route that decodes to the URL it stands for. Downloads: an artifact is a prefix of the file,
  as long as no stored partial is read back by \<open>assemble\<close>.
  Extensions: no permission beyond the manifest, no path outside a package, menus stay a forest, timers
  and alarms correspond, storage survives restarts, a send settles once, a channel gives each message in order to
  the listeners that wait for it, cookie reads and removals concern exactly the reachable cookies of the default
  profile whose origin the jar can name.
  Lemmas that show a behaviour the sources do not promise stand beside them, as concrete runs.

  \<^bold>\<open>Loops.\<close> The node loops of \<open>Kdl\<close> carry a fuel of more than the length of the source, and each turn consumes
  a character (\<open>kdl_total\<close>); the template scans of \<open>ModuleImports\<close> do the same (\<open>find_template_end_iff\<close>). Two loops
  have no bound in the source and are partial functions: the walk to the root of a menu, which always ends
  on the menus the registry can hold (\<open>menus_stay_forest\<close>), and the search for the next slot of a periodic alarm
  (\<open>periodic_fire_rearms\<close>). All other loops are structural or have a measure.

  \<^bold>\<open>Not modelled.\<close> \<open>handleFetch\<close> in \<open>request.ts\<close> and the dispatch of \<open>control.ts\<close>, \<open>sw.ts\<close> and \<open>lifecycle.ts\<close>: they call the
  components in order, over streams, ports and \<open>Response\<close> objects of the platform. The page's bootstrap, the
  guest workers and the worker prelude: they patch browser objects or run arbitrary scripts, for which
  nothing here gives a meaning. The rewriting streams of \<open>transform.ts\<close>, the WebAssembly seam, the Ghostery
  engine and the bundled libcurl transport: other languages or other projects. The fingerprint
  compiler. Diagnostics, reports and developer tools: nothing reads them back. Of the extension
  subsystem, the runtime that builds the API objects and the registries of tabs, actions, notifications,
  scripts and navigation events, and the view of downloads.
  Characters from 256 on, floating point rounding outside \<open>Alarms\<close>, and the order of \<open>localeCompare\<close> are
  outside the model.
\<close>

end
